(* ===== verification/Prelude.thy ===== *)
theory Prelude
  imports Main "HOL-Library.Word" "HOL-Library.Signed_Division"
begin

text \<open>
  Shared vocabulary of the development: machine integers, pointers, the byte-addressed memory,
  the faults of the C++ program (a failing \<open>kassert\<close>, a call of \<open>abort\<close>, an
  access the language leaves undefined), results that may be a fault, and the generic lemmas on
  words and lists that the component theories use.
\<close>

unbundle bit_operations_syntax

named_theorems result_simps \<open>unfolding of fault-carrying results\<close>

section \<open>Machine integers and pointers\<close>

type_synonym u8 = "8 word"
type_synonym u16 = "16 word"
type_synonym u32 = "32 word"
type_synonym u64 = "64 word"

text \<open>Addresses are natural numbers, 0 is \<open>nullptr\<close>.\<close>

type_synonym ptr = nat

abbreviation (input) nullptr :: ptr where
  "nullptr \<equiv> 0"

section \<open>Faults and results\<close>

datatype fault =
    KAssert          \<comment> \<open>\<open>kassert (x)\<close> with a false \<open>x\<close>\<close>
  | AbortCall        \<comment> \<open>an explicit \<open>abort ()\<close>\<close>
  | NullDeref        \<comment> \<open>a member access through \<open>nullptr\<close>\<close>
  | OutOfBounds      \<comment> \<open>an array or vector access out of range\<close>
  | BufferOverflow   \<comment> \<open>a write past the end of a fixed buffer\<close>
  | DivByZero        \<comment> \<open>an integer division by zero\<close>
  | UseAfterFree     \<comment> \<open>an access to an object that was destroyed\<close>
  | UncaughtException \<comment> \<open>a library exception nothing catches\<close>
  | SignedOverflow   \<comment> \<open>signed arithmetic outside the range of its type\<close>
  | Deadlock         \<comment> \<open>a lock taken again by its owner, or never released\<close>

type_synonym 'a result = "fault + 'a"

definition rbind :: "'a result \<Rightarrow> ('a \<Rightarrow> 'b result) \<Rightarrow> 'b result" where
  [result_simps]: "rbind r f = (case r of Inl e \<Rightarrow> Inl e | Inr x \<Rightarrow> f x)"

definition kassert :: "bool \<Rightarrow> 'a result \<Rightarrow> 'a result" where
  [result_simps]: "kassert b k = (if b then k else Inl KAssert)"

lemma rbind_simps [simp]:
  "rbind (Inr x) f = f x"
  "rbind (Inl e) f = Inl e"
  by (simp_all add: rbind_def)

lemma rbind_eq_Inr: "rbind r f = Inr y \<longleftrightarrow> (\<exists>x. r = Inr x \<and> f x = Inr y)"
  by (auto simp: rbind_def split: sum.splits)

lemma kassert_simps [simp]:
  "kassert True k = k"
  "kassert False k = Inl KAssert"
  by (simp_all add: kassert_def)

lemma kassert_eq_Inr [simp]: "kassert b k = Inr y \<longleftrightarrow> b \<and> k = Inr y"
  by (simp add: kassert_def)

text \<open>Composition of calls that may not return (\<open>None\<close>) and may fault.\<close>

definition obind :: "'a result option \<Rightarrow> ('a \<Rightarrow> 'b result option) \<Rightarrow> 'b result option" where
  "obind x f = Option.bind x (\<lambda>r. case r of Inl e \<Rightarrow> Some (Inl e) | Inr y \<Rightarrow> f y)"

lemma obind_simps [simp]: "obind (Some (Inr y)) f = f y" "obind (Some (Inl e)) f = Some (Inl e)" "obind None f = None"
  by (simp_all add: obind_def)

text \<open>Signed 64-bit arithmetic on integers: a result out of range is a fault.\<close>

definition i64 :: "int \<Rightarrow> int result" where
  [result_simps]: "i64 x = (if - (2 ^ 63) \<le> x \<and> x < 2 ^ 63 then Inr x else Inl SignedOverflow)"

section \<open>Memory\<close>

type_synonym mem = "ptr \<Rightarrow> u8"

text \<open>\<open>memcpy\<close> on non-overlapping regions, and the bytes of a region.\<close>

definition memcpy :: "ptr \<Rightarrow> ptr \<Rightarrow> nat \<Rightarrow> mem \<Rightarrow> mem" where
  "memcpy dst src n m = (\<lambda>a. if dst \<le> a \<and> a < dst + n then m (src + (a - dst)) else m a)"

definition mem_bytes :: "mem \<Rightarrow> ptr \<Rightarrow> nat \<Rightarrow> u8 list" where
  "mem_bytes m a n = map m [a ..< a + n]"

lemma length_mem_bytes [simp]: "length (mem_bytes m a n) = n"
  by (simp add: mem_bytes_def)

lemma mem_bytes_nth [simp]: "i < n \<Longrightarrow> mem_bytes m a n ! i = m (a + i)"
  by (simp add: mem_bytes_def)

lemma mem_bytes_memcpy: "mem_bytes (memcpy dst src n m) dst n = mem_bytes m src n"
  by (rule nth_equalityI) (auto simp: memcpy_def)

lemma memcpy_other: "a < dst \<or> dst + n \<le> a \<Longrightarrow> memcpy dst src n m a = m a"
  by (auto simp: memcpy_def)

lemma mem_bytes_memcpy_disjoint:
  "a + k \<le> dst \<or> dst + n \<le> a \<Longrightarrow> mem_bytes (memcpy dst src n m) a k = mem_bytes m a k"
  by (rule nth_equalityI) (auto simp: memcpy_def)

lemma mem_bytes_append: "mem_bytes m a (j + k) = mem_bytes m a j @ mem_bytes m (a + j) k"
  by (rule nth_equalityI) (auto simp: nth_append)

lemma memcpy_memcpy:
  assumes "src + j + k \<le> dst \<or> dst + j + k \<le> src"
  shows "memcpy (dst + j) (src + j) k (memcpy dst src j m) = memcpy dst src (j + k) m"
proof
  fix a
  show "memcpy (dst + j) (src + j) k (memcpy dst src j m) a = memcpy dst src (j + k) m a"
    using assms by (auto simp: memcpy_def)
qed

section \<open>Lists\<close>

text \<open>A list is split in one way at the first occurrence of an element.\<close>

lemma split_at_first:
  assumes "a @ c # x = b @ c # y" "c \<notin> set a" "c \<notin> set b"
  shows "a = b \<and> x = y"
proof -
  have "takeWhile (\<lambda>e. e \<noteq> c) (z @ c # w) = z" if "c \<notin> set z" for z w
    using that by (induction z) auto
  then have "a = b" using assms by metis
  then show ?thesis using assms(1) by simp
qed

section \<open>Words\<close>

lemma unat_add_no_overflow:
  fixes a b :: "'a::len word"
  shows "unat a + unat b < 2 ^ LENGTH('a) \<Longrightarrow> unat (a + b) = unat a + unat b"
  by (simp add: unat_word_ariths)

lemma unat_sub_le:
  fixes a b :: "'a::len word"
  shows "b \<le> a \<Longrightarrow> unat (a - b) = unat a - unat b"
  by (rule unat_sub)

lemma unat_mult_no_overflow:
  fixes a b :: "'a::len word"
  shows "unat a * unat b < 2 ^ LENGTH('a) \<Longrightarrow> unat (a * b) = unat a * unat b"
  by (simp add: unat_word_ariths)

lemma unat_min_if:
  fixes a b :: "'a::len word"
  shows "unat (if a \<le> b then a else b) = min (unat a) (unat b)"
  by (auto simp: word_le_nat_alt min_def)

lemma unat_bound: "unat (x :: 'a::len word) < 2 ^ LENGTH('a)"
  by (rule unsigned_less)

lemma unat_less_u32: "unat (x :: u32) < 4294967296"
  using unat_bound [of x] by simp

lemma unat_less_u64: "unat (x :: u64) < 18446744073709551616"
  using unat_bound [of x] by simp

lemma unat_less_u16: "unat (x :: u16) < 65536"
  using unat_bound [of x] by simp

lemma unat_ucast_u32_u64 [simp]: "unat (ucast (x :: u32) :: u64) = unat x"
  using unat_bound [of x] by (simp add: unsigned_ucast_eq take_bit_nat_eq_self_iff)

lemma unat_of_nat_u32: "n < 4294967296 \<Longrightarrow> unat (of_nat n :: u32) = n"
  by (simp add: unat_of_nat)

lemma sdiv_of_nat: "int a sdiv int b = int (a div b)"
  by (cases "a = 0"; cases "b = 0") (simp_all add: signed_divide_int_def sgn_if zdiv_int)

section \<open>Vectors\<close>

text \<open>A \<open>std::vector\<close> used as a stack: \<open>push_back\<close> appends, \<open>back\<close> is the last
  element, \<open>pop_back\<close> drops it.\<close>

lemma take_butlast_pred:
  "n < length xs \<Longrightarrow> take (length (butlast xs) - n) (butlast xs) = take (length xs - Suc n) xs"
  by (cases xs rule: rev_cases) simp_all

lemma take_last_butlast:
  assumes "n < length xs"
  shows "rev (drop (length xs - Suc n) xs) = last xs # rev (drop (length (butlast xs) - n) (butlast xs))"
proof -
  from assms have "xs \<noteq> []" by auto
  then obtain ys y where xs: "xs = ys @ [y]" by (metis rev_exhaust)
  with assms show ?thesis by simp
qed

end
