(* ===== verification/Chunk.thy ===== *)
theory Chunk
  imports Prelude
begin

text \<open>
  \<open>Infiniband::MemoryManager::Chunk\<close> (\<open>src/src/core/Infiniband.h\<close>,
  \<open>Infiniband.cc\<close>): the fixed-size registered buffer with its read and write cursor. The
  cursor arithmetic is on \<open>uint32_t\<close>, as in the code; \<open>memcpy\<close> acts on the memory.
\<close>

section \<open>State and operations\<close>

record chunk =
  mr :: ptr
  qp :: "ptr option"
  lkey :: u32
  bytes :: u32
  offset :: u32
  bound :: u32
  buffer :: ptr
  my_log_id :: u64
  request_id :: u64

text \<open>The constructor leaves \<open>my_log_id\<close> and \<open>request_id\<close> as the memory under the
  object has them; they are arguments here.\<close>

definition chunk_new ::
  "ptr \<Rightarrow> u32 \<Rightarrow> ptr \<Rightarrow> u32 \<Rightarrow> u32 \<Rightarrow> u32 \<Rightarrow> ptr option \<Rightarrow> u64 \<Rightarrow> u64 \<Rightarrow> chunk" where
  "chunk_new m by buf off bd lk q lid rid =
     \<lparr>mr = m, qp = q, lkey = lk, bytes = by, offset = off, bound = bd, buffer = buf,
      my_log_id = lid, request_id = rid\<rparr>"

definition set_qp :: "ptr option \<Rightarrow> chunk \<Rightarrow> chunk" where
  "set_qp q c = c\<lparr>qp := q\<rparr>"

definition clear_qp :: "chunk \<Rightarrow> chunk" where
  "clear_qp c = set_qp None c"

definition get_offset :: "chunk \<Rightarrow> u32" where
  "get_offset c = offset c"

definition get_size :: "chunk \<Rightarrow> u32" where
  "get_size c = bound c - offset c"

definition get_bound :: "chunk \<Rightarrow> u32" where
  "get_bound c = bound c"

definition prepare_read :: "u32 \<Rightarrow> chunk \<Rightarrow> chunk" where
  "prepare_read b c = c\<lparr>offset := 0, bound := b\<rparr>"

definition chunk_read :: "ptr \<Rightarrow> u32 \<Rightarrow> chunk \<Rightarrow> mem \<Rightarrow> u32 \<times> chunk \<times> mem" where
  "chunk_read buf len c m =
     (let left = get_size c;
          read_len = (if left \<le> len then left else len);
          m' = memcpy buf (buffer c + unat (offset c)) (unat read_len) m
      in (read_len, c\<lparr>offset := offset c + read_len\<rparr>, m'))"

definition zero_read :: "u32 \<Rightarrow> chunk \<Rightarrow> u32 \<times> chunk" where
  "zero_read len c =
     (let left = get_size c;
          read_len = (if left \<le> len then left else len)
      in (read_len, c\<lparr>offset := offset c + read_len\<rparr>))"

definition chunk_write :: "ptr \<Rightarrow> u32 \<Rightarrow> chunk \<Rightarrow> mem \<Rightarrow> u32 \<times> chunk \<times> mem" where
  "chunk_write buf len c m =
     (let write_len = (if bytes c - offset c \<le> len then bytes c - offset c else len);
          m' = memcpy (buffer c + unat (offset c)) buf (unat write_len) m
      in (write_len, c\<lparr>offset := offset c + write_len\<rparr>, m'))"

definition zero_fill :: "u32 \<Rightarrow> chunk \<Rightarrow> u32 \<times> chunk" where
  "zero_fill len c =
     (let write_len = (if bytes c - offset c \<le> len then bytes c - offset c else len)
      in (write_len, c\<lparr>offset := offset c + write_len\<rparr>))"

definition full :: "chunk \<Rightarrow> bool" where
  "full c \<longleftrightarrow> offset c = bytes c"

definition reset_read_chunk :: "chunk \<Rightarrow> chunk" where
  "reset_read_chunk c = c\<lparr>offset := 0, bound := 0\<rparr>"

definition reset_write_chunk :: "chunk \<Rightarrow> chunk" where
  "reset_write_chunk c = c\<lparr>offset := 0, bound := bytes c\<rparr>"

section \<open>Well-formed cursors\<close>

text \<open>A chunk being read has \<open>offset \<le> bound \<le> bytes\<close>, one being written
  \<open>offset \<le> bytes\<close>.\<close>

definition readable :: "chunk \<Rightarrow> bool" where
  "readable c \<longleftrightarrow> offset c \<le> bound c \<and> bound c \<le> bytes c"

definition writable :: "chunk \<Rightarrow> bool" where
  "writable c \<longleftrightarrow> offset c \<le> bytes c"

lemmas chunk_defs = chunk_new_def set_qp_def clear_qp_def get_offset_def get_size_def
  get_bound_def prepare_read_def chunk_read_def zero_read_def chunk_write_def zero_fill_def
  full_def reset_read_chunk_def reset_write_chunk_def Let_def

lemma min_if_u32: "(if left \<le> len then left else len) = min left (len :: u32)"
  by (simp add: min_def)

lemma unat_min_u32: "unat (min a (b :: u32)) = min (unat a) (unat b)"
  by (auto simp: min_def word_le_nat_alt)

lemma cursor_advance:
  fixes off lim len :: u32
  assumes "off \<le> lim"
  shows "off + min (lim - off) len \<le> lim"
    and "unat (off + min (lim - off) len) = unat off + min (unat lim - unat off) (unat len)"
proof -
  let ?d = "min (lim - off) len"
  have d: "unat ?d = min (unat lim - unat off) (unat len)"
    using assms by (simp add: unat_min_u32 unat_sub_le)
  have le: "unat off \<le> unat lim"
    using assms by (simp add: word_le_nat_alt)
  have sum: "unat off + unat ?d \<le> unat lim"
    using d le by auto
  then have u: "unat (off + ?d) = unat off + unat ?d"
    using unat_bound [of lim] by (intro unat_add_no_overflow) simp
  show "off + ?d \<le> lim" using sum u by (simp add: word_le_nat_alt)
  show "unat (off + ?d) = unat off + min (unat lim - unat off) (unat len)"
    using u d by simp
qed

lemma readable_chunk_read: "readable c \<Longrightarrow> readable (fst (snd (chunk_read buf len c m)))"
  by (simp add: readable_def chunk_defs min_if_u32 cursor_advance)

lemma readable_zero_read: "readable c \<Longrightarrow> readable (snd (zero_read len c))"
  by (simp add: readable_def chunk_defs min_if_u32 cursor_advance)

lemma writable_chunk_write: "writable c \<Longrightarrow> writable (fst (snd (chunk_write buf len c m)))"
  by (simp add: writable_def chunk_defs min_if_u32 cursor_advance)

lemma writable_zero_fill: "writable c \<Longrightarrow> writable (snd (zero_fill len c))"
  by (simp add: writable_def chunk_defs min_if_u32 cursor_advance)

lemma readable_prepare_read: "b \<le> bytes c \<Longrightarrow> readable (prepare_read b c)"
  by (simp add: readable_def prepare_read_def)

lemma readable_reset [simp]: "readable (reset_read_chunk c)" "readable (reset_write_chunk c)"
  by (simp_all add: readable_def reset_read_chunk_def reset_write_chunk_def)

lemma writable_reset [simp]: "writable (reset_write_chunk c)"
  by (simp add: writable_def reset_write_chunk_def)

lemma zero_read_len:
  assumes "readable c"
  shows "unat (fst (zero_read len c)) = min (unat (bound c) - unat (offset c)) (unat len)"
  using assms by (simp add: chunk_defs readable_def min_if_u32 unat_min_u32 unat_sub_le)

lemma zero_read_size:
  assumes "readable c"
  shows "unat (get_size (snd (zero_read len c))) = unat (get_size c) - unat (fst (zero_read len c))"
proof -
  from assms have le: "offset c \<le> bound c" by (simp add: readable_def)
  then have "unat (bound c - (offset c + min (bound c - offset c) len)) =
      unat (bound c) - (unat (offset c) + min (unat (bound c) - unat (offset c)) (unat len))"
    by (simp add: unat_sub_le cursor_advance)
  with le show ?thesis
    by (simp add: chunk_defs min_if_u32 unat_min_u32 unat_sub_le)
qed

section \<open>Properties\<close>

lemma chunk_write_parts:
  assumes "writable c"
  shows "unat (fst (chunk_write buf len c m)) = min (unat (bytes c) - unat (offset c)) (unat len)"
    and "unat (offset (fst (snd (chunk_write buf len c m)))) =
           unat (offset c) + min (unat (bytes c) - unat (offset c)) (unat len)"
    and "snd (snd (chunk_write buf len c m)) =
           memcpy (buffer c + unat (offset c)) buf
             (min (unat (bytes c) - unat (offset c)) (unat len)) m"
  using assms
  by (simp_all add: chunk_defs writable_def min_if_u32 unat_min_u32 unat_sub_le cursor_advance)

lemma chunk_read_parts:
  assumes "readable c"
  shows "unat (fst (chunk_read buf len c m)) = min (unat (bound c) - unat (offset c)) (unat len)"
    and "unat (offset (fst (snd (chunk_read buf len c m)))) =
           unat (offset c) + min (unat (bound c) - unat (offset c)) (unat len)"
    and "snd (snd (chunk_read buf len c m)) =
           memcpy buf (buffer c + unat (offset c))
             (min (unat (bound c) - unat (offset c)) (unat len)) m"
  using assms
  by (simp_all add: chunk_defs readable_def min_if_u32 unat_min_u32 unat_sub_le cursor_advance)

lemma chunk_read_frame:
  "bound (fst (snd (chunk_read buf len c m))) = bound c"
  "bytes (fst (snd (chunk_read buf len c m))) = bytes c"
  "buffer (fst (snd (chunk_read buf len c m))) = buffer c"
  by (simp_all add: chunk_defs)

text \<open>\<open>Chunk::write\<close> stores the smaller of the request and the room left, keeps the cursor
  inside the buffer, and touches no byte outside \<open>[buffer, buffer + bytes)\<close>.\<close>

theorem chunk_write_in_bounds:
  assumes "writable c" and "chunk_write buf len c m = (n, c', m')"
  shows "unat n = min (unat (bytes c) - unat (offset c)) (unat len) \<and> writable c' \<and>
         unat (offset c') = unat (offset c) + unat n \<and>
         (\<forall>a. a < buffer c \<or> buffer c + unat (bytes c) \<le> a \<longrightarrow> m' a = m a)"
proof -
  have le: "unat (offset c) \<le> unat (bytes c)"
    using assms(1) by (simp add: writable_def word_le_nat_alt)
  note parts = chunk_write_parts [OF assms(1), of buf len m]
  have "m' a = m a" if "a < buffer c \<or> buffer c + unat (bytes c) \<le> a" for a
    using that le parts(3) assms(2) by (auto simp: memcpy_def min_def split: if_splits)
  then show ?thesis
    using parts(1,2) writable_chunk_write [OF assms(1), of buf len m] assms(2) by simp
qed

theorem chunk_write_in_bounds_witness:
  "let c = chunk_new 1 4 100 1 4 7 None 0 0; r = chunk_write 200 9 c (\<lambda>a. of_nat a) in
   writable c \<and> unat (fst r) = min (unat (bytes c) - unat (offset c)) 9 \<and> fst r = 3 \<and>
   snd (snd r) 104 = 104"
proof -
  let ?c = "chunk_new 1 4 100 1 4 7 None 0 0"
  let ?r = "chunk_write 200 9 ?c (\<lambda>a. of_nat a)"
  have w: "writable ?c" by (simp add: writable_def chunk_new_def)
  have e: "?r = (fst ?r, fst (snd ?r), snd (snd ?r))" by simp
  have "fst ?r = 3" by (simp add: chunk_defs)
  moreover have "snd (snd ?r) 104 = 104"
    using chunk_write_in_bounds [OF w e] by (simp add: chunk_new_def)
  ultimately show ?thesis
    using w chunk_write_in_bounds [OF w e] by (simp add: Let_def)
qed

text \<open>What \<open>Chunk::write\<close> stored is what \<open>Chunk::read\<close> returns after \<open>prepare_read\<close> of
  the written length: a chunk that is filled by the sender and handed to the reader with its
  \<open>byte_len\<close> delivers the same bytes, and is then exhausted
  (the regions do not overlap, as \<open>memcpy\<close> requires).\<close>

theorem chunk_write_read_roundtrip:
  assumes "offset c = 0" and "len \<le> bytes c"
    and "buf + unat len \<le> buffer c \<or> buffer c + unat len \<le> buf"
    and "dst + unat len \<le> buffer c \<or> buffer c + unat len \<le> dst"
  shows "let (w, c1, m1) = chunk_write buf len c m;
             (r, c2, m2) = chunk_read dst len (prepare_read w c1) m1
         in w = len \<and> r = len \<and> get_size c2 = 0 \<and>
            mem_bytes m2 dst (unat len) = mem_bytes m buf (unat len)"
proof -
  let ?m1 = "memcpy (buffer c) buf (unat len) m"
  have w: "chunk_write buf len c m = (len, c\<lparr>offset := len\<rparr>, ?m1)"
    using assms(1,2) by (auto simp: chunk_defs)
  have r: "chunk_read dst len (prepare_read len (c\<lparr>offset := len\<rparr>)) ?m1 =
      (len, c\<lparr>offset := len, bound := len\<rparr>, memcpy dst (buffer c) (unat len) ?m1)"
    by (simp add: chunk_defs)
  have "mem_bytes (memcpy dst (buffer c) (unat len) ?m1) dst (unat len) = mem_bytes m buf (unat len)"
    by (simp add: mem_bytes_memcpy)
  then show ?thesis
    using w r by (simp add: get_size_def)
qed

theorem chunk_write_read_roundtrip_witness:
  "let c = chunk_new 1 8 100 0 8 7 None 0 0; m = (\<lambda>a. of_nat a) in
   offset c = 0 \<and> (3::u32) \<le> bytes c \<and> 300 + unat (3::u32) \<le> 400 \<and>
   (let (w, c1, m1) = chunk_write 200 3 c m; (r, c2, m2) = chunk_read 300 3 (prepare_read w c1) m1
    in w = 3 \<and> r = 3 \<and> mem_bytes m2 300 3 = mem_bytes m 200 3)"
proof -
  let ?c = "chunk_new 1 8 100 0 8 7 None 0 0"
  have "offset ?c = 0" "(3::u32) \<le> bytes ?c" "200 + unat (3::u32) \<le> buffer ?c \<or> buffer ?c + unat (3::u32) \<le> 200" "300 + unat (3::u32) \<le> buffer ?c \<or> buffer ?c + unat (3::u32) \<le> 300"
    by (simp_all add: chunk_new_def)
  from chunk_write_read_roundtrip [OF this, of "\<lambda>a. of_nat a"] show ?thesis
    by (simp add: Let_def split: prod.splits) (simp add: chunk_new_def)
qed

text \<open>Reading a chunk in two calls, the second into the place where the first stopped, is
  reading it once with the sum of the lengths: same count, same cursor, same memory.\<close>

theorem chunk_read_split:
  assumes "readable c" and "unat a + unat b < 2 ^ 32"
    and "dst + unat (bytes c) \<le> buffer c \<or> buffer c + unat (bytes c) \<le> dst"
    and "chunk_read dst a c m = (n1, c1, m1)"
    and "chunk_read (dst + unat n1) b c1 m1 = (n2, c2, m2)"
  shows "chunk_read dst (a + b) c m = (n1 + n2, c2, m2)"
proof -
  let ?L = "unat (bound c) - unat (offset c)"
  have bd: "unat (bound c) \<le> unat (bytes c)" "unat (offset c) \<le> unat (bound c)"
    using assms(1) by (simp_all add: readable_def word_le_nat_alt)
  have r1: "readable c1" using readable_chunk_read [OF assms(1), of dst a m] assms(4) by simp
  note p1 = chunk_read_parts [OF assms(1), of dst a m, unfolded assms(4), simplified]
  note f1 = chunk_read_frame [of dst a c m, unfolded assms(4), simplified]
  note p2 = chunk_read_parts [OF r1, of "dst + unat n1" b m1, unfolded assms(5), simplified]
  note p = chunk_read_parts [OF assms(1), of dst "a + b" m]
  have ab: "unat (a + b) = unat a + unat b"
    using assms(2) by (simp add: unat_word_ariths)
  have n2: "unat n2 = min (?L - min ?L (unat a)) (unat b)"
    using p2(1) p1(2) f1 bd by simp
  have n: "unat (fst (chunk_read dst (a + b) c m)) = unat n1 + unat n2"
    using p(1) p1(1) n2 ab by (auto simp: min_def split: if_splits)
  have fst: "fst (chunk_read dst (a + b) c m) = n1 + n2"
    using n unat_add_no_overflow [of n1 n2] unat_less_u32 [of "fst (chunk_read dst (a + b) c m)"]
    by (simp add: word_unat_eq_iff)
  have c2: "fst (snd (chunk_read dst (a + b) c m)) = c2"
    using fst assms(4,5) by (auto simp: chunk_defs add.assoc)
  have tot: "unat n1 + unat n2 \<le> ?L" using p1(1) n2 by linarith
  have "m2 = memcpy (dst + unat n1) (buffer c + unat (offset c) + unat n1) (unat n2)
               (memcpy dst (buffer c + unat (offset c)) (unat n1) m)"
    using p2(3) p1 f1 p2(1) by (simp add: add.assoc)
  also have "\<dots> = memcpy dst (buffer c + unat (offset c)) (unat n1 + unat n2) m"
    using assms(3) bd tot by (intro memcpy_memcpy) linarith
  also have "\<dots> = snd (snd (chunk_read dst (a + b) c m))"
    using p(3) n p(1) by simp
  finally show ?thesis using fst c2 by (metis prod.collapse)
qed

theorem chunk_read_split_witness:
  "chunk_read 300 (2 + 5) (chunk_new 1 8 100 1 6 7 None 0 0) (\<lambda>_. 9) =
   (2 + 3, chunk_new 1 8 100 6 6 7 None 0 0, memcpy 302 103 3 (memcpy 300 101 2 (\<lambda>_. 9)))"
proof (rule chunk_read_split [where b = 5 and a = 2 and ?c1.0 = "chunk_new 1 8 100 3 6 7 None 0 0"
      and ?m1.0 = "memcpy 300 101 2 (\<lambda>_. 9)"])
  show "chunk_read (300 + unat (2::u32)) 5 (chunk_new 1 8 100 3 6 7 None 0 0) (memcpy 300 101 2 (\<lambda>_. 9)) =
    (3, chunk_new 1 8 100 6 6 7 None 0 0, memcpy 302 103 3 (memcpy 300 101 2 (\<lambda>_. 9)))"
    by (simp add: chunk_defs)
qed (simp_all add: chunk_defs readable_def)

end
