(* ===== verification/RxPool.thy ===== *)
theory RxPool
  imports Chunk
begin

text \<open>
  The receive side of \<open>Infiniband::MemoryManager\<close> (\<open>src/src/core/Infiniband.cc\<close>):
  \<open>MemPoolContext\<close> and \<open>PoolAllocator\<close>, through which \<open>boost::pool\<close> obtains blocks of
  receive chunks, and the huge-page allocator. \<open>boost::pool\<close> itself is not part of the
  repository; the results of \<open>manager->malloc\<close>, \<open>ibv_reg_mr\<close>, \<open>mmap\<close> and
  \<open>std::malloc\<close> are arguments.
\<close>

section \<open>Accounting of receive buffers\<close>

text \<open>The counter \<open>l_msgr_rdma_rx_bufs_total\<close> of the logger, when one is set.\<close>

record pool_ctx =
  n_bufs_allocated :: u32
  rx_bufs_total :: "u64 option"

definition pool_ctx_new :: pool_ctx where
  "pool_ctx_new = \<lparr>n_bufs_allocated = 0, rx_bufs_total = None\<rparr>"

text \<open>\<open>limit\<close> is \<open>m_rdma_receive_buffers_bytes_\<close>, an unsigned field: \<open><= 0\<close> is \<open>= 0\<close>.\<close>

definition can_alloc :: "u32 \<Rightarrow> u32 \<Rightarrow> pool_ctx \<Rightarrow> bool" where
  "can_alloc limit nbufs ctx \<longleftrightarrow> limit \<le> 0 \<or> \<not> n_bufs_allocated ctx + nbufs > limit"

definition set_stat_logger :: "bool \<Rightarrow> pool_ctx \<Rightarrow> pool_ctx" where
  "set_stat_logger logger ctx =
     ctx\<lparr>rx_bufs_total := (if logger then Some (ucast (n_bufs_allocated ctx)) else None)\<rparr>"

definition update_stats :: "int \<Rightarrow> pool_ctx \<Rightarrow> pool_ctx" where
  "update_stats nbufs ctx =
     (let ctx' = ctx\<lparr>n_bufs_allocated := n_bufs_allocated ctx + of_int nbufs\<rparr>
      in case rx_bufs_total ctx' of
           None \<Rightarrow> ctx'
         | Some t \<Rightarrow>
             if nbufs > 0 then ctx'\<lparr>rx_bufs_total := Some (t + of_int nbufs)\<rparr>
             else ctx'\<lparr>rx_bufs_total := Some (t - of_int (- nbufs))\<rparr>)"

section \<open>The block allocator\<close>

record mem_info =
  mi_mr :: ptr
  mi_nbufs :: u32
  mi_chunks :: "chunk list"

record rx_pool =
  pool_ctx_of :: pool_ctx
  blocks :: "ptr \<rightharpoonup> mem_info"

text \<open>Sizes of the x86-64 ABI: \<open>sizeof (Chunk)\<close>, the offset of \<open>data\<close> in it, and the size of the
  header \<open>mem_info\<close> in front of the chunks.\<close>

definition sizeof_Chunk :: nat where "sizeof_Chunk = 56"
definition offsetof_data :: nat where "offsetof_data = 40"
definition sizeof_mem_info :: nat where "sizeof_mem_info = 24"

definition rx_chunks :: "ptr \<Rightarrow> u32 \<Rightarrow> u32 \<Rightarrow> ptr \<Rightarrow> nat \<Rightarrow> chunk list" where
  "rx_chunks m lk bsize first n =
     map (\<lambda>i. chunk_new m bsize (first + i * (sizeof_Chunk + unat bsize) + offsetof_data) 0 0 lk None 0 0) [0 ..< n]"

text \<open>\<open>has_ctx\<close>: \<open>g_ctx\<close> is set, as it is inside \<open>with_context\<close>. \<open>a\<close> is the result of
  \<open>manager->malloc\<close>, \<open>m\<close> and \<open>lk\<close> the memory region and its key.\<close>

definition pool_malloc ::
  "bool \<Rightarrow> u32 \<Rightarrow> u32 \<Rightarrow> u64 \<Rightarrow> ptr \<Rightarrow> ptr \<Rightarrow> u32 \<Rightarrow> rx_pool \<Rightarrow> (ptr \<times> rx_pool) result" where
  "pool_malloc has_ctx limit bsize block_size a m lk p =
     kassert has_ctx
       (let chunk_buffer_size = of_nat (sizeof_Chunk + unat bsize) :: u64;
            chunk_buffer_number = block_size div chunk_buffer_size
        in if \<not> can_alloc limit (ucast chunk_buffer_number) (pool_ctx_of p) then Inr (nullptr, p)
           else if a = nullptr then Inr (nullptr, p)
           else if m = nullptr then Inr (nullptr, p)
           else
             let first = a + sizeof_mem_info;
                 info = \<lparr>mi_mr = m, mi_nbufs = ucast chunk_buffer_number,
                         mi_chunks = rx_chunks m lk bsize first (unat (ucast chunk_buffer_number :: u32))\<rparr>
             in Inr (first, p\<lparr>pool_ctx_of := update_stats (sint (ucast chunk_buffer_number :: u32)) (pool_ctx_of p),
                             blocks := (blocks p)(first \<mapsto> info)\<rparr>))"

definition pool_release :: "ptr \<Rightarrow> rx_pool \<Rightarrow> rx_pool result" where
  "pool_release block p =
     (case blocks p block of
        None \<Rightarrow> Inl NullDeref
      | Some info \<Rightarrow>
          Inr (p\<lparr>pool_ctx_of := update_stats (sint (- mi_nbufs info)) (pool_ctx_of p),
                 blocks := (blocks p)(block := None)\<rparr>))"

text \<open>The invariant: the counter is the sum over the live blocks, modulo the width of \<open>unsigned\<close>,
  and the logger's counter, once set, follows it.\<close>

definition live_bufs :: "rx_pool \<Rightarrow> nat" where
  "live_bufs p = (\<Sum>b \<in> dom (blocks p). unat (mi_nbufs (the (blocks p b))))"

definition rx_pool_inv :: "rx_pool \<Rightarrow> bool" where
  "rx_pool_inv p \<longleftrightarrow> finite (dom (blocks p)) \<and>
     n_bufs_allocated (pool_ctx_of p) = of_nat (live_bufs p)"

lemma update_stats_n [simp]: "n_bufs_allocated (update_stats k ctx) = n_bufs_allocated ctx + of_int k"
  by (simp add: update_stats_def Let_def split: option.splits)

lemma of_int_sint [simp]: "(of_int (sint (w :: u32)) :: u32) = w"
  by simp

lemma live_bufs_insert:
  assumes "finite (dom (blocks p))" and "blocks p b = None"
  shows "live_bufs (p\<lparr>pool_ctx_of := c, blocks := (blocks p)(b \<mapsto> i)\<rparr>) = unat (mi_nbufs i) + live_bufs p"
proof -
  have "(\<Sum>x \<in> dom (blocks p). unat (mi_nbufs (the (((blocks p)(b \<mapsto> i)) x)))) = live_bufs p"
    unfolding live_bufs_def using assms(2) by (intro sum.cong) (auto simp: dom_def)
  moreover have "b \<notin> dom (blocks p)" using assms(2) by auto
  ultimately show ?thesis using assms(1) by (simp add: live_bufs_def)
qed

lemma live_bufs_remove:
  assumes "finite (dom (blocks p))" and "blocks p b = Some i"
  shows "live_bufs p = unat (mi_nbufs i) + live_bufs (p\<lparr>pool_ctx_of := c, blocks := (blocks p)(b := None)\<rparr>)"
proof -
  have "(\<Sum>x \<in> dom (blocks p) - {b}. unat (mi_nbufs (the (((blocks p)(b := None)) x)))) =
        (\<Sum>x \<in> dom (blocks p) - {b}. unat (mi_nbufs (the (blocks p x))))"
    by (intro sum.cong) auto
  moreover have "b \<in> dom (blocks p)" using assms(2) by auto
  ultimately show ?thesis
    using assms by (simp add: live_bufs_def sum.remove)
qed

lemma pool_malloc_cases:
  assumes "pool_malloc hc limit bsize n a m lk p = Inr (b, p')"
  shows "(b = nullptr \<and> p' = p) \<or>
    (\<exists>i. b = a + sizeof_mem_info \<and> can_alloc limit (mi_nbufs i) (pool_ctx_of p) \<and>
       p' = p\<lparr>pool_ctx_of := update_stats (sint (mi_nbufs i)) (pool_ctx_of p), blocks := (blocks p)(b \<mapsto> i)\<rparr>)"
proof -
  let ?k = "ucast (n div of_nat (sizeof_Chunk + unat bsize)) :: u32"
  let ?i = "\<lparr>mi_mr = m, mi_nbufs = ?k, mi_chunks = rx_chunks m lk bsize (a + sizeof_mem_info) (unat ?k)\<rparr>"
  have "(b = nullptr \<and> p' = p) \<or>
    (b = a + sizeof_mem_info \<and> can_alloc limit (mi_nbufs ?i) (pool_ctx_of p) \<and>
       p' = p\<lparr>pool_ctx_of := update_stats (sint (mi_nbufs ?i)) (pool_ctx_of p), blocks := (blocks p)(b \<mapsto> ?i)\<rparr>)"
    using assms by (auto simp: pool_malloc_def Let_def split: if_splits)
  then show ?thesis by blast
qed

lemma pool_malloc_inv:
  assumes "rx_pool_inv p" and "blocks p (a + sizeof_mem_info) = None"
    and "pool_malloc hc limit bsize n a m lk p = Inr (b, p')"
  shows "rx_pool_inv p'"
  using pool_malloc_cases [OF assms(3)] assms(1,2)
  by (auto simp: rx_pool_inv_def live_bufs_insert add.commute)

lemma pool_release_inv:
  assumes "rx_pool_inv p" and "pool_release b p = Inr p'"
  shows "rx_pool_inv p'"
proof -
  obtain i where i: "blocks p b = Some i"
    and p': "p' = p\<lparr>pool_ctx_of := update_stats (sint (- mi_nbufs i)) (pool_ctx_of p), blocks := (blocks p)(b := None)\<rparr>"
    using assms(2) by (auto simp: pool_release_def split: option.splits)
  have f: "finite (dom (blocks p))" using assms(1) by (simp add: rx_pool_inv_def)
  have live: "live_bufs p = unat (mi_nbufs i) + live_bufs p'"
    unfolding p' by (rule live_bufs_remove [OF f i])
  have "n_bufs_allocated (pool_ctx_of p) = mi_nbufs i + of_nat (live_bufs p')"
    using assms(1) live by (simp add: rx_pool_inv_def)
  then show ?thesis using f by (simp add: rx_pool_inv_def p')
qed

text \<open>A run of the allocator as \<open>boost::pool\<close> drives it.\<close>

datatype pool_op = Malloc u64 ptr ptr u32 | Release ptr

inductive pool_step :: "u32 \<Rightarrow> u32 \<Rightarrow> rx_pool \<Rightarrow> pool_op \<Rightarrow> rx_pool \<Rightarrow> bool" for limit bsize where
  malloc: "blocks p (a + sizeof_mem_info) = None \<Longrightarrow> pool_malloc True limit bsize n a m lk p = Inr (b, p') \<Longrightarrow>
     pool_step limit bsize p (Malloc n a m lk) p'"
| release: "pool_release b p = Inr p' \<Longrightarrow> pool_step limit bsize p (Release b) p'"

inductive pool_reachable :: "u32 \<Rightarrow> u32 \<Rightarrow> rx_pool \<Rightarrow> bool" for limit bsize where
  start: "pool_reachable limit bsize \<lparr>pool_ctx_of = pool_ctx_new, blocks = Map.empty\<rparr>"
| step: "pool_reachable limit bsize p \<Longrightarrow> pool_step limit bsize p op p' \<Longrightarrow> pool_reachable limit bsize p'"

lemma pool_reachable_inv: "pool_reachable limit bsize p \<Longrightarrow> rx_pool_inv p"
proof (induction rule: pool_reachable.induct)
  case start
  show ?case by (simp add: rx_pool_inv_def live_bufs_def pool_ctx_new_def)
next
  case (step p op p')
  from step.hyps(2) step.IH show ?case
    by (cases rule: pool_step.cases) (auto intro: pool_malloc_inv pool_release_inv)
qed

text \<open>The receive pool accounts for its memory. However \<open>boost::pool\<close> asks for and returns
  blocks, \<open>n_bufs_allocated\<close> is the number of chunks in the live blocks (as an \<open>unsigned\<close>); so
  when everything has been returned it is back at zero.\<close>

theorem rx_accounting:
  assumes "pool_reachable limit bsize p"
  shows "n_bufs_allocated (pool_ctx_of p) = of_nat (live_bufs p) \<and>
         (blocks p = Map.empty \<longrightarrow> n_bufs_allocated (pool_ctx_of p) = 0)"
  using pool_reachable_inv [OF assms] by (simp add: rx_pool_inv_def live_bufs_def)

theorem rx_accounting_witness:
  "\<exists>p. pool_reachable 100 8 p \<and> blocks p \<noteq> Map.empty \<and> n_bufs_allocated (pool_ctx_of p) = of_nat (live_bufs p)"
proof -
  let ?p0 = "\<lparr>pool_ctx_of = pool_ctx_new, blocks = Map.empty\<rparr>"
  obtain p where p: "pool_malloc True 100 8 640 1000 1 7 ?p0 = Inr (1024, p)" "blocks p \<noteq> Map.empty"
    by (simp add: pool_malloc_def can_alloc_def pool_ctx_new_def Let_def sizeof_Chunk_def sizeof_mem_info_def)
  have "pool_step 100 8 ?p0 (Malloc 640 1000 1 7) p"
    using p(1) by (intro pool_step.malloc) auto
  then have r: "pool_reachable 100 8 p" using pool_reachable.start pool_reachable.step by blast
  show ?thesis using r p(2) rx_accounting [OF r] by blast
qed

text \<open>The configured limit is respected. As long as the sum does not wrap around, a block is
  handed out only when the pool stays within \<open>m_rdma_receive_buffers_bytes_\<close> chunks, and a request
  that would exceed the limit returns \<open>NULL\<close> and changes nothing.\<close>

theorem rx_limit:
  assumes "rx_pool_inv p" and "blocks p (a + sizeof_mem_info) = None" and "limit \<noteq> 0"
    and "live_bufs p + unat block_size div (sizeof_Chunk + unat bsize) < 2 ^ 32"
    and "pool_malloc True limit bsize block_size a m lk p = Inr (b, p')"
  shows "(b \<noteq> nullptr \<longrightarrow> live_bufs p' = live_bufs p + unat block_size div (sizeof_Chunk + unat bsize) \<and>
            live_bufs p' \<le> unat limit) \<and>
         (unat limit < live_bufs p + unat block_size div (sizeof_Chunk + unat bsize) \<longrightarrow>
            b = nullptr \<and> p' = p)"
proof -
  let ?n = "unat block_size div (sizeof_Chunk + unat bsize)"
  let ?w = "block_size div of_nat (sizeof_Chunk + unat bsize)"
  have sz: "sizeof_Chunk + unat bsize < 2 ^ 64"
    using unat_less_u32 [of bsize] by (simp add: sizeof_Chunk_def)
  have uw: "unat ?w = ?n"
    using sz by (simp add: unat_div unat_of_nat del: of_nat_add)
  have n: "?n < 2 ^ 32" using assms(4) by linarith
  have uc: "unat (ucast ?w :: u32) = ?n"
    using n uw by (simp add: unsigned_ucast_eq take_bit_eq_mod del: of_nat_add)
  have live: "unat (n_bufs_allocated (pool_ctx_of p)) = live_bufs p"
    using assms(1,4) by (simp add: rx_pool_inv_def unat_of_nat)
  have sum: "unat (n_bufs_allocated (pool_ctx_of p) + ucast ?w) = live_bufs p + ?n"
    using assms(4) live uc by (subst unat_add_no_overflow) simp_all
  have can: "can_alloc limit (ucast ?w) (pool_ctx_of p) \<longleftrightarrow> live_bufs p + ?n \<le> unat limit"
    using assms(3) sum by (auto simp: can_alloc_def word_less_nat_alt not_less)
  have f: "finite (dom (blocks p))" using assms(1) by (simp add: rx_pool_inv_def)
  show ?thesis
    using assms(5,2) can uc by (auto simp: pool_malloc_def Let_def live_bufs_insert [OF f] split: if_splits)
qed

theorem rx_limit_witness:
  "let p = \<lparr>pool_ctx_of = pool_ctx_new, blocks = Map.empty\<rparr> in
   rx_pool_inv p \<and> (\<exists>p'. pool_malloc True 10 8 640 1000 1 7 p = Inr (1024, p') \<and> live_bufs p' = 10) \<and>
   pool_malloc True 9 8 640 1000 1 7 p = Inr (nullptr, p)"
proof -
  let ?p = "\<lparr>pool_ctx_of = pool_ctx_new, blocks = Map.empty\<rparr>"
  have i: "rx_pool_inv ?p" by (simp add: rx_pool_inv_def live_bufs_def pool_ctx_new_def)
  have b: "blocks ?p (1000 + sizeof_mem_info) = None" by simp
  have l: "live_bufs ?p + unat (640 :: u64) div (sizeof_Chunk + unat (8 :: u32)) < 2 ^ 32"
    by (simp add: live_bufs_def sizeof_Chunk_def)
  obtain p' where p': "pool_malloc True 10 8 640 1000 1 7 ?p = Inr (1024, p')"
    by (simp add: pool_malloc_def can_alloc_def pool_ctx_new_def Let_def sizeof_Chunk_def sizeof_mem_info_def)
  obtain b2 p2 where p2: "pool_malloc True 9 8 640 1000 1 7 ?p = Inr (b2, p2)"
    by (simp add: pool_malloc_def can_alloc_def pool_ctx_new_def Let_def sizeof_Chunk_def sizeof_mem_info_def)
  show ?thesis
    using i p' p2 rx_limit [OF i b _ l p'] rx_limit [OF i b _ l p2]
    by (simp add: live_bufs_def sizeof_Chunk_def)
qed

section \<open>Huge pages\<close>

definition HUGE_PAGE_SIZE_2MB :: u64 where
  "HUGE_PAGE_SIZE_2MB = 2 * 1024 * 1024"

definition ALIGN_TO_PAGE_2MB :: "u64 \<Rightarrow> u64" where
  "ALIGN_TO_PAGE_2MB x = (x + (HUGE_PAGE_SIZE_2MB - 1)) AND NOT (HUGE_PAGE_SIZE_2MB - 1)"

text \<open>The size kept in front of the block: 0 when the block came from \<open>std::malloc\<close>. \<open>mm\<close> is the
  result of \<open>mmap\<close> (\<open>None\<close> for \<open>MAP_FAILED\<close>), \<open>sm\<close> that of \<open>std::malloc\<close>.\<close>

definition huge_pages_malloc ::
  "u64 \<Rightarrow> ptr option \<Rightarrow> ptr \<Rightarrow> (ptr \<rightharpoonup> u64) \<Rightarrow> ptr \<times> (ptr \<rightharpoonup> u64)" where
  "huge_pages_malloc sz mm sm hdr =
     (let real_size = ALIGN_TO_PAGE_2MB sz + HUGE_PAGE_SIZE_2MB
      in case mm of
           Some p \<Rightarrow> (p + unat HUGE_PAGE_SIZE_2MB, hdr(p \<mapsto> real_size))
         | None \<Rightarrow> if sm = nullptr then (nullptr, hdr)
                   else (sm + unat HUGE_PAGE_SIZE_2MB, hdr(sm \<mapsto> 0)))"

datatype release_call = NoRelease | Munmap ptr u64 | StdFree ptr

definition huge_pages_free :: "ptr \<Rightarrow> (ptr \<rightharpoonup> u64) \<Rightarrow> release_call result" where
  "huge_pages_free p hdr =
     (if p = nullptr then Inr NoRelease
      else
        let real_ptr = p - unat HUGE_PAGE_SIZE_2MB
        in case hdr real_ptr of
             None \<Rightarrow> Inl OutOfBounds
           | Some real_size \<Rightarrow>
               kassert (real_size mod HUGE_PAGE_SIZE_2MB = 0)
                 (if real_size \<noteq> 0 then Inr (Munmap real_ptr real_size) else Inr (StdFree real_ptr)))"

lemma and_not_mask_u64: "(x :: u64) AND NOT (mask n) = x - take_bit n x"
proof -
  have "x AND NOT (mask n) = push_bit n (drop_bit n x)"
    by (rule bit_word_eqI) (auto simp: bit_simps)
  then show ?thesis using bits_ident [of n x] by (metis add_diff_cancel_right')
qed

lemma align_unat:
  assumes "unat x + 2097151 < 2 ^ 64"
  shows "unat (ALIGN_TO_PAGE_2MB x) = (unat x + 2097151) div 2097152 * 2097152"
proof -
  have m: "HUGE_PAGE_SIZE_2MB - 1 = (mask 21 :: u64)" by (simp add: HUGE_PAGE_SIZE_2MB_def mask_eq_decr_exp)
  let ?y = "x + mask 21 :: u64"
  have y: "unat ?y = unat x + 2097151"
    using assms by (subst unat_add_no_overflow) (simp_all add: mask_eq_decr_exp)
  have t: "unat (take_bit 21 ?y) = unat ?y mod 2097152"
    by (simp add: unsigned_take_bit_eq take_bit_eq_mod [where 'a = nat])
  have le: "take_bit 21 ?y \<le> ?y"
    using t by (simp add: word_le_nat_alt)
  have "unat (ALIGN_TO_PAGE_2MB x) = unat ?y - unat ?y mod 2097152"
    unfolding ALIGN_TO_PAGE_2MB_def m and_not_mask_u64 using unat_sub_le [OF le] t by simp
  then show ?thesis by (simp add: y minus_mod_eq_div_mult)
qed

text \<open>The huge-page allocator is self-consistent. The request, rounded up to whole 2 MB pages,
  fits behind the header page, and \<open>huge_pages_free\<close> of the block never fails its assertion and
  gives the block back to the allocator it came from: an \<open>mmap\<close>ed one with its full sz, a
  \<open>malloc\<close>ed one to \<open>free\<close>.\<close>

theorem huge_pages_roundtrip:
  assumes "unat sz + 2 * unat HUGE_PAGE_SIZE_2MB < 2 ^ 64"
    and "huge_pages_malloc sz mm sm hdr = (p, hdr')" and "p \<noteq> nullptr"
  shows "huge_pages_free p hdr' =
           Inr (case mm of Some q \<Rightarrow> Munmap q (ALIGN_TO_PAGE_2MB sz + HUGE_PAGE_SIZE_2MB) | None \<Rightarrow> StdFree sm) \<and>
         unat sz + unat HUGE_PAGE_SIZE_2MB \<le> unat (ALIGN_TO_PAGE_2MB sz + HUGE_PAGE_SIZE_2MB)"
proof -
  let ?q = "(unat sz + 2097151) div 2097152"
  have h: "unat HUGE_PAGE_SIZE_2MB = 2097152" by (simp add: HUGE_PAGE_SIZE_2MB_def)
  have a: "unat (ALIGN_TO_PAGE_2MB sz) = ?q * 2097152" using assms(1) h by (intro align_unat) simp
  have q: "?q * 2097152 \<le> unat sz + 2097151" "unat sz \<le> ?q * 2097152" by simp_all
  have r: "unat (ALIGN_TO_PAGE_2MB sz + HUGE_PAGE_SIZE_2MB) = (?q + 1) * 2097152"
    using a h q assms(1) by (subst unat_add_no_overflow) simp_all
  have "unat ((ALIGN_TO_PAGE_2MB sz + HUGE_PAGE_SIZE_2MB) mod HUGE_PAGE_SIZE_2MB) = 0"
    by (simp only: unat_mod r h) simp
  then have m: "(ALIGN_TO_PAGE_2MB sz + HUGE_PAGE_SIZE_2MB) mod HUGE_PAGE_SIZE_2MB = 0"
    by (simp only: unat_eq_zero)
  have nz: "ALIGN_TO_PAGE_2MB sz + HUGE_PAGE_SIZE_2MB \<noteq> 0" using r by (metis add_eq_0_iff_both_eq_0 mult_is_0 one_neq_zero unsigned_0 zero_neq_numeral)
  have fits: "unat sz + unat HUGE_PAGE_SIZE_2MB \<le> unat (ALIGN_TO_PAGE_2MB sz + HUGE_PAGE_SIZE_2MB)"
    using q h r by simp
  show ?thesis
  proof (cases mm)
    case None
    then show ?thesis using assms(2,3) fits h
      by (auto simp: huge_pages_malloc_def huge_pages_free_def Let_def split: if_splits)
  next
    case (Some a)
    then have "p = a + 2097152" "hdr' = hdr(a \<mapsto> ALIGN_TO_PAGE_2MB sz + HUGE_PAGE_SIZE_2MB)"
      using assms(2) h by (simp_all add: huge_pages_malloc_def Let_def)
    then show ?thesis using Some fits h nz
      unfolding huge_pages_free_def Let_def by simp (rule m)
  qed
qed

theorem huge_pages_roundtrip_witness:
  "huge_pages_free 2097153 (snd (huge_pages_malloc 5 (Some 1) 0 Map.empty)) = Inr (Munmap 1 4194304)"
proof -
  have e: "huge_pages_malloc 5 (Some 1) 0 Map.empty = (2097153, [1 \<mapsto> ALIGN_TO_PAGE_2MB 5 + HUGE_PAGE_SIZE_2MB])"
    by (simp add: huge_pages_malloc_def HUGE_PAGE_SIZE_2MB_def Let_def)
  have a: "ALIGN_TO_PAGE_2MB 5 + HUGE_PAGE_SIZE_2MB = 4194304"
    by (simp add: ALIGN_TO_PAGE_2MB_def HUGE_PAGE_SIZE_2MB_def)
  show ?thesis using huge_pages_roundtrip [OF _ e] e a by (simp add: HUGE_PAGE_SIZE_2MB_def)
qed

end
