(* ===== verification/RecvQueue.thy ===== *)
theory RecvQueue
  imports Prelude
begin

text \<open>
  Posting receive buffers (\<open>Infiniband::post_chunks_to_rq\<close>,
  \<open>recall_chunk_to_pool\<close>, \<open>QueuePair::add_rq_wr\<close>, \<open>remove_rq_wr\<close>,
  \<open>MemoryManager::release_rx_buffer\<close> and \<open>~QueuePair\<close> in
  \<open>src/src/core/Infiniband.cc\<close> and \<open>Infiniband.h\<close>). Chunks are pointers; the results of
  \<open>rxbuf_pool.malloc\<close> and of \<open>ibv_post_recv\<close> are arguments.
\<close>

section \<open>State and operations\<close>

text \<open>The receive queue of one queue pair, the back pointers of the chunks, and the chunks handed
  back to the receive pool, in order.\<close>

record rq_state =
  recv_queue :: "ptr list"
  chunk_qp :: "ptr \<Rightarrow> ptr option"
  pool_returned :: "ptr list"

definition add_rq_wr :: "bool \<Rightarrow> ptr \<Rightarrow> rq_state \<Rightarrow> rq_state" where
  "add_rq_wr srq c st = (if srq then st else st\<lparr>recv_queue := recv_queue st @ [c]\<rparr>)"

definition remove_rq_wr :: "bool \<Rightarrow> ptr \<Rightarrow> rq_state \<Rightarrow> rq_state result" where
  "remove_rq_wr srq c st =
     (if srq then Inr st
      else kassert (c \<in> set (recv_queue st)) (Inr (st\<lparr>recv_queue := remove1 c (recv_queue st)\<rparr>)))"

definition chunk_set_qp :: "ptr \<Rightarrow> ptr option \<Rightarrow> rq_state \<Rightarrow> rq_state" where
  "chunk_set_qp c q st = st\<lparr>chunk_qp := (chunk_qp st)(c := q)\<rparr>"

definition release_rx_buffer :: "ptr \<Rightarrow> rq_state \<Rightarrow> rq_state" where
  "release_rx_buffer c st = (chunk_set_qp c None st)\<lparr>pool_returned := pool_returned st @ [c]\<rparr>"

definition recall_chunk_to_pool :: "bool \<Rightarrow> ptr \<Rightarrow> rq_state \<Rightarrow> rq_state result" where
  "recall_chunk_to_pool srq c st =
     (case chunk_qp st c of
        Some q \<Rightarrow> rbind (remove_rq_wr srq c st) (\<lambda>st'. Inr (release_rx_buffer c st'))
      | None \<Rightarrow> Inr (release_rx_buffer c st))"

text \<open>The allocation loop: \<open>bufs i\<close> is what \<open>get_rx_buffer\<close> returns in round \<open>i\<close>, \<open>k\<close> the rounds
  left, \<open>cap\<close> the size of the request array. The result has the chunk of every request filled in.\<close>

fun post_loop :: "(nat \<Rightarrow> ptr) \<Rightarrow> ptr \<Rightarrow> bool \<Rightarrow> nat \<Rightarrow> nat \<Rightarrow> ptr list \<Rightarrow> rq_state \<Rightarrow> (ptr list \<times> rq_state) result" where
  "post_loop bufs q srq cap 0 wrs st = Inr (wrs, st)"
| "post_loop bufs q srq cap (Suc k) wrs st =
     (let c = bufs (length wrs) in
      if c = nullptr then Inr (wrs, st)
      else if cap \<le> length wrs then Inl BufferOverflow
      else post_loop bufs q srq cap k (wrs @ [c])
             (if \<not> srq then add_rq_wr srq c (chunk_set_qp c (Some q) st) else st))"

text \<open>The error loop: from the first request that was not posted up to, but not including, the last.\<close>

fun unpost :: "bool \<Rightarrow> ptr list \<Rightarrow> int \<Rightarrow> rq_state \<Rightarrow> (int \<times> rq_state) result" where
  "unpost srq [] i st = Inl NullDeref"
| "unpost srq [last_wr] i st = Inr (i, st)"
| "unpost srq (c # cs) i st =
     rbind (remove_rq_wr srq c st)
       (\<lambda>st'. kassert (i - 1 \<ge> 0) (unpost srq cs (i - 1) (release_rx_buffer c (chunk_set_qp c None st'))))"

text \<open>\<open>q\<close> is the queue pair (\<open>None\<close> for \<open>NULL\<close>), \<open>ret\<close> and \<open>bad\<close> the result of the verbs call and
  the position of \<open>*bad_wr\<close>.\<close>

definition post_chunks_to_rq ::
  "(nat \<Rightarrow> ptr) \<Rightarrow> bool \<Rightarrow> nat \<Rightarrow> int \<Rightarrow> nat \<Rightarrow> int \<Rightarrow> ptr option \<Rightarrow> rq_state \<Rightarrow> (int \<times> rq_state) result" where
  "post_chunks_to_rq bufs srq cap ret bad rq_wr_num q st =
     (case q of
        None \<Rightarrow> Inl NullDeref
      | Some qp \<Rightarrow>
          rbind (post_loop bufs qp srq cap (nat rq_wr_num) [] st)
            (\<lambda>(wrs, st').
               if wrs = [] \<and> 0 < rq_wr_num then Inr (0, st')
               else kassert (int (length wrs) = rq_wr_num)
                 (if wrs = [] then Inl OutOfBounds
                  else if ret \<noteq> 0 then unpost srq (drop bad wrs) (int (length wrs)) st'
                  else Inr (int (length wrs), st'))))"

text \<open>\<open>~QueuePair\<close>: the log line reads \<open>qp->qp_num\<close> before the null test; then the verbs object is
  destroyed (\<open>ret\<close> is what \<open>ibv_destroy_qp\<close> returns) and every chunk still queued goes back to the
  pool. \<open>live\<close> says that the verbs object was not destroyed before.\<close>

definition qp_destroy :: "ptr option \<Rightarrow> bool \<Rightarrow> int \<Rightarrow> rq_state \<Rightarrow> rq_state result" where
  "qp_destroy qp live ret st =
     (case qp of
        None \<Rightarrow> Inl NullDeref
      | Some p \<Rightarrow> if \<not> live then Inl UseAfterFree else kassert (ret = 0)
          (Inr ((foldl (\<lambda>s c. release_rx_buffer c s) st (recv_queue st))\<lparr>recv_queue := []\<rparr>)))"

section \<open>The loop\<close>

lemmas rq_defs = add_rq_wr_def remove_rq_wr_def chunk_set_qp_def release_rx_buffer_def

lemma post_loop_full:
  assumes "\<forall>i < length wrs + k. bufs i \<noteq> nullptr" and "length wrs + k \<le> cap"
  shows "\<exists>st'. post_loop bufs q False cap k wrs st = Inr (wrs @ map bufs [length wrs ..< length wrs + k], st') \<and>
    recv_queue st' = recv_queue st @ map bufs [length wrs ..< length wrs + k] \<and>
    (\<forall>c. chunk_qp st' c = (if c \<in> bufs ` {length wrs ..< length wrs + k} then Some q else chunk_qp st c)) \<and>
    pool_returned st' = pool_returned st"
  using assms
proof (induction k arbitrary: wrs st)
  case 0
  then show ?case by simp
next
  case (Suc k)
  let ?n = "length wrs" and ?st = "add_rq_wr False (bufs (length wrs)) (chunk_set_qp (bufs (length wrs)) (Some q) st)"
  have up: "[?n ..< ?n + Suc k] = ?n # [Suc ?n ..< Suc ?n + k]" by (simp add: upt_conv_Cons)
  have im: "{?n ..< ?n + Suc k} = insert ?n {Suc ?n ..< Suc ?n + k}" by auto
  have pre: "\<forall>i < length (wrs @ [bufs ?n]) + k. bufs i \<noteq> nullptr" "length (wrs @ [bufs ?n]) + k \<le> cap"
    using Suc.prems by simp_all
  have ok: "bufs ?n \<noteq> nullptr" "\<not> cap \<le> ?n" using Suc.prems by simp_all
  obtain st' where st': "post_loop bufs q False cap k (wrs @ [bufs ?n]) ?st = Inr (wrs @ map bufs [?n ..< ?n + Suc k], st')"
      "recv_queue st' = recv_queue ?st @ map bufs [Suc ?n ..< Suc ?n + k]"
      "\<forall>c. chunk_qp st' c = (if c \<in> bufs ` {Suc ?n ..< Suc ?n + k} then Some q else chunk_qp ?st c)"
      "pool_returned st' = pool_returned ?st"
    using Suc.IH [OF pre, of ?st] unfolding up by auto
  show ?case
  proof (intro exI [of _ st'] conjI)
    show "post_loop bufs q False cap (Suc k) wrs st = Inr (wrs @ map bufs [?n ..< ?n + Suc k], st')"
      using ok st'(1) by (simp add: Let_def)
    show "recv_queue st' = recv_queue st @ map bufs [?n ..< ?n + Suc k]"
      unfolding up using st'(2) by (simp add: rq_defs)
    show "\<forall>c. chunk_qp st' c = (if c \<in> bufs ` {?n ..< ?n + Suc k} then Some q else chunk_qp st c)"
      unfolding im using st'(3) by (simp add: rq_defs)
    show "pool_returned st' = pool_returned st" using st'(4) by (simp add: rq_defs)
  qed
qed

lemma post_loop_short:
  assumes "\<forall>i < m. bufs i \<noteq> nullptr" and "bufs m = nullptr" and "length wrs \<le> m" and "m < length wrs + k" and "m < cap"
  shows "\<exists>wrs' st'. post_loop bufs q srq cap k wrs st = Inr (wrs', st') \<and> length wrs' = m"
  using assms
proof (induction k arbitrary: wrs st)
  case 0
  then show ?case by simp
next
  case (Suc k)
  show ?case
  proof (cases "length wrs = m")
    case True
    then show ?thesis using Suc.prems(2) by (simp add: Let_def)
  next
    case False
    then have l: "length wrs < m" using Suc.prems(3) by simp
    then have "bufs (length wrs) \<noteq> nullptr" "\<not> cap \<le> length wrs" using Suc.prems by auto
    moreover have "length (wrs @ [bufs (length wrs)]) \<le> m" "m < length (wrs @ [bufs (length wrs)]) + k"
      using l Suc.prems(4) by simp_all
    ultimately show ?thesis using Suc.IH [OF Suc.prems(1,2) _ _ Suc.prems(5)] by (simp add: Let_def)
  qed
qed


lemma post_loop_overflow:
  assumes "\<forall>i \<le> cap. bufs i \<noteq> nullptr" and "length wrs \<le> cap" and "cap < length wrs + k"
  shows "post_loop bufs q srq cap k wrs st = Inl BufferOverflow"
  using assms
proof (induction k arbitrary: wrs st)
  case 0
  then show ?case by simp
next
  case (Suc k)
  have nn: "bufs (length wrs) \<noteq> nullptr" using Suc.prems by simp
  show ?case
  proof (cases "length wrs = cap")
    case True
    then show ?thesis using nn by (simp add: Let_def)
  next
    case False
    then have "length (wrs @ [bufs (length wrs)]) \<le> cap" "cap < length (wrs @ [bufs (length wrs)]) + k"
      using Suc.prems by simp_all
    then show ?thesis using Suc.IH [OF Suc.prems(1)] nn False Suc.prems(2) by (simp add: Let_def)
  qed
qed

lemma unpost_clears:
  assumes "distinct cs" and "set cs \<subseteq> set (recv_queue st)" and "int (length cs) \<le> i" and "cs \<noteq> []"
  shows "\<exists>st'. unpost False cs i st = Inr (i - int (length cs) + 1, st') \<and>
     recv_queue st' = foldl (\<lambda>q c. remove1 c q) (recv_queue st) (butlast cs) \<and>
     pool_returned st' = pool_returned st @ butlast cs \<and>
     chunk_qp st' = (\<lambda>c. if c \<in> set (butlast cs) then None else chunk_qp st c)"
  using assms
proof (induction "False" cs i st rule: unpost.induct)
  case (3 c d cs i st)
  let ?st = "release_rx_buffer c (chunk_set_qp c None (st\<lparr>recv_queue := remove1 c (recv_queue st)\<rparr>))"
  have c: "c \<in> set (recv_queue st)" using "3.prems" by simp
  have sub: "set (d # cs) \<subseteq> set (recv_queue ?st)"
    using "3.prems"(1,2) by (auto simp: rq_defs) (metis in_set_remove1 subsetD)
  have rm: "remove_rq_wr False c st = Inr (st\<lparr>recv_queue := remove1 c (recv_queue st)\<rparr>)"
    using c by (simp add: remove_rq_wr_def kassert_def)
  obtain st' where st': "unpost False (d # cs) (i - 1) ?st = Inr (i - 1 - int (length (d # cs)) + 1, st')"
      "recv_queue st' = foldl (\<lambda>q c. remove1 c q) (recv_queue ?st) (butlast (d # cs))"
      "pool_returned st' = pool_returned ?st @ butlast (d # cs)"
      "chunk_qp st' = (\<lambda>c. if c \<in> set (butlast (d # cs)) then None else chunk_qp ?st c)"
    using "3.hyps" [OF _ sub] "3.prems" by auto
  have "unpost False (c # d # cs) i st = Inr (i - int (length (c # d # cs)) + 1, st')"
    using st'(1) "3.prems"(3) by (simp add: rm kassert_def)
  moreover have "recv_queue st' = foldl (\<lambda>q c. remove1 c q) (recv_queue st) (butlast (c # d # cs))"
    using st'(2) by (simp add: rq_defs)
  moreover have "pool_returned st' = pool_returned st @ butlast (c # d # cs)"
    using st'(3) by (simp add: rq_defs)
  moreover have "chunk_qp st' = (\<lambda>c'. if c' \<in> set (butlast (c # d # cs)) then None else chunk_qp st c')"
    unfolding st'(4) by (rule ext) (simp add: rq_defs)
  ultimately show ?case by blast
qed simp_all

section \<open>Properties\<close>

text \<open>Posting receive buffers accounts for every chunk. When the pool has the buffers and the verbs
  call succeeds, the call returns the requested number, the queue pair's receive list grows by exactly
  these chunks in order, every one of them points back at the queue pair, and nothing is released.\<close>

theorem post_chunks_all_posted:
  assumes "0 < num" and "\<forall>i < nat num. bufs i \<noteq> nullptr" and "nat num \<le> cap"
  shows "\<exists>st'. post_chunks_to_rq bufs False cap 0 bad num (Some q) st = Inr (num, st') \<and>
    recv_queue st' = recv_queue st @ map bufs [0 ..< nat num] \<and>
    (\<forall>c. chunk_qp st' c = (if c \<in> bufs ` {0 ..< nat num} then Some q else chunk_qp st c)) \<and>
    pool_returned st' = pool_returned st"
proof -
  obtain st' where "post_loop bufs q False cap (nat num) [] st = Inr (map bufs [0 ..< nat num], st')"
      "recv_queue st' = recv_queue st @ map bufs [0 ..< nat num]"
      "\<forall>c. chunk_qp st' c = (if c \<in> bufs ` {0 ..< nat num} then Some q else chunk_qp st c)"
      "pool_returned st' = pool_returned st"
    using post_loop_full [of "[]" "nat num" bufs cap q st] assms(2,3) by auto
  then show ?thesis using assms(1) by (simp add: post_chunks_to_rq_def kassert_def)
qed

theorem post_chunks_all_posted_witness:
  "\<exists>st'. post_chunks_to_rq (\<lambda>i. 100 + i) False 8 0 0 2 (Some 7)
      \<lparr>recv_queue = [50], chunk_qp = \<lambda>_. None, pool_returned = []\<rparr> = Inr (2, st') \<and>
    recv_queue st' = [50, 100, 101]"
  using post_chunks_all_posted [of 2 "\<lambda>i. 100 + i" 8 0 7 "\<lparr>recv_queue = [50], chunk_qp = \<lambda>_. None, pool_returned = []\<rparr>"]
  by (auto simp: numeral_2_eq_2 upt_rec)

text \<open>When the pool runs dry after at least one buffer, the call does not post the buffers it
  already has: it aborts on the assertion after the loop, whatever the verbs call would answer.\<close>

theorem post_chunks_partial_aborts:
  assumes "0 < m" and "int m < num" and "\<forall>i < m. bufs i \<noteq> nullptr" and "bufs m = nullptr" and "m < cap"
  shows "post_chunks_to_rq bufs srq cap ret bad num (Some q) st = Inl KAssert"
proof -
  obtain wrs st' where "post_loop bufs q srq cap (nat num) [] st = Inr (wrs, st')" "length wrs = m"
    using post_loop_short [OF assms(3,4) _ _ assms(5), of "[]" "nat num" q srq st]
      zless_nat_eq_int_zless [of m num] assms(2) by auto
  then show ?thesis using assms(1,2) by (auto simp: post_chunks_to_rq_def kassert_def)
qed

theorem post_chunks_partial_aborts_witness:
  "post_chunks_to_rq (\<lambda>i. if i < 2 then 100 + i else 0) False 8 0 0 5 (Some 7)
      \<lparr>recv_queue = [], chunk_qp = \<lambda>_. None, pool_returned = []\<rparr> = Inl KAssert"
  by (rule post_chunks_partial_aborts [of 2]) auto

text \<open>When the verbs call rejects the requests from position \<open>bad\<close> on, only the rejected chunks
  before the last one go back to the pool and leave the receive list. The call reports one more
  chunk than was posted, and the last rejected chunk stays on the receive list and keeps its back
  pointer although the hardware does not have it.\<close>

theorem post_chunks_rejected:
  assumes "0 < num" and "\<forall>i < nat num. bufs i \<noteq> nullptr" and "nat num \<le> cap" and "ret \<noteq> 0"
    and "bad < nat num" and "inj_on bufs {0 ..< nat num}" and "bufs ` {0 ..< nat num} \<inter> set (recv_queue st) = {}"
  shows "\<exists>st'. post_chunks_to_rq bufs False cap ret bad num (Some q) st = Inr (int bad + 1, st') \<and>
    bufs (nat num - 1) \<in> set (recv_queue st') \<and> chunk_qp st' (bufs (nat num - 1)) = Some q \<and>
    pool_returned st' = pool_returned st @ map bufs [bad ..< nat num - 1]"
proof -
  let ?n = "nat num" and ?cs = "drop bad (map bufs [0 ..< nat num])"
  obtain st1 where st1: "post_loop bufs q False cap ?n [] st = Inr (map bufs [0 ..< ?n], st1)"
      "recv_queue st1 = recv_queue st @ map bufs [0 ..< ?n]"
      "\<forall>c. chunk_qp st1 c = (if c \<in> bufs ` {0 ..< ?n} then Some q else chunk_qp st c)"
      "pool_returned st1 = pool_returned st"
    using post_loop_full [of "[]" ?n bufs cap q st] assms(2,3) by auto
  have cs: "?cs = map bufs [bad ..< ?n]" by (simp add: drop_map)
  have d: "distinct ?cs" unfolding cs using assms(6) by (auto simp: distinct_map intro: inj_on_subset)
  obtain m where m: "?n = Suc m" "bad \<le> m" using assms(1,5) by (cases ?n) auto
  have bl: "butlast ?cs = map bufs [bad ..< m]" unfolding cs m(1) using m(2) by (simp add: drop_map)
  have last: "bufs m \<notin> set (butlast ?cs)"
    using assms(6) m unfolding bl by (auto dest: inj_onD)
  have rm: "bufs m \<in> set (foldl (\<lambda>q c. remove1 c q) xs cs) \<longleftrightarrow> bufs m \<in> set xs" if "bufs m \<notin> set cs" for xs cs
    using that by (induction cs arbitrary: xs) simp_all
  have pre: "set ?cs \<subseteq> set (recv_queue st1)" "int (length ?cs) \<le> int ?n" "?cs \<noteq> []"
    using st1(2) m set_drop_subset [of bad "map bufs [0 ..< ?n]"] by auto
  obtain st2 where st2: "unpost False ?cs (int ?n) st1 = Inr (int ?n - int (length ?cs) + 1, st2)"
      "recv_queue st2 = foldl (\<lambda>q c. remove1 c q) (recv_queue st1) (butlast ?cs)"
      "pool_returned st2 = pool_returned st1 @ butlast ?cs"
      "chunk_qp st2 = (\<lambda>c. if c \<in> set (butlast ?cs) then None else chunk_qp st1 c)"
    using unpost_clears [OF d pre] by blast
  have "bufs m \<in> set (recv_queue st2)" unfolding st2(2) rm [OF last] by (simp add: st1(2) m(1))
  moreover have "chunk_qp st2 (bufs m) = Some q" using st1(3) last m(1) by (simp add: st2(4))
  moreover have "pool_returned st2 = pool_returned st @ map bufs [bad ..< m]" by (simp add: st2(3) st1(4) bl)
  moreover have "num = 1 + int m" using m(1) assms(1) by linarith
  then have "post_chunks_to_rq bufs False cap ret bad num (Some q) st = Inr (int bad + 1, st2)"
    using st1(1) st2(1) assms(1,4) m unfolding cs by (simp add: post_chunks_to_rq_def kassert_def drop_map)
  ultimately show ?thesis using m(1) by auto
qed

theorem post_chunks_rejected_witness:
  "\<exists>st'. post_chunks_to_rq (\<lambda>i. 100 + i) False 8 12 1 3 (Some 7)
      \<lparr>recv_queue = [], chunk_qp = \<lambda>_. None, pool_returned = []\<rparr> = Inr (2, st') \<and> 102 \<in> set (recv_queue st')"
  using post_chunks_rejected [of 3 "\<lambda>i. 100 + i" 8 12 1 "\<lparr>recv_queue = [], chunk_qp = \<lambda>_. None, pool_returned = []\<rparr>" 7]
  by auto

text \<open>Destroying a queue pair returns the chunks it still holds and clears their back pointers.\<close>

lemma foldl_release:
  "recv_queue (foldl (\<lambda>s c. release_rx_buffer c s) st cs) = recv_queue st \<and>
   pool_returned (foldl (\<lambda>s c. release_rx_buffer c s) st cs) = pool_returned st @ cs \<and>
   chunk_qp (foldl (\<lambda>s c. release_rx_buffer c s) st cs) = (\<lambda>c. if c \<in> set cs then None else chunk_qp st c)"
  by (induction cs arbitrary: st) (auto simp: rq_defs)

text \<open>Every receive chunk comes back: the buffers posted by a successful call and still on the
  receive list when the queue pair is destroyed are all handed to the pool, once each, without a
  back pointer to the dead queue pair.\<close>

theorem qp_destroy_returns_chunks:
  "\<exists>st'. qp_destroy (Some p) True 0 st = Inr st' \<and> recv_queue st' = [] \<and>
     pool_returned st' = pool_returned st @ recv_queue st \<and>
     (\<forall>c. chunk_qp st' c = (if c \<in> set (recv_queue st) then None else chunk_qp st c))"
  by (simp add: qp_destroy_def foldl_release kassert_def)

end
