(* ===== verification/HexFormat.thy ===== *)
theory HexFormat
  imports Prelude
begin

text \<open>
  The part of C's \<open>printf\<close> and \<open>scanf\<close> that the connection handshake uses: the
  conversions \<open>%x\<close>, \<open>%hx\<close>, \<open>%04x\<close>, \<open>%08x\<close> and \<open>%s\<close>, and the format
  \<open>"%hx:%x:%x:%x:%x:%hx:%x:%hx:%s"\<close> of \<open>Infiniband::QueuePair::recv_cm_meta\<close> and of
  the multicast daemon. Strings are lists of 8-bit characters.
\<close>

section \<open>Printing\<close>

definition hex_digit :: "nat \<Rightarrow> char" where
  "hex_digit d = char_of (if d < 10 then 48 + d else 87 + d)"

fun hex :: "nat \<Rightarrow> string" where
  "hex n = (if n < 16 then [hex_digit n] else hex (n div 16) @ [hex_digit (n mod 16)])"

declare hex.simps [simp del]

text \<open>\<open>%0wx\<close> pads with zeros up to width \<open>w\<close>; \<open>%x\<close> and \<open>%hx\<close> do not pad.\<close>

definition hex_pad :: "nat \<Rightarrow> nat \<Rightarrow> string" where
  "hex_pad w n = replicate (w - length (hex n)) (CHR ''0'') @ hex n"

definition print_fields :: "string list \<Rightarrow> string \<Rightarrow> string" where
  "print_fields fs g = concat (map (\<lambda>f. f @ '':'') fs) @ g"

section \<open>Scanning\<close>

definition isspace :: "char \<Rightarrow> bool" where
  "isspace c \<longleftrightarrow> (let n = of_char c :: nat in n = 32 \<or> (9 \<le> n \<and> n \<le> 13))"

definition digit_val :: "char \<Rightarrow> nat option" where
  "digit_val c = (let n = of_char c :: nat in
     if 48 \<le> n \<and> n \<le> 57 then Some (n - 48)
     else if 97 \<le> n \<and> n \<le> 102 then Some (n - 87)
     else if 65 \<le> n \<and> n \<le> 70 then Some (n - 55)
     else None)"

definition isxdigit :: "char \<Rightarrow> bool" where
  "isxdigit c \<longleftrightarrow> digit_val c \<noteq> None"

definition hex_val :: "string \<Rightarrow> nat" where
  "hex_val s = foldl (\<lambda>acc c. 16 * acc + (case digit_val c of Some d \<Rightarrow> d | None \<Rightarrow> 0)) 0 s"

text \<open>\<open>strtoul\<close>: 64-bit, saturating; a minus sign negates modulo \<open>2 ^ 64\<close>.\<close>

definition strtoul_hex :: "bool \<Rightarrow> string \<Rightarrow> u64" where
  "strtoul_hex neg ds = (if 2 ^ 64 \<le> hex_val ds then - 1 else if neg then - of_nat (hex_val ds)
     else of_nat (hex_val ds))"

text \<open>One \<open>%x\<close>: white space, a sign, an optional \<open>0x\<close> (its zero counts as a digit), digits.\<close>

definition scan_x :: "string \<Rightarrow> (u64 \<times> string) option" where
  "scan_x s0 =
     (let s1 = dropWhile isspace s0;
          neg = (s1 \<noteq> [] \<and> hd s1 = CHR ''-'');
          s2 = (if s1 \<noteq> [] \<and> (hd s1 = CHR ''-'' \<or> hd s1 = CHR ''+'') then tl s1 else s1);
          s3 = (case s2 of a # b # r \<Rightarrow>
                  if a = CHR ''0'' \<and> (b = CHR ''x'' \<or> b = CHR ''X'') then a # r else s2
                | _ \<Rightarrow> s2);
          ds = takeWhile isxdigit s3
      in if ds = [] then None else Some (strtoul_hex neg ds, drop (length ds) s3))"

text \<open>One \<open>%s\<close>: white space, then the characters up to the next white space.\<close>

definition scan_s :: "string \<Rightarrow> string option" where
  "scan_s s0 = (let w = takeWhile (\<lambda>c. \<not> isspace c) (dropWhile isspace s0) in
     if w = [] then None else Some w)"

text \<open>\<open>k\<close> hexadecimal fields, each followed by a literal colon, then \<open>%s\<close>. Scanning stops at the
  first field or colon that does not match; the values converted so far are the result.\<close>

fun scan_fields :: "nat \<Rightarrow> string \<Rightarrow> u64 list \<times> string option" where
  "scan_fields 0 s = ([], scan_s s)"
| "scan_fields (Suc k) s =
     (case scan_x s of
        None \<Rightarrow> ([], None)
      | Some (v, c # r) \<Rightarrow>
          if c = CHR '':'' then (case scan_fields k r of (vs, g) \<Rightarrow> (v # vs, g)) else ([v], None)
      | Some (v, []) \<Rightarrow> ([v], None))"

section \<open>Printing and scanning one number\<close>

lemma digit_val_hex_digit [simp]: "d < 16 \<Longrightarrow> digit_val (hex_digit d) = Some d"
  by (auto simp: digit_val_def hex_digit_def Let_def)

lemma isxdigit_hex_digit [simp]: "d < 16 \<Longrightarrow> isxdigit (hex_digit d)"
  by (simp add: isxdigit_def)

lemma hex_all_xdigits: "\<forall>c \<in> set (hex n). isxdigit c"
  by (induction n rule: hex.induct) (subst hex.simps, auto)

lemma hex_nonempty [simp]: "hex n \<noteq> []"
  by (subst hex.simps) simp

lemma hex_val_append: "hex_val (s @ t) = foldl (\<lambda>acc c. 16 * acc + (case digit_val c of Some d \<Rightarrow> d | None \<Rightarrow> 0)) (hex_val s) t"
  by (simp add: hex_val_def)

lemma hex_val_hex [simp]: "hex_val (hex n) = n"
proof (induction n rule: hex.induct)
  case (1 n)
  show ?case
  proof (cases "n < 16")
    case True
    then show ?thesis by (subst hex.simps) (simp add: hex_val_def)
  next
    case False
    with 1 have "hex_val (hex (n div 16)) = n div 16" by simp
    with False show ?thesis by (subst hex.simps) (simp add: hex_val_append)
  qed
qed

lemma zero_xdigit [simp]: "isxdigit (CHR ''0'')" "digit_val (CHR ''0'') = Some 0"
  by (simp_all add: isxdigit_def digit_val_def)

lemma hex_val_zeros: "hex_val (replicate k (CHR ''0'') @ s) = hex_val s"
  by (induction k) (simp_all add: hex_val_def)

lemma hex_val_hex_pad [simp]: "hex_val (hex_pad w n) = n"
  by (simp add: hex_pad_def hex_val_zeros)

lemma hex_pad_xdigits: "\<forall>c \<in> set (hex_pad w n). isxdigit c"
  using hex_all_xdigits [of n] by (auto simp: hex_pad_def)

lemma hex_pad_0 [simp]: "hex_pad 0 n = hex n"
  by (simp add: hex_pad_def)

lemma hex_pad_nonempty [simp]: "hex_pad w n \<noteq> []"
  by (simp add: hex_pad_def)

lemma length_hex: "0 < k \<Longrightarrow> n < 16 ^ k \<Longrightarrow> length (hex n) \<le> k"
proof (induction k arbitrary: n rule: nat_induct_non_zero)
  case 1
  then show ?case by (subst hex.simps) simp
next
  case (Suc k)
  show ?case
  proof (cases "n < 16")
    case True
    then show ?thesis by (subst hex.simps) simp
  next
    case False
    have "n div 16 < 16 ^ k" using Suc.prems by (simp add: less_mult_imp_div_less mult.commute)
    with Suc.IH have "length (hex (n div 16)) \<le> k" .
    with False show ?thesis by (subst hex.simps) simp
  qed
qed

lemma length_hex_pad: "n < 16 ^ w \<Longrightarrow> 0 < w \<Longrightarrow> length (hex_pad w n) = w"
  using length_hex [of w n] by (simp add: hex_pad_def)

lemma xdigit_not_special:
  assumes "isxdigit c"
  shows "\<not> isspace c" "c \<noteq> CHR ''-''" "c \<noteq> CHR ''+''" "c \<noteq> CHR ''x''" "c \<noteq> CHR ''X''" "c \<noteq> CHR '':''"
proof -
  have h: "(48 \<le> (of_char c :: nat) \<and> (of_char c :: nat) \<le> 57) \<or> (97 \<le> (of_char c :: nat) \<and> (of_char c :: nat) \<le> 102) \<or>
    (65 \<le> (of_char c :: nat) \<and> (of_char c :: nat) \<le> 70)"
    using assms by (auto simp: isxdigit_def digit_val_def Let_def split: if_splits)
  then show "\<not> isspace c" by (auto simp: isspace_def Let_def)
  show "c \<noteq> CHR ''-''" "c \<noteq> CHR ''+''" "c \<noteq> CHR ''x''" "c \<noteq> CHR ''X''" "c \<noteq> CHR '':''"
    using h by auto
qed

lemma not_xdigit [simp]:
  "\<not> isxdigit (CHR ''x'')" "\<not> isxdigit (CHR ''X'')" "\<not> isxdigit (CHR '':'')"
  by (simp_all add: isxdigit_def digit_val_def)

text \<open>A run of hex digits followed by a character that is none scans to its value.\<close>

lemma scan_x_digits:
  assumes "\<forall>c \<in> set ds. isxdigit c" and "ds \<noteq> []" and "hex_val ds < 2 ^ 64"
    and "t = [] \<or> \<not> isxdigit (hd t) \<and> hd t \<noteq> CHR ''x'' \<and> hd t \<noteq> CHR ''X''"
  shows "scan_x (ds @ t) = Some (of_nat (hex_val ds), t)"
proof -
  obtain a as where ds: "ds = a # as" using assms(2) by (cases ds) auto
  have xa: "isxdigit a" using assms(1) ds by simp
  note na = xdigit_not_special [OF xa]
  have s1: "dropWhile isspace (ds @ t) = ds @ t" using ds na by simp
  have tw: "takeWhile isxdigit (ds @ t) = ds"
    using assms(1,4) by (cases t) simp_all
  have s3: "(case ds @ t of a # b # r \<Rightarrow>
      if a = CHR ''0'' \<and> (b = CHR ''x'' \<or> b = CHR ''X'') then a # r else ds @ t | _ \<Rightarrow> ds @ t) = ds @ t"
    using ds assms(1,4) by (cases as; cases t) (auto split: if_splits)
  have hd: "hd (ds @ t) = a" and ne: "ds @ t \<noteq> []" using ds by simp_all
  have s2: "(if ds @ t \<noteq> [] \<and> (a = CHR ''-'' \<or> a = CHR ''+'') then tl (ds @ t) else ds @ t) = ds @ t"
    using na by simp
  have "strtoul_hex (ds @ t \<noteq> [] \<and> a = CHR ''-'') ds = of_nat (hex_val ds)"
    using na(2) assms(3) by (simp add: strtoul_hex_def)
  then show ?thesis
    unfolding scan_x_def Let_def s1 hd s2 s3 tw using assms(2) by simp
qed

text \<open>Scanning a printed message gives its fields back.\<close>

lemma scan_s_word:
  assumes "g \<noteq> []" and "\<forall>c \<in> set g. \<not> isspace c"
  shows "scan_s g = Some g"
proof -
  have d: "dropWhile isspace g = g" using assms by (cases g) auto
  have "takeWhile (\<lambda>c. \<not> isspace c) g = g" using assms(2) by simp
  with d assms(1) show ?thesis unfolding scan_s_def Let_def by (simp only: if_False)
qed

lemma scan_fields_print:
  assumes "\<forall>p \<in> set ps. snd p < 2 ^ 64" and "g \<noteq> []" and "\<forall>c \<in> set g. \<not> isspace c"
  shows "scan_fields (length ps) (print_fields (map (\<lambda>(w, n). hex_pad w n) ps) g) =
    (map (\<lambda>(w, n). of_nat n) ps, Some g)"
  using assms(1)
proof (induction ps)
  case Nil
  then show ?case using scan_s_word [OF assms(2,3)] by (simp add: print_fields_def)
next
  case (Cons p ps)
  obtain w n where p: "p = (w, n)" by (cases p)
  have n: "n < 2 ^ 64" using Cons.prems p by simp
  let ?r = "print_fields (map (\<lambda>(w, n). hex_pad w n) ps) g"
  have "print_fields (map (\<lambda>(w, n). hex_pad w n) (p # ps)) g = hex_pad w n @ CHR '':'' # ?r"
    by (simp add: print_fields_def p)
  moreover have "scan_x (hex_pad w n @ CHR '':'' # ?r) = Some (of_nat n, CHR '':'' # ?r)"
    using scan_x_digits [OF hex_pad_xdigits [of w n], of "CHR '':'' # ?r"] n by simp
  ultimately show ?case using Cons p by simp
qed

end
