(* ===== verification/CmMeta.thy ===== *)
theory CmMeta
  imports HexFormat
begin

text \<open>
  The out-of-band handshake message of a queue pair
  (\<open>Infiniband::QueuePair::send_cm_meta\<close>, \<open>recv_cm_meta\<close>,
  \<open>gid_to_wire_gid\<close> and \<open>wire_gid_to_gid\<close> in \<open>src/src/core/Infiniband.cc\<close>,
  \<open>ib_cm_meta_t\<close> and \<open>TCP_MSG_LEN\<close> in \<open>Infiniband.h\<close>). The host is little-endian;
  a GID is its 16 raw bytes. The results of \<open>read\<close> and \<open>write\<close> are arguments.
\<close>

section \<open>Byte order\<close>

definition load_le32 :: "u8 list \<Rightarrow> u32" where
  "load_le32 bs = of_nat (unat (bs ! 0) + 256 * unat (bs ! 1) + 65536 * unat (bs ! 2) + 16777216 * unat (bs ! 3))"

definition store_le32 :: "u32 \<Rightarrow> u8 list" where
  "store_le32 w = [of_nat (unat w), of_nat (unat w div 256), of_nat (unat w div 65536), of_nat (unat w div 16777216)]"

definition htonl :: "u32 \<Rightarrow> u32" where
  "htonl w = load_le32 (rev (store_le32 w))"

definition ntohl :: "u32 \<Rightarrow> u32" where
  "ntohl w = htonl w"

section \<open>Messages\<close>

record ib_cm_meta =
  cm_lid :: u16
  cm_local_qpn :: u32
  cm_psn :: u32
  cm_peer_qpn :: u32
  cm_gid :: "u8 list"

text \<open>The multicast group of the configuration, sent along by the client.\<close>

record multicast_group =
  ip_addr_member_1 :: u32
  port_member_1 :: u16
  ip_addr_member_2 :: u32
  port_member_2 :: u16

definition TCP_MSG_LEN :: nat where
  "TCP_MSG_LEN = Suc (length
     ''0000:00000000:00000000:00000000:00000000:0000:00000000:0000:00000000000000000000000000000000'')"

definition EINTR :: int where "EINTR = 4"
definition EAGAIN :: int where "EAGAIN = 11"
definition EINVAL :: int where "EINVAL = 22"

abbreviation NUL :: char where
  "NUL \<equiv> CHR 0x00"

definition c_string :: "string \<Rightarrow> string" where
  "c_string s = takeWhile (\<lambda>c. c \<noteq> NUL) s"

definition gid_to_wire_gid :: "u8 list \<Rightarrow> string" where
  "gid_to_wire_gid g =
     concat (map (\<lambda>i. hex_pad 8 (unat (htonl (load_le32 (take 4 (drop (i * 4) g)))))) [0, 1, 2, 3])"

text \<open>\<open>sscanf (tmp, "%x", &v32)\<close> on eight characters; without a match \<open>v32\<close> keeps its value.\<close>

definition wire_word :: "string \<Rightarrow> nat \<Rightarrow> u32 \<Rightarrow> u32" where
  "wire_word arr i v =
     (case scan_x (c_string (take 8 (drop (i * 8) arr))) of Some (x, _) \<Rightarrow> ucast x | None \<Rightarrow> v)"

definition wire_gid_to_gid :: "string \<Rightarrow> u32 \<Rightarrow> u8 list" where
  "wire_gid_to_gid arr v =
     (let v0 = wire_word arr 0 v; v1 = wire_word arr 1 v0; v2 = wire_word arr 2 v1; v3 = wire_word arr 3 v2
      in store_le32 (ntohl v0) @ store_le32 (ntohl v1) @ store_le32 (ntohl v2) @ store_le32 (ntohl v3))"

text \<open>The four scanned numbers that are kept; the other four go to dummies.\<close>

definition assign_fields :: "u64 list \<Rightarrow> ib_cm_meta \<Rightarrow> ib_cm_meta" where
  "assign_fields vs m =
     (let m1 = (if 0 < length vs then m\<lparr>cm_lid := ucast (vs ! 0)\<rparr> else m);
          m2 = (if 1 < length vs then m1\<lparr>cm_local_qpn := ucast (vs ! 1)\<rparr> else m1);
          m3 = (if 2 < length vs then m2\<lparr>cm_psn := ucast (vs ! 2)\<rparr> else m2)
      in if 3 < length vs then m3\<lparr>cm_peer_qpn := ucast (vs ! 3)\<rparr> else m3)"

text \<open>\<open>r\<close>, \<open>e\<close> and \<open>msg\<close> are the result, \<open>errno\<close> and data of \<open>read\<close>; \<open>junk\<close> and \<open>v\<close> are the
  uninitialised stack contents of \<open>gid\<close> and \<open>v32\<close>.\<close>

definition recv_cm_meta ::
  "int \<Rightarrow> int \<Rightarrow> string \<Rightarrow> string \<Rightarrow> u32 \<Rightarrow> ib_cm_meta \<Rightarrow> (int \<times> ib_cm_meta) result" where
  "recv_cm_meta r e msg junk v m =
     (if r < 0 then Inr (- e, m)
      else if r = 0 then Inr (r, m)
      else if r \<noteq> int TCP_MSG_LEN then Inr (- EINVAL, m)
      else if NUL \<notin> set msg then Inl OutOfBounds
      else
        case scan_fields 8 (c_string msg) of
          (vs, None) \<Rightarrow> Inr (r, (assign_fields vs m)\<lparr>cm_gid := wire_gid_to_gid junk v\<rparr>)
        | (vs, Some g) \<Rightarrow>
            if 33 < length g + 1 then Inl BufferOverflow
            else Inr (r, (assign_fields vs m)\<lparr>cm_gid :=
                   wire_gid_to_gid (g @ NUL # drop (length g + 1) junk) v\<rparr>))"

definition cm_msg :: "multicast_group \<Rightarrow> ib_cm_meta \<Rightarrow> string" where
  "cm_msg mc m =
     print_fields
       [hex (unat (cm_lid m)), hex (unat (cm_local_qpn m)), hex (unat (cm_psn m)), hex (unat (cm_peer_qpn m)),
        hex (unat (ip_addr_member_1 mc)), hex (unat (port_member_1 mc)),
        hex (unat (ip_addr_member_2 mc)), hex (unat (port_member_2 mc))]
       (gid_to_wire_gid (cm_gid m))"

text \<open>\<open>w k\<close> is the result and \<open>errno\<close> of the \<open>k\<close>-th \<open>write\<close>.\<close>

function send_loop :: "(nat \<Rightarrow> int \<times> int) \<Rightarrow> nat \<Rightarrow> int" where
  "send_loop w retry =
     (case w retry of (r, e) \<Rightarrow>
        if r \<noteq> int TCP_MSG_LEN then
          if r < 0 \<and> (e = EINTR \<or> e = EAGAIN) \<and> retry < 3 then send_loop w (Suc retry)
          else - e
        else 0)"
  by pat_completeness auto
termination
  by (relation "measure (\<lambda>(w, retry). 3 - retry)") auto

declare send_loop.simps [simp del]

definition send_cm_meta ::
  "multicast_group \<Rightarrow> string \<Rightarrow> (nat \<Rightarrow> int \<times> int) \<Rightarrow> ib_cm_meta \<Rightarrow> (int \<times> string) result" where
  "send_cm_meta mc junk w m =
     (let text = cm_msg mc m in
      if TCP_MSG_LEN < length text + 1 then Inl BufferOverflow
      else Inr (send_loop w 0, text @ NUL # drop (length text + 1) junk))"

section \<open>Byte order lemmas\<close>

lemma unat_less_u8: "unat (x :: u8) < 256"
  using unat_bound [of x] by simp

lemma digits_of_horner:
  fixes a b c d :: nat
  assumes "a < 256" "b < 256" "c < 256" "d < 256"
  defines "n \<equiv> a + 256 * b + 65536 * c + 16777216 * d"
  shows "n mod 256 = a" "n div 256 mod 256 = b" "n div 65536 mod 256 = c" "n div 16777216 mod 256 = d"
proof -
  have step: "(x + 256 * y) div 256 = y \<and> (x + 256 * y) mod 256 = x" if "x < 256" for x y :: nat
    using that by simp
  have n: "n = a + 256 * (b + 256 * (c + 256 * (d + 256 * 0)))" by (simp add: n_def)
  have d: "x div 65536 = x div 256 div 256" "x div 16777216 = x div 256 div 256 div 256" for x :: nat
    by (simp_all add: div_mult2_eq [symmetric])
  show "n mod 256 = a" "n div 256 mod 256 = b" "n div 65536 mod 256 = c" "n div 16777216 mod 256 = d"
    unfolding d n using assms(1-4) step by (simp_all only:)
qed

lemma store_load_le32: "store_le32 (load_le32 [a, b, c, d]) = [a, b, c, d]"
proof -
  let ?n = "unat a + 256 * unat b + 65536 * unat c + 16777216 * unat d"
  have bs: "unat a < 256" "unat b < 256" "unat c < 256" "unat d < 256" by (rule unat_less_u8)+
  then have n: "?n < 4294967296" by linarith
  have u: "unat (load_le32 [a, b, c, d]) = ?n"
    unfolding load_le32_def using unat_of_nat_u32 [OF n] by (simp del: of_nat_add of_nat_mult)
  have q: "?n mod 256 = unat a" "?n div 256 mod 256 = unat b" "?n div 65536 mod 256 = unat c"
    "?n div 16777216 mod 256 = unat d"
    using digits_of_horner [OF bs] by simp_all
  have "store_le32 w = [a, b, c, d]"
    if "unat w mod 256 = unat a" "unat w div 256 mod 256 = unat b" "unat w div 65536 mod 256 = unat c"
      "unat w div 16777216 mod 256 = unat d" for w
    using that by (simp add: store_le32_def word_unat_eq_iff unat_of_nat del: of_nat_unat)
  then show ?thesis using q unfolding u [symmetric] by blast
qed

lemma digits_base_256:
  assumes "n < 4294967296"
  shows "n mod 256 + 256 * (n div 256 mod 256) + 65536 * (n div 65536 mod 256) +
    16777216 * (n div 16777216 mod 256) = (n :: nat)"
proof -
  let ?q1 = "n div 256" let ?q2 = "?q1 div 256" let ?q3 = "?q2 div 256"
  have d: "n div 65536 = ?q2" "n div 16777216 = ?q3" by (simp_all add: div_mult2_eq [symmetric])
  have "?q3 < 256" using assms by (simp add: div_mult2_eq [symmetric] less_mult_imp_div_less)
  then have "?q3 mod 256 = ?q3" by simp
  moreover have "n = 256 * ?q1 + n mod 256" "?q1 = 256 * ?q2 + ?q1 mod 256" "?q2 = 256 * ?q3 + ?q2 mod 256"
    by (simp_all only: mult_div_mod_eq)
  ultimately show ?thesis unfolding d by linarith
qed

lemma load_store_le32: "load_le32 (store_le32 w) = w"
proof -
  have "unat (of_nat (unat w div k) :: u8) = unat w div k mod 256" for k by (simp add: unat_of_nat)
  moreover have "unat (of_nat (unat w) :: u8) = unat w mod 256" by (simp only: unat_of_nat) simp
  ultimately have "load_le32 (store_le32 w) =
      of_nat (unat w mod 256 + 256 * (unat w div 256 mod 256) + 65536 * (unat w div 65536 mod 256) +
              16777216 * (unat w div 16777216 mod 256))"
    by (simp add: load_le32_def store_le32_def del: of_nat_add of_nat_mult of_nat_unat)
  also have "\<dots> = w" by (simp only: digits_base_256 [OF unat_less_u32] of_nat_unat) simp
  finally show ?thesis .
qed

lemma htonl_htonl [simp]: "htonl (htonl w) = w"
proof -
  obtain a b c d where s: "store_le32 w = [a, b, c, d]" by (simp add: store_le32_def)
  have "htonl (htonl w) = load_le32 [a, b, c, d]"
    by (simp add: htonl_def s store_load_le32)
  then show ?thesis using load_store_le32 [of w] s by simp
qed

section \<open>The handshake message\<close>

lemma length_hex_pad_u32 [simp]: "length (hex_pad 8 (unat (w :: u32))) = 8"
  using length_hex_pad [of "unat w" 8] unat_less_u32 [of w] by simp

lemma length_hex_pad_u16 [simp]: "length (hex_pad 4 (unat (w :: u16))) = 4"
  using length_hex_pad [of "unat w" 4] unat_less_u16 [of w] by simp

lemma length_gid_to_wire_gid [simp]: "length (gid_to_wire_gid g) = 32"
  by (simp add: gid_to_wire_gid_def)

lemma gid_to_wire_gid_xdigits: "c \<in> set (gid_to_wire_gid g) \<Longrightarrow> isxdigit c"
  using hex_pad_xdigits by (auto simp: gid_to_wire_gid_def)

lemma xdigit_not_NUL: "isxdigit c \<Longrightarrow> c \<noteq> NUL"
  by (auto simp: isxdigit_def digit_val_def)

lemma length_hex_u32: "length (hex (unat (x :: u32))) \<le> 8"
  using length_hex [of 8 "unat x"] unat_less_u32 [of x] by simp

lemma length_hex_u16: "length (hex (unat (x :: u16))) \<le> 4"
  using length_hex [of 4 "unat x"] unat_less_u16 [of x] by simp

lemma cm_msg_fits: "length (cm_msg mc m) + 1 \<le> TCP_MSG_LEN"
proof -
  note a = length_hex_u16 [of "cm_lid m"] length_hex_u32 [of "cm_local_qpn m"] length_hex_u32 [of "cm_psn m"]
    length_hex_u32 [of "cm_peer_qpn m"] length_hex_u32 [of "ip_addr_member_1 mc"]
    length_hex_u16 [of "port_member_1 mc"] length_hex_u32 [of "ip_addr_member_2 mc"]
    length_hex_u16 [of "port_member_2 mc"]
  show ?thesis using a by (simp add: cm_msg_def print_fields_def TCP_MSG_LEN_def)
qed

lemma cm_msg_no_NUL: "NUL \<notin> set (cm_msg mc m)"
proof -
  have "NUL \<notin> set (hex n)" for n using hex_all_xdigits [of n] xdigit_not_NUL by blast
  moreover have "NUL \<notin> set (gid_to_wire_gid g)" for g
    using gid_to_wire_gid_xdigits [of NUL g] xdigit_not_NUL [of NUL] by blast
  ultimately show ?thesis by (simp add: cm_msg_def print_fields_def)
qed

lemma c_string_append_NUL: "NUL \<notin> set s \<Longrightarrow> c_string (s @ NUL # r) = s"
  by (induction s) (auto simp: c_string_def)

lemma c_string_id: "NUL \<notin> set s \<Longrightarrow> c_string s = s"
  by (induction s) (auto simp: c_string_def)

text \<open>Eight characters of the wire GID scan back to the word they were printed from.\<close>

lemma scan_wire_word:
  "scan_x (c_string (hex_pad 8 (unat (w :: u32)))) = Some (of_nat (unat w), [])"
proof -
  have "NUL \<notin> set (hex_pad 8 (unat w))"
    using hex_pad_xdigits [of 8 "unat w"] xdigit_not_NUL by blast
  moreover have "scan_x (hex_pad 8 (unat w) @ []) = Some (of_nat (unat w), [])"
    using scan_x_digits [OF hex_pad_xdigits [of 8 "unat w"], of "[]"] unat_less_u32 [of w] by simp
  ultimately show ?thesis by (simp add: c_string_id)
qed

lemma ucast_there_and_back [simp]:
  "(ucast (ucast (w :: u32) :: u64) :: u32) = w"
  "(ucast (ucast (x :: u16) :: u64) :: u16) = x"
  by (rule bit_word_eqI; simp add: bit_simps)+

lemma wire_word_printed:
  assumes "length p0 = i * 8"
  shows "wire_word (p0 @ hex_pad 8 (unat w) @ rest) i v = w"
  using assms by (simp add: wire_word_def scan_wire_word)

lemma list16: "length g = 16 \<Longrightarrow>
  \<exists>a b c d e f h i j k l m n p q r. g = [a, b, c, d, e, f, h, i, j, k, l, m, n, p, q, r]"
  by (auto simp: numeral_eq_Suc length_Suc_conv)

lemma wire_gid_roundtrip:
  assumes "length g = 16"
  shows "wire_gid_to_gid (gid_to_wire_gid g @ rest) v = g"
proof -
  let ?w = "\<lambda>i. htonl (load_le32 (take 4 (drop (i * 4) g)))"
  let ?p = "\<lambda>i. hex_pad 8 (unat (?w i))"
  have arr: "gid_to_wire_gid g @ rest = ?p 0 @ ?p 1 @ ?p 2 @ ?p 3 @ rest"
    by (simp add: gid_to_wire_gid_def)
  have w: "wire_word (gid_to_wire_gid g @ rest) 0 u = ?w 0" "wire_word (gid_to_wire_gid g @ rest) 1 u = ?w 1"
    "wire_word (gid_to_wire_gid g @ rest) 2 u = ?w 2" "wire_word (gid_to_wire_gid g @ rest) 3 u = ?w 3" for u
    unfolding arr
    using wire_word_printed [of "[]" 0] wire_word_printed [of "?p 0" 1] wire_word_printed [of "?p 0 @ ?p 1" 2]
      wire_word_printed [of "?p 0 @ ?p 1 @ ?p 2" 3] by simp_all
  obtain a b c d e f h i j k l m n p q r where g: "g = [a, b, c, d, e, f, h, i, j, k, l, m, n, p, q, r]"
    using list16 [OF assms] by blast
  show ?thesis
    unfolding wire_gid_to_gid_def Let_def w ntohl_def htonl_htonl by (simp add: g store_load_le32)
qed

lemma scan_cm_msg:
  "scan_fields 8 (cm_msg mc m) =
    ([ucast (cm_lid m), ucast (cm_local_qpn m), ucast (cm_psn m), ucast (cm_peer_qpn m),
      ucast (ip_addr_member_1 mc), ucast (port_member_1 mc), ucast (ip_addr_member_2 mc),
      ucast (port_member_2 mc)], Some (gid_to_wire_gid (cm_gid m)))"
proof -
  let ?ps = "[(0, unat (cm_lid m)), (0, unat (cm_local_qpn m)), (0, unat (cm_psn m)), (0, unat (cm_peer_qpn m)),
      (0, unat (ip_addr_member_1 mc)), (0, unat (port_member_1 mc)), (0, unat (ip_addr_member_2 mc)),
      (0, unat (port_member_2 mc))] :: (nat \<times> nat) list"
  have b: "unat (x :: u32) < 18446744073709551616" "unat (y :: u16) < 18446744073709551616" for x y
    using unat_less_u32 [of x] unat_less_u16 [of y] by simp_all
  have s: "\<forall>p \<in> set ?ps. snd p < 2 ^ 64" using b by simp
  have ne: "gid_to_wire_gid (cm_gid m) \<noteq> []" using length_gid_to_wire_gid [of "cm_gid m"] by fastforce
  have ns: "\<forall>c \<in> set (gid_to_wire_gid (cm_gid m)). \<not> isspace c"
    using gid_to_wire_gid_xdigits xdigit_not_special(1) by blast
  have l: "length ?ps = 8" by simp
  show ?thesis
    using scan_fields_print [OF s ne ns, unfolded l] by (simp add: cm_msg_def)
qed

lemma recv_sent_cm_meta:
  assumes "length (cm_gid m) = 16" and "send_cm_meta mc junk w m = Inr (0, msg)"
  shows "recv_cm_meta (int TCP_MSG_LEN) e msg junk' v m0 = Inr (int TCP_MSG_LEN, m)"
proof -
  have msg: "msg = cm_msg mc m @ NUL # drop (length (cm_msg mc m) + 1) junk"
    using assms(2) by (auto simp: send_cm_meta_def Let_def split: if_splits)
  have cs: "c_string msg = cm_msg mc m"
    using cm_msg_no_NUL by (simp add: msg c_string_append_NUL)
  have nul: "NUL \<in> set msg" by (simp add: msg)
  have pos: "\<not> int TCP_MSG_LEN < 0" "int TCP_MSG_LEN \<noteq> 0" by (simp_all add: TCP_MSG_LEN_def)
  have "assign_fields [ucast (cm_lid m), ucast (cm_local_qpn m), ucast (cm_psn m), ucast (cm_peer_qpn m),
      ucast (ip_addr_member_1 mc), ucast (port_member_1 mc), ucast (ip_addr_member_2 mc),
      ucast (port_member_2 mc)] m0 = m\<lparr>cm_gid := cm_gid m0\<rparr>"
    by (cases m; cases m0) (simp add: assign_fields_def)
  then show ?thesis
    unfolding recv_cm_meta_def cs scan_cm_msg using pos nul wire_gid_roundtrip [OF assms(1)]
    by (cases m) simp
qed

text \<open>C3: the handshake survives the wire. What \<open>send_cm_meta\<close> puts into the TCP message of
  \<open>TCP_MSG_LEN\<close> bytes is read back by the peer's \<open>recv_cm_meta\<close> as exactly the same LID, queue
  pair numbers, PSN and GID, whatever the multicast group of the sender and whatever the
  uninitialised buffers hold. On success \<open>recv_cm_meta\<close> returns the number of bytes read, \<open>TCP_MSG_LEN\<close>; the comment above it says 0.\<close>

theorem handshake_roundtrip:
  assumes "length (cm_gid m) = 16" and "send_cm_meta mc junk w m = Inr (0, msg)"
  shows "recv_cm_meta (int TCP_MSG_LEN) e msg junk' v m0 = Inr (int TCP_MSG_LEN, m)"
  by (rule recv_sent_cm_meta [OF assms])

theorem handshake_roundtrip_witness:
  "let m = \<lparr>cm_lid = 5, cm_local_qpn = 260, cm_psn = 520, cm_peer_qpn = 0, cm_gid = map of_nat [0..<16]\<rparr>;
       mc = \<lparr>ip_addr_member_1 = 1, port_member_1 = 2, ip_addr_member_2 = 3, port_member_2 = 4\<rparr>;
       w = (\<lambda>k. if k = 0 then (-1, EINTR) else (int TCP_MSG_LEN, 0))
   in \<exists>msg. send_cm_meta mc (replicate 93 (CHR ''z'')) w m = Inr (0, msg) \<and>
      recv_cm_meta 93 0 msg (replicate 33 (CHR ''y'')) 7 (m\<lparr>cm_lid := 0\<rparr>) = Inr (93, m)"
proof -
  let ?m = "\<lparr>cm_lid = 5, cm_local_qpn = 260, cm_psn = 520, cm_peer_qpn = 0, cm_gid = map of_nat [0..<16]\<rparr>"
  let ?mc = "\<lparr>ip_addr_member_1 = 1, port_member_1 = 2, ip_addr_member_2 = 3, port_member_2 = 4\<rparr>"
  let ?w = "\<lambda>k. if k = (0::nat) then (-1, EINTR) else (int TCP_MSG_LEN, 0)"
  have s: "send_loop ?w 0 = 0"
    by (simp add: send_loop.simps [of ?w 0] send_loop.simps [of ?w "Suc 0"])
  let ?msg = "cm_msg ?mc ?m @ NUL # drop (length (cm_msg ?mc ?m) + 1) (replicate 93 (CHR ''z''))"
  have e: "send_cm_meta ?mc (replicate 93 (CHR ''z'')) ?w ?m = Inr (0, ?msg)"
    using cm_msg_fits [of ?mc ?m] s by (simp add: send_cm_meta_def Let_def)
  have "length (cm_gid ?m) = 16" by simp
  from handshake_roundtrip [OF this e, of 0 "replicate 33 (CHR ''y'')" 7 "?m\<lparr>cm_lid := 0\<rparr>"] e
  show ?thesis by (simp add: Let_def TCP_MSG_LEN_def)
qed

text \<open>\<open>send_cm_meta\<close> always returns, after at most four writes: \<open>sprintf\<close> never overflows the
  message buffer, and the result is 0 when the last write was complete, otherwise the negated
  \<open>errno\<close> of the last write, which was tried again only on \<open>EINTR\<close> and \<open>EAGAIN\<close>.\<close>

theorem send_cm_meta_returns:
  "\<exists>k \<le> 3. \<exists>msg. send_cm_meta mc junk w m =
     Inr (if fst (w k) = int TCP_MSG_LEN then 0 else - snd (w k), msg) \<and>
     (\<forall>j < k. fst (w j) < 0 \<and> (snd (w j) = EINTR \<or> snd (w j) = EAGAIN))"
proof -
  have "\<exists>k \<le> 3. send_loop w i = (if fst (w k) = int TCP_MSG_LEN then 0 else - snd (w k)) \<and> i \<le> k \<and>
      (\<forall>j. i \<le> j \<and> j < k \<longrightarrow> fst (w j) < 0 \<and> (snd (w j) = EINTR \<or> snd (w j) = EAGAIN))"
    if "i \<le> 3" for i
    using that
  proof (induction w i rule: send_loop.induct)
    case (1 w i)
    obtain r e where w: "w i = (r, e)" by (cases "w i")
    show ?case
    proof (cases "r \<noteq> int TCP_MSG_LEN \<and> r < 0 \<and> (e = EINTR \<or> e = EAGAIN) \<and> i < 3")
      case True
      then obtain k where k: "k \<le> 3" "Suc i \<le> k"
        "send_loop w (Suc i) = (if fst (w k) = int TCP_MSG_LEN then 0 else - snd (w k))"
        "\<forall>j. Suc i \<le> j \<and> j < k \<longrightarrow> fst (w j) < 0 \<and> (snd (w j) = EINTR \<or> snd (w j) = EAGAIN)"
        using "1.IH" [OF w [symmetric]] by auto
      have "send_loop w i = send_loop w (Suc i)" using True w by (subst send_loop.simps) auto
      moreover have "fst (w j) < 0 \<and> (snd (w j) = EINTR \<or> snd (w j) = EAGAIN)" if "i \<le> j" "j < k" for j
        using that k(4) True w by (cases "j = i") auto
      ultimately show ?thesis using k(1-3) by (intro exI [of _ k]) simp
    next
      case False
      then have "send_loop w i = (if fst (w i) = int TCP_MSG_LEN then 0 else - snd (w i))"
        using w by (subst send_loop.simps) auto
      with "1.prems" show ?thesis by (intro exI [of _ i]) auto
    qed
  qed
  from this [of 0] obtain k where "k \<le> 3" "send_loop w 0 = (if fst (w k) = int TCP_MSG_LEN then 0 else - snd (w k))"
    "\<forall>j < k. fst (w j) < 0 \<and> (snd (w j) = EINTR \<or> snd (w j) = EAGAIN)" by auto
  moreover have "\<not> TCP_MSG_LEN < length (cm_msg mc m) + 1" using cm_msg_fits [of mc m] by simp
  ultimately show ?thesis by (auto simp: send_cm_meta_def Let_def)
qed

theorem send_cm_meta_returns_witness:
  "\<exists>msg. send_cm_meta \<lparr>ip_addr_member_1 = 1, port_member_1 = 2, ip_addr_member_2 = 3, port_member_2 = 4\<rparr>
     [] (\<lambda>_. (-1, EINTR))
     \<lparr>cm_lid = 5, cm_local_qpn = 260, cm_psn = 520, cm_peer_qpn = 0, cm_gid = map of_nat [0..<16]\<rparr> =
     Inr (- EINTR, msg)"
  using send_cm_meta_returns [of "\<lparr>ip_addr_member_1 = 1, port_member_1 = 2, ip_addr_member_2 = 3, port_member_2 = 4\<rparr>"
      "[]" "\<lambda>_. (-1, EINTR)"
      "\<lparr>cm_lid = 5, cm_local_qpn = 260, cm_psn = 520, cm_peer_qpn = 0, cm_gid = map of_nat [0..<16]\<rparr>"]
  by (auto simp: TCP_MSG_LEN_def)

text \<open>C40: the receiver trusts the peer's message. A message of the right length whose last field has
  33 characters is written past the end of the 33-byte array \<open>gid\<close> of \<open>recv_cm_meta\<close>.\<close>

theorem recv_cm_meta_overflow:
  "recv_cm_meta (int TCP_MSG_LEN) e
     (''0:0:0:0:0:0:0:0:'' @ replicate 33 (CHR ''a'') @ replicate 44 NUL) junk v m = Inl BufferOverflow"
proof -
  let ?g = "replicate 33 (CHR ''a'')"
  let ?ps = "replicate 8 (0, 0) :: (nat \<times> nat) list"
  have z: "hex 0 = ''0''" by code_simp
  have cs: "c_string (''0:0:0:0:0:0:0:0:'' @ ?g @ replicate 44 NUL) = ''0:0:0:0:0:0:0:0:'' @ ?g"
    by (simp add: c_string_def numeral_eq_Suc)
  have p: "print_fields (map (\<lambda>(w, n). hex_pad w n) ?ps) ?g = ''0:0:0:0:0:0:0:0:'' @ ?g"
    by (simp add: print_fields_def z numeral_eq_Suc)
  have "scan_fields (length ?ps) (''0:0:0:0:0:0:0:0:'' @ ?g) = (map (\<lambda>(w, n). of_nat n) ?ps, Some ?g)"
    unfolding p [symmetric] by (rule scan_fields_print) (simp_all add: isspace_def)
  then have "scan_fields 8 (''0:0:0:0:0:0:0:0:'' @ ?g) = (map (\<lambda>(w, n). of_nat n) ?ps, Some ?g)"
    by (simp only: length_replicate)
  then show ?thesis
    unfolding recv_cm_meta_def cs by (simp add: TCP_MSG_LEN_def)
qed

end
