(* ===== verification/EntityAddr.thy ===== *)
theory EntityAddr
  imports CmMeta
begin

text \<open>
  Network addresses (\<open>entity_addr_t\<close> in \<open>src/src/common/types.h\<close> and \<open>types.cc\<close>). The union of
  \<open>sockaddr\<close>, \<open>sockaddr_in\<close> and \<open>sockaddr_in6\<close> is its 28 bytes: the family at 0, the port at 2 in
  network order, the IPv4 address at 4, the IPv6 address at 8. The host is little-endian.
  \<open>inet_pton\<close> and \<open>inet_ntop\<close> are arguments; bytes of a local that the code never writes are
  arguments named \<open>junk\<close>.
\<close>

section \<open>Addresses\<close>

datatype addr_type = TYPE_SERVER | TYPE_CLIENT | TYPE_SWITCH | TYPE_ANY

record entity_addr =
  ea_type :: addr_type
  nonce :: u32
  sa :: "u8 list"
  ip_char :: "u8 list"

abbreviation (input) sa_len :: nat where
  "sa_len \<equiv> 28"

definition AF_UNSPEC :: int where "AF_UNSPEC = 0"
definition AF_INET :: int where "AF_INET = 2"
definition AF_INET6 :: int where "AF_INET6 = 10"

lemmas af_defs = AF_UNSPEC_def AF_INET_def AF_INET6_def

definition put_bytes :: "u8 list \<Rightarrow> nat \<Rightarrow> u8 list \<Rightarrow> u8 list" where
  "put_bytes bs at v = take at bs @ v @ drop (at + length v) bs"

definition get_bytes :: "u8 list \<Rightarrow> nat \<Rightarrow> nat \<Rightarrow> u8 list" where
  "get_bytes bs at n = take n (drop at bs)"

definition le16 :: "u16 \<Rightarrow> u8 list" where
  "le16 w = [of_nat (unat w), of_nat (unat w div 256)]"

definition be16 :: "u16 \<Rightarrow> u8 list" where
  "be16 w = [of_nat (unat w div 256), of_nat (unat w)]"

definition load_be16 :: "u8 list \<Rightarrow> u16" where
  "load_be16 bs = of_nat (256 * unat (bs ! 0) + unat (bs ! 1))"

definition load_le16 :: "u8 list \<Rightarrow> u16" where
  "load_le16 bs = of_nat (unat (bs ! 0) + 256 * unat (bs ! 1))"

definition get_type_name :: "addr_type \<Rightarrow> string" where
  "get_type_name t =
     (case t of TYPE_SERVER \<Rightarrow> ''Server'' | TYPE_CLIENT \<Rightarrow> ''Client''
      | TYPE_SWITCH \<Rightarrow> ''Switch'' | TYPE_ANY \<Rightarrow> ''any'')"

text \<open>The default constructor; \<open>ip_char\<close> is not initialised.\<close>

definition entity_addr_new :: "addr_type \<Rightarrow> u32 \<Rightarrow> u8 list \<Rightarrow> entity_addr" where
  "entity_addr_new t n junk = \<lparr>ea_type = t, nonce = n, sa = replicate sa_len 0, ip_char = junk\<rparr>"

definition get_family :: "entity_addr \<Rightarrow> int" where
  "get_family a = uint (load_le16 (get_bytes (sa a) 0 2))"

definition set_family :: "int \<Rightarrow> entity_addr \<Rightarrow> entity_addr" where
  "set_family f a = a\<lparr>sa := put_bytes (sa a) 0 (le16 (of_int f))\<rparr>"

definition is_ipv4 :: "entity_addr \<Rightarrow> bool" where
  "is_ipv4 a = (get_family a = AF_INET)"

definition is_ipv6 :: "entity_addr \<Rightarrow> bool" where
  "is_ipv6 a = (get_family a = AF_INET6)"

definition get_sockaddr_len :: "entity_addr \<Rightarrow> nat" where
  "get_sockaddr_len a =
     (if get_family a = AF_INET then 16 else if get_family a = AF_INET6 then 28 else sa_len)"

text \<open>\<open>src\<close> is the memory at the source address.\<close>

definition set_sockaddr :: "u8 list \<Rightarrow> entity_addr \<Rightarrow> bool \<times> entity_addr" where
  "set_sockaddr src a =
     (let f = uint (load_le16 (take 2 src)) in
      if f = AF_INET then (True, a\<lparr>sa := put_bytes (replicate sa_len 0) 0 (take 16 src)\<rparr>)
      else if f = AF_INET6 then (True, a\<lparr>sa := put_bytes (replicate sa_len 0) 0 (take 28 src)\<rparr>)
      else if f = AF_UNSPEC then (True, a\<lparr>sa := replicate sa_len 0\<rparr>)
      else (False, a))"

text \<open>\<open>set_addr\<close> fills a local \<open>sockaddr_in\<close> (16 bytes, initially \<open>junk\<close>) and copies it.\<close>

definition set_addr :: "(string \<Rightarrow> u8 list option) \<Rightarrow> u8 list \<Rightarrow> string \<Rightarrow> u16 \<Rightarrow> entity_addr \<Rightarrow> entity_addr" where
  "set_addr inet_pton junk ip port a =
     (let a1 = set_family AF_INET a;
          l1 = (case inet_pton ip of Some q \<Rightarrow> put_bytes junk 4 q | None \<Rightarrow> junk);
          l2 = put_bytes l1 0 (le16 (of_int AF_INET));
          l3 = put_bytes l2 2 (be16 port)
      in snd (set_sockaddr l3 a1))"

definition set_port :: "int \<Rightarrow> entity_addr \<Rightarrow> entity_addr result" where
  "set_port p a =
     (if get_family a = AF_INET \<or> get_family a = AF_INET6
      then Inr (a\<lparr>sa := put_bytes (sa a) 2 (be16 (of_int p))\<rparr>) else Inl AbortCall)"

definition get_port :: "entity_addr \<Rightarrow> int" where
  "get_port a =
     (if get_family a = AF_INET \<or> get_family a = AF_INET6
      then uint (load_be16 (get_bytes (sa a) 2 2)) else 0)"

text \<open>\<open>ipq[pos] = val\<close> on the four address bytes.\<close>

definition set_in4_quad :: "nat \<Rightarrow> int \<Rightarrow> entity_addr \<Rightarrow> entity_addr" where
  "set_in4_quad pos val a = (let a1 = set_family AF_INET a in a1\<lparr>sa := put_bytes (sa a1) (4 + pos) [of_int val]\<rparr>)"

definition is_blank_ip :: "entity_addr \<Rightarrow> bool" where
  "is_blank_ip a =
     (if get_family a = AF_INET then get_bytes (sa a) 4 4 = replicate 4 0
      else if get_family a = AF_INET6 then get_bytes (sa a) 8 16 = replicate 16 0 else True)"

definition is_ip :: "entity_addr \<Rightarrow> bool" where
  "is_ip a = (get_family a = AF_INET \<or> get_family a = AF_INET6)"

definition probably_equals :: "entity_addr \<Rightarrow> entity_addr \<Rightarrow> bool" where
  "probably_equals a b =
     (if get_port a \<noteq> get_port b then False
      else if nonce a \<noteq> nonce b then False
      else if is_blank_ip a \<or> is_blank_ip b then True
      else sa a = sa b)"

definition is_same_host :: "entity_addr \<Rightarrow> entity_addr \<Rightarrow> bool" where
  "is_same_host a b =
     (if get_family a \<noteq> get_family b then False
      else if get_family a = AF_INET then get_bytes (sa a) 4 4 = get_bytes (sa b) 4 4
      else if get_family a = AF_INET6 then get_bytes (sa a) 8 16 = get_bytes (sa b) 8 16
      else False)"

text \<open>The bytes of the whole object, as \<open>memcmp\<close> sees them: the enumerator, the nonce, the union, the
  character array (the sizes add up without padding).\<close>

definition type_code :: "addr_type \<Rightarrow> u32" where
  "type_code t = (case t of TYPE_SERVER \<Rightarrow> 0 | TYPE_CLIENT \<Rightarrow> 1 | TYPE_SWITCH \<Rightarrow> 2 | TYPE_ANY \<Rightarrow> 3)"

definition addr_bytes :: "entity_addr \<Rightarrow> u8 list" where
  "addr_bytes a = store_le32 (type_code (ea_type a)) @ store_le32 (nonce a) @ sa a @ ip_char a"

fun memcmp :: "u8 list \<Rightarrow> u8 list \<Rightarrow> int" where
  "memcmp (x # xs) (y # ys) = (if x = y then memcmp xs ys else if x < y then - 1 else 1)"
| "memcmp _ _ = 0"

definition addr_eq :: "entity_addr \<Rightarrow> entity_addr \<Rightarrow> bool" where
  "addr_eq a b = (memcmp (addr_bytes a) (addr_bytes b) = 0)"

definition addr_less :: "entity_addr \<Rightarrow> entity_addr \<Rightarrow> bool" where
  "addr_less a b = (memcmp (addr_bytes a) (addr_bytes b) < 0)"

text \<open>\<open>std::hash<entity_addr_t>\<close>.\<close>

definition addr_hash :: "entity_addr \<Rightarrow> u64" where
  "addr_hash a = push_bit 16 (ucast (load_le32 (get_bytes (sa a) 4 4))) + of_int (get_port a)"

text \<open>Printing; \<open>ntop\<close> is \<open>inet_ntop\<close> on the family and the address bytes, \<open>dec\<close> prints a number.\<close>

definition print_sockaddr :: "(int \<Rightarrow> u8 list \<Rightarrow> string) \<Rightarrow> (int \<Rightarrow> string) \<Rightarrow> u8 list \<Rightarrow> string" where
  "print_sockaddr ntop dec b =
     (let f = uint (load_le16 (get_bytes b 0 2)); port = dec (uint (load_be16 (get_bytes b 2 2))) in
      if f = AF_INET then ntop AF_INET (get_bytes b 4 4) @ '':'' @ port
      else if f = AF_INET6 then ''['' @ ntop AF_INET6 (get_bytes b 8 16) @ '']:'' @ port
      else ''(unrecognized address family '' @ dec f @ '')'')"

definition print_addr :: "(int \<Rightarrow> u8 list \<Rightarrow> string) \<Rightarrow> (int \<Rightarrow> string) \<Rightarrow> entity_addr \<Rightarrow> string" where
  "print_addr ntop dec a =
     (if ea_type a \<noteq> TYPE_ANY then get_type_name (ea_type a) @ '':'' else '''') @
     print_sockaddr ntop dec (sa a) @ ''/'' @ dec (uint (nonce a))"

definition ip_only_to_str :: "(int \<Rightarrow> u8 list \<Rightarrow> string option) \<Rightarrow> entity_addr \<Rightarrow> string" where
  "ip_only_to_str ntop a =
     (let host = (if get_family a = AF_INET then ntop AF_INET (get_bytes (sa a) 4 4)
                  else if get_family a = AF_INET6 then ntop AF_INET6 (get_bytes (sa a) 8 16) else None)
      in case host of Some s \<Rightarrow> s | None \<Rightarrow> '''')"

definition addr_ok :: "entity_addr \<Rightarrow> bool" where
  "addr_ok a = (length (sa a) = sa_len \<and> length (ip_char a) = 20)"

section \<open>Bytes\<close>

lemma length_put_bytes [simp]: "at + length v \<le> length bs \<Longrightarrow> length (put_bytes bs at v) = length bs"
  by (simp add: put_bytes_def)

lemma get_put_bytes [simp]:
  "at + length v \<le> length bs \<Longrightarrow> n = length v \<Longrightarrow> get_bytes (put_bytes bs at v) at n = v"
  by (simp add: put_bytes_def get_bytes_def)

lemma get_put_bytes_before:
  "at' + n \<le> at \<Longrightarrow> at + length v \<le> length bs \<Longrightarrow> get_bytes (put_bytes bs at v) at' n = get_bytes bs at' n"
  by (simp add: put_bytes_def get_bytes_def min_def) (simp add: drop_take)

lemma get_put_bytes_after:
  "at + length v \<le> at' \<Longrightarrow> at' \<le> length bs \<Longrightarrow> get_bytes (put_bytes bs at v) at' n = get_bytes bs at' n"
  by (simp add: put_bytes_def get_bytes_def)

lemma take2_get: "take 2 bs = get_bytes bs 0 2"
  by (simp add: get_bytes_def)

lemma unat_u8_of_nat: "unat (of_nat n :: u8) = n mod 256"
  by (simp add: unat_of_nat)

lemma load_be16 [simp]: "load_be16 (be16 w) = w"
proof -
  have "unat w div 256 < 256" using unat_less_u16 [of w] by (simp add: less_mult_imp_div_less)
  then have "256 * (unat w div 256 mod 256) + unat w mod 256 = unat w" by simp
  moreover have "load_be16 (be16 w) = of_nat (256 * (unat w div 256 mod 256) + unat w mod 256)"
    unfolding load_be16_def be16_def nth_Cons_0 nth_Cons_Suc One_nat_def unat_u8_of_nat ..
  ultimately show ?thesis by simp
qed

lemma load_le16 [simp]: "load_le16 (le16 w) = w"
proof -
  have "unat w div 256 < 256" using unat_less_u16 [of w] by (simp add: less_mult_imp_div_less)
  then have "unat w mod 256 + 256 * (unat w div 256 mod 256) = unat w" by simp
  moreover have "load_le16 (le16 w) = of_nat (unat w mod 256 + 256 * (unat w div 256 mod 256))"
    unfolding load_le16_def le16_def nth_Cons_0 nth_Cons_Suc One_nat_def unat_u8_of_nat ..
  ultimately show ?thesis by simp
qed

lemma length_le16 [simp]: "length (le16 w) = 2" "length (be16 w) = 2"
  by (simp_all add: le16_def be16_def)

section \<open>Reading back what was set\<close>

lemma get_family_set_sockaddr:
  assumes "length src \<ge> 28" and "uint (load_le16 (take 2 src)) \<in> {AF_INET, AF_INET6}"
  shows "get_family (snd (set_sockaddr src a)) = uint (load_le16 (take 2 src))"
  using assms by (auto simp: set_sockaddr_def get_family_def put_bytes_def get_bytes_def Let_def min_def)

lemma put_bytes_append:
  "length xs = at \<Longrightarrow> length ys = length v \<Longrightarrow> put_bytes (xs @ ys @ zs) at v = xs @ v @ zs"
  by (simp add: put_bytes_def)

lemma put_bytes_append0: "length ys = length v \<Longrightarrow> put_bytes (ys @ zs) 0 v = v @ zs"
  by (simp add: put_bytes_def)

lemma set_addr_sa:
  assumes "length a = 2" "length b = 2" "length c = 4" "length d = 8"
    and "\<forall>q. inet_pton ip = Some q \<longrightarrow> length q = 4"
  shows "sa (set_addr inet_pton (a @ b @ c @ d) ip port ea) =
    le16 (of_int AF_INET) @ be16 port @ (case inet_pton ip of Some q \<Rightarrow> q | None \<Rightarrow> c) @ d @ replicate 12 0"
proof -
  define h where "h = (case inet_pton ip of Some q \<Rightarrow> q | None \<Rightarrow> c)"
  have h: "length h = 4" using assms by (auto simp: h_def split: option.splits)
  have l1: "(case inet_pton ip of Some q \<Rightarrow> put_bytes (a @ b @ c @ d) 4 q | None \<Rightarrow> a @ b @ c @ d) = a @ b @ h @ d"
    using assms put_bytes_append [of "a @ b" 4 c] by (auto simp: h_def split: option.splits)
  have l2: "put_bytes (a @ b @ h @ d) 0 (le16 v) = le16 v @ b @ h @ d" for v
    using assms by (simp add: put_bytes_append0)
  have l3: "put_bytes (le16 v @ b @ h @ d) 2 (be16 port) = le16 v @ be16 port @ h @ d" for v
    using assms by (simp add: put_bytes_append)
  have "uint (load_le16 (take 2 (le16 (of_int AF_INET) @ xs))) = AF_INET" for xs
    by (simp add: af_defs)
  moreover have "put_bytes (replicate 28 0) 0 (take 16 (le16 v @ be16 port @ h @ d)) =
      le16 v @ be16 port @ h @ d @ replicate 12 0" for v
    using assms h by (simp add: put_bytes_def)
  ultimately show ?thesis
    unfolding set_addr_def Let_def l1 l2 l3 set_sockaddr_def by (simp add: h_def)
qed

lemma memcmp_eq_0: "length xs = length ys \<Longrightarrow> memcmp xs ys = 0 \<longleftrightarrow> xs = ys"
  by (induction xs ys rule: memcmp.induct) auto

lemma length_addr_bytes: "addr_ok a \<Longrightarrow> length (addr_bytes a) = 56"
  by (simp add: addr_bytes_def addr_ok_def store_le32_def)

lemma addr_eq_sa: "addr_ok a \<Longrightarrow> addr_ok b \<Longrightarrow> addr_eq a b \<Longrightarrow> sa a = sa b \<and> ip_char a = ip_char b"
  using memcmp_eq_0 [of "addr_bytes a" "addr_bytes b"] length_addr_bytes [of a] length_addr_bytes [of b]
  by (simp add: addr_eq_def) (simp add: addr_bytes_def addr_ok_def store_le32_def)

text \<open>Equal addresses have equal hashes, which is what a hash table relies on.\<close>

lemma addr_eq_hash: "addr_ok a \<Longrightarrow> addr_ok b \<Longrightarrow> addr_eq a b \<Longrightarrow> addr_hash a = addr_hash b"
  by (drule (2) addr_eq_sa) (simp add: addr_hash_def get_port_def get_family_def)

lemma set_port_get_port:
  assumes "addr_ok a" and "is_ip a" and "0 \<le> p" and "p < 65536"
  shows "\<exists>a'. set_port p a = Inr a' \<and> get_port a' = p \<and> get_family a' = get_family a \<and> addr_ok a'"
proof -
  let ?a = "a\<lparr>sa := put_bytes (sa a) 2 (be16 (of_int p))\<rparr>"
  have len: "2 + length (be16 (of_int p)) \<le> length (sa a)" using assms(1) by (simp add: addr_ok_def)
  have "get_family ?a = get_family a" using len by (simp add: get_family_def get_put_bytes_before)
  moreover from this have "get_port ?a = p"
    using assms len by (simp add: get_port_def is_ip_def uint_word_of_int)
  ultimately show ?thesis using assms(1,2) len by (simp add: set_port_def is_ip_def addr_ok_def)
qed

lemma split_16: "xs = take 2 xs @ take 2 (drop 2 xs) @ take 4 (drop 4 xs) @ drop 8 xs"
  using append_take_drop_id [of 2 xs] append_take_drop_id [of 2 "drop 2 xs"] append_take_drop_id [of 4 "drop 4 xs"]
  by simp

lemma set_addr_bytes:
  assumes "inet_pton ip = Some q" and "length q = 4" and "length junk = 16"
  shows "sa (set_addr inet_pton junk ip port a) =
    le16 (of_int AF_INET) @ be16 port @ q @ drop 8 junk @ replicate 12 0"
proof -
  have "sa (set_addr inet_pton (take 2 junk @ take 2 (drop 2 junk) @ take 4 (drop 4 junk) @ drop 8 junk) ip port a) =
      le16 (of_int AF_INET) @ be16 port @ q @ drop 8 junk @ replicate 12 0"
    using assms by (subst set_addr_sa) simp_all
  then show ?thesis unfolding split_16 [symmetric] .
qed

lemma set_addr_ip_char: "ip_char (set_addr inet_pton junk ip port a) = ip_char a"
  and set_addr_nonce: "nonce (set_addr inet_pton junk ip port a) = nonce a"
  by (simp_all add: set_addr_def Let_def set_sockaddr_def set_family_def)

section \<open>Properties\<close>

text \<open>\<open>set_addr\<close> followed by the accessors gives back what was set: an IPv4 address with the parsed
  host, the port in host order, equal as a host to every other address set from the same string; and
  \<open>set_port\<close> then changes the port alone.\<close>

theorem set_addr_roundtrip:
  assumes "inet_pton ip = Some q" and "length q = 4" and "length junk = 16" and "length junk' = 16"
    and "addr_ok a" and "0 \<le> p" and "p < 65536"
  shows "is_ipv4 (set_addr inet_pton junk ip port a) \<and>
    get_bytes (sa (set_addr inet_pton junk ip port a)) 4 4 = q \<and>
    get_port (set_addr inet_pton junk ip port a) = uint port \<and>
    is_same_host (set_addr inet_pton junk ip port a) (set_addr inet_pton junk' ip port' b) \<and>
    (\<exists>a'. set_port p (set_addr inet_pton junk ip port a) = Inr a' \<and> get_port a' = p \<and> is_ipv4 a')"
proof -
  note f = set_addr_bytes [of inet_pton ip, OF assms(1,2)]
  have fam: "get_family (set_addr inet_pton j ip po c) = AF_INET" if "length j = 16" for j po c
    by (simp add: get_family_def f [OF that] get_bytes_def af_defs)
  have host: "get_bytes (sa (set_addr inet_pton j ip po c)) 4 4 = q" if "length j = 16" for j po c
    using assms(2) by (simp add: f [OF that] get_bytes_def)
  have "get_port (set_addr inet_pton junk ip port a) = uint port"
    by (simp add: get_port_def fam assms(3) f [OF assms(3)] get_bytes_def)
  moreover have "addr_ok (set_addr inet_pton junk ip port a)"
    using assms(2,3,5) by (simp add: addr_ok_def set_addr_ip_char f [OF assms(3)])
  then obtain a' where "set_port p (set_addr inet_pton junk ip port a) = Inr a'" "get_port a' = p" "get_family a' = AF_INET"
    using set_port_get_port [of "set_addr inet_pton junk ip port a" p] assms(6,7) fam [OF assms(3)]
    by (auto simp: is_ip_def)
  ultimately show ?thesis
    using fam host assms(3,4) by (simp add: is_ipv4_def is_same_host_def)
qed

theorem set_addr_roundtrip_witness:
  "get_port (set_addr (\<lambda>s. Some [10, 0, 0, 1]) (replicate 16 7) ''10.0.0.1'' 4791 (entity_addr_new TYPE_SERVER 0 (replicate 20 0))) = 4791"
  using set_addr_roundtrip [of "\<lambda>s. Some [10, 0, 0, 1]" "''10.0.0.1''" "[10, 0, 0, 1]" "replicate 16 7" "replicate 16 0"
    "entity_addr_new TYPE_SERVER 0 (replicate 20 0)" 1 4791 0 "entity_addr_new TYPE_SERVER 0 (replicate 20 0)"]
  by (simp add: addr_ok_def entity_addr_new_def)

text \<open>Comparing addresses with \<open>operator==\<close> reads bytes that \<open>set_addr\<close> copies from the uninitialised
  padding of its local \<open>sockaddr_in\<close>: two addresses set from the same string and port by two calls
  compare equal only when that padding happened to agree.\<close>

theorem addr_eq_reads_padding:
  assumes "inet_pton ip = Some q" and "length q = 4" and "length junk = 16" and "length junk' = 16" and "addr_ok a"
    and "drop 8 junk \<noteq> drop 8 junk'"
  shows "\<not> addr_eq (set_addr inet_pton junk ip port a) (set_addr inet_pton junk' ip port a)"
proof
  assume eq: "addr_eq (set_addr inet_pton junk ip port a) (set_addr inet_pton junk' ip port a)"
  note f = set_addr_bytes [of inet_pton ip, OF assms(1,2)]
  have "addr_ok (set_addr inet_pton j ip port a)" if "length j = 16" for j
    using assms(2,5) that by (simp add: addr_ok_def set_addr_ip_char f [OF that])
  then have "sa (set_addr inet_pton junk ip port a) = sa (set_addr inet_pton junk' ip port a)"
    using addr_eq_sa eq assms(3,4) by blast
  then show False using assms(6) unfolding f [OF assms(3)] f [OF assms(4)] by simp
qed

theorem addr_eq_reads_padding_witness:
  "\<not> addr_eq (set_addr (\<lambda>s. Some [10, 0, 0, 1]) (replicate 16 7) ''10.0.0.1'' 4791 (entity_addr_new TYPE_SERVER 0 (replicate 20 0)))
     (set_addr (\<lambda>s. Some [10, 0, 0, 1]) (replicate 16 9) ''10.0.0.1'' 4791 (entity_addr_new TYPE_SERVER 0 (replicate 20 0)))"
  using addr_eq_reads_padding [of "\<lambda>s. Some [10, 0, 0, 1]" "''10.0.0.1''" "[10, 0, 0, 1]" "replicate 16 7" "replicate 16 9"
    "entity_addr_new TYPE_SERVER 0 (replicate 20 0)" 4791]
  by (auto simp: addr_ok_def entity_addr_new_def)

end
