(* ===== verification/Config.thy ===== *)
theory Config
  imports EntityAddr
begin

text \<open>
  The configuration (\<open>Config\<close> in \<open>src/src/common/context.h\<close>): its fields and defaults, one setting
  (\<open>Config::parse\<close>) and the reading loop of the constructor over the tokens of the file.
  \<open>inet_pton\<close> is an argument; \<open>std::stoi\<close> and \<open>operator>>\<close> are modelled from the language standard.
\<close>

section \<open>The configuration\<close>

record config =
  m_use_rdma :: bool
  m_use_rdma_cm :: bool
  m_rdma_enable_hugepage :: bool
  m_rdma_support_srq :: bool
  m_rdma_device_name :: string
  m_gid_index :: u8
  m_rdma_dscp :: u8
  m_rdma_sl :: u8
  m_rdma_port_num :: u8
  m_rdma_buffer_size_bytes :: u32
  m_rdma_send_queue_len :: u32
  m_rdma_receive_buffers_bytes :: u32
  m_rdma_receive_queue_len :: u32
  m_rdma_polling_us :: u32
  m_bind_retry_count :: u8
  m_bind_retry_delay_seconds :: u32
  m_tcp_nodelay :: bool
  m_tcp_priority :: u8
  m_tcp_rcvbuf :: u32
  m_tcp_listen_backlog :: u32
  m_bind_before_connect :: bool
  m_tcp_rcvbuf_bytes :: u32
  m_max_accept_failures :: u8
  m_op_threads_num :: u16
  m_ip_addr :: string
  m_listen_port :: u16
  m_addr :: entity_addr
  m_mc_group :: multicast_group
  m_request_size :: u32
  m_request_num :: u32
  m_cpu_id :: u8
  m_cr_role :: u16

text \<open>The defaults; fields without an initialiser keep what \<open>u\<close> has.\<close>

definition config_defaults :: "config \<Rightarrow> config" where
  "config_defaults u = u\<lparr>m_use_rdma := True, m_use_rdma_cm := False, m_rdma_enable_hugepage := False,
     m_rdma_support_srq := False, m_rdma_device_name := ''mlx5_0'', m_gid_index := 3, m_rdma_dscp := 0,
     m_rdma_sl := 0, m_rdma_port_num := 1, m_rdma_buffer_size_bytes := 128 * 1024,
     m_rdma_send_queue_len := 128, m_rdma_receive_buffers_bytes := 64 * 1024 * 1024,
     m_rdma_receive_queue_len := 256, m_rdma_polling_us := 128, m_bind_retry_count := 8,
     m_bind_retry_delay_seconds := 1, m_tcp_nodelay := True, m_tcp_priority := 0,
     m_tcp_rcvbuf := 64 * 1024, m_tcp_listen_backlog := 128, m_bind_before_connect := True,
     m_tcp_rcvbuf_bytes := 64 * 1024, m_max_accept_failures := 64, m_op_threads_num := 1,
     m_ip_addr := '''', m_addr := entity_addr_new TYPE_SERVER 0 (ip_char (m_addr u))\<rparr>"

definition config_new :: "string \<Rightarrow> u8 \<Rightarrow> u8 \<Rightarrow> config \<Rightarrow> config" where
  "config_new dev gid port u =
     (config_defaults u)\<lparr>m_use_rdma := True, m_rdma_device_name := dev, m_gid_index := gid, m_rdma_port_num := port\<rparr>"

section \<open>Numbers\<close>

definition is_digit :: "char \<Rightarrow> bool" where
  "is_digit c = (48 \<le> (of_char c :: nat) \<and> (of_char c :: nat) \<le> 57)"

definition digits_value :: "string \<Rightarrow> int" where
  "digits_value ds = foldl (\<lambda>v c. 10 * v + (of_char c - 48)) 0 ds"

text \<open>\<open>std::stoi\<close> on a token: an optional sign and the longest run of digits; without a digit, or out of
  the range of \<open>int\<close>, it throws.\<close>

definition stoi :: "string \<Rightarrow> int result" where
  "stoi s =
     (let neg = (case s of c # _ \<Rightarrow> c = CHR ''-'' | [] \<Rightarrow> False);
          r = (case s of c # cs \<Rightarrow> if c = CHR ''-'' \<or> c = CHR ''+'' then cs else s | [] \<Rightarrow> []);
          ds = takeWhile is_digit r;
          v = (if neg then - digits_value ds else digits_value ds)
      in if ds = [] \<or> v < - 2147483648 \<or> 2147483647 < v then Inl UncaughtException else Inr v)"

section \<open>One setting\<close>

definition parse_bool :: "string \<Rightarrow> bool" where
  "parse_bool val = (val = ''true'')"

text \<open>The address of the \<open>IP\<close> setting: \<open>junk\<close> is the fresh \<open>sockaddr_in\<close>.\<close>

definition parse_ip :: "(string \<Rightarrow> u8 list option) \<Rightarrow> u8 list \<Rightarrow> string \<Rightarrow> config \<Rightarrow> config" where
  "parse_ip inet_pton junk val c =
     (let a1 = set_family AF_INET ((m_addr c)\<lparr>nonce := 0\<rparr>);
          l1 = (case inet_pton val of Some q \<Rightarrow> put_bytes junk 4 q | None \<Rightarrow> junk);
          l2 = put_bytes l1 0 (le16 (of_int AF_INET));
          l3 = put_bytes l2 2 (get_bytes (sa a1) 2 2)
      in c\<lparr>m_ip_addr := val, m_addr := snd (set_sockaddr l3 a1)\<rparr>)"

text \<open>A member of the multicast group: the address as the host reads its four bytes.\<close>

definition parse_in_addr :: "(string \<Rightarrow> u8 list option) \<Rightarrow> u8 list \<Rightarrow> string \<Rightarrow> u32" where
  "parse_in_addr inet_pton junk val =
     load_le32 (case inet_pton val of Some q \<Rightarrow> q | None \<Rightarrow> get_bytes junk 4 4)"

definition parse :: "(string \<Rightarrow> u8 list option) \<Rightarrow> u8 list \<Rightarrow> string \<Rightarrow> string \<Rightarrow> config \<Rightarrow> config result" where
  "parse inet_pton junk key val c =
     (if key = ''USE_RDMA'' then Inr (c\<lparr>m_use_rdma := parse_bool val\<rparr>)
      else if key = ''RDMA_CM'' then Inr (c\<lparr>m_use_rdma_cm := parse_bool val\<rparr>)
      else if key = ''RDMA_ENABLE_HUGE_PAGE'' then Inr (c\<lparr>m_rdma_enable_hugepage := parse_bool val\<rparr>)
      else if key = ''RDMA_SURRPORT_SRQ'' then Inr (c\<lparr>m_rdma_support_srq := parse_bool val\<rparr>)
      else if key = ''IP'' then Inr (parse_ip inet_pton junk val c)
      else if key = ''LISTEN_PORT'' then rbind (stoi val) (\<lambda>v.
        Inr (c\<lparr>m_listen_port := of_int v,
               m_addr := (m_addr c)\<lparr>sa := put_bytes (sa (m_addr c)) 2 (be16 (of_int v))\<rparr>\<rparr>))
      else if key = ''RDMA_DEVICE_NAME'' then Inr (c\<lparr>m_rdma_device_name := val\<rparr>)
      else if key = ''RDMA_THREADS_NUM'' then rbind (stoi val) (\<lambda>v. Inr (c\<lparr>m_op_threads_num := of_int v\<rparr>))
      else if key = ''MULTICAST_GROUP_IP1'' then
        Inr (c\<lparr>m_mc_group := (m_mc_group c)\<lparr>ip_addr_member_1 := parse_in_addr inet_pton junk val\<rparr>\<rparr>)
      else if key = ''MULTICAST_GROUP_IP2'' then
        Inr (c\<lparr>m_mc_group := (m_mc_group c)\<lparr>ip_addr_member_2 := parse_in_addr inet_pton junk val\<rparr>\<rparr>)
      else if key = ''MULTICAST_GROUP_PORT1'' then rbind (stoi val) (\<lambda>v.
        Inr (c\<lparr>m_mc_group := (m_mc_group c)\<lparr>port_member_1 := of_int v\<rparr>\<rparr>))
      else if key = ''MULTICAST_GROUP_PORT2'' then rbind (stoi val) (\<lambda>v.
        Inr (c\<lparr>m_mc_group := (m_mc_group c)\<lparr>port_member_2 := of_int v\<rparr>\<rparr>))
      else if key = ''GID_INDEX'' then rbind (stoi val) (\<lambda>v. Inr (c\<lparr>m_gid_index := ucast (of_int v :: u16)\<rparr>))
      else if key = ''REQUEST_SIZE'' then rbind (stoi val) (\<lambda>v. Inr (c\<lparr>m_request_size := of_int v\<rparr>))
      else if key = ''REQUEST_NUM'' then rbind (stoi val) (\<lambda>v. Inr (c\<lparr>m_request_num := of_int v\<rparr>))
      else if key = ''CPU_ID'' then rbind (stoi val) (\<lambda>v. Inr (c\<lparr>m_cpu_id := of_int v\<rparr>))
      else if key = ''CR_ROLE'' then rbind (stoi val) (\<lambda>v. Inr (c\<lparr>m_cr_role := of_int v\<rparr>))
      else Inr c)"

section \<open>The file\<close>

text \<open>The pairs the reading loop hands to \<open>parse\<close>: \<open>toks\<close> are the tokens left, \<open>ws\<close> says whether
  white space follows the last one. A failed extraction leaves the string as it was.\<close>

fun read_pairs :: "bool \<Rightarrow> string list \<Rightarrow> string \<Rightarrow> string \<Rightarrow> (string \<times> string) list" where
  "read_pairs ws [] key val = [(key, val)]"
| "read_pairs ws [k] key val = [(k, val)]"
| "read_pairs ws (k # v # rest) key val =
     (k, v) # (if rest = [] \<and> \<not> ws then [] else read_pairs ws rest k v)"

fun parse_all :: "(string \<Rightarrow> u8 list option) \<Rightarrow> u8 list \<Rightarrow> (string \<times> string) list \<Rightarrow> config \<Rightarrow> config result" where
  "parse_all inet_pton junk [] c = Inr c"
| "parse_all inet_pton junk ((k, v) # ps) c = rbind (parse inet_pton junk k v c) (parse_all inet_pton junk ps)"

text \<open>\<open>file\<close> is \<open>None\<close> when the file cannot be opened.\<close>

definition config_load ::
  "(string \<Rightarrow> u8 list option) \<Rightarrow> u8 list \<Rightarrow> (string list \<times> bool) option \<Rightarrow> config \<Rightarrow> config result" where
  "config_load inet_pton junk file u =
     (case file of
        None \<Rightarrow> Inl AbortCall
      | Some (toks, ws) \<Rightarrow> parse_all inet_pton junk (read_pairs ws toks '''' '''') (config_defaults u))"

section \<open>Settings\<close>

lemma put_put_bytes:
  "length v = length w \<Longrightarrow> at + length w \<le> length bs \<Longrightarrow> put_bytes (put_bytes bs at w) at v = put_bytes bs at v"
  by (simp add: put_bytes_def)

lemma length_set_family [simp]: "length (sa a) = sa_len \<Longrightarrow> length (sa (set_family f a)) = sa_len"
  by (simp add: set_family_def)

text \<open>The address an \<open>IP\<close> setting leaves: the parsed host and the port that was there.\<close>

lemma parse_ip_addr:
  assumes "addr_ok (m_addr c)" and "length junk = 16" and "\<forall>q. inet_pton val = Some q \<longrightarrow> length q = 4"
  shows "m_addr (parse_ip inet_pton junk val c) =
    (m_addr c)\<lparr>nonce := 0, sa := le16 (of_int AF_INET) @ get_bytes (sa (m_addr c)) 2 2 @
       (case inet_pton val of Some q \<Rightarrow> q | None \<Rightarrow> get_bytes junk 4 4) @ drop 8 junk @ replicate 12 0\<rparr>"
proof -
  define h where "h = (case inet_pton val of Some q \<Rightarrow> q | None \<Rightarrow> get_bytes junk 4 4)"
  let ?a = "take 2 junk" and ?b = "take 2 (drop 2 junk)" and ?c = "take 4 (drop 4 junk)" and ?d = "drop 8 junk"
  have h: "length h = 4" using assms(2,3) by (auto simp: h_def get_bytes_def split: option.splits)
  have port: "get_bytes (sa (set_family AF_INET (m_addr c\<lparr>nonce := 0\<rparr>))) 2 2 = get_bytes (sa (m_addr c)) 2 2"
    using assms(1) by (simp add: set_family_def addr_ok_def get_put_bytes_after)
  have pl: "length (get_bytes (sa (m_addr c)) 2 2) = 2" using assms(1) by (simp add: addr_ok_def get_bytes_def)
  have l1: "(case inet_pton val of Some q \<Rightarrow> put_bytes junk 4 q | None \<Rightarrow> junk) = ?a @ ?b @ h @ ?d"
  proof (cases "inet_pton val")
    case None
    then show ?thesis using split_16 [of junk] by (simp add: h_def get_bytes_def)
  next
    case (Some q)
    then have "put_bytes (?a @ ?b @ ?c @ ?d) 4 q = ?a @ ?b @ q @ ?d"
      using put_bytes_append [of "?a @ ?b" 4 ?c q ?d] assms(2,3) by simp
    then show ?thesis unfolding split_16 [symmetric] using Some by (simp add: h_def)
  qed
  have l2: "put_bytes (?a @ ?b @ h @ ?d) 0 (le16 v) = le16 v @ ?b @ h @ ?d" for v
    using assms(2) by (simp add: put_bytes_append0)
  have l3: "put_bytes (le16 v @ ?b @ h @ ?d) 2 p = le16 v @ p @ h @ ?d" if "length p = 2" for v p
    using assms(2) that by (simp add: put_bytes_append)
  have "uint (load_le16 (take 2 (le16 (of_int AF_INET) @ xs))) = AF_INET" for xs by (simp add: af_defs)
  moreover have "put_bytes (replicate 28 0) 0 (take 16 (le16 v @ p @ h @ ?d)) = le16 v @ p @ h @ ?d @ replicate 12 0"
    if "length p = 2" for v p
    using assms(2) h that by (simp add: put_bytes_def)
  ultimately show ?thesis
    unfolding parse_ip_def Let_def port l1 l2 l3 [OF pl] set_sockaddr_def
    using pl by (simp add: h_def set_family_def)
qed

lemma parse_ip_conv:
  "m_addr (parse_ip inet_pton junk val c) = a \<Longrightarrow> parse_ip inet_pton junk val c = c\<lparr>m_ip_addr := val, m_addr := a\<rparr>"
  by (auto simp add: parse_ip_def Let_def)

lemma config_update_same: "m_ip_addr c = v \<Longrightarrow> m_addr c = a \<Longrightarrow> c\<lparr>m_ip_addr := v, m_addr := a\<rparr> = c"
  by (cases c) simp

lemma parse_ip_idem:
  assumes "addr_ok (m_addr c)" and "length junk = 16" and "\<forall>q. inet_pton val = Some q \<longrightarrow> length q = 4"
  shows "parse_ip inet_pton junk val (parse_ip inet_pton junk val c) = parse_ip inet_pton junk val c"
proof -
  let ?c = "parse_ip inet_pton junk val c" and ?p = "get_bytes (sa (m_addr c)) 2 2"
  note m = parse_ip_addr [of c junk inet_pton val, OF assms]
  have pl: "length ?p = 2" using assms(1) by (simp add: addr_ok_def get_bytes_def)
  have ok: "addr_ok (m_addr ?c)"
    using assms pl by (auto simp: m addr_ok_def get_bytes_def split: option.splits)
  have "get_bytes (sa (m_addr ?c)) 2 2 = ?p" using pl by (simp add: m) (simp add: get_bytes_def)
  then have "m_addr (parse_ip inet_pton junk val ?c) = m_addr ?c"
    unfolding parse_ip_addr [of ?c junk inet_pton val, OF ok assms(2,3)] by (simp add: m)
  then have "parse_ip inet_pton junk val ?c = ?c\<lparr>m_ip_addr := val, m_addr := m_addr ?c\<rparr>" by (rule parse_ip_conv)
  also have "\<dots> = ?c" by (rule config_update_same) (simp_all add: parse_ip_def Let_def)
  finally show ?thesis .
qed

lemma parse_idem:
  assumes "parse inet_pton junk k v c = Inr c'" and "addr_ok (m_addr c)" and "length junk = 16"
    and "\<forall>q. inet_pton v = Some q \<longrightarrow> length q = 4"
  shows "parse inet_pton junk k v c' = Inr c'"
proof -
  have pp: "put_bytes (put_bytes (sa (m_addr c)) 2 (be16 w)) 2 (be16 w) = put_bytes (sa (m_addr c)) 2 (be16 w)" for w
    using assms(2) by (simp add: put_put_bytes addr_ok_def)
  show ?thesis
    using assms(1) parse_ip_idem [of c junk inet_pton v, OF assms(2-4)]
    unfolding parse_def
    by (simp only: rbind_eq_Inr split: if_split_asm)
      ((elim exE conjE)?, (drule sum.inject(2) [THEN iffD1, OF sym] | drule sym [of _ c']), simp add: pp)+
qed

lemma parse_addr_ok:
  assumes "parse inet_pton junk k v c = Inr c'" and "addr_ok (m_addr c)" and "length junk = 16"
    and "\<forall>q. inet_pton v = Some q \<longrightarrow> length q = 4"
  shows "addr_ok (m_addr c')"
proof -
  have "addr_ok (m_addr (parse_ip inet_pton junk v c))"
    unfolding parse_ip_addr [of c junk inet_pton v, OF assms(2-4)]
    using assms(2-4) by (auto simp: addr_ok_def get_bytes_def split: option.splits)
  then show ?thesis
    using assms(1,2) unfolding parse_def
    by (simp only: rbind_eq_Inr split: if_split_asm) (auto simp: addr_ok_def)
qed

lemma read_pairs_ws:
  "toks \<noteq> [] \<Longrightarrow> even (length toks) \<Longrightarrow>
   read_pairs True toks key val = read_pairs False toks key' val' @ [last (read_pairs False toks key' val')] \<and>
   read_pairs False toks key' val' \<noteq> []"
  by (induction True toks key val arbitrary: key' val' rule: read_pairs.induct) auto

lemma parse_all_repeat:
  assumes "ps \<noteq> []" and "addr_ok (m_addr c)" and "length junk = 16" and "\<forall>s q. inet_pton s = Some q \<longrightarrow> length q = 4"
  shows "parse_all inet_pton junk (ps @ [last ps]) c = parse_all inet_pton junk ps c"
  using assms
proof (induction ps arbitrary: c)
  case (Cons p ps)
  obtain k v where p: "p = (k, v)" by (cases p)
  show ?case
  proof (cases "parse inet_pton junk k v c")
    case (Inr c')
    note ok = parse_addr_ok [OF Inr Cons.prems(2,3)] and idem = parse_idem [OF Inr Cons.prems(2,3)]
    show ?thesis
    proof (cases "ps = []")
      case True
      then show ?thesis using Inr idem Cons.prems(4) by (simp add: p)
    next
      case False
      then show ?thesis using Inr Cons.IH [of c'] ok Cons.prems(3,4) by (simp add: p)
    qed
  qed (simp add: p)
qed simp

section \<open>Properties\<close>

text \<open>White space after the last token makes the reading loop run once more and parse the last
  pair again. This is harmless: a file with an even number of tokens gives the same configuration,
  or the same failure, with and without it.\<close>

theorem config_trailing_newline:
  assumes "toks \<noteq> []" and "even (length toks)" and "length junk = 16" and "length (ip_char (m_addr u)) = 20"
    and "\<forall>s q. inet_pton s = Some q \<longrightarrow> length q = 4"
  shows "config_load inet_pton junk (Some (toks, True)) u = config_load inet_pton junk (Some (toks, False)) u"
proof -
  have "addr_ok (m_addr (config_defaults u))"
    using assms(4) by (simp add: config_defaults_def entity_addr_new_def addr_ok_def)
  then show ?thesis
    using read_pairs_ws [OF assms(1,2), of "''''" "''''" "''''" "''''"] parse_all_repeat assms(3,5)
    by (simp add: config_load_def)
qed

definition example_config :: config where
  "example_config = config_defaults \<lparr>m_use_rdma = False, m_use_rdma_cm = False, m_rdma_enable_hugepage = False,
     m_rdma_support_srq = False, m_rdma_device_name = '''', m_gid_index = 0, m_rdma_dscp = 0,
     m_rdma_sl = 0, m_rdma_port_num = 0, m_rdma_buffer_size_bytes = 0, m_rdma_send_queue_len = 0,
     m_rdma_receive_buffers_bytes = 0, m_rdma_receive_queue_len = 0, m_rdma_polling_us = 0, m_bind_retry_count = 0,
     m_bind_retry_delay_seconds = 0, m_tcp_nodelay = True, m_tcp_priority = 0, m_tcp_rcvbuf = 0,
     m_tcp_listen_backlog = 0, m_bind_before_connect = True, m_tcp_rcvbuf_bytes = 0, m_max_accept_failures = 0,
     m_op_threads_num = 0, m_ip_addr = '''', m_listen_port = 0,
     m_addr = entity_addr_new TYPE_SERVER 0 (replicate 20 0),
     m_mc_group = \<lparr>ip_addr_member_1 = 0, port_member_1 = 0, ip_addr_member_2 = 0, port_member_2 = 0\<rparr>,
     m_request_size = 0, m_request_num = 0, m_cpu_id = 0, m_cr_role = 0\<rparr>"

theorem config_trailing_newline_witness:
  "config_load (\<lambda>s. Some [10, 0, 0, 1]) (replicate 16 7) (Some ([''IP'', ''10.0.0.1'', ''CPU_ID'', ''3''], True)) example_config =
   config_load (\<lambda>s. Some [10, 0, 0, 1]) (replicate 16 7) (Some ([''IP'', ''10.0.0.1'', ''CPU_ID'', ''3''], False)) example_config"
  by (rule config_trailing_newline) (auto simp: example_config_def config_defaults_def entity_addr_new_def)

text \<open>The settings \<open>IP\<close> and \<open>LISTEN_PORT\<close> may come in either order: the address ends up with the
  same host and port.\<close>

theorem config_ip_port_commute:
  assumes "addr_ok (m_addr c)" and "length junk = 16" and "\<forall>q. inet_pton ip = Some q \<longrightarrow> length q = 4"
  shows "rbind (parse inet_pton junk ''IP'' ip c) (parse inet_pton junk ''LISTEN_PORT'' port) =
    rbind (parse inet_pton junk ''LISTEN_PORT'' port c) (parse inet_pton junk ''IP'' ip)"
proof (cases "stoi port")
  case (Inl e)
  then show ?thesis by (simp add: parse_def)
next
  case (Inr v)
  let ?c = "c\<lparr>m_listen_port := of_int v, m_addr := (m_addr c)\<lparr>sa := put_bytes (sa (m_addr c)) 2 (be16 (of_int v))\<rparr>\<rparr>"
  have ok: "addr_ok (m_addr ?c)" using assms(1) by (simp add: addr_ok_def)
  have pl: "length (get_bytes (sa (m_addr c)) 2 2) = 2" using assms(1) by (simp add: addr_ok_def get_bytes_def)
  have g: "get_bytes (put_bytes (sa (m_addr c)) 2 (be16 w)) 2 2 = be16 w" for w
    using assms(1) by (simp add: addr_ok_def)
  have "m_addr (parse_ip inet_pton junk ip ?c) =
      (m_addr (parse_ip inet_pton junk ip c))\<lparr>sa := put_bytes (sa (m_addr (parse_ip inet_pton junk ip c))) 2 (be16 (of_int v))\<rparr>"
    unfolding parse_ip_addr [of ?c junk inet_pton ip, OF ok assms(2,3)] parse_ip_addr [of c junk inet_pton ip, OF assms]
    using pl by (simp add: g put_bytes_append)
  then have "parse_ip inet_pton junk ip ?c = (parse_ip inet_pton junk ip c)\<lparr>m_listen_port := of_int v,
      m_addr := (m_addr (parse_ip inet_pton junk ip c))\<lparr>sa := put_bytes (sa (m_addr (parse_ip inet_pton junk ip c))) 2 (be16 (of_int v))\<rparr>\<rparr>"
    by (subst parse_ip_conv, assumption, subst parse_ip_conv [OF refl, of inet_pton junk ip c]) simp
  then show ?thesis using Inr by (simp add: parse_def)
qed

theorem config_ip_port_commute_witness:
  "rbind (parse (\<lambda>s. Some [10, 0, 0, 1]) (replicate 16 7) ''IP'' ''10.0.0.1'' example_config)
       (parse (\<lambda>s. Some [10, 0, 0, 1]) (replicate 16 7) ''LISTEN_PORT'' ''8000'') =
   rbind (parse (\<lambda>s. Some [10, 0, 0, 1]) (replicate 16 7) ''LISTEN_PORT'' ''8000'' example_config)
       (parse (\<lambda>s. Some [10, 0, 0, 1]) (replicate 16 7) ''IP'' ''10.0.0.1'')"
  by (rule config_ip_port_commute) (auto simp: example_config_def config_defaults_def entity_addr_new_def addr_ok_def)

end
