(* ===== verification/QueuePair.thy ===== *)
theory QueuePair
  imports RecvQueue Config
begin

text \<open>
  The queue pair (\<open>Infiniband::QueuePair\<close> in \<open>src/src/core/Infiniband.cc\<close> and \<open>Infiniband.h\<close>): its
  constructor, the transitions \<open>modify_qp_to_init/rtr/rts/error\<close>, \<open>init\<close>, \<open>to_dead\<close>, the queries and
  \<open>Infiniband::create_queue_pair\<close>. The verbs library is not part of the repository: the return code of
  each verbs call is an argument, and every call is logged with its arguments and its return code.
\<close>

section \<open>Verbs calls\<close>

datatype ibv_qp_state = IBV_QPS_RESET | IBV_QPS_INIT | IBV_QPS_RTR | IBV_QPS_RTS | IBV_QPS_SQD | IBV_QPS_SQE | IBV_QPS_ERR

datatype ibv_qp_type = IBV_QPT_RC | IBV_QPT_UD | IBV_QPT_RAW_PACKET | IBV_QPT_UC

datatype attr_bit =
    IBV_QP_STATE | IBV_QP_ACCESS_FLAGS | IBV_QP_PKEY_INDEX | IBV_QP_PORT | IBV_QP_QKEY | IBV_QP_AV | IBV_QP_PATH_MTU
  | IBV_QP_TIMEOUT | IBV_QP_RETRY_CNT | IBV_QP_RNR_RETRY | IBV_QP_RQ_PSN | IBV_QP_MAX_QP_RD_ATOMIC
  | IBV_QP_MIN_RNR_TIMER | IBV_QP_SQ_PSN | IBV_QP_MAX_DEST_RD_ATOMIC | IBV_QP_DEST_QPN

record ah_attr =
  is_global :: nat
  hop_limit :: nat
  dgid :: "u8 list"
  sgid_index :: nat
  traffic_class :: u8
  dlid :: u16
  ah_sl :: u8
  src_path_bits :: nat
  ah_port_num :: u8

record qp_attr =
  qp_state :: ibv_qp_state
  pkey_index :: nat
  qp_port_num :: u8
  remote_write :: bool
  local_write :: bool
  qkey :: u32
  path_mtu :: nat
  dest_qp_num :: u32
  rq_psn :: u32
  sq_psn :: u32
  max_dest_rd_atomic :: nat
  max_rd_atomic :: nat
  min_rnr_timer :: nat
  qp_timeout :: nat
  retry_cnt :: nat
  rnr_retry :: nat
  qp_ah :: ah_attr

text \<open>\<open>memset (&qpa, 0, sizeof (qpa))\<close>.\<close>

definition qp_attr_zero :: qp_attr where
  "qp_attr_zero = \<lparr>qp_state = IBV_QPS_RESET, pkey_index = 0, qp_port_num = 0, remote_write = False, local_write = False,
     qkey = 0, path_mtu = 0, dest_qp_num = 0, rq_psn = 0, sq_psn = 0, max_dest_rd_atomic = 0, max_rd_atomic = 0,
     min_rnr_timer = 0, qp_timeout = 0, retry_cnt = 0, rnr_retry = 0,
     qp_ah = \<lparr>is_global = 0, hop_limit = 0, dgid = replicate 16 0, sgid_index = 0, traffic_class = 0, dlid = 0,
       ah_sl = 0, src_path_bits = 0, ah_port_num = 0\<rparr>\<rparr>"

record qp_init_attr =
  ia_srq :: bool
  max_recv_sge :: nat
  ia_recv_wr :: u32
  ia_send_wr :: u32
  max_send_sge :: nat
  max_inline_data :: u32
  ia_type :: ibv_qp_type
  sq_sig_all :: nat

record send_wr =
  wr_id :: u64
  wr_signaled :: bool

datatype verb =
    ModifyQp qp_attr "attr_bit set" int
  | CreateQp qp_init_attr
  | DestroyQp
  | PostSend send_wr int
  | PostRecv

section \<open>The queue pair\<close>

record queue_pair =
  qp_type :: ibv_qp_type
  ib_physical_port :: int
  srq :: bool
  qp_handle :: "ptr option"
  qp_live :: bool
  peer_cm_meta :: ib_cm_meta
  local_cm_meta :: ib_cm_meta
  initial_psn :: u32
  max_send_wr :: u32
  max_recv_wr :: u32
  q_key :: u32
  dead :: bool
  rq :: rq_state
  temp_wr_len :: u32
  verbs_log :: "verb list"

definition PSN_MSK :: u32 where
  "PSN_MSK = push_bit 24 1 - 1"

definition BEACON_WRID :: u64 where
  "BEACON_WRID = 0xDEADBEEF"

definition MAX_INLINE_DATA :: u32 where
  "MAX_INLINE_DATA = 0"

definition cm_meta_zero :: ib_cm_meta where
  "cm_meta_zero = \<lparr>cm_lid = 0, cm_local_qpn = 0, cm_psn = 0, cm_peer_qpn = 0, cm_gid = replicate 16 0\<rparr>"

unbundle bit_operations_syntax

text \<open>\<open>pool\<close> holds the back pointers of the receive chunks and the chunks returned so far.\<close>

definition queue_pair_new ::
  "ibv_qp_type \<Rightarrow> int \<Rightarrow> bool \<Rightarrow> u32 \<Rightarrow> u32 \<Rightarrow> u32 \<Rightarrow> rq_state \<Rightarrow> queue_pair result" where
  "queue_pair_new ty port has_srq tx_queue_len rx_queue_len qk pool =
     (if ty \<noteq> IBV_QPT_RC \<and> ty \<noteq> IBV_QPT_UD \<and> ty \<noteq> IBV_QPT_RAW_PACKET then Inl AbortCall
      else Inr \<lparr>qp_type = ty, ib_physical_port = port, srq = has_srq, qp_handle = None, qp_live = False,
        peer_cm_meta = cm_meta_zero, local_cm_meta = cm_meta_zero, initial_psn = 520 AND PSN_MSK,
        max_send_wr = tx_queue_len + 1, max_recv_wr = rx_queue_len, q_key = qk, dead = False,
        rq = pool\<lparr>recv_queue := []\<rparr>, temp_wr_len = rx_queue_len, verbs_log = []\<rparr>)"

definition log_verb :: "verb \<Rightarrow> queue_pair \<Rightarrow> queue_pair" where
  "log_verb v q = q\<lparr>verbs_log := verbs_log q @ [v]\<rparr>"

text \<open>The transitions; \<open>r\<close> is what \<open>ibv_modify_qp\<close> returns.\<close>

definition modify_qp_to_error :: "int \<Rightarrow> queue_pair \<Rightarrow> int \<times> queue_pair" where
  "modify_qp_to_error r q =
     (let a = qp_attr_zero\<lparr>qp_state := IBV_QPS_ERR\<rparr>; q' = log_verb (ModifyQp a {IBV_QP_STATE} r) q
      in if r \<noteq> 0 then (- 1, q') else (0, q'))"

definition modify_qp_to_rts :: "int \<Rightarrow> queue_pair \<Rightarrow> int \<times> queue_pair" where
  "modify_qp_to_rts r q =
     (let a = qp_attr_zero\<lparr>qp_state := IBV_QPS_RTS, qp_timeout := 0x12, retry_cnt := 7, rnr_retry := 7,
                sq_psn := cm_psn (local_cm_meta q), max_rd_atomic := 1\<rparr>;
          m = {IBV_QP_STATE, IBV_QP_TIMEOUT, IBV_QP_RETRY_CNT, IBV_QP_RNR_RETRY, IBV_QP_SQ_PSN, IBV_QP_MAX_QP_RD_ATOMIC};
          q' = log_verb (ModifyQp a m r) q
      in if r \<noteq> 0 then (- 1, q') else (0, q'))"

definition modify_qp_to_rtr :: "config \<Rightarrow> nat \<Rightarrow> int \<Rightarrow> queue_pair \<Rightarrow> int \<times> queue_pair" where
  "modify_qp_to_rtr cfg gid_idx r q =
     (let a = qp_attr_zero\<lparr>qp_state := IBV_QPS_RTR, path_mtu := 1024, dest_qp_num := cm_local_qpn (peer_cm_meta q),
                rq_psn := cm_psn (peer_cm_meta q), max_dest_rd_atomic := 1, min_rnr_timer := 0x12,
                qp_ah := \<lparr>is_global = 1, hop_limit = 6, dgid = cm_gid (peer_cm_meta q), sgid_index = gid_idx,
                  traffic_class = m_rdma_dscp cfg, dlid = cm_lid (peer_cm_meta q), ah_sl = m_rdma_sl cfg,
                  src_path_bits = 0, ah_port_num = of_int (ib_physical_port q)\<rparr>\<rparr>;
          m = {IBV_QP_STATE, IBV_QP_AV, IBV_QP_PATH_MTU, IBV_QP_DEST_QPN, IBV_QP_RQ_PSN, IBV_QP_MIN_RNR_TIMER,
               IBV_QP_MAX_DEST_RD_ATOMIC};
          q' = log_verb (ModifyQp a m r) q
      in if r \<noteq> 0 then (- 1, q') else (0, q'))"

definition init_mask :: "ibv_qp_type \<Rightarrow> attr_bit set result" where
  "init_mask ty =
     (case ty of
        IBV_QPT_RC \<Rightarrow> Inr {IBV_QP_STATE, IBV_QP_PORT, IBV_QP_ACCESS_FLAGS, IBV_QP_PKEY_INDEX}
      | IBV_QPT_UD \<Rightarrow> Inr {IBV_QP_STATE, IBV_QP_PORT, IBV_QP_QKEY, IBV_QP_PKEY_INDEX}
      | IBV_QPT_RAW_PACKET \<Rightarrow> Inr {IBV_QP_STATE, IBV_QP_PORT}
      | IBV_QPT_UC \<Rightarrow> Inl AbortCall)"

definition modify_qp_to_init :: "int \<Rightarrow> queue_pair \<Rightarrow> (int \<times> queue_pair) result" where
  "modify_qp_to_init r q =
     (let a = qp_attr_zero\<lparr>qp_state := IBV_QPS_INIT, pkey_index := 0, qp_port_num := of_int (ib_physical_port q),
                remote_write := True, local_write := True, qkey := q_key q\<rparr>
      in rbind (init_mask (qp_type q)) (\<lambda>m.
           let q' = log_verb (ModifyQp a m r) q in Inr (if r \<noteq> 0 then - 1 else 0, q')))"

text \<open>The attributes \<open>init\<close> asks for.\<close>

definition init_attr :: "queue_pair \<Rightarrow> qp_init_attr" where
  "init_attr q = \<lparr>ia_srq = srq q, max_recv_sge = (if srq q then 0 else 1),
     ia_recv_wr = (if srq q then 0 else max_recv_wr q), ia_send_wr = max_send_wr q, max_send_sge = 1,
     max_inline_data = MAX_INLINE_DATA, ia_type = qp_type q, sq_sig_all = 0\<rparr>"

definition get_initial_psn :: "queue_pair \<Rightarrow> u32" where
  "get_initial_psn q = initial_psn q"

text \<open>The end of \<open>init\<close>: the local half of the handshake message and, without a shared receive queue, the
  receive buffers. \<open>bufs\<close>, \<open>ret\<close> and \<open>bad\<close> are the arguments of \<open>post_chunks_to_rq\<close>.\<close>

definition init_finish ::
  "u32 \<Rightarrow> u16 \<Rightarrow> u8 list \<Rightarrow> ptr \<Rightarrow> (nat \<Rightarrow> ptr) \<Rightarrow> int \<Rightarrow> nat \<Rightarrow> queue_pair \<Rightarrow> (int \<times> queue_pair) result" where
  "init_finish qp_num lid gid this bufs ret bad q =
     (let q1 = q\<lparr>local_cm_meta := \<lparr>cm_lid = lid, cm_local_qpn = qp_num, cm_psn = get_initial_psn q,
                    cm_peer_qpn = 0, cm_gid = gid\<rparr>\<rparr>
      in if \<not> srq q1 then
           rbind (post_chunks_to_rq bufs False (unat (temp_wr_len q1)) ret bad (sint (max_recv_wr q1)) (Some this) (rq q1))
             (\<lambda>(n, rq'). Inr (if n = 0 then - 1 else 0, log_verb PostRecv (q1\<lparr>rq := rq'\<rparr>)))
         else Inr (0, q1))"

text \<open>\<open>h\<close> is the handle of \<open>ibv_create_qp\<close> (or of the connection manager), \<open>cm_ok\<close> the assertion on the
  device context, \<open>cm_ret\<close> what \<open>rdma_create_qp\<close> returns, \<open>r\<close> what \<open>ibv_modify_qp\<close> returns.\<close>

definition qp_init ::
  "config \<Rightarrow> ptr option \<Rightarrow> bool \<Rightarrow> int \<Rightarrow> int \<Rightarrow> u32 \<Rightarrow> u16 \<Rightarrow> u8 list \<Rightarrow> ptr \<Rightarrow> (nat \<Rightarrow> ptr) \<Rightarrow> int \<Rightarrow> nat \<Rightarrow>
   queue_pair \<Rightarrow> (int \<times> queue_pair) result" where
  "qp_init cfg h cm_ok cm_ret r qp_num lid gid this bufs ret bad q =
     (let q1 = (log_verb (CreateQp (init_attr q)) q) in
      if \<not> m_use_rdma_cm cfg then
        (case h of
           None \<Rightarrow> Inr (- 1, q1\<lparr>qp_handle := None\<rparr>)
         | Some p \<Rightarrow>
             rbind (modify_qp_to_init r (q1\<lparr>qp_handle := Some p, qp_live := True\<rparr>))
               (\<lambda>(rc, q2). if rc \<noteq> 0 then Inr (- 1, log_verb DestroyQp (q2\<lparr>qp_live := False\<rparr>))
                            else init_finish qp_num lid gid this bufs ret bad q2))
      else kassert cm_ok
        (if cm_ret \<noteq> 0 then Inr (- 1, q1)
         else init_finish qp_num lid gid this bufs ret bad (q1\<lparr>qp_handle := h, qp_live := True\<rparr>)))"

text \<open>\<open>delete qp\<close>.\<close>

definition queue_pair_delete :: "int \<Rightarrow> queue_pair \<Rightarrow> rq_state result" where
  "queue_pair_delete ret q = qp_destroy (qp_handle q) (qp_live q) ret (rq q)"

text \<open>\<open>create_queue_pair\<close>: \<open>Inl\<close> a new queue pair, or \<open>Inr\<close> the state of the pool when it returns
  \<open>NULL\<close>. \<open>dret\<close> is what \<open>ibv_destroy_qp\<close> returns.\<close>

definition create_queue_pair ::
  "config \<Rightarrow> ibv_qp_type \<Rightarrow> int \<Rightarrow> bool \<Rightarrow> u32 \<Rightarrow> u32 \<Rightarrow> ptr option \<Rightarrow> bool \<Rightarrow> int \<Rightarrow> int \<Rightarrow> u32 \<Rightarrow> u16 \<Rightarrow> u8 list \<Rightarrow> ptr \<Rightarrow>
   (nat \<Rightarrow> ptr) \<Rightarrow> int \<Rightarrow> nat \<Rightarrow> int \<Rightarrow> rq_state \<Rightarrow> (queue_pair + rq_state) result" where
  "create_queue_pair cfg ty port has_srq tx_len rx_len h cm_ok cm_ret r qp_num lid gid this bufs ret bad dret pool =
     rbind (queue_pair_new ty port has_srq tx_len rx_len 0 pool) (\<lambda>q.
     rbind (qp_init cfg h cm_ok cm_ret r qp_num lid gid this bufs ret bad q) (\<lambda>(rc, q').
       if rc \<noteq> 0 then rbind (queue_pair_delete dret q') (\<lambda>p. Inr (Inr p)) else Inr (Inl q')))"

text \<open>\<open>to_dead\<close>; \<open>errno\<close> is its value after a failed \<open>ibv_post_send\<close>.\<close>

definition beacon :: send_wr where
  "beacon = \<lparr>wr_id = BEACON_WRID, wr_signaled = True\<rparr>"

definition to_dead :: "int \<Rightarrow> int \<Rightarrow> int \<Rightarrow> queue_pair \<Rightarrow> int \<times> queue_pair" where
  "to_dead r_modify r_post errno q =
     (if dead q then (0, q)
      else let (rc, q1) = modify_qp_to_error r_modify q in
        if rc \<noteq> 0 then (- 1, q1)
        else let q2 = log_verb (PostSend beacon r_post) q1 in
          if r_post \<noteq> 0 then (- errno, q2) else (0, q2\<lparr>dead := True\<rparr>))"

text \<open>The queries: \<open>r\<close> is what \<open>ibv_query_qp\<close> returns, \<open>v\<close> the queried value, \<open>out\<close> whether the result
  pointer is not null.\<close>

definition get_remote_qp_number :: "int \<Rightarrow> u32 \<Rightarrow> bool \<Rightarrow> int \<times> u32 option" where
  "get_remote_qp_number r v out = (if r \<noteq> 0 then (- 1, None) else (0, if out then Some v else None))"

definition get_remote_lid :: "int \<Rightarrow> u16 \<Rightarrow> bool \<Rightarrow> int \<times> u16 option" where
  "get_remote_lid r v out = (if r \<noteq> 0 then (- 1, None) else (0, if out then Some v else None))"

fun state_code :: "ibv_qp_state \<Rightarrow> int" where
  "state_code IBV_QPS_RESET = 0"
| "state_code IBV_QPS_INIT = 1"
| "state_code IBV_QPS_RTR = 2"
| "state_code IBV_QPS_RTS = 3"
| "state_code IBV_QPS_SQD = 4"
| "state_code IBV_QPS_SQE = 5"
| "state_code IBV_QPS_ERR = 6"

definition get_state :: "int \<Rightarrow> ibv_qp_state \<Rightarrow> int" where
  "get_state r s = (if r \<noteq> 0 then - 1 else state_code s)"

definition qp_state_string :: "int \<Rightarrow> string" where
  "qp_state_string status =
     (if status = state_code IBV_QPS_RESET then ''IBV_QPS_RESET''
      else if status = state_code IBV_QPS_INIT then ''IBV_QPS_INIT''
      else if status = state_code IBV_QPS_RTR then ''IBV_QPS_RTR''
      else if status = state_code IBV_QPS_RTS then ''IBV_QPS_RTS''
      else if status = state_code IBV_QPS_SQD then ''IBV_QPS_SQD''
      else if status = state_code IBV_QPS_SQE then ''IBV_QPS_SQE''
      else if status = state_code IBV_QPS_ERR then ''IBV_QPS_ERR''
      else '' out of range.'')"

definition wc_lookup :: "string list" where
  "wc_lookup =
     [''SUCCESS'', ''LOC_LEN_ERR'', ''LOC_QP_OP_ERR'', ''LOC_EEC_OP_ERR'', ''LOC_PROT_ERR'', ''WR_FLUSH_ERR'',
      ''MW_BIND_ERR'', ''BAD_RESP_ERR'', ''LOC_ACCESS_ERR'', ''REM_INV_REQ_ERR'', ''REM_ACCESS_ERR'', ''REM_OP_ERR'',
      ''RETRY_EXC_ERR'', ''RNR_RETRY_EXC_ERR'', ''LOC_RDD_VIOL_ERR'', ''REM_INV_RD_REQ_ERR'', ''REM_ABORT_ERR'', ''INV_EECN_ERR'',
      ''INV_EEC_STATE_ERR'', ''FATAL_ERR'', ''RESP_TIMEOUT_ERR'', ''GENERAL_ERR'']"

definition wc_status_to_string :: "int \<Rightarrow> string result" where
  "wc_status_to_string status =
     (if status < 0 \<or> 21 < status then Inr ''<status out of range!>''
      else if nat status < length wc_lookup then Inr (wc_lookup ! nat status) else Inl OutOfBounds)"


section \<open>The documented state machine of a reliable connection\<close>

text \<open>The attributes the verbs manual (\<open>ibv_modify_qp\<close>) requires for each transition of an RC queue
  pair; every state may go to the error state.\<close>

fun rc_required :: "ibv_qp_state \<Rightarrow> ibv_qp_state \<Rightarrow> attr_bit set option" where
  "rc_required IBV_QPS_RESET IBV_QPS_INIT = Some {IBV_QP_STATE, IBV_QP_PKEY_INDEX, IBV_QP_PORT, IBV_QP_ACCESS_FLAGS}"
| "rc_required IBV_QPS_INIT IBV_QPS_RTR =
     Some {IBV_QP_STATE, IBV_QP_AV, IBV_QP_PATH_MTU, IBV_QP_DEST_QPN, IBV_QP_RQ_PSN, IBV_QP_MAX_DEST_RD_ATOMIC, IBV_QP_MIN_RNR_TIMER}"
| "rc_required IBV_QPS_RTR IBV_QPS_RTS =
     Some {IBV_QP_STATE, IBV_QP_SQ_PSN, IBV_QP_MAX_QP_RD_ATOMIC, IBV_QP_RETRY_CNT, IBV_QP_RNR_RETRY, IBV_QP_TIMEOUT}"
| "rc_required _ IBV_QPS_ERR = Some {IBV_QP_STATE}"
| "rc_required _ _ = None"

text \<open>Replaying a log: \<open>None\<close> when a call is not a documented transition, or when a receive is posted
  before \<open>INIT\<close> or a send before the send queue accepts it.\<close>

fun replay :: "verb list \<Rightarrow> ibv_qp_state \<Rightarrow> ibv_qp_state option" where
  "replay [] s = Some s"
| "replay (ModifyQp a m r # vs) s =
     (if rc_required s (qp_state a) = Some m then replay vs (if r = 0 then qp_state a else s) else None)"
| "replay (PostRecv # vs) s = (if s = IBV_QPS_RESET then None else replay vs s)"
| "replay (PostSend w r # vs) s = (if s \<in> {IBV_QPS_RTS, IBV_QPS_SQE, IBV_QPS_ERR} then replay vs s else None)"
| "replay (CreateQp ia # vs) s = replay vs IBV_QPS_RESET"
| "replay (DestroyQp # vs) s = replay vs s"

lemma replay_append: "replay (xs @ ys) s = Option.bind (replay xs s) (replay ys)"
  by (induction xs s rule: replay.induct) auto

lemma log_verb_simps [simp]:
  "verbs_log (log_verb v q) = verbs_log q @ [v]" "dead (log_verb v q) = dead q"
  "local_cm_meta (log_verb v q) = local_cm_meta q" "peer_cm_meta (log_verb v q) = peer_cm_meta q"
  "qp_type (log_verb v q) = qp_type q" "qp_handle (log_verb v q) = qp_handle q" "qp_live (log_verb v q) = qp_live q"
  "rq (log_verb v q) = rq q" "srq (log_verb v q) = srq q" "temp_wr_len (log_verb v q) = temp_wr_len q"
  "max_recv_wr (log_verb v q) = max_recv_wr q" "initial_psn (log_verb v q) = initial_psn q"
  by (simp_all add: log_verb_def)

lemma attr_zero_state [simp]: "qp_state (qp_attr_zero\<lparr>qp_state := s\<rparr>) = s"
  by (simp add: qp_attr_zero_def)

lemma modify_rtr_log:
  "verbs_log (snd (modify_qp_to_rtr cfg g r q)) = verbs_log q @ [last (verbs_log (snd (modify_qp_to_rtr cfg g r q)))]"
  by (simp add: modify_qp_to_rtr_def Let_def)

lemma modify_rtr_replay:
  "replay [last (verbs_log (snd (modify_qp_to_rtr cfg g 0 q)))] IBV_QPS_INIT = Some IBV_QPS_RTR"
  by (simp add: modify_qp_to_rtr_def Let_def insert_commute)

lemma modify_rts_replay:
  "replay [last (verbs_log (snd (modify_qp_to_rts 0 q)))] IBV_QPS_RTR = Some IBV_QPS_RTS"
  by (simp add: modify_qp_to_rts_def Let_def insert_commute)

lemma modify_rts_log:
  "verbs_log (snd (modify_qp_to_rts r q)) = verbs_log q @ [last (verbs_log (snd (modify_qp_to_rts r q)))]"
  by (simp add: modify_qp_to_rts_def Let_def)

lemma init_finish_log:
  "init_finish n lid gid this bufs ret bad q = Inr (rc, q') \<Longrightarrow>
   verbs_log q' = verbs_log q @ (if srq q then [] else [PostRecv]) \<and> dead q' = dead q"
  by (auto simp: init_finish_def Let_def rbind_eq_Inr split: if_splits)

lemma qp_init_replay:
  assumes "qp_init cfg h cm_ok cm_ret 0 n lid gid this bufs ret bad q = Inr (0, q')"
    and "\<not> m_use_rdma_cm cfg" and "qp_type q = IBV_QPT_RC"
  shows "replay (verbs_log q') s = Option.bind (replay (verbs_log q) s) (\<lambda>_. Some IBV_QPS_INIT)"
proof -
  obtain p where p: "h = Some p" using assms(1,2) by (cases h) (auto simp: qp_init_def Let_def)
  have "init_finish n lid gid this bufs ret bad
      (snd (projr (modify_qp_to_init 0 (log_verb (CreateQp (init_attr q)) q\<lparr>qp_handle := Some p, qp_live := True\<rparr>)))) = Inr (0, q')"
    using assms by (simp add: p qp_init_def Let_def modify_qp_to_init_def init_mask_def)
  then have "verbs_log q' = verbs_log q @ [CreateQp (init_attr q),
      ModifyQp (qp_attr_zero\<lparr>qp_state := IBV_QPS_INIT, pkey_index := 0, qp_port_num := of_int (ib_physical_port (log_verb (CreateQp (init_attr q)) q)),
        remote_write := True, local_write := True, qkey := q_key (log_verb (CreateQp (init_attr q)) q)\<rparr>)
        {IBV_QP_STATE, IBV_QP_PORT, IBV_QP_ACCESS_FLAGS, IBV_QP_PKEY_INDEX} 0] @ (if srq q then [] else [PostRecv])"
    using assms(3) by (auto dest!: init_finish_log simp: modify_qp_to_init_def init_mask_def Let_def)
  then show ?thesis by (cases "replay (verbs_log q) s") (auto simp: replay_append insert_commute)
qed

section \<open>Properties\<close>

text \<open>C24: Bringing up a reliable connection makes only documented verbs calls. After \<open>init\<close>,
  \<open>modify_qp_to_rtr\<close> and \<open>modify_qp_to_rts\<close> succeed, the device is ready to send; every call on the
  way asks for a legal transition with exactly the attributes it requires, and receive buffers are
  posted only after \<open>INIT\<close>; \<open>to_dead\<close> then drives it to the error state before the beacon is posted.\<close>

theorem rc_bring_up:
  assumes "queue_pair_new IBV_QPT_RC port has_srq tx_len rx_len k pool = Inr q"
    and "qp_init cfg h cm_ok cm_ret 0 n lid gid this bufs ret bad q = Inr (0, q1)" and "\<not> m_use_rdma_cm cfg"
    and "modify_qp_to_rtr cfg g 0 (q1\<lparr>peer_cm_meta := peer\<rparr>) = (rc2, q2)" and "modify_qp_to_rts 0 q2 = (rc3, q3)"
  shows "rc2 = 0 \<and> rc3 = 0 \<and> replay (verbs_log q1) IBV_QPS_RESET = Some IBV_QPS_INIT \<and>
    replay (verbs_log q2) IBV_QPS_RESET = Some IBV_QPS_RTR \<and> replay (verbs_log q3) IBV_QPS_RESET = Some IBV_QPS_RTS \<and>
    replay (verbs_log (snd (to_dead 0 0 e q3))) IBV_QPS_RESET = Some (if dead q3 then IBV_QPS_RTS else IBV_QPS_ERR)"
proof -
  have q: "verbs_log q = []" "qp_type q = IBV_QPT_RC"
    using assms(1) by (auto simp: queue_pair_new_def split: if_splits)
  have r1: "replay (verbs_log q1) IBV_QPS_RESET = Some IBV_QPS_INIT"
    using qp_init_replay [OF assms(2,3) q(2), of IBV_QPS_RESET] q(1) by simp
  let ?q1 = "q1\<lparr>peer_cm_meta := peer\<rparr>"
  have q2: "q2 = snd (modify_qp_to_rtr cfg g 0 ?q1)" and q3: "q3 = snd (modify_qp_to_rts 0 q2)" using assms(4,5) by simp_all
  have r2: "replay (verbs_log q2) IBV_QPS_RESET = Some IBV_QPS_RTR"
    unfolding q2 by (subst modify_rtr_log) (simp only: replay_append, simp add: r1 modify_rtr_replay del: replay.simps)
  have r3: "replay (verbs_log q3) IBV_QPS_RESET = Some IBV_QPS_RTS"
    unfolding q3 by (subst modify_rts_log) (simp only: replay_append, simp add: r2 modify_rts_replay del: replay.simps)
  have "rc2 = 0" "rc3 = 0" using assms(4,5) by (auto simp: modify_qp_to_rtr_def modify_qp_to_rts_def Let_def)
  moreover have "replay (verbs_log (snd (to_dead 0 0 e q3))) IBV_QPS_RESET = Some (if dead q3 then IBV_QPS_RTS else IBV_QPS_ERR)"
    using r3 by (simp add: to_dead_def modify_qp_to_error_def Let_def replay_append)
  ultimately show ?thesis using r1 r2 r3 by simp
qed

text \<open>Deaths: the beacon is posted successfully at most once, however often \<open>to_dead\<close> is called.\<close>

definition beacons :: "verb list \<Rightarrow> nat" where
  "beacons vs = length (filter (\<lambda>v. v = PostSend beacon 0) vs)"

lemma to_dead_beacons:
  "beacons (verbs_log (snd (to_dead m p e q))) = beacons (verbs_log q) + (if \<not> dead q \<and> m = 0 \<and> p = 0 then 1 else 0) \<and>
   dead (snd (to_dead m p e q)) = (dead q \<or> m = 0 \<and> p = 0)"
  by (auto simp: to_dead_def modify_qp_to_error_def Let_def beacons_def)

text \<open>Calling \<open>to_dead\<close> again and again, with any mix of verbs failures, marks the queue pair dead
  exactly when one call got through, and posts exactly one beacon in that case and none otherwise.\<close>

theorem to_dead_one_beacon:
  assumes "\<not> dead q" and "beacons (verbs_log q) = 0"
  shows "beacons (verbs_log (foldl (\<lambda>s (m, p, e). snd (to_dead m p e s)) q calls)) =
      (if \<exists>(m, p, e) \<in> set calls. m = 0 \<and> p = 0 then 1 else 0) \<and>
    dead (foldl (\<lambda>s (m, p, e). snd (to_dead m p e s)) q calls) = (\<exists>(m, p, e) \<in> set calls. m = 0 \<and> p = 0)"
  using assms
proof (induction calls rule: rev_induct)
  case (snoc c calls)
  obtain m p e where c: "c = (m, p, e)" by (cases c)
  show ?case using snoc.IH [OF snoc.prems] by (auto simp: c to_dead_beacons)
qed simp

text \<open>A failed \<open>init\<close> does not make \<open>create_queue_pair\<close> return \<open>NULL\<close>, as its comment promises. When
  \<open>ibv_create_qp\<close> fails, deleting the object dereferences the null handle; when the transition to
  \<open>INIT\<close> fails, \<open>init\<close> has destroyed the verbs object already and the destructor uses it again.\<close>

theorem create_queue_pair_failure:
  assumes "\<not> m_use_rdma_cm cfg" and "r \<noteq> 0" and "ty \<noteq> IBV_QPT_UC"
  shows "create_queue_pair cfg ty port has_srq tx_len rx_len None cm_ok cm_ret r0 n lid gid this bufs ret bad dret pool = Inl NullDeref \<and>
    create_queue_pair cfg ty port has_srq tx_len rx_len (Some p) cm_ok cm_ret r n lid gid this bufs ret bad dret pool = Inl UseAfterFree"
  using assms
  by (cases ty) (simp_all add: create_queue_pair_def queue_pair_new_def qp_init_def modify_qp_to_init_def init_mask_def
    queue_pair_delete_def qp_destroy_def Let_def)

theorem create_queue_pair_failure_witness:
  "create_queue_pair example_config IBV_QPT_RC 1 False 128 256 None True 0 0 17 1 [] 99 (\<lambda>i. 100 + i) 0 0 0
     \<lparr>recv_queue = [], chunk_qp = \<lambda>_. None, pool_returned = []\<rparr> = Inl NullDeref"
  using create_queue_pair_failure [of example_config 1 IBV_QPT_RC 1 False 128 256 True 0 0 17 1 "[]" 99 "\<lambda>i. 100 + i" 0 0 0
    "\<lparr>recv_queue = [], chunk_qp = \<lambda>_. None, pool_returned = []\<rparr>" 5]
  by (simp add: example_config_def config_defaults_def)


text \<open>A concrete queue pair for the witnesses: one receive buffer, all verbs calls succeed.\<close>

definition example_pool :: rq_state where
  "example_pool = \<lparr>recv_queue = [], chunk_qp = \<lambda>_. None, pool_returned = []\<rparr>"

definition example_qp :: queue_pair where
  "example_qp = projr (queue_pair_new IBV_QPT_RC 1 False 128 1 0 example_pool)"

definition example_qp_init :: queue_pair where
  "example_qp_init = snd (projr (qp_init example_config (Some 5) True 0 0 17 1 (replicate 16 3) 99 (\<lambda>i. 100 + i) 0 0 example_qp))"

lemma example_qp: "queue_pair_new IBV_QPT_RC 1 False 128 1 0 example_pool = Inr example_qp"
  by (simp add: example_qp_def queue_pair_new_def)

lemma example_no_cm: "\<not> m_use_rdma_cm example_config"
  by (simp add: example_config_def config_defaults_def)

lemma example_qp_init:
  "qp_init example_config (Some 5) True 0 0 17 1 (replicate 16 3) 99 (\<lambda>i. 100 + i) 0 0 example_qp = Inr (0, example_qp_init)"
  using example_no_cm
  by (simp add: example_qp_init_def example_qp_def queue_pair_new_def qp_init_def modify_qp_to_init_def init_mask_def Let_def
    log_verb_def init_finish_def post_chunks_to_rq_def kassert_def add_rq_wr_def chunk_set_qp_def example_pool_def)

theorem rc_bring_up_witness:
  "replay (verbs_log (snd (modify_qp_to_rts 0 (snd (modify_qp_to_rtr example_config 3 0
      (example_qp_init\<lparr>peer_cm_meta := cm_meta_zero\<rparr>)))))) IBV_QPS_RESET = Some IBV_QPS_RTS"
  using rc_bring_up [OF example_qp example_qp_init example_no_cm surjective_pairing surjective_pairing] by blast

theorem to_dead_one_beacon_witness:
  "beacons (verbs_log (foldl (\<lambda>s (m, p, e). snd (to_dead m p e s)) example_qp [(1, 0, 0), (0, 0, 0), (0, 0, 0)])) = 1"
  using to_dead_one_beacon [of example_qp "[(1, 0, 0), (0, 0, 0), (0, 0, 0)]"]
  by (simp add: example_qp_def queue_pair_new_def beacons_def)

end
