(* ===== verification/TxCluster.thy ===== *)
theory TxCluster
  imports Chunk "HOL-Library.Multiset"
begin

text \<open>
  \<open>Infiniband::MemoryManager::Cluster\<close> (\<open>src/src/core/Infiniband.h\<close> and
  \<open>Infiniband.cc\<close>): the transmit pool. One registered region of
  \<open>buffer_size * num_chunk\<close> bytes is cut into chunks; \<open>free_chunks\<close> is a stack of
  chunk pointers, here indices into the chunk array. The interface that the dispatcher and the
  workers rely on is the locale \<open>buffer_pool\<close>, interpreted on the cluster.
\<close>

section \<open>State and operations\<close>

record cluster =
  buffer_size :: u32
  num_chunk :: u32
  free_chunks :: "nat list"
  base :: ptr
  cl_end :: ptr
  chunk_arr :: "chunk list"
  log_id :: u64

definition cluster_new :: "u32 \<Rightarrow> u64 \<Rightarrow> cluster" where
  "cluster_new s lid =
     \<lparr>buffer_size = s, num_chunk = 0, free_chunks = [], base = nullptr, cl_end = nullptr,
      chunk_arr = [], log_id = lid\<rparr>"

text \<open>A pointer difference divided by the buffer size truncates towards zero.\<close>

definition get_chunk_by_buffer :: "ptr \<Rightarrow> cluster \<Rightarrow> u32 result" where
  "get_chunk_by_buffer c cl =
     (if buffer_size cl = 0 then Inl DivByZero
      else Inr (of_int ((int c - int (base cl)) sdiv int (unat (buffer_size cl)))))"

definition is_my_buffer :: "ptr \<Rightarrow> cluster \<Rightarrow> bool" where
  "is_my_buffer c cl \<longleftrightarrow> base cl \<le> c \<and> c < cl_end cl"

definition is_valid_chunk :: "nat \<Rightarrow> cluster \<Rightarrow> bool" where
  "is_valid_chunk i cl \<longleftrightarrow> i < unat (num_chunk cl)"

text \<open>The chunk array is zeroed before the loop of \<open>fill\<close> constructs the chunks.\<close>

definition zero_chunk :: chunk where
  "zero_chunk = chunk_new nullptr 0 nullptr 0 0 0 None 0 0"

partial_function (option) fill_loop ::
  "u32 \<Rightarrow> ptr \<Rightarrow> u32 \<Rightarrow> nat \<Rightarrow> u32 \<Rightarrow> cluster \<Rightarrow> cluster result option" where
  "fill_loop n_bytes m lk i off cl =
     (if off < n_bytes then
        if i < length (chunk_arr cl) then
          fill_loop n_bytes m lk (Suc i) (off + buffer_size cl)
            (cl\<lparr>chunk_arr := (chunk_arr cl)[i := chunk_new m (buffer_size cl) (base cl + unat off) 0
                               (buffer_size cl) lk None 0 0],
               free_chunks := free_chunks cl @ [i]\<rparr>)
        else Some (Inl OutOfBounds)
      else Some (Inr cl))"

text \<open>\<open>a\<close> is what \<open>manager.malloc\<close> returned, \<open>m\<close> and \<open>lk\<close> the memory region and its key
  from \<open>ibv_reg_mr\<close>.\<close>

definition fill :: "u32 \<Rightarrow> ptr \<Rightarrow> ptr \<Rightarrow> u32 \<Rightarrow> cluster \<Rightarrow> cluster result option" where
  "fill num a m lk cl =
     (if base cl \<noteq> nullptr then Some (Inl KAssert)
      else
        let n_bytes = buffer_size cl * num;
            cl' = cl\<lparr>num_chunk := num, base := a, cl_end := a + unat n_bytes,
                     chunk_arr := replicate (unat num) zero_chunk\<rparr>
        in if a = nullptr then Some (Inl KAssert)
           else if m = nullptr then Some (Inl KAssert)
           else fill_loop n_bytes m lk 0 0 cl')"

fun take_back :: "nat list \<Rightarrow> cluster \<Rightarrow> cluster" where
  "take_back [] cl = cl"
| "take_back (c # ck) cl =
     take_back ck (cl\<lparr>chunk_arr := (chunk_arr cl)[c := reset_write_chunk (chunk_arr cl ! c)],
                     free_chunks := free_chunks cl @ [c]\<rparr>)"

fun stamp_log :: "nat list \<Rightarrow> cluster \<Rightarrow> cluster" where
  "stamp_log [] cl = cl"
| "stamp_log (c # cs) cl =
     stamp_log cs (cl\<lparr>chunk_arr := (chunk_arr cl)[c := (chunk_arr cl ! c)\<lparr>my_log_id := log_id cl\<rparr>],
                     log_id := log_id cl + 1\<rparr>)"

fun take_chunks :: "nat \<Rightarrow> nat list \<Rightarrow> cluster \<Rightarrow> nat list \<times> cluster" where
  "take_chunks 0 chunks cl = (chunks, cl)"
| "take_chunks (Suc n) chunks cl =
     (let chunks' = chunks @ [last (free_chunks cl)];
          cl' = stamp_log chunks' cl
      in take_chunks n chunks' (cl'\<lparr>free_chunks := butlast (free_chunks cl')\<rparr>))"

definition get_chunks :: "nat list \<Rightarrow> u64 \<Rightarrow> cluster \<Rightarrow> (int \<times> nat list \<times> cluster) result" where
  "get_chunks chunks num cl =
     (if unat num > length (free_chunks cl) then Inl AbortCall
      else Inr (sint (ucast num :: u32), take_chunks (unat num) chunks cl))"

definition get_buffers :: "nat list \<Rightarrow> u64 \<Rightarrow> cluster \<Rightarrow> (int \<times> nat list \<times> cluster) result" where
  "get_buffers chunks block_size cl =
     (if buffer_size cl = 0 then Inl DivByZero
      else
        let chunk_buffer_number =
              ucast ((block_size + ucast (buffer_size cl) - 1) div ucast (buffer_size cl)) :: u32
        in if unat chunk_buffer_number > length (free_chunks cl) then Inl AbortCall
           else
             let n = (if length (free_chunks cl) < unat chunk_buffer_number
                      then of_nat (length (free_chunks cl)) else chunk_buffer_number)
             in Inr (sint n, take_chunks (unat n) chunks cl))"

section \<open>Invariant\<close>

definition cluster_inv :: "cluster \<Rightarrow> bool" where
  "cluster_inv cl \<longleftrightarrow>
     length (chunk_arr cl) = unat (num_chunk cl) \<and>
     distinct (free_chunks cl) \<and>
     (\<forall>i \<in> set (free_chunks cl). i < unat (num_chunk cl) \<and>
        offset (chunk_arr cl ! i) = 0 \<and> bound (chunk_arr cl ! i) = buffer_size cl) \<and>
     (\<forall>i < unat (num_chunk cl). bytes (chunk_arr cl ! i) = buffer_size cl \<and>
        buffer (chunk_arr cl ! i) = base cl + i * unat (buffer_size cl)) \<and>
     cl_end cl = base cl + unat (num_chunk cl) * unat (buffer_size cl)"

lemmas cluster_invD = cluster_inv_def [THEN iffD1]

text \<open>What the log stamps leave alone.\<close>

lemma stamp_log_frame [simp]:
  "free_chunks (stamp_log cs cl) = free_chunks cl"
  "num_chunk (stamp_log cs cl) = num_chunk cl"
  "buffer_size (stamp_log cs cl) = buffer_size cl"
  "base (stamp_log cs cl) = base cl"
  "cl_end (stamp_log cs cl) = cl_end cl"
  "length (chunk_arr (stamp_log cs cl)) = length (chunk_arr cl)"
  by (induction cs cl rule: stamp_log.induct) simp_all

lemma stamp_log_nth: "\<exists>l. chunk_arr (stamp_log cs cl) ! i = (chunk_arr cl ! i)\<lparr>my_log_id := l\<rparr>"
proof (induction cs cl rule: stamp_log.induct)
  case (1 cl)
  have "chunk_arr cl ! i = (chunk_arr cl ! i)\<lparr>my_log_id := my_log_id (chunk_arr cl ! i)\<rparr>" by simp
  then show ?case by (metis stamp_log.simps(1))
next
  case (2 c cs cl)
  then obtain l where l: "chunk_arr (stamp_log (c # cs) cl) ! i =
      (((chunk_arr cl)[c := (chunk_arr cl ! c)\<lparr>my_log_id := log_id cl\<rparr>]) ! i)\<lparr>my_log_id := l\<rparr>"
    by auto
  show ?case
  proof (cases "c = i \<and> c < length (chunk_arr cl)")
    case True
    with l show ?thesis by auto
  next
    case False
    then have "(chunk_arr cl)[c := (chunk_arr cl ! c)\<lparr>my_log_id := log_id cl\<rparr>] ! i = chunk_arr cl ! i"
      by (cases "c = i") (simp_all add: list_update_beyond)
    with l show ?thesis by auto
  qed
qed

lemma stamp_log_chunk [simp]:
  "offset (chunk_arr (stamp_log cs cl) ! i) = offset (chunk_arr cl ! i)"
  "bound (chunk_arr (stamp_log cs cl) ! i) = bound (chunk_arr cl ! i)"
  "bytes (chunk_arr (stamp_log cs cl) ! i) = bytes (chunk_arr cl ! i)"
  "buffer (chunk_arr (stamp_log cs cl) ! i) = buffer (chunk_arr cl ! i)"
proof -
  obtain l where l: "chunk_arr (stamp_log cs cl) ! i = (chunk_arr cl ! i)\<lparr>my_log_id := l\<rparr>"
    using stamp_log_nth by blast
  show "offset (chunk_arr (stamp_log cs cl) ! i) = offset (chunk_arr cl ! i)" by (simp add: l)
  show "bound (chunk_arr (stamp_log cs cl) ! i) = bound (chunk_arr cl ! i)" by (simp add: l)
  show "bytes (chunk_arr (stamp_log cs cl) ! i) = bytes (chunk_arr cl ! i)" by (simp add: l)
  show "buffer (chunk_arr (stamp_log cs cl) ! i) = buffer (chunk_arr cl ! i)" by (simp add: l)
qed

section \<open>Taking chunks from the pool and giving them back\<close>

lemma take_chunks_frame:
  "n \<le> length (free_chunks cl) \<Longrightarrow>
   num_chunk (snd (take_chunks n cs cl)) = num_chunk cl \<and>
   buffer_size (snd (take_chunks n cs cl)) = buffer_size cl \<and>
   base (snd (take_chunks n cs cl)) = base cl \<and>
   cl_end (snd (take_chunks n cs cl)) = cl_end cl \<and>
   length (chunk_arr (snd (take_chunks n cs cl))) = length (chunk_arr cl) \<and>
   offset (chunk_arr (snd (take_chunks n cs cl)) ! i) = offset (chunk_arr cl ! i) \<and>
   bound (chunk_arr (snd (take_chunks n cs cl)) ! i) = bound (chunk_arr cl ! i) \<and>
   bytes (chunk_arr (snd (take_chunks n cs cl)) ! i) = bytes (chunk_arr cl ! i) \<and>
   buffer (chunk_arr (snd (take_chunks n cs cl)) ! i) = buffer (chunk_arr cl ! i)"
proof (induction n cs cl rule: take_chunks.induct)
  case (2 n cs cl)
  then have "n \<le> length (butlast (free_chunks cl))" by simp
  with 2 show ?case by (simp add: Let_def)
qed simp

lemma take_chunks_free:
  "n \<le> length (free_chunks cl) \<Longrightarrow>
   fst (take_chunks n cs cl) = cs @ rev (drop (length (free_chunks cl) - n) (free_chunks cl)) \<and>
   free_chunks (snd (take_chunks n cs cl)) = take (length (free_chunks cl) - n) (free_chunks cl)"
proof (induction n cs cl rule: take_chunks.induct)
  case (2 n cs cl)
  then have n: "n < length (free_chunks cl)" by simp
  have "n \<le> length (butlast (free_chunks cl))" using n by simp
  with "2.IH" show ?case
    by (simp add: Let_def take_last_butlast [OF n] take_butlast_pred [OF n, simplified])
qed simp

lemma cluster_inv_take_chunks:
  assumes "cluster_inv cl" and "n \<le> length (free_chunks cl)"
  shows "cluster_inv (snd (take_chunks n cs cl))"
  using assms take_chunks_frame [OF assms(2), of cs] take_chunks_free [OF assms(2), of cs]
  by (auto simp: cluster_inv_def dest: in_set_takeD)

lemma take_back_frame [simp]:
  "num_chunk (take_back ck cl) = num_chunk cl"
  "buffer_size (take_back ck cl) = buffer_size cl"
  "base (take_back ck cl) = base cl"
  "cl_end (take_back ck cl) = cl_end cl"
  "length (chunk_arr (take_back ck cl)) = length (chunk_arr cl)"
  "free_chunks (take_back ck cl) = free_chunks cl @ ck"
  by (induction ck cl rule: take_back.induct) simp_all

lemma cluster_inv_take_back:
  "cluster_inv cl \<Longrightarrow> distinct ck \<Longrightarrow> set ck \<inter> set (free_chunks cl) = {} \<Longrightarrow>
   \<forall>c \<in> set ck. is_valid_chunk c cl \<Longrightarrow> cluster_inv (take_back ck cl)"
proof (induction ck cl rule: take_back.induct)
  case (2 c ck cl)
  let ?cl = "cl\<lparr>chunk_arr := (chunk_arr cl)[c := reset_write_chunk (chunk_arr cl ! c)],
               free_chunks := free_chunks cl @ [c]\<rparr>"
  have c: "c < unat (num_chunk cl)" using 2 by (simp add: is_valid_chunk_def)
  have "cluster_inv ?cl"
    using "2.prems" c
    by (auto simp: cluster_inv_def reset_write_chunk_def nth_list_update)
  moreover have "\<forall>c \<in> set ck. is_valid_chunk c ?cl"
    using "2.prems" by (simp add: is_valid_chunk_def)
  ultimately show ?case using "2.IH" "2.prems" by auto
qed simp

section \<open>The pool interface\<close>

text \<open>What the clients of a pool rely on: taking \<open>n\<close> buffers succeeds exactly when that many are
  free, it moves them from the pool to the caller, and returning them moves them back.\<close>

locale buffer_pool =
  fixes pool_free :: "'s \<Rightarrow> 'b list"
    and acquire :: "nat \<Rightarrow> 's \<Rightarrow> ('b list \<times> 's) result"
    and release :: "'b list \<Rightarrow> 's \<Rightarrow> 's"
    and pool_inv :: "'s \<Rightarrow> bool"
    and pool_owns :: "'s \<Rightarrow> 'b set"
  assumes acquire_ok: "pool_inv s \<Longrightarrow> n \<le> length (pool_free s) \<Longrightarrow> \<exists>xs s'. acquire n s = Inr (xs, s')"
    and acquire_too_many: "pool_inv s \<Longrightarrow> length (pool_free s) < n \<Longrightarrow> acquire n s = Inl AbortCall"
    and acquire_inv: "pool_inv s \<Longrightarrow> acquire n s = Inr (xs, s') \<Longrightarrow> pool_inv s'"
    and acquire_moves: "pool_inv s \<Longrightarrow> acquire n s = Inr (xs, s') \<Longrightarrow>
      length xs = n \<and> mset (pool_free s) = mset xs + mset (pool_free s') \<and> pool_owns s' = pool_owns s"
    and free_distinct: "pool_inv s \<Longrightarrow> distinct (pool_free s) \<and> set (pool_free s) \<subseteq> pool_owns s"
    and release_inv: "pool_inv s \<Longrightarrow> distinct xs \<Longrightarrow> set xs \<inter> set (pool_free s) = {} \<Longrightarrow>
      set xs \<subseteq> pool_owns s \<Longrightarrow> pool_inv (release xs s)"
    and release_moves: "mset (pool_free (release xs s)) = mset (pool_free s) + mset xs \<and>
      pool_owns (release xs s) = pool_owns s"
begin

text \<open>A buffer is never lent twice: what is acquired is distinct, and disjoint from what is free.\<close>

lemma acquired_disjoint:
  assumes "pool_inv s" and "acquire n s = Inr (xs, s')"
  shows "distinct xs" and "set xs \<inter> set (pool_free s') = {}" and "set xs \<subseteq> pool_owns s'"
proof -
  note mv = acquire_moves [OF assms]
  have ms: "mset (pool_free s) = mset (xs @ pool_free s')" using mv by simp
  have d: "distinct (xs @ pool_free s')"
    using free_distinct [OF assms(1)] mset_eq_imp_distinct_iff [OF ms] by blast
  then show "distinct xs" and "set xs \<inter> set (pool_free s') = {}" by auto
  have "set (pool_free s) = set (xs @ pool_free s')" using mset_eq_setD [OF ms] .
  then show "set xs \<subseteq> pool_owns s'" using free_distinct [OF assms(1)] mv by auto
qed

lemma acquire_release:
  assumes "pool_inv s" and "acquire n s = Inr (xs, s')"
  shows "pool_inv (release xs s')" and "mset (pool_free (release xs s')) = mset (pool_free s)"
proof -
  show "pool_inv (release xs s')"
    using acquired_disjoint [OF assms] acquire_inv [OF assms] by (intro release_inv)
  show "mset (pool_free (release xs s')) = mset (pool_free s)"
    using release_moves [of xs s'] acquire_moves [OF assms] by simp
qed

text \<open>Two borrowers never share a buffer.\<close>

lemma acquire_acquire_disjoint:
  assumes "pool_inv s" and "acquire n s = Inr (xs, s1)" and "acquire k s1 = Inr (ys, s2)"
  shows "set xs \<inter> set ys = {}"
proof -
  have i1: "pool_inv s1" using acquire_inv [OF assms(1,2)] .
  have "set ys \<subseteq> set (pool_free s1)"
    using acquire_moves [OF i1 assms(3)] by (metis mset_subset_eq_add_left set_mset_mono set_mset_mset)
  then show ?thesis using acquired_disjoint(2) [OF assms(1,2)] by blast
qed

end

definition cluster_acquire :: "nat \<Rightarrow> cluster \<Rightarrow> (nat list \<times> cluster) result" where
  "cluster_acquire n cl =
     (if 2 ^ 64 \<le> n then Inl AbortCall
      else rbind (get_chunks [] (of_nat n) cl) (\<lambda>(r, xs, cl'). Inr (xs, cl')))"

lemma get_chunks_eq:
  "unat num \<le> length (free_chunks cl) \<Longrightarrow>
   get_chunks cs num cl = Inr (sint (ucast num :: u32), take_chunks (unat num) cs cl)"
  by (simp add: get_chunks_def)

lemma cluster_inv_free_bound:
  assumes "cluster_inv cl"
  shows "length (free_chunks cl) < 2 ^ 64"
proof -
  have "set (free_chunks cl) \<subseteq> {..< unat (num_chunk cl)}" "distinct (free_chunks cl)"
    using assms by (auto simp: cluster_inv_def)
  then have "length (free_chunks cl) \<le> unat (num_chunk cl)"
    by (metis card_lessThan card_mono distinct_card finite_lessThan)
  then show ?thesis using unat_less_u32 [of "num_chunk cl"] by simp
qed

lemma cluster_acquire_eq:
  assumes "cluster_inv cl"
  shows "cluster_acquire n cl =
    (if n \<le> length (free_chunks cl) then Inr (take_chunks n [] cl) else Inl AbortCall)"
proof (cases "2 ^ 64 \<le> n")
  case True
  then show ?thesis using cluster_inv_free_bound [OF assms] by (simp add: cluster_acquire_def)
next
  case False
  then have "unat (of_nat n :: u64) = n" by (simp add: unat_of_nat)
  with False show ?thesis
    by (auto simp: cluster_acquire_def get_chunks_def split: prod.splits)
qed

interpretation tx_pool: buffer_pool free_chunks cluster_acquire take_back cluster_inv
  "\<lambda>cl. {i. is_valid_chunk i cl}"
proof (unfold_locales, goal_cases)
  case (1 s n)
  then show ?case by (simp add: cluster_acquire_eq)
next
  case (2 s n)
  then show ?case by (simp add: cluster_acquire_eq)
next
  case (3 s n xs s')
  then show ?case
    using cluster_inv_take_chunks [of s n "[]"]
    by (simp add: cluster_acquire_eq split: if_splits)
next
  case (4 s n xs s')
  then have n: "n \<le> length (free_chunks s)" and e: "take_chunks n [] s = (xs, s')"
    by (simp_all add: cluster_acquire_eq split: if_splits)
  let ?d = "length (free_chunks s) - n"
  have xs: "xs = rev (drop ?d (free_chunks s))" and s': "free_chunks s' = take ?d (free_chunks s)"
    using take_chunks_free [OF n, of "[]"] e by simp_all
  have "mset (free_chunks s) = mset (take ?d (free_chunks s)) + mset (drop ?d (free_chunks s))"
    by (metis append_take_drop_id mset_append)
  with xs s' n take_chunks_frame [OF n, of "[]"] e show ?case
    by (simp add: is_valid_chunk_def)
next
  case (5 s)
  then show ?case by (auto simp: cluster_inv_def is_valid_chunk_def)
next
  case (6 s xs)
  then show ?case by (intro cluster_inv_take_back) auto
next
  case (7 xs s)
  then show ?case by (simp add: is_valid_chunk_def)
qed

section \<open>Properties\<close>

lemma of_nat_mult_u32_less:
  assumes "unat bs * n < 2 ^ 32" and "i < n" and "bs \<noteq> (0 :: u32)"
  shows "bs * of_nat i < bs * of_nat n" and "unat (bs * of_nat i) = unat bs * i"
proof -
  have b: "0 < unat bs" using assms(3) by (simp add: unat_gt_0)
  have le: "unat bs * i \<le> unat bs * n" using assms(2) by simp
  have n: "n < 2 ^ 32" using assms(1) b le_less_trans [of n "unat bs * n"] by simp
  have u: "unat (bs * of_nat k) = unat bs * k" if "k \<le> n" for k
  proof -
    have "unat bs * k < 2 ^ 32" using assms(1) that by (meson le_less_trans mult_le_mono2)
    moreover have "unat (of_nat k :: u32) = k" using that n by (simp add: unat_of_nat)
    ultimately show ?thesis by (simp add: unat_mult_no_overflow)
  qed
  show "unat (bs * of_nat i) = unat bs * i" using u assms(2) by simp
  show "bs * of_nat i < bs * of_nat n"
    using u [of i] u [of n] assms(2) b by (simp add: word_less_nat_alt)
qed

definition filled :: "nat \<Rightarrow> cluster \<Rightarrow> bool" where
  "filled n cl \<longleftrightarrow> free_chunks cl = [0 ..< n] \<and>
     (\<forall>i < n. offset (chunk_arr cl ! i) = 0 \<and> bound (chunk_arr cl ! i) = buffer_size cl \<and>
        bytes (chunk_arr cl ! i) = buffer_size cl \<and>
        buffer (chunk_arr cl ! i) = base cl + i * unat (buffer_size cl))"

lemma fill_loop_fills:
  assumes "unat (buffer_size cl) * n < 2 ^ 32" and "buffer_size cl \<noteq> 0"
    and "length (chunk_arr cl) = n" and "i \<le> n" and "filled i cl"
  shows "\<exists>cl'. fill_loop (buffer_size cl * of_nat n) m lk i (buffer_size cl * of_nat i) cl = Some (Inr cl') \<and>
    filled n cl' \<and> length (chunk_arr cl') = n \<and> base cl' = base cl \<and> cl_end cl' = cl_end cl \<and>
    num_chunk cl' = num_chunk cl \<and> buffer_size cl' = buffer_size cl"
  using assms
proof (induction "n - i" arbitrary: i cl)
  case 0
  then have "i = n" by simp
  with 0 show ?case by (subst fill_loop.simps) auto
next
  case (Suc d)
  let ?bs = "buffer_size cl"
  let ?cl = "cl\<lparr>chunk_arr := (chunk_arr cl)[i := chunk_new m ?bs (base cl + unat (?bs * of_nat i)) 0 ?bs lk None 0 0],
               free_chunks := free_chunks cl @ [i]\<rparr>"
  have i: "i < n" using Suc by simp
  note w = of_nat_mult_u32_less [OF Suc.prems(1) i Suc.prems(2)]
  have f: "filled (Suc i) ?cl"
    using Suc.prems(3,5) i w(2) by (auto simp: filled_def chunk_new_def nth_list_update less_Suc_eq)
  have off: "?bs * of_nat i + ?bs = ?bs * of_nat (Suc i)" by (simp add: algebra_simps)
  have "fill_loop (?bs * of_nat n) m lk i (?bs * of_nat i) cl =
        fill_loop (?bs * of_nat n) m lk (Suc i) (?bs * of_nat (Suc i)) ?cl"
    using w(1) i Suc.prems(3) by (subst fill_loop.simps) (simp only: off if_True)
  moreover have "d = n - Suc i" using Suc.hyps(2) by simp
  ultimately show ?case
    using Suc.hyps(1) [of "Suc i" ?cl] Suc.prems i f by auto
qed

lemma fill_ok:
  assumes "base cl = nullptr" and "free_chunks cl = []" and "a \<noteq> nullptr" and "m \<noteq> nullptr"
    and "buffer_size cl \<noteq> 0" and "unat (buffer_size cl) * unat num < 2 ^ 32"
  shows "\<exists>cl'. fill num a m lk cl = Some (Inr cl') \<and> cluster_inv cl' \<and>
           free_chunks cl' = [0 ..< unat num] \<and> base cl' = a \<and> num_chunk cl' = num \<and> buffer_size cl' = buffer_size cl"
proof -
  let ?cl = "cl\<lparr>num_chunk := num, base := a, cl_end := a + unat (buffer_size cl * num),
               chunk_arr := replicate (unat num) zero_chunk\<rparr>"
  have b: "unat (buffer_size cl * num) = unat (buffer_size cl) * unat num"
    using assms(6) by (simp add: unat_mult_no_overflow)
  have "filled 0 ?cl" using assms(2) by (simp add: filled_def)
  then obtain cl' where cl': "fill_loop (buffer_size cl * num) m lk 0 0 ?cl = Some (Inr cl')"
    "filled (unat num) cl'" "length (chunk_arr cl') = unat num" "base cl' = a"
    "cl_end cl' = a + unat (buffer_size cl * num)" "num_chunk cl' = num" "buffer_size cl' = buffer_size cl"
    using fill_loop_fills [of ?cl "unat num" 0 m lk] assms(5,6) by auto
  then have "cluster_inv cl'"
    using b by (auto simp: cluster_inv_def filled_def mult.commute)
  then show ?thesis
    using cl' assms(1,3,4) by (auto simp: fill_def Let_def filled_def)
qed

text \<open>\<open>Cluster::fill\<close> returns: when the region \<open>buffer_size * num\<close> does not wrap around in
  32 bits and the two allocations succeed, it builds \<open>num\<close> chunks that tile the region, all free
  and empty, and the pool invariant holds.\<close>

theorem fill_builds_pool:
  assumes "base cl = nullptr" and "free_chunks cl = []" and "a \<noteq> nullptr" and "m \<noteq> nullptr"
    and "buffer_size cl \<noteq> 0" and "unat (buffer_size cl) * unat num < 2 ^ 32"
  shows "\<exists>cl'. fill num a m lk cl = Some (Inr cl') \<and> cluster_inv cl' \<and>
           free_chunks cl' = [0 ..< unat num] \<and> base cl' = a \<and> num_chunk cl' = num \<and> buffer_size cl' = buffer_size cl"
  using assms by (rule fill_ok)

theorem fill_builds_pool_witness:
  "\<exists>cl'. fill 1024 4096 1 7 (cluster_new 131072 0) = Some (Inr cl') \<and> cluster_inv cl' \<and>
     free_chunks cl' = [0 ..< 1024]"
  using fill_builds_pool [of "cluster_new 131072 0" 4096 1 1024 7] by (auto simp: cluster_new_def)

lemma get_buffers_ok:
  assumes "cluster_inv cl" and "buffer_size cl \<noteq> 0"
    and "unat block_size + unat (buffer_size cl) < 2 ^ 32"
  shows "let k = (unat block_size + unat (buffer_size cl) - 1) div unat (buffer_size cl) in
     unat block_size \<le> k * unat (buffer_size cl) \<and>
     k * unat (buffer_size cl) < unat block_size + unat (buffer_size cl) \<and>
     get_buffers cs block_size cl =
       (if k \<le> length (free_chunks cl) then Inr (sint (of_nat k :: u32), take_chunks k cs cl)
        else Inl AbortCall)"
proof -
  let ?bs = "unat (buffer_size cl)" and ?n = "unat block_size"
  let ?k = "(?n + ?bs - 1) div ?bs"
  have bs: "0 < ?bs" using assms(2) by (simp add: unat_gt_0)
  have m: "(?n + ?bs - 1) mod ?bs < ?bs" "?k * ?bs + (?n + ?bs - 1) mod ?bs = ?n + ?bs - 1"
    using bs by simp_all
  have c: "?n \<le> ?k * ?bs" "?k * ?bs < ?n + ?bs" using m bs by linarith+
  have kb: "?k < 2 ^ 32" using assms(3) by (meson div_le_dividend diff_le_self le_less_trans)
  have w: "unat (block_size + ucast (buffer_size cl) - 1) = ?n + ?bs - 1"
  proof -
    have s: "unat (block_size + ucast (buffer_size cl)) = ?n + ?bs"
      using assms(3) by (subst unat_add_no_overflow) simp_all
    then have "1 \<le> block_size + ucast (buffer_size cl)" using bs by (simp add: word_le_nat_alt)
    then show ?thesis using s by (simp add: unat_sub_le)
  qed
  have q: "(ucast ((block_size + ucast (buffer_size cl) - 1) div ucast (buffer_size cl)) :: u32) = of_nat ?k"
    by (rule word_unat_eq_iff [THEN iffD2])
       (simp add: unsigned_ucast_eq unat_div w unat_of_nat take_bit_eq_mod)
  have uk: "unat (of_nat ?k :: u32) = ?k" using kb by (simp add: unat_of_nat)
  show ?thesis
    using c uk assms(2) by (simp add: get_buffers_def Let_def q del: of_nat_div)
qed

text \<open>\<open>Cluster::get_buffers\<close> hands out the least number of chunks that covers the request.
  If that many are free it returns them, otherwise it aborts.\<close>

theorem get_buffers_covers:
  assumes "cluster_inv cl" and "buffer_size cl \<noteq> 0"
    and "unat block_size + unat (buffer_size cl) < 2 ^ 32"
  shows "let k = (unat block_size + unat (buffer_size cl) - 1) div unat (buffer_size cl) in
     unat block_size \<le> k * unat (buffer_size cl) \<and>
     k * unat (buffer_size cl) < unat block_size + unat (buffer_size cl) \<and>
     get_buffers cs block_size cl =
       (if k \<le> length (free_chunks cl) then Inr (sint (of_nat k :: u32), take_chunks k cs cl)
        else Inl AbortCall)"
  by (rule get_buffers_ok [OF assms])

theorem get_buffers_covers_witness:
  "\<exists>cl. cluster_inv cl \<and>
     get_buffers [] 9 cl = Inr (3, take_chunks 3 [] cl) \<and> fst (take_chunks 3 [] cl) = [3, 2, 1]"
proof -
  obtain cl where cl: "fill 4 4096 1 7 (cluster_new 4 0) = Some (Inr cl)" "cluster_inv cl"
    "free_chunks cl = [0 ..< 4]" and bs: "buffer_size cl = 4"
    using fill_ok [of "cluster_new 4 0" 4096 1 4 7] by (auto simp: cluster_new_def)
  have "get_buffers [] 9 cl = Inr (3, take_chunks 3 [] cl)"
    using get_buffers_covers [OF cl(2), of 9 "[]"] bs cl(3) by (simp add: Let_def)
  moreover have "fst (take_chunks 3 [] cl) = [3, 2, 1]"
    using take_chunks_free [of 3 cl "[]"] cl(3) by (simp add: upt_rec)
  ultimately show ?thesis using cl(2) by blast
qed

lemma get_chunk_by_buffer_inside:
  assumes "base cl \<le> c" and "buffer_size cl \<noteq> 0"
  shows "get_chunk_by_buffer c cl = Inr (of_nat ((c - base cl) div unat (buffer_size cl)))"
proof -
  have "int c - int (base cl) = int (c - base cl)" using assms(1) by simp
  moreover have "int (c - base cl) sdiv int (unat (buffer_size cl)) = int ((c - base cl) div unat (buffer_size cl))"
    by (rule sdiv_of_nat)
  ultimately show ?thesis using assms(2) by (simp only: get_chunk_by_buffer_def if_False of_int_of_nat_eq)
qed

text \<open>\<open>is_my_buffer\<close> and \<open>get_chunk_by_buffer\<close> agree with the layout of the pool: an address
  is accepted exactly when it lies in the buffer of some chunk, and the chunk computed from the
  address is that one.\<close>

theorem chunk_by_buffer_correct:
  assumes "cluster_inv cl" and "buffer_size cl \<noteq> 0"
  shows "(is_my_buffer c cl \<longleftrightarrow>
            (\<exists>i. is_valid_chunk i cl \<and> buffer (chunk_arr cl ! i) \<le> c \<and>
                 c < buffer (chunk_arr cl ! i) + unat (bytes (chunk_arr cl ! i)))) \<and>
         (\<forall>i. is_valid_chunk i cl \<and> buffer (chunk_arr cl ! i) \<le> c \<and>
              c < buffer (chunk_arr cl ! i) + unat (bytes (chunk_arr cl ! i)) \<longrightarrow>
              get_chunk_by_buffer c cl = Inr (of_nat i))"
proof -
  let ?bs = "unat (buffer_size cl)" and ?n = "unat (num_chunk cl)"
  have bs: "0 < ?bs" using assms(2) by (simp add: unat_gt_0)
  have lay: "buffer (chunk_arr cl ! i) = base cl + i * ?bs" "bytes (chunk_arr cl ! i) = buffer_size cl"
    if "i < ?n" for i
    using assms(1) that by (auto simp: cluster_inv_def)
  have end_eq: "cl_end cl = base cl + ?n * ?bs" using assms(1) by (simp add: cluster_inv_def)
  have idx: "(c - base cl) div ?bs = i \<and> base cl \<le> c \<and> c < cl_end cl"
    if "i < ?n" "base cl + i * ?bs \<le> c" "c < base cl + i * ?bs + ?bs" for i
  proof -
    have "(c - base cl) div ?bs = i" using that bs by (intro div_nat_eqI) (simp_all add: algebra_simps)
    moreover have "Suc i * ?bs \<le> ?n * ?bs" using that(1) by (intro mult_le_mono1) simp
    ultimately show ?thesis using that end_eq by (simp add: algebra_simps)
  qed
  have ex: "\<exists>i < ?n. base cl + i * ?bs \<le> c \<and> c < base cl + i * ?bs + ?bs"
    if "base cl \<le> c" "c < cl_end cl"
  proof (intro exI conjI)
    let ?i = "(c - base cl) div ?bs"
    show "?i < ?n" using that end_eq bs by (simp add: div_less_iff_less_mult less_diff_conv2 add.commute)
    have "?i * ?bs \<le> c - base cl" by simp
    then show "base cl + ?i * ?bs \<le> c" using that(1) by linarith
    have "c - base cl < ?i * ?bs + ?bs" using bs by (metis add.commute div_mult_mod_eq mod_less_divisor nat_add_left_cancel_less)
    then show "c < base cl + ?i * ?bs + ?bs" using that(1) by linarith
  qed
  have in_chunk: "is_valid_chunk i cl \<and> buffer (chunk_arr cl ! i) \<le> c \<and>
      c < buffer (chunk_arr cl ! i) + unat (bytes (chunk_arr cl ! i)) \<longleftrightarrow>
      i < ?n \<and> base cl + i * ?bs \<le> c \<and> c < base cl + i * ?bs + ?bs" for i
    using lay by (auto simp: is_valid_chunk_def)
  show ?thesis
    unfolding in_chunk
  proof (intro conjI allI impI)
    show "is_my_buffer c cl \<longleftrightarrow> (\<exists>i. i < ?n \<and> base cl + i * ?bs \<le> c \<and> c < base cl + i * ?bs + ?bs)"
      using idx ex unfolding is_my_buffer_def by blast
    show "get_chunk_by_buffer c cl = Inr (of_nat i)"
      if "i < ?n \<and> base cl + i * ?bs \<le> c \<and> c < base cl + i * ?bs + ?bs" for i
      using idx [of i] that get_chunk_by_buffer_inside [OF _ assms(2), of c] by simp
  qed
qed

theorem chunk_by_buffer_correct_witness:
  "\<exists>cl. cluster_inv cl \<and> buffer_size cl = 16 \<and> is_my_buffer 135 cl \<and> get_chunk_by_buffer 135 cl = Inr 2"
proof -
  obtain cl where cl: "cluster_inv cl" "buffer_size cl = 16" "num_chunk cl = 4" "base cl = 100"
    using fill_ok [of "cluster_new 16 0" 100 1 4 7] by (auto simp: cluster_new_def)
  have "is_valid_chunk 2 cl" using cl(3) by (simp add: is_valid_chunk_def)
  moreover have "buffer (chunk_arr cl ! 2) = 132" "bytes (chunk_arr cl ! 2) = 16"
    using cl by (auto simp: cluster_inv_def)
  ultimately have i: "is_valid_chunk 2 cl \<and> buffer (chunk_arr cl ! 2) \<le> 135 \<and>
      135 < buffer (chunk_arr cl ! 2) + unat (bytes (chunk_arr cl ! 2))" by simp
  have "buffer_size cl \<noteq> 0" using cl(2) by simp
  from chunk_by_buffer_correct [OF cl(1) this, of 135] i cl show ?thesis
    by (metis of_nat_numeral)
qed

text \<open>C4: the transmit pool never lends a chunk twice. Two successive \<open>get_chunks\<close> return
  disjoint sets of chunks, and returning both with \<open>take_back\<close> restores the pool: the same free
  chunks, all of them reset.\<close>

theorem get_chunks_exclusive:
  assumes "cluster_inv cl"
    and "get_chunks [] n cl = Inr (r1, xs, cl1)" and "get_chunks [] k cl1 = Inr (r2, ys, cl2)"
  shows "distinct (xs @ ys) \<and> length xs = unat n \<and> length ys = unat k \<and>
         set (xs @ ys) \<inter> set (free_chunks cl2) = {} \<and>
         cluster_inv (take_back xs (take_back ys cl2)) \<and>
         mset (free_chunks (take_back xs (take_back ys cl2))) = mset (free_chunks cl)"
proof -
  have b: "unat j < 18446744073709551616" for j :: u64 by (rule unat_less_u64)
  have a1: "cluster_acquire (unat n) cl = Inr (xs, cl1)"
    using assms(2) b [of n] by (simp add: cluster_acquire_def)
  have a2: "cluster_acquire (unat k) cl1 = Inr (ys, cl2)"
    using assms(3) b [of k] by (simp add: cluster_acquire_def)
  have i1: "cluster_inv cl1" and i2: "cluster_inv cl2"
    using tx_pool.acquire_inv [OF assms(1) a1] tx_pool.acquire_inv a2 by blast+
  note m1 = tx_pool.acquire_moves [OF assms(1) a1] and m2 = tx_pool.acquire_moves [OF i1 a2]
  note d1 = tx_pool.acquired_disjoint [OF assms(1) a1] and d2 = tx_pool.acquired_disjoint [OF i1 a2]
  have xy: "set xs \<inter> set ys = {}" using tx_pool.acquire_acquire_disjoint [OF assms(1) a1 a2] .
  have sub: "set (free_chunks cl2) \<subseteq> set (free_chunks cl1)"
    using m2 by (metis mset_subset_eq_add_right set_mset_mono set_mset_mset)
  then have dis: "set (xs @ ys) \<inter> set (free_chunks cl2) = {}" using d1(2) d2(2) by auto
  have ib: "cluster_inv (take_back ys cl2)" using tx_pool.acquire_release(1) [OF i1 a2] .
  have own: "set xs \<subseteq> {i. is_valid_chunk i (take_back ys cl2)}"
    using d1(3) m2 by (auto simp: is_valid_chunk_def)
  have "cluster_inv (take_back xs (take_back ys cl2))"
    using dis xy by (intro tx_pool.release_inv [OF ib d1(1) _ own]) auto
  then show ?thesis
    using d1(1) d2(1) xy dis m1 m2 by simp
qed

theorem get_chunks_exclusive_witness:
  "\<exists>cl xs ys cl1 cl2 r1 r2. cluster_inv cl \<and>
     get_chunks [] 1 cl = Inr (r1, xs, cl1) \<and> get_chunks [] 2 cl1 = Inr (r2, ys, cl2) \<and>
     distinct (xs @ ys)"
proof -
  obtain cl where cl: "cluster_inv cl" "free_chunks cl = [0 ..< 4]"
    using fill_ok [of "cluster_new 16 0" 100 1 4 7] by (auto simp: cluster_new_def)
  obtain r1 xs cl1 where g1: "get_chunks [] 1 cl = Inr (r1, xs, cl1)"
    using cl(2) by (cases "take_chunks 1 [] cl") (simp add: get_chunks_def)
  have "free_chunks cl1 = [0 ..< 3]"
    using g1 cl(2) take_chunks_free [of 1 cl "[]"] by (auto simp add: get_chunks_def upt_rec)
  then obtain r2 ys cl2 where g2: "get_chunks [] 2 cl1 = Inr (r2, ys, cl2)"
    by (cases "take_chunks 2 [] cl1") (simp add: get_chunks_def)
  show ?thesis using cl(1) g1 g2 get_chunks_exclusive [OF cl(1) g1 g2] by blast
qed

end
