(* ===== verification/IbDevice.thy ===== *)
theory IbDevice
  imports QueuePair TxCluster
begin

text \<open>
  Ports, devices, completion channels and the set-up of the whole stack (\<open>Port\<close>, \<open>Device\<close>,
  \<open>DeviceList\<close>, \<open>Infiniband::init\<close>, \<open>verify_prereq\<close>, \<open>CompletionChannel\<close>, \<open>CompletionQueue\<close>,
  \<open>MemoryManager::create_tx_pool\<close> in \<open>src/src/core/Infiniband.cc\<close> and \<open>Infiniband.h\<close>), built without
  \<open>HAVE_IBV_EXP\<close>. What the verbs library answers is an argument.
\<close>

section \<open>Ports and devices\<close>

record port_attr =
  pa_lid :: u16
  gid_tbl_len :: int
  pa_active :: bool

record port =
  port_num :: int
  p_attr :: port_attr
  lid :: u16
  gid_idx :: int
  gid :: "u8 list"

text \<open>\<open>r\<close> and \<open>r2\<close> are the results of \<open>ibv_query_port\<close> and \<open>ibv_query_gid\<close>.\<close>

definition port_new :: "config \<Rightarrow> int \<Rightarrow> port_attr \<Rightarrow> int \<Rightarrow> u8 list \<Rightarrow> u8 \<Rightarrow> port result" where
  "port_new cfg r a r2 g ipn =
     (if r = - 1 then Inl AbortCall
      else kassert (uint (m_gid_index cfg) < gid_tbl_len a)
        (if r2 \<noteq> 0 then Inl AbortCall
         else Inr \<lparr>port_num = uint ipn, p_attr = a, lid = pa_lid a, gid_idx = uint (m_gid_index cfg), gid = g\<rparr>))"

record device_attr =
  phys_port_cnt :: u8
  max_qp_wr :: int
  max_srq :: int
  max_srq_wr :: int
  max_mr_size :: u64

record device =
  dev_name :: string
  port_cnt :: u8
  dev_attr :: device_attr
  active_port :: "port option"

text \<open>\<open>ctx\<close> says that the device context is not null, \<open>r\<close> is the result of \<open>ibv_query_device\<close>.\<close>

definition device_new :: "bool \<Rightarrow> bool \<Rightarrow> string \<Rightarrow> int \<Rightarrow> device_attr \<Rightarrow> device result" where
  "device_new dev ctx nm r a =
     kassert dev (kassert ctx
       (if r \<noteq> 0 then Inl AbortCall else Inr \<lparr>dev_name = nm, port_cnt = 0, dev_attr = a, active_port = None\<rparr>))"

text \<open>The loop of \<open>binding_port\<close> counts in an 8-bit variable; \<open>mk\<close> constructs the port of a number.
  \<open>None\<close> stands for a loop that does not end.\<close>

partial_function (option) bind_loop ::
  "(u8 \<Rightarrow> port result) \<Rightarrow> u8 \<Rightarrow> int \<Rightarrow> u8 \<Rightarrow> (port option) result option" where
  "bind_loop mk cnt pn port_id =
     (if port_id \<le> cnt then
        (case mk port_id of
           Inl f \<Rightarrow> Some (Inl f)
         | Inr p \<Rightarrow>
             if uint port_id = pn \<and> pa_active (p_attr p) then Some (Inr (Some p))
             else bind_loop mk cnt pn (port_id + 1))
      else Some (Inr None))"

definition binding_port :: "(u8 \<Rightarrow> port result) \<Rightarrow> int \<Rightarrow> device \<Rightarrow> device result option" where
  "binding_port mk pn d =
     Option.bind (bind_loop mk (phys_port_cnt (dev_attr d)) pn 1) (\<lambda>res.
       Some (rbind res (\<lambda>p.
         let d' = d\<lparr>port_cnt := phys_port_cnt (dev_attr d),
                     active_port := (case p of Some x \<Rightarrow> Some x | None \<Rightarrow> active_port d)\<rparr>
         in kassert (active_port d' \<noteq> None) (Inr d'))))"

text \<open>\<open>DeviceList\<close>: \<open>devs\<close> are the constructed devices, in the order of the list.\<close>

definition device_list_new :: "bool \<Rightarrow> bool \<Rightarrow> bool \<Rightarrow> device result list \<Rightarrow> device list result" where
  "device_list_new list_ok use_cm cm_ok devs =
     kassert list_ok (kassert (devs \<noteq> [])
       (if use_cm \<and> \<not> cm_ok then Inl KAssert
        else fold (\<lambda>d acc. rbind acc (\<lambda>ds. rbind d (\<lambda>x. Inr (ds @ [x])))) devs (Inr [])))"

fun get_device :: "string \<Rightarrow> device list \<Rightarrow> device option" where
  "get_device nm [] = None"
| "get_device nm (d # ds) = (if nm = '''' \<or> nm = dev_name d then Some d else get_device nm ds)"

section \<open>Completion channels and queues\<close>

record comp_channel =
  chan :: "ptr option"
  chan_cq :: "ptr option"
  cq_events_that_need_ack :: u32
  acked :: nat

definition MAX_ACK_EVENT :: u32 where
  "MAX_ACK_EVENT = 5000"

definition channel_new :: comp_channel where
  "channel_new = \<lparr>chan = None, chan_cq = None, cq_events_that_need_ack = 0, acked = 0\<rparr>"

definition channel_init :: "ptr option \<Rightarrow> int \<Rightarrow> comp_channel \<Rightarrow> int \<times> comp_channel" where
  "channel_init c rc ch =
     (let ch' = ch\<lparr>chan := c\<rparr> in
      if c = None then (- 1, ch') else if rc < 0 then (- 1, ch') else (0, ch'))"

definition bind_cq :: "ptr option \<Rightarrow> comp_channel \<Rightarrow> comp_channel" where
  "bind_cq c ch = ch\<lparr>chan_cq := c\<rparr>"

text \<open>\<open>acked\<close> counts the events acknowledged with \<open>ibv_ack_cq_events\<close>; \<open>r\<close> is the result of
  \<open>ibv_get_cq_event\<close>.\<close>

definition ack_events :: "comp_channel \<Rightarrow> comp_channel" where
  "ack_events ch = ch\<lparr>acked := acked ch + unat (cq_events_that_need_ack ch), cq_events_that_need_ack := 0\<rparr>"

definition get_cq_event :: "int \<Rightarrow> comp_channel \<Rightarrow> bool \<times> comp_channel" where
  "get_cq_event r ch =
     (if r \<noteq> 0 then (False, ch)
      else let ch1 = ch\<lparr>cq_events_that_need_ack := cq_events_that_need_ack ch + 1\<rparr> in
        if cq_events_that_need_ack ch1 = MAX_ACK_EVENT
        then (True, ch1\<lparr>acked := acked ch1 + unat MAX_ACK_EVENT, cq_events_that_need_ack := 0\<rparr>)
        else (True, ch1))"

definition channel_destroy :: "int \<Rightarrow> comp_channel \<Rightarrow> unit result" where
  "channel_destroy r ch = (if chan ch \<noteq> None then kassert (r = 0) (Inr ()) else Inr ())"

definition create_comp_channel :: "ptr option \<Rightarrow> int \<Rightarrow> int \<Rightarrow> comp_channel option result" where
  "create_comp_channel c rc dret =
     (let (r, ch) = channel_init c rc channel_new in
      if r \<noteq> 0 then
        (if c \<noteq> None then Inl UseAfterFree else rbind (channel_destroy dret ch) (\<lambda>_. Inr None))
      else Inr (Some ch))"

text \<open>\<open>c\<close> and \<open>r\<close> are the results of \<open>ibv_create_cq\<close> and \<open>ibv_req_notify_cq\<close>; the second component is the
  channel with the queue bound.\<close>

definition cq_init :: "ptr option \<Rightarrow> int \<Rightarrow> comp_channel \<Rightarrow> int \<times> ptr option \<times> comp_channel" where
  "cq_init c r ch =
     (if c = None then (- 1, None, ch)
      else if r \<noteq> 0 then (- 1, None, ch)
      else (0, c, bind_cq c ch))"

definition cq_destroy :: "ptr option \<Rightarrow> int \<Rightarrow> unit result" where
  "cq_destroy c r = (if c \<noteq> None then kassert (r = 0) (Inr ()) else Inr ())"

definition create_comp_queue :: "ptr option \<Rightarrow> int \<Rightarrow> int \<Rightarrow> comp_channel \<Rightarrow> (ptr option \<times> comp_channel) option result" where
  "create_comp_queue c r dret ch =
     (let (rc, q, ch') = cq_init c r ch in
      if rc \<noteq> 0 then rbind (cq_destroy q dret) (\<lambda>_. Inr None) else Inr (Some (q, ch')))"

definition rearm_notify :: "int \<Rightarrow> int" where
  "rearm_notify r = r"

definition poll_cq :: "int \<Rightarrow> int" where
  "poll_cq r = (if r < 0 then - 1 else r)"

section \<open>Setting up\<close>

definition pd_new :: "ptr option \<Rightarrow> ptr result" where
  "pd_new p = (case p of None \<Rightarrow> Inl AbortCall | Some x \<Rightarrow> Inr x)"

text \<open>\<open>verify_prereq\<close>: \<open>rc1\<close> and \<open>rc2\<close> are the results of \<open>setenv\<close> and \<open>ibv_fork_init\<close>; the value is
  the new \<open>init_prereq\<close>.\<close>

definition verify_prereq :: "config \<Rightarrow> int \<Rightarrow> int \<Rightarrow> bool result" where
  "verify_prereq cfg rc1 rc2 =
     (if m_rdma_enable_hugepage cfg \<and> rc1 \<noteq> 0 then Inl AbortCall
      else if rc2 \<noteq> 0 then Inl AbortCall else Inr True)"

text \<open>The memory manager's pool of send buffers: \<open>a\<close> is the region, \<open>m\<close> the array of chunks.\<close>

definition create_tx_pool :: "bool \<Rightarrow> bool \<Rightarrow> u32 \<Rightarrow> u32 \<Rightarrow> ptr \<Rightarrow> ptr \<Rightarrow> u32 \<Rightarrow> u64 \<Rightarrow> cluster result option" where
  "create_tx_pool dev pd sz tx_num a m lk lid0 =
     (if \<not> dev then Some (Inl KAssert) else if \<not> pd then Some (Inl KAssert)
      else fill tx_num a m lk (cluster_new sz lid0))"

text \<open>The queue lengths computed by \<open>Infiniband::init\<close>.\<close>

definition queue_lens :: "config \<Rightarrow> device_attr \<Rightarrow> (u32 \<times> u32) result" where
  "queue_lens cfg a =
     (let rx0 = (if m_rdma_support_srq cfg then of_int (max_srq_wr a) else of_int (max_qp_wr a)) :: u32 in
      if m_rdma_support_srq cfg \<and> max_srq a = 0 then Inl KAssert
      else let rx = (if rx0 > m_rdma_receive_queue_len cfg then m_rdma_receive_queue_len cfg else rx0) in
        if m_rdma_receive_buffers_bytes cfg > 0 \<and> rx > m_rdma_receive_buffers_bytes cfg then Inl AbortCall
        else let tx0 = of_int (max_qp_wr a - 1) :: u32;
                 tx = (if tx0 > m_rdma_send_queue_len cfg then m_rdma_send_queue_len cfg else tx0)
          in if ucast (m_rdma_buffer_size_bytes cfg) * ucast tx > max_mr_size a then Inl AbortCall
             else Inr (rx, tx))"

record infiniband =
  tx_queue_len :: u32
  rx_queue_len :: u32
  ib_port :: u8
  initialized :: bool
  support_srq :: bool
  ib_device :: "device option"
  send_buffers :: "cluster option"

definition infiniband_new :: infiniband where
  "infiniband_new = \<lparr>tx_queue_len = 0, rx_queue_len = 0, ib_port = 0, initialized = False, support_srq = False,
     ib_device = None, send_buffers = None\<rparr>"

text \<open>\<open>init\<close>: \<open>devs\<close> the device list, \<open>mk\<close> the ports, \<open>pd\<close> the protection domain, \<open>rs\<close> the result of
  \<open>set_nonblock\<close>, \<open>a\<close>, \<open>m\<close>, \<open>lk\<close> the allocations of the send pool, \<open>pool\<close>, \<open>bufs\<close>, \<open>ret\<close>, \<open>bad\<close> those of
  the receive pool.\<close>

definition infiniband_init ::
  "config \<Rightarrow> device list result \<Rightarrow> (u8 \<Rightarrow> port result) \<Rightarrow> ptr option \<Rightarrow> int \<Rightarrow> ptr \<Rightarrow> ptr \<Rightarrow> u32 \<Rightarrow> u64 \<Rightarrow>
   (nat \<Rightarrow> ptr) \<Rightarrow> int \<Rightarrow> nat \<Rightarrow> rq_state \<Rightarrow> infiniband \<Rightarrow> infiniband result option" where
  "infiniband_init cfg devs mk pd rs a m lk lid0 bufs ret bad pool ib =
     (if initialized ib then Some (Inr ib)
      else case devs of
        Inl f \<Rightarrow> Some (Inl f)
      | Inr ds \<Rightarrow>
        (case get_device (m_rdma_device_name cfg) ds of
           None \<Rightarrow> Some (Inl KAssert)
         | Some d \<Rightarrow>
           Option.bind (binding_port mk (uint (m_rdma_port_num cfg)) d) (\<lambda>rd. case rd of
             Inl f \<Rightarrow> Some (Inl f)
           | Inr d' \<Rightarrow>
             (case rbind (pd_new pd) (\<lambda>_. kassert (rs = 0) (queue_lens cfg (dev_attr d'))) of
                Inl f \<Rightarrow> Some (Inl f)
              | Inr (rx, tx) \<Rightarrow>
                Option.bind (create_tx_pool True True (m_rdma_buffer_size_bytes cfg) (8 * tx) a m lk lid0) (\<lambda>rc.
                  Some (rbind rc (\<lambda>cl.
                    let ib' = \<lparr>tx_queue_len = tx, rx_queue_len = rx,
                          ib_port = (case active_port d' of Some p \<Rightarrow> of_int (port_num p) | None \<Rightarrow> 0),
                          initialized = True, support_srq = m_rdma_support_srq cfg, ib_device = Some d', send_buffers = Some cl\<rparr>
                    in if m_rdma_support_srq cfg
                       then rbind (post_chunks_to_rq bufs True 0 ret bad (sint rx) None pool) (\<lambda>_. Inr ib')
                       else Inr ib')))))))"

section \<open>Binding a port\<close>

lemma bind_loop_ends:
  assumes "cnt < 255" and "1 \<le> i" and "i \<le> unat cnt + 1"
    and "\<forall>k. i \<le> k \<and> k \<le> unat cnt \<longrightarrow> (\<exists>p. mk (of_nat k) = Inr p)"
  shows "\<exists>r. bind_loop mk cnt pn (of_nat i) = Some (Inr r) \<and>
    (\<forall>p. r = Some p \<longleftrightarrow> (\<exists>k. i \<le> k \<and> k \<le> unat cnt \<and> int k = pn \<and> mk (of_nat k) = Inr p \<and> pa_active (p_attr p)))"
  using assms(2-)
proof (induction "unat cnt + 1 - i" arbitrary: i)
  case 0
  then have i: "i = unat cnt + 1" by simp
  have "i < 256" using assms(1) i by (simp add: word_less_nat_alt)
  then have "unat (of_nat i :: u8) = i" by (simp add: unat_of_nat)
  then have "\<not> (of_nat i :: u8) \<le> cnt" by (simp add: word_le_nat_alt i)
  then show ?case by (subst bind_loop.simps) (auto simp: i)
next
  case (Suc d)
  have cb: "unat cnt < 255" using assms(1) by (simp add: word_less_nat_alt)
  have i: "i \<le> unat cnt" using Suc.hyps(2) by simp
  have un: "unat (of_nat i :: u8) = i" using i cb by (simp add: unat_of_nat)
  have le: "(of_nat i :: u8) \<le> cnt" using i by (simp add: word_le_nat_alt un)
  obtain p where p: "mk (of_nat i) = Inr p" using Suc.prems(3) i by auto
  have nx: "(of_nat i :: u8) + 1 = of_nat (Suc i)" by (simp add: add.commute)
  have ui: "uint (of_nat i :: u8) = int i" by (metis un uint_nat)
  show ?case
  proof (cases "int i = pn \<and> pa_active (p_attr p)")
    case True
    then have "bind_loop mk cnt pn (of_nat i) = Some (Inr (Some p))"
      by (subst bind_loop.simps) (use le p ui in simp)
    moreover have "k = i" if "int k = pn" for k using True that by simp
    ultimately show ?thesis using True p i by (intro exI [of _ "Some p"]) auto
  next
    case False
    then have step: "bind_loop mk cnt pn (of_nat i) = bind_loop mk cnt pn (of_nat (Suc i))"
      by (subst bind_loop.simps) (use le p ui in \<open>auto simp: nx simp del: of_nat_Suc\<close>)
    obtain r where r: "bind_loop mk cnt pn (of_nat (Suc i)) = Some (Inr r)"
      "\<forall>p. r = Some p \<longleftrightarrow> (\<exists>k. Suc i \<le> k \<and> k \<le> unat cnt \<and> int k = pn \<and> mk (of_nat k) = Inr p \<and> pa_active (p_attr p))"
      using Suc.hyps(1) [of "Suc i"] Suc.hyps(2) Suc.prems(3) i by force
    have "(\<exists>k. Suc i \<le> k \<and> k \<le> unat cnt \<and> int k = pn \<and> mk (of_nat k) = Inr p' \<and> pa_active (p_attr p')) \<longleftrightarrow>
      (\<exists>k. i \<le> k \<and> k \<le> unat cnt \<and> int k = pn \<and> mk (of_nat k) = Inr p' \<and> pa_active (p_attr p'))" for p'
      using False p by (metis Suc_leD le_antisym not_less_eq_eq sum.inject(2))
    then show ?thesis unfolding step r(1) using r(2) by simp
  qed
qed


lemma bind_loop_forever:
  assumes "\<forall>i. \<exists>p. mk i = Inr p \<and> \<not> (uint i = pn \<and> pa_active (p_attr p))"
  shows "bind_loop mk 255 pn i = None"
proof -
  define P where "P = (\<lambda>mk' cnt pn' (i :: u8) (y :: port option result). \<not> (mk' = mk \<and> cnt = (255 :: u8) \<and> pn' = pn))"
  have "P mk' cnt pn' i y" if res: "bind_loop mk' cnt pn' i = Some y" for mk' cnt pn' i y
  proof (rule bind_loop.raw_induct [where P = P, OF _ res])
    fix loop mk' cnt pn' i y
    assume IH: "\<And>mk' cnt pn' i y. loop mk' cnt pn' i = Some y \<Longrightarrow> P mk' cnt pn' i y"
      and body: "(if i \<le> cnt then case mk' i of Inl f \<Rightarrow> Some (Inl f)
        | Inr p \<Rightarrow> if uint i = pn' \<and> pa_active (p_attr p) then Some (Inr (Some p)) else loop mk' cnt pn' (i + 1)
        else Some (Inr None)) = Some y"
    have le: "i \<le> (255 :: u8)" using unat_less_u8 [of i] by (simp add: word_le_nat_alt)
    obtain p where "mk i = Inr p" "\<not> (uint i = pn \<and> pa_active (p_attr p))" using assms by blast
    then have "mk' = mk \<and> cnt = 255 \<and> pn' = pn \<Longrightarrow> loop mk 255 pn (i + 1) = Some y" using body le by auto
    then show "P mk' cnt pn' i y" using IH [of mk 255 pn "i + 1" y] by (auto simp: P_def)
  qed
  then have "bind_loop mk 255 pn i \<noteq> Some y" for y unfolding P_def by blast
  then show ?thesis by (cases "bind_loop mk 255 pn i") auto
qed

section \<open>Properties\<close>

text \<open>\<open>binding_port\<close> returns for every device with fewer than 255 ports, and binds exactly the
  configured port: it succeeds when that number is one of the device's ports and the port is
  active, and fails on its assertion otherwise.\<close>

theorem binding_port_correct:
  assumes "phys_port_cnt (dev_attr d) < 255" and "active_port d = None"
    and "\<forall>k. 1 \<le> k \<and> k \<le> unat (phys_port_cnt (dev_attr d)) \<longrightarrow> (\<exists>p. mk (of_nat k) = Inr p)"
  shows "binding_port mk pn d =
    Some (if \<exists>k p. 1 \<le> k \<and> k \<le> unat (phys_port_cnt (dev_attr d)) \<and> int k = pn \<and> mk (of_nat k) = Inr p \<and> pa_active (p_attr p)
          then Inr (d\<lparr>port_cnt := phys_port_cnt (dev_attr d), active_port := Some (projr (mk (of_int pn)))\<rparr>)
          else Inl KAssert)"
proof -
  let ?cnt = "phys_port_cnt (dev_attr d)"
  obtain r where r: "bind_loop mk ?cnt pn 1 = Some (Inr r)"
      "\<forall>p. r = Some p \<longleftrightarrow> (\<exists>k. 1 \<le> k \<and> k \<le> unat ?cnt \<and> int k = pn \<and> mk (of_nat k) = Inr p \<and> pa_active (p_attr p))"
    using bind_loop_ends [of ?cnt 1 mk pn] assms(1,3) by auto
  show ?thesis
  proof (cases r)
    case None
    then have "\<not> (\<exists>k p. 1 \<le> k \<and> k \<le> unat ?cnt \<and> int k = pn \<and> mk (of_nat k) = Inr p \<and> pa_active (p_attr p))"
      using r(2) by blast
    then show ?thesis using r(1) None assms(2) by (simp add: binding_port_def Let_def)
  next
    case (Some p)
    then obtain k where k: "1 \<le> k" "k \<le> unat ?cnt" "int k = pn" "mk (of_nat k) = Inr p" "pa_active (p_attr p)" using r(2) by blast
    have "mk (of_int pn) = Inr p" using k(4) unfolding k(3) [symmetric] by simp
    then show ?thesis using r(1) Some k by (auto simp: binding_port_def Let_def)
  qed
qed

definition example_port :: port where
  "example_port = \<lparr>port_num = 1, p_attr = \<lparr>pa_lid = 4, gid_tbl_len = 16, pa_active = True\<rparr>, lid = 4, gid_idx = 3, gid = replicate 16 0\<rparr>"

definition example_device :: device where
  "example_device = \<lparr>dev_name = ''mlx5_0'', port_cnt = 0,
     dev_attr = \<lparr>phys_port_cnt = 2, max_qp_wr = 1024, max_srq = 8, max_srq_wr = 512, max_mr_size = 0xFFFFFFFF\<rparr>, active_port = None\<rparr>"

theorem binding_port_correct_witness:
  "\<exists>d. binding_port (\<lambda>i. Inr example_port) 1 example_device = Some (Inr d)"
  using binding_port_correct [of example_device "\<lambda>i. Inr example_port" 1]
  by (auto simp: example_device_def example_port_def split: if_splits)

text \<open>With 255 ports and the configured one missing or inactive, \<open>binding_port\<close> never returns: its
  8-bit counter wraps around before it can pass the number of ports.\<close>

theorem binding_port_diverges:
  assumes "phys_port_cnt (dev_attr d) = 255" and "\<forall>i. \<exists>p. mk i = Inr p \<and> \<not> (uint i = pn \<and> pa_active (p_attr p))"
  shows "binding_port mk pn d = None"
  using bind_loop_forever [OF assms(2)] assms(1) by (simp add: binding_port_def)

theorem binding_port_diverges_witness:
  "binding_port (\<lambda>i. Inr (example_port\<lparr>p_attr := \<lparr>pa_lid = 4, gid_tbl_len = 16, pa_active = False\<rparr>\<rparr>)) 1
     (example_device\<lparr>dev_attr := (dev_attr example_device)\<lparr>phys_port_cnt := 255\<rparr>\<rparr>) = None"
  by (rule binding_port_diverges) auto

text \<open>Events: \<open>Some r\<close> is a call of \<open>get_cq_event\<close>, \<open>None\<close> a call of \<open>ack_events\<close>.\<close>

fun channel_run :: "int option list \<Rightarrow> comp_channel \<Rightarrow> comp_channel" where
  "channel_run [] ch = ch"
| "channel_run (Some r # es) ch = channel_run es (snd (get_cq_event r ch))"
| "channel_run (None # es) ch = channel_run es (ack_events ch)"

definition channel_ok :: "comp_channel \<Rightarrow> bool" where
  "channel_ok ch = (cq_events_that_need_ack ch < MAX_ACK_EVENT)"

lemma get_cq_event_account:
  assumes "channel_ok ch"
  shows "channel_ok (snd (get_cq_event r ch)) \<and>
    acked (snd (get_cq_event r ch)) + unat (cq_events_that_need_ack (snd (get_cq_event r ch))) =
    acked ch + unat (cq_events_that_need_ack ch) + (if r = 0 then 1 else 0)"
proof -
  let ?n = "cq_events_that_need_ack ch"
  have n: "unat ?n < 5000" using assms by (simp add: channel_ok_def MAX_ACK_EVENT_def word_less_nat_alt)
  then have s: "unat (?n + 1) = unat ?n + 1" by (simp add: unat_add_no_overflow)
  have "?n + 1 = 5000 \<longleftrightarrow> unat ?n + 1 = 5000" using s by (simp add: word_unat_eq_iff del: unat_eq_zero)
  then show ?thesis using n s assms
    by (auto simp: get_cq_event_def Let_def channel_ok_def MAX_ACK_EVENT_def word_less_nat_alt)
qed


text \<open>Every completion event is acknowledged exactly once. Along any interleaving of event
  retrievals and explicit acknowledgements, the events retrieved are the events acknowledged plus
  the pending ones, fewer than \<open>MAX_ACK_EVENT\<close> stay pending, and a final \<open>ack_events\<close> leaves none.\<close>

theorem cq_events_acked_once:
  "let ch = channel_run es channel_new in
     acked ch + unat (cq_events_that_need_ack ch) = length (filter (\<lambda>e. e = Some 0) es) \<and>
     unat (cq_events_that_need_ack ch) < 5000 \<and>
     acked (ack_events ch) = length (filter (\<lambda>e. e = Some 0) es)"
proof -
  have run: "channel_ok (channel_run es ch) \<and> acked (channel_run es ch) + unat (cq_events_that_need_ack (channel_run es ch)) =
      acked ch + unat (cq_events_that_need_ack ch) + length (filter (\<lambda>e. e = Some 0) es)" if "channel_ok ch" for ch
    using that
  proof (induction es ch rule: channel_run.induct)
    case (2 r es ch)
    then show ?case using get_cq_event_account [OF 2(2), of r] by auto
  next
    case (3 es ch)
    then show ?case by (auto simp: ack_events_def channel_ok_def MAX_ACK_EVENT_def)
  qed simp
  have "channel_ok channel_new" by (simp add: channel_ok_def channel_new_def MAX_ACK_EVENT_def)
  note run [OF this]
  then show ?thesis
    by (simp add: Let_def channel_new_def ack_events_def channel_ok_def MAX_ACK_EVENT_def word_less_nat_alt)
qed

text \<open>The queue lengths chosen by \<open>init\<close> respect the device and the configuration: the receive
  queue fits the device's limit, the send queue leaves room for the beacon, and the registered
  memory of \<open>tx_queue_len\<close> buffers fits the largest memory region.\<close>

theorem queue_lens_bounds:
  assumes "queue_lens cfg a = Inr (rx, tx)" and "1 \<le> max_qp_wr a" and "max_qp_wr a < 2 ^ 31"
    and "0 \<le> max_srq_wr a" and "max_srq_wr a < 2 ^ 31"
  shows "uint rx \<le> (if m_rdma_support_srq cfg then max_srq_wr a else max_qp_wr a) \<and> rx \<le> m_rdma_receive_queue_len cfg \<and>
    uint tx + 1 \<le> max_qp_wr a \<and> tx \<le> m_rdma_send_queue_len cfg \<and>
    uint (m_rdma_buffer_size_bytes cfg) * uint tx \<le> uint (max_mr_size a)"
proof -
  have u: "uint (of_int v :: u32) = v" if "0 \<le> v" "v < 2 ^ 31" for v
    using that by (simp add: uint_word_of_int)
  define rx0 where "rx0 = (if m_rdma_support_srq cfg then max_srq_wr a else max_qp_wr a)"
  have rx: "rx = (if (of_int rx0 :: u32) > m_rdma_receive_queue_len cfg then m_rdma_receive_queue_len cfg else of_int rx0)"
    and tx: "tx = (if (of_int (max_qp_wr a - 1) :: u32) > m_rdma_send_queue_len cfg then m_rdma_send_queue_len cfg else of_int (max_qp_wr a - 1))"
    and mr: "\<not> ucast (m_rdma_buffer_size_bytes cfg) * ucast tx > max_mr_size a"
    using assms(1) by (auto simp: queue_lens_def Let_def rx0_def split: if_splits)
  have "uint rx \<le> rx0" "rx \<le> m_rdma_receive_queue_len cfg"
    using u [of rx0] assms(2-) unfolding rx by (auto simp: rx0_def word_less_alt word_le_def split: if_splits)
  moreover have "uint tx \<le> max_qp_wr a - 1" "tx \<le> m_rdma_send_queue_len cfg"
    using u [of "max_qp_wr a - 1"] assms(2,3) unfolding tx by (auto simp: word_less_alt word_le_def)
  moreover have "uint (m_rdma_buffer_size_bytes cfg) * uint tx \<le> uint (max_mr_size a)"
  proof -
    have "unat (m_rdma_buffer_size_bytes cfg) * unat tx < 4294967296 * 4294967296"
      by (rule mult_strict_mono) (simp_all add: unat_less_u32)
    then have "unat (ucast (m_rdma_buffer_size_bytes cfg) * ucast tx :: u64) = unat (m_rdma_buffer_size_bytes cfg) * unat tx"
      by (subst unat_mult_no_overflow) simp_all
    then have "unat (m_rdma_buffer_size_bytes cfg) * unat tx \<le> unat (max_mr_size a)"
      using mr by (simp add: word_less_nat_alt)
    then have "int (unat (m_rdma_buffer_size_bytes cfg) * unat tx) \<le> int (unat (max_mr_size a))"
      by (simp only: of_nat_le_iff)
    then show ?thesis by simp
  qed
  ultimately show ?thesis by (simp add: rx0_def)
qed

theorem queue_lens_bounds_witness:
  "queue_lens example_config (dev_attr example_device) = Inr (256, 128) \<and>
   uint (256 :: u32) \<le> max_qp_wr (dev_attr example_device) \<and> uint (128 :: u32) + 1 \<le> max_qp_wr (dev_attr example_device)"
proof -
  have q: "queue_lens example_config (dev_attr example_device) = Inr (256, 128)"
    by (simp add: queue_lens_def example_config_def config_defaults_def example_device_def Let_def)
  show ?thesis using queue_lens_bounds [OF q] q by (simp add: example_device_def example_config_def config_defaults_def)
qed

text \<open>With shared receive queues switched on, \<open>init\<close> cannot succeed: after everything else is set
  up it posts the receive buffers with a null queue pair, and dereferences it.\<close>

theorem init_srq_null:
  assumes "m_rdma_support_srq cfg" and "\<not> initialized ib"
  shows "infiniband_init cfg devs mk pd rs a m lk lid0 bufs ret bad pool ib \<noteq> Some (Inr ib')"
  using assms
  by (auto simp: infiniband_init_def Let_def post_chunks_to_rq_def rbind_eq_Inr bind_eq_Some_conv
      split: option.splits sum.splits prod.splits)

theorem init_srq_null_witness:
  "infiniband_init (example_config\<lparr>m_rdma_support_srq := True\<rparr>) (Inr [example_device]) (\<lambda>i. Inr example_port) (Some 1) 0 4096 8192 1 0
     (\<lambda>i. 100 + i) 0 0 example_pool infiniband_new \<noteq> Some (Inr infiniband_new)"
  by (rule init_srq_null) (simp_all add: infiniband_new_def)

end
