(* ===== verification/Dispatcher.thy ===== *)
theory Dispatcher
  imports IbDevice
begin

text \<open>
  The dispatcher (\<open>RDMADispatcher\<close> in \<open>src/src/core/RDMAStack.cc\<close> and \<open>RDMAStack.h\<close>): the table of
  queue pairs, their death, the handling of send and receive completions, one round of the polling
  loop, the waiting workers and the asynchronous events. Queue pairs and sockets are pointers; the
  heap of queue pairs is part of the state, so that a use of a deleted one is a fault. Chunks of the
  send pool are their indices; log lines and performance counters do not change the state and are left out.
  The operations are functions. Their interleavings are the relations \<open>disp_step\<close> and \<open>poll_step\<close>: an
  operation that holds the lock of the dispatcher for its whole body is one step, while the polling
  thread, which looks up sockets in \<open>handle_tx_event\<close> without the lock and takes it for single statements
  only, is cut into the steps between which other threads can run. \<open>polling_round\<close> is the round that no
  other thread interrupts.
\<close>

section \<open>State\<close>

record wc =
  wc_wr_id :: nat
  wc_qp_num :: u32
  wc_status :: int
  wc_byte_len :: u32
  wc_recv :: bool

definition IBV_WC_SUCCESS :: int where "IBV_WC_SUCCESS = 0"
definition IBV_WC_WR_FLUSH_ERR :: int where "IBV_WC_WR_FLUSH_ERR = 5"
definition IBV_WC_RETRY_EXC_ERR :: int where "IBV_WC_RETRY_EXC_ERR = 12"

record disp =
  qp_conns :: "u32 \<Rightarrow> (ptr \<times> ptr) option"
  dead_queue_pairs :: "ptr list"
  num_qp_conn :: u64
  inflight :: u64
  done_flag :: bool
  pending_workers :: "ptr list"
  num_pending_workers :: u64
  notified :: "ptr list"
  qps :: "ptr \<Rightarrow> queue_pair option"
  deleted :: "ptr list"
  tx_pool :: cluster
  rx_chunk_qp :: "ptr \<Rightarrow> ptr option"
  rx_returned :: "ptr list"
  conn_qp :: "ptr \<Rightarrow> ptr"
  conn_wc :: "ptr \<Rightarrow> wc list"
  conn_backlog :: "ptr \<Rightarrow> int"
  txc_calls :: "(ptr \<times> nat) list"
  faulted :: "ptr list"

definition get_local_qp_number :: "queue_pair \<Rightarrow> u32" where
  "get_local_qp_number q = cm_local_qpn (local_cm_meta q)"

section \<open>The table of queue pairs\<close>

definition register_qp :: "ptr \<Rightarrow> ptr \<Rightarrow> disp \<Rightarrow> disp result" where
  "register_qp p csi d =
     (case qps d p of
        None \<Rightarrow> Inl UseAfterFree
      | Some q \<Rightarrow>
          kassert (qp_conns d (get_local_qp_number q) = None)
            (Inr (d\<lparr>qp_conns := (qp_conns d)(get_local_qp_number q \<mapsto> (p, csi)),
                    num_qp_conn := num_qp_conn d + 1\<rparr>)))"

definition get_conn_lockless :: "u32 \<Rightarrow> disp \<Rightarrow> ptr result" where
  "get_conn_lockless qpn d =
     (case qp_conns d qpn of
        None \<Rightarrow> Inr nullptr
      | Some (p, csi) \<Rightarrow>
          (case qps d p of None \<Rightarrow> Inl UseAfterFree | Some q \<Rightarrow> if dead q then Inr nullptr else Inr csi))"

fun find_dead :: "u32 \<Rightarrow> ptr list \<Rightarrow> disp \<Rightarrow> ptr result" where
  "find_dead qpn [] d = Inr nullptr"
| "find_dead qpn (p # ps) d =
     (case qps d p of
        None \<Rightarrow> Inl UseAfterFree
      | Some q \<Rightarrow> if get_local_qp_number q = qpn then Inr p else find_dead qpn ps d)"

definition get_qp_lockless :: "u32 \<Rightarrow> disp \<Rightarrow> ptr result" where
  "get_qp_lockless qpn d =
     (case qp_conns d qpn of Some (p, csi) \<Rightarrow> Inr p | None \<Rightarrow> find_dead qpn (dead_queue_pairs d) d)"

definition enqueue_dead_qp :: "u32 \<Rightarrow> disp \<Rightarrow> disp" where
  "enqueue_dead_qp qpn d =
     (case qp_conns d qpn of
        None \<Rightarrow> d
      | Some (p, csi) \<Rightarrow>
          d\<lparr>dead_queue_pairs := dead_queue_pairs d @ [p], qp_conns := (qp_conns d)(qpn := None),
            num_qp_conn := num_qp_conn d - 1\<rparr>)"

text \<open>\<open>rm\<close>, \<open>rp\<close> and \<open>e\<close> are the verbs results and \<open>errno\<close> of \<open>to_dead\<close>.\<close>

definition schedule_qp_destroy :: "int \<Rightarrow> int \<Rightarrow> int \<Rightarrow> u32 \<Rightarrow> disp \<Rightarrow> disp result" where
  "schedule_qp_destroy rm rp e qpn d =
     (case qp_conns d qpn of
        None \<Rightarrow> Inr d
      | Some (p, csi) \<Rightarrow>
          (case qps d p of
             None \<Rightarrow> Inl UseAfterFree
           | Some q \<Rightarrow>
               let (r, q') = to_dead rm rp e q; d1 = d\<lparr>qps := (qps d)(p \<mapsto> q')\<rparr> in
               if r \<noteq> 0 then
                 Inr (d1\<lparr>dead_queue_pairs := dead_queue_pairs d @ [p], qp_conns := (qp_conns d)(qpn := None),
                         num_qp_conn := num_qp_conn d - 1\<rparr>)
               else Inr (d1\<lparr>qp_conns := (qp_conns d)(qpn \<mapsto> (p, nullptr))\<rparr>)))"

section \<open>Waiting workers\<close>

definition make_pending_worker :: "ptr \<Rightarrow> disp \<Rightarrow> disp" where
  "make_pending_worker w d =
     (if w \<in> set (pending_workers d) then d
      else d\<lparr>pending_workers := pending_workers d @ [w], num_pending_workers := num_pending_workers d + 1\<rparr>)"

definition notify_pending_workers :: "disp \<Rightarrow> disp" where
  "notify_pending_workers d =
     (if num_pending_workers d = 0 then d
      else case pending_workers d of
        [] \<Rightarrow> d
      | w # ws \<Rightarrow> d\<lparr>pending_workers := ws, num_pending_workers := num_pending_workers d - 1,
                   notified := notified d @ [w]\<rparr>)"

section \<open>Send completions\<close>

definition post_tx_buffer :: "nat list \<Rightarrow> disp \<Rightarrow> disp" where
  "post_tx_buffer chunks d =
     (if chunks = [] then d
      else d\<lparr>inflight := inflight d - of_nat (length chunks), tx_pool := take_back chunks (tx_pool d)\<rparr>)"

text \<open>One completion: the chunks to give back and the new state. Every branch of an error status logs
  and then aborts.\<close>

definition tx_one :: "wc \<Rightarrow> nat list \<Rightarrow> disp \<Rightarrow> (nat list \<times> disp) result" where
  "tx_one r chunks d =
     (if wc_wr_id r = unat BEACON_WRID then Inr (chunks, enqueue_dead_qp (wc_qp_num r) d)
      else if wc_status r \<noteq> IBV_WC_SUCCESS then Inl AbortCall
      else rbind (get_conn_lockless (wc_qp_num r) d) (\<lambda>conn.
        if conn = nullptr then Inl NullDeref
        else let d1 = d\<lparr>txc_calls := txc_calls d @ [(conn, wc_wr_id r)]\<rparr> in
          if is_valid_chunk (wc_wr_id r) (tx_pool d1) then Inr (chunks @ [wc_wr_id r], d1)
          else case qps d1 (wc_wr_id r) of
            None \<Rightarrow> Inl UseAfterFree
          | Some q \<Rightarrow> if get_local_qp_number q = wc_qp_num r then Inr (chunks, d1) else Inl AbortCall))"

fun tx_loop :: "wc list \<Rightarrow> nat list \<Rightarrow> disp \<Rightarrow> (nat list \<times> disp) result" where
  "tx_loop [] chunks d = Inr (chunks, d)"
| "tx_loop (r # rs) chunks d = rbind (tx_one r chunks d) (\<lambda>(chunks', d'). tx_loop rs chunks' d')"

definition handle_tx_event :: "wc list \<Rightarrow> disp \<Rightarrow> disp result" where
  "handle_tx_event cqe d = rbind (tx_loop cqe [] d) (\<lambda>(chunks, d'). Inr (post_tx_buffer chunks d'))"

section \<open>Receive completions\<close>

text \<open>The receive side of one queue pair, in the terms of \<^theory_text>\<open>RecvQueue\<close>, and writing it back.\<close>

definition get_rq :: "ptr \<Rightarrow> disp \<Rightarrow> rq_state" where
  "get_rq p d =
     \<lparr>recv_queue = (case qps d p of Some q \<Rightarrow> recv_queue (rq q) | None \<Rightarrow> []),
      chunk_qp = rx_chunk_qp d, pool_returned = rx_returned d\<rparr>"

definition put_rq :: "ptr \<Rightarrow> rq_state \<Rightarrow> disp \<Rightarrow> disp" where
  "put_rq p st d =
     d\<lparr>qps := (case qps d p of
                 Some q \<Rightarrow> (qps d)(p \<mapsto> q\<lparr>rq := (rq q)\<lparr>recv_queue := recv_queue st\<rparr>\<rparr>) | None \<Rightarrow> qps d),
       rx_chunk_qp := chunk_qp st, rx_returned := pool_returned st\<rparr>"

definition qp_srq :: "ptr \<Rightarrow> disp \<Rightarrow> bool" where
  "qp_srq p d = (case qps d p of Some q \<Rightarrow> srq q | None \<Rightarrow> False)"

text \<open>\<open>Infiniband::recall_chunk_to_pool\<close> on the chunk's own queue pair.\<close>

definition disp_recall :: "ptr \<Rightarrow> disp \<Rightarrow> disp result" where
  "disp_recall c d =
     (let p = (case rx_chunk_qp d c of Some p \<Rightarrow> p | None \<Rightarrow> nullptr) in
      if p \<noteq> nullptr \<and> qps d p = None then Inl UseAfterFree
      else rbind (recall_chunk_to_pool (qp_srq p d) c (get_rq p d)) (\<lambda>st. Inr (put_rq p st d)))"

text \<open>\<open>RDMADispatcher::post_chunks_to_rq\<close> and \<open>RDMAConnectedSocketImpl::post_chunks_to_rq\<close>: \<open>bufs\<close>, \<open>ret\<close>,
  \<open>bad\<close> are what the pool and the verbs call answer.\<close>

definition disp_post_chunks :: "(nat \<Rightarrow> ptr) \<Rightarrow> int \<Rightarrow> nat \<Rightarrow> int \<Rightarrow> ptr \<Rightarrow> disp \<Rightarrow> (int \<times> disp) result" where
  "disp_post_chunks bufs ret bad num p d =
     (case qps d p of
        None \<Rightarrow> Inl UseAfterFree
      | Some q \<Rightarrow>
          rbind (post_chunks_to_rq bufs (srq q) (unat (temp_wr_len q)) ret bad num (Some p) (get_rq p d))
            (\<lambda>(n, st). Inr (n, put_rq p st d)))"

definition conn_post_chunks :: "(nat \<Rightarrow> ptr) \<Rightarrow> int \<Rightarrow> nat \<Rightarrow> int \<Rightarrow> ptr \<Rightarrow> disp \<Rightarrow> disp result" where
  "conn_post_chunks bufs ret bad num c d =
     rbind (disp_post_chunks bufs ret bad num (conn_qp d c) d) (\<lambda>(n, d').
       Inr (d'\<lparr>conn_backlog := (conn_backlog d')(c := conn_backlog d' c + (num - n))\<rparr>))"

text \<open>One receive completion; \<open>b\<close> and \<open>ret\<close> are the buffer and the verbs result of the repost. \<open>polled\<close>
  collects the completions in arrival order with their sockets.\<close>

definition rx_one :: "ptr \<Rightarrow> int \<Rightarrow> wc \<Rightarrow> (ptr \<times> wc) list \<Rightarrow> disp \<Rightarrow> ((ptr \<times> wc) list \<times> disp) result" where
  "rx_one b ret r polled d =
     rbind (get_conn_lockless (wc_qp_num r) d) (\<lambda>conn.
     rbind (get_qp_lockless (wc_qp_num r) d) (\<lambda>p.
       if wc_status r = IBV_WC_SUCCESS then
         kassert (wc_recv r)
           (if conn = nullptr then rbind (disp_recall (wc_wr_id r) d) (\<lambda>d'. Inr (polled, d'))
            else rbind (conn_post_chunks (\<lambda>_. b) ret 0 1 conn d) (\<lambda>d1.
              let polled' = polled @ [(conn, r)] in
              if p \<noteq> nullptr \<and> \<not> qp_srq p d1 then
                rbind (remove_rq_wr False (wc_wr_id r) (get_rq p d1)) (\<lambda>st.
                  Inr (polled', put_rq p (chunk_set_qp (wc_wr_id r) None st) d1))
              else Inr (polled', d1)))
       else rbind (disp_recall (wc_wr_id r) d) (\<lambda>_. Inl AbortCall)))"

fun rx_loop :: "(ptr \<times> int \<times> wc) list \<Rightarrow> (ptr \<times> wc) list \<Rightarrow> disp \<Rightarrow> ((ptr \<times> wc) list \<times> disp) result" where
  "rx_loop [] polled d = Inr (polled, d)"
| "rx_loop ((b, ret, r) # rs) polled d = rbind (rx_one b ret r polled d) (\<lambda>(polled', d'). rx_loop rs polled' d')"

text \<open>\<open>pass_wc\<close>, and the loop over the map of the polled completions: every socket gets its own, in order.\<close>

definition pass_wc :: "ptr \<Rightarrow> wc list \<Rightarrow> disp \<Rightarrow> disp" where
  "pass_wc c v d = d\<lparr>conn_wc := (conn_wc d)(c := conn_wc d c @ v)\<rparr>"

definition pass_polled :: "(ptr \<times> wc) list \<Rightarrow> disp \<Rightarrow> disp" where
  "pass_polled polled d =
     foldl (\<lambda>d c. pass_wc c (map snd (filter (\<lambda>x. fst x = c) polled)) d) d (sorted_list_of_set (fst ` set polled))"

definition handle_rx_event :: "(ptr \<times> int \<times> wc) list \<Rightarrow> disp \<Rightarrow> disp result" where
  "handle_rx_event cqe d = rbind (rx_loop cqe [] d) (\<lambda>(polled, d'). Inr (pass_polled polled d'))"

section \<open>One round of the polling loop\<close>

text \<open>\<open>delete qp\<close>; \<open>ret p\<close> is what \<open>ibv_destroy_qp\<close> returns.\<close>

definition delete_qp :: "(ptr \<Rightarrow> int) \<Rightarrow> ptr \<Rightarrow> disp \<Rightarrow> disp result" where
  "delete_qp ret p d =
     (case qps d p of
        None \<Rightarrow> Inl UseAfterFree
      | Some q \<Rightarrow>
          rbind (qp_destroy (qp_handle q) (qp_live q) (ret p) (get_rq p d)) (\<lambda>st.
            let d1 = put_rq p st d in Inr (d1\<lparr>qps := (qps d1)(p := None), deleted := deleted d1 @ [p]\<rparr>)))"

fun delete_all :: "(ptr \<Rightarrow> int) \<Rightarrow> ptr list \<Rightarrow> disp \<Rightarrow> disp result" where
  "delete_all ret [] d = Inr d"
| "delete_all ret (p # ps) d = rbind (delete_qp ret p d) (delete_all ret ps)"

text \<open>The completions polled from the two queues; \<open>ret\<close> as above. The Boolean says that the loop ends.\<close>

definition polling_round :: "wc list \<Rightarrow> (ptr \<times> int \<times> wc) list \<Rightarrow> (ptr \<Rightarrow> int) \<Rightarrow> disp \<Rightarrow> (bool \<times> disp) result" where
  "polling_round tx rx ret d =
     rbind (if tx \<noteq> [] then handle_tx_event tx d else Inr d) (\<lambda>d1.
     rbind (if rx \<noteq> [] then handle_rx_event rx d1 else Inr d1) (\<lambda>d2.
       if tx = [] \<and> rx = [] then
         rbind (if dead_queue_pairs d2 \<noteq> []
                then delete_all ret (dead_queue_pairs d2) (d2\<lparr>dead_queue_pairs := []\<rparr>) else Inr d2) (\<lambda>d3.
           Inr (num_qp_conn d3 = 0 \<and> done_flag d3 \<and> dead_queue_pairs d3 = [], d3))
       else Inr (False, d2)))"

definition polling_stop :: "disp \<Rightarrow> disp" where
  "polling_stop d = d\<lparr>done_flag := True\<rparr>"

definition dispatcher_destroy :: "disp \<Rightarrow> unit result" where
  "dispatcher_destroy d =
     kassert (qp_conns d = Map.empty) (kassert (num_qp_conn d = 0) (kassert (dead_queue_pairs d = []) (Inr ())))"

section \<open>Asynchronous events\<close>

datatype async_event =
    IBV_EVENT_CQ_ERR
  | IBV_EVENT_QP_FATAL u32
  | IBV_EVENT_QP_LAST_WQE_REACHED u32
  | IBV_EVENT_OTHER

definition async_one :: "config \<Rightarrow> async_event \<Rightarrow> disp \<Rightarrow> disp result" where
  "async_one cfg ev d =
     (case ev of
        IBV_EVENT_QP_FATAL qpn \<Rightarrow>
          rbind (get_qp_lockless qpn d) (\<lambda>p. if p = nullptr then Inl NullDeref else Inr d)
      | IBV_EVENT_QP_LAST_WQE_REACHED qpn \<Rightarrow>
          rbind (get_conn_lockless qpn d) (\<lambda>conn.
          rbind (get_qp_lockless qpn d) (\<lambda>p.
            if conn = nullptr then Inr d
            else let d1 = d\<lparr>faulted := faulted d @ [conn]\<rparr> in
              if p \<noteq> nullptr \<and> \<not> m_use_rdma_cm cfg then Inr (enqueue_dead_qp qpn d1) else Inr d1))
      | _ \<Rightarrow> Inr d)"

text \<open>The loop ends when \<open>ibv_get_async_event\<close> has no more events.\<close>

fun handle_async_event :: "config \<Rightarrow> async_event list \<Rightarrow> disp \<Rightarrow> disp result" where
  "handle_async_event cfg [] d = Inr d"
| "handle_async_event cfg (ev # evs) d = rbind (async_one cfg ev d) (handle_async_event cfg evs)"


section \<open>Invariant of the table\<close>

definition qp_sig :: "disp \<Rightarrow> ptr \<Rightarrow> u32 option" where
  "qp_sig d p = map_option get_local_qp_number (qps d p)"

text \<open>Registered queue pairs are live, carry their key as number, belong to the socket stored with them
  and are not in the dead list; the counter counts them; the dead ones are live and pairwise
  different; the null pointer is no queue pair; the waiting workers are counted and different.\<close>

definition disp_inv :: "disp \<Rightarrow> bool" where
  "disp_inv d \<longleftrightarrow>
     unat (num_qp_conn d) = card (dom (qp_conns d)) \<and>
     (\<forall>n p c. qp_conns d n = Some (p, c) \<longrightarrow>
        qp_sig d p = Some n \<and> p \<notin> set (dead_queue_pairs d) \<and> (c \<noteq> nullptr \<longrightarrow> conn_qp d c = p)) \<and>
     distinct (dead_queue_pairs d) \<and> (\<forall>p \<in> set (dead_queue_pairs d). qp_sig d p \<noteq> None) \<and>
     qp_sig d nullptr = None \<and>
     distinct (pending_workers d) \<and> num_pending_workers d = of_nat (length (pending_workers d))"

text \<open>The parts of the state the table depends on.\<close>

definition same_table :: "disp \<Rightarrow> disp \<Rightarrow> bool" where
  "same_table d d' \<longleftrightarrow> qp_conns d' = qp_conns d \<and> dead_queue_pairs d' = dead_queue_pairs d \<and>
     num_qp_conn d' = num_qp_conn d \<and> qp_sig d' = qp_sig d \<and> conn_qp d' = conn_qp d \<and>
     pending_workers d' = pending_workers d \<and> num_pending_workers d' = num_pending_workers d"

lemma same_table_refl [simp]: "same_table d d"
  by (simp add: same_table_def)

lemma same_table_trans [trans]: "same_table a b \<Longrightarrow> same_table b c \<Longrightarrow> same_table a c"
  by (simp add: same_table_def)

lemma same_table_inv: "same_table d d' \<Longrightarrow> disp_inv d \<Longrightarrow> disp_inv d'"
  by (simp add: same_table_def disp_inv_def)

lemma qps_live: "qp_sig d p = Some n \<longleftrightarrow> (\<exists>q. qps d p = Some q \<and> get_local_qp_number q = n)"
  by (auto simp: qp_sig_def)

lemma sig_none: "qp_sig d p = None \<longleftrightarrow> qps d p = None"
  by (simp add: qp_sig_def)

lemma put_rq_table [simp]: "same_table d (put_rq p st d)"
  by (auto simp: same_table_def put_rq_def qp_sig_def fun_eq_iff get_local_qp_number_def split: option.splits)

lemma same_table_upd [simp]:
  "same_table d (d\<lparr>txc_calls := t\<rparr>)" "same_table d (d\<lparr>conn_backlog := b\<rparr>)" "same_table d (d\<lparr>conn_wc := w\<rparr>)"
  "same_table d (d\<lparr>faulted := f\<rparr>)" "same_table d (d\<lparr>inflight := i, tx_pool := c\<rparr>)" "same_table d (d\<lparr>done_flag := x\<rparr>)"
  by (simp_all add: same_table_def qp_sig_def fun_eq_iff)

lemma post_tx_buffer_table: "same_table d (post_tx_buffer chunks d)"
  by (simp add: post_tx_buffer_def)

lemma disp_recall_table: "disp_recall c d = Inr d' \<Longrightarrow> same_table d d'"
  by (auto simp: disp_recall_def Let_def rbind_eq_Inr split: if_splits)

lemma conn_post_chunks_table: "conn_post_chunks bufs ret bad num c d = Inr d' \<Longrightarrow> same_table d d'"
  by (auto simp: conn_post_chunks_def disp_post_chunks_def rbind_eq_Inr split: option.splits
    intro: same_table_trans [OF put_rq_table same_table_upd(2)])

lemma rx_one_table: "rx_one b ret r polled d = Inr (polled', d') \<Longrightarrow> same_table d d'"
  by (auto simp: rx_one_def rbind_eq_Inr Let_def split: if_splits
    intro: disp_recall_table conn_post_chunks_table same_table_trans [OF conn_post_chunks_table put_rq_table])

lemma rx_loop_table: "rx_loop cqe polled d = Inr (polled', d') \<Longrightarrow> same_table d d'"
  by (induction cqe polled d rule: rx_loop.induct) (auto simp: rbind_eq_Inr intro: same_table_trans rx_one_table)

lemma pass_polled_table: "same_table d (pass_polled polled d)"
proof -
  have "same_table d (foldl (\<lambda>d c. pass_wc c (f c) d) d cs)" for f cs
  proof (induction cs rule: rev_induct)
    case (snoc c cs)
    then show ?case by (auto intro: same_table_trans simp: pass_wc_def)
  qed simp
  then show ?thesis by (simp add: pass_polled_def)
qed

lemma handle_rx_event_table: "handle_rx_event cqe d = Inr d' \<Longrightarrow> same_table d d'"
  by (auto simp: handle_rx_event_def rbind_eq_Inr intro: same_table_trans rx_loop_table pass_polled_table)

lemma dom_card_pos: "qp_conns d n = Some x \<Longrightarrow> 0 < card (dom (qp_conns d))"
  by (auto simp: card_gt_0_iff)

lemma unat_sub1: "0 < unat (w :: u64) \<Longrightarrow> unat (w - 1) = unat w - 1"
  by (subst unat_sub_le) (simp_all add: word_le_nat_alt)

lemma qp_num_unique:
  "disp_inv d \<Longrightarrow> qp_conns d n = Some (p, c) \<Longrightarrow> qp_conns d m = Some (p, c') \<Longrightarrow> m = n"
  unfolding disp_inv_def by (metis option.inject)

lemma enqueue_dead_inv:
  assumes "disp_inv d"
  shows "disp_inv (enqueue_dead_qp qpn d)"
proof (cases "qp_conns d qpn")
  case (Some x)
  obtain p c where x: "x = (p, c)" by (cases x)
  have u: "qp_conns d m \<noteq> Some (p, c')" if "m \<noteq> qpn" for m c'
    using qp_num_unique [OF assms] Some x that by blast
  have "qp_sig d p = Some qpn" using assms Some x by (simp add: disp_inv_def)
  moreover have "unat (num_qp_conn d - 1) = card (dom (qp_conns d) - {qpn})"
    using assms Some dom_card_pos [OF Some] by (simp add: disp_inv_def unat_sub1 domI)
  moreover have "qp_sig (d\<lparr>dead_queue_pairs := a, qp_conns := b, num_qp_conn := e\<rparr>) = qp_sig d" for a b e
    by (simp add: qp_sig_def fun_eq_iff)
  ultimately show ?thesis using assms Some u
    by (auto simp: enqueue_dead_qp_def x disp_inv_def)
qed (simp add: enqueue_dead_qp_def assms)


lemma register_inv:
  assumes "disp_inv d" and "register_qp p csi d = Inr d'" and "conn_qp d csi = p" and "p \<notin> set (dead_queue_pairs d)"
  shows "disp_inv d'"
proof -
  obtain q where q: "qps d p = Some q" "qp_conns d (get_local_qp_number q) = None"
    and d': "d' = d\<lparr>qp_conns := (qp_conns d)(get_local_qp_number q \<mapsto> (p, csi)), num_qp_conn := num_qp_conn d + 1\<rparr>"
    using assms(2) by (auto simp: register_qp_def split: option.splits)
  have sig: "qp_sig d p = Some (get_local_qp_number q)" and sig': "qp_sig d' = qp_sig d"
    using q(1) by (auto simp: qp_sig_def d' fun_eq_iff)
  have nd: "get_local_qp_number q \<notin> dom (qp_conns d)" using q(2) by (simp add: domIff)
  have "card (insert (get_local_qp_number q) (dom (qp_conns d))) \<le> card (UNIV :: u32 set)" by (rule card_mono) simp_all
  then have "card (dom (qp_conns d)) < 2 ^ 32" using nd by (simp add: card_word)
  then have "unat (num_qp_conn d + 1) = card (dom (qp_conns d)) + 1"
    using assms(1) by (simp add: disp_inv_def unat_add_no_overflow)
  moreover have "card (insert (get_local_qp_number q) (dom (qp_conns d))) = card (dom (qp_conns d)) + 1" using nd by simp
  ultimately show ?thesis using assms(1,3,4) sig unfolding disp_inv_def sig' by (auto simp: d')
qed

lemma to_dead_number [simp]: "get_local_qp_number (snd (to_dead rm rp e q)) = get_local_qp_number q"
  by (simp add: to_dead_def modify_qp_to_error_def Let_def get_local_qp_number_def log_verb_def)

lemma schedule_inv:
  assumes "disp_inv d" and "schedule_qp_destroy rm rp e qpn d = Inr d'"
  shows "disp_inv d'"
proof (cases "qp_conns d qpn")
  case (Some x)
  obtain p c where x: "x = (p, c)" by (cases x)
  have live: "qp_sig d p = Some qpn" using assms(1) Some x by (simp add: disp_inv_def)
  then obtain q where q: "qps d p = Some q" by (auto simp: qps_live)
  let ?d1 = "d\<lparr>qps := (qps d)(p \<mapsto> snd (to_dead rm rp e q))\<rparr>"
  have st: "same_table d ?d1" using q by (auto simp: same_table_def qp_sig_def fun_eq_iff)
  have inv1: "disp_inv ?d1" by (rule same_table_inv [OF st assms(1)])
  show ?thesis
  proof (cases "fst (to_dead rm rp e q) = 0")
    case True
    have d': "d' = ?d1\<lparr>qp_conns := (qp_conns d)(qpn \<mapsto> (p, nullptr))\<rparr>"
      using assms(2) Some x q True by (simp add: schedule_qp_destroy_def Let_def case_prod_beta)
    have "qp_sig d' = qp_sig ?d1" by (simp add: d' qp_sig_def fun_eq_iff)
    moreover have "insert qpn (dom (qp_conns d)) = dom (qp_conns d)" using Some by auto
    ultimately show ?thesis using inv1 Some x live unfolding disp_inv_def by (auto simp: d')
  next
    case False
    then have "d' = enqueue_dead_qp qpn ?d1"
      using assms(2) Some x q by (simp add: schedule_qp_destroy_def Let_def case_prod_beta enqueue_dead_qp_def)
    then show ?thesis using enqueue_dead_inv [OF inv1] by simp
  qed
qed (use assms in \<open>simp add: schedule_qp_destroy_def\<close>)

lemma tx_one_inv: "disp_inv d \<Longrightarrow> tx_one r cs d = Inr (cs', d') \<Longrightarrow> disp_inv d'"
  by (auto simp: tx_one_def Let_def rbind_eq_Inr enqueue_dead_inv intro: same_table_inv [OF same_table_upd(1)]
    split: if_splits option.splits)

lemma tx_loop_inv: "disp_inv d \<Longrightarrow> tx_loop rs cs d = Inr (cs', d') \<Longrightarrow> disp_inv d'"
  by (induction rs cs d rule: tx_loop.induct) (auto simp: rbind_eq_Inr dest: tx_one_inv)

lemma handle_tx_event_inv: "disp_inv d \<Longrightarrow> handle_tx_event cqe d = Inr d' \<Longrightarrow> disp_inv d'"
  by (auto simp: handle_tx_event_def rbind_eq_Inr intro: same_table_inv [OF post_tx_buffer_table] dest: tx_loop_inv)

lemma async_one_inv: "disp_inv d \<Longrightarrow> async_one cfg ev d = Inr d1 \<Longrightarrow> disp_inv d1"
  using same_table_inv [OF same_table_upd(4)]
  by (auto simp: async_one_def rbind_eq_Inr Let_def enqueue_dead_inv split: async_event.splits if_splits)

lemma async_inv: "disp_inv d \<Longrightarrow> handle_async_event cfg evs d = Inr d' \<Longrightarrow> disp_inv d'"
  by (induction cfg evs d rule: handle_async_event.induct) (auto simp: rbind_eq_Inr dest: async_one_inv)

text \<open>Deleting queue pairs that no entry of the table refers to.\<close>

lemma delete_qp_frame:
  assumes "delete_qp ret p d = Inr d'"
  shows "qp_conns d' = qp_conns d \<and> num_qp_conn d' = num_qp_conn d \<and> conn_qp d' = conn_qp d \<and>
    dead_queue_pairs d' = dead_queue_pairs d \<and> qp_sig d' = (qp_sig d)(p := None) \<and>
    pending_workers d' = pending_workers d \<and> num_pending_workers d' = num_pending_workers d \<and>
    deleted d' = deleted d @ [p] \<and> done_flag d' = done_flag d"
proof -
  obtain q st where q: "qps d p = Some q"
    and d': "d' = (put_rq p st d)\<lparr>qps := (qps (put_rq p st d))(p := None), deleted := deleted (put_rq p st d) @ [p]\<rparr>"
    using assms by (auto simp: delete_qp_def rbind_eq_Inr Let_def split: option.splits)
  have "qp_sig (put_rq p st d) = qp_sig d" using put_rq_table [of d p st] by (simp add: same_table_def)
  then have "qp_sig d' = (qp_sig d)(p := None)" by (auto simp: d' qp_sig_def fun_eq_iff)
  then show ?thesis using d' by (simp add: put_rq_def)
qed

lemma delete_all_frame:
  "delete_all ret ps d = Inr d' \<Longrightarrow>
   qp_conns d' = qp_conns d \<and> num_qp_conn d' = num_qp_conn d \<and> conn_qp d' = conn_qp d \<and>
    dead_queue_pairs d' = dead_queue_pairs d \<and> qp_sig d' = (\<lambda>p. if p \<in> set ps then None else qp_sig d p) \<and>
    pending_workers d' = pending_workers d \<and> num_pending_workers d' = num_pending_workers d \<and>
    deleted d' = deleted d @ ps \<and> done_flag d' = done_flag d"
proof (induction ret ps d rule: delete_all.induct)
  case (2 ret p ps d)
  obtain d1 where d1: "delete_qp ret p d = Inr d1" "delete_all ret ps d1 = Inr d'"
    using "2.prems" by (auto simp: rbind_eq_Inr)
  show ?case using "2.IH" [OF d1(2)] delete_qp_frame [OF d1(1)] by auto
qed simp

lemma idle_inv:
  assumes "disp_inv d" and "delete_all ret (dead_queue_pairs d) (d\<lparr>dead_queue_pairs := []\<rparr>) = Inr d'"
  shows "disp_inv d'"
proof -
  have "qp_sig (d\<lparr>dead_queue_pairs := []\<rparr>) = qp_sig d" by (simp add: qp_sig_def fun_eq_iff)
  then show ?thesis using assms(1) delete_all_frame [OF assms(2)] by (auto simp: disp_inv_def)
qed

lemma polling_round_inv:
  assumes "disp_inv d" and "polling_round tx rx ret d = Inr (b, d')"
  shows "disp_inv d'"
proof -
  obtain d1 d2 where d1: "(if tx \<noteq> [] then handle_tx_event tx d else Inr d) = Inr d1"
    and d2: "(if rx \<noteq> [] then handle_rx_event rx d1 else Inr d1) = Inr d2"
    and rest: "(if tx = [] \<and> rx = [] then
         rbind (if dead_queue_pairs d2 \<noteq> [] then delete_all ret (dead_queue_pairs d2) (d2\<lparr>dead_queue_pairs := []\<rparr>) else Inr d2) (\<lambda>d3.
           Inr (num_qp_conn d3 = 0 \<and> done_flag d3 \<and> dead_queue_pairs d3 = [], d3))
       else Inr (False, d2)) = Inr (b, d')"
    using assms(2) by (auto simp only: polling_round_def rbind_eq_Inr)
  have "disp_inv d1" using d1 assms(1) by (auto split: if_splits intro: handle_tx_event_inv)
  then have "disp_inv d2" using d2 by (auto split: if_splits intro: same_table_inv [OF handle_rx_event_table])
  then show ?thesis using rest by (auto simp: rbind_eq_Inr split: if_splits intro: idle_inv)
qed


section \<open>Reachable states\<close>

definition disp_new :: "cluster \<Rightarrow> disp" where
  "disp_new pool =
     \<lparr>qp_conns = Map.empty, dead_queue_pairs = [], num_qp_conn = 0, inflight = 0, done_flag = False, pending_workers = [],
      num_pending_workers = 0, notified = [], qps = \<lambda>_. None, deleted = [], tx_pool = pool, rx_chunk_qp = \<lambda>_. None,
      rx_returned = [], conn_qp = \<lambda>_. nullptr, conn_wc = \<lambda>_. [], conn_backlog = \<lambda>_. 0, txc_calls = [], faulted = []\<rparr>"

text \<open>What the other threads do, each under the lock: a socket is created with a fresh queue pair, whose
  number the device gives to no other live one, and registers it; a socket goes away; chunks are recalled
  and reposted; one asynchronous event is handled; the dispatcher is told to stop. Workers wait and are
  woken under \<open>w_lock\<close>; the test of the counter before that lock is a hint, which the emptiness test under
  the lock repeats.\<close>

inductive disp_step :: "disp \<Rightarrow> disp \<Rightarrow> bool" where
  st_connect: "qps d p = None \<Longrightarrow> p \<noteq> nullptr \<Longrightarrow> c \<noteq> nullptr \<Longrightarrow> \<forall>n p'. qp_conns d n \<noteq> Some (p', c) \<Longrightarrow>
     register_qp p c (d\<lparr>qps := (qps d)(p \<mapsto> q), conn_qp := (conn_qp d)(c := p)\<rparr>) = Inr d' \<Longrightarrow> disp_step d d'"
| st_destroy: "schedule_qp_destroy rm rp e qpn d = Inr d' \<Longrightarrow> disp_step d d'"
| st_recall: "disp_recall c d = Inr d' \<Longrightarrow> disp_step d d'"
| st_post: "conn_post_chunks bufs ret bad num c d = Inr d' \<Longrightarrow> disp_step d d'"
| st_async: "async_one cfg ev d = Inr d' \<Longrightarrow> disp_step d d'"
| st_wait: "disp_step d (make_pending_worker w d)"
| st_notify: "disp_step d (notify_pending_workers d)"
| st_stop: "disp_step d (polling_stop d)"

text \<open>Where the polling thread is: about to poll the send queue; in \<open>handle_tx_event\<close> with the completions
  left and the chunks collected; between the lookup of a socket and its callback; about to poll the
  receive queue, knowing whether the send queue was empty; idle, with the hint not yet or already read;
  deleting the queue pairs it swapped out; at one of the three tests of the exit; ended.\<close>

datatype poll_pc =
    AtTx
  | InTx "wc list" "nat list"
  | Callback ptr wc "wc list" "nat list"
  | AtRx bool
  | Idle
  | Swap
  | Deleting "ptr list"
  | TestConns
  | TestDone
  | TestDead
  | Ended

text \<open>The steps of the polling thread. A poll may fail, which is neither a completion nor an idle queue. A
  completion with an error status aborts and has no step; \<open>handle_rx_event\<close> holds the lock for its body.
  A lookup is one step: what the unlocked search of the table does while another thread rebalances it is
  outside the model.\<close>

inductive poll_step :: "poll_pc \<times> disp \<Rightarrow> poll_pc \<times> disp \<Rightarrow> bool" where
  tx_polled: "tx \<noteq> [] \<Longrightarrow> poll_step (AtTx, d) (InTx tx [], d)"
| tx_empty: "poll_step (AtTx, d) (AtRx True, d)"
| tx_failed: "poll_step (AtTx, d) (AtRx False, d)"
| tx_beacon: "wc_wr_id r = unat BEACON_WRID \<Longrightarrow>
    poll_step (InTx (r # rs) cs, d) (InTx rs cs, enqueue_dead_qp (wc_qp_num r) d)"
| tx_lookup: "wc_wr_id r \<noteq> unat BEACON_WRID \<Longrightarrow> wc_status r = IBV_WC_SUCCESS \<Longrightarrow>
    get_conn_lockless (wc_qp_num r) d = Inr c \<Longrightarrow> poll_step (InTx (r # rs) cs, d) (Callback c r rs cs, d)"
| tx_chunk: "c \<noteq> nullptr \<Longrightarrow> is_valid_chunk (wc_wr_id r) (tx_pool d) \<Longrightarrow>
    poll_step (Callback c r rs cs, d) (InTx rs (cs @ [wc_wr_id r]), d\<lparr>txc_calls := txc_calls d @ [(c, wc_wr_id r)]\<rparr>)"
| tx_fin: "c \<noteq> nullptr \<Longrightarrow> \<not> is_valid_chunk (wc_wr_id r) (tx_pool d) \<Longrightarrow> qps d (wc_wr_id r) = Some q \<Longrightarrow>
    get_local_qp_number q = wc_qp_num r \<Longrightarrow>
    poll_step (Callback c r rs cs, d) (InTx rs cs, d\<lparr>txc_calls := txc_calls d @ [(c, wc_wr_id r)]\<rparr>)"
| tx_return: "poll_step (InTx [] cs, d) (AtRx False, post_tx_buffer cs d)"
| rx_polled: "rx \<noteq> [] \<Longrightarrow> handle_rx_event rx d = Inr d' \<Longrightarrow> poll_step (AtRx b, d) (AtTx, d')"
| rx_empty: "poll_step (AtRx b, d) (if b then Idle else AtTx, d)"
| rx_failed: "poll_step (AtRx b, d) (AtTx, d)"
| hint: "poll_step (Idle, d) (if dead_queue_pairs d \<noteq> [] then Swap else TestConns, d)"
| swap: "poll_step (Swap, d) (Deleting (dead_queue_pairs d), d\<lparr>dead_queue_pairs := []\<rparr>)"
| delete: "delete_qp ret p d = Inr d' \<Longrightarrow> poll_step (Deleting (p # ps), d) (Deleting ps, d')"
| deleted_all: "poll_step (Deleting [], d) (TestConns, d)"
| test_conns: "poll_step (TestConns, d) (if num_qp_conn d = 0 then TestDone else AtTx, d)"
| test_done: "poll_step (TestDone, d) (if done_flag d then TestDead else AtTx, d)"
| test_dead: "poll_step (TestDead, d) (if dead_queue_pairs d = [] then Ended else AtTx, d)"

inductive disp_reachable :: "cluster \<Rightarrow> poll_pc \<Rightarrow> disp \<Rightarrow> bool" for pool where
  reach_new: "disp_reachable pool AtTx (disp_new pool)"
| reach_other: "disp_reachable pool pc d \<Longrightarrow> disp_step d d' \<Longrightarrow> disp_reachable pool pc d'"
| reach_poll: "disp_reachable pool pc d \<Longrightarrow> poll_step (pc, d) (pc', d') \<Longrightarrow> disp_reachable pool pc' d'"

lemma disp_new_inv: "disp_inv (disp_new pool)"
  by (simp add: disp_inv_def disp_new_def qp_sig_def)

lemma connect_pre_inv:
  assumes "disp_inv d" and "qps d p = None" and "p \<noteq> nullptr" and "\<forall>n p'. qp_conns d n \<noteq> Some (p', c)"
  shows "disp_inv (d\<lparr>qps := (qps d)(p \<mapsto> q), conn_qp := (conn_qp d)(c := p)\<rparr>)"
proof -
  let ?d = "d\<lparr>qps := (qps d)(p \<mapsto> q), conn_qp := (conn_qp d)(c := p)\<rparr>"
  have sig: "qp_sig ?d = (qp_sig d)(p \<mapsto> get_local_qp_number q)" by (auto simp: qp_sig_def fun_eq_iff)
  have "qp_sig d p = None" using assms(2) by (simp add: sig_none)
  then show ?thesis using assms(1,3,4) unfolding disp_inv_def sig by (auto split: if_splits)
qed

lemma workers_inv: "disp_inv d \<Longrightarrow> disp_inv (make_pending_worker w d)" "disp_inv d \<Longrightarrow> disp_inv (notify_pending_workers d)"
proof -
  have sig: "qp_sig (d\<lparr>pending_workers := a, num_pending_workers := b\<rparr>) = qp_sig d"
    "qp_sig (d\<lparr>pending_workers := a, num_pending_workers := b, notified := f\<rparr>) = qp_sig d" for a b f
    by (simp_all add: qp_sig_def fun_eq_iff)
  show "disp_inv d \<Longrightarrow> disp_inv (make_pending_worker w d)"
    by (auto simp: make_pending_worker_def disp_inv_def sig)
  show "disp_inv d \<Longrightarrow> disp_inv (notify_pending_workers d)"
    by (auto simp: notify_pending_workers_def disp_inv_def sig split: list.splits)
qed

lemma disp_step_inv: "disp_step d d' \<Longrightarrow> disp_inv d \<Longrightarrow> disp_inv d'"
proof (induction rule: disp_step.induct)
  case (st_connect d p c q d')
  let ?d = "d\<lparr>qps := (qps d)(p \<mapsto> q), conn_qp := (conn_qp d)(c := p)\<rparr>"
  have "p \<notin> set (dead_queue_pairs ?d)" using st_connect.prems st_connect.hyps(1) by (auto simp: disp_inv_def sig_none)
  then show ?case
    using register_inv [OF connect_pre_inv [OF st_connect.prems st_connect.hyps(1,2,4)] st_connect.hyps(5)] by simp
next
  case (st_stop d)
  then show ?case unfolding polling_stop_def by (rule same_table_inv [OF same_table_upd(6)])
next
  case (st_recall c d d')
  then show ?case using same_table_inv [OF disp_recall_table] by blast
next
  case (st_post bufs ret bad num c d d')
  then show ?case using same_table_inv [OF conn_post_chunks_table] by blast
qed (auto intro: schedule_inv async_one_inv workers_inv)

text \<open>The queue pairs the polling thread has swapped out and not yet deleted: live, in no table and in no
  list, so that nobody else finds them.\<close>

definition registered :: "disp \<Rightarrow> ptr set" where
  "registered d = {p. \<exists>n c. qp_conns d n = Some (p, c)}"

definition deleting :: "poll_pc \<Rightarrow> ptr list" where
  "deleting pc = (case pc of Deleting ps \<Rightarrow> ps | _ \<Rightarrow> [])"

definition owned :: "ptr list \<Rightarrow> disp \<Rightarrow> bool" where
  "owned ps d \<longleftrightarrow> distinct ps \<and>
     (\<forall>p \<in> set ps. qp_sig d p \<noteq> None \<and> p \<notin> set (dead_queue_pairs d) \<and> p \<notin> registered d)"

definition sys_inv :: "poll_pc \<Rightarrow> disp \<Rightarrow> bool" where
  "sys_inv pc d \<longleftrightarrow> disp_inv d \<and> owned (deleting pc) d"

text \<open>What a step may do to the sets: register only fresh queue pairs, list as dead only registered ones, delete none.\<close>

definition spares :: "disp \<Rightarrow> disp \<Rightarrow> bool" where
  "spares d d' \<longleftrightarrow> (\<forall>p. qp_sig d p \<noteq> None \<longrightarrow> qp_sig d' p \<noteq> None) \<and>
     set (dead_queue_pairs d') \<subseteq> set (dead_queue_pairs d) \<union> registered d \<and>
     registered d' \<subseteq> registered d \<union> {p. qp_sig d p = None}"

lemma owned_spares: "owned ps d \<Longrightarrow> spares d d' \<Longrightarrow> owned ps d'"
  unfolding owned_def spares_def by blast

lemma same_table_spares: "same_table d d' \<Longrightarrow> spares d d'"
  by (auto simp: same_table_def spares_def registered_def)

lemma enqueue_dead_spares: "spares d (enqueue_dead_qp qpn d)"
  by (auto simp: enqueue_dead_qp_def spares_def registered_def qp_sig_def split: option.splits if_splits)

lemma schedule_spares:
  assumes "schedule_qp_destroy rm rp e qpn d = Inr d'"
  shows "spares d d'"
  using assms
  by (auto simp: schedule_qp_destroy_def spares_def registered_def qp_sig_def Let_def case_prod_beta
    split: option.splits if_splits) blast+

lemma register_spares:
  assumes "qps d p = None" and "register_qp p c (d\<lparr>qps := (qps d)(p \<mapsto> q), conn_qp := (conn_qp d)(c := p)\<rparr>) = Inr d'"
  shows "spares d d'"
  using assms by (auto simp: register_qp_def spares_def registered_def qp_sig_def split: if_splits) blast

lemma spares_after: "same_table d e \<Longrightarrow> spares e d' \<Longrightarrow> spares d d'"
  by (simp add: same_table_def spares_def registered_def)

lemma async_one_spares:
  assumes "async_one cfg ev d = Inr d'"
  shows "spares d d'"
proof -
  have "spares d d" "spares d (d\<lparr>faulted := f\<rparr>)" "spares d (enqueue_dead_qp n (d\<lparr>faulted := f\<rparr>))" for n f
    by (auto intro: same_table_spares spares_after [OF same_table_upd(4) enqueue_dead_spares])
  then show ?thesis using assms
    by (auto simp: async_one_def rbind_eq_Inr Let_def split: async_event.splits if_splits)
qed


lemma disp_step_spares: "disp_step d d' \<Longrightarrow> spares d d'"
proof (induction rule: disp_step.induct)
  case (st_wait d w)
  show ?case by (auto simp: make_pending_worker_def spares_def registered_def qp_sig_def)
next
  case (st_notify d)
  show ?case by (auto simp: notify_pending_workers_def spares_def registered_def qp_sig_def split: list.splits)
next
  case (st_stop d)
  show ?case unfolding polling_stop_def by (rule same_table_spares [OF same_table_upd(6)])
qed (auto intro: register_spares schedule_spares async_one_spares same_table_spares disp_recall_table conn_post_chunks_table)

lemma swap_inv:
  assumes "disp_inv d"
  shows "sys_inv (Deleting (dead_queue_pairs d)) (d\<lparr>dead_queue_pairs := []\<rparr>)"
proof -
  have "qp_sig (d\<lparr>dead_queue_pairs := []\<rparr>) = qp_sig d" by (simp add: qp_sig_def fun_eq_iff)
  then show ?thesis using assms by (auto simp: sys_inv_def disp_inv_def owned_def deleting_def registered_def)
qed

lemma delete_inv:
  assumes "sys_inv (Deleting (p # ps)) d" and "delete_qp ret p d = Inr d'"
  shows "sys_inv (Deleting ps) d'"
proof -
  note f = delete_qp_frame [OF assms(2)]
  have "p \<notin> set (dead_queue_pairs d)" "p \<notin> registered d" using assms(1) by (auto simp: sys_inv_def owned_def deleting_def)
  moreover have "registered d' = registered d" using f by (simp add: registered_def)
  ultimately show ?thesis using assms(1) f
    by (auto simp: sys_inv_def owned_def deleting_def disp_inv_def registered_def)
qed

lemma poll_step_inv: "poll_step s t \<Longrightarrow> sys_inv (fst s) (snd s) \<Longrightarrow> sys_inv (fst t) (snd t)"
proof (induction rule: poll_step.induct)
  case (swap d)
  then show ?case using swap_inv by (simp add: sys_inv_def)
next
  case (delete ret p d d' ps)
  then show ?case using delete_inv by simp
next
  case (tx_chunk c r d rs cs)
  then show ?case using same_table_inv [OF same_table_upd(1)] by (simp add: sys_inv_def owned_def deleting_def)
next
  case (tx_fin c r d q rs cs)
  then show ?case using same_table_inv [OF same_table_upd(1)] by (simp add: sys_inv_def owned_def deleting_def)
next
  case (tx_return cs d)
  then show ?case using same_table_inv [OF post_tx_buffer_table] by (simp add: sys_inv_def owned_def deleting_def)
next
  case (rx_polled rx d d' b)
  then show ?case using same_table_inv [OF handle_rx_event_table] by (simp add: sys_inv_def owned_def deleting_def)
qed (auto simp: sys_inv_def owned_def deleting_def enqueue_dead_inv)

lemma reachable_sys_inv: "disp_reachable pool pc d \<Longrightarrow> sys_inv pc d"
proof (induction rule: disp_reachable.induct)
  case reach_new
  show ?case by (simp add: sys_inv_def disp_new_inv owned_def deleting_def)
next
  case (reach_other pc d d')
  then show ?case using disp_step_inv owned_spares [OF _ disp_step_spares] by (auto simp: sys_inv_def)
next
  case (reach_poll pc d pc' d')
  then show ?case using poll_step_inv by fastforce
qed

lemma reachable_inv: "disp_reachable pool pc d \<Longrightarrow> disp_inv d"
  using reachable_sys_inv by (simp add: sys_inv_def)

text \<open>The uninterrupted round is a run of these steps.\<close>

lemma tx_loop_steps: "tx_loop rs cs d = Inr (cs', d') \<Longrightarrow> poll_step\<^sup>*\<^sup>* (InTx rs cs, d) (InTx [] cs', d')"
proof (induction rs cs d rule: tx_loop.induct)
  case (2 r rs cs d)
  obtain cs1 d1 where one: "tx_one r cs d = Inr (cs1, d1)" and rest: "tx_loop rs cs1 d1 = Inr (cs', d')"
    using "2.prems" by (auto simp: rbind_eq_Inr)
  have "poll_step\<^sup>*\<^sup>* (InTx (r # rs) cs, d) (InTx rs cs1, d1)"
  proof (cases "wc_wr_id r = unat BEACON_WRID")
    case True
    then show ?thesis using one tx_beacon by (auto simp: tx_one_def)
  next
    case False
    then obtain c where c: "wc_status r = IBV_WC_SUCCESS" "get_conn_lockless (wc_qp_num r) d = Inr c" "c \<noteq> nullptr"
      using one by (auto simp: tx_one_def rbind_eq_Inr split: if_splits)
    have "poll_step (Callback c r rs cs, d) (InTx rs cs1, d1)"
      using one False c tx_chunk [OF c(3)] tx_fin [OF c(3)]
      by (auto simp: tx_one_def Let_def split: if_splits option.splits)
    then show ?thesis using tx_lookup [OF False c(1,2)] by (meson r_into_rtranclp rtranclp.rtrancl_into_rtrancl)
  qed
  then show ?case using "2.IH" [OF rest] by (meson rtranclp_trans)
qed simp

lemma delete_all_steps: "delete_all ret ps d = Inr d' \<Longrightarrow> poll_step\<^sup>*\<^sup>* (Deleting ps, d) (Deleting [], d')"
proof (induction ret ps d rule: delete_all.induct)
  case (2 ret p ps d)
  then obtain d1 where "delete_qp ret p d = Inr d1" "delete_all ret ps d1 = Inr d'" by (auto simp: rbind_eq_Inr)
  then show ?case using "2.IH" delete by (meson converse_rtranclp_into_rtranclp)
qed simp

lemma idle_steps:
  assumes "(if dead_queue_pairs d \<noteq> [] then delete_all ret (dead_queue_pairs d) (d\<lparr>dead_queue_pairs := []\<rparr>) else Inr d) = Inr d'"
  shows "poll_step\<^sup>*\<^sup>* (Idle, d) (TestConns, d')"
proof (cases "dead_queue_pairs d = []")
  case True
  then show ?thesis using assms hint [of d] by auto
next
  case False
  then have "poll_step (Idle, d) (Swap, d)" "poll_step\<^sup>*\<^sup>* (Deleting (dead_queue_pairs d), d\<lparr>dead_queue_pairs := []\<rparr>) (Deleting [], d')"
    using hint [of d] assms delete_all_steps by auto
  then show ?thesis using swap deleted_all by (meson converse_rtranclp_into_rtranclp rtranclp.rtrancl_into_rtrancl)
qed

lemma exit_steps:
  "poll_step\<^sup>*\<^sup>* (TestConns, d) (if num_qp_conn d = 0 \<and> done_flag d \<and> dead_queue_pairs d = [] then Ended else AtTx, d)"
proof -
  note t = test_conns [of d] test_done [of d] test_dead [of d]
  show ?thesis
  proof (cases "num_qp_conn d = 0")
    case n: True
    then have 1: "poll_step\<^sup>*\<^sup>* (TestConns, d) (TestDone, d)" using t(1) by auto
    show ?thesis
    proof (cases "done_flag d")
      case True
      then have "poll_step\<^sup>*\<^sup>* (TestConns, d) (TestDead, d)" using t(2) rtranclp.rtrancl_into_rtrancl [OF 1] by simp
      then show ?thesis using t(3) rtranclp.rtrancl_into_rtrancl n True by fastforce
    qed (use t(2) rtranclp.rtrancl_into_rtrancl [OF 1] n in simp)
  qed (use t(1) in auto)
qed

lemma polling_round_steps:
  assumes "polling_round tx rx ret d = Inr (b, d')"
  shows "poll_step\<^sup>*\<^sup>* (AtTx, d) (if b then Ended else AtTx, d')"
proof -
  obtain d1 d2 where d1: "(if tx \<noteq> [] then handle_tx_event tx d else Inr d) = Inr d1"
    and d2: "(if rx \<noteq> [] then handle_rx_event rx d1 else Inr d1) = Inr d2"
    and rest: "(if tx = [] \<and> rx = [] then
         rbind (if dead_queue_pairs d2 \<noteq> [] then delete_all ret (dead_queue_pairs d2) (d2\<lparr>dead_queue_pairs := []\<rparr>) else Inr d2) (\<lambda>d3.
           Inr (num_qp_conn d3 = 0 \<and> done_flag d3 \<and> dead_queue_pairs d3 = [], d3))
       else Inr (False, d2)) = Inr (b, d')"
    using assms by (auto simp only: polling_round_def rbind_eq_Inr)
  have 1: "poll_step\<^sup>*\<^sup>* (AtTx, d) (AtRx (tx = []), d1)"
  proof (cases "tx = []")
    case False
    then obtain cs e where "tx_loop tx [] d = Inr (cs, e)" "d1 = post_tx_buffer cs e"
      using d1 by (auto simp: handle_tx_event_def rbind_eq_Inr)
    then show ?thesis using False tx_loop_steps tx_polled tx_return
      by (metis (full_types) converse_rtranclp_into_rtranclp rtranclp.rtrancl_into_rtrancl)
  qed (use d1 tx_empty in auto)
  show ?thesis
  proof (cases "rx = []")
    case False
    then have "b = False" "d' = d2" "poll_step (AtRx (tx = []), d1) (AtTx, d2)" using d2 rest rx_polled by auto
    then show ?thesis using 1 by (simp add: rtranclp.rtrancl_into_rtrancl)
  next
    case rx: True
    then have e: "d2 = d1" using d2 by simp
    note step = rx_empty [of "tx = []" d1]
    show ?thesis
    proof (cases "tx = []")
      case False
      then show ?thesis using 1 step rest e by (auto intro: rtranclp.rtrancl_into_rtrancl)
    next
      case True
      have i: "poll_step\<^sup>*\<^sup>* (AtTx, d) (Idle, d1)" using 1 step True by (auto intro: rtranclp.rtrancl_into_rtrancl)
      have d': "(if dead_queue_pairs d1 \<noteq> [] then delete_all ret (dead_queue_pairs d1) (d1\<lparr>dead_queue_pairs := []\<rparr>) else Inr d1) = Inr d'"
        and b: "b = (num_qp_conn d' = 0 \<and> done_flag d' \<and> dead_queue_pairs d' = [])"
        using rest True rx e by (auto simp: rbind_eq_Inr)
      have c: "poll_step\<^sup>*\<^sup>* (Idle, d1) (TestConns, d')"
        by (rule idle_steps [OF d'])
      show ?thesis using rtranclp_trans [OF rtranclp_trans [OF i c] exit_steps [of d']] b by simp
    qed
  qed
qed

lemma find_dead_live:
  "\<forall>p \<in> set ps. qp_sig d p \<noteq> None \<Longrightarrow> \<exists>p. find_dead n ps d = Inr p \<and> (p \<noteq> nullptr \<longrightarrow> qp_sig d p = Some n \<and> p \<in> set ps)"
  by (induction ps) (auto simp: qp_sig_def)

section \<open>Properties\<close>

text \<open>C5: In every reachable state of the dispatcher, whatever the interleaving of the locked operations of
  the other threads with the steps of the polling thread, inside \<open>handle_tx_event\<close> and between swapping out
  and deleting dead queue pairs too: the counter \<open>num_qp_conn\<close> is the number of registered queue pairs;
  looking up a queue pair or its socket, with the lock or without, never touches a deleted one; a queue
  pair that is found is live, has the number asked for and is none of those the polling thread is
  deleting; a socket that is found owns it. This is a property of the lookup: \<open>tx_callback_stale\<close> shows that
  the socket can go away before the unlocked lookup of \<open>handle_tx_event\<close> is used.\<close>

theorem dispatcher_lookup_safe:
  assumes "disp_reachable pool pc d"
  shows "unat (num_qp_conn d) = card (dom (qp_conns d)) \<and>
    (\<exists>p. get_qp_lockless n d = Inr p \<and>
       (p \<noteq> nullptr \<longrightarrow> p \<notin> set (deleting pc) \<and> (\<exists>q. qps d p = Some q \<and> get_local_qp_number q = n))) \<and>
    (\<exists>c. get_conn_lockless n d = Inr c \<and> (c \<noteq> nullptr \<longrightarrow> get_qp_lockless n d = Inr (conn_qp d c)))"
proof -
  have inv: "disp_inv d" and own: "owned (deleting pc) d" using reachable_sys_inv [OF assms] by (simp_all add: sys_inv_def)
  have fd: "\<exists>p. find_dead n (dead_queue_pairs d) d = Inr p \<and>
      (p \<noteq> nullptr \<longrightarrow> qp_sig d p = Some n \<and> p \<in> set (dead_queue_pairs d))"
    using inv by (intro find_dead_live) (simp add: disp_inv_def)
  have nd: "p \<notin> set (deleting pc)" if "p \<in> set (dead_queue_pairs d) \<or> p \<in> registered d" for p
    using own that by (auto simp: owned_def)
  show ?thesis
  proof (cases "qp_conns d n")
    case None
    then show ?thesis using inv fd nd by (auto simp: disp_inv_def get_qp_lockless_def get_conn_lockless_def qps_live)
  next
    case (Some x)
    obtain p c where x: "x = (p, c)" by (cases x)
    have "qp_sig d p = Some n" and c: "c \<noteq> nullptr \<longrightarrow> conn_qp d c = p" using inv Some x by (auto simp: disp_inv_def)
    then obtain q where "qps d p = Some q" "get_local_qp_number q = n" by (auto simp: qps_live)
    moreover have "p \<notin> set (deleting pc)" using nd Some x by (auto simp: registered_def)
    ultimately show ?thesis using inv Some x c
      by (auto simp: disp_inv_def get_qp_lockless_def get_conn_lockless_def)
  qed
qed

text \<open>The idle round.\<close>

lemma delete_qp_ok:
  assumes "qps d p = Some q" and "qp_handle q \<noteq> None" and "qp_live q" and "ret p = 0"
  shows "\<exists>d'. delete_qp ret p d = Inr d' \<and> (\<forall>p'. p' \<noteq> p \<longrightarrow> qps d' p' = qps d p') \<and> qps d' p = None \<and>
    rx_returned d' = rx_returned d @ recv_queue (rq q)"
proof -
  obtain h where h: "qp_handle q = Some h" using assms(2) by auto
  let ?st = "(foldl (\<lambda>s c. release_rx_buffer c s) (get_rq p d) (recv_queue (get_rq p d)))\<lparr>recv_queue := []\<rparr>"
  have qd: "qp_destroy (qp_handle q) (qp_live q) (ret p) (get_rq p d) = Inr ?st"
    using assms(3,4) by (simp add: qp_destroy_def h)
  have "pool_returned ?st = rx_returned d @ recv_queue (rq q)"
    using foldl_release [of "get_rq p d" "recv_queue (get_rq p d)"] assms(1) by (simp add: get_rq_def)
  then show ?thesis using assms(1) qd by (simp add: delete_qp_def Let_def) (simp add: put_rq_def)
qed

lemma delete_all_ok:
  assumes "distinct ps" and "\<forall>p \<in> set ps. \<exists>q. qps d p = Some q \<and> qp_handle q \<noteq> None \<and> qp_live q \<and> ret p = 0"
  shows "\<exists>d'. delete_all ret ps d = Inr d' \<and>
    rx_returned d' = rx_returned d @ concat (map (\<lambda>p. recv_queue (rq (the (qps d p)))) ps)"
  using assms
proof (induction ps arbitrary: d)
  case (Cons p ps)
  obtain q where q: "qps d p = Some q" "qp_handle q \<noteq> None" "qp_live q" "ret p = 0" using Cons.prems(2) by auto
  obtain d1 where d1: "delete_qp ret p d = Inr d1" "\<forall>p'. p' \<noteq> p \<longrightarrow> qps d1 p' = qps d p'"
      "rx_returned d1 = rx_returned d @ recv_queue (rq q)"
    using delete_qp_ok [of d p q ret, OF q] by blast
  have rest: "\<forall>p' \<in> set ps. qps d1 p' = qps d p'" using d1(2) Cons.prems(1) by auto
  have m: "map (\<lambda>p. recv_queue (rq (the (qps d1 p)))) ps = map (\<lambda>p. recv_queue (rq (the (qps d p)))) ps"
    by (rule map_cong [OF refl]) (use rest in simp)
  obtain d' where "delete_all ret ps d1 = Inr d'"
      "rx_returned d' = rx_returned d1 @ concat (map (\<lambda>p. recv_queue (rq (the (qps d p)))) ps)"
    using Cons.IH [of d1] Cons.prems rest m by force
  then show ?case using d1 q(1) by simp
qed simp

text \<open>An idle polling round destroys exactly the dead queue pairs, each once and in order: it ends
  without a fault, empties the dead list, removes them from the heap and returns every receive
  buffer they still held to the pool; registered queue pairs are not touched.\<close>

theorem idle_round_destroys_dead:
  assumes "disp_reachable pool pc d"
    and "\<forall>p \<in> set (dead_queue_pairs d). \<exists>q. qps d p = Some q \<and> qp_handle q \<noteq> None \<and> qp_live q \<and> ret p = 0"
  shows "\<exists>d'. polling_round [] [] ret d = Inr (num_qp_conn d = 0 \<and> done_flag d, d') \<and>
    dead_queue_pairs d' = [] \<and> deleted d' = deleted d @ dead_queue_pairs d \<and> qp_conns d' = qp_conns d \<and>
    (\<forall>p. qps d' p = None \<longleftrightarrow> qps d p = None \<or> p \<in> set (dead_queue_pairs d)) \<and>
    rx_returned d' = rx_returned d @ concat (map (\<lambda>p. recv_queue (rq (the (qps d p)))) (dead_queue_pairs d))"
proof (cases "dead_queue_pairs d = []")
  case True
  then show ?thesis by (simp add: polling_round_def)
next
  case False
  let ?d = "d\<lparr>dead_queue_pairs := []\<rparr>"
  have "distinct (dead_queue_pairs d)" using reachable_inv [OF assms(1)] by (simp add: disp_inv_def)
  then obtain d' where d': "delete_all ret (dead_queue_pairs d) ?d = Inr d'"
      "rx_returned d' = rx_returned d @ concat (map (\<lambda>p. recv_queue (rq (the (qps d p)))) (dead_queue_pairs d))"
    using delete_all_ok [of "dead_queue_pairs d" ?d ret] assms(2) by auto
  note f = delete_all_frame [OF d'(1)]
  have "qps d' p = None \<longleftrightarrow> qps d p = None \<or> p \<in> set (dead_queue_pairs d)" for p
  proof -
    have "qp_sig d' p = (if p \<in> set (dead_queue_pairs d) then None else qp_sig ?d p)" using f by simp
    then show ?thesis unfolding sig_none [symmetric] by (simp add: qp_sig_def)
  qed
  then show ?thesis using d' f False by (simp add: polling_round_def)
qed

lemma example_qp_facts:
  "get_local_qp_number example_qp_init = 17" "qp_handle example_qp_init = Some 5" "qp_live example_qp_init"
  "\<not> dead example_qp_init" "recv_queue (rq example_qp_init) = [100]" "\<not> srq example_qp_init" "temp_wr_len example_qp_init = 1"
  using example_no_cm
  by (simp_all add: get_local_qp_number_def example_qp_init_def example_qp_def queue_pair_new_def qp_init_def modify_qp_to_init_def
    init_mask_def Let_def log_verb_def init_finish_def post_chunks_to_rq_def add_rq_wr_def chunk_set_qp_def example_pool_def)

text \<open>A dispatcher with one registered queue pair, and the same after its socket went away and the
  switch to the error state failed.\<close>

definition example_disp :: disp where
  "example_disp = (disp_new (cluster_new 4096 0))\<lparr>qps := [5 \<mapsto> example_qp_init], conn_qp := (\<lambda>_. nullptr)(9 := 5),
     qp_conns := [17 \<mapsto> (5, 9)], num_qp_conn := 1\<rparr>"

definition example_disp_dead :: disp where
  "example_disp_dead = projr (schedule_qp_destroy 1 0 0 17 example_disp)"

lemma example_disp_reachable: "disp_reachable (cluster_new 4096 0) AtTx example_disp"
proof (rule reach_other [OF reach_new st_connect])
  show "qps (disp_new (cluster_new 4096 0)) 5 = None" "(5 :: ptr) \<noteq> nullptr" "(9 :: ptr) \<noteq> nullptr"
    "\<forall>n p'. qp_conns (disp_new (cluster_new 4096 0)) n \<noteq> Some (p', 9)"
    by (simp_all add: disp_new_def)
  show "register_qp 5 9 (disp_new (cluster_new 4096 0)\<lparr>qps := (qps (disp_new (cluster_new 4096 0)))(5 \<mapsto> example_qp_init),
      conn_qp := (conn_qp (disp_new (cluster_new 4096 0)))(9 := 5)\<rparr>) = Inr example_disp"
    by (simp add: register_qp_def example_disp_def disp_new_def example_qp_facts)
qed

theorem dispatcher_lookup_safe_witness:
  "disp_reachable (cluster_new 4096 0) AtTx example_disp \<and> unat (num_qp_conn example_disp) = 1 \<and>
   get_qp_lockless 17 example_disp = Inr 5 \<and> qps example_disp 5 = Some example_qp_init \<and>
   get_conn_lockless 17 example_disp = Inr 9 \<and> conn_qp example_disp 9 = 5 \<and> get_conn_lockless 18 example_disp = Inr nullptr"
proof -
  have d: "dom (qp_conns example_disp) = {17}" by (simp add: example_disp_def)
  have f: "get_conn_lockless 17 example_disp = Inr 9" "get_conn_lockless 18 example_disp = Inr nullptr"
    "qps example_disp 5 = Some example_qp_init" "conn_qp example_disp 9 = 5"
    by (simp_all add: get_conn_lockless_def example_disp_def example_qp_facts disp_new_def)
  show ?thesis using dispatcher_lookup_safe [OF example_disp_reachable, of 17] example_disp_reachable d f by simp
qed

lemma example_schedule: "schedule_qp_destroy 1 0 0 17 example_disp = Inr example_disp_dead"
  by (simp add: example_disp_dead_def schedule_qp_destroy_def example_disp_def to_dead_def modify_qp_to_error_def
    example_qp_facts Let_def)

text \<open>The unlocked lookup of \<open>handle_tx_event\<close> does not keep the socket: another thread can take it out of
  the table before the polling thread calls its callback, so that the callback is made on a socket that
  is gone.\<close>

theorem tx_callback_stale:
  "\<exists>pc d c r rs cs. disp_reachable (cluster_new 4096 0) pc d \<and> pc = Callback c r rs cs \<and> c \<noteq> nullptr \<and>
     get_conn_lockless (wc_qp_num r) d = Inr nullptr"
proof -
  let ?r = "\<lparr>wc_wr_id = 3, wc_qp_num = 17, wc_status = 0, wc_byte_len = 0, wc_recv = False\<rparr>"
  have c: "get_conn_lockless 17 example_disp = Inr 9"
    by (simp add: get_conn_lockless_def example_disp_def example_qp_facts)
  have "disp_reachable (cluster_new 4096 0) (InTx [?r] []) example_disp"
    by (rule reach_poll [OF example_disp_reachable tx_polled]) simp
  then have "disp_reachable (cluster_new 4096 0) (Callback 9 ?r [] []) example_disp"
    by (rule reach_poll) (rule tx_lookup, simp_all add: c BEACON_WRID_def IBV_WC_SUCCESS_def)
  then have "disp_reachable (cluster_new 4096 0) (Callback 9 ?r [] []) example_disp_dead"
    by (rule reach_other [OF _ st_destroy [OF example_schedule]])
  moreover have "get_conn_lockless 17 example_disp_dead = Inr nullptr"
    by (simp add: get_conn_lockless_def example_disp_dead_def schedule_qp_destroy_def example_disp_def to_dead_def
      modify_qp_to_error_def example_qp_facts Let_def)
  ultimately show ?thesis by (intro exI [of _ "Callback 9 ?r [] []"] exI [of _ example_disp_dead] exI [of _ 9] exI [of _ ?r] exI [of _ "[]"]) simp
qed

lemma example_dead: "dead_queue_pairs example_disp_dead = [5]" "deleted example_disp_dead = []"
  "\<exists>q. qps example_disp_dead 5 = Some q \<and> qp_handle q \<noteq> None \<and> qp_live q"
  by (simp_all add: example_disp_dead_def schedule_qp_destroy_def example_disp_def to_dead_def modify_qp_to_error_def
    example_qp_facts Let_def disp_new_def)

theorem idle_round_destroys_dead_witness:
  "\<exists>b d'. polling_round [] [] (\<lambda>_. 0) example_disp_dead = Inr (b, d') \<and> dead_queue_pairs d' = [] \<and> deleted d' = [5]"
proof -
  have "disp_reachable (cluster_new 4096 0) AtTx example_disp_dead"
    by (rule reach_other [OF example_disp_reachable st_destroy [OF example_schedule]])
  from idle_round_destroys_dead [OF this, of "\<lambda>_. 0"] show ?thesis using example_dead by auto
qed

section \<open>Death of a queue pair\<close>

text \<open>C23: A queue pair is drained before it is destroyed. After \<open>schedule_qp_destroy\<close> succeeded in
  switching it to the error state, its socket can no longer be looked up but the queue pair stays
  registered; the beacon completion moves it, and only it, to the dead list, from where the next
  idle round deletes it.\<close>

theorem qp_death_lifecycle:
  assumes "disp_inv d" and "qp_conns d n = Some (p, c)" and "qps d p = Some q"
    and "wc_wr_id b = unat BEACON_WRID" and "wc_qp_num b = n"
    and "\<forall>p' \<in> insert p (set (dead_queue_pairs d)). \<exists>q'. qps d p' = Some q' \<and> qp_handle q' \<noteq> None \<and> qp_live q' \<and> ret p' = 0"
  shows "\<exists>d1 d2 d3. schedule_qp_destroy 0 0 e n d = Inr d1 \<and> get_conn_lockless n d1 = Inr nullptr \<and>
    get_qp_lockless n d1 = Inr p \<and> dead_queue_pairs d1 = dead_queue_pairs d \<and>
    handle_tx_event [b] d1 = Inr d2 \<and> dead_queue_pairs d2 = dead_queue_pairs d @ [p] \<and> qp_conns d2 n = None \<and>
    polling_round [] [] ret d2 = Inr (num_qp_conn d2 = 0 \<and> done_flag d2, d3) \<and>
    deleted d3 = deleted d @ dead_queue_pairs d @ [p] \<and> dead_queue_pairs d3 = []"
proof -
  let ?q = "snd (to_dead 0 0 e q)"
  have td: "fst (to_dead 0 0 e q) = 0" "dead ?q" "qp_handle ?q = qp_handle q" "qp_live ?q = qp_live q"
    by (simp_all add: to_dead_def modify_qp_to_error_def Let_def)
  let ?d1 = "d\<lparr>qps := (qps d)(p \<mapsto> ?q), qp_conns := (qp_conns d)(n \<mapsto> (p, nullptr))\<rparr>"
  let ?d2 = "enqueue_dead_qp n ?d1"
  have s: "schedule_qp_destroy 0 0 e n d = Inr ?d1"
    using assms(2,3) td(1) by (simp add: schedule_qp_destroy_def Let_def case_prod_beta)
  have t: "handle_tx_event [b] ?d1 = Inr ?d2"
    using assms(4,5) by (simp add: handle_tx_event_def tx_one_def post_tx_buffer_def)
  have dd: "dead_queue_pairs ?d2 = dead_queue_pairs d @ [p]" "deleted ?d2 = deleted d" "qp_conns ?d2 n = None"
    "qps ?d2 = (qps d)(p \<mapsto> ?q)" by (simp_all add: enqueue_dead_qp_def)
  have inv2: "disp_inv ?d2" by (rule enqueue_dead_inv [OF schedule_inv [OF assms(1) s]])
  have "\<forall>p' \<in> set (dead_queue_pairs ?d2). \<exists>q'. qps ?d2 p' = Some q' \<and> qp_handle q' \<noteq> None \<and> qp_live q' \<and> ret p' = 0"
    using assms(3,6) td(3,4) unfolding dd by auto
  then obtain d3 where d3: "delete_all ret (dead_queue_pairs ?d2) (?d2\<lparr>dead_queue_pairs := []\<rparr>) = Inr d3"
    using delete_all_ok [of "dead_queue_pairs ?d2" "?d2\<lparr>dead_queue_pairs := []\<rparr>" ret] inv2 by (auto simp: disp_inv_def)
  note f = delete_all_frame [OF d3]
  have "polling_round [] [] ret ?d2 = Inr (num_qp_conn ?d2 = 0 \<and> done_flag ?d2, d3)"
    using d3 f dd(1) by (simp add: polling_round_def)
  then show ?thesis using s t dd f td(2)
    by (intro exI [of _ ?d1] exI [of _ ?d2] exI [of _ d3]) (simp add: get_conn_lockless_def get_qp_lockless_def)
qed


lemma example_disp_inv: "disp_inv example_disp"
  by (rule reachable_inv [OF example_disp_reachable])

theorem qp_death_lifecycle_witness:
  "\<exists>d1 d2 d3. schedule_qp_destroy 0 0 0 17 example_disp = Inr d1 \<and>
    handle_tx_event [\<lparr>wc_wr_id = unat BEACON_WRID, wc_qp_num = 17, wc_status = 0, wc_byte_len = 0, wc_recv = False\<rparr>] d1 = Inr d2 \<and>
    polling_round [] [] (\<lambda>_. 0) d2 = Inr (num_qp_conn d2 = 0 \<and> done_flag d2, d3) \<and> deleted d3 = [5]"
  using qp_death_lifecycle [OF example_disp_inv, of 17 5 9 example_qp_init
    "\<lparr>wc_wr_id = unat BEACON_WRID, wc_qp_num = 17, wc_status = 0, wc_byte_len = 0, wc_recv = False\<rparr>" "\<lambda>_. 0" 0]
  by (auto simp: example_disp_def disp_new_def example_qp_facts)

section \<open>Send completions\<close>

definition tx_good :: "disp \<Rightarrow> wc \<Rightarrow> bool" where
  "tx_good d r \<longleftrightarrow> wc_status r = IBV_WC_SUCCESS \<and> wc_wr_id r \<noteq> unat BEACON_WRID \<and> is_valid_chunk (wc_wr_id r) (tx_pool d) \<and>
     (case get_conn_lockless (wc_qp_num r) d of Inr c \<Rightarrow> c \<noteq> nullptr | Inl _ \<Rightarrow> False)"

definition conn_of :: "disp \<Rightarrow> wc \<Rightarrow> ptr" where
  "conn_of d r = (case get_conn_lockless (wc_qp_num r) d of Inr c \<Rightarrow> c | Inl _ \<Rightarrow> nullptr)"

lemma get_conn_upd [simp]: "get_conn_lockless n (d\<lparr>txc_calls := t\<rparr>) = get_conn_lockless n d"
  by (simp add: get_conn_lockless_def split: option.split prod.split)

lemma tx_loop_good:
  "\<forall>r \<in> set cqe. tx_good d r \<Longrightarrow>
   tx_loop cqe cs (d\<lparr>txc_calls := t\<rparr>) =
     Inr (cs @ map wc_wr_id cqe, d\<lparr>txc_calls := t @ map (\<lambda>r. (conn_of d r, wc_wr_id r)) cqe\<rparr>)"
proof (induction cqe arbitrary: cs t)
  case (Cons r cqe)
  have g: "tx_good d r" using Cons.prems by simp
  then obtain c where c: "get_conn_lockless (wc_qp_num r) d = Inr c" "c \<noteq> nullptr"
    by (auto simp: tx_good_def split: sum.splits)
  have "tx_one r cs (d\<lparr>txc_calls := t\<rparr>) = Inr (cs @ [wc_wr_id r], d\<lparr>txc_calls := t @ [(c, wc_wr_id r)]\<rparr>)"
    using g c by (simp add: tx_one_def tx_good_def Let_def)
  then show ?case using Cons c(1) by (simp add: conn_of_def)
qed simp

text \<open>Handling successful send completions gives back exactly the completed buffers: the pool's
  free list grows by them in completion order, \<open>inflight\<close> falls by their number, every socket's
  completion callback is called once per buffer and in order, and the pool stays well-formed.\<close>

theorem handle_tx_event_returns_chunks:
  assumes "\<forall>r \<in> set cqe. tx_good d r" and "cqe \<noteq> []" and "cluster_inv (tx_pool d)"
    and "distinct (map wc_wr_id cqe)" and "wc_wr_id ` set cqe \<inter> set (free_chunks (tx_pool d)) = {}"
  shows "\<exists>d'. handle_tx_event cqe d = Inr d' \<and>
    free_chunks (tx_pool d') = free_chunks (tx_pool d) @ map wc_wr_id cqe \<and> cluster_inv (tx_pool d') \<and>
    inflight d' = inflight d - of_nat (length cqe) \<and>
    txc_calls d' = txc_calls d @ map (\<lambda>r. (conn_of d r, wc_wr_id r)) cqe"
proof -
  have "\<forall>c \<in> set (map wc_wr_id cqe). is_valid_chunk c (tx_pool d)" using assms(1) by (auto simp: tx_good_def)
  then have "cluster_inv (take_back (map wc_wr_id cqe) (tx_pool d))"
    using cluster_inv_take_back [OF assms(3,4)] assms(5) by simp
  moreover have "tx_loop cqe [] d = Inr (map wc_wr_id cqe, d\<lparr>txc_calls := txc_calls d @ map (\<lambda>r. (conn_of d r, wc_wr_id r)) cqe\<rparr>)"
    using tx_loop_good [OF assms(1), of "[]" "txc_calls d"] by simp
  ultimately show ?thesis using assms(2) by (simp add: handle_tx_event_def post_tx_buffer_def)
qed

text \<open>A successful send completion that arrives after its queue pair was scheduled for destruction
  crashes the dispatcher: the lookup returns the null pointer for a dead queue pair, and the
  callback is called through it.\<close>

theorem tx_completion_of_dead_qp:
  assumes "qp_conns d n = Some (p, c)" and "qps d p = Some q" and "schedule_qp_destroy 0 0 e n d = Inr d'"
    and "wc_qp_num r = n" and "wc_status r = IBV_WC_SUCCESS" and "wc_wr_id r \<noteq> unat BEACON_WRID"
  shows "handle_tx_event (r # rs) d' = Inl NullDeref"
proof -
  have "dead (snd (to_dead 0 0 e q))" "fst (to_dead 0 0 e q) = 0" by (simp_all add: to_dead_def modify_qp_to_error_def Let_def)
  then have "get_conn_lockless n d' = Inr nullptr"
    using assms(1-3) by (auto simp: schedule_qp_destroy_def Let_def case_prod_beta get_conn_lockless_def)
  then show ?thesis using assms(4-6) by (simp add: handle_tx_event_def tx_one_def IBV_WC_SUCCESS_def)
qed

theorem tx_completion_of_dead_qp_witness:
  "\<exists>d'. schedule_qp_destroy 0 0 0 17 example_disp = Inr d' \<and>
    handle_tx_event [\<lparr>wc_wr_id = 3, wc_qp_num = 17, wc_status = 0, wc_byte_len = 0, wc_recv = False\<rparr>] d' = Inl NullDeref"
proof -
  obtain d' where d': "schedule_qp_destroy 0 0 0 17 example_disp = Inr d'"
    using that by (cases "schedule_qp_destroy 0 0 0 17 example_disp")
      (auto simp: schedule_qp_destroy_def example_disp_def Let_def case_prod_beta split: if_splits)
  show ?thesis
    using tx_completion_of_dead_qp [OF _ _ d', of 5 9 example_qp_init
      "\<lparr>wc_wr_id = 3, wc_qp_num = 17, wc_status = 0, wc_byte_len = 0, wc_recv = False\<rparr>" "[]"] d'
    by (simp add: example_disp_def IBV_WC_SUCCESS_def BEACON_WRID_def)
qed

theorem handle_tx_event_returns_chunks_witness:
  "\<exists>cl d'. fill 4 4096 1 7 (cluster_new 4096 0) = Some (Inr cl) \<and>
    handle_tx_event [\<lparr>wc_wr_id = 3, wc_qp_num = 17, wc_status = 0, wc_byte_len = 0, wc_recv = False\<rparr>]
      (example_disp\<lparr>tx_pool := cl\<lparr>free_chunks := [0, 1, 2]\<rparr>\<rparr>) = Inr d' \<and> free_chunks (tx_pool d') = [0, 1, 2, 3]"
proof -
  obtain cl where cl: "fill 4 4096 1 7 (cluster_new 4096 0) = Some (Inr cl)" "cluster_inv cl"
      "free_chunks cl = [0 ..< 4]" "num_chunk cl = 4"
    using fill_ok [of "cluster_new 4096 0" 4096 1 4 7] by (auto simp: cluster_new_def)
  let ?d = "example_disp\<lparr>tx_pool := cl\<lparr>free_chunks := [0, 1, 2]\<rparr>\<rparr>"
  let ?r = "\<lparr>wc_wr_id = 3, wc_qp_num = 17, wc_status = 0, wc_byte_len = 0, wc_recv = False\<rparr>"
  have "tx_good ?d ?r"
    using cl(4) by (simp add: tx_good_def IBV_WC_SUCCESS_def BEACON_WRID_def is_valid_chunk_def get_conn_lockless_def
      example_disp_def example_qp_facts)
  moreover have "cluster_inv (tx_pool ?d)" using cl(2,3,4) by (auto simp: cluster_inv_def)
  ultimately show ?thesis
    using handle_tx_event_returns_chunks [of "[?r]" ?d] cl(1) by auto
qed


section \<open>Receive completions\<close>

text \<open>Which socket a completion goes to depends on the table and on the death flags only.\<close>

definition same_conns :: "disp \<Rightarrow> disp \<Rightarrow> bool" where
  "same_conns d d' \<longleftrightarrow> (\<forall>n. get_conn_lockless n d' = get_conn_lockless n d) \<and> conn_wc d' = conn_wc d"

lemma same_conns_refl [simp]: "same_conns d d"
  and same_conns_trans [trans]: "same_conns a b \<Longrightarrow> same_conns b c \<Longrightarrow> same_conns a c"
  by (simp_all add: same_conns_def)

lemma put_rq_conns [simp]: "same_conns d (put_rq p st d)"
  by (auto simp: same_conns_def get_conn_lockless_def put_rq_def split: option.splits)

lemma backlog_conns: "same_conns d (d\<lparr>conn_backlog := b\<rparr>)"
  by (auto simp: same_conns_def get_conn_lockless_def split: option.splits)

lemma disp_recall_conns: "disp_recall c d = Inr d' \<Longrightarrow> same_conns d d'"
  by (auto simp: disp_recall_def Let_def rbind_eq_Inr split: if_splits)

lemma conn_post_chunks_conns: "conn_post_chunks bufs ret bad num c d = Inr d' \<Longrightarrow> same_conns d d'"
  by (auto simp: conn_post_chunks_def disp_post_chunks_def rbind_eq_Inr split: option.splits
    intro: same_conns_trans [OF put_rq_conns backlog_conns])

definition delivered :: "disp \<Rightarrow> wc \<Rightarrow> (ptr \<times> wc) list" where
  "delivered d r = (if conn_of d r = nullptr then [] else [(conn_of d r, r)])"

lemma rx_one_delivers:
  assumes "rx_one b ret r polled d = Inr (polled', d')"
  shows "same_conns d d' \<and> polled' = polled @ delivered d r"
proof -
  obtain c where c: "get_conn_lockless (wc_qp_num r) d = Inr c"
    using assms by (auto simp: rx_one_def rbind_eq_Inr)
  show ?thesis
    using assms
    by (auto simp: rx_one_def rbind_eq_Inr Let_def c delivered_def conn_of_def split: if_splits
      intro: disp_recall_conns conn_post_chunks_conns same_conns_trans [OF conn_post_chunks_conns put_rq_conns])
qed

lemma conn_of_same: "same_conns d d' \<Longrightarrow> delivered d' = delivered d"
  by (simp add: same_conns_def delivered_def conn_of_def fun_eq_iff)

lemma rx_loop_delivers:
  "rx_loop cqe polled d = Inr (polled', d') \<Longrightarrow>
   same_conns d d' \<and> polled' = polled @ concat (map (\<lambda>(b, ret, r). delivered d r) cqe)"
proof (induction cqe polled d rule: rx_loop.induct)
  case (2 b ret r rs polled d)
  obtain p1 d1 where 1: "rx_one b ret r polled d = Inr (p1, d1)" "rx_loop rs p1 d1 = Inr (polled', d')"
    using "2.prems" by (auto simp: rbind_eq_Inr)
  note a = rx_one_delivers [OF 1(1)]
  have "same_conns d1 d' \<and> polled' = p1 @ concat (map (\<lambda>(b, ret, r). delivered d1 r) rs)"
    using "2.IH" [OF 1(2)] .
  then show ?case using a conn_of_same [of d d1] same_conns_trans by auto
qed simp

lemma pass_polled_wc:
  "conn_wc (pass_polled polled d) c = conn_wc d c @ map snd (filter (\<lambda>x. fst x = c) polled)"
proof -
  have f: "conn_wc (foldl (\<lambda>d c. pass_wc c (g c) d) d cs) c = conn_wc d c @ (if c \<in> set cs then g c else [])"
    if "distinct cs" for g cs d
    using that by (induction cs arbitrary: d) (auto simp: pass_wc_def)
  have "filter (\<lambda>x. fst x = c) polled = []" if "c \<notin> fst ` set polled"
    using that by (auto simp: filter_empty_conv)
  then show ?thesis by (auto simp: pass_polled_def f)
qed

text \<open>C25: Receive completions are delivered to the right socket, in order and without loss: when
  \<open>handle_rx_event\<close> returns, the queue of every socket has grown by exactly the completions of its
  own queue pair, in the order the hardware reported them.\<close>

theorem handle_rx_event_in_order:
  assumes "handle_rx_event cqe d = Inr d'" and "c \<noteq> nullptr"
  shows "conn_wc d' c = conn_wc d c @ filter (\<lambda>r. conn_of d r = c) (map (\<lambda>(b, ret, r). r) cqe)"
proof -
  obtain polled d1 where 1: "rx_loop cqe [] d = Inr (polled, d1)" "d' = pass_polled polled d1"
    using assms(1) by (auto simp: handle_rx_event_def rbind_eq_Inr)
  have "map snd (filter (\<lambda>x. fst x = c) (concat (map (\<lambda>(b, ret, r). delivered d r) cqe))) =
      filter (\<lambda>r. conn_of d r = c) (map (\<lambda>(b, ret, r). r) cqe)"
    using assms(2) by (induction cqe) (auto simp: delivered_def)
  then show ?thesis using rx_loop_delivers [OF 1(1)] by (simp add: 1(2) pass_polled_wc same_conns_def)
qed

theorem handle_rx_event_in_order_witness:
  "\<exists>d'. handle_rx_event [(101, 0, \<lparr>wc_wr_id = 100, wc_qp_num = 17, wc_status = 0, wc_byte_len = 8, wc_recv = True\<rparr>)] example_disp = Inr d' \<and>
     conn_wc d' 9 = [\<lparr>wc_wr_id = 100, wc_qp_num = 17, wc_status = 0, wc_byte_len = 8, wc_recv = True\<rparr>]"
proof -
  let ?r = "\<lparr>wc_wr_id = 100, wc_qp_num = 17, wc_status = 0, wc_byte_len = 8, wc_recv = True\<rparr> :: wc"
  obtain d' where d': "handle_rx_event [(101, 0, ?r)] example_disp = Inr d'"
    by (simp add: handle_rx_event_def rx_one_def get_conn_lockless_def get_qp_lockless_def example_disp_def example_qp_facts
      IBV_WC_SUCCESS_def conn_post_chunks_def disp_post_chunks_def post_chunks_to_rq_def get_rq_def put_rq_def add_rq_wr_def
      chunk_set_qp_def qp_srq_def remove_rq_wr_def Let_def)
  then show ?thesis using handle_rx_event_in_order [OF d', of 9]
    by (simp add: conn_of_def get_conn_lockless_def example_disp_def disp_new_def example_qp_facts)
qed

end
