(* ===== verification/BufferList.thy ===== *)
theory BufferList
  imports Prelude
begin

text \<open>
  Slices of user memory (\<open>Buffer\<close> and \<open>BufferList\<close> in \<open>src/src/common/buffer.h\<close>): a buffer is a start
  pointer, a cursor and a length; a list of buffers caches the sum of the remaining lengths.
\<close>

section \<open>Buffers\<close>

record buf =
  b_start :: ptr
  b_cur :: ptr
  b_len :: u32
  is_malloc :: bool

definition buf_empty :: buf where
  "buf_empty = \<lparr>b_start = nullptr, b_cur = nullptr, b_len = 0, is_malloc = False\<rparr>"

text \<open>The allocating constructor: \<open>malloc\<close> gets \<open>sizeof (size)\<close> bytes, four, whatever the size is. The
  second component is the number of bytes allocated.\<close>

definition buf_malloc :: "ptr \<Rightarrow> u32 \<Rightarrow> buf \<times> nat" where
  "buf_malloc p sz = (\<lparr>b_start = p, b_cur = p, b_len = sz, is_malloc = True\<rparr>, 4)"

definition buf_of :: "ptr \<Rightarrow> u32 \<Rightarrow> buf" where
  "buf_of p n = \<lparr>b_start = p, b_cur = p, b_len = n, is_malloc = False\<rparr>"

definition buf_copy :: "buf \<Rightarrow> buf" where
  "buf_copy b = \<lparr>b_start = b_start b, b_cur = b_cur b, b_len = b_len b, is_malloc = False\<rparr>"

definition GetRemainingLen :: "buf \<Rightarrow> u32" where
  "GetRemainingLen b = of_int (int (unat (b_len b)) - (int (b_cur b) - int (b_start b)))"

definition buf_Move :: "u32 \<Rightarrow> buf \<Rightarrow> u32 \<times> buf" where
  "buf_Move sz b =
     (let prev = b_cur b; en = b_start b + unat (b_len b);
          cur' = (if en > b_cur b + unat sz then b_cur b + unat sz else en)
      in (if cur' = en then 0 else sz - of_int (int cur' - int prev), b\<lparr>b_cur := cur'\<rparr>))"

section \<open>Buffer lists\<close>

record buffer_list =
  bl_bufs :: "buf list"
  bl_len :: u32

definition bl_new :: buffer_list where
  "bl_new = \<lparr>bl_bufs = [], bl_len = 0\<rparr>"

definition bl_of :: "buf \<Rightarrow> buffer_list" where
  "bl_of b = \<lparr>bl_bufs = [buf_copy b], bl_len = GetRemainingLen b\<rparr>"

definition bl_Append :: "buf \<Rightarrow> buffer_list \<Rightarrow> buffer_list" where
  "bl_Append b bl = bl\<lparr>bl_bufs := bl_bufs bl @ [buf_copy b], bl_len := bl_len bl + GetRemainingLen b\<rparr>"

definition bl_AppendList :: "buffer_list \<Rightarrow> buffer_list \<Rightarrow> buffer_list" where
  "bl_AppendList other bl = foldl (\<lambda>l b. bl_Append b l) bl (bl_bufs other)"

lemma buf_Move_zero: "fst (buf_Move sz b) = 0"
  by (auto simp: buf_Move_def Let_def)

text \<open>The loop of \<open>Move\<close>; it ends because \<open>Buffer::Move\<close> always returns 0.\<close>

function bl_move_loop :: "u32 \<Rightarrow> buf list \<Rightarrow> u32 \<Rightarrow> (u32 \<times> buf list \<times> u32) result" where
  "bl_move_loop sz [] len = Inr (sz, [], len)"
| "bl_move_loop sz (b # bs) len =
     (if sz = 0 then Inr (sz, b # bs, len)
      else let sz' = fst (buf_Move sz b); b' = snd (buf_Move sz b) in
        if len > sz - sz' then
          bl_move_loop sz' (if GetRemainingLen b' = 0 then bs else b' # bs) (len - (sz - sz'))
        else Inl KAssert)"
  by pat_completeness auto
termination
  by (relation "measures [\<lambda>(sz, bs, len). if sz = 0 then 0 else 1, \<lambda>(sz, bs, len). length bs]") (auto simp: buf_Move_zero)

definition bl_Move :: "u32 \<Rightarrow> buffer_list \<Rightarrow> (u32 \<times> buffer_list) result" where
  "bl_Move sz bl = rbind (bl_move_loop sz (bl_bufs bl) (bl_len bl)) (\<lambda>(sz', bs, len). Inr (sz', bl\<lparr>bl_bufs := bs, bl_len := len\<rparr>))"

definition GetSize :: "buffer_list \<Rightarrow> u32" where
  "GetSize bl = of_nat (length (bl_bufs bl))"

definition get_len :: "buffer_list \<Rightarrow> u32" where
  "get_len bl = bl_len bl"

definition GetNBuffer :: "u8 \<Rightarrow> buffer_list \<Rightarrow> buf result" where
  "GetNBuffer n bl = (if bl_bufs bl = [] then Inl DivByZero else Inr (bl_bufs bl ! (unat n mod length (bl_bufs bl))))"

definition DeleteNBuffer :: "u8 \<Rightarrow> buffer_list \<Rightarrow> buffer_list result" where
  "DeleteNBuffer n bl =
     (if bl_bufs bl = [] then Inl DivByZero
      else let i = unat n mod length (bl_bufs bl) in Inr (bl\<lparr>bl_bufs := take i (bl_bufs bl) @ drop (Suc i) (bl_bufs bl)\<rparr>))"

definition bl_Clear :: "buffer_list \<Rightarrow> buffer_list" where
  "bl_Clear bl = bl\<lparr>bl_bufs := []\<rparr>"

section \<open>The cached length\<close>

definition bl_ok :: "buffer_list \<Rightarrow> bool" where
  "bl_ok bl \<longleftrightarrow> bl_len bl = sum_list (map GetRemainingLen (bl_bufs bl))"

lemma GetRemainingLen_copy [simp]: "GetRemainingLen (buf_copy b) = GetRemainingLen b"
  by (simp add: GetRemainingLen_def buf_copy_def)

lemma bl_Append_ok: "bl_ok bl \<Longrightarrow> bl_ok (bl_Append b bl)"
  by (simp add: bl_ok_def bl_Append_def)

lemma bl_AppendList_eq:
  "bl_AppendList o1 bl = \<lparr>bl_bufs = bl_bufs bl @ map buf_copy (bl_bufs o1), bl_len = bl_len bl + sum_list (map GetRemainingLen (bl_bufs o1))\<rparr>"
proof -
  have "foldl (\<lambda>l b. bl_Append b l) bl bs =
      \<lparr>bl_bufs = bl_bufs bl @ map buf_copy bs, bl_len = bl_len bl + sum_list (map GetRemainingLen bs)\<rparr>" for bs
    by (induction bs arbitrary: bl) (simp_all add: bl_Append_def)
  then show ?thesis by (simp add: bl_AppendList_def)
qed

definition buf_ok :: "buf \<Rightarrow> bool" where
  "buf_ok b \<longleftrightarrow> b_start b \<le> b_cur b \<and> b_cur b \<le> b_start b + unat (b_len b)"

lemma unat_GetRemainingLen:
  assumes "buf_ok b"
  shows "unat (GetRemainingLen b) = b_start b + unat (b_len b) - b_cur b"
proof -
  have "int (unat (b_len b)) - (int (b_cur b) - int (b_start b)) = int (b_start b + unat (b_len b) - b_cur b)"
    using assms by (simp add: buf_ok_def)
  moreover have "b_start b + unat (b_len b) - b_cur b < 4294967296"
    using assms unat_less_u32 [of "b_len b"] unfolding buf_ok_def by linarith
  ultimately show ?thesis
    unfolding GetRemainingLen_def by (metis of_int_of_nat_eq unat_of_nat_u32)
qed

lemma buf_Move_ok: "buf_ok b \<Longrightarrow> buf_ok (snd (buf_Move sz b))"
  by (auto simp: buf_Move_def Let_def buf_ok_def)

section \<open>Properties\<close>

text \<open>Building a list by appending keeps its length exact: after any sequence of appended buffers and
  appended lists, \<open>get_len\<close> is the sum of the remaining bytes of the buffers in the list (modulo
  \<open>2 ^ 32\<close>), which are the appended ones in order.\<close>

theorem bl_append_len:
  assumes "bl_ok bl" and "bl_ok other"
  shows "bl_ok (bl_Append b (bl_AppendList other bl)) \<and>
    get_len (bl_AppendList other bl) = get_len bl + get_len other \<and>
    map b_cur (bl_bufs (bl_Append b (bl_AppendList other bl))) = map b_cur (bl_bufs bl) @ map b_cur (bl_bufs other) @ [b_cur b]"
proof -
  have "bl_ok (bl_AppendList other bl)" using assms by (simp add: bl_AppendList_eq bl_ok_def comp_def)
  moreover have "b_cur (buf_copy x) = b_cur x" for x by (simp add: buf_copy_def)
  ultimately show ?thesis using assms
    by (simp add: bl_Append_ok bl_AppendList_eq get_len_def bl_ok_def comp_def) (simp add: bl_Append_def comp_def)
qed

theorem bl_append_len_witness:
  "get_len (bl_AppendList (bl_of (buf_of 100 8)) (bl_of (buf_of 200 4))) = 12"
proof -
  have "bl_ok (bl_of b)" for b by (simp add: bl_ok_def bl_of_def)
  then have "get_len (bl_AppendList (bl_of (buf_of 100 8)) (bl_of (buf_of 200 4))) =
      get_len (bl_of (buf_of 200 4)) + get_len (bl_of (buf_of 100 8))"
    using bl_append_len by blast
  then show ?thesis by (simp add: get_len_def bl_of_def GetRemainingLen_def buf_of_def)
qed

text \<open>\<open>BufferList::Move\<close> cannot move across a buffer: since \<open>Buffer::Move\<close> always reports that
  nothing is left, only the first buffer advances, while the cached length falls by the whole
  amount. Moving more than the first buffer holds therefore leaves a list whose length is wrong,
  and moving everything aborts.\<close>

theorem bl_move_first_only:
  assumes "bl_ok bl" and "bl_bufs bl = b # bs" and "buf_ok b" and "sz \<noteq> 0" and "GetRemainingLen b < sz" and "sz < bl_len bl"
  shows "\<exists>bl'. bl_Move sz bl = Inr (0, bl') \<and> bl_bufs bl' = bs \<and> bl_len bl' = bl_len bl - sz \<and> \<not> bl_ok bl' \<and>
    bl_Move (bl_len bl) bl = Inl KAssert"
proof -
  let ?b = "snd (buf_Move sz b)"
  have "unat (GetRemainingLen b) < unat sz" using assms(5) by (simp add: word_less_nat_alt)
  then have "b_start b + unat (b_len b) - b_cur b < unat sz" using unat_GetRemainingLen [OF assms(3)] by simp
  then have "b_cur ?b = b_start ?b + unat (b_len ?b)"
    using assms(3) by (auto simp: buf_Move_def Let_def buf_ok_def)
  then have g: "GetRemainingLen ?b = 0" by (simp add: GetRemainingLen_def)
  have nz: "bl_move_loop 0 bs l = Inr (0, bs, l)" for l by (cases bs) simp_all
  have "bl_Move sz bl = Inr (0, bl\<lparr>bl_bufs := bs, bl_len := bl_len bl - sz\<rparr>)"
    using assms(2,4,6) g nz by (simp add: bl_Move_def buf_Move_zero)
  moreover have "\<not> bl_ok (bl\<lparr>bl_bufs := bs, bl_len := bl_len bl - sz\<rparr>)"
    using assms(1,2,5) by (auto simp: bl_ok_def)
  moreover have "bl_Move (bl_len bl) bl = Inl KAssert"
    using assms(2,6) by (auto simp: bl_Move_def buf_Move_zero)
  ultimately show ?thesis by simp
qed

theorem bl_move_first_only_witness:
  "\<exists>bl'. bl_Move 10 (bl_AppendList (bl_of (buf_of 100 8)) (bl_of (buf_of 200 4))) = Inr (0, bl') \<and> \<not> bl_ok bl'"
  using bl_move_first_only [of "bl_AppendList (bl_of (buf_of 100 8)) (bl_of (buf_of 200 4))" "buf_of 200 4" "[buf_of 100 8]" 10]
  by (auto simp: bl_AppendList_eq bl_ok_def bl_of_def GetRemainingLen_def buf_of_def buf_copy_def buf_ok_def)

end
