(* ===== verification/ConnSocket.thy ===== *)
theory ConnSocket
  imports Dispatcher BufferList
begin

text \<open>
  The connected socket (\<open>RDMAConnectedSocketImpl\<close> in \<open>src/src/core/RDMAConnectedSocketImpl.cc\<close> and
  \<open>RDMAStack.h\<close>): the handshake over TCP, reading from receive chunks, sending from registered
  chunks, the backlog of receive buffers, faults and shutdown. The results of system and verbs calls
  are arguments; registrations with the event centre and posted sends are logged.
\<close>

section \<open>State\<close>

datatype sock_event = CreateEvent int bool bool | DeleteEvent int

record csock =
  s_connected :: int
  s_error :: int
  is_server :: bool
  s_active :: bool
  s_pending :: bool
  post_backlog :: int
  post_calls :: nat
  s_wc :: "wc list"
  s_buffers :: "ptr list"
  s_chunks :: "ptr \<Rightarrow> chunk"
  s_recalled :: "ptr list"
  pending_bl :: buffer_list
  s_sent :: "(nat \<times> u32) list"
  tcp_fd :: int
  notify_fd :: int
  s_local_qpn :: u32
  s_peer_qpn :: u32
  s_qp :: queue_pair
  s_qp_ptr :: ptr
  s_tx :: cluster
  read_handler :: bool
  established_handler :: bool
  s_events :: "sock_event list"
  notifies :: nat
  closed_fds :: "int list"

definition ECONNRESET :: int where "ECONNRESET = 104"
definition EPIPE :: int where "EPIPE = 32"

definition notify :: "int \<Rightarrow> csock \<Rightarrow> csock result" where
  "notify r s = kassert (r = 0) (Inr (s\<lparr>notifies := notifies s + 1\<rparr>))"

definition fault :: "int \<Rightarrow> csock \<Rightarrow> csock result" where
  "fault r s = notify r (s\<lparr>s_error := ECONNRESET, s_connected := 1\<rparr>)"

section \<open>Sending\<close>

text \<open>The scatter-gather list of one send: the chunk and the bytes written to it. With no chunk the
  arrays have length zero, and the verbs call reads past them. \<open>r\<close> is what \<open>ibv_post_send\<close> returns.\<close>

definition post_work_request :: "u32 \<Rightarrow> int \<Rightarrow> nat list \<Rightarrow> csock \<Rightarrow> (int \<times> csock) result" where
  "post_work_request r errno chunks s =
     (if chunks = [] then Inl OutOfBounds
      else if r \<noteq> 0 then Inr (- errno, s)
      else Inr (0, s\<lparr>s_sent := s_sent s @ map (\<lambda>i. (i, get_offset (chunk_arr (s_tx s) ! i))) chunks\<rparr>))"

fun collect_chunks :: "buf list \<Rightarrow> cluster \<Rightarrow> nat list result" where
  "collect_chunks [] cl = Inr []"
| "collect_chunks (b # bs) cl =
     kassert (is_my_buffer (b_cur b) cl)
       (rbind (get_chunk_by_buffer (b_cur b) cl) (\<lambda>i.
        rbind (collect_chunks bs cl) (\<lambda>is. Inr (unat i # is))))"

definition submit :: "u32 \<Rightarrow> int \<Rightarrow> csock \<Rightarrow> (int \<times> csock) result" where
  "submit r errno s =
     (if s_error s \<noteq> 0 then Inr (- s_error s, s)
      else if get_len (pending_bl s) = 0 then Inr (0, s)
      else rbind (collect_chunks (bl_bufs (pending_bl s)) (s_tx s)) (\<lambda>chunks.
        rbind (post_work_request r errno chunks s) (\<lambda>(rc, s1).
          let s2 = s1\<lparr>pending_bl := bl_Clear (pending_bl s1)\<rparr> in
          if rc < 0 then Inr (rc, s2)
          else Inr (if get_len (pending_bl s2) \<noteq> 0 then - EAGAIN else 0, s2))))"

definition send_bl :: "u32 \<Rightarrow> int \<Rightarrow> buffer_list \<Rightarrow> csock \<Rightarrow> (int \<times> csock) result" where
  "send_bl r errno bl s =
     (if s_error s \<noteq> 0 then Inr (if \<not> s_active s then - EPIPE else - s_error s, s)
      else let n = get_len bl in
        if n = 0 then Inr (0, s)
        else let s1 = s\<lparr>pending_bl := bl_AppendList bl (pending_bl s)\<rparr> in
          if s_connected s1 = 0 then Inr (uint n, s1)
          else rbind (submit r errno s1) (\<lambda>(rc, s2).
            if rc < 0 \<and> rc \<noteq> - EAGAIN then Inr (rc, s2) else Inr (uint n, s2)))"

definition send_chunks :: "u32 \<Rightarrow> int \<Rightarrow> nat list \<Rightarrow> csock \<Rightarrow> (int \<times> csock) result" where
  "send_chunks r errno chunks s =
     (if s_connected s = 0 then Inr (- 1, s)
      else rbind (post_work_request r errno chunks s) (\<lambda>(rc, s1). Inr (0, s1)))"

text \<open>\<open>fin\<close> posts an empty send whose identifier is the queue pair; a socket whose queue pair could not be created has a null pointer there.\<close>

definition fin :: "int \<Rightarrow> csock \<Rightarrow> csock result" where
  "fin r s =
     (if s_qp_ptr s = nullptr then Inl NullDeref
      else Inr (s\<lparr>s_qp := log_verb (PostSend \<lparr>wr_id = of_nat (s_qp_ptr s), wr_signaled = True\<rparr> r) (s_qp s)\<rparr>))"

definition shutdown :: "int \<Rightarrow> csock \<Rightarrow> csock result" where
  "shutdown r s = rbind (if s_error s = 0 then fin r s else Inr s) (\<lambda>s1. Inr (s1\<lparr>s_error := ECONNRESET, s_active := False\<rparr>))"

definition close :: "int \<Rightarrow> csock \<Rightarrow> csock result" where
  "close r s = rbind (if s_error s = 0 then fin r s else Inr s) (\<lambda>s1. Inr (s1\<lparr>s_error := ECONNRESET, s_active := False\<rparr>))"

section \<open>The backlog of receive buffers\<close>

text \<open>\<open>env k\<close> is what the receive pool and the verbs call answer at the \<open>k\<close>-th call.\<close>

type_synonym rx_env = "nat \<Rightarrow> (nat \<Rightarrow> ptr) \<times> int \<times> nat"

definition sock_post :: "rx_env \<Rightarrow> int \<Rightarrow> csock \<Rightarrow> (int \<times> csock) result" where
  "sock_post env num s =
     (let (bs, ret, bad) = env (post_calls s); q = s_qp s in
      rbind (post_chunks_to_rq bs (srq q) (unat (temp_wr_len q)) ret bad num (Some (s_qp_ptr s)) (rq q)) (\<lambda>(n, rq').
        Inr (n, s\<lparr>s_qp := q\<lparr>rq := rq'\<rparr>, post_calls := post_calls s + 1\<rparr>)))"

definition sock_post_chunks_to_rq :: "rx_env \<Rightarrow> int \<Rightarrow> csock \<Rightarrow> csock result" where
  "sock_post_chunks_to_rq env num s =
     rbind (sock_post env num s) (\<lambda>(n, s1). Inr (s1\<lparr>post_backlog := post_backlog s1 + (num - n)\<rparr>))"

definition update_post_backlog :: "rx_env \<Rightarrow> csock \<Rightarrow> csock result" where
  "update_post_backlog env s =
     (if post_backlog s \<noteq> 0 then
        rbind (sock_post env (post_backlog s) s) (\<lambda>(n, s1).
          Inr (s1\<lparr>post_backlog := post_backlog s1 - (post_backlog s1 - n)\<rparr>))
      else Inr s)"

section \<open>Receiving\<close>

definition sock_recall :: "ptr \<Rightarrow> csock \<Rightarrow> csock" where
  "sock_recall c s = s\<lparr>s_chunks := (s_chunks s)(c := clear_qp (s_chunks s c)), s_recalled := s_recalled s @ [c]\<rparr>"

definition sock_pass_wc :: "wc list \<Rightarrow> csock \<Rightarrow> csock" where
  "sock_pass_wc v s = s\<lparr>s_wc := s_wc s @ v\<rparr>"

text \<open>One completion of \<open>buffer_prefetch\<close>: an empty message is the peer's close.\<close>

definition prefetch_one :: "wc \<Rightarrow> csock \<Rightarrow> csock result" where
  "prefetch_one r s =
     kassert (wc_status r = IBV_WC_SUCCESS)
       (let c = wc_wr_id r; s1 = s\<lparr>s_chunks := (s_chunks s)(c := prepare_read (wc_byte_len r) (s_chunks s c))\<rparr> in
        if get_size (s_chunks s1 c) = 0 then
          let s2 = s1\<lparr>s_chunks := (s_chunks s1)(c := reset_read_chunk (s_chunks s1 c))\<rparr>;
              s3 = (if s_connected s2 \<noteq> 0 then s2\<lparr>s_error := ECONNRESET\<rparr> else s2)
          in Inr (sock_recall c s3)
        else Inr (s1\<lparr>s_buffers := s_buffers s1 @ [c]\<rparr>))"

fun prefetch_loop :: "wc list \<Rightarrow> csock \<Rightarrow> csock result" where
  "prefetch_loop [] s = Inr s"
| "prefetch_loop (r # rs) s = rbind (prefetch_one r s) (prefetch_loop rs)"

definition buffer_prefetch :: "csock \<Rightarrow> csock result" where
  "buffer_prefetch s = prefetch_loop (s_wc s) (s\<lparr>s_wc := []\<rparr>)"

fun drain_loop :: "rx_env \<Rightarrow> wc list \<Rightarrow> csock \<Rightarrow> csock result" where
  "drain_loop env [] s = Inr s"
| "drain_loop env (r # rs) s =
     kassert (wc_status r = IBV_WC_SUCCESS)
       (rbind (update_post_backlog env (sock_recall (wc_wr_id r) s)) (drain_loop env rs))"

definition drain :: "rx_env \<Rightarrow> csock \<Rightarrow> csock result" where
  "drain env s = drain_loop env (s_wc s) (s\<lparr>s_wc := []\<rparr>)"

text \<open>The loop over the chunks to read; \<open>ps\<close> are the chunks from the iterator on. The remaining length
  is cut to 32 bits when it is passed to \<open>zero_read\<close>. \<open>None\<close>: the loop does not end.\<close>

partial_function (option) read_loop ::
  "rx_env \<Rightarrow> u64 \<Rightarrow> ptr list \<Rightarrow> u64 \<Rightarrow> csock \<Rightarrow> (u64 \<times> ptr list \<times> csock) result option" where
  "read_loop env len ps read_size s =
     (case ps of
        [] \<Rightarrow> Some (Inr (read_size, [], s))
      | c # cs \<Rightarrow>
          let (tmp, ch) = zero_read (ucast (len - read_size)) (s_chunks s c);
              s1 = s\<lparr>s_chunks := (s_chunks s)(c := ch)\<rparr>;
              read1 = read_size + ucast tmp
          in (case (if get_size ch = 0
                    then rbind (update_post_backlog env (sock_recall c
                            (s1\<lparr>s_chunks := (s_chunks s1)(c := reset_read_chunk ch)\<rparr>)))
                           (\<lambda>s2. Inr (cs, s2))
                    else Inr (ps, s1)) of
                Inl f \<Rightarrow> Some (Inl f)
              | Inr (ps', s2) \<Rightarrow>
                  if read1 = len then Some (Inr (read1, ps', s2)) else read_loop env len ps' read1 s2))"

definition read_buffers :: "rx_env \<Rightarrow> u64 \<Rightarrow> csock \<Rightarrow> (u64 \<times> csock) result option" where
  "read_buffers env len s =
     (case buffer_prefetch s of
        Inl f \<Rightarrow> Some (Inl f)
      | Inr s1 \<Rightarrow>
          Option.bind (read_loop env len (s_buffers s1) 0 s1) (\<lambda>res.
            Some (rbind res (\<lambda>(n, ps, s2). Inr (n, s2\<lparr>s_buffers := ps\<rparr>)))))"

text \<open>Dropping the handlers.\<close>

definition cleanup :: "csock \<Rightarrow> csock" where
  "cleanup s =
     (let s1 = (if read_handler s \<and> 0 \<le> tcp_fd s
                then s\<lparr>read_handler := False, s_events := s_events s @ [DeleteEvent (tcp_fd s)]\<rparr> else s)
      in if established_handler s1 then s1\<lparr>established_handler := False\<rparr> else s1)"

text \<open>\<open>read\<close>; \<open>r\<close>, \<open>errno\<close> are for the possible submit and \<open>nr\<close> for the event descriptor.\<close>

definition sock_read :: "rx_env \<Rightarrow> u32 \<Rightarrow> int \<Rightarrow> int \<Rightarrow> u64 \<Rightarrow> csock \<Rightarrow> (int \<times> csock) result option" where
  "sock_read env r errno nr len s =
     (if \<not> s_active s then Some (Inr (- EAGAIN, s))
      else if s_connected s = 0 \<and> \<not> is_server s then Some (Inr (- EAGAIN, s))
      else Option.bind (read_buffers env len s) (\<lambda>res.
        Some (rbind res (\<lambda>(n, s1).
          rbind (if is_server s1 \<and> s_connected s1 = 0
                 then rbind (submit r errno (cleanup (s1\<lparr>s_connected := 1\<rparr>))) (\<lambda>(_, s'). Inr s') else Inr s1) (\<lambda>s2.
          rbind (if s_buffers s2 \<noteq> [] then notify nr s2 else Inr s2) (\<lambda>s3.
            if n = 0 \<and> s_error s3 \<noteq> 0 then Inr (- s_error s3, s3)
            else Inr (if n = 0 then - EAGAIN else sint n, s3)))))))"

section \<open>The handshake\<close>

text \<open>What the TCP socket delivers and accepts, and the verbs results of one activation.\<close>

record net_env =
  rd_n :: int
  rd_errno :: int
  rd_msg :: string
  rd_junk :: string
  rd_v32 :: u32
  wr_junk :: string
  wr_res :: "nat \<Rightarrow> int \<times> int"
  v_rtr :: int
  v_rts :: int
  v_post :: u32
  v_errno :: int
  v_notify :: int

definition activate :: "config \<Rightarrow> nat \<Rightarrow> net_env \<Rightarrow> csock \<Rightarrow> (int \<times> csock) result" where
  "activate cfg gidx e s =
     (let q0 = (s_qp s)\<lparr>local_cm_meta := (local_cm_meta (s_qp s))\<lparr>cm_peer_qpn := cm_local_qpn (peer_cm_meta (s_qp s))\<rparr>\<rparr>;
          (rc1, q1) = modify_qp_to_rtr cfg gidx (v_rtr e) q0 in
      if rc1 \<noteq> 0 then Inr (- 1, s\<lparr>s_qp := q1\<rparr>)
      else let (rc2, q2) = modify_qp_to_rts (v_rts e) q1 in
        if rc2 \<noteq> 0 then Inr (- 1, s\<lparr>s_qp := q2\<rparr>)
        else let s1 = s\<lparr>s_qp := q2\<rparr> in
          rbind (if \<not> is_server s1 then rbind (submit (v_post e) (v_errno e) (s1\<lparr>s_connected := 1\<rparr>)) (\<lambda>(_, s'). Inr s')
                 else Inr s1) (\<lambda>s2.
            Inr (0, s2\<lparr>s_active := True, s_peer_qpn := cm_peer_qpn (local_cm_meta (s_qp s2))\<rparr>)))"

text \<open>Sending the handshake message of the queue pair: the return code and the message.\<close>

definition sock_send_meta :: "config \<Rightarrow> net_env \<Rightarrow> csock \<Rightarrow> (int \<times> string) result" where
  "sock_send_meta cfg e s = send_cm_meta (m_mc_group cfg) (wr_junk e) (wr_res e) (local_cm_meta (s_qp s))"

definition handle_connection_established :: "config \<Rightarrow> net_env \<Rightarrow> bool \<Rightarrow> csock \<Rightarrow> (int \<times> string option \<times> csock) result" where
  "handle_connection_established cfg e need_set_fault s =
     (let s0 = s\<lparr>s_events := s_events s @ [DeleteEvent (tcp_fd s)]\<rparr> in
      if s_connected s0 = 1 then
        rbind (if need_set_fault then fault (v_notify e) s0 else Inr s0) (\<lambda>s1. Inr (- 1, None, s1))
      else
        let s1 = s0\<lparr>s_qp := (s_qp s0)\<lparr>local_cm_meta := (local_cm_meta (s_qp s0))\<lparr>cm_peer_qpn := 0\<rparr>\<rparr>\<rparr> in
        rbind (sock_send_meta cfg e s1) (\<lambda>(r, msg).
          if r < 0 then
            rbind (if need_set_fault then fault (v_notify e) s1 else Inr s1) (\<lambda>s2. Inr (r, None, s2))
          else Inr (0, Some msg, s1\<lparr>s_events := s_events s1 @ [CreateEvent (tcp_fd s1) True False]\<rparr>)))"

text \<open>The message sent, if any, is part of the result.\<close>

definition handle_connection :: "config \<Rightarrow> nat \<Rightarrow> net_env \<Rightarrow> csock \<Rightarrow> (string option \<times> csock) result" where
  "handle_connection cfg gidx e s =
     rbind (recv_cm_meta (rd_n e) (rd_errno e) (rd_msg e) (rd_junk e) (rd_v32 e) (peer_cm_meta (s_qp s))) (\<lambda>(r, m).
       let s0 = s\<lparr>s_qp := (s_qp s)\<lparr>peer_cm_meta := m\<rparr>\<rparr> in
       if r \<le> 0 then
         (if r \<noteq> - EAGAIN then rbind (fault (v_notify e) s0) (\<lambda>s1. Inr (None, s1)) else Inr (None, s0))
       else if s_connected s0 = 1 then rbind (fault (v_notify e) s0) (\<lambda>s1. Inr (None, s1))
       else if \<not> is_server s0 then
         rbind (if s_connected s0 = 0 then activate cfg gidx e s0 else Inr (0, s0)) (\<lambda>(rc, s1).
           kassert (s_connected s0 \<noteq> 0 \<or> rc = 0)
             (rbind (notify (v_notify e) s1) (\<lambda>s2.
              rbind (sock_send_meta cfg e s2) (\<lambda>(r2, msg).
                if r2 < 0 then rbind (fault (v_notify e) s2) (\<lambda>s3. Inr (None, s3)) else Inr (Some msg, s2)))))
       else if cm_peer_qpn (peer_cm_meta (s_qp s0)) = 0 then
         (if s_active s0 then Inr (None, s0)
          else rbind (activate cfg gidx e s0) (\<lambda>(rc, s1).
            kassert (rc = 0)
              (rbind (sock_send_meta cfg e s1) (\<lambda>(r2, msg).
                if r2 < 0 then rbind (fault (v_notify e) s1) (\<lambda>s2. Inr (None, s2)) else Inr (Some msg, s1)))))
       else
         rbind (submit (v_post e) (v_errno e) (s0\<lparr>s_connected := 1\<rparr>)) (\<lambda>(_, s1).
         rbind (notify (v_notify e) s1) (\<lambda>s2. Inr (None, s2))))"

text \<open>\<open>fd\<close> is what the connect returned, \<open>e1\<close>, \<open>r2\<close>, \<open>e2\<close> its \<open>errno\<close> and the result and \<open>errno\<close> of
  setting the socket options.\<close>

definition try_connect :: "config \<Rightarrow> net_env \<Rightarrow> bool \<Rightarrow> int \<Rightarrow> int \<Rightarrow> int \<Rightarrow> int \<Rightarrow> csock \<Rightarrow> (int \<times> string option \<times> csock) result" where
  "try_connect cfg e nonblock fd e1 r2 e2 s =
     (let s1 = s\<lparr>tcp_fd := fd\<rparr> in
      if fd < 0 then Inr (- e1, None, s1)
      else if r2 < 0 then Inr (- e2, None, s1\<lparr>closed_fds := closed_fds s1 @ [fd], tcp_fd := - 1\<rparr>)
      else if nonblock then Inr (0, None, s1\<lparr>s_events := s_events s1 @ [CreateEvent fd True True]\<rparr>)
      else handle_connection_established cfg e False s1)"

definition set_accept_fd :: "int \<Rightarrow> csock \<Rightarrow> csock" where
  "set_accept_fd sd s = s\<lparr>tcp_fd := sd, is_server := True, s_events := s_events s @ [CreateEvent sd True False]\<rparr>"

text \<open>The constructor without the connection manager: \<open>q\<close> is the created queue pair, \<open>efd\<close> the event
  descriptor. Registering with the dispatcher is \<open>register_qp\<close>.\<close>

definition csock_new :: "queue_pair \<Rightarrow> ptr \<Rightarrow> int \<Rightarrow> cluster \<Rightarrow> (ptr \<Rightarrow> chunk) \<Rightarrow> csock" where
  "csock_new q p efd tx heap =
     \<lparr>s_connected = 0, s_error = 0, is_server = False, s_active = False, s_pending = False, post_backlog = 0, post_calls = 0,
      s_wc = [], s_buffers = [], s_chunks = heap, s_recalled = [], pending_bl = bl_new, s_sent = [], tcp_fd = - 1,
      notify_fd = efd, s_local_qpn = get_local_qp_number q, s_peer_qpn = 0, s_qp = q, s_qp_ptr = p, s_tx = tx,
      read_handler = True, established_handler = True, s_events = [], notifies = 0, closed_fds = []\<rparr>"

text \<open>The destructor: the completions and chunks that were not read go back, the descriptors are closed.
  \<open>schedule_qp_destroy\<close> and \<open>remove_pending_conn\<close> are calls to the dispatcher and the worker.\<close>

definition csock_destroy :: "csock \<Rightarrow> csock" where
  "csock_destroy s =
     (let s1 = cleanup s;
          s2 = foldl (\<lambda>s c. sock_recall c s) s1 (map wc_wr_id (s_wc s1));
          s3 = foldl (\<lambda>s c. sock_recall c s) s2 (s_buffers s2)
      in s3\<lparr>closed_fds := closed_fds s3 @ filter (\<lambda>fd. 0 \<le> fd) [notify_fd s3, tcp_fd s3], s_error := ECONNRESET\<rparr>)"


section \<open>The handshake succeeds\<close>

text \<open>An environment in which nothing fails, and the delivery of a message.\<close>

definition good_env :: "net_env \<Rightarrow> bool" where
  "good_env e \<longleftrightarrow> send_loop (wr_res e) 0 = 0 \<and> v_rtr e = 0 \<and> v_rts e = 0 \<and> v_notify e = 0"

definition deliver :: "string \<Rightarrow> net_env \<Rightarrow> net_env" where
  "deliver msg e = e\<lparr>rd_n := int TCP_MSG_LEN, rd_msg := msg\<rparr>"

text \<open>A socket before the handshake.\<close>

definition fresh_sock :: "csock \<Rightarrow> bool" where
  "fresh_sock s \<longleftrightarrow> s_connected s = 0 \<and> s_error s = 0 \<and> \<not> s_active s \<and> get_len (pending_bl s) = 0 \<and>
     length (cm_gid (local_cm_meta (s_qp s))) = 16"

lemma modify_rtr_frame:
  "local_cm_meta (snd (modify_qp_to_rtr cfg g r q)) = local_cm_meta q"
  "peer_cm_meta (snd (modify_qp_to_rtr cfg g r q)) = peer_cm_meta q"
  "fst (modify_qp_to_rtr cfg g r q) = (if r = 0 then 0 else - 1)"
  by (simp_all add: modify_qp_to_rtr_def Let_def)

lemma modify_rts_frame:
  "local_cm_meta (snd (modify_qp_to_rts r q)) = local_cm_meta q"
  "peer_cm_meta (snd (modify_qp_to_rts r q)) = peer_cm_meta q"
  "fst (modify_qp_to_rts r q) = (if r = 0 then 0 else - 1)"
  by (simp_all add: modify_qp_to_rts_def Let_def)

text \<open>The queue pair after an activation.\<close>

definition activated_qp :: "config \<Rightarrow> nat \<Rightarrow> queue_pair \<Rightarrow> queue_pair" where
  "activated_qp cfg gidx q =
     snd (modify_qp_to_rts 0 (snd (modify_qp_to_rtr cfg gidx 0
       (q\<lparr>local_cm_meta := (local_cm_meta q)\<lparr>cm_peer_qpn := cm_local_qpn (peer_cm_meta q)\<rparr>\<rparr>))))"

lemma activated_qp_meta [simp]:
  "local_cm_meta (activated_qp cfg g q) = (local_cm_meta q)\<lparr>cm_peer_qpn := cm_local_qpn (peer_cm_meta q)\<rparr>"
  "peer_cm_meta (activated_qp cfg g q) = peer_cm_meta q"
  by (simp_all add: activated_qp_def modify_rtr_frame modify_rts_frame)

lemma submit_empty: "s_error s = 0 \<Longrightarrow> get_len (pending_bl s) = 0 \<Longrightarrow> submit r e s = Inr (0, s)"
  by (simp add: submit_def)

lemma activate_ok:
  assumes "good_env e" and "s_error s = 0" and "get_len (pending_bl s) = 0"
  shows "activate cfg g e s = Inr (0, s\<lparr>s_qp := activated_qp cfg g (s_qp s), s_connected := (if is_server s then s_connected s else 1),
    s_active := True, s_peer_qpn := cm_local_qpn (peer_cm_meta (s_qp s))\<rparr>)"
  using assms
  by (cases "is_server s")
    (simp_all add: activate_def good_env_def Let_def case_prod_beta modify_rtr_frame modify_rts_frame submit_empty
      activated_qp_def [symmetric])

text \<open>The message a queue pair sends.\<close>

definition meta_msg :: "config \<Rightarrow> net_env \<Rightarrow> ib_cm_meta \<Rightarrow> string" where
  "meta_msg cfg e m = snd (projr (send_cm_meta (m_mc_group cfg) (wr_junk e) (wr_res e) m))"

lemma sock_send_meta_ok:
  "good_env e \<Longrightarrow> sock_send_meta cfg e s = Inr (0, meta_msg cfg e (local_cm_meta (s_qp s)))"
  using cm_msg_fits [of "m_mc_group cfg" "local_cm_meta (s_qp s)"]
  by (simp add: sock_send_meta_def meta_msg_def send_cm_meta_def Let_def good_env_def)

lemma recv_meta_msg:
  assumes "good_env e" and "length (cm_gid m) = 16"
  shows "recv_cm_meta (rd_n (deliver (meta_msg cfg e m) e')) (rd_errno (deliver (meta_msg cfg e m) e'))
    (rd_msg (deliver (meta_msg cfg e m) e')) (rd_junk (deliver (meta_msg cfg e m) e')) (rd_v32 (deliver (meta_msg cfg e m) e')) m0 =
    Inr (int TCP_MSG_LEN, m)"
proof -
  have "send_cm_meta (m_mc_group cfg) (wr_junk e) (wr_res e) m = Inr (0, meta_msg cfg e m)"
    using cm_msg_fits [of "m_mc_group cfg" m] assms(1) by (simp add: meta_msg_def send_cm_meta_def Let_def good_env_def)
  from recv_sent_cm_meta [OF assms(2) this] show ?thesis by (simp add: deliver_def)
qed

lemma deliver_good [simp]: "good_env (deliver m e) = good_env e" and deliver_wr: "wr_junk (deliver m e) = wr_junk e" "wr_res (deliver m e) = wr_res e"
  and deliver_notify [simp]: "v_notify (deliver m e) = v_notify e"
  by (simp_all add: good_env_def deliver_def)

lemma meta_msg_deliver [simp]: "meta_msg cfg (deliver x e) m = meta_msg cfg e m"
  by (simp add: meta_msg_def deliver_wr)

lemma TCP_pos: "0 < TCP_MSG_LEN"
  by (simp add: TCP_MSG_LEN_def)

text \<open>The four steps.\<close>

lemma step_established:
  assumes "fresh_sock c" and "good_env e"
  shows "\<exists>c1. handle_connection_established cfg e nf c =
      Inr (0, Some (meta_msg cfg e ((local_cm_meta (s_qp c))\<lparr>cm_peer_qpn := 0\<rparr>)), c1) \<and>
    s_connected c1 = 0 \<and> s_error c1 = 0 \<and> \<not> s_active c1 \<and> get_len (pending_bl c1) = 0 \<and> is_server c1 = is_server c \<and>
    s_qp c1 = (s_qp c)\<lparr>local_cm_meta := (local_cm_meta (s_qp c))\<lparr>cm_peer_qpn := 0\<rparr>\<rparr>"
  using assms by (simp add: handle_connection_established_def Let_def fresh_sock_def sock_send_meta_ok)

lemma step_server_first:
  assumes "fresh_sock s" and "is_server s" and "good_env e" and "good_env e'" and "length (cm_gid m) = 16" and "cm_peer_qpn m = 0"
  shows "\<exists>s1. handle_connection cfg g (deliver (meta_msg cfg' e' m) e) s =
      Inr (Some (meta_msg cfg e ((local_cm_meta (s_qp s))\<lparr>cm_peer_qpn := cm_local_qpn m\<rparr>)), s1) \<and>
    s_connected s1 = 0 \<and> s_error s1 = 0 \<and> s_active s1 \<and> get_len (pending_bl s1) = 0 \<and> is_server s1 \<and>
    s_peer_qpn s1 = cm_local_qpn m \<and> s_qp s1 = activated_qp cfg g ((s_qp s)\<lparr>peer_cm_meta := m\<rparr>)"
  using assms TCP_pos
  by (simp add: handle_connection_def recv_meta_msg Let_def fresh_sock_def activate_ok sock_send_meta_ok)

lemma step_client:
  assumes "s_connected c = 0" and "s_error c = 0" and "get_len (pending_bl c) = 0" and "\<not> is_server c"
    and "good_env e" and "good_env e'" and "length (cm_gid m) = 16"
  shows "\<exists>c1. handle_connection cfg g (deliver (meta_msg cfg' e' m) e) c =
      Inr (Some (meta_msg cfg e ((local_cm_meta (s_qp c))\<lparr>cm_peer_qpn := cm_local_qpn m\<rparr>)), c1) \<and>
    s_connected c1 = 1 \<and> s_error c1 = 0 \<and> s_active c1 \<and> s_peer_qpn c1 = cm_local_qpn m \<and>
    s_qp c1 = activated_qp cfg g ((s_qp c)\<lparr>peer_cm_meta := m\<rparr>)"
  using assms TCP_pos
  by (simp add: handle_connection_def recv_meta_msg Let_def activate_ok sock_send_meta_ok notify_def good_env_def [THEN iffD1])

lemma step_server_second:
  assumes "s_connected s = 0" and "s_error s = 0" and "get_len (pending_bl s) = 0" and "is_server s"
    and "good_env e" and "good_env e'" and "length (cm_gid m) = 16" and "cm_peer_qpn m \<noteq> 0"
  shows "\<exists>s1. handle_connection cfg g (deliver (meta_msg cfg' e' m) e) s = Inr (None, s1) \<and>
    s_connected s1 = 1 \<and> s_error s1 = 0 \<and> s_active s1 = s_active s \<and> s_peer_qpn s1 = s_peer_qpn s \<and>
    s_qp s1 = (s_qp s)\<lparr>peer_cm_meta := m\<rparr>"
  using assms TCP_pos
  by (simp add: handle_connection_def recv_meta_msg Let_def submit_empty notify_def good_env_def [THEN iffD1])


text \<open>What an activation programs into the device.\<close>

lemma activated_qp_log:
  "\<exists>a m b m'. verbs_log (activated_qp cfg g q) = verbs_log q @ [ModifyQp a m 0, ModifyQp b m' 0] \<and>
     qp_state a = IBV_QPS_RTR \<and> dest_qp_num a = cm_local_qpn (peer_cm_meta q) \<and> rq_psn a = cm_psn (peer_cm_meta q) \<and>
     dgid (qp_ah a) = cm_gid (peer_cm_meta q) \<and> dlid (qp_ah a) = cm_lid (peer_cm_meta q) \<and>
     qp_state b = IBV_QPS_RTS \<and> sq_psn b = cm_psn (local_cm_meta q)"
  by (simp add: activated_qp_def modify_qp_to_rts_def modify_qp_to_rtr_def Let_def)

lemma activated_qp_replay:
  assumes "replay (verbs_log q) IBV_QPS_RESET = Some IBV_QPS_INIT"
  shows "replay (verbs_log (activated_qp cfg g q)) IBV_QPS_RESET = Some IBV_QPS_RTS"
proof -
  let ?q0 = "q\<lparr>local_cm_meta := (local_cm_meta q)\<lparr>cm_peer_qpn := cm_local_qpn (peer_cm_meta q)\<rparr>\<rparr>"
  let ?q1 = "snd (modify_qp_to_rtr cfg g 0 ?q0)"
  have "replay (verbs_log ?q1) IBV_QPS_RESET = Some IBV_QPS_RTR"
    using assms by (subst modify_rtr_log) (simp only: replay_append, simp add: modify_rtr_replay del: replay.simps)
  then show ?thesis
    unfolding activated_qp_def
    by (subst modify_rts_log) (simp only: replay_append, simp add: modify_rts_replay del: replay.simps)
qed

text \<open>The queue pair \<open>q\<close> is programmed to talk to \<open>p\<close>: its receive side names the number, the address and
  the first sequence number of \<open>p\<close>, and its send side starts at its own sequence number.\<close>

definition talks_to :: "queue_pair \<Rightarrow> queue_pair \<Rightarrow> bool" where
  "talks_to q p \<longleftrightarrow>
     (\<exists>a m. ModifyQp a m 0 \<in> set (verbs_log q) \<and> qp_state a = IBV_QPS_RTR \<and>
        dest_qp_num a = cm_local_qpn (local_cm_meta p) \<and> rq_psn a = cm_psn (local_cm_meta p) \<and>
        dgid (qp_ah a) = cm_gid (local_cm_meta p) \<and> dlid (qp_ah a) = cm_lid (local_cm_meta p)) \<and>
     (\<exists>b m. ModifyQp b m 0 \<in> set (verbs_log q) \<and> qp_state b = IBV_QPS_RTS \<and> sq_psn b = cm_psn (local_cm_meta q))"

lemma activated_talks_to:
  assumes "cm_local_qpn (peer_cm_meta q) = cm_local_qpn (local_cm_meta p)" and "cm_psn (peer_cm_meta q) = cm_psn (local_cm_meta p)"
    and "cm_gid (peer_cm_meta q) = cm_gid (local_cm_meta p)" and "cm_lid (peer_cm_meta q) = cm_lid (local_cm_meta p)"
    and "verbs_log q' = verbs_log (activated_qp cfg g q)" and "cm_psn (local_cm_meta q') = cm_psn (local_cm_meta q)"
  shows "talks_to q' p"
proof -
  obtain a m b m' where "verbs_log q' = verbs_log q @ [ModifyQp a m 0, ModifyQp b m' 0]"
     "qp_state a = IBV_QPS_RTR" "dest_qp_num a = cm_local_qpn (peer_cm_meta q)" "rq_psn a = cm_psn (peer_cm_meta q)"
     "dgid (qp_ah a) = cm_gid (peer_cm_meta q)" "dlid (qp_ah a) = cm_lid (peer_cm_meta q)"
     "qp_state b = IBV_QPS_RTS" "sq_psn b = cm_psn (local_cm_meta q)"
    using activated_qp_log [of cfg g q] assms(5) by auto
  then show ?thesis unfolding talks_to_def using assms(1-4,6) by auto
qed

text \<open>C1: The three-way handshake connects both ends. When a fresh client's TCP connection is
  established and nothing fails, its message, the server's answer and the client's acknowledgement
  take both sockets to the connected and active state; both devices end ready to send, each is
  programmed with the other's queue pair number, address and first packet sequence number, and each
  socket knows the other's number.\<close>

theorem handshake_connects:
  assumes "fresh_sock c" and "\<not> is_server c" and "fresh_sock s" and "is_server s"
    and "cm_local_qpn (local_cm_meta (s_qp s)) \<noteq> 0"
    and "replay (verbs_log (s_qp c)) IBV_QPS_RESET = Some IBV_QPS_INIT"
    and "replay (verbs_log (s_qp s)) IBV_QPS_RESET = Some IBV_QPS_INIT"
    and "good_env e1" and "good_env e2" and "good_env e3" and "good_env e4"
  shows "\<exists>m1 m2 m3 c1 c2 s1 s2.
    handle_connection_established cfg e1 nf c = Inr (0, Some m1, c1) \<and>
    handle_connection cfg' g' (deliver m1 e2) s = Inr (Some m2, s1) \<and>
    handle_connection cfg g (deliver m2 e3) c1 = Inr (Some m3, c2) \<and>
    handle_connection cfg' g' (deliver m3 e4) s1 = Inr (None, s2) \<and>
    s_connected c2 = 1 \<and> s_connected s2 = 1 \<and> s_active c2 \<and> s_active s2 \<and> s_error c2 = 0 \<and> s_error s2 = 0 \<and>
    s_peer_qpn c2 = cm_local_qpn (local_cm_meta (s_qp s)) \<and> s_peer_qpn s2 = cm_local_qpn (local_cm_meta (s_qp c)) \<and>
    replay (verbs_log (s_qp c2)) IBV_QPS_RESET = Some IBV_QPS_RTS \<and>
    replay (verbs_log (s_qp s2)) IBV_QPS_RESET = Some IBV_QPS_RTS \<and>
    talks_to (s_qp c2) (s_qp s2) \<and> talks_to (s_qp s2) (s_qp c2)"
proof -
  let ?lc = "local_cm_meta (s_qp c)" and ?ls = "local_cm_meta (s_qp s)"
  let ?m1 = "?lc\<lparr>cm_peer_qpn := 0\<rparr>" and ?m2 = "?ls\<lparr>cm_peer_qpn := cm_local_qpn ?lc\<rparr>" and ?m3 = "?lc\<lparr>cm_peer_qpn := cm_local_qpn ?ls\<rparr>"
  have g16: "length (cm_gid ?lc) = 16" "length (cm_gid ?ls) = 16" using assms(1,3) by (simp_all add: fresh_sock_def)
  obtain c1 where c1: "handle_connection_established cfg e1 nf c = Inr (0, Some (meta_msg cfg e1 ?m1), c1)"
      "s_connected c1 = 0" "s_error c1 = 0" "get_len (pending_bl c1) = 0" "\<not> is_server c1"
      "s_qp c1 = (s_qp c)\<lparr>local_cm_meta := ?m1\<rparr>"
    using step_established [OF assms(1,8)] assms(2) by auto
  obtain s1 where s1: "handle_connection cfg' g' (deliver (meta_msg cfg e1 ?m1) e2) s = Inr (Some (meta_msg cfg' e2 ?m2), s1)"
      "s_connected s1 = 0" "s_error s1 = 0" "s_active s1" "get_len (pending_bl s1) = 0" "is_server s1"
      "s_peer_qpn s1 = cm_local_qpn ?lc" "s_qp s1 = activated_qp cfg' g' ((s_qp s)\<lparr>peer_cm_meta := ?m1\<rparr>)"
    using step_server_first [OF assms(3,4,9,8), of ?m1 cfg' g' cfg] g16 by auto
  obtain c2 where c2: "handle_connection cfg g (deliver (meta_msg cfg' e2 ?m2) e3) c1 = Inr (Some (meta_msg cfg e3 ?m3), c2)"
      "s_connected c2 = 1" "s_error c2 = 0" "s_active c2" "s_peer_qpn c2 = cm_local_qpn ?ls"
      "s_qp c2 = activated_qp cfg g ((s_qp c1)\<lparr>peer_cm_meta := ?m2\<rparr>)"
    using step_client [OF c1(2-5) assms(10,9), of ?m2 cfg g cfg'] g16 c1(6) by auto
  obtain s2 where s2: "handle_connection cfg' g' (deliver (meta_msg cfg e3 ?m3) e4) s1 = Inr (None, s2)"
      "s_connected s2 = 1" "s_error s2 = 0" "s_active s2" "s_peer_qpn s2 = cm_local_qpn ?lc"
      "s_qp s2 = (s_qp s1)\<lparr>peer_cm_meta := ?m3\<rparr>"
    using step_server_second [OF s1(2,3,5,6) assms(11,10), of ?m3 cfg' g' cfg] g16 assms(5) s1(4,7) by auto
  have "replay (verbs_log (s_qp c2)) IBV_QPS_RESET = Some IBV_QPS_RTS"
    unfolding c2(6) by (rule activated_qp_replay) (simp add: c1(6) assms(6))
  moreover have "replay (verbs_log (s_qp s2)) IBV_QPS_RESET = Some IBV_QPS_RTS"
    unfolding s2(6) s1(8) using activated_qp_replay [of "(s_qp s)\<lparr>peer_cm_meta := ?m1\<rparr>"] assms(7) by simp
  moreover have "talks_to (s_qp c2) (s_qp s2)"
    by (rule activated_talks_to [where q = "(s_qp c1)\<lparr>peer_cm_meta := ?m2\<rparr>" and cfg = cfg and g = g])
      (simp_all add: s2(6) s1(8) c2(6))
  moreover have "talks_to (s_qp s2) (s_qp c2)"
    by (rule activated_talks_to [where q = "(s_qp s)\<lparr>peer_cm_meta := ?m1\<rparr>" and cfg = cfg' and g = g'])
      (simp_all add: s2(6) s1(8) c2(6) c1(6))
  ultimately show ?thesis using c1(1) s1(1) c2 s2 by blast
qed

text \<open>A client and a server around the example queue pair.\<close>

definition example_env :: net_env where
  "example_env = \<lparr>rd_n = 0, rd_errno = 0, rd_msg = [], rd_junk = replicate 33 NUL, rd_v32 = 0, wr_junk = replicate 93 NUL,
     wr_res = \<lambda>_. (int TCP_MSG_LEN, 0), v_rtr = 0, v_rts = 0, v_post = 0, v_errno = 0, v_notify = 0\<rparr>"

definition example_client :: csock where
  "example_client = csock_new example_qp_init 5 3 (cluster_new 4096 0) (\<lambda>_. zero_chunk)"

definition example_server :: csock where
  "example_server = set_accept_fd 8 example_client"

lemma example_env_good: "good_env example_env"
  by (simp add: good_env_def example_env_def send_loop.simps)

lemma example_qp_meta: "length (cm_gid (local_cm_meta example_qp_init)) = 16"
  "replay (verbs_log example_qp_init) IBV_QPS_RESET = Some IBV_QPS_INIT"
proof -
  show "length (cm_gid (local_cm_meta example_qp_init)) = 16"
    using example_no_cm
    by (simp add: example_qp_init_def example_qp_def queue_pair_new_def qp_init_def modify_qp_to_init_def
      init_mask_def Let_def log_verb_def init_finish_def post_chunks_to_rq_def add_rq_wr_def chunk_set_qp_def example_pool_def)
  show "replay (verbs_log example_qp_init) IBV_QPS_RESET = Some IBV_QPS_INIT"
    using qp_init_replay [OF example_qp_init example_no_cm, of IBV_QPS_RESET] by (simp add: example_qp_def queue_pair_new_def)
qed

lemma example_socks: "fresh_sock example_client" "\<not> is_server example_client" "fresh_sock example_server" "is_server example_server"
  "s_qp example_client = example_qp_init" "s_qp example_server = example_qp_init"
  using example_qp_meta(1)
  by (simp_all add: fresh_sock_def example_client_def example_server_def csock_new_def set_accept_fd_def get_len_def bl_new_def)

theorem handshake_connects_witness:
  "\<exists>m1 m2 m3 c1 c2 s1 s2.
    handle_connection_established example_config example_env True example_client = Inr (0, Some m1, c1) \<and>
    handle_connection example_config 3 (deliver m1 example_env) example_server = Inr (Some m2, s1) \<and>
    handle_connection example_config 3 (deliver m2 example_env) c1 = Inr (Some m3, c2) \<and>
    handle_connection example_config 3 (deliver m3 example_env) s1 = Inr (None, s2) \<and>
    s_connected c2 = 1 \<and> s_connected s2 = 1"
proof -
  have "cm_local_qpn (local_cm_meta (s_qp example_server)) \<noteq> 0"
    using example_qp_facts(1) by (simp add: example_socks get_local_qp_number_def)
  note h = handshake_connects [OF example_socks(1-4) this, of example_env example_env example_env example_env
    example_config True example_config 3 3]
  show ?thesis using h example_env_good example_qp_meta(2) unfolding example_socks(5,6) by blast
qed


section \<open>Reading\<close>

definition unread :: "csock \<Rightarrow> ptr list \<Rightarrow> nat" where
  "unread s ps = sum_list (map (\<lambda>p. unat (get_size (s_chunks s p))) ps)"

lemma unread_cong: "(\<And>p. p \<in> set ps \<Longrightarrow> s_chunks s p = s_chunks s' p) \<Longrightarrow> unread s ps = unread s' ps"
  unfolding unread_def by (rule arg_cong [where f = sum_list], rule map_cong) simp_all

lemma zero_read_sizes:
  "fst (zero_read k c) = min (get_size c) k" "get_size (snd (zero_read k c)) = get_size c - min (get_size c) k"
  by (simp_all add: zero_read_def get_size_def Let_def min_def)

lemma unat_ucast_u64_u32: "unat (x :: u64) < 4294967296 \<Longrightarrow> unat (ucast x :: u32) = unat x"
  by (simp add: unsigned_ucast_eq take_bit_eq_mod)

lemma no_backlog: "post_backlog s = 0 \<Longrightarrow> update_post_backlog env s = Inr s"
  by (simp add: update_post_backlog_def)

lemma read_loop_ok:
  assumes "unat len < 4294967296" and "post_backlog s = 0" and "distinct ps" and "\<forall>p \<in> set ps. get_size (s_chunks s p) \<noteq> 0"
    and "unat rd < unat len"
  shows "\<exists>n us ps' s'. read_loop env len ps rd s = Some (Inr (n, ps', s')) \<and>
    unat n = min (unat len) (unat rd + unread s ps) \<and> ps = us @ ps' \<and> s_recalled s' = s_recalled s @ us \<and>
    unat n + unread s' ps' = unat rd + unread s ps \<and> (\<forall>p \<in> set ps'. get_size (s_chunks s' p) \<noteq> 0)"
  using assms
proof (induction ps arbitrary: rd s)
  case Nil
  then show ?case by (subst read_loop.simps) (simp add: unread_def)
next
  case (Cons c cs)
  let ?left = "get_size (s_chunks s c)" and ?rem = "ucast (len - rd) :: u32"
  let ?ch = "snd (zero_read ?rem (s_chunks s c))" and ?tmp = "fst (zero_read ?rem (s_chunks s c))"
  have rd: "rd \<le> len" using Cons.prems(5) by (simp add: word_le_nat_alt)
  have rem: "unat ?rem = unat len - unat rd"
    using Cons.prems(1) unat_sub_le [OF rd] by (subst unat_ucast_u64_u32) simp_all
  have "unat ?tmp \<le> unat ?rem" unfolding zero_read_sizes by (simp add: word_le_nat_alt [symmetric])
  then have "unat rd + unat ?tmp < 2 ^ 64" using Cons.prems(1,5) rem by simp
  then have u1: "unat (rd + ucast ?tmp) = unat rd + unat ?tmp"
    by (subst unat_add_no_overflow) simp_all
  show ?case
  proof (cases "?left \<le> ?rem")
    case True
    then have tmp: "?tmp = ?left" and z: "get_size ?ch = 0" by (simp_all add: zero_read_sizes min_def)
    define s2 where "s2 = sock_recall c (s\<lparr>s_chunks := (s_chunks s)(c := reset_read_chunk ?ch)\<rparr>)"
    have s2: "post_backlog s2 = 0" "s_recalled s2 = s_recalled s @ [c]" "s_error s2 = s_error s"
      "\<And>p. p \<noteq> c \<Longrightarrow> s_chunks s2 p = s_chunks s p"
      using Cons.prems(2) by (simp_all add: s2_def sock_recall_def)
    have same: "s_chunks s2 p = s_chunks s p" if "p \<in> set cs" for p using that Cons.prems(3) s2(4) [of p] by auto
    have un: "unread s2 cs = unread s cs" using same by (rule unread_cong)
    have ns: "\<forall>p \<in> set cs. get_size (s_chunks s2 p) \<noteq> 0" using Cons.prems(4) same by simp
    have step: "read_loop env len (c # cs) rd s =
        (if rd + ucast ?tmp = len then Some (Inr (rd + ucast ?tmp, cs, s2)) else read_loop env len cs (rd + ucast ?tmp) s2)"
      by (subst read_loop.simps) (simp add: case_prod_beta Let_def z s2_def [symmetric] no_backlog [OF s2(1)])
    have le: "unat rd + unat ?left \<le> unat len" using True rem Cons.prems(5) by (simp add: word_le_nat_alt)
    show ?thesis
    proof (cases "rd + ucast ?tmp = len")
      case True
      then have "unat rd + unat ?left = unat len" using u1 tmp by simp
      then show ?thesis using step True s2 un ns
        by (intro exI [of _ "rd + ucast ?tmp"] exI [of _ "[c]"] exI [of _ cs] exI [of _ s2]) (simp add: unread_def)
    next
      case False
      then have lt: "unat (rd + ucast ?tmp) < unat len"
        using u1 tmp le by (metis le_neq_implies_less word_unat_eq_iff)
      obtain n us ps' s' where r: "read_loop env len cs (rd + ucast ?tmp) s2 = Some (Inr (n, ps', s'))"
          "unat n = min (unat len) (unat (rd + ucast ?tmp) + unread s2 cs)" "cs = us @ ps'" "s_recalled s' = s_recalled s2 @ us"
          "unat n + unread s' ps' = unat (rd + ucast ?tmp) + unread s2 cs" "\<forall>p \<in> set ps'. get_size (s_chunks s' p) \<noteq> 0"
        using Cons.IH [OF Cons.prems(1) s2(1) _ ns lt] Cons.prems(3) by auto
      then show ?thesis using step False s2 un u1 tmp
        by (intro exI [of _ n] exI [of _ "c # us"] exI [of _ ps'] exI [of _ s']) (simp add: unread_def)
    qed
  next
    case False
    then have tmp: "?tmp = ?rem" and z: "get_size ?ch = ?left - ?rem" by (simp_all add: zero_read_sizes min_def)
    have lt: "unat ?rem < unat ?left" using False by (simp add: word_le_nat_alt)
    then have z': "unat (get_size ?ch) = unat ?left - unat ?rem" unfolding z by (intro unat_sub_le) (simp add: word_le_nat_alt)
    then have nz: "get_size ?ch \<noteq> 0" using lt by (metis diff_is_0_eq leD unat_0)
    define s1 where "s1 = s\<lparr>s_chunks := (s_chunks s)(c := ?ch)\<rparr>"
    have "unat (rd + ucast ?tmp) = unat len" unfolding u1 using tmp rem Cons.prems(5) by simp
    then have full: "rd + ucast ?tmp = len" by (simp only: word_unat_eq_iff)
    have step: "read_loop env len (c # cs) rd s = Some (Inr (len, c # cs, s1))"
      by (subst read_loop.simps) (simp add: case_prod_beta Let_def nz full s1_def [symmetric])
    have un: "unread s1 cs = unread s cs" using Cons.prems(3) by (intro unread_cong) (auto simp: s1_def)
    have "unread s1 (c # cs) = unat ?left - unat ?rem + unread s cs" using un z' by (simp add: unread_def s1_def)
    moreover have "unread s (c # cs) = unat ?left + unread s cs" by (simp add: unread_def)
    moreover have "\<forall>p \<in> set (c # cs). get_size (s_chunks s1 p) \<noteq> 0" using Cons.prems(4) nz by (simp add: s1_def)
    ultimately show ?thesis using step lt rem Cons.prems(2,5)
      by (intro exI [of _ len] exI [of _ "[]"] exI [of _ "c # cs"] exI [of _ s1]) (simp add: s1_def)
  qed
qed




text \<open>The receive backlog is updated the wrong way round. When a backlog of \<open>k\<close> buffers is posted
  in full, the counter stays at \<open>k\<close>, so that the same buffers are owed again; when the pool has no
  buffer, the counter drops to zero and the debt is forgotten.\<close>

theorem backlog_update_inverted:
  assumes "0 < post_backlog s" and "\<not> srq (s_qp s)" and "nat (post_backlog s) \<le> unat (temp_wr_len (s_qp s))"
  shows "(env (post_calls s) = (bs, 0, bad) \<and> (\<forall>i < nat (post_backlog s). bs i \<noteq> nullptr) \<longrightarrow>
      (\<exists>s'. update_post_backlog env s = Inr s' \<and> post_backlog s' = post_backlog s \<and>
         length (recv_queue (rq (s_qp s'))) = length (recv_queue (rq (s_qp s))) + nat (post_backlog s))) \<and>
    (env (post_calls s) = (bs, ret, bad) \<and> bs 0 = nullptr \<longrightarrow>
      (\<exists>s'. update_post_backlog env s = Inr s' \<and> post_backlog s' = 0 \<and> rq (s_qp s') = rq (s_qp s)))"
proof (intro conjI impI)
  assume a: "env (post_calls s) = (bs, 0, bad) \<and> (\<forall>i < nat (post_backlog s). bs i \<noteq> nullptr)"
  obtain st' where "post_loop bs (s_qp_ptr s) False (unat (temp_wr_len (s_qp s))) (nat (post_backlog s)) [] (rq (s_qp s)) =
        Inr (map bs [0 ..< nat (post_backlog s)], st')"
      "recv_queue st' = recv_queue (rq (s_qp s)) @ map bs [0 ..< nat (post_backlog s)]"
    using post_loop_full [of "[]" "nat (post_backlog s)" bs "unat (temp_wr_len (s_qp s))" "s_qp_ptr s" "rq (s_qp s)"] a assms(3) by auto
  then show "\<exists>s'. update_post_backlog env s = Inr s' \<and> post_backlog s' = post_backlog s \<and>
      length (recv_queue (rq (s_qp s'))) = length (recv_queue (rq (s_qp s))) + nat (post_backlog s)"
    using a assms(1,2) by (simp add: update_post_backlog_def sock_post_def post_chunks_to_rq_def)
next
  assume a: "env (post_calls s) = (bs, ret, bad) \<and> bs 0 = nullptr"
  obtain k where k: "nat (post_backlog s) = Suc k" using assms(1) by (cases "nat (post_backlog s)") auto
  then show "\<exists>s'. update_post_backlog env s = Inr s' \<and> post_backlog s' = 0 \<and> rq (s_qp s') = rq (s_qp s)"
    using a assms(1,2) by (simp add: update_post_backlog_def sock_post_def post_chunks_to_rq_def)
qed

theorem backlog_update_inverted_witness:
  "\<exists>s'. update_post_backlog (\<lambda>_. (\<lambda>i. 200 + i, 0, 0)) (example_client\<lparr>post_backlog := 1\<rparr>) = Inr s' \<and> post_backlog s' = 1"
  using backlog_update_inverted [of "example_client\<lparr>post_backlog := 1\<rparr>" "\<lambda>_. (\<lambda>i. 200 + i, 0, 0)" "\<lambda>i. 200 + i" 0 0]
  by (auto simp: example_socks example_qp_facts)

section \<open>Sending\<close>

lemma collect_chunks_in_pool:
  assumes "\<forall>b \<in> set bs. is_my_buffer (b_cur b) cl" and "buffer_size cl \<noteq> 0"
  shows "\<exists>is. collect_chunks bs cl = Inr is \<and> length is = length bs"
  using assms by (induction bs) (auto simp: get_chunk_by_buffer_def)

text \<open>A successful \<open>submit\<close> posts one send per pending buffer, in order, and then reports
  \<open>EAGAIN\<close>: clearing the list leaves the cached length behind. The next \<open>submit\<close> finds an empty list
  with a positive length and hands empty arrays to the verbs call.\<close>

theorem submit_twice:
  assumes "s_error s = 0" and "get_len (pending_bl s) \<noteq> 0" and "bl_bufs (pending_bl s) \<noteq> []"
    and "\<forall>b \<in> set (bl_bufs (pending_bl s)). is_my_buffer (b_cur b) (s_tx s)" and "buffer_size (s_tx s) \<noteq> 0"
  shows "\<exists>s'. submit 0 e s = Inr (- EAGAIN, s') \<and>
    (\<exists>is. collect_chunks (bl_bufs (pending_bl s)) (s_tx s) = Inr is \<and> length is = length (bl_bufs (pending_bl s)) \<and>
       s_sent s' = s_sent s @ map (\<lambda>i. (i, get_offset (chunk_arr (s_tx s) ! i))) is) \<and>
    submit r2 e2 s' = Inl OutOfBounds"
proof -
  obtain "is" where eq: "collect_chunks (bl_bufs (pending_bl s)) (s_tx s) = Inr is" "length is = length (bl_bufs (pending_bl s))"
    using collect_chunks_in_pool [OF assms(4,5)] by blast
  then have ne: "is \<noteq> []" using assms(3) by auto
  then show ?thesis using assms(1,2) eq
    by (auto simp: submit_def post_work_request_def Let_def bl_Clear_def get_len_def)
qed

theorem submit_twice_witness:
  "\<exists>s'. submit 0 0 (example_client\<lparr>pending_bl := bl_of (buf_of 4096 8),
      s_tx := (cluster_new 4096 0)\<lparr>base := 4096, cl_end := 8192\<rparr>\<rparr>) = Inr (- EAGAIN, s') \<and> submit 0 0 s' = Inl OutOfBounds"
  using submit_twice [of "example_client\<lparr>pending_bl := bl_of (buf_of 4096 8), s_tx := (cluster_new 4096 0)\<lparr>base := 4096, cl_end := 8192\<rparr>\<rparr>" 0 0 0]
  by (auto simp: example_client_def csock_new_def get_len_def bl_of_def buf_of_def buf_copy_def GetRemainingLen_def is_my_buffer_def cluster_new_def)

text \<open>Destroying a socket loses no receive buffer: every chunk of a completion that was not fetched and
  every chunk that was not read to its end goes back to the pool, once and in order, and both
  descriptors are closed.\<close>

theorem csock_destroy_returns_chunks:
  "s_recalled (csock_destroy s) = s_recalled s @ map wc_wr_id (s_wc s) @ s_buffers s \<and>
   closed_fds (csock_destroy s) = closed_fds s @ filter (\<lambda>fd. 0 \<le> fd) [notify_fd s, tcp_fd s]"
proof -
  have f: "s_recalled (foldl (\<lambda>s c. sock_recall c s) t cs) = s_recalled t @ cs \<and>
      s_buffers (foldl (\<lambda>s c. sock_recall c s) t cs) = s_buffers t \<and> closed_fds (foldl (\<lambda>s c. sock_recall c s) t cs) = closed_fds t \<and>
      notify_fd (foldl (\<lambda>s c. sock_recall c s) t cs) = notify_fd t \<and> tcp_fd (foldl (\<lambda>s c. sock_recall c s) t cs) = tcp_fd t" for t cs
    by (induction cs arbitrary: t) (simp_all add: sock_recall_def)
  have c: "s_recalled (cleanup s) = s_recalled s" "s_wc (cleanup s) = s_wc s" "s_buffers (cleanup s) = s_buffers s"
    "closed_fds (cleanup s) = closed_fds s" "notify_fd (cleanup s) = notify_fd s" "tcp_fd (cleanup s) = tcp_fd s"
    by (simp_all add: cleanup_def Let_def)
  show ?thesis unfolding csock_destroy_def Let_def using f c by simp
qed

end
