(* ===== verification/EventDriver.thy ===== *)
theory EventDriver
  imports CmMeta
begin

text \<open>
  The event drivers (\<open>EventDriver\<close>, \<open>EpollDriver\<close>, \<open>SelectDriver\<close> in \<open>src/src/network/Event.h\<close>,
  \<open>EventEpoll.cc\<close>, \<open>EventSelect.cc\<close>) and the interface the event centre relies on. An event mask is
  the set of its flags: \<open>EVENT_NONE\<close> is the empty set, \<open>|\<close> is union, \<open>& ~\<close> is difference. The kernel
  behind \<open>epoll_ctl\<close> is a parameter: a function that says with which \<open>errno\<close> the n-th call is refused for
  lack of resources or of support (\<open>ENOMEM\<close>, \<open>ENOSPC\<close>, \<open>EPERM\<close> and others), 0 when it is not, and the
  interest list of the manual page: adding a descriptor that is present, and changing or removing one
  that is absent, fail in any case.
\<close>

section \<open>Masks and the interface\<close>

datatype ev = EVENT_READABLE | EVENT_WRITABLE

type_synonym mask = "ev set"

text \<open>What a driver promises: a call succeeds, unless the system refuses it; after a successful call the set of
  watched events of the descriptor is the old one with the mask added or removed, and other descriptors
  are as before. The caller passes the current mask, and the contract holds when it is right.
  \<open>refuses\<close> says that the system may refuse calls.\<close>

locale event_driver =
  fixes add_ev :: "int \<Rightarrow> mask \<Rightarrow> mask \<Rightarrow> 's \<Rightarrow> int \<times> 's"
    and del_ev :: "int \<Rightarrow> mask \<Rightarrow> mask \<Rightarrow> 's \<Rightarrow> int \<times> 's"
    and watched :: "'s \<Rightarrow> int \<Rightarrow> mask"
    and drv_ok :: "'s \<Rightarrow> bool"
    and refuses :: "'s \<Rightarrow> bool"
  assumes add_result: "drv_ok s \<Longrightarrow> 0 \<le> fd \<Longrightarrow> m \<noteq> {} \<Longrightarrow>
      fst (add_ev fd (watched s fd) m s) = 0 \<or> (fst (add_ev fd (watched s fd) m s) < 0 \<and> refuses s)"
    and add_watched: "drv_ok s \<Longrightarrow> 0 \<le> fd \<Longrightarrow> m \<noteq> {} \<Longrightarrow> fst (add_ev fd (watched s fd) m s) = 0 \<Longrightarrow>
      watched (snd (add_ev fd (watched s fd) m s)) = (watched s)(fd := watched s fd \<union> m)"
    and add_ok: "drv_ok s \<Longrightarrow> 0 \<le> fd \<Longrightarrow> m \<noteq> {} \<Longrightarrow> drv_ok (snd (add_ev fd (watched s fd) m s))"
    and add_refuses: "refuses (snd (add_ev fd w m s)) \<longleftrightarrow> refuses s"
    and del_result: "drv_ok s \<Longrightarrow> 0 \<le> fd \<Longrightarrow> watched s fd \<noteq> {} \<Longrightarrow>
      fst (del_ev fd (watched s fd) m s) = 0 \<or> (fst (del_ev fd (watched s fd) m s) < 0 \<and> refuses s)"
    and del_watched: "drv_ok s \<Longrightarrow> 0 \<le> fd \<Longrightarrow> watched s fd \<noteq> {} \<Longrightarrow> fst (del_ev fd (watched s fd) m s) = 0 \<Longrightarrow>
      watched (snd (del_ev fd (watched s fd) m s)) = (watched s)(fd := watched s fd - m)"
    and del_ok: "drv_ok s \<Longrightarrow> 0 \<le> fd \<Longrightarrow> watched s fd \<noteq> {} \<Longrightarrow> drv_ok (snd (del_ev fd (watched s fd) m s))"
    and del_refuses: "refuses (snd (del_ev fd w m s)) \<longleftrightarrow> refuses s"
begin

text \<open>Adding and then removing the same fresh events restores what is watched, when nothing is refused.\<close>

lemma add_del_restores:
  assumes "drv_ok s" and "0 \<le> fd" and "m \<noteq> {}" and "watched s fd \<inter> m = {}" and "\<not> refuses s"
  shows "watched (snd (del_ev fd (watched s fd \<union> m) m (snd (add_ev fd (watched s fd) m s)))) = watched s"
proof -
  let ?s = "snd (add_ev fd (watched s fd) m s)"
  have "fst (add_ev fd (watched s fd) m s) = 0" using add_result [OF assms(1-3)] assms(5) by blast
  then have w: "watched ?s = (watched s)(fd := watched s fd \<union> m)" by (rule add_watched [OF assms(1-3)])
  then have fd: "watched ?s fd = watched s fd \<union> m" by simp
  then have ne: "watched ?s fd \<noteq> {}" using assms(3) by simp
  note ok = add_ok [OF assms(1-3)]
  have "fst (del_ev fd (watched ?s fd) m ?s) = 0" using del_result [OF ok assms(2) ne] assms(5) add_refuses by blast
  then have "watched (snd (del_ev fd (watched ?s fd) m ?s)) = (watched ?s)(fd := watched ?s fd - m)"
    by (rule del_watched [OF ok assms(2) ne])
  moreover have "(watched s fd \<union> m) - m = watched s fd" using assms(4) by blast
  ultimately show ?thesis using w fd by (simp add: fun_eq_iff)
qed

end

section \<open>Epoll\<close>

datatype epoll_op = EPOLL_CTL_ADD | EPOLL_CTL_MOD | EPOLL_CTL_DEL

definition EEXIST :: int where "EEXIST = 17"
definition ENOENT :: int where "ENOENT = 2"
definition EBADF :: int where "EBADF = 9"
definition ENOMEM :: int where "ENOMEM = 12"

type_synonym kernel_set = "int \<Rightarrow> mask option"

text \<open>The manual page of \<open>epoll_ctl\<close>: the result and \<open>errno\<close>. \<open>no\<close> is the error with which the kernel
  refuses the call for reasons of its own, 0 for none.\<close>

definition epoll_ctl :: "nat \<Rightarrow> epoll_op \<Rightarrow> int \<Rightarrow> mask \<Rightarrow> kernel_set \<Rightarrow> (int \<times> int) \<times> kernel_set" where
  "epoll_ctl no op fd evs k =
     (if fd < 0 then ((- 1, EBADF), k)
      else if no \<noteq> 0 then ((- 1, int no), k)
      else case op of
        EPOLL_CTL_ADD \<Rightarrow> if k fd \<noteq> None then ((- 1, EEXIST), k) else ((0, 0), k(fd \<mapsto> evs))
      | EPOLL_CTL_MOD \<Rightarrow> if k fd = None then ((- 1, ENOENT), k) else ((0, 0), k(fd \<mapsto> evs))
      | EPOLL_CTL_DEL \<Rightarrow> if k fd = None then ((- 1, ENOENT), k) else ((0, 0), k(fd := None)))"

text \<open>The driver with the kernel behind it: its interest list, how many calls were made, and what it will
  answer to the n-th call for an operation and a descriptor.\<close>

record epoll_driver =
  epfd :: int
  ep_nevent :: int
  ep_kernel :: kernel_set
  ep_calls :: nat
  ep_answer :: "nat \<Rightarrow> epoll_op \<Rightarrow> int \<Rightarrow> nat"

definition epoll_new :: "(nat \<Rightarrow> epoll_op \<Rightarrow> int \<Rightarrow> nat) \<Rightarrow> epoll_driver" where
  "epoll_new answer = \<lparr>epfd = - 1, ep_nevent = 0, ep_kernel = \<lambda>_. None, ep_calls = 0, ep_answer = answer\<rparr>"

definition kernel_call :: "epoll_op \<Rightarrow> int \<Rightarrow> mask \<Rightarrow> epoll_driver \<Rightarrow> (int \<times> int) \<times> epoll_driver" where
  "kernel_call op fd evs d =
     (let (r, k) = epoll_ctl (ep_answer d (ep_calls d) op fd) op fd evs (ep_kernel d)
      in (r, d\<lparr>ep_kernel := k, ep_calls := ep_calls d + 1\<rparr>))"

text \<open>\<open>init\<close>: \<open>mem\<close> says that \<open>calloc\<close> succeeded, \<open>fd\<close>, \<open>e1\<close> are the result and \<open>errno\<close> of
  \<open>epoll_create\<close>, \<open>r\<close>, \<open>e2\<close> those of \<open>fcntl\<close>.\<close>

definition epoll_init :: "bool \<Rightarrow> int \<Rightarrow> int \<Rightarrow> int \<Rightarrow> int \<Rightarrow> int \<Rightarrow> epoll_driver \<Rightarrow> int \<times> epoll_driver" where
  "epoll_init mem fd e1 r e2 n d =
     (if \<not> mem then (- ENOMEM, d)
      else let d1 = d\<lparr>epfd := fd\<rparr> in
        if fd = - 1 then (- e1, d1)
        else if r = - 1 then (- e2, d1)
        else (0, d1\<lparr>ep_nevent := n\<rparr>))"

definition epoll_add_event :: "int \<Rightarrow> mask \<Rightarrow> mask \<Rightarrow> epoll_driver \<Rightarrow> int \<times> epoll_driver" where
  "epoll_add_event fd cur_mask add_mask d =
     (let op = (if cur_mask = {} then EPOLL_CTL_ADD else EPOLL_CTL_MOD);
          ((r, e), d') = kernel_call op fd (add_mask \<union> cur_mask) d
      in if r = - 1 then (- e, d') else (0, d'))"

definition epoll_del_event :: "int \<Rightarrow> mask \<Rightarrow> mask \<Rightarrow> epoll_driver \<Rightarrow> int \<times> epoll_driver" where
  "epoll_del_event fd cur_mask delmask d =
     (let m = cur_mask - delmask in
      if m \<noteq> {} then
        let ((r, e), d') = kernel_call EPOLL_CTL_MOD fd m d in if r < 0 then (- e, d') else (0, d')
      else
        let ((r, e), d') = kernel_call EPOLL_CTL_DEL fd {} d in if r < 0 then (- e, d') else (0, d'))"

definition epoll_resize_events :: "int \<Rightarrow> epoll_driver \<Rightarrow> int \<times> epoll_driver" where
  "epoll_resize_events newsize d = (0, d)"

text \<open>The fired events: what \<open>epoll_wait\<close> returns for a descriptor (\<open>EPOLLIN\<close>, \<open>EPOLLOUT\<close>, \<open>EPOLLERR\<close>,
  \<open>EPOLLHUP\<close>), at most \<open>nevent\<close> of them.\<close>

record epoll_event =
  ee_fd :: int
  ee_in :: bool
  ee_out :: bool
  ee_err :: bool
  ee_hup :: bool

definition fired_mask :: "epoll_event \<Rightarrow> mask" where
  "fired_mask e =
     (if ee_in e then {EVENT_READABLE} else {}) \<union> (if ee_out e then {EVENT_WRITABLE} else {}) \<union>
     (if ee_err e then {EVENT_READABLE, EVENT_WRITABLE} else {}) \<union> (if ee_hup e then {EVENT_READABLE, EVENT_WRITABLE} else {})"

definition epoll_event_wait :: "int \<Rightarrow> epoll_event list \<Rightarrow> int \<times> (int \<times> mask) list" where
  "epoll_event_wait retval events =
     (if retval > 0 then (retval, map (\<lambda>e. (ee_fd e, fired_mask e)) (take (nat retval) events)) else (0, []))"

definition epoll_watched :: "epoll_driver \<Rightarrow> int \<Rightarrow> mask" where
  "epoll_watched d fd = (case ep_kernel d fd of Some m \<Rightarrow> m | None \<Rightarrow> {})"

text \<open>The driver keeps no empty entries in the kernel; the kernel may refuse calls; both together: a kernel
  that has the resources for every call.\<close>

definition epoll_shape :: "epoll_driver \<Rightarrow> bool" where
  "epoll_shape d \<longleftrightarrow> (\<forall>fd. ep_kernel d fd \<noteq> Some {})"

definition epoll_refuses :: "epoll_driver \<Rightarrow> bool" where
  "epoll_refuses d \<longleftrightarrow> (\<exists>n op fd. ep_answer d n op fd \<noteq> 0)"

definition epoll_ok :: "epoll_driver \<Rightarrow> bool" where
  "epoll_ok d \<longleftrightarrow> epoll_shape d \<and> \<not> epoll_refuses d"

section \<open>Select\<close>

record select_driver =
  rfds :: "int set"
  wfds :: "int set"
  max_fd :: int

definition select_init :: "select_driver \<Rightarrow> int \<times> select_driver" where
  "select_init d = (0, d\<lparr>rfds := {}, wfds := {}, max_fd := 0\<rparr>)"

definition select_add_event :: "int \<Rightarrow> mask \<Rightarrow> mask \<Rightarrow> select_driver \<Rightarrow> int \<times> select_driver" where
  "select_add_event fd cur_mask add_mask d =
     (let m = cur_mask \<union> add_mask;
          d1 = (if EVENT_READABLE \<in> m then d\<lparr>rfds := insert fd (rfds d)\<rparr> else d);
          d2 = (if EVENT_WRITABLE \<in> m then d1\<lparr>wfds := insert fd (wfds d1)\<rparr> else d1)
      in (0, if fd > max_fd d2 then d2\<lparr>max_fd := fd\<rparr> else d2))"

definition select_del_event :: "int \<Rightarrow> mask \<Rightarrow> mask \<Rightarrow> select_driver \<Rightarrow> int \<times> select_driver" where
  "select_del_event fd cur_mask delmask d =
     (let d1 = (if EVENT_READABLE \<in> delmask then d\<lparr>rfds := rfds d - {fd}\<rparr> else d)
      in (0, if EVENT_WRITABLE \<in> delmask then d1\<lparr>wfds := wfds d1 - {fd}\<rparr> else d1))"

definition select_resize_events :: "int \<Rightarrow> select_driver \<Rightarrow> int \<times> select_driver" where
  "select_resize_events newsize d = (0, d)"

text \<open>The descriptors \<open>select\<close> left set, scanned up to \<open>max_fd\<close>.\<close>

definition select_event_wait :: "int \<Rightarrow> int set \<Rightarrow> int set \<Rightarrow> select_driver \<Rightarrow> int \<times> (int \<times> mask) list" where
  "select_event_wait retval rs ws d =
     (let mask_of = (\<lambda>j. (if j \<in> rs then {EVENT_READABLE} else {}) \<union> (if j \<in> ws then {EVENT_WRITABLE} else {}));
          fired = (if retval > 0 then filter (\<lambda>(j, m). m \<noteq> {}) (map (\<lambda>j. (j, mask_of j)) [0 .. max_fd d]) else [])
      in (int (length fired), fired))"

definition select_watched :: "select_driver \<Rightarrow> int \<Rightarrow> mask" where
  "select_watched d fd = (if fd \<in> rfds d then {EVENT_READABLE} else {}) \<union> (if fd \<in> wfds d then {EVENT_WRITABLE} else {})"

section \<open>Both drivers keep the contract\<close>

lemma mask_eqI:
  "(EVENT_READABLE \<in> a \<longleftrightarrow> EVENT_READABLE \<in> b) \<Longrightarrow> (EVENT_WRITABLE \<in> a \<longleftrightarrow> EVENT_WRITABLE \<in> b) \<Longrightarrow> a = (b :: mask)"
  by (rule set_eqI) (metis ev.exhaust)

lemma select_watched_iff [simp]:
  "EVENT_READABLE \<in> select_watched d fd \<longleftrightarrow> fd \<in> rfds d" "EVENT_WRITABLE \<in> select_watched d fd \<longleftrightarrow> fd \<in> wfds d"
  by (simp_all add: select_watched_def)

lemma select_add_sets:
  "rfds (snd (select_add_event fd cur m d)) = (if EVENT_READABLE \<in> cur \<union> m then insert fd (rfds d) else rfds d)"
  "wfds (snd (select_add_event fd cur m d)) = (if EVENT_WRITABLE \<in> cur \<union> m then insert fd (wfds d) else wfds d)"
  by (simp_all add: select_add_event_def Let_def)

lemma select_del_sets:
  "rfds (snd (select_del_event fd cur m d)) = (if EVENT_READABLE \<in> m then rfds d - {fd} else rfds d)"
  "wfds (snd (select_del_event fd cur m d)) = (if EVENT_WRITABLE \<in> m then wfds d - {fd} else wfds d)"
  by (simp_all add: select_del_event_def Let_def)

interpretation select_drv: event_driver select_add_event select_del_event select_watched "\<lambda>_. True" "\<lambda>_. False"
proof (unfold_locales, goal_cases)
  case (2 s fd m)
  show ?case
    by (rule ext, rule mask_eqI) (auto simp: select_add_sets)
next
  case (6 s fd m)
  show ?case
    by (rule ext, rule mask_eqI) (auto simp: select_del_sets)
qed (simp_all add: select_add_event_def select_del_event_def Let_def)

lemma epoll_absent: "epoll_shape d \<Longrightarrow> epoll_watched d fd = {} \<longleftrightarrow> ep_kernel d fd = None"
  by (auto simp: epoll_watched_def epoll_shape_def split: option.splits)

text \<open>The call is refused and nothing changes, or it is made.\<close>

definition add_op :: "epoll_driver \<Rightarrow> int \<Rightarrow> epoll_op" where
  "add_op d fd = (if epoll_watched d fd = {} then EPOLL_CTL_ADD else EPOLL_CTL_MOD)"

definition del_op :: "epoll_driver \<Rightarrow> int \<Rightarrow> mask \<Rightarrow> epoll_op" where
  "del_op d fd m = (if epoll_watched d fd - m = {} then EPOLL_CTL_DEL else EPOLL_CTL_MOD)"

lemma epoll_add_kernel:
  assumes "epoll_shape d" and "0 \<le> fd"
  shows "epoll_add_event fd (epoll_watched d fd) m d =
    (let no = ep_answer d (ep_calls d) (add_op d fd) fd in
     if no = 0 then (0, d\<lparr>ep_kernel := (ep_kernel d)(fd \<mapsto> m \<union> epoll_watched d fd), ep_calls := ep_calls d + 1\<rparr>)
     else (- int no, d\<lparr>ep_calls := ep_calls d + 1\<rparr>))"
  using assms epoll_absent [OF assms(1), of fd]
  by (simp add: epoll_add_event_def epoll_ctl_def kernel_call_def add_op_def Let_def)

lemma epoll_del_kernel:
  assumes "epoll_shape d" and "0 \<le> fd" and "epoll_watched d fd \<noteq> {}"
  shows "epoll_del_event fd (epoll_watched d fd) m d =
    (let no = ep_answer d (ep_calls d) (del_op d fd m) fd in
     if no = 0 then
       (0, d\<lparr>ep_kernel := (ep_kernel d)(fd := if epoll_watched d fd - m = {} then None else Some (epoll_watched d fd - m)),
             ep_calls := ep_calls d + 1\<rparr>)
     else (- int no, d\<lparr>ep_calls := ep_calls d + 1\<rparr>))"
  using assms epoll_absent [OF assms(1), of fd]
  by (auto simp: epoll_del_event_def epoll_ctl_def kernel_call_def del_op_def Let_def)

lemma kernel_call_answer [simp]: "ep_answer (snd (kernel_call op fd evs d)) = ep_answer d"
  by (simp add: kernel_call_def case_prod_beta Let_def)

lemma epoll_event_answer [simp]:
  "ep_answer (snd (epoll_add_event fd w m d)) = ep_answer d" "ep_answer (snd (epoll_del_event fd w m d)) = ep_answer d"
  by (simp_all add: epoll_add_event_def epoll_del_event_def case_prod_beta Let_def)

lemma epoll_event_refuses [simp]:
  "epoll_refuses (snd (epoll_add_event fd w m d)) = epoll_refuses d"
  "epoll_refuses (snd (epoll_del_event fd w m d)) = epoll_refuses d"
  by (simp_all add: epoll_refuses_def)

interpretation epoll_drv: event_driver epoll_add_event epoll_del_event epoll_watched epoll_shape epoll_refuses
proof (unfold_locales, goal_cases)
  case (1 s fd m)
  then show ?case by (auto simp: epoll_add_kernel Let_def epoll_refuses_def)
next
  case (2 s fd m)
  then show ?case by (auto simp: epoll_add_kernel Let_def split: if_splits) (auto simp: epoll_watched_def fun_eq_iff)
next
  case (3 s fd m)
  then show ?case by (auto simp: epoll_add_kernel Let_def epoll_shape_def split: if_splits)
next
  case (5 s fd m)
  then show ?case by (auto simp: epoll_del_kernel Let_def epoll_refuses_def)
next
  case (6 s fd m)
  then show ?case by (simp add: epoll_del_kernel Let_def split: if_splits) (auto simp: epoll_watched_def fun_eq_iff)
next
  case (7 s fd m)
  then show ?case by (auto simp: epoll_del_kernel Let_def epoll_shape_def split: if_splits)
qed simp_all

end
