(* ===== verification/EventCenter.thy ===== *)
theory EventCenter
  imports EventDriver
begin

text \<open>
  The event centre (\<open>EventCenter\<close> in \<open>src/src/network/Event.cc\<close> and \<open>Event.h\<close>): the table of file
  events over a driver, timers, events from other threads, pollers, and one round of
  \<open>process_events\<close>. A callback is a pointer; what it does to the centre is the argument \<open>run\<close>, since
  \<open>do_request\<close> is virtual. Time is counted in microseconds. \<open>in_thread\<close> says whether the caller is
  the owner thread.
\<close>

section \<open>State\<close>

record file_event =
  fe_mask :: mask
  read_cb :: ptr
  write_cb :: ptr

definition file_event_new :: file_event where
  "file_event_new = \<lparr>fe_mask = {}, read_cb = nullptr, write_cb = nullptr\<rparr>"

text \<open>A timer: its expiry time, its number and its callback. \<open>time_events\<close> is ordered by expiry; the
  entries of \<open>event_map\<close> are the numbers of the timers it refers to.\<close>

record 'd center =
  nevent :: int
  file_events :: "file_event list"
  drv :: 'd
  external_events :: "ptr list"
  external_num_events :: nat
  time_events :: "(nat \<times> nat \<times> ptr) list"
  event_map :: "nat \<Rightarrow> bool"
  time_event_next_id :: nat
  pollers :: "ptr list"
  slots :: "ptr \<Rightarrow> int"
  requests :: "(ptr \<times> nat) list"
  wakeups :: nat
  notify_receive_fd :: int
  notify_send_fd :: int
  notify_handler :: ptr

definition center_new :: "'d \<Rightarrow> 'd center" where
  "center_new d = \<lparr>nevent = 0, file_events = [], drv = d, external_events = [], external_num_events = 0,
     time_events = [], event_map = \<lambda>_. False, time_event_next_id = 1, pollers = [], slots = \<lambda>_. - 1, requests = [], wakeups = 0,
     notify_receive_fd = - 1, notify_send_fd = - 1, notify_handler = nullptr\<rparr>"

text \<open>\<open>pipe_cloexec\<close>: \<open>p\<close> is the result of \<open>pipe\<close> with the two descriptors, \<open>f1\<close> and \<open>f2\<close> the results of
  setting the close-on-exec flags. The descriptors to close again are the last component.\<close>

definition pipe_cloexec :: "int \<Rightarrow> int \<times> int \<Rightarrow> int \<Rightarrow> int \<Rightarrow> int \<times> int list" where
  "pipe_cloexec p fds f1 f2 =
     (if p = - 1 then (- 1, [])
      else if f1 < 0 then (- 1, [fst fds, snd fds])
      else if f2 < 0 then (- 1, [fst fds, snd fds])
      else (0, []))"

text \<open>\<open>std::vector::resize\<close> of the table.\<close>

definition resize_table :: "int \<Rightarrow> file_event list \<Rightarrow> file_event list" where
  "resize_table n fs = take (nat n) fs @ replicate (nat n - length fs) file_event_new"

text \<open>\<open>init\<close>: \<open>r\<close> is the result of the driver's \<open>init\<close>, \<open>d\<close> its state; \<open>p\<close>, \<open>e\<close> the result and
  \<open>errno\<close> of creating the notification pipe \<open>fds\<close>, \<open>n1\<close>, \<open>n2\<close> the results of making its ends
  non-blocking. \<open>need\<close> is the driver's \<open>need_wakeup\<close>, true for both drivers.\<close>

definition center_init ::
  "bool \<Rightarrow> int \<Rightarrow> int \<Rightarrow> 'd \<Rightarrow> int \<Rightarrow> int \<Rightarrow> int \<times> int \<Rightarrow> int \<Rightarrow> int \<Rightarrow> 'd center \<Rightarrow> (int \<times> 'd center) result" where
  "center_init need n r d p e fds n1 n2 c =
     kassert (nevent c = 0)
       (let c1 = c\<lparr>drv := d\<rparr> in
        if r < 0 then Inr (r, c1)
        else let c2 = c1\<lparr>file_events := resize_table n (file_events c1), nevent := n\<rparr> in
          if \<not> need then Inr (0, c2)
          else if p < 0 then Inr (- e, c2)
          else let c3 = c2\<lparr>notify_receive_fd := fst fds, notify_send_fd := snd fds\<rparr> in
            if n1 < 0 then Inr (n1, c3) else if n2 < 0 then Inr (n2, c3) else Inr (n2, c3))"

section \<open>File events\<close>

definition get_file_event :: "int \<Rightarrow> 'd center \<Rightarrow> file_event result" where
  "get_file_event fd c =
     kassert (fd < nevent c)
       (if fd < 0 \<or> int (length (file_events c)) \<le> fd then Inl OutOfBounds else Inr (file_events c ! nat fd))"

text \<open>The growing of the table: the size is quadrupled until the descriptor fits. The size is a 32-bit signed
  integer, and a shift out of its range is a fault. A table of size 0 would never grow.\<close>

definition shl2 :: "int \<Rightarrow> int result" where
  "shl2 n = (if - (2 ^ 31) \<le> n * 4 \<and> n * 4 < 2 ^ 31 then Inr (n * 4) else Inl SignedOverflow)"

partial_function (option) grow :: "int \<Rightarrow> int \<Rightarrow> int result option" where
  "grow fd new_size =
     (if fd \<ge> new_size then (case shl2 new_size of Inl e \<Rightarrow> Some (Inl e) | Inr n \<Rightarrow> grow fd n) else Some (Inr new_size))"

definition expand :: "int \<Rightarrow> (int \<Rightarrow> 'd \<Rightarrow> int \<times> 'd) \<Rightarrow> 'd center \<Rightarrow> (int \<times> 'd center) result option" where
  "expand fd resize c =
     obind (Some (shl2 (nevent c))) (\<lambda>n. obind (grow fd n) (\<lambda>sz.
       let (r, d) = resize sz (drv c) in
       if r < 0 then Some (Inr (r, c\<lparr>drv := d\<rparr>))
       else Some (Inr (0, c\<lparr>drv := d, file_events := resize_table sz (file_events c), nevent := sz\<rparr>))))"

definition ERANGE :: int where "ERANGE = 34"

definition set_event :: "(int \<Rightarrow> mask \<Rightarrow> mask \<Rightarrow> 'd \<Rightarrow> int \<times> 'd) \<Rightarrow> int \<Rightarrow> mask \<Rightarrow> ptr \<Rightarrow> 'd center \<Rightarrow> (int \<times> 'd center) result" where
  "set_event add fd m ctxt c =
     rbind (get_file_event fd c) (\<lambda>ev.
       if fe_mask ev = m then Inr (0, c)
       else let (r, d) = add fd (fe_mask ev) m (drv c) in
         if r < 0 then Inl AbortCall
         else Inr (0, c\<lparr>drv := d, file_events := (file_events c)[nat fd :=
                \<lparr>fe_mask = fe_mask ev \<union> m, read_cb = (if EVENT_READABLE \<in> m then ctxt else read_cb ev),
                 write_cb = (if EVENT_WRITABLE \<in> m then ctxt else write_cb ev)\<rparr>]\<rparr>))"

definition create_file_event ::
  "bool \<Rightarrow> (int \<Rightarrow> 'd \<Rightarrow> int \<times> 'd) \<Rightarrow> (int \<Rightarrow> mask \<Rightarrow> mask \<Rightarrow> 'd \<Rightarrow> int \<times> 'd) \<Rightarrow> int \<Rightarrow> mask \<Rightarrow> ptr \<Rightarrow> 'd center \<Rightarrow>
   (int \<times> 'd center) result option" where
  "create_file_event in_thread resize add fd m ctxt c =
     (if \<not> in_thread then Some (Inl KAssert)
      else if fd \<ge> nevent c then
        obind (expand fd resize c) (\<lambda>(r, c1).
          if r < 0 then Some (Inr (- ERANGE, c1)) else Some (set_event add fd m ctxt c1))
      else Some (set_event add fd m ctxt c))"

definition delete_file_event ::
  "bool \<Rightarrow> (int \<Rightarrow> mask \<Rightarrow> mask \<Rightarrow> 'd \<Rightarrow> int \<times> 'd) \<Rightarrow> int \<Rightarrow> mask \<Rightarrow> 'd center \<Rightarrow> 'd center result" where
  "delete_file_event in_thread del fd m c =
     kassert (in_thread \<and> fd \<ge> 0)
       (if fd \<ge> nevent c then Inr c
        else rbind (get_file_event fd c) (\<lambda>ev.
          if fe_mask ev = {} then Inr c
          else let (r, d) = del fd (fe_mask ev) m (drv c) in
            if r < 0 then Inl AbortCall
            else Inr (c\<lparr>drv := d, file_events := (file_events c)[nat fd :=
                 \<lparr>fe_mask = fe_mask ev - m, read_cb = (if EVENT_READABLE \<in> m then nullptr else read_cb ev),
                  write_cb = (if EVENT_WRITABLE \<in> m then nullptr else write_cb ev)\<rparr>]\<rparr>)))"

section \<open>Timers\<close>

text \<open>\<open>std::multimap::insert\<close>: after the entries with the same key.\<close>

fun insert_timer :: "nat \<times> nat \<times> ptr \<Rightarrow> (nat \<times> nat \<times> ptr) list \<Rightarrow> (nat \<times> nat \<times> ptr) list" where
  "insert_timer t [] = [t]"
| "insert_timer t (u # us) = (if fst u \<le> fst t then u # insert_timer t us else t # u # us)"

definition create_time_event :: "bool \<Rightarrow> nat \<Rightarrow> nat \<Rightarrow> ptr \<Rightarrow> 'd center \<Rightarrow> (nat \<times> 'd center) result" where
  "create_time_event in_thread now us ctxt c =
     kassert in_thread
       (let i = time_event_next_id c in
        Inr (i, c\<lparr>time_event_next_id := i + 1, time_events := insert_timer (now + us, i, ctxt) (time_events c),
                  event_map := (event_map c)(i := True)\<rparr>))"

definition delete_time_event :: "bool \<Rightarrow> nat \<Rightarrow> 'd center \<Rightarrow> 'd center result" where
  "delete_time_event in_thread i c =
     kassert in_thread
       (if i \<ge> time_event_next_id c \<or> i = 0 then Inr c
        else if \<not> event_map c i then Inr c
        else Inr (c\<lparr>time_events := filter (\<lambda>(t, j, cb). j \<noteq> i) (time_events c), event_map := (event_map c)(i := False)\<rparr>))"

text \<open>Calling a callback; a null callback is a null dereference.\<close>

definition do_request :: "(ptr \<Rightarrow> nat \<Rightarrow> 'd center \<Rightarrow> 'd center) \<Rightarrow> ptr \<Rightarrow> nat \<Rightarrow> 'd center \<Rightarrow> 'd center result" where
  "do_request run cb arg c =
     (if cb = nullptr then Inl NullDeref else Inr (run cb arg (c\<lparr>requests := requests c @ [(cb, arg)]\<rparr>)))"

text \<open>A callback may create new timers, so the loop need not end.\<close>

partial_function (option) process_time_loop ::
  "(ptr \<Rightarrow> nat \<Rightarrow> 'd center \<Rightarrow> 'd center) \<Rightarrow> nat \<Rightarrow> int \<Rightarrow> 'd center \<Rightarrow> (int \<times> 'd center) result option" where
  "process_time_loop run now processed c =
     (case time_events c of
        [] \<Rightarrow> Some (Inr (processed, c))
      | (t, i, cb) # rest \<Rightarrow>
          if now \<ge> t then
            (case do_request run cb i (c\<lparr>time_events := rest, event_map := (event_map c)(i := False)\<rparr>) of
               Inl f \<Rightarrow> Some (Inl f)
             | Inr c' \<Rightarrow> process_time_loop run now (processed + 1) c')
          else Some (Inr (processed, c)))"

definition process_time_events ::
  "(ptr \<Rightarrow> nat \<Rightarrow> 'd center \<Rightarrow> 'd center) \<Rightarrow> nat \<Rightarrow> 'd center \<Rightarrow> (int \<times> 'd center) result option" where
  "process_time_events run now c = process_time_loop run now 0 c"

section \<open>Events from other threads\<close>

definition wakeup :: "bool \<Rightarrow> int \<Rightarrow> int \<Rightarrow> 'd center \<Rightarrow> 'd center result" where
  "wakeup need n e c =
     (if pollers c \<noteq> [] \<or> \<not> need then Inr c
      else if n < 0 \<and> e \<noteq> EAGAIN then Inl AbortCall
      else Inr (c\<lparr>wakeups := wakeups c + 1\<rparr>))"

text \<open>\<open>n\<close>, \<open>e\<close>: the result and \<open>errno\<close> of writing to the notification pipe.\<close>

definition dispatch_event_external :: "bool \<Rightarrow> int \<Rightarrow> int \<Rightarrow> ptr \<Rightarrow> 'd center \<Rightarrow> 'd center result" where
  "dispatch_event_external in_thread n e ev c =
     (if external_num_events c > 0 \<and> external_events c = [] then Inl OutOfBounds
      else if external_num_events c > 0 \<and> last (external_events c) = ev then Inr c
      else let c1 = c\<lparr>external_events := external_events c @ [ev], external_num_events := external_num_events c + 1\<rparr> in
        if external_num_events c1 = 1 \<and> \<not> in_thread then wakeup True n e c1 else Inr c1)"

fun run_external :: "(ptr \<Rightarrow> nat \<Rightarrow> 'd center \<Rightarrow> 'd center) \<Rightarrow> ptr list \<Rightarrow> 'd center \<Rightarrow> 'd center result" where
  "run_external run [] c = Inr c"
| "run_external run (e # es) c = rbind (do_request run e 0 c) (run_external run es)"

section \<open>Pollers\<close>

definition poller_new :: "ptr \<Rightarrow> 'd center \<Rightarrow> 'd center" where
  "poller_new p c = c\<lparr>slots := (slots c)(p := int (length (pollers c))), pollers := pollers c @ [p]\<rparr>"

definition poller_destroy :: "ptr \<Rightarrow> 'd center \<Rightarrow> 'd center result" where
  "poller_destroy p c =
     (let s = slots c p in
      if pollers c = [] \<or> s < 0 \<or> int (length (pollers c)) \<le> s then Inl OutOfBounds
      else let l = last (pollers c); ps = (pollers c)[nat s := l] in
        Inr (c\<lparr>slots := ((slots c)(l := s))(p := - 1), pollers := butlast ps\<rparr>))"

section \<open>One round\<close>

text \<open>The pointer to the entry is kept while the read callback runs; if the callback made the table grow,
  the vector was reallocated and the pointer dangles.\<close>

definition fire_one :: "(ptr \<Rightarrow> nat \<Rightarrow> 'd center \<Rightarrow> 'd center) \<Rightarrow> int \<times> mask \<Rightarrow> 'd center \<Rightarrow> 'd center result" where
  "fire_one run f c =
     (let (fd, m) = f in
      rbind (get_file_event fd c) (\<lambda>ev.
        let rfired = (EVENT_READABLE \<in> fe_mask ev \<inter> m) in
        rbind (if rfired then do_request run (read_cb ev) (nat fd) c else Inr c) (\<lambda>c1.
        if length (file_events c) < length (file_events c1) then Inl UseAfterFree
        else rbind (get_file_event fd c1) (\<lambda>ev1.
          if EVENT_WRITABLE \<in> fe_mask ev1 \<inter> m \<and> (\<not> rfired \<or> read_cb ev1 \<noteq> write_cb ev1)
          then do_request run (write_cb ev1) (nat fd) c1 else Inr c1))))"

fun fire_all :: "(ptr \<Rightarrow> nat \<Rightarrow> 'd center \<Rightarrow> 'd center) \<Rightarrow> (int \<times> mask) list \<Rightarrow> 'd center \<Rightarrow> 'd center result" where
  "fire_all run [] c = Inr c"
| "fire_all run (f # fs) c = rbind (fire_one run f c) (fire_all run fs)"

text \<open>The time to wait and whether timers are due at the end of the wait.\<close>

definition wait_time :: "nat \<Rightarrow> nat \<Rightarrow> 'd center \<Rightarrow> nat \<times> bool" where
  "wait_time now timeout c =
     (case time_events c of
        (t, i, cb) # _ \<Rightarrow> if now + timeout \<ge> t then (if t > now then t - now else 0, True) else (timeout, False)
      | [] \<Rightarrow> (timeout, False))"

text \<open>\<open>fired\<close> is what the driver reports, \<open>now2\<close> the time when the timers are run, \<open>polls\<close> the results of
  the pollers.\<close>

definition process_events ::
  "(ptr \<Rightarrow> nat \<Rightarrow> 'd center \<Rightarrow> 'd center) \<Rightarrow> nat \<Rightarrow> nat \<Rightarrow> nat \<Rightarrow> (int \<times> mask) list \<Rightarrow> (ptr \<Rightarrow> int) \<Rightarrow> 'd center \<Rightarrow>
   (int \<times> 'd center) result option" where
  "process_events run now timeout now2 fired polls c =
     (let (_, trigger) = wait_time now timeout c;
          blocking = (pollers c = [] \<and> external_num_events c = 0) in
      case fire_all run fired c of
        Inl f \<Rightarrow> Some (Inl f)
      | Inr c1 \<Rightarrow>
          Option.bind (if trigger then process_time_events run now2 c1 else Some (Inr (0, c1))) (\<lambda>res. case res of
            Inl f \<Rightarrow> Some (Inl f)
          | Inr (n, c2) \<Rightarrow>
              Some (rbind (if external_num_events c2 \<noteq> 0
                           then rbind (run_external run (external_events c2) (c2\<lparr>external_events := [], external_num_events := 0\<rparr>))
                                  (\<lambda>c'. Inr (int (length (external_events c2)), c'))
                           else Inr (0, c2))
                (\<lambda>(k, c3).
                   let total = int (length fired) + n + k in
                   Inr (if total = 0 \<and> \<not> blocking then total + sum_list (map polls (pollers c3)) else total, c3)))))"

section \<open>The owner, the notification and the end\<close>

text \<open>\<open>set_owner\<close>: the caller becomes the owner (so \<open>in_thread\<close> holds for it) and the read end of the pipe
  is watched. \<open>first\<close> says that \<open>global_centers\<close> was not set, \<open>h\<close> is the new handler; the result of
  registering it is ignored.\<close>

definition set_owner ::
  "bool \<Rightarrow> bool \<Rightarrow> (int \<Rightarrow> 'd \<Rightarrow> int \<times> 'd) \<Rightarrow> (int \<Rightarrow> mask \<Rightarrow> mask \<Rightarrow> 'd \<Rightarrow> int \<times> 'd) \<Rightarrow> ptr \<Rightarrow> 'd center \<Rightarrow>
   'd center result option" where
  "set_owner first need resize add h c =
     (if first \<and> need
      then Option.bind (create_file_event True resize add (notify_receive_fd c) {EVENT_READABLE} h (c\<lparr>notify_handler := h\<rparr>))
             (\<lambda>res. Some (rbind res (\<lambda>(r, c'). Inr c')))
      else Some (Inr c))"

text \<open>The notification callback reads the pipe, 256 bytes at a time, until nothing is left. The read that finds
  nothing fails with \<open>EAGAIN\<close> and ends the loop. The result is the number of bytes left and the number
  of reads.\<close>

function drain_notify :: "nat \<Rightarrow> nat \<Rightarrow> nat \<times> nat" where
  "drain_notify pending reads =
     (let r = min pending 256 in if r > 0 then drain_notify (pending - r) (reads + 1) else (pending, reads + 1))"
  by pat_completeness auto
termination by (relation "measure fst") auto

text \<open>The destructor runs the external events that are left, skipping null ones. It holds the
  lock of the queue, so a callback that dispatches an event here would block; such callbacks are not
  considered.\<close>

fun run_left :: "(ptr \<Rightarrow> nat \<Rightarrow> 'd center \<Rightarrow> 'd center) \<Rightarrow> ptr list \<Rightarrow> 'd center \<Rightarrow> 'd center result" where
  "run_left run [] c = Inr c"
| "run_left run (e # es) c = rbind (if e = nullptr then Inr c else do_request run e 0 c) (run_left run es)"

definition center_destroy :: "(ptr \<Rightarrow> nat \<Rightarrow> 'd center \<Rightarrow> 'd center) \<Rightarrow> 'd center \<Rightarrow> ('d center \<times> int list) result" where
  "center_destroy run c =
     rbind (run_left run (external_events c) c) (\<lambda>c1.
       Inr (c1\<lparr>external_events := [], time_events := []\<rparr>,
            (if notify_receive_fd c1 \<ge> 0 then [notify_receive_fd c1] else []) @
            (if notify_send_fd c1 \<ge> 0 then [notify_send_fd c1] else [])))"

section \<open>The table and the driver agree\<close>

text \<open>The mask of a descriptor in the table; descriptors outside it have none.\<close>

definition mask_of :: "'d center \<Rightarrow> int \<Rightarrow> mask" where
  "mask_of c fd = (if 0 \<le> fd \<and> fd < int (length (file_events c)) then fe_mask (file_events c ! nat fd) else {})"

definition center_ok :: "('d \<Rightarrow> int \<Rightarrow> mask) \<Rightarrow> ('d \<Rightarrow> bool) \<Rightarrow> 'd center \<Rightarrow> bool" where
  "center_ok watched ok c \<longleftrightarrow>
     nevent c = int (length (file_events c)) \<and> 0 < nevent c \<and> ok (drv c) \<and> watched (drv c) = mask_of c"

text \<open>Descriptors below \<open>2 ^ 29\<close>, far above the limits of the kernel, always fit: the size stays below
  \<open>2 ^ 31\<close>.\<close>

definition fd_limit :: int where "fd_limit = 536870912"

abbreviation fd_ok :: "int \<Rightarrow> bool" where "fd_ok fd \<equiv> 0 \<le> fd \<and> fd < fd_limit"

lemma grow_returns:
  assumes "0 < n" and "fd < fd_limit"
  shows "\<exists>sz. grow fd n = Some (Inr sz) \<and> fd < sz \<and> n \<le> sz \<and> (sz = n \<or> sz \<le> 4 * fd)"
  using assms(1)
proof (induction "nat (fd - n + 1)" arbitrary: n rule: less_induct)
  case less
  show ?case
  proof (cases "fd \<ge> n")
    case True
    then have s: "shl2 n = Inr (n * 4)" using assms(2) less.prems by (simp add: shl2_def fd_limit_def)
    obtain sz where "grow fd (n * 4) = Some (Inr sz)" "fd < sz" "n * 4 \<le> sz" "sz = n * 4 \<or> sz \<le> 4 * fd"
      using less.hyps [of "n * 4"] less.prems True by auto
    then show ?thesis using True less.prems s by (subst grow.simps) auto
  next
    case False
    then show ?thesis by (subst grow.simps) auto
  qed
qed

lemma grow_from:
  assumes "0 < nevent c" and "nevent c \<le> fd" and "fd < fd_limit"
  obtains sz where "shl2 (nevent c) = Inr (nevent c * 4)" "grow fd (nevent c * 4) = Some (Inr sz)" "fd < sz" "nevent c * 4 \<le> sz"
  using grow_returns [of "nevent c * 4" fd] assms by (auto simp: shl2_def fd_limit_def)

lemma resize_table_nth:
  assumes "length fs \<le> nat n" and "i < nat n"
  shows "resize_table n fs ! i = (if i < length fs then fs ! i else file_event_new)"
  using assms by (simp add: resize_table_def nth_append)

lemma length_resize_table [simp]: "length (resize_table n fs) = nat n"
  by (simp add: resize_table_def)

lemma mask_of_resize:
  assumes "int (length (file_events c)) \<le> n"
  shows "mask_of (c\<lparr>file_events := resize_table n (file_events c), nevent := n\<rparr>) = mask_of c"
  using assms by (auto simp: mask_of_def fun_eq_iff resize_table_nth file_event_new_def)

lemma mask_of_update:
  assumes "0 \<le> fd" and "fd < int (length (file_events c))"
  shows "mask_of (c\<lparr>drv := d, file_events := (file_events c)[nat fd := e]\<rparr>) = (mask_of c)(fd := fe_mask e)"
  using assms by (auto simp: mask_of_def fun_eq_iff nth_list_update nat_eq_iff)

lemma get_file_event_in:
  "0 \<le> fd \<Longrightarrow> fd < nevent c \<Longrightarrow> nevent c = int (length (file_events c)) \<Longrightarrow> get_file_event fd c = Inr (file_events c ! nat fd)"
  by (simp add: get_file_event_def)

text \<open>A driver that can grow: both drivers ignore the new size.\<close>

locale resizable_driver = event_driver add_ev del_ev watched drv_ok refuses
  for add_ev :: "int \<Rightarrow> mask \<Rightarrow> mask \<Rightarrow> 's \<Rightarrow> int \<times> 's" and del_ev and watched and drv_ok and refuses +
  fixes resize :: "int \<Rightarrow> 's \<Rightarrow> int \<times> 's"
  assumes resize_keeps: "resize n s = (0, s)"
begin

lemma expand_ok:
  assumes "center_ok watched drv_ok c" and "nevent c \<le> fd" and "fd < fd_limit"
  shows "\<exists>c'. expand fd resize c = Some (Inr (0, c')) \<and> center_ok watched drv_ok c' \<and> fd < nevent c' \<and> mask_of c' = mask_of c \<and>
    drv c' = drv c \<and> (\<forall>i<length (file_events c). file_events c' ! i = file_events c ! i)"
proof -
  have "0 < nevent c" using assms(1) unfolding center_ok_def by blast
  then obtain sz where sz: "shl2 (nevent c) = Inr (nevent c * 4)" "grow fd (nevent c * 4) = Some (Inr sz)" "fd < sz" "nevent c * 4 \<le> sz"
    using grow_from [OF _ assms(2,3)] by blast
  let ?c = "c\<lparr>file_events := resize_table sz (file_events c), nevent := sz\<rparr>"
  from sz assms have len: "int (length (file_events c)) \<le> sz" by (auto simp: center_ok_def)
  have "expand fd resize c = Some (Inr (0, ?c))" by (simp add: expand_def sz resize_keeps)
  moreover have "mask_of ?c = mask_of c" by (rule mask_of_resize [OF len])
  moreover have "center_ok watched drv_ok ?c"
    using assms(1) sz len mask_of_resize [OF len] by (auto simp: center_ok_def)
  moreover have "\<forall>i<length (file_events c). file_events ?c ! i = file_events c ! i"
    using len by (simp add: resize_table_nth nat_le_iff zless_nat_eq_int_zless)
  ultimately show ?thesis using sz(3) by auto
qed

text \<open>Every call either does what it should or meets a refusal and aborts.\<close>

lemma set_event_cases:
  assumes "center_ok watched drv_ok c" and "0 \<le> fd" and "fd < nevent c" and "m \<noteq> {}"
  shows "(set_event add_ev fd m ctxt c = Inl AbortCall \<and> refuses (drv c)) \<or>
    (\<exists>c'. set_event add_ev fd m ctxt c = Inr (0, c') \<and> center_ok watched drv_ok c' \<and> nevent c' = nevent c \<and>
    (refuses (drv c') \<longleftrightarrow> refuses (drv c)) \<and> mask_of c' = (mask_of c)(fd := mask_of c fd \<union> m) \<and>
    (mask_of c fd \<noteq> m \<longrightarrow> (EVENT_READABLE \<in> m \<longrightarrow> read_cb (file_events c' ! nat fd) = ctxt) \<and>
                          (EVENT_WRITABLE \<in> m \<longrightarrow> write_cb (file_events c' ! nat fd) = ctxt)))"
proof -
  let ?ev = "file_events c ! nat fd"
  from assms(1) have len: "nevent c = int (length (file_events c))" and w: "watched (drv c) = mask_of c" and ok: "drv_ok (drv c)"
    by (auto simp: center_ok_def)
  have get: "get_file_event fd c = Inr ?ev" by (rule get_file_event_in [OF assms(2,3) len])
  have m: "fe_mask ?ev = mask_of c fd" using assms(2,3) len by (simp add: mask_of_def)
  show ?thesis
  proof (cases "mask_of c fd = m")
    case True
    then show ?thesis using assms(1) by (auto simp: set_event_def get m fun_upd_idem)
  next
    case False
    obtain r d where a: "add_ev fd (mask_of c fd) m (drv c) = (r, d)" by fastforce
    have same: "refuses d = refuses (drv c)" using add_refuses [of fd "mask_of c fd" m "drv c"] a by simp
    show ?thesis
    proof (cases "r = 0")
      case True
      with a add_watched [OF ok assms(2,4)] add_ok [OF ok assms(2,4)] w
      have "watched d = (mask_of c)(fd := mask_of c fd \<union> m)" "drv_ok d" by auto
      with False True a same show ?thesis
        using assms len by (auto simp: set_event_def get m center_ok_def mask_of_update)
    next
      case r: False
      then have "r < 0" "refuses (drv c)" using add_result [OF ok assms(2,4)] a w by auto
      then show ?thesis using False a by (simp add: set_event_def get m)
    qed
  qed
qed

lemma create_file_event_cases:
  assumes "center_ok watched drv_ok c" and "0 \<le> fd" and "fd < fd_limit" and "m \<noteq> {}"
  shows "(create_file_event True resize add_ev fd m ctxt c = Some (Inl AbortCall) \<and> refuses (drv c)) \<or>
    (\<exists>c'. create_file_event True resize add_ev fd m ctxt c = Some (Inr (0, c')) \<and> center_ok watched drv_ok c' \<and>
    (refuses (drv c') \<longleftrightarrow> refuses (drv c)) \<and>
    (fd < nevent c \<longrightarrow> nevent c' = nevent c) \<and> (nevent c \<le> fd \<longrightarrow> nevent c < nevent c') \<and>
    mask_of c' = (mask_of c)(fd := mask_of c fd \<union> m) \<and>
    (mask_of c fd \<noteq> m \<longrightarrow> (EVENT_READABLE \<in> m \<longrightarrow> read_cb (file_events c' ! nat fd) = ctxt) \<and>
                          (EVENT_WRITABLE \<in> m \<longrightarrow> write_cb (file_events c' ! nat fd) = ctxt)))"
proof (cases "nevent c \<le> fd")
  case True
  then obtain c1 where c1: "expand fd resize c = Some (Inr (0, c1))" "center_ok watched drv_ok c1" "fd < nevent c1" "mask_of c1 = mask_of c"
      "drv c1 = drv c"
    using expand_ok [OF assms(1) _ assms(3)] by blast
  then show ?thesis using set_event_cases [OF c1(2) assms(2) c1(3) assms(4), of ctxt] True
    by (auto simp: create_file_event_def)
next
  case False
  then show ?thesis using set_event_cases [OF assms(1,2) _ assms(4), of ctxt] by (auto simp: create_file_event_def)
qed

lemma delete_file_event_cases:
  assumes "center_ok watched drv_ok c" and "0 \<le> fd"
  shows "(delete_file_event True del_ev fd m c = Inl AbortCall \<and> refuses (drv c)) \<or>
    (\<exists>c'. delete_file_event True del_ev fd m c = Inr c' \<and> center_ok watched drv_ok c' \<and>
    (refuses (drv c') \<longleftrightarrow> refuses (drv c)) \<and> mask_of c' = (mask_of c)(fd := mask_of c fd - m))"
proof (cases "mask_of c fd = {}")
  case True
  then show ?thesis
    using assms by (auto simp: delete_file_event_def get_file_event_in center_ok_def mask_of_def fun_upd_idem)
next
  case False
  let ?ev = "file_events c ! nat fd"
  from assms(1) have len: "nevent c = int (length (file_events c))" and w: "watched (drv c) = mask_of c" and ok: "drv_ok (drv c)"
    by (auto simp: center_ok_def)
  from False len have in_tab: "fd < nevent c" by (auto simp: mask_of_def split: if_splits)
  have get: "get_file_event fd c = Inr ?ev" by (rule get_file_event_in [OF assms(2) in_tab len])
  have m: "fe_mask ?ev = mask_of c fd" using assms(2) in_tab len by (simp add: mask_of_def)
  obtain r d where a: "del_ev fd (mask_of c fd) m (drv c) = (r, d)" by fastforce
  have ne: "watched (drv c) fd \<noteq> {}" using w False by simp
  have same: "refuses d = refuses (drv c)" using del_refuses [of fd "mask_of c fd" m "drv c"] a by simp
  show ?thesis
  proof (cases "r = 0")
    case True
    with a del_watched [OF ok assms(2) ne, of m] del_ok [OF ok assms(2) ne, of m] w
    have "watched d = (mask_of c)(fd := mask_of c fd - m)" "drv_ok d" by auto
    with False True a same show ?thesis
      using assms len in_tab by (auto simp: delete_file_event_def get m center_ok_def mask_of_update)
  next
    case r: False
    then have "r < 0" "refuses (drv c)" using del_result [OF ok assms(2) ne, of m] a w by auto
    then show ?thesis using False a assms(2) in_tab by (simp add: delete_file_event_def get m)
  qed
qed

end

text \<open>A driver whose system refuses nothing.\<close>

locale willing_driver = resizable_driver +
  assumes never_refuses: "drv_ok s \<Longrightarrow> \<not> refuses s"
begin

lemma create_file_event_ok:
  assumes "center_ok watched drv_ok c" and "0 \<le> fd" and "fd < fd_limit" and "m \<noteq> {}"
  shows "\<exists>c'. create_file_event True resize add_ev fd m ctxt c = Some (Inr (0, c')) \<and> center_ok watched drv_ok c' \<and>
    (fd < nevent c \<longrightarrow> nevent c' = nevent c) \<and> (nevent c \<le> fd \<longrightarrow> nevent c < nevent c') \<and>
    mask_of c' = (mask_of c)(fd := mask_of c fd \<union> m) \<and>
    (mask_of c fd \<noteq> m \<longrightarrow> (EVENT_READABLE \<in> m \<longrightarrow> read_cb (file_events c' ! nat fd) = ctxt) \<and>
                          (EVENT_WRITABLE \<in> m \<longrightarrow> write_cb (file_events c' ! nat fd) = ctxt))"
  using create_file_event_cases [OF assms, of ctxt] never_refuses [of "drv c"] assms(1) unfolding center_ok_def by blast

lemma delete_file_event_ok:
  assumes "center_ok watched drv_ok c" and "0 \<le> fd"
  shows "\<exists>c'. delete_file_event True del_ev fd m c = Inr c' \<and> center_ok watched drv_ok c' \<and>
    mask_of c' = (mask_of c)(fd := mask_of c fd - m)"
  using delete_file_event_cases [OF assms, of m] never_refuses [of "drv c"] assms(1) unfolding center_ok_def by blast

end

interpretation epoll_any: resizable_driver epoll_add_event epoll_del_event epoll_watched epoll_shape epoll_refuses epoll_resize_events
  by unfold_locales (simp add: epoll_resize_events_def)

interpretation epoll_center: willing_driver epoll_add_event epoll_del_event epoll_watched epoll_ok epoll_refuses epoll_resize_events
proof (unfold_locales, goal_cases)
  case (1 s fd m)
  then show ?case using epoll_drv.add_result by (auto simp: epoll_ok_def)
next
  case (2 s fd m)
  then show ?case using epoll_drv.add_watched by (auto simp: epoll_ok_def)
next
  case (3 s fd m)
  then show ?case using epoll_drv.add_ok by (auto simp: epoll_ok_def)
next
  case (5 s fd m)
  then show ?case using epoll_drv.del_result unfolding epoll_ok_def by blast
next
  case (6 s fd m)
  then show ?case using epoll_drv.del_watched unfolding epoll_ok_def by blast
next
  case (7 s fd m)
  then show ?case using epoll_drv.del_ok by (simp add: epoll_ok_def)
qed (simp_all add: epoll_ok_def epoll_resize_events_def)

interpretation select_center: willing_driver select_add_event select_del_event select_watched "\<lambda>_. True" "\<lambda>_. False" select_resize_events
  by unfold_locales (simp_all add: select_resize_events_def)

section \<open>What registering leaves alone\<close>

definition rest_same :: "'d center \<Rightarrow> 'd center \<Rightarrow> bool" where
  "rest_same c c' \<longleftrightarrow> c' = c\<lparr>drv := drv c', file_events := file_events c', nevent := nevent c'\<rparr>"

lemma rest_same_external: "rest_same c c' \<Longrightarrow> external_events c' = external_events c \<and> external_num_events c' = external_num_events c \<and>
    pollers c' = pollers c \<and> time_events c' = time_events c \<and> requests c' = requests c \<and> wakeups c' = wakeups c"
  unfolding rest_same_def by (cases c; cases c') simp

definition cbs_of :: "'d center \<Rightarrow> int \<Rightarrow> ptr \<times> ptr" where
  "cbs_of c fd = (if 0 \<le> fd \<and> fd < int (length (file_events c)) then (read_cb (file_events c ! nat fd), write_cb (file_events c ! nat fd)) else (nullptr, nullptr))"

lemma set_event_cbs:
  assumes "set_event add fd m ctxt c = Inr (r, c')" and "0 \<le> fd" and "fd < nevent c" and "nevent c = int (length (file_events c))"
    and "mask_of c fd \<noteq> m"
  shows "rest_same c c' \<and> cbs_of c' fd = (if EVENT_READABLE \<in> m then ctxt else fst (cbs_of c fd), if EVENT_WRITABLE \<in> m then ctxt else snd (cbs_of c fd))"
  using assms get_file_event_in [OF assms(2-4)]
  by (auto simp: set_event_def rest_same_def cbs_of_def mask_of_def split: prod.splits if_splits)

lemma create_file_event_cbs:
  assumes "create_file_event True epoll_resize_events epoll_add_event fd m ctxt c = Some (Inr (0, c'))" and "center_ok epoll_watched epoll_ok c"
    and "0 \<le> fd" and "fd < fd_limit" and "mask_of c fd \<noteq> m"
  shows "rest_same c c' \<and> cbs_of c' fd = (if EVENT_READABLE \<in> m then ctxt else fst (cbs_of c fd), if EVENT_WRITABLE \<in> m then ctxt else snd (cbs_of c fd))"
proof (cases "nevent c \<le> fd")
  case True
  have "0 < nevent c" using assms(2) unfolding center_ok_def by blast
  then obtain sz where sz: "shl2 (nevent c) = Inr (nevent c * 4)" "grow fd (nevent c * 4) = Some (Inr sz)" "fd < sz" "nevent c * 4 \<le> sz"
    using grow_from [OF _ True assms(4)] by blast
  let ?c = "c\<lparr>file_events := resize_table sz (file_events c), nevent := sz\<rparr>"
  have len: "int (length (file_events c)) \<le> sz" using sz assms(2) by (auto simp: center_ok_def)
  have set: "set_event epoll_add_event fd m ctxt ?c = Inr (0, c')"
    using assms(1) True sz by (simp add: create_file_event_def expand_def epoll_resize_events_def)
  have "mask_of ?c fd \<noteq> m" using mask_of_resize [OF len] assms(5) by simp
  moreover have "cbs_of ?c fd = cbs_of c fd"
    using True len sz assms(2,3) by (auto simp: cbs_of_def center_ok_def resize_table_nth file_event_new_def)
  moreover have "nevent ?c = int (length (file_events ?c))" "fd < nevent ?c" using assms(3) sz(3) by simp_all
  ultimately have "rest_same ?c c'" "cbs_of c' fd = (if EVENT_READABLE \<in> m then ctxt else fst (cbs_of c fd), if EVENT_WRITABLE \<in> m then ctxt else snd (cbs_of c fd))"
    using set_event_cbs [OF set assms(3)] by auto
  then show ?thesis by (simp add: rest_same_def)
next
  case False
  then show ?thesis
    using set_event_cbs [of epoll_add_event fd m ctxt c 0 c'] assms by (simp add: create_file_event_def center_ok_def)
qed

lemma delete_file_event_cbs:
  assumes "delete_file_event True epoll_del_event fd m c = Inr c'" and "center_ok epoll_watched epoll_ok c"
  shows "rest_same c c' \<and> (mask_of c fd \<noteq> {} \<longrightarrow>
    cbs_of c' fd = (if EVENT_READABLE \<in> m then nullptr else fst (cbs_of c fd), if EVENT_WRITABLE \<in> m then nullptr else snd (cbs_of c fd)))"
proof -
  have n: "nevent c = int (length (file_events c))" and fd: "0 \<le> fd" using assms by (auto simp: center_ok_def delete_file_event_def)
  have same: "rest_same c c" by (simp add: rest_same_def)
  show ?thesis
  proof (cases "nevent c \<le> fd")
    case True
    then show ?thesis using assms(1) n same by (auto simp: delete_file_event_def mask_of_def)
  next
    case False
    then show ?thesis
      using assms(1) get_file_event_in [OF fd _ n] fd n same
      by (auto simp: delete_file_event_def rest_same_def cbs_of_def mask_of_def split: prod.splits if_splits)
  qed
qed

section \<open>Sequences of registrations\<close>

datatype file_op = CreateEv int mask ptr | DeleteEv int mask

definition op_valid :: "file_op \<Rightarrow> bool" where
  "op_valid p = (case p of CreateEv fd m cb \<Rightarrow> 0 \<le> fd \<and> fd < fd_limit \<and> m \<noteq> {} | DeleteEv fd m \<Rightarrow> 0 \<le> fd)"

definition apply_op :: "file_op \<Rightarrow> epoll_driver center \<Rightarrow> epoll_driver center result option" where
  "apply_op p c = (case p of
      CreateEv fd m cb \<Rightarrow> map_option (\<lambda>r. rbind r (\<lambda>(n, c'). Inr c')) (create_file_event True epoll_resize_events epoll_add_event fd m cb c)
    | DeleteEv fd m \<Rightarrow> Some (delete_file_event True epoll_del_event fd m c))"

fun apply_ops :: "file_op list \<Rightarrow> epoll_driver center \<Rightarrow> epoll_driver center result option" where
  "apply_ops [] c = Some (Inr c)"
| "apply_ops (p # ps) c =
     Option.bind (apply_op p c) (\<lambda>r. case r of Inl f \<Rightarrow> Some (Inl f) | Inr c' \<Rightarrow> apply_ops ps c')"

text \<open>The specification: a map from descriptors to masks.\<close>

definition spec_op :: "file_op \<Rightarrow> (int \<Rightarrow> mask) \<Rightarrow> int \<Rightarrow> mask" where
  "spec_op p f = (case p of CreateEv fd m cb \<Rightarrow> f(fd := f fd \<union> m) | DeleteEv fd m \<Rightarrow> f(fd := f fd - m))"

lemma apply_op_cases:
  assumes "center_ok epoll_watched epoll_shape c" and "op_valid p"
  shows "(apply_op p c = Some (Inl AbortCall) \<and> epoll_refuses (drv c)) \<or>
    (\<exists>c'. apply_op p c = Some (Inr c') \<and> center_ok epoll_watched epoll_shape c' \<and> mask_of c' = spec_op p (mask_of c) \<and>
      (epoll_refuses (drv c') \<longleftrightarrow> epoll_refuses (drv c)))"
proof (cases p)
  case (CreateEv fd m cb)
  with assms(2) epoll_any.create_file_event_cases [OF assms(1), of fd m cb] show ?thesis
    by (auto simp: apply_op_def op_valid_def spec_op_def)
next
  case (DeleteEv fd m)
  with assms(2) epoll_any.delete_file_event_cases [OF assms(1), of fd m] show ?thesis
    by (auto simp: apply_op_def op_valid_def spec_op_def)
qed

definition fresh_center :: "epoll_driver center" where
  "fresh_center = (center_new ((epoll_new (\<lambda>_ _ _. 0))\<lparr>epfd := 3, ep_nevent := 8\<rparr>))\<lparr>nevent := 8, file_events := replicate 8 file_event_new\<rparr>"

lemma fresh_center_ok: "center_ok epoll_watched epoll_ok fresh_center"
  by (auto simp: center_ok_def fresh_center_def center_new_def epoll_new_def epoll_ok_def epoll_shape_def epoll_refuses_def epoll_watched_def
      mask_of_def file_event_new_def fun_eq_iff nth_Cons split: nat.split)

lemma nevent_fresh: "nevent fresh_center = 8"
  by (simp add: fresh_center_def)

lemma mask_of_fresh: "mask_of fresh_center = (\<lambda>_. {})"
  by (auto simp: fresh_center_def center_new_def epoll_new_def mask_of_def file_event_new_def fun_eq_iff nth_Cons split: nat.split)

text \<open>C7: For every sequence of registrations and removals of file events, of descriptors below \<open>2 ^ 29\<close>, on an
  event centre whose table agrees with the kernel: when the kernel has the resources for every
  \<open>epoll_ctl\<close>, nothing aborts, the table grows as needed and its 32-bit size does not overflow, and
  afterwards the kernel's interest list and the table both are what the specification says, for each
  descriptor the union of the masks added less the masks removed since. When the kernel may refuse a call
  (\<open>ENOMEM\<close>, \<open>ENOSPC\<close>, \<open>EPERM\<close>), the sequence ends in the same way or by the \<open>abort\<close> of \<open>create_file_event\<close>
  or \<open>delete_file_event\<close>, with no other fault.\<close>

theorem file_events_in_sync:
  assumes "center_ok epoll_watched epoll_shape c" and "list_all op_valid ps"
  shows "(\<exists>c'. apply_ops ps c = Some (Inr c') \<and> center_ok epoll_watched epoll_shape c' \<and>
      epoll_watched (drv c') = fold spec_op ps (mask_of c) \<and> mask_of c' = fold spec_op ps (mask_of c)) \<or>
    (apply_ops ps c = Some (Inl AbortCall) \<and> epoll_refuses (drv c))"
  using assms
proof (induction ps arbitrary: c)
  case Nil
  then show ?case by (auto simp: center_ok_def)
next
  case (Cons p ps)
  then consider "apply_op p c = Some (Inl AbortCall)" "epoll_refuses (drv c)"
    | c1 where "apply_op p c = Some (Inr c1)" "center_ok epoll_watched epoll_shape c1" "mask_of c1 = spec_op p (mask_of c)"
        "epoll_refuses (drv c1) \<longleftrightarrow> epoll_refuses (drv c)"
    using apply_op_cases [of c p] by auto
  then show ?case
  proof cases
    case 2
    with Cons.IH [OF 2(2)] Cons.prems(2) show ?thesis by simp
  qed simp
qed

theorem file_events_in_sync_witness:
  "\<exists>c'. apply_ops [CreateEv 5 {EVENT_READABLE} 100, CreateEv 40 {EVENT_WRITABLE} 200, DeleteEv 5 {EVENT_READABLE}] fresh_center = Some (Inr c') \<and>
     epoll_watched (drv c') 5 = {} \<and> epoll_watched (drv c') 40 = {EVENT_WRITABLE}"
proof -
  have "list_all op_valid [CreateEv 5 {EVENT_READABLE} 100, CreateEv 40 {EVENT_WRITABLE} 200, DeleteEv 5 {EVENT_READABLE}]"
    by (simp add: op_valid_def fd_limit_def)
  moreover have "center_ok epoll_watched epoll_shape fresh_center" "\<not> epoll_refuses (drv fresh_center)"
    using fresh_center_ok unfolding center_ok_def epoll_ok_def by blast+
  ultimately show ?thesis
    using file_events_in_sync [of fresh_center "[CreateEv 5 {EVENT_READABLE} 100, CreateEv 40 {EVENT_WRITABLE} 200, DeleteEv 5 {EVENT_READABLE}]"]
    by (auto simp: spec_op_def mask_of_fresh)
qed

text \<open>A kernel that refuses the first call: the process aborts.\<close>

definition full_kernel_center :: "epoll_driver center" where
  "full_kernel_center = fresh_center\<lparr>drv := (drv fresh_center)\<lparr>ep_answer := \<lambda>n op fd. nat ENOMEM\<rparr>\<rparr>"

theorem refused_registration_aborts:
  "create_file_event True epoll_resize_events epoll_add_event 5 {EVENT_READABLE} 100 full_kernel_center = Some (Inl AbortCall)"
proof -
  have "get_file_event 5 full_kernel_center = Inr file_event_new" "nevent full_kernel_center = 8"
    by (simp_all add: get_file_event_def full_kernel_center_def fresh_center_def center_new_def nth_Cons')
  then show ?thesis
    by (simp add: create_file_event_def set_event_def file_event_new_def epoll_add_event_def kernel_call_def epoll_ctl_def
      full_kernel_center_def ENOMEM_def)
qed

text \<open>The growing loop overflows for huge descriptors: with the 5000 entries the stack asks for, the size is
  shifted out of the 32-bit range when the descriptor is \<open>5000 * 4 ^ 9\<close> or more.\<close>

theorem grow_overflows: "expand 1310720000 resize (c\<lparr>nevent := 5000\<rparr>) = Some (Inl SignedOverflow)"
  by (simp add: expand_def shl2_def grow.simps)

text \<open>Registering a descriptor again with the very mask it has does nothing: the call returns 0 and the old
  callback stays, although another callback was passed.\<close>

theorem create_same_mask_ignored:
  assumes "center_ok epoll_watched epoll_ok c" and "0 \<le> fd" and "fd < nevent c" and "mask_of c fd = m"
  shows "create_file_event True epoll_resize_events epoll_add_event fd m cb c = Some (Inr (0, c))"
  using assms by (auto simp: create_file_event_def set_event_def get_file_event_in center_ok_def mask_of_def)

definition one_event_center :: "epoll_driver center" where
  "one_event_center = (case create_file_event True epoll_resize_events epoll_add_event 5 {EVENT_READABLE} 100 fresh_center of
     Some (Inr (r, c)) \<Rightarrow> c | _ \<Rightarrow> fresh_center)"

lemma one_event_center_ok:
  "center_ok epoll_watched epoll_ok one_event_center \<and> mask_of one_event_center 5 = {EVENT_READABLE} \<and>
   read_cb (file_events one_event_center ! 5) = 100 \<and> nevent one_event_center = 8"
proof -
  from epoll_center.create_file_event_ok [OF fresh_center_ok, of 5 "{EVENT_READABLE}" 100, unfolded fd_limit_def]
  obtain c' where c': "create_file_event True epoll_resize_events epoll_add_event 5 {EVENT_READABLE} 100 fresh_center = Some (Inr (0, c'))"
    and ok: "center_ok epoll_watched epoll_ok c'" "mask_of c' 5 = {EVENT_READABLE}" "read_cb (file_events c' ! 5) = 100"
      "nevent c' = nevent fresh_center"
    by (auto simp: mask_of_fresh nevent_fresh)
  with nevent_fresh c' ok show ?thesis by (simp add: one_event_center_def)
qed

theorem create_same_mask_ignored_witness:
  "create_file_event True epoll_resize_events epoll_add_event 5 {EVENT_READABLE} 999 one_event_center = Some (Inr (0, one_event_center)) \<and>
   read_cb (file_events one_event_center ! 5) = 100"
  using create_same_mask_ignored [of one_event_center 5 "{EVENT_READABLE}" 999] one_event_center_ok by simp

section \<open>A table that grows under a callback\<close>

text \<open>A read callback that registers the descriptor \<open>new_fd\<close>.\<close>

definition register_cb :: "int \<Rightarrow> ptr \<Rightarrow> nat \<Rightarrow> epoll_driver center \<Rightarrow> epoll_driver center" where
  "register_cb new_fd cb arg c =
     (case create_file_event True epoll_resize_events epoll_add_event new_fd {EVENT_READABLE} cb c of
        Some (Inr (r, c')) \<Rightarrow> c' | _ \<Rightarrow> c)"

text \<open>\<open>process_events\<close> keeps a pointer into the table while the read callback runs. If the callback registers
  a descriptor that does not fit the table (an accepted connection, say), the table is reallocated, and
  the test for the write event then reads freed memory.\<close>

theorem growth_under_callback_dangles:
  assumes "center_ok epoll_watched epoll_ok c" and "0 \<le> fd" and "EVENT_READABLE \<in> mask_of c fd" and "EVENT_READABLE \<in> m"
    and "read_cb (file_events c ! nat fd) \<noteq> nullptr" and "nevent c \<le> new_fd" and "new_fd < fd_limit"
  shows "fire_one (register_cb new_fd) (fd, m) c = Inl UseAfterFree"
proof -
  let ?cb = "read_cb (file_events c ! nat fd)"
  let ?c = "c\<lparr>requests := requests c @ [(?cb, nat fd)]\<rparr>"
  have in_tab: "fd < nevent c" and len: "nevent c = int (length (file_events c))"
    using assms(1,3) by (auto simp: center_ok_def mask_of_def split: if_splits)
  have get: "get_file_event fd c = Inr (file_events c ! nat fd)" by (rule get_file_event_in [OF assms(2) in_tab len])
  have ok: "center_ok epoll_watched epoll_ok ?c" using assms(1) by (auto simp: center_ok_def mask_of_def fun_eq_iff)
  have new: "0 \<le> new_fd" using assms(2,6) in_tab by simp
  have ne: "{EVENT_READABLE} \<noteq> {}" by simp
  obtain c' where cr: "create_file_event True epoll_resize_events epoll_add_event new_fd {EVENT_READABLE} ?cb ?c = Some (Inr (0, c'))"
    and ok': "center_ok epoll_watched epoll_ok c'" and n': "nevent ?c \<le> new_fd \<longrightarrow> nevent ?c < nevent c'"
    using epoll_center.create_file_event_ok [OF ok new assms(7) ne, of ?cb] by (elim exE conjE) (rule that)
  have c': "center_ok epoll_watched epoll_ok c'" "nevent c < nevent c'" using ok' n' assms(6) by simp_all
  from cr have reg: "register_cb new_fd ?cb (nat fd) ?c = c'" by (simp add: register_cb_def)
  have len': "length (file_events c) < length (file_events c')" using c' len by (simp add: center_ok_def)
  have "fe_mask (file_events c ! nat fd) = mask_of c fd" using assms(2) in_tab len by (simp add: mask_of_def)
  with reg len' assms(3-5) show ?thesis by (simp add: fire_one_def get do_request_def)
qed

theorem growth_under_callback_dangles_witness:
  "fire_one (register_cb 9) (5, {EVENT_READABLE}) one_event_center = Inl UseAfterFree"
  using growth_under_callback_dangles [of one_event_center 5 "{EVENT_READABLE}" 9] one_event_center_ok by (simp add: fd_limit_def)

section \<open>Timers\<close>

definition timers_ok :: "'d center \<Rightarrow> bool" where
  "timers_ok c \<longleftrightarrow> sorted (map fst (time_events c)) \<and> distinct (map (\<lambda>t. fst (snd t)) (time_events c)) \<and>
     (\<forall>i. event_map c i \<longleftrightarrow> i \<in> (\<lambda>t. fst (snd t)) ` set (time_events c)) \<and> 
     list_all (\<lambda>t. 0 < fst (snd t) \<and> fst (snd t) < time_event_next_id c) (time_events c) \<and> 0 < time_event_next_id c"

lemma insert_timer_set [simp]: "set (insert_timer t ts) = insert t (set ts)"
  by (induction t ts rule: insert_timer.induct) auto

lemma insert_timer_sorted: "sorted (map fst ts) \<Longrightarrow> sorted (map fst (insert_timer t ts))"
  by (induction t ts rule: insert_timer.induct) auto

lemma insert_timer_filter: "fst (snd t) \<notin> (\<lambda>t. fst (snd t)) ` set ts \<Longrightarrow> filter (\<lambda>(u, j, cb). j \<noteq> fst (snd t)) (insert_timer t ts) = ts"
  by (induction t ts rule: insert_timer.induct) (auto simp: filter_id_conv image_iff)

lemma insert_timer_ids:
  "distinct (map (\<lambda>t. fst (snd t)) (insert_timer t ts)) \<longleftrightarrow> distinct (map (\<lambda>t. fst (snd t)) (t # ts))"
  by (induction t ts rule: insert_timer.induct) auto

text \<open>Timers keep their invariant: the list is ordered by expiry, the numbers are unique and known to the
  map. Creating a timer gives a number never used before, inserts the timer behind those that expire
  no later, and deleting it again restores the timers exactly.\<close>

theorem time_event_create_delete:
  assumes "timers_ok c"
  shows "\<exists>c'. create_time_event True now us cb c = Inr (time_event_next_id c, c') \<and> timers_ok c' \<and>
    set (time_events c') = insert (now + us, time_event_next_id c, cb) (set (time_events c)) \<and>
    (\<exists>c''. delete_time_event True (time_event_next_id c) c' = Inr c'' \<and> time_events c'' = time_events c \<and>
      event_map c'' = event_map c \<and> timers_ok c'')"
proof -
  let ?i = "time_event_next_id c"
  let ?c = "c\<lparr>time_event_next_id := ?i + 1, time_events := insert_timer (now + us, ?i, cb) (time_events c), event_map := (event_map c)(?i := True)\<rparr>"
  let ?d = "?c\<lparr>time_events := time_events c, event_map := event_map c\<rparr>"
  from assms have fresh: "?i \<notin> (\<lambda>t. fst (snd t)) ` set (time_events c)" and no: "\<not> event_map c ?i"
    by (auto simp: timers_ok_def list_all_iff)
  have ok: "timers_ok ?c"
    using assms fresh by (auto simp: timers_ok_def insert_timer_sorted insert_timer_ids list_all_iff image_iff)
  have "delete_time_event True ?i ?c = Inr ?d"
    using assms insert_timer_filter [of "(now + us, ?i, cb)" "time_events c"] fresh no
    by (simp add: delete_time_event_def timers_ok_def fun_upd_idem)
  moreover have "timers_ok ?d" using assms by (auto simp: timers_ok_def list_all_iff)
  ultimately show ?thesis using ok by (auto simp: create_time_event_def Let_def)
qed

lemma timers_ok_fresh: "timers_ok fresh_center"
  by (simp add: timers_ok_def fresh_center_def center_new_def)

theorem time_event_create_delete_witness:
  "\<exists>c'. create_time_event True 1000 500 7 fresh_center = Inr (1, c') \<and> timers_ok c' \<and> set (time_events c') = {(1500, 1, 7)} \<and>
    (\<exists>c''. delete_time_event True 1 c' = Inr c'' \<and> time_events c'' = [] \<and> timers_ok c'')"
proof -
  have "time_event_next_id fresh_center = 1" "time_events fresh_center = []" by (simp_all add: fresh_center_def center_new_def)
  with time_event_create_delete [OF timers_ok_fresh, of 1000 500 7] show ?thesis by auto
qed

text \<open>Callbacks that leave the timers (and the log of calls) alone.\<close>

definition timer_quiet :: "(ptr \<Rightarrow> nat \<Rightarrow> 'd center \<Rightarrow> 'd center) \<Rightarrow> bool" where
  "timer_quiet run \<longleftrightarrow> (\<forall>cb a c. time_events (run cb a c) = time_events c \<and> event_map (run cb a c) = event_map c \<and>
     time_event_next_id (run cb a c) = time_event_next_id c \<and> requests (run cb a c) = requests c)"

lemma process_time_loop_takes:
  assumes "timer_quiet run" and "list_all (\<lambda>t. snd (snd t) \<noteq> nullptr) (time_events c)"
  shows "\<exists>c'. process_time_loop run now n c = Some (Inr (n + int (length (takeWhile (\<lambda>t. fst t \<le> now) (time_events c))), c')) \<and>
    time_events c' = dropWhile (\<lambda>t. fst t \<le> now) (time_events c) \<and>
    event_map c' = fold (\<lambda>t f. f(fst (snd t) := False)) (takeWhile (\<lambda>t. fst t \<le> now) (time_events c)) (event_map c) \<and>
    time_event_next_id c' = time_event_next_id c \<and>
    requests c' = requests c @ map (\<lambda>t. (snd (snd t), fst (snd t))) (takeWhile (\<lambda>t. fst t \<le> now) (time_events c))"
  using assms(2)
proof (induction "time_events c" arbitrary: n c)
  case Nil
  then show ?case by (subst process_time_loop.simps) (auto split: list.split)
next
  case (Cons t ts)
  obtain e i cb where t: "t = (e, i, cb)" by (cases t)
  let ?c = "c\<lparr>time_events := ts, event_map := (event_map c)(i := False)\<rparr>"
  let ?c1 = "run cb i (?c\<lparr>requests := requests ?c @ [(cb, i)]\<rparr>)"
  note ev = Cons.hyps(2) [symmetric]
  show ?case
  proof (cases "e \<le> now")
    case False
    then show ?thesis using t ev by (subst process_time_loop.simps) auto
  next
    case True
    have q: "time_events ?c1 = ts" "event_map ?c1 = (event_map c)(i := False)" "requests ?c1 = requests c @ [(cb, i)]"
      "time_event_next_id ?c1 = time_event_next_id c"
      using assms(1) by (simp_all add: timer_quiet_def)
    have step: "process_time_loop run now n c = process_time_loop run now (n + 1) ?c1"
      using True t ev Cons.prems by (subst process_time_loop.simps) (simp add: do_request_def)
    from Cons.hyps(1) [of ?c1 "n + 1"] q Cons.prems ev show ?thesis
      unfolding step using True t by (auto simp: algebra_simps)
  qed
qed

lemma takeWhile_sorted_filter: "sorted (map f xs) \<Longrightarrow> takeWhile (\<lambda>x. f x \<le> (k::nat)) xs = filter (\<lambda>x. f x \<le> k) xs"
  by (induction xs) (auto intro!: filter_False [symmetric])

lemma dropWhile_sorted_filter: "sorted (map f xs) \<Longrightarrow> dropWhile (\<lambda>x. f x \<le> (k::nat)) xs = filter (\<lambda>x. k < f x) xs"
  by (induction xs) (auto intro!: filter_True [symmetric])

lemma fold_clear: "fold (\<lambda>t f. f(g t := False)) ts m i \<longleftrightarrow> m i \<and> i \<notin> g ` set ts"
  by (induction ts arbitrary: m) auto

text \<open>C12: \<open>process_time_events\<close> returns and calls the callbacks of exactly the timers that are due, once each, in the
  order of their expiry and with their numbers, and leaves the others; when the callbacks do not
  themselves change the timers. The result is their number, and the invariant of the timers is kept.\<close>

theorem process_time_events_due:
  assumes "timers_ok c" and "timer_quiet run" and "list_all (\<lambda>t. snd (snd t) \<noteq> nullptr) (time_events c)"
  shows "\<exists>c'. process_time_events run now c = Some (Inr (int (length (filter (\<lambda>t. fst t \<le> now) (time_events c))), c')) \<and>
    requests c' = requests c @ map (\<lambda>t. (snd (snd t), fst (snd t))) (filter (\<lambda>t. fst t \<le> now) (time_events c)) \<and>
    time_events c' = filter (\<lambda>t. now < fst t) (time_events c) \<and> timers_ok c'"
proof -
  let ?due = "filter (\<lambda>t. fst t \<le> now) (time_events c)" and ?rest = "filter (\<lambda>t. now < fst t) (time_events c)"
  from assms(1) have s: "sorted (map fst (time_events c))" by (simp add: timers_ok_def)
  obtain c' where c': "process_time_events run now c = Some (Inr (int (length ?due), c'))" "time_events c' = ?rest"
    "event_map c' = fold (\<lambda>t f. f(fst (snd t) := False)) ?due (event_map c)"
    "time_event_next_id c' = time_event_next_id c" "requests c' = requests c @ map (\<lambda>t. (snd (snd t), fst (snd t))) ?due"
    using process_time_loop_takes [OF assms(2,3), of now 0]
    by (auto simp: process_time_events_def takeWhile_sorted_filter [OF s] dropWhile_sorted_filter [OF s])
  have "timers_ok c'"
    using assms(1) unfolding timers_ok_def c'(2,3,4) fold_clear
    by (auto simp: sorted_filter distinct_map_filter list_all_iff distinct_map inj_on_def image_iff not_le) (metis fst_conv snd_conv not_le)+
  with c' show ?thesis by blast
qed

definition timer_center :: "epoll_driver center" where
  "timer_center = fresh_center\<lparr>time_events := [(10, 2, 70), (10, 1, 60), (30, 3, 60)], event_map := (\<lambda>i. i \<in> {1, 2, 3}),
     time_event_next_id := 4\<rparr>"

theorem process_time_events_due_witness:
  "\<exists>c'. process_time_events (\<lambda>cb a c. c) 20 timer_center = Some (Inr (2, c')) \<and> requests c' = [(70, 2), (60, 1)] \<and>
    time_events c' = [(30, 3, 60)]"
proof -
  have ok: "timers_ok timer_center" by (auto simp: timers_ok_def timer_center_def)
  have q: "timer_quiet (\<lambda>cb a (c :: epoll_driver center). c)" by (simp add: timer_quiet_def)
  have nn: "list_all (\<lambda>t. snd (snd t) \<noteq> nullptr) (time_events timer_center)" by (simp add: timer_center_def)
  have "requests timer_center = []" by (simp add: timer_center_def fresh_center_def center_new_def)
  with process_time_events_due [OF ok q nn, of 20] show ?thesis by (auto simp: timer_center_def)
qed

section \<open>External events\<close>

definition external_ok :: "'d center \<Rightarrow> bool" where
  "external_ok c \<longleftrightarrow> external_num_events c = length (external_events c)"

lemma dispatch_ok:
  assumes "external_ok c" and "0 \<le> n \<or> e = EAGAIN"
  shows "\<exists>c'. dispatch_event_external in_thr n e ev c = Inr c' \<and> external_ok c' \<and>
    external_events c' = (if external_events c \<noteq> [] \<and> last (external_events c) = ev then external_events c else external_events c @ [ev]) \<and>
    wakeups c' = wakeups c + (if external_events c = [] \<and> \<not> in_thr \<and> pollers c = [] then 1 else 0) \<and>
    pollers c' = pollers c \<and> requests c' = requests c \<and> time_events c' = time_events c"
  using assms by (auto simp: dispatch_event_external_def external_ok_def wakeup_def Let_def)

text \<open>The dispatches of a sequence of threads; each comes with whether it is the owner.\<close>

fun dispatch_all :: "(bool \<times> ptr) list \<Rightarrow> 'd center \<Rightarrow> 'd center result" where
  "dispatch_all [] c = Inr c"
| "dispatch_all ((in_thr, ev) # es) c = rbind (dispatch_event_external in_thr 1 0 ev c) (dispatch_all es)"

lemma remdups_adj_snoc:
  "remdups_adj (xs @ [y]) = (if xs \<noteq> [] \<and> last xs = y then remdups_adj xs else remdups_adj xs @ [y])"
  by (induction xs rule: remdups_adj.induct) auto

lemma Nil_eq_remdups_adj [simp]: "[] = remdups_adj xs \<longleftrightarrow> xs = []"
  by (metis remdups_adj_Nil_iff)

lemma dispatch_all_ok:
  assumes "external_ok c"
  shows "\<exists>c'. dispatch_all es c = Inr c' \<and> external_ok c' \<and> pollers c' = pollers c \<and> requests c' = requests c \<and> time_events c' = time_events c \<and>
    (external_events c = remdups_adj xs \<longrightarrow> external_events c' = remdups_adj (xs @ map snd es)) \<and>
    wakeups c' = wakeups c + (if external_events c = [] \<and> es \<noteq> [] \<and> \<not> fst (hd es) \<and> pollers c = [] then 1 else 0)"
  using assms
proof (induction es arbitrary: c xs)
  case Nil
  then show ?case by simp
next
  case (Cons p es)
  obtain in_thr ev where p: "p = (in_thr, ev)" by (cases p)
  obtain c1 where c1: "dispatch_event_external in_thr 1 0 ev c = Inr c1" "external_ok c1"
    "external_events c1 = (if external_events c \<noteq> [] \<and> last (external_events c) = ev then external_events c else external_events c @ [ev])"
    "wakeups c1 = wakeups c + (if external_events c = [] \<and> \<not> in_thr \<and> pollers c = [] then 1 else 0)"
    "pollers c1 = pollers c" "requests c1 = requests c" "time_events c1 = time_events c"
    using dispatch_ok [OF Cons.prems, of 1 0 in_thr ev] by auto
  have ne: "external_events c1 \<noteq> []" using c1(3) by auto
  have adj: "external_events c = remdups_adj xs \<longrightarrow> external_events c1 = remdups_adj (xs @ [ev])"
    using c1(3) by (simp add: remdups_adj_snoc)
  show ?case using Cons.IH [OF c1(2), of "xs @ [ev]"] c1 adj ne by (auto simp: p)
qed

lemma run_external_log:
  assumes "timer_quiet run" and "nullptr \<notin> set es"
  shows "\<exists>c'. run_external run es c = Inr c' \<and> requests c' = requests c @ map (\<lambda>e. (e, 0)) es"
  using assms(2)
proof (induction es arbitrary: c)
  case (Cons e es)
  let ?c = "run e 0 (c\<lparr>requests := requests c @ [(e, 0)]\<rparr>)"
  have "requests ?c = requests c @ [(e, 0)]" using assms(1) by (simp add: timer_quiet_def)
  with Cons.IH [of ?c] Cons.prems show ?case by (auto simp: do_request_def)
qed simp

text \<open>C9: Events dispatched to a centre from any threads are not lost and not reordered: after any sequence of
  dispatches to an idle centre, the next round of \<open>process_events\<close> calls each of them in order (only
  immediate repetitions are merged) and counts them; and if the first came from another thread and
  nothing is polling, the sleeping centre is woken exactly once.\<close>

theorem external_events_delivered:
  assumes "external_ok c" and "external_events c = []" and "time_events c = []" and "pollers c = []"
    and "timer_quiet run" and "nullptr \<notin> snd ` set es"
  shows "\<exists>c1 c2. dispatch_all es c = Inr c1 \<and> wakeups c1 = wakeups c + (if es \<noteq> [] \<and> \<not> fst (hd es) then 1 else 0) \<and>
    process_events run now timeout now2 [] polls c1 = Some (Inr (int (length (remdups_adj (map snd es))), c2)) \<and>
    requests c2 = requests c @ map (\<lambda>e. (e, 0)) (remdups_adj (map snd es))"
proof -
  let ?q = "remdups_adj (map snd es)"
  obtain c1 where c1: "dispatch_all es c = Inr c1" "external_ok c1" "pollers c1 = []" "requests c1 = requests c" "time_events c1 = []"
    "external_events c1 = ?q" "wakeups c1 = wakeups c + (if es \<noteq> [] \<and> \<not> fst (hd es) then 1 else 0)"
    using dispatch_all_ok [OF assms(1), of es "[]"] assms(2-4) by auto
  have nn: "nullptr \<notin> set ?q" using assms(6) by simp
  obtain c2 where c2: "run_external run ?q (c1\<lparr>external_events := [], external_num_events := 0\<rparr>) = Inr c2"
    "requests c2 = requests c @ map (\<lambda>e. (e, 0)) ?q"
    using run_external_log [OF assms(5) nn, of "c1\<lparr>external_events := [], external_num_events := 0\<rparr>"] c1(4) by auto
  have num: "external_num_events c1 = length ?q" using c1(2,6) by (simp add: external_ok_def)
  show ?thesis
  proof (cases "es = []")
    case True
    then show ?thesis using c1 num by (auto simp: process_events_def wait_time_def)
  next
    case False
    then have "?q \<noteq> []" by simp
    then show ?thesis using c1 c2 num by (auto simp: process_events_def wait_time_def)
  qed
qed

theorem external_events_delivered_witness:
  "\<exists>c1 c2. dispatch_all [(False, 50), (True, 50), (False, 60), (False, 50)] fresh_center = Inr c1 \<and> wakeups c1 = 1 \<and>
     process_events (\<lambda>cb a c. c) 0 30000000 1 [] (\<lambda>_. 0) c1 = Some (Inr (3, c2)) \<and> requests c2 = [(50, 0), (60, 0), (50, 0)]"
  using external_events_delivered [of fresh_center "\<lambda>cb a c. c" "[(False, 50), (True, 50), (False, 60), (False, 50)]" 0 30000000 1 "\<lambda>_. 0"]
  by (simp add: external_ok_def fresh_center_def center_new_def timer_quiet_def)

section \<open>Pollers\<close>

definition pollers_ok :: "'d center \<Rightarrow> bool" where
  "pollers_ok c \<longleftrightarrow> distinct (pollers c) \<and> (\<forall>i<length (pollers c). slots c (pollers c ! i) = int i)"

text \<open>Every poller knows its slot. Creating a poller appends it; destroying one moves the last poller into
  its place and removes exactly the destroyed one, so after any creation and destruction the slots are
  right again.\<close>

theorem pollers_keep_slots:
  assumes "pollers_ok c"
  shows "(p \<notin> set (pollers c) \<longrightarrow> pollers_ok (poller_new p c) \<and> set (pollers (poller_new p c)) = insert p (set (pollers c))) \<and>
    (p \<in> set (pollers c) \<longrightarrow> (\<exists>c'. poller_destroy p c = Inr c' \<and> pollers_ok c' \<and> set (pollers c') = set (pollers c) - {p} \<and> slots c' p = - 1))"
proof (intro conjI impI)
  assume "p \<notin> set (pollers c)"
  then show "pollers_ok (poller_new p c)" and "set (pollers (poller_new p c)) = insert p (set (pollers c))"
    using assms by (auto simp: pollers_ok_def poller_new_def nth_append less_Suc_eq in_set_conv_nth)
next
  assume "p \<in> set (pollers c)"
  then obtain k where k: "k < length (pollers c)" "pollers c ! k = p" by (auto simp: in_set_conv_nth)
  obtain ps l where ps: "pollers c = ps @ [l]" using k by (cases "pollers c" rule: rev_cases) auto
  have s: "slots c p = int k" using assms k by (auto simp: pollers_ok_def)
  let ?ps = "butlast ((pollers c)[k := l])"
  let ?c = "c\<lparr>slots := ((slots c)(l := int k))(p := - 1), pollers := ?ps\<rparr>"
  have pd: "poller_destroy p c = Inr ?c" using k ps s by (simp add: poller_destroy_def)
  have d1: "distinct (ps @ [l])" using assms ps by (simp add: pollers_ok_def)
  have d2: "slots c (ps ! i) = int i" if "i < length ps" for i
    using assms that unfolding pollers_ok_def ps by (metis nth_append length_append_singleton less_SucI)
  note d = d1 d2
  show "\<exists>c'. poller_destroy p c = Inr c' \<and> pollers_ok c' \<and> set (pollers c') = set (pollers c) - {p} \<and> slots c' p = - 1"
  proof (cases "k = length ps")
    case True
    then have "?ps = ps" "l = p" using ps k by (simp_all add: butlast_list_update)
    then show ?thesis using pd ps d by (auto simp: pollers_ok_def dest: nth_mem)
  next
    case False
    with k ps have kl: "k < length ps" "ps ! k = p" by (auto simp: nth_append split: if_splits)
    then have q: "?ps = ps[k := l]" using ps by (simp add: list_update_append butlast_append)
    have "set (ps[k := l]) = insert l (set ps - {p})"
      using d(1) kl by (simp add: set_update_distinct)
    moreover have "distinct (ps[k := l])" using d(1) kl by (simp add: distinct_list_update)
    moreover have "i < length ps \<Longrightarrow> (((slots c)(l := int k))(p := - 1)) (ps[k := l] ! i) = int i" for i
      using d kl by (cases "i = k") (auto simp: nth_eq_iff_index_eq dest: nth_mem)
    ultimately show ?thesis using pd ps q d(1) kl by (auto simp: pollers_ok_def dest: nth_mem)
  qed
qed

theorem pollers_keep_slots_witness:
  "\<exists>c'. poller_destroy 5 (poller_new 7 (poller_new 5 fresh_center)) = Inr c' \<and> pollers_ok c' \<and> set (pollers c') = {7}"
proof -
  let ?c = "poller_new 7 (poller_new 5 fresh_center)"
  have "pollers_ok ?c" "set (pollers ?c) = {5, 7}"
    by (auto simp: pollers_ok_def poller_new_def fresh_center_def center_new_def nth_Cons split: nat.split)
  with pollers_keep_slots [of ?c 5] show ?thesis by auto
qed

end
