(* ===== verification/Connection.thy ===== *)
theory Connection
  imports EventCenter EntityAddr
begin

text \<open>
  Connections (\<open>Connection\<close> in \<open>src/src/core/connection.cc\<close> and \<open>connection.h\<close>): the state machine that
  \<open>process\<close> runs when the event centre calls the connection's handler. The socket is the descriptor of
  its implementation or none; connecting (\<open>Worker::connect\<close>) and \<open>is_connected\<close> are virtual and their
  results are arguments. The event centre is the one of \<open>EventCenter\<close>, over epoll.
\<close>

section \<open>State and operations\<close>

datatype conn_state =
  STATE_NONE | STATE_CONNECTING | STATE_CONNECTING_RE | STATE_ACCEPTING | STATE_CONNECTION_ESTABLISHED | STATE_CLOSED

record connection =
  c_state :: conn_state
  cs :: "int option"
  local_addr :: entity_addr
  peer_addr :: entity_addr
  read_handler :: ptr
  read_callback_handler :: ptr
  write_callback_handler :: ptr
  closed_fds :: "int list"

text \<open>The constructor with the addresses of the three handlers it creates.\<close>

definition connection_new :: "ptr \<Rightarrow> ptr \<Rightarrow> ptr \<Rightarrow> entity_addr \<Rightarrow> connection" where
  "connection_new rh rcb wcb blank = \<lparr>c_state = STATE_NONE, cs = None, local_addr = blank, peer_addr = blank,
     read_handler = rh, read_callback_handler = rcb, write_callback_handler = wcb, closed_fds = []\<rparr>"

type_synonym conn_sys = "connection \<times> epoll_driver center"

text \<open>\<open>center->dispatch_event_external\<close>: \<open>n\<close>, \<open>e\<close> are the result and \<open>errno\<close> of the wake-up.\<close>

definition connect :: "bool \<Rightarrow> int \<Rightarrow> int \<Rightarrow> entity_addr \<Rightarrow> conn_sys \<Rightarrow> conn_sys result" where
  "connect in_thr n e addr s =
     (let c = (fst s)\<lparr>peer_addr := addr, c_state := STATE_CONNECTING\<rparr> in
      rbind (dispatch_event_external in_thr n e (read_handler c) (snd s)) (\<lambda>ce. Inr (c, ce)))"

definition accept :: "bool \<Rightarrow> int \<Rightarrow> int \<Rightarrow> int \<Rightarrow> entity_addr \<Rightarrow> entity_addr \<Rightarrow> conn_sys \<Rightarrow> conn_sys result" where
  "accept in_thr n e fd listen_addr peer s =
     kassert (fd \<ge> 0)
       (let c = (fst s)\<lparr>cs := Some fd, local_addr := listen_addr, peer_addr := peer, c_state := STATE_ACCEPTING\<rparr> in
        rbind (dispatch_event_external in_thr n e (read_handler c) (snd s)) (\<lambda>ce. Inr (c, ce)))"

text \<open>\<open>create_file_event\<close> of the connection's centre; the result is ignored by the caller.\<close>

definition watch :: "int \<Rightarrow> mask \<Rightarrow> ptr \<Rightarrow> epoll_driver center \<Rightarrow> epoll_driver center result option" where
  "watch fd m cb ce = map_option (\<lambda>r. rbind r (\<lambda>(k, ce'). Inr ce')) (create_file_event True epoll_resize_events epoll_add_event fd m cb ce)"

text \<open>\<open>connecting r fd is_conn\<close>: the state \<open>STATE_CONNECTING\<close>; \<open>r\<close> is the result of \<open>Worker::connect\<close>, \<open>fd\<close> the
  descriptor of the new socket and \<open>is_conn\<close> the result of its \<open>is_connected\<close>.\<close>

definition connecting :: "int \<Rightarrow> int \<Rightarrow> int \<Rightarrow> conn_sys \<Rightarrow> conn_sys result option" where
  "connecting r fd is_conn s =
     (let (c, ce) = s in
      obind (case cs c of
               None \<Rightarrow> Some (Inr (c, ce))
             | Some old \<Rightarrow> obind (Some (delete_file_event True epoll_del_event old {EVENT_READABLE, EVENT_WRITABLE} ce))
                             (\<lambda>ce'. Some (Inr (c\<lparr>cs := None, closed_fds := closed_fds c @ [old]\<rparr>, ce'))))
        (\<lambda>(c1, ce1).
          if r < 0 then Some (Inr (c1, ce1))
          else let c2 = c1\<lparr>cs := Some fd\<rparr> in
            if \<not> is_conn \<le> 0 then Some (Inl KAssert)
            else obind (watch fd {EVENT_READABLE} (read_callback_handler c2) ce1) (\<lambda>ce2.
                 obind (watch fd {EVENT_WRITABLE} (read_handler c2) ce2) (\<lambda>ce3.
                 Some (Inr (c2\<lparr>c_state := STATE_CONNECTING_RE\<rparr>, ce3))))))"

definition connecting_re :: "bool \<Rightarrow> int \<Rightarrow> conn_sys \<Rightarrow> conn_sys result option" where
  "connecting_re need_writable is_conn s =
     (let (c, ce) = s in
      case cs c of None \<Rightarrow> Some (Inl NullDeref) | Some fd \<Rightarrow>
        if is_conn < 0 then Some (Inr (c, ce))
        else if is_conn = 0 then
          if need_writable then obind (watch fd {EVENT_WRITABLE} (read_handler c) ce) (\<lambda>ce'. Some (Inr (c, ce'))) else Some (Inr (c, ce))
        else let c1 = c\<lparr>c_state := STATE_CONNECTION_ESTABLISHED\<rparr> in
          obind (Some (delete_file_event True epoll_del_event fd {EVENT_WRITABLE} ce)) (\<lambda>ce1.
            Some (rbind (dispatch_event_external True 0 0 (write_callback_handler c) ce1) (\<lambda>ce2. Inr (c1, ce2)))))"

definition accepting_step :: "conn_sys \<Rightarrow> conn_sys result option" where
  "accepting_step s =
     (let (c, ce) = s in
      case cs c of None \<Rightarrow> Some (Inl NullDeref) | Some fd \<Rightarrow>
        obind (watch fd {EVENT_READABLE} (read_callback_handler c) ce) (\<lambda>ce1.
          Some (rbind (dispatch_event_external True 0 0 (write_callback_handler c) ce1)
                 (\<lambda>ce2. Inr (c\<lparr>c_state := STATE_CONNECTION_ESTABLISHED\<rparr>, ce2)))))"

definition process :: "bool \<Rightarrow> int \<Rightarrow> int \<Rightarrow> int \<Rightarrow> conn_sys \<Rightarrow> conn_sys result option" where
  "process need_writable r fd is_conn s =
     (case c_state (fst s) of
        STATE_NONE \<Rightarrow> Some (Inr s)
      | STATE_CLOSED \<Rightarrow> Some (Inr s)
      | STATE_CONNECTING \<Rightarrow> connecting r fd is_conn s
      | STATE_CONNECTING_RE \<Rightarrow> connecting_re need_writable is_conn s
      | STATE_ACCEPTING \<Rightarrow> accepting_step s
      | STATE_CONNECTION_ESTABLISHED \<Rightarrow> Some (Inr s))"

section \<open>What is watched\<close>

lemma watch_ok:
  assumes "center_ok epoll_watched epoll_ok ce" and "fd_ok fd" and "m \<noteq> {}"
  shows "\<exists>ce'. watch fd m cb ce = Some (Inr ce') \<and> center_ok epoll_watched epoll_ok ce' \<and>
    mask_of ce' = (mask_of ce)(fd := mask_of ce fd \<union> m) \<and>
    (mask_of ce fd \<noteq> m \<longrightarrow> rest_same ce ce' \<and>
      cbs_of ce' fd = (if EVENT_READABLE \<in> m then cb else fst (cbs_of ce fd), if EVENT_WRITABLE \<in> m then cb else snd (cbs_of ce fd)))"
proof -
  obtain ce' where c: "create_file_event True epoll_resize_events epoll_add_event fd m cb ce = Some (Inr (0, ce'))"
    and ok: "center_ok epoll_watched epoll_ok ce'" and m: "mask_of ce' = (mask_of ce)(fd := mask_of ce fd \<union> m)"
    using epoll_center.create_file_event_ok [OF assms(1) conjunct1 [OF assms(2)] conjunct2 [OF assms(2)] assms(3), of cb] by (elim exE conjE) (rule that)
  show ?thesis
    by (intro exI [of _ ce'] conjI impI ok m)
       (use create_file_event_cbs [OF c assms(1)] assms(2) in \<open>simp_all add: watch_def c\<close>)
qed

lemma unwatch_ok:
  assumes "center_ok epoll_watched epoll_ok ce" and "0 \<le> fd"
  shows "\<exists>ce'. delete_file_event True epoll_del_event fd m ce = Inr ce' \<and> center_ok epoll_watched epoll_ok ce' \<and>
    mask_of ce' = (mask_of ce)(fd := mask_of ce fd - m) \<and> rest_same ce ce' \<and>
    (mask_of ce fd \<noteq> {} \<longrightarrow>
      cbs_of ce' fd = (if EVENT_READABLE \<in> m then nullptr else fst (cbs_of ce fd), if EVENT_WRITABLE \<in> m then nullptr else snd (cbs_of ce fd)))"
  using epoll_center.delete_file_event_ok [OF assms, of m] delete_file_event_cbs [OF _ assms(1), of fd m] by blast

lemma rest_same_external_ok: "rest_same ce ce' \<Longrightarrow> external_ok ce \<Longrightarrow> external_ok ce'"
  using rest_same_external [of ce ce'] by (simp add: external_ok_def)

definition queued :: "ptr \<Rightarrow> ptr list \<Rightarrow> ptr list" where
  "queued ev es = (if es \<noteq> [] \<and> last es = ev then es else es @ [ev])"

lemma dispatch_in_thread:
  assumes "external_ok ce"
  shows "dispatch_event_external True n e ev ce =
    Inr (ce\<lparr>external_events := queued ev (external_events ce), external_num_events := length (queued ev (external_events ce))\<rparr>)"
  using assms by (auto simp: dispatch_event_external_def external_ok_def queued_def Let_def)

lemma queued_frame: "mask_of (ce\<lparr>external_events := es, external_num_events := n\<rparr>) = mask_of ce"
  "cbs_of (ce\<lparr>external_events := es, external_num_events := n\<rparr>) = cbs_of ce"
  "center_ok w k (ce\<lparr>external_events := es, external_num_events := n\<rparr>) \<longleftrightarrow> center_ok w k ce"
  by (auto simp: mask_of_def cbs_of_def center_ok_def fun_eq_iff)

text \<open>The two registrations of a new descriptor.\<close>

lemma watch_both:
  assumes "center_ok epoll_watched epoll_ok ce" and "fd_ok fd" and "mask_of ce fd = {}"
  shows "\<exists>ce'. obind (watch fd {EVENT_READABLE} rcb ce) (\<lambda>ce2. watch fd {EVENT_WRITABLE} rh ce2) = Some (Inr ce') \<and>
    center_ok epoll_watched epoll_ok ce' \<and> mask_of ce' = (mask_of ce)(fd := {EVENT_READABLE, EVENT_WRITABLE}) \<and>
    rest_same ce ce' \<and> cbs_of ce' fd = (rcb, rh)"
proof -
  obtain c1 where c1: "watch fd {EVENT_READABLE} rcb ce = Some (Inr c1)" "center_ok epoll_watched epoll_ok c1"
    "mask_of c1 = (mask_of ce)(fd := {EVENT_READABLE})" "rest_same ce c1" "fst (cbs_of c1 fd) = rcb"
    using watch_ok [OF assms(1,2), of "{EVENT_READABLE}" rcb] assms(3) by auto
  obtain c2 where c2: "watch fd {EVENT_WRITABLE} rh c1 = Some (Inr c2)" "center_ok epoll_watched epoll_ok c2"
    "mask_of c2 = (mask_of ce)(fd := {EVENT_READABLE, EVENT_WRITABLE})" "rest_same c1 c2" "cbs_of c2 fd = (rcb, rh)"
    using watch_ok [OF c1(2) assms(2), of "{EVENT_WRITABLE}" rh] c1(3,5) by (auto simp: insert_commute)
  have "rest_same ce c2" using c1(4) c2(4) unfolding rest_same_def by (cases ce; cases c1; cases c2) simp
  with c1(1) c2 show ?thesis by auto
qed

lemma connecting_ok:
  assumes "center_ok epoll_watched epoll_ok ce" and "external_ok ce" and "cs c = None" and "0 \<le> r" and "fd_ok fd" and "is_conn \<le> 0"
    and "mask_of ce fd = {}"
  shows "\<exists>ce'. connecting r fd is_conn (c, ce) = Some (Inr (c\<lparr>cs := Some fd, c_state := STATE_CONNECTING_RE\<rparr>, ce')) \<and>
    center_ok epoll_watched epoll_ok ce' \<and> external_ok ce' \<and> mask_of ce' fd = {EVENT_READABLE, EVENT_WRITABLE} \<and>
    cbs_of ce' fd = (read_callback_handler c, read_handler c) \<and> external_events ce' = external_events ce"
proof -
  obtain ce' where w: "obind (watch fd {EVENT_READABLE} (read_callback_handler c) ce) (\<lambda>ce2. watch fd {EVENT_WRITABLE} (read_handler c) ce2) = Some (Inr ce')"
    and ok: "center_ok epoll_watched epoll_ok ce'" "mask_of ce' = (mask_of ce)(fd := {EVENT_READABLE, EVENT_WRITABLE})"
      "rest_same ce ce'" "cbs_of ce' fd = (read_callback_handler c, read_handler c)"
    using watch_both [OF assms(1,5,7)] by blast
  obtain ce1 where "watch fd {EVENT_READABLE} (read_callback_handler c) ce = Some (Inr ce1)"
    using watch_ok [OF assms(1,5), of "{EVENT_READABLE}" "read_callback_handler c"] by auto
  with w have "connecting r fd is_conn (c, ce) = Some (Inr (c\<lparr>cs := Some fd, c_state := STATE_CONNECTING_RE\<rparr>, ce'))"
    using assms(3,4,6) by (simp add: connecting_def)
  then show ?thesis
    using ok rest_same_external_ok [OF ok(3) assms(2)] rest_same_external [OF ok(3)] by simp
qed

text \<open>A connection that waits for its descriptor \<open>fd\<close>.\<close>

definition waiting :: "int \<Rightarrow> conn_sys \<Rightarrow> bool" where
  "waiting fd s \<longleftrightarrow> (let (c, ce) = s in c_state c = STATE_CONNECTING_RE \<and> cs c = Some fd \<and> fd_ok fd \<and>
     center_ok epoll_watched epoll_ok ce \<and> external_ok ce \<and> mask_of ce fd = {EVENT_READABLE, EVENT_WRITABLE} \<and>
     cbs_of ce fd = (read_callback_handler c, read_handler c))"

lemma waiting_poll:
  assumes "waiting fd (c, ce)" and "is_conn \<le> 0"
  shows "\<exists>ce'. process need r fd' is_conn (c, ce) = Some (Inr (c, ce')) \<and> waiting fd (c, ce') \<and> external_events ce' = external_events ce"
proof -
  have w: "c_state c = STATE_CONNECTING_RE" "cs c = Some fd" "fd_ok fd" "center_ok epoll_watched epoll_ok ce" "external_ok ce"
    "mask_of ce fd = {EVENT_READABLE, EVENT_WRITABLE}" "cbs_of ce fd = (read_callback_handler c, read_handler c)"
    using assms(1) by (simp_all add: waiting_def)
  have ne: "mask_of ce fd \<noteq> {EVENT_WRITABLE}" using w(6) by auto
  obtain ce' where ce': "watch fd {EVENT_WRITABLE} (read_handler c) ce = Some (Inr ce')" "center_ok epoll_watched epoll_ok ce'"
    "mask_of ce' = (mask_of ce)(fd := mask_of ce fd \<union> {EVENT_WRITABLE})" "rest_same ce ce'"
    "cbs_of ce' fd = (read_callback_handler c, read_handler c)"
    using watch_ok [OF w(4,3), of "{EVENT_WRITABLE}" "read_handler c"] ne w(7) by auto
  have w': "waiting fd (c, ce')"
    using w ce' rest_same_external_ok [OF ce'(4) w(5)] by (auto simp: waiting_def)
  show ?thesis
    using w assms ce' w' rest_same_external [OF ce'(4)] by (cases "is_conn < 0"; cases need) (simp_all add: process_def connecting_re_def)
qed

lemma waiting_done:
  assumes "waiting fd (c, ce)" and "0 < is_conn"
  shows "\<exists>ce'. process need r fd' is_conn (c, ce) = Some (Inr (c\<lparr>c_state := STATE_CONNECTION_ESTABLISHED\<rparr>, ce')) \<and>
    center_ok epoll_watched epoll_ok ce' \<and> mask_of ce' fd = {EVENT_READABLE} \<and> fst (cbs_of ce' fd) = read_callback_handler c \<and>
    external_ok ce' \<and> external_events ce' = queued (write_callback_handler c) (external_events ce)"
proof -
  have w: "c_state c = STATE_CONNECTING_RE" "cs c = Some fd" "fd_ok fd" "center_ok epoll_watched epoll_ok ce" "external_ok ce"
    "mask_of ce fd = {EVENT_READABLE, EVENT_WRITABLE}" "cbs_of ce fd = (read_callback_handler c, read_handler c)"
    using assms(1) by (simp_all add: waiting_def)
  obtain ce1 where d: "delete_file_event True epoll_del_event fd {EVENT_WRITABLE} ce = Inr ce1" "center_ok epoll_watched epoll_ok ce1"
    "mask_of ce1 = (mask_of ce)(fd := mask_of ce fd - {EVENT_WRITABLE})" "rest_same ce ce1" "fst (cbs_of ce1 fd) = read_callback_handler c"
    using unwatch_ok [OF w(4), of fd "{EVENT_WRITABLE}"] w(3,6,7) by auto
  have m: "mask_of ce1 fd = {EVENT_READABLE}" using d(3) w(6) by auto
  note ext = rest_same_external_ok [OF d(4) w(5)]
  show ?thesis
    using w assms(2) d m dispatch_in_thread [OF ext] rest_same_external [OF d(4)]
    by (simp add: process_def connecting_re_def queued_frame external_ok_def)
qed

fun process_polls :: "bool \<Rightarrow> int list \<Rightarrow> conn_sys \<Rightarrow> conn_sys result option" where
  "process_polls need [] s = Some (Inr s)"
| "process_polls need (k # ks) s = obind (process need 0 0 k s) (process_polls need ks)"

lemma process_polls_append: "process_polls need (xs @ ys) s = obind (process_polls need xs s) (process_polls need ys)"
proof (induction xs arbitrary: s)
  case (Cons x xs)
  then show ?case by (cases "process need 0 0 x s") (auto simp: obind_def split: sum.split)
qed simp

lemma waiting_polls:
  assumes "waiting fd (c, ce)" and "list_all (\<lambda>k. k \<le> 0) ks"
  shows "\<exists>ce'. process_polls need ks (c, ce) = Some (Inr (c, ce')) \<and> waiting fd (c, ce') \<and> external_events ce' = external_events ce"
  using assms
proof (induction ks arbitrary: ce)
  case (Cons k ks)
  obtain ce1 where ce1: "process need 0 0 k (c, ce) = Some (Inr (c, ce1))" "waiting fd (c, ce1)" "external_events ce1 = external_events ce"
    using waiting_poll [OF Cons.prems(1), of k need 0 0] Cons.prems(2) by auto
  then show ?case using Cons.IH [OF ce1(2)] Cons.prems(2) by auto
qed simp

text \<open>C8: Connecting. \<open>connect\<close> schedules the connection; its first \<open>process\<close> opens a socket and watches it for both
  directions; however often the socket then says that it is not connected yet, the connection keeps
  waiting with the same registrations; and as soon as the socket is connected, the connection is
  established, only reading is watched, with the user's read callback, and the user's write callback
  is queued once.\<close>

theorem connection_establishes:
  assumes "center_ok epoll_watched epoll_ok ce" and "external_ok ce" and "external_events ce = []" and "cs c = None" and "c_state c = STATE_NONE"
    and "fd_ok fd" and "mask_of ce fd = {}" and "0 \<le> r" and "is_conn \<le> 0" and "list_all (\<lambda>k. k \<le> 0) ks" and "0 < k"
  shows "\<exists>c1 ce1 s2 c3 ce3. connect True 0 0 addr (c, ce) = Inr (c1, ce1) \<and> peer_addr c1 = addr \<and> external_events ce1 = [read_handler c] \<and>
    process need r fd is_conn (c1, ce1\<lparr>external_events := [], external_num_events := 0\<rparr>) = Some (Inr s2) \<and> waiting fd s2 \<and>
    process_polls need (ks @ [k]) s2 = Some (Inr (c3, ce3)) \<and> c_state c3 = STATE_CONNECTION_ESTABLISHED \<and> cs c3 = Some fd \<and>
    epoll_watched (drv ce3) fd = {EVENT_READABLE} \<and> fst (cbs_of ce3 fd) = read_callback_handler c \<and>
    external_events ce3 = [write_callback_handler c]"
proof -
  let ?c1 = "c\<lparr>peer_addr := addr, c_state := STATE_CONNECTING\<rparr>"
  let ?ce1 = "ce\<lparr>external_events := [read_handler c], external_num_events := 1\<rparr>"
  let ?run = "?ce1\<lparr>external_events := [], external_num_events := 0\<rparr>"
  let ?c2 = "?c1\<lparr>cs := Some fd, c_state := STATE_CONNECTING_RE\<rparr>"
  have con: "connect True 0 0 addr (c, ce) = Inr (?c1, ?ce1)"
    using assms(3) by (simp add: connect_def dispatch_in_thread [OF assms(2)] queued_def)
  have run: "center_ok epoll_watched epoll_ok ?run" "external_ok ?run" "mask_of ?run fd = {}" "cs ?c1 = None"
    using assms(1,4,7) by (simp_all add: queued_frame external_ok_def)
  obtain ce2 where p: "connecting r fd is_conn (?c1, ?run) = Some (Inr (?c2, ce2))" and w: "waiting fd (?c2, ce2)" "external_events ce2 = []"
    using connecting_ok [OF run(1,2,4) assms(8,6,9) run(3)] assms(6) by (auto simp: waiting_def)
  obtain ce2' where polls: "process_polls need ks (?c2, ce2) = Some (Inr (?c2, ce2'))" "waiting fd (?c2, ce2')" "external_events ce2' = []"
    using waiting_polls [OF w(1) assms(10)] w(2) by auto
  obtain ce3 where d: "process need 0 0 k (?c2, ce2') = Some (Inr (?c2\<lparr>c_state := STATE_CONNECTION_ESTABLISHED\<rparr>, ce3))"
    and ok: "center_ok epoll_watched epoll_ok ce3" "mask_of ce3 fd = {EVENT_READABLE}" "fst (cbs_of ce3 fd) = read_callback_handler c"
      "external_events ce3 = [write_callback_handler c]"
    using waiting_done [OF polls(2) assms(11), of need 0 0] polls(3) by (auto simp: queued_def)
  have "epoll_watched (drv ce3) fd = {EVENT_READABLE}" using ok(1,2) by (simp add: center_ok_def)
  moreover have "process need r fd is_conn (?c1, ?run) = Some (Inr (?c2, ce2))" using p by (simp add: process_def)
  moreover have "process_polls need (ks @ [k]) (?c2, ce2) = Some (Inr (?c2\<lparr>c_state := STATE_CONNECTION_ESTABLISHED\<rparr>, ce3))"
    using polls(1) d by (simp add: process_polls_append)
  ultimately show ?thesis using con w(1) ok
    by (intro exI [of _ ?c1] exI [of _ ?ce1] exI [of _ "(?c2, ce2)"] exI [of _ "?c2\<lparr>c_state := STATE_CONNECTION_ESTABLISHED\<rparr>"] exI [of _ ce3]) simp
qed

theorem connection_establishes_witness:
  "\<exists>c1 ce1 s2 c3 ce3. connect True 0 0 (entity_addr_new TYPE_SERVER 0 []) (connection_new 11 12 13 (entity_addr_new TYPE_ANY 0 []), fresh_center) = Inr (c1, ce1) \<and>
     process False 0 6 0 (c1, ce1\<lparr>external_events := [], external_num_events := 0\<rparr>) = Some (Inr s2) \<and>
     process_polls False ([0, - 111, 0] @ [1]) s2 = Some (Inr (c3, ce3)) \<and> c_state c3 = STATE_CONNECTION_ESTABLISHED \<and>
     epoll_watched (drv ce3) 6 = {EVENT_READABLE} \<and> external_events ce3 = [13]"
proof -
  let ?c = "connection_new 11 12 13 (entity_addr_new TYPE_ANY 0 [])"
  have e: "external_ok fresh_center" "external_events fresh_center = []" "cs ?c = None" "c_state ?c = STATE_NONE" "write_callback_handler ?c = 13"
    by (simp_all add: external_ok_def fresh_center_def center_new_def connection_new_def)
  show ?thesis
    using connection_establishes [OF fresh_center_ok e(1-4), of 6 0 0 "[0, - 111, 0]" 1 "entity_addr_new TYPE_SERVER 0 []" False]
    unfolding e(5) by (auto simp: mask_of_fresh fd_limit_def)
qed

text \<open>Accepting. An accepted socket is scheduled; the next \<open>process\<close> watches it for reading with the user's read
  callback, queues the user's write callback and establishes the connection; every later call changes
  nothing.\<close>

theorem connection_accepts:
  assumes "center_ok epoll_watched epoll_ok ce" and "external_ok ce" and "external_events ce = []" and "fd_ok fd" and "mask_of ce fd = {}"
  shows "\<exists>c1 ce1 c2 ce2. accept True 0 0 fd la pa (c, ce) = Inr (c1, ce1) \<and> external_events ce1 = [read_handler c] \<and>
    process need r fd' is_conn (c1, ce1\<lparr>external_events := [], external_num_events := 0\<rparr>) = Some (Inr (c2, ce2)) \<and>
    c_state c2 = STATE_CONNECTION_ESTABLISHED \<and> cs c2 = Some fd \<and> local_addr c2 = la \<and> peer_addr c2 = pa \<and>
    epoll_watched (drv ce2) fd = {EVENT_READABLE} \<and> fst (cbs_of ce2 fd) = read_callback_handler c \<and>
    external_events ce2 = [write_callback_handler c] \<and>
    (\<forall>need r fd' is_conn. process need r fd' is_conn (c2, ce2) = Some (Inr (c2, ce2)))"
proof -
  let ?c1 = "c\<lparr>cs := Some fd, local_addr := la, peer_addr := pa, c_state := STATE_ACCEPTING\<rparr>"
  let ?ce1 = "ce\<lparr>external_events := [read_handler c], external_num_events := 1\<rparr>"
  let ?run = "?ce1\<lparr>external_events := [], external_num_events := 0\<rparr>"
  let ?c2 = "?c1\<lparr>c_state := STATE_CONNECTION_ESTABLISHED\<rparr>"
  have acc: "accept True 0 0 fd la pa (c, ce) = Inr (?c1, ?ce1)"
    using assms(3,4) by (simp add: accept_def dispatch_in_thread [OF assms(2)] queued_def)
  have run: "center_ok epoll_watched epoll_ok ?run" "external_ok ?run" "mask_of ?run fd = {}"
    using assms(1,5) by (simp_all add: queued_frame external_ok_def)
  obtain w where w: "watch fd {EVENT_READABLE} (read_callback_handler c) ?run = Some (Inr w)" "center_ok epoll_watched epoll_ok w"
    "mask_of w fd = {EVENT_READABLE}" "rest_same ?run w" "fst (cbs_of w fd) = read_callback_handler c"
    using watch_ok [OF run(1) assms(4), of "{EVENT_READABLE}" "read_callback_handler c"] run(3) by auto
  let ?ce2 = "w\<lparr>external_events := [write_callback_handler c], external_num_events := 1\<rparr>"
  have ext: "external_events w = []" using rest_same_external [OF w(4)] by simp
  have p: "process need r fd' is_conn (?c1, ?run) = Some (Inr (?c2, ?ce2))"
    using w(1) ext by (simp add: process_def accepting_step_def dispatch_in_thread [OF rest_same_external_ok [OF w(4) run(2)]] queued_def)
  have "epoll_watched (drv ?ce2) fd = {EVENT_READABLE}" using w(2,3) by (simp add: center_ok_def)
  then show ?thesis using acc p w(5)
    by (intro exI [of _ ?c1] exI [of _ ?ce1] exI [of _ ?c2] exI [of _ ?ce2]) (simp add: queued_frame process_def)
qed

theorem connection_accepts_witness:
  "\<exists>c1 ce1 c2 ce2. accept True 0 0 6 (entity_addr_new TYPE_SERVER 0 []) (entity_addr_new TYPE_CLIENT 0 []) (connection_new 11 12 13 (entity_addr_new TYPE_ANY 0 []), fresh_center) = Inr (c1, ce1) \<and>
     process False 0 0 1 (c1, ce1\<lparr>external_events := [], external_num_events := 0\<rparr>) = Some (Inr (c2, ce2)) \<and>
     c_state c2 = STATE_CONNECTION_ESTABLISHED \<and> epoll_watched (drv ce2) 6 = {EVENT_READABLE} \<and> external_events ce2 = [13]"
proof -
  let ?c = "connection_new 11 12 13 (entity_addr_new TYPE_ANY 0 [])"
  have e: "external_ok fresh_center" "external_events fresh_center = []" "write_callback_handler ?c = 13"
    by (simp_all add: external_ok_def fresh_center_def center_new_def connection_new_def)
  show ?thesis
    using connection_accepts [OF fresh_center_ok e(1,2), of 6 "entity_addr_new TYPE_SERVER 0 []" "entity_addr_new TYPE_CLIENT 0 []" ?c False 0 0 1]
    unfolding e(3) by (auto simp: mask_of_fresh fd_limit_def)
qed

end
