(* ===== verification/SwitchTable.thy ===== *)
theory SwitchTable
  imports Prelude
begin

text \<open>
  The controller's switch table writer (\<open>SwitchTableWritter\<close> in
  \<open>src/src/controller/mc_control_plane.cc\<close> and \<open>mc_control_plane.h\<close>): multicast group numbers and the
  calls into the Python control plane. The interpreter is not modelled: \<open>py\<close> says that it runs and
  \<open>modl\<close> that the module is found; a call is a value appended to a log.
\<close>

section \<open>State\<close>

datatype py_call =
    TableInit
  | GroupAdd3 u32 u32 u32 u32 u32 u32 u32 u32 u32 u32
  | GroupAdd2 u32 u32 u32 u32 u32 u32 u32 u32
  | GroupDel3 u32 u32 u32 u32 u32 u32 u32
  | GroupDel2 u32 u32 u32 u32 u32 u32

record switch_writer =
  switch_addr :: u32
  mcg_id_used :: "u32 list"
  py_calls :: "py_call list"

abbreviation (input) MULTICAST_ID_MAX_NUM :: nat where
  "MULTICAST_ID_MAX_NUM \<equiv> 1024"

text \<open>The constructors; the table of used numbers is not initialised.\<close>

definition switch_writer_addr :: "u32 \<Rightarrow> u32 list \<Rightarrow> switch_writer" where
  "switch_writer_addr addr junk = \<lparr>switch_addr = addr, mcg_id_used = junk, py_calls = []\<rparr>"

definition switch_writer_new :: "u32 list \<Rightarrow> switch_writer" where
  "switch_writer_new junk = \<lparr>switch_addr = 0x0a00007b, mcg_id_used = junk, py_calls = []\<rparr>"

definition get_switch_addr :: "switch_writer \<Rightarrow> u32" where
  "get_switch_addr s = switch_addr s"

section \<open>Operations\<close>

definition py_invoke :: "bool \<Rightarrow> bool \<Rightarrow> py_call \<Rightarrow> switch_writer \<Rightarrow> bool \<times> switch_writer" where
  "py_invoke py modl call s = (if py \<and> modl then (True, s\<lparr>py_calls := py_calls s @ [call]\<rparr>) else (False, s))"

definition init_switch_table :: "bool \<Rightarrow> bool \<Rightarrow> switch_writer \<Rightarrow> int \<times> switch_writer" where
  "init_switch_table py modl s =
     (let (called, s1) = py_invoke py modl TableInit (s\<lparr>mcg_id_used := replicate MULTICAST_ID_MAX_NUM 0\<rparr>)
      in (if called then 0 else - 1, s1))"

definition multicast_group_add3 ::
  "bool \<Rightarrow> bool \<Rightarrow> u32 \<Rightarrow> u32 \<Rightarrow> u32 \<Rightarrow> u32 \<Rightarrow> u32 \<Rightarrow> u32 \<Rightarrow> u32 \<Rightarrow> u32 \<Rightarrow> u32 \<Rightarrow> switch_writer \<Rightarrow> u32 \<times> switch_writer" where
  "multicast_group_add3 py modl src_addr dqp_num sqp_num dst_addr1 dqp1 dst_addr2 dqp2 dst_addr3 dqp3 s =
     (let mcg_id = dqp_num in
      if mcg_id = 2 then (- 1, s)
      else (mcg_id, snd (py_invoke py modl (GroupAdd3 mcg_id src_addr dqp_num sqp_num dst_addr1 dqp1 dst_addr2 dqp2 dst_addr3 dqp3) s)))"

definition multicast_group_add2 ::
  "bool \<Rightarrow> bool \<Rightarrow> u32 \<Rightarrow> u32 \<Rightarrow> u32 \<Rightarrow> u32 \<Rightarrow> u32 \<Rightarrow> u32 \<Rightarrow> u32 \<Rightarrow> switch_writer \<Rightarrow> u32 \<times> switch_writer" where
  "multicast_group_add2 py modl src_addr dqp_num sqp_num dst_addr1 dqp1 dst_addr2 dqp2 s =
     (let mcg_id = dqp_num in
      if mcg_id = 2 then (- 1, s)
      else (mcg_id, snd (py_invoke py modl (GroupAdd2 mcg_id src_addr dqp_num sqp_num dst_addr1 dqp1 dst_addr2 dqp2) s)))"

definition multicast_group_del3 ::
  "bool \<Rightarrow> bool \<Rightarrow> u32 \<Rightarrow> u32 \<Rightarrow> u32 \<Rightarrow> u32 \<Rightarrow> u32 \<Rightarrow> u32 \<Rightarrow> u32 \<Rightarrow> switch_writer \<Rightarrow> int \<times> switch_writer" where
  "multicast_group_del3 py modl mcg_id src_addr dqp_num sqp_num dst_addr1 dst_addr2 dst_addr3 s =
     (let (called, s1) = py_invoke py modl (GroupDel3 mcg_id src_addr dqp_num sqp_num dst_addr1 dst_addr2 dst_addr3) s
      in (if called then 0 else - 1, s1))"

definition multicast_group_del2 ::
  "bool \<Rightarrow> bool \<Rightarrow> u32 \<Rightarrow> u32 \<Rightarrow> u32 \<Rightarrow> u32 \<Rightarrow> u32 \<Rightarrow> u32 \<Rightarrow> switch_writer \<Rightarrow> int \<times> switch_writer" where
  "multicast_group_del2 py modl mcg_id src_addr dqp_num sqp_num dst_addr1 dst_addr2 s =
     (let (called, s1) = py_invoke py modl (GroupDel2 mcg_id src_addr dqp_num sqp_num dst_addr1 dst_addr2) s
      in (if called then 0 else - 1, s1))"

function alloc_loop :: "nat \<Rightarrow> switch_writer \<Rightarrow> int \<times> switch_writer" where
  "alloc_loop i s =
     (if i < MULTICAST_ID_MAX_NUM
      then if mcg_id_used s ! i = 0 then (int i, s\<lparr>mcg_id_used := (mcg_id_used s)[i := 1]\<rparr>) else alloc_loop (i + 1) s
      else (- 1, s))"
  by pat_completeness auto
termination by (relation "measure (\<lambda>(i, s). MULTICAST_ID_MAX_NUM - i)") auto

declare alloc_loop.simps [simp del]

definition allocate_multicast_group_id :: "switch_writer \<Rightarrow> int \<times> switch_writer" where
  "allocate_multicast_group_id s = alloc_loop 11 s"

definition free_multicast_group_id :: "u32 \<Rightarrow> switch_writer \<Rightarrow> switch_writer result" where
  "free_multicast_group_id mcg_id s =
     (if MULTICAST_ID_MAX_NUM \<le> unat mcg_id then Inl OutOfBounds else Inr (s\<lparr>mcg_id_used := (mcg_id_used s)[unat mcg_id := 0]\<rparr>))"

section \<open>Group numbers\<close>

lemma alloc_loop_spec:
  "alloc_loop i s = (r, s') \<Longrightarrow>
   (if r = - 1 then s' = s \<and> (\<forall>j. i \<le> j \<and> j < MULTICAST_ID_MAX_NUM \<longrightarrow> mcg_id_used s ! j \<noteq> 0)
    else \<exists>k. r = int k \<and> i \<le> k \<and> k < MULTICAST_ID_MAX_NUM \<and> mcg_id_used s ! k = 0 \<and>
      (\<forall>j. i \<le> j \<and> j < k \<longrightarrow> mcg_id_used s ! j \<noteq> 0) \<and> s' = s\<lparr>mcg_id_used := (mcg_id_used s)[k := 1]\<rparr>)"
proof (induction i s arbitrary: r s' rule: alloc_loop.induct)
  case (1 i s)
  show ?case
  proof (cases "i < MULTICAST_ID_MAX_NUM \<and> mcg_id_used s ! i \<noteq> 0")
    case True
    with "1.prems" have rec: "alloc_loop (i + 1) s = (r, s')" by (subst (asm) alloc_loop.simps) simp
    have step: "i \<le> j \<longleftrightarrow> j = i \<or> i + 1 \<le> j" for j by auto
    show ?thesis using "1.IH" [OF _ _ rec] True unfolding step by (auto split: if_splits)
  next
    case False
    with "1.prems" show ?thesis by (subst (asm) alloc_loop.simps) (auto split: if_splits)
  qed
qed

text \<open>\<open>allocate_multicast_group_id\<close> returns the least free group number from 11 on and marks it used, so that
  the next call returns another one; it returns -1 exactly when all are used; and freeing the number
  restores the table.\<close>

theorem group_id_allocation:
  assumes "length (mcg_id_used s) = 1024" and "allocate_multicast_group_id s = (r, s')"
  shows "(r = - 1 \<longleftrightarrow> (\<forall>j. 11 \<le> j \<and> j < 1024 \<longrightarrow> mcg_id_used s ! j \<noteq> 0)) \<and>
    (r \<noteq> - 1 \<longrightarrow> 11 \<le> r \<and> r < 1024 \<and> mcg_id_used s ! nat r = 0 \<and> (\<forall>j. 11 \<le> j \<and> int j < r \<longrightarrow> mcg_id_used s ! j \<noteq> 0) \<and>
      mcg_id_used s' ! nat r \<noteq> 0 \<and> fst (allocate_multicast_group_id s') \<noteq> r \<and>
      free_multicast_group_id (word_of_int r) s' = Inr s)"
proof -
  note spec = alloc_loop_spec [OF assms(2) [unfolded allocate_multicast_group_id_def]]
  show ?thesis
  proof (cases "r = - 1")
    case True
    then show ?thesis using spec by simp
  next
    case False
    then obtain k where k: "r = int k" "11 \<le> k" "k < 1024" "mcg_id_used s ! k = 0" "\<forall>j. 11 \<le> j \<and> j < k \<longrightarrow> mcg_id_used s ! j \<noteq> 0"
      "s' = s\<lparr>mcg_id_used := (mcg_id_used s)[k := 1]\<rparr>" using spec by auto
    obtain r2 s2 where a2: "alloc_loop 11 s' = (r2, s2)" by fastforce
    have used: "mcg_id_used s' ! k \<noteq> 0" using k assms(1) by simp
    then have "r2 \<noteq> r" using alloc_loop_spec [OF a2] k(1) by auto
    moreover have "unat (word_of_int (int k) :: u32) = k" using k(3) by (simp add: unat_of_nat)
    then have "free_multicast_group_id (word_of_int r) s' = Inr s"
      using k assms(1) by (simp add: free_multicast_group_id_def list_update_same_conv)
    ultimately show ?thesis using k used a2 False by (auto simp: allocate_multicast_group_id_def)
  qed
qed

theorem group_id_allocation_witness:
  "fst (allocate_multicast_group_id ((switch_writer_new [])\<lparr>mcg_id_used := replicate 1024 0\<rparr>)) \<noteq> - 1 \<and>
   fst (allocate_multicast_group_id (snd (allocate_multicast_group_id ((switch_writer_new [])\<lparr>mcg_id_used := replicate 1024 0\<rparr>)))) \<noteq>
   fst (allocate_multicast_group_id ((switch_writer_new [])\<lparr>mcg_id_used := replicate 1024 0\<rparr>))"
proof -
  let ?s = "(switch_writer_new [])\<lparr>mcg_id_used := replicate 1024 0\<rparr>"
  have l: "length (mcg_id_used ?s) = 1024" by simp
  have z: "\<not> (\<forall>j. 11 \<le> j \<and> j < 1024 \<longrightarrow> mcg_id_used ?s ! j \<noteq> 0)"
  proof
    assume a: "\<forall>j. 11 \<le> j \<and> j < 1024 \<longrightarrow> mcg_id_used ?s ! j \<noteq> 0"
    show False using a [rule_format, of 12] by simp
  qed
  show ?thesis
    using group_id_allocation [OF l, of "fst (allocate_multicast_group_id ?s)" "snd (allocate_multicast_group_id ?s)"] z by simp
qed

end
