(* ===== verification/Multicast.thy ===== *)
theory Multicast
  imports EntityAddr SwitchTable
begin

text \<open>
  The multicast daemon (\<open>MulticastDaemon\<close> in \<open>src/src/multicast/multicast.cc\<close> and \<open>multicast.h\<close>): it
  accepts a client, reads the two group members from its handshake message, connects to them, relays
  the handshakes, writes the group into the switch table when both members have answered, and only
  then answers the client. Connections are pointers; \<open>inet_ntoa\<close> and \<open>inet_pton\<close> are arguments, as are
  the results of reading and writing and the contents of uninitialised locals (\<open>junk\<close>).
\<close>

section \<open>State\<close>

abbreviation (input) kNumMulticasts :: nat where
  "kNumMulticasts \<equiv> 2"

datatype client_state = C_INIT | C_HANDSHAKE_RECEIVED | C_HANDSHAKE_SENT | C_ACK_RECEIVED | C_ERROR

datatype server_state = S_INIT | S_CONNECTED | S_HANDSHAKE_SENT | S_HANDSHAKE_ACK_SENT | S_ERROR

record mc_state =
  client_st :: client_state
  server_st :: "server_state list"

definition mc_state_new :: mc_state where
  "mc_state_new = \<lparr>client_st = C_INIT, server_st = [S_INIT, S_INIT]\<rparr>"

record mc_meta =
  sender_lid :: u16
  sender_local_qpn :: u32
  sender_psn :: u32
  sender_peer_qpn :: u32
  receiver_lid :: "u16 list"
  receiver_local_qpn :: "u32 list"
  receiver_psn :: "u32 list"
  receiver_peer_qpn :: "u32 list"
  sender_gid :: "u8 list"
  receiver_gid :: "u8 list list"

definition mc_meta_new :: mc_meta where
  "mc_meta_new = \<lparr>sender_lid = 0, sender_local_qpn = 0, sender_psn = 0, sender_peer_qpn = 0,
     receiver_lid = [0, 0], receiver_local_qpn = [0, 0], receiver_psn = [0, 0], receiver_peer_qpn = [0, 0],
     sender_gid = replicate 16 0, receiver_gid = [replicate 16 0, replicate 16 0]\<rparr>"

text \<open>The maps of the daemon, the number and the peer address of every connection, the calls of
  \<open>Connection::connect\<close> and the messages written.\<close>

record daemon =
  m_mc_id :: u32
  multicast_cm_meta :: "u32 \<Rightarrow> mc_meta option"
  multicast_state :: "u32 \<Rightarrow> mc_state option"
  multicast_connections :: "u32 \<Rightarrow> ptr list option"
  multicast_addrs :: "u32 \<Rightarrow> entity_addr list option"
  p4_writter :: switch_writer
  accepting :: "ptr set"
  conn_mc :: "ptr \<Rightarrow> u32"
  conn_peer :: "ptr \<Rightarrow> entity_addr"
  mc_connects :: "(ptr \<times> entity_addr) list"
  mc_out :: "(ptr \<times> string) list"

definition s_addr :: "entity_addr \<Rightarrow> u32" where
  "s_addr a = load_le32 (get_bytes (sa a) 4 4)"

definition mc_start :: "u32 \<Rightarrow> u32 \<Rightarrow> u32" where
  "mc_start ip rnd = (push_bit 12 ip + rnd) mod 10000"

definition daemon_new :: "u32 \<Rightarrow> switch_writer \<Rightarrow> entity_addr \<Rightarrow> daemon" where
  "daemon_new start sw nobody = \<lparr>m_mc_id = start, multicast_cm_meta = Map.empty, multicast_state = Map.empty,
     multicast_connections = Map.empty, multicast_addrs = Map.empty, p4_writter = sw, accepting = {},
     conn_mc = \<lambda>_. 0, conn_peer = \<lambda>_. nobody, mc_connects = [], mc_out = []\<rparr>"

text \<open>\<open>operator[]\<close> of the maps creates a missing entry.\<close>

definition state_at :: "daemon \<Rightarrow> u32 \<Rightarrow> mc_state" where
  "state_at d i = (case multicast_state d i of Some s \<Rightarrow> s | None \<Rightarrow> mc_state_new)"

definition meta_at :: "daemon \<Rightarrow> u32 \<Rightarrow> mc_meta" where
  "meta_at d i = (case multicast_cm_meta d i of Some m \<Rightarrow> m | None \<Rightarrow> mc_meta_new)"

definition conns_at :: "daemon \<Rightarrow> u32 \<Rightarrow> ptr list" where
  "conns_at d i = (case multicast_connections d i of Some cs \<Rightarrow> cs | None \<Rightarrow> [nullptr, nullptr, nullptr])"

definition addrs_at :: "entity_addr \<Rightarrow> daemon \<Rightarrow> u32 \<Rightarrow> entity_addr list" where
  "addrs_at z d i = (case multicast_addrs d i of Some as \<Rightarrow> as | None \<Rightarrow> [z, z])"

definition put_state :: "u32 \<Rightarrow> mc_state \<Rightarrow> daemon \<Rightarrow> daemon" where
  "put_state i s d = d\<lparr>multicast_state := (multicast_state d)(i \<mapsto> s)\<rparr>"

definition put_meta :: "u32 \<Rightarrow> mc_meta \<Rightarrow> daemon \<Rightarrow> daemon" where
  "put_meta i m d = d\<lparr>multicast_cm_meta := (multicast_cm_meta d)(i \<mapsto> m)\<rparr>"

section \<open>Reading a message\<close>

text \<open>The loop of both read handlers: every \<open>Read\<close> stores its bytes at the start of \<open>msg\<close>, and \<open>-EAGAIN\<close>
  is added to the 32-bit \<open>read_size\<close>. \<open>rd k n\<close> is the result of the \<open>k\<close>-th call, asked for \<open>n\<close> bytes.\<close>

partial_function (option) mc_read :: "(nat \<Rightarrow> nat \<Rightarrow> int \<times> string) \<Rightarrow> nat \<Rightarrow> u32 \<Rightarrow> string \<Rightarrow> string option" where
  "mc_read rd k read_size msg =
     (if unat read_size < TCP_MSG_LEN then
        case rd k (TCP_MSG_LEN - unat read_size) of (r, bs) \<Rightarrow>
          if r < 0 \<and> r \<noteq> - EAGAIN then mc_read rd (k + 1) read_size msg
          else mc_read rd (k + 1) (read_size + of_int r) (bs @ drop (length bs) msg)
      else Some msg)"

text \<open>\<open>sscanf\<close> with eight numbers and the GID, which goes to an array of 33 characters.\<close>

definition scan_msg :: "string \<Rightarrow> u32 \<Rightarrow> string \<Rightarrow> (u64 list \<times> u8 list) result" where
  "scan_msg junk v msg =
     (if NUL \<notin> set msg then Inl OutOfBounds
      else case scan_fields 8 (c_string msg) of
        (vs, None) \<Rightarrow> Inr (vs, wire_gid_to_gid junk v)
      | (vs, Some g) \<Rightarrow>
          if 33 < length g + 1 then Inl BufferOverflow
          else Inr (vs, wire_gid_to_gid (g @ NUL # drop (length g + 1) junk) v))"

definition field :: "u64 list \<Rightarrow> nat \<Rightarrow> 'a::len word \<Rightarrow> 'a word" where
  "field vs k old = (if k < length vs then ucast (vs ! k) else old)"

definition assign_sender :: "u64 list \<Rightarrow> u8 list \<Rightarrow> mc_meta \<Rightarrow> mc_meta" where
  "assign_sender vs g m = m\<lparr>sender_lid := field vs 0 (sender_lid m), sender_local_qpn := field vs 1 (sender_local_qpn m),
     sender_psn := field vs 2 (sender_psn m), sender_peer_qpn := field vs 3 (sender_peer_qpn m), sender_gid := g\<rparr>"

definition assign_receiver :: "nat \<Rightarrow> u64 list \<Rightarrow> u8 list \<Rightarrow> mc_meta \<Rightarrow> mc_meta" where
  "assign_receiver i vs g m = m\<lparr>
     receiver_lid := (receiver_lid m)[i := field vs 0 (receiver_lid m ! i)],
     receiver_local_qpn := (receiver_local_qpn m)[i := field vs 1 (receiver_local_qpn m ! i)],
     receiver_psn := (receiver_psn m)[i := field vs 2 (receiver_psn m ! i)],
     receiver_peer_qpn := (receiver_peer_qpn m)[i := field vs 3 (receiver_peer_qpn m ! i)],
     receiver_gid := (receiver_gid m)[i := g]\<rparr>"

section \<open>Writing a message\<close>

definition mc_msg :: "u16 \<Rightarrow> u32 \<Rightarrow> u32 \<Rightarrow> u32 \<Rightarrow> u32 \<Rightarrow> u16 \<Rightarrow> u32 \<Rightarrow> u16 \<Rightarrow> string \<Rightarrow> string" where
  "mc_msg a b c d e f g h gid =
     print_fields [hex_pad 4 (unat a), hex_pad 8 (unat b), hex_pad 8 (unat c), hex_pad 8 (unat d),
                   hex_pad 8 (unat e), hex_pad 4 (unat f), hex_pad 8 (unat g), hex_pad 4 (unat h)] gid"

text \<open>The retry loop of both send functions; \<open>False\<close> is the path that ends in \<open>assert (false)\<close>.\<close>

function mc_write :: "(nat \<Rightarrow> int \<times> int) \<Rightarrow> nat \<Rightarrow> bool" where
  "mc_write w retry =
     (case w retry of (r, e) \<Rightarrow>
        if r \<noteq> int TCP_MSG_LEN then
          if r < 0 \<and> (e = EINTR \<or> e = EAGAIN) \<and> retry < 3 then mc_write w (Suc retry) else False
        else True)"
  by pat_completeness auto
termination by (relation "measure (\<lambda>(w, retry). 3 - retry)") auto

declare mc_write.simps [simp del]

definition server_msg :: "nat \<Rightarrow> mc_meta \<Rightarrow> string" where
  "server_msg i m =
     mc_msg (sender_lid m) (sender_local_qpn m) (sender_psn m) (receiver_local_qpn m ! i)
       (sender_local_qpn m) (sender_lid m) (sender_local_qpn m) (sender_lid m) (gid_to_wire_gid (sender_gid m))"

definition send_handshake_to_server ::
  "(nat \<Rightarrow> int \<times> int) \<Rightarrow> u32 \<Rightarrow> mc_meta \<Rightarrow> mc_state \<Rightarrow> nat \<Rightarrow> daemon \<Rightarrow> daemon result" where
  "send_handshake_to_server w mc_id m s i d =
     kassert (server_st s ! i = S_CONNECTED \<or> server_st s ! i = S_HANDSHAKE_SENT)
       (let conn = conns_at d mc_id ! (i + 1);
            msg = server_msg i m in
        if TCP_MSG_LEN < length msg + 1 then Inl BufferOverflow
        else if conn = nullptr then Inl NullDeref
        else if mc_write w 0 then Inr (d\<lparr>mc_out := mc_out d @ [(conn, msg)]\<rparr>) else Inl AbortCall)"

definition client_msg :: "u32 \<Rightarrow> mc_meta \<Rightarrow> string" where
  "client_msg mc_id m =
     mc_msg (receiver_lid m ! 0) mc_id (sender_psn m) (sender_local_qpn m) (sender_psn m) (receiver_lid m ! 0)
       (sender_psn m) (receiver_lid m ! 0) (gid_to_wire_gid (receiver_gid m ! 1))"

text \<open>\<open>check_and_send_handshake_to_client\<close>: the new state of the group is returned with the daemon.\<close>

definition check_and_send ::
  "bool \<Rightarrow> bool \<Rightarrow> entity_addr \<Rightarrow> (nat \<Rightarrow> int \<times> int) \<Rightarrow> ptr \<Rightarrow> u32 \<Rightarrow> mc_meta \<Rightarrow> mc_state \<Rightarrow> daemon \<Rightarrow> (mc_state \<times> daemon) result" where
  "check_and_send py modl z w conn mc_id m s d =
     (if client_st s \<noteq> C_HANDSHAKE_RECEIVED then Inr (s, d)
      else if \<exists>i<kNumMulticasts. server_st s ! i \<noteq> S_HANDSHAKE_ACK_SENT then Inr (s, d)
      else if conn = nullptr then Inl NullDeref
      else
        let addrs = addrs_at z d mc_id;
            (_, sw) = multicast_group_add2 py modl (htonl (s_addr (conn_peer d conn))) mc_id (sender_local_qpn m)
                        (htonl (s_addr (addrs ! 0))) (receiver_local_qpn m ! 0)
                        (htonl (s_addr (addrs ! 1))) (receiver_local_qpn m ! 1) (p4_writter d);
            d1 = d\<lparr>p4_writter := sw\<rparr>;
            msg = client_msg mc_id m in
        if TCP_MSG_LEN < length msg + 1 then Inl BufferOverflow
        else if mc_write w 0 then Inr (s\<lparr>client_st := C_HANDSHAKE_SENT\<rparr>, d1\<lparr>mc_out := mc_out d1 @ [(conn, msg)]\<rparr>)
        else Inl AbortCall)"

section \<open>Handlers\<close>

definition mc_accept :: "ptr \<Rightarrow> entity_addr \<Rightarrow> daemon \<Rightarrow> daemon" where
  "mc_accept conn peer d = d\<lparr>accepting := insert conn (accepting d), conn_mc := (conn_mc d)(conn := 0), conn_peer := (conn_peer d)(conn := peer)\<rparr>"

text \<open>What the environment supplies: the conversions of addresses, a default address with arbitrary padding,
  the padding of a local socket address, arbitrary contents of the locals the message is scanned into.\<close>

record mc_env =
  env_ntoa :: "u32 \<Rightarrow> string"
  env_pton :: "string \<Rightarrow> u8 list option"
  env_addr :: entity_addr
  env_sin :: "u8 list"
  env_members :: multicast_group
  env_gid :: string
  env_v32 :: u32
  env_py :: bool
  env_module :: bool
  env_msg :: string

definition member_addr :: "mc_env \<Rightarrow> u32 \<Rightarrow> u16 \<Rightarrow> entity_addr result" where
  "member_addr env ip port =
     (let s = env_ntoa env ip; z = env_addr env in
      if length (ip_char z) < length s + 1 then Inl BufferOverflow
      else Inr (set_addr (env_pton env) (env_sin env) s port
                 (z\<lparr>ip_char := map (\<lambda>c. of_nat (of_char c)) s @ 0 # drop (length s + 1) (ip_char z)\<rparr>)))"

text \<open>The loop that connects to the members; \<open>nc\<close> are the new connections.\<close>

definition connect_member :: "u32 \<Rightarrow> ptr list \<Rightarrow> nat \<Rightarrow> entity_addr list \<Rightarrow> daemon \<Rightarrow> daemon" where
  "connect_member mc_id nc i addrs d =
     d\<lparr>conn_mc := (conn_mc d)(nc ! i := mc_id), conn_peer := (conn_peer d)(nc ! i := addrs ! i),
       mc_connects := mc_connects d @ [(nc ! i, addrs ! i)],
       multicast_connections := (multicast_connections d)(mc_id \<mapsto> (conns_at d mc_id)[i + 1 := nc ! i])\<rparr>"

definition client_first_message :: "mc_env \<Rightarrow> ptr list \<Rightarrow> ptr \<Rightarrow> string \<Rightarrow> daemon \<Rightarrow> daemon result" where
  "client_first_message env nc conn msg d =
     (let mc_id = m_mc_id d;
          d1 = d\<lparr>m_mc_id := mc_id + 1, conn_mc := (conn_mc d)(conn := mc_id),
                 multicast_connections := (multicast_connections d)(mc_id \<mapsto> [conn, nullptr, nullptr]),
                 multicast_state := (multicast_state d)(mc_id \<mapsto> mc_state_new)\<rparr> in
      kassert (multicast_cm_meta d1 mc_id = None)
       (rbind (scan_msg (env_gid env) (env_v32 env) msg) (\<lambda>(vs, g).
        rbind (member_addr env (field vs 4 (ip_addr_member_1 (env_members env))) (field vs 5 (port_member_1 (env_members env)))) (\<lambda>a0.
        rbind (member_addr env (field vs 6 (ip_addr_member_2 (env_members env))) (field vs 7 (port_member_2 (env_members env)))) (\<lambda>a1.
          let d2 = put_meta mc_id (assign_sender vs g mc_meta_new) d1;
              d3 = d2\<lparr>multicast_addrs := (multicast_addrs d2)(mc_id \<mapsto> [a0, a1])\<rparr>;
              d4 = put_state mc_id ((state_at d3 mc_id)\<lparr>client_st := C_HANDSHAKE_RECEIVED\<rparr>) d3
          in Inr (connect_member mc_id nc 1 [a0, a1] (connect_member mc_id nc 0 [a0, a1] d4)))))))"

definition client_ack :: "mc_env \<Rightarrow> ptr \<Rightarrow> string \<Rightarrow> daemon \<Rightarrow> daemon result" where
  "client_ack env conn msg d =
     (let mc_id = conn_mc d conn in
      rbind (scan_msg (env_gid env) (env_v32 env) msg) (\<lambda>(vs, g).
        let s = state_at d mc_id; m = assign_sender vs g (meta_at d mc_id) in
        kassert (client_st s = C_HANDSHAKE_SENT)
          (kassert (sender_peer_qpn m = mc_id)
            (Inr (put_state mc_id (s\<lparr>client_st := C_ACK_RECEIVED\<rparr>) (put_meta mc_id m d))))))"

definition process_client_readable ::
  "mc_env \<Rightarrow> (nat \<Rightarrow> nat \<Rightarrow> int \<times> string) \<Rightarrow> ptr list \<Rightarrow> ptr \<Rightarrow> daemon \<Rightarrow> daemon result option" where
  "process_client_readable env rd nc conn d =
     Option.bind (mc_read rd 0 0 (env_msg env)) (\<lambda>msg.
       Some (if conn_mc d conn = 0 then client_first_message env nc conn msg d else client_ack env conn msg d))"

definition get_mc_index :: "u32 \<Rightarrow> ptr \<Rightarrow> daemon \<Rightarrow> nat result" where
  "get_mc_index mc_id conn d =
     kassert (multicast_connections d mc_id \<noteq> None)
       (let cs = conns_at d mc_id in Inr (if cs ! 1 = conn then 0 else if cs ! 2 = conn then 1 else kNumMulticasts))"

definition server_message :: "mc_env \<Rightarrow> (nat \<Rightarrow> int \<times> int) \<Rightarrow> (nat \<Rightarrow> int \<times> int) \<Rightarrow> ptr \<Rightarrow> string \<Rightarrow> daemon \<Rightarrow> daemon result" where
  "server_message env w1 w2 conn msg d =
     (let mc_id = conn_mc d conn; s = state_at d mc_id in
      rbind (get_mc_index mc_id conn d) (\<lambda>index.
      if kNumMulticasts \<le> index then Inl OutOfBounds
      else rbind (scan_msg (env_gid env) (env_v32 env) msg) (\<lambda>(vs, g).
        let m = assign_receiver index vs g (meta_at d mc_id); d1 = put_state mc_id s (put_meta mc_id m d) in
        case server_st s ! index of
          S_INIT \<Rightarrow> Inr d1
        | S_HANDSHAKE_SENT \<Rightarrow>
            rbind (send_handshake_to_server w1 mc_id m s index d1) (\<lambda>d2.
              let s2 = s\<lparr>server_st := (server_st s)[index := S_HANDSHAKE_ACK_SENT]\<rparr> in
              rbind (check_and_send (env_py env) (env_module env) (env_addr env) w2 (conns_at d2 mc_id ! 0) mc_id m s2 d2) (\<lambda>(s3, d3).
                Inr (put_state mc_id s3 d3)))
        | _ \<Rightarrow> Inl AbortCall)))"

definition process_server_readable ::
  "mc_env \<Rightarrow> (nat \<Rightarrow> nat \<Rightarrow> int \<times> string) \<Rightarrow> (nat \<Rightarrow> int \<times> int) \<Rightarrow> (nat \<Rightarrow> int \<times> int) \<Rightarrow> ptr \<Rightarrow> daemon \<Rightarrow> daemon result option" where
  "process_server_readable env rd w1 w2 conn d =
     Option.bind (mc_read rd 0 0 (env_msg env)) (\<lambda>msg. Some (server_message env w1 w2 conn msg d))"

definition process_client_writeable :: "ptr \<Rightarrow> daemon \<Rightarrow> daemon" where
  "process_client_writeable conn d = d"

definition process_server_writeable :: "(nat \<Rightarrow> int \<times> int) \<Rightarrow> ptr \<Rightarrow> daemon \<Rightarrow> daemon result" where
  "process_server_writeable w conn d =
     (let mc_id = conn_mc d conn; s = state_at d mc_id in
      rbind (get_mc_index mc_id conn d) (\<lambda>index.
      if kNumMulticasts \<le> index then Inl OutOfBounds
      else
        let m = meta_at d mc_id; s1 = s\<lparr>server_st := (server_st s)[index := S_CONNECTED]\<rparr>;
            d1 = put_state mc_id s1 (put_meta mc_id m d) in
        if client_st s1 = C_HANDSHAKE_RECEIVED then
          rbind (send_handshake_to_server w mc_id m s1 index d1) (\<lambda>d2.
            Inr (put_state mc_id (s1\<lparr>server_st := (server_st s1)[index := S_HANDSHAKE_SENT]\<rparr>) d2))
        else Inr d1))"

section \<open>The daemon as a transition system\<close>

text \<open>An event is a callback with its complete message; the read loop is treated separately.\<close>

datatype mc_event =
    McAccept ptr entity_addr
  | McClient "ptr list" ptr string
  | McWritable ptr "nat \<Rightarrow> int \<times> int"
  | McServer ptr "nat \<Rightarrow> int \<times> int" "nat \<Rightarrow> int \<times> int" string

definition mc_handle :: "mc_env \<Rightarrow> mc_event \<Rightarrow> daemon \<Rightarrow> daemon result" where
  "mc_handle env e d = (case e of
      McAccept conn peer \<Rightarrow> Inr (mc_accept conn peer d)
    | McClient nc conn msg \<Rightarrow> if conn_mc d conn = 0 then client_first_message env nc conn msg d else client_ack env conn msg d
    | McWritable conn w \<Rightarrow> process_server_writeable w conn d
    | McServer conn w1 w2 msg \<Rightarrow> server_message env w1 w2 conn msg d)"

inductive mc_reachable :: "mc_env \<Rightarrow> daemon \<Rightarrow> daemon \<Rightarrow> bool" for env d0 where
  mc_init: "mc_reachable env d0 d0"
| mc_step: "mc_reachable env d0 d \<Longrightarrow> mc_handle env e d = Inr d' \<Longrightarrow> mc_reachable env d0 d'"

text \<open>Member \<open>k\<close> of a group was sent its answer, which carries the queue pair number the group has on record
  for it; and the client was answered, with the group in the switch table: its addresses, the client's queue
  pair number of that answer, and for each member, in its own place, the number that the answer to this very
  member carried. (Group 2 is refused by the switch table writer.)\<close>

definition relayed :: "nat \<Rightarrow> u32 \<Rightarrow> daemon \<Rightarrow> bool" where
  "relayed k i d \<longleftrightarrow> (\<exists>m. (conns_at d i ! (k + 1), server_msg k m) \<in> set (mc_out d) \<and>
     receiver_local_qpn m ! k = receiver_local_qpn (meta_at d i) ! k)"

definition told :: "u32 \<Rightarrow> daemon \<Rightarrow> bool" where
  "told i d \<longleftrightarrow> (\<exists>as m m0 m1 src. multicast_addrs d i = Some as \<and> (conns_at d i ! 0, client_msg i m) \<in> set (mc_out d) \<and>
     (conns_at d i ! 1, server_msg 0 m0) \<in> set (mc_out d) \<and> (conns_at d i ! 2, server_msg 1 m1) \<in> set (mc_out d) \<and>
     (i \<noteq> 2 \<longrightarrow> GroupAdd2 i src i (sender_local_qpn m) (htonl (s_addr (as ! 0))) (receiver_local_qpn m0 ! 0)
        (htonl (s_addr (as ! 1))) (receiver_local_qpn m1 ! 1) \<in> set (py_calls (p4_writter d))))"

definition group_inv :: "u32 \<Rightarrow> daemon \<Rightarrow> bool" where
  "group_inv i d \<longleftrightarrow>
     (if multicast_connections d i = None then multicast_state d i = None
      else multicast_addrs d i \<noteq> None \<and>
        (\<forall>k<2. server_st (state_at d i) ! k = S_HANDSHAKE_ACK_SENT \<longrightarrow> relayed k i d) \<and>
        (client_st (state_at d i) \<in> {C_HANDSHAKE_SENT, C_ACK_RECEIVED} \<longrightarrow> told i d))"

definition mc_inv :: "daemon \<Rightarrow> bool" where
  "mc_inv d \<longleftrightarrow> (\<forall>i. group_inv i d)"

text \<open>What a handler leaves alone: the other groups, and what was sent and entered before.\<close>

definition same_group :: "u32 \<Rightarrow> daemon \<Rightarrow> daemon \<Rightarrow> bool" where
  "same_group i d d' \<longleftrightarrow> multicast_state d' i = multicast_state d i \<and> multicast_cm_meta d' i = multicast_cm_meta d i \<and>
     multicast_connections d' i = multicast_connections d i \<and> multicast_addrs d' i = multicast_addrs d i"

definition out_grows :: "daemon \<Rightarrow> daemon \<Rightarrow> bool" where
  "out_grows d d' \<longleftrightarrow> set (mc_out d) \<subseteq> set (mc_out d') \<and> set (py_calls (p4_writter d)) \<subseteq> set (py_calls (p4_writter d'))"

lemma told_mono:
  assumes "told i d" and "out_grows d d'" and "conns_at d' i = conns_at d i" and "multicast_addrs d' i = multicast_addrs d i"
  shows "told i d'"
  using assms(1,2) unfolding told_def out_grows_def assms(3,4) by blast

lemma relayed_mono:
  assumes "relayed k i d" and "out_grows d d'" and "conns_at d' i = conns_at d i"
    and "receiver_local_qpn (meta_at d' i) ! k = receiver_local_qpn (meta_at d i) ! k"
  shows "relayed k i d'"
  using assms(1,2) unfolding relayed_def out_grows_def assms(3,4) by blast

lemma group_inv_mono:
  assumes "group_inv i d" and "same_group i d d'" and "out_grows d d'"
  shows "group_inv i d'"
proof -
  have e: "conns_at d' i = conns_at d i" "meta_at d' i = meta_at d i" "state_at d' i = state_at d i"
    using assms(2) by (simp_all add: same_group_def conns_at_def meta_at_def state_at_def)
  show ?thesis
    using assms(1,2) told_mono [OF _ assms(3) e(1)] relayed_mono [OF _ assms(3) e(1)] e(2)
    unfolding group_inv_def e(3) same_group_def by (simp split: if_splits)
qed

text \<open>A handler that changes one group in place: the numbers of the members that are answered stay, and a
  client that becomes answered was told.\<close>

lemma group_inv_update:
  assumes "group_inv i d" and conns: "multicast_connections d' i = multicast_connections d i" and addrs: "multicast_addrs d' i = multicast_addrs d i"
    and some: "multicast_connections d i \<noteq> None" and out: "out_grows d d'"
    and servers: "\<And>k. k < 2 \<Longrightarrow> server_st (state_at d' i) ! k = S_HANDSHAKE_ACK_SENT \<Longrightarrow>
      (server_st (state_at d i) ! k = S_HANDSHAKE_ACK_SENT \<and> receiver_local_qpn (meta_at d' i) ! k = receiver_local_qpn (meta_at d i) ! k) \<or> relayed k i d'"
    and client: "client_st (state_at d' i) \<in> {C_HANDSHAKE_SENT, C_ACK_RECEIVED} \<Longrightarrow>
      client_st (state_at d i) \<in> {C_HANDSHAKE_SENT, C_ACK_RECEIVED} \<or> told i d'"
  shows "group_inv i d'"
proof -
  have e: "conns_at d' i = conns_at d i" using conns by (simp add: conns_at_def)
  have old: "multicast_addrs d i \<noteq> None" "\<forall>k<2. server_st (state_at d i) ! k = S_HANDSHAKE_ACK_SENT \<longrightarrow> relayed k i d"
    "client_st (state_at d i) \<in> {C_HANDSHAKE_SENT, C_ACK_RECEIVED} \<longrightarrow> told i d"
    using assms(1) some by (simp_all add: group_inv_def)
  have "\<forall>k<2. server_st (state_at d' i) ! k = S_HANDSHAKE_ACK_SENT \<longrightarrow> relayed k i d'"
    using servers old(2) relayed_mono [OF _ out e] by blast
  moreover have "client_st (state_at d' i) \<in> {C_HANDSHAKE_SENT, C_ACK_RECEIVED} \<longrightarrow> told i d'"
    using client old(3) told_mono [OF _ out e addrs] by blast
  ultimately show ?thesis using some old(1) unfolding group_inv_def conns addrs by auto
qed

lemma mc_inv_one:
  assumes "mc_inv d" and "\<And>j. j \<noteq> i \<Longrightarrow> same_group j d d'" and "out_grows d d'" and "group_inv i d'"
  shows "mc_inv d'"
  using assms group_inv_mono unfolding mc_inv_def by metis

lemma send_to_server_out:
  assumes "send_handshake_to_server w mc m s i d = Inr d'"
  shows "d' = d\<lparr>mc_out := mc_out d @ [(conns_at d mc ! (i + 1), server_msg i m)]\<rparr>"
  using assms by (auto simp: send_handshake_to_server_def Let_def split: if_splits)

lemma client_first_inv:
  assumes "mc_inv d" and "client_first_message env nc conn msg d = Inr d'"
  shows "mc_inv d'"
proof (rule mc_inv_one [OF assms(1), of "m_mc_id d"])
  show "same_group j d d'" if "j \<noteq> m_mc_id d" for j
    using assms(2) that
    by (auto simp: client_first_message_def Let_def rbind_eq_Inr connect_member_def put_state_def put_meta_def same_group_def split: prod.splits)
  show "out_grows d d'"
    using assms(2) by (auto simp: client_first_message_def Let_def rbind_eq_Inr connect_member_def put_state_def put_meta_def out_grows_def split: prod.splits)
  have *: "state_at d' (m_mc_id d) = mc_state_new\<lparr>client_st := C_HANDSHAKE_RECEIVED\<rparr>" "multicast_connections d' (m_mc_id d) \<noteq> None"
    "multicast_addrs d' (m_mc_id d) \<noteq> None"
    using assms(2)
    by (auto simp: client_first_message_def Let_def rbind_eq_Inr connect_member_def put_state_def put_meta_def state_at_def split: prod.splits)
  have "server_st mc_state_new ! k \<noteq> S_HANDSHAKE_ACK_SENT" if "k < 2" for k
    using that by (auto simp: mc_state_new_def less_2_cases_iff)
  then show "group_inv (m_mc_id d) d'" using * unfolding group_inv_def by auto
qed

lemma client_ack_inv:
  assumes "mc_inv d" and "client_ack env conn msg d = Inr d'"
  shows "mc_inv d'"
proof -
  let ?i = "conn_mc d conn"
  let ?s = "state_at d ?i"
  obtain vs g where d': "d' = put_state ?i (?s\<lparr>client_st := C_ACK_RECEIVED\<rparr>) (put_meta ?i (assign_sender vs g (meta_at d ?i)) d)"
    and sent: "client_st ?s = C_HANDSHAKE_SENT"
    using assms(2) by (auto simp: client_ack_def Let_def rbind_eq_Inr split: prod.splits)
  have inv: "group_inv ?i d" using assms(1) by (simp add: mc_inv_def)
  then have some: "multicast_connections d ?i \<noteq> None" using sent by (auto simp: group_inv_def state_at_def mc_state_new_def split: if_splits)
  show ?thesis
  proof (rule mc_inv_one [OF assms(1), of ?i])
    show "group_inv ?i d'"
      by (rule group_inv_update [OF inv _ _ some])
        (auto simp: d' put_state_def put_meta_def out_grows_def state_at_def meta_at_def assign_sender_def sent [unfolded state_at_def])
  qed (auto simp: d' put_state_def put_meta_def same_group_def out_grows_def)
qed

lemma nth_update_inert: "(xs[j := y]) ! k = z \<Longrightarrow> y \<noteq> z \<Longrightarrow> xs ! k = z"
  by (cases "j < length xs") (auto simp: nth_list_update list_update_beyond split: if_splits)

lemma writeable_inv:
  assumes "mc_inv d" and "process_server_writeable w conn d = Inr d'"
  shows "mc_inv d'"
proof -
  let ?i = "conn_mc d conn"
  let ?s = "state_at d ?i"
  obtain ix :: nat and st and out where d': "d' = (put_state ?i (?s\<lparr>server_st := (server_st ?s)[ix := st]\<rparr>) (put_meta ?i (meta_at d ?i) d))\<lparr>mc_out := mc_out d @ out\<rparr>"
    and st: "st \<noteq> S_HANDSHAKE_ACK_SENT" and some: "multicast_connections d ?i \<noteq> None"
  proof -
    obtain ix where ix: "get_mc_index ?i conn d = Inr ix" "multicast_connections d ?i \<noteq> None"
      using assms(2) by (auto simp: process_server_writeable_def get_mc_index_def Let_def rbind_eq_Inr kassert_def split: if_splits)
    let ?s1 = "?s\<lparr>server_st := (server_st ?s)[ix := S_CONNECTED]\<rparr>"
    let ?d1 = "put_state ?i ?s1 (put_meta ?i (meta_at d ?i) d)"
    show ?thesis
    proof (cases "client_st ?s = C_HANDSHAKE_RECEIVED")
      case True
      then obtain d2 where "send_handshake_to_server w ?i (meta_at d ?i) ?s1 ix ?d1 = Inr d2"
        and e: "d' = put_state ?i (?s1\<lparr>server_st := (server_st ?s1)[ix := S_HANDSHAKE_SENT]\<rparr>) d2"
        using assms(2) ix(1) by (auto simp: process_server_writeable_def Let_def rbind_eq_Inr split: if_splits)
      note d2 = send_to_server_out [OF this(1)]
      let ?out = "[(conns_at ?d1 ?i ! (ix + 1), server_msg ix (meta_at d ?i))]"
      show ?thesis
        by (rule that [OF _ _ ix(2), where ix = ix and st = S_HANDSHAKE_SENT and out = ?out]) (simp_all add: e d2 put_state_def put_meta_def)
    next
      case False
      then have "d' = ?d1" using assms(2) ix(1) by (auto simp: process_server_writeable_def Let_def rbind_eq_Inr split: if_splits)
      then show ?thesis by (intro that [OF _ _ ix(2), where ix = ix and st = S_CONNECTED and out = "[]"]) (simp_all add: put_state_def put_meta_def)
    qed
  qed
  show ?thesis
  proof (rule mc_inv_one [OF assms(1), of ?i])
    have inv: "group_inv ?i d" using assms(1) by (simp add: mc_inv_def)
    have e: "state_at d' ?i = ?s\<lparr>server_st := (server_st ?s)[ix := st]\<rparr>" "meta_at d' ?i = meta_at d ?i"
      by (simp_all add: d' put_state_def put_meta_def state_at_def meta_at_def)
    show "group_inv ?i d'"
    proof (rule group_inv_update [OF inv _ _ some])
      fix k :: nat assume "server_st (state_at d' ?i) ! k = S_HANDSHAKE_ACK_SENT"
      then show "(server_st ?s ! k = S_HANDSHAKE_ACK_SENT \<and> receiver_local_qpn (meta_at d' ?i) ! k = receiver_local_qpn (meta_at d ?i) ! k) \<or> relayed k ?i d'"
        using nth_update_inert [OF _ st] by (simp add: e)
    next
      show "client_st (state_at d' ?i) \<in> {C_HANDSHAKE_SENT, C_ACK_RECEIVED} \<Longrightarrow> client_st ?s \<in> {C_HANDSHAKE_SENT, C_ACK_RECEIVED} \<or> told ?i d'"
        by (simp add: e)
    qed (auto simp: d' put_state_def put_meta_def out_grows_def)
  qed (auto simp: d' put_state_def put_meta_def same_group_def out_grows_def)
qed

lemma check_and_send_state:
  assumes "check_and_send py modl z w (conns_at d i ! 0) i m s d = Inr (s', d')" and "py" and "modl"
    and "multicast_addrs d i = Some as" and "\<And>k. k < 2 \<Longrightarrow> server_st s ! k = S_HANDSHAKE_ACK_SENT \<Longrightarrow> \<exists>m'. (conns_at d i ! (k + 1), server_msg k m') \<in> set (mc_out d) \<and>
      receiver_local_qpn m' ! k = receiver_local_qpn m ! k"
  shows "server_st s' = server_st s \<and> same_group j d d' \<and> out_grows d d' \<and> (client_st s' = client_st s \<or> told i d')"
proof (cases "client_st s = C_HANDSHAKE_RECEIVED \<and> (\<forall>k<2. server_st s ! k = S_HANDSHAKE_ACK_SENT)")
  case False
  then show ?thesis using assms(1) by (auto simp: check_and_send_def same_group_def out_grows_def split: if_splits)
next
  case True
  obtain m0 where m0: "(conns_at d i ! 1, server_msg 0 m0) \<in> set (mc_out d)" "receiver_local_qpn m0 ! 0 = receiver_local_qpn m ! 0"
    using assms(5) [of 0] True by auto
  obtain m1 where m1: "(conns_at d i ! 2, server_msg 1 m1) \<in> set (mc_out d)" "receiver_local_qpn m1 ! 1 = receiver_local_qpn m ! 1"
    using assms(5) [of 1] True by (auto simp: numeral_2_eq_2)
  define src where "src = htonl (s_addr (conn_peer d (conns_at d i ! 0)))"
  define sw where "sw = snd (multicast_group_add2 py modl src i (sender_local_qpn m) (htonl (s_addr (as ! 0))) (receiver_local_qpn m ! 0)
      (htonl (s_addr (as ! 1))) (receiver_local_qpn m ! 1) (p4_writter d))"
  have s': "server_st s' = server_st s" "d' = d\<lparr>p4_writter := sw, mc_out := mc_out d @ [(conns_at d i ! 0, client_msg i m)]\<rparr>"
    using assms(1,4) True
    by (auto simp: check_and_send_def Let_def case_prod_beta addrs_at_def sw_def src_def split: if_splits)
  have sw: "set (py_calls (p4_writter d)) \<subseteq> set (py_calls sw)"
    "i \<noteq> 2 \<longrightarrow> GroupAdd2 i src i (sender_local_qpn m) (htonl (s_addr (as ! 0))) (receiver_local_qpn m ! 0)
      (htonl (s_addr (as ! 1))) (receiver_local_qpn m ! 1) \<in> set (py_calls sw)"
    using assms(2,3) by (auto simp: sw_def multicast_group_add2_def py_invoke_def Let_def)
  have "told i d'"
    unfolding told_def
    by (intro exI [of _ as] exI [of _ m] exI [of _ m0] exI [of _ m1] exI [of _ src]) (use m0 m1 sw(2) assms(4) in \<open>simp add: s' conns_at_def\<close>)
  then show ?thesis using s' sw(1) by (auto simp: same_group_def out_grows_def)
qed

lemma server_message_inv:
  assumes "mc_inv d" and "server_message env w1 w2 conn msg d = Inr d'" and "env_py env" and "env_module env"
  shows "mc_inv d'"
proof -
  let ?i = "conn_mc d conn"
  let ?s = "state_at d ?i"
  obtain ix vs g where ix: "get_mc_index ?i conn d = Inr ix" "ix < 2" "scan_msg (env_gid env) (env_v32 env) msg = Inr (vs, g)"
      "multicast_connections d ?i \<noteq> None"
    using assms(2) by (auto simp: server_message_def get_mc_index_def Let_def rbind_eq_Inr kassert_def split: if_splits)
  let ?m = "assign_receiver ix vs g (meta_at d ?i)"
  let ?d1 = "put_state ?i ?s (put_meta ?i ?m d)"
  let ?s2 = "?s\<lparr>server_st := (server_st ?s)[ix := S_HANDSHAKE_ACK_SENT]\<rparr>"
  have inv: "group_inv ?i d" using assms(1) by (simp add: mc_inv_def)
  then obtain as where as: "multicast_addrs d ?i = Some as"
    and rel: "\<And>k. k < 2 \<Longrightarrow> server_st ?s ! k = S_HANDSHAKE_ACK_SENT \<Longrightarrow> relayed k ?i d"
    using ix(4) by (auto simp: group_inv_def)
  have other: "receiver_local_qpn ?m ! k = receiver_local_qpn (meta_at d ?i) ! k" if "k \<noteq> ix" for k
    using that by (simp add: assign_receiver_def)
  show ?thesis
  proof (cases "server_st ?s ! ix")
    case S_INIT
    then have d': "d' = ?d1" using assms(2) ix by (simp add: server_message_def Let_def)
    show ?thesis
    proof (rule mc_inv_one [OF assms(1), of ?i])
      have e: "state_at d' ?i = ?s" "meta_at d' ?i = ?m" by (simp_all add: d' put_state_def put_meta_def state_at_def meta_at_def)
      show "group_inv ?i d'"
      proof (rule group_inv_update [OF inv _ _ ix(4)])
        fix k :: nat assume "server_st (state_at d' ?i) ! k = S_HANDSHAKE_ACK_SENT"
        then show "(server_st ?s ! k = S_HANDSHAKE_ACK_SENT \<and> receiver_local_qpn (meta_at d' ?i) ! k = receiver_local_qpn (meta_at d ?i) ! k) \<or> relayed k ?i d'"
          using other [of k] S_INIT by (cases "k = ix") (simp_all add: e)
      next
        show "client_st (state_at d' ?i) \<in> {C_HANDSHAKE_SENT, C_ACK_RECEIVED} \<Longrightarrow> client_st ?s \<in> {C_HANDSHAKE_SENT, C_ACK_RECEIVED} \<or> told ?i d'"
          by (simp add: e)
      qed (auto simp: d' put_state_def put_meta_def out_grows_def)
    qed (auto simp: d' put_state_def put_meta_def same_group_def out_grows_def)
  next
    case S_HANDSHAKE_SENT
    then obtain d2 s3 d3 where send: "send_handshake_to_server w1 ?i ?m ?s ix ?d1 = Inr d2"
      and chk: "check_and_send (env_py env) (env_module env) (env_addr env) w2 (conns_at d2 ?i ! 0) ?i ?m ?s2 d2 = Inr (s3, d3)"
      and d': "d' = put_state ?i s3 d3"
      using assms(2) ix by (auto simp: server_message_def Let_def rbind_eq_Inr)
    have c1: "conns_at ?d1 ?i = conns_at d ?i" by (simp add: put_state_def put_meta_def conns_at_def)
    have d2: "d2 = ?d1\<lparr>mc_out := mc_out d @ [(conns_at d ?i ! (ix + 1), server_msg ix ?m)]\<rparr>"
      using send_to_server_out [OF send] c1 by (simp add: put_state_def put_meta_def)
    have c2: "conns_at d2 ?i = conns_at d ?i" "multicast_addrs d2 ?i = Some as" by (simp_all add: d2 conns_at_def put_state_def put_meta_def as)
    have sent: "\<exists>m'. (conns_at d2 ?i ! (k + 1), server_msg k m') \<in> set (mc_out d2) \<and> receiver_local_qpn m' ! k = receiver_local_qpn ?m ! k"
      if "k < 2" "server_st ?s2 ! k = S_HANDSHAKE_ACK_SENT" for k
    proof (cases "k = ix")
      case True
      then show ?thesis unfolding c2 by (intro exI [of _ ?m]) (simp add: d2)
    next
      case False
      then show ?thesis using rel [OF that(1)] that(2) other [OF False] unfolding c2 relayed_def by (auto simp: d2)
    qed
    note d3 = check_and_send_state [OF chk assms(3,4) c2(2) sent]
    show ?thesis
    proof (rule mc_inv_one [OF assms(1), of ?i])
      show "same_group j d d'" if "j \<noteq> ?i" for j
        using d3 [of j] that by (simp add: d' d2 same_group_def put_state_def put_meta_def)
      show out: "out_grows d d'" using d3 [of ?i] by (auto simp: d' d2 out_grows_def put_state_def put_meta_def)
      have e: "state_at d' ?i = s3" "meta_at d' ?i = ?m" "conns_at d' ?i = conns_at d2 ?i"
        "multicast_connections d' ?i = multicast_connections d ?i" "multicast_addrs d' ?i = multicast_addrs d ?i"
        using d3 [of ?i] by (simp_all add: d' d2 put_state_def put_meta_def state_at_def meta_at_def same_group_def conns_at_def)
      have out3: "out_grows d3 d'" "out_grows d2 d'" using d3 [of ?i] by (simp_all add: d' out_grows_def put_state_def)
      show "group_inv ?i d'"
      proof (rule group_inv_update [OF inv e(4,5) ix(4) out])
        fix k :: nat assume k: "k < 2" "server_st (state_at d' ?i) ! k = S_HANDSHAKE_ACK_SENT"
        have "relayed k ?i d'"
          using sent [OF k(1)] k(2) d3 [of ?i] out3(2) unfolding e relayed_def out_grows_def by auto
        then show "(server_st ?s ! k = S_HANDSHAKE_ACK_SENT \<and> receiver_local_qpn (meta_at d' ?i) ! k = receiver_local_qpn (meta_at d ?i) ! k) \<or> relayed k ?i d'" ..
      next
        assume "client_st (state_at d' ?i) \<in> {C_HANDSHAKE_SENT, C_ACK_RECEIVED}"
        then show "client_st ?s \<in> {C_HANDSHAKE_SENT, C_ACK_RECEIVED} \<or> told ?i d'"
          using d3 [of ?i] told_mono [of ?i d3 d'] out3(1) e by (auto simp: same_group_def conns_at_def d' put_state_def)
      qed
    qed
  qed (use assms(2) ix in \<open>simp_all add: server_message_def Let_def\<close>)
qed

lemma mc_inv_handle:
  assumes "mc_inv d" and "mc_handle env e d = Inr d'" and "env_py env" and "env_module env"
  shows "mc_inv d'"
proof (cases e)
  case (McAccept conn peer)
  then have "same_group j d d'" "out_grows d d'" for j using assms(2) by (auto simp: mc_handle_def mc_accept_def same_group_def out_grows_def)
  then show ?thesis using assms(1) group_inv_mono unfolding mc_inv_def by blast
qed (use assms in \<open>auto simp: mc_handle_def split: if_splits intro: client_first_inv client_ack_inv writeable_inv server_message_inv\<close>)

text \<open>C6: In every reachable state of the multicast daemon whose control plane works (the Python interpreter and its
  module are there), a client whose state says that it was answered or has acknowledged has been sent, on the
  connection of its group, a handshake for its group; both members have been sent theirs, each on its own
  connection; and for every group but number 2 the group is in the switch table with the addresses of the two
  members, the queue pair number of the client that its answer carries, and for each member in its own place
  the queue pair number that the answer to this member carries. (\<open>group_zero_and_two\<close> shows what happens to
  group 2.)\<close>

theorem mc_client_told_after_switch:
  assumes "mc_reachable env (daemon_new start sw nobody) d" and "env_py env" and "env_module env"
    and "multicast_state d i = Some s" and "client_st s = C_HANDSHAKE_SENT \<or> client_st s = C_ACK_RECEIVED"
  shows "\<exists>as m m0 m1 src. multicast_addrs d i = Some as \<and> (conns_at d i ! 0, client_msg i m) \<in> set (mc_out d) \<and>
    (conns_at d i ! 1, server_msg 0 m0) \<in> set (mc_out d) \<and> (conns_at d i ! 2, server_msg 1 m1) \<in> set (mc_out d) \<and>
    (i \<noteq> 2 \<longrightarrow> GroupAdd2 i src i (sender_local_qpn m) (htonl (s_addr (as ! 0))) (receiver_local_qpn m0 ! 0)
       (htonl (s_addr (as ! 1))) (receiver_local_qpn m1 ! 1) \<in> set (py_calls (p4_writter d)))"
proof -
  have "mc_inv d"
    using assms(1)
  proof induction
    case mc_init
    then show ?case by (simp add: mc_inv_def group_inv_def daemon_new_def)
  next
    case (mc_step d e d')
    then show ?case using mc_inv_handle [OF _ _ assms(2,3)] by blast
  qed
  then have "group_inv i d" by (simp add: mc_inv_def)
  moreover have "state_at d i = s" using assms(4) by (simp add: state_at_def)
  ultimately have "told i d" using assms(4,5) by (auto simp: group_inv_def split: if_splits)
  then show ?thesis unfolding told_def .
qed

section \<open>Setting up a group\<close>

lemma length_mc_msg: "length gid = 32 \<Longrightarrow> Suc (length (mc_msg a b c d e f g h gid)) = TCP_MSG_LEN"
  by (simp add: mc_msg_def print_fields_def TCP_MSG_LEN_def)

lemma server_msg_fits: "\<not> TCP_MSG_LEN < Suc (length (server_msg i m))" and client_msg_fits: "\<not> TCP_MSG_LEN < Suc (length (client_msg j m))"
  by (simp_all add: server_msg_def client_msg_def length_mc_msg)

definition cm_fields :: "multicast_group \<Rightarrow> ib_cm_meta \<Rightarrow> u64 list" where
  "cm_fields mc m = [ucast (cm_lid m), ucast (cm_local_qpn m), ucast (cm_psn m), ucast (cm_peer_qpn m),
      ucast (ip_addr_member_1 mc), ucast (port_member_1 mc), ucast (ip_addr_member_2 mc), ucast (port_member_2 mc)]"

lemma scan_sent:
  "length (cm_gid m) = 16 \<Longrightarrow> scan_msg junk v (cm_msg mc m @ NUL # rest) = Inr (cm_fields mc m, cm_gid m)"
  using cm_msg_no_NUL [of mc m] by (simp add: scan_msg_def c_string_append_NUL scan_cm_msg wire_gid_roundtrip cm_fields_def)

lemma assign_sender_sent: "assign_sender (cm_fields mc c) g m = m\<lparr>sender_lid := cm_lid c, sender_local_qpn := cm_local_qpn c,
    sender_psn := cm_psn c, sender_peer_qpn := cm_peer_qpn c, sender_gid := g\<rparr>"
  by (simp add: assign_sender_def field_def cm_fields_def)

lemma assign_receiver_sent: "assign_receiver i (cm_fields mc c) g m = m\<lparr>receiver_lid := (receiver_lid m)[i := cm_lid c],
    receiver_local_qpn := (receiver_local_qpn m)[i := cm_local_qpn c], receiver_psn := (receiver_psn m)[i := cm_psn c],
    receiver_peer_qpn := (receiver_peer_qpn m)[i := cm_peer_qpn c], receiver_gid := (receiver_gid m)[i := g]\<rparr>"
  by (simp add: assign_receiver_def field_def cm_fields_def)

text \<open>The state of one group during its set-up.\<close>

definition group_view :: "daemon \<Rightarrow> u32 \<Rightarrow> client_state \<Rightarrow> server_state list \<Rightarrow> mc_meta \<Rightarrow> (ptr \<times> string) list \<Rightarrow> daemon" where
  "group_view d i c ss m out = d\<lparr>multicast_state := (multicast_state d)(i \<mapsto> \<lparr>client_st = c, server_st = ss\<rparr>),
     multicast_cm_meta := (multicast_cm_meta d)(i \<mapsto> m), mc_out := mc_out d @ out\<rparr>"

definition group_of :: "daemon \<Rightarrow> u32 \<Rightarrow> ptr \<Rightarrow> ptr list \<Rightarrow> entity_addr list \<Rightarrow> bool" where
  "group_of d i c nc as \<longleftrightarrow> length nc = 2 \<and> length as = 2 \<and> multicast_connections d i = Some [c, nc ! 0, nc ! 1] \<and> multicast_addrs d i = Some as \<and>
     conn_mc d (nc ! 0) = i \<and> conn_mc d (nc ! 1) = i \<and> nc ! 0 \<noteq> nc ! 1 \<and> nullptr \<notin> {c, nc ! 0, nc ! 1}"

lemma group_view_simps:
  "state_at (group_view d i c ss m out) i = \<lparr>client_st = c, server_st = ss\<rparr>" "meta_at (group_view d i c ss m out) i = m"
  "conns_at (group_view d i c ss m out) j = conns_at d j" "conn_mc (group_view d i c ss m out) = conn_mc d"
  "addrs_at z (group_view d i c ss m out) j = addrs_at z d j" "p4_writter (group_view d i c ss m out) = p4_writter d"
  "conn_peer (group_view d i c ss m out) = conn_peer d" "get_mc_index j n (group_view d i c ss m out) = get_mc_index j n d"
  "put_state i \<lparr>client_st = c', server_st = ss'\<rparr> (group_view d i c ss m out) = group_view d i c' ss' m out"
  "put_meta i m' (group_view d i c ss m out) = group_view d i c ss m' out"
  "(group_view d i c ss m out)\<lparr>mc_out := mc_out (group_view d i c ss m out) @ [x]\<rparr> = group_view d i c ss m (out @ [x])"
  by (simp_all add: group_view_def state_at_def meta_at_def conns_at_def addrs_at_def put_state_def put_meta_def get_mc_index_def)

lemma index_cases: "k < (2 :: nat) \<Longrightarrow> k = 0 \<or> k = 1"
  by auto

lemma group_index: "group_of d i c nc as \<Longrightarrow> k < 2 \<Longrightarrow> get_mc_index i (nc ! k) d = Inr k \<and> conn_mc d (nc ! k) = i \<and>
    conns_at d i ! (k + 1) = nc ! k \<and> conns_at d i ! 0 = c \<and> nc ! k \<noteq> nullptr"
  using index_cases [of k] by (auto simp: group_of_def get_mc_index_def conns_at_def)

lemma writable_view:
  assumes "group_of d i c nc as" and "k < 2" and "mc_write w 0" and "length ss = 2"
  shows "process_server_writeable w (nc ! k) (group_view d i C_HANDSHAKE_RECEIVED ss m out) =
    Inr (group_view d i C_HANDSHAKE_RECEIVED (ss[k := S_HANDSHAKE_SENT]) m (out @ [(nc ! k, server_msg k m)]))"
  using group_index [OF assms(1,2)] assms(2-4)
  by (simp add: process_server_writeable_def group_view_simps Let_def send_handshake_to_server_def server_msg_fits)

definition with_receiver :: "nat \<Rightarrow> ib_cm_meta \<Rightarrow> mc_meta \<Rightarrow> mc_meta" where
  "with_receiver k r m = m\<lparr>receiver_lid := (receiver_lid m)[k := cm_lid r], receiver_local_qpn := (receiver_local_qpn m)[k := cm_local_qpn r],
     receiver_psn := (receiver_psn m)[k := cm_psn r], receiver_peer_qpn := (receiver_peer_qpn m)[k := cm_peer_qpn r],
     receiver_gid := (receiver_gid m)[k := cm_gid r]\<rparr>"

definition switch_entry :: "daemon \<Rightarrow> u32 \<Rightarrow> ptr \<Rightarrow> entity_addr list \<Rightarrow> mc_meta \<Rightarrow> py_call" where
  "switch_entry d i c as m = GroupAdd2 i (htonl (s_addr (conn_peer d c))) i (sender_local_qpn m)
     (htonl (s_addr (as ! 0))) (receiver_local_qpn m ! 0) (htonl (s_addr (as ! 1))) (receiver_local_qpn m ! 1)"

definition add_entry :: "u32 \<Rightarrow> py_call \<Rightarrow> daemon \<Rightarrow> daemon" where
  "add_entry i e d = (if i = 2 then d else d\<lparr>p4_writter := (p4_writter d)\<lparr>py_calls := py_calls (p4_writter d) @ [e]\<rparr>\<rparr>)"

lemma server_view_first:
  assumes "group_of d i c nc as" and "k < 2" and "mc_write w1 0" and "length ss = 2" and "ss ! k = S_HANDSHAKE_SENT"
    and "length (cm_gid r) = 16" and "ss ! (1 - k) \<noteq> S_HANDSHAKE_ACK_SENT"
  shows "server_message env w1 w2 (nc ! k) (cm_msg mc r @ NUL # rest) (group_view d i C_HANDSHAKE_RECEIVED ss m out) =
    Inr (group_view d i C_HANDSHAKE_RECEIVED (ss[k := S_HANDSHAKE_ACK_SENT]) (with_receiver k r m) (out @ [(nc ! k, server_msg k (with_receiver k r m))]))"
proof -
  have ex: "\<exists>j<2. ss[k := S_HANDSHAKE_ACK_SENT] ! j \<noteq> S_HANDSHAKE_ACK_SENT"
    using assms(4,7) index_cases [OF assms(2)] by (intro exI [of _ "1 - k"]) auto
  show ?thesis
    using group_index [OF assms(1,2)] assms(2-6) ex
    by (simp add: server_message_def group_view_simps Let_def send_handshake_to_server_def server_msg_fits scan_sent
        assign_receiver_sent with_receiver_def check_and_send_def)
qed

lemma server_view_last:
  assumes "group_of d i c nc as" and "k < 2" and "mc_write w1 0" and "mc_write w2 0" and "length ss = 2" and "ss ! k = S_HANDSHAKE_SENT"
    and "length (cm_gid r) = 16" and "ss ! (1 - k) = S_HANDSHAKE_ACK_SENT" and "env_py env" and "env_module env"
  shows "server_message env w1 w2 (nc ! k) (cm_msg mc r @ NUL # rest) (group_view d i C_HANDSHAKE_RECEIVED ss m out) =
    Inr (add_entry i (switch_entry d i c as (with_receiver k r m))
      (group_view d i C_HANDSHAKE_SENT [S_HANDSHAKE_ACK_SENT, S_HANDSHAKE_ACK_SENT] (with_receiver k r m)
        (out @ [(nc ! k, server_msg k (with_receiver k r m)), (c, client_msg i (with_receiver k r m))])))"
proof -
  have acks: "ss[k := S_HANDSHAKE_ACK_SENT] = [S_HANDSHAKE_ACK_SENT, S_HANDSHAKE_ACK_SENT]"
    using assms(2,5,8) index_cases [OF assms(2)] by (auto simp: list_eq_iff_nth_eq less_Suc_eq nth_list_update numeral_2_eq_2)
  have no: "\<not> (\<exists>j<2. [S_HANDSHAKE_ACK_SENT, S_HANDSHAKE_ACK_SENT] ! j \<noteq> S_HANDSHAKE_ACK_SENT)"
    using index_cases by fastforce
  have c: "c \<noteq> nullptr" "addrs_at z d i = as" for z using assms(1) by (auto simp: group_of_def addrs_at_def)
  show ?thesis
    using group_index [OF assms(1,2)] assms(2-4,6,7,9,10) c no
    by (simp add: server_message_def group_view_simps Let_def send_handshake_to_server_def server_msg_fits client_msg_fits scan_sent
        assign_receiver_sent with_receiver_def check_and_send_def acks multicast_group_add2_def py_invoke_def add_entry_def switch_entry_def)
      (auto simp: group_view_def put_state_def)
qed

fun mc_run :: "mc_env \<Rightarrow> mc_event list \<Rightarrow> daemon \<Rightarrow> daemon result" where
  "mc_run env [] d = Inr d"
| "mc_run env (e # es) d = rbind (mc_handle env e d) (mc_run env es)"

definition with_sender :: "ib_cm_meta \<Rightarrow> mc_meta \<Rightarrow> mc_meta" where
  "with_sender c m = m\<lparr>sender_lid := cm_lid c, sender_local_qpn := cm_local_qpn c, sender_psn := cm_psn c,
     sender_peer_qpn := cm_peer_qpn c, sender_gid := cm_gid c\<rparr>"

lemma first_message_view:
  assumes "multicast_cm_meta d (m_mc_id d) = None" and "length (cm_gid q) = 16" and "length nc = 2"
    and "nc ! 0 \<noteq> nc ! 1" and "c \<notin> set nc" and "nullptr \<notin> insert c (set nc)"
    and "member_addr env (ip_addr_member_1 mc) (port_member_1 mc) = Inr a0"
    and "member_addr env (ip_addr_member_2 mc) (port_member_2 mc) = Inr a1"
  shows "\<exists>dd. client_first_message env nc c (cm_msg mc q @ NUL # rest) d =
      Inr (group_view dd (m_mc_id d) C_HANDSHAKE_RECEIVED [S_INIT, S_INIT] (with_sender q mc_meta_new) []) \<and>
    group_of dd (m_mc_id d) c nc [a0, a1] \<and> p4_writter dd = p4_writter d \<and> mc_out dd = mc_out d \<and>
    mc_connects dd = mc_connects d @ [(nc ! 0, a0), (nc ! 1, a1)] \<and> conn_peer dd c = conn_peer d c \<and>
    m_mc_id dd = m_mc_id d + 1 \<and> conn_mc dd c = m_mc_id d"
proof -
  let ?i = "m_mc_id d"
  let ?dd = "d\<lparr>m_mc_id := ?i + 1, conn_mc := ((conn_mc d)(c := ?i))(nc ! 0 := ?i, nc ! 1 := ?i),
    conn_peer := (conn_peer d)(nc ! 0 := a0, nc ! 1 := a1), mc_connects := mc_connects d @ [(nc ! 0, a0), (nc ! 1, a1)],
    multicast_connections := (multicast_connections d)(?i \<mapsto> [c, nc ! 0, nc ! 1]), multicast_addrs := (multicast_addrs d)(?i \<mapsto> [a0, a1])\<rparr>"
  have mem: "nc ! 0 \<in> set nc" "nc ! 1 \<in> set nc" using assms(3) by simp_all
  then have ne: "nc ! 0 \<noteq> c" "nc ! 1 \<noteq> c" "nc ! 0 \<noteq> nullptr" "nc ! 1 \<noteq> nullptr" "c \<noteq> nullptr" using assms(5,6) by (metis insertCI)+
  have f: "field (cm_fields mc q) 4 x = ip_addr_member_1 mc" "field (cm_fields mc q) 5 y = port_member_1 mc"
    "field (cm_fields mc q) 6 x = ip_addr_member_2 mc" "field (cm_fields mc q) 7 y = port_member_2 mc" for x y
    by (simp_all add: field_def cm_fields_def)
  have "client_first_message env nc c (cm_msg mc q @ NUL # rest) d =
      Inr (group_view ?dd ?i C_HANDSHAKE_RECEIVED [S_INIT, S_INIT] (with_sender q mc_meta_new) [])"
    using assms(1,7,8)
    by (simp add: client_first_message_def Let_def scan_sent [OF assms(2)] f assign_sender_sent group_view_def put_state_def put_meta_def
        state_at_def mc_state_new_def connect_member_def conns_at_def with_sender_def)
  moreover have "group_of ?dd ?i c nc [a0, a1]" using assms(3,4) ne by (simp add: group_of_def)
  ultimately show ?thesis using ne by (intro exI [of _ ?dd]) simp
qed

lemma with_receiver_server_msg:
  "server_msg 0 (with_receiver 1 r m) = server_msg 0 m" "server_msg 1 (with_receiver 0 r m) = server_msg 1 m"
  "server_msg 1 (with_receiver 1 r (with_receiver 0 s m)) = server_msg 1 (with_receiver 1 r m)"
  by (simp_all add: server_msg_def with_receiver_def) (cases "receiver_local_qpn m"; cases "tl (receiver_local_qpn m)"; simp)

lemma with_receiver_commute: "with_receiver 0 r (with_receiver 1 s m) = with_receiver 1 s (with_receiver 0 r m)"
  by (simp add: with_receiver_def list_update_swap)

definition relay_events :: "ptr \<Rightarrow> (nat \<Rightarrow> int \<times> int) \<Rightarrow> string \<Rightarrow> mc_event list" where
  "relay_events n w msg = [McWritable n w, McServer n w w msg]"

lemma relay_steps:
  assumes g: "group_of d i c [n0, n1] as" and w: "mc_write w 0" and r: "length (cm_gid r) = 16" and py: "env_py env" "env_module env"
  shows "process_server_writeable w n0 (group_view d i C_HANDSHAKE_RECEIVED [s0, s1] m out) =
      Inr (group_view d i C_HANDSHAKE_RECEIVED [S_HANDSHAKE_SENT, s1] m (out @ [(n0, server_msg 0 m)]))"
    and "process_server_writeable w n1 (group_view d i C_HANDSHAKE_RECEIVED [s0, s1] m out) =
      Inr (group_view d i C_HANDSHAKE_RECEIVED [s0, S_HANDSHAKE_SENT] m (out @ [(n1, server_msg 1 m)]))"
    and "s1 \<noteq> S_HANDSHAKE_ACK_SENT \<Longrightarrow>
      server_message env w w n0 (cm_msg mc r @ NUL # rest) (group_view d i C_HANDSHAKE_RECEIVED [S_HANDSHAKE_SENT, s1] m out) =
      Inr (group_view d i C_HANDSHAKE_RECEIVED [S_HANDSHAKE_ACK_SENT, s1] (with_receiver 0 r m) (out @ [(n0, server_msg 0 (with_receiver 0 r m))]))"
    and "s0 \<noteq> S_HANDSHAKE_ACK_SENT \<Longrightarrow>
      server_message env w w n1 (cm_msg mc r @ NUL # rest) (group_view d i C_HANDSHAKE_RECEIVED [s0, S_HANDSHAKE_SENT] m out) =
      Inr (group_view d i C_HANDSHAKE_RECEIVED [s0, S_HANDSHAKE_ACK_SENT] (with_receiver 1 r m) (out @ [(n1, server_msg 1 (with_receiver 1 r m))]))"
    and "server_message env w w n0 (cm_msg mc r @ NUL # rest) (group_view d i C_HANDSHAKE_RECEIVED [S_HANDSHAKE_SENT, S_HANDSHAKE_ACK_SENT] m out) =
      Inr (add_entry i (switch_entry d i c as (with_receiver 0 r m))
        (group_view d i C_HANDSHAKE_SENT [S_HANDSHAKE_ACK_SENT, S_HANDSHAKE_ACK_SENT] (with_receiver 0 r m)
          (out @ [(n0, server_msg 0 (with_receiver 0 r m)), (c, client_msg i (with_receiver 0 r m))])))"
    and "server_message env w w n1 (cm_msg mc r @ NUL # rest) (group_view d i C_HANDSHAKE_RECEIVED [S_HANDSHAKE_ACK_SENT, S_HANDSHAKE_SENT] m out) =
      Inr (add_entry i (switch_entry d i c as (with_receiver 1 r m))
        (group_view d i C_HANDSHAKE_SENT [S_HANDSHAKE_ACK_SENT, S_HANDSHAKE_ACK_SENT] (with_receiver 1 r m)
          (out @ [(n1, server_msg 1 (with_receiver 1 r m)), (c, client_msg i (with_receiver 1 r m))])))"
  using writable_view [OF g _ w, of 0 "[s0, s1]" m out] writable_view [OF g _ w, of 1 "[s0, s1]" m out]
    server_view_first [OF g _ w, of 0 "[S_HANDSHAKE_SENT, s1]" r env w mc rest m out]
    server_view_first [OF g _ w, of 1 "[s0, S_HANDSHAKE_SENT]" r env w mc rest m out]
    server_view_last [OF g _ w w, of 0 "[S_HANDSHAKE_SENT, S_HANDSHAKE_ACK_SENT]" r env mc rest m out]
    server_view_last [OF g _ w w, of 1 "[S_HANDSHAKE_ACK_SENT, S_HANDSHAKE_SENT]" r env mc rest m out] r py
  by simp_all

lemma relay_any_order:
  assumes g: "group_of d i c [n0, n1] as" and w: "mc_write w 0" and r: "length (cm_gid r0) = 16" "length (cm_gid r1) = 16"
    and py: "env_py env" "env_module env"
    and evs: "evs \<in> shuffles (relay_events n0 w (cm_msg mc0 r0 @ NUL # rest0)) (relay_events n1 w (cm_msg mc1 r1 @ NUL # rest1))"
    and m2: "m2 = with_receiver 1 r1 (with_receiver 0 r0 m)"
  shows "\<exists>out. mc_run env evs (group_view d i C_HANDSHAKE_RECEIVED [S_INIT, S_INIT] m []) =
      Inr (add_entry i (switch_entry d i c as m2)
        (group_view d i C_HANDSHAKE_SENT [S_HANDSHAKE_ACK_SENT, S_HANDSHAKE_ACK_SENT] m2 out)) \<and> last out = (c, client_msg i m2) \<and>
    filter (\<lambda>(n, x). n = n0) (butlast out) = [(n0, server_msg 0 m), (n0, server_msg 0 m2)] \<and>
    filter (\<lambda>(n, x). n = n1) (butlast out) = [(n1, server_msg 1 m), (n1, server_msg 1 m2)]"
proof -
  have ne: "n0 \<noteq> n1" using g by (simp add: group_of_def)
  note steps = relay_steps [OF g w r(1) py] relay_steps [OF g w r(2) py]
  note rules = mc_handle_def steps with_receiver_server_msg with_receiver_commute m2
  from evs show ?thesis unfolding relay_events_def 
    by (auto simp: rules ne ne [symmetric] simp del: One_nat_def; intro exI conjI; (rule refl)?; simp add: rules ne ne [symmetric] del: One_nat_def)
qed

lemma mc_run_append: "mc_run env (es @ fs) d = rbind (mc_run env es d) (mc_run env fs)"
  by (induction es arbitrary: d) (simp_all add: rbind_def split: sum.split)

lemma ack_view:
  assumes "conn_mc d c = i" and "cm_peer_qpn q = i" and "length (cm_gid q) = 16"
  shows "client_ack env c (cm_msg mc q @ NUL # rest) (add_entry i e (group_view d i C_HANDSHAKE_SENT ss m out)) =
    Inr (add_entry i e (group_view d i C_ACK_RECEIVED ss (with_sender q m) out))"
proof -
  let ?v = "group_view d i C_HANDSHAKE_SENT ss m out"
  have a: "state_at (add_entry i e ?v) i = \<lparr>client_st = C_HANDSHAKE_SENT, server_st = ss\<rparr>" "meta_at (add_entry i e ?v) i = m"
    "conn_mc (add_entry i e ?v) c = i"
    using assms(1) group_view_simps(1,2) [of d i C_HANDSHAKE_SENT ss m out]
    by (simp_all add: add_entry_def state_at_def meta_at_def group_view_def)
  show ?thesis
    unfolding client_ack_def Let_def a scan_sent [OF assms(3)]
    by (simp add: a assms(2) assign_sender_sent with_sender_def put_state_def put_meta_def add_entry_def group_view_def)
qed

lemma group_setup_run:
  assumes "conn_mc d c = 0" and "i = m_mc_id d" and "i \<noteq> 0" and "i \<noteq> 2" and "multicast_cm_meta d i = None"
    and "n0 \<noteq> n1" and "c \<notin> {n0, n1}" and "nullptr \<notin> {c, n0, n1}" and "env_py env" and "env_module env"
    and "length (cm_gid q) = 16" and "length (cm_gid q') = 16" and "cm_peer_qpn q' = i" and "mc_write w 0"
    and "length (cm_gid r0) = 16" and "length (cm_gid r1) = 16"
    and "member_addr env (ip_addr_member_1 mc) (port_member_1 mc) = Inr a0"
    and "member_addr env (ip_addr_member_2 mc) (port_member_2 mc) = Inr a1"
    and "evs \<in> shuffles (relay_events n0 w (cm_msg mc0 r0 @ NUL # rest0)) (relay_events n1 w (cm_msg mc1 r1 @ NUL # rest1))"
    and "m1 = with_sender q mc_meta_new" and "m2 = with_receiver 1 r1 (with_receiver 0 r0 m1)"
  shows "\<exists>d' out. mc_run env (McClient [n0, n1] c (cm_msg mc q @ NUL # rest) # evs @ [McClient [] c (cm_msg mc q' @ NUL # rest')]) d = Inr d' \<and>
    multicast_state d' i = Some \<lparr>client_st = C_ACK_RECEIVED, server_st = [S_HANDSHAKE_ACK_SENT, S_HANDSHAKE_ACK_SENT]\<rparr> \<and>
    mc_connects d' = mc_connects d @ [(n0, a0), (n1, a1)] \<and>
    py_calls (p4_writter d') = py_calls (p4_writter d) @
      [GroupAdd2 i (htonl (s_addr (conn_peer d c))) i (cm_local_qpn q)
        (htonl (s_addr a0)) (cm_local_qpn r0) (htonl (s_addr a1)) (cm_local_qpn r1)] \<and>
    mc_out d' = mc_out d @ out \<and> last out = (c, client_msg i m2) \<and>
    filter (\<lambda>(n, x). n = n0) (butlast out) = [(n0, server_msg 0 m1), (n0, server_msg 0 m2)] \<and>
    filter (\<lambda>(n, x). n = n1) (butlast out) = [(n1, server_msg 1 m1), (n1, server_msg 1 m2)]"
proof -
  obtain dd where first: "client_first_message env [n0, n1] c (cm_msg mc q @ NUL # rest) d =
      Inr (group_view dd i C_HANDSHAKE_RECEIVED [S_INIT, S_INIT] m1 [])"
    and g: "group_of dd i c [n0, n1] [a0, a1]" and keep: "p4_writter dd = p4_writter d" "mc_out dd = mc_out d"
      "mc_connects dd = mc_connects d @ [(n0, a0), (n1, a1)]" "conn_peer dd c = conn_peer d c" "conn_mc dd c = i"
    using first_message_view [of d q "[n0, n1]" c env mc a0 a1 rest] assms(2,5-8,11,17,18,20) by auto
  obtain out where relay: "mc_run env evs (group_view dd i C_HANDSHAKE_RECEIVED [S_INIT, S_INIT] m1 []) =
      Inr (add_entry i (switch_entry dd i c [a0, a1] m2)
        (group_view dd i C_HANDSHAKE_SENT [S_HANDSHAKE_ACK_SENT, S_HANDSHAKE_ACK_SENT] m2 out))"
    and out: "last out = (c, client_msg i m2)" "filter (\<lambda>(n, x). n = n0) (butlast out) = [(n0, server_msg 0 m1), (n0, server_msg 0 m2)]"
      "filter (\<lambda>(n, x). n = n1) (butlast out) = [(n1, server_msg 1 m1), (n1, server_msg 1 m2)]"
    using relay_any_order [OF g assms(14-16,9,10,19,21)] by blast
  let ?d = "add_entry i (switch_entry dd i c [a0, a1] m2)
    (group_view dd i C_ACK_RECEIVED [S_HANDSHAKE_ACK_SENT, S_HANDSHAKE_ACK_SENT] (with_sender q' m2) out)"
  have cm: "conn_mc (add_entry i e (group_view dd i s t m o')) c = i" for e s t m o' using keep(5) by (simp add: add_entry_def group_view_def)
  have run: "mc_run env (McClient [n0, n1] c (cm_msg mc q @ NUL # rest) # evs @ [McClient [] c (cm_msg mc q' @ NUL # rest')]) d = Inr ?d"
    using assms(1,3) by (simp add: mc_handle_def first mc_run_append relay cm ack_view [OF keep(5) assms(13,12)])
  have entry: "switch_entry dd i c [a0, a1] m2 = GroupAdd2 i (htonl (s_addr (conn_peer d c))) i (cm_local_qpn q)
      (htonl (s_addr a0)) (cm_local_qpn r0) (htonl (s_addr a1)) (cm_local_qpn r1)"
    by (simp add: switch_entry_def keep assms(20,21) with_receiver_def with_sender_def mc_meta_new_def)
  show ?thesis
    by (intro exI [of _ ?d] exI [of _ out] conjI run out) (simp_all add: add_entry_def assms(4) group_view_def keep entry)
qed

text \<open>C2: Setting up a multicast group. A client's handshake message (as \<open>send_cm_meta\<close> builds it) makes the daemon
  connect to the two members named in it; then, whatever the order in which the two member connections
  become writable and answer, each member is sent the client's parameters twice (the second time with
  the member's own queue pair number), the switch gets exactly one entry with the queue pairs and
  addresses of all three, the client is answered last, and its acknowledgement completes the group.\<close>

theorem multicast_group_setup:
  assumes "conn_mc d c = 0" and "i = m_mc_id d" and "i \<noteq> 0" and "i \<noteq> 2" and "multicast_cm_meta d i = None"
    and "n0 \<noteq> n1" and "c \<notin> {n0, n1}" and "nullptr \<notin> {c, n0, n1}" and "env_py env" and "env_module env"
    and "length (cm_gid q) = 16" and "length (cm_gid q') = 16" and "cm_peer_qpn q' = i" and "mc_write w 0"
    and "length (cm_gid r0) = 16" and "length (cm_gid r1) = 16"
    and "member_addr env (ip_addr_member_1 mc) (port_member_1 mc) = Inr a0"
    and "member_addr env (ip_addr_member_2 mc) (port_member_2 mc) = Inr a1"
    and "evs \<in> shuffles (relay_events n0 w (cm_msg mc0 r0 @ NUL # rest0)) (relay_events n1 w (cm_msg mc1 r1 @ NUL # rest1))"
    and "m1 = with_sender q mc_meta_new" and "m2 = with_receiver 1 r1 (with_receiver 0 r0 m1)"
  shows "\<exists>d' out. mc_run env (McClient [n0, n1] c (cm_msg mc q @ NUL # rest) # evs @ [McClient [] c (cm_msg mc q' @ NUL # rest')]) d = Inr d' \<and>
    multicast_state d' i = Some \<lparr>client_st = C_ACK_RECEIVED, server_st = [S_HANDSHAKE_ACK_SENT, S_HANDSHAKE_ACK_SENT]\<rparr> \<and>
    mc_connects d' = mc_connects d @ [(n0, a0), (n1, a1)] \<and>
    py_calls (p4_writter d') = py_calls (p4_writter d) @
      [GroupAdd2 i (htonl (s_addr (conn_peer d c))) i (cm_local_qpn q)
        (htonl (s_addr a0)) (cm_local_qpn r0) (htonl (s_addr a1)) (cm_local_qpn r1)] \<and>
    mc_out d' = mc_out d @ out \<and> last out = (c, client_msg i m2) \<and>
    filter (\<lambda>(n, x). n = n0) (butlast out) = [(n0, server_msg 0 m1), (n0, server_msg 0 m2)] \<and>
    filter (\<lambda>(n, x). n = n1) (butlast out) = [(n1, server_msg 1 m1), (n1, server_msg 1 m2)]"
  by (rule group_setup_run [OF assms])

definition example_env :: mc_env where
  "example_env = \<lparr>env_ntoa = \<lambda>_. ''10.0.0.1'', env_pton = \<lambda>_. Some [10, 0, 0, 1], env_addr = entity_addr_new TYPE_SERVER 0 (replicate 20 0),
     env_sin = replicate 16 0, env_members = \<lparr>ip_addr_member_1 = 0, port_member_1 = 0, ip_addr_member_2 = 0, port_member_2 = 0\<rparr>,
     env_gid = [], env_v32 = 0, env_py = True, env_module = True, env_msg = []\<rparr>"

definition example_meta :: "u32 \<Rightarrow> u32 \<Rightarrow> ib_cm_meta" where
  "example_meta local peer = \<lparr>cm_lid = 1, cm_local_qpn = local, cm_psn = 520, cm_peer_qpn = peer, cm_gid = replicate 16 0\<rparr>"

definition example_group :: multicast_group where
  "example_group = \<lparr>ip_addr_member_1 = 1, port_member_1 = 2, ip_addr_member_2 = 3, port_member_2 = 4\<rparr>"

definition example_daemon :: daemon where
  "example_daemon = daemon_new 7 (switch_writer_new []) (entity_addr_new TYPE_SERVER 0 (replicate 20 0))"

abbreviation (input) all_written :: "nat \<Rightarrow> int \<times> int" where
  "all_written \<equiv> \<lambda>_. (int TCP_MSG_LEN, 0)"

definition example_events :: "mc_event list" where
  "example_events = [McWritable 20 all_written, McWritable 30 all_written,
     McServer 30 all_written all_written (cm_msg example_group (example_meta 300 0) @ [NUL]),
     McServer 20 all_written all_written (cm_msg example_group (example_meta 200 0) @ [NUL])]"

lemma example_events_shuffle:
  "example_events \<in> shuffles (relay_events 20 all_written (cm_msg example_group (example_meta 200 0) @ NUL # []))
     (relay_events 30 all_written (cm_msg example_group (example_meta 300 0) @ NUL # []))"
  by (simp add: example_events_def relay_events_def)

lemma example_facts:
  "conn_mc example_daemon 10 = 0" "7 = m_mc_id example_daemon" "multicast_cm_meta example_daemon 7 = None"
  "env_py example_env" "env_module example_env" "length (cm_gid (example_meta l p)) = 16" "cm_peer_qpn (example_meta l p) = p" "cm_local_qpn (example_meta l p) = l"
  "py_calls (p4_writter example_daemon) = []" "mc_out example_daemon = []"
  by (simp_all add: example_daemon_def daemon_new_def example_env_def example_meta_def switch_writer_new_def)

lemma all_written_ok: "mc_write all_written 0"
  by (subst mc_write.simps) simp

lemma example_member: "\<exists>a. member_addr example_env ip port = Inr a"
  by (simp add: member_addr_def example_env_def entity_addr_new_def)

theorem multicast_group_setup_witness:
  "\<exists>d' src a0 a1. mc_run example_env (McClient [20, 30] 10 (cm_msg example_group (example_meta 100 0) @ NUL # []) # example_events @
       [McClient [] 10 (cm_msg example_group (example_meta 100 7) @ NUL # [])]) example_daemon = Inr d' \<and>
     py_calls (p4_writter d') = [GroupAdd2 7 src 7 100 a0 200 a1 300]"
proof -
  obtain a0 a1 where a: "member_addr example_env (ip_addr_member_1 example_group) (port_member_1 example_group) = Inr a0"
    "member_addr example_env (ip_addr_member_2 example_group) (port_member_2 example_group) = Inr a1"
    using example_member by blast
  have n: "(7 :: u32) \<noteq> 0" "(7 :: u32) \<noteq> 2" "(20 :: ptr) \<noteq> 30" "(10 :: ptr) \<notin> {20, 30}" "(nullptr :: ptr) \<notin> {10, 20, 30}" by simp_all
  show ?thesis
    using multicast_group_setup [where rest = "[]" and rest' = "[]", OF example_facts(1,2) n(1,2) example_facts(3) n(3,4,5) example_facts(4,5)
        example_facts(6) [of 100 0] example_facts(6) [of 100 7] example_facts(7) [of 100 7] all_written_ok
        example_facts(6) [of 200 0] example_facts(6) [of 300 0] a example_events_shuffle refl refl] by (auto simp: example_facts)
qed

lemma mc_run_reachable: "mc_run env es d = Inr d' \<Longrightarrow> mc_reachable env d0 d \<Longrightarrow> mc_reachable env d0 d'"
  by (induction es arbitrary: d) (auto simp: rbind_eq_Inr intro: mc_reachable.mc_step)

theorem mc_client_told_after_switch_witness:
  "\<exists>d m m0 m1. mc_reachable example_env example_daemon d \<and> (conns_at d 7 ! 0, client_msg 7 m) \<in> set (mc_out d) \<and>
     (conns_at d 7 ! 1, server_msg 0 m0) \<in> set (mc_out d) \<and> (conns_at d 7 ! 2, server_msg 1 m1) \<in> set (mc_out d) \<and>
     sender_local_qpn m = 100 \<and> receiver_local_qpn m0 ! 0 = 200 \<and> receiver_local_qpn m1 ! 1 = 300"
proof -
  obtain a0 a1 where a: "member_addr example_env (ip_addr_member_1 example_group) (port_member_1 example_group) = Inr a0"
    "member_addr example_env (ip_addr_member_2 example_group) (port_member_2 example_group) = Inr a1"
    using example_member by blast
  have n: "(7 :: u32) \<noteq> 0" "(7 :: u32) \<noteq> 2" "(20 :: ptr) \<noteq> 30" "(10 :: ptr) \<notin> {20, 30}" "(nullptr :: ptr) \<notin> {10, 20, 30}" by simp_all
  obtain d' where run: "mc_run example_env (McClient [20, 30] 10 (cm_msg example_group (example_meta 100 0) @ NUL # []) # example_events @
       [McClient [] 10 (cm_msg example_group (example_meta 100 7) @ NUL # [])]) example_daemon = Inr d'"
    and st: "multicast_state d' 7 = Some \<lparr>client_st = C_ACK_RECEIVED, server_st = [S_HANDSHAKE_ACK_SENT, S_HANDSHAKE_ACK_SENT]\<rparr>"
    and calls: "py_calls (p4_writter d') = py_calls (p4_writter example_daemon) @
      [GroupAdd2 7 (htonl (s_addr (conn_peer example_daemon 10))) 7 (cm_local_qpn (example_meta 100 0))
        (htonl (s_addr a0)) (cm_local_qpn (example_meta 200 0)) (htonl (s_addr a1)) (cm_local_qpn (example_meta 300 0))]"
    using group_setup_run [where rest = "[]" and rest' = "[]", OF example_facts(1,2) n(1,2) example_facts(3) n(3,4,5) example_facts(4,5)
        example_facts(6) [of 100 0] example_facts(6) [of 100 7] example_facts(7) [of 100 7] all_written_ok
        example_facts(6) [of 200 0] example_facts(6) [of 300 0] a example_events_shuffle refl refl] by blast
  have reach: "mc_reachable example_env example_daemon d'" by (rule mc_run_reachable [OF run mc_reachable.mc_init])
  have acked: "client_st \<lparr>client_st = C_ACK_RECEIVED, server_st = [S_HANDSHAKE_ACK_SENT, S_HANDSHAKE_ACK_SENT]\<rparr> = C_HANDSHAKE_SENT \<or>
    client_st \<lparr>client_st = C_ACK_RECEIVED, server_st = [S_HANDSHAKE_ACK_SENT, S_HANDSHAKE_ACK_SENT]\<rparr> = C_ACK_RECEIVED" by simp
  obtain as m m0 m1 src where t: "(conns_at d' 7 ! 0, client_msg 7 m) \<in> set (mc_out d')"
    "(conns_at d' 7 ! 1, server_msg 0 m0) \<in> set (mc_out d')" "(conns_at d' 7 ! 2, server_msg 1 m1) \<in> set (mc_out d')"
    "GroupAdd2 7 src 7 (sender_local_qpn m) (htonl (s_addr (as ! 0))) (receiver_local_qpn m0 ! 0)
       (htonl (s_addr (as ! 1))) (receiver_local_qpn m1 ! 1) \<in> set (py_calls (p4_writter d'))"
    using mc_client_told_after_switch [OF reach [unfolded example_daemon_def] example_facts(4,5) st acked] n(2) by blast
  have "sender_local_qpn m = 100" "receiver_local_qpn m0 ! 0 = 200" "receiver_local_qpn m1 ! 1 = 300"
    using t(4) by (simp_all add: calls example_facts)
  then show ?thesis using reach t(1-3) by blast
qed

section \<open>Where the daemon goes wrong\<close>

lemma msg_len: "TCP_MSG_LEN = 93"
  by (simp add: TCP_MSG_LEN_def)

text \<open>The read loop of the daemon. A message that arrives in one piece is read. But a read that would block
  ends the loop at once, since \<open>-EAGAIN\<close> wraps the unsigned \<open>read_size\<close>, and the handler goes on with the
  uninitialised buffer; and of a message that arrives in two pieces the second overwrites the start of
  the first.\<close>

theorem mc_read_pieces:
  assumes "length bs = 93" and "0 < length a" and "length a < 93" and "length b = 93 - length a"
  shows "mc_read (\<lambda>k n. (93, bs)) 0 0 (replicate 93 z) = Some bs \<and>
    mc_read (\<lambda>k n. (- EAGAIN, [])) 0 0 junk = Some junk \<and>
    mc_read (\<lambda>k n. if k = 0 then (int (length a), a) else (int (length b), b)) 0 0 (replicate 93 z) =
      Some (b @ drop (length b) (a @ replicate (93 - length a) z))"
proof (intro conjI)
  have u: "unat (of_nat n :: u32) = n" if "n \<le> 93" for n using that by (simp add: unat_of_nat)
  have u0: "unat (93 :: u32) = 93" "unat (- 11 :: u32) = 4294967285" by simp_all
  show "mc_read (\<lambda>k n. (93, bs)) 0 0 (replicate 93 z) = Some bs"
    using assms(1) by (subst mc_read.simps, subst mc_read.simps) (simp add: msg_len EAGAIN_def)
  show "mc_read (\<lambda>k n. (- EAGAIN, [])) 0 0 junk = Some junk"
    by (subst mc_read.simps, subst mc_read.simps) (simp add: msg_len EAGAIN_def)
  have sum: "of_nat (length a) + of_nat (length b) = (93 :: u32)"
    using assms(3,4) by (simp flip: of_nat_add)
  show "mc_read (\<lambda>k n. if k = 0 then (int (length a), a) else (int (length b), b)) 0 0 (replicate 93 z) =
      Some (b @ drop (length b) (a @ replicate (93 - length a) z))"
    using assms(2-4) u [of "length a"] sum
    by (subst mc_read.simps, subst mc_read.simps, subst mc_read.simps) (simp add: msg_len EAGAIN_def)
qed

theorem mc_read_pieces_witness:
  "mc_read (\<lambda>k n. if k = 0 then (int (length ''00''), ''00'') else (int (length (replicate 91 (CHR ''1''))), replicate 91 (CHR ''1''))) 0 0 (replicate 93 NUL) =
   Some (replicate 91 (CHR ''1'') @ drop 91 (''00'' @ replicate 91 NUL))"
  using mc_read_pieces [of "replicate 93 NUL" "''00''" "replicate 91 (CHR ''1'')" NUL "[]"] by simp

text \<open>Group numbers start at a random value below 10000, which may be 0, and count up through 2. A client that gets
  group 0 still counts as new, so its acknowledgement opens another group (and its first one is never
  completed); and the last member's answer of group 2 makes the daemon answer the client although the
  switch table is left unchanged.\<close>

theorem group_zero_and_two:
  assumes "group_of d 2 c [n0, n1] as" and "mc_write w 0" and "length (cm_gid r) = 16" and "env_py env" and "env_module env"
    and "conn_mc e q = 0" and "m_mc_id e = 0" and "client_first_message env nc q msg e = Inr e'" and "q \<notin> {nc ! 0, nc ! 1}"
  shows "mc_handle env (McClient nc' q msg') e' = client_first_message env nc' q msg' e' \<and>
    (\<exists>d'. server_message env w w n1 (cm_msg mc r @ NUL # rest) (group_view d 2 C_HANDSHAKE_RECEIVED [S_HANDSHAKE_ACK_SENT, S_HANDSHAKE_SENT] m out) = Inr d' \<and>
      p4_writter d' = p4_writter d \<and> client_st (state_at d' 2) = C_HANDSHAKE_SENT)"
proof -
  have "conn_mc e' q = 0"
    using assms(7-9)
    by (auto simp: client_first_message_def Let_def rbind_eq_Inr connect_member_def put_state_def put_meta_def split: prod.splits)
  then show ?thesis
    by (simp add: mc_handle_def relay_steps(6) [OF assms(1-5)] add_entry_def group_view_simps)
qed

lemma example_zero:
  "\<exists>e'. client_first_message example_env [20, 30] 10 (cm_msg example_group (example_meta 100 0) @ NUL # []) (example_daemon\<lparr>m_mc_id := 0\<rparr>) = Inr e'"
proof -
  obtain a0 a1 where a: "member_addr example_env (ip_addr_member_1 example_group) (port_member_1 example_group) = Inr a0"
    "member_addr example_env (ip_addr_member_2 example_group) (port_member_2 example_group) = Inr a1"
    using example_member by blast
  show ?thesis
    using first_message_view [of "example_daemon\<lparr>m_mc_id := 0\<rparr>" "example_meta 100 0" "[20, 30]" 10 example_env example_group a0 a1 "[]"] a
    by (auto simp: example_daemon_def daemon_new_def example_meta_def)
qed

definition example_two :: daemon where
  "example_two = example_daemon\<lparr>multicast_connections := [2 \<mapsto> [10, 20, 30]], conn_mc := (\<lambda>_. 2),
     multicast_addrs := [2 \<mapsto> [env_addr example_env, env_addr example_env]]\<rparr>"

theorem group_zero_and_two_witness:
  "\<exists>d'. server_message example_env all_written all_written 30 (cm_msg example_group (example_meta 300 0) @ NUL # [])
      (group_view example_two 2 C_HANDSHAKE_RECEIVED [S_HANDSHAKE_ACK_SENT, S_HANDSHAKE_SENT] mc_meta_new []) = Inr d' \<and>
    p4_writter d' = p4_writter example_two \<and> client_st (state_at d' 2) = C_HANDSHAKE_SENT"
proof -
  have g: "group_of example_two 2 10 [20, 30] [env_addr example_env, env_addr example_env]"
    by (simp add: group_of_def example_two_def)
  obtain e' where e': "client_first_message example_env [20, 30] 10 (cm_msg example_group (example_meta 100 0) @ NUL # []) (example_daemon\<lparr>m_mc_id := 0\<rparr>) = Inr e'"
    using example_zero by blast
  have e: "conn_mc (example_daemon\<lparr>m_mc_id := 0\<rparr>) 10 = 0" "m_mc_id (example_daemon\<lparr>m_mc_id := 0\<rparr>) = 0" "(10 :: ptr) \<notin> {[20, 30] ! 0, [20, 30] ! 1}"
    by (simp_all add: example_facts)
  show ?thesis using group_zero_and_two [OF g all_written_ok example_facts(6) [of 300 0] example_facts(4,5) e(1,2) e' e(3)] by blast
qed

end
