(* ===== verification/Worker.thy ===== *)
theory Worker
  imports Dispatcher
begin

text \<open>
  Workers (\<open>RDMAWorker\<close> in \<open>src/src/core/RDMAStack.cc\<close> and \<open>RDMAStack.h\<close>) and the choice of a worker
  (\<open>NetworkStack::get_worker\<close> in \<open>src/src/network/Stack.cc\<close>). The sockets waiting for send buffers are a
  queue; what \<open>submit\<close> of a socket returns is the argument \<open>sub\<close>. The dispatcher is the one of
  \<open>Dispatcher\<close>.
\<close>

section \<open>State\<close>

record rdma_worker =
  w_self :: ptr
  pending_sent_conns :: "ptr list"
  is_pending :: "ptr \<Rightarrow> bool"
  w_submitted :: "ptr list"
  w_faulted :: "ptr list"
  w_disp :: disp

section \<open>Send buffers and waiting sockets\<close>

text \<open>\<open>get_reged_mem\<close>: \<open>got\<close> is a product of a 32-bit size and an \<open>int\<close>, widened.\<close>

definition get_reged_mem :: "bool \<Rightarrow> ptr \<Rightarrow> nat list \<Rightarrow> u64 \<Rightarrow> rdma_worker \<Rightarrow> (int \<times> nat list \<times> rdma_worker) result" where
  "get_reged_mem in_thr sock c nbytes w =
     kassert in_thr
       (rbind (get_buffers c nbytes (tx_pool (w_disp w))) (\<lambda>(r, c', pool).
          let got = ucast (buffer_size (tx_pool (w_disp w)) * (of_int r :: u32)) :: u64;
              d = (w_disp w)\<lparr>tx_pool := pool, inflight := inflight (w_disp w) + of_int r\<rparr>;
              w1 = w\<lparr>w_disp := d\<rparr> in
          if got \<ge> nbytes then Inr (r, c', w1)
          else if sock \<noteq> nullptr then
            let w2 = (if is_pending w1 sock then w1
                      else w1\<lparr>pending_sent_conns := pending_sent_conns w1 @ [sock], is_pending := (is_pending w1)(sock := True)\<rparr>)
            in Inr (r, c', w2\<lparr>w_disp := make_pending_worker (w_self w2) (w_disp w2)\<rparr>)
          else Inr (r, c', w1)))"

definition remove_pending_conn :: "bool \<Rightarrow> ptr \<Rightarrow> rdma_worker \<Rightarrow> rdma_worker result" where
  "remove_pending_conn in_thr sock w = kassert in_thr (Inr (w\<lparr>pending_sent_conns := filter (\<lambda>x. x \<noteq> sock) (pending_sent_conns w)\<rparr>))"

fun pending_loop :: "(ptr \<Rightarrow> int) \<Rightarrow> ptr list \<Rightarrow> rdma_worker \<Rightarrow> rdma_worker" where
  "pending_loop sub [] w = w\<lparr>pending_sent_conns := [], w_disp := notify_pending_workers (w_disp w)\<rparr>"
| "pending_loop sub (s # ss) w =
     (let w1 = w\<lparr>w_submitted := w_submitted w @ [s]\<rparr>; r = sub s in
      if r < 0 \<and> r = - EAGAIN
      then w1\<lparr>pending_sent_conns := ss @ [s], w_disp := make_pending_worker (w_self w1) (w_disp w1)\<rparr>
      else let w2 = (if r < 0 then w1\<lparr>w_faulted := w_faulted w1 @ [s]\<rparr> else w1)
           in pending_loop sub ss (w2\<lparr>is_pending := (is_pending w2)(s := False)\<rparr>))"

definition handle_pending_message :: "(ptr \<Rightarrow> int) \<Rightarrow> rdma_worker \<Rightarrow> rdma_worker" where
  "handle_pending_message sub w = pending_loop sub (pending_sent_conns w) w"

section \<open>The choice of a worker\<close>

text \<open>The loop of \<open>get_worker\<close> over the loads: the first worker with the least load below \<open>min_load\<close>.\<close>

fun best_worker :: "nat list \<Rightarrow> nat \<Rightarrow> nat \<Rightarrow> nat option \<Rightarrow> nat option" where
  "best_worker [] i min_load best = best"
| "best_worker (l # ls) i min_load best =
     (if l < min_load then best_worker ls (i + 1) l (Some i) else best_worker ls (i + 1) min_load best)"

definition INT_MAX :: nat where "INT_MAX = 2147483647"

definition get_worker :: "nat list \<Rightarrow> (nat \<times> nat list) result" where
  "get_worker loads =
     (case best_worker loads 0 INT_MAX None of
        None \<Rightarrow> Inl KAssert
      | Some i \<Rightarrow> Inr (i, loads[i := loads ! i + 1]))"

section \<open>Properties\<close>

definition pending_ok :: "rdma_worker \<Rightarrow> bool" where
  "pending_ok w \<longleftrightarrow> distinct (pending_sent_conns w) \<and> (\<forall>s. is_pending w s \<longleftrightarrow> s \<in> set (pending_sent_conns w))"

lemma pending_loop_spec:
  assumes "distinct ss" and "\<forall>s. is_pending w s \<longleftrightarrow> s \<in> set ss"
  shows "pending_ok (pending_loop sub ss w) \<and>
    w_submitted (pending_loop sub ss w) = w_submitted w @ takeWhile (\<lambda>s. sub s \<noteq> - EAGAIN) ss @ take 1 (dropWhile (\<lambda>s. sub s \<noteq> - EAGAIN) ss) \<and>
    w_faulted (pending_loop sub ss w) = w_faulted w @ filter (\<lambda>s. sub s < 0) (takeWhile (\<lambda>s. sub s \<noteq> - EAGAIN) ss) \<and>
    pending_sent_conns (pending_loop sub ss w) = rotate1 (dropWhile (\<lambda>s. sub s \<noteq> - EAGAIN) ss) \<and>
    w_disp (pending_loop sub ss w) =
      (if dropWhile (\<lambda>s. sub s \<noteq> - EAGAIN) ss = [] then notify_pending_workers (w_disp w) else make_pending_worker (w_self w) (w_disp w))"
  using assms
proof (induction ss arbitrary: w)
  case Nil
  then show ?case by (simp add: pending_ok_def)
next
  case (Cons s ss)
  show ?case
  proof (cases "sub s = - EAGAIN")
    case True
    then show ?thesis using Cons.prems by (auto simp: EAGAIN_def pending_ok_def Let_def)
  next
    case False
    let ?w = "(if sub s < 0 then w\<lparr>w_submitted := w_submitted w @ [s], w_faulted := w_faulted w @ [s]\<rparr> else w\<lparr>w_submitted := w_submitted w @ [s]\<rparr>)
      \<lparr>is_pending := (is_pending w)(s := False)\<rparr>"
    have step: "pending_loop sub (s # ss) w = pending_loop sub ss ?w" using False by (simp add: Let_def)
    have "\<forall>x. is_pending ?w x \<longleftrightarrow> x \<in> set ss" using Cons.prems by auto
    then show ?thesis using Cons.IH [of ?w] Cons.prems(1) False unfolding step by auto
  qed
qed

text \<open>\<open>handle_pending_message\<close> submits the waiting sockets in order, up to and including the first that still finds
  no buffers; that one goes to the end of the queue, those after it stay, and the worker is registered
  with the dispatcher again. If none blocks, the queue is empty and the next worker is notified. Sockets
  whose submission fails otherwise are marked faulty. The pending flags stay exact throughout, so no
  waiting socket is forgotten.\<close>

theorem pending_conns_handled:
  assumes "pending_ok w"
  shows "let ok = takeWhile (\<lambda>s. sub s \<noteq> - EAGAIN) (pending_sent_conns w);
             blocked = dropWhile (\<lambda>s. sub s \<noteq> - EAGAIN) (pending_sent_conns w);
             w' = handle_pending_message sub w in
    pending_ok w' \<and> w_submitted w' = w_submitted w @ ok @ take 1 blocked \<and> w_faulted w' = w_faulted w @ filter (\<lambda>s. sub s < 0) ok \<and>
    pending_sent_conns w' = rotate1 blocked \<and>
    w_disp w' = (if blocked = [] then notify_pending_workers (w_disp w) else make_pending_worker (w_self w) (w_disp w))"
  using assms pending_loop_spec [of "pending_sent_conns w" w sub] by (simp add: handle_pending_message_def pending_ok_def Let_def)

definition example_worker :: rdma_worker where
  "example_worker = \<lparr>w_self = 9, pending_sent_conns = [1, 2, 3, 4], is_pending = \<lambda>s. s \<in> {1, 2, 3, 4}, w_submitted = [], w_faulted = [],
     w_disp = disp_new (cluster_new 4096 0)\<rparr>"

theorem pending_conns_handled_witness:
  "pending_sent_conns (handle_pending_message (\<lambda>s. if s = 2 then - 5 else if s = 3 then - EAGAIN else 0) example_worker) = [4, 3] \<and>
   w_faulted (handle_pending_message (\<lambda>s. if s = 2 then - 5 else if s = 3 then - EAGAIN else 0) example_worker) = [2]"
proof -
  have ok: "pending_ok example_worker" by (auto simp: pending_ok_def example_worker_def)
  show ?thesis
    using pending_conns_handled [OF ok, of "\<lambda>s. if s = 2 then - 5 else if s = 3 then - EAGAIN else 0"]
    by (simp add: Let_def example_worker_def EAGAIN_def)
qed

lemma get_reged_mem_ok:
  assumes "cluster_inv (tx_pool (w_disp w))" and "buffer_size (tx_pool (w_disp w)) \<noteq> 0"
    and "unat nbytes + unat (buffer_size (tx_pool (w_disp w))) < 2 ^ 31"
  shows "let k = (unat nbytes + unat (buffer_size (tx_pool (w_disp w))) - 1) div unat (buffer_size (tx_pool (w_disp w))) in
    if k \<le> length (free_chunks (tx_pool (w_disp w)))
    then \<exists>c' w'. get_reged_mem True sock c nbytes w = Inr (int k, c', w') \<and> pending_sent_conns w' = pending_sent_conns w \<and>
      is_pending w' = is_pending w \<and> inflight (w_disp w') = inflight (w_disp w) + of_nat k \<and> (c', tx_pool (w_disp w')) = take_chunks k c (tx_pool (w_disp w))
    else get_reged_mem True sock c nbytes w = Inl AbortCall"
proof -
  let ?pool = "tx_pool (w_disp w)"
  let ?bs = "unat (buffer_size ?pool)"
  let ?k = "(unat nbytes + ?bs - 1) div ?bs"
  have g: "unat nbytes \<le> ?k * ?bs" "?k * ?bs < unat nbytes + ?bs"
    "get_buffers c nbytes ?pool = (if ?k \<le> length (free_chunks ?pool) then Inr (sint (of_nat ?k :: u32), take_chunks ?k c ?pool) else Inl AbortCall)"
    using get_buffers_ok [OF assms(1,2), of nbytes c] assms(3) by (simp_all add: Let_def)
  obtain c' p' where t: "take_chunks ?k c ?pool = (c', p')" by fastforce
  have kb: "?k * ?bs < 2 ^ 31" using g(2) assms(3) by linarith
  have bs: "0 < ?bs" using assms(2) by (simp add: unat_gt_0)
  have k31: "?k < 2 ^ 31" using kb bs by (metis le_less_trans less_numeral_extra(3) mult_le_mono2 nat_mult_1_right Suc_leI One_nat_def)
  have u: "unat (of_nat ?k :: u32) = ?k" using k31 by (simp add: unat_of_nat)
  have s: "sint (of_nat ?k :: u32) = int ?k" using k31 by (simp add: signed_of_nat signed_take_bit_int_eq_self)
  have w: "(of_int (int ?k) :: 'x::len word) = of_nat ?k" by (simp only: of_int_of_nat_eq)
  have "unat (buffer_size ?pool * (of_nat ?k :: u32)) = ?bs * ?k"
    using kb u by (subst unat_mult_no_overflow) (simp_all add: mult.commute)
  then have got: "nbytes \<le> ucast (buffer_size ?pool * (of_nat ?k :: u32))"
    using g(1) by (simp add: word_le_nat_alt mult.commute)
  show ?thesis
  proof (cases "?k \<le> length (free_chunks ?pool)")
    case True
    then show ?thesis using g(3) t got unfolding s by (simp add: get_reged_mem_def Let_def w del: of_nat_div)
  next
    case False
    then show ?thesis using g(3) by (simp add: get_reged_mem_def Let_def del: of_nat_div)
  qed
qed

text \<open>The back-pressure of \<open>get_reged_mem\<close> is never used: taking send buffers aborts when the pool is too small, so
  whenever \<open>get_reged_mem\<close> returns, the bytes reserved cover the request, and the socket is not queued.\<close>

theorem get_reged_mem_never_waits:
  assumes "cluster_inv (tx_pool (w_disp w))" and "buffer_size (tx_pool (w_disp w)) \<noteq> 0"
    and "unat nbytes + unat (buffer_size (tx_pool (w_disp w))) < 2 ^ 31"
  shows "let k = (unat nbytes + unat (buffer_size (tx_pool (w_disp w))) - 1) div unat (buffer_size (tx_pool (w_disp w))) in
    if k \<le> length (free_chunks (tx_pool (w_disp w)))
    then \<exists>c' w'. get_reged_mem True sock c nbytes w = Inr (int k, c', w') \<and> pending_sent_conns w' = pending_sent_conns w \<and>
      is_pending w' = is_pending w \<and> inflight (w_disp w') = inflight (w_disp w) + of_nat k \<and> (c', tx_pool (w_disp w')) = take_chunks k c (tx_pool (w_disp w))
    else get_reged_mem True sock c nbytes w = Inl AbortCall"
  using assms by (rule get_reged_mem_ok)

theorem get_reged_mem_never_waits_witness:
  "\<exists>w r c' w'. get_reged_mem True 5 [] 9 w = Inr (r, c', w') \<and> pending_sent_conns w' = [] \<and> inflight (w_disp w') = 3"
proof -
  obtain cl where cl: "fill 4 4096 1 7 (cluster_new 4 0) = Some (Inr cl)" "cluster_inv cl"
    "free_chunks cl = [0 ..< 4]" and bs: "buffer_size cl = 4"
    using fill_ok [of "cluster_new 4 0" 4096 1 4 7] by (auto simp: cluster_new_def)
  define w where "w = \<lparr>w_self = 9, pending_sent_conns = [], is_pending = \<lambda>s. False, w_submitted = [], w_faulted = [], w_disp = disp_new cl\<rparr>"
  have p: "tx_pool (w_disp w) = cl" "pending_sent_conns w = []" "inflight (w_disp w) = 0" by (simp_all add: w_def disp_new_def)
  have b: "unat (9 :: u64) + unat (4 :: u32) < 2 ^ 31" by simp
  show ?thesis using get_reged_mem_never_waits [of w 9 5 "[]"] p cl(2,3) bs b by (auto simp: Let_def)
qed

lemma best_worker_spec:
  "best_worker ls i m b = (case b of
      None \<Rightarrow> if \<forall>l\<in>set ls. m \<le> l then None else Some (i + (LEAST k. k < length ls \<and> ls ! k = Min (set ls)))
    | Some j \<Rightarrow> if \<forall>l\<in>set ls. m \<le> l then Some j else Some (i + (LEAST k. k < length ls \<and> ls ! k = Min (set ls))))"
proof (induction ls arbitrary: i m b)
  case Nil
  then show ?case by (simp split: option.split)
next
  case (Cons l ls)
  have min_cons: "Min (set (l # ls)) = min l (Min (set ls))" if "ls \<noteq> []" using that by simp
  have least0: "(LEAST k. k < Suc n \<and> (l # ls) ! k = x) = 0" if "l = x" for n x
    using that by (intro Least_eq_0) simp
  have leastS: "(LEAST k. k < length (l # ls) \<and> (l # ls) ! k = x) = Suc (LEAST k. k < length ls \<and> ls ! k = x)" if ne: "l \<noteq> x" and mem: "x \<in> set ls" for x
  proof -
    obtain j where "j < length ls" "ls ! j = x" using mem by (auto simp: in_set_conv_nth)
    then show ?thesis using Least_Suc [of "\<lambda>k. k < length (l # ls) \<and> (l # ls) ! k = x" "Suc j"] ne by simp
  qed
  show ?case
  proof (cases "l < m")
    case True
    show ?thesis
    proof (cases "\<forall>x\<in>set ls. l \<le> x")
      case le: True
      then have "Min (set (l # ls)) = l" by (intro Min_eqI) auto
      then show ?thesis using True le Cons.IH [of "i + 1" l "Some i"] least0 [of l "length ls"] by (auto split: option.split)
    next
      case False
      then obtain x where x: "x \<in> set ls" "x < l" by force
      then have ne: "ls \<noteq> []" by auto
      have "Min (set ls) \<le> x" using x(1) by simp
      then have mn: "Min (set (l # ls)) = Min (set ls)" "l \<noteq> Min (set ls)" using min_cons [OF ne] x(2) by linarith+
      have "Min (set ls) \<in> set ls" using ne by simp
      then show ?thesis using True False Cons.IH [of "i + 1" l "Some i"] leastS [OF mn(2)] mn(1) by (auto split: option.split)
    qed
  next
    case False
    show ?thesis
    proof (cases "\<forall>x\<in>set ls. m \<le> x")
      case True
      then show ?thesis using False Cons.IH [of "i + 1" m b] by (auto split: option.split)
    next
      case lt: False
      then obtain x where x: "x \<in> set ls" "x < m" by force
      then have ne: "ls \<noteq> []" by auto
      have "Min (set ls) \<le> x" using x(1) by simp
      then have mn: "Min (set (l # ls)) = Min (set ls)" "l \<noteq> Min (set ls)" using min_cons [OF ne] x(2) False by linarith+
      have "Min (set ls) \<in> set ls" using ne by simp
      then show ?thesis using False lt Cons.IH [of "i + 1" m b] leastS [OF mn(2)] mn(1) by (auto split: option.split)
    qed
  qed
qed

text \<open>The first worker of least load.\<close>

definition least_loaded :: "nat list \<Rightarrow> nat \<Rightarrow> bool" where
  "least_loaded refs i \<longleftrightarrow> i < length refs \<and> refs ! i = Min (set refs) \<and> (\<forall>j < i. refs ! j \<noteq> Min (set refs))"

lemma get_worker_least:
  assumes "refs \<noteq> []" "Min (set refs) < INT_MAX"
  shows "\<exists>i. get_worker refs = Inr (i, refs[i := refs ! i + 1]) \<and> least_loaded refs i"
proof -
  let ?P = "\<lambda>k. k < length refs \<and> refs ! k = Min (set refs)"
  have "Min (set refs) \<in> set refs" using assms(1) by simp
  then obtain j where "?P j" by (auto simp: in_set_conv_nth)
  then have i: "?P (LEAST k. ?P k)" by (rule LeastI [of ?P])
  have "\<not> (\<forall>l\<in>set refs. INT_MAX \<le> l)" using assms(2) \<open>Min (set refs) \<in> set refs\<close> by force
  then have "get_worker refs = Inr (LEAST k. ?P k, refs[LEAST k. ?P k := refs ! (LEAST k. ?P k) + 1])"
    by (simp add: get_worker_def best_worker_spec)
  moreover have "\<forall>j < (LEAST k. ?P k). refs ! j \<noteq> Min (set refs)" using i not_less_Least [of _ ?P] by (meson less_trans)
  then have "least_loaded refs (LEAST k. ?P k)" using i unfolding least_loaded_def by blast
  ultimately show ?thesis by blast
qed

text \<open>\<open>get_worker\<close> picks the first of the workers with the least load and counts the new reference; so the loads of
  the workers never differ by more than they did, or by more than one. It aborts only if every worker
  has the greatest load, or there is none.\<close>

theorem get_worker_least_load:
  assumes "loads \<noteq> []" and "Min (set loads) < INT_MAX"
  shows "\<exists>i. get_worker loads = Inr (i, loads[i := loads ! i + 1]) \<and> i < length loads \<and> loads ! i = Min (set loads) \<and>
    (\<forall>j<i. loads ! j \<noteq> Min (set loads)) \<and>
    Max (set (loads[i := loads ! i + 1])) - Min (set (loads[i := loads ! i + 1])) \<le> max 1 (Max (set loads) - Min (set loads))"
proof -
  from get_worker_least [OF assms] obtain i where get: "get_worker loads = Inr (i, loads[i := loads ! i + 1])" and i: "least_loaded loads i" by blast
  let ?new = "loads[i := loads ! i + 1]"
  have sub: "set ?new \<subseteq> insert (Min (set loads) + 1) (set loads)" using i set_update_subset_insert [of loads i] by (simp add: least_loaded_def)
  have ne: "?new \<noteq> []" using assms(1) by simp
  have lo: "Min (set loads) \<le> Min (set ?new)"
  proof -
    have "Min (set ?new) \<in> insert (Min (set loads) + 1) (set loads)" using sub ne Min_in [of "set ?new"] by blast
    then show ?thesis by auto
  qed
  have hi: "Max (set ?new) \<le> max (Min (set loads) + 1) (Max (set loads))"
  proof -
    have "Max (set ?new) \<in> insert (Min (set loads) + 1) (set loads)" using sub ne Max_in [of "set ?new"] by blast
    then show ?thesis by (auto simp: le_max_iff_disj)
  qed
  have "Max (set ?new) - Min (set ?new) \<le> max 1 (Max (set loads) - Min (set loads))" using lo hi by linarith
  then show ?thesis using get i by (auto simp: least_loaded_def)
qed

theorem get_worker_least_load_witness: "\<exists>i. get_worker [3, 1, 2, 1] = Inr (i, [3, 1, 2, 1][i := [3, 1, 2, 1] ! i + 1]) \<and> [3, 1, 2, 1 :: nat] ! i = 1"
  using get_worker_least_load [of "[3, 1, 2, 1]"] by (auto simp: INT_MAX_def)

end
