(* ===== verification/Acceptor.thy ===== *)
theory Acceptor
  imports EntityAddr
begin

text \<open>
  Listening and accepting: \<open>RDMAServerSocketImpl\<close> (\<open>src/src/core/RDMAServerSocketImpl.cc\<close>), the
  socket helpers of \<open>NetHandler\<close> (\<open>src/src/network/net_handler.cc\<close>), \<open>Processor\<close>
  (\<open>src/src/network/processer.cc\<close>) and \<open>Server::bind\<close> (\<open>src/src/core/server.cc\<close>). System calls are
  arguments that give a result and \<open>errno\<close>; the descriptors closed are part of the results.
\<close>

type_synonym sysres = "int \<times> int"

section \<open>Socket helpers\<close>

definition create_socket :: "sysres \<Rightarrow> int" where
  "create_socket s = (if fst s = - 1 then - snd s else fst s)"

text \<open>\<open>g\<close>, \<open>s\<close>: \<open>fcntl\<close> with \<open>F_GETFL\<close> and with \<open>F_SETFL\<close>.\<close>

definition set_nonblock :: "sysres \<Rightarrow> sysres \<Rightarrow> int" where
  "set_nonblock g s = (if fst g < 0 then - snd g else if fst s < 0 then - snd s else 0)"

text \<open>The result is that of the last option set, negated.\<close>

definition set_socket_options :: "bool \<Rightarrow> int \<Rightarrow> sysres \<Rightarrow> sysres \<Rightarrow> int" where
  "set_socket_options nodelay rcv n b =
     (let r0 = 0;
          r1 = (if nodelay then if fst n < 0 then snd n else fst n else r0);
          r2 = (if rcv \<noteq> 0 then if fst b < 0 then snd b else fst b else r1)
      in - r2)"

definition EINPROGRESS :: int where "EINPROGRESS = 115"
definition EALREADY :: int where "EALREADY = 114"
definition EISCONN :: int where "EISCONN = 106"
definition EBUSY :: int where "EBUSY = 16"
definition ECONNABORTED :: int where "ECONNABORTED = 103"

text \<open>\<open>generic_connect\<close>: \<open>do_bind\<close> is the configuration's \<open>bind_before_connect\<close> with a bind address that is not
  blank. The result comes with the descriptors closed.\<close>

definition generic_connect :: "bool \<Rightarrow> bool \<Rightarrow> sysres \<Rightarrow> sysres \<Rightarrow> sysres \<Rightarrow> sysres \<Rightarrow> sysres \<Rightarrow> int \<times> int list" where
  "generic_connect nonblock do_bind so g st bi co =
     (let s = create_socket so in
      if s < 0 then (s, [])
      else if nonblock \<and> set_nonblock g st < 0 then (set_nonblock g st, [s])
      else if do_bind \<and> fst bi < 0 then (- snd bi, [s])
      else if fst co < 0 then
        if (snd co = EINPROGRESS \<or> snd co = EAGAIN) \<and> nonblock then (s, []) else (- snd co, [s])
      else (s, []))"

definition reconnect :: "sysres \<Rightarrow> int" where
  "reconnect c =
     (if fst c < 0 \<and> snd c \<noteq> EISCONN
      then if snd c = EINPROGRESS \<or> snd c = EALREADY \<or> snd c = EAGAIN then 1 else - snd c
      else 0)"

section \<open>The server socket\<close>

text \<open>\<open>listen\<close>: the result, the new \<open>server_setup_socket\<close> and the descriptors closed.\<close>

definition server_listen ::
  "sysres \<Rightarrow> sysres \<Rightarrow> sysres \<Rightarrow> bool \<Rightarrow> int \<Rightarrow> sysres \<Rightarrow> sysres \<Rightarrow> sysres \<Rightarrow> sysres \<Rightarrow> int \<times> int \<times> int list" where
  "server_listen so g st nodelay rcv nd rb bi li =
     (let s = create_socket so in
      if s < 0 then (- snd so, s, [])
      else if set_nonblock g st < 0 then (set_nonblock g st, - 1, [s])
      else if set_socket_options nodelay rcv nd rb < 0 then (set_socket_options nodelay rcv nd rb, - 1, [s])
      else if fst bi < 0 then (- snd bi, - 1, [s])
      else if fst li < 0 then (- snd li, - 1, [s])
      else (0, s, []))"

text \<open>\<open>accept\<close>: \<open>e\<close> is \<open>errno\<close> when a failure after \<open>accept\<close> is reported; \<open>has_qp\<close> says that the new socket has a
  queue pair. The result, the descriptor given to the socket and the descriptors closed.\<close>

definition server_accept ::
  "sysres \<Rightarrow> int \<Rightarrow> sysres \<Rightarrow> sysres \<Rightarrow> bool \<Rightarrow> int \<Rightarrow> sysres \<Rightarrow> sysres \<Rightarrow> bool \<Rightarrow> int \<times> int option \<times> int list" where
  "server_accept ac e g st nodelay rcv nd rb has_qp =
     (let sd = fst ac in
      if sd < 0 then (- snd ac, None, [])
      else if set_nonblock g st < 0 then (- e, None, [sd])
      else if set_socket_options nodelay rcv nd rb < 0 then (- e, None, [sd])
      else if \<not> has_qp then (- 1, None, [sd])
      else (0, Some sd, []))"

definition abort_accept :: "int \<Rightarrow> int list" where
  "abort_accept s = (if s \<ge> 0 then [s] else [])"

section \<open>The processor\<close>

text \<open>\<open>bind\<close>: \<open>res i\<close> is the result of the \<open>i\<close>-th \<open>listen\<close>; the number of attempts made is returned.\<close>

function bind_retry :: "(nat \<Rightarrow> int) \<Rightarrow> nat \<Rightarrow> nat \<Rightarrow> int \<Rightarrow> int \<times> nat" where
  "bind_retry res n i r = (if i < n then let r' = res i in if r' = 0 then (0, i + 1) else bind_retry res n (i + 1) r' else (r, i))"
  by pat_completeness auto
termination by (relation "measure (\<lambda>(res, n, i, r). n - i)") auto

declare bind_retry.simps [simp del]

record processor =
  has_listener :: bool
  is_started :: bool
  p_watched :: bool

text \<open>The port of the address to bind to; every attempt does this, and only the first may change the address.\<close>

definition choose_port :: "int \<Rightarrow> entity_addr \<Rightarrow> entity_addr result" where
  "choose_port def_port a = (if get_port a = 0 then set_port def_port a else Inr a)"

text \<open>A failing \<open>listen\<close> leaves the listening socket empty, and \<open>abort_accept\<close> of an empty one dereferences null.
  The result comes with the bound address.\<close>

definition processor_bind :: "int \<Rightarrow> entity_addr \<Rightarrow> (nat \<Rightarrow> int) \<Rightarrow> nat \<Rightarrow> processor \<Rightarrow> (int \<times> entity_addr \<times> processor) result" where
  "processor_bind def_port addr res n p =
     rbind (if 0 < n then choose_port def_port addr else Inr addr) (\<lambda>bound.
       let (r, k) = bind_retry res n 0 (- 1) in
       if r < 0 then if has_listener p then Inr (r, bound, p\<lparr>has_listener := False\<rparr>) else Inl NullDeref
       else Inr (0, bound, p\<lparr>has_listener := True\<rparr>))"

text \<open>\<open>start\<close> registers the listening socket, if there is one, for reading; \<open>stop\<close> removes the registration and the
  socket.\<close>

definition processor_start :: "processor \<Rightarrow> processor" where
  "processor_start p =
     (if is_started p then p
      else let p1 = (if has_listener p then p\<lparr>p_watched := True\<rparr> else p) in p1\<lparr>is_started := True\<rparr>)"

definition processor_stop :: "processor \<Rightarrow> processor" where
  "processor_stop p =
     (let p1 = (if has_listener p then p\<lparr>p_watched := False, has_listener := False\<rparr> else p) in p1\<lparr>is_started := False\<rparr>)"

text \<open>\<open>accept\<close>: \<open>res k\<close> is the result of the \<open>k\<close>-th call of the socket's \<open>accept\<close>; the accepted calls are
  collected, and \<open>refs\<close> counts the references taken on workers.\<close>

partial_function (option) accept_loop :: "nat \<Rightarrow> (nat \<Rightarrow> int) \<Rightarrow> nat \<Rightarrow> nat \<Rightarrow> nat list \<Rightarrow> int \<Rightarrow> (nat list \<times> int) result option" where
  "accept_loop max_failures res k errs acc refs =
     (let r = res k; refs1 = refs + 1 in
      if r = 0 then accept_loop max_failures res (k + 1) 0 (acc @ [k]) refs1
      else let refs2 = refs1 - 1 in
        if r = - EINTR then accept_loop max_failures res (k + 1) errs acc refs2
        else if r = - EAGAIN then Some (Inr (acc, refs2))
        else if r = - ECONNABORTED then accept_loop max_failures res (k + 1) errs acc refs2
        else if errs + 1 > max_failures then Some (Inl AbortCall)
        else accept_loop max_failures res (k + 1) (errs + 1) acc refs2)"

definition processor_accept :: "nat \<Rightarrow> (nat \<Rightarrow> int) \<Rightarrow> (nat list \<times> int) result option" where
  "processor_accept max_failures res = accept_loop max_failures res 0 0 [] 0"

section \<open>The server\<close>

record server =
  sv_processors :: "processor list"
  conn_count :: "32 word"
  lock_held :: bool

text \<open>\<open>conn_count % processors.size()\<close>: the \<open>int\<close> is sign-extended to 64 bits.\<close>

definition server_bind :: "bool \<Rightarrow> int \<Rightarrow> entity_addr \<Rightarrow> (nat \<Rightarrow> int) \<Rightarrow> nat \<Rightarrow> server \<Rightarrow> (int \<times> server) result" where
  "server_bind ready def_port addr res n s =
     (if lock_held s then Inl Deadlock
      else if \<not> ready then Inr (0, s\<lparr>lock_held := True\<rparr>)
      else if sv_processors s = [] then Inl DivByZero
      else let i = unat (scast (conn_count s) :: u64) mod length (sv_processors s); p = sv_processors s ! i in
        if is_started p then Inr (- EBUSY, s)
        else rbind (processor_bind def_port addr res n p) (\<lambda>(r, bound, p').
          if r \<noteq> 0 then Inr (r, s\<lparr>sv_processors := (sv_processors s)[i := p']\<rparr>)
          else Inr (0, s\<lparr>sv_processors := (sv_processors s)[i := processor_start p'], conn_count := conn_count s + 1\<rparr>)))"

section \<open>Properties\<close>

text \<open>Results of system calls that failed have a positive \<open>errno\<close>; \<open>setsockopt\<close> gives 0 or fails.\<close>

definition sys_ok :: "sysres \<Rightarrow> bool" where
  "sys_ok s = (if fst s < 0 then 0 < snd s \<and> fst s = - 1 else True)"

definition opt_ok :: "sysres \<Rightarrow> bool" where
  "opt_ok s = (fst s = 0 \<or> fst s = - 1 \<and> 0 < snd s)"

lemma set_socket_options_range: "opt_ok n \<Longrightarrow> opt_ok b \<Longrightarrow> set_socket_options nodelay rcv n b \<le> 0"
  by (auto simp: set_socket_options_def opt_ok_def)

text \<open>No descriptor is lost: \<open>listen\<close> and \<open>accept\<close> of the server socket either succeed with result 0 and keep the
  descriptor they obtained, or fail with a negative result and have closed it, exactly once.\<close>

theorem server_socket_no_leak:
  assumes "sys_ok so" and "sys_ok g" and "sys_ok st" and "opt_ok nd" and "opt_ok rb" and "sys_ok bi" and "sys_ok li" and "0 < e"
  shows "(case server_listen so g st nodelay rcv nd rb bi li of (rc, fd, closed) \<Rightarrow>
      if rc = 0 then fd = fst so \<and> 0 \<le> fd \<and> closed = [] else rc < 0 \<and> fd < 0 \<and> closed = (if 0 \<le> fst so then [fst so] else [])) \<and>
    (case server_accept so e g st nodelay rcv nd rb has_qp of (rc, fd, closed) \<Rightarrow>
      if rc = 0 then fd = Some (fst so) \<and> closed = [] else rc < 0 \<and> fd = None \<and> closed = (if 0 \<le> fst so then [fst so] else []))"
  using assms
  by (auto simp: server_listen_def server_accept_def create_socket_def sys_ok_def Let_def split: if_splits)

theorem server_socket_no_leak_witness:
  "(case server_listen (5, 0) (0, 0) (0, 0) True 0 (0, 0) (0, 0) (- 1, 98) (0, 0) of (rc, fd, closed) \<Rightarrow> rc < 0 \<and> closed = [5])"
proof -
  have "fst (server_listen (5, 0) (0, 0) (0, 0) True 0 (0, 0) (0, 0) (- 1, 98) (0, 0)) = - 98"
    by (simp add: server_listen_def create_socket_def set_nonblock_def set_socket_options_def)
  then show ?thesis
    using server_socket_no_leak [of "(5, 0)" "(0, 0)" "(0, 0)" "(0, 0)" "(0, 0)" "(- 1, 98)" "(0, 0)" 1 True 0 True]
    by (auto simp: sys_ok_def opt_ok_def split: prod.splits if_splits)
qed

text \<open>Whether the failures of a sequence of \<open>accept\<close> results stay within the limit.\<close>

fun errs_ok :: "nat \<Rightarrow> nat \<Rightarrow> int list \<Rightarrow> bool" where
  "errs_ok m errs [] = True"
| "errs_ok m errs (r # rs) =
     (if r = 0 then errs_ok m 0 rs
      else if r = - EINTR \<or> r = - ECONNABORTED then errs_ok m errs rs
      else errs + 1 \<le> m \<and> errs_ok m (errs + 1) rs)"

lemma accept_loop_drains:
  assumes "res (k + d) = - EAGAIN" and "\<forall>j<d. res (k + j) \<noteq> - EAGAIN"
  shows "accept_loop m res k errs acc refs =
    (if errs_ok m errs (map res [k ..< k + d])
     then Some (Inr (acc @ filter (\<lambda>j. res j = 0) [k ..< k + d], refs + int (length (filter (\<lambda>j. res j = 0) [k ..< k + d]))))
     else Some (Inl AbortCall))"
  using assms
proof (induction d arbitrary: k errs acc refs)
  case 0
  then show ?case by (subst accept_loop.simps) (simp add: EAGAIN_def EINTR_def)
next
  case (Suc d)
  have upt: "[k ..< k + Suc d] = k # [Suc k ..< Suc k + d]" by (simp add: upt_conv_Cons)
  have na: "res k \<noteq> - EAGAIN" using Suc.prems(2) [rule_format, of 0] by simp
  have pr: "res (Suc k + d) = - EAGAIN" "\<forall>j<d. res (Suc k + j) \<noteq> - EAGAIN"
    using Suc.prems(1) Suc.prems(2) [rule_format, of "Suc _"] by auto
  note IH = Suc.IH [of "Suc k", OF pr]
  have step: "accept_loop m res k errs acc refs =
      (if res k = 0 then accept_loop m res (Suc k) 0 (acc @ [k]) (refs + 1)
       else if res k = - EINTR \<or> res k = - ECONNABORTED then accept_loop m res (Suc k) errs acc refs
       else if errs + 1 > m then Some (Inl AbortCall) else accept_loop m res (Suc k) (errs + 1) acc refs)"
    using na by (subst accept_loop.simps) (simp add: Let_def)
  show ?case unfolding upt step IH using na by (simp del: upt_Suc)
qed

text \<open>When its socket becomes readable, the processor accepts all connections that are waiting: it returns at the
  first \<open>-EAGAIN\<close> with every successful call delivered in order, interrupted and aborted calls skipped, and
  as many worker references held as connections were accepted; it aborts only if more failures than
  configured occur without a success between them.\<close>

theorem processor_accept_drains:
  assumes "res n = - EAGAIN" and "\<forall>j<n. res j \<noteq> - EAGAIN"
  shows "processor_accept m res =
    (if errs_ok m 0 (map res [0 ..< n])
     then Some (Inr (filter (\<lambda>j. res j = 0) [0 ..< n], int (length (filter (\<lambda>j. res j = 0) [0 ..< n])))) else Some (Inl AbortCall))"
  using accept_loop_drains [of res 0 n m 0 "[]" 0] assms by (simp add: processor_accept_def)

theorem processor_accept_drains_witness:
  "processor_accept 1 (\<lambda>k. if k = 0 then 0 else if k = 1 then - 24 else if k = 2 then 0 else - EAGAIN) = Some (Inr ([0, 2], 2))"
proof -
  let ?res = "\<lambda>k :: nat. if k = 0 then 0 else if k = 1 then - 24 else if k = 2 then 0 else - EAGAIN"
  have "\<forall>j<3. ?res j \<noteq> - EAGAIN" by (simp add: EAGAIN_def)
  then show ?thesis using processor_accept_drains [of ?res 3 1] by (simp add: upt_rec EAGAIN_def EINTR_def ECONNABORTED_def)
qed

lemma bind_retry_result:
  "bind_retry res n i r = (case find (\<lambda>j. res j = 0) [i ..< n] of Some j \<Rightarrow> (0, j + 1) | None \<Rightarrow> if i < n then (res (n - 1), n) else (r, i))"
proof (induction res n i r rule: bind_retry.induct)
  case (1 res n i r)
  show ?case
  proof (cases "i < n")
    case True
    then have upt: "[i ..< n] = i # [Suc i ..< n]" by (simp add: upt_conv_Cons)
    show ?thesis
      using True "1.IH" by (subst bind_retry.simps) (auto simp: upt split: option.splits dest: less_antisym)
  qed (simp add: bind_retry.simps)
qed

lemma choose_port_ok:
  assumes "addr_ok a" and "is_ip a" and "0 \<le> def_port" and "def_port < 65536"
  shows "\<exists>b. choose_port def_port a = Inr b \<and> get_port b = (if get_port a = 0 then def_port else get_port a)"
  using set_port_get_port [OF assms] by (auto simp: choose_port_def)

lemma processor_bind_ok:
  assumes "addr_ok a" and "is_ip a" and "0 \<le> def_port" and "def_port < 65536" and "k < n" and "res k = 0"
  shows "\<exists>b p'. processor_bind def_port a res n p = Inr (0, b, p') \<and> get_port b = (if get_port a = 0 then def_port else get_port a) \<and>
    has_listener p' \<and> is_started p' = is_started p"
proof -
  have "find (\<lambda>j. res j = 0) [0 ..< n] \<noteq> None" using assms(5,6) by (auto simp: find_None_iff)
  then show ?thesis using assms(5) choose_port_ok [OF assms(1-4)] by (auto simp: processor_bind_def bind_retry_result split: option.splits)
qed

text \<open>\<open>Processor::bind\<close> keeps trying: it succeeds exactly if one of the configured attempts does,
  on the configured port if the address has none. If all fail, it
  calls \<open>abort_accept\<close> on the listening socket, which no attempt has created, and dereferences null instead
  of returning the error.\<close>

theorem processor_bind_retries:
  assumes "addr_ok a" and "is_ip a" and "0 \<le> def_port" and "def_port < 65536" and "\<forall>i<n. res i \<le> 0" and "\<not> has_listener p"
  shows "(if \<exists>i<n. res i = 0 then \<exists>b p'. processor_bind def_port a res n p = Inr (0, b, p') \<and> has_listener p' \<and>
            get_port b = (if get_port a = 0 then def_port else get_port a)
          else processor_bind def_port a res n p = Inl NullDeref)"
proof (cases "\<exists>i<n. res i = 0")
  case True
  then obtain k where "k < n" "res k = 0" by blast
  then show ?thesis using processor_bind_ok [OF assms(1-4), of k n res p] True by auto
next
  case False
  then have none: "find (\<lambda>j. res j = 0) [0 ..< n] = None" by (auto simp: find_None_iff)
  have "0 < n \<Longrightarrow> res (n - 1) < 0" using assms(5) [rule_format, of "n - 1"] False [simplified, rule_format, of "n - 1"] by simp
  then show ?thesis using False none assms(6) choose_port_ok [OF assms(1-4)] by (auto simp: processor_bind_def bind_retry_result)
qed

definition any_addr :: entity_addr where
  "any_addr = set_family AF_INET (entity_addr_new TYPE_SERVER 0 (replicate 20 0))"

lemma any_addr_ok: "addr_ok any_addr" "is_ip any_addr"
  by (simp_all add: any_addr_def addr_ok_def is_ip_def set_family_def entity_addr_new_def get_family_def af_defs put_bytes_def get_bytes_def le16_def load_le16_def)

theorem processor_bind_retries_witness:
  "processor_bind 30000 any_addr (\<lambda>_. - 98) 3 \<lparr>has_listener = False, is_started = False, p_watched = False\<rparr> = Inl NullDeref"
  using processor_bind_retries [OF any_addr_ok, of 30000 3 "\<lambda>_. - 98" "\<lparr>has_listener = False, is_started = False, p_watched = False\<rparr>"] by simp

fun server_binds :: "int \<Rightarrow> entity_addr \<Rightarrow> (nat \<Rightarrow> int) list \<Rightarrow> nat \<Rightarrow> server \<Rightarrow> (int list \<times> server) result" where
  "server_binds dp a [] n s = Inr ([], s)"
| "server_binds dp a (res # rs) n s = rbind (server_bind True dp a res n s) (\<lambda>(r, s'). rbind (server_binds dp a rs n s') (\<lambda>(out, s''). Inr (r # out, s'')))"

definition running :: "server \<Rightarrow> nat list" where
  "running s = filter (\<lambda>i. is_started (sv_processors s ! i)) [0 ..< length (sv_processors s)]"

lemma scast_small:
  assumes "unat c < 2 ^ 31"
  shows "unat (scast (c :: 32 word) :: u64) = unat c"
proof -
  have c: "c = of_nat (unat c)" by simp
  have "sint c = int (unat c)" using assms by (subst c) (simp only: signed_of_nat, simp add: signed_take_bit_int_eq_self uint_nat del: of_nat_unat)
  then have "(scast c :: u64) = of_nat (unat c)" by (metis of_int_of_nat_eq of_int_sint)
  then show ?thesis using assms by (simp add: unat_of_nat)
qed

lemma server_bind_step:
  assumes "\<not> lock_held s" and "i < length (sv_processors s)" and "unat (conn_count s) = i" and "i < 2 ^ 31" and "\<not> is_started (sv_processors s ! i)"
    and "k < n" and "res k = 0" and "addr_ok a" and "is_ip a" and "0 \<le> dp" and "dp < 65536"
  shows "\<exists>p'. server_bind True dp a res n s = Inr (0, s\<lparr>sv_processors := (sv_processors s)[i := p'], conn_count := conn_count s + 1\<rparr>) \<and> is_started p' \<and> p_watched p'"
proof -
  have "unat (scast (conn_count s) :: u64) mod length (sv_processors s) = i" using assms(2-4) scast_small [of "conn_count s"] by simp
  moreover have "sv_processors s \<noteq> []" using assms(2) by auto
  ultimately show ?thesis
    using assms(1,2,5) processor_bind_ok [of a dp k n res "sv_processors s ! i", OF assms(8-11,6,7)]
    by (auto simp: server_bind_def Let_def processor_start_def)
qed

lemma server_binds_progress:
  assumes "\<not> lock_held s" and "unat (conn_count s) = i" and "i + length rs \<le> length (sv_processors s)" and "length (sv_processors s) < 2 ^ 31"
    and "\<forall>j. i \<le> j \<and> j < length (sv_processors s) \<longrightarrow> \<not> is_started (sv_processors s ! j)" and "\<forall>j<i. is_started (sv_processors s ! j) \<and> p_watched (sv_processors s ! j)"
    and "list_all (\<lambda>res. \<exists>k<n. res k = 0) rs" and addr: "addr_ok a" "is_ip a" "0 \<le> dp" "dp < 65536"
  shows "\<exists>s'. server_binds dp a rs n s = Inr (replicate (length rs) 0, s') \<and> length (sv_processors s') = length (sv_processors s) \<and> \<not> lock_held s' \<and>
    unat (conn_count s') = i + length rs \<and> (\<forall>j<i + length rs. is_started (sv_processors s' ! j) \<and> p_watched (sv_processors s' ! j)) \<and>
    (\<forall>j. i + length rs \<le> j \<and> j < length (sv_processors s) \<longrightarrow> \<not> is_started (sv_processors s' ! j))"
  using assms(1-7)
proof (induction rs arbitrary: s i)
  case Nil
  then show ?case by auto
next
  case (Cons res rs)
  obtain k where k: "k < n" "res k = 0" using Cons.prems(7) by auto
  have i: "i < length (sv_processors s)" "i < 2 ^ 31" using Cons.prems(3,4) by auto
  obtain p' where st: "server_bind True dp a res n s = Inr (0, s\<lparr>sv_processors := (sv_processors s)[i := p'], conn_count := conn_count s + 1\<rparr>)" "is_started p'" "p_watched p'"
    using server_bind_step [of s i k n res a dp, OF Cons.prems(1) i(1) Cons.prems(2) i(2) _ k addr] Cons.prems(5) i(1) by auto
  let ?s = "s\<lparr>sv_processors := (sv_processors s)[i := p'], conn_count := conn_count s + 1\<rparr>"
  have cnt: "unat (conn_count ?s) = Suc i" using Cons.prems(2) i(2) by (simp add: unat_add_no_overflow)
  have "\<exists>s'. server_binds dp a rs n ?s = Inr (replicate (length rs) 0, s') \<and> length (sv_processors s') = length (sv_processors ?s) \<and> \<not> lock_held s' \<and>
    unat (conn_count s') = Suc i + length rs \<and> (\<forall>j<Suc i + length rs. is_started (sv_processors s' ! j) \<and> p_watched (sv_processors s' ! j)) \<and>
    (\<forall>j. Suc i + length rs \<le> j \<and> j < length (sv_processors ?s) \<longrightarrow> \<not> is_started (sv_processors s' ! j))"
    using Cons.prems st(2,3) i(1) by (intro Cons.IH cnt) (auto simp: nth_list_update)
  then show ?case using st(1) by auto
qed

text \<open>\<open>Server::bind\<close> uses the processors in turn: on a fresh server with as many processors as binds, every bind
  (of which at least one attempt succeeds) returns 0 and starts one more processor, watching its socket, each exactly once;
  the next bind finds its processor running and returns \<open>-EBUSY\<close>.\<close>

theorem server_bind_round_robin:
  assumes "\<not> lock_held s" and "conn_count s = 0" and "length rs = length (sv_processors s)" and "length (sv_processors s) < 2 ^ 31" and "rs \<noteq> []"
    and "list_all (\<lambda>p. \<not> is_started p) (sv_processors s)" and "list_all (\<lambda>res. \<exists>k<n. res k = 0) rs"
    and "addr_ok a" and "is_ip a" and "0 \<le> dp" and "dp < 65536"
  shows "\<exists>s'. server_binds dp a rs n s = Inr (replicate (length rs) 0, s') \<and> list_all (\<lambda>p. is_started p \<and> p_watched p) (sv_processors s') \<and>
    server_bind True dp a res' n s' = Inr (- EBUSY, s')"
proof -
  obtain s' where s': "server_binds dp a rs n s = Inr (replicate (length rs) 0, s')" "length (sv_processors s') = length rs" "\<not> lock_held s'"
    "unat (conn_count s') = length rs" "\<forall>j<length rs. is_started (sv_processors s' ! j) \<and> p_watched (sv_processors s' ! j)"
    using server_binds_progress [of s 0 rs n a dp] assms by (auto simp: list_all_length)
  have "unat (scast (conn_count s') :: u64) mod length rs = 0" using s'(4) assms(3,4) scast_small [of "conn_count s'"] by simp
  then have "server_bind True dp a res' n s' = Inr (- EBUSY, s')"
    using s' assms(5) by (auto simp: server_bind_def Let_def)
  with s' show ?thesis by (auto simp: list_all_length)
qed

theorem server_bind_round_robin_witness:
  "\<exists>s'. server_binds 30000 any_addr [\<lambda>_. 0, \<lambda>i. if i = 1 then 0 else - 98] 3
      \<lparr>sv_processors = [\<lparr>has_listener = False, is_started = False, p_watched = False\<rparr>, \<lparr>has_listener = False, is_started = False, p_watched = False\<rparr>], conn_count = 0, lock_held = False\<rparr> = Inr ([0, 0], s') \<and>
    server_bind True 30000 any_addr (\<lambda>_. 0) 3 s' = Inr (- EBUSY, s')"
proof -
  let ?s = "\<lparr>sv_processors = [\<lparr>has_listener = False, is_started = False, p_watched = False\<rparr>, \<lparr>has_listener = False, is_started = False, p_watched = False\<rparr>], conn_count = 0, lock_held = False\<rparr>"
  let ?rs = "[\<lambda>_ :: nat. 0 :: int, \<lambda>i. if i = 1 then 0 else - 98]"
  have "\<exists>k<3. (if k = (1 :: nat) then 0 else - 98) = (0 :: int)" by (intro exI [of _ "1 :: nat"]) simp
  moreover have "\<exists>k<3 :: nat. True" by (intro exI [of _ "1 :: nat"]) simp
  ultimately have a: "list_all (\<lambda>res. \<exists>k<3. res k = 0) ?rs" by simp
  have two: "replicate (length ?rs) (0 :: int) = [0, 0]" by (simp add: numeral_2_eq_2)
  obtain s' where "server_binds 30000 any_addr ?rs 3 ?s = Inr (replicate (length ?rs) 0, s')" "server_bind True 30000 any_addr (\<lambda>_. 0) 3 s' = Inr (- EBUSY, s')"
    using server_bind_round_robin [of ?s ?rs 3 any_addr 30000 "\<lambda>_. 0", OF _ _ _ _ _ _ a any_addr_ok] by (auto simp del: server_binds.simps)
  then show ?thesis unfolding two by blast
qed

text \<open>\<open>Server::bind\<close> on a stack that is not ready returns 0 without binding and with its lock held, so that the next
  call never returns.\<close>

theorem server_bind_not_ready:
  assumes "\<not> lock_held s"
  shows "\<exists>s'. server_bind False dp a res n s = Inr (0, s') \<and> sv_processors s' = sv_processors s \<and> server_bind ready dp' a' res' n' s' = Inl Deadlock"
  using assms by (simp add: server_bind_def)

end
