(* ===== verification/OStream.thy ===== *)
theory OStream
  imports HexFormat
begin

text \<open>
  The part of \<open>std::ostream\<close> that the formatting code under \<open>src/common\<close> uses: a stream
  holds the characters written so far and the format state (number base, adjustment, \<open>showbase\<close>
  and \<open>uppercase\<close> flags, fill character and field width). Every formatted insertion pads to the width
  and resets it to 0. \<open>std::stringstream\<close> adds \<open>str ()\<close> and \<open>str (s)\<close>.
\<close>

section \<open>Decimal printing\<close>

definition dec_digit :: "nat \<Rightarrow> char" where
  "dec_digit d = char_of (48 + d)"

fun dec :: "nat \<Rightarrow> string" where
  "dec n = (if n < 10 then [dec_digit n] else dec (n div 10) @ [dec_digit (n mod 10)])"

declare dec.simps [simp del]

definition dec_val :: "string \<Rightarrow> nat" where
  "dec_val s = foldl (\<lambda>acc c. 10 * acc + (of_char c - 48)) 0 s"

definition isdigit :: "char \<Rightarrow> bool" where
  "isdigit c \<longleftrightarrow> (let n = of_char c :: nat in 48 \<le> n \<and> n \<le> 57)"

lemma dec_digit_char [simp]: "d < 10 \<Longrightarrow> of_char (dec_digit d) = 48 + d"
  by (simp add: dec_digit_def)

lemma isdigit_dec_digit [simp]: "d < 10 \<Longrightarrow> isdigit (dec_digit d)"
  by (simp add: isdigit_def)

lemma dec_nonempty [simp]: "dec n \<noteq> []"
  by (subst dec.simps) simp

lemma dec_isdigit: "\<forall>c \<in> set (dec n). isdigit c"
proof (induction n rule: dec.induct)
  case (1 n)
  then show ?case by (subst dec.simps) auto
qed

lemma dec_val_snoc: "dec_val (s @ [c]) = 10 * dec_val s + (of_char c - 48)"
  by (simp add: dec_val_def)

lemma dec_val_dec [simp]: "dec_val (dec n) = n"
proof (induction n rule: dec.induct)
  case (1 n)
  show ?case
  proof (cases "n < 10")
    case True
    then show ?thesis by (subst dec.simps) (simp add: dec_val_def)
  next
    case False
    then have "dec n = dec (n div 10) @ [dec_digit (n mod 10)]"
      by (subst dec.simps) simp
    with 1 False show ?thesis by (simp add: dec_val_snoc)
  qed
qed

lemma dec_val_zeros: "dec_val (replicate k (CHR ''0'') @ s) = dec_val s"
  by (induction k) (simp_all add: dec_val_def)

lemma dec_inject [simp]: "dec m = dec n \<longleftrightarrow> m = n"
  by (metis dec_val_dec)

section \<open>Streams\<close>

datatype basefield = BDec | BHex

datatype adjustfield = ALeft | AInternal | ARight

record ostream =
  os_data :: string
  os_base :: basefield
  os_adjust :: adjustfield
  os_showbase :: bool
  os_upper :: bool
  os_fill :: char
  os_width :: nat

text \<open>A stream as it is constructed. Its default adjustment pads on the left, as \<open>std::ios::right\<close> does.\<close>

definition ostream_new :: ostream where
  "ostream_new = \<lparr>os_data = [], os_base = BDec, os_adjust = ARight, os_showbase = False,
     os_upper = False, os_fill = CHR '' '', os_width = 0\<rparr>"

definition pad_out :: "ostream \<Rightarrow> string \<Rightarrow> string \<Rightarrow> string" where
  "pad_out os pre body =
     (let gap = replicate (os_width os - length (pre @ body)) (os_fill os)
      in case os_adjust os of
           ALeft \<Rightarrow> pre @ body @ gap
         | AInternal \<Rightarrow> pre @ gap @ body
         | ARight \<Rightarrow> gap @ pre @ body)"

definition put_raw :: "ostream \<Rightarrow> string \<Rightarrow> string \<Rightarrow> ostream" where
  "put_raw os pre body = os\<lparr>os_data := os_data os @ pad_out os pre body, os_width := 0\<rparr>"

definition put_str :: "ostream \<Rightarrow> string \<Rightarrow> ostream" where
  "put_str os s = put_raw os [] s"

definition put_char :: "ostream \<Rightarrow> char \<Rightarrow> ostream" where
  "put_char os c = put_raw os [] [c]"

definition to_upper :: "char \<Rightarrow> char" where
  "to_upper c = (let n = of_char c :: nat in if 97 \<le> n \<and> n \<le> 122 then char_of (n - 32) else c)"

definition put_uint :: "ostream \<Rightarrow> nat \<Rightarrow> ostream" where
  "put_uint os n =
     (let body = (case os_base os of BDec \<Rightarrow> dec n | BHex \<Rightarrow> hex n);
          pre = (if os_showbase os \<and> os_base os = BHex \<and> n \<noteq> 0 then ''0x'' else []);
          up = (if os_upper os then map to_upper else id)
      in put_raw os (up pre) (up body))"

text \<open>A signed number with a decimal base: the sign belongs to the prefix.\<close>

definition put_int :: "ostream \<Rightarrow> int \<Rightarrow> ostream" where
  "put_int os n = put_raw os (if n < 0 then ''-'' else []) (dec (nat \<bar>n\<bar>))"

definition setw :: "nat \<Rightarrow> ostream \<Rightarrow> ostream" where
  "setw n os = os\<lparr>os_width := n\<rparr>"

definition set_fill :: "char \<Rightarrow> ostream \<Rightarrow> ostream" where
  "set_fill c os = os\<lparr>os_fill := c\<rparr>"

text \<open>\<open>str (s)\<close> replaces the contents; the format state stays.\<close>

definition set_str :: "string \<Rightarrow> ostream \<Rightarrow> ostream" where
  "set_str s os = os\<lparr>os_data := s\<rparr>"

text \<open>The streams the code prints numbers on: decimal base, no field width pending.\<close>

definition plain :: "ostream \<Rightarrow> bool" where
  "plain os \<longleftrightarrow> os_base os = BDec \<and> os_width os = 0 \<and> \<not> os_showbase os \<and> \<not> os_upper os
     \<and> os_adjust os \<noteq> ALeft"

named_theorems stream_simps \<open>insertions into a plain stream\<close>

lemma plain_new [simp]: "plain ostream_new"
  by (simp add: plain_def ostream_new_def)

lemma put_str_plain [stream_simps]:
  "os_width os = 0 \<Longrightarrow> put_str os s = os\<lparr>os_data := os_data os @ s\<rparr>"
  by (simp add: put_str_def put_raw_def pad_out_def split: adjustfield.split)

lemma put_char_plain [stream_simps]:
  "os_width os = 0 \<Longrightarrow> put_char os c = os\<lparr>os_data := os_data os @ [c]\<rparr>"
  by (simp add: put_char_def put_raw_def pad_out_def split: adjustfield.split)

lemma put_uint_plain [stream_simps]:
  "plain os \<Longrightarrow> put_uint os n = os\<lparr>os_data := os_data os @ dec n\<rparr>"
  by (simp add: put_uint_def plain_def put_raw_def pad_out_def Let_def split: adjustfield.split)

lemma put_int_plain [stream_simps]:
  "plain os \<Longrightarrow> put_int os n = os\<lparr>os_data := os_data os @ (if n < 0 then ''-'' else []) @ dec (nat \<bar>n\<bar>)\<rparr>"
  by (simp add: put_int_def plain_def put_raw_def pad_out_def split: adjustfield.split)

lemma plain_data [simp]: "plain (os\<lparr>os_data := s\<rparr>) = plain os"
  by (simp add: plain_def)

lemma plain_width: "plain os \<Longrightarrow> os_width os = 0"
  by (simp add: plain_def)

text \<open>A number printed with a width and the fill character 0, the way times and fixed-point numbers
  are printed.\<close>

definition dec_pad :: "nat \<Rightarrow> nat \<Rightarrow> string" where
  "dec_pad w n = replicate (w - length (dec n)) (CHR ''0'') @ dec n"

lemma put_uint_setw [stream_simps]:
  "plain os \<Longrightarrow> os_fill os = CHR ''0'' \<Longrightarrow> put_uint (setw w os) n = os\<lparr>os_data := os_data os @ dec_pad w n\<rparr>"
  by (simp add: put_uint_def plain_def put_raw_def pad_out_def setw_def dec_pad_def Let_def split: adjustfield.split)

lemma dec_val_dec_pad [simp]: "dec_val (dec_pad w n) = n"
  by (simp add: dec_pad_def dec_val_zeros)

lemma length_dec: "0 < k \<Longrightarrow> n < 10 ^ k \<Longrightarrow> length (dec n) \<le> k"
proof (induction k arbitrary: n)
  case (Suc k)
  show ?case
  proof (cases "n < 10")
    case True
    then show ?thesis by (subst dec.simps) simp
  next
    case False
    with Suc.prems have "k \<noteq> 0" by (cases k) auto
    with Suc.IH [of "n div 10"] Suc.prems have "length (dec (n div 10)) \<le> k" by simp
    with False show ?thesis by (subst dec.simps) simp
  qed
qed simp

lemma length_dec_pad: "0 < w \<Longrightarrow> n < 10 ^ w \<Longrightarrow> length (dec_pad w n) = w"
  using length_dec [of w n] by (simp add: dec_pad_def)

lemma dec_0: "dec 0 = ''0''"
  by (simp add: dec.simps dec_digit_def) code_simp

lemma dec_pad_snoc:
  assumes "0 < k"
  shows "dec_pad (Suc k) m = dec_pad k (m div 10) @ [dec_digit (m mod 10)]"
proof (cases "m < 10")
  case True
  from assms obtain j where "k = Suc j" by (cases k) auto
  with True show ?thesis
    by (simp add: dec_pad_def dec_0 replicate_append_same dec.simps [of m])
next
  case False
  then show ?thesis by (simp add: dec_pad_def dec.simps [of m])
qed

text \<open>The lowest \<open>k\<close> digits of a number.\<close>

lemma dec_split:
  assumes "10 ^ Suc k \<le> n"
  shows "dec n = dec (n div 10 ^ Suc k) @ dec_pad (Suc k) (n mod 10 ^ Suc k)"
  using assms
proof (induction k arbitrary: n)
  case 0
  then show ?case by (simp add: dec.simps [of n] dec_pad_def dec.simps [of "n mod 10"])
next
  case (Suc k)
  from Suc.prems have "10 ^ Suc k \<le> n div 10" by simp
  note ih = Suc.IH [OF this]
  have "n mod 10 ^ Suc (Suc k) = 10 * (n div 10 mod 10 ^ Suc k) + n mod 10"
    using mod_mult2_eq [of n 10 "10 ^ Suc k"] by simp
  then have "n mod 10 ^ Suc (Suc k) div 10 = n div 10 mod 10 ^ Suc k" "n mod 10 ^ Suc (Suc k) mod 10 = n mod 10"
    by simp_all
  moreover have "\<not> n < 10"
    using Suc.prems self_le_power [of "10 :: nat" "Suc (Suc k)"] by linarith
  moreover have "n div 10 ^ Suc (Suc k) = n div 10 div 10 ^ Suc k"
    by (simp only: power_Suc div_mult2_eq)
  ultimately show ?case using ih
    by (simp add: dec_pad_snoc [of "Suc k"] dec.simps [of n] del: power_Suc)
qed

text \<open>A number printed at a width of one more than \<open>k\<close> is its integral part and \<open>k\<close> more digits.\<close>

lemma dec_pad_fixed:
  assumes "0 < k"
  shows "dec_pad (k + 1) n = dec (n div 10 ^ k) @ dec_pad k (n mod 10 ^ k)"
proof (cases "n < 10 ^ k")
  case True
  from assms True have "length (dec n) \<le> k" by (rule length_dec)
  with True show ?thesis by (simp add: dec_pad_def dec_0 Suc_diff_le)
next
  case False
  from assms obtain j where k: "k = Suc j" by (cases k) auto
  from False have "dec n = dec (n div 10 ^ k) @ dec_pad k (n mod 10 ^ k)"
    using dec_split [of j n] by (simp add: k)
  moreover have "length (dec_pad k (n mod 10 ^ k)) = k"
    using assms by (intro length_dec_pad) simp_all
  moreover have "0 < length (dec (n div 10 ^ k))" by simp
  ultimately have "length (dec n) = length (dec (n div 10 ^ k)) + k" and "k + 1 \<le> length (dec n)"
    by (simp_all del: length_greater_0_conv)
  then have "dec_pad (k + 1) n = dec n" by (simp add: dec_pad_def)
  then show ?thesis
    using \<open>dec n = dec (n div 10 ^ k) @ dec_pad k (n mod 10 ^ k)\<close> by simp
qed

end
