(* ===== verification/Escape.thy ===== *)
theory Escape
  imports OStream
begin

text \<open>
  \<open>src/common/escape.cc\<close>: escaping of XML and JSON text, each in three versions: the length the
  escaped text needs, the text written to a caller's buffer, and the text written to a stream. The
  locale \<open>escaper\<close> states what the three have in common per character; its lemmas show that
  the length is exact, that the buffer version stays inside a buffer of that length and that it
  writes what the stream version writes. It is interpreted for XML and for JSON. The reference
  decoders show that escaping loses nothing.
\<close>

section \<open>The buffer\<close>

text \<open>Bytes written at position \<open>o\<close> of a caller's buffer.\<close>

definition write_at :: "string \<Rightarrow> nat \<Rightarrow> string \<Rightarrow> string result" where
  "write_at out pos s =
     (if pos + length s \<le> length out then Inr (take pos out @ s @ drop (pos + length s) out)
      else Inl BufferOverflow)"

text \<open>\<open>memcpy (o, s, len)\<close> followed by \<open>o += len\<close>.\<close>

definition put_bytes_at :: "string \<times> nat \<Rightarrow> string \<Rightarrow> (string \<times> nat) result" where
  "put_bytes_at st s = (case st of (out, pos) \<Rightarrow> rbind (write_at out pos s) (\<lambda>out'. Inr (out', pos + length s)))"

text \<open>\<open>snprintf (o, 7, ...)\<close> writes six characters and a terminator; the cursor moves by six.\<close>

definition put_printf_at :: "string \<times> nat \<Rightarrow> string \<Rightarrow> (string \<times> nat) result" where
  "put_printf_at st s = (case st of (out, pos) \<Rightarrow>
     rbind (write_at out pos (take 6 s @ [CHR 0x00])) (\<lambda>out'. Inr (out', pos + 6)))"

section \<open>XML\<close>

definition xml_control :: "char \<Rightarrow> bool" where
  "xml_control c \<longleftrightarrow> (let n = of_char c :: nat in (n < 32 \<and> n \<noteq> 9 \<and> n \<noteq> 10) \<or> n = 127)"

definition xml_char_len :: "char \<Rightarrow> u64" where
  "xml_char_len c =
     (if c = CHR ''<'' then 4
      else if c = CHR ''&'' then 5
      else if c = CHR ''>'' then 4
      else if c = CHR 0x27 then 6
      else if c = CHR 0x22 then 6
      else if xml_control c then 6 else 1)"

fun xml_len_loop :: "string \<Rightarrow> u64 \<Rightarrow> u64 result" where
  "xml_len_loop [] ret = Inl OutOfBounds"
| "xml_len_loop (b # bs) ret = (if b = CHR 0x00 then Inr (ret + 1) else xml_len_loop bs (ret + xml_char_len b))"

definition escape_xml_attr_len :: "string \<Rightarrow> u64 result" where
  "escape_xml_attr_len buf = xml_len_loop buf 0"

definition xml_char_put :: "string \<times> nat \<Rightarrow> char \<Rightarrow> (string \<times> nat) result" where
  "xml_char_put st c =
     (if c = CHR ''<'' then put_bytes_at st ''&lt;''
      else if c = CHR ''&'' then put_bytes_at st ''&amp;''
      else if c = CHR ''>'' then put_bytes_at st ''&gt;''
      else if c = CHR 0x27 then put_bytes_at st ''&apos;''
      else if c = CHR 0x22 then put_bytes_at st ''&quot;''
      else if xml_control c then put_printf_at st (''&#x'' @ hex_pad 2 (of_char c) @ '';'')
      else put_bytes_at st [c])"

fun xml_put_loop :: "string \<Rightarrow> string \<times> nat \<Rightarrow> string result" where
  "xml_put_loop [] st = Inl OutOfBounds"
| "xml_put_loop (b # bs) st =
     (if b = CHR 0x00 then write_at (fst st) (snd st) [CHR 0x00]
      else rbind (xml_char_put st b) (xml_put_loop bs))"

definition escape_xml_attr :: "string \<Rightarrow> string \<Rightarrow> string result" where
  "escape_xml_attr buf out = xml_put_loop buf (out, 0)"

section \<open>The stream versions\<close>

text \<open>\<open>hex_formatter\<close>: the constructor sets the fill character and the base and remembers the old
  ones; the destructor restores them. The optional formatter of the two operators is built at the
  first control character.\<close>

type_synonym old_format = "(char \<times> basefield) option"

definition hex_formatter :: "ostream \<times> old_format \<Rightarrow> ostream \<times> old_format" where
  "hex_formatter s = (case s of (os, fmt) \<Rightarrow>
     (case fmt of None \<Rightarrow> (os\<lparr>os_fill := CHR ''0'', os_base := BHex\<rparr>, Some (os_fill os, os_base os))
                | Some f \<Rightarrow> (os, fmt)))"

definition hex_formatter_destroy :: "ostream \<times> old_format \<Rightarrow> ostream" where
  "hex_formatter_destroy s = (case s of (os, fmt) \<Rightarrow>
     (case fmt of None \<Rightarrow> os | Some (f, b) \<Rightarrow> os\<lparr>os_fill := f, os_base := b\<rparr>))"

definition emit_str :: "ostream \<times> old_format \<Rightarrow> string \<Rightarrow> ostream \<times> old_format" where
  "emit_str s t = (put_str (fst s) t, snd s)"

definition xml_char_emit :: "ostream \<times> old_format \<Rightarrow> char \<Rightarrow> ostream \<times> old_format" where
  "xml_char_emit s c =
     (if c = CHR ''<'' then emit_str s ''&lt;''
      else if c = CHR ''&'' then emit_str s ''&amp;''
      else if c = CHR ''>'' then emit_str s ''&gt;''
      else if c = CHR 0x27 then emit_str s ''&apos;''
      else if c = CHR 0x22 then emit_str s ''&quot;''
      else if xml_control c then
        (let s1 = hex_formatter s
         in (put_char (put_uint (setw 2 (put_str (fst s1) ''&#x'')) (of_char c)) (CHR '';''), snd s1))
      else (put_char (fst s) c, snd s))"

definition xml_stream_escaper :: "ostream \<Rightarrow> string \<Rightarrow> ostream" where
  "xml_stream_escaper os str = hex_formatter_destroy (foldl xml_char_emit (os, None) str)"

section \<open>JSON\<close>

definition json_control :: "char \<Rightarrow> bool" where
  "json_control c \<longleftrightarrow> (let n = of_char c :: nat in n < 32 \<or> n = 127)"

definition json_char_len :: "char \<Rightarrow> u64" where
  "json_char_len c =
     (if c = CHR 0x22 then 2
      else if c = CHR 0x5C then 2
      else if c = CHR 0x09 then 2
      else if c = CHR 0x0A then 2
      else if json_control c then 6 else 1)"

fun json_len_loop :: "string \<Rightarrow> nat \<Rightarrow> u64 \<Rightarrow> u64 result" where
  "json_len_loop buf 0 ret = Inr (ret + 1)"
| "json_len_loop [] (Suc n) ret = Inl OutOfBounds"
| "json_len_loop (b # bs) (Suc n) ret = json_len_loop bs n (ret + json_char_len b)"

definition escape_json_attr_len :: "string \<Rightarrow> u64 \<Rightarrow> u64 result" where
  "escape_json_attr_len buf src_len = json_len_loop buf (unat src_len) 0"

definition json_char_put :: "string \<times> nat \<Rightarrow> char \<Rightarrow> (string \<times> nat) result" where
  "json_char_put st c =
     (if c = CHR 0x22 then put_bytes_at st [CHR 0x5C, CHR 0x22]
      else if c = CHR 0x5C then put_bytes_at st [CHR 0x5C, CHR 0x5C]
      else if c = CHR 0x09 then put_bytes_at st [CHR 0x5C, CHR ''t'']
      else if c = CHR 0x0A then put_bytes_at st [CHR 0x5C, CHR ''n'']
      else if json_control c then put_printf_at st ([CHR 0x5C, CHR ''u''] @ hex_pad 4 (of_char c))
      else put_bytes_at st [c])"

fun json_put_loop :: "string \<Rightarrow> nat \<Rightarrow> string \<times> nat \<Rightarrow> string result" where
  "json_put_loop buf 0 st = write_at (fst st) (snd st) [CHR 0x00]"
| "json_put_loop [] (Suc n) st = Inl OutOfBounds"
| "json_put_loop (b # bs) (Suc n) st = rbind (json_char_put st b) (json_put_loop bs n)"

definition escape_json_attr :: "string \<Rightarrow> u64 \<Rightarrow> string \<Rightarrow> string result" where
  "escape_json_attr buf src_len out = json_put_loop buf (unat src_len) (out, 0)"

definition json_char_emit :: "ostream \<times> old_format \<Rightarrow> char \<Rightarrow> ostream \<times> old_format" where
  "json_char_emit s c =
     (if c = CHR 0x22 then emit_str s [CHR 0x5C, CHR 0x22]
      else if c = CHR 0x5C then emit_str s [CHR 0x5C, CHR 0x5C]
      else if c = CHR 0x09 then emit_str s [CHR 0x5C, CHR ''t'']
      else if c = CHR 0x0A then emit_str s [CHR 0x5C, CHR ''n'']
      else if json_control c then
        (let s1 = hex_formatter s
         in (put_uint (setw 4 (put_str (fst s1) [CHR 0x5C, CHR ''u''])) (of_char c), snd s1))
      else (put_char (fst s) c, snd s))"

definition json_stream_escaper :: "ostream \<Rightarrow> string \<Rightarrow> ostream" where
  "json_stream_escaper os str = hex_formatter_destroy (foldl json_char_emit (os, None) str)"

section \<open>What the three versions have in common\<close>

text \<open>The format state while an escaper runs: the stream's own, or the hexadecimal one.\<close>

definition fmt_state :: "ostream \<Rightarrow> ostream \<times> old_format \<Rightarrow> bool" where
  "fmt_state os s \<longleftrightarrow> (\<exists>d. s = (os\<lparr>os_data := d\<rparr>, None)
      \<or> s = (os\<lparr>os_fill := CHR ''0'', os_base := BHex, os_data := d\<rparr>, Some (os_fill os, os_base os)))"

text \<open>The streams an escaper writes what the buffer version writes to: no pending width, and neither
  left adjustment, \<open>showbase\<close> nor \<open>uppercase\<close>.\<close>

definition escapable :: "ostream \<Rightarrow> bool" where
  "escapable os \<longleftrightarrow> os_width os = 0 \<and> \<not> os_showbase os \<and> \<not> os_upper os \<and> os_adjust os \<noteq> ALeft"

locale escaper =
  fixes esc :: "char \<Rightarrow> string"
    and char_len :: "char \<Rightarrow> u64"
    and char_put :: "string \<times> nat \<Rightarrow> char \<Rightarrow> (string \<times> nat) result"
    and char_emit :: "ostream \<times> old_format \<Rightarrow> char \<Rightarrow> ostream \<times> old_format"
  assumes char_len: "char_len c = of_nat (length (esc c))"
    and esc_bound: "0 < length (esc c) \<and> length (esc c) \<le> 6"
    and char_put: "pos + length (esc c) < length out \<Longrightarrow>
        \<exists>junk. char_put (out, pos) c = Inr (take pos out @ esc c @ junk, pos + length (esc c))
          \<and> length (take pos out @ esc c @ junk) = length out"
    and char_emit: "escapable os \<Longrightarrow> fmt_state os s \<Longrightarrow>
        fmt_state os (char_emit s c) \<and> os_data (fst (char_emit s c)) = os_data (fst s) @ esc c"
begin

definition esc_all :: "string \<Rightarrow> string" where
  "esc_all s = concat (map esc s)"

lemma esc_all_simps [simp]: "esc_all [] = []" "esc_all (c # cs) = esc c @ esc_all cs"
  by (simp_all add: esc_all_def)

lemma length_esc_all: "length (esc_all s) \<le> 6 * length s"
proof (induction s)
  case (Cons c s)
  then show ?case using esc_bound [of c] by simp
qed simp

lemma len_sum: "foldl (\<lambda>r c. r + char_len c) r s = r + of_nat (length (esc_all s))"
  by (induction s arbitrary: r) (simp_all add: char_len add.assoc)

lemma put_all:
  assumes "pos + length (esc_all s) < length out"
  shows "\<exists>junk. foldl (\<lambda>r c. rbind r (\<lambda>st. char_put st c)) (Inr (out, pos)) s
      = Inr (take pos out @ esc_all s @ junk, pos + length (esc_all s))
    \<and> length (take pos out @ esc_all s @ junk) = length out"
  using assms
proof (induction s arbitrary: out pos)
  case Nil
  then show ?case by (intro exI [of _ "drop pos out"]) simp
next
  case (Cons c s)
  then obtain junk where put: "char_put (out, pos) c = Inr (take pos out @ esc c @ junk, pos + length (esc c))"
    and len: "length (take pos out @ esc c @ junk) = length out"
    using char_put [of pos c out] by auto
  have pos: "take (pos + length (esc c)) (take pos out @ esc c @ junk) = take pos out @ esc c"
    using Cons.prems by simp
  have "pos + length (esc c) + length (esc_all s) < length (take pos out @ esc c @ junk)"
    using Cons.prems len by simp
  from Cons.IH [OF this] show ?case by (simp only: foldl_Cons rbind_simps put pos len) (simp add: add.assoc)
qed

lemma emit_all:
  assumes "escapable os" "fmt_state os s"
  shows "fmt_state os (foldl char_emit s t) \<and> os_data (fst (foldl char_emit s t)) = os_data (fst s) @ esc_all t"
  using assms(2)
proof (induction t arbitrary: s)
  case (Cons c t)
  from char_emit [OF assms(1) Cons.prems] Cons.IH [of "char_emit s c"] show ?case by simp
qed simp

lemma destroy_all:
  assumes "escapable os"
  shows "hex_formatter_destroy (foldl char_emit (os, None) t) = os\<lparr>os_data := os_data os @ esc_all t\<rparr>"
proof -
  have "fmt_state os (os, None)" by (auto simp: fmt_state_def intro: exI [of _ "os_data os"])
  from emit_all [OF assms this, of t]
  show ?thesis by (auto simp: fmt_state_def hex_formatter_destroy_def)
qed

end

section \<open>XML and JSON as escapers\<close>

text \<open>What each character becomes.\<close>

definition xml_esc :: "char \<Rightarrow> string" where
  "xml_esc c =
     (if c = CHR ''<'' then ''&lt;'' else if c = CHR ''&'' then ''&amp;'' else if c = CHR ''>'' then ''&gt;''
      else if c = CHR 0x27 then ''&apos;'' else if c = CHR 0x22 then ''&quot;''
      else if xml_control c then ''&#x'' @ hex_pad 2 (of_char c) @ '';'' else [c])"

definition json_esc :: "char \<Rightarrow> string" where
  "json_esc c =
     (if c = CHR 0x22 then [CHR 0x5C, CHR 0x22] else if c = CHR 0x5C then [CHR 0x5C, CHR 0x5C]
      else if c = CHR 0x09 then [CHR 0x5C, CHR ''t''] else if c = CHR 0x0A then [CHR 0x5C, CHR ''n'']
      else if json_control c then [CHR 0x5C, CHR ''u''] @ hex_pad 4 (of_char c) else [c])"

lemma of_char_less [simp]: "(of_char c :: nat) < 256"
  using nat_of_char_less_256 [of c] by simp

lemma length_hex_pad_char [simp]:
  "length (hex_pad 2 (of_char (c :: char))) = 2" "length (hex_pad 4 (of_char (c :: char))) = 4"
  using of_char_less [of c] by (auto intro!: length_hex_pad order.strict_trans2 [OF of_char_less])

lemma put_bytes_at_ok:
  assumes "pos + length s < length out"
  shows "\<exists>junk. put_bytes_at (out, pos) s = Inr (take pos out @ s @ junk, pos + length s)
    \<and> length (take pos out @ s @ junk) = length out"
  using assms by (intro exI [of _ "drop (pos + length s) out"]) (simp add: put_bytes_at_def write_at_def)

lemma put_printf_at_ok:
  assumes "length s = 6" "pos + length s < length out"
  shows "\<exists>junk. put_printf_at (out, pos) s = Inr (take pos out @ s @ junk, pos + length s)
    \<and> length (take pos out @ s @ junk) = length out"
  using assms by (intro exI [of _ "CHR 0x00 # drop (pos + 7) out"]) (simp add: put_printf_at_def write_at_def)

lemma emit_str_ok:
  assumes "escapable os" "fmt_state os s"
  shows "fmt_state os (emit_str s t)" "os_data (fst (emit_str s t)) = os_data (fst s) @ t"
  using assms by (auto simp: emit_str_def fmt_state_def escapable_def put_str_plain)

lemma put_char_ok:
  assumes "escapable os" "fmt_state os s"
  shows "fmt_state os (put_char (fst s) c, snd s)" "os_data (put_char (fst s) c) = os_data (fst s) @ [c]"
  using assms by (auto simp: fmt_state_def escapable_def put_char_plain)

text \<open>After \<open>hex_formatter\<close> a number is printed as \<open>%0wx\<close> prints it.\<close>

lemma put_uint_hex:
  assumes "escapable os" "os_base os = BHex" "os_fill os = CHR ''0''"
  shows "put_uint (setw w os) n = os\<lparr>os_data := os_data os @ hex_pad w n\<rparr>"
  using assms
  by (simp add: put_uint_def put_raw_def pad_out_def setw_def hex_pad_def Let_def escapable_def split: adjustfield.split)

lemma hex_formatter_ok:
  assumes "escapable os" "fmt_state os s"
  obtains d where "hex_formatter s = (os\<lparr>os_fill := CHR ''0'', os_base := BHex, os_data := d\<rparr>, Some (os_fill os, os_base os))"
    and "d = os_data (fst s)"
  using assms by (auto simp: fmt_state_def hex_formatter_def)

lemma emit_hex_ok:
  assumes "escapable os" "fmt_state os s"
  shows "fmt_state os (put_uint (setw w (put_str (fst (hex_formatter s)) t)) n, snd (hex_formatter s))"
    and "os_data (put_uint (setw w (put_str (fst (hex_formatter s)) t)) n) = os_data (fst s) @ t @ hex_pad w n"
proof -
  obtain d where h: "hex_formatter s = (os\<lparr>os_fill := CHR ''0'', os_base := BHex, os_data := d\<rparr>, Some (os_fill os, os_base os))"
    and d: "d = os_data (fst s)" by (rule hex_formatter_ok [OF assms])
  let ?o = "os\<lparr>os_fill := CHR ''0'', os_base := BHex, os_data := d @ t\<rparr>"
  have "put_str (fst (hex_formatter s)) t = ?o"
    using assms(1) by (simp add: h put_str_plain escapable_def)
  moreover have "put_uint (setw w ?o) n = ?o\<lparr>os_data := (d @ t) @ hex_pad w n\<rparr>"
    using assms(1) by (subst put_uint_hex) (simp_all add: escapable_def)
  ultimately show "fmt_state os (put_uint (setw w (put_str (fst (hex_formatter s)) t)) n, snd (hex_formatter s))"
    and "os_data (put_uint (setw w (put_str (fst (hex_formatter s)) t)) n) = os_data (fst s) @ t @ hex_pad w n"
    by (auto simp: h d fmt_state_def)
qed

lemma emit_hex_char_ok:
  assumes "escapable os" "fmt_state os s"
  shows "fmt_state os (put_char (put_uint (setw w (put_str (fst (hex_formatter s)) t)) n) c, snd (hex_formatter s))"
    and "os_data (put_char (put_uint (setw w (put_str (fst (hex_formatter s)) t)) n) c) = os_data (fst s) @ t @ hex_pad w n @ [c]"
  using put_char_ok [OF assms(1) emit_hex_ok(1) [OF assms]] emit_hex_ok(2) [OF assms] by simp_all

lemmas emit_ok = emit_str_ok put_char_ok emit_hex_ok emit_hex_char_ok

text \<open>The characters printed in hexadecimal are the ones that go through \<open>snprintf\<close>.\<close>

definition xml_escapes_hex :: "char \<Rightarrow> bool" where
  "xml_escapes_hex c \<longleftrightarrow> xml_control c"

lemma xml_char_put_eq:
  "xml_escapes_hex c \<Longrightarrow> xml_char_put st c = put_printf_at st (xml_esc c)"
  "xml_escapes_hex c \<Longrightarrow> length (xml_esc c) = 6"
  "\<not> xml_escapes_hex c \<Longrightarrow> xml_char_put st c = put_bytes_at st (xml_esc c)"
  by (auto simp: xml_escapes_hex_def xml_char_put_def xml_esc_def xml_control_def)

interpretation xml: escaper xml_esc xml_char_len xml_char_put xml_char_emit
proof
  fix c out s and pos :: nat and os
  show "xml_char_len c = of_nat (length (xml_esc c))"
    by (simp add: xml_char_len_def xml_esc_def)
  show "0 < length (xml_esc c) \<and> length (xml_esc c) \<le> 6"
    by (simp add: xml_esc_def)
  show "pos + length (xml_esc c) < length out \<Longrightarrow>
        \<exists>junk. xml_char_put (out, pos) c = Inr (take pos out @ xml_esc c @ junk, pos + length (xml_esc c))
          \<and> length (take pos out @ xml_esc c @ junk) = length out"
    by (metis xml_char_put_eq put_printf_at_ok put_bytes_at_ok)
  show "escapable os \<Longrightarrow> fmt_state os s \<Longrightarrow>
        fmt_state os (xml_char_emit s c) \<and> os_data (fst (xml_char_emit s c)) = os_data (fst s) @ xml_esc c"
    by (simp add: xml_char_emit_def xml_esc_def Let_def emit_ok)
qed

text \<open>The characters printed in hexadecimal are the ones that go through \<open>snprintf\<close>.\<close>

definition json_escapes_hex :: "char \<Rightarrow> bool" where
  "json_escapes_hex c \<longleftrightarrow> json_control c \<and> c \<noteq> CHR 0x09 \<and> c \<noteq> CHR 0x0A"

lemma json_char_put_eq:
  "json_escapes_hex c \<Longrightarrow> json_char_put st c = put_printf_at st (json_esc c)"
  "json_escapes_hex c \<Longrightarrow> length (json_esc c) = 6"
  "\<not> json_escapes_hex c \<Longrightarrow> json_char_put st c = put_bytes_at st (json_esc c)"
  by (auto simp: json_escapes_hex_def json_char_put_def json_esc_def json_control_def)

interpretation json: escaper json_esc json_char_len json_char_put json_char_emit
proof
  fix c out s and pos :: nat and os
  show "json_char_len c = of_nat (length (json_esc c))"
    by (simp add: json_char_len_def json_esc_def)
  show "0 < length (json_esc c) \<and> length (json_esc c) \<le> 6"
    by (simp add: json_esc_def)
  show "pos + length (json_esc c) < length out \<Longrightarrow>
        \<exists>junk. json_char_put (out, pos) c = Inr (take pos out @ json_esc c @ junk, pos + length (json_esc c))
          \<and> length (take pos out @ json_esc c @ junk) = length out"
    by (metis json_char_put_eq put_printf_at_ok put_bytes_at_ok)
  show "escapable os \<Longrightarrow> fmt_state os s \<Longrightarrow>
        fmt_state os (json_char_emit s c) \<and> os_data (fst (json_char_emit s c)) = os_data (fst s) @ json_esc c"
    by (simp add: json_char_emit_def json_esc_def Let_def emit_ok)
qed

section \<open>The loops\<close>

lemma xml_len_loop_eq:
  assumes "CHR 0x00 \<notin> set s"
  shows "xml_len_loop (s @ CHR 0x00 # rest) r = Inr (foldl (\<lambda>r c. r + xml_char_len c) r s + 1)"
  using assms by (induction s arbitrary: r) auto

lemma xml_put_loop_eq:
  assumes "CHR 0x00 \<notin> set s"
  shows "xml_put_loop (s @ CHR 0x00 # rest) st =
    rbind (foldl (\<lambda>r c. rbind r (\<lambda>st. xml_char_put st c)) (Inr st) s) (\<lambda>st. write_at (fst st) (snd st) [CHR 0x00])"
  using assms
proof (induction s arbitrary: st)
  case (Cons c s)
  have inl: "foldl (\<lambda>r c. rbind r (\<lambda>st. xml_char_put st c)) (Inl e) s = Inl e" for e
    by (induction s) simp_all
  from Cons show ?case by (cases "xml_char_put st c") (auto simp: inl)
qed simp

lemma json_len_loop_eq:
  "json_len_loop (s @ rest) (length s) r = Inr (foldl (\<lambda>r c. r + json_char_len c) r s + 1)"
  by (induction s arbitrary: r) auto

lemma json_put_loop_eq:
  "json_put_loop (s @ rest) (length s) st =
    rbind (foldl (\<lambda>r c. rbind r (\<lambda>st. json_char_put st c)) (Inr st) s) (\<lambda>st. write_at (fst st) (snd st) [CHR 0x00])"
proof (induction s arbitrary: st)
  case (Cons c s)
  have inl: "foldl (\<lambda>r c. rbind r (\<lambda>st. json_char_put st c)) (Inl e) s = Inl e" for e
    by (induction s) simp_all
  from Cons show ?case by (cases "json_char_put st c") (auto simp: inl)
qed simp

lemma write_NUL:
  "length (t @ junk) = length out \<Longrightarrow> length t < length out \<Longrightarrow>
    write_at (t @ junk) (length t) [CHR 0x00] = Inr (t @ CHR 0x00 # tl junk)"
  by (cases junk) (auto simp: write_at_def)

lemma escapable_new [simp]: "escapable ostream_new"
  by (simp add: escapable_def ostream_new_def)

lemma xml_stream_data: "escapable os \<Longrightarrow> xml_stream_escaper os s = os\<lparr>os_data := os_data os @ xml.esc_all s\<rparr>"
  by (simp add: xml_stream_escaper_def xml.destroy_all)

lemma json_stream_data: "escapable os \<Longrightarrow> json_stream_escaper os s = os\<lparr>os_data := os_data os @ json.esc_all s\<rparr>"
  by (simp add: json_stream_escaper_def json.destroy_all)

lemma unat_Suc_of_nat:
  assumes "n + 1 < 2 ^ 64"
  shows "unat (of_nat n + 1 :: u64) = n + 1"
proof -
  have "(of_nat n + 1 :: u64) = of_nat (n + 1)" by simp
  with assms show ?thesis by (simp only: unat_of_nat) (simp add: take_bit_nat_eq_self_iff)
qed

text \<open>XML escaping into a buffer. For a terminated string of less than \<open>2 ^ 61\<close> characters,
  \<open>escape_xml_attr_len\<close> returns the exact size of the escaped text with its terminator, whatever
  follows the terminator in memory; and with a buffer of at least that size \<open>escape_xml_attr\<close> writes only
  inside the buffer, and what it writes is the text the stream operator prints, terminated.\<close>

theorem xml_buffer_exact:
  assumes "CHR 0x00 \<notin> set s" "length s < 2 ^ 61" "escapable os" "os_data os = []"
  shows "\<exists>n. escape_xml_attr_len (s @ CHR 0x00 # rest) = Inr n
    \<and> unat n = length (os_data (xml_stream_escaper os s)) + 1
    \<and> (unat n \<le> length out \<longrightarrow>
        (\<exists>junk. escape_xml_attr (s @ CHR 0x00 # rest) out = Inr (os_data (xml_stream_escaper os s) @ CHR 0x00 # junk)
          \<and> length (os_data (xml_stream_escaper os s) @ CHR 0x00 # junk) = length out))"
proof -
  let ?t = "xml.esc_all s"
  have len: "length ?t + 1 < 2 ^ 64" using xml.length_esc_all [of s] assms(2) by simp
  have put: "\<exists>junk. escape_xml_attr (s @ CHR 0x00 # rest) out = Inr (?t @ CHR 0x00 # junk)
      \<and> length (?t @ CHR 0x00 # junk) = length out" if "length ?t + 1 \<le> length out"
  proof -
    from that xml.put_all [of 0 s out] obtain junk
      where "foldl (\<lambda>r c. rbind r (\<lambda>st. xml_char_put st c)) (Inr (out, 0)) s = Inr (?t @ junk, length ?t)"
        and l: "length (?t @ junk) = length out" by auto
    with that assms(1) show ?thesis
      by (intro exI [of _ "tl junk"]) (simp add: escape_xml_attr_def xml_put_loop_eq write_NUL [OF l])
  qed
  show ?thesis
    using assms(1,3,4) put
    by (auto simp: escape_xml_attr_len_def xml_len_loop_eq xml.len_sum xml_stream_data unat_Suc_of_nat [OF len])
qed

theorem xml_buffer_exact_witness:
  "\<exists>n. escape_xml_attr_len (''a<b'' @ CHR 0x00 # ''x'') = Inr n
    \<and> unat n = length (os_data (xml_stream_escaper ostream_new ''a<b'')) + 1
    \<and> (unat n \<le> length ''0123456789'' \<longrightarrow>
        (\<exists>junk. escape_xml_attr (''a<b'' @ CHR 0x00 # ''x'') ''0123456789''
           = Inr (os_data (xml_stream_escaper ostream_new ''a<b'') @ CHR 0x00 # junk)
          \<and> length (os_data (xml_stream_escaper ostream_new ''a<b'') @ CHR 0x00 # junk) = length ''0123456789''))"
  by (rule xml_buffer_exact) (simp_all add: ostream_new_def escapable_def)

text \<open>JSON escaping into a buffer: for \<open>src_len\<close> characters, zero bytes included, fewer than \<open>2 ^ 61\<close>,
  \<open>escape_json_attr_len\<close> returns the exact size of the escaped text with its terminator, and with a
  buffer of at least that size \<open>escape_json_attr\<close> writes only inside the buffer, and what it writes is
  the text the stream operator prints, terminated.\<close>

theorem json_buffer_exact:
  assumes "unat src_len = length s" "length s < 2 ^ 61" "escapable os" "os_data os = []"
  shows "\<exists>n. escape_json_attr_len (s @ rest) src_len = Inr n
    \<and> unat n = length (os_data (json_stream_escaper os s)) + 1
    \<and> (unat n \<le> length out \<longrightarrow>
        (\<exists>junk. escape_json_attr (s @ rest) src_len out = Inr (os_data (json_stream_escaper os s) @ CHR 0x00 # junk)
          \<and> length (os_data (json_stream_escaper os s) @ CHR 0x00 # junk) = length out))"
proof -
  let ?t = "json.esc_all s"
  have len: "length ?t + 1 < 2 ^ 64" using json.length_esc_all [of s] assms(2) by simp
  have put: "\<exists>junk. escape_json_attr (s @ rest) src_len out = Inr (?t @ CHR 0x00 # junk)
      \<and> length (?t @ CHR 0x00 # junk) = length out" if "length ?t + 1 \<le> length out"
  proof -
    from that json.put_all [of 0 s out] obtain junk
      where "foldl (\<lambda>r c. rbind r (\<lambda>st. json_char_put st c)) (Inr (out, 0)) s = Inr (?t @ junk, length ?t)"
        and l: "length (?t @ junk) = length out" by auto
    with that assms(1) show ?thesis
      by (intro exI [of _ "tl junk"]) (simp add: escape_json_attr_def json_put_loop_eq write_NUL [OF l])
  qed
  show ?thesis
    using assms(1,3,4) put
    by (auto simp: escape_json_attr_len_def json_len_loop_eq json.len_sum json_stream_data unat_Suc_of_nat [OF len])
qed

theorem json_buffer_exact_witness:
  "\<exists>n. escape_json_attr_len (''ab'' @ ''x'') 2 = Inr n
    \<and> unat n = length (os_data (json_stream_escaper ostream_new ''ab'')) + 1
    \<and> (unat n \<le> length ''0123456789'' \<longrightarrow>
        (\<exists>junk. escape_json_attr (''ab'' @ ''x'') 2 ''0123456789''
           = Inr (os_data (json_stream_escaper ostream_new ''ab'') @ CHR 0x00 # junk)
          \<and> length (os_data (json_stream_escaper ostream_new ''ab'') @ CHR 0x00 # junk) = length ''0123456789''))"
  by (rule json_buffer_exact) (simp_all add: ostream_new_def escapable_def)

section \<open>Escaping is reversible\<close>

text \<open>Reference decoders: what an XML or JSON reader does with the escapes.\<close>

definition xml_entity :: "string \<Rightarrow> char option" where
  "xml_entity e =
     (if e = ''lt'' then Some (CHR ''<'') else if e = ''amp'' then Some (CHR ''&'')
      else if e = ''gt'' then Some (CHR ''>'') else if e = ''apos'' then Some (CHR 0x27)
      else if e = ''quot'' then Some (CHR 0x22)
      else if take 2 e = ''#x'' then Some (char_of (hex_val (drop 2 e))) else None)"

function xml_unescape :: "string \<Rightarrow> string option" where
  "xml_unescape [] = Some []"
| "xml_unescape (c # r) =
     (if c = CHR ''&'' then
        (case xml_entity (takeWhile (\<lambda>c. c \<noteq> CHR '';'') r) of
           None \<Rightarrow> None
         | Some d \<Rightarrow> map_option (Cons d) (xml_unescape (tl (dropWhile (\<lambda>c. c \<noteq> CHR '';'') r))))
      else map_option (Cons c) (xml_unescape r))"
  by pat_completeness auto
termination
proof (relation "measure length")
  fix c :: char and r x
  have "length (tl (dropWhile (\<lambda>c. c \<noteq> CHR '';'') r)) \<le> length r"
    using length_dropWhile_le [of "\<lambda>c. c \<noteq> CHR '';''" r] by (simp add: diff_le_self le_trans)
  then show "(tl (dropWhile (\<lambda>c. c \<noteq> CHR '';'') r), c # r) \<in> measure length" by simp
qed simp_all

fun json_unescape :: "string \<Rightarrow> string option" where
  "json_unescape [] = Some []"
| "json_unescape (c # r) =
     (if c \<noteq> CHR 0x5C then map_option (Cons c) (json_unescape r)
      else (case r of
          [] \<Rightarrow> None
        | e # r1 \<Rightarrow>
            if e = CHR 0x22 \<or> e = CHR 0x5C then map_option (Cons e) (json_unescape r1)
            else if e = CHR ''t'' then map_option (Cons (CHR 0x09)) (json_unescape r1)
            else if e = CHR ''n'' then map_option (Cons (CHR 0x0A)) (json_unescape r1)
            else if e = CHR ''u'' then
              (case r1 of
                 a # b # d # f # r2 \<Rightarrow> map_option (Cons (char_of (hex_val [a, b, d, f]))) (json_unescape r2)
               | _ \<Rightarrow> None)
            else None))"

lemma hex_pad_no_semicolon: "c \<in> set (hex_pad w n) \<Longrightarrow> c \<noteq> CHR '';''"
  using hex_pad_xdigits [of w n] by (auto simp: isxdigit_def digit_val_def)

lemma takeWhile_hex [simp]:
  "takeWhile (\<lambda>c. c \<noteq> CHR '';'') (hex_pad w n @ CHR '';'' # r) = hex_pad w n"
  "dropWhile (\<lambda>c. c \<noteq> CHR '';'') (hex_pad w n @ CHR '';'' # r) = CHR '';'' # r"
  using hex_pad_no_semicolon by (subst takeWhile_append2 dropWhile_append2; force)+

lemma xml_unescape_esc: "xml_unescape (xml_esc c @ r) = map_option (Cons c) (xml_unescape r)"
  by (auto simp: xml_esc_def xml_entity_def)

lemma json_unescape_esc: "json_unescape (json_esc c @ r) = map_option (Cons c) (json_unescape r)"
proof (cases "json_escapes_hex c")
  case True
  obtain a b d f where h: "hex_pad 4 (of_char c) = [a, b, d, f]"
    using length_hex_pad_char(2) [of c] by (auto simp: numeral_eq_Suc length_Suc_conv)
  have v: "hex_val [a, b, d, f] = of_char c" using hex_val_hex_pad [of 4 "of_char c"] by (simp only: h)
  from True have "json_esc c = [CHR 0x5C, CHR ''u'', a, b, d, f]"
    by (auto simp: json_escapes_hex_def json_esc_def json_control_def h)
  then show ?thesis by (simp add: v)
next
  case False
  then show ?thesis by (auto simp: json_escapes_hex_def json_esc_def)
qed

text \<open>C20: Escaping loses nothing: an XML reader gets back every string that was printed with the XML
  escaper, and a JSON reader every string that was printed with the JSON escaper.\<close>

theorem escape_reversible:
  "xml_unescape (os_data (xml_stream_escaper ostream_new s)) = Some s
    \<and> json_unescape (os_data (json_stream_escaper ostream_new s)) = Some s"
proof -
  have "xml_unescape (xml.esc_all s) = Some s"
    by (induction s) (simp_all add: xml_unescape_esc del: xml_unescape.simps(2))
  moreover have "json_unescape (json.esc_all s) = Some s"
    by (induction s) (simp_all add: json_unescape_esc del: json_unescape.simps(2))
  ultimately show ?thesis by (simp add: xml_stream_data json_stream_data) (simp add: ostream_new_def)
qed

end
