(* ===== verification/JsonFormatter.thy ===== *)
theory JsonFormatter
  imports Escape
begin

text \<open>
  \<open>JSONFormatter\<close> of \<open>src/common/formatter.cc\<close>, and the fixed-point printers of the same file. The
  text is collected in \<open>m_ss\<close>; \<open>m_stack\<close> holds one entry per open section (its last element is
  the innermost one); a string being streamed is pending until the next call. The virtual hooks
  \<open>handle_value\<close>, \<open>handle_open_section\<close> and \<open>handle_close_section\<close> return \<open>false\<close> in this class. The
  number of elements of a section is an unbounded natural number here: the \<open>int\<close> of the code would need
  \<open>2 ^ 31\<close> elements in one section to overflow.

  The refinement theorem says that the calls that dump a JSON value produce the text of that value.
\<close>

section \<open>Fixed-point numbers\<close>

definition fixed_u_to_string :: "u64 \<Rightarrow> nat \<Rightarrow> string" where
  "fixed_u_to_string num scale =
     (let t = put_uint (setw (scale + 1) (set_fill (CHR ''0'') ostream_new)) (unat num);
          len = length (os_data t)
      in take (len - scale) (os_data t) @ ''.'' @ drop (len - scale) (os_data t))"

text \<open>The negation of the least \<open>int64_t\<close> overflows; on the usual hardware it gives the same number again.\<close>

definition fixed_to_string :: "64 word \<Rightarrow> nat \<Rightarrow> string" where
  "fixed_to_string num scale =
     (let neg = sint num < 0;
          num' = (if neg then - num else num);
          t = put_int (setw (scale + 1) (set_fill (CHR ''0'') ostream_new)) (sint num');
          len = length (os_data t)
      in (if neg then ''-'' else []) @ take (len - scale) (os_data t) @ ''.'' @ drop (len - scale) (os_data t))"

section \<open>State\<close>

record json_formatter_stack_entry =
  je_size :: nat
  je_is_array :: bool

record json_formatter =
  m_pretty :: bool
  m_ss :: ostream
  m_pending_string :: ostream
  m_pending_name :: string
  m_stack :: "json_formatter_stack_entry list"
  m_is_pending_string :: bool
  m_line_break_enabled :: bool

definition ss_put :: "json_formatter \<Rightarrow> string \<Rightarrow> json_formatter" where
  "ss_put f s = f\<lparr>m_ss := put_str (m_ss f) s\<rparr>"

text \<open>\<open>clear\<close> on a stream resets its error state only.\<close>

definition json_reset :: "json_formatter \<Rightarrow> json_formatter" where
  "json_reset f = f\<lparr>m_stack := [], m_ss := set_str [] (m_ss f), m_pending_string := set_str [] (m_pending_string f)\<rparr>"

definition json_formatter_new :: "bool \<Rightarrow> json_formatter" where
  "json_formatter_new p = json_reset \<lparr>m_pretty = p, m_ss = ostream_new, m_pending_string = ostream_new,
     m_pending_name = [], m_stack = [], m_is_pending_string = False, m_line_break_enabled = False\<rparr>"

definition json_enable_line_break :: "json_formatter \<Rightarrow> json_formatter" where
  "json_enable_line_break f = f\<lparr>m_line_break_enabled := True\<rparr>"

section \<open>Names, values and sections\<close>

text \<open>The loop \<open>for (unsigned i = 1; i < m_stack.size (); i++) m_ss << "    "\<close>.\<close>

definition put_indent :: "json_formatter \<Rightarrow> json_formatter" where
  "put_indent f = foldl (\<lambda>g i. ss_put g ''    '') f [1 ..< length (m_stack f)]"

definition print_comma :: "json_formatter \<Rightarrow> json_formatter_stack_entry \<Rightarrow> json_formatter" where
  "print_comma f entry =
     (let f1 = (if je_size entry \<noteq> 0
                then (if m_pretty f then put_indent (ss_put f '',\<newline>'') else ss_put f '','')
                else (if m_pretty f then put_indent (ss_put f ''\<newline>'') else f))
      in if m_pretty f \<and> je_is_array entry then ss_put f1 ''    '' else f1)"

definition print_quoted_string :: "json_formatter \<Rightarrow> string \<Rightarrow> json_formatter" where
  "print_quoted_string f s =
     f\<lparr>m_ss := put_char (json_stream_escaper (put_char (m_ss f) (CHR 0x22)) s) (CHR 0x22)\<rparr>"

text \<open>\<open>print_name\<close>, \<open>finish_pending_string\<close> and \<open>add_value\<close> call each other; the recursion ends because
  \<open>finish_pending_string\<close> clears the pending flag before it calls \<open>add_value\<close>.\<close>

definition name_body :: "json_formatter \<Rightarrow> string \<Rightarrow> json_formatter" where
  "name_body f name =
     (if m_stack f = [] then f
      else
        (let entry = last (m_stack f);
             f1 = print_comma f entry;
             f2 = (if je_is_array entry then f1
                   else
                     (let g1 = (if m_pretty f1 then ss_put f1 ''    '' else f1);
                          g2 = ss_put (ss_put (ss_put g1 [CHR 0x22]) name) [CHR 0x22]
                      in ss_put g2 (if m_pretty g2 then '': '' else '':'')))
         in f2\<lparr>m_stack := butlast (m_stack f2) @ [entry\<lparr>je_size := je_size entry + 1\<rparr>]\<rparr>))"

lemma name_body_pending [simp]: "m_is_pending_string (name_body f name) = m_is_pending_string f"
proof -
  have ss: "m_is_pending_string (ss_put g s) = m_is_pending_string g" for g s by (simp add: ss_put_def)
  have "m_is_pending_string (foldl (\<lambda>g i. ss_put g t) g xs) = m_is_pending_string g" for t g and xs :: "nat list"
    by (induction xs arbitrary: g) (simp_all add: ss)
  then show ?thesis by (simp add: name_body_def print_comma_def put_indent_def ss Let_def)
qed

function (domintros) print_name :: "json_formatter \<Rightarrow> string \<Rightarrow> json_formatter"
  and finish_pending_string :: "json_formatter \<Rightarrow> json_formatter"
  and add_value :: "json_formatter \<Rightarrow> string \<Rightarrow> string \<Rightarrow> bool \<Rightarrow> json_formatter" where
  "print_name f name = name_body (finish_pending_string f) name"
| "finish_pending_string f =
     (if m_is_pending_string f then
        (let f1 = f\<lparr>m_is_pending_string := False\<rparr>;
             f2 = add_value f1 (takeWhile (\<lambda>c. c \<noteq> CHR 0x00) (m_pending_name f1)) (os_data (m_pending_string f1)) True
         in f2\<lparr>m_pending_string := set_str [] (m_pending_string f2)\<rparr>)
      else f)"
| "add_value f name val quoted =
     (let f1 = print_name f name
      in if \<not> quoted then ss_put f1 val else print_quoted_string f1 val)"
  by pat_completeness auto
termination
  by (relation "measure (\<lambda>x. case x of
        Inl (f, _) \<Rightarrow> (if m_is_pending_string f then 3 else 0) + 1
      | Inr (Inl f) \<Rightarrow> (if m_is_pending_string f then 3 else 0)
      | Inr (Inr (f, _)) \<Rightarrow> (if m_is_pending_string f then 3 else 0) + (2 :: nat))") auto

declare print_name.simps [simp del] finish_pending_string.simps [simp del] add_value.simps [simp del]

definition json_open_section :: "json_formatter \<Rightarrow> string \<Rightarrow> string option \<Rightarrow> bool \<Rightarrow> json_formatter" where
  "json_open_section f name ns is_array =
     (let f1 = (case ns of
                  Some n \<Rightarrow> print_name f (takeWhile (\<lambda>c. c \<noteq> CHR 0x00) (name @ '' '' @ n))
                | None \<Rightarrow> print_name f name);
          f2 = f1\<lparr>m_ss := put_char (m_ss f1) (if is_array then CHR ''['' else CHR ''{'')\<rparr>
      in f2\<lparr>m_stack := m_stack f2 @ [\<lparr>je_size = 0, je_is_array = is_array\<rparr>]\<rparr>)"

definition json_open_array_section :: "json_formatter \<Rightarrow> string \<Rightarrow> json_formatter" where
  "json_open_array_section f name = json_open_section f name None True"

definition json_open_array_section_in_ns :: "json_formatter \<Rightarrow> string \<Rightarrow> string \<Rightarrow> json_formatter" where
  "json_open_array_section_in_ns f name ns = json_open_section f name (Some ns) True"

definition json_open_object_section :: "json_formatter \<Rightarrow> string \<Rightarrow> json_formatter" where
  "json_open_object_section f name = json_open_section f name None False"

definition json_open_object_section_in_ns :: "json_formatter \<Rightarrow> string \<Rightarrow> string \<Rightarrow> json_formatter" where
  "json_open_object_section_in_ns f name ns = json_open_section f name (Some ns) False"

definition json_close_section :: "json_formatter \<Rightarrow> json_formatter result" where
  "json_close_section f =
     kassert (m_stack f \<noteq> [])
      (let f1 = finish_pending_string f;
           entry = last (m_stack f1);
           f2 = (if m_pretty f1 \<and> je_size entry \<noteq> 0 then put_indent (ss_put f1 ''\<newline>'') else f1);
           f3 = f2\<lparr>m_ss := put_char (m_ss f2) (if je_is_array entry then CHR '']'' else CHR ''}'')\<rparr>;
           f4 = f3\<lparr>m_stack := butlast (m_stack f3)\<rparr>
       in Inr (if m_pretty f4 \<and> m_stack f4 = [] then ss_put f4 ''\<newline>'' else f4))"

section \<open>Dumping\<close>

definition json_dump_unsigned :: "json_formatter \<Rightarrow> string \<Rightarrow> u64 \<Rightarrow> json_formatter" where
  "json_dump_unsigned f name u = add_value f name (os_data (put_uint ostream_new (unat u))) False"

definition json_dump_int :: "json_formatter \<Rightarrow> string \<Rightarrow> 64 word \<Rightarrow> json_formatter" where
  "json_dump_int f name s = add_value f name (os_data (put_int ostream_new (sint s))) False"

definition json_dump_string :: "json_formatter \<Rightarrow> string \<Rightarrow> string \<Rightarrow> json_formatter" where
  "json_dump_string f name s = add_value f name s True"

text \<open>\<open>dump_stream\<close> returns the pending stream; \<open>json_stream_put\<close> is the caller's insertion into it.\<close>

definition json_dump_stream :: "json_formatter \<Rightarrow> string \<Rightarrow> json_formatter" where
  "json_dump_stream f name = (finish_pending_string f)\<lparr>m_pending_name := name, m_is_pending_string := True\<rparr>"

definition json_stream_put :: "json_formatter \<Rightarrow> string \<Rightarrow> json_formatter" where
  "json_stream_put f s = f\<lparr>m_pending_string := put_str (m_pending_string f) s\<rparr>"

text \<open>\<open>dump_format_va\<close> gets the text its format and arguments stand for; \<open>vsnprintf\<close> stores what fits into
  1024 bytes with the terminator.\<close>

definition json_dump_format_va :: "json_formatter \<Rightarrow> string \<Rightarrow> string option \<Rightarrow> bool \<Rightarrow> string \<Rightarrow> json_formatter" where
  "json_dump_format_va f name ns quoted txt =
     add_value f name (takeWhile (\<lambda>c. c \<noteq> CHR 0x00) (take 1023 txt)) quoted"

definition json_dump_bool :: "json_formatter \<Rightarrow> string \<Rightarrow> bool \<Rightarrow> json_formatter" where
  "json_dump_bool f name b = json_dump_format_va f name None False (if b then ''true'' else ''false'')"

definition json_get_len :: "json_formatter \<Rightarrow> nat" where
  "json_get_len f = length (os_data (m_ss f))"

definition json_write_raw_data :: "json_formatter \<Rightarrow> string \<Rightarrow> json_formatter" where
  "json_write_raw_data f s = ss_put f s"

definition json_flush :: "json_formatter \<Rightarrow> ostream \<Rightarrow> json_formatter \<times> ostream" where
  "json_flush f os =
     (let f1 = finish_pending_string f;
          os1 = put_str os (os_data (m_ss f1));
          os2 = (if m_line_break_enabled f1 then put_str os1 ''\<newline>'' else os1)
      in (f1\<lparr>m_ss := set_str [] (m_ss f1)\<rparr>, os2))"

section \<open>The text of a JSON value\<close>

text \<open>What the calls of a client dump: a value is a string, a number, a flag, a string streamed in pieces,
  or a section with named members, an array or an object.\<close>

datatype jval =
    JStr string
  | JUns u64
  | JInt "64 word"
  | JBool bool
  | JStream "string list"
  | JSec bool "(string \<times> jval) list"

definition indent :: "nat \<Rightarrow> string" where
  "indent n = concat (replicate n ''    '')"

text \<open>The text before an element of a section that is nested \<open>d\<close> deep: a comma unless it is the first,
  line break and indentation when pretty, and in an object the quoted name.\<close>

definition lead :: "bool \<Rightarrow> nat \<Rightarrow> bool \<Rightarrow> bool \<Rightarrow> string \<Rightarrow> string" where
  "lead p d first is_array name =
     (if first then [] else '','') @ (if p then ''\<newline>'' @ indent d else [])
     @ (if is_array then [] else [CHR 0x22] @ name @ [CHR 0x22] @ (if p then '': '' else '':''))"

definition signed_dec :: "int \<Rightarrow> string" where
  "signed_dec n = (if n < 0 then ''-'' else []) @ dec (nat \<bar>n\<bar>)"

text \<open>The JSON text of a value: strings and the names of members are quoted and escaped.\<close>

fun render :: "bool \<Rightarrow> nat \<Rightarrow> jval \<Rightarrow> string"
  and render_members :: "bool \<Rightarrow> nat \<Rightarrow> bool \<Rightarrow> nat \<Rightarrow> (string \<times> jval) list \<Rightarrow> string" where
  "render p d (JStr s) = [CHR 0x22] @ json.esc_all s @ [CHR 0x22]"
| "render p d (JUns u) = dec (unat u)"
| "render p d (JInt i) = signed_dec (sint i)"
| "render p d (JBool b) = (if b then ''true'' else ''false'')"
| "render p d (JStream ss) = [CHR 0x22] @ json.esc_all (concat ss) @ [CHR 0x22]"
| "render p d (JSec a ms) =
     (if a then ''['' else ''{'') @ render_members p (Suc d) a 0 ms
     @ (if p \<and> ms \<noteq> [] then ''\<newline>'' @ indent d else []) @ (if a then '']'' else ''}'')
     @ (if p \<and> d = 0 then ''\<newline>'' else [])"
| "render_members p d a n [] = []"
| "render_members p d a n ((k, v) # ms) = lead p d (n = 0) a (json.esc_all k) @ render p d v @ render_members p d a (Suc n) ms"

text \<open>The calls that dump it.\<close>

fun dump_value :: "json_formatter \<Rightarrow> string \<Rightarrow> jval \<Rightarrow> json_formatter result"
  and dump_members :: "json_formatter \<Rightarrow> (string \<times> jval) list \<Rightarrow> json_formatter result" where
  "dump_value f name (JStr s) = Inr (json_dump_string f name s)"
| "dump_value f name (JUns u) = Inr (json_dump_unsigned f name u)"
| "dump_value f name (JInt i) = Inr (json_dump_int f name i)"
| "dump_value f name (JBool b) = Inr (json_dump_bool f name b)"
| "dump_value f name (JStream ss) = Inr (foldl json_stream_put (json_dump_stream f name) ss)"
| "dump_value f name (JSec a ms) =
     rbind (dump_members (if a then json_open_array_section f name else json_open_object_section f name) ms)
       json_close_section"
| "dump_members f [] = Inr f"
| "dump_members f ((k, v) # ms) = rbind (dump_value f k v) (\<lambda>g. dump_members g ms)"

text \<open>The names the formatter prints right. \<open>print_name\<close> copies a name as it is, so the names of members must have nothing to escape: no
  quote, no backslash and no control character. Streamed members are named without a zero byte, also at the top: the code passes the
  pending name as a C string.\<close>

definition plain_name :: "string \<Rightarrow> bool" where
  "plain_name k \<longleftrightarrow> json.esc_all k = k"

fun names_ok :: "string \<Rightarrow> jval \<Rightarrow> bool"
  and names_ok_list :: "(string \<times> jval) list \<Rightarrow> bool" where
  "names_ok name (JStream ss) = (CHR 0x00 \<notin> set name)"
| "names_ok name (JSec a ms) = names_ok_list ms"
| "names_ok name (JStr s) = True"
| "names_ok name (JUns u) = True"
| "names_ok name (JInt i) = True"
| "names_ok name (JBool b) = True"
| "names_ok_list [] = True"
| "names_ok_list ((k, v) # ms) = (plain_name k \<and> names_ok k v \<and> names_ok_list ms)"

section \<open>Refinement\<close>

definition fmt_ready :: "json_formatter \<Rightarrow> bool" where
  "fmt_ready f \<longleftrightarrow> escapable (m_ss f) \<and> os_width (m_pending_string f) = 0
     \<and> (\<not> m_is_pending_string f \<longrightarrow> os_data (m_pending_string f) = [])"

type_synonym json_view = "string \<times> json_formatter_stack_entry list \<times> bool \<times> bool"

text \<open>What is visible of a formatter once its pending string is written.\<close>

definition view :: "json_formatter \<Rightarrow> json_view" where
  "view f = (os_data (m_ss (finish_pending_string f)), m_stack (finish_pending_string f),
     m_pretty (finish_pending_string f), m_line_break_enabled (finish_pending_string f))"

definition bump :: "json_formatter_stack_entry list \<Rightarrow> json_formatter_stack_entry list" where
  "bump st = (if st = [] then [] else butlast st @ [(last st)\<lparr>je_size := je_size (last st) + 1\<rparr>])"

definition lead_of :: "bool \<Rightarrow> json_formatter_stack_entry list \<Rightarrow> string \<Rightarrow> string" where
  "lead_of p st name =
     (if st = [] then [] else lead p (length st) (je_size (last st) = 0) (je_is_array (last st)) name)"

definition app :: "json_formatter \<Rightarrow> string \<Rightarrow> json_formatter" where
  "app f t = f\<lparr>m_ss := (m_ss f)\<lparr>os_data := os_data (m_ss f) @ t\<rparr>\<rparr>"

lemma ss_put_app: "escapable (m_ss f) \<Longrightarrow> ss_put f t = app f t"
  by (simp add: ss_put_def app_def put_str_plain escapable_def)

lemma app_simps [simp]:
  "app (app f s) t = app f (s @ t)" "app f [] = f"
  "m_stack (app f t) = m_stack f" "m_pretty (app f t) = m_pretty f"
  "m_is_pending_string (app f t) = m_is_pending_string f"
  "m_pending_string (app f t) = m_pending_string f"
  "m_line_break_enabled (app f t) = m_line_break_enabled f"
  "escapable (m_ss (app f t)) = escapable (m_ss f)"
  "os_data (m_ss (app f t)) = os_data (m_ss f) @ t"
  "fmt_ready (app f t) = fmt_ready f"
  by (simp_all add: app_def escapable_def fmt_ready_def)

lemma indent_comm: "indent n @ ''    '' = ''    '' @ indent n"
  by (induction n) (simp_all add: indent_def)

lemma indent_simps [simp]: "indent 0 = []" "indent (Suc n) = indent n @ ''    ''"
  by (simp_all only: indent_comm) (simp_all add: indent_def)

lemma put_indent_app:
  assumes "escapable (m_ss f)"
  shows "put_indent f = app f (indent (length (m_stack f) - 1))"
proof -
  have "foldl (\<lambda>g i. ss_put g ''    '') f [1 ..< 1 + n] = app f (indent n)" for n
    by (induction n) (simp_all add: ss_put_app assms)
  from this [of "length (m_stack f) - 1"] show ?thesis
    by (cases "m_stack f") (simp_all add: put_indent_def)
qed

lemma name_body_eq:
  assumes "escapable (m_ss f)"
  shows "name_body f name = (app f (lead_of (m_pretty f) (m_stack f) name))\<lparr>m_stack := bump (m_stack f)\<rparr>"
proof (cases "m_stack f = []")
  case True
  then show ?thesis by (simp add: name_body_def lead_of_def bump_def)
next
  case False
  then obtain n where "length (m_stack f) = Suc n" by (cases "m_stack f") auto
  with False assms show ?thesis
    by (simp add: name_body_def lead_of_def bump_def print_comma_def put_indent_app ss_put_app lead_def Let_def)
qed

lemma print_quoted_app:
  assumes "escapable (m_ss f)"
  shows "print_quoted_string f s = app f ([CHR 0x22] @ json.esc_all s @ [CHR 0x22])"
  using assms by (simp add: print_quoted_string_def app_def put_char_plain escapable_def json_stream_data)

lemma finish_idle [simp]: "\<not> m_is_pending_string f \<Longrightarrow> finish_pending_string f = f"
  by (simp add: finish_pending_string.simps)

definition value_text :: "bool \<Rightarrow> string \<Rightarrow> string" where
  "value_text q v = (if q then [CHR 0x22] @ json.esc_all v @ [CHR 0x22] else v)"

text \<open>A value added to a settled formatter.\<close>

lemma add_value_idle:
  assumes "\<not> m_is_pending_string f" "escapable (m_ss f)"
  shows "add_value f name v q =
    (app f (lead_of (m_pretty f) (m_stack f) name @ value_text q v))\<lparr>m_stack := bump (m_stack f)\<rparr>"
proof -
  have "escapable (m_ss (name_body f name))"
    using assms by (simp add: name_body_eq)
  with assms show ?thesis
    by (simp add: add_value.simps print_name.simps value_text_def ss_put_app print_quoted_app name_body_eq)
      (simp add: app_def)
qed

lemma finish_pending:
  assumes "m_is_pending_string f" "escapable (m_ss f)"
  shows "finish_pending_string f =
    (app f (lead_of (m_pretty f) (m_stack f) (takeWhile (\<lambda>c. c \<noteq> CHR 0x00) (m_pending_name f))
        @ value_text True (os_data (m_pending_string f))))
      \<lparr>m_stack := bump (m_stack f), m_is_pending_string := False,
       m_pending_string := set_str [] (m_pending_string f)\<rparr>"
  using assms by (subst finish_pending_string.simps) (simp add: add_value_idle Let_def, simp add: app_def)

lemma settle_ready:
  assumes "fmt_ready f"
  shows "fmt_ready (finish_pending_string f)" "\<not> m_is_pending_string (finish_pending_string f)"
  using assms by (cases "m_is_pending_string f"; simp add: finish_pending fmt_ready_def set_str_def)+

lemma finish_length [simp]: "fmt_ready f \<Longrightarrow> length (m_stack (finish_pending_string f)) = length (m_stack f)"
  by (cases "m_is_pending_string f") (simp_all add: finish_pending fmt_ready_def bump_def)

lemma print_name_settled: "fmt_ready f \<Longrightarrow> print_name f name = name_body (finish_pending_string f) name"
  by (simp add: print_name.simps)

lemma add_value_view:
  assumes "fmt_ready f" "view f = (t, st, p, l)"
  shows "fmt_ready (add_value f name v q)"
    and "view (add_value f name v q) = (t @ lead_of p st name @ value_text q v, bump st, p, l)"
proof -
  let ?g = "finish_pending_string f"
  have "add_value f name v q = add_value ?g name v q"
    using settle_ready(2) [OF assms(1)] by (simp add: add_value.simps print_name.simps)
  moreover from settle_ready [OF assms(1)]
  have "\<not> m_is_pending_string ?g" "escapable (m_ss ?g)" by (simp_all add: fmt_ready_def)
  ultimately show "fmt_ready (add_value f name v q)"
    and "view (add_value f name v q) = (t @ lead_of p st name @ value_text q v, bump st, p, l)"
    using settle_ready(1) [OF assms(1)] assms(2)
    by (auto simp: add_value_idle view_def fmt_ready_def escapable_def app_def)
qed

text \<open>A string streamed in pieces is written when the formatter is settled.\<close>

lemma stream_put_all:
  "os_width (m_pending_string f) = 0 \<Longrightarrow>
    foldl json_stream_put f ss = f\<lparr>m_pending_string := (m_pending_string f)\<lparr>os_data := os_data (m_pending_string f) @ concat ss\<rparr>\<rparr>"
  by (induction ss arbitrary: f) (simp_all add: json_stream_put_def put_str_plain)

lemma dump_stream_view:
  assumes "fmt_ready f" "view f = (t, st, p, l)" "CHR 0x00 \<notin> set name"
  shows "fmt_ready (foldl json_stream_put (json_dump_stream f name) ss)"
    and "view (foldl json_stream_put (json_dump_stream f name) ss)
      = (t @ lead_of p st name @ value_text True (concat ss), bump st, p, l)"
proof -
  let ?g = "finish_pending_string f"
  from settle_ready [OF assms(1)]
  have g: "\<not> m_is_pending_string ?g" "escapable (m_ss ?g)" "os_width (m_pending_string ?g) = 0"
    "os_data (m_pending_string ?g) = []" by (simp_all add: fmt_ready_def)
  have name: "takeWhile (\<lambda>c. c \<noteq> CHR 0x00) name = name"
    using assms(3) by (simp add: takeWhile_eq_all_conv) metis
  from g show "fmt_ready (foldl json_stream_put (json_dump_stream f name) ss)"
    by (simp add: stream_put_all json_dump_stream_def fmt_ready_def)
  from g assms(2)
  show "view (foldl json_stream_put (json_dump_stream f name) ss)
      = (t @ lead_of p st name @ value_text True (concat ss), bump st, p, l)"
    by (simp add: stream_put_all json_dump_stream_def view_def finish_pending name)
qed

lemma open_section_view:
  assumes "fmt_ready f" "view f = (t, st, p, l)"
  shows "fmt_ready (json_open_section f name None a)"
    and "view (json_open_section f name None a)
      = (t @ lead_of p st name @ (if a then ''['' else ''{''), bump st @ [\<lparr>je_size = 0, je_is_array = a\<rparr>], p, l)"
proof -
  let ?g = "finish_pending_string f"
  from settle_ready [OF assms(1)]
  have g: "\<not> m_is_pending_string ?g" "escapable (m_ss ?g)" "fmt_ready ?g" by (simp_all add: fmt_ready_def)
  then show "fmt_ready (json_open_section f name None a)"
    by (simp add: json_open_section_def print_name.simps name_body_eq fmt_ready_def put_char_plain escapable_def app_def Let_def)
  from g assms(2) show "view (json_open_section f name None a)
      = (t @ lead_of p st name @ (if a then ''['' else ''{''), bump st @ [\<lparr>je_size = 0, je_is_array = a\<rparr>], p, l)"
    by (simp add: json_open_section_def print_name.simps name_body_eq view_def put_char_plain escapable_def app_def Let_def)
qed

lemma close_section_view:
  assumes "fmt_ready f" "view f = (t, st @ [e], p, l)"
  shows "\<exists>g. json_close_section f = Inr g \<and> fmt_ready g
    \<and> view g = (t @ (if p \<and> je_size e \<noteq> 0 then ''\<newline>'' @ indent (length st) else [])
        @ (if je_is_array e then '']'' else ''}'') @ (if p \<and> st = [] then ''\<newline>'' else []), st, p, l)"
proof -
  let ?g = "finish_pending_string f"
  from settle_ready [OF assms(1)]
  have g: "\<not> m_is_pending_string ?g" "escapable (m_ss ?g)" "fmt_ready ?g" by (simp_all add: fmt_ready_def)
  have stack: "m_stack ?g = st @ [e]" "m_pretty ?g = p" "os_data (m_ss ?g) = t" "m_line_break_enabled ?g = l"
    using assms(2) by (simp_all add: view_def Let_def)
  have "m_stack f \<noteq> []"
    using finish_length [OF assms(1)] stack by auto
  with g stack show ?thesis
    by (simp add: json_close_section_def put_indent_app ss_put_app Let_def)
      (auto simp: view_def fmt_ready_def ss_put_app put_char_plain escapable_def app_def Let_def)
qed

lemma length_bump [simp]: "length (bump st) = length st"
  by (simp add: bump_def)

lemma bump_Nil [simp]: "bump st = [] \<longleftrightarrow> st = []"
  by (simp add: bump_def)

lemma bump_snoc [simp]: "bump (st @ [e]) = st @ [e\<lparr>je_size := je_size e + 1\<rparr>]"
  by (simp add: bump_def)

lemma put_int_signed: "os_data (put_int ostream_new n) = signed_dec n"
  by (simp add: put_int_plain signed_dec_def) (simp add: ostream_new_def)

lemma dump_refines:
  "names_ok name j \<Longrightarrow> fmt_ready f \<Longrightarrow> view f = (t, st, p, l) \<Longrightarrow>
    \<exists>g. dump_value f name j = Inr g \<and> fmt_ready g
      \<and> view g = (t @ lead_of p st name @ render p (length st) j, bump st, p, l)"
  "names_ok_list ms \<Longrightarrow> fmt_ready f \<Longrightarrow> view f = (t, st @ [e], p, l) \<Longrightarrow>
    \<exists>g. dump_members f ms = Inr g \<and> fmt_ready g
      \<and> view g = (t @ render_members p (Suc (length st)) (je_is_array e) (je_size e) ms,
          st @ [e\<lparr>je_size := je_size e + length ms\<rparr>], p, l)"
proof (induction f name j and f ms arbitrary: t st p l and t st p l e rule: dump_value_dump_members.induct)
  case (1 f name s)
  with add_value_view [OF 1(2,3), of name s True] show ?case
    by (simp add: json_dump_string_def value_text_def)
next
  case (2 f name u)
  with add_value_view [OF 2(2,3), of name "dec (unat u)" False] show ?case
    by (simp add: json_dump_unsigned_def value_text_def put_uint_plain) (simp add: ostream_new_def)
next
  case (3 f name i)
  with add_value_view [OF 3(2,3), of name "signed_dec (sint i)" False] show ?case
    by (simp add: json_dump_int_def value_text_def put_int_signed)
next
  case (4 f name b)
  with add_value_view [OF 4(2,3), of name "if b then ''true'' else ''false''" False] show ?case
    by (cases b) (simp_all add: json_dump_bool_def json_dump_format_va_def value_text_def)
next
  case (5 f name ss)
  then have "CHR 0x00 \<notin> set name" by simp
  with dump_stream_view [OF 5(2,3), of name ss] show ?case
    by (simp add: value_text_def)
next
  case (6 f name a ms)
  let ?f = "if a then json_open_array_section f name else json_open_object_section f name"
  have f: "?f = json_open_section f name None a"
    by (simp add: json_open_array_section_def json_open_object_section_def)
  from 6(2) have ok: "names_ok_list ms" by simp
  from 6(1) [OF ok, folded f] open_section_view [OF 6(3,4), of name a]
  obtain g where g: "dump_members ?f ms = Inr g" "fmt_ready g"
    "view g = (t @ lead_of p st name @ (if a then ''['' else ''{'') @ render_members p (Suc (length st)) a 0 ms,
       bump st @ [\<lparr>je_size = length ms, je_is_array = a\<rparr>], p, l)"
    unfolding f by fastforce
  from close_section_view [OF g(2,3)] show ?case
    by (auto simp: g(1) f [symmetric])
next
  case (7 f)
  then show ?case by simp
next
  case (8 f k v ms)
  from 8(3) have ok: "names_ok k v" "names_ok_list ms" and pl: "json.esc_all k = k" by (simp_all add: plain_name_def)
  from 8(1) [OF ok(1) 8(4,5)] obtain g where g: "dump_value f k v = Inr g" "fmt_ready g"
    "view g = (t @ lead_of p (st @ [e]) k @ render p (Suc (length st)) v, st @ [e\<lparr>je_size := je_size e + 1\<rparr>], p, l)"
    by auto
  from 8(2) [OF ok(2) g(2,3)] show ?case
    by (auto simp: g(1) pl lead_of_def)
qed

lemma new_ready: "fmt_ready (json_formatter_new p)" "view (json_formatter_new p) = ([], [], p, False)"
  by (simp_all add: json_formatter_new_def json_reset_def fmt_ready_def view_def set_str_def escapable_def ostream_new_def)

text \<open>C19: Dumping a JSON value, whose members have names without anything to escape, through a fresh \<open>JSONFormatter\<close>, compact or pretty, and flushing
  it prints exactly the JSON text of the value: members separated by commas, sections closed in order, strings escaped,
  with line breaks and indentation by nesting depth when pretty; strings streamed in pieces come out
  in their place, and the formatter is empty again. A name with a quote, a backslash or a control character is copied as it is, and the
  text is not that of the value then.\<close>

theorem json_dump_refines:
  assumes "names_ok name j" "os_width os = 0"
  shows "\<exists>f. dump_value (json_formatter_new p) name j = Inr f
    \<and> os_data (snd (json_flush f os)) = os_data os @ render p 0 j
    \<and> json_get_len (fst (json_flush f os)) = 0 \<and> m_stack (fst (json_flush f os)) = []"
proof -
  from dump_refines(1) [OF assms(1) new_ready] obtain f where f: "dump_value (json_formatter_new p) name j = Inr f"
    "view f = (render p 0 j, [], p, False)"
    by (auto simp: lead_of_def bump_def)
  with assms(2) show ?thesis
    by (auto simp: view_def json_flush_def put_str_plain json_get_len_def set_str_def Let_def)
qed

theorem json_dump_refines_witness:
  "\<exists>f. dump_value (json_formatter_new True) ''top'' (JSec False [(''a'', JUns 7), (''b'', JSec True [(''x'', JStream [''p'', ''q''])])]) = Inr f
    \<and> os_data (snd (json_flush f ostream_new)) = os_data ostream_new
        @ render True 0 (JSec False [(''a'', JUns 7), (''b'', JSec True [(''x'', JStream [''p'', ''q''])])])
    \<and> json_get_len (fst (json_flush f ostream_new)) = 0 \<and> m_stack (fst (json_flush f ostream_new)) = []"
  by (rule json_dump_refines) (simp_all add: ostream_new_def plain_name_def json_esc_def json_control_def)

text \<open>\<open>fixed_u_to_string\<close> prints a fixed-point number: the integral part without padding, the point and
  exactly \<open>scale\<close> fractional digits.\<close>

theorem fixed_u_to_string_correct:
  assumes "0 < scale"
  shows "fixed_u_to_string num scale = dec (unat num div 10 ^ scale) @ ''.'' @ dec_pad scale (unat num mod 10 ^ scale)
    \<and> length (dec_pad scale (unat num mod 10 ^ scale)) = scale"
proof -
  have len: "length (dec_pad scale (unat num mod 10 ^ scale)) = scale"
    using assms by (intro length_dec_pad) simp_all
  have "os_data (put_uint (setw (scale + 1) (set_fill (CHR ''0'') ostream_new)) (unat num)) = dec_pad (scale + 1) (unat num)"
    by (subst put_uint_setw) (simp_all add: set_fill_def plain_def ostream_new_def)
  with len show ?thesis
    by (simp add: fixed_u_to_string_def dec_pad_fixed [OF assms, simplified])
qed

theorem fixed_u_to_string_correct_witness:
  "fixed_u_to_string 1234 3 = dec (unat (1234 :: u64) div 10 ^ 3) @ ''.'' @ dec_pad 3 (unat (1234 :: u64) mod 10 ^ 3)
    \<and> length (dec_pad 3 (unat (1234 :: u64) mod 10 ^ 3)) = 3"
  by (rule fixed_u_to_string_correct) simp

text \<open>\<open>JSONFormatter::reset\<close> forgets the text and the name stack but not that a string is pending: a
  formatter that is reset while a string is being streamed prints an empty string at the next flush. A name
  with a double quote in it is printed as it is, so that the text is not the text of the value any more.\<close>

theorem json_reset_keeps_pending:
  "os_data (snd (json_flush (json_reset (json_stream_put (json_dump_stream (json_formatter_new p) ''n'') s)) ostream_new))
     = [CHR 0x22, CHR 0x22]
    \<and> (let f = json_dump_unsigned (json_open_object_section (json_formatter_new False) []) [CHR ''a'', CHR 0x22, CHR ''b''] 1
       in rbind (json_close_section f) (\<lambda>g. Inr (os_data (m_ss g)))
          = Inr [CHR ''{'', CHR 0x22, CHR ''a'', CHR 0x22, CHR ''b'', CHR 0x22, CHR '':'', CHR ''1'', CHR ''}''])"
proof -
  have "dec 1 = ''1''" by (simp add: dec.simps dec_digit_def) code_simp
  moreover
  have "json_dump_stream (json_formatter_new p) ''n'' = (json_formatter_new p)\<lparr>m_pending_name := ''n'', m_is_pending_string := True\<rparr>"
    by (simp add: json_dump_stream_def json_formatter_new_def json_reset_def)
  ultimately show ?thesis
    by (simp add: json_flush_def json_reset_def json_stream_put_def json_formatter_new_def finish_pending set_str_def
        escapable_def ostream_new_def put_str_plain lead_of_def bump_def value_text_def app_def put_int_plain
        json_dump_unsigned_def put_uint_plain plain_def json_open_object_section_def json_open_section_def
        print_name.simps name_body_eq put_char_plain add_value_idle lead_def json_close_section_def Let_def)
qed

end
