(* ===== verification/XmlFormatter.thy ===== *)
theory XmlFormatter
  imports JsonFormatter
begin

text \<open>
  \<open>XMLFormatter\<close> and \<open>FormatterAttrs\<close> of \<open>src/common/formatter.cc\<close>. The text is collected in \<open>m_ss\<close>;
  \<open>m_sections\<close> holds the names of the open elements (the last one is the innermost); a streamed string
  is pending while its name is not empty. The refinement theorem says that the calls that dump a tree
  produce the element of that tree, and that \<open>output_footer\<close> closes what is open.
\<close>

section \<open>Attributes\<close>

text \<open>The variadic constructor: names and values alternate, a null pointer ends the list. The arguments
  after the first are given as a list in which \<open>None\<close> is the null pointer.\<close>

fun formatter_attrs :: "string \<Rightarrow> string option list \<Rightarrow> (string \<times> string) list result" where
  "formatter_attrs s (None # r) = Inr []"
| "formatter_attrs s (Some v # None # r) = Inr [(s, v)]"
| "formatter_attrs s (Some v # Some s' # r) = rbind (formatter_attrs s' r) (\<lambda>as. Inr ((s, v) # as))"
| "formatter_attrs s _ = Inl OutOfBounds"

definition get_attrs_str :: "(string \<times> string) list \<Rightarrow> string" where
  "get_attrs_str attrs =
     os_data (foldl (\<lambda>os p. put_str (put_str (put_str (put_str (put_str (put_str os '' '') (fst p)) ''='') [CHR 0x22]) (snd p)) [CHR 0x22])
       ostream_new attrs)"

section \<open>State\<close>

record xml_formatter =
  x_ss :: ostream
  x_pending_string :: ostream
  x_sections :: "string list"
  x_pretty :: bool
  x_lowercased :: bool
  x_underscored :: bool
  x_pending_string_name :: string
  x_header_done :: bool
  x_line_break_enabled :: bool

definition xml_reset :: "xml_formatter \<Rightarrow> xml_formatter" where
  "xml_reset f = f\<lparr>x_ss := set_str [] (x_ss f), x_pending_string := set_str [] (x_pending_string f),
     x_sections := [], x_pending_string_name := [], x_header_done := False\<rparr>"

definition xml_formatter_new :: "bool \<Rightarrow> bool \<Rightarrow> bool \<Rightarrow> xml_formatter" where
  "xml_formatter_new pretty lowercased underscored =
     xml_reset \<lparr>x_ss = ostream_new, x_pending_string = ostream_new, x_sections = [], x_pretty = pretty,
       x_lowercased = lowercased, x_underscored = underscored, x_pending_string_name = [],
       x_header_done = False, x_line_break_enabled = False\<rparr>"

definition xml_enable_line_break :: "xml_formatter \<Rightarrow> xml_formatter" where
  "xml_enable_line_break f = f\<lparr>x_line_break_enabled := True\<rparr>"

text \<open>A chain of insertions into \<open>m_ss\<close>, and the line break that ends a line when pretty.\<close>

definition x_put :: "xml_formatter \<Rightarrow> string list \<Rightarrow> xml_formatter" where
  "x_put f ss = f\<lparr>x_ss := foldl put_str (x_ss f) ss\<rparr>"

definition x_newline :: "xml_formatter \<Rightarrow> xml_formatter" where
  "x_newline f = (if x_pretty f then x_put f [''\<newline>''] else f)"

definition x_escape :: "xml_formatter \<Rightarrow> string \<Rightarrow> xml_formatter" where
  "x_escape f s = f\<lparr>x_ss := xml_stream_escaper (x_ss f) s\<rparr>"

section \<open>Names, spaces and the pending string\<close>

definition tolower :: "char \<Rightarrow> char" where
  "tolower c = (let n = of_char c :: nat in if 65 \<le> n \<and> n \<le> 90 then char_of (n + 32) else c)"

definition to_lower_underscore :: "xml_formatter \<Rightarrow> char \<Rightarrow> char" where
  "to_lower_underscore f c =
     (if x_underscored f \<and> c = CHR '' '' then CHR ''_'' else if x_lowercased f then tolower c else c)"

definition elem_name :: "xml_formatter \<Rightarrow> string \<Rightarrow> string" where
  "elem_name f name = map (to_lower_underscore f) name"

definition xml_finish_pending_string :: "xml_formatter \<Rightarrow> xml_formatter" where
  "xml_finish_pending_string f =
     (if x_pending_string_name f \<noteq> [] then
        (let f1 = x_put (x_escape f (os_data (x_pending_string f))) [''</'', x_pending_string_name f, ''>''];
             f2 = f1\<lparr>x_pending_string_name := [], x_pending_string := set_str [] (x_pending_string f1)\<rparr>
         in x_newline f2)
      else f)"

definition print_spaces :: "xml_formatter \<Rightarrow> xml_formatter" where
  "print_spaces f =
     (let f1 = xml_finish_pending_string f
      in if x_pretty f1 then x_put f1 [replicate (length (x_sections f1)) (CHR '' '')] else f1)"

section \<open>Sections\<close>

definition xml_open_section_in_ns :: "xml_formatter \<Rightarrow> string \<Rightarrow> string option \<Rightarrow> (string \<times> string) list option \<Rightarrow> xml_formatter" where
  "xml_open_section_in_ns f name ns attrs =
     (let f1 = print_spaces f;
          attrs_str = (case attrs of Some a \<Rightarrow> get_attrs_str a | None \<Rightarrow> []);
          e = elem_name f1 name;
          f2 = (case ns of
                  Some n \<Rightarrow> x_put f1 [''<'', e, attrs_str, '' xmlns='' @ [CHR 0x22], n, [CHR 0x22, CHR ''>'']]
                | None \<Rightarrow> x_put f1 [''<'', e, attrs_str, ''>'']);
          f3 = x_newline f2
      in f3\<lparr>x_sections := x_sections f3 @ [name]\<rparr>)"

definition xml_open_section :: "xml_formatter \<Rightarrow> string \<Rightarrow> xml_formatter" where
  "xml_open_section f name = xml_open_section_in_ns f name None None"

definition xml_open_section_with_attrs :: "xml_formatter \<Rightarrow> string \<Rightarrow> (string \<times> string) list \<Rightarrow> xml_formatter" where
  "xml_open_section_with_attrs f name attrs = xml_open_section_in_ns f name None (Some attrs)"

definition xml_close_section :: "xml_formatter \<Rightarrow> xml_formatter result" where
  "xml_close_section f =
     kassert (x_sections f \<noteq> [])
      (let f1 = xml_finish_pending_string f;
           sec = elem_name f1 (last (x_sections f1));
           f2 = f1\<lparr>x_sections := butlast (x_sections f1)\<rparr>;
           f3 = print_spaces f2
       in Inr (x_newline (x_put f3 [''</'', sec, ''>''])))"

text \<open>\<open>while (!m_sections.empty ()) close_section ()\<close>: each round closes one section.\<close>

fun xml_footer_loop :: "nat \<Rightarrow> xml_formatter \<Rightarrow> xml_formatter result" where
  "xml_footer_loop 0 f = Inr f"
| "xml_footer_loop (Suc n) f =
     (if x_sections f \<noteq> [] then rbind (xml_close_section f) (xml_footer_loop n) else Inr f)"

definition xml_output_footer :: "xml_formatter \<Rightarrow> xml_formatter result" where
  "xml_output_footer f = xml_footer_loop (length (x_sections f)) f"

definition xml_write_raw_data :: "xml_formatter \<Rightarrow> string \<Rightarrow> xml_formatter" where
  "xml_write_raw_data f s = x_put f [s]"

definition XML_1_DTD :: string where
  "XML_1_DTD = ''<?xml version='' @ [CHR 0x22] @ ''1.0'' @ [CHR 0x22] @ '' encoding='' @ [CHR 0x22] @ ''UTF-8'' @ [CHR 0x22] @ ''?>''"

definition xml_output_header :: "xml_formatter \<Rightarrow> xml_formatter" where
  "xml_output_header f =
     (if \<not> x_header_done f then x_newline (xml_write_raw_data (f\<lparr>x_header_done := True\<rparr>) XML_1_DTD) else f)"

section \<open>Dumping\<close>

definition xml_add_value :: "xml_formatter \<Rightarrow> string \<Rightarrow> (ostream \<Rightarrow> ostream) \<Rightarrow> xml_formatter" where
  "xml_add_value f name put =
     (let e = elem_name f name;
          f1 = print_spaces f;
          f2 = x_put f1 [''<'', e, ''>''];
          f3 = f2\<lparr>x_ss := put (x_ss f2)\<rparr>
      in x_newline (x_put f3 [''</'', e, ''>'']))"

definition xml_dump_unsigned :: "xml_formatter \<Rightarrow> string \<Rightarrow> u64 \<Rightarrow> xml_formatter" where
  "xml_dump_unsigned f name u = xml_add_value f name (\<lambda>os. put_uint os (unat u))"

definition xml_dump_int :: "xml_formatter \<Rightarrow> string \<Rightarrow> 64 word \<Rightarrow> xml_formatter" where
  "xml_dump_int f name s = xml_add_value f name (\<lambda>os. put_int os (sint s))"

definition xml_dump_string_with_attrs :: "xml_formatter \<Rightarrow> string \<Rightarrow> string \<Rightarrow> (string \<times> string) list \<Rightarrow> xml_formatter" where
  "xml_dump_string_with_attrs f name s attrs =
     (let e = elem_name f name;
          attrs_str = get_attrs_str attrs;
          f1 = print_spaces f;
          f2 = x_escape (x_put f1 [''<'', e, attrs_str, ''>'']) s
      in x_newline (x_put f2 [''</'', e, ''>'']))"

definition xml_dump_string :: "xml_formatter \<Rightarrow> string \<Rightarrow> string \<Rightarrow> xml_formatter" where
  "xml_dump_string f name s =
     (let e = elem_name f name;
          f1 = print_spaces f;
          f2 = x_escape (x_put f1 [''<'', e, ''>'']) s
      in x_newline (x_put f2 [''</'', e, ''>'']))"

definition xml_dump_stream :: "xml_formatter \<Rightarrow> string \<Rightarrow> xml_formatter" where
  "xml_dump_stream f name =
     (let f1 = (print_spaces f)\<lparr>x_pending_string_name := name\<rparr>
      in x_put f1 [''<'', x_pending_string_name f1, ''>''])"

definition xml_stream_put :: "xml_formatter \<Rightarrow> string \<Rightarrow> xml_formatter" where
  "xml_stream_put f s = f\<lparr>x_pending_string := put_str (x_pending_string f) s\<rparr>"

text \<open>\<open>dump_format_va\<close>: \<open>vsnprintf\<close> returns the length the whole text would have, and the code reads that many
  bytes of its 1024-byte buffer. The buffer holds what fits and a terminator.\<close>

definition xml_dump_format_va :: "xml_formatter \<Rightarrow> string \<Rightarrow> string option \<Rightarrow> bool \<Rightarrow> string \<Rightarrow> xml_formatter result" where
  "xml_dump_format_va f name ns quoted txt =
     (let buf = take 1023 txt @ [CHR 0x00];
          len = length txt;
          e = elem_name f name;
          f1 = print_spaces f
      in if 1024 < len then Inl OutOfBounds
         else
           (let s = take len buf;
                f2 = (case ns of
                        Some n \<Rightarrow> x_escape (x_put f1 [''<'', e, '' xmlns='' @ [CHR 0x22], n, [CHR 0x22, CHR ''>'']]) s
                      | None \<Rightarrow> x_escape (x_put f1 [''<'', e, ''>'']) s)
            in Inr (x_newline (x_put f2 [''</'', e, ''>'']))))"

definition xml_dump_bool :: "xml_formatter \<Rightarrow> string \<Rightarrow> bool \<Rightarrow> xml_formatter result" where
  "xml_dump_bool f name b = xml_dump_format_va f name None False (if b then ''true'' else ''false'')"

definition xml_get_len :: "xml_formatter \<Rightarrow> nat" where
  "xml_get_len f = length (os_data (x_ss f))"

definition xml_write_bin_data :: "xml_formatter \<Rightarrow> string \<Rightarrow> nat \<Rightarrow> xml_formatter" where
  "xml_write_bin_data f buff buf_len = f\<lparr>x_ss := (x_ss f)\<lparr>os_data := os_data (x_ss f) @ take buf_len buff\<rparr>\<rparr>"

definition xml_flush :: "xml_formatter \<Rightarrow> ostream \<Rightarrow> xml_formatter \<times> ostream" where
  "xml_flush f os =
     (let f1 = xml_finish_pending_string f;
          s = os_data (x_ss f1);
          os1 = put_str os s;
          os2 = (if x_pretty f1 \<and> s \<noteq> [] then put_str os1 ''\<newline>''
                 else if x_line_break_enabled f1 then put_str os1 ''\<newline>'' else os1)
      in (f1\<lparr>x_ss := set_str [] (x_ss f1)\<rparr>, os2))"

section \<open>The text of a tree\<close>

datatype xval =
    XStr string
  | XUns u64
  | XInt "64 word"
  | XBool bool
  | XStream "string list"
  | XSec "(string \<times> xval) list"

definition line :: "bool \<Rightarrow> nat \<Rightarrow> string \<Rightarrow> string" where
  "line p n body = (if p then replicate n (CHR '' '') else []) @ body @ (if p then ''\<newline>'' else [])"

definition element :: "string \<Rightarrow> string \<Rightarrow> string" where
  "element e t = ''<'' @ e @ ''>'' @ t @ ''</'' @ e @ ''>''"

fun xrender :: "(char \<Rightarrow> char) \<Rightarrow> bool \<Rightarrow> nat \<Rightarrow> string \<Rightarrow> xval \<Rightarrow> string"
  and xrender_members :: "(char \<Rightarrow> char) \<Rightarrow> bool \<Rightarrow> nat \<Rightarrow> (string \<times> xval) list \<Rightarrow> string" where
  "xrender tr p n name (XStr s) = line p n (element (map tr name) (xml.esc_all s))"
| "xrender tr p n name (XUns u) = line p n (element (map tr name) (dec (unat u)))"
| "xrender tr p n name (XInt i) = line p n (element (map tr name) (signed_dec (sint i)))"
| "xrender tr p n name (XBool b) = line p n (element (map tr name) (if b then ''true'' else ''false''))"
| "xrender tr p n name (XStream ss) = line p n (element name (xml.esc_all (concat ss)))"
| "xrender tr p n name (XSec ms) =
     line p n (''<'' @ map tr name @ ''>'') @ xrender_members tr p (Suc n) ms @ line p n (''</'' @ map tr name @ ''>'')"
| "xrender_members tr p n [] = []"
| "xrender_members tr p n ((k, v) # ms) = xrender tr p n k v @ xrender_members tr p n ms"

fun xdump_value :: "xml_formatter \<Rightarrow> string \<Rightarrow> xval \<Rightarrow> xml_formatter result"
  and xdump_members :: "xml_formatter \<Rightarrow> (string \<times> xval) list \<Rightarrow> xml_formatter result" where
  "xdump_value f name (XStr s) = Inr (xml_dump_string f name s)"
| "xdump_value f name (XUns u) = Inr (xml_dump_unsigned f name u)"
| "xdump_value f name (XInt i) = Inr (xml_dump_int f name i)"
| "xdump_value f name (XBool b) = xml_dump_bool f name b"
| "xdump_value f name (XStream ss) = Inr (foldl xml_stream_put (xml_dump_stream f name) ss)"
| "xdump_value f name (XSec ms) = rbind (xdump_members (xml_open_section f name) ms) xml_close_section"
| "xdump_members f [] = Inr f"
| "xdump_members f ((k, v) # ms) = rbind (xdump_value f k v) (\<lambda>g. xdump_members g ms)"

text \<open>A streamed element has a name: with an empty one the code never closes it.\<close>

fun xnames_ok :: "string \<Rightarrow> xval \<Rightarrow> bool"
  and xnames_ok_list :: "(string \<times> xval) list \<Rightarrow> bool" where
  "xnames_ok name (XStream ss) = (name \<noteq> [])"
| "xnames_ok name (XSec ms) = xnames_ok_list ms"
| "xnames_ok name (XStr s) = True"
| "xnames_ok name (XUns u) = True"
| "xnames_ok name (XInt i) = True"
| "xnames_ok name (XBool b) = True"
| "xnames_ok_list [] = True"
| "xnames_ok_list ((k, v) # ms) = (xnames_ok k v \<and> xnames_ok_list ms)"

section \<open>Refinement\<close>

definition xready :: "xml_formatter \<Rightarrow> bool" where
  "xready f \<longleftrightarrow> plain (x_ss f) \<and> os_width (x_pending_string f) = 0
     \<and> (x_pending_string_name f = [] \<longrightarrow> os_data (x_pending_string f) = [])"

definition xapp :: "xml_formatter \<Rightarrow> string \<Rightarrow> xml_formatter" where
  "xapp f t = f\<lparr>x_ss := (x_ss f)\<lparr>os_data := os_data (x_ss f) @ t\<rparr>\<rparr>"

definition xview :: "xml_formatter \<Rightarrow> string \<times> string list \<times> bool \<times> (char \<Rightarrow> char)" where
  "xview f = (os_data (x_ss (xml_finish_pending_string f)), x_sections f, x_pretty f, to_lower_underscore f)"

lemma plain_escapable: "plain os \<Longrightarrow> escapable os"
  by (simp add: plain_def escapable_def)

lemma xapp_simps [simp]:
  "xapp (xapp f s) t = xapp f (s @ t)" "xapp f [] = f"
  "x_sections (xapp f t) = x_sections f" "x_pretty (xapp f t) = x_pretty f"
  "x_pending_string_name (xapp f t) = x_pending_string_name f"
  "x_pending_string (xapp f t) = x_pending_string f"
  "plain (x_ss (xapp f t)) = plain (x_ss f)" "os_data (x_ss (xapp f t)) = os_data (x_ss f) @ t"
  "xready (xapp f t) = xready f" "elem_name (xapp f t) = elem_name f"
  "to_lower_underscore (xapp f t) = to_lower_underscore f"
  "x_line_break_enabled (xapp f t) = x_line_break_enabled f"
  by (simp_all add: xapp_def xready_def elem_name_def to_lower_underscore_def fun_eq_iff)

lemma x_put_xapp: "plain (x_ss f) \<Longrightarrow> x_put f ss = xapp f (concat ss)"
proof -
  have "plain os \<Longrightarrow> foldl put_str os ss = os\<lparr>os_data := os_data os @ concat ss\<rparr>" for os
    by (induction ss arbitrary: os) (simp_all add: put_str_plain plain_width)
  then show "plain (x_ss f) \<Longrightarrow> x_put f ss = xapp f (concat ss)" by (simp add: x_put_def xapp_def)
qed

lemma x_escape_xapp: "plain (x_ss f) \<Longrightarrow> x_escape f s = xapp f (xml.esc_all s)"
  by (simp add: x_escape_def xapp_def xml_stream_data plain_escapable)

lemma x_newline_xapp: "plain (x_ss f) \<Longrightarrow> x_newline f = xapp f (if x_pretty f then ''\<newline>'' else [])"
  by (simp add: x_newline_def x_put_xapp)

lemmas x_ops = x_put_xapp x_escape_xapp x_newline_xapp

lemma xfinish_idle [simp]: "x_pending_string_name f = [] \<Longrightarrow> xml_finish_pending_string f = f"
  by (simp add: xml_finish_pending_string_def)

lemma xfinish_frame [simp]:
  "x_sections (xml_finish_pending_string f) = x_sections f" "x_pretty (xml_finish_pending_string f) = x_pretty f"
  "to_lower_underscore (xml_finish_pending_string f) = to_lower_underscore f"
  "elem_name (xml_finish_pending_string f) = elem_name f"
  by (simp_all add: xml_finish_pending_string_def x_newline_def x_put_def x_escape_def Let_def
      to_lower_underscore_def elem_name_def fun_eq_iff)

lemma xsettle_ready:
  assumes "xready f"
  shows "xready (xml_finish_pending_string f)" "x_pending_string_name (xml_finish_pending_string f) = []"
  using assms
  by (cases "x_pending_string_name f = []";
      simp add: xml_finish_pending_string_def x_ops xready_def Let_def set_str_def; simp add: xapp_def xready_def x_newline_xapp)+

lemma print_spaces_eq:
  assumes "xready f"
  shows "print_spaces f = xapp (xml_finish_pending_string f)
    (if x_pretty f then replicate (length (x_sections f)) (CHR '' '') else [])"
  using xsettle_ready(1) [OF assms] by (simp add: print_spaces_def x_ops xready_def)

text \<open>Writing one line.\<close>

definition put_line :: "xml_formatter \<Rightarrow> string \<Rightarrow> xml_formatter" where
  "put_line f body = xapp (print_spaces f) (body @ (if x_pretty f then ''\<newline>'' else []))"

lemma put_line_view:
  assumes "xready f" "xview f = (t, st, p, tr)"
  shows "xready (put_line f body)" "xview (put_line f body) = (t @ line p (length st) body, st, p, tr)"
    and "x_pending_string_name (put_line f body) = []"
  using assms xsettle_ready [OF assms(1)]
  by (auto simp: put_line_def print_spaces_eq xview_def line_def)

lemma print_spaces_frame [simp]:
  assumes "xready f"
  shows "plain (x_ss (print_spaces f))" "x_pretty (print_spaces f) = x_pretty f"
    "elem_name (print_spaces f) = elem_name f" "x_pending_string_name (print_spaces f) = []"
    "os_width (x_pending_string (print_spaces f)) = 0" "os_data (x_pending_string (print_spaces f)) = []"
    "x_sections (print_spaces f) = x_sections f" "to_lower_underscore (print_spaces f) = to_lower_underscore f"
  using xsettle_ready [OF assms] assms by (simp_all add: print_spaces_eq xready_def)

lemma get_attrs_Nil [simp]: "get_attrs_str [] = []"
  by (simp add: get_attrs_str_def ostream_new_def)

lemma add_value_line:
  assumes "xready f" "\<And>os. plain os \<Longrightarrow> put os = os\<lparr>os_data := os_data os @ w\<rparr>"
  shows "xml_add_value f name put = put_line f (element (elem_name f name) w)"
proof -
  let ?g = "xapp (print_spaces f) (''<'' @ elem_name f name @ ''>'')"
  have "?g\<lparr>x_ss := put (x_ss ?g)\<rparr> = xapp ?g w"
    using assms by (simp add: assms(2)) (simp add: xapp_def)
  then show ?thesis
    using assms(1) by (simp add: xml_add_value_def x_put_xapp x_newline_xapp put_line_def element_def Let_def)
qed

lemma dump_lines:
  assumes "xready f"
  shows "xml_dump_string f name s = put_line f (element (elem_name f name) (xml.esc_all s))"
    and "xml_dump_unsigned f name u = put_line f (element (elem_name f name) (dec (unat u)))"
    and "xml_dump_int f name i = put_line f (element (elem_name f name) (signed_dec (sint i)))"
    and "xml_dump_bool f name b = Inr (put_line f (element (elem_name f name) (xml.esc_all (if b then ''true'' else ''false''))))"
    and "xml_open_section f name = (put_line f (''<'' @ elem_name f name @ ''>''))\<lparr>x_sections := x_sections f @ [name]\<rparr>"
proof -
  show "xml_dump_string f name s = put_line f (element (elem_name f name) (xml.esc_all s))"
    using assms by (simp add: xml_dump_string_def x_ops put_line_def element_def Let_def)
  show "xml_dump_unsigned f name u = put_line f (element (elem_name f name) (dec (unat u)))"
    unfolding xml_dump_unsigned_def by (rule add_value_line [OF assms]) (rule put_uint_plain)
  show "xml_dump_int f name i = put_line f (element (elem_name f name) (signed_dec (sint i)))"
    unfolding xml_dump_int_def by (rule add_value_line [OF assms]) (simp add: put_int_plain signed_dec_def)
  show "xml_dump_bool f name b = Inr (put_line f (element (elem_name f name) (xml.esc_all (if b then ''true'' else ''false''))))"
    using assms by (cases b) (simp_all add: xml_dump_bool_def xml_dump_format_va_def x_ops put_line_def element_def Let_def)
  show "xml_open_section f name = (put_line f (''<'' @ elem_name f name @ ''>''))\<lparr>x_sections := x_sections f @ [name]\<rparr>"
    using assms by (simp add: xml_open_section_def xml_open_section_in_ns_def x_ops put_line_def Let_def)
qed

lemma xml_esc_bool: "xml.esc_all (if b then ''true'' else ''false'') = (if b then ''true'' else ''false'')"
  by (simp add: xml_esc_def xml_control_def)

lemma to_lower_frame [simp]:
  "to_lower_underscore (f\<lparr>x_sections := st\<rparr>) = to_lower_underscore f"
  "to_lower_underscore (f\<lparr>x_pending_string := q\<rparr>) = to_lower_underscore f"
  "to_lower_underscore (f\<lparr>x_pending_string_name := n\<rparr>) = to_lower_underscore f"
  by (simp_all add: to_lower_underscore_def fun_eq_iff)

lemma elem_name_tr: "xview f = (t, st, p, tr) \<Longrightarrow> elem_name f name = map tr name"
  by (auto simp: xview_def elem_name_def)

lemma xstream_put_all:
  "os_width (x_pending_string f) = 0 \<Longrightarrow>
    foldl xml_stream_put f ss = f\<lparr>x_pending_string := (x_pending_string f)\<lparr>os_data := os_data (x_pending_string f) @ concat ss\<rparr>\<rparr>"
  by (induction ss arbitrary: f) (simp_all add: xml_stream_put_def put_str_plain)

lemma xdump_stream_view:
  assumes "xready f" "xview f = (t, st, p, tr)" "name \<noteq> []"
  shows "xready (foldl xml_stream_put (xml_dump_stream f name) ss)"
    and "xview (foldl xml_stream_put (xml_dump_stream f name) ss)
      = (t @ line p (length st) (element name (xml.esc_all (concat ss))), st, p, tr)"
proof -
  let ?g = "print_spaces f"
  have d: "xml_dump_stream f name = xapp (?g\<lparr>x_pending_string_name := name\<rparr>) (''<'' @ name @ ''>'')"
    using assms(1) by (simp add: xml_dump_stream_def x_put_xapp Let_def)
  let ?h = "(xml_dump_stream f name)\<lparr>x_pending_string := (x_pending_string ?g)\<lparr>os_data := concat ss\<rparr>\<rparr>"
  have h: "foldl xml_stream_put (xml_dump_stream f name) ss = ?h"
    using assms(1) by (subst xstream_put_all) (simp_all add: d)
  have plain: "plain (x_ss ?h)" using assms(1) by (simp add: d xapp_def)
  have fin: "xml_finish_pending_string ?h
    = (xapp ?h (xml.esc_all (concat ss) @ ''</'' @ name @ ''>'' @ (if p then ''\<newline>'' else [])))
      \<lparr>x_pending_string_name := [], x_pending_string := set_str [] (x_pending_string ?h)\<rparr>"
  proof -
    have p: "x_pretty ?h = p" using assms(1,2) by (simp add: d xview_def)
    let ?k = "(xapp ?h (xml.esc_all (concat ss) @ ''</'' @ name @ ''>''))
      \<lparr>x_pending_string_name := [], x_pending_string := set_str [] (x_pending_string ?h)\<rparr>"
    have "xml_finish_pending_string ?h = x_newline ?k"
      using plain assms(3) by (simp add: xml_finish_pending_string_def x_put_xapp x_escape_xapp Let_def d xapp_def)
    also have "\<dots> = xapp ?k (if p then ''\<newline>'' else [])"
      using plain p by (subst x_newline_xapp) (simp_all add: d xapp_def)
    finally show ?thesis by (simp add: xapp_def)
  qed
  show "xready (foldl xml_stream_put (xml_dump_stream f name) ss)"
    unfolding h using plain assms(1,3) by (simp add: xready_def) (simp add: d)
  have "x_sections ?h = st" "x_pretty ?h = p" "to_lower_underscore ?h = tr"
    "os_data (x_ss ?h) = t @ (if p then replicate (length st) (CHR '' '') else []) @ ''<'' @ name @ ''>''"
    using assms(1,2) xsettle_ready [OF assms(1)]
    by (auto simp: d xview_def print_spaces_eq)
  then show "xview (foldl xml_stream_put (xml_dump_stream f name) ss)
      = (t @ line p (length st) (element name (xml.esc_all (concat ss))), st, p, tr)"
    unfolding h xview_def fin by (simp add: line_def element_def)
qed

lemma xclose_view:
  assumes "xready f" "xview f = (t, st @ [name], p, tr)"
  shows "\<exists>g. xml_close_section f = Inr g \<and> xready g \<and> xview g = (t @ line p (length st) (''</'' @ map tr name @ ''>''), st, p, tr)"
proof -
  let ?g = "xml_finish_pending_string f"
  let ?h = "?g\<lparr>x_sections := st\<rparr>"
  have secs: "x_sections f = st @ [name]" using assms(2) by (simp add: xview_def)
  have r: "xready ?h" using xsettle_ready [OF assms(1)] by (simp add: xready_def)
  have v: "xview ?h = (t, st, p, tr)"
    using assms(2) xsettle_ready [OF assms(1)]
    by (auto simp: xview_def)
  have "xml_close_section f = Inr (put_line ?h (''</'' @ map tr name @ ''>''))"
    using secs r elem_name_tr [OF assms(2)]
    by (simp add: xml_close_section_def put_line_def x_ops Let_def)
  with put_line_view [OF r v] show ?thesis by auto
qed

lemma xopen_view:
  assumes "xready f" "xview f = (t, st, p, tr)"
  shows "xready (xml_open_section f name)"
    and "xview (xml_open_section f name) = (t @ line p (length st) (''<'' @ map tr name @ ''>''), st @ [name], p, tr)"
proof -
  have eq: "xml_open_section f name = (put_line f (''<'' @ map tr name @ ''>''))\<lparr>x_sections := st @ [name]\<rparr>"
    using assms dump_lines(5) [OF assms(1)] elem_name_tr [OF assms(2)] by (simp add: xview_def)
  note line = put_line_view [OF assms, of "''<'' @ map tr name @ ''>''"]
  show "xready (xml_open_section f name)"
    using line(1) by (simp add: eq xready_def)
  show "xview (xml_open_section f name) = (t @ line p (length st) (''<'' @ map tr name @ ''>''), st @ [name], p, tr)"
    using line(2,3) by (simp add: eq xview_def)
qed

lemma xdump_refines:
  "xnames_ok name j \<Longrightarrow> xready f \<Longrightarrow> xview f = (t, st, p, tr) \<Longrightarrow>
    \<exists>g. xdump_value f name j = Inr g \<and> xready g \<and> xview g = (t @ xrender tr p (length st) name j, st, p, tr)"
  "xnames_ok_list ms \<Longrightarrow> xready f \<Longrightarrow> xview f = (t, st, p, tr) \<Longrightarrow>
    \<exists>g. xdump_members f ms = Inr g \<and> xready g \<and> xview g = (t @ xrender_members tr p (length st) ms, st, p, tr)"
proof (induction f name j and f ms arbitrary: t st p tr and t st p tr rule: xdump_value_xdump_members.induct)
  case (6 f name ms)
  from 6(2) have ok: "xnames_ok_list ms" by simp
  from 6(1) [OF ok xopen_view [OF 6(3,4)]] obtain g where g: "xdump_members (xml_open_section f name) ms = Inr g" "xready g"
    "xview g = (t @ line p (length st) (''<'' @ map tr name @ ''>'') @ xrender_members tr p (Suc (length st)) ms, st @ [name], p, tr)"
    by auto
  from xclose_view [OF g(2,3)] show ?case by (auto simp: g(1))
next
  case (8 f k v ms)
  from 8(3) have ok: "xnames_ok k v" "xnames_ok_list ms" by simp_all
  from 8(1) [OF ok(1) 8(4,5)] obtain g where g: "xdump_value f k v = Inr g" "xready g"
    "xview g = (t @ xrender tr p (length st) k v, st, p, tr)"
    by auto
  from 8(2) [OF ok(2) g(2,3)] show ?case by (auto simp: g(1))
qed (auto simp: dump_lines put_line_view elem_name_tr xml_esc_bool xdump_stream_view
      simp del: xml.esc_all_simps foldl_Cons)

text \<open>The tags of nested sections.\<close>

fun open_tags :: "(char \<Rightarrow> char) \<Rightarrow> bool \<Rightarrow> nat \<Rightarrow> string list \<Rightarrow> string" where
  "open_tags tr p n [] = []"
| "open_tags tr p n (s # ss) = line p n (''<'' @ map tr s @ ''>'') @ open_tags tr p (Suc n) ss"

fun close_tags :: "(char \<Rightarrow> char) \<Rightarrow> bool \<Rightarrow> nat \<Rightarrow> string list \<Rightarrow> string" where
  "close_tags tr p n [] = []"
| "close_tags tr p n (s # ss) = close_tags tr p (Suc n) ss @ line p n (''</'' @ map tr s @ ''>'')"

lemma close_tags_snoc:
  "close_tags tr p n (ss @ [s]) = line p (n + length ss) (''</'' @ map tr s @ ''>'') @ close_tags tr p n ss"
  by (induction ss arbitrary: n) simp_all

lemma xfooter_closes:
  assumes "xready f" "xview f = (t, st, p, tr)"
  shows "\<exists>g. xml_footer_loop (length st) f = Inr g \<and> xready g \<and> xview g = (t @ close_tags tr p 0 st, [], p, tr)"
  using assms
proof (induction st arbitrary: f t rule: rev_induct)
  case (snoc name st)
  have secs: "x_sections f = st @ [name]" using snoc.prems(2) by (simp add: xview_def)
  from xclose_view [OF snoc.prems] obtain g where g: "xml_close_section f = Inr g" "xready g"
    "xview g = (t @ line p (length st) (''</'' @ map tr name @ ''>''), st, p, tr)" by auto
  from snoc.IH [OF g(2,3)] show ?case by (auto simp: secs g(1) close_tags_snoc)
qed auto

lemma xopens_view:
  assumes "xready f" "xview f = (t, st, p, tr)"
  shows "xready (foldl xml_open_section f names)
    \<and> xview (foldl xml_open_section f names) = (t @ open_tags tr p (length st) names, st @ names, p, tr)"
  using assms
proof (induction names arbitrary: f t st)
  case (Cons n names)
  from Cons.IH [OF xopen_view [OF Cons.prems]] show ?case by simp
qed simp

lemma xnew_ready:
  "xready (xml_formatter_new p lo un)"
  "xview (xml_formatter_new p lo un) = ([], [], p, to_lower_underscore (xml_formatter_new p lo un))"
  by (simp_all add: xml_formatter_new_def xml_reset_def xready_def xview_def plain_def set_str_def ostream_new_def)

lemma xview_text:
  assumes "xview f = (t, st, p, tr)" "os_width os = 0" "x_line_break_enabled f = False"
  shows "os_data (snd (xml_flush f os)) = os_data os @ t @ (if p \<and> t \<noteq> [] then ''\<newline>'' else [])"
proof -
  have "x_line_break_enabled (xml_finish_pending_string f) = False"
    using assms(3) by (simp add: xml_finish_pending_string_def x_newline_def x_put_def x_escape_def Let_def)
  with assms(1,2) show ?thesis by (auto simp: xview_def xml_flush_def put_str_plain Let_def)
qed

text \<open>Dumping a tree through a fresh \<open>XMLFormatter\<close> prints exactly the elements of the tree: every element
  is closed with the name it was opened with, in order, its text escaped, one line per tag and indented
  by depth when pretty. If sections are opened after it and left open, \<open>output_footer\<close> ends, closes every one of
  them from the inside out, and leaves none open.\<close>

theorem xml_dump_refines:
  assumes "xnames_ok name j" "tr = to_lower_underscore (xml_formatter_new p lo un)"
  shows "\<exists>f g. xdump_value (xml_formatter_new p lo un) name j = Inr f
    \<and> os_data (x_ss (xml_finish_pending_string f)) = xrender tr p 0 name j \<and> x_sections f = []
    \<and> xml_output_footer (foldl xml_open_section f names) = Inr g \<and> x_sections g = []
    \<and> os_data (x_ss (xml_finish_pending_string g))
        = xrender tr p 0 name j @ open_tags tr p 0 names @ close_tags tr p 0 names"
proof -
  from xdump_refines(1) [OF assms(1) xnew_ready(1) [of p lo un] xnew_ready(2) [of p lo un]] obtain f where
    f: "xdump_value (xml_formatter_new p lo un) name j = Inr f" "xready f" "xview f = (xrender tr p 0 name j, [], p, tr)"
    unfolding assms(2) by auto
  let ?h = "foldl xml_open_section f names"
  from xopens_view [OF f(2,3), of names] have h: "xready ?h"
    "xview ?h = (xrender tr p 0 name j @ open_tags tr p 0 names, names, p, tr)" by simp_all
  from xfooter_closes [OF h] obtain g where g: "xml_footer_loop (length names) ?h = Inr g"
    "xview g = (xrender tr p 0 name j @ open_tags tr p 0 names @ close_tags tr p 0 names, [], p, tr)" by auto
  from f g h(2) show ?thesis by (auto simp: xview_def xml_output_footer_def)
qed

theorem xml_dump_refines_witness:
  "\<exists>f g. xdump_value (xml_formatter_new True True True) ''Top'' (XSec [(''A b'', XUns 7), (''s'', XStream [''p'', ''q''])]) = Inr f
    \<and> os_data (x_ss (xml_finish_pending_string f)) = xrender (to_lower_underscore (xml_formatter_new True True True)) True 0 ''Top''
        (XSec [(''A b'', XUns 7), (''s'', XStream [''p'', ''q''])]) \<and> x_sections f = []
    \<and> xml_output_footer (foldl xml_open_section f [''x'', ''y'']) = Inr g \<and> x_sections g = []
    \<and> os_data (x_ss (xml_finish_pending_string g))
        = xrender (to_lower_underscore (xml_formatter_new True True True)) True 0 ''Top''
            (XSec [(''A b'', XUns 7), (''s'', XStream [''p'', ''q''])])
          @ open_tags (to_lower_underscore (xml_formatter_new True True True)) True 0 [''x'', ''y'']
          @ close_tags (to_lower_underscore (xml_formatter_new True True True)) True 0 [''x'', ''y'']"
  by (rule xml_dump_refines) simp_all

text \<open>\<open>XMLFormatter::dump_format_va\<close> takes the length \<open>vsnprintf\<close> returns, which is that of the whole text,
  for the number of bytes in its buffer of 1024: a longer text makes it read past the buffer, and a text of
  exactly 1024 characters comes out without its last character and with the terminator escaped instead.\<close>

theorem xml_dump_format_overreads:
  assumes "xready f"
  shows "(length txt < 1024 \<longrightarrow> xml_dump_format_va f name None quoted txt
        = Inr (put_line f (element (elem_name f name) (xml.esc_all txt))))
    \<and> (length txt = 1024 \<longrightarrow> xml_dump_format_va f name None quoted txt
        = Inr (put_line f (element (elem_name f name) (xml.esc_all (take 1023 txt) @ ''&#x00;''))))
    \<and> (1024 < length txt \<longrightarrow> xml_dump_format_va f name None quoted txt = Inl OutOfBounds)"
proof -
  have nul: "xml.esc_all [CHR 0x00] = ''&#x00;''" by (simp add: xml_esc_def xml_control_def) code_simp
  have app: "xml.esc_all (s @ t) = xml.esc_all s @ xml.esc_all t" for s t by (simp add: xml.esc_all_def)
  have "txt = [] \<or> take (length txt) (take 1023 txt @ [CHR 0x00]) = txt" if "length txt < 1024" using that by auto
  with assms nul app [of "take 1023 txt" "[CHR 0x00]"] show ?thesis
    by (auto simp: xml_dump_format_va_def x_ops put_line_def element_def Let_def)
qed

theorem xml_dump_format_overreads_witness:
  "(length (replicate 1025 (CHR ''x'')) < 1024 \<longrightarrow> xml_dump_format_va (xml_formatter_new False False True) ''n'' None True (replicate 1025 (CHR ''x''))
        = Inr (put_line (xml_formatter_new False False True)
            (element (elem_name (xml_formatter_new False False True) ''n'') (xml.esc_all (replicate 1025 (CHR ''x''))))))
    \<and> (length (replicate 1025 (CHR ''x'')) = 1024 \<longrightarrow> xml_dump_format_va (xml_formatter_new False False True) ''n'' None True (replicate 1025 (CHR ''x''))
        = Inr (put_line (xml_formatter_new False False True)
            (element (elem_name (xml_formatter_new False False True) ''n'') (xml.esc_all (take 1023 (replicate 1025 (CHR ''x''))) @ ''&#x00;''))))
    \<and> (1024 < length (replicate 1025 (CHR ''x'')) \<longrightarrow> xml_dump_format_va (xml_formatter_new False False True) ''n'' None True (replicate 1025 (CHR ''x''))
        = Inl OutOfBounds)"
  by (rule xml_dump_format_overreads) (rule xnew_ready)

end
