(* ===== verification/TableFormatter.thy ===== *)
theory TableFormatter
  imports XmlFormatter
begin

text \<open>
  \<open>TableFormatter\<close> of \<open>src/common/formatter.cc\<close> and \<open>Formatter::create\<close>. Values are collected as rows of
  key/value pairs in \<open>m_vec\<close> and printed by \<open>flush\<close>. Vector accesses out of range are faults. The counters of sections are integers
  here; the \<open>int\<close> of the code overflows only with two thousand million open sections.
\<close>

section \<open>State\<close>

record table_formatter =
  t_vec :: "(string \<times> string) list list"
  t_ss :: ostream
  t_pending_name :: string
  t_keyval :: bool
  t_section_open :: int
  t_section :: "string list"
  t_section_cnt :: "string \<Rightarrow> int"
  t_column_size :: "nat list"
  t_column_name :: "string list"

text \<open>\<open>reset\<close> leaves the rows, the open sections and the pending name alone.\<close>

definition table_reset :: "table_formatter \<Rightarrow> table_formatter" where
  "table_reset f = f\<lparr>t_ss := set_str [] (t_ss f), t_section_cnt := (\<lambda>_. 0), t_column_size := [], t_section_open := 0\<rparr>"

definition table_formatter_new :: "bool \<Rightarrow> table_formatter" where
  "table_formatter_new keyval = table_reset \<lparr>t_vec = [], t_ss = ostream_new, t_pending_name = [], t_keyval = keyval,
     t_section_open = 0, t_section = [], t_section_cnt = (\<lambda>_. 0), t_column_size = [], t_column_name = []\<rparr>"

definition table_open_section :: "table_formatter \<Rightarrow> string \<Rightarrow> table_formatter" where
  "table_open_section f name = f\<lparr>t_section := t_section f @ [name], t_section_open := t_section_open f + 1\<rparr>"

definition table_close_section :: "table_formatter \<Rightarrow> table_formatter" where
  "table_close_section f =
     (let f1 = f\<lparr>t_section_open := t_section_open f - 1\<rparr>
      in if t_section f1 \<noteq> [] then
           f1\<lparr>t_section_cnt := (t_section_cnt f1)(last (t_section f1) := 0), t_section := butlast (t_section f1)\<rparr>
         else f1)"

section \<open>Rows and names\<close>

text \<open>The row the next pair goes to: a new one when the key repeats the first key of the current row.\<close>

definition m_vec_index :: "table_formatter \<Rightarrow> string \<Rightarrow> table_formatter \<times> nat" where
  "m_vec_index f key =
     (let i = length (t_vec f) - 1;
          f1 = (if t_vec f = [] then f\<lparr>t_vec := [[]]\<rparr> else f)
      in if t_vec f1 ! i \<noteq> [] \<and> fst (t_vec f1 ! i ! 0) = key
         then (f1\<lparr>t_vec := t_vec f1 @ [[]]\<rparr>, i + 1)
         else (f1, i))"

definition get_section_name :: "table_formatter \<Rightarrow> string \<Rightarrow> table_formatter \<times> string" where
  "get_section_name f name =
     (let t_name = foldl (\<lambda>t s. s @ '':'' @ t) name (t_section f)
      in if t_section_open f \<noteq> 0 then
           (f\<lparr>t_section_cnt := (t_section_cnt f)(t_name := t_section_cnt f t_name + 1)\<rparr>,
            os_data (put_str (put_int (put_str (put_str ostream_new t_name) ''['') (t_section_cnt f t_name)) '']''))
         else (f, t_name))"

text \<open>Every dump ends like this: the text collected in \<open>m_ss\<close> becomes the value of a new pair.\<close>

definition push_pair :: "table_formatter \<Rightarrow> nat \<Rightarrow> string \<Rightarrow> table_formatter" where
  "push_pair f i name =
     (let (f1, sn) = get_section_name f name
      in f1\<lparr>t_vec := (t_vec f1)[i := t_vec f1 ! i @ [(sn, os_data (t_ss f1))]], t_ss := set_str [] (t_ss f1)\<rparr>)"

definition table_put_value :: "table_formatter \<Rightarrow> string \<Rightarrow> (ostream \<Rightarrow> ostream) \<Rightarrow> table_formatter" where
  "table_put_value f name put =
     (let (f1, i) = m_vec_index f name in push_pair (f1\<lparr>t_ss := put (t_ss f1)\<rparr>) i name)"

text \<open>\<open>finish_pending_string\<close> clears the pending name before it calls \<open>dump_string\<close>, whose own call of
  \<open>finish_pending_string\<close> then does nothing.\<close>

definition table_finish_pending_string :: "table_formatter \<Rightarrow> table_formatter" where
  "table_finish_pending_string f =
     (if t_pending_name f \<noteq> [] then
        (let ss = os_data (t_ss f);
             name = t_pending_name f;
             f1 = f\<lparr>t_ss := set_str [] (t_ss f), t_pending_name := []\<rparr>
         in table_put_value f1 (takeWhile (\<lambda>c. c \<noteq> CHR 0x00) name) (\<lambda>os. put_str os ss))
      else f)"

section \<open>Dumping\<close>

definition table_dump_string :: "table_formatter \<Rightarrow> string \<Rightarrow> string \<Rightarrow> table_formatter" where
  "table_dump_string f name s = table_put_value (table_finish_pending_string f) name (\<lambda>os. put_str os s)"

definition table_dump_unsigned :: "table_formatter \<Rightarrow> string \<Rightarrow> u64 \<Rightarrow> table_formatter" where
  "table_dump_unsigned f name u = table_put_value (table_finish_pending_string f) name (\<lambda>os. put_uint os (unat u))"

definition table_dump_int :: "table_formatter \<Rightarrow> string \<Rightarrow> 64 word \<Rightarrow> table_formatter" where
  "table_dump_int f name s = table_put_value (table_finish_pending_string f) name (\<lambda>os. put_int os (sint s))"

definition table_dump_string_with_attrs :: "table_formatter \<Rightarrow> string \<Rightarrow> string \<Rightarrow> (string \<times> string) list \<Rightarrow> table_formatter" where
  "table_dump_string_with_attrs f name s attrs =
     table_put_value (table_finish_pending_string f) name (\<lambda>os. put_str (put_str os (get_attrs_str attrs)) s)"

definition table_dump_format_va :: "table_formatter \<Rightarrow> string \<Rightarrow> string option \<Rightarrow> bool \<Rightarrow> string \<Rightarrow> table_formatter" where
  "table_dump_format_va f name ns quoted txt =
     (let buf = takeWhile (\<lambda>c. c \<noteq> CHR 0x00) (take 1023 txt)
      in table_put_value (table_finish_pending_string f) name
           (\<lambda>os. case ns of Some n \<Rightarrow> put_str (put_str (put_str os n) ''.'') buf | None \<Rightarrow> put_str os buf))"

definition table_dump_stream :: "table_formatter \<Rightarrow> string \<Rightarrow> table_formatter" where
  "table_dump_stream f name = (table_finish_pending_string f)\<lparr>t_pending_name := name\<rparr>"

section \<open>Printing\<close>

text \<open>\<open>vector::resize\<close>, and the test of an index.\<close>

definition resize :: "nat \<Rightarrow> 'a \<Rightarrow> 'a list \<Rightarrow> 'a list" where
  "resize n d xs = take n xs @ replicate (n - length xs) d"

definition in_range :: "bool \<Rightarrow> 'a result \<Rightarrow> 'a result" where
  "in_range b r = (if b then r else Inl OutOfBounds)"

text \<open>One step of the column sizing loop, for the cell in row \<open>i\<close> and column \<open>j\<close>. The state is the column
  sizes, the column names and the rows that need a header.\<close>

definition size_cell :: "(string \<times> string) list list \<Rightarrow> nat \<Rightarrow> nat \<Rightarrow> nat list \<times> string list \<times> nat set \<Rightarrow> (nat list \<times> string list \<times> nat set) result" where
  "size_cell rows i j st =
     (case st of (sizes0, names0, need) \<Rightarrow>
      (let row = rows ! i;
           sizes = resize (length row) 0 sizes0;
           names = resize (length row) [] names0;
           named = (if 0 < i then
                      in_range (j < length (rows ! (i - 1)))
                       (if rows ! (i - 1) ! j \<noteq> row ! j then
                          in_range (i < length names) (Inr (names[i := fst (row ! j)], insert i need))
                        else Inr (names, need))
                    else in_range (i < length names) (Inr (names[i := fst (row ! j)], need)))
       in rbind named (\<lambda>(names', need').
            (let s1 = (if sizes ! j < length (snd (row ! j)) then sizes[j := length (snd (row ! j))] else sizes);
                 s2 = (if s1 ! j < length (fst (row ! j)) then s1[j := length (fst (row ! j))] else s1)
             in Inr (s2, names', need')))))"

fun size_row :: "(string \<times> string) list list \<Rightarrow> nat \<Rightarrow> nat list \<Rightarrow> nat list \<times> string list \<times> nat set \<Rightarrow> (nat list \<times> string list \<times> nat set) result" where
  "size_row rows i [] st = Inr st"
| "size_row rows i (j # js) st = rbind (size_cell rows i j st) (size_row rows i js)"

fun size_rows :: "(string \<times> string) list list \<Rightarrow> nat list \<Rightarrow> nat list \<times> string list \<times> nat set \<Rightarrow> (nat list \<times> string list \<times> nat set) result" where
  "size_rows rows [] st = Inr st"
| "size_rows rows (i # is) st = rbind (size_row rows i [0 ..< length (rows ! i)] st) (size_rows rows is)"

definition need_header :: "nat list \<Rightarrow> nat list \<Rightarrow> bool" where
  "need_header sizes old \<longleftrightarrow> sizes \<noteq> old"

text \<open>The ruler between header and body: one segment per column of the row.\<close>

definition put_ruler :: "(string \<times> string) list \<Rightarrow> nat list \<Rightarrow> ostream \<Rightarrow> ostream result" where
  "put_ruler row sizes os =
     in_range (length row \<le> length sizes)
      (Inr (put_str (foldl (\<lambda>o' j. put_str (put_str o' (replicate (sizes ! j + 3) (CHR ''-''))) ''+'')
         (put_str os ''+'') [0 ..< length row]) ''\<newline>''))"

definition put_header :: "(string \<times> string) list \<Rightarrow> nat list \<Rightarrow> ostream \<Rightarrow> ostream result" where
  "put_header row sizes os =
     rbind (put_ruler row sizes os) (\<lambda>o1. put_ruler row sizes (put_str (put_str o1 ''|'') ''\<newline>''))"

text \<open>The formatting of a cell in table mode is commented out in the code: only the leading blank is printed.\<close>

definition put_body :: "bool \<Rightarrow> (string \<times> string) list \<Rightarrow> ostream \<Rightarrow> ostream" where
  "put_body keyval row os =
     put_str (foldl (\<lambda>o' p.
         if keyval then foldl put_str o' [''key::'', fst p, ''='', [CHR 0x22], snd p, [CHR 0x22, CHR '' '']]
         else put_str o' '' '')
       (if \<not> keyval then put_str os ''|'' else os) row) ''\<newline>''"

fun put_rows :: "bool \<Rightarrow> nat list \<Rightarrow> nat set \<Rightarrow> nat \<Rightarrow> (string \<times> string) list list \<Rightarrow> ostream \<Rightarrow> ostream result" where
  "put_rows keyval sizes need i [] os = Inr os"
| "put_rows keyval sizes need i (row # rows) os =
     rbind (if i = 0 \<and> i \<in> need \<and> \<not> keyval then put_header row sizes os else Inr os)
       (\<lambda>o1. rbind (if \<not> keyval \<and> rows = [] then put_ruler row sizes (put_body keyval row o1)
                     else Inr (put_body keyval row o1))
         (put_rows keyval sizes need (Suc i) rows))"

definition table_flush :: "table_formatter \<Rightarrow> ostream \<Rightarrow> (table_formatter \<times> ostream) result" where
  "table_flush f os =
     (let f1 = table_finish_pending_string f
      in rbind (size_rows (t_vec f1) [0 ..< length (t_vec f1)] (t_column_size f1, t_column_name f1, {}))
          (\<lambda>(sizes, names, need).
             (let need' = (if need_header sizes (t_column_size f1) then insert 0 need else need)
              in rbind (put_rows (t_keyval f1) sizes need' 0 (t_vec f1) os)
                   (\<lambda>os'. Inr (f1\<lparr>t_column_size := sizes, t_vec := []\<rparr>, os')))))"

section \<open>The factory\<close>

datatype formatter = FJson json_formatter | FXml xml_formatter | FTable table_formatter

definition formatter_of :: "string \<Rightarrow> formatter option" where
  "formatter_of mytype =
     (if mytype = ''json'' then Some (FJson (json_formatter_new False))
      else if mytype = ''json-pretty'' then Some (FJson (json_formatter_new True))
      else if mytype = ''xml'' then Some (FXml (xml_formatter_new False False True))
      else if mytype = ''xml-pretty'' then Some (FXml (xml_formatter_new True False True))
      else if mytype = ''table'' then Some (FTable (table_formatter_new False))
      else if mytype = ''table-kv'' then Some (FTable (table_formatter_new True))
      else None)"

text \<open>\<open>create\<close> calls itself with the fallback type, no default and no further fallback.\<close>

definition formatter_create :: "string \<Rightarrow> string \<Rightarrow> string \<Rightarrow> formatter option" where
  "formatter_create typ default_type fallback =
     (case formatter_of (if typ = [] then default_type else typ) of
        Some f \<Rightarrow> Some f
      | None \<Rightarrow> if fallback \<noteq> [] then formatter_of fallback else None)"

section \<open>One row, and two\<close>

definition no_section :: "table_formatter \<Rightarrow> bool" where
  "no_section f \<longleftrightarrow> t_section f = [] \<and> t_section_open f = 0 \<and> t_pending_name f = []
     \<and> os_width (t_ss f) = 0 \<and> os_data (t_ss f) = []"

lemma dump_string_row:
  assumes "no_section f" "t_vec f = [row]" "row = [] \<or> fst (hd row) \<noteq> k"
  shows "t_vec (table_dump_string f k v) = [row @ [(k, v)]]" "no_section (table_dump_string f k v)"
    "t_keyval (table_dump_string f k v) = t_keyval f"
  using assms
  by (auto simp: table_dump_string_def table_put_value_def table_finish_pending_string_def no_section_def
      m_vec_index_def push_pair_def get_section_name_def put_str_plain set_str_def hd_conv_nth Let_def)

lemma dump_string_first:
  assumes "no_section f" "t_vec f = []"
  shows "t_vec (table_dump_string f k v) = [[(k, v)]]" "no_section (table_dump_string f k v)"
    "t_keyval (table_dump_string f k v) = t_keyval f"
  using assms
  by (simp_all add: table_dump_string_def table_put_value_def table_finish_pending_string_def no_section_def
      m_vec_index_def push_pair_def get_section_name_def put_str_plain set_str_def Let_def)

lemma dump_row:
  assumes "no_section f" "t_vec f = [row]" "row \<noteq> []" "fst (hd row) \<notin> fst ` set kvs"
  shows "t_vec (foldl (\<lambda>f p. table_dump_string f (fst p) (snd p)) f kvs) = [row @ kvs]
    \<and> no_section (foldl (\<lambda>f p. table_dump_string f (fst p) (snd p)) f kvs)
    \<and> t_keyval (foldl (\<lambda>f p. table_dump_string f (fst p) (snd p)) f kvs) = t_keyval f"
  using assms
proof (induction kvs arbitrary: f row)
  case (Cons p kvs)
  have "row = [] \<or> fst (hd row) \<noteq> fst p" using Cons.prems by auto
  note one = dump_string_row [OF Cons.prems(1,2) this, of "snd p"]
  from Cons.IH [OF one(2), of "row @ [p]"] one Cons.prems show ?case by simp
qed simp

lemma size_first_row:
  assumes "rows = row # rs" "set js \<subseteq> {..< length row}"
  shows "\<exists>sizes names need. size_row rows 0 js s = Inr (sizes, names, need)"
  using assms(2)
proof (induction js arbitrary: s)
  case Nil
  then show ?case by (cases s) simp
next
  case (Cons j js)
  then have "0 < length row" by auto
  obtain sizes names need where "s = (sizes, names, need)" by (rule prod_cases3)
  with \<open>0 < length row\<close> obtain st where "size_cell rows 0 j s = Inr st"
    by (simp add: assms(1) size_cell_def in_range_def resize_def Let_def)
  with Cons show ?case by simp
qed

lemma size_second_row:
  assumes "v \<noteq> w"
  shows "size_cell [[(k, v)], [(k, w)]] 1 0 st = Inl OutOfBounds"
proof -
  obtain sizes names need where "st = (sizes, names, need)" by (rule prod_cases3)
  with assms show ?thesis by (cases names) (simp_all add: size_cell_def in_range_def resize_def)
qed

definition kv_text :: "(string \<times> string) list \<Rightarrow> string" where
  "kv_text row = concat (map (\<lambda>p. ''key::'' @ fst p @ ''='' @ [CHR 0x22] @ snd p @ [CHR 0x22, CHR '' '']) row)"

lemma put_body_kv:
  assumes "os_width os = 0"
  shows "os_data (put_body True row os) = os_data os @ kv_text row @ ''\<newline>''"
proof -
  have "foldl (\<lambda>o' p. foldl put_str o' [''key::'', fst p, ''='', [CHR 0x22], snd p, [CHR 0x22, CHR '' '']]) os row
      = os\<lparr>os_data := os_data os @ kv_text row\<rparr>"
    using assms by (induction row arbitrary: os) (simp_all add: kv_text_def put_str_plain)
  with assms show ?thesis by (simp add: put_body_def put_str_plain)
qed

text \<open>A key/value table with one row (the first key does not repeat) is printed completely and in order:
  one \<open>key::name="value"\<close> per dumped string, and the rows are dropped afterwards.\<close>

theorem table_kv_row:
  assumes "k \<notin> fst ` set kvs" "os_width os = 0"
  shows "\<exists>f os'. table_flush (foldl (\<lambda>f p. table_dump_string f (fst p) (snd p)) (table_formatter_new True) ((k, v) # kvs)) os
      = Inr (f, os') \<and> os_data os' = os_data os @ kv_text ((k, v) # kvs) @ ''\<newline>'' \<and> t_vec f = []"
proof -
  let ?n = "table_formatter_new True"
  have n: "no_section ?n" "t_vec ?n = []" "t_keyval ?n"
    by (simp_all add: table_formatter_new_def table_reset_def no_section_def set_str_def ostream_new_def)
  let ?f = "foldl (\<lambda>f p. table_dump_string f (fst p) (snd p)) ?n ((k, v) # kvs)"
  have f: "t_vec ?f = [(k, v) # kvs]" "t_pending_name ?f = []" "t_keyval ?f"
    using dump_row [OF dump_string_first(2,1) [OF n(1,2)], of k v kvs] dump_string_first [OF n(1,2), of k v] assms(1) n(3)
    by (simp_all add: no_section_def)
  have "set [0 ..< length ((k, v) # kvs)] \<subseteq> {..< length ((k, v) # kvs)}" by auto
  from size_first_row [OF refl this, where s = "(t_column_size ?f, t_column_name ?f, {})"] obtain sizes names need where
    "size_row [(k, v) # kvs] 0 [0 ..< length ((k, v) # kvs)] (t_column_size ?f, t_column_name ?f, {}) = Inr (sizes, names, need)"
    by blast
  with f assms(2) show ?thesis
    by (simp add: table_flush_def table_finish_pending_string_def put_body_kv Let_def)
qed

theorem table_kv_row_witness:
  "\<exists>f os'. table_flush (foldl (\<lambda>f p. table_dump_string f (fst p) (snd p)) (table_formatter_new True) ((''a'', ''1'') # [(''b'', ''2'')])) ostream_new
      = Inr (f, os') \<and> os_data os' = os_data ostream_new @ kv_text ((''a'', ''1'') # [(''b'', ''2'')]) @ ''\<newline>'' \<and> t_vec f = []"
  by (rule table_kv_row) (simp_all add: ostream_new_def)

text \<open>Two rows break the printer. The sizing loop indexes the column names with the row number, so a table of
  two rows of one column with different values writes past the end of the vector.\<close>

theorem table_second_row_faults:
  assumes "v \<noteq> w"
  shows "table_flush (table_dump_string (table_dump_string (table_formatter_new keyval) k v) k w) os = Inl OutOfBounds"
proof -
  let ?n = "table_formatter_new keyval"
  have n: "no_section ?n" "t_vec ?n = []"
    by (simp_all add: table_formatter_new_def table_reset_def no_section_def set_str_def ostream_new_def)
  note one = dump_string_first [OF n, of k v]
  have "t_vec (table_dump_string (table_dump_string ?n k v) k w) = [[(k, v)], [(k, w)]]"
    "t_pending_name (table_dump_string (table_dump_string ?n k v) k w) = []"
    using one
    by (simp_all add: table_dump_string_def [of "table_dump_string ?n k v"] table_put_value_def table_finish_pending_string_def
        no_section_def m_vec_index_def push_pair_def get_section_name_def put_str_plain set_str_def Let_def)
  moreover have "size_rows [[(k, v)], [(k, w)]] [0, 1] s0 = Inl OutOfBounds" for s0
  proof -
    obtain st where "size_row [[(k, v)], [(k, w)]] 0 [0] s0 = Inr st"
      using size_first_row [of "[[(k, v)], [(k, w)]]" "[(k, v)]" _ "[0]" s0] by auto
    with size_second_row [OF assms, of k st] show ?thesis by simp
  qed
  ultimately show ?thesis by (simp add: table_flush_def table_finish_pending_string_def Let_def)
qed

theorem table_second_row_faults_witness:
  "table_flush (table_dump_string (table_dump_string (table_formatter_new True) ''k'' ''1'') ''k'' ''2'') ostream_new = Inl OutOfBounds"
  by (rule table_second_row_faults) simp

end
