(* ===== verification/PerfHistogram.thy ===== *)
theory PerfHistogram
  imports Prelude
begin

text \<open>
  \<open>src/common/perf_histogram.cc\<close> and \<open>perf_histogram.h\<close>: quantization of values on an axis, the ranges
  that are reported for the buckets, and the multidimensional histogram over a linear array of counters. Values
  and indices are \<open>int64_t\<close>; arithmetic that leaves the range is a fault.

  The main results: the bucket of a value is the one whose reported range holds it, the linear index of a
  bucket tuple is in range and belongs to no other tuple, and the traversal visits the counters in their
  order.
\<close>

section \<open>Axes\<close>

datatype scale_type = SCALE_LINEAR | SCALE_LOG2

record axis_config =
  m_name :: string
  m_scale_type :: scale_type
  m_min :: int
  m_quant_size :: int
  m_buckets :: int

text \<open>\<open>int64_t (1) << (i - 1)\<close>: the shift distance must be below 64; a shift by 63 gives the sign bit.\<close>

definition get_quants :: "int \<Rightarrow> scale_type \<Rightarrow> int result" where
  "get_quants i st =
     (case st of
        SCALE_LINEAR \<Rightarrow> Inr i
      | SCALE_LOG2 \<Rightarrow>
          if 0 \<le> i - 1 \<and> i - 1 < 64
          then Inr (if i - 1 = 63 then - (2 ^ 63) else 2 ^ nat (i - 1)) else Inl SignedOverflow)"

fun log2_loop :: "int \<Rightarrow> int list \<Rightarrow> int \<Rightarrow> int result" where
  "log2_loop value [] dflt = Inr dflt"
| "log2_loop value (i # is) dflt =
     rbind (get_quants i SCALE_LOG2) (\<lambda>q. if value < q then Inr i else log2_loop value is dflt)"

definition get_bucket_for_axis :: "int \<Rightarrow> axis_config \<Rightarrow> int result" where
  "get_bucket_for_axis value ac =
     (if value < m_min ac then Inr 0
      else rbind (i64 (value - m_min ac)) (\<lambda>v0.
        if m_quant_size ac = 0 then Inl DivByZero
        else rbind (i64 (v0 sdiv m_quant_size ac)) (\<lambda>v.
          case m_scale_type ac of
            SCALE_LINEAR \<Rightarrow> rbind (i64 (v + 1)) (\<lambda>v1. Inr (min v1 (m_buckets ac - 1)))
          | SCALE_LOG2 \<Rightarrow> log2_loop v [1 .. m_buckets ac - 1] (m_buckets ac - 1))))"

text \<open>The ranges: the loop fills the inner buckets and carries the lower end of the next one.\<close>

fun ranges_loop :: "axis_config \<Rightarrow> int list \<Rightarrow> (int \<times> int) list \<Rightarrow> int \<Rightarrow> ((int \<times> int) list \<times> int) result" where
  "ranges_loop ac [] ret mn = Inr (ret, mn)"
| "ranges_loop ac (i # is) ret mn =
     rbind (get_quants i (m_scale_type ac)) (\<lambda>q.
       rbind (i64 (q * m_quant_size ac)) (\<lambda>w.
         rbind (i64 (m_min ac + w)) (\<lambda>max_exclusive.
           rbind (i64 (max_exclusive - 1)) (\<lambda>top.
             ranges_loop ac is (ret[nat i := (mn, top)]) max_exclusive))))"

definition get_axis_bucket_ranges :: "axis_config \<Rightarrow> (int \<times> int) list result" where
  "get_axis_bucket_ranges ac =
     (if m_buckets ac < 0 then Inl UncaughtException
      else if m_buckets ac = 0 then Inl OutOfBounds
      else rbind (ranges_loop ac [1 .. m_buckets ac - 2] (replicate (nat (m_buckets ac)) (0, 0)) (m_min ac)) (\<lambda>(ret, mn).
        rbind (i64 (m_min ac - 1)) (\<lambda>below.
          (let r1 = ret[0 := (fst (ret ! 0), below)];
               n = length r1 - 1;
               r2 = r1[n := (mn, snd (r1 ! n))];
               r3 = r2[0 := (- (2 ^ 63), snd (r2 ! 0))]
           in Inr (r3[n := (fst (r3 ! n), 2 ^ 63 - 1)])))))"

section \<open>Histograms\<close>

record perf_histogram =
  h_axes :: "axis_config list"
  h_rawData :: "u64 list"

fun raw_size_loop :: "axis_config list \<Rightarrow> int \<Rightarrow> int result" where
  "raw_size_loop [] ret = Inr ret"
| "raw_size_loop (ac # acs) ret = rbind (i64 (ret * m_buckets ac)) (raw_size_loop acs)"

definition get_raw_size :: "axis_config list \<Rightarrow> int result" where
  "get_raw_size axes = raw_size_loop axes 1"

text \<open>The template parameter \<open>DIM\<close> is an argument. A counter array of negative size is an exception of
  \<open>new\<close>.\<close>

fun check_axes :: "axis_config list \<Rightarrow> bool" where
  "check_axes [] = True"
| "check_axes (ac # acs) = (0 < m_buckets ac \<and> 0 < m_quant_size ac \<and> check_axes acs)"

definition histogram_new :: "nat \<Rightarrow> axis_config list \<Rightarrow> perf_histogram result" where
  "histogram_new dim axes =
     kassert (length axes = dim)
      (kassert (check_axes axes)
        (rbind (get_raw_size axes) (\<lambda>size.
           if size < 0 then Inl UncaughtException
           else Inr \<lparr>h_axes = axes, h_rawData = replicate (nat size) 0\<rparr>)))"

definition histogram_copy :: "perf_histogram \<Rightarrow> perf_histogram result" where
  "histogram_copy other =
     rbind (get_raw_size (h_axes other)) (\<lambda>size.
       Inr \<lparr>h_axes = h_axes other, h_rawData = map (\<lambda>i. h_rawData other ! i) [0 ..< nat size]\<rparr>)"

definition histogram_reset :: "perf_histogram \<Rightarrow> perf_histogram result" where
  "histogram_reset h =
     rbind (get_raw_size (h_axes h)) (\<lambda>size.
       Inr (h\<lparr>h_rawData := foldl (\<lambda>d i. d[i := 0]) (h_rawData h) (rev [0 ..< nat size])\<rparr>))"

text \<open>The index of a tuple: one step per axis, with the bucket evaluator of the call.\<close>

fun get_raw_index_internal :: "(int \<Rightarrow> axis_config \<Rightarrow> int result) \<Rightarrow> axis_config list \<Rightarrow> int \<Rightarrow> int list \<Rightarrow> int result" where
  "get_raw_index_internal ev (ac # acs) start (v # vs) =
     rbind (ev v ac) (\<lambda>b. rbind (i64 (m_buckets ac * start + b)) (\<lambda>s. get_raw_index_internal ev acs s vs))"
| "get_raw_index_internal ev _ start _ = Inr start"

definition bucket_checked :: "int \<Rightarrow> axis_config \<Rightarrow> int result" where
  "bucket_checked bucket ac = kassert (0 \<le> bucket) (kassert (bucket < m_buckets ac) (Inr bucket))"

definition get_raw_index_for_value :: "perf_histogram \<Rightarrow> int list \<Rightarrow> int result" where
  "get_raw_index_for_value h vs = get_raw_index_internal get_bucket_for_axis (h_axes h) 0 vs"

definition get_raw_index_for_bucket :: "perf_histogram \<Rightarrow> int list \<Rightarrow> int result" where
  "get_raw_index_for_bucket h bs = get_raw_index_internal bucket_checked (h_axes h) 0 bs"

definition bump_counter :: "perf_histogram \<Rightarrow> int \<Rightarrow> perf_histogram result" where
  "bump_counter h index =
     (if 0 \<le> index \<and> index < int (length (h_rawData h))
      then Inr (h\<lparr>h_rawData := (h_rawData h)[nat index := h_rawData h ! nat index + 1]\<rparr>)
      else Inl OutOfBounds)"

definition hist_inc :: "perf_histogram \<Rightarrow> int list \<Rightarrow> perf_histogram result" where
  "hist_inc h vs = rbind (get_raw_index_for_value h vs) (bump_counter h)"

definition inc_bucket :: "perf_histogram \<Rightarrow> int list \<Rightarrow> perf_histogram result" where
  "inc_bucket h bs = rbind (get_raw_index_for_bucket h bs) (bump_counter h)"

definition read_bucket :: "perf_histogram \<Rightarrow> int list \<Rightarrow> u64 result" where
  "read_bucket h bs =
     rbind (get_raw_index_for_bucket h bs) (\<lambda>index.
       if 0 \<le> index \<and> index < int (length (h_rawData h)) then Inr (h_rawData h ! nat index) else Inl OutOfBounds)"

section \<open>Traversal\<close>

text \<open>The three callbacks are recorded as events.\<close>

datatype visit = Enter nat | Value u64 | Leave nat

text \<open>\<open>i\<close> counts the buckets that are left on the current axis. The code keeps this index in an \<open>int\<close>: the
  model is that of histograms with fewer than \<open>2 ^ 31\<close> counters.\<close>

function visit_values :: "u64 list \<Rightarrow> axis_config list \<Rightarrow> nat \<Rightarrow> nat \<Rightarrow> visit list"
  and visit_axis :: "u64 list \<Rightarrow> axis_config list \<Rightarrow> nat \<Rightarrow> nat \<Rightarrow> nat \<Rightarrow> visit list" where
  "visit_values raw [] level start = [Value (raw ! start)]"
| "visit_values raw (ac # acs) level start =
     Enter level # visit_axis raw acs level (start * nat (m_buckets ac)) (nat (m_buckets ac)) @ [Leave level]"
| "visit_axis raw acs level start 0 = []"
| "visit_axis raw acs level start (Suc i) =
     visit_values raw acs (Suc level) start @ visit_axis raw acs level (Suc start) i"
  by pat_completeness auto
termination
  by (relation "measures [\<lambda>x. case x of Inl (raw, acs, _) \<Rightarrow> 2 * length acs | Inr (raw, acs, _) \<Rightarrow> 2 * length acs + 1,
      \<lambda>x. case x of Inl _ \<Rightarrow> 0 | Inr (raw, acs, level, start, i) \<Rightarrow> i]") auto

section \<open>Buckets and ranges\<close>

text \<open>The quants below the upper end of bucket \<open>i\<close>.\<close>

definition quants :: "scale_type \<Rightarrow> nat \<Rightarrow> int" where
  "quants st i = (case st of SCALE_LINEAR \<Rightarrow> int i | SCALE_LOG2 \<Rightarrow> if i = 0 then 0 else 2 ^ (i - 1))"

text \<open>An axis on which no computation overflows.\<close>

definition axis_ok :: "axis_config \<Rightarrow> bool" where
  "axis_ok ac \<longleftrightarrow> 0 < m_quant_size ac \<and> 0 < m_buckets ac
     \<and> (m_scale_type ac = SCALE_LOG2 \<longrightarrow> m_buckets ac \<le> 63)
     \<and> - (2 ^ 63) < m_min ac \<and> m_min ac < 2 ^ 63
     \<and> quants (m_scale_type ac) (nat (m_buckets ac - 2)) * m_quant_size ac < 2 ^ 63
     \<and> m_min ac + quants (m_scale_type ac) (nat (m_buckets ac - 2)) * m_quant_size ac < 2 ^ 63"

lemma quants_0 [simp]: "quants st 0 = 0"
  by (simp add: quants_def split: scale_type.split)

lemma quants_less: "i < j \<Longrightarrow> quants st i < quants st j"
  by (auto simp: quants_def split: scale_type.split)

lemma quants_mono: "i \<le> j \<Longrightarrow> quants st i \<le> quants st j"
  using quants_less [of i j st] by (cases "i = j") auto

lemma quants_nonneg: "0 \<le> quants st i"
  using quants_mono [of 0 i st] by simp

lemma get_quants_eq:
  assumes "1 \<le> i" "st = SCALE_LOG2 \<longrightarrow> i \<le> 63"
  shows "get_quants i st = Inr (quants st (nat i))"
  using assms by (auto simp: get_quants_def quants_def nat_diff_distrib split: scale_type.split)

lemma log2_loop_spec:
  assumes "1 \<le> i" "n \<le> 63" "0 \<le> x" "i \<le> n" "quants SCALE_LOG2 (nat (i - 1)) \<le> x"
  shows "\<exists>b. log2_loop x [i .. n - 1] (n - 1) = Inr b \<and> (if i = n then b = n - 1 else i \<le> b \<and> b \<le> n - 1
    \<and> quants SCALE_LOG2 (nat (b - 1)) \<le> x \<and> (b < n - 1 \<longrightarrow> x < quants SCALE_LOG2 (nat b)))"
  using assms
proof (induction "nat (n - i)" arbitrary: i)
  case 0
  then show ?case by simp
next
  case (Suc k)
  from Suc.hyps(2) have less: "i < n" by linarith
  then have split: "[i .. n - 1] = i # [i + 1 .. n - 1]" by (simp add: upto_rec1)
  have q: "get_quants i SCALE_LOG2 = Inr (quants SCALE_LOG2 (nat i))"
    using Suc.prems less by (intro get_quants_eq) auto
  show ?case
  proof (cases "x < quants SCALE_LOG2 (nat i)")
    case True
    with less Suc.prems show ?thesis by (simp add: split q)
  next
    case False
    have "k = nat (n - (i + 1))" using Suc.hyps(2) by linarith
    from Suc.hyps(1) [OF this] Suc.prems less False
    have "\<exists>b. log2_loop x [i + 1 .. n - 1] (n - 1) = Inr b \<and> (if i + 1 = n then b = n - 1 else i + 1 \<le> b \<and> b \<le> n - 1
      \<and> quants SCALE_LOG2 (nat (b - 1)) \<le> x \<and> (b < n - 1 \<longrightarrow> x < quants SCALE_LOG2 (nat b)))"
      by simp
    with False less Suc.prems show ?thesis by (auto simp: split q split: if_splits)
  qed
qed

lemma le_quotient:
  fixes a d q :: int
  assumes "0 < q"
  shows "a \<le> d div q \<longleftrightarrow> a * q \<le> d"
proof
  assume "a \<le> d div q"
  then have "a * q \<le> d div q * q" using assms by (simp add: mult_right_mono)
  also have "\<dots> \<le> d" using div_mult_mod_eq [of d q] pos_mod_sign [OF assms, of d] by linarith
  finally show "a * q \<le> d" .
next
  assume "a * q \<le> d"
  from zdiv_mono1 [OF this assms] show "a \<le> d div q" using assms by simp
qed

lemma quotient_less:
  fixes a d q :: int
  shows "0 < q \<Longrightarrow> d div q < a \<longleftrightarrow> d < a * q"
  using le_quotient [of q a d] by linarith

lemma sdiv_nonneg: "0 \<le> d \<Longrightarrow> 0 < q \<Longrightarrow> d sdiv q = (d div q :: int)"
  by (cases "d = 0") (simp_all add: signed_divide_int_def sgn_if)

text \<open>The bucket of a value, by the quants around it.\<close>

lemma bucket_spec:
  assumes "axis_ok ac" "m_min ac \<le> v" "v - m_min ac < 2 ^ 63 - 1"
  shows "\<exists>b. get_bucket_for_axis v ac = Inr b \<and> (if m_buckets ac = 1 then b = 0
    else 1 \<le> b \<and> b \<le> m_buckets ac - 1
      \<and> quants (m_scale_type ac) (nat (b - 1)) * m_quant_size ac \<le> v - m_min ac
      \<and> (b < m_buckets ac - 1 \<longrightarrow> v - m_min ac < quants (m_scale_type ac) (nat b) * m_quant_size ac))"
proof -
  let ?d = "v - m_min ac" and ?q = "m_quant_size ac" and ?n = "m_buckets ac"
  let ?x = "?d div ?q"
  from assms have pos: "0 < ?q" "0 < ?n" "0 \<le> ?d" by (auto simp: axis_ok_def)
  have x: "0 \<le> ?x" using pos by (simp add: pos_imp_zdiv_nonneg_iff)
  have "?x \<le> ?d" using pos by (metis div_by_1 zdiv_mono2 int_one_le_iff_zero_less zero_less_one)
  with assms(3) have small: "?x + 1 < 2 ^ 63" by linarith
  have unfold: "get_bucket_for_axis v ac = (case m_scale_type ac of
      SCALE_LINEAR \<Rightarrow> Inr (min (?x + 1) (?n - 1)) | SCALE_LOG2 \<Rightarrow> log2_loop ?x [1 .. ?n - 1] (?n - 1))"
    using assms(2,3) pos x small
    by (simp add: get_bucket_for_axis_def i64_def sdiv_nonneg split: scale_type.split)
  have "\<exists>b. get_bucket_for_axis v ac = Inr b \<and> (if ?n = 1 then b = 0 else 1 \<le> b \<and> b \<le> ?n - 1
      \<and> quants (m_scale_type ac) (nat (b - 1)) \<le> ?x \<and> (b < ?n - 1 \<longrightarrow> ?x < quants (m_scale_type ac) (nat b)))"
  proof (cases "m_scale_type ac")
    case SCALE_LINEAR
    with pos x show ?thesis by (auto simp: unfold quants_def min_def)
  next
    case SCALE_LOG2
    with assms(1) have "?n \<le> 63" by (simp add: axis_ok_def)
    from log2_loop_spec [OF _ this x, of 1] pos x SCALE_LOG2 show ?thesis by (auto simp: unfold)
  qed
  then show ?thesis by (simp only: le_quotient [OF pos(1)] quotient_less [OF pos(1)])
qed

text \<open>The lower end of bucket \<open>i\<close>, for \<open>1 \<le> i\<close>.\<close>

definition bucket_low :: "axis_config \<Rightarrow> int \<Rightarrow> int" where
  "bucket_low ac i = m_min ac + quants (m_scale_type ac) (nat (i - 1)) * m_quant_size ac"

lemma bucket_low_1 [simp]: "bucket_low ac 1 = m_min ac"
  by (simp add: bucket_low_def)

lemma bucket_low_mono: "axis_ok ac \<Longrightarrow> i \<le> j \<Longrightarrow> bucket_low ac i \<le> bucket_low ac j"
  by (simp add: bucket_low_def axis_ok_def quants_mono mult_right_mono)

lemma bucket_low_range:
  assumes "axis_ok ac" "1 \<le> i" "i \<le> m_buckets ac - 1"
  shows "- (2 ^ 63) < bucket_low ac i" "bucket_low ac i < 2 ^ 63" "bucket_low ac i - m_min ac < 2 ^ 63" "m_min ac \<le> bucket_low ac i"
proof -
  have up: "bucket_low ac i \<le> bucket_low ac (m_buckets ac - 1)"
    using assms by (intro bucket_low_mono) auto
  have "bucket_low ac 1 \<le> bucket_low ac i" using assms(1,2) by (rule bucket_low_mono)
  moreover have "bucket_low ac (m_buckets ac - 1) < 2 ^ 63" "bucket_low ac (m_buckets ac - 1) - m_min ac < 2 ^ 63" "- (2 ^ 63) < m_min ac"
    using assms(1) by (simp_all add: axis_ok_def bucket_low_def)
  ultimately show "- (2 ^ 63) < bucket_low ac i" "bucket_low ac i < 2 ^ 63" "bucket_low ac i - m_min ac < 2 ^ 63"
    "m_min ac \<le> bucket_low ac i"
    using up by simp_all
qed

lemma ranges_loop_spec:
  assumes "axis_ok ac" "1 \<le> i" "i \<le> m_buckets ac - 1" "length ret = nat (m_buckets ac)"
  shows "\<exists>ret'. ranges_loop ac [i .. m_buckets ac - 2] ret (bucket_low ac i) = Inr (ret', bucket_low ac (m_buckets ac - 1))
    \<and> length ret' = length ret
    \<and> (\<forall>j. i \<le> j \<and> j < m_buckets ac - 1 \<longrightarrow> ret' ! nat j = (bucket_low ac j, bucket_low ac (j + 1) - 1))
    \<and> (\<forall>j. 0 \<le> j \<and> j < i \<longrightarrow> ret' ! nat j = ret ! nat j)"
  using assms(2,3,4)
proof (induction "nat (m_buckets ac - 1 - i)" arbitrary: i ret)
  case 0
  then have "i = m_buckets ac - 1" by linarith
  then show ?case by auto
next
  case (Suc k)
  let ?n = "m_buckets ac"
  from Suc.hyps(2) have less: "i < ?n - 1" by linarith
  then have split: "[i .. ?n - 2] = i # [i + 1 .. ?n - 2]" by (simp add: upto_rec1)
  have q: "get_quants i (m_scale_type ac) = Inr (quants (m_scale_type ac) (nat i))"
    using Suc.prems less assms(1) by (intro get_quants_eq) (auto simp: axis_ok_def)
  have next_low: "m_min ac + quants (m_scale_type ac) (nat i) * m_quant_size ac = bucket_low ac (i + 1)"
    by (simp add: bucket_low_def)
  have range: "i64 (quants (m_scale_type ac) (nat i) * m_quant_size ac) = Inr (quants (m_scale_type ac) (nat i) * m_quant_size ac)"
    "i64 (bucket_low ac (i + 1)) = Inr (bucket_low ac (i + 1))" "i64 (bucket_low ac (i + 1) - 1) = Inr (bucket_low ac (i + 1) - 1)"
    using bucket_low_range [OF assms(1), of "i + 1"] Suc.prems less next_low by (auto simp: i64_def)
  have "k = nat (?n - 1 - (i + 1))" using Suc.hyps(2) by linarith
  from Suc.hyps(1) [OF this, of "ret[nat i := (bucket_low ac i, bucket_low ac (i + 1) - 1)]"] Suc.prems less
  obtain ret' where r: "ranges_loop ac [i + 1 .. ?n - 2] (ret[nat i := (bucket_low ac i, bucket_low ac (i + 1) - 1)]) (bucket_low ac (i + 1))
      = Inr (ret', bucket_low ac (?n - 1))" "length ret' = length ret"
    and high: "\<forall>j. i + 1 \<le> j \<and> j < ?n - 1 \<longrightarrow> ret' ! nat j = (bucket_low ac j, bucket_low ac (j + 1) - 1)"
    and low: "\<forall>j. 0 \<le> j \<and> j < i + 1 \<longrightarrow> ret' ! nat j = ret[nat i := (bucket_low ac i, bucket_low ac (i + 1) - 1)] ! nat j"
    by auto
  have loop: "ranges_loop ac [i .. ?n - 2] ret (bucket_low ac i) = Inr (ret', bucket_low ac (?n - 1))"
    by (simp add: split q range next_low r(1))
  have "ret' ! nat j = (bucket_low ac j, bucket_low ac (j + 1) - 1)" if "i \<le> j" "j < ?n - 1" for j
    using that high low [rule_format, of i] Suc.prems less by (cases "j = i") auto
  moreover have "ret' ! nat j = ret ! nat j" if "0 \<le> j" "j < i" for j
    using that low by simp
  ultimately show ?case using loop r(2) by auto
qed

text \<open>The range of bucket \<open>b\<close> as it is reported.\<close>

definition bucket_range :: "axis_config \<Rightarrow> int \<Rightarrow> int \<times> int" where
  "bucket_range ac b =
     (if b = 0 then - (2 ^ 63) else bucket_low ac b,
      if b = m_buckets ac - 1 then 2 ^ 63 - 1 else bucket_low ac (b + 1) - 1)"

lemma ranges_spec:
  assumes "axis_ok ac"
  shows "get_axis_bucket_ranges ac = Inr (map (bucket_range ac) [0 .. m_buckets ac - 1])"
proof -
  let ?n = "m_buckets ac"
  from assms have n: "0 < ?n" by (simp add: axis_ok_def)
  have below: "i64 (m_min ac - 1) = Inr (m_min ac - 1)" using assms by (simp add: axis_ok_def i64_def)
  show ?thesis
  proof (cases "?n = 1")
    case True
    then show ?thesis by (simp add: get_axis_bucket_ranges_def below bucket_range_def upto_rec1 Let_def)
  next
    case False
    with n have "1 \<le> (1 :: int)" "1 \<le> ?n - 1" by auto
    from ranges_loop_spec [OF assms this, of "replicate (nat ?n) (0, 0)"]
    obtain ret where r: "ranges_loop ac [1 .. ?n - 2] (replicate (nat ?n) (0, 0)) (m_min ac) = Inr (ret, bucket_low ac (?n - 1))"
      "length ret = nat ?n"
      and inner: "\<And>j. 1 \<le> j \<Longrightarrow> j < ?n - 1 \<Longrightarrow> ret ! nat j = (bucket_low ac j, bucket_low ac (j + 1) - 1)"
      by auto
    let ?r3 = "ret[0 := (- (2 ^ 63), m_min ac - 1), nat (?n - 1) := (bucket_low ac (?n - 1), 2 ^ 63 - 1)]"
    have nth: "nat ?n - Suc 0 = nat (?n - 1)" "0 < nat (?n - 1)" using n False by auto
    have "get_axis_bucket_ranges ac = Inr ?r3"
      using n False r(2) nth
      by (simp add: get_axis_bucket_ranges_def r(1) below Let_def list_update_swap)
    moreover have "?r3 = map (bucket_range ac) [0 .. ?n - 1]"
    proof (rule nth_equalityI)
      fix i assume "i < length ?r3"
      then have i: "i < nat ?n" using r(2) by simp
      consider "i = 0" | "int i = ?n - 1" "0 < i" | "1 \<le> int i" "int i < ?n - 1" using i by linarith
      then show "?r3 ! i = map (bucket_range ac) [0 .. ?n - 1] ! i"
        using i r(2) n False nth inner [of "int i"] bucket_low_1 [of ac]
        by cases (auto simp: bucket_range_def nth_list_update)
    qed (simp add: r(2))
    ultimately show ?thesis by simp
  qed
qed

text \<open>C17: The bucket a value is counted in is the bucket whose reported range holds the value, and no other
  range holds it: on an axis without overflow the quantization \<open>get_bucket_for_axis\<close> and the table
  \<open>get_axis_bucket_ranges\<close> agree, on linear and logarithmic scales and for every number of buckets.\<close>

theorem bucket_matches_range:
  assumes "axis_ok ac" "- (2 ^ 63) \<le> v" "v < 2 ^ 63" "v - m_min ac < 2 ^ 63 - 1"
  shows "\<exists>b ranges. get_bucket_for_axis v ac = Inr b \<and> get_axis_bucket_ranges ac = Inr ranges
    \<and> 0 \<le> b \<and> b < m_buckets ac \<and> length ranges = nat (m_buckets ac)
    \<and> (\<forall>i < length ranges. (fst (ranges ! i) \<le> v \<and> v \<le> snd (ranges ! i)) = (int i = b))"
proof -
  let ?n = "m_buckets ac"
  have n: "0 < ?n" using assms(1) by (simp add: axis_ok_def)
  have "\<exists>b. get_bucket_for_axis v ac = Inr b \<and> 0 \<le> b \<and> b < ?n
      \<and> (b \<noteq> 0 \<longrightarrow> bucket_low ac b \<le> v) \<and> (b < ?n - 1 \<longrightarrow> v < bucket_low ac (b + 1))"
  proof (cases "v < m_min ac")
    case True
    with n show ?thesis by (simp add: get_bucket_for_axis_def)
  next
    case False
    with bucket_spec [OF assms(1) _ assms(4)] n show ?thesis
      by (fastforce simp: bucket_low_def split: if_splits)
  qed
  then obtain b where b: "get_bucket_for_axis v ac = Inr b" "0 \<le> b" "b < ?n"
    "b \<noteq> 0 \<longrightarrow> bucket_low ac b \<le> v" "b < ?n - 1 \<longrightarrow> v < bucket_low ac (b + 1)" by blast
  have "(fst (bucket_range ac i) \<le> v \<and> v \<le> snd (bucket_range ac i)) = (i = b)" if "0 \<le> i" "i < ?n" for i
  proof -
    consider "i = b" | "i < b" | "b < i" by linarith
    then show ?thesis
    proof cases
      case 1
      with b assms(2,3) show ?thesis by (auto simp: bucket_range_def)
    next
      case 2
      with b that bucket_low_mono [OF assms(1), of "i + 1" b] show ?thesis by (auto simp: bucket_range_def)
    next
      case 3
      with b that bucket_low_mono [OF assms(1), of "b + 1" i] show ?thesis by (auto simp: bucket_range_def)
    qed
  qed
  with b(1,2,3) n show ?thesis by (auto simp: ranges_spec [OF assms(1)])
qed

definition example_axis :: "scale_type \<Rightarrow> axis_config" where
  "example_axis st = \<lparr>m_name = ''latency'', m_scale_type = st, m_min = 0, m_quant_size = 100, m_buckets = 16\<rparr>"

lemma example_axis_ok: "axis_ok (example_axis st)"
  by (cases st) (simp_all add: example_axis_def axis_ok_def quants_def)

theorem bucket_matches_range_witness:
  "\<exists>b ranges. get_bucket_for_axis 1000 (example_axis SCALE_LOG2) = Inr b \<and> get_axis_bucket_ranges (example_axis SCALE_LOG2) = Inr ranges
    \<and> 0 \<le> b \<and> b < m_buckets (example_axis SCALE_LOG2) \<and> length ranges = nat (m_buckets (example_axis SCALE_LOG2))
    \<and> (\<forall>i < length ranges. (fst (ranges ! i) \<le> 1000 \<and> 1000 \<le> snd (ranges ! i)) = (int i = b))"
  by (rule bucket_matches_range [OF example_axis_ok]) (simp_all add: example_axis_def)

section \<open>The linear index\<close>

definition n_buckets :: "axis_config list \<Rightarrow> int" where
  "n_buckets axes = prod_list (map m_buckets axes)"

text \<open>The well-formedness of a histogram: the constructor's checks, and one counter per bucket tuple.\<close>

definition hist_ok :: "perf_histogram \<Rightarrow> bool" where
  "hist_ok h \<longleftrightarrow> check_axes (h_axes h) \<and> n_buckets (h_axes h) < 2 ^ 63
     \<and> int (length (h_rawData h)) = n_buckets (h_axes h)"

fun tuple_ok :: "axis_config list \<Rightarrow> int list \<Rightarrow> bool" where
  "tuple_ok [] [] = True"
| "tuple_ok (ac # acs) (b # bs) = (0 \<le> b \<and> b < m_buckets ac \<and> tuple_ok acs bs)"
| "tuple_ok _ _ = False"

fun flat :: "axis_config list \<Rightarrow> int list \<Rightarrow> int" where
  "flat (ac # acs) (b # bs) = b * n_buckets acs + flat acs bs"
| "flat _ _ = 0"

lemma n_buckets_simps [simp]: "n_buckets [] = 1" "n_buckets (ac # acs) = m_buckets ac * n_buckets acs"
  by (simp_all add: n_buckets_def)

lemma n_buckets_pos: "check_axes acs \<Longrightarrow> 0 < n_buckets acs"
  by (induction acs) simp_all

lemma flat_bounds: "check_axes acs \<Longrightarrow> tuple_ok acs bs \<Longrightarrow> 0 \<le> flat acs bs \<and> flat acs bs < n_buckets acs"
proof (induction acs bs rule: tuple_ok.induct)
  case (2 ac acs b bs)
  then have ih: "0 \<le> flat acs bs" "flat acs bs < n_buckets acs" and b: "0 \<le> b" "b < m_buckets ac" by auto
  have "b * n_buckets acs + n_buckets acs \<le> m_buckets ac * n_buckets acs"
    using mult_right_mono [of "b + 1" "m_buckets ac" "n_buckets acs"] ih b by (simp add: distrib_right)
  with ih b show ?case by simp
qed simp_all

text \<open>No two bucket tuples share a counter.\<close>

lemma flat_inj:
  assumes "check_axes acs" "tuple_ok acs bs" "tuple_ok acs cs" "flat acs bs = flat acs cs"
  shows "bs = cs"
  using assms
proof (induction acs bs arbitrary: cs rule: tuple_ok.induct)
  case (1 cs)
  then show ?case by (cases cs) auto
next
  case (2 ac acs b bs)
  then obtain c cs' where cs: "cs = c # cs'" by (cases cs) auto
  let ?p = "n_buckets acs"
  have bounds: "0 \<le> flat acs bs" "flat acs bs < ?p" "0 \<le> flat acs cs'" "flat acs cs' < ?p"
    using flat_bounds 2 cs by auto
  have eq: "b * ?p + flat acs bs = c * ?p + flat acs cs'" using 2 cs by simp
  have "(b * ?p + flat acs bs) div ?p = b" "(c * ?p + flat acs cs') div ?p = c"
    using bounds by (simp_all add: div_pos_pos_trivial)
  with eq have "b = c" by simp
  with 2 cs eq show ?case by auto
qed simp_all

lemma raw_index_eq:
  assumes "check_axes acs" "tuple_ok acs bs" "0 \<le> s" "(s + 1) * n_buckets acs \<le> 2 ^ 63"
    and ev: "list_all2 (\<lambda>(v, b) ac. ev v ac = Inr b) (zip vs bs) acs" "length vs = length bs"
  shows "get_raw_index_internal ev acs s vs = Inr (s * n_buckets acs + flat acs bs)"
  using assms
proof (induction acs bs arbitrary: s vs rule: tuple_ok.induct)
  case (2 ac acs b bs)
  then obtain v vs' where vs: "vs = v # vs'" by (cases vs) auto
  let ?s = "m_buckets ac * s + b"
  have pos: "0 < n_buckets acs" "0 < m_buckets ac" using 2 n_buckets_pos by auto
  have "(?s + 1) * n_buckets acs \<le> ((s + 1) * m_buckets ac) * n_buckets acs"
    using 2 pos by (intro mult_right_mono) (simp_all add: distrib_right)
  also have "\<dots> \<le> 2 ^ 63" using 2 by (simp add: mult.assoc)
  finally have le: "(?s + 1) * n_buckets acs \<le> 2 ^ 63" .
  have nonneg: "0 \<le> ?s" using 2 pos by simp
  have "?s + 1 \<le> (?s + 1) * n_buckets acs" using pos nonneg by (simp add: mult_le_cancel_left1)
  with le have "?s < 2 ^ 63" by linarith
  with nonneg have ok: "i64 ?s = Inr ?s" by (simp add: i64_def)
  have "get_raw_index_internal ev acs ?s vs' = Inr (?s * n_buckets acs + flat acs bs)"
    using 2 vs nonneg le by (intro "2.IH") auto
  moreover have "ev v ac = Inr b" using 2 vs by simp
  ultimately show ?case by (simp add: vs ok distrib_right mult.assoc mult.left_commute)
qed auto

lemma bucket_tuple_ev:
  "tuple_ok acs bs \<Longrightarrow> list_all2 (\<lambda>(v, b) ac. bucket_checked v ac = Inr b) (zip bs bs) acs"
  by (induction acs bs rule: tuple_ok.induct) (auto simp: bucket_checked_def)

lemma raw_index_for_bucket:
  assumes "hist_ok h" "tuple_ok (h_axes h) bs"
  shows "get_raw_index_for_bucket h bs = Inr (flat (h_axes h) bs)"
  using assms raw_index_eq [OF _ assms(2) _ _ bucket_tuple_ev [OF assms(2)], of 0]
  by (simp add: get_raw_index_for_bucket_def hist_ok_def)

lemma bump_counter_read:
  assumes "hist_ok h" "tuple_ok (h_axes h) bs"
  shows "\<exists>h'. bump_counter h (flat (h_axes h) bs) = Inr h' \<and> hist_ok h' \<and> h_axes h' = h_axes h
    \<and> (\<forall>cs. tuple_ok (h_axes h) cs \<longrightarrow> read_bucket h' cs =
        rbind (read_bucket h cs) (\<lambda>n. Inr (if cs = bs then n + 1 else n)))"
proof -
  let ?i = "flat (h_axes h) bs"
  let ?h = "h\<lparr>h_rawData := (h_rawData h)[nat ?i := h_rawData h ! nat ?i + 1]\<rparr>"
  have axes: "check_axes (h_axes h)" using assms(1) by (simp add: hist_ok_def)
  have range: "0 \<le> flat (h_axes h) cs" "flat (h_axes h) cs < int (length (h_rawData h))" if "tuple_ok (h_axes h) cs" for cs
    using flat_bounds [OF axes that] assms(1) by (simp_all add: hist_ok_def)
  have ok: "hist_ok ?h" using assms(1) by (simp add: hist_ok_def)
  have "read_bucket ?h cs = rbind (read_bucket h cs) (\<lambda>n. Inr (if cs = bs then n + 1 else n))" if cs: "tuple_ok (h_axes h) cs" for cs
  proof (cases "cs = bs")
    case True
    with range [OF cs] raw_index_for_bucket [OF assms(1) cs] raw_index_for_bucket [OF ok] cs show ?thesis
      by (simp add: read_bucket_def)
  next
    case False
    with flat_inj [OF axes cs assms(2)] range [OF cs] range [OF assms(2)] have "nat (flat (h_axes h) cs) \<noteq> nat ?i"
      by (auto simp: eq_nat_nat_iff)
    with False range [OF cs] raw_index_for_bucket [OF assms(1) cs] raw_index_for_bucket [OF ok] cs show ?thesis
      by (simp add: read_bucket_def)
  qed
  with range [OF assms(2)] ok show ?thesis by (auto simp: bump_counter_def)
qed

lemma raw_size_loop_eq:
  "check_axes acs \<Longrightarrow> 0 < r \<Longrightarrow> r * n_buckets acs < 2 ^ 63 \<Longrightarrow> raw_size_loop acs r = Inr (r * n_buckets acs)"
proof (induction acs arbitrary: r)
  case (Cons ac acs)
  have pos: "0 < n_buckets acs" "0 < m_buckets ac" using Cons.prems n_buckets_pos by auto
  then have p: "0 < r * m_buckets ac" using Cons.prems by simp
  have "r * m_buckets ac \<le> r * m_buckets ac * n_buckets acs" using pos p by (simp add: mult_le_cancel_left1)
  also have "\<dots> < 2 ^ 63" using Cons.prems by (simp add: mult.assoc)
  finally have "r * m_buckets ac < 2 ^ 63" .
  with p have "i64 (r * m_buckets ac) = Inr (r * m_buckets ac)" by (simp add: i64_def)
  with Cons.IH [of "r * m_buckets ac"] Cons.prems p show ?case by (simp add: mult.assoc)
qed simp

lemma raw_size: "check_axes axes \<Longrightarrow> n_buckets axes < 2 ^ 63 \<Longrightarrow> get_raw_size axes = Inr (n_buckets axes)"
  by (simp add: get_raw_size_def raw_size_loop_eq)

text \<open>The buckets of a tuple of values.\<close>

definition buckets_of :: "axis_config list \<Rightarrow> int list \<Rightarrow> int list" where
  "buckets_of acs vs = map2 (\<lambda>ac v. projr (get_bucket_for_axis v ac)) acs vs"

definition values_ok :: "axis_config list \<Rightarrow> int list \<Rightarrow> bool" where
  "values_ok acs vs \<longleftrightarrow> list_all2 (\<lambda>ac v. axis_ok ac \<and> - (2 ^ 63) \<le> v \<and> v < 2 ^ 63 \<and> v - m_min ac < 2 ^ 63 - 1) acs vs"

lemma buckets_of_ev:
  assumes "values_ok acs vs"
  shows "tuple_ok acs (buckets_of acs vs)" "list_all2 (\<lambda>(v, b) ac. get_bucket_for_axis v ac = Inr b) (zip vs (buckets_of acs vs)) acs"
    "length (buckets_of acs vs) = length vs"
proof -
  have one: "get_bucket_for_axis v ac = Inr (projr (get_bucket_for_axis v ac)) \<and> 0 \<le> projr (get_bucket_for_axis v ac)
      \<and> projr (get_bucket_for_axis v ac) < m_buckets ac"
    if "axis_ok ac" "- (2 ^ 63) \<le> v" "v < 2 ^ 63" "v - m_min ac < 2 ^ 63 - 1" for ac v
  proof (cases "v < m_min ac")
    case True
    with that show ?thesis by (simp add: get_bucket_for_axis_def axis_ok_def)
  next
    case False
    with bucket_spec [OF that(1) _ that(4)] that(1) show ?thesis by (force simp: axis_ok_def split: if_splits)
  qed
  show "tuple_ok acs (buckets_of acs vs)" "list_all2 (\<lambda>(v, b) ac. get_bucket_for_axis v ac = Inr b) (zip vs (buckets_of acs vs)) acs"
    "length (buckets_of acs vs) = length vs"
    using assms unfolding values_ok_def
    by (induction acs vs rule: list_all2_induct) (use one in \<open>force simp: buckets_of_def\<close>)+
qed

text \<open>Counting. A histogram built by the constructor has one counter per bucket tuple, all zero; counting a
  tuple of values increases the counter of the tuple of their buckets by one, leaves every other counter
  alone and keeps the histogram well formed; and \<open>inc_bucket\<close> on that tuple does the same.\<close>

theorem histogram_counts:
  assumes "hist_ok h" "values_ok (h_axes h) vs"
  shows "\<exists>h'. hist_inc h vs = Inr h' \<and> inc_bucket h (buckets_of (h_axes h) vs) = Inr h' \<and> hist_ok h' \<and> h_axes h' = h_axes h
    \<and> (\<forall>cs. tuple_ok (h_axes h) cs \<longrightarrow> read_bucket h' cs =
        rbind (read_bucket h cs) (\<lambda>n. Inr (if cs = buckets_of (h_axes h) vs then n + 1 else n)))"
proof -
  let ?bs = "buckets_of (h_axes h) vs"
  note ev = buckets_of_ev [OF assms(2)]
  have "get_raw_index_for_value h vs = Inr (flat (h_axes h) ?bs)"
    using assms(1) raw_index_eq [OF _ ev(1) _ _ ev(2), of 0] ev(3)
    by (simp add: get_raw_index_for_value_def hist_ok_def)
  with bump_counter_read [OF assms(1) ev(1)] raw_index_for_bucket [OF assms(1) ev(1)] show ?thesis
    by (simp add: hist_inc_def inc_bucket_def)
qed

definition example_histogram :: perf_histogram where
  "example_histogram = \<lparr>h_axes = [example_axis SCALE_LINEAR, example_axis SCALE_LOG2], h_rawData = replicate 256 0\<rparr>"

lemma example_histogram_ok: "hist_ok example_histogram" "values_ok (h_axes example_histogram) [250, 1000]"
  using example_axis_ok by (simp_all add: hist_ok_def example_histogram_def values_ok_def) (simp_all add: example_axis_def)

theorem histogram_counts_witness:
  "\<exists>h'. hist_inc example_histogram [250, 1000] = Inr h' \<and> inc_bucket example_histogram (buckets_of (h_axes example_histogram) [250, 1000]) = Inr h'
    \<and> hist_ok h' \<and> h_axes h' = h_axes example_histogram
    \<and> (\<forall>cs. tuple_ok (h_axes example_histogram) cs \<longrightarrow> read_bucket h' cs =
        rbind (read_bucket example_histogram cs) (\<lambda>n. Inr (if cs = buckets_of (h_axes example_histogram) [250, 1000] then n + 1 else n)))"
  by (rule histogram_counts [OF example_histogram_ok])

text \<open>Construction, copy and reset: a histogram whose axes pass the checks is well formed and all zero, the
  copy equals the original, and a reset histogram equals a new one.\<close>

theorem histogram_new_ok:
  assumes "check_axes axes" "n_buckets axes < 2 ^ 63"
  shows "\<exists>h. histogram_new (length axes) axes = Inr h \<and> hist_ok h \<and> set (h_rawData h) \<subseteq> {0}
    \<and> (\<forall>g. hist_ok g \<and> h_axes g = axes \<longrightarrow> histogram_copy g = Inr g \<and> histogram_reset g = Inr h)"
proof -
  let ?h = "\<lparr>h_axes = axes, h_rawData = replicate (nat (n_buckets axes)) (0 :: u64)\<rparr>"
  note size = raw_size [OF assms]
  have zero: "foldl (\<lambda>d i. d[i := 0 :: u64]) d (rev [0 ..< k]) = replicate k 0 @ drop k d" if "k \<le> length d" for k d
    using that
  proof (induction k arbitrary: d)
    case (Suc k)
    then have "foldl (\<lambda>d i. d[i := 0 :: u64]) d (rev [0 ..< Suc k]) = replicate k 0 @ drop k (d[k := 0])" by simp
    also have "drop k (d[k := 0]) = 0 # drop (Suc k) d"
      using Suc.prems by (simp add: Cons_nth_drop_Suc [symmetric])
    finally show ?case by (simp add: replicate_app_Cons_same)
  qed simp
  have new: "histogram_new (length axes) axes = Inr ?h" "hist_ok ?h"
    using assms n_buckets_pos [OF assms(1)] by (simp_all add: histogram_new_def size hist_ok_def)
  have copy: "histogram_copy g = Inr g" "histogram_reset g = Inr ?h" if "hist_ok g" "h_axes g = axes" for g
  proof -
    have len: "length (h_rawData g) = nat (n_buckets axes)"
      using that unfolding hist_ok_def by (metis nat_int)
    have "map ((!) (h_rawData g)) [0 ..< length (h_rawData g)] = h_rawData g" by (rule map_nth)
    with len that show "histogram_copy g = Inr g" by (simp add: histogram_copy_def size)
    from len that show "histogram_reset g = Inr ?h" by (simp add: histogram_reset_def size zero)
  qed
  show ?thesis
    by (rule exI [of _ ?h]) (use new copy in \<open>auto simp: set_replicate_conv_if\<close>)
qed

theorem histogram_new_ok_witness:
  "\<exists>h. histogram_new (length [example_axis SCALE_LINEAR]) [example_axis SCALE_LINEAR] = Inr h \<and> hist_ok h \<and> set (h_rawData h) \<subseteq> {0}
    \<and> (\<forall>g. hist_ok g \<and> h_axes g = [example_axis SCALE_LINEAR] \<longrightarrow> histogram_copy g = Inr g \<and> histogram_reset g = Inr h)"
  by (rule histogram_new_ok) (simp_all add: example_axis_def)

section \<open>The traversal\<close>

fun visited :: "visit list \<Rightarrow> u64 list" where
  "visited [] = []"
| "visited (Value v # es) = v # visited es"
| "visited (Enter l # es) = visited es"
| "visited (Leave l # es) = visited es"

lemma visited_append [simp]: "visited (es @ fs) = visited es @ visited fs"
  by (induction es rule: visited.induct) simp_all

lemma upt_add_split: "[a ..< a + (b + c)] = [a ..< a + b] @ [a + b ..< a + b + c]"
  using upt_add_eq_append [of a "a + b" c] by (simp add: add.assoc)

lemma nat_n_buckets: "check_axes acs \<Longrightarrow> nat (n_buckets (ac # acs)) = nat (m_buckets ac) * nat (n_buckets acs)"
  by (cases "0 \<le> m_buckets ac") (simp_all add: nat_mult_distrib n_buckets_pos order.strict_implies_order mult_nonneg_nonpos2 mult_nonpos_nonneg)

lemma visit_slice:
  "check_axes acs \<Longrightarrow> visited (visit_values raw acs level start)
    = map (\<lambda>i. raw ! i) [start * nat (n_buckets acs) ..< start * nat (n_buckets acs) + nat (n_buckets acs)]"
  "check_axes acs \<Longrightarrow> visited (visit_axis raw acs level start i)
    = map (\<lambda>i. raw ! i) [start * nat (n_buckets acs) ..< start * nat (n_buckets acs) + i * nat (n_buckets acs)]"
proof (induction raw acs level start and raw acs level start i rule: visit_values_visit_axis.induct)
  case (2 raw ac acs level start)
  then have "check_axes acs" by simp
  from 2 nat_n_buckets [OF this, of ac] show ?case by (simp add: mult.assoc)
next
  case (4 raw acs level start i)
  let ?p = "nat (n_buckets acs)"
  have "[start * ?p ..< start * ?p + Suc i * ?p] = [start * ?p ..< start * ?p + ?p] @ [Suc start * ?p ..< Suc start * ?p + i * ?p]"
    using upt_add_split [of "start * ?p" ?p "i * ?p"] by (simp add: add.commute)
  with 4 show ?case by simp
qed simp_all

lemma visit_brackets:
  "count_list (visit_values raw acs level start) (Enter l) = count_list (visit_values raw acs level start) (Leave l)"
  "count_list (visit_axis raw acs level start i) (Enter l) = count_list (visit_axis raw acs level start i) (Leave l)"
  by (induction raw acs level start and raw acs level start i rule: visit_values_visit_axis.induct) auto

text \<open>The traversal of a well-formed histogram calls \<open>onValue\<close> once for every counter, in the order of the
  linear array, and leaves every dimension as often as it enters it.\<close>

theorem visit_values_in_order:
  assumes "hist_ok h"
  shows "visited (visit_values (h_rawData h) (h_axes h) 0 0) = h_rawData h
    \<and> count_list (visit_values (h_rawData h) (h_axes h) 0 0) (Enter l) = count_list (visit_values (h_rawData h) (h_axes h) 0 0) (Leave l)"
proof -
  have len: "nat (n_buckets (h_axes h)) = length (h_rawData h)" and "check_axes (h_axes h)"
    using assms unfolding hist_ok_def by (metis nat_int, simp)
  with visit_slice(1) [of "h_axes h" "h_rawData h" 0 0] show ?thesis
    by (simp add: map_nth visit_brackets)
qed

theorem visit_values_in_order_witness:
  "visited (visit_values (h_rawData example_histogram) (h_axes example_histogram) 0 0) = h_rawData example_histogram
    \<and> count_list (visit_values (h_rawData example_histogram) (h_axes example_histogram) 0 0) (Enter 1)
      = count_list (visit_values (h_rawData example_histogram) (h_axes example_histogram) 0 0) (Leave 1)"
  by (rule visit_values_in_order [OF example_histogram_ok(1)])

text \<open>The two places where a legal configuration overflows: the greatest value on a linear axis of quantum 1
  from 0, and a logarithmic axis with more than 64 buckets and a value beyond the 63rd bucket.\<close>

theorem bucket_overflow:
  "get_bucket_for_axis (2 ^ 63 - 1) \<lparr>m_name = n, m_scale_type = SCALE_LINEAR, m_min = 0, m_quant_size = 1, m_buckets = b\<rparr> = Inl SignedOverflow
    \<and> get_bucket_for_axis (2 ^ 62) \<lparr>m_name = n, m_scale_type = SCALE_LOG2, m_min = 0, m_quant_size = 1, m_buckets = 66\<rparr> = Inl SignedOverflow"
  by (simp add: get_bucket_for_axis_def i64_def sdiv_nonneg) (simp add: upto_rec1 get_quants_def)

end
