(* ===== verification/UTime.thy ===== *)
theory UTime
  imports OStream
begin

text \<open>
  \<open>src/common/common_time.h\<close> and \<open>common_time.cc\<close>: time spans as 64-bit counts of nanoseconds, the
  conversions of the real-time clocks to and from \<open>timespec\<close> and \<open>timeval\<close>, rounding, the time span printer,
  and \<open>utime_t\<close> (32-bit seconds and nanoseconds) with its normalization, arithmetic and printing.
  Signed fields of the C structures are integers. The calendar functions of the C library are
  parameters of the printers; the conversions through \<open>double\<close> are in TimeDouble and Clocks.
\<close>

section \<open>Time spans and clocks\<close>

type_synonym timespan = u64

record timespec =
  ts_sec :: int
  ts_nsec :: int

record timeval =
  tv_sec :: int
  tv_usec :: int

text \<open>The conversions of \<open>real_clock\<close>; \<open>to_time_t\<close> truncates to seconds.\<close>

definition clock_to_time_t :: "timespan \<Rightarrow> int" where
  "clock_to_time_t t = int (unat t div 10 ^ 9)"

definition clock_from_time_t :: "int \<Rightarrow> timespan result" where
  "clock_from_time_t t = rbind (i64 (t * 10 ^ 9)) (\<lambda>n. Inr (of_int n))"

definition clock_to_timespec :: "timespan \<Rightarrow> timespec" where
  "clock_to_timespec t = \<lparr>ts_sec = clock_to_time_t t, ts_nsec = int (unat t mod 10 ^ 9)\<rparr>"

text \<open>The sum of seconds and nanoseconds is computed in signed 64-bit nanoseconds.\<close>

definition clock_from_timespec :: "timespec \<Rightarrow> timespan result" where
  "clock_from_timespec ts =
     rbind (i64 (ts_sec ts * 10 ^ 9)) (\<lambda>s. rbind (i64 (s + ts_nsec ts)) (\<lambda>n. Inr (of_int n)))"

definition clock_to_timeval :: "timespan \<Rightarrow> timeval" where
  "clock_to_timeval t = \<lparr>tv_sec = clock_to_time_t t, tv_usec = int (unat t mod 10 ^ 9 div 10 ^ 3)\<rparr>"

text \<open>Here the common type is microseconds; the conversion to nanoseconds is unsigned and wraps.\<close>

definition clock_from_timeval :: "timeval \<Rightarrow> timespan result" where
  "clock_from_timeval tv =
     rbind (i64 (tv_sec tv * 10 ^ 6)) (\<lambda>s. rbind (i64 (s + tv_usec tv)) (\<lambda>us. Inr (of_int us * 1000)))"

definition clock_zero :: timespan where
  "clock_zero = 0"

definition clock_is_zero :: "timespan \<Rightarrow> bool" where
  "clock_is_zero t \<longleftrightarrow> t = 0"

text \<open>\<open>difference\<close> converts both spans to signed and subtracts.\<close>

definition time_difference :: "timespan \<Rightarrow> timespan \<Rightarrow> int result" where
  "time_difference minuend subtrahend = i64 (sint minuend - sint subtrahend)"

definition span_floor :: "timespan \<Rightarrow> timespan \<Rightarrow> timespan result" where
  "span_floor d p = (if p = 0 then Inl DivByZero else Inr (d - d mod p))"

definition span_ceil :: "timespan \<Rightarrow> timespan \<Rightarrow> timespan result" where
  "span_ceil d p = (if p = 0 then Inl DivByZero
     else (let tmod = d mod p in Inr (d - tmod + (if 0 < tmod then 1 else 0) * p)))"

definition span_abs :: "64 word \<Rightarrow> timespan" where
  "span_abs z = (if 0 < sint z then z else - z)"

definition to_timespan :: "64 word \<Rightarrow> timespan" where
  "to_timespan z = (if sint z < 0 then 0 else z)"

text \<open>\<open>timespan_str\<close>: the printing of a fraction of a second as a float is a parameter.\<close>

definition timespan_str :: "(nat \<Rightarrow> string) \<Rightarrow> timespan \<Rightarrow> string" where
  "timespan_str show_float t =
     (let nsec = unat t; sec = nsec div 1000000000; mn = sec div 60; hr = mn div 60; day = hr div 24;
          wk = day div 7; mo = day div 30; yr = day div 365
      in if nsec < 2000000000 then show_float nsec @ ''s''
         else if sec < 120 then dec sec @ ''s''
         else if mn < 120 then dec mn @ ''m''
         else if hr < 48 then dec hr @ ''h''
         else if day < 14 then dec day @ ''d''
         else if wk < 12 then dec wk @ ''w''
         else if mo < 24 then dec mo @ ''M''
         else dec yr @ ''y'')"

text \<open>\<open>exact_timespan_str\<close>: the seconds are split into units, each printed and subtracted when there are at
  least so many of it. \<open>span_parts\<close> is the sequence of steps; the list collects the printed parts.\<close>

definition span_part :: "nat \<Rightarrow> nat \<Rightarrow> string \<Rightarrow> (nat \<times> nat \<times> string) list \<times> nat \<Rightarrow> (nat \<times> nat \<times> string) list \<times> nat" where
  "span_part least unit_secs nm st =
     (case st of (parts, sec) \<Rightarrow>
      (let n = sec div unit_secs
       in if least \<le> n then (parts @ [(n, unit_secs, nm)], sec - n * unit_secs) else (parts, sec)))"

definition span_parts :: "nat \<Rightarrow> (nat \<times> nat \<times> string) list \<times> nat" where
  "span_parts sec =
     span_part 2 60 ''m'' (span_part 2 (60 * 60) ''h'' (span_part 2 (60 * 60 * 24) ''d''
       (span_part 2 (60 * 60 * 24 * 7) ''w'' (span_part 3 (60 * 60 * 24 * 30) ''mo''
         (span_part 1 (60 * 60 * 24 * 365) ''y'' ([], sec))))))"

definition exact_timespan_str :: "(nat \<Rightarrow> nat \<Rightarrow> string) \<Rightarrow> timespan \<Rightarrow> string" where
  "exact_timespan_str show_float t =
     (let nsec = unat t mod 1000000000;
          (parts, sec) = span_parts (unat t div 1000000000)
      in concat (map (\<lambda>(n, u, nm). dec n @ nm) parts)
         @ (if sec \<noteq> 0 \<or> nsec \<noteq> 0 then (if nsec \<noteq> 0 then show_float nsec sec @ ''s'' else dec sec @ ''s'') else []))"

section \<open>\<open>utime_t\<close>\<close>

record utime =
  u_sec :: u32
  u_nsec :: u32

definition cap_to_u32_max :: "u64 \<Rightarrow> u32" where
  "cap_to_u32_max t = ucast (min t 4294967295)"

definition utime_is_zero :: "utime \<Rightarrow> bool" where
  "utime_is_zero t \<longleftrightarrow> u_sec t = 0 \<and> u_nsec t = 0"

definition normalize :: "utime \<Rightarrow> utime" where
  "normalize t =
     (if 1000000000 < u_nsec t
      then \<lparr>u_sec = cap_to_u32_max (ucast (u_sec t) + ucast (u_nsec t) div 1000000000), u_nsec = u_nsec t mod 1000000000\<rparr>
      else t)"

definition utime_zero :: utime where
  "utime_zero = \<lparr>u_sec = 0, u_nsec = 0\<rparr>"

definition utime_new :: "int \<Rightarrow> int \<Rightarrow> utime" where
  "utime_new s n = normalize \<lparr>u_sec = of_int s, u_nsec = of_int n\<rparr>"

definition utime_of_timespec :: "timespec \<Rightarrow> utime" where
  "utime_of_timespec v = \<lparr>u_sec = of_int (ts_sec v), u_nsec = of_int (ts_nsec v)\<rparr>"

definition utime_of_span :: "timespan \<Rightarrow> utime" where
  "utime_of_span d = \<lparr>u_sec = of_nat (unat d div 10 ^ 9), u_nsec = of_nat (unat d mod 10 ^ 9)\<rparr>"

definition utime_of_timeval :: "timeval \<Rightarrow> utime" where
  "utime_of_timeval v = \<lparr>u_sec = of_int (tv_sec v), u_nsec = of_int (tv_usec v * 1000)\<rparr>"

definition utime_to_timespec :: "utime \<Rightarrow> timespec" where
  "utime_to_timespec t = \<lparr>ts_sec = uint (u_sec t), ts_nsec = uint (u_nsec t)\<rparr>"

definition to_real_time :: "utime \<Rightarrow> timespan result" where
  "to_real_time t = clock_from_timespec (utime_to_timespec t)"

definition utime_to_timeval :: "utime \<Rightarrow> timeval" where
  "utime_to_timeval t = \<lparr>tv_sec = uint (u_sec t), tv_usec = uint (u_nsec t) div 1000\<rparr>"

definition usec :: "utime \<Rightarrow> nat" where
  "usec t = unat (u_nsec t) div 1000"

text \<open>\<open>nsec ()\<close> converts the field to \<open>int\<close>.\<close>

definition nsec :: "utime \<Rightarrow> int" where
  "nsec t = sint (u_nsec t)"

definition to_nsec :: "utime \<Rightarrow> u64" where
  "to_nsec t = ucast (u_nsec t) + ucast (u_sec t) * 1000000000"

definition to_msec :: "utime \<Rightarrow> u64" where
  "to_msec t = ucast (u_nsec t) div 1000000 + ucast (u_sec t) * 1000"

section \<open>Arithmetic\<close>

text \<open>The sum of the nanoseconds is an \<open>int\<close>; the arguments of the constructor are converted to the fields.\<close>

definition utime_add :: "utime \<Rightarrow> utime \<Rightarrow> utime" where
  "utime_add l r =
     utime_new (uint (cap_to_u32_max (ucast (u_sec l) + ucast (u_sec r)))) (uint (u_nsec l + u_nsec r))"

definition utime_add_assign :: "utime \<Rightarrow> utime \<Rightarrow> utime" where
  "utime_add_assign l r =
     normalize \<lparr>u_sec = cap_to_u32_max (ucast (u_sec l) + ucast (u_sec r)), u_nsec = u_nsec l + u_nsec r\<rparr>"

definition utime_sub :: "utime \<Rightarrow> utime \<Rightarrow> utime" where
  "utime_sub l r =
     utime_new (uint (u_sec l) - uint (u_sec r) - (if nsec l < nsec r then 1 else 0))
       (nsec l - nsec r + (if nsec l < nsec r then 1000000000 else 0))"

definition utime_sub_assign :: "utime \<Rightarrow> utime \<Rightarrow> utime" where
  "utime_sub_assign l r =
     (if nsec r \<le> nsec l then \<lparr>u_sec = u_sec l - u_sec r, u_nsec = u_nsec l - u_nsec r\<rparr>
      else \<lparr>u_sec = u_sec l - u_sec r - 1, u_nsec = u_nsec l + (1000000000 - u_nsec r)\<rparr>)"

section \<open>Values\<close>

definition nanos :: "utime \<Rightarrow> nat" where
  "nanos t = unat (u_sec t) * 10 ^ 9 + unat (u_nsec t)"

text \<open>The type invariant of \<open>utime_t\<close>: less than a second of nanoseconds.\<close>

definition utime_ok :: "utime \<Rightarrow> bool" where
  "utime_ok t \<longleftrightarrow> unat (u_nsec t) < 10 ^ 9"

lemma to_nsec_nanos: "unat (to_nsec t) = nanos t"
proof -
  have s: "unat (u_sec t) < 4294967296" and n: "unat (u_nsec t) < 4294967296" by (rule unat_less_u32)+
  have "unat (ucast (u_sec t) * 1000000000 :: u64) = unat (u_sec t) * 1000000000"
    using s by (subst unat_mult_no_overflow) simp_all
  with s n show ?thesis by (simp add: to_nsec_def nanos_def) (subst unat_add_no_overflow; simp)
qed

lemma unat_cap: "unat (cap_to_u32_max t) = min (unat t) 4294967295"
proof (cases "t \<le> 4294967295")
  case True
  then have "unat t \<le> 4294967295" by (simp add: word_le_nat_alt)
  with True show ?thesis by (simp add: cap_to_u32_max_def unsigned_ucast_eq take_bit_nat_eq_self_iff min_def)
next
  case False
  then have "4294967295 < unat t" by (simp add: word_le_nat_alt)
  with False show ?thesis by (simp add: cap_to_u32_max_def min_def)
qed

lemma normalize_ok [simp]: "utime_ok t \<Longrightarrow> normalize t = t"
  by (simp add: normalize_def utime_ok_def word_less_nat_alt)

lemma sum_secs: "unat (ucast (a :: u32) + ucast (b :: u32) :: u64) = unat a + unat b"
  using unat_less_u32 [of a] unat_less_u32 [of b] by (subst unat_add_no_overflow) simp_all

text \<open>The normalized sum, for nanosecond fields that add up to less than two seconds.\<close>

lemma normalize_nanos:
  assumes "unat (u_nsec t) < 2 * 10 ^ 9" "unat (u_sec t) + 1 < 2 ^ 32"
  shows "nanos (normalize t) = nanos t" "unat (u_nsec t) \<noteq> 10 ^ 9 \<Longrightarrow> utime_ok (normalize t)"
proof -
  have d: "unat (ucast (u_nsec t) div 1000000000 :: u64) = unat (u_nsec t) div 1000000000"
    by (simp add: unat_div_distrib)
  have s: "unat (ucast (u_sec t) + ucast (u_nsec t) div 1000000000 :: u64) = unat (u_sec t) + unat (u_nsec t) div 1000000000"
    using d assms unat_less_u32 [of "u_sec t"] unat_less_u32 [of "u_nsec t"] by (subst unat_add_no_overflow) simp_all
  have one: "unat (u_nsec t) div 1000000000 \<le> 1" using assms(1) by simp
  have "unat (u_sec t) + unat (u_nsec t) div 1000000000 \<le> 4294967295" using one assms(2) by simp
  with s have c: "unat (cap_to_u32_max (ucast (u_sec t) + ucast (u_nsec t) div 1000000000)) = unat (u_sec t) + unat (u_nsec t) div 1000000000"
    by (simp add: unat_cap)
  have m: "unat (u_nsec t mod 1000000000) = unat (u_nsec t) mod 1000000000" by (simp add: unat_mod_distrib)
  show "nanos (normalize t) = nanos t"
    by (simp add: normalize_def nanos_def c m distrib_right)
  show "unat (u_nsec t) \<noteq> 10 ^ 9 \<Longrightarrow> utime_ok (normalize t)"
    by (auto simp: normalize_def utime_ok_def m word_less_nat_alt)
qed

lemma nsec_ok:
  assumes "utime_ok t"
  shows "nsec t = uint (u_nsec t)"
proof -
  have "unat (u_nsec t) < 1000000000" using assms by (simp add: utime_ok_def)
  then have "int (unat (u_nsec t)) < 2147483648" by linarith
  moreover have "- (2 ^ 31) \<le> uint (u_nsec t)" by (rule order.trans [OF _ uint_ge_0]) simp
  ultimately show ?thesis by (simp add: nsec_def sint_uint signed_take_bit_int_eq_self)
qed

lemma nsec_le: "utime_ok l \<Longrightarrow> utime_ok r \<Longrightarrow> nsec r \<le> nsec l \<longleftrightarrow> unat (u_nsec r) \<le> unat (u_nsec l)"
  by (simp add: nsec_ok word_le_nat_alt flip: word_le_def)

text \<open>Addition. For normalized operands whose sum stays below \<open>2 ^ 32\<close> seconds, \<open>+\<close> and \<open>+=\<close> agree, the
  sum is exact, and it is normalized, except when the nanoseconds add up to exactly one second: \<open>normalize\<close>
  tests for more than that, so the result keeps a whole second in the nanoseconds.\<close>

theorem utime_addition:
  assumes "utime_ok l" "utime_ok r" "unat (u_sec l) + unat (u_sec r) + 1 < 2 ^ 32"
  shows "utime_add l r = utime_add_assign l r \<and> nanos (utime_add l r) = nanos l + nanos r
    \<and> utime_ok (utime_add l r) = (unat (u_nsec l) + unat (u_nsec r) \<noteq> 10 ^ 9)
    \<and> (unat (u_nsec l) + unat (u_nsec r) = 10 ^ 9 \<longrightarrow> u_nsec (utime_add l r) = 1000000000)"
proof -
  let ?t = "\<lparr>u_sec = cap_to_u32_max (ucast (u_sec l) + ucast (u_sec r)), u_nsec = u_nsec l + u_nsec r\<rparr>"
  have n: "unat (u_nsec l + u_nsec r) = unat (u_nsec l) + unat (u_nsec r)"
    using assms(1,2) by (subst unat_add_no_overflow) (simp_all add: utime_ok_def)
  have s: "unat (u_sec ?t) = unat (u_sec l) + unat (u_sec r)"
    using assms(3) by (simp add: unat_cap sum_secs)
  have eq: "utime_add l r = normalize ?t" by (simp add: utime_add_def utime_new_def)
  have small: "unat (u_nsec ?t) < 2 * 10 ^ 9" using assms(1,2) by (simp add: n utime_ok_def)
  have "unat (u_sec ?t) + 1 < 2 ^ 32" using assms(3) s by simp
  note norm = normalize_nanos [OF small this]
  have full: "normalize ?t = ?t" "u_nsec ?t = 1000000000" if "unat (u_nsec l) + unat (u_nsec r) = 10 ^ 9"
  proof -
    show "u_nsec ?t = 1000000000" using that n by (simp add: word_unat_eq_iff)
    then show "normalize ?t = ?t" by (simp add: normalize_def)
  qed
  show ?thesis
    using norm full n s
    by (auto simp: eq utime_add_assign_def nanos_def utime_ok_def distrib_right)
qed

theorem utime_addition_witness:
  "utime_add \<lparr>u_sec = 1, u_nsec = 500000000\<rparr> \<lparr>u_sec = 2, u_nsec = 500000000\<rparr>
      = utime_add_assign \<lparr>u_sec = 1, u_nsec = 500000000\<rparr> \<lparr>u_sec = 2, u_nsec = 500000000\<rparr>
    \<and> nanos (utime_add \<lparr>u_sec = 1, u_nsec = 500000000\<rparr> \<lparr>u_sec = 2, u_nsec = 500000000\<rparr>)
      = nanos \<lparr>u_sec = 1, u_nsec = 500000000\<rparr> + nanos \<lparr>u_sec = 2, u_nsec = 500000000\<rparr>
    \<and> utime_ok (utime_add \<lparr>u_sec = 1, u_nsec = 500000000\<rparr> \<lparr>u_sec = 2, u_nsec = 500000000\<rparr>)
      = (unat (u_nsec \<lparr>u_sec = 1, u_nsec = 500000000\<rparr>) + unat (u_nsec \<lparr>u_sec = 2, u_nsec = 500000000\<rparr>) \<noteq> 10 ^ 9)
    \<and> (unat (u_nsec \<lparr>u_sec = 1, u_nsec = 500000000\<rparr>) + unat (u_nsec \<lparr>u_sec = 2, u_nsec = 500000000\<rparr>) = 10 ^ 9
        \<longrightarrow> u_nsec (utime_add \<lparr>u_sec = 1, u_nsec = 500000000\<rparr> \<lparr>u_sec = 2, u_nsec = 500000000\<rparr>) = 1000000000)"
  by (rule utime_addition) (simp_all add: utime_ok_def)

text \<open>Subtraction. For normalized operands \<open>-\<close> and \<open>-=\<close> agree and keep the result normalized; when the
  minuend is not earlier the difference is exact, and adding the subtrahend again gives the time of the minuend.\<close>

theorem utime_subtraction:
  assumes "utime_ok l" "utime_ok r"
  shows "utime_sub l r = utime_sub_assign l r \<and> utime_ok (utime_sub l r)
    \<and> (nanos r \<le> nanos l \<longrightarrow> nanos (utime_sub l r) + nanos r = nanos l)"
proof -
  have b: "unat (u_nsec l) < 10 ^ 9" "unat (u_nsec r) < 10 ^ 9" using assms by (simp_all add: utime_ok_def)
  note ns = nsec_ok [OF assms(1)] nsec_ok [OF assms(2)]
  note le_iff = nsec_le [OF assms]
  have less_iff: "nsec l < nsec r \<longleftrightarrow> \<not> unat (u_nsec r) \<le> unat (u_nsec l)" using le_iff by linarith
  show ?thesis
  proof (cases "unat (u_nsec r) \<le> unat (u_nsec l)")
    case True
    then have le: "u_nsec r \<le> u_nsec l" by (simp add: word_le_nat_alt)
    have sub: "utime_sub_assign l r = \<lparr>u_sec = u_sec l - u_sec r, u_nsec = u_nsec l - u_nsec r\<rparr>"
      using True by (simp add: utime_sub_assign_def le_iff)
    have ok: "utime_ok \<lparr>u_sec = u_sec l - u_sec r, u_nsec = u_nsec l - u_nsec r\<rparr>"
      using b by (simp add: utime_ok_def unat_sub_le [OF le])
    have "utime_sub l r = normalize \<lparr>u_sec = u_sec l - u_sec r, u_nsec = u_nsec l - u_nsec r\<rparr>"
      using True by (simp add: utime_sub_def utime_new_def less_iff) (simp add: ns)
    moreover have "nanos \<lparr>u_sec = u_sec l - u_sec r, u_nsec = u_nsec l - u_nsec r\<rparr> + nanos r = nanos l" if "nanos r \<le> nanos l"
    proof -
      have "unat (u_sec r) \<le> unat (u_sec l)" using that b True by (simp add: nanos_def)
      then show ?thesis using True by (simp add: nanos_def unat_sub_le [OF le] unat_sub_le word_le_nat_alt diff_mult_distrib)
    qed
    ultimately show ?thesis using ok sub by simp
  next
    case False
    let ?n = "u_nsec l + (1000000000 - u_nsec r)"
    have r: "u_nsec r \<le> 1000000000" using b by (simp add: word_le_nat_alt)
    have n: "unat ?n = unat (u_nsec l) + (1000000000 - unat (u_nsec r))"
      using b False by (subst unat_add_no_overflow) (simp_all add: unat_sub_le [OF r])
    have ok: "utime_ok \<lparr>u_sec = u_sec l - u_sec r - 1, u_nsec = ?n\<rparr>"
      using b False n by (simp add: utime_ok_def)
    have sub: "utime_sub_assign l r = \<lparr>u_sec = u_sec l - u_sec r - 1, u_nsec = ?n\<rparr>"
      using False by (simp add: utime_sub_assign_def le_iff)
    have "utime_sub l r = normalize \<lparr>u_sec = u_sec l - u_sec r - 1, u_nsec = ?n\<rparr>"
      using False by (simp add: utime_sub_def utime_new_def less_iff) (simp add: ns algebra_simps)
    moreover have "nanos \<lparr>u_sec = u_sec l - u_sec r - 1, u_nsec = ?n\<rparr> + nanos r = nanos l" if "nanos r \<le> nanos l"
    proof -
      have less: "unat (u_sec r) < unat (u_sec l)" using that b False by (simp add: nanos_def)
      have "unat (u_sec l - u_sec r) = unat (u_sec l) - unat (u_sec r)" using less by (simp add: unat_sub_le word_le_nat_alt)
      moreover from this less have "1 \<le> u_sec l - u_sec r" by (simp add: word_le_nat_alt)
      ultimately have "unat (u_sec l - u_sec r - 1) = unat (u_sec l) - unat (u_sec r) - 1" by (simp add: unat_sub_le)
      then show ?thesis using n less b False by (simp add: nanos_def diff_mult_distrib)
    qed
    ultimately show ?thesis using ok sub by simp
  qed
qed

theorem utime_subtraction_witness:
  "utime_sub \<lparr>u_sec = 5, u_nsec = 1\<rparr> \<lparr>u_sec = 2, u_nsec = 7\<rparr> = utime_sub_assign \<lparr>u_sec = 5, u_nsec = 1\<rparr> \<lparr>u_sec = 2, u_nsec = 7\<rparr>
    \<and> utime_ok (utime_sub \<lparr>u_sec = 5, u_nsec = 1\<rparr> \<lparr>u_sec = 2, u_nsec = 7\<rparr>)
    \<and> nanos (utime_sub \<lparr>u_sec = 5, u_nsec = 1\<rparr> \<lparr>u_sec = 2, u_nsec = 7\<rparr>) + 2000000007 = 5000000001"
  using utime_subtraction [of "\<lparr>u_sec = 5, u_nsec = 1\<rparr>" "\<lparr>u_sec = 2, u_nsec = 7\<rparr>"] by (auto simp: utime_ok_def nanos_def)

section \<open>Clocks and printing\<close>

lemma i64_int:
  assumes "n < 2 ^ 63"
  shows "i64 (int n) = Inr (int n)"
proof -
  from assms have "int n < 9223372036854775808" by simp
  then show ?thesis by (simp add: i64_def)
qed

text \<open>Conversions of the clocks. A time below \<open>2 ^ 63\<close> nanoseconds survives the way to \<open>timespec\<close> and back,
  and the way to \<open>timeval\<close> and back rounds it down to a microsecond; \<open>utime_t\<close> from a duration and back to
  nanoseconds is exact below \<open>2 ^ 32\<close> seconds and normalized.\<close>

theorem clock_roundtrip:
  assumes "unat t < 2 ^ 63"
  shows "clock_from_timespec (clock_to_timespec t) = Inr t
    \<and> clock_from_timeval (clock_to_timeval t) = Inr (of_nat (unat t - unat t mod 1000))
    \<and> (unat t < 2 ^ 32 * 10 ^ 9 \<longrightarrow> to_nsec (utime_of_span t) = t \<and> utime_ok (utime_of_span t))"
proof -
  let ?n = "unat t"
  let ?s = "?n div 10 ^ 9" and ?r = "?n mod 10 ^ 9"
  have split: "?s * 10 ^ 9 + ?r = ?n" by simp
  have le: "?s * 10 ^ 9 < 2 ^ 63" "?s * 10 ^ 9 + ?r < 2 ^ 63" using assms by (simp_all add: split)
  have sec: "int ?s * 10 ^ 9 = int (?s * 10 ^ 9)" "int ?s * 10 ^ 6 = int (?s * 10 ^ 6)" by simp_all
  have spec: "clock_from_timespec (clock_to_timespec t) = Inr t"
    unfolding clock_from_timespec_def clock_to_timespec_def clock_to_time_t_def timespec.simps sec i64_int [OF le(1)]
      rbind_simps of_nat_add [symmetric] split i64_int [OF assms]
    by simp
  have six: "?s * 10 ^ 6 \<le> ?s * 10 ^ 9" by simp
  have us: "?s * 10 ^ 6 < 2 ^ 63" "?s * 10 ^ 6 + ?r div 10 ^ 3 < 2 ^ 63"
    by (rule le_less_trans [OF six le(1)], rule le_less_trans [OF add_mono [OF six div_le_dividend] le(2)])
  have micro: "(?s * 10 ^ 6 + ?r div 10 ^ 3) * 1000 = ?n - ?n mod 1000"
  proof -
    have "(?r + (?s * 10 ^ 6) * 1000) div 1000 = ?s * 10 ^ 6 + ?r div 1000" by (rule div_mult_self1) simp
    moreover have "?r + (?s * 10 ^ 6) * 1000 = ?n" using split by simp
    ultimately have "?s * 10 ^ 6 + ?r div 10 ^ 3 = ?n div 1000" by simp
    then show ?thesis by (simp add: minus_mod_eq_div_mult)
  qed
  have val: "clock_from_timeval (clock_to_timeval t) = Inr (of_nat (?n - ?n mod 1000))"
  proof -
    have "clock_from_timeval (clock_to_timeval t) = Inr (of_nat (?s * 10 ^ 6 + ?r div 10 ^ 3) * 1000)"
      unfolding clock_from_timeval_def clock_to_timeval_def clock_to_time_t_def timeval.simps sec i64_int [OF us(1)]
        rbind_simps of_nat_add [symmetric] i64_int [OF us(2)]
      by simp
    also have "(of_nat (?s * 10 ^ 6 + ?r div 10 ^ 3) * 1000 :: u64) = of_nat ((?s * 10 ^ 6 + ?r div 10 ^ 3) * 1000)"
      by (simp only: of_nat_mult of_nat_numeral)
    finally show ?thesis by (simp only: micro)
  qed
  have ut: "to_nsec (utime_of_span t) = t \<and> utime_ok (utime_of_span t)" if "?n < 2 ^ 32 * 10 ^ 9"
  proof -
    have s: "?s < 2 ^ 32" using that by (simp add: less_mult_imp_div_less)
    have r: "?r < 10 ^ 9" by simp
    have "unat (u_sec (utime_of_span t)) = ?s" "unat (u_nsec (utime_of_span t)) = ?r"
      using s r by (simp_all add: utime_of_span_def unat_of_nat_u32)
    then have "unat (to_nsec (utime_of_span t)) = ?n" "utime_ok (utime_of_span t)"
      using split by (simp_all add: to_nsec_nanos nanos_def utime_ok_def)
    then show ?thesis by (simp add: word_unat_eq_iff)
  qed
  from spec val ut show ?thesis by simp
qed

theorem clock_roundtrip_witness:
  "clock_from_timespec (clock_to_timespec 1234567890123) = Inr 1234567890123
    \<and> clock_from_timeval (clock_to_timeval 1234567890123) = Inr (of_nat (unat (1234567890123 :: u64) - unat (1234567890123 :: u64) mod 1000))
    \<and> (unat (1234567890123 :: u64) < 2 ^ 32 * 10 ^ 9 \<longrightarrow> to_nsec (utime_of_span 1234567890123) = 1234567890123 \<and> utime_ok (utime_of_span 1234567890123))"
  by (rule clock_roundtrip) simp

lemma span_part_sum:
  assumes "0 < u"
  shows "sum_list (map (\<lambda>(n, u, nm). n * u) (fst (span_part least u nm st))) + snd (span_part least u nm st)
    = sum_list (map (\<lambda>(n, u, nm). n * u) (fst st)) + snd st"
proof -
  obtain parts sec where st: "st = (parts, sec)" by (cases st)
  have "sec div u * u + (sec - sec div u * u) = sec" by simp
  then show ?thesis by (simp add: st span_part_def Let_def)
qed

lemma span_part_rest: "0 < u \<Longrightarrow> snd (span_part least u nm st) < least * u \<or> snd (span_part least u nm st) < u"
  by (cases st) (auto simp: span_part_def Let_def not_le div_less_iff_less_mult minus_div_mult_eq_mod)

text \<open>\<open>exact_timespan_str\<close> is exact: the units it prints and the seconds that are left add up to the seconds
  of the span, and fewer than two minutes are left for the seconds.\<close>

theorem exact_timespan_sums:
  "sum_list (map (\<lambda>(n, u, nm). n * u) (fst (span_parts sec))) + snd (span_parts sec) = sec \<and> snd (span_parts sec) < 120"
proof -
  have "sum_list (map (\<lambda>(n, u, nm). n * u) (fst (span_parts sec))) + snd (span_parts sec) = sec"
    unfolding span_parts_def by (simp add: span_part_sum)
  moreover have "snd (span_parts sec) < 120"
    unfolding span_parts_def using span_part_rest [of 60 2 "''m''"] by fastforce
  ultimately show ?thesis by simp
qed

text \<open>Rounding. With a precision \<open>p\<close> other than zero, \<open>floor\<close> gives the greatest multiple of \<open>p\<close> up to the
  duration, and \<open>ceil\<close> the least one from it on, as long as that fits into 64 bits.\<close>

theorem span_rounding:
  assumes "0 < unat p" "unat d + unat p < 2 ^ 64"
  shows "\<exists>lo hi. span_floor d p = Inr lo \<and> span_ceil d p = Inr hi
    \<and> unat p dvd unat lo \<and> unat lo \<le> unat d \<and> unat d < unat lo + unat p
    \<and> unat p dvd unat hi \<and> unat d \<le> unat hi \<and> unat hi < unat d + unat p"
proof -
  let ?m = "unat d mod unat p"
  have p: "p \<noteq> 0" using assms(1) by auto
  have m: "unat (d mod p) = ?m" by (simp add: unat_mod_distrib)
  have lo: "unat (d - d mod p) = unat d - ?m"
    using m by (subst unat_sub_le) (simp_all add: word_le_nat_alt)
  have floor: "unat p dvd unat d - ?m" "unat d - ?m \<le> unat d" "unat d < unat d - ?m + unat p"
    using assms(1) mod_less_divisor [OF assms(1), of "unat d"] mod_less_eq_dividend [of "unat d" "unat p"] by (simp_all add: dvd_minus_mod)
  show ?thesis
  proof (cases "?m = 0")
    case True
    then have "\<not> 0 < d mod p" using m by (simp add: word_less_nat_alt)
    with True p lo floor assms(1) show ?thesis by (auto simp: span_floor_def span_ceil_def Let_def)
  next
    case False
    then have "0 < d mod p" using m by (simp add: word_less_nat_alt)
    moreover have hi: "unat (d - d mod p + p) = unat d - ?m + unat p"
      using lo assms(2) by (subst unat_add_no_overflow) simp_all
    moreover have "unat p dvd unat (d - d mod p + p)"
      unfolding hi using floor(1) by (rule dvd_add) simp
    ultimately show ?thesis
      using False p lo floor by (auto simp: span_floor_def span_ceil_def Let_def)
  qed
qed

theorem span_rounding_witness:
  "\<exists>lo hi. span_floor 17 5 = Inr lo \<and> span_ceil 17 5 = Inr hi
    \<and> unat (5 :: u64) dvd unat lo \<and> unat lo \<le> unat (17 :: u64) \<and> unat (17 :: u64) < unat lo + unat (5 :: u64)
    \<and> unat (5 :: u64) dvd unat hi \<and> unat (17 :: u64) \<le> unat hi \<and> unat hi < unat (17 :: u64) + unat (5 :: u64)"
  by (rule span_rounding) simp_all

section \<open>Printing of times\<close>

record tm =
  tm_sec :: int
  tm_min :: int
  tm_hour :: int
  tm_mday :: int
  tm_mon :: int
  tm_year :: int

text \<open>\<open>out.setf (std::ios::right)\<close> on a stream without another adjustment.\<close>

definition setf_right :: "ostream \<Rightarrow> ostream" where
  "setf_right os = os\<lparr>os_adjust := ARight\<rparr>"

definition put_w :: "nat \<Rightarrow> int \<Rightarrow> ostream \<Rightarrow> ostream" where
  "put_w w n os = put_int (setw w os) n"

definition ten_years :: int where
  "ten_years = 60 * 60 * 24 * 365 * 10"

definition put_relative :: "utime \<Rightarrow> ostream \<Rightarrow> ostream" where
  "put_relative t os = put_w 6 (int (usec t)) (put_str (put_int os (uint (u_sec t))) ''.'')"

definition put_date :: "tm \<Rightarrow> ostream \<Rightarrow> ostream" where
  "put_date bdt os =
     put_w 2 (tm_mday bdt) (put_char (put_w 2 (tm_mon bdt + 1) (put_char (put_w 4 (tm_year bdt + 1900) os) (CHR ''-''))) (CHR ''-''))"

definition put_clock :: "tm \<Rightarrow> ostream \<Rightarrow> ostream" where
  "put_clock bdt os =
     put_w 2 (tm_sec bdt) (put_char (put_w 2 (tm_min bdt) (put_char (put_w 2 (tm_hour bdt) os) (CHR '':''))) (CHR '':''))"

text \<open>The library functions \<open>gmtime_r\<close>, \<open>localtime_r\<close>, \<open>asctime_r\<close> and \<open>strftime\<close> are parameters.\<close>

definition utime_gmtime :: "(int \<Rightarrow> tm) \<Rightarrow> utime \<Rightarrow> ostream \<Rightarrow> bool \<Rightarrow> ostream" where
  "utime_gmtime gmtime_r t out legacy_form =
     (let oldfill = os_fill out;
          o1 = set_fill (CHR ''0'') (setf_right out);
          o2 = (if uint (u_sec t) < ten_years then put_relative t o1
                else
                  (let bdt = gmtime_r (uint (u_sec t));
                       p1 = put_date bdt o1;
                       p2 = (if legacy_form then put_char p1 (CHR '' '') else put_char p1 (CHR ''T''));
                       p3 = put_w 6 (int (usec t)) (put_str (put_clock bdt p2) ''.'')
                   in put_str p3 ''Z''))
      in set_fill oldfill o2)"

definition utime_gmtime_nsec :: "(int \<Rightarrow> tm) \<Rightarrow> utime \<Rightarrow> ostream \<Rightarrow> ostream" where
  "utime_gmtime_nsec gmtime_r t out =
     (let oldfill = os_fill out;
          o1 = set_fill (CHR ''0'') (setf_right out);
          o2 = (if uint (u_sec t) < ten_years then put_relative t o1
                else
                  (let bdt = gmtime_r (uint (u_sec t));
                       p2 = put_clock bdt (put_char (put_date bdt o1) (CHR ''T''));
                       p3 = put_w 9 (nsec t) (put_str p2 ''.'')
                   in put_str p3 ''Z''))
      in set_fill oldfill o2)"

definition utime_asctime :: "(int \<Rightarrow> string) \<Rightarrow> utime \<Rightarrow> ostream \<Rightarrow> ostream" where
  "utime_asctime asctime_r t out =
     (let oldfill = os_fill out;
          o1 = set_fill (CHR ''0'') (setf_right out);
          o2 = (if uint (u_sec t) < ten_years then put_relative t o1
                else
                  (let buf = asctime_r (uint (u_sec t))
                   in put_str o1 (if buf \<noteq> [] \<and> last buf = CHR 0x0A then butlast buf else buf)))
      in set_fill oldfill o2)"

definition utime_localtime :: "(int \<Rightarrow> tm) \<Rightarrow> (tm \<Rightarrow> string) \<Rightarrow> utime \<Rightarrow> ostream \<Rightarrow> bool \<Rightarrow> ostream" where
  "utime_localtime localtime_r zone t out legacy_form =
     (let oldfill = os_fill out;
          o1 = set_fill (CHR ''0'') (setf_right out);
          o2 = (if uint (u_sec t) < ten_years then put_relative t o1
                else
                  (let bdt = localtime_r (uint (u_sec t));
                       p1 = put_date bdt o1;
                       p2 = (if legacy_form then put_char p1 (CHR '' '') else put_char p1 (CHR ''T''));
                       p3 = put_w 6 (int (usec t)) (put_str (put_clock bdt p2) ''.'')
                   in if \<not> legacy_form then put_str p3 (zone bdt) else p3))
      in set_fill oldfill o2)"

text \<open>The insertion operator of the wall-clock time points.\<close>

definition put_time_point :: "(int \<Rightarrow> tm) \<Rightarrow> (tm \<Rightarrow> string) \<Rightarrow> timespan \<Rightarrow> ostream \<Rightarrow> ostream" where
  "put_time_point localtime_r zone t m =
     (let oldfill = os_fill m;
          o1 = set_fill (CHR ''0'') (setf_right m);
          bdt = localtime_r (clock_to_time_t t);
          p2 = put_clock bdt (put_char (put_date bdt o1) (CHR ''T''));
          p3 = put_w 6 (int (unat t mod 10 ^ 9 div 10 ^ 3)) (put_str p2 ''.'')
      in set_fill oldfill (put_str p3 (zone bdt)))"

lemma put_w_pad:
  assumes "plain os" "os_fill os = CHR ''0''" "0 \<le> n"
  shows "put_w w n os = os\<lparr>os_data := os_data os @ dec_pad w (nat n)\<rparr>"
  using assms
  by (simp add: put_w_def put_int_def put_raw_def pad_out_def setw_def dec_pad_def plain_def Let_def split: adjustfield.split)

definition tm_ok :: "tm \<Rightarrow> bool" where
  "tm_ok b \<longleftrightarrow> 0 \<le> tm_sec b \<and> 0 \<le> tm_min b \<and> 0 \<le> tm_hour b \<and> 0 \<le> tm_mday b \<and> 0 \<le> tm_mon b \<and> - 1900 \<le> tm_year b"

definition date_text :: "tm \<Rightarrow> string" where
  "date_text b = dec_pad 4 (nat (tm_year b + 1900)) @ ''-'' @ dec_pad 2 (nat (tm_mon b + 1)) @ ''-'' @ dec_pad 2 (nat (tm_mday b))"

definition clock_text :: "tm \<Rightarrow> string" where
  "clock_text b = dec_pad 2 (nat (tm_hour b)) @ '':'' @ dec_pad 2 (nat (tm_min b)) @ '':'' @ dec_pad 2 (nat (tm_sec b))"

lemma put_date_text:
  assumes "plain os" "os_fill os = CHR ''0''" "tm_ok b"
  shows "put_date b os = os\<lparr>os_data := os_data os @ date_text b\<rparr>" "put_clock b os = os\<lparr>os_data := os_data os @ clock_text b\<rparr>"
  using assms by (simp_all add: put_date_def put_clock_def put_w_pad put_char_plain plain_width date_text_def clock_text_def tm_ok_def)

lemma usec_digits: "utime_ok t \<Longrightarrow> length (dec_pad 6 (usec t)) = 6"
  by (rule length_dec_pad) (simp_all add: usec_def utime_ok_def)

text \<open>\<open>gmtime\<close> on a plain stream prints a time below ten years as seconds with six digits of
  microseconds, and a later one in the ISO form with every field padded to its width, and leaves the stream's
  format as it found it.\<close>

theorem utime_gmtime_text:
  assumes "plain os" "os_adjust os = ARight" "utime_ok t" "tm_ok (gmtime_r (uint (u_sec t)))"
  shows "utime_gmtime gmtime_r t os legacy = os\<lparr>os_data := os_data os @
      (if uint (u_sec t) < ten_years then dec (unat (u_sec t)) @ ''.'' @ dec_pad 6 (usec t)
       else date_text (gmtime_r (uint (u_sec t))) @ (if legacy then '' '' else ''T'') @ clock_text (gmtime_r (uint (u_sec t)))
         @ ''.'' @ dec_pad 6 (usec t) @ ''Z'')\<rparr> \<and> length (dec_pad 6 (usec t)) = 6"
proof -
  let ?o = "set_fill (CHR ''0'') (setf_right os)"
  have init: "plain ?o" "os_fill ?o = CHR ''0''" "os_data ?o = os_data os"
    using assms(1) by (simp_all add: set_fill_def setf_right_def plain_def)
  have restore: "set_fill (os_fill os) (?o\<lparr>os_data := s\<rparr>) = os\<lparr>os_data := s\<rparr>" for s
    using assms(2) by (simp add: set_fill_def setf_right_def)
  show ?thesis
    using init assms(3,4) usec_digits [OF assms(3)]
    by (simp add: utime_gmtime_def put_relative_def put_int_plain put_str_plain plain_width put_w_pad put_date_text put_char_plain
        Let_def restore)
qed

theorem utime_gmtime_text_witness:
  "utime_gmtime (\<lambda>_. \<lparr>tm_sec = 5, tm_min = 4, tm_hour = 3, tm_mday = 2, tm_mon = 1, tm_year = 100\<rparr>) \<lparr>u_sec = 1000000000, u_nsec = 7000\<rparr> ostream_new False
    = ostream_new\<lparr>os_data := os_data ostream_new @
      (if uint (u_sec \<lparr>u_sec = 1000000000, u_nsec = 7000\<rparr>) < ten_years
       then dec (unat (u_sec \<lparr>u_sec = 1000000000, u_nsec = 7000\<rparr>)) @ ''.'' @ dec_pad 6 (usec \<lparr>u_sec = 1000000000, u_nsec = 7000\<rparr>)
       else date_text ((\<lambda>_. \<lparr>tm_sec = 5, tm_min = 4, tm_hour = 3, tm_mday = 2, tm_mon = 1, tm_year = 100\<rparr>) (uint (u_sec \<lparr>u_sec = 1000000000, u_nsec = 7000\<rparr>)))
         @ (if False then '' '' else ''T'')
         @ clock_text ((\<lambda>_. \<lparr>tm_sec = 5, tm_min = 4, tm_hour = 3, tm_mday = 2, tm_mon = 1, tm_year = 100\<rparr>) (uint (u_sec \<lparr>u_sec = 1000000000, u_nsec = 7000\<rparr>)))
         @ ''.'' @ dec_pad 6 (usec \<lparr>u_sec = 1000000000, u_nsec = 7000\<rparr>) @ ''Z'')\<rparr>
      \<and> length (dec_pad 6 (usec \<lparr>u_sec = 1000000000, u_nsec = 7000\<rparr>)) = 6"
  by (rule utime_gmtime_text) (simp_all add: ostream_new_def plain_def utime_ok_def tm_ok_def)

end
