(* ===== verification/PerfCounters.thy ===== *)
theory PerfCounters
  imports PerfHistogram UTime
begin

text \<open>
  \<open>src/common/perf_counters.cc\<close> and \<open>perf_counters.h\<close>: the counters of one subsystem, the builder that sets
  them up, and the lock-free reading of an average. The last section models the threads that update
  and read one counter as a step relation over their atomic accesses.
\<close>

section \<open>Data\<close>

definition PERFCOUNTER_NONE :: u8 where "PERFCOUNTER_NONE = 0"
definition PERFCOUNTER_TIME :: u8 where "PERFCOUNTER_TIME = 1"
definition PERFCOUNTER_U64 :: u8 where "PERFCOUNTER_U64 = 2"
definition PERFCOUNTER_LONGRUNAVG :: u8 where "PERFCOUNTER_LONGRUNAVG = 4"
definition PERFCOUNTER_COUNTER :: u8 where "PERFCOUNTER_COUNTER = 8"
definition PERFCOUNTER_HISTOGRAM :: u8 where "PERFCOUNTER_HISTOGRAM = 16"

lemmas perfcounter_defs = PERFCOUNTER_NONE_def PERFCOUNTER_TIME_def PERFCOUNTER_U64_def
  PERFCOUNTER_LONGRUNAVG_def PERFCOUNTER_COUNTER_def PERFCOUNTER_HISTOGRAM_def

record perf_data =
  d_name :: "string option"
  d_description :: "string option"
  d_nick :: "string option"
  d_prio :: u8
  d_type :: u8
  d_unit :: u8
  d_u64 :: u64
  d_avgcount :: u64
  d_avgcount2 :: u64
  d_histogram :: "perf_histogram option"

definition perf_data_new :: perf_data where
  "perf_data_new = \<lparr>d_name = None, d_description = None, d_nick = None, d_prio = 0, d_type = PERFCOUNTER_NONE,
     d_unit = 1, d_u64 = 0, d_avgcount = 0, d_avgcount2 = 0, d_histogram = None\<rparr>"

definition has :: "perf_data \<Rightarrow> u8 \<Rightarrow> bool" where
  "has d flag \<longleftrightarrow> d_type d AND flag \<noteq> 0"

text \<open>\<open>perf_counter_data_any_d::reset\<close>: plain \<open>U64\<close> values keep their value.\<close>

definition data_reset :: "perf_data \<Rightarrow> perf_data result" where
  "data_reset d =
     (let d1 = (if d_type d \<noteq> PERFCOUNTER_U64 then d\<lparr>d_u64 := 0, d_avgcount := 0, d_avgcount2 := 0\<rparr> else d)
      in case d_histogram d1 of
           None \<Rightarrow> Inr d1
         | Some h \<Rightarrow> rbind (histogram_reset h) (\<lambda>h'. Inr (d1\<lparr>d_histogram := Some h'\<rparr>)))"

text \<open>\<open>read_avg\<close> without concurrent updates: the loop ends at once when the two counts agree and never
  ends otherwise.\<close>

definition read_avg :: "perf_data \<Rightarrow> (u64 \<times> u64) option" where
  "read_avg d = (if d_avgcount d = d_avgcount2 d then Some (d_u64 d, d_avgcount2 d) else None)"

section \<open>Counters\<close>

record perf_counters =
  pc_lower_bound :: int
  pc_upper_bound :: int
  pc_name :: string
  pc_prio_adjust :: int
  pc_data :: "perf_data list"

text \<open>The constructor; the size of the vector is a \<open>size_t\<close>, so bounds without room make it an
  exception.\<close>

definition perf_counters_new :: "string \<Rightarrow> int \<Rightarrow> int \<Rightarrow> perf_counters result" where
  "perf_counters_new name lower upper =
     (if upper - lower - 1 < 0 then Inl UncaughtException
      else Inr \<lparr>pc_lower_bound = lower, pc_upper_bound = upper, pc_name = name, pc_prio_adjust = 0,
        pc_data = replicate (nat (upper - lower - 1)) perf_data_new\<rparr>)"

text \<open>Every access checks the index and then works on one element.\<close>

definition at_idx :: "perf_counters \<Rightarrow> int \<Rightarrow> (nat \<Rightarrow> perf_data \<Rightarrow> 'a result) \<Rightarrow> 'a result" where
  "at_idx pc idx f =
     kassert (pc_lower_bound pc < idx)
      (kassert (idx < pc_upper_bound pc)
        (let i = nat (idx - pc_lower_bound pc - 1)
         in if i < length (pc_data pc) then f i (pc_data pc ! i) else Inl OutOfBounds))"

definition put_data :: "perf_counters \<Rightarrow> nat \<Rightarrow> perf_data \<Rightarrow> perf_counters" where
  "put_data pc i d = pc\<lparr>pc_data := (pc_data pc)[i := d]\<rparr>"

definition pc_inc :: "perf_counters \<Rightarrow> int \<Rightarrow> u64 \<Rightarrow> perf_counters result" where
  "pc_inc pc idx amt = at_idx pc idx (\<lambda>i d.
     if \<not> has d PERFCOUNTER_U64 then Inr pc
     else if has d PERFCOUNTER_LONGRUNAVG
     then Inr (put_data pc i (d\<lparr>d_avgcount := d_avgcount d + 1, d_u64 := d_u64 d + amt, d_avgcount2 := d_avgcount2 d + 1\<rparr>))
     else Inr (put_data pc i (d\<lparr>d_u64 := d_u64 d + amt\<rparr>)))"

definition pc_dec :: "perf_counters \<Rightarrow> int \<Rightarrow> u64 \<Rightarrow> perf_counters result" where
  "pc_dec pc idx amt = at_idx pc idx (\<lambda>i d.
     kassert (\<not> has d PERFCOUNTER_LONGRUNAVG)
      (if \<not> has d PERFCOUNTER_U64 then Inr pc else Inr (put_data pc i (d\<lparr>d_u64 := d_u64 d - amt\<rparr>))))"

definition pc_set :: "perf_counters \<Rightarrow> int \<Rightarrow> u64 \<Rightarrow> perf_counters result" where
  "pc_set pc idx amt = at_idx pc idx (\<lambda>i d.
     if \<not> has d PERFCOUNTER_U64 then Inr pc
     else if has d PERFCOUNTER_LONGRUNAVG
     then Inr (put_data pc i (d\<lparr>d_avgcount := d_avgcount d + 1, d_u64 := amt, d_avgcount2 := d_avgcount2 d + 1\<rparr>))
     else Inr (put_data pc i (d\<lparr>d_u64 := amt\<rparr>)))"

definition pc_get :: "perf_counters \<Rightarrow> int \<Rightarrow> u64 result" where
  "pc_get pc idx = at_idx pc idx (\<lambda>i d. if \<not> has d PERFCOUNTER_U64 then Inr 0 else Inr (d_u64 d))"

text \<open>\<open>tinc\<close> with a number of nanoseconds; the overload for \<open>utime_t\<close> converts first.\<close>

definition pc_tinc :: "perf_counters \<Rightarrow> int \<Rightarrow> timespan \<Rightarrow> perf_counters result" where
  "pc_tinc pc idx amt = at_idx pc idx (\<lambda>i d.
     if \<not> has d PERFCOUNTER_TIME then Inr pc
     else if has d PERFCOUNTER_LONGRUNAVG
     then Inr (put_data pc i (d\<lparr>d_avgcount := d_avgcount d + 1, d_u64 := d_u64 d + amt, d_avgcount2 := d_avgcount2 d + 1\<rparr>))
     else Inr (put_data pc i (d\<lparr>d_u64 := d_u64 d + amt\<rparr>)))"

definition pc_tinc_utime :: "perf_counters \<Rightarrow> int \<Rightarrow> utime \<Rightarrow> perf_counters result" where
  "pc_tinc_utime pc idx amt = pc_tinc pc idx (to_nsec amt)"

definition pc_tset :: "perf_counters \<Rightarrow> int \<Rightarrow> utime \<Rightarrow> perf_counters result" where
  "pc_tset pc idx amt = at_idx pc idx (\<lambda>i d.
     if \<not> has d PERFCOUNTER_TIME then Inr pc
     else if has d PERFCOUNTER_LONGRUNAVG then Inl AbortCall
     else Inr (put_data pc i (d\<lparr>d_u64 := to_nsec amt\<rparr>)))"

definition pc_tget :: "perf_counters \<Rightarrow> int \<Rightarrow> utime result" where
  "pc_tget pc idx = at_idx pc idx (\<lambda>i d.
     if \<not> has d PERFCOUNTER_TIME then Inr utime_zero
     else Inr (utime_new (uint (d_u64 d div 1000000000)) (uint (d_u64 d mod 1000000000))))"

definition pc_hinc :: "perf_counters \<Rightarrow> int \<Rightarrow> int \<Rightarrow> int \<Rightarrow> perf_counters result" where
  "pc_hinc pc idx x y = at_idx pc idx (\<lambda>i d.
     kassert (d_type d = (PERFCOUNTER_HISTOGRAM OR PERFCOUNTER_COUNTER OR PERFCOUNTER_U64))
      (case d_histogram d of
         None \<Rightarrow> Inl KAssert
       | Some h \<Rightarrow> rbind (hist_inc h [x, y]) (\<lambda>h'. Inr (put_data pc i (d\<lparr>d_histogram := Some h'\<rparr>)))))"

text \<open>\<open>None\<close> inside the result: the reading loop does not end.\<close>

definition pc_get_tavg_ns :: "perf_counters \<Rightarrow> int \<Rightarrow> (u64 \<times> u64) option result" where
  "pc_get_tavg_ns pc idx = at_idx pc idx (\<lambda>i d.
     if \<not> has d PERFCOUNTER_TIME then Inr (Some (0, 0))
     else if \<not> has d PERFCOUNTER_LONGRUNAVG then Inr (Some (0, 0))
     else Inr (map_option (\<lambda>(sum, count). (count, sum)) (read_avg d)))"

fun reset_all :: "perf_data list \<Rightarrow> perf_data list result" where
  "reset_all [] = Inr []"
| "reset_all (d # ds) = rbind (data_reset d) (\<lambda>d'. rbind (reset_all ds) (\<lambda>ds'. Inr (d' # ds')))"

definition pc_reset :: "perf_counters \<Rightarrow> perf_counters result" where
  "pc_reset pc = rbind (reset_all (pc_data pc)) (\<lambda>ds. Inr (pc\<lparr>pc_data := ds\<rparr>))"

definition PRIO_CRITICAL :: int where
  "PRIO_CRITICAL = 10"

definition get_adjusted_priority :: "perf_counters \<Rightarrow> int \<Rightarrow> int" where
  "get_adjusted_priority pc p = max (min (p + pc_prio_adjust pc) PRIO_CRITICAL) 0"

section \<open>The builder\<close>

record builder =
  b_counters :: "perf_counters option"
  b_prio_default :: int

definition builder_new :: "string \<Rightarrow> int \<Rightarrow> int \<Rightarrow> builder result" where
  "builder_new name first last' =
     rbind (perf_counters_new name first last') (\<lambda>pc. Inr \<lparr>b_counters = Some pc, b_prio_default = 0\<rparr>)"

definition add_impl ::
  "builder \<Rightarrow> int \<Rightarrow> string \<Rightarrow> string option \<Rightarrow> string option \<Rightarrow> int \<Rightarrow> u8 \<Rightarrow> int \<Rightarrow> perf_histogram option \<Rightarrow> builder result" where
  "add_impl b idx name description nick prio ty un hist =
     (case b_counters b of
        None \<Rightarrow> Inl NullDeref
      | Some pc \<Rightarrow> at_idx pc idx (\<lambda>i d.
          kassert (d_type d = PERFCOUNTER_NONE)
           (kassert (case nick of Some n \<Rightarrow> length n \<le> 4 | None \<Rightarrow> True)
             (Inr (b\<lparr>b_counters := Some (put_data pc i
                (d\<lparr>d_name := Some name, d_description := description, d_nick := nick,
                   d_prio := of_int (if prio \<noteq> 0 then prio else b_prio_default b),
                   d_type := ty, d_unit := of_int un, d_histogram := hist\<rparr>))\<rparr>)))))"

definition add_u64_counter :: "builder \<Rightarrow> int \<Rightarrow> string \<Rightarrow> string option \<Rightarrow> string option \<Rightarrow> int \<Rightarrow> int \<Rightarrow> builder result" where
  "add_u64_counter b idx name description nick prio un =
     add_impl b idx name description nick prio (PERFCOUNTER_U64 OR PERFCOUNTER_COUNTER) un None"

definition add_u64 :: "builder \<Rightarrow> int \<Rightarrow> string \<Rightarrow> string option \<Rightarrow> string option \<Rightarrow> int \<Rightarrow> int \<Rightarrow> builder result" where
  "add_u64 b idx name description nick prio un = add_impl b idx name description nick prio PERFCOUNTER_U64 un None"

definition add_u64_avg :: "builder \<Rightarrow> int \<Rightarrow> string \<Rightarrow> string option \<Rightarrow> string option \<Rightarrow> int \<Rightarrow> int \<Rightarrow> builder result" where
  "add_u64_avg b idx name description nick prio un =
     add_impl b idx name description nick prio (PERFCOUNTER_U64 OR PERFCOUNTER_LONGRUNAVG) un None"

definition add_time :: "builder \<Rightarrow> int \<Rightarrow> string \<Rightarrow> string option \<Rightarrow> string option \<Rightarrow> int \<Rightarrow> builder result" where
  "add_time b idx name description nick prio = add_impl b idx name description nick prio PERFCOUNTER_TIME 1 None"

definition add_time_avg :: "builder \<Rightarrow> int \<Rightarrow> string \<Rightarrow> string option \<Rightarrow> string option \<Rightarrow> int \<Rightarrow> builder result" where
  "add_time_avg b idx name description nick prio =
     add_impl b idx name description nick prio (PERFCOUNTER_TIME OR PERFCOUNTER_LONGRUNAVG) 1 None"

definition add_u64_counter_histogram ::
  "builder \<Rightarrow> int \<Rightarrow> string \<Rightarrow> axis_config \<Rightarrow> axis_config \<Rightarrow> string option \<Rightarrow> string option \<Rightarrow> int \<Rightarrow> int \<Rightarrow> builder result" where
  "add_u64_counter_histogram b idx name x y description nick prio un =
     rbind (histogram_new 2 [x, y]) (\<lambda>h.
       add_impl b idx name description nick prio (PERFCOUNTER_U64 OR PERFCOUNTER_HISTOGRAM OR PERFCOUNTER_COUNTER) un (Some h))"

text \<open>\<open>create_perf_counters\<close> checks that every counter was added and hands the object over.\<close>

definition create_perf_counters :: "builder \<Rightarrow> (builder \<times> perf_counters) result" where
  "create_perf_counters b =
     (case b_counters b of
        None \<Rightarrow> Inl NullDeref
      | Some pc \<Rightarrow>
          kassert (list_all (\<lambda>d. d_type d \<noteq> PERFCOUNTER_NONE \<and> has d (PERFCOUNTER_U64 OR PERFCOUNTER_TIME)) (pc_data pc))
           (Inr (b\<lparr>b_counters := None\<rparr>, pc)))"

section \<open>The type of counters\<close>

text \<open>A counter that was added: its type is one of the six of the builder, it has a histogram exactly when its
  type says so, with the two axes \<open>hinc\<close> uses, and its two counts agree.\<close>

definition data_ok :: "perf_data \<Rightarrow> bool" where
  "data_ok d \<longleftrightarrow> has d (PERFCOUNTER_U64 OR PERFCOUNTER_TIME) \<and> d_avgcount d = d_avgcount2 d
     \<and> (if d_type d = (PERFCOUNTER_U64 OR PERFCOUNTER_HISTOGRAM OR PERFCOUNTER_COUNTER)
        then \<exists>h. d_histogram d = Some h \<and> hist_ok h \<and> length (h_axes h) = 2
        else d_type d \<in> {PERFCOUNTER_U64 OR PERFCOUNTER_COUNTER, PERFCOUNTER_U64, PERFCOUNTER_U64 OR PERFCOUNTER_LONGRUNAVG,
            PERFCOUNTER_TIME, PERFCOUNTER_TIME OR PERFCOUNTER_LONGRUNAVG} \<and> d_histogram d = None)"

definition bounds_ok :: "perf_counters \<Rightarrow> bool" where
  "bounds_ok pc \<longleftrightarrow> int (length (pc_data pc)) = pc_upper_bound pc - pc_lower_bound pc - 1"

definition pc_ok :: "perf_counters \<Rightarrow> bool" where
  "pc_ok pc \<longleftrightarrow> bounds_ok pc \<and> (\<forall>d \<in> set (pc_data pc). data_ok d)"

definition in_bounds :: "perf_counters \<Rightarrow> int \<Rightarrow> bool" where
  "in_bounds pc idx \<longleftrightarrow> pc_lower_bound pc < idx \<and> idx < pc_upper_bound pc"

definition data_at :: "perf_counters \<Rightarrow> int \<Rightarrow> perf_data" where
  "data_at pc idx = pc_data pc ! nat (idx - pc_lower_bound pc - 1)"

lemma at_idx_eq:
  assumes "bounds_ok pc"
  shows "at_idx pc idx f = (if in_bounds pc idx then f (nat (idx - pc_lower_bound pc - 1)) (data_at pc idx) else Inl KAssert)"
  using assms by (auto simp: at_idx_def in_bounds_def data_at_def bounds_ok_def kassert_def Let_def)

lemma data_at_ok: "pc_ok pc \<Longrightarrow> in_bounds pc idx \<Longrightarrow> data_ok (data_at pc idx)"
  by (auto simp: pc_ok_def data_at_def in_bounds_def bounds_ok_def)

lemma put_data_ok: "pc_ok pc \<Longrightarrow> data_ok d \<Longrightarrow> pc_ok (put_data pc i d)"
  by (auto simp: pc_ok_def put_data_def bounds_ok_def dest: set_update_subset_insert [THEN subsetD])

lemma data_ok_counts:
  "data_ok d \<Longrightarrow> data_ok (d\<lparr>d_u64 := v\<rparr>)"
  "data_ok d \<Longrightarrow> data_ok (d\<lparr>d_avgcount := d_avgcount d + 1, d_u64 := v, d_avgcount2 := d_avgcount2 d + 1\<rparr>)"
  by (auto simp: data_ok_def has_def)

lemma reset_hist_ok: "hist_ok h \<Longrightarrow> histogram_reset h = Inr h' \<Longrightarrow> hist_ok h' \<and> h_axes h' = h_axes h"
proof -
  have "length (foldl (\<lambda>d i. d[i := 0 :: u64]) d is) = length d" for d "is"
    by (induction "is" arbitrary: d) simp_all
  then show "hist_ok h \<Longrightarrow> histogram_reset h = Inr h' \<Longrightarrow> hist_ok h' \<and> h_axes h' = h_axes h"
    by (auto simp: histogram_reset_def rbind_eq_Inr hist_ok_def)
qed

lemma hist_inc_ok: "hist_ok h \<Longrightarrow> hist_inc h vs = Inr h' \<Longrightarrow> hist_ok h' \<and> h_axes h' = h_axes h"
  by (auto simp: hist_inc_def bump_counter_def rbind_eq_Inr hist_ok_def split: if_splits)

lemma data_reset_ok:
  assumes "data_ok d" "data_reset d = Inr d'"
  shows "data_ok d'"
  using assms
  by (cases "d_histogram d") (auto simp: data_reset_def data_ok_def has_def rbind_eq_Inr Let_def dest: reset_hist_ok split: if_splits)

text \<open>The operations of a client.\<close>

datatype pc_op = OpInc int u64 | OpDec int u64 | OpSet int u64 | OpTinc int u64 | OpTset int utime | OpHinc int int int | OpReset

fun run_op :: "pc_op \<Rightarrow> perf_counters \<Rightarrow> perf_counters result" where
  "run_op (OpInc i v) pc = pc_inc pc i v"
| "run_op (OpDec i v) pc = pc_dec pc i v"
| "run_op (OpSet i v) pc = pc_set pc i v"
| "run_op (OpTinc i v) pc = pc_tinc pc i v"
| "run_op (OpTset i v) pc = pc_tset pc i v"
| "run_op (OpHinc i x y) pc = pc_hinc pc i x y"
| "run_op OpReset pc = pc_reset pc"

lemmas pc_op_defs = pc_inc_def pc_dec_def pc_set_def pc_tinc_def pc_tset_def pc_hinc_def

text \<open>The specification of a counter of type \<open>ty\<close> at index \<open>idx\<close>: its value and its count are a pair that only the
  operations on this very index, and \<open>reset\<close>, change.\<close>

definition counted :: "u8 \<Rightarrow> u64 \<Rightarrow> u64" where
  "counted ty c = (if ty AND PERFCOUNTER_LONGRUNAVG \<noteq> 0 then c + 1 else c)"

fun spec_val :: "u8 \<Rightarrow> int \<Rightarrow> pc_op \<Rightarrow> u64 \<times> u64 \<Rightarrow> u64 \<times> u64" where
  "spec_val ty idx (OpInc i v) (x, c) = (if i = idx \<and> ty AND PERFCOUNTER_U64 \<noteq> 0 then (x + v, counted ty c) else (x, c))"
| "spec_val ty idx (OpDec i v) (x, c) = (if i = idx \<and> ty AND PERFCOUNTER_U64 \<noteq> 0 then (x - v, c) else (x, c))"
| "spec_val ty idx (OpSet i v) (x, c) = (if i = idx \<and> ty AND PERFCOUNTER_U64 \<noteq> 0 then (v, counted ty c) else (x, c))"
| "spec_val ty idx (OpTinc i v) (x, c) = (if i = idx \<and> ty AND PERFCOUNTER_TIME \<noteq> 0 then (x + v, counted ty c) else (x, c))"
| "spec_val ty idx (OpTset i t) (x, c) = (if i = idx \<and> ty AND PERFCOUNTER_TIME \<noteq> 0 then (to_nsec t, c) else (x, c))"
| "spec_val ty idx (OpHinc i u v) (x, c) = (x, c)"
| "spec_val ty idx OpReset (x, c) = (if ty = PERFCOUNTER_U64 then (x, c) else (0, 0))"

text \<open>The operations the class accepts: on an index of the object, no \<open>dec\<close> on an average, no \<open>tset\<close> on an average of times, and
  \<open>hinc\<close> on a histogram with values its axes can place.\<close>

fun op_ok :: "perf_counters \<Rightarrow> pc_op \<Rightarrow> bool" where
  "op_ok pc (OpInc i v) = in_bounds pc i"
| "op_ok pc (OpDec i v) = (in_bounds pc i \<and> \<not> has (data_at pc i) PERFCOUNTER_LONGRUNAVG)"
| "op_ok pc (OpSet i v) = in_bounds pc i"
| "op_ok pc (OpTinc i v) = in_bounds pc i"
| "op_ok pc (OpTset i t) =
     (in_bounds pc i \<and> \<not> (has (data_at pc i) PERFCOUNTER_TIME \<and> has (data_at pc i) PERFCOUNTER_LONGRUNAVG))"
| "op_ok pc (OpHinc i x y) =
     (in_bounds pc i \<and> (case d_histogram (data_at pc i) of None \<Rightarrow> False | Some h \<Rightarrow> values_ok (h_axes h) [x, y]))"
| "op_ok pc OpReset = True"

definition val_of :: "perf_data \<Rightarrow> u64 \<times> u64" where
  "val_of d = (d_u64 d, d_avgcount d)"

text \<open>What a counter was declared as.\<close>

definition decl_of :: "perf_data \<Rightarrow> string option \<times> u8 \<times> axis_config list option" where
  "decl_of d = (d_name d, d_type d, map_option h_axes (d_histogram d))"

definition same_decl :: "perf_counters \<Rightarrow> perf_counters \<Rightarrow> bool" where
  "same_decl pc pc' \<longleftrightarrow> pc_lower_bound pc' = pc_lower_bound pc \<and> pc_upper_bound pc' = pc_upper_bound pc \<and>
     map decl_of (pc_data pc') = map decl_of (pc_data pc)"

lemma same_declD:
  assumes "same_decl pc pc'" "bounds_ok pc"
  shows "in_bounds pc' = in_bounds pc" "bounds_ok pc'" "in_bounds pc idx \<Longrightarrow> decl_of (data_at pc' idx) = decl_of (data_at pc idx)"
proof -
  have len: "length (pc_data pc') = length (pc_data pc)" using assms(1) by (metis same_decl_def length_map)
  show "in_bounds pc' = in_bounds pc" "bounds_ok pc'"
    using assms len by (simp_all add: same_decl_def in_bounds_def bounds_ok_def fun_eq_iff)
  assume "in_bounds pc idx"
  then have "nat (idx - pc_lower_bound pc - 1) < length (pc_data pc)" using assms(2) by (auto simp: in_bounds_def bounds_ok_def)
  then show "decl_of (data_at pc' idx) = decl_of (data_at pc idx)"
    using assms(1) len by (metis data_at_def nth_map same_decl_def)
qed

lemma op_ok_decl:
  assumes "same_decl pc pc'" "bounds_ok pc"
  shows "op_ok pc' op = op_ok pc op"
proof -
  note d = same_declD [OF assms]
  have t: "d_type (data_at pc' i) = d_type (data_at pc i)" "map_option h_axes (d_histogram (data_at pc' i)) = map_option h_axes (d_histogram (data_at pc i))"
    if "in_bounds pc i" for i using d(3) [OF that] by (simp_all add: decl_of_def)
  have h: "(case d_histogram (data_at pc' i) of None \<Rightarrow> False | Some h \<Rightarrow> P (h_axes h)) = (case d_histogram (data_at pc i) of None \<Rightarrow> False | Some h \<Rightarrow> P (h_axes h))"
    if "in_bounds pc i" for i P using t(2) [OF that] by (auto split: option.splits)
  show ?thesis
  proof (cases op)
    case (OpHinc i x y)
    then show ?thesis using h [of i "\<lambda>a. values_ok a [x, y]"] by (auto simp: d(1))
  qed (use t(1) in \<open>auto simp: d(1) has_def\<close>)
qed

text \<open>Writing one slot with a counter of the same declaration.\<close>

lemma put_spec:
  assumes "pc_ok pc" "in_bounds pc i" "data_ok d" "decl_of d = decl_of (data_at pc i)"
  shows "pc_ok (put_data pc (nat (i - pc_lower_bound pc - 1)) d) \<and> same_decl pc (put_data pc (nat (i - pc_lower_bound pc - 1)) d) \<and>
    (\<forall>idx. in_bounds pc idx \<longrightarrow> data_at (put_data pc (nat (i - pc_lower_bound pc - 1)) d) idx = (if idx = i then d else data_at pc idx))"
proof -
  let ?k = "nat (i - pc_lower_bound pc - 1)"
  have k: "?k < length (pc_data pc)" using assms(1,2) by (auto simp: pc_ok_def bounds_ok_def in_bounds_def)
  have "map decl_of ((pc_data pc)[?k := d]) = map decl_of (pc_data pc)"
    using assms(4) k by (simp add: map_update data_at_def list_update_same_conv)
  moreover have "data_at (put_data pc ?k d) idx = (if idx = i then d else data_at pc idx)" if "in_bounds pc idx" for idx
    using that assms(2) k by (auto simp: data_at_def put_data_def in_bounds_def nth_list_update eq_nat_nat_iff)
  ultimately show ?thesis using put_data_ok [OF assms(1,3)] by (simp add: same_decl_def put_data_def)
qed

text \<open>Each accepted operation succeeds, keeps the declarations and the type, and does to every counter what the specification says.\<close>

definition op_spec :: "pc_op \<Rightarrow> perf_counters \<Rightarrow> perf_counters \<Rightarrow> bool" where
  "op_spec op pc pc' \<longleftrightarrow> pc_ok pc' \<and> same_decl pc pc' \<and>
     (\<forall>idx. in_bounds pc idx \<longrightarrow> val_of (data_at pc' idx) = spec_val (d_type (data_at pc idx)) idx op (val_of (data_at pc idx)))"

lemma op_spec_same: "pc_ok pc \<Longrightarrow> (\<And>idx. in_bounds pc idx \<Longrightarrow> spec_val (d_type (data_at pc idx)) idx op (val_of (data_at pc idx)) = val_of (data_at pc idx)) \<Longrightarrow> op_spec op pc pc"
  by (simp add: op_spec_def same_decl_def)

lemma op_spec_put:
  assumes "pc_ok pc" "in_bounds pc i" "data_ok d" "decl_of d = decl_of (data_at pc i)"
    and "val_of d = spec_val (d_type (data_at pc i)) i op (val_of (data_at pc i))" "\<And>idx ty p. idx \<noteq> i \<Longrightarrow> spec_val ty idx op p = p"
  shows "op_spec op pc (put_data pc (nat (i - pc_lower_bound pc - 1)) d)"
  using put_spec [OF assms(1-4)] assms(5,6) by (auto simp: op_spec_def)

lemma reset_all_spec:
  "\<forall>d \<in> set ds. data_ok d \<Longrightarrow> \<exists>ds'. reset_all ds = Inr ds' \<and> list_all2 (\<lambda>d d'. data_ok d' \<and> decl_of d' = decl_of d \<and>
     val_of d' = (if d_type d = PERFCOUNTER_U64 then val_of d else (0, 0))) ds ds'"
proof (induction ds)
  case (Cons d ds)
  have ok: "data_ok d" using Cons.prems by simp
  have "\<exists>d'. data_reset d = Inr d' \<and> decl_of d' = decl_of d \<and> val_of d' = (if d_type d = PERFCOUNTER_U64 then val_of d else (0, 0))"
  proof (cases "d_histogram d")
    case None
    then show ?thesis by (simp add: data_reset_def decl_of_def val_of_def Let_def)
  next
    case (Some h)
    then have h: "hist_ok h" using ok by (auto simp: data_ok_def split: if_splits)
    then have "get_raw_size (h_axes h) = Inr (n_buckets (h_axes h))" by (intro raw_size) (simp_all add: hist_ok_def)
    then obtain h' where h': "histogram_reset h = Inr h'" by (simp add: histogram_reset_def)
    with reset_hist_ok [OF h] Some show ?thesis by (simp add: data_reset_def decl_of_def val_of_def Let_def)
  qed
  then obtain d' where d': "data_reset d = Inr d'" "decl_of d' = decl_of d" "val_of d' = (if d_type d = PERFCOUNTER_U64 then val_of d else (0, 0))"
    by blast
  obtain ds' where "reset_all ds = Inr ds'" "list_all2 (\<lambda>d d'. data_ok d' \<and> decl_of d' = decl_of d \<and>
     val_of d' = (if d_type d = PERFCOUNTER_U64 then val_of d else (0, 0))) ds ds'"
    using Cons by auto
  then show ?case using d' data_reset_ok [OF ok d'(1)] by simp
qed simp

lemma reset_spec:
  assumes "pc_ok pc"
  shows "\<exists>pc'. pc_reset pc = Inr pc' \<and> op_spec OpReset pc pc'"
proof -
  obtain ds' where ds': "reset_all (pc_data pc) = Inr ds'" "list_all2 (\<lambda>d d'. data_ok d' \<and> decl_of d' = decl_of d \<and>
     val_of d' = (if d_type d = PERFCOUNTER_U64 then val_of d else (0, 0))) (pc_data pc) ds'"
    using reset_all_spec [of "pc_data pc"] assms by (auto simp: pc_ok_def)
  let ?pc = "pc\<lparr>pc_data := ds'\<rparr>"
  have len: "length ds' = length (pc_data pc)" and nth: "\<And>i. i < length ds' \<Longrightarrow> data_ok (ds' ! i) \<and> decl_of (ds' ! i) = decl_of (pc_data pc ! i) \<and>
      val_of (ds' ! i) = (if d_type (pc_data pc ! i) = PERFCOUNTER_U64 then val_of (pc_data pc ! i) else (0, 0))"
    using ds'(2) by (auto simp: list_all2_conv_all_nth)
  have b: "bounds_ok pc" using assms by (simp add: pc_ok_def)
  have "pc_ok ?pc" using b len nth by (auto simp: pc_ok_def bounds_ok_def in_set_conv_nth)
  moreover have "same_decl pc ?pc" using len nth by (auto simp: same_decl_def intro: nth_equalityI)
  moreover have "val_of (data_at ?pc idx) = spec_val (d_type (data_at pc idx)) idx OpReset (val_of (data_at pc idx))" if "in_bounds pc idx" for idx
  proof -
    have "nat (idx - pc_lower_bound pc - 1) < length ds'" using that b len by (auto simp: in_bounds_def bounds_ok_def)
    from nth [OF this] show ?thesis by (cases "val_of (data_at pc idx)") (simp add: data_at_def)
  qed
  ultimately show ?thesis using ds'(1) by (auto simp: pc_reset_def op_spec_def)
qed

lemma hinc_spec:
  assumes "pc_ok pc" "op_ok pc (OpHinc i x y)"
  shows "\<exists>pc'. pc_hinc pc i x y = Inr pc' \<and> op_spec (OpHinc i x y) pc pc'"
proof -
  have b: "bounds_ok pc" and i: "in_bounds pc i" using assms by (simp_all add: pc_ok_def)
  obtain h where h: "d_histogram (data_at pc i) = Some h" "values_ok (h_axes h) [x, y]" using assms(2) by (auto split: option.splits)
  note ok = data_at_ok [OF assms(1) i]
  have ty: "d_type (data_at pc i) = (PERFCOUNTER_HISTOGRAM OR PERFCOUNTER_COUNTER OR PERFCOUNTER_U64)" and hk: "hist_ok h"
    using ok h(1) by (auto simp: data_ok_def perfcounter_defs split: if_splits)
  obtain h' where h': "hist_inc h [x, y] = Inr h'" "hist_ok h'" "h_axes h' = h_axes h" using histogram_counts [OF hk h(2)] by blast
  let ?d = "(data_at pc i)\<lparr>d_histogram := Some h'\<rparr>"
  have "data_ok ?d" using ok h(1) h' by (auto simp: data_ok_def has_def split: if_splits)
  then have "op_spec (OpHinc i x y) pc (put_data pc (nat (i - pc_lower_bound pc - 1)) ?d)"
    using h(1) h'(3) by (intro op_spec_put [OF assms(1) i]) (auto simp: decl_of_def val_of_def)
  then show ?thesis using b i ty h(1) h'(1) by (simp add: pc_hinc_def at_idx_eq)
qed

lemma op_spec_value:
  assumes "pc_ok pc" "in_bounds pc i" "spec_val (d_type (data_at pc i)) i op (d_u64 (data_at pc i), d_avgcount (data_at pc i)) = (v, d_avgcount (data_at pc i))"
    and "\<And>idx ty x c. idx \<noteq> i \<Longrightarrow> spec_val ty idx op (x, c) = (x, c)"
  shows "op_spec op pc (put_data pc (nat (i - pc_lower_bound pc - 1)) ((data_at pc i)\<lparr>d_u64 := v\<rparr>))"
proof (rule op_spec_put [OF assms(1,2)])
  show "spec_val ty idx op p = p" if "idx \<noteq> i" for idx ty p using assms(4) [OF that] by (cases p) simp
qed (use assms data_ok_counts(1) [OF data_at_ok [OF assms(1,2)]] in \<open>simp_all add: decl_of_def val_of_def\<close>)

lemma op_spec_count:
  assumes "pc_ok pc" "in_bounds pc i"
    and "spec_val (d_type (data_at pc i)) i op (d_u64 (data_at pc i), d_avgcount (data_at pc i)) = (v, d_avgcount (data_at pc i) + 1)"
    and "\<And>idx ty x c. idx \<noteq> i \<Longrightarrow> spec_val ty idx op (x, c) = (x, c)"
  shows "op_spec op pc (put_data pc (nat (i - pc_lower_bound pc - 1))
    ((data_at pc i)\<lparr>d_avgcount := d_avgcount (data_at pc i) + 1, d_u64 := v, d_avgcount2 := d_avgcount2 (data_at pc i) + 1\<rparr>))"
proof (rule op_spec_put [OF assms(1,2)])
  show "spec_val ty idx op p = p" if "idx \<noteq> i" for idx ty p using assms(4) [OF that] by (cases p) simp
qed (use assms data_ok_counts(2) [OF data_at_ok [OF assms(1,2)]] in \<open>simp_all add: decl_of_def val_of_def\<close>)

lemma run_op_spec:
  assumes "pc_ok pc" "op_ok pc op"
  shows "\<exists>pc'. run_op op pc = Inr pc' \<and> op_spec op pc pc'"
proof -
  have b: "bounds_ok pc" using assms(1) by (simp add: pc_ok_def)
  note intros = op_spec_value [OF assms(1)] op_spec_count [OF assms(1)] op_spec_same [OF assms(1)]
  show ?thesis
  proof (cases op)
    case (OpHinc i x y)
    then show ?thesis using hinc_spec [OF assms(1)] assms(2) by simp
  next
    case OpReset
    then show ?thesis using reset_spec [OF assms(1)] by simp
  qed (use assms(2) b in \<open>auto simp: pc_op_defs at_idx_eq has_def val_of_def counted_def intro!: intros\<close>)
qed

text \<open>A builder whose counters are partly added.\<close>

definition builder_ok :: "builder \<Rightarrow> bool" where
  "builder_ok b \<longleftrightarrow> (\<forall>pc. b_counters b = Some pc \<longrightarrow>
     bounds_ok pc \<and> (\<forall>d \<in> set (pc_data pc). d = perf_data_new \<or> data_ok d))"

datatype addition =
    AddU64 int string "string option" "string option" int int
  | AddU64Counter int string "string option" "string option" int int
  | AddU64Avg int string "string option" "string option" int int
  | AddTime int string "string option" "string option" int
  | AddTimeAvg int string "string option" "string option" int
  | AddHistogram int string axis_config axis_config "string option" "string option" int int

fun build_op :: "addition \<Rightarrow> builder \<Rightarrow> builder result" where
  "build_op (AddU64 i n de ni p u) b = add_u64 b i n de ni p u"
| "build_op (AddU64Counter i n de ni p u) b = add_u64_counter b i n de ni p u"
| "build_op (AddU64Avg i n de ni p u) b = add_u64_avg b i n de ni p u"
| "build_op (AddTime i n de ni p) b = add_time b i n de ni p"
| "build_op (AddTimeAvg i n de ni p) b = add_time_avg b i n de ni p"
| "build_op (AddHistogram i n x y de ni p u) b = add_u64_counter_histogram b i n x y de ni p u"

fun build_all :: "addition list \<Rightarrow> builder \<Rightarrow> builder result" where
  "build_all [] b = Inr b"
| "build_all (op # ops) b = rbind (build_op op b) (build_all ops)"

lemmas add_defs = add_u64_def add_u64_counter_def add_u64_avg_def add_time_def add_time_avg_def

text \<open>The types the builder adds without and with a histogram.\<close>

definition plain_types :: "u8 set" where
  "plain_types = {PERFCOUNTER_U64 OR PERFCOUNTER_COUNTER, PERFCOUNTER_U64, PERFCOUNTER_U64 OR PERFCOUNTER_LONGRUNAVG,
     PERFCOUNTER_TIME, PERFCOUNTER_TIME OR PERFCOUNTER_LONGRUNAVG}"

lemma add_impl_ok:
  assumes "builder_ok b" "add_impl b idx name de ni p ty un hist = Inr b'"
    and "(ty \<in> plain_types \<and> hist = None)
      \<or> (ty = (PERFCOUNTER_U64 OR PERFCOUNTER_HISTOGRAM OR PERFCOUNTER_COUNTER) \<and> (\<exists>h. hist = Some h \<and> hist_ok h \<and> length (h_axes h) = 2))"
  shows "builder_ok b'"
proof -
  from assms(2) obtain pc where pc: "b_counters b = Some pc" by (auto simp: add_impl_def split: option.splits)
  with assms(1) have b: "bounds_ok pc" "\<forall>d \<in> set (pc_data pc). d = perf_data_new \<or> data_ok d" by (auto simp: builder_ok_def)
  let ?i = "nat (idx - pc_lower_bound pc - 1)"
  let ?d = "(data_at pc idx)\<lparr>d_name := Some name, d_description := de, d_nick := ni,
     d_prio := of_int (if p \<noteq> 0 then p else b_prio_default b), d_type := ty, d_unit := of_int un, d_histogram := hist\<rparr>"
  from assms(2) pc b(1) have in_b: "in_bounds pc idx" and none: "d_type (data_at pc idx) = PERFCOUNTER_NONE"
    and b': "b' = b\<lparr>b_counters := Some (put_data pc ?i ?d)\<rparr>"
    by (auto simp: add_impl_def at_idx_eq split: if_splits)
  have "data_at pc idx \<in> set (pc_data pc)" using in_b b(1) by (auto simp: data_at_def in_bounds_def bounds_ok_def)
  with b(2) have "data_at pc idx = perf_data_new \<or> data_ok (data_at pc idx)" by blast
  moreover have "\<not> data_ok (data_at pc idx)" using none by (simp add: data_ok_def has_def PERFCOUNTER_NONE_def)
  ultimately have "data_at pc idx = perf_data_new" by blast
  with assms(3) have "data_ok ?d"
    by (auto simp: data_ok_def has_def perf_data_new_def plain_types_def perfcounter_defs)
  with b show ?thesis
    by (auto simp: b' builder_ok_def put_data_def bounds_ok_def dest!: set_update_subset_insert [THEN subsetD])
qed

lemma histogram_new_2:
  assumes "histogram_new 2 [x, y] = Inr h"
  shows "hist_ok h \<and> length (h_axes h) = 2"
proof -
  from assms obtain n where "check_axes [x, y]" "get_raw_size [x, y] = Inr n" "0 \<le> n"
    "h = \<lparr>h_axes = [x, y], h_rawData = replicate (nat n) 0\<rparr>"
    by (auto simp: histogram_new_def rbind_eq_Inr split: if_splits)
  moreover from this have "n = n_buckets [x, y]" "n < 2 ^ 63"
    by (auto simp: get_raw_size_def i64_def rbind_eq_Inr split: if_splits)
  ultimately show ?thesis by (simp add: hist_ok_def)
qed

lemma build_op_ok: "builder_ok b \<Longrightarrow> build_op op b = Inr b' \<Longrightarrow> builder_ok b'"
  by (cases op)
    (auto simp: add_defs plain_types_def add_u64_counter_histogram_def rbind_eq_Inr
      dest!: histogram_new_2 intro: add_impl_ok)

lemma build_all_ok: "builder_ok b \<Longrightarrow> build_all ops b = Inr b' \<Longrightarrow> builder_ok b'"
  by (induction ops arbitrary: b) (auto simp: rbind_eq_Inr dest: build_op_ok)

lemma builder_new_ok: "builder_new name lo hi = Inr b \<Longrightarrow> builder_ok b"
  by (auto simp: builder_new_def perf_counters_new_def rbind_eq_Inr builder_ok_def bounds_ok_def split: if_splits)

lemma create_ok:
  assumes "builder_ok b" "create_perf_counters b = Inr (b', pc)"
  shows "pc_ok pc"
proof -
  from assms have "bounds_ok pc" "\<forall>d \<in> set (pc_data pc). d = perf_data_new \<or> data_ok d"
    "\<forall>d \<in> set (pc_data pc). d_type d \<noteq> PERFCOUNTER_NONE"
    by (auto simp: create_perf_counters_def builder_ok_def list_all_iff split: option.splits)
  moreover have "d_type perf_data_new = PERFCOUNTER_NONE" by (simp add: perf_data_new_def)
  ultimately show ?thesis by (auto simp: pc_ok_def)
qed

fun run_ops :: "pc_op list \<Rightarrow> perf_counters \<Rightarrow> perf_counters result" where
  "run_ops [] pc = Inr pc"
| "run_ops (op # ops) pc = rbind (run_op op pc) (run_ops ops)"

lemma same_decl_trans: "same_decl a b \<Longrightarrow> same_decl b c \<Longrightarrow> same_decl a c"
  by (simp add: same_decl_def)

lemma run_ops_spec:
  assumes "pc_ok pc" "list_all (op_ok pc) ops"
  shows "\<exists>pc'. run_ops ops pc = Inr pc' \<and> pc_ok pc' \<and> same_decl pc pc' \<and>
    (\<forall>idx. in_bounds pc idx \<longrightarrow> val_of (data_at pc' idx) = fold (spec_val (d_type (data_at pc idx)) idx) ops (val_of (data_at pc idx)))"
  using assms
proof (induction ops arbitrary: pc)
  case Nil
  then show ?case by (simp add: same_decl_def)
next
  case (Cons op ops)
  obtain p1 where p1: "run_op op pc = Inr p1" "pc_ok p1" "same_decl pc p1"
      "\<And>idx. in_bounds pc idx \<Longrightarrow> val_of (data_at p1 idx) = spec_val (d_type (data_at pc idx)) idx op (val_of (data_at pc idx))"
    using run_op_spec [of pc op] Cons.prems by (auto simp: op_spec_def)
  have b: "bounds_ok pc" using Cons.prems(1) by (simp add: pc_ok_def)
  note d = same_declD [OF p1(3) b] and keep = op_ok_decl [OF p1(3) b]
  have "list_all (op_ok p1) ops" using Cons.prems(2) keep by (simp add: list_all_iff)
  from Cons.IH [OF p1(2) this] obtain pc' where pc': "run_ops ops p1 = Inr pc'" "pc_ok pc'" "same_decl p1 pc'"
      "\<And>idx. in_bounds p1 idx \<Longrightarrow> val_of (data_at pc' idx) = fold (spec_val (d_type (data_at p1 idx)) idx) ops (val_of (data_at p1 idx))"
    by blast
  have "val_of (data_at pc' idx) = fold (spec_val (d_type (data_at pc idx)) idx) (op # ops) (val_of (data_at pc idx))" if "in_bounds pc idx" for idx
    using pc'(4) [of idx] p1(4) [OF that] d(3) [OF that] that d(1) by (simp add: decl_of_def)
  then show ?case using p1(1) pc'(1,2) same_decl_trans [OF p1(3) pc'(3)] by auto
qed

text \<open>What an addition declares: the index, the name, the type, and the axes of a histogram.\<close>

fun declares :: "addition \<Rightarrow> int \<times> string \<times> u8 \<times> axis_config list option" where
  "declares (AddU64 i n de ni p u) = (i, n, PERFCOUNTER_U64, None)"
| "declares (AddU64Counter i n de ni p u) = (i, n, PERFCOUNTER_U64 OR PERFCOUNTER_COUNTER, None)"
| "declares (AddU64Avg i n de ni p u) = (i, n, PERFCOUNTER_U64 OR PERFCOUNTER_LONGRUNAVG, None)"
| "declares (AddTime i n de ni p) = (i, n, PERFCOUNTER_TIME, None)"
| "declares (AddTimeAvg i n de ni p) = (i, n, PERFCOUNTER_TIME OR PERFCOUNTER_LONGRUNAVG, None)"
| "declares (AddHistogram i n x y de ni p u) =
     (i, n, PERFCOUNTER_U64 OR PERFCOUNTER_HISTOGRAM OR PERFCOUNTER_COUNTER, Some [x, y])"

text \<open>A builder after some additions: the slots added hold what was declared, with value and counts 0, the others nothing.\<close>

definition built :: "int \<Rightarrow> int \<Rightarrow> addition list \<Rightarrow> perf_counters \<Rightarrow> bool" where
  "built lo hi adds pc \<longleftrightarrow> pc_lower_bound pc = lo \<and> pc_upper_bound pc = hi \<and> bounds_ok pc \<and>
     distinct (map (fst \<circ> declares) adds) \<and>
     (\<forall>idx. in_bounds pc idx \<longrightarrow> val_of (data_at pc idx) = (0, 0) \<and>
        (case map_of (map declares adds) idx of
           None \<Rightarrow> data_at pc idx = perf_data_new
         | Some (n, ty, ax) \<Rightarrow> decl_of (data_at pc idx) = (Some n, ty, ax) \<and> ty \<noteq> PERFCOUNTER_NONE))"

lemma built_at:
  assumes "built lo hi adds pc" "in_bounds pc idx"
  shows "val_of (data_at pc idx) = (0, 0)"
    and "map_of (map declares adds) idx = None \<Longrightarrow> d_type (data_at pc idx) = PERFCOUNTER_NONE"
    and "map_of (map declares adds) idx = Some (n, ty, ax) \<Longrightarrow> decl_of (data_at pc idx) = (Some n, ty, ax) \<and> ty \<noteq> PERFCOUNTER_NONE"
proof -
  have *: "val_of (data_at pc idx) = (0, 0) \<and> (case map_of (map declares adds) idx of
           None \<Rightarrow> data_at pc idx = perf_data_new
         | Some (n, ty, ax) \<Rightarrow> decl_of (data_at pc idx) = (Some n, ty, ax) \<and> ty \<noteq> PERFCOUNTER_NONE)"
    using assms unfolding built_def by blast
  show "val_of (data_at pc idx) = (0, 0)" using * by blast
  show "map_of (map declares adds) idx = None \<Longrightarrow> d_type (data_at pc idx) = PERFCOUNTER_NONE"
    "map_of (map declares adds) idx = Some (n, ty, ax) \<Longrightarrow> decl_of (data_at pc idx) = (Some n, ty, ax) \<and> ty \<noteq> PERFCOUNTER_NONE"
    using * by (simp_all add: perf_data_new_def)
qed

lemma build_op_impl:
  assumes "build_op a b = Inr b'" "declares a = (i, n, ty, ax)"
  obtains de ni p un hist where "add_impl b i n de ni p ty un hist = Inr b'" "map_option h_axes hist = ax" "ty \<noteq> PERFCOUNTER_NONE"
proof (cases a)
  case (AddHistogram i' n' x y de ni p u)
  then obtain h where h: "histogram_new 2 [x, y] = Inr h"
    "add_impl b i' n' de ni p (PERFCOUNTER_U64 OR PERFCOUNTER_HISTOGRAM OR PERFCOUNTER_COUNTER) u (Some h) = Inr b'"
    using assms(1) by (auto simp: add_u64_counter_histogram_def rbind_eq_Inr)
  then have "h_axes h = [x, y]" by (auto simp: histogram_new_def rbind_eq_Inr split: if_splits)
  then show ?thesis using that [OF _ _ _, of de ni p u "Some h"] h(2) assms(2) AddHistogram by (auto simp: perfcounter_defs)
qed (use assms that [of _ _ _ _ None] in \<open>auto simp: add_defs perfcounter_defs\<close>)

lemma build_op_built:
  assumes "built lo hi adds pc" "b_counters b = Some pc" "build_op a b = Inr b'"
  shows "\<exists>pc'. b_counters b' = Some pc' \<and> built lo hi (adds @ [a]) pc'"
proof -
  obtain i n ty ax where a: "declares a = (i, n, ty, ax)" by (metis prod_cases4)
  obtain de ni p un hist where add: "add_impl b i n de ni p ty un hist = Inr b'" "map_option h_axes hist = ax" "ty \<noteq> PERFCOUNTER_NONE"
    by (rule build_op_impl [OF assms(3) a])
  let ?k = "nat (i - pc_lower_bound pc - 1)"
  let ?d = "(data_at pc i)\<lparr>d_name := Some n, d_description := de, d_nick := ni,
     d_prio := of_int (if p \<noteq> 0 then p else b_prio_default b), d_type := ty, d_unit := of_int un, d_histogram := hist\<rparr>"
  have bo: "bounds_ok pc" using assms(1) by (simp add: built_def)
  have i: "in_bounds pc i" and none: "d_type (data_at pc i) = PERFCOUNTER_NONE" and b': "b_counters b' = Some (put_data pc ?k ?d)"
    using add(1) assms(2) bo by (auto simp: add_impl_def at_idx_eq split: if_splits)
  note at_i = built_at [OF assms(1) i]
  have old: "val_of (data_at pc i) = (0, 0)" by (rule at_i(1))
  have free: "map_of (map declares adds) i = None"
  proof (cases "map_of (map declares adds) i")
    case (Some x)
    then show ?thesis using at_i(3) [of "fst x" "fst (snd x)" "snd (snd x)"] none by (cases x) (auto simp: decl_of_def)
  qed
  have k: "?k < length (pc_data pc)" using bo i by (auto simp: bounds_ok_def in_bounds_def)
  have at: "data_at (put_data pc ?k ?d) idx = (if idx = i then ?d else data_at pc idx)" if "in_bounds pc idx" for idx
    using that i k by (auto simp: data_at_def put_data_def in_bounds_def nth_list_update eq_nat_nat_iff)
  have frame: "in_bounds (put_data pc ?k ?d) = in_bounds pc" "bounds_ok (put_data pc ?k ?d)"
    using bo by (simp_all add: in_bounds_def put_data_def bounds_ok_def fun_eq_iff)
  have m: "map_of (map declares (adds @ [a])) idx = (if idx = i then Some (n, ty, ax) else map_of (map declares adds) idx)" for idx
    using free by (auto simp: a map_add_def split: option.splits)
  have dist: "distinct (map (fst \<circ> declares) (adds @ [a]))"
    using assms(1) free by (auto simp: built_def a map_of_eq_None_iff image_comp comp_def)
  have d: "val_of ?d = (0, 0)" "decl_of ?d = (Some n, ty, ax)" using old add(2) by (simp_all add: val_of_def decl_of_def)
  define pc' where "pc' = put_data pc ?k ?d"
  have slot: "val_of (data_at pc' idx) = (0, 0) \<and>
      (case map_of (map declares (adds @ [a])) idx of
         None \<Rightarrow> data_at pc' idx = perf_data_new
       | Some (n, ty, ax) \<Rightarrow> decl_of (data_at pc' idx) = (Some n, ty, ax) \<and> ty \<noteq> PERFCOUNTER_NONE)" if "in_bounds pc' idx" for idx
  proof (cases "idx = i")
    case True
    then show ?thesis unfolding m pc'_def using at [OF i] d add(3) by simp
  next
    case False
    have ib: "in_bounds pc idx" using that frame(1) by (simp add: pc'_def)
    have e: "data_at pc' idx = data_at pc idx" using at [OF ib] False by (simp only: pc'_def if_False)
    have "map_of (map declares (adds @ [a])) idx = map_of (map declares adds) idx" using m False by simp
    then show ?thesis unfolding e using ib assms(1) unfolding built_def by simp
  qed
  have bounds: "pc_lower_bound pc' = lo" "pc_upper_bound pc' = hi" "bounds_ok pc'"
    using assms(1) frame(2) by (simp_all add: pc'_def built_def put_data_def)
  have "built lo hi (adds @ [a]) pc'" unfolding built_def using bounds dist slot by blast
  moreover have "b_counters b' = Some pc'" using b' by (simp only: pc'_def)
  ultimately show ?thesis by blast
qed

lemma build_all_built:
  "build_all rest b = Inr b' \<Longrightarrow> b_counters b = Some pc \<Longrightarrow> built lo hi adds pc \<Longrightarrow> \<exists>pc'. b_counters b' = Some pc' \<and> built lo hi (adds @ rest) pc'"
proof (induction rest arbitrary: b pc adds)
  case (Cons a rest)
  obtain b1 where b1: "build_op a b = Inr b1" "build_all rest b1 = Inr b'" using Cons.prems(1) by (auto simp: rbind_eq_Inr)
  obtain pc1 where "b_counters b1 = Some pc1" "built lo hi (adds @ [a]) pc1" using build_op_built [OF Cons.prems(3,2) b1(1)] by blast
  from Cons.IH [OF b1(2) this] show ?case by simp
qed auto

lemma builder_new_built:
  assumes "builder_new name lo hi = Inr b"
  shows "\<exists>pc. b_counters b = Some pc \<and> built lo hi [] pc"
proof -
  obtain pc where pc: "b_counters b = Some pc" "pc_lower_bound pc = lo" "pc_upper_bound pc = hi" "0 \<le> hi - lo - 1"
      "pc_data pc = replicate (nat (hi - lo - 1)) perf_data_new"
    using assms by (auto simp: builder_new_def perf_counters_new_def rbind_eq_Inr split: if_splits)
  then have "data_at pc idx = perf_data_new" if "in_bounds pc idx" for idx
    using that by (simp add: data_at_def in_bounds_def)
  then show ?thesis using pc by (intro exI [of _ pc]) (simp add: built_def bounds_ok_def val_of_def perf_data_new_def)
qed

lemma tavg_returns: "pc_ok pc \<Longrightarrow> in_bounds pc idx \<Longrightarrow> \<exists>p. pc_get_tavg_ns pc idx = Inr (Some p)"
  using data_at_ok [of pc idx] by (auto simp: pc_get_tavg_ns_def at_idx_eq pc_ok_def read_avg_def data_ok_def)

text \<open>C16: Counters keep what they were declared as, and each operation works on its own slot. Whatever additions a
  builder accepted, for the object \<open>create_perf_counters\<close> hands over: every index strictly between the bounds was added
  exactly once. Every sequence of \<open>inc\<close>, \<open>dec\<close>, \<open>set\<close>, \<open>tinc\<close>, \<open>tset\<close>, \<open>hinc\<close> and \<open>reset\<close> on such indices succeeds, provided
  there is no \<open>dec\<close> on an average, no \<open>tset\<close> on an average of times, and \<open>hinc\<close> is on a histogram with values its axes can place.
  Afterwards the counter at each index still has its name, its type and its axes; its value and its count are
  exactly what the operations on this index (and the resets) make of 0; the two counts agree, so that reading
  an average returns.\<close>

theorem counters_well_typed:
  assumes "rbind (builder_new name lo hi) (build_all adds) = Inr b" "create_perf_counters b = Inr (b', pc)"
    and "list_all (op_ok pc) ops"
  shows "distinct (map (fst \<circ> declares) adds) \<and>
    (\<exists>pc'. run_ops ops pc = Inr pc' \<and> pc_lower_bound pc' = lo \<and> pc_upper_bound pc' = hi \<and>
      (\<forall>idx. lo < idx \<and> idx < hi \<longrightarrow> (\<exists>n ty ax. map_of (map declares adds) idx = Some (n, ty, ax) \<and>
        d_name (data_at pc' idx) = Some n \<and> d_type (data_at pc' idx) = ty \<and> map_option h_axes (d_histogram (data_at pc' idx)) = ax \<and>
        (d_u64 (data_at pc' idx), d_avgcount (data_at pc' idx)) = fold (spec_val ty idx) ops (0, 0) \<and>
        d_avgcount2 (data_at pc' idx) = d_avgcount (data_at pc' idx) \<and> (\<exists>p. pc_get_tavg_ns pc' idx = Inr (Some p)))))"
proof -
  from assms(1) obtain b0 where b0: "builder_new name lo hi = Inr b0" "build_all adds b0 = Inr b" by (auto simp: rbind_eq_Inr)
  then have bok: "builder_ok b" using builder_new_ok build_all_ok by blast
  note ok = create_ok [OF bok assms(2)]
  obtain pc0 where "b_counters b0 = Some pc0" "built lo hi [] pc0" using builder_new_built [OF b0(1)] by blast
  from build_all_built [OF b0(2) this] have bt: "built lo hi adds pc"
    using assms(2) by (auto simp: create_perf_counters_def split: option.splits)
  have added: "d_type (data_at pc idx) \<noteq> PERFCOUNTER_NONE" if "in_bounds pc idx" for idx
    using data_at_ok [OF ok that] by (auto simp: data_ok_def has_def PERFCOUNTER_NONE_def)
  obtain pc' where pc': "run_ops ops pc = Inr pc'" "pc_ok pc'" "same_decl pc pc'"
      "\<And>idx. in_bounds pc idx \<Longrightarrow> val_of (data_at pc' idx) = fold (spec_val (d_type (data_at pc idx)) idx) ops (val_of (data_at pc idx))"
    using run_ops_spec [OF ok assms(3)] by blast
  have bo: "bounds_ok pc" using ok by (simp add: pc_ok_def)
  have "\<exists>n ty ax. map_of (map declares adds) idx = Some (n, ty, ax) \<and>
        d_name (data_at pc' idx) = Some n \<and> d_type (data_at pc' idx) = ty \<and> map_option h_axes (d_histogram (data_at pc' idx)) = ax \<and>
        (d_u64 (data_at pc' idx), d_avgcount (data_at pc' idx)) = fold (spec_val ty idx) ops (0, 0) \<and>
        d_avgcount2 (data_at pc' idx) = d_avgcount (data_at pc' idx) \<and> (\<exists>p. pc_get_tavg_ns pc' idx = Inr (Some p))"
    if "lo < idx \<and> idx < hi" for idx
  proof -
    have i: "in_bounds pc idx" using bt that by (simp add: built_def in_bounds_def)
    have i': "in_bounds pc' idx" using i same_declD(1) [OF pc'(3) bo] by simp
    have v0: "val_of (data_at pc idx) = (0, 0)" using bt i by (simp add: built_def)
    obtain n ty ax where m: "map_of (map declares adds) idx = Some (n, ty, ax)" "decl_of (data_at pc idx) = (Some n, ty, ax)"
      using built_at(2,3) [OF bt i] added [OF i] by (cases "map_of (map declares adds) idx") auto
    have "d_type (data_at pc idx) = ty" "decl_of (data_at pc' idx) = (Some n, ty, ax)"
      using m(2) same_declD(3) [OF pc'(3) bo i] by (simp_all add: decl_of_def)
    then show ?thesis
      using m(1) pc'(4) [OF i] v0 data_at_ok [OF pc'(2) i'] tavg_returns [OF pc'(2) i'] by (simp add: decl_of_def val_of_def data_ok_def)
  qed
  moreover have "distinct (map (fst \<circ> declares) adds)" using bt by (simp add: built_def)
  moreover have "pc_lower_bound pc' = lo" "pc_upper_bound pc' = hi" using bt pc'(3) by (simp_all add: built_def same_decl_def)
  ultimately show ?thesis using pc'(1) by blast
qed

theorem counters_well_typed_witness:
  "\<exists>b b' pc pc'. rbind (builder_new ''net'' 0 3) (build_all [AddU64 1 ''n'' None None 0 1, AddTimeAvg 2 ''t'' None (Some ''lat'') 5]) = Inr b
    \<and> create_perf_counters b = Inr (b', pc) \<and> run_ops [OpInc 1 5, OpTinc 2 7, OpTinc 2 8, OpSet 1 4] pc = Inr pc'
    \<and> d_name (data_at pc' 2) = Some ''t'' \<and> (d_u64 (data_at pc' 2), d_avgcount (data_at pc' 2)) = (15, 2) \<and> d_u64 (data_at pc' 1) = 4"
proof -
  let ?adds = "[AddU64 1 ''n'' None None 0 1, AddTimeAvg 2 ''t'' None (Some ''lat'') 5]"
  let ?ops = "[OpInc 1 5, OpTinc 2 7, OpTinc 2 8, OpSet 1 4]"
  have two: "replicate 2 d = [d, d]" for d :: perf_data by (simp add: numeral_2_eq_2)
  obtain b b' pc where b: "rbind (builder_new ''net'' 0 3) (build_all ?adds) = Inr b" "create_perf_counters b = Inr (b', pc)" "list_all (op_ok pc) ?ops"
    by (simp add: builder_new_def perf_counters_new_def add_defs add_impl_def at_idx_def put_data_def perf_data_new_def
        perfcounter_defs two create_perf_counters_def has_def in_bounds_def)
  obtain pc' where r: "run_ops ?ops pc = Inr pc'" and all: "\<And>idx. 0 < idx \<and> idx < 3 \<Longrightarrow> \<exists>n ty ax. map_of (map declares ?adds) idx = Some (n, ty, ax) \<and>
        d_name (data_at pc' idx) = Some n \<and> (d_u64 (data_at pc' idx), d_avgcount (data_at pc' idx)) = fold (spec_val ty idx) ?ops (0, 0)"
    using counters_well_typed [OF b] by blast
  show ?thesis using b(1,2) r all [of 1] all [of 2] by (simp add: counted_def perfcounter_defs)
qed

section \<open>Values\<close>

text \<open>What the operations do to the value of an integer counter \<open>idx\<close> of a well-typed object: \<open>inc\<close> adds
  modulo \<open>2 ^ 64\<close>, \<open>set\<close> replaces, \<open>dec\<close> undoes \<open>inc\<close> on a counter that is no average, and none changes the value of
  another counter.\<close>

theorem counter_values:
  assumes "pc_ok pc" "in_bounds pc idx" "in_bounds pc j" "j \<noteq> idx" "has (data_at pc idx) PERFCOUNTER_U64"
  shows "\<exists>pc1 pc2. pc_inc pc idx v = Inr pc1 \<and> pc_set pc idx v = Inr pc2
    \<and> pc_get pc1 idx = rbind (pc_get pc idx) (\<lambda>x. Inr (x + v)) \<and> pc_get pc2 idx = Inr v
    \<and> pc_get pc1 j = pc_get pc j \<and> pc_get pc2 j = pc_get pc j
    \<and> (if has (data_at pc idx) PERFCOUNTER_LONGRUNAVG then pc_dec pc idx v = Inl KAssert
       else rbind (pc_dec pc1 idx v) (\<lambda>pc3. pc_get pc3 idx) = pc_get pc idx)"
proof -
  have b: "bounds_ok pc" using assms(1) by (simp add: pc_ok_def)
  let ?i = "nat (idx - pc_lower_bound pc - 1)" and ?j = "nat (j - pc_lower_bound pc - 1)"
  have range: "?i < length (pc_data pc)" "?j < length (pc_data pc)" "?i \<noteq> ?j"
    using b assms(2,3,4) by (auto simp: bounds_ok_def in_bounds_def)
  have frame: "bounds_ok (put_data pc k d) = bounds_ok pc" "in_bounds (put_data pc k d) = in_bounds pc"
    "pc_lower_bound (put_data pc k d) = pc_lower_bound pc" for k d
    by (simp_all add: bounds_ok_def in_bounds_def put_data_def fun_eq_iff)
  have at: "data_at (put_data pc ?i d) idx = d" "data_at (put_data pc ?i d) j = data_at pc j" for d
    using range by (simp_all add: data_at_def put_data_def)
  show ?thesis
    using assms(2,3,5) b
    by (cases "has (data_at pc idx) PERFCOUNTER_LONGRUNAVG")
      (simp_all add: pc_inc_def pc_set_def pc_dec_def pc_get_def at_idx_eq frame at, simp_all add: has_def put_data_def data_at_def range at_idx_eq)
qed

definition example_counters :: perf_counters where
  "example_counters = \<lparr>pc_lower_bound = 0, pc_upper_bound = 3, pc_name = ''net'', pc_prio_adjust = 0,
     pc_data = [perf_data_new\<lparr>d_type := PERFCOUNTER_U64 OR PERFCOUNTER_COUNTER\<rparr>, perf_data_new\<lparr>d_type := PERFCOUNTER_TIME\<rparr>]\<rparr>"

lemma example_counters_ok:
  "pc_ok example_counters" "in_bounds example_counters 1" "in_bounds example_counters 2"
  "has (data_at example_counters 1) PERFCOUNTER_U64" "has (data_at example_counters 2) PERFCOUNTER_TIME"
  "\<not> has (data_at example_counters 2) PERFCOUNTER_LONGRUNAVG"
  by (simp_all add: example_counters_def pc_ok_def bounds_ok_def data_ok_def in_bounds_def data_at_def has_def
      perf_data_new_def perfcounter_defs)

theorem counter_values_witness:
  "\<exists>pc1 pc2. pc_inc example_counters 1 9 = Inr pc1 \<and> pc_set example_counters 1 9 = Inr pc2
    \<and> pc_get pc1 1 = rbind (pc_get example_counters 1) (\<lambda>x. Inr (x + 9)) \<and> pc_get pc2 1 = Inr 9
    \<and> pc_get pc1 2 = pc_get example_counters 2 \<and> pc_get pc2 2 = pc_get example_counters 2
    \<and> (if has (data_at example_counters 1) PERFCOUNTER_LONGRUNAVG then pc_dec example_counters 1 9 = Inl KAssert
       else rbind (pc_dec pc1 1 9) (\<lambda>pc3. pc_get pc3 1) = pc_get example_counters 1)"
  by (rule counter_values [OF example_counters_ok(1,2,3) _ example_counters_ok(4)]) simp

text \<open>A time written with \<open>tset\<close> is read back by \<open>tget\<close> as the same normalized time; on an average \<open>tset\<close>
  aborts.\<close>

theorem tset_tget:
  assumes "pc_ok pc" "in_bounds pc idx" "has (data_at pc idx) PERFCOUNTER_TIME" "utime_ok t"
  shows "if has (data_at pc idx) PERFCOUNTER_LONGRUNAVG then pc_tset pc idx t = Inl AbortCall
    else rbind (pc_tset pc idx t) (\<lambda>pc'. pc_tget pc' idx) = Inr t"
proof -
  have b: "bounds_ok pc" using assms(1) by (simp add: pc_ok_def)
  let ?i = "nat (idx - pc_lower_bound pc - 1)"
  have range: "?i < length (pc_data pc)" using b assms(2) by (auto simp: bounds_ok_def in_bounds_def)
  have n: "unat (to_nsec t) = unat (u_sec t) * 1000000000 + unat (u_nsec t)" by (simp add: to_nsec_nanos nanos_def)
  have small: "unat (u_nsec t) < 1000000000" using assms(4) by (simp add: utime_ok_def)
  have q: "unat (to_nsec t div 1000000000) = unat (u_sec t)" "unat (to_nsec t mod 1000000000) = unat (u_nsec t)"
    using small by (simp_all add: unat_div_distrib unat_mod_distrib n)
  have cast: "(of_int (uint (x :: u64)) :: u32) = of_nat (unat x)" for x by simp
  have new: "utime_new (uint (to_nsec t div 1000000000)) (uint (to_nsec t mod 1000000000)) = t"
    unfolding utime_new_def cast q using normalize_ok [OF assms(4)] by (cases t) simp
  show ?thesis
    using assms(2,3) b range
    by (auto simp: pc_tset_def pc_tget_def at_idx_eq put_data_def data_at_def bounds_ok_def in_bounds_def has_def new)
qed

theorem tset_tget_witness:
  "if has (data_at example_counters 2) PERFCOUNTER_LONGRUNAVG then pc_tset example_counters 2 \<lparr>u_sec = 3, u_nsec = 5\<rparr> = Inl AbortCall
    else rbind (pc_tset example_counters 2 \<lparr>u_sec = 3, u_nsec = 5\<rparr>) (\<lambda>pc'. pc_tget pc' 2) = Inr \<lparr>u_sec = 3, u_nsec = 5\<rparr>"
  by (rule tset_tget [OF example_counters_ok(1,3,5)]) (simp add: utime_ok_def)

section \<open>Reading an average while threads update it\<close>

text \<open>The accesses to \<open>avgcount\<close>, \<open>u64\<close> and \<open>avgcount2\<close> are atomic and sequentially consistent. Each writer
  runs \<open>inc\<close> (or \<open>tinc\<close>) once: it increments \<open>avgcount\<close>, adds its amount, increments \<open>avgcount2\<close>. The reader
  runs the loop of \<open>read_avg\<close>: it reads \<open>avgcount2\<close>, then \<open>u64\<close>, then compares \<open>avgcount\<close> with the count it
  read, and starts again when they differ.\<close>

datatype wpc = WStart | WCounted | WAdded | WDone

datatype rpc = RStart | RCount u64 | RSum u64 u64 | RDone u64 u64

record avg_state =
  a_count :: u64
  a_sum :: u64
  a_count2 :: u64
  a_writers :: "(u64 \<times> wpc) list"
  a_reader :: rpc

definition set_writer :: "nat \<Rightarrow> wpc \<Rightarrow> avg_state \<Rightarrow> avg_state" where
  "set_writer i pc s = s\<lparr>a_writers := (a_writers s)[i := (fst (a_writers s ! i), pc)]\<rparr>"

inductive avg_step :: "avg_state \<Rightarrow> avg_state \<Rightarrow> bool" where
  w_count: "i < length (a_writers s) \<Longrightarrow> snd (a_writers s ! i) = WStart \<Longrightarrow>
    avg_step s ((set_writer i WCounted s)\<lparr>a_count := a_count s + 1\<rparr>)"
| w_add: "i < length (a_writers s) \<Longrightarrow> snd (a_writers s ! i) = WCounted \<Longrightarrow>
    avg_step s ((set_writer i WAdded s)\<lparr>a_sum := a_sum s + fst (a_writers s ! i)\<rparr>)"
| w_done: "i < length (a_writers s) \<Longrightarrow> snd (a_writers s ! i) = WAdded \<Longrightarrow>
    avg_step s ((set_writer i WDone s)\<lparr>a_count2 := a_count2 s + 1\<rparr>)"
| r_count: "a_reader s = RStart \<Longrightarrow> avg_step s (s\<lparr>a_reader := RCount (a_count2 s)\<rparr>)"
| r_sum: "a_reader s = RCount c \<Longrightarrow> avg_step s (s\<lparr>a_reader := RSum c (a_sum s)\<rparr>)"
| r_retry: "a_reader s = RSum c v \<Longrightarrow> a_count s \<noteq> c \<Longrightarrow> avg_step s (s\<lparr>a_reader := RStart\<rparr>)"
| r_done: "a_reader s = RSum c v \<Longrightarrow> a_count s = c \<Longrightarrow> avg_step s (s\<lparr>a_reader := RDone v c\<rparr>)"

definition avg_init :: "u64 list \<Rightarrow> avg_state" where
  "avg_init amts = \<lparr>a_count = 0, a_sum = 0, a_count2 = 0, a_writers = map (\<lambda>a. (a, WStart)) amts, a_reader = RStart\<rparr>"

inductive avg_reachable :: "u64 list \<Rightarrow> avg_state \<Rightarrow> bool" for amts where
  "avg_reachable amts (avg_init amts)"
| "avg_reachable amts s \<Longrightarrow> avg_step s t \<Longrightarrow> avg_reachable amts t"

text \<open>The writers at or past a point.\<close>

definition started :: "avg_state \<Rightarrow> nat set" where
  "started s = {i. i < length (a_writers s) \<and> snd (a_writers s ! i) \<noteq> WStart}"

definition added :: "avg_state \<Rightarrow> nat set" where
  "added s = {i. i < length (a_writers s) \<and> snd (a_writers s ! i) \<in> {WAdded, WDone}}"

definition finished :: "avg_state \<Rightarrow> nat set" where
  "finished s = {i. i < length (a_writers s) \<and> snd (a_writers s ! i) = WDone}"

definition total :: "u64 list \<Rightarrow> nat set \<Rightarrow> u64" where
  "total amts D = (\<Sum>i \<in> D. amts ! i)"

text \<open>What the reader knows: a set of writers that were finished when it read the count, and that the sum is theirs
  unless another writer has started since.\<close>

definition reader_inv :: "u64 list \<Rightarrow> avg_state \<Rightarrow> bool" where
  "reader_inv amts s =
     (case a_reader s of
        RStart \<Rightarrow> True
      | RCount c \<Rightarrow> \<exists>D \<subseteq> finished s. c = of_nat (card D)
      | RSum c v \<Rightarrow> \<exists>D \<subseteq> finished s. c = of_nat (card D) \<and> (started s = D \<longrightarrow> v = total amts D)
      | RDone v c \<Rightarrow> \<exists>D \<subseteq> finished s. c = of_nat (card D) \<and> v = total amts D)"

definition avg_inv :: "u64 list \<Rightarrow> avg_state \<Rightarrow> bool" where
  "avg_inv amts s \<longleftrightarrow> map fst (a_writers s) = amts \<and> a_count s = of_nat (card (started s))
     \<and> a_sum s = total amts (added s) \<and> a_count2 s = of_nat (card (finished s)) \<and> reader_inv amts s"

lemma writer_sets:
  "finite (started s)" "finite (added s)" "finite (finished s)" "finished s \<subseteq> added s" "added s \<subseteq> started s"
  "started s \<subseteq> {..< length (a_writers s)}"
  by (auto simp: started_def added_def finished_def)

lemma sets_reader [simp]:
  "started (s\<lparr>a_reader := r\<rparr>) = started s" "added (s\<lparr>a_reader := r\<rparr>) = added s" "finished (s\<lparr>a_reader := r\<rparr>) = finished s"
  "started (s\<lparr>a_count := c\<rparr>) = started s" "added (s\<lparr>a_count := c\<rparr>) = added s" "finished (s\<lparr>a_count := c\<rparr>) = finished s"
  "started (s\<lparr>a_sum := c\<rparr>) = started s" "added (s\<lparr>a_sum := c\<rparr>) = added s" "finished (s\<lparr>a_sum := c\<rparr>) = finished s"
  "started (s\<lparr>a_count2 := c\<rparr>) = started s" "added (s\<lparr>a_count2 := c\<rparr>) = added s" "finished (s\<lparr>a_count2 := c\<rparr>) = finished s"
  by (simp_all add: started_def added_def finished_def)

lemma sets_writer:
  assumes "i < length (a_writers s)"
  shows "started (set_writer i pc s) = (if pc = WStart then started s - {i} else insert i (started s))"
    "added (set_writer i pc s) = (if pc \<in> {WAdded, WDone} then insert i (added s) else added s - {i})"
    "finished (set_writer i pc s) = (if pc = WDone then insert i (finished s) else finished s - {i})"
  using assms by (auto simp: set_writer_def started_def added_def finished_def nth_list_update)

lemma set_writer_frame [simp]:
  "map fst (a_writers (set_writer i pc s)) = map fst (a_writers s)" "a_reader (set_writer i pc s) = a_reader s"
  "a_count (set_writer i pc s) = a_count s" "a_sum (set_writer i pc s) = a_sum s" "a_count2 (set_writer i pc s) = a_count2 s"
proof -
  show "map fst (a_writers (set_writer i pc s)) = map fst (a_writers s)"
    by (cases "i < length (a_writers s)") (simp_all add: set_writer_def map_update list_update_beyond, metis length_map list_update_id nth_map)
qed (simp_all add: set_writer_def)

lemma reader_inv_mono:
  assumes "reader_inv amts s" "a_reader t = a_reader s" "finished s \<subseteq> finished t"
    and "\<And>D. D \<subseteq> finished s \<Longrightarrow> started t = D \<Longrightarrow> started s = D"
  shows "reader_inv amts t"
proof (cases "a_reader s")
  case (RCount c)
  with assms(1) obtain D where "D \<subseteq> finished s" "c = of_nat (card D)" by (auto simp: reader_inv_def)
  with RCount assms(2,3) show ?thesis by (auto simp: reader_inv_def intro!: exI [of _ D])
next
  case (RSum c v)
  with assms(1) obtain D where "D \<subseteq> finished s" "c = of_nat (card D)" "started s = D \<longrightarrow> v = total amts D"
    by (auto simp: reader_inv_def)
  with RSum assms(2,3,4) show ?thesis by (auto simp: reader_inv_def intro!: exI [of _ D])
next
  case (RDone v c)
  with assms(1) obtain D where "D \<subseteq> finished s" "c = of_nat (card D)" "v = total amts D" by (auto simp: reader_inv_def)
  with RDone assms(2,3) show ?thesis by (auto simp: reader_inv_def intro!: exI [of _ D])
qed (simp add: reader_inv_def assms(2))

lemma total_insert: "finite D \<Longrightarrow> i \<notin> D \<Longrightarrow> total amts (insert i D) = total amts D + amts ! i"
  by (simp add: total_def add.commute)

lemma card_step: "finite D \<Longrightarrow> i \<notin> D \<Longrightarrow> (of_nat (card (insert i D)) :: u64) = of_nat (card D) + 1"
  by (simp add: add.commute)

lemma avg_inv_writer:
  assumes "avg_inv amts s" "i < length (a_writers s)"
  shows "snd (a_writers s ! i) = WStart \<Longrightarrow> avg_inv amts ((set_writer i WCounted s)\<lparr>a_count := a_count s + 1\<rparr>)"
    and "snd (a_writers s ! i) = WCounted \<Longrightarrow> avg_inv amts ((set_writer i WAdded s)\<lparr>a_sum := a_sum s + fst (a_writers s ! i)\<rparr>)"
    and "snd (a_writers s ! i) = WAdded \<Longrightarrow> avg_inv amts ((set_writer i WDone s)\<lparr>a_count2 := a_count2 s + 1\<rparr>)"
proof -
  note sets = sets_writer [OF assms(2)] and fin = writer_sets
  have amt: "amts ! i = fst (a_writers s ! i)" using assms by (auto simp: avg_inv_def)
  have inv: "reader_inv amts s" using assms(1) by (simp add: avg_inv_def)
  {
    assume w: "snd (a_writers s ! i) = WStart"
    let ?t = "(set_writer i WCounted s)\<lparr>a_count := a_count s + 1\<rparr>"
    have out: "i \<notin> started s" "i \<notin> added s" "i \<notin> finished s" using w by (simp_all add: started_def added_def finished_def)
    have "reader_inv amts ?t"
      by (rule reader_inv_mono [OF inv]) (use out in \<open>simp_all add: sets, blast\<close>)
    with assms(1) out fin(1) [of s] show "avg_inv amts ?t" by (simp add: avg_inv_def sets card_step)
  next
    assume w: "snd (a_writers s ! i) = WCounted"
    let ?t = "(set_writer i WAdded s)\<lparr>a_sum := a_sum s + fst (a_writers s ! i)\<rparr>"
    have out: "i \<in> started s" "i \<notin> added s" "i \<notin> finished s"
      using w assms(2) by (simp_all add: started_def added_def finished_def)
    have "reader_inv amts ?t"
      by (rule reader_inv_mono [OF inv]) (use out in \<open>simp_all add: sets insert_absorb, blast?\<close>)
    with assms(1) out fin(2) [of s] amt show "avg_inv amts ?t" by (simp add: avg_inv_def sets total_insert insert_absorb)
  next
    assume w: "snd (a_writers s ! i) = WAdded"
    let ?t = "(set_writer i WDone s)\<lparr>a_count2 := a_count2 s + 1\<rparr>"
    have out: "i \<in> started s" "i \<in> added s" "i \<notin> finished s"
      using w assms(2) by (simp_all add: started_def added_def finished_def)
    have "reader_inv amts ?t"
      by (rule reader_inv_mono [OF inv]) (use out in \<open>simp_all add: sets insert_absorb, blast?\<close>)
    with assms(1) out fin(3) [of s] show "avg_inv amts ?t" by (simp add: avg_inv_def sets card_step insert_absorb)
  }
qed

lemma of_nat_card_eq:
  assumes "(of_nat m :: u64) = of_nat n" "m < 2 ^ 64" "n < 2 ^ 64"
  shows "m = n"
proof -
  have "unat (of_nat m :: u64) = unat (of_nat n :: u64)" using assms(1) by simp
  with assms(2,3) show ?thesis by (simp add: unat_of_nat take_bit_nat_eq_self)
qed

lemma avg_inv_step:
  assumes "avg_step s t" "avg_inv amts s" "length amts < 2 ^ 64"
  shows "avg_inv amts t"
  using assms
proof cases
  case r_count
  then show ?thesis using assms(2) by (auto simp: avg_inv_def reader_inv_def)
next
  case (r_sum c)
  with assms(2) obtain D where D: "D \<subseteq> finished s" "c = of_nat (card D)" by (auto simp: avg_inv_def reader_inv_def)
  have "a_sum s = total amts D" if "started s = D"
  proof -
    have "added s = D" using that D(1) writer_sets(4,5) [of s] by blast
    with assms(2) show ?thesis by (simp add: avg_inv_def)
  qed
  with r_sum D assms(2) show ?thesis by (auto simp: avg_inv_def reader_inv_def)
next
  case (r_done c v)
  with assms(2) obtain D where D: "D \<subseteq> finished s" "c = of_nat (card D)" "started s = D \<longrightarrow> v = total amts D"
    by (auto simp: avg_inv_def reader_inv_def)
  have sub: "D \<subseteq> started s" using D(1) writer_sets(4,5) [of s] by blast
  have le: "card (started s) \<le> length amts"
    using card_mono [OF _ writer_sets(6) [of s]] assms(2) by (auto simp: avg_inv_def)
  have "of_nat (card (started s)) = (of_nat (card D) :: u64)" using r_done D(2) assms(2) by (simp add: avg_inv_def)
  moreover have "card D \<le> card (started s)" by (rule card_mono [OF writer_sets(1) sub])
  ultimately have "card (started s) = card D"
    using le assms(3) by (intro of_nat_card_eq) simp_all
  with sub have "started s = D" using card_subset_eq [OF writer_sets(1) sub] by simp
  with r_done D assms(2) show ?thesis by (auto simp: avg_inv_def reader_inv_def)
qed (use avg_inv_writer in \<open>auto simp: avg_inv_def reader_inv_def\<close>)

lemma avg_inv_init: "avg_inv amts (avg_init amts)"
proof -
  have "started (avg_init amts) = {}" "added (avg_init amts) = {}" "finished (avg_init amts) = {}"
    by (simp_all add: started_def added_def finished_def avg_init_def)
  then show ?thesis by (simp add: avg_inv_def reader_inv_def total_def) (simp add: avg_init_def comp_def)
qed

lemma avg_reachable_inv: "avg_reachable amts s \<Longrightarrow> length amts < 2 ^ 64 \<Longrightarrow> avg_inv amts s"
  by (induction rule: avg_reachable.induct) (auto intro: avg_inv_init avg_inv_step)

text \<open>C10: \<open>read_avg\<close> is consistent under any interleaving with any number of concurrent updates: when it
  returns, the sum and the count it returns belong to the same set of completed updates. And a reader that
  starts when no update is under way returns after one round, with the sum and number of all updates so far.\<close>

theorem read_avg_consistent:
  assumes "avg_reachable amts s" "length amts < 2 ^ 64"
  shows "(\<forall>v c. a_reader s = RDone v c \<longrightarrow> (\<exists>D \<subseteq> finished s. c = of_nat (card D) \<and> v = total amts D))
    \<and> (a_reader s = RStart \<and> started s = finished s \<longrightarrow>
        (\<exists>t. avg_step\<^sup>*\<^sup>* s t \<and> a_reader t = RDone (total amts (finished s)) (of_nat (card (finished s)))))"
proof -
  note inv = avg_reachable_inv [OF assms]
  have "\<exists>t. avg_step\<^sup>*\<^sup>* s t \<and> a_reader t = RDone (total amts (finished s)) (of_nat (card (finished s)))"
    if r: "a_reader s = RStart" and quiet: "started s = finished s"
  proof -
    let ?s1 = "s\<lparr>a_reader := RCount (a_count2 s)\<rparr>"
    let ?s2 = "?s1\<lparr>a_reader := RSum (a_count2 s) (a_sum s)\<rparr>"
    let ?s3 = "?s2\<lparr>a_reader := RDone (a_sum s) (a_count2 s)\<rparr>"
    have "added s = finished s" using quiet writer_sets(4,5) [of s] by blast
    with inv quiet have vals: "a_sum s = total amts (finished s)" "a_count2 s = of_nat (card (finished s))" "a_count s = a_count2 s"
      by (simp_all add: avg_inv_def)
    have "avg_step s ?s1" using r by (rule avg_step.r_count)
    moreover have "avg_step ?s1 ?s2" using avg_step.r_sum [of ?s1 "a_count2 s"] by simp
    moreover have "avg_step ?s2 ?s3" using avg_step.r_done [of ?s2 "a_count2 s" "a_sum s"] vals(3) by simp
    ultimately have "avg_step\<^sup>*\<^sup>* s ?s3"
      by (intro rtranclp.rtrancl_into_rtrancl [OF rtranclp.rtrancl_into_rtrancl [OF r_into_rtranclp]])
    then show ?thesis using vals by (intro exI [of _ ?s3]) simp
  qed
  moreover have "\<exists>D \<subseteq> finished s. c = of_nat (card D) \<and> v = total amts D" if "a_reader s = RDone v c" for v c
  proof -
    have "reader_inv amts s" using inv by (simp add: avg_inv_def)
    with that show ?thesis by (simp add: reader_inv_def)
  qed
  ultimately show ?thesis by blast
qed

definition example_avg :: avg_state where
  "example_avg = \<lparr>a_count = 1, a_sum = 5, a_count2 = 1, a_writers = [(5, WDone), (7, WStart)], a_reader = RDone 5 1\<rparr>"

lemma example_avg_reachable: "avg_reachable [5, 7] example_avg"
proof -
  let ?s = "\<lambda>c v c2 w r. \<lparr>a_count = c, a_sum = v, a_count2 = c2, a_writers = [(5, w), (7, WStart)], a_reader = r\<rparr>"
  have "avg_reachable [5, 7] (?s 0 0 0 WStart RStart)"
    using avg_reachable.intros(1) [of "[5, 7]"] by (simp add: avg_init_def)
  then have "avg_reachable [5, 7] (?s 1 0 0 WCounted RStart)"
    by (rule avg_reachable.intros(2)) (use avg_step.w_count [of 0 "?s 0 0 0 WStart RStart"] in \<open>simp add: set_writer_def\<close>)
  then have "avg_reachable [5, 7] (?s 1 5 0 WAdded RStart)"
    by (rule avg_reachable.intros(2)) (use avg_step.w_add [of 0 "?s 1 0 0 WCounted RStart"] in \<open>simp add: set_writer_def\<close>)
  then have "avg_reachable [5, 7] (?s 1 5 1 WDone RStart)"
    by (rule avg_reachable.intros(2)) (use avg_step.w_done [of 0 "?s 1 5 0 WAdded RStart"] in \<open>simp add: set_writer_def\<close>)
  then have "avg_reachable [5, 7] (?s 1 5 1 WDone (RCount 1))"
    by (rule avg_reachable.intros(2)) (use avg_step.r_count [of "?s 1 5 1 WDone RStart"] in simp)
  then have "avg_reachable [5, 7] (?s 1 5 1 WDone (RSum 1 5))"
    by (rule avg_reachable.intros(2)) (use avg_step.r_sum [of "?s 1 5 1 WDone (RCount 1)"] in simp)
  then show ?thesis unfolding example_avg_def
    by (rule avg_reachable.intros(2)) (use avg_step.r_done [of "?s 1 5 1 WDone (RSum 1 5)"] in simp)
qed

theorem read_avg_consistent_witness:
  "a_reader example_avg = RDone 5 1 \<and> (\<exists>D \<subseteq> finished example_avg. (1 :: u64) = of_nat (card D) \<and> 5 = total [5, 7] D)"
proof -
  have "a_reader example_avg = RDone 5 1" by (simp add: example_avg_def)
  with read_avg_consistent [OF example_avg_reachable] show ?thesis by simp
qed

end
