(* ===== verification/PerfCollection.thy ===== *)
theory PerfCollection
  imports PerfCounters
begin

text \<open>
  \<open>PerfCountersCollectionImpl\<close> of \<open>src/common/perf_counters.cc\<close>: the counters of a process, found by name and
  by path. The objects live in a heap; the collection holds pointers, so that renaming an object also renames
  it for the collection. The code keeps the pointers in a \<open>std::set\<close> sorted by name; the model searches them by
  name, which is what the set does as long as it is in order. Only renaming a member past the name of another
  member would break the order (\<open>add\<close> of an object that is in the collection already, when the name of another
  one extends its name); the theorems exclude this case.
\<close>

section \<open>Operations\<close>

record collection =
  c_heap :: "ptr \<Rightarrow> perf_counters option"
  c_loggers :: "ptr list"
  c_by_path :: "string \<Rightarrow> (ptr \<times> nat) option"

definition collection_new :: "(ptr \<Rightarrow> perf_counters option) \<Rightarrow> collection" where
  "collection_new heap = \<lparr>c_heap = heap, c_loggers = [], c_by_path = Map.empty\<rparr>"

definition get_name :: "collection \<Rightarrow> ptr \<Rightarrow> string" where
  "get_name c l = (case c_heap c l of Some pc \<Rightarrow> pc_name pc | None \<Rightarrow> [])"

definition set_name :: "collection \<Rightarrow> ptr \<Rightarrow> string \<Rightarrow> collection" where
  "set_name c l s = c\<lparr>c_heap := (c_heap c)(l := map_option (\<lambda>pc. pc\<lparr>pc_name := s\<rparr>) (c_heap c l))\<rparr>"

text \<open>\<open>m_loggers.find (l)\<close>: an element with the name of \<open>l\<close>.\<close>

definition find_logger :: "collection \<Rightarrow> ptr \<Rightarrow> ptr option" where
  "find_logger c l = find (\<lambda>p. get_name c p = get_name c l) (c_loggers c)"

text \<open>The name gets the address of the object appended until it is unique.\<close>

partial_function (option) unique_name_loop :: "collection \<Rightarrow> ptr \<Rightarrow> collection option" where
  "unique_name_loop c l =
     (if find_logger c l \<noteq> None
      then unique_name_loop (set_name c l (get_name c l @ ''-0x'' @ hex l)) l
      else Some c)"

definition path_of :: "collection \<Rightarrow> ptr \<Rightarrow> perf_data \<Rightarrow> string" where
  "path_of c l d = get_name c l @ ''.'' @ the (d_name d)"

fun add_paths :: "collection \<Rightarrow> ptr \<Rightarrow> nat \<Rightarrow> perf_data list \<Rightarrow> collection result" where
  "add_paths c l i [] = Inr c"
| "add_paths c l i (d # ds) =
     (if d_name d = None then Inl NullDeref
      else add_paths (c\<lparr>c_by_path := (c_by_path c)(path_of c l d \<mapsto> (l, i))\<rparr>) l (Suc i) ds)"

text \<open>\<open>None\<close>: the loop does not end.\<close>

definition coll_add :: "collection \<Rightarrow> ptr \<Rightarrow> collection result option" where
  "coll_add c l =
     (case c_heap c l of
        None \<Rightarrow> Some (Inl NullDeref)
      | Some pc \<Rightarrow>
          map_option (\<lambda>c1. add_paths (c1\<lparr>c_loggers := c_loggers c1 @ [l]\<rparr>) l 0 (pc_data pc)) (unique_name_loop c l))"

fun erase_paths :: "collection \<Rightarrow> ptr \<Rightarrow> perf_data list \<Rightarrow> collection result" where
  "erase_paths c l [] = Inr c"
| "erase_paths c l (d # ds) =
     (if d_name d = None then Inl NullDeref
      else erase_paths (c\<lparr>c_by_path := (c_by_path c)(path_of c l d := None)\<rparr>) l ds)"

definition coll_remove :: "collection \<Rightarrow> ptr \<Rightarrow> collection result" where
  "coll_remove c l =
     (case c_heap c l of
        None \<Rightarrow> Inl NullDeref
      | Some pc \<Rightarrow>
          rbind (erase_paths c l (pc_data pc)) (\<lambda>c1.
            case find_logger c1 l of
              None \<Rightarrow> Inl KAssert
            | Some p \<Rightarrow> Inr (c1\<lparr>c_loggers := remove1 p (c_loggers c1)\<rparr>)))"

definition coll_clear :: "collection \<Rightarrow> collection" where
  "coll_clear c = c\<lparr>c_heap := (\<lambda>p. if p \<in> set (c_loggers c) then None else c_heap c p), c_loggers := [], c_by_path := Map.empty\<rparr>"

definition reset_logger :: "collection \<Rightarrow> ptr \<Rightarrow> collection result" where
  "reset_logger c p =
     (case c_heap c p of
        None \<Rightarrow> Inl UseAfterFree
      | Some pc \<Rightarrow> rbind (pc_reset pc) (\<lambda>pc'. Inr (c\<lparr>c_heap := (c_heap c)(p \<mapsto> pc')\<rparr>)))"

fun reset_loggers :: "collection \<Rightarrow> ptr list \<Rightarrow> collection result" where
  "reset_loggers c [] = Inr c"
| "reset_loggers c (p # ps) = rbind (reset_logger c p) (\<lambda>c'. reset_loggers c' ps)"

text \<open>The name is compared as a C string with \<open>"all"\<close> and as a string with the names.\<close>

definition coll_reset :: "collection \<Rightarrow> string \<Rightarrow> (collection \<times> bool) result" where
  "coll_reset c name =
     (if takeWhile (\<lambda>ch. ch \<noteq> CHR 0x00) name = ''all'' then rbind (reset_loggers c (c_loggers c)) (\<lambda>c'. Inr (c', True))
      else (case find (\<lambda>p. get_name c p = name) (c_loggers c) of
              None \<Rightarrow> Inr (c, False)
            | Some p \<Rightarrow> rbind (reset_logger c p) (\<lambda>c'. Inr (c', True))))"

section \<open>Unique names\<close>

lemma find_logger_None: "find_logger c l = None \<longleftrightarrow> get_name c l \<notin> get_name c ` set (c_loggers c)"
  by (simp add: find_logger_def find_None_iff image_iff) metis

lemma get_name_set [simp]:
  "get_name (set_name c l s) p = (if p = l \<and> c_heap c l \<noteq> None then s else get_name c p)"
  by (auto simp: get_name_def set_name_def split: option.splits)

lemma set_name_frame [simp]:
  "c_loggers (set_name c l s) = c_loggers c" "c_by_path (set_name c l s) = c_by_path c"
  "c_heap (set_name c l s) l = None \<longleftrightarrow> c_heap c l = None"
  by (simp_all add: set_name_def)

lemma set_name_twice [simp]: "set_name (set_name c l s) l t = set_name c l t"
  by (auto simp: set_name_def option.map_comp comp_def intro!: collection.equality)

lemma set_name_same [simp]: "set_name c l (get_name c l) = c"
  by (auto simp: set_name_def get_name_def fun_eq_iff split: option.splits intro!: collection.equality)

text \<open>The loop ends when the object is not in the collection yet: every round makes the name longer, by a dash and digits; a name that is
  new already is kept.\<close>

lemma hex_no_dot: "CHR ''.'' \<notin> set (hex n)"
proof (induction n rule: hex.induct)
  case (1 n)
  have "digit_val CHR ''.'' = None" by (simp add: digit_val_def)
  then have d: "CHR ''.'' \<noteq> hex_digit d" if "d < 16" for d using digit_val_hex_digit [OF that] by force
  show ?case using 1 d [of n] d [of "n mod 16"] by (subst hex.simps) (simp del: hex.simps)
qed

lemma unique_name_ends:
  assumes "l \<notin> set (c_loggers c)" "c_heap c l \<noteq> None"
  shows "\<exists>s. unique_name_loop c l = Some (set_name c l s) \<and> s \<notin> get_name c ` set (c_loggers c) \<and> take (length (get_name c l)) s = get_name c l
    \<and> (get_name c l \<notin> get_name c ` set (c_loggers c) \<longrightarrow> s = get_name c l) \<and> (CHR ''.'' \<notin> set (get_name c l) \<longrightarrow> CHR ''.'' \<notin> set s)"
  using assms
proof (induction "card {p \<in> set (c_loggers c). length (get_name c l) \<le> length (get_name c p)}" arbitrary: c rule: less_induct)
  case less
  show ?case
  proof (cases "find_logger c l = None")
    case True
    then show ?thesis
      using less.prems by (intro exI [of _ "get_name c l"]) (simp add: unique_name_loop.simps find_logger_None)
  next
    case False
    let ?s = "get_name c l @ ''-0x'' @ hex l"
    let ?c = "set_name c l ?s"
    from False obtain q where q: "q \<in> set (c_loggers c)" "get_name c q = get_name c l" by (auto simp: find_logger_None)
    have same: "get_name ?c p = get_name c p" if "p \<in> set (c_loggers c)" for p
      using that less.prems(1) by auto
    have longer: "length (get_name c l) < length (get_name ?c l)" using less.prems(2) by simp
    have "{p \<in> set (c_loggers ?c). length (get_name ?c l) \<le> length (get_name ?c p)}
        \<subset> {p \<in> set (c_loggers c). length (get_name c l) \<le> length (get_name c p)}" (is "?A \<subset> ?B")
    proof (rule psubsetI)
      show "?A \<subseteq> ?B" using same longer by (auto simp del: get_name_set)
      have "q \<in> ?B" "q \<notin> ?A" using q same [OF q(1)] longer by (simp_all del: get_name_set)
      then show "?A \<noteq> ?B" by blast
    qed
    then have "card {p \<in> set (c_loggers ?c). length (get_name ?c l) \<le> length (get_name ?c p)}
        < card {p \<in> set (c_loggers c). length (get_name c l) \<le> length (get_name c p)}"
      by (rule psubset_card_mono [rotated]) simp
    from less.hyps [OF this] less.prems obtain s where s: "unique_name_loop ?c l = Some (set_name ?c l s)"
      "s \<notin> get_name ?c ` set (c_loggers c)" "take (length ?s) s = ?s" "CHR ''.'' \<notin> set ?s \<longrightarrow> CHR ''.'' \<notin> set s"
      by auto
    have "take (length (get_name c l)) s = get_name c l"
      using s(3) by (metis append_eq_conv_conj length_append take_take min.absorb1 le_add1)
    moreover have "get_name ?c ` set (c_loggers c) = get_name c ` set (c_loggers c)"
      by (rule image_cong [OF refl same])
    then have "s \<notin> get_name c ` set (c_loggers c)" using s(2) by metis
    moreover have "unique_name_loop c l = Some (set_name c l s)"
      using False s(1) by (subst unique_name_loop.simps) simp
    moreover have "CHR ''.'' \<notin> set (get_name c l) \<longrightarrow> CHR ''.'' \<notin> set s" using s(4) hex_no_dot by simp
    moreover have "get_name c l \<in> get_name c ` set (c_loggers c)" using False by (simp add: find_logger_None)
    ultimately show ?thesis by blast
  qed
qed

text \<open>It does not end for an object that is in the collection: it finds itself under every name.\<close>

lemma unique_name_loops:
  assumes "unique_name_loop c l = Some c'"
  shows "l \<notin> set (c_loggers c)"
proof (rule unique_name_loop.raw_induct [where P = "\<lambda>c l c'. l \<notin> set (c_loggers c)", OF _ assms])
  fix f c l c'
  assume 1: "\<And>c l c'. f c l = Some c' \<Longrightarrow> l \<notin> set (c_loggers c)"
    "(if find_logger c l \<noteq> None then f (set_name c l (get_name c l @ ''-0x'' @ hex l)) l else Some c) = Some c'"
  show "l \<notin> set (c_loggers c)"
  proof (cases "find_logger c l = None")
    case True
    then show ?thesis by (auto simp: find_logger_None)
  next
    case False
    with 1(2) have "f (set_name c l (get_name c l @ ''-0x'' @ hex l)) l = Some c'" by simp
    from 1(1) [OF this] show ?thesis by simp
  qed
qed

text \<open>\<open>add\<close> terminates exactly for objects that are not in the collection yet (where no other object of the
  collection has a name that extends the name of the object). For those it extends the name, if
  need be, to one no other object of the collection has, and changes no other name; adding an object a second
  time never returns, because the object is found under every name it is given.\<close>

theorem add_unique_name:
  assumes "c_heap c l \<noteq> None"
    and "l \<in> set (c_loggers c) \<longrightarrow> (\<forall>p \<in> set (c_loggers c). p \<noteq> l \<longrightarrow> take (length (get_name c l)) (get_name c p) \<noteq> get_name c l)"
  shows "if l \<in> set (c_loggers c) then coll_add c l = None
    else \<exists>s. s \<notin> get_name c ` set (c_loggers c) \<and> take (length (get_name c l)) s = get_name c l
      \<and> coll_add c l = Some (add_paths ((set_name c l s)\<lparr>c_loggers := c_loggers c @ [l]\<rparr>) l 0 (pc_data (the (c_heap c l))))"
proof (cases "l \<in> set (c_loggers c)")
  case True
  then have "unique_name_loop c l = None" using unique_name_loops [of c l] by (cases "unique_name_loop c l") auto
  with True assms(1) show ?thesis by (auto simp: coll_add_def)
next
  case False
  from unique_name_ends [OF this assms(1)] obtain s where "unique_name_loop c l = Some (set_name c l s)"
    "s \<notin> get_name c ` set (c_loggers c)" "take (length (get_name c l)) s = get_name c l" by blast
  with False assms(1) show ?thesis by (auto simp: coll_add_def intro!: exI [of _ s])
qed

definition example_collection :: collection where
  "example_collection =
     (collection_new [1 \<mapsto> example_counters\<lparr>pc_data := []\<rparr>, 2 \<mapsto> example_counters\<lparr>pc_data := []\<rparr>])\<lparr>c_loggers := [1]\<rparr>"

theorem add_unique_name_witness:
  "if 2 \<in> set (c_loggers example_collection) then coll_add example_collection 2 = None
    else \<exists>s. s \<notin> get_name example_collection ` set (c_loggers example_collection)
      \<and> take (length (get_name example_collection 2)) s = get_name example_collection 2
      \<and> coll_add example_collection 2 = Some (add_paths ((set_name example_collection 2 s)\<lparr>c_loggers := c_loggers example_collection @ [2]\<rparr>) 2 0
          (pc_data (the (c_heap example_collection 2))))"
  by (rule add_unique_name) (simp_all add: example_collection_def collection_new_def)

section \<open>Paths\<close>

definition paths :: "collection \<Rightarrow> ptr \<Rightarrow> perf_data list \<Rightarrow> string list" where
  "paths c l ds = map (path_of c l) ds"

lemma path_of_frame [simp]:
  "path_of (c\<lparr>c_by_path := m\<rparr>) l = path_of c l" "path_of (c\<lparr>c_loggers := ls\<rparr>) l = path_of c l"
  by (simp_all add: path_of_def get_name_def fun_eq_iff)

lemma paths_frame [simp]:
  "paths (c\<lparr>c_by_path := m\<rparr>) l ds = paths c l ds" "paths (c\<lparr>c_loggers := ls\<rparr>) l ds = paths c l ds"
  by (simp_all add: paths_def)

lemma add_paths_eq:
  assumes "\<forall>d \<in> set ds. d_name d \<noteq> None" "distinct (paths c l ds)"
  shows "\<exists>m. add_paths c l i ds = Inr (c\<lparr>c_by_path := m\<rparr>)
    \<and> (\<forall>k < length ds. m (path_of c l (ds ! k)) = Some (l, i + k))
    \<and> (\<forall>p. p \<notin> set (paths c l ds) \<longrightarrow> m p = c_by_path c p)"
  using assms
proof (induction ds arbitrary: c i)
  case Nil
  then show ?case by (intro exI [of _ "c_by_path c"]) simp
next
  case (Cons d ds)
  let ?c = "c\<lparr>c_by_path := (c_by_path c)(path_of c l d \<mapsto> (l, i))\<rparr>"
  have "\<forall>d \<in> set ds. d_name d \<noteq> None" "distinct (paths ?c l ds)" using Cons.prems by (simp_all add: paths_def)
  from Cons.IH [OF this, of "Suc i"] obtain m where m: "add_paths ?c l (Suc i) ds = Inr (c\<lparr>c_by_path := m\<rparr>)"
    "\<And>k. k < length ds \<Longrightarrow> m (path_of c l (ds ! k)) = Some (l, Suc i + k)"
    "\<And>p. p \<notin> set (paths c l ds) \<Longrightarrow> m p = ((c_by_path c)(path_of c l d \<mapsto> (l, i))) p"
    by auto
  have "path_of c l d \<notin> set (paths c l ds)" using Cons.prems(2) by (simp add: paths_def)
  then have here: "m (path_of c l d) = Some (l, i)" using m(3) by simp
  have "m (path_of c l ((d # ds) ! k)) = Some (l, i + k)" if "k < length (d # ds)" for k
    using that here m(2) by (cases k) auto
  moreover have "m p = c_by_path c p" if "p \<notin> set (paths c l (d # ds))" for p
    using that m(3) by (simp add: paths_def)
  ultimately show ?case using m(1) Cons.prems(1) by (intro exI [of _ m]) auto
qed

lemma erase_paths_eq:
  assumes "\<forall>d \<in> set ds. d_name d \<noteq> None"
  shows "erase_paths c l ds = Inr (c\<lparr>c_by_path := (\<lambda>p. if p \<in> set (paths c l ds) then None else c_by_path c p)\<rparr>)"
  using assms by (induction ds arbitrary: c) (auto simp: paths_def fun_eq_iff)

lemma find_snoc: "find P xs = None \<Longrightarrow> find P (xs @ [x]) = (if P x then Some x else None)"
  by (induction xs) (auto split: if_splits)

text \<open>An object with a new name, named counters and paths no object uses gets its paths, and the other paths stay.\<close>

lemma coll_add_new:
  assumes "c_heap c l = Some pc" "get_name c l \<notin> get_name c ` set (c_loggers c)"
    and "\<forall>d \<in> set (pc_data pc). d_name d \<noteq> None" "distinct (paths c l (pc_data pc))"
  shows "\<exists>m. coll_add c l = Some (Inr (c\<lparr>c_loggers := c_loggers c @ [l], c_by_path := m\<rparr>))
    \<and> (\<forall>k < length (pc_data pc). m (path_of c l (pc_data pc ! k)) = Some (l, k))
    \<and> (\<forall>p. p \<notin> set (paths c l (pc_data pc)) \<longrightarrow> m p = c_by_path c p)"
proof -
  let ?c = "c\<lparr>c_loggers := c_loggers c @ [l]\<rparr>"
  have "unique_name_loop c l = Some c"
    using assms(2) by (subst unique_name_loop.simps) (simp add: find_logger_None)
  then have "coll_add c l = Some (add_paths ?c l 0 (pc_data pc))" using assms(1) by (simp add: coll_add_def)
  with add_paths_eq [OF assms(3), of ?c l 0] assms(4) show ?thesis by auto
qed

lemma get_name_frame [simp]: "get_name (c\<lparr>c_loggers := ls, c_by_path := x\<rparr>) p = get_name c p"
  "get_name (c\<lparr>c_by_path := x\<rparr>) p = get_name c p" "get_name (c\<lparr>c_loggers := ls\<rparr>) p = get_name c p"
  by (simp_all add: get_name_def)

text \<open>Registration by path. An object with a new name, named counters and paths no other object uses is found
  after \<open>add\<close>: every path leads to its object and its counter, every other path leads where it led before; and
  \<open>remove\<close> gives back exactly the collection there was.\<close>

theorem add_remove_paths:
  assumes "c_heap c l = Some pc" "l \<notin> set (c_loggers c)" "get_name c l \<notin> get_name c ` set (c_loggers c)"
    and "\<forall>d \<in> set (pc_data pc). d_name d \<noteq> None" "distinct (paths c l (pc_data pc))"
    and "\<forall>p \<in> set (paths c l (pc_data pc)). c_by_path c p = None"
  shows "\<exists>c'. coll_add c l = Some (Inr c')
    \<and> (\<forall>k < length (pc_data pc). c_by_path c' (path_of c l (pc_data pc ! k)) = Some (l, k))
    \<and> (\<forall>p. p \<notin> set (paths c l (pc_data pc)) \<longrightarrow> c_by_path c' p = c_by_path c p)
    \<and> l \<in> set (c_loggers c') \<and> coll_remove c' l = Inr c"
proof -
  from coll_add_new [OF assms(1,3,4,5)] obtain m
    where m: "coll_add c l = Some (Inr (c\<lparr>c_loggers := c_loggers c @ [l], c_by_path := m\<rparr>))"
      "\<forall>k < length (pc_data pc). m (path_of c l (pc_data pc ! k)) = Some (l, k)"
      "\<forall>p. p \<notin> set (paths c l (pc_data pc)) \<longrightarrow> m p = c_by_path c p" by blast
  let ?c' = "c\<lparr>c_loggers := c_loggers c @ [l], c_by_path := m\<rparr>"
  let ?m = "\<lambda>p. if p \<in> set (paths c l (pc_data pc)) then None else m p"
  have back_map: "?m = c_by_path c" using m(3) assms(6) by (auto simp: fun_eq_iff)
  have none: "find (\<lambda>p. get_name c p = get_name c l) (c_loggers c) = None"
    using assms(3) by (auto simp: find_None_iff image_iff)
  have "find_logger (c\<lparr>c_loggers := c_loggers c @ [l], c_by_path := x\<rparr>) l = Some l" for x
    using find_snoc [OF none] by (simp add: find_logger_def)
  then have "coll_remove ?c' l = Inr (c\<lparr>c_loggers := remove1 l (c_loggers c @ [l]), c_by_path := ?m\<rparr>)"
    using assms(1) by (simp add: coll_remove_def erase_paths_eq [OF assms(4)]) (cases c, simp add: fun_eq_iff)
  also have "\<dots> = Inr c" using assms(2) back_map by (simp add: remove1_append)
  finally have "coll_remove ?c' l = Inr c" .
  with m show ?thesis by (intro exI [of _ ?c']) auto
qed

definition named_counters :: perf_counters where
  "named_counters = example_counters\<lparr>pc_data := [perf_data_new\<lparr>d_name := Some ''ops''\<rparr>, perf_data_new\<lparr>d_name := Some ''lat''\<rparr>]\<rparr>"

theorem add_remove_paths_witness:
  "\<exists>c'. coll_add (collection_new [7 \<mapsto> named_counters]) 7 = Some (Inr c')
    \<and> (\<forall>k < length (pc_data named_counters). c_by_path c' (path_of (collection_new [7 \<mapsto> named_counters]) 7 (pc_data named_counters ! k)) = Some (7, k))
    \<and> (\<forall>p. p \<notin> set (paths (collection_new [7 \<mapsto> named_counters]) 7 (pc_data named_counters)) \<longrightarrow>
        c_by_path c' p = c_by_path (collection_new [7 \<mapsto> named_counters]) p)
    \<and> 7 \<in> set (c_loggers c') \<and> coll_remove c' 7 = Inr (collection_new [7 \<mapsto> named_counters])"
  by (rule add_remove_paths) (simp_all add: collection_new_def named_counters_def paths_def path_of_def)

section \<open>The index is exact\<close>

definition logger_data :: "collection \<Rightarrow> ptr \<Rightarrow> perf_data list" where
  "logger_data c l = pc_data (the (c_heap c l))"

text \<open>An object that can be indexed: it exists, its name has no dot, and its counters have distinct names.\<close>

definition logger_ok :: "collection \<Rightarrow> ptr \<Rightarrow> bool" where
  "logger_ok c l \<longleftrightarrow> c_heap c l \<noteq> None \<and> CHR ''.'' \<notin> set (get_name c l)
     \<and> (\<forall>d \<in> set (logger_data c l). d_name d \<noteq> None) \<and> distinct (map d_name (logger_data c l))"

text \<open>The objects have distinct names, and the paths are exactly those of their counters.\<close>

definition coll_inv :: "collection \<Rightarrow> bool" where
  "coll_inv c \<longleftrightarrow> distinct (c_loggers c) \<and> inj_on (get_name c) (set (c_loggers c)) \<and> (\<forall>l \<in> set (c_loggers c). logger_ok c l)
     \<and> (\<forall>p l k. c_by_path c p = Some (l, k) \<longleftrightarrow>
          l \<in> set (c_loggers c) \<and> k < length (logger_data c l) \<and> p = path_of c l (logger_data c l ! k))"

lemma path_of_inj:
  assumes "logger_ok c l" "logger_ok c q" "path_of c l (logger_data c l ! j) = path_of c q (logger_data c q ! k)"
    and "j < length (logger_data c l)" "k < length (logger_data c q)"
  shows "get_name c l = get_name c q \<and> (l = q \<longrightarrow> j = k)"
proof -
  have "get_name c l @ CHR ''.'' # the (d_name (logger_data c l ! j)) = get_name c q @ CHR ''.'' # the (d_name (logger_data c q ! k))"
    using assms(3) by (simp add: path_of_def)
  from split_at_first [OF this] assms(1,2)
  have eq: "get_name c l = get_name c q" "the (d_name (logger_data c l ! j)) = the (d_name (logger_data c q ! k))"
    by (simp_all add: logger_ok_def)
  have "d_name (logger_data c l ! j) \<noteq> None" "d_name (logger_data c q ! k) \<noteq> None"
    using assms(1,2) nth_mem [OF assms(4)] nth_mem [OF assms(5)] by (simp_all add: logger_ok_def)
  then have "d_name (logger_data c l ! j) = d_name (logger_data c q ! k)" using eq(2) by auto
  moreover have "distinct (map d_name (logger_data c l))" using assms(1) by (simp add: logger_ok_def)
  ultimately have "l = q \<longrightarrow> j = k" using assms(4,5) by (auto simp: distinct_conv_nth)
  with eq(1) show ?thesis by blast
qed

lemma logger_paths:
  assumes "logger_ok c l"
  shows "\<forall>d \<in> set (logger_data c l). d_name d \<noteq> None" "distinct (paths c l (logger_data c l))"
    "p \<in> set (paths c l (logger_data c l)) \<longleftrightarrow> (\<exists>k < length (logger_data c l). p = path_of c l (logger_data c l ! k))"
proof -
  show "\<forall>d \<in> set (logger_data c l). d_name d \<noteq> None" using assms by (simp add: logger_ok_def)
  show "distinct (paths c l (logger_data c l))"
    using path_of_inj [OF assms assms] by (auto simp: paths_def distinct_conv_nth)
  show "p \<in> set (paths c l (logger_data c l)) \<longleftrightarrow> (\<exists>k < length (logger_data c l). p = path_of c l (logger_data c l ! k))"
    by (auto simp: paths_def in_set_conv_nth intro!: imageI)
qed

lemma frame_inv [simp]:
  "logger_data (c\<lparr>c_loggers := ls, c_by_path := x\<rparr>) = logger_data c" "logger_ok (c\<lparr>c_loggers := ls, c_by_path := x\<rparr>) = logger_ok c"
  "path_of (c\<lparr>c_loggers := ls, c_by_path := x\<rparr>) = path_of c"
  by (simp_all add: logger_data_def logger_ok_def path_of_def fun_eq_iff get_name_def)

lemma coll_add_inv:
  assumes "coll_inv c" "l \<notin> set (c_loggers c)" "logger_ok c l" "get_name c l \<notin> get_name c ` set (c_loggers c)"
  shows "\<exists>m. coll_add c l = Some (Inr (c\<lparr>c_loggers := c_loggers c @ [l], c_by_path := m\<rparr>)) \<and> coll_inv (c\<lparr>c_loggers := c_loggers c @ [l], c_by_path := m\<rparr>)"
proof -
  have heap: "c_heap c l = Some (the (c_heap c l))" using assms(3) by (simp add: logger_ok_def)
  note lp = logger_paths [OF assms(3)]
  from coll_add_new [OF heap assms(4)] lp obtain m
    where add: "coll_add c l = Some (Inr (c\<lparr>c_loggers := c_loggers c @ [l], c_by_path := m\<rparr>))"
      and own: "\<And>k. k < length (logger_data c l) \<Longrightarrow> m (path_of c l (logger_data c l ! k)) = Some (l, k)"
      and other: "\<And>p. p \<notin> set (paths c l (logger_data c l)) \<Longrightarrow> m p = c_by_path c p"
    unfolding logger_data_def by blast
  note old = assms(1) [unfolded coll_inv_def]
  have fresh: "path_of c q (logger_data c q ! k) \<notin> set (paths c l (logger_data c l))"
    if "q \<in> set (c_loggers c)" "k < length (logger_data c q)" for q k
    using path_of_inj [OF assms(3), of q _ k] old that assms(4) by (auto simp: lp(3))
  have "m p = Some (q, k) \<longleftrightarrow> (q = l \<or> q \<in> set (c_loggers c)) \<and> k < length (logger_data c q) \<and> p = path_of c q (logger_data c q ! k)" for p q k
  proof (cases "p \<in> set (paths c l (logger_data c l))")
    case True
    then obtain j where j: "j < length (logger_data c l)" "p = path_of c l (logger_data c l ! j)" using lp(3) by blast
    show ?thesis
      using own [OF j(1)] j path_of_inj [OF assms(3,3), of j k] fresh True by auto
  next
    case False
    then show ?thesis using other [OF False] old lp(3) [of p] assms(2) by auto
  qed
  then have "coll_inv (c\<lparr>c_loggers := c_loggers c @ [l], c_by_path := m\<rparr>)"
    using old assms(2-4) by (simp add: coll_inv_def) (auto simp: inj_on_def image_iff)
  with add show ?thesis by blast
qed

lemma find_logger_member:
  assumes "coll_inv c" "l \<in> set (c_loggers c)"
  shows "find_logger (c\<lparr>c_by_path := x\<rparr>) l = Some l"
proof -
  have "find (\<lambda>p. get_name c p = get_name c l) ls = Some l" if "l \<in> set ls" "inj_on (get_name c) (set ls)" for ls
    using that by (induction ls) (auto simp: inj_on_def)
  with assms show ?thesis by (simp add: find_logger_def coll_inv_def)
qed

lemma coll_remove_inv:
  assumes "coll_inv c" "l \<in> set (c_loggers c)"
  shows "\<exists>m. coll_remove c l = Inr (c\<lparr>c_loggers := remove1 l (c_loggers c), c_by_path := m\<rparr>)
    \<and> coll_inv (c\<lparr>c_loggers := remove1 l (c_loggers c), c_by_path := m\<rparr>)"
proof -
  note old = assms(1) [unfolded coll_inv_def]
  have ok: "logger_ok c l" using old assms(2) by blast
  then have heap: "c_heap c l = Some (the (c_heap c l))" by (simp add: logger_ok_def)
  note lp = logger_paths [OF ok]
  let ?m = "\<lambda>p. if p \<in> set (paths c l (logger_data c l)) then None else c_by_path c p"
  have "erase_paths c l (logger_data c l) = Inr (c\<lparr>c_by_path := ?m\<rparr>)" by (rule erase_paths_eq [OF lp(1)])
  then have "erase_paths c l (pc_data (the (c_heap c l))) = Inr (c\<lparr>c_by_path := ?m\<rparr>)" by (simp only: logger_data_def)
  then have "coll_remove c l = Inr (c\<lparr>c_by_path := ?m, c_loggers := remove1 l (c_loggers c)\<rparr>)"
    using find_logger_member [OF assms, of ?m] by (subst coll_remove_def, subst heap) simp
  then have rem: "coll_remove c l = Inr (c\<lparr>c_loggers := remove1 l (c_loggers c), c_by_path := ?m\<rparr>)" by (cases c) simp
  have own: "path_of c q (logger_data c q ! k) \<in> set (paths c l (logger_data c l)) \<longleftrightarrow> q = l"
    if "q \<in> set (c_loggers c)" "k < length (logger_data c q)" for q k
  proof -
    have "logger_ok c q" using old that by blast
    have "q = l" if j: "j < length (logger_data c l)" "path_of c q (logger_data c q ! k) = path_of c l (logger_data c l ! j)" for j
      using path_of_inj [OF \<open>logger_ok c q\<close> ok j(2)] \<open>k < _\<close> j(1) old assms(2) \<open>q \<in> _\<close> by (metis inj_onD)
    then show ?thesis using that by (auto simp: lp(3))
  qed
  have "?m p = Some (q, k) \<longleftrightarrow> q \<in> set (remove1 l (c_loggers c)) \<and> k < length (logger_data c q) \<and> p = path_of c q (logger_data c q ! k)" for p q k
    using old own [of q k] by auto
  then have "coll_inv (c\<lparr>c_loggers := remove1 l (c_loggers c), c_by_path := ?m\<rparr>)"
    using old by (simp add: coll_inv_def inj_on_def)
  with rem show ?thesis by blast
qed

text \<open>Resetting objects changes values only.\<close>

definition same_names :: "collection \<Rightarrow> collection \<Rightarrow> bool" where
  "same_names c c' \<longleftrightarrow> c_loggers c' = c_loggers c \<and> c_by_path c' = c_by_path c
     \<and> (\<forall>l. (c_heap c' l = None \<longleftrightarrow> c_heap c l = None) \<and> get_name c' l = get_name c l \<and> map d_name (logger_data c' l) = map d_name (logger_data c l))"

lemma same_names_inv:
  assumes "same_names c c'" "coll_inv c"
  shows "coll_inv c'"
proof -
  note eq = assms(1) [unfolded same_names_def]
  have len: "length (logger_data c' l) = length (logger_data c l)" for l using eq map_eq_imp_length_eq by metis
  have name: "d_name (logger_data c' l ! k) = d_name (logger_data c l ! k)" if "k < length (logger_data c l)" for l k
    using that eq len by (metis nth_map)
  have "logger_ok c' l \<longleftrightarrow> logger_ok c l" for l
    using eq len name by (auto simp: logger_ok_def all_set_conv_all_nth)
  moreover have "path_of c' l (logger_data c' l ! k) = path_of c l (logger_data c l ! k)" if "k < length (logger_data c l)" for l k
    using that eq name by (simp add: path_of_def)
  ultimately show ?thesis using assms(2) eq len unfolding coll_inv_def inj_on_def by (metis (no_types, lifting))
qed

lemma data_reset_name: "data_reset d = Inr d' \<Longrightarrow> d_name d' = d_name d"
  by (auto simp: data_reset_def Let_def rbind_eq_Inr split: option.splits if_splits)

lemma pc_reset_names: "pc_reset pc = Inr pc' \<Longrightarrow> pc_name pc' = pc_name pc \<and> map d_name (pc_data pc') = map d_name (pc_data pc)"
proof -
  have "reset_all ds = Inr ds' \<Longrightarrow> map d_name ds' = map d_name ds" for ds ds'
    by (induction ds arbitrary: ds') (auto simp: rbind_eq_Inr data_reset_name)
  then show "pc_reset pc = Inr pc' \<Longrightarrow> ?thesis" by (auto simp: pc_reset_def rbind_eq_Inr)
qed

lemma reset_logger_names: "reset_logger c p = Inr c' \<Longrightarrow> same_names c c'"
  by (auto simp: reset_logger_def same_names_def get_name_def logger_data_def rbind_eq_Inr split: option.splits if_splits dest: pc_reset_names)

lemma reset_loggers_names: "reset_loggers c ps = Inr c' \<Longrightarrow> same_names c c'"
proof (induction ps arbitrary: c)
  case (Cons p ps)
  then obtain c1 where "reset_logger c p = Inr c1" "same_names c1 c'" by (auto simp: rbind_eq_Inr)
  with reset_logger_names [of c p c1] show ?case by (auto simp: same_names_def)
qed (simp add: same_names_def)

text \<open>Giving another name without a dot to an object outside the collection keeps the invariant, and the object indexable.\<close>

lemma set_name_inv:
  assumes "coll_inv c" "l \<notin> set (c_loggers c)"
  shows "coll_inv (set_name c l s)"
proof -
  have same: "logger_ok (set_name c l s) p = logger_ok c p" "logger_data (set_name c l s) p = logger_data c p" "get_name (set_name c l s) p = get_name c p"
    "path_of (set_name c l s) p = path_of c p" if "p \<in> set (c_loggers c)" for p
  proof -
    have "p \<noteq> l" using that assms(2) by blast
    then show "logger_ok (set_name c l s) p = logger_ok c p" "logger_data (set_name c l s) p = logger_data c p" "get_name (set_name c l s) p = get_name c p"
      "path_of (set_name c l s) p = path_of c p"
      by (simp_all add: logger_ok_def logger_data_def path_of_def fun_eq_iff set_name_def get_name_def)
  qed
  then show ?thesis using assms(1) unfolding coll_inv_def inj_on_def set_name_frame by (metis (no_types, lifting))
qed

lemma set_name_ok:
  assumes "logger_ok c l" "CHR ''.'' \<notin> set s"
  shows "logger_ok (set_name c l s) l"
  using assms by (auto simp: logger_ok_def logger_data_def) (auto simp: set_name_def)

lemma coll_add_renamed:
  assumes "unique_name_loop c l = Some (set_name c l s)" "s \<notin> get_name c ` set (c_loggers c)" "c_heap c l \<noteq> None" "l \<notin> set (c_loggers c)"
  shows "coll_add c l = coll_add (set_name c l s) l"
proof -
  have same: "get_name (set_name c l s) ` set (c_loggers c) = get_name c ` set (c_loggers c)"
    by (rule image_cong [OF refl]) (use assms(4) in auto)
  have "get_name (set_name c l s) l = s" using assms(3) by simp
  then have "find_logger (set_name c l s) l = None" using assms(2) same by (simp only: find_logger_None set_name_frame simp_thms)
  then have loop: "unique_name_loop (set_name c l s) l = Some (set_name c l s)" by (simp add: unique_name_loop.simps)
  obtain pc where "c_heap c l = Some pc" using assms(3) by blast
  then show ?thesis using assms(1) loop by (simp add: coll_add_def) (simp add: set_name_def)
qed

lemma coll_add_any_name:
  assumes "coll_inv c" "l \<notin> set (c_loggers c)" "logger_ok c l"
  shows "\<exists>c' s. coll_add c l = Some (Inr c') \<and> coll_inv c' \<and> set (c_loggers c') = insert l (set (c_loggers c)) \<and> (\<forall>p. get_name c' p = (if p = l then s else get_name c p))
    \<and> take (length (get_name c l)) s = get_name c l \<and> s \<notin> get_name c ` set (c_loggers c) \<and> (get_name c l \<notin> get_name c ` set (c_loggers c) \<longrightarrow> s = get_name c l)"
proof -
  have heap: "c_heap c l \<noteq> None" and dot: "CHR ''.'' \<notin> set (get_name c l)" using assms(3) unfolding logger_ok_def by blast+
  from unique_name_ends [OF assms(2) heap] dot obtain s where s: "unique_name_loop c l = Some (set_name c l s)" "s \<notin> get_name c ` set (c_loggers c)"
    "take (length (get_name c l)) s = get_name c l" "get_name c l \<notin> get_name c ` set (c_loggers c) \<longrightarrow> s = get_name c l" "CHR ''.'' \<notin> set s"
    by blast
  let ?c = "set_name c l s"
  have name: "get_name ?c p = (if p = l then s else get_name c p)" for p using heap by simp
  have new: "get_name ?c l \<notin> get_name ?c ` set (c_loggers ?c)"
  proof -
    have "get_name ?c ` set (c_loggers c) = get_name c ` set (c_loggers c)" by (rule image_cong [OF refl]) (use assms(2) in auto)
    then show ?thesis using s(2) name [of l] by (simp only: set_name_frame simp_thms if_True)
  qed
  have "l \<notin> set (c_loggers ?c)" using assms(2) by simp
  from coll_add_inv [OF set_name_inv [OF assms(1,2)] this set_name_ok [OF assms(3) s(5)] new] obtain m
    where m: "coll_add ?c l = Some (Inr (?c\<lparr>c_loggers := c_loggers c @ [l], c_by_path := m\<rparr>))" "coll_inv (?c\<lparr>c_loggers := c_loggers c @ [l], c_by_path := m\<rparr>)"
    by auto
  let ?d = "?c\<lparr>c_loggers := c_loggers c @ [l], c_by_path := m\<rparr>"
  have "get_name ?d p = get_name ?c p" for p by (simp add: get_name_def)
  then have "get_name ?d p = (if p = l then s else get_name c p)" for p by (simp only: name)
  moreover have "coll_add c l = Some (Inr ?d)" using coll_add_renamed [OF s(1,2) heap assms(2)] m(1) by simp
  ultimately show ?thesis using m(2) s(2-4) by (intro exI [of _ ?d] exI [of _ s]) simp
qed

text \<open>C18: The index of the collection is exact: the objects in it have distinct names, and a path is found exactly
  when it is the name of one of them, a dot and the name of one of its counters, with the pointer to that
  counter. \<open>add\<close> of an object that is not in the collection, whose name has no dot and whose counters have distinct names, returns and keeps that.
  Its name may be taken: then the object gets a longer name that begins with its own and that no member has; otherwise it keeps its name.
  No other name changes. Removing a member returns and keeps the index exact, and so do clearing and every \<open>reset\<close> that returns.\<close>

theorem collection_index_exact:
  assumes "coll_inv c"
  shows "(l \<notin> set (c_loggers c) \<and> logger_ok c l \<longrightarrow>
      (\<exists>c' s. coll_add c l = Some (Inr c') \<and> coll_inv c' \<and> set (c_loggers c') = insert l (set (c_loggers c))
        \<and> (\<forall>p. get_name c' p = (if p = l then s else get_name c p)) \<and> take (length (get_name c l)) s = get_name c l
        \<and> s \<notin> get_name c ` set (c_loggers c) \<and> (get_name c l \<notin> get_name c ` set (c_loggers c) \<longrightarrow> s = get_name c l)))
    \<and> (l \<in> set (c_loggers c) \<longrightarrow> (\<exists>c'. coll_remove c l = Inr c' \<and> coll_inv c' \<and> set (c_loggers c') = set (c_loggers c) - {l}))
    \<and> (\<forall>n c' b. coll_reset c n = Inr (c', b) \<longrightarrow> coll_inv c' \<and> c_loggers c' = c_loggers c)
    \<and> coll_inv (coll_clear c)"
proof (intro conjI impI allI)
  assume "l \<notin> set (c_loggers c) \<and> logger_ok c l"
  then show "\<exists>c' s. coll_add c l = Some (Inr c') \<and> coll_inv c' \<and> set (c_loggers c') = insert l (set (c_loggers c))
        \<and> (\<forall>p. get_name c' p = (if p = l then s else get_name c p)) \<and> take (length (get_name c l)) s = get_name c l
        \<and> s \<notin> get_name c ` set (c_loggers c) \<and> (get_name c l \<notin> get_name c ` set (c_loggers c) \<longrightarrow> s = get_name c l)"
    using coll_add_any_name [OF assms] by blast
next
  assume "l \<in> set (c_loggers c)"
  moreover have "distinct (c_loggers c)" using assms by (simp add: coll_inv_def)
  ultimately show "\<exists>c'. coll_remove c l = Inr c' \<and> coll_inv c' \<and> set (c_loggers c') = set (c_loggers c) - {l}"
    using coll_remove_inv [OF assms, of l] by fastforce
next
  fix n c' b assume "coll_reset c n = Inr (c', b)"
  then have s: "same_names c c'"
    by (auto simp: coll_reset_def rbind_eq_Inr same_names_def split: if_splits option.splits
        dest!: reset_loggers_names reset_logger_names)
  then show "coll_inv c'" using assms by (rule same_names_inv)
  show "c_loggers c' = c_loggers c" using s by (simp add: same_names_def)
next
  show "coll_inv (coll_clear c)" by (simp add: coll_inv_def coll_clear_def)
qed

text \<open>Two objects with the same name: the second one is renamed, the first one keeps its name and its paths.\<close>

definition twin_collection :: collection where
  "twin_collection = (collection_new [7 \<mapsto> named_counters, 9 \<mapsto> named_counters])\<lparr>c_loggers := [7],
     c_by_path := [path_of (collection_new [7 \<mapsto> named_counters]) 7 (pc_data named_counters ! 0) \<mapsto> (7, 0),
                   path_of (collection_new [7 \<mapsto> named_counters]) 7 (pc_data named_counters ! 1) \<mapsto> (7, 1)]\<rparr>"

lemma twin_members:
  "(c_by_path twin_collection p = Some (l, k)) =
     (l = 7 \<and> k < length (logger_data twin_collection l) \<and> p = path_of twin_collection l (logger_data twin_collection l ! k))"
proof -
  have "path_of twin_collection 7 = path_of (collection_new [7 \<mapsto> named_counters]) 7"
    by (simp add: path_of_def fun_eq_iff get_name_def twin_collection_def collection_new_def)
  moreover have "logger_data twin_collection 7 = pc_data named_counters" by (simp add: logger_data_def twin_collection_def collection_new_def)
  moreover have "path_of (collection_new [7 \<mapsto> named_counters]) 7 (pc_data named_counters ! 0) \<noteq> path_of (collection_new [7 \<mapsto> named_counters]) 7 (pc_data named_counters ! 1)"
    by (simp add: path_of_def named_counters_def)
  moreover have "k < length (pc_data named_counters) \<longleftrightarrow> k = 0 \<or> k = 1" by (auto simp: named_counters_def)
  ultimately show ?thesis by (auto simp: twin_collection_def split: if_splits)
qed

theorem collection_index_exact_witness:
  "\<exists>c' s. get_name twin_collection 9 = get_name twin_collection 7 \<and> coll_add twin_collection 9 = Some (Inr c') \<and> coll_inv c' \<and> set (c_loggers c') = {7, 9}
    \<and> get_name c' 9 = s \<and> get_name c' 7 = get_name twin_collection 7 \<and> get_name c' 7 \<noteq> s \<and> take (length (get_name c' 7)) s = get_name c' 7"
proof -
  have d: "logger_data twin_collection 7 = pc_data named_counters" "logger_data twin_collection 9 = pc_data named_counters" "c_loggers twin_collection = [7]"
    "get_name twin_collection 7 = pc_name named_counters" "get_name twin_collection 9 = pc_name named_counters"
    by (simp_all add: twin_collection_def collection_new_def logger_data_def get_name_def)
  have ok: "logger_ok twin_collection 7" "logger_ok twin_collection 9"
    by (simp_all add: logger_ok_def d) (simp_all add: twin_collection_def collection_new_def named_counters_def example_counters_def)
  have "coll_inv twin_collection"
    using ok by (simp add: coll_inv_def d twin_members)
  from collection_index_exact [OF this, of 9] ok obtain c' s where c': "coll_add twin_collection 9 = Some (Inr c')" "coll_inv c'" "set (c_loggers c') = {9, 7}"
    "\<forall>p. get_name c' p = (if p = 9 then s else get_name twin_collection p)" "take (length (get_name twin_collection 9)) s = get_name twin_collection 9"
    "s \<notin> get_name twin_collection ` set (c_loggers twin_collection)" unfolding d(3) by auto
  have "get_name c' 7 = get_name twin_collection 7" "get_name c' 9 = s" using c'(4) by simp_all
  then show ?thesis using c' d by (intro exI [of _ c'] exI [of _ s]) (simp add: insert_commute)
qed

end
