(* ===== verification/PosixSocket.thy ===== *)
theory PosixSocket
  imports Acceptor BufferList
begin

text \<open>
  The sockets of the posix stack (\<open>PosixConnectedSocketImpl\<close>, \<open>PosixServerSocketImpl\<close> and \<open>PosixWorker\<close> in
  \<open>src/src/network/PosixStack.cc\<close>). The kernel is an argument: \<open>sys k mo n\<close> is the answer (result and
  \<open>errno\<close>) to the \<open>k\<close>-th call when it is offered \<open>n\<close> bytes, with or without \<open>MSG_MORE\<close>. The bytes it accepted
  are collected in order, and memory is the argument \<open>m\<close>.
\<close>

section \<open>Writing\<close>

type_synonym sys_calls = "nat \<Rightarrow> bool \<Rightarrow> nat \<Rightarrow> sysres"

text \<open>The loop of \<open>write\<close>; \<open>None\<close>: it does not end. \<open>continue\<close> goes to the condition of the loop.\<close>

partial_function (option) write_loop :: "sys_calls \<Rightarrow> mem \<Rightarrow> nat \<Rightarrow> ptr \<Rightarrow> int \<Rightarrow> nat \<Rightarrow> u8 list \<Rightarrow> (int \<times> nat \<times> u8 list) option" where
  "write_loop sys m k p sz sent wire =
     (let a = sys k False (unat (of_int sz :: u64)) in
      if fst a < 0 then
        if snd a = EINTR then if sz > 0 then write_loop sys m (k + 1) p sz sent wire else Some (int sent, k + 1, wire)
        else if snd a = EAGAIN then Some (int sent, k + 1, wire)
        else Some (- snd a, k + 1, wire)
      else let r = nat (fst a); wire' = wire @ mem_bytes m p r; sz' = sz - int r in
        if sz' > 0 then write_loop sys m (k + 1) (p + r) sz' (sent + r) wire' else Some (int (sent + r), k + 1, wire'))"

definition posix_write :: "sys_calls \<Rightarrow> mem \<Rightarrow> nat \<Rightarrow> ptr \<Rightarrow> int \<Rightarrow> (int \<times> nat \<times> u8 list) option" where
  "posix_write sys m k p sz = write_loop sys m k p sz 0 []"

section \<open>Sending buffer lists\<close>

type_synonym iovec = "ptr \<times> nat"

definition iov_total :: "iovec list \<Rightarrow> nat" where
  "iov_total iovs = sum_list (map snd iovs)"

definition gather :: "mem \<Rightarrow> iovec list \<Rightarrow> u8 list" where
  "gather m iovs = concat (map (\<lambda>(p, n). mem_bytes m p n) iovs)"

text \<open>The inner loop of \<open>do_sendmsg\<close> that steps over the bytes accepted.\<close>

fun advance :: "iovec list \<Rightarrow> nat \<Rightarrow> iovec list result" where
  "advance iovs 0 = Inr iovs"
| "advance [] (Suc r) = Inl OutOfBounds"
| "advance ((p, n) # iovs) (Suc r) = (if n \<le> Suc r then advance iovs (Suc r - n) else Inr ((p + Suc r, n - Suc r) # iovs))"

partial_function (option) do_sendmsg ::
  "sys_calls \<Rightarrow> mem \<Rightarrow> u32 \<Rightarrow> bool \<Rightarrow> nat \<Rightarrow> iovec list \<Rightarrow> nat \<Rightarrow> u8 list \<Rightarrow> (int \<times> nat \<times> u8 list) result option" where
  "do_sendmsg sys m len mo k iovs sent wire =
     (let a = sys k mo (iov_total iovs) in
      if fst a < 0 then
        if snd a = EINTR then do_sendmsg sys m len mo (k + 1) iovs sent wire
        else if snd a = EAGAIN then Some (Inr (int sent, k + 1, wire))
        else Some (Inr (- snd a, k + 1, wire))
      else let r = nat (fst a); wire' = wire @ take r (gather m iovs) in
        if unat len = sent + r then Some (Inr (int (sent + r), k + 1, wire'))
        else case advance iovs r of
               Inl f \<Rightarrow> Some (Inl f)
             | Inr iovs' \<Rightarrow> do_sendmsg sys m len mo (k + 1) iovs' (sent + r) wire')"

definition kPosixIOVMax :: nat where
  "kPosixIOVMax = 1024"

text \<open>An entry of \<open>msgvec\<close>: the cursor of the buffer with its whole length.\<close>

definition iov_of :: "buf \<Rightarrow> iovec" where
  "iov_of b = (b_cur b, unat (b_len b))"

text \<open>The loop of \<open>send\<close> over blocks of at most \<open>kPosixIOVMax\<close> buffers: \<open>Inl r\<close> is an early return.\<close>

function posix_send_loop ::
  "sys_calls \<Rightarrow> mem \<Rightarrow> bool \<Rightarrow> nat \<Rightarrow> buf list \<Rightarrow> nat \<Rightarrow> u8 list \<Rightarrow> ((int + nat) \<times> nat \<times> u8 list) result option" where
  "posix_send_loop sys m mo k pb sent wire =
     (if pb = [] then Some (Inr (Inr sent, k, wire))
      else let n = min (length pb) kPosixIOVMax; iovs = map iov_of (take n pb); msglen = of_nat (iov_total iovs) in
        obind (do_sendmsg sys m msglen (n < length pb \<or> mo) k iovs 0 wire) (\<lambda>(r, k', wire').
          if r < 0 then Some (Inr (Inl r, k', wire'))
          else if (of_int r :: u32) < msglen then Some (Inr (Inr (sent + nat r), k', wire'))
          else posix_send_loop sys m mo k' (drop n pb) (sent + nat r) wire'))"
  by pat_completeness auto
termination
  by (relation "measure (\<lambda>(sys, m, mo, k, pb, sent, wire). length pb)") (auto simp: kPosixIOVMax_def)

declare posix_send_loop.simps [simp del]

definition posix_send :: "sys_calls \<Rightarrow> mem \<Rightarrow> bool \<Rightarrow> nat \<Rightarrow> buffer_list \<Rightarrow> (int \<times> nat \<times> u8 list \<times> buffer_list) result option" where
  "posix_send sys m mo k bl =
     obind (posix_send_loop sys m mo k (take (unat (GetSize bl)) (bl_bufs bl)) 0 []) (\<lambda>(r, k', wire).
       case r of
         Inl e \<Rightarrow> Some (Inr (e, k', wire, bl))
       | Inr sent \<Rightarrow>
           if sent = 0 then Some (Inr (0, k', wire, bl))
           else if sent < unat (get_len bl)
             then Some (rbind (bl_Move (of_nat sent) bl) (\<lambda>(left, bl'). Inr (int sent, k', wire, bl')))
             else Some (Inr (int sent, k', wire, bl_Clear bl)))"

section \<open>Connections, listening and accepting\<close>

text \<open>\<open>is_connected\<close>: the result and the flag \<open>connected\<close>; \<open>c\<close> is the answer of \<open>connect\<close>.\<close>

definition posix_is_connected :: "sysres \<Rightarrow> bool \<Rightarrow> int \<times> bool" where
  "posix_is_connected c connected =
     (if connected then (1, True)
      else let r = reconnect c in if r = 0 then (1, True) else if r < 0 then (r, False) else (0, False))"

definition posix_read :: "sysres \<Rightarrow> int" where
  "posix_read a = (if fst a < 0 then - snd a else fst a)"

text \<open>\<open>NetHandler::set_priority\<close>: the options it sets, in order. \<open>SO_PRIORITY\<close> comes last, because setting the type of
  service resets the priority.\<close>

datatype sockopt = IP_TOS | IPV6_TCLASS | SO_PRIORITY

definition IPTOS_CLASS_CS6 :: int where "IPTOS_CLASS_CS6 = 192"

definition set_priority :: "int \<Rightarrow> int \<Rightarrow> (sockopt \<times> int) list" where
  "set_priority prio domain =
     (if prio < 0 then []
      else if domain = AF_INET then [(IP_TOS, IPTOS_CLASS_CS6), (SO_PRIORITY, prio)]
      else if domain = AF_INET6 then [(IPV6_TCLASS, IPTOS_CLASS_CS6), (SO_PRIORITY, prio)]
      else [])"

text \<open>\<open>accept\<close>: \<open>e\<close> is \<open>errno\<close> when a failure after \<open>accept\<close> is reported; \<open>out\<close> is the family of the peer's address,
  or none for a null \<open>out\<close>. The result, the descriptor of the new socket, the descriptors closed and the
  options set last.\<close>

definition posix_accept :: "bool \<Rightarrow> sysres \<Rightarrow> int \<Rightarrow> sysres \<Rightarrow> sysres \<Rightarrow> bool \<Rightarrow> int \<Rightarrow> sysres \<Rightarrow> sysres \<Rightarrow> int \<Rightarrow> int option \<Rightarrow>
    (int \<times> int option \<times> int list \<times> (sockopt \<times> int) list) result" where
  "posix_accept has_sock ac e g st nodelay rcv nd rb prio out =
     kassert has_sock
       (let sd = fst ac in
        if sd < 0 then Inr (- snd ac, None, [], [])
        else if set_nonblock g st < 0 then Inr (- e, None, [sd], [])
        else if set_socket_options nodelay rcv nd rb < 0 then Inr (- e, None, [sd], [])
        else case out of None \<Rightarrow> Inl KAssert | Some family \<Rightarrow> Inr (0, Some sd, [], set_priority prio family))"

definition posix_abort_accept :: "int \<Rightarrow> int \<times> int list" where
  "posix_abort_accept s = (- 1, [s])"

definition posix_listen :: "sysres \<Rightarrow> int \<Rightarrow> sysres \<Rightarrow> sysres \<Rightarrow> bool \<Rightarrow> int \<Rightarrow> sysres \<Rightarrow> sysres \<Rightarrow> sysres \<Rightarrow> sysres \<Rightarrow>
    int \<times> int option \<times> int list" where
  "posix_listen so e g st nodelay rcv nd rb bi li =
     (let s = create_socket so in
      if s < 0 then (- e, None, [])
      else if set_nonblock g st < 0 then (- e, None, [s])
      else if set_socket_options nodelay rcv nd rb < 0 then (- e, None, [s])
      else if fst bi < 0 then (- snd bi, None, [s])
      else if fst li < 0 then (- snd li, None, [s])
      else (0, Some s, []))"

text \<open>\<open>connect\<close>: the result, the descriptor and the flag \<open>connected\<close> of the new socket, and the descriptors
  closed. \<open>e\<close> is \<open>errno\<close> after a failed \<open>generic_connect\<close>.\<close>

definition posix_connect :: "bool \<Rightarrow> bool \<Rightarrow> sysres \<Rightarrow> sysres \<Rightarrow> sysres \<Rightarrow> sysres \<Rightarrow> sysres \<Rightarrow> int \<Rightarrow> int \<Rightarrow> int \<Rightarrow>
    int \<times> (int \<times> bool) option \<times> int list \<times> (sockopt \<times> int) list" where
  "posix_connect nonblock do_bind so g st bi co e prio family =
     (let (sd, closed) = generic_connect nonblock do_bind so g st bi co in
      if sd < 0 then (- e, None, closed, []) else (0, Some (sd, \<not> nonblock), closed, set_priority prio family))"

section \<open>The kernel\<close>

text \<open>What the system calls promise: they accept at most the bytes offered, at least one of them if there are any
  and they do not fail, set \<open>errno\<close> when they fail, and are interrupted by finitely many signals.\<close>

lemmas errno_defs = EINTR_def EAGAIN_def

definition interrupted :: "sys_calls \<Rightarrow> nat \<Rightarrow> bool" where
  "interrupted sys k \<longleftrightarrow> (\<exists>mo n. fst (sys k mo n) < 0 \<and> snd (sys k mo n) = EINTR)"

definition sys_calls_ok :: "sys_calls \<Rightarrow> bool" where
  "sys_calls_ok sys \<longleftrightarrow> finite {k. interrupted sys k} \<and>
     (\<forall>k mo n. fst (sys k mo n) \<le> int n \<and> (0 < n \<longrightarrow> fst (sys k mo n) \<noteq> 0) \<and> (fst (sys k mo n) < 0 \<longrightarrow> 0 < snd (sys k mo n)))"

lemma sys_calls_okD:
  assumes "sys_calls_ok sys"
  shows "fst (sys k mo n) \<le> int n" "0 < n \<Longrightarrow> fst (sys k mo n) \<noteq> 0" "fst (sys k mo n) < 0 \<Longrightarrow> 0 < snd (sys k mo n)"
    "finite {k. interrupted sys k}"
  using assms by (simp_all add: sys_calls_ok_def)

definition signals_left :: "sys_calls \<Rightarrow> nat \<Rightarrow> nat" where
  "signals_left sys k = card {j. interrupted sys j \<and> k \<le> j}"

lemma signals_left_Suc:
  assumes "sys_calls_ok sys"
  shows "signals_left sys (Suc k) \<le> signals_left sys k" "interrupted sys k \<Longrightarrow> signals_left sys (Suc k) < signals_left sys k"
proof -
  have fin: "finite {j. interrupted sys j \<and> k \<le> j}" by (rule finite_subset [OF _ sys_calls_okD(4) [OF assms]]) auto
  show "signals_left sys (Suc k) \<le> signals_left sys k" unfolding signals_left_def by (rule card_mono [OF fin]) auto
  assume "interrupted sys k"
  then have "k \<in> {j. interrupted sys j \<and> k \<le> j}" "k \<notin> {j. interrupted sys j \<and> Suc k \<le> j}" by simp_all
  moreover have "{j. interrupted sys j \<and> Suc k \<le> j} \<subseteq> {j. interrupted sys j \<and> k \<le> j}" by auto
  ultimately have "{j. interrupted sys j \<and> Suc k \<le> j} \<subset> {j. interrupted sys j \<and> k \<le> j}" by blast
  then show "signals_left sys (Suc k) < signals_left sys k" unfolding signals_left_def by (rule psubset_card_mono [OF fin])
qed

text \<open>The outcome of a transfer of \<open>n\<close> bytes of which \<open>d\<close> were accepted, given the last answer: an error that
  is neither an interruption nor \<open>EAGAIN\<close>, or the count of the bytes, which is short only after \<open>EAGAIN\<close>.\<close>

definition io_outcome :: "sysres \<Rightarrow> int \<Rightarrow> nat \<Rightarrow> nat \<Rightarrow> nat \<Rightarrow> bool" where
  "io_outcome a r sent d n \<longleftrightarrow>
     (if r < 0 then fst a < 0 \<and> snd a \<noteq> EINTR \<and> snd a \<noteq> EAGAIN \<and> r = - snd a
      else r = int (sent + d) \<and> (d = n \<or> fst a < 0 \<and> snd a = EAGAIN))"

section \<open>Writing\<close>

lemma size_t_of: "n < 2 ^ 63 \<Longrightarrow> unat (of_int (int n) :: u64) = n"
  by (simp add: unat_of_nat take_bit_nat_eq_self)

lemma write_loop_stream:
  assumes "sys_calls_ok sys" "n < 2 ^ 63"
  shows "\<exists>d r k'. d \<le> n \<and> write_loop sys m k p (int n) sent wire = Some (r, Suc k', wire @ mem_bytes m p d)
    \<and> io_outcome (sys k' False (n - d)) r sent d n"
  using assms(2)
proof (induction "signals_left sys k + n" arbitrary: k p n sent wire rule: less_induct)
  case less
  let ?a = "sys k False n"
  note ok = sys_calls_okD [OF assms(1)] and len = size_t_of [OF less.prems] and left = signals_left_Suc [OF assms(1), of k]
  consider (int) "fst ?a < 0" "snd ?a = EINTR" "0 < n" | (err) "fst ?a < 0" "snd ?a \<noteq> EINTR \<or> n = 0"
    | (part) "0 < fst ?a" "fst ?a < int n" | (all) "fst ?a = int n"
    using ok(1,2) [where k = k and mo = False and n = n] by (cases "fst ?a < 0"; cases "n = 0"; fastforce)
  then show ?case
  proof cases
    case int
    then have "interrupted sys k" by (auto simp: interrupted_def)
    then have "signals_left sys (Suc k) + n < signals_left sys k + n" using left(2) by simp
    from less.hyps [OF this less.prems, of p sent wire] show ?thesis
      using int len by (subst write_loop.simps) (simp add: Let_def)
  next
    case err
    let ?r = "if snd ?a = EINTR \<or> snd ?a = EAGAIN then int sent else - snd ?a"
    have "write_loop sys m k p (int n) sent wire = Some (?r, Suc k, wire @ mem_bytes m p 0)"
      using err len by (subst write_loop.simps) (auto simp: Let_def mem_bytes_def)
    moreover have "io_outcome (sys k False (n - 0)) ?r sent 0 n"
      using err ok(3) [of k False n] by (auto simp: io_outcome_def)
    ultimately show ?thesis by blast
  next
    case part
    obtain r where r: "fst ?a = int r" "0 < r" "r < n" using part by (cases "fst ?a") auto
    have "signals_left sys (Suc k) + (n - r) < signals_left sys k + n" using left(1) r by linarith
    moreover have "n - r < 2 ^ 63" using less.prems by linarith
    ultimately obtain d rr k' where d: "d \<le> n - r" "io_outcome (sys k' False (n - r - d)) rr (sent + r) d (n - r)"
        and w: "write_loop sys m (Suc k) (p + r) (int (n - r)) (sent + r) (wire @ mem_bytes m p r)
          = Some (rr, Suc k', (wire @ mem_bytes m p r) @ mem_bytes m (p + r) d)"
      using less.hyps [of "Suc k" "n - r" "p + r" "sent + r" "wire @ mem_bytes m p r"] by blast
    have "write_loop sys m k p (int n) sent wire = write_loop sys m (Suc k) (p + r) (int (n - r)) (sent + r) (wire @ mem_bytes m p r)"
      using len r by (subst write_loop.simps) (simp add: Let_def of_nat_diff)
    also have "\<dots> = Some (rr, Suc k', wire @ mem_bytes m p (r + d))" by (simp add: w mem_bytes_append)
    finally show ?thesis using d r
      by (intro exI [of _ "r + d"] exI [of _ rr] exI [of _ k']) (auto simp: io_outcome_def split: if_splits)
  next
    case all
    then show ?thesis using len
      by (intro exI [of _ n], subst write_loop.simps) (auto simp: Let_def io_outcome_def)
  qed
qed

text \<open>\<open>write\<close> of the posix socket returns, and what it put on the wire is a prefix of the buffer, in order and
  without repetition, however the kernel splits and interrupts it. The result is the length of this
  prefix, which is the whole buffer unless the last call said \<open>EAGAIN\<close>, or the error of the last call.\<close>

theorem posix_write_stream:
  assumes "sys_calls_ok sys" "n < 2 ^ 63"
  shows "\<exists>d r k'. d \<le> n \<and> posix_write sys m k p (int n) = Some (r, Suc k', mem_bytes m p d)
    \<and> io_outcome (sys k' False (n - d)) r 0 d n"
  using write_loop_stream [OF assms, of m k p 0 "[]"] by (simp add: posix_write_def)

text \<open>A kernel that is interrupted once, takes three bytes at a time and then has no room.\<close>

definition slow_kernel :: sys_calls where
  "slow_kernel k mo n = (if k = 0 then (- 1, EINTR) else if k < 3 then (int (min n 3), 0) else (- 1, EAGAIN))"

lemma slow_kernel_ok: "sys_calls_ok slow_kernel"
proof -
  have "{k. interrupted slow_kernel k} \<subseteq> {0}" by (auto simp: interrupted_def slow_kernel_def errno_defs split: if_splits)
  then have "finite {k. interrupted slow_kernel k}" by (rule finite_subset) simp
  then show ?thesis by (simp add: sys_calls_ok_def slow_kernel_def errno_defs)
qed

theorem posix_write_stream_witness:
  "\<exists>d r k'. d \<le> 8 \<and> posix_write slow_kernel (\<lambda>a. of_nat a) 0 100 (int 8) = Some (r, Suc k', mem_bytes (\<lambda>a. of_nat a) 100 d)
    \<and> io_outcome (slow_kernel k' False (8 - d)) r 0 d 8"
  by (rule posix_write_stream [OF slow_kernel_ok]) simp

section \<open>Sending\<close>

lemma gather_simps [simp]: "gather m [] = []" "gather m ((p, n) # iovs) = mem_bytes m p n @ gather m iovs"
  "gather m (xs @ ys) = gather m xs @ gather m ys"
  by (simp_all add: gather_def)

lemma iov_total_simps [simp]: "iov_total [] = 0" "iov_total ((p, n) # iovs) = n + iov_total iovs"
  "iov_total (xs @ ys) = iov_total xs + iov_total ys"
  by (simp_all add: iov_total_def)

lemma length_gather [simp]: "length (gather m iovs) = iov_total iovs"
  by (induction iovs) auto

lemma drop_mem_bytes: "drop r (mem_bytes m p n) = mem_bytes m (p + r) (n - r)"
  by (rule nth_equalityI) (simp_all add: add.assoc)

lemma advance_ok:
  "r \<le> iov_total iovs \<Longrightarrow>
    \<exists>iovs'. advance iovs r = Inr iovs' \<and> gather m iovs' = drop r (gather m iovs) \<and> iov_total iovs' = iov_total iovs - r"
proof (induction iovs r rule: advance.induct)
  case (3 p n iovs r)
  show ?case
  proof (cases "n \<le> Suc r")
    case True
    then have "Suc r - n \<le> iov_total iovs" using "3.prems" by simp
    from "3.IH" [OF True this] True show ?thesis by auto
  next
    case False
    then show ?thesis by (simp add: drop_mem_bytes)
  qed
qed auto

lemma do_sendmsg_stream:
  assumes "sys_calls_ok sys" "unat len = sent + n" "iov_total iovs = n"
  shows "\<exists>d r k'. d \<le> n \<and> do_sendmsg sys m len mo k iovs sent wire = Some (Inr (r, Suc k', wire @ take d (gather m iovs)))
    \<and> io_outcome (sys k' mo (n - d)) r sent d n"
  using assms(2,3)
proof (induction "signals_left sys k + n" arbitrary: k iovs n sent wire rule: less_induct)
  case less
  let ?a = "sys k mo n"
  note ok = sys_calls_okD [OF assms(1)] and left = signals_left_Suc [OF assms(1), of k]
  consider (int) "fst ?a < 0" "snd ?a = EINTR" | (err) "fst ?a < 0" "snd ?a \<noteq> EINTR"
    | (part) "0 < fst ?a" "fst ?a < int n" | (all) "fst ?a = int n"
    using ok(1,2) [where k = k and mo = mo and n = n] by (cases "fst ?a < 0"; cases "n = 0"; fastforce)
  then show ?case
  proof cases
    case int
    then have "interrupted sys k" by (auto simp: interrupted_def)
    then have "signals_left sys (Suc k) + n < signals_left sys k + n" using left(2) by simp
    from less.hyps [OF this less.prems, of wire] show ?thesis
      using int less.prems by (subst do_sendmsg.simps) (simp add: Let_def)
  next
    case err
    let ?r = "if snd ?a = EAGAIN then int sent else - snd ?a"
    have "do_sendmsg sys m len mo k iovs sent wire = Some (Inr (?r, Suc k, wire @ take 0 (gather m iovs)))"
      using err less.prems by (subst do_sendmsg.simps) (simp add: Let_def)
    moreover have "io_outcome (sys k mo (n - 0)) ?r sent 0 n"
      using err ok(3) [of k mo n] by (auto simp: io_outcome_def)
    ultimately show ?thesis by blast
  next
    case part
    obtain r where r: "fst ?a = int r" "0 < r" "r < n" using part by (cases "fst ?a") auto
    have "r \<le> iov_total iovs" using r less.prems by simp
    from advance_ok [OF this, of m] obtain iovs' where adv: "advance iovs r = Inr iovs'"
      "gather m iovs' = drop r (gather m iovs)" "iov_total iovs' = n - r" using less.prems(2) by auto
    have "signals_left sys (Suc k) + (n - r) < signals_left sys k + n" using left(1) r by linarith
    moreover have "unat len = (sent + r) + (n - r)" using less.prems(1) r by simp
    ultimately obtain d rr k' where d: "d \<le> n - r" "io_outcome (sys k' mo (n - r - d)) rr (sent + r) d (n - r)"
        and w: "do_sendmsg sys m len mo (Suc k) iovs' (sent + r) (wire @ take r (gather m iovs))
          = Some (Inr (rr, Suc k', (wire @ take r (gather m iovs)) @ take d (gather m iovs')))"
      using less.hyps [of "Suc k" "n - r" "sent + r" iovs' "wire @ take r (gather m iovs)"] adv(3) by blast
    have "do_sendmsg sys m len mo k iovs sent wire = do_sendmsg sys m len mo (Suc k) iovs' (sent + r) (wire @ take r (gather m iovs))"
      using r less.prems adv(1) by (subst do_sendmsg.simps) (simp add: Let_def)
    also have "\<dots> = Some (Inr (rr, Suc k', wire @ take (r + d) (gather m iovs)))" by (simp add: w adv(2) take_add)
    finally show ?thesis using d r
      by (intro exI [of _ "r + d"] exI [of _ rr] exI [of _ k']) (auto simp: io_outcome_def split: if_splits)
  next
    case all
    then have "do_sendmsg sys m len mo k iovs sent wire = Some (Inr (int (sent + n), Suc k, wire @ take n (gather m iovs)))"
      using less.prems by (subst do_sendmsg.simps) (simp add: Let_def)
    moreover have "io_outcome (sys k mo (n - n)) (int (sent + n)) sent n n" by (simp add: io_outcome_def)
    ultimately show ?thesis by blast
  qed
qed

text \<open>The outcome of \<open>send\<close>: \<open>k\<close> is the number of calls made.\<close>

definition send_outcome :: "sys_calls \<Rightarrow> nat \<Rightarrow> int + nat \<Rightarrow> nat \<Rightarrow> nat \<Rightarrow> nat \<Rightarrow> bool" where
  "send_outcome sys k r sent d n \<longleftrightarrow>
     (case r of
        Inl e \<Rightarrow> e < 0 \<and> (\<exists>mo c. fst (sys (k - 1) mo c) < 0 \<and> snd (sys (k - 1) mo c) \<noteq> EINTR \<and> snd (sys (k - 1) mo c) \<noteq> EAGAIN \<and> e = - snd (sys (k - 1) mo c))
      | Inr s \<Rightarrow> s = sent + d \<and> (d = n \<or> (\<exists>mo c. fst (sys (k - 1) mo c) < 0 \<and> snd (sys (k - 1) mo c) = EAGAIN)))"

lemma of_nat_less_u32: "a < 4294967296 \<Longrightarrow> b < 4294967296 \<Longrightarrow> (of_nat a :: u32) < of_nat b \<longleftrightarrow> a < b"
  by (simp add: word_less_nat_alt unat_of_nat take_bit_nat_eq_self)

lemma send_loop_stream:
  assumes "sys_calls_ok sys" "iov_total (map iov_of pb) < 4294967296"
  shows "\<exists>d r k'. d \<le> iov_total (map iov_of pb) \<and>
    posix_send_loop sys m mo k pb sent wire = Some (Inr (r, k', wire @ take d (gather m (map iov_of pb)))) \<and>
    send_outcome sys k' r sent d (iov_total (map iov_of pb))"
  using assms(2)
proof (induction "length pb" arbitrary: pb k sent wire rule: less_induct)
  case less
  show ?case
  proof (cases "pb = []")
    case True
    then show ?thesis by (intro exI [of _ 0] exI [of _ "Inr sent"] exI [of _ k]) (simp add: posix_send_loop.simps send_outcome_def)
  next
    case False
    let ?n = "min (length pb) kPosixIOVMax"
    let ?b = "map iov_of (take ?n pb)"
    let ?rest = "map iov_of (drop ?n pb)"
    let ?len = "of_nat (iov_total ?b) :: u32"
    have split: "map iov_of pb = ?b @ ?rest" by (metis append_take_drop_id map_append)
    have total: "iov_total (map iov_of pb) = iov_total ?b + iov_total ?rest" by (subst split) simp
    have bytes: "gather m (map iov_of pb) = gather m ?b @ gather m ?rest" by (subst split) simp
    have small: "iov_total ?b < 4294967296" "iov_total ?rest < 4294967296" using less.prems total by linarith+
    have len: "unat ?len = 0 + iov_total ?b" using small(1) by (simp add: unat_of_nat take_bit_nat_eq_self)
    obtain d r k' where d: "d \<le> iov_total ?b" "io_outcome (sys k' (?n < length pb \<or> mo) (iov_total ?b - d)) r 0 d (iov_total ?b)"
      and w: "do_sendmsg sys m ?len (?n < length pb \<or> mo) k ?b 0 wire = Some (Inr (r, Suc k', wire @ take d (gather m ?b)))"
      using do_sendmsg_stream [OF assms(1) len refl] by blast
    have step: "posix_send_loop sys m mo k pb sent wire = (if r < 0 then Some (Inr (Inl r, Suc k', wire @ take d (gather m ?b)))
        else if (of_int r :: u32) < ?len then Some (Inr (Inr (sent + nat r), Suc k', wire @ take d (gather m ?b)))
        else posix_send_loop sys m mo (Suc k') (drop ?n pb) (sent + nat r) (wire @ take d (gather m ?b)))"
      using False w by (subst posix_send_loop.simps) (simp add: Let_def)
    have taken: "take d (gather m (map iov_of pb)) = take d (gather m ?b)" using d(1) by (simp add: bytes)
    show ?thesis
    proof (cases "r < 0 \<or> d < iov_total ?b")
      case True
      have "posix_send_loop sys m mo k pb sent wire = Some (Inr (if r < 0 then Inl r else Inr (sent + d), Suc k', wire @ take d (gather m (map iov_of pb))))"
        using True d small(1) step taken by (auto simp: io_outcome_def of_nat_less_u32)
      moreover have "send_outcome sys (Suc k') (if r < 0 then Inl r else Inr (sent + d)) sent d (iov_total (map iov_of pb))"
        using True d(2) by (auto simp: io_outcome_def send_outcome_def split: if_splits)
      ultimately show ?thesis using d(1) total by (metis trans_le_add1)
    next
      case all: False
      then have r: "r = int d" "d = iov_total ?b" using d by (auto simp: io_outcome_def)
      have "length (drop ?n pb) < length pb" using False by (simp add: kPosixIOVMax_def)
      from less.hyps [OF this small(2), of "Suc k'" "sent + d" "wire @ gather m ?b"] obtain d' r' k2
        where d': "d' \<le> iov_total ?rest" "send_outcome sys k2 r' (sent + d) d' (iov_total ?rest)"
          and w': "posix_send_loop sys m mo (Suc k') (drop ?n pb) (sent + d) (wire @ gather m ?b) = Some (Inr (r', k2, (wire @ gather m ?b) @ take d' (gather m ?rest)))"
        by blast
      have "posix_send_loop sys m mo k pb sent wire = Some (Inr (r', k2, wire @ take (d + d') (gather m (map iov_of pb))))"
        using step r w' by (simp add: bytes)
      moreover have "send_outcome sys k2 r' sent (d + d') (iov_total (map iov_of pb))"
        using d'(2) r(2) total by (auto simp: send_outcome_def split: sum.splits)
      ultimately show ?thesis using d'(1) r(2) total by (metis add_le_cancel_left)
    qed
  qed
qed

text \<open>The bytes a list of buffers has left, which is what \<open>send\<close> is asked to send.\<close>

definition stream :: "mem \<Rightarrow> buf list \<Rightarrow> u8 list" where
  "stream m bs = concat (map (\<lambda>b. mem_bytes m (b_cur b) (unat (GetRemainingLen b))) bs)"

definition not_moved :: "buf list \<Rightarrow> bool" where
  "not_moved bs \<longleftrightarrow> (\<forall>b \<in> set bs. b_cur b = b_start b)"

lemma not_moved_remaining: "b_cur b = b_start b \<Longrightarrow> GetRemainingLen b = b_len b"
  by (simp add: GetRemainingLen_def)

lemma stream_not_moved: "not_moved bs \<Longrightarrow> stream m bs = gather m (map iov_of bs)"
  by (induction bs) (auto simp: stream_def not_moved_def iov_of_def not_moved_remaining gather_def)

lemma total_not_moved: "not_moved bs \<Longrightarrow> sum_list (map GetRemainingLen bs) = (of_nat (iov_total (map iov_of bs)) :: u32)"
  by (induction bs) (auto simp: not_moved_def iov_of_def not_moved_remaining)

lemma bl_Move_partial: "bl_bufs bl \<noteq> [] \<Longrightarrow> sz < bl_len bl \<Longrightarrow> \<exists>bl'. bl_Move sz bl = Inr (0, bl')"
  by (cases "bl_bufs bl"; cases "tl (bl_bufs bl)"; cases "sz = 0") (auto simp: bl_Move_def buf_Move_zero Let_def)

text \<open>\<open>Move\<close> takes off bytes of the first buffer only, whatever the amount.\<close>

lemma bl_Move_stream:
  assumes "bl_bufs bl = b # bs" and "b_cur b = b_start b" and "0 < d" and "d < 4294967296" and "of_nat d < bl_len bl"
  shows "\<exists>bl'. bl_Move (of_nat d) bl = Inr (0, bl') \<and> get_len bl' = get_len bl - of_nat d \<and>
    stream m (bl_bufs bl') = drop (min d (unat (b_len b))) (stream m (b # bs))"
proof -
  let ?sz = "of_nat d :: u32"
  let ?b = "snd (buf_Move ?sz b)"
  let ?bs = "if GetRemainingLen ?b = 0 then bs else ?b # bs"
  have sz: "unat ?sz = d" "?sz \<noteq> 0" using assms(3,4) by (auto simp: unat_of_nat take_bit_nat_eq_self unat_eq_zero [symmetric] simp del: unat_eq_zero)
  have ok: "buf_ok b" using assms(2) by (simp add: buf_ok_def)
  have nz: "bl_move_loop 0 xs l = Inr (0, xs, l)" for xs l by (cases xs) simp_all
  have mv: "bl_Move ?sz bl = Inr (0, bl\<lparr>bl_bufs := ?bs, bl_len := bl_len bl - ?sz\<rparr>)"
    using assms(1,5) sz(2) nz by (simp add: bl_Move_def buf_Move_zero Let_def)
  have cur: "b_cur ?b = b_start b + min d (unat (b_len b))" "b_start ?b = b_start b" "b_len ?b = b_len b"
    using assms(2) sz(1) by (auto simp: buf_Move_def Let_def)
  have rem: "unat (GetRemainingLen ?b) = unat (b_len b) - min d (unat (b_len b))"
    using unat_GetRemainingLen [OF buf_Move_ok [OF ok]] by (simp add: cur)
  have "stream m ?bs = mem_bytes m (b_cur ?b) (unat (GetRemainingLen ?b)) @ stream m bs"
    by (auto simp: stream_def mem_bytes_def)
  also have "\<dots> = drop (min d (unat (b_len b))) (stream m (b # bs))"
    unfolding rem by (simp add: stream_def cur drop_mem_bytes not_moved_remaining [OF assms(2)] assms(2))
  finally show ?thesis using mv by (simp add: get_len_def)
qed

text \<open>C11: \<open>send\<close> of the posix socket on buffers that were not read from yet, less than 4 GiB in all: it returns, and
  whatever the kernel does, across blocks of 1024 buffers and partial calls, the bytes on the wire are a
  prefix of the bytes of the list in order. An error leaves the list as it is. Otherwise the result is the
  length of the prefix, which is everything unless the last call said \<open>EAGAIN\<close>; a list that was sent
  is cleared. From one that was sent in part, \<open>Move\<close> takes off the sent bytes of its first buffer only: bytes
  sent from later buffers stay in the list, although its length falls by all of them. That the buffers were
  not read from is needed: \<open>posix_send_overreads\<close> shows that \<open>send\<close> reads past the end of others.\<close>

theorem posix_send_stream:
  assumes "sys_calls_ok sys" "bl_ok bl" "not_moved (bl_bufs bl)" "length (bl_bufs bl) < 2 ^ 32" "length (stream m (bl_bufs bl)) < 2 ^ 32"
  shows "\<exists>d r k' bl'. posix_send sys m mo k bl = Some (Inr (r, k', take d (stream m (bl_bufs bl)), bl')) \<and> d \<le> length (stream m (bl_bufs bl)) \<and>
    (if r < 0 then bl' = bl \<and> send_outcome sys k' (Inl r) 0 d (length (stream m (bl_bufs bl)))
     else r = int d \<and> send_outcome sys k' (Inr d) 0 d (length (stream m (bl_bufs bl))) \<and>
       (if d = 0 then bl' = bl else if d = length (stream m (bl_bufs bl)) then bl_bufs bl' = []
        else stream m (bl_bufs bl') = drop (min d (unat (b_len (hd (bl_bufs bl))))) (stream m (bl_bufs bl)) \<and>
          get_len bl' = get_len bl - of_nat d))"
proof -
  let ?n = "iov_total (map iov_of (bl_bufs bl))"
  have str: "stream m (bl_bufs bl) = gather m (map iov_of (bl_bufs bl))" by (rule stream_not_moved [OF assms(3)])
  have len: "length (stream m (bl_bufs bl)) = ?n" by (simp add: str)
  have small: "?n < 4294967296" using assms(5) len by simp
  have whole: "take (unat (GetSize bl)) (bl_bufs bl) = bl_bufs bl"
    using assms(4) by (simp add: GetSize_def unat_of_nat take_bit_nat_eq_self)
  have get_len: "unat (get_len bl) = ?n"
    using assms(2) small total_not_moved [OF assms(3)] by (simp add: bl_ok_def get_len_def unat_of_nat take_bit_nat_eq_self)
  from send_loop_stream [OF assms(1) small, of m mo k 0 "[]"] obtain d r k'
    where d: "d \<le> ?n" "send_outcome sys k' r 0 d ?n"
      and s: "posix_send_loop sys m mo k (bl_bufs bl) 0 [] = Some (Inr (r, k', take d (gather m (map iov_of (bl_bufs bl)))))"
    by auto
  show ?thesis
  proof (cases r)
    case (Inl e)
    then show ?thesis using d s by (intro exI [of _ d] exI [of _ e] exI [of _ k'] exI [of _ bl])
        (auto simp: posix_send_def whole str send_outcome_def)
  next
    case (Inr v)
    then have v: "v = d" using d(2) by (simp add: send_outcome_def)
    have "\<exists>bl'. bl_Move (of_nat d) bl = Inr (0, bl') \<and> get_len bl' = get_len bl - of_nat d \<and>
        stream m (bl_bufs bl') = drop (min d (unat (b_len (hd (bl_bufs bl))))) (stream m (bl_bufs bl))" if part: "0 < d" "d < ?n"
    proof -
      obtain b bs where b: "bl_bufs bl = b # bs" using part by (cases "bl_bufs bl") auto
      have "of_nat d < bl_len bl" using part small get_len by (simp add: get_len_def word_less_nat_alt unat_of_nat take_bit_nat_eq_self)
      then show ?thesis using bl_Move_stream [OF b _ part(1), of m] assms(3) part(2) small by (simp add: b not_moved_def)
    qed
    then obtain bl' where bl': "0 < d \<Longrightarrow> d < ?n \<Longrightarrow> bl_Move (of_nat d) bl = Inr (0, bl') \<and> get_len bl' = get_len bl - of_nat d \<and>
        stream m (bl_bufs bl') = drop (min d (unat (b_len (hd (bl_bufs bl))))) (stream m (bl_bufs bl))" by blast
    let ?bl = "if d = 0 then bl else if d = ?n then bl_Clear bl else bl'"
    have "posix_send sys m mo k bl = Some (Inr (int d, k', take d (stream m (bl_bufs bl)), ?bl))"
      using Inr v s d(1) bl' by (auto simp: posix_send_def whole str get_len)
    then show ?thesis using d Inr v bl' len
      by (intro exI [of _ d] exI [of _ "int d"] exI [of _ k'] exI [of _ ?bl]) (auto simp: bl_Clear_def)
  qed
qed

definition two_buffers :: buffer_list where
  "two_buffers = bl_AppendList (bl_of (buf_of 200 5)) (bl_of (buf_of 100 4))"

lemma two_buffers_eq: "bl_bufs two_buffers = [buf_of 100 4, buf_of 200 5]" "bl_len two_buffers = 9" "bl_ok two_buffers" "not_moved (bl_bufs two_buffers)"
  by (simp_all add: two_buffers_def bl_AppendList_eq bl_of_def buf_of_def buf_copy_def GetRemainingLen_def bl_ok_def not_moved_def)

theorem posix_send_stream_witness:
  "\<exists>d r k' bl'. posix_send slow_kernel (\<lambda>a. of_nat a) False 0 two_buffers = Some (Inr (r, k', take d (stream (\<lambda>a. of_nat a) (bl_bufs two_buffers)), bl')) \<and>
    d \<le> length (stream (\<lambda>a. of_nat a) (bl_bufs two_buffers)) \<and>
    (if r < 0 then bl' = two_buffers \<and> send_outcome slow_kernel k' (Inl r) 0 d (length (stream (\<lambda>a. of_nat a) (bl_bufs two_buffers)))
     else r = int d \<and> send_outcome slow_kernel k' (Inr d) 0 d (length (stream (\<lambda>a. of_nat a) (bl_bufs two_buffers))) \<and>
       (if d = 0 then bl' = two_buffers else if d = length (stream (\<lambda>a. of_nat a) (bl_bufs two_buffers)) then bl_bufs bl' = []
        else stream (\<lambda>a. of_nat a) (bl_bufs bl') = drop (min d (unat (b_len (hd (bl_bufs two_buffers))))) (stream (\<lambda>a. of_nat a) (bl_bufs two_buffers)) \<and>
          get_len bl' = get_len two_buffers - of_nat d))"
  by (rule posix_send_stream [OF slow_kernel_ok]) (simp_all add: two_buffers_eq stream_def GetRemainingLen_def buf_of_def not_moved_def)

text \<open>A buffer of which \<open>e\<close> bytes were sent already (by an earlier \<open>send\<close>, which moved its cursor) is offered to
  the kernel with its whole length from the cursor on: a kernel that accepts what it is offered sends the rest
  of the buffer followed by the \<open>e\<close> bytes of memory after its end, and the result counts them.\<close>

theorem posix_send_overreads:
  assumes "bl_bufs bl = [b]" "b_cur b = b_start b + e" "0 < e" "e \<le> unat (b_len b)"
    and "sys k mo (unat (b_len b)) = (int (unat (b_len b)), 0)"
  shows "\<exists>bl'. posix_send sys m mo k bl =
    Some (Inr (int (length (stream m [b])) + int e, Suc k, stream m [b] @ mem_bytes m (b_start b + unat (b_len b)) e, bl'))"
proof -
  let ?n = "unat (b_len b)"
  have n: "?n < 4294967296" by (rule unat_less_u32)
  have rem: "unat (GetRemainingLen b) = ?n - e"
    using unat_GetRemainingLen [of b] assms(2,4) by (simp add: buf_ok_def)
  have bytes: "stream m [b] @ mem_bytes m (b_start b + ?n) e = mem_bytes m (b_cur b) ?n"
    using mem_bytes_append [of m "b_cur b" "?n - e" e] assms(2,4) by (simp add: stream_def rem add.assoc)
  have send: "do_sendmsg sys m (of_nat ?n) mo k [iov_of b] 0 [] = Some (Inr (int ?n, Suc k, mem_bytes m (b_cur b) ?n))"
    using assms(5) by (subst do_sendmsg.simps) (simp add: Let_def iov_of_def)
  have "posix_send_loop sys m mo k [b] 0 [] = Some (Inr (Inr ?n, Suc k, mem_bytes m (b_cur b) ?n))"
    using send by (subst posix_send_loop.simps) (simp add: Let_def kPosixIOVMax_def iov_of_def posix_send_loop.simps [where pb = "[]"])
  moreover have "take (unat (GetSize bl)) [b] = [b]" using assms(1) by (simp add: GetSize_def)
  moreover have "\<exists>bl'. bl_Move (of_nat ?n) bl = Inr (0, bl')" if "?n < unat (get_len bl)"
    using that assms(1) bl_Move_partial [of bl "b_len b"] by (simp add: get_len_def word_less_nat_alt)
  moreover have "0 < ?n" "int (length (stream m [b])) + int e = int ?n" using assms(3,4) by (simp_all add: stream_def rem)
  ultimately show ?thesis using assms(1) bytes
    by (cases "?n < unat (get_len bl)") (auto simp: posix_send_def)
qed

definition greedy_kernel :: sys_calls where
  "greedy_kernel k mo n = (int n, 0)"

definition sent_in_part :: buffer_list where
  "sent_in_part = \<lparr>bl_bufs = [\<lparr>b_start = 100, b_cur = 103, b_len = 5, is_malloc = False\<rparr>], bl_len = 2\<rparr>"

theorem posix_send_overreads_witness:
  "\<exists>bl'. posix_send greedy_kernel (\<lambda>a. of_nat a) False 0 sent_in_part =
    Some (Inr (int (length (stream (\<lambda>a. of_nat a) (bl_bufs sent_in_part))) + int 3, Suc 0,
      stream (\<lambda>a. of_nat a) (bl_bufs sent_in_part) @ mem_bytes (\<lambda>a. of_nat a) (100 + 5) 3, bl'))"
  using posix_send_overreads [of sent_in_part "hd (bl_bufs sent_in_part)" 3 greedy_kernel 0 False "\<lambda>a. of_nat a"]
  by (simp add: sent_in_part_def greedy_kernel_def)

section \<open>Descriptors\<close>

definition takes_or_closes :: "int \<Rightarrow> int \<Rightarrow> int option \<Rightarrow> int list \<Rightarrow> bool" where
  "takes_or_closes s rc fd closed \<longleftrightarrow>
     (if rc = 0 then fd = Some s \<and> 0 \<le> s \<and> closed = [] else rc < 0 \<and> fd = None \<and> closed = (if 0 \<le> s then [s] else []))"

text \<open>The descriptors of the posix stack: \<open>listen\<close>, \<open>accept\<close> (with an address to fill in) and \<open>connect\<close> either
  succeed and hand over the descriptor they obtained, or fail and have closed it exactly once. A socket that is
  connecting without blocking is taken for connected by \<open>is_connected\<close> exactly when \<open>connect\<close> succeeds or says that it is
  connected, and a pending connection is reported as such.\<close>

theorem posix_descriptors:
  assumes "sys_ok so" "sys_ok g" "sys_ok st" "opt_ok nd" "opt_ok rb" "sys_ok bi" "sys_ok li" "sys_ok co" "0 < e"
  shows "(case posix_listen so e g st nodelay rcv nd rb bi li of (rc, fd, closed) \<Rightarrow> takes_or_closes (fst so) rc fd closed)
    \<and> (\<exists>rc fd closed opts. posix_accept True so e g st nodelay rcv nd rb prio (Some family) = Inr (rc, fd, closed, opts)
        \<and> takes_or_closes (fst so) rc fd closed)
    \<and> (case posix_connect nonblock do_bind so g st bi co e prio family of (rc, sock, closed, opts) \<Rightarrow>
        takes_or_closes (fst so) rc (map_option fst sock) closed \<and> (rc = 0 \<longrightarrow> sock = Some (fst so, \<not> nonblock)))
    \<and> (snd (posix_is_connected co False) \<longleftrightarrow> 0 \<le> fst co \<or> snd co = EISCONN)
    \<and> (fst co < 0 \<and> snd co = EINPROGRESS \<longrightarrow> posix_is_connected co False = (0, False))"
proof (intro conjI)
  show "case posix_listen so e g st nodelay rcv nd rb bi li of (rc, fd, closed) \<Rightarrow> takes_or_closes (fst so) rc fd closed"
    using assms by (auto simp: posix_listen_def takes_or_closes_def create_socket_def sys_ok_def Let_def split: if_splits)
  show "\<exists>rc fd closed opts. posix_accept True so e g st nodelay rcv nd rb prio (Some family) = Inr (rc, fd, closed, opts)
      \<and> takes_or_closes (fst so) rc fd closed"
    using assms by (auto simp: posix_accept_def takes_or_closes_def sys_ok_def Let_def split: if_splits)
  show "case posix_connect nonblock do_bind so g st bi co e prio family of (rc, sock, closed, opts) \<Rightarrow>
      takes_or_closes (fst so) rc (map_option fst sock) closed \<and> (rc = 0 \<longrightarrow> sock = Some (fst so, \<not> nonblock))"
    using assms by (auto simp: posix_connect_def generic_connect_def takes_or_closes_def create_socket_def sys_ok_def Let_def split: if_splits)
  show "snd (posix_is_connected co False) \<longleftrightarrow> 0 \<le> fst co \<or> snd co = EISCONN"
    using assms(8) by (auto simp: posix_is_connected_def reconnect_def sys_ok_def Let_def)
  show "fst co < 0 \<and> snd co = EINPROGRESS \<longrightarrow> posix_is_connected co False = (0, False)"
    by (simp add: posix_is_connected_def reconnect_def Let_def EINPROGRESS_def EISCONN_def)
qed

theorem posix_descriptors_witness:
  "(case posix_listen (7, 0) 98 (0, 0) (0, 0) True 0 (0, 0) (0, 0) (- 1, 98) (0, 0) of (rc, fd, closed) \<Rightarrow> takes_or_closes (fst (7 :: int, 0 :: int)) rc fd closed)
    \<and> (\<exists>rc fd closed opts. posix_accept True (7, 0) 98 (0, 0) (0, 0) True 0 (0, 0) (0, 0) 3 (Some AF_INET) = Inr (rc, fd, closed, opts)
        \<and> takes_or_closes (fst (7 :: int, 0 :: int)) rc fd closed)
    \<and> (case posix_connect True False (7, 0) (0, 0) (0, 0) (- 1, 98) (- 1, 115) 98 3 AF_INET of (rc, sock, closed, opts) \<Rightarrow>
        takes_or_closes (fst (7 :: int, 0 :: int)) rc (map_option fst sock) closed \<and> (rc = 0 \<longrightarrow> sock = Some (fst (7 :: int, 0 :: int), \<not> True)))
    \<and> (snd (posix_is_connected (- 1, 115) False) \<longleftrightarrow> 0 \<le> fst (- 1 :: int, 115 :: int) \<or> snd (- 1 :: int, 115 :: int) = EISCONN)
    \<and> (fst (- 1 :: int, 115 :: int) < 0 \<and> snd (- 1 :: int, 115 :: int) = EINPROGRESS \<longrightarrow> posix_is_connected (- 1, 115) False = (0, False))"
  by (rule posix_descriptors) (simp_all add: sys_ok_def opt_ok_def)

end
