(* ===== verification/StackThreads.thy ===== *)
theory StackThreads
  imports Prelude
begin

text \<open>
  The threads of a network stack: \<open>NetworkStack::start\<close>, \<open>stop\<close> and \<open>add_thread\<close> of \<open>src/src/network/Stack.cc\<close>, the
  life cycle of \<open>Worker\<close> in \<open>src/src/network/Stack.h\<close> and \<open>spawn_worker\<close> and \<open>join_worker\<close> of the two stacks. One
  caller runs \<open>start\<close> and \<open>stop\<close>; it and the worker threads interleave, and every access to the shared flags
  is a step of its own. The steps allow more than the code does: \<open>process_events\<close> may return at any time, and the spin lock that
  \<open>start\<close>, \<open>stop\<close> and \<open>get_worker\<close> take is left out. What is shown here of all reachable states therefore holds of the code; that
  a call returns cannot be concluded, since a worker that is in \<open>get_worker\<close> does wait for the lock \<open>stop\<close> holds: the theory SpinLock,
  which models the lock, says when \<open>stop\<close> can return.
\<close>

section \<open>State\<close>

datatype tpc = TNone | TSpawned | TLoop | TProcess | TReset | TClear | TDestroy | TEnded

record wstate =
  wk_init :: bool
  wk_done :: bool
  wk_pc :: tpc

text \<open>Where the caller is: in no call, in the first or second loop of \<open>start\<close>, or in the loop of \<open>stop\<close>, before it
  wakes a worker or when it joins its thread.\<close>

datatype mpc = MIdle | MSpawn nat | MWait nat | MStop nat | MJoin nat | MAbort

text \<open>A thread object has the number of the worker it runs, and may be joined or not.\<close>

record stack_state =
  st_workers :: "nat \<Rightarrow> wstate"
  st_started :: bool
  st_threads :: "(nat \<times> bool) list"
  st_main :: mpc

definition worker_new :: wstate where
  "worker_new = \<lparr>wk_init = False, wk_done = False, wk_pc = TNone\<rparr>"

definition stack_new :: stack_state where
  "stack_new = \<lparr>st_workers = \<lambda>_. worker_new, st_started = False, st_threads = [], st_main = MIdle\<rparr>"

section \<open>Steps\<close>

text \<open>A step of a worker thread, the function \<open>add_thread\<close> returns.\<close>

inductive worker_step :: "wstate \<Rightarrow> wstate \<Rightarrow> bool" where
  init_done: "wk_pc w = TSpawned \<Longrightarrow> worker_step w (w\<lparr>wk_init := True, wk_pc := TLoop\<rparr>)"
| enter: "wk_pc w = TLoop \<Longrightarrow> \<not> wk_done w \<Longrightarrow> worker_step w (w\<lparr>wk_pc := TProcess\<rparr>)"
| process_events: "wk_pc w = TProcess \<Longrightarrow> worker_step w (w\<lparr>wk_pc := TLoop\<rparr>)"
| leave: "wk_pc w = TLoop \<Longrightarrow> wk_done w \<Longrightarrow> worker_step w (w\<lparr>wk_pc := TReset\<rparr>)"
| reset_init: "wk_pc w = TReset \<Longrightarrow> worker_step w (w\<lparr>wk_init := False, wk_pc := TClear\<rparr>)"
| reset_done: "wk_pc w = TClear \<Longrightarrow> worker_step w (w\<lparr>wk_done := False, wk_pc := TDestroy\<rparr>)"
| destroy: "wk_pc w = TDestroy \<Longrightarrow> worker_step w (w\<lparr>wk_pc := TEnded\<rparr>)"

definition set_worker :: "nat \<Rightarrow> wstate \<Rightarrow> stack_state \<Rightarrow> stack_state" where
  "set_worker i w s = s\<lparr>st_workers := (st_workers s)(i := w)\<rparr>"

text \<open>\<open>join_worker\<close> aborts unless the thread is joinable.\<close>

definition joinable :: "stack_state \<Rightarrow> nat \<Rightarrow> bool" where
  "joinable s i \<longleftrightarrow> i < length (st_threads s) \<and> snd (st_threads s ! i)"

text \<open>A step of the caller, with \<open>n\<close> workers: \<open>start\<close> and \<open>stop\<close> may be called whenever no call is under way.\<close>

inductive main_step :: "nat \<Rightarrow> stack_state \<Rightarrow> stack_state \<Rightarrow> bool" for n where
  start_again: "st_main s = MIdle \<Longrightarrow> st_started s \<Longrightarrow> main_step n s s"
| start: "st_main s = MIdle \<Longrightarrow> \<not> st_started s \<Longrightarrow> main_step n s (s\<lparr>st_main := MSpawn 0\<rparr>)"
| skip: "st_main s = MSpawn i \<Longrightarrow> i < n \<Longrightarrow> wk_init (st_workers s i) \<Longrightarrow> main_step n s (s\<lparr>st_main := MSpawn (Suc i)\<rparr>)"
| spawn_worker: "st_main s = MSpawn i \<Longrightarrow> i < n \<Longrightarrow> \<not> wk_init (st_workers s i) \<Longrightarrow>
    main_step n s ((set_worker i ((st_workers s i)\<lparr>wk_pc := TSpawned\<rparr>) s)\<lparr>st_threads := st_threads s @ [(i, True)], st_main := MSpawn (Suc i)\<rparr>)"
| started: "st_main s = MSpawn n \<Longrightarrow> main_step n s (s\<lparr>st_started := True, st_main := MWait 0\<rparr>)"
| wait_for_init: "st_main s = MWait i \<Longrightarrow> i < n \<Longrightarrow> wk_init (st_workers s i) \<Longrightarrow> main_step n s (s\<lparr>st_main := MWait (Suc i)\<rparr>)"
| start_returns: "st_main s = MWait n \<Longrightarrow> main_step n s (s\<lparr>st_main := MIdle\<rparr>)"
| stop: "st_main s = MIdle \<Longrightarrow> main_step n s (s\<lparr>st_main := MStop 0\<rparr>)"
| wake: "st_main s = MStop i \<Longrightarrow> i < n \<Longrightarrow>
    main_step n s ((set_worker i ((st_workers s i)\<lparr>wk_done := True\<rparr>) s)\<lparr>st_main := MJoin i\<rparr>)"
| join_fails: "st_main s = MJoin i \<Longrightarrow> \<not> joinable s i \<Longrightarrow> main_step n s (s\<lparr>st_main := MAbort\<rparr>)"
| join_worker: "st_main s = MJoin i \<Longrightarrow> joinable s i \<Longrightarrow> wk_pc (st_workers s (fst (st_threads s ! i))) = TEnded \<Longrightarrow>
    main_step n s (s\<lparr>st_threads := (st_threads s)[i := (fst (st_threads s ! i), False)], st_main := MStop (Suc i)\<rparr>)"
| stop_returns: "st_main s = MStop n \<Longrightarrow> main_step n s (s\<lparr>st_started := False, st_main := MIdle\<rparr>)"

datatype actor = Main | Thread nat

inductive stack_step :: "nat \<Rightarrow> actor \<Rightarrow> stack_state \<Rightarrow> stack_state \<Rightarrow> bool" for n where
  main: "main_step n s t \<Longrightarrow> stack_step n Main s t"
| thread: "i < n \<Longrightarrow> st_main s \<noteq> MAbort \<Longrightarrow> worker_step (st_workers s i) w \<Longrightarrow> stack_step n (Thread i) s (set_worker i w s)"

inductive stack_reachable :: "nat \<Rightarrow> stack_state \<Rightarrow> bool" for n where
  new: "stack_reachable n stack_new"
| step: "stack_reachable n s \<Longrightarrow> stack_step n a s t \<Longrightarrow> stack_reachable n t"

inductive_cases main_stepE: "main_step n s t"
inductive_cases stack_stepE: "stack_step n a s t"
inductive_cases worker_stepE: "worker_step w w'"

section \<open>The invariant\<close>

text \<open>The phases of a worker: not running, spawned, in its loop, and asked to stop.\<close>

definition stopped :: "wstate \<Rightarrow> bool" where
  "stopped w \<longleftrightarrow> \<not> wk_init w \<and> \<not> wk_done w \<and> (wk_pc w = TNone \<or> wk_pc w = TEnded)"

definition in_loop :: "wstate \<Rightarrow> bool" where
  "in_loop w \<longleftrightarrow> wk_init w \<and> \<not> wk_done w \<and> (wk_pc w = TLoop \<or> wk_pc w = TProcess)"

definition spawned :: "wstate \<Rightarrow> bool" where
  "spawned w \<longleftrightarrow> in_loop w \<or> \<not> wk_init w \<and> \<not> wk_done w \<and> wk_pc w = TSpawned"

definition stopping :: "wstate \<Rightarrow> bool" where
  "stopping w \<longleftrightarrow>
     (if wk_done w then wk_init w \<and> wk_pc w \<in> {TLoop, TProcess, TReset} \<or> \<not> wk_init w \<and> wk_pc w = TClear
      else \<not> wk_init w \<and> wk_pc w \<in> {TDestroy, TEnded})"

lemmas phase_defs = stopped_def in_loop_def spawned_def stopping_def

lemma phase_steps:
  assumes "worker_step w w'"
  shows "\<not> stopped w" "in_loop w \<Longrightarrow> in_loop w'" "spawned w \<Longrightarrow> spawned w'" "stopping w \<Longrightarrow> stopping w'"
  using assms by (induction rule: worker_step.induct) (auto simp: phase_defs split: if_splits)

text \<open>The thread objects: those of earlier runs have all been joined, those of the current one are joinable from \<open>i\<close> on.\<close>

definition all_joined :: "(nat \<times> bool) list \<Rightarrow> bool" where
  "all_joined ts \<longleftrightarrow> (\<forall>t \<in> set ts. \<not> snd t)"

definition current :: "nat \<Rightarrow> nat \<Rightarrow> (nat \<times> bool) list" where
  "current n i = map (\<lambda>j. (j, i \<le> j)) [0 ..< n]"

definition threads_ok :: "nat \<Rightarrow> (nat \<times> bool) list \<Rightarrow> bool" where
  "threads_ok k ts \<longleftrightarrow> (\<exists>old. all_joined old \<and> ts = old @ current k 0)"

definition doomed :: "stack_state \<Rightarrow> bool" where
  "doomed s \<longleftrightarrow> \<not> joinable s 0"

definition stack_inv :: "nat \<Rightarrow> stack_state \<Rightarrow> bool" where
  "stack_inv n s \<longleftrightarrow> (let ws = st_workers s in
     case st_main s of
       MIdle \<Rightarrow> (if st_started s then threads_ok n (st_threads s) \<and> (\<forall>j < n. in_loop (ws j))
                 else all_joined (st_threads s) \<and> (\<forall>j < n. stopped (ws j)))
     | MSpawn i \<Rightarrow> i \<le> n \<and> \<not> st_started s \<and> threads_ok i (st_threads s) \<and> (\<forall>j < n. if j < i then spawned (ws j) else stopped (ws j))
     | MWait i \<Rightarrow> i \<le> n \<and> st_started s \<and> threads_ok n (st_threads s) \<and> (\<forall>j < n. if j < i then in_loop (ws j) else spawned (ws j))
     | MStop i \<Rightarrow> i \<le> n \<and> (i = 0 \<and> doomed s \<or>
         st_started s \<and> st_threads s = current n i \<and> (\<forall>j < n. if j < i then stopped (ws j) else in_loop (ws j)))
     | MJoin i \<Rightarrow> i < n \<and> (i = 0 \<and> doomed s \<or>
         st_started s \<and> st_threads s = current n i \<and> (\<forall>j < n. if j < i then stopped (ws j) else if j = i then stopping (ws j) else in_loop (ws j)))
     | MAbort \<Rightarrow> True)"

lemmas inv_defs = stack_inv_def Let_def

lemma current_Suc: "current (Suc k) 0 = current k 0 @ [(k, True)]"
  by (simp add: current_def)

lemma current_joined: "i < n \<Longrightarrow> (current n i)[i := (i, False)] = current n (Suc i)"
  by (rule nth_equalityI) (auto simp: current_def nth_list_update)

lemma current_nth [simp]: "i < n \<Longrightarrow> current n j ! i = (i, j \<le> i)" "length (current n j) = n"
  by (simp_all add: current_def)

lemma current_all_joined: "all_joined (current n n)"
  by (auto simp: all_joined_def current_def)

lemma threads_ok_zero: "threads_ok 0 ts \<longleftrightarrow> all_joined ts"
  by (simp add: threads_ok_def current_def)

lemma threads_ok_Suc: "threads_ok k ts \<Longrightarrow> threads_ok (Suc k) (ts @ [(k, True)])"
  by (auto simp: threads_ok_def current_Suc)

lemma all_joined_doomed: "all_joined (st_threads s) \<Longrightarrow> doomed s"
  by (cases "st_threads s") (auto simp: all_joined_def doomed_def joinable_def)

text \<open>A run that is not the first one is doomed.\<close>

lemma threads_ok_cases:
  assumes "threads_ok n (st_threads s)" "0 < n"
  shows "doomed s \<or> st_threads s = current n 0"
proof -
  from assms(1) obtain old where old: "all_joined old" "st_threads s = old @ current n 0" by (auto simp: threads_ok_def)
  show ?thesis
  proof (cases old)
    case Nil
    with old show ?thesis by simp
  next
    case (Cons t ts)
    with old show ?thesis by (auto simp: doomed_def joinable_def all_joined_def)
  qed
qed

lemma set_worker_simps [simp]:
  "st_workers (set_worker i w s) = (st_workers s)(i := w)" "st_started (set_worker i w s) = st_started s"
  "st_threads (set_worker i w s) = st_threads s" "st_main (set_worker i w s) = st_main s"
  "doomed (set_worker i w s) = doomed s" "joinable (set_worker i w s) = joinable s"
  by (simp_all add: set_worker_def doomed_def joinable_def fun_eq_iff)

lemma frame_joinable [simp]: "joinable (s\<lparr>st_main := m\<rparr>) = joinable s" "doomed (s\<lparr>st_main := m\<rparr>) = doomed s"
  by (simp_all add: joinable_def doomed_def fun_eq_iff)

lemma stack_inv_thread:
  assumes "stack_inv n s" "i < n" "worker_step (st_workers s i) w"
  shows "stack_inv n (set_worker i w s)"
  using assms(1,2) phase_steps [OF assms(3)]
  by (cases "st_main s") (auto simp: inv_defs)

lemma stack_inv_main:
  assumes "main_step n s t" "stack_inv n s" "0 < n"
  shows "stack_inv n t"
  using assms
proof cases
  case start
  with assms show ?thesis by (simp add: inv_defs threads_ok_zero)
next
  case (skip i)
  with assms(2) have "stopped (st_workers s i)" by (simp add: inv_defs)
  with skip show ?thesis by (simp add: stopped_def)
next
  case (spawn_worker i)
  then have inv: "threads_ok i (st_threads s)" "\<not> st_started s" "\<forall>j < n. if j < i then spawned (st_workers s j) else stopped (st_workers s j)"
    using assms(2) by (simp_all add: inv_defs)
  have "spawned ((st_workers s i)\<lparr>wk_pc := TSpawned\<rparr>)" using inv(3) spawn_worker by (auto simp: stopped_def spawned_def)
  then show ?thesis using spawn_worker inv threads_ok_Suc [OF inv(1)] by (auto simp: inv_defs less_Suc_eq)
next
  case started
  with assms show ?thesis by (simp add: inv_defs)
next
  case (wait_for_init i)
  then show ?thesis using assms(2) by (auto simp: inv_defs less_Suc_eq spawned_def)
next
  case start_returns
  with assms show ?thesis by (simp add: inv_defs)
next
  case stop
  then show ?thesis using assms(2,3) threads_ok_cases [of n s]
    by (auto simp: inv_defs all_joined_doomed split: if_splits)
next
  case (wake i)
  then show ?thesis using assms(2) by (auto simp: inv_defs in_loop_def stopping_def)
next
  case (join_worker i)
  then have "\<not> (i = 0 \<and> doomed s)" by (cases i) (auto simp: doomed_def)
  with join_worker assms(2) have inv: "i < n" "st_started s" "st_threads s = current n i"
    "\<forall>j < n. if j < i then stopped (st_workers s j) else if j = i then stopping (st_workers s j) else in_loop (st_workers s j)"
    by (auto simp: inv_defs)
  have "stopped (st_workers s i)" using inv join_worker by (auto simp: stopping_def stopped_def split: if_splits)
  then show ?thesis using inv join_worker current_joined [OF inv(1)] by (auto simp: inv_defs less_Suc_eq)
next
  case stop_returns
  then show ?thesis using assms(2,3) current_all_joined [of n] by (auto simp: inv_defs)
qed (simp_all add: inv_defs)

lemma stack_reachable_inv: "stack_reachable n s \<Longrightarrow> 0 < n \<Longrightarrow> stack_inv n s"
proof (induction rule: stack_reachable.induct)
  case new
  show ?case by (simp add: inv_defs stack_new_def worker_new_def stopped_def all_joined_def)
next
  case (step s a t)
  from step.hyps(2) show ?case
    by cases (use step stack_inv_main stack_inv_thread in auto)
qed

section \<open>Properties\<close>

text \<open>C13: \<open>start\<close> and \<open>stop\<close> do what they say in every interleaving: whenever no call is under way, a started stack has all
  its workers initialised and in their loops, and a stack that is not started has no thread running and all its
  workers ready to be started (the flags \<open>init\<close> and \<open>done\<close> cleared). The only way to abort is \<open>stop\<close> at its first
  worker, when the first thread object was never created or has been joined before.\<close>

theorem stack_lifecycle:
  assumes "stack_reachable n s" "0 < n"
  shows "(st_main s = MIdle \<longrightarrow> (\<forall>j < n. if st_started s then in_loop (st_workers s j) else stopped (st_workers s j)))
    \<and> (\<forall>t. main_step n s t \<and> st_main t = MAbort \<longrightarrow> st_main s = MJoin 0 \<and> \<not> joinable s 0)"
proof -
  note inv = stack_reachable_inv [OF assms]
  have "st_main s = MJoin 0 \<and> \<not> joinable s 0" if "main_step n s t" "st_main t = MAbort" for t
    using that(1)
  proof cases
    case (join_fails i)
    have "joinable s i" if "st_threads s = current n i" "i < n" using that by (simp add: joinable_def)
    with join_fails inv show ?thesis by (auto simp: inv_defs doomed_def)
  qed (use that(2) inv in \<open>auto simp: inv_defs\<close>)
  with inv show ?thesis by (auto simp: inv_defs)
qed

text \<open>Runs with one worker, for examples.\<close>

definition one :: "bool \<Rightarrow> bool \<Rightarrow> tpc \<Rightarrow> bool \<Rightarrow> (nat \<times> bool) list \<Rightarrow> mpc \<Rightarrow> stack_state" where
  "one i d pc st ts m = \<lparr>st_workers = (\<lambda>_. worker_new)(0 := \<lparr>wk_init = i, wk_done = d, wk_pc = pc\<rparr>), st_started = st, st_threads = ts, st_main = m\<rparr>"

lemma one_main: "stack_reachable 1 (one i d pc st ts m) \<Longrightarrow> main_step 1 (one i d pc st ts m) t \<Longrightarrow> stack_reachable 1 t"
  by (erule stack_reachable.step [OF _ stack_step.main])

lemma one_thread:
  assumes "stack_reachable 1 (one i d pc st ts m)" "worker_step \<lparr>wk_init = i, wk_done = d, wk_pc = pc\<rparr> \<lparr>wk_init = i', wk_done = d', wk_pc = pc'\<rparr>" "m \<noteq> MAbort"
  shows "stack_reachable 1 (one i' d' pc' st ts m)"
proof -
  have "stack_step 1 (Thread 0) (one i d pc st ts m) (set_worker 0 \<lparr>wk_init = i', wk_done = d', wk_pc = pc'\<rparr> (one i d pc st ts m))"
    using assms(2,3) by (intro stack_step.thread) (simp_all add: one_def)
  from stack_reachable.step [OF assms(1) this] show ?thesis by (simp add: one_def set_worker_def)
qed

lemma one_starts:
  assumes "stack_reachable 1 (one False False pc False ts MIdle)"
  shows "stack_reachable 1 (one True False TLoop True (ts @ [(0, True)]) MIdle)"
proof -
  from assms have "stack_reachable 1 (one False False pc False ts (MSpawn 0))"
    by (rule one_main) (use main_step.start [of "one False False pc False ts MIdle" 1] in \<open>simp add: one_def\<close>)
  then have "stack_reachable 1 (one False False TSpawned False (ts @ [(0, True)]) (MSpawn 1))"
    by (rule one_main) (use main_step.spawn_worker [of "one False False pc False ts (MSpawn 0)" 0 1] in \<open>simp add: one_def set_worker_def\<close>)
  then have "stack_reachable 1 (one False False TSpawned True (ts @ [(0, True)]) (MWait 0))"
    by (rule one_main) (use main_step.started [of "one False False TSpawned False (ts @ [(0, True)]) (MSpawn 1)" 1] in \<open>simp add: one_def\<close>)
  then have "stack_reachable 1 (one True False TLoop True (ts @ [(0, True)]) (MWait 0))"
    by (rule one_thread) (use worker_step.init_done [of "\<lparr>wk_init = False, wk_done = False, wk_pc = TSpawned\<rparr>"] in simp_all)
  then have "stack_reachable 1 (one True False TLoop True (ts @ [(0, True)]) (MWait 1))"
    by (rule one_main) (use main_step.wait_for_init [of "one True False TLoop True (ts @ [(0, True)]) (MWait 0)" 0 1] in \<open>simp add: one_def\<close>)
  then show ?thesis
    by (rule one_main) (use main_step.start_returns [of "one True False TLoop True (ts @ [(0, True)]) (MWait 1)" 1] in \<open>simp add: one_def\<close>)
qed

lemma one_joins:
  assumes "stack_reachable 1 (one True False TLoop True ts MIdle)"
  shows "stack_reachable 1 (one True True TLoop True ts (MJoin 0))"
proof -
  from assms have "stack_reachable 1 (one True False TLoop True ts (MStop 0))"
    by (rule one_main) (use main_step.stop [of "one True False TLoop True ts MIdle" 1] in \<open>simp add: one_def\<close>)
  then show ?thesis
    by (rule one_main) (use main_step.wake [of "one True False TLoop True ts (MStop 0)" 0 1] in \<open>simp add: one_def set_worker_def\<close>)
qed

definition one_started :: stack_state where
  "one_started = one True False TLoop True [(0, True)] MIdle"

lemma one_started_reachable: "stack_reachable 1 one_started"
proof -
  have "stack_new = one False False TNone False [] MIdle" by (simp add: stack_new_def worker_new_def one_def fun_eq_iff)
  then show ?thesis using stack_reachable.new [of 1] one_starts [of TNone "[]"] by (simp add: one_started_def)
qed

definition one_joining :: stack_state where
  "one_joining = one True True TLoop True [(0, True)] (MJoin 0)"

lemma one_joining_reachable: "stack_reachable 1 one_joining"
  using one_joins one_started_reachable by (simp add: one_started_def one_joining_def)

lemma one_restarted: "stack_reachable 1 (one True True TLoop True [(0, False), (0, True)] (MJoin 0))"
proof -
  have "stack_reachable 1 (one True True TLoop True [(0, True)] (MJoin 0))" using one_joining_reachable by (simp add: one_joining_def)
  then have "stack_reachable 1 (one True True TReset True [(0, True)] (MJoin 0))"
    by (rule one_thread) (use worker_step.leave [of "\<lparr>wk_init = True, wk_done = True, wk_pc = TLoop\<rparr>"] in simp_all)
  then have "stack_reachable 1 (one False True TClear True [(0, True)] (MJoin 0))"
    by (rule one_thread) (use worker_step.reset_init [of "\<lparr>wk_init = True, wk_done = True, wk_pc = TReset\<rparr>"] in simp_all)
  then have "stack_reachable 1 (one False False TDestroy True [(0, True)] (MJoin 0))"
    by (rule one_thread) (use worker_step.reset_done [of "\<lparr>wk_init = False, wk_done = True, wk_pc = TClear\<rparr>"] in simp_all)
  then have "stack_reachable 1 (one False False TEnded True [(0, True)] (MJoin 0))"
    by (rule one_thread) (use worker_step.destroy [of "\<lparr>wk_init = False, wk_done = False, wk_pc = TDestroy\<rparr>"] in simp_all)
  then have "stack_reachable 1 (one False False TEnded True [(0, False)] (MStop 1))"
    by (rule one_main) (use main_step.join_worker [of "one False False TEnded True [(0, True)] (MJoin 0)" 0 1] in \<open>simp add: one_def joinable_def\<close>)
  then have "stack_reachable 1 (one False False TEnded False [(0, False)] MIdle)"
    by (rule one_main) (use main_step.stop_returns [of "one False False TEnded True [(0, False)] (MStop 1)" 1] in \<open>simp add: one_def\<close>)
  from one_joins [OF one_starts [OF this]] show ?thesis by simp
qed

theorem stack_lifecycle_witness:
  "in_loop (st_workers one_started 0) \<and> \<not> (\<exists>t. main_step 1 one_started t \<and> st_main t = MAbort)"
  using stack_lifecycle [OF one_started_reachable] by (auto simp: one_started_def one_def)

text \<open>A stack cannot be stopped a second time. The thread objects of a run stay in the vector when they are joined, so that
  after a restart \<open>stop\<close> looks for the thread of the first worker at the joined one of the first run: it has woken
  the worker, and the only thing it can do next is to abort.\<close>

theorem second_stop_aborts:
  assumes "stack_reachable n s" "st_main s = MJoin 0" "n < length (st_threads s)"
  shows "(\<exists>t. main_step n s t) \<and> (\<forall>t. main_step n s t \<longrightarrow> st_main t = MAbort)"
proof -
  have "0 < n"
  proof (rule ccontr)
    assume "\<not> 0 < n"
    have "st_main t \<noteq> MJoin i" if "stack_reachable 0 t" for t i
      using that by (induction rule: stack_reachable.induct) (auto simp: stack_new_def elim!: stack_stepE main_stepE)
    with assms \<open>\<not> 0 < n\<close> show False by auto
  qed
  have "\<not> joinable s 0"
    using stack_reachable_inv [OF assms(1) \<open>0 < n\<close>] assms(2,3) by (auto simp: inv_defs doomed_def)
  with assms(2) show ?thesis by (auto elim!: main_stepE intro: main_step.join_fails)
qed

theorem second_stop_aborts_witness:
  "(\<exists>t. main_step 1 (one True True TLoop True [(0, False), (0, True)] (MJoin 0)) t) \<and>
    (\<forall>t. main_step 1 (one True True TLoop True [(0, False), (0, True)] (MJoin 0)) t \<longrightarrow> st_main t = MAbort)"
  by (rule second_stop_aborts [OF one_restarted]) (simp_all add: one_def)

end
