(* ===== verification/NetworkStack.thy ===== *)
theory NetworkStack
  imports PerfCollection
begin

text \<open>
  Building a network stack: \<open>NetworkStack::create\<close> of \<open>src/src/network/Stack.cc\<close> with the constructors of the workers
  (\<open>Worker\<close> in \<open>src/src/network/Stack.h\<close>, \<open>RDMAWorker\<close> and \<open>RDMADispatcher\<close> in \<open>src/src/core/RDMAStack.cc\<close>), which set
  up the performance counters of \<open>PerfCounters\<close> and register them in the collection of \<open>PerfCollection\<close>, and
  \<open>NetworkStack::drain\<close> with its callback \<open>C_drain\<close>. New objects get the addresses \<open>alloc k\<close> in the order of their
  allocation.
\<close>

section \<open>The counters\<close>

definition l_msgr_first :: int where "l_msgr_first = 94000"
definition l_msgr_last :: int where "l_msgr_last = 94013"
definition l_msgr_rdma_dispatcher_first :: int where "l_msgr_rdma_dispatcher_first = 94000"
definition l_msgr_rdma_dispatcher_last :: int where "l_msgr_rdma_dispatcher_last = 94017"
definition l_msgr_rdma_first :: int where "l_msgr_rdma_first = 95000"
definition l_msgr_rdma_last :: int where "l_msgr_rdma_last = 95009"

definition UNIT_BYTES :: int where "UNIT_BYTES = 0"
definition UNIT_NONE :: int where "UNIT_NONE = 1"

text \<open>\<open>plb.add_u64_counter (idx, name, description)\<close> with the default arguments, and with the unit of bytes.\<close>

definition u64_counter :: "int \<Rightarrow> string \<Rightarrow> string \<Rightarrow> addition" where
  "u64_counter idx name description = AddU64Counter idx name (Some description) None 0 UNIT_NONE"

definition byte_counter :: "int \<Rightarrow> string \<Rightarrow> string \<Rightarrow> addition" where
  "byte_counter idx name description = AddU64Counter idx name (Some description) None 0 UNIT_BYTES"

definition worker_counters :: "addition list" where
  "worker_counters =
    [u64_counter 94001 ''msgr_recv_messages'' ''Network received messages'',
     u64_counter 94002 ''msgr_send_messages'' ''Network sent messages'',
     byte_counter 94003 ''msgr_recv_bytes'' ''Network received bytes'',
     byte_counter 94004 ''msgr_send_bytes'' ''Network sent bytes'',
     u64_counter 94006 ''msgr_active_connections'' ''Active connection number'',
     u64_counter 94005 ''msgr_created_connections'' ''Created connection number'',
     AddTime 94007 ''msgr_running_total_time'' (Some ''The total time of thread running'') None 0,
     AddTime 94008 ''msgr_running_send_time'' (Some ''The total time of message sending'') None 0,
     AddTime 94009 ''msgr_running_recv_time'' (Some ''The total time of message receiving'') None 0,
     AddTime 94010 ''msgr_running_fast_dispatch_time'' (Some ''The total time of fast dispatch'') None 0,
     AddTimeAvg 94011 ''msgr_send_messages_queue_lat'' (Some ''Network sent messages lat'') None 0,
     AddTimeAvg 94012 ''msgr_handle_ack_lat'' (Some ''Connection handle ack lat'') None 0]"

definition rdma_worker_counters :: "addition list" where
  "rdma_worker_counters =
    [u64_counter 95001 ''tx_no_mem'' ''The count of no tx buffer'',
     u64_counter 95002 ''tx_parital_mem'' ''The count of parital tx buffer'',
     u64_counter 95003 ''tx_failed_post'' ''The number of tx failed posted'',
     u64_counter 95004 ''tx_chunks'' ''The number of tx chunks transmitted'',
     byte_counter 95005 ''tx_bytes'' ''The bytes of tx chunks transmitted'',
     u64_counter 95006 ''rx_chunks'' ''The number of rx chunks transmitted'',
     byte_counter 95007 ''rx_bytes'' ''The bytes of rx chunks transmitted'',
     u64_counter 95008 ''pending_sent_conns'' ''The count of pending sent conns'']"

definition dispatcher_counters :: "addition list" where
  "dispatcher_counters =
    [u64_counter 94001 ''polling'' ''Whether dispatcher thread is polling'',
     u64_counter 94002 ''inflight_tx_chunks'' ''The number of inflight tx chunks'',
     u64_counter 94003 ''rx_bufs_in_use'' ''The number of rx buffers that are holding data and being processed'',
     u64_counter 94004 ''rx_bufs_total'' ''The total number of rx buffers'',
     u64_counter 94005 ''tx_total_wc'' ''The number of tx work comletions'',
     u64_counter 94006 ''tx_total_wc_errors'' ''The number of tx errors'',
     u64_counter 94007 ''tx_retry_errors'' ''The number of tx retry errors'',
     u64_counter 94008 ''tx_wr_flush_errors'' ''The number of tx work request flush errors'',
     u64_counter 94009 ''rx_total_wc'' ''The number of total rx work completion'',
     u64_counter 94010 ''rx_total_wc_errors'' ''The number of total rx error work completion'',
     u64_counter 94011 ''rx_fin'' ''The number of rx finish work request'',
     u64_counter 94013 ''total_async_events'' ''The number of async events'',
     u64_counter 94014 ''async_last_wqe_events'' ''The number of last wqe events'',
     u64_counter 94012 ''handshake_errors'' ''The number of handshake errors'',
     u64_counter 94015 ''created_queue_pair'' ''Active queue pair number'',
     u64_counter 94016 ''active_queue_pair'' ''Created queue pair number'']"

text \<open>Building an object of counters.\<close>

definition make_logger :: "string \<Rightarrow> int \<Rightarrow> int \<Rightarrow> addition list \<Rightarrow> perf_counters result" where
  "make_logger name first last' adds =
     rbind (builder_new name first last') (\<lambda>plb.
     rbind (build_all adds plb) (\<lambda>plb'.
     rbind (create_perf_counters plb') (\<lambda>(b, pc). Inr pc)))"

text \<open>\<open>sprintf\<close> into the array \<open>char name[128]\<close>.\<close>

definition worker_name :: "string \<Rightarrow> nat \<Rightarrow> string result" where
  "worker_name pre i = (let s = pre @ dec i in if length s + 1 \<le> 128 then Inr s else Inl BufferOverflow)"

definition worker_logger :: "nat \<Rightarrow> perf_counters result" where
  "worker_logger i = rbind (worker_name ''AsyncMessenger::Worker-'' i) (\<lambda>name. make_logger name l_msgr_first l_msgr_last worker_counters)"

definition rdma_worker_logger :: "nat \<Rightarrow> perf_counters result" where
  "rdma_worker_logger i =
     rbind (worker_name ''AsyncMessenger::RDMAWorker-'' i) (\<lambda>name. make_logger name l_msgr_rdma_first l_msgr_rdma_last rdma_worker_counters)"

definition dispatcher_logger :: "perf_counters result" where
  "dispatcher_logger =
     make_logger ''AsyncMessenger::RDMADispatcher'' l_msgr_rdma_dispatcher_first l_msgr_rdma_dispatcher_last dispatcher_counters"

section \<open>Creating the stack\<close>

text \<open>A new object is registered: \<open>context->get_perfcounters_collection()->add (perf_logger)\<close>.\<close>

definition register_logger :: "perf_counters result \<Rightarrow> ptr \<Rightarrow> collection \<Rightarrow> collection result option" where
  "register_logger r p c = (case r of Inl f \<Rightarrow> Some (Inl f) | Inr pc \<Rightarrow> coll_add (c\<lparr>c_heap := (c_heap c)(p \<mapsto> pc)\<rparr>) p)"

text \<open>\<open>create_worker\<close> of the posix stack and of the RDMA stack.\<close>

definition create_worker :: "bool \<Rightarrow> (nat \<Rightarrow> ptr) \<Rightarrow> nat \<Rightarrow> collection \<Rightarrow> collection result option" where
  "create_worker rdma alloc i c =
     (if rdma
      then obind (register_logger (worker_logger i) (alloc (2 * i + 1)) c) (register_logger (rdma_worker_logger i) (alloc (2 * i + 2)))
      else register_logger (worker_logger i) (alloc i) c)"

text \<open>The loop of \<open>create\<close>: \<open>init i\<close> is the result of \<open>center.init\<close> of worker \<open>i\<close>, and the workers so far come first.\<close>

function create_workers :: "bool \<Rightarrow> (nat \<Rightarrow> ptr) \<Rightarrow> (nat \<Rightarrow> int) \<Rightarrow> nat \<Rightarrow> nat \<Rightarrow> nat list \<Rightarrow> collection \<Rightarrow> (nat list \<times> collection) result option" where
  "create_workers rdma alloc init n i ws c =
     (if i < n then obind (create_worker rdma alloc i c) (\<lambda>c'.
        if init i \<noteq> 0 then Some (Inl UncaughtException) else create_workers rdma alloc init n (i + 1) (ws @ [i]) c')
      else Some (Inr (ws, c)))"
  by pat_completeness auto
termination by (relation "measure (\<lambda>(rdma, alloc, init, n, i, ws, c). n - i)") auto

declare create_workers.simps [simp del]

definition MAX_EVENTCENTER :: nat where "MAX_EVENTCENTER = 96"

definition stack_create :: "string \<Rightarrow> u16 \<Rightarrow> (nat \<Rightarrow> ptr) \<Rightarrow> (nat \<Rightarrow> int) \<Rightarrow> collection \<Rightarrow> (nat list \<times> collection) result option" where
  "stack_create t op_threads_num alloc init c =
     obind (if t = ''posix'' then Some (Inr c)
            else if t = ''rdma'' then register_logger dispatcher_logger (alloc 0) c
            else Some (Inl AbortCall))
       (\<lambda>c1. let num_workers = unat op_threads_num in
          if num_workers = 0 then Some (Inl KAssert)
          else create_workers (t = ''rdma'') alloc init (if num_workers \<ge> MAX_EVENTCENTER then MAX_EVENTCENTER else num_workers) 0 [] c1)"

section \<open>The counters are complete\<close>

lemma replicate_num: "replicate (numeral k) x = x # replicate (pred_numeral k) x"
  by (simp add: numeral_eq_Suc)

lemmas logger_eval = make_logger_def builder_new_def perf_counters_new_def u64_counter_def byte_counter_def UNIT_BYTES_def UNIT_NONE_def
  add_defs add_impl_def at_idx_def put_data_def perf_data_new_def perfcounter_defs create_perf_counters_def has_def replicate_num

definition names_of :: "perf_counters \<Rightarrow> string list" where
  "names_of pc = map (\<lambda>d. the (d_name d)) (pc_data pc)"

definition named :: "perf_counters \<Rightarrow> string \<Rightarrow> string list \<Rightarrow> bool" where
  "named pc name ns \<longleftrightarrow> pc_name pc = name \<and> (\<forall>d \<in> set (pc_data pc). d_name d \<noteq> None) \<and> names_of pc = ns"

definition worker_names :: "string list" where
  "worker_names = [''msgr_recv_messages'', ''msgr_send_messages'', ''msgr_recv_bytes'', ''msgr_send_bytes'', ''msgr_created_connections'',
     ''msgr_active_connections'', ''msgr_running_total_time'', ''msgr_running_send_time'', ''msgr_running_recv_time'',
     ''msgr_running_fast_dispatch_time'', ''msgr_send_messages_queue_lat'', ''msgr_handle_ack_lat'']"

definition rdma_worker_names :: "string list" where
  "rdma_worker_names = [''tx_no_mem'', ''tx_parital_mem'', ''tx_failed_post'', ''tx_chunks'', ''tx_bytes'', ''rx_chunks'', ''rx_bytes'', ''pending_sent_conns'']"

definition dispatcher_names :: "string list" where
  "dispatcher_names = [''polling'', ''inflight_tx_chunks'', ''rx_bufs_in_use'', ''rx_bufs_total'', ''tx_total_wc'', ''tx_total_wc_errors'',
     ''tx_retry_errors'', ''tx_wr_flush_errors'', ''rx_total_wc'', ''rx_total_wc_errors'', ''rx_fin'', ''handshake_errors'',
     ''total_async_events'', ''async_last_wqe_events'', ''created_queue_pair'', ''active_queue_pair'']"

lemma distinct_names: "distinct worker_names" "distinct rdma_worker_names" "distinct dispatcher_names"
  by (simp_all add: worker_names_def rdma_worker_names_def dispatcher_names_def)

lemma worker_counters_ok: "\<exists>pc. make_logger name 94000 94013 worker_counters = Inr pc \<and> named pc name worker_names"
  by (simp add: logger_eval worker_counters_def named_def names_of_def worker_names_def)

lemma rdma_worker_counters_ok: "\<exists>pc. make_logger name 95000 95009 rdma_worker_counters = Inr pc \<and> named pc name rdma_worker_names"
  by (simp add: logger_eval rdma_worker_counters_def named_def names_of_def rdma_worker_names_def)

lemma dispatcher_counters_ok: "\<exists>pc. make_logger name 94000 94017 dispatcher_counters = Inr pc \<and> named pc name dispatcher_names"
  by (simp add: logger_eval dispatcher_counters_def named_def names_of_def dispatcher_names_def)

lemma dec_short: "i < 100 \<Longrightarrow> length (dec i) \<le> 2"
  using div_less_mono [of i 100 10] by (subst dec.simps, subst dec.simps) (simp, linarith)

lemma logger_ok_results:
  assumes "i < 100"
  shows "\<exists>pc. worker_logger i = Inr pc \<and> named pc (''AsyncMessenger::Worker-'' @ dec i) worker_names"
    "\<exists>pc. rdma_worker_logger i = Inr pc \<and> named pc (''AsyncMessenger::RDMAWorker-'' @ dec i) rdma_worker_names"
    "\<exists>pc. dispatcher_logger = Inr pc \<and> named pc ''AsyncMessenger::RDMADispatcher'' dispatcher_names"
  using dec_short [OF assms] worker_counters_ok rdma_worker_counters_ok dispatcher_counters_ok
  by (simp_all add: worker_logger_def rdma_worker_logger_def dispatcher_logger_def worker_name_def l_msgr_first_def l_msgr_last_def
      l_msgr_rdma_first_def l_msgr_rdma_last_def l_msgr_rdma_dispatcher_first_def l_msgr_rdma_dispatcher_last_def)

section \<open>Registration\<close>

text \<open>What a collection holds: the objects in the order of their registration, each with its name and the names of
  its counters.\<close>

type_synonym entry = "ptr \<times> string \<times> string list"

definition registered :: "collection \<Rightarrow> entry list \<Rightarrow> bool" where
  "registered c es \<longleftrightarrow> coll_inv c \<and> c_loggers c = map fst es \<and> (\<forall>(p, name, ns) \<in> set es. \<exists>pc. c_heap c p = Some pc \<and> named pc name ns)"

lemma named_data: "c_heap c p = Some pc \<Longrightarrow> named pc name ns \<Longrightarrow> get_name c p = name \<and> length (logger_data c p) = length ns
    \<and> (\<forall>k < length ns. path_of c p (logger_data c p ! k) = name @ ''.'' @ ns ! k)"
  by (auto simp: get_name_def logger_data_def named_def names_of_def path_of_def)

lemma registered_path:
  assumes "registered c es" "(p, name, ns) \<in> set es" "k < length ns"
  shows "c_by_path c (name @ ''.'' @ ns ! k) = Some (p, k)"
proof -
  from assms(1,2) obtain pc where pc: "c_heap c p = Some pc" "named pc name ns" by (auto simp: registered_def)
  note nd = named_data [OF pc]
  have "p \<in> set (c_loggers c)" using assms(1,2) by (force simp: registered_def)
  with assms(1) nd have "c_by_path c (path_of c p (logger_data c p ! k)) = Some (p, k)"
    using assms(3) by (auto simp: registered_def coll_inv_def)
  with nd assms(3) show ?thesis by simp
qed

lemma coll_inv_heap:
  assumes "coll_inv c" "p \<notin> set (c_loggers c)"
  shows "coll_inv (c\<lparr>c_heap := (c_heap c)(p \<mapsto> pc)\<rparr>)"
proof -
  let ?c = "c\<lparr>c_heap := (c_heap c)(p \<mapsto> pc)\<rparr>"
  have eq: "get_name ?c l = get_name c l" "logger_data ?c l = logger_data c l" "path_of ?c l = path_of c l" "logger_ok ?c l = logger_ok c l"
    if "l \<in> set (c_loggers c)" for l
    using that assms(2) by (auto simp: get_name_def logger_data_def path_of_def logger_ok_def fun_eq_iff)
  from assms(1) show ?thesis
    unfolding coll_inv_def inj_on_def using eq by auto
qed

lemma register_step:
  assumes "registered c es" "p \<notin> fst ` set es" "name \<notin> (\<lambda>e. fst (snd e)) ` set es" "CHR ''.'' \<notin> set name"
    and "r = Inr pc" "named pc name ns" "distinct ns"
  shows "\<exists>c'. register_logger r p c = Some (Inr c') \<and> registered c' (es @ [(p, name, ns)])"
proof -
  let ?c = "c\<lparr>c_heap := (c_heap c)(p \<mapsto> pc)\<rparr>"
  have p: "p \<notin> set (c_loggers c)" using assms(1,2) by (auto simp: registered_def)
  have inv: "coll_inv ?c" using assms(1) by (intro coll_inv_heap p) (simp add: registered_def)
  have heap: "c_heap ?c p = Some pc" by simp
  note nd = named_data [OF heap assms(6)]
  have "distinct (map d_name (pc_data pc))"
    using assms(6,7) distinct_map [of the "map d_name (pc_data pc)"] by (auto simp: named_def names_of_def comp_def)
  then have ok: "logger_ok ?c p" using nd assms(4,6) by (simp add: logger_ok_def logger_data_def named_def)
  have "get_name ?c p \<notin> get_name ?c ` set (c_loggers ?c)"
  proof
    assume "get_name ?c p \<in> get_name ?c ` set (c_loggers ?c)"
    then obtain e where e: "e \<in> set es" "name = get_name ?c (fst e)" using assms(1) nd by (auto simp: registered_def)
    then obtain qc where "c_heap c (fst e) = Some qc" "named qc (fst (snd e)) (snd (snd e))"
      using assms(1) by (cases e) (auto simp: registered_def)
    moreover have "fst e \<noteq> p" using e(1) assms(2) by auto
    ultimately have "name = fst (snd e)" using e(2) by (simp add: get_name_def named_def)
    with e(1) assms(3) show False by blast
  qed
  from coll_add_inv [OF inv _ ok this] p obtain m where
    "coll_add ?c p = Some (Inr (?c\<lparr>c_loggers := c_loggers c @ [p], c_by_path := m\<rparr>))" "coll_inv (?c\<lparr>c_loggers := c_loggers c @ [p], c_by_path := m\<rparr>)"
    by auto
  moreover have "registered (?c\<lparr>c_loggers := c_loggers c @ [p], c_by_path := m\<rparr>) (es @ [(p, name, ns)])"
  proof -
    have "\<exists>qc. c_heap c q = Some qc \<and> named qc nm xs" "q \<noteq> p" if "(q, nm, xs) \<in> set es" for q nm xs
      using that assms(1,2) by (force simp: registered_def)+
    moreover have "c_loggers c = map fst es" using assms(1) by (simp add: registered_def)
    ultimately show ?thesis using \<open>coll_inv (?c\<lparr>c_loggers := _, c_by_path := m\<rparr>)\<close> assms(6) by (auto simp: registered_def)
  qed
  ultimately show ?thesis using assms(5) by (simp add: register_logger_def)
qed

section \<open>The stack\<close>

definition worker_entries :: "bool \<Rightarrow> (nat \<Rightarrow> ptr) \<Rightarrow> nat \<Rightarrow> entry list" where
  "worker_entries rdma alloc i =
     (if rdma
      then [(alloc (2 * i + 1), ''AsyncMessenger::Worker-'' @ dec i, worker_names),
            (alloc (2 * i + 2), ''AsyncMessenger::RDMAWorker-'' @ dec i, rdma_worker_names)]
      else [(alloc i, ''AsyncMessenger::Worker-'' @ dec i, worker_names)])"

definition stack_entries :: "bool \<Rightarrow> (nat \<Rightarrow> ptr) \<Rightarrow> nat \<Rightarrow> entry list" where
  "stack_entries rdma alloc n =
     (if rdma then [(alloc 0, ''AsyncMessenger::RDMADispatcher'', dispatcher_names)] else []) @ concat (map (worker_entries rdma alloc) [0 ..< n])"

lemma dec_no_dot: "CHR ''.'' \<notin> set (dec i)"
  using dec_isdigit [of i] by (auto simp: isdigit_def)

lemma entries_fresh:
  assumes "inj alloc"
  shows "alloc (2 * i + 1) \<notin> fst ` set (stack_entries True alloc i)" "alloc (2 * i + 2) \<notin> fst ` set (stack_entries True alloc i)"
    "alloc i \<notin> fst ` set (stack_entries False alloc i)"
    "''AsyncMessenger::Worker-'' @ dec i \<notin> (\<lambda>e. fst (snd e)) ` set (stack_entries r alloc i)"
    "''AsyncMessenger::RDMAWorker-'' @ dec i \<notin> (\<lambda>e. fst (snd e)) ` set (stack_entries r alloc i)"
  using assms by (auto simp: stack_entries_def worker_entries_def inj_eq split: if_splits) presburger+

lemma create_worker_registers:
  assumes "inj alloc" "i < 100" "registered c (stack_entries rdma alloc i)"
  shows "\<exists>c'. create_worker rdma alloc i c = Some (Inr c') \<and> registered c' (stack_entries rdma alloc (Suc i))"
proof -
  let ?W = "''AsyncMessenger::Worker-'' @ dec i" and ?R = "''AsyncMessenger::RDMAWorker-'' @ dec i"
  note fresh = entries_fresh [OF assms(1), of i] and res = logger_ok_results [OF assms(2)]
  have dots: "CHR ''.'' \<notin> set ?W" "CHR ''.'' \<notin> set ?R" using dec_no_dot by simp_all
  have next_entries: "stack_entries r alloc (Suc i) = stack_entries r alloc i @ worker_entries r alloc i" for r by (simp add: stack_entries_def)
  from res obtain pc rc where pc: "worker_logger i = Inr pc" "named pc ?W worker_names" and rc: "rdma_worker_logger i = Inr rc" "named rc ?R rdma_worker_names" by blast
  show ?thesis
  proof (cases rdma)
    case True
    from register_step [OF assms(3), of "alloc (2 * i + 1)" ?W, OF _ fresh(4) dots(1) pc(1,2) distinct_names(1)] fresh(1) True obtain c1
      where c1: "register_logger (worker_logger i) (alloc (2 * i + 1)) c = Some (Inr c1)"
        "registered c1 (stack_entries rdma alloc i @ [(alloc (2 * i + 1), ?W, worker_names)])" by auto
    have "alloc (2 * i + 2) \<noteq> alloc (2 * i + 1)" using assms(1) by (simp add: inj_eq)
    then have "\<exists>c2. register_logger (rdma_worker_logger i) (alloc (2 * i + 2)) c1 = Some (Inr c2) \<and>
      registered c2 ((stack_entries rdma alloc i @ [(alloc (2 * i + 1), ?W, worker_names)]) @ [(alloc (2 * i + 2), ?R, rdma_worker_names)])"
      using fresh(2) fresh(5) [of rdma] True by (intro register_step [OF c1(2) _ _ dots(2) rc distinct_names(2)]) auto
    with c1(1) True show ?thesis by (auto simp: create_worker_def next_entries worker_entries_def)
  next
    case False
    with register_step [OF assms(3), of "alloc i" ?W, OF _ fresh(4) dots(1) pc(1,2) distinct_names(1)] fresh(3) show ?thesis
      by (auto simp: create_worker_def next_entries worker_entries_def)
  qed
qed

lemma create_workers_registers:
  assumes "inj alloc" "n \<le> 100" "i \<le> n" "\<forall>j < n. init j = 0" "registered c (stack_entries rdma alloc i)"
  shows "\<exists>c'. create_workers rdma alloc init n i [0 ..< i] c = Some (Inr ([0 ..< n], c')) \<and> registered c' (stack_entries rdma alloc n)"
  using assms(3,5)
proof (induction "n - i" arbitrary: i c)
  case 0
  then show ?case by (simp add: create_workers.simps)
next
  case (Suc d)
  then have "i < n" "i < 100" using assms(2) by simp_all
  from create_worker_registers [OF assms(1) this(2) Suc.prems(2)] obtain c'
    where c': "create_worker rdma alloc i c = Some (Inr c')" "registered c' (stack_entries rdma alloc (Suc i))" by blast
  have "create_workers rdma alloc init n i [0 ..< i] c = create_workers rdma alloc init n (Suc i) [0 ..< Suc i] c'"
    using c'(1) \<open>i < n\<close> assms(4) by (subst create_workers.simps) simp
  with Suc.hyps(1) [OF _ _ c'(2)] Suc.hyps(2) \<open>i < n\<close> show ?case by simp
qed

lemma stack_create_registers:
  assumes "t = ''posix'' \<or> t = ''rdma''" "op_threads_num \<noteq> 0" "inj alloc" "\<forall>j < 96. init j = 0"
    and "c_loggers c = []" "c_by_path c = Map.empty"
  shows "\<exists>c'. stack_create t op_threads_num alloc init c = Some (Inr ([0 ..< min (unat op_threads_num) 96], c'))
    \<and> registered c' (stack_entries (t = ''rdma'') alloc (min (unat op_threads_num) 96))"
proof -
  let ?rdma = "t = ''rdma''" and ?n = "min (unat op_threads_num) 96"
  have "registered c []" using assms(5,6) by (simp add: registered_def coll_inv_def)
  moreover obtain pc where "dispatcher_logger = Inr pc" "named pc ''AsyncMessenger::RDMADispatcher'' dispatcher_names"
    using logger_ok_results(3) [of 0] by auto
  ultimately have "\<exists>c1. register_logger dispatcher_logger (alloc 0) c = Some (Inr c1) \<and> registered c1 (stack_entries True alloc 0)"
    using register_step [of c "[]" "alloc 0" "''AsyncMessenger::RDMADispatcher''" dispatcher_logger pc dispatcher_names]
    by (simp add: stack_entries_def distinct_names)
  then obtain c1 where c1: "register_logger dispatcher_logger (alloc 0) c = Some (Inr c1)" "registered c1 (stack_entries True alloc 0)" by blast
  let ?c1 = "if ?rdma then c1 else c"
  have reg: "registered ?c1 (stack_entries ?rdma alloc 0)"
    using c1(2) \<open>registered c []\<close> by (simp add: stack_entries_def)
  have "\<forall>j < ?n. init j = 0" using assms(4) by simp
  moreover have "?n \<le> 100" by (simp add: min_le_iff_disj)
  ultimately have "\<exists>c'. create_workers ?rdma alloc init ?n 0 [0 ..< 0] ?c1 = Some (Inr ([0 ..< ?n], c')) \<and> registered c' (stack_entries ?rdma alloc ?n)"
    by (intro create_workers_registers [OF assms(3) _ _ _ reg]) simp_all
  then obtain c'
    where c': "create_workers ?rdma alloc init ?n 0 [] ?c1 = Some (Inr ([0 ..< ?n], c'))" "registered c' (stack_entries ?rdma alloc ?n)"
    by auto
  have num: "(if unat op_threads_num \<ge> MAX_EVENTCENTER then MAX_EVENTCENTER else unat op_threads_num) = ?n"
    by (simp add: MAX_EVENTCENTER_def min_def)
  have "unat op_threads_num \<noteq> 0" using assms(2) by (simp add: unat_eq_0)
  then have "stack_create t op_threads_num alloc init c = Some (Inr ([0 ..< ?n], c'))"
    using assms(1) c1(1) c'(1) num by (auto simp: stack_create_def)
  with c'(2) show ?thesis by blast
qed

text \<open>Creating a stack succeeds for the two transports it knows and any positive number of threads, if the event centres
  do: it has one worker per thread, at most 96. Every constructor finds each of its counters added exactly
  once, the names of the objects are distinct and fit their arrays, and afterwards every counter of every worker, and
  of the dispatcher for RDMA, is found in the collection under its path.\<close>

theorem stack_create_indexed:
  assumes "t = ''posix'' \<or> t = ''rdma''" "op_threads_num \<noteq> 0" "inj alloc" "\<forall>j < 96. init j = 0"
    and "c_loggers c = []" "c_by_path c = Map.empty"
  shows "\<exists>c'. stack_create t op_threads_num alloc init c = Some (Inr ([0 ..< min (unat op_threads_num) 96], c')) \<and> coll_inv c' \<and>
    (\<forall>(p, name, ns) \<in> set (stack_entries (t = ''rdma'') alloc (min (unat op_threads_num) 96)).
      \<forall>k < length ns. c_by_path c' (name @ ''.'' @ ns ! k) = Some (p, k))"
proof -
  obtain c' where c': "stack_create t op_threads_num alloc init c = Some (Inr ([0 ..< min (unat op_threads_num) 96], c'))"
    "registered c' (stack_entries (t = ''rdma'') alloc (min (unat op_threads_num) 96))" using stack_create_registers [OF assms] by blast
  moreover have "coll_inv c'" using c'(2) by (simp add: registered_def)
  ultimately show ?thesis using registered_path [OF c'(2)] by blast
qed

theorem stack_create_indexed_witness:
  "\<exists>c'. stack_create ''rdma'' 200 id (\<lambda>_. 0) (collection_new Map.empty) = Some (Inr ([0 ..< min (unat (200 :: u16)) 96], c')) \<and> coll_inv c' \<and>
    (\<forall>(p, name, ns) \<in> set (stack_entries (''rdma'' = ''rdma'') id (min (unat (200 :: u16)) 96)).
      \<forall>k < length ns. c_by_path c' (name @ ''.'' @ ns ! k) = Some (p, k))"
  by (rule stack_create_indexed) (simp_all add: collection_new_def)

section \<open>Draining\<close>

text \<open>\<open>drain\<close> dispatches one callback to every worker and waits until each has run it. The external events of a
  worker are a queue, to which anyone may add other callbacks at any time; the worker runs them in order. The
  state has the queues, what each worker has run, the counter of \<open>C_drain\<close> and where \<open>drain\<close> is. \<open>own i\<close> is that the
  caller is the thread of worker \<open>i\<close>, which \<open>drain\<close> asserts not to be the case.\<close>

datatype dpc = DDispatch nat | DAborted nat | DWait | DReturned

record drain_state =
  dr_queue :: "nat \<Rightarrow> ptr list"
  dr_ran :: "nat \<Rightarrow> ptr list"
  drain_count :: u32
  dr_pc :: dpc

definition drain_start :: "nat \<Rightarrow> (nat \<Rightarrow> ptr list) \<Rightarrow> drain_state" where
  "drain_start n queues = \<lparr>dr_queue = queues, dr_ran = \<lambda>_. [], drain_count = of_nat n, dr_pc = DDispatch 0\<rparr>"

inductive drain_step :: "(nat \<Rightarrow> bool) \<Rightarrow> nat \<Rightarrow> ptr \<Rightarrow> drain_state \<Rightarrow> drain_state \<Rightarrow> bool" for own n d where
  dispatch: "dr_pc s = DDispatch i \<Longrightarrow> i < n \<Longrightarrow> \<not> own i \<Longrightarrow>
    drain_step own n d s (s\<lparr>dr_queue := (dr_queue s)(i := dr_queue s i @ [d]), dr_pc := DDispatch (Suc i)\<rparr>)"
| assert_fails: "dr_pc s = DDispatch i \<Longrightarrow> i < n \<Longrightarrow> own i \<Longrightarrow> drain_step own n d s (s\<lparr>dr_pc := DAborted i\<rparr>)"
| wait: "dr_pc s = DDispatch n \<Longrightarrow> drain_step own n d s (s\<lparr>dr_pc := DWait\<rparr>)"
| return: "dr_pc s = DWait \<Longrightarrow> drain_count s = 0 \<Longrightarrow> drain_step own n d s (s\<lparr>dr_pc := DReturned\<rparr>)"
| do_request: "i < n \<Longrightarrow> dr_queue s i = cb # cbs \<Longrightarrow>
    drain_step own n d s (s\<lparr>dr_queue := (dr_queue s)(i := cbs), dr_ran := (dr_ran s)(i := dr_ran s i @ [cb]),
      drain_count := (if cb = d then drain_count s - 1 else drain_count s)\<rparr>)"
| other: "i < n \<Longrightarrow> cb \<noteq> d \<Longrightarrow> drain_step own n d s (s\<lparr>dr_queue := (dr_queue s)(i := dr_queue s i @ [cb])\<rparr>)"

inductive drain_reachable :: "(nat \<Rightarrow> bool) \<Rightarrow> nat \<Rightarrow> ptr \<Rightarrow> (nat \<Rightarrow> ptr list) \<Rightarrow> drain_state \<Rightarrow> bool" for own n d q where
  new: "drain_reachable own n d q (drain_start n q)"
| step: "drain_reachable own n d q s \<Longrightarrow> drain_step own n d s t \<Longrightarrow> drain_reachable own n d q t"

definition dispatched :: "dpc \<Rightarrow> nat \<Rightarrow> bool" where
  "dispatched pc i \<longleftrightarrow> (case pc of DDispatch k \<Rightarrow> i < k | DAborted k \<Rightarrow> i < k | _ \<Rightarrow> True)"

text \<open>The events of a worker so far: those queued before \<open>drain\<close>, and once the callback was dispatched, it, after others.\<close>

definition history_ok :: "ptr \<Rightarrow> ptr list \<Rightarrow> bool \<Rightarrow> ptr list \<Rightarrow> bool" where
  "history_ok d q disp h \<longleftrightarrow> (\<exists>xs. d \<notin> set xs \<and> (if disp then \<exists>ys. d \<notin> set ys \<and> h = q @ xs @ d # ys else h = q @ xs))"

definition not_yet :: "nat \<Rightarrow> ptr \<Rightarrow> drain_state \<Rightarrow> nat set" where
  "not_yet n d s = {i. i < n \<and> d \<notin> set (dr_ran s i)}"

definition drain_inv :: "nat \<Rightarrow> ptr \<Rightarrow> (nat \<Rightarrow> ptr list) \<Rightarrow> drain_state \<Rightarrow> bool" where
  "drain_inv n d q s \<longleftrightarrow> drain_count s = of_nat (card (not_yet n d s)) \<and> (dr_pc s = DReturned \<longrightarrow> not_yet n d s = {})
     \<and> (\<forall>i < n. history_ok d (q i) (dispatched (dr_pc s) i) (dr_ran s i @ dr_queue s i))"

lemma history_extend: "history_ok d q disp h \<Longrightarrow> cb \<noteq> d \<Longrightarrow> history_ok d q disp (h @ [cb])"
  by (auto simp: history_ok_def split: if_splits)

lemma history_dispatch: "history_ok d q False h \<Longrightarrow> history_ok d q True (h @ [d])"
  by (fastforce simp: history_ok_def)

lemma history_once:
  assumes "history_ok d q disp (done_before @ d # rest)" "d \<notin> set q"
  shows "d \<notin> set done_before"
proof
  assume "d \<in> set done_before"
  then obtain as bs where ab: "done_before = as @ d # bs" "d \<notin> set as" by (auto dest: split_list_first)
  from assms obtain xs ys where "d \<notin> set xs" "d \<notin> set ys" "as @ d # (bs @ d # rest) = (q @ xs) @ d # ys"
    by (auto simp: history_ok_def ab(1) split: if_splits) (metis in_set_conv_decomp Un_iff set_append)
  with split_at_first [OF this(3) ab(2)] assms(2) have "bs @ d # rest = ys" by simp
  with \<open>d \<notin> set ys\<close> show False by auto
qed

lemma card_zero_word:
  assumes "(of_nat (card (not_yet n d s)) :: u32) = 0" "n < 2 ^ 32"
  shows "not_yet n d s = {}"
proof -
  have "not_yet n d s \<subseteq> {..< n}" by (auto simp: not_yet_def)
  then have fin: "finite (not_yet n d s)" and "card (not_yet n d s) \<le> n"
    using card_mono [of "{..< n}"] by (auto intro: finite_subset)
  then have "card (not_yet n d s) < 2 ^ 32" using assms(2) by simp
  then have "card (not_yet n d s) = unat (of_nat (card (not_yet n d s)) :: u32)"
    by (simp add: unat_of_nat take_bit_nat_eq_self)
  with assms(1) fin show ?thesis by simp
qed

lemma drain_inv_step:
  assumes "drain_step own n d s t" "drain_inv n d q s" "\<forall>i < n. d \<notin> set (q i)" "n < 2 ^ 32"
  shows "drain_inv n d q t"
  using assms(1)
proof cases
  case (dispatch i)
  have "history_ok d (q j) (j < Suc i) (dr_ran s j @ (if j = i then dr_queue s i @ [d] else dr_queue s j))" if "j < n" for j
  proof (cases "j = i")
    case True
    then have "history_ok d (q i) False (dr_ran s i @ dr_queue s i)" using dispatch assms(2) by (auto simp: drain_inv_def dispatched_def)
    from history_dispatch [OF this] True show ?thesis by simp
  next
    case False
    then have "j < Suc i \<longleftrightarrow> j < i" by auto
    with False show ?thesis using dispatch assms(2) that by (auto simp: drain_inv_def dispatched_def)
  qed
  then show ?thesis using dispatch assms(2) by (auto simp: drain_inv_def dispatched_def not_yet_def)
next
  case (assert_fails i)
  then show ?thesis using assms(2) by (auto simp: drain_inv_def dispatched_def not_yet_def)
next
  case wait
  then show ?thesis using assms(2) by (auto simp: drain_inv_def dispatched_def not_yet_def)
next
  case return
  then have "not_yet n d s = {}" using assms(2,4) card_zero_word [of n d s] by (simp add: drain_inv_def)
  with return show ?thesis using assms(2) by (auto simp: drain_inv_def dispatched_def not_yet_def)
next
  case (do_request i cb cbs)
  have h: "history_ok d (q i) (dispatched (dr_pc s) i) (dr_ran s i @ cb # cbs)"
    using do_request assms(2) by (auto simp: drain_inv_def)
  have fin: "finite (not_yet n d s)" by (rule finite_subset [of _ "{..< n}"]) (auto simp: not_yet_def)
  have count: "drain_count t = of_nat (card (not_yet n d t))"
  proof (cases "cb = d")
    case True
    then have "i \<in> not_yet n d s" using history_once h do_request assms(3) by (auto simp: not_yet_def)
    moreover have "not_yet n d t = not_yet n d s - {i}" using True do_request by (auto simp: not_yet_def split: if_splits)
    moreover have "(of_nat (m - 1) :: u32) = of_nat m - 1" if "0 < m" for m using that by (cases m) simp_all
    ultimately show ?thesis using True do_request assms(2) fin card_gt_0_iff [of "not_yet n d s"]
      by (auto simp: drain_inv_def card_Diff_singleton)
  next
    case False
    then have "not_yet n d t = not_yet n d s" using do_request by (auto simp: not_yet_def split: if_splits)
    then show ?thesis using False do_request assms(2) by (simp add: drain_inv_def)
  qed
  moreover have "not_yet n d t \<subseteq> not_yet n d s" using do_request by (auto simp: not_yet_def split: if_splits)
  ultimately show ?thesis using do_request h assms(2) by (auto simp: drain_inv_def dispatched_def)
next
  case (other i cb)
  then show ?thesis using assms(2) history_extend [of d "q i" _ "dr_ran s i @ dr_queue s i" cb]
    by (auto simp: drain_inv_def not_yet_def)
qed

lemma drain_reachable_inv:
  "drain_reachable own n d q s \<Longrightarrow> \<forall>i < n. d \<notin> set (q i) \<Longrightarrow> n < 2 ^ 32 \<Longrightarrow> drain_inv n d q s"
proof (induction rule: drain_reachable.induct)
  case new
  have "not_yet n d (drain_start n q) = {..< n}" by (auto simp: not_yet_def drain_start_def)
  then show ?case by (auto simp: drain_inv_def drain_start_def dispatched_def history_ok_def)
qed (blast intro: drain_inv_step)

lemma drain_reachable_own: "drain_reachable own n d q s \<Longrightarrow> \<forall>i < n. dispatched (dr_pc s) i \<longrightarrow> \<not> own i"
proof (induction rule: drain_reachable.induct)
  case new
  show ?case by (simp add: drain_start_def dispatched_def)
next
  case (step s t)
  from step.hyps(2) show ?case using step.IH by cases (auto simp: dispatched_def less_Suc_eq)
qed

text \<open>C15: When \<open>drain\<close> returns, every worker has run all the external events that were queued before the call, and the
  callback of \<open>drain\<close> after them, in every interleaving with other callers and whatever is queued meanwhile. And it is not
  stuck: while it waits, either the counter is zero and it returns, or the callback is in the queue of some worker. It gets to wait only when the caller is not the
  thread of a worker; otherwise its assertion fails.\<close>

theorem drain_flushes:
  assumes "drain_reachable own n d q s" "\<forall>i < n. d \<notin> set (q i)" "n < 2 ^ 32"
  shows "(dr_pc s = DReturned \<longrightarrow> (\<forall>i < n. \<exists>xs ys. dr_ran s i = q i @ xs @ d # ys))
    \<and> (dr_pc s = DWait \<longrightarrow> (if drain_count s = 0 then drain_step own n d s (s\<lparr>dr_pc := DReturned\<rparr>) else \<exists>i < n. d \<in> set (dr_queue s i)))
    \<and> (dr_pc s = DWait \<or> dr_pc s = DReturned \<longrightarrow> (\<forall>i < n. \<not> own i))"
proof -
  note inv = drain_reachable_inv [OF assms]
  have ran: "\<exists>xs ys. dr_ran s i = q i @ xs @ d # ys" if "dr_pc s = DReturned" "i < n" for i
  proof -
    from inv that have h: "history_ok d (q i) True (dr_ran s i @ dr_queue s i)" and d: "d \<in> set (dr_ran s i)"
      by (auto simp: drain_inv_def dispatched_def not_yet_def)
    from h obtain xs ys where xy: "d \<notin> set xs" "dr_ran s i @ dr_queue s i = (q i @ xs) @ d # ys" by (auto simp: history_ok_def)
    from d obtain as bs where "dr_ran s i = as @ d # bs" "d \<notin> set as" by (auto dest: split_list_first)
    with xy assms(2) that(2) have "as = q i @ xs"
      using split_at_first [of as d "bs @ dr_queue s i" "q i @ xs" ys] by simp
    then show ?thesis using \<open>dr_ran s i = as @ d # bs\<close> by auto
  qed
  have "\<exists>i < n. d \<in> set (dr_queue s i)" if "dr_pc s = DWait" "drain_count s \<noteq> 0"
  proof -
    have "not_yet n d s \<noteq> {}" using inv that(2) by (auto simp: drain_inv_def)
    then obtain i where i: "i < n" "d \<notin> set (dr_ran s i)" by (auto simp: not_yet_def)
    with inv that(1) have "history_ok d (q i) True (dr_ran s i @ dr_queue s i)" by (auto simp: drain_inv_def dispatched_def)
    moreover have "history_ok d p True h \<Longrightarrow> d \<in> set h" for p h by (auto simp: history_ok_def)
    ultimately have "d \<in> set (dr_ran s i @ dr_queue s i)" by blast
    with i show ?thesis by auto
  qed
  moreover have "\<forall>i < n. \<not> own i" if "dr_pc s = DWait \<or> dr_pc s = DReturned"
    using drain_reachable_own [OF assms(1)] that by (auto simp: dispatched_def)
  ultimately show ?thesis using ran by (auto intro: drain_step.return)
qed

definition drained :: drain_state where
  "drained = \<lparr>dr_queue = \<lambda>_. [], dr_ran = (\<lambda>_. [])(0 := [5, 9]), drain_count = 0, dr_pc = DReturned\<rparr>"

lemma drained_reachable: "drain_reachable (\<lambda>_. False) 1 9 ((\<lambda>_. [])(0 := [5])) drained"
proof -
  let ?q = "(\<lambda>_. [])(0 := [5])"
  let ?s = "\<lambda>u r c pc. \<lparr>dr_queue = (\<lambda>_. [])(0 := u), dr_ran = (\<lambda>_. [])(0 := r), drain_count = c, dr_pc = pc\<rparr>"
  note step = drain_reachable.step
  have "(\<lambda>_. []) = (\<lambda>_. [])(0 := [])" for x :: nat by auto
  then have "drain_start 1 ?q = ?s [5] [] 1 (DDispatch 0)" by (simp add: drain_start_def fun_eq_iff)
  then have "drain_reachable (\<lambda>_. False) 1 9 ?q (?s [5] [] 1 (DDispatch 0))" using drain_reachable.new [of "\<lambda>_. False" 1 9 ?q] by metis
  then have "drain_reachable (\<lambda>_. False) 1 9 ?q (?s [5, 9] [] 1 (DDispatch 1))"
    by (rule step) (use drain_step.dispatch [of "?s [5] [] 1 (DDispatch 0)" 0 1 "\<lambda>_. False" 9] in simp)
  then have "drain_reachable (\<lambda>_. False) 1 9 ?q (?s [9] [5] 1 (DDispatch 1))"
    by (rule step) (use drain_step.do_request [of 0 1 "?s [5, 9] [] 1 (DDispatch 1)" 5 "[9]" "\<lambda>_. False" 9] in simp)
  then have "drain_reachable (\<lambda>_. False) 1 9 ?q (?s [9] [5] 1 DWait)"
    by (rule step) (use drain_step.wait [of "?s [9] [5] 1 (DDispatch 1)" 1 "\<lambda>_. False" 9] in simp)
  then have "drain_reachable (\<lambda>_. False) 1 9 ?q (?s [] [5, 9] 0 DWait)"
    by (rule step) (use drain_step.do_request [of 0 1 "?s [9] [5] 1 DWait" 9 "[]" "\<lambda>_. False" 9] in simp)
  then have "drain_reachable (\<lambda>_. False) 1 9 ?q (?s [] [5, 9] 0 DReturned)"
    by (rule step) (use drain_step.return [of "?s [] [5, 9] 0 DWait" "\<lambda>_. False" 1 9] in simp)
  moreover have "?s [] [5, 9] 0 DReturned = drained" by (simp add: drained_def fun_eq_iff)
  ultimately show ?thesis by metis
qed

theorem drain_flushes_witness: "dr_pc drained = DReturned \<and> (\<exists>xs ys. dr_ran drained 0 = [5] @ xs @ 9 # ys)"
proof -
  have "dr_pc drained = DReturned" by (simp add: drained_def)
  with drain_flushes [OF drained_reachable] show ?thesis by simp
qed

end
