(* ===== verification/Statistic.thy ===== *)
theory Statistic
  imports OStream
begin

text \<open>
  The loggers of \<open>src/src/common/statistic.h\<close>: \<open>Logger\<close> with its output file, the numeric and averaging terms, and the
  records of time stamps (\<open>TimeRecords\<close>) that the dispatcher fills through \<open>LockedOriginalLoggerTerm\<close>. Values are
  64-bit. The order in which an \<open>unordered_map\<close> is traversed is the argument \<open>iter\<close>, and printing the quotient of
  two numbers as a \<open>double\<close> is the argument \<open>show_quot\<close>.
\<close>

section \<open>The logger\<close>

text \<open>The name, the file the stream has open, and the contents of the files. Output to a stream that is not open is lost.\<close>

record logger =
  lg_name :: string
  lg_stream :: "string option"
  lg_files :: "string \<Rightarrow> string"

definition logger_new :: "(string \<Rightarrow> string) \<Rightarrow> logger" where
  "logger_new files = \<lparr>lg_name = [], lg_stream = None, lg_files = files\<rparr>"

definition AssureOpen :: "logger \<Rightarrow> logger" where
  "AssureOpen lg =
     (if lg_stream lg \<noteq> None then lg
      else lg\<lparr>lg_stream := Some (lg_name lg), lg_files := (lg_files lg)(lg_name lg := [])\<rparr>)"

definition SetLoggerName :: "string \<Rightarrow> logger \<Rightarrow> logger" where
  "SetLoggerName name lg =
     (let lg1 = lg\<lparr>lg_name := name\<rparr>;
          lg2 = (if lg_stream lg1 \<noteq> None then lg1\<lparr>lg_stream := None\<rparr> else lg1)
      in AssureOpen lg2)"

definition put_log :: "string \<Rightarrow> logger \<Rightarrow> logger" where
  "put_log s lg = (case lg_stream lg of None \<Rightarrow> lg | Some f \<Rightarrow> lg\<lparr>lg_files := (lg_files lg)(f := lg_files lg f @ s)\<rparr>)"

definition NL :: char where "NL = CHR 0x0A"
definition TAB :: char where "TAB = CHR 0x09"

section \<open>Numeric terms\<close>

record numeric_term =
  nt_name :: string
  nt_sum :: u64

text \<open>\<open>NumericLoggerTerm\<close>: \<open>should_flush\<close> is false.\<close>

definition numeric_should_flush :: "numeric_term \<Rightarrow> bool" where
  "numeric_should_flush t = False"

definition numeric_flush :: "numeric_term \<Rightarrow> logger \<Rightarrow> logger" where
  "numeric_flush t lg = put_log [NL] (put_log (nt_name t @ [TAB] @ dec (unat (nt_sum t)) @ [NL]) lg)"

definition numeric_add :: "u64 \<Rightarrow> numeric_term \<times> logger \<Rightarrow> numeric_term \<times> logger" where
  "numeric_add v s =
     (let t1 = (fst s)\<lparr>nt_sum := nt_sum (fst s) + v\<rparr>;
          lg1 = (if numeric_should_flush t1 then numeric_flush t1 (snd s) else snd s)
      in (t1\<lparr>nt_sum := 0\<rparr>, lg1))"

text \<open>\<open>AverageLoggerTerm\<close>.\<close>

record average_term =
  av_name :: string
  m_record_frequency :: u32
  m_index :: u32
  av_sum :: u64

definition average_new :: "string \<Rightarrow> u32 \<Rightarrow> average_term" where
  "average_new name max_record = \<lparr>av_name = name, m_record_frequency = max_record, m_index = 0, av_sum = 0\<rparr>"

definition average_add :: "u64 \<Rightarrow> average_term \<times> logger \<Rightarrow> (average_term \<times> logger) result" where
  "average_add v s =
     (let t = fst s; t1 = t\<lparr>av_sum := av_sum t + v, m_index := m_index t + 1\<rparr> in
      if m_index t1 = m_record_frequency t1 then
        if m_index t1 = 0 then Inl DivByZero
        else Inr (t1\<lparr>av_sum := 0, m_index := 0\<rparr>,
          put_log (av_name t1 @ [TAB] @ dec (unat (av_sum t1) div unat (m_index t1)) @ [NL]) (snd s))
      else Inr (t1, snd s))"

text \<open>A call that holds a mutex, given whether the mutex is taken; it is released at the end.\<close>

definition with_lock :: "bool \<Rightarrow> (unit \<Rightarrow> 'a result) \<Rightarrow> ('a \<times> bool) result" where
  "with_lock held f = (if held then Inl Deadlock else rbind (f ()) (\<lambda>x. Inr (x, False)))"

text \<open>The locked variants of the two terms.\<close>

definition locked_numeric_add :: "u64 \<Rightarrow> bool \<Rightarrow> numeric_term \<times> logger \<Rightarrow> ((numeric_term \<times> logger) \<times> bool) result" where
  "locked_numeric_add v lock s = with_lock lock (\<lambda>_. Inr (numeric_add v s))"

definition locked_average_add :: "u64 \<Rightarrow> bool \<Rightarrow> average_term \<times> logger \<Rightarrow> ((average_term \<times> logger) \<times> bool) result" where
  "locked_average_add v lock s = with_lock lock (\<lambda>_. average_add v s)"

section \<open>Records of time stamps\<close>

record time_record_term =
  tr_id :: u64
  tr_index :: u8
  tr_timestamp :: u64

type_synonym time_records = "u64 \<Rightarrow> u64 list option"

text \<open>\<open>TimeRecords::push_back\<close>: a new record has five stamps of zero.\<close>

definition push_back :: "time_record_term \<Rightarrow> time_records \<Rightarrow> time_records result" where
  "push_back t r =
     (let r1 = (if r (tr_id t) = None then r(tr_id t \<mapsto> replicate 5 0) else r);
          v = the (r1 (tr_id t))
      in if unat (tr_index t) < length v then Inr (r1(tr_id t \<mapsto> v[unat (tr_index t) := tr_timestamp t])) else Inl OutOfBounds)"

definition records_size :: "time_records \<Rightarrow> nat" where
  "records_size r = card (dom r)"

definition records_clear :: "time_records \<Rightarrow> time_records" where
  "records_clear r = Map.empty"

text \<open>\<open>operator<<\<close> of \<open>TimeRecords\<close>.\<close>

definition put_record :: "u64 \<Rightarrow> u64 list \<Rightarrow> string" where
  "put_record rid v = ''id: '' @ dec (unat rid) @ '' timestamps:'' @ concat (map (\<lambda>x. '' '' @ dec (unat x)) v) @ [NL]"

fun put_records :: "time_records \<Rightarrow> u64 list \<Rightarrow> nat \<Rightarrow> u32 \<Rightarrow> string \<Rightarrow> (nat \<times> u32 \<times> string) result" where
  "put_records r [] latency_sum nums os = Inr (latency_sum, nums, os)"
| "put_records r (i # is) latency_sum nums os =
     (let v = the (r i) in
      if length v \<le> 3 then Inl OutOfBounds
      else let latency = v ! 3 - v ! 1; counted = latency > 0 \<and> latency < 10000 in
        put_records r is (if counted then latency_sum + unat latency else latency_sum) (if counted then nums + 1 else nums)
          (os @ put_record i v))"

definition records_text :: "(nat \<Rightarrow> nat \<Rightarrow> string) \<Rightarrow> (time_records \<Rightarrow> u64 list) \<Rightarrow> time_records \<Rightarrow> string result" where
  "records_text show_quot iter r =
     rbind (put_records r (iter r) 0 0 []) (\<lambda>(latency_sum, nums, os).
       Inr (os @ ''average compeletion latency: '' @ show_quot latency_sum (unat nums) @ [NL] @ [NL]))"

section \<open>The logger term of the records\<close>

record records_term =
  rt_records :: time_records
  max_flushtime :: u32

definition records_term_new :: "u64 \<Rightarrow> records_term" where
  "records_term_new max_size = \<lparr>rt_records = Map.empty, max_flushtime = ucast (max_size div 2)\<rparr>"

definition SetFlushTime :: "u32 \<Rightarrow> records_term \<Rightarrow> records_term" where
  "SetFlushTime n t = t\<lparr>max_flushtime := n\<rparr>"

definition should_flush :: "records_term \<Rightarrow> bool" where
  "should_flush t \<longleftrightarrow> unat (max_flushtime t) = records_size (rt_records t)"

definition records_flush ::
  "(nat \<Rightarrow> nat \<Rightarrow> string) \<Rightarrow> (time_records \<Rightarrow> u64 list) \<Rightarrow> records_term \<times> logger \<Rightarrow> (records_term \<times> logger) result" where
  "records_flush show_quot iter s =
     rbind (records_text show_quot iter (rt_records (fst s))) (\<lambda>txt.
       Inr ((fst s)\<lparr>rt_records := records_clear (rt_records (fst s))\<rparr>, put_log (txt @ [NL]) (snd s)))"

definition records_add ::
  "(nat \<Rightarrow> nat \<Rightarrow> string) \<Rightarrow> (time_records \<Rightarrow> u64 list) \<Rightarrow> time_record_term \<Rightarrow> records_term \<times> logger \<Rightarrow> (records_term \<times> logger) result" where
  "records_add show_quot iter v s =
     rbind (push_back v (rt_records (fst s))) (\<lambda>r.
       let s1 = ((fst s)\<lparr>rt_records := r\<rparr>, snd s)
       in if should_flush (fst s1) then records_flush show_quot iter s1 else Inr s1)"

text \<open>\<open>LockedContainerLoggerTerm::Add\<close>: the term's mutex is held during the whole call; \<open>push_back\<close> and \<open>clear\<close> take the mutex of the
  records and release it.\<close>

definition locked_add ::
  "(nat \<Rightarrow> nat \<Rightarrow> string) \<Rightarrow> (time_records \<Rightarrow> u64 list) \<Rightarrow> time_record_term \<Rightarrow> bool \<Rightarrow> bool \<Rightarrow> records_term \<times> logger \<Rightarrow>
    ((records_term \<times> logger) \<times> bool) result" where
  "locked_add show_quot iter v term_lock records_lock s =
     with_lock term_lock (\<lambda>_.
       rbind (with_lock records_lock (\<lambda>_. push_back v (rt_records (fst s)))) (\<lambda>(r, l1).
         let s1 = ((fst s)\<lparr>rt_records := r\<rparr>, snd s) in
         if should_flush (fst s1) then
           rbind (records_text show_quot iter (rt_records (fst s1))) (\<lambda>txt.
           rbind (with_lock l1 (\<lambda>_. Inr (records_clear (rt_records (fst s1))))) (\<lambda>(r', l2).
             Inr ((fst s1)\<lparr>rt_records := r'\<rparr>, put_log (txt @ [NL]) (snd s1))))
         else Inr s1))"

section \<open>Numeric terms\<close>

text \<open>A plain numeric term never logs anything: whatever is added, nothing is written and the sum is zero again afterwards,
  because \<open>Add\<close> clears it every time and \<open>should_flush\<close> never holds.\<close>

theorem numeric_term_silent: "foldl (\<lambda>s v. numeric_add v s) s vs = (if vs = [] then s else ((fst s)\<lparr>nt_sum := 0\<rparr>, snd s))"
proof (induction vs rule: rev_induct)
  case (snoc v vs)
  then show ?case by (cases "vs = []") (simp_all add: numeric_add_def numeric_should_flush_def Let_def)
qed simp

fun average_run :: "u64 list \<Rightarrow> average_term \<times> logger \<Rightarrow> (average_term \<times> logger) result" where
  "average_run [] s = Inr s"
| "average_run (v # vs) s = rbind (average_add v s) (average_run vs)"

text \<open>The lines for consecutive windows of \<open>k\<close> values, and the values after the last full window.\<close>

function average_lines :: "string \<Rightarrow> nat \<Rightarrow> u64 list \<Rightarrow> string list" where
  "average_lines name k vs =
     (if k = 0 \<or> length vs < k then []
      else (name @ [TAB] @ dec (unat (sum_list (take k vs)) div k) @ [NL]) # average_lines name k (drop k vs))"
  by pat_completeness auto
termination by (relation "measure (\<lambda>(name, k, vs). length vs)") auto

declare average_lines.simps [simp del]

definition unfinished :: "nat \<Rightarrow> u64 list \<Rightarrow> u64 list" where
  "unfinished k vs = drop (length vs div k * k) vs"

lemma average_run_windows:
  assumes "unat k \<noteq> 0" "length w < unat k"
  shows "average_run vs (\<lparr>av_name = name, m_record_frequency = k, m_index = of_nat (length w), av_sum = sum_list w\<rparr>, lg) =
    Inr (\<lparr>av_name = name, m_record_frequency = k, m_index = of_nat (length (unfinished (unat k) (w @ vs))), av_sum = sum_list (unfinished (unat k) (w @ vs))\<rparr>,
      foldl (\<lambda>l s. put_log s l) lg (average_lines name (unat k) (w @ vs)))"
  using assms(2)
proof (induction vs arbitrary: w lg)
  case Nil
  then show ?case by (simp add: unfinished_def average_lines.simps)
next
  case (Cons v vs)
  have small: "Suc (length w) < 2 ^ 32 \<or> Suc (length w) = unat k" using Cons.prems unat_less_u32 [of k] by simp
  have idx: "of_nat (length w) + 1 = k \<longleftrightarrow> Suc (length w) = unat k"
  proof
    assume "Suc (length w) = unat k"
    then have "of_nat (Suc (length w)) = k" by simp
    then show "of_nat (length w) + 1 = k" by (simp add: add.commute)
  next
    assume "of_nat (length w) + 1 = k"
    then have "unat (of_nat (Suc (length w)) :: u32) = unat k" by (simp add: add.commute)
    moreover have "Suc (length w) < 4294967296 \<Longrightarrow> unat (of_nat (Suc (length w)) :: u32) = Suc (length w)" by (rule unat_of_nat_u32)
    moreover have "Suc (length w) < 4294967296" if "Suc (length w) \<noteq> unat k" using small that by simp
    ultimately show "Suc (length w) = unat k" by metis
  qed
  show ?case
  proof (cases "Suc (length w) = unat k")
    case True
    have "average_add v (\<lparr>av_name = name, m_record_frequency = k, m_index = of_nat (length w), av_sum = sum_list w\<rparr>, lg) =
        Inr (\<lparr>av_name = name, m_record_frequency = k, m_index = of_nat (length []), av_sum = sum_list []\<rparr>,
          put_log (name @ [TAB] @ dec (unat (sum_list (w @ [v])) div unat k) @ [NL]) lg)"
      using True idx assms(1) by (auto simp: average_add_def Let_def)
    moreover have "unfinished (unat k) (w @ v # vs) = unfinished (unat k) vs"
    proof -
      have "length (w @ v # vs) = unat k + length vs" using True by simp
      moreover have "(unat k + length vs) div unat k * unat k = unat k + length vs div unat k * unat k" using assms(1) by (simp add: div_add_self1)
      ultimately have "length (w @ v # vs) div unat k * unat k = unat k + length vs div unat k * unat k" by metis
      then show ?thesis using True [symmetric] by (simp add: unfinished_def)
    qed
    moreover have "average_lines name (unat k) (w @ v # vs) =
        (name @ [TAB] @ dec (unat (sum_list (w @ [v])) div unat k) @ [NL]) # average_lines name (unat k) vs"
      using True [symmetric] by (subst average_lines.simps) simp
    ultimately show ?thesis using Cons.IH [of "[]"] assms(1) by simp
  next
    case False
    have "average_add v (\<lparr>av_name = name, m_record_frequency = k, m_index = of_nat (length w), av_sum = sum_list w\<rparr>, lg) =
        Inr (\<lparr>av_name = name, m_record_frequency = k, m_index = of_nat (length (w @ [v])), av_sum = sum_list (w @ [v])\<rparr>, lg)"
      using False idx by (simp add: average_add_def Let_def add.commute)
    moreover have "length (w @ [v]) < unat k" using False Cons.prems by simp
    ultimately show ?thesis using Cons.IH [of "w @ [v]"] by simp
  qed
qed

text \<open>An averaging term with a frequency other than zero writes one line per full window of that many values, with the
  quotient of their sum (modulo \<open>2 ^ 64\<close>) and their number; the values after the last full window are what the term
  holds. No addition fails.\<close>

theorem average_windows:
  assumes "k \<noteq> 0"
  shows "average_run vs (average_new name k, lg) =
    Inr (\<lparr>av_name = name, m_record_frequency = k, m_index = of_nat (length (unfinished (unat k) vs)), av_sum = sum_list (unfinished (unat k) vs)\<rparr>,
      foldl (\<lambda>l s. put_log s l) lg (average_lines name (unat k) vs))"
  using average_run_windows [of k "[]" vs name lg] assms by (simp add: average_new_def unat_gt_0 unat_eq_zero)

theorem average_windows_witness:
  "average_run [4, 8, 9] (average_new ''lat'' 2, logger_new (\<lambda>_. [])) =
    Inr (\<lparr>av_name = ''lat'', m_record_frequency = 2, m_index = of_nat (length (unfinished (unat (2 :: u32)) [4, 8, 9])),
        av_sum = sum_list (unfinished (unat (2 :: u32)) [4, 8, 9])\<rparr>,
      foldl (\<lambda>l s. put_log s l) (logger_new (\<lambda>_. [])) (average_lines ''lat'' (unat (2 :: u32)) [4, 8, 9]))"
  by (rule average_windows) simp

section \<open>Records of time stamps\<close>

text \<open>What the records should hold after a history of terms: for every id in it the last stamp given for each index.\<close>

definition last_stamp :: "u64 \<Rightarrow> time_record_term list \<Rightarrow> nat \<Rightarrow> u64" where
  "last_stamp rid hist i = foldl (\<lambda>x t. if tr_id t = rid \<and> unat (tr_index t) = i then tr_timestamp t else x) 0 hist"

definition stamps :: "time_record_term list \<Rightarrow> time_records" where
  "stamps hist rid = (if rid \<in> tr_id ` set hist then Some (map (last_stamp rid hist) [0 ..< 5]) else None)"

text \<open>The text of a batch of records: a line for each, and the average of the latencies between posting and completion that
  are positive and below ten milliseconds.\<close>

definition latencies :: "time_records \<Rightarrow> u64 list \<Rightarrow> u64 list" where
  "latencies r is = filter (\<lambda>l. 0 < l \<and> l < 10000) (map (\<lambda>i. the (r i) ! 3 - the (r i) ! 1) is)"

definition batch_text :: "(nat \<Rightarrow> nat \<Rightarrow> string) \<Rightarrow> (time_records \<Rightarrow> u64 list) \<Rightarrow> time_records \<Rightarrow> string" where
  "batch_text show_quot iter r =
     concat (map (\<lambda>i. put_record i (the (r i))) (iter r)) @ ''average compeletion latency: '' @
     show_quot (sum_list (map unat (latencies r (iter r)))) (length (latencies r (iter r))) @ [NL, NL, NL]"

text \<open>The batches: a history is written and forgotten when it has \<open>m\<close> different ids.\<close>

definition batch_add :: "(time_record_term list \<Rightarrow> string) \<Rightarrow> nat \<Rightarrow> time_record_term \<Rightarrow> time_record_term list \<times> logger \<Rightarrow> time_record_term list \<times> logger" where
  "batch_add txt m t s =
     (let hist = fst s @ [t] in if card (tr_id ` set hist) = m then ([], put_log (txt hist) (snd s)) else (hist, snd s))"

lemma dom_stamps [simp]: "dom (stamps hist) = tr_id ` set hist"
  by (auto simp: stamps_def dom_def)

lemma last_stamp_snoc:
  "last_stamp rid (hist @ [t]) i = (if tr_id t = rid \<and> unat (tr_index t) = i then tr_timestamp t else last_stamp rid hist i)"
  by (simp add: last_stamp_def)

lemma last_stamp_fresh: "rid \<notin> tr_id ` set hist \<Longrightarrow> last_stamp rid hist i = 0"
  by (induction hist rule: rev_induct) (auto simp: last_stamp_snoc, simp add: last_stamp_def)

lemma push_back_stamps:
  assumes "unat (tr_index t) < 5"
  shows "push_back t (stamps hist) = Inr (stamps (hist @ [t]))"
proof -
  let ?v = "if tr_id t \<in> tr_id ` set hist then map (last_stamp (tr_id t) hist) [0 ..< 5] else replicate 5 0"
  have v: "?v = map (last_stamp (tr_id t) hist) [0 ..< 5]"
    using last_stamp_fresh [of "tr_id t" hist] by (auto intro!: nth_equalityI)
  have new: "?v[unat (tr_index t) := tr_timestamp t] = map (last_stamp (tr_id t) (hist @ [t])) [0 ..< 5]"
    unfolding v using assms by (intro nth_equalityI) (auto simp: nth_list_update last_stamp_snoc)
  have other: "stamps (hist @ [t]) rid = stamps hist rid" if "rid \<noteq> tr_id t" for rid
    using that by (auto simp: stamps_def last_stamp_snoc)
  have "push_back t (stamps hist) = Inr ((stamps hist)(tr_id t \<mapsto> ?v[unat (tr_index t) := tr_timestamp t]))"
    using assms by (auto simp: push_back_def Let_def stamps_def)
  also have "(stamps hist)(tr_id t \<mapsto> ?v[unat (tr_index t) := tr_timestamp t]) = stamps (hist @ [t])"
    unfolding new using other by (auto simp: fun_eq_iff) (simp add: stamps_def)
  finally show ?thesis .
qed

lemma put_records_eq:
  assumes "\<forall>i \<in> set is. 3 < length (the (r i))"
  shows "put_records r is a n os = Inr (a + sum_list (map unat (latencies r is)), n + of_nat (length (latencies r is)),
    os @ concat (map (\<lambda>i. put_record i (the (r i))) is))"
  using assms by (induction "is" arbitrary: a n os) (auto simp: latencies_def Let_def add.commute add.left_commute)

definition iter_ok :: "(time_records \<Rightarrow> u64 list) \<Rightarrow> bool" where
  "iter_ok iter \<longleftrightarrow> (\<forall>r. finite (dom r) \<longrightarrow> distinct (iter r) \<and> set (iter r) = dom r)"

lemma records_text_stamps:
  assumes "iter_ok iter" "card (tr_id ` set hist) < 2 ^ 32"
  shows "records_text show_quot iter (stamps hist) = Inr (butlast (batch_text show_quot iter (stamps hist)))"
proof -
  let ?r = "stamps hist"
  have it: "distinct (iter ?r)" "set (iter ?r) = tr_id ` set hist" using assms(1) by (auto simp: iter_ok_def)
  have "\<forall>i \<in> set (iter ?r). 3 < length (the (?r i))" using it by (auto simp: stamps_def)
  note put = put_records_eq [OF this, of 0 0 "[]"]
  have "length (latencies ?r (iter ?r)) \<le> length (iter ?r)"
    unfolding latencies_def by (rule order_trans [OF length_filter_le]) simp
  also have "\<dots> = card (tr_id ` set hist)" using it distinct_card by fastforce
  finally have "unat (of_nat (length (latencies ?r (iter ?r))) :: u32) = length (latencies ?r (iter ?r))"
    using assms(2) by (intro unat_of_nat_u32) simp
  with put show ?thesis by (simp add: records_text_def batch_text_def butlast_append)
qed

fun locked_run ::
  "(nat \<Rightarrow> nat \<Rightarrow> string) \<Rightarrow> (time_records \<Rightarrow> u64 list) \<Rightarrow> time_record_term list \<Rightarrow> (records_term \<times> logger) \<times> bool \<Rightarrow>
    ((records_term \<times> logger) \<times> bool) result" where
  "locked_run show_quot iter [] s = Inr s"
| "locked_run show_quot iter (t # ts) s = rbind (locked_add show_quot iter t (snd s) False (fst s)) (locked_run show_quot iter ts)"

lemma butlast_batch: "butlast (batch_text show_quot iter r) @ [NL] = batch_text show_quot iter r"
  by (simp add: batch_text_def butlast_append)

lemma locked_add_batch:
  assumes "iter_ok iter" "unat (tr_index t) < 5"
    and "b = batch_add (\<lambda>h. batch_text show_quot iter (stamps h)) (unat m) t (hist, lg)"
  shows "locked_add show_quot iter t False False (\<lparr>rt_records = stamps hist, max_flushtime = m\<rparr>, lg) =
    Inr ((\<lparr>rt_records = stamps (fst b), max_flushtime = m\<rparr>, snd b), False)"
proof -
  have size: "records_size (stamps (hist @ [t])) = card (tr_id ` set (hist @ [t]))" by (simp only: records_size_def dom_stamps)
  have empty: "stamps [] = Map.empty" by (simp add: stamps_def fun_eq_iff)
  show ?thesis
  proof (cases "card (tr_id ` set (hist @ [t])) = unat m")
    case True
    then have "card (tr_id ` set (hist @ [t])) < 2 ^ 32" using unat_less_u32 [of m] by simp
    from records_text_stamps [OF assms(1) this, of show_quot]
    have written: "records_text show_quot iter (stamps (hist @ [t])) = Inr (butlast (batch_text show_quot iter (stamps (hist @ [t]))))" .
    have "should_flush \<lparr>rt_records = stamps (hist @ [t]), max_flushtime = m\<rparr>" using True size by (simp add: should_flush_def)
    with True written show ?thesis
      by (simp add: assms(3) locked_add_def with_lock_def push_back_stamps [OF assms(2)] batch_add_def records_clear_def empty butlast_batch)
  next
    case False
    then have "\<not> should_flush \<lparr>rt_records = stamps (hist @ [t]), max_flushtime = m\<rparr>" using size by (simp add: should_flush_def)
    with False show ?thesis
      by (simp add: assms(3) locked_add_def with_lock_def push_back_stamps [OF assms(2)] batch_add_def Let_def)
  qed
qed

lemma locked_run_batches:
  assumes "iter_ok iter" "\<forall>t \<in> set ts. unat (tr_index t) < 5"
    and "b = foldl (\<lambda>s t. batch_add (\<lambda>h. batch_text show_quot iter (stamps h)) (unat m) t s) (hist, lg) ts"
  shows "locked_run show_quot iter ts ((\<lparr>rt_records = stamps hist, max_flushtime = m\<rparr>, lg), False) =
    Inr ((\<lparr>rt_records = stamps (fst b), max_flushtime = m\<rparr>, snd b), False)"
  using assms(2,3)
proof (induction ts arbitrary: hist lg)
  case (Cons t ts)
  let ?b = "batch_add (\<lambda>h. batch_text show_quot iter (stamps h)) (unat m) t (hist, lg)"
  from locked_add_batch [OF assms(1), of t ?b] Cons.prems(1)
  have "locked_add show_quot iter t False False (\<lparr>rt_records = stamps hist, max_flushtime = m\<rparr>, lg) =
    Inr ((\<lparr>rt_records = stamps (fst ?b), max_flushtime = m\<rparr>, snd ?b), False)" by simp
  with Cons.IH [of "fst ?b" "snd ?b"] Cons.prems show ?case by simp
qed simp

lemma batch_bound:
  assumes "0 < m" "card (tr_id ` set hist) < m"
  shows "card (tr_id ` set (fst (foldl (\<lambda>s t. batch_add txt m t s) (hist, lg) ts))) < m"
  using assms(2)
proof (induction ts arbitrary: hist lg)
  case (Cons t ts)
  have "card (tr_id ` set (hist @ [t])) \<le> Suc (card (tr_id ` set hist))" by (simp add: card_insert_le_m1 card_insert_if)
  with Cons.prems have "card (tr_id ` set (fst (batch_add txt m t (hist, lg)))) < m"
    using assms(1) by (auto simp: batch_add_def Let_def)
  with Cons.IH [of "fst (batch_add txt m t (hist, lg))" "snd (batch_add txt m t (hist, lg))"] show ?case by simp
qed simp

text \<open>The records of time stamps. For any sequence of terms with indexes below five the locked logger term never faults or
  deadlocks; the stamps it holds are, for every id since the last flush, the last one of each index; the batches
  are written exactly when the number of different ids reaches half of the size given to the constructor, with the text
  of all records and the average of the counted latencies; and there are always fewer records than that.\<close>

theorem time_records_batches:
  assumes "iter_ok iter" "\<forall>t \<in> set ts. unat (tr_index t) < 5"
    and "m = ucast (max_size div 2)" "m \<noteq> 0"
    and "b = foldl (\<lambda>s t. batch_add (\<lambda>h. batch_text show_quot iter (stamps h)) (unat m) t s) ([], lg) ts"
  shows "locked_run show_quot iter ts ((records_term_new max_size, lg), False) =
      Inr ((\<lparr>rt_records = stamps (fst b), max_flushtime = m\<rparr>, snd b), False)
    \<and> records_size (stamps (fst b)) < unat m"
proof -
  have "records_term_new max_size = \<lparr>rt_records = stamps [], max_flushtime = m\<rparr>"
    using assms(3) by (simp add: records_term_new_def stamps_def fun_eq_iff)
  moreover have "0 < unat m" using assms(4) by (simp add: unat_gt_0)
  ultimately show ?thesis
    using locked_run_batches [OF assms(1,2,5)] batch_bound [of "unat m" "[]" _ lg ts] assms(5) by (simp add: records_size_def)
qed

definition by_id :: "time_records \<Rightarrow> u64 list" where
  "by_id r = sorted_list_of_set (dom r)"

theorem time_records_batches_witness:
  "locked_run (\<lambda>a b. []) by_id [\<lparr>tr_id = 7, tr_index = 1, tr_timestamp = 100\<rparr>] ((records_term_new 4, logger_new (\<lambda>_. [])), False) =
      Inr ((\<lparr>rt_records = stamps (fst (foldl (\<lambda>s t. batch_add (\<lambda>h. batch_text (\<lambda>a b. []) by_id (stamps h)) (unat (ucast ((4 :: u64) div 2) :: u32)) t s)
          ([], logger_new (\<lambda>_. [])) [\<lparr>tr_id = 7, tr_index = 1, tr_timestamp = 100\<rparr>])), max_flushtime = ucast ((4 :: u64) div 2)\<rparr>,
        snd (foldl (\<lambda>s t. batch_add (\<lambda>h. batch_text (\<lambda>a b. []) by_id (stamps h)) (unat (ucast ((4 :: u64) div 2) :: u32)) t s)
          ([], logger_new (\<lambda>_. [])) [\<lparr>tr_id = 7, tr_index = 1, tr_timestamp = 100\<rparr>])), False)
    \<and> records_size (stamps (fst (foldl (\<lambda>s t. batch_add (\<lambda>h. batch_text (\<lambda>a b. []) by_id (stamps h)) (unat (ucast ((4 :: u64) div 2) :: u32)) t s)
          ([], logger_new (\<lambda>_. [])) [\<lparr>tr_id = 7, tr_index = 1, tr_timestamp = 100\<rparr>]))) < unat (ucast ((4 :: u64) div 2) :: u32)"
  by (rule time_records_batches [OF _ _ refl _ refl]) (simp_all add: iter_ok_def by_id_def)

text \<open>The record that completes a batch is written with one stamp only: its id is new, so that the flush comes with the
  first stamp, and its later stamps go into a record of the next batch.\<close>

theorem last_record_cut:
  assumes "card (tr_id ` set hist) < m" "card (tr_id ` set (hist @ [t])) = m" "unat (tr_index t) < 5"
  shows "stamps (hist @ [t]) (tr_id t) = Some ((replicate 5 0)[unat (tr_index t) := tr_timestamp t])"
proof -
  have "tr_id t \<notin> tr_id ` set hist" using assms(1,2) by (auto simp: insert_absorb)
  then have "last_stamp (tr_id t) hist i = 0" for i by (rule last_stamp_fresh)
  then have "map (last_stamp (tr_id t) (hist @ [t])) [0 ..< 5] = (replicate 5 0)[unat (tr_index t) := tr_timestamp t]"
    using assms(3) by (intro nth_equalityI) (auto simp: last_stamp_snoc nth_list_update)
  then show ?thesis by (simp add: stamps_def)
qed

theorem last_record_cut_witness:
  "stamps [\<lparr>tr_id = 7, tr_index = 1, tr_timestamp = 100\<rparr>, \<lparr>tr_id = 8, tr_index = 1, tr_timestamp = 105\<rparr>] 8 =
    Some ((replicate 5 0)[1 := 105])"
  using last_record_cut [of "[\<lparr>tr_id = 7, tr_index = 1, tr_timestamp = 100\<rparr>]" 2 "\<lparr>tr_id = 8, tr_index = 1, tr_timestamp = 105\<rparr>"] by simp

end
