(* ===== verification/ServerConns.thy ===== *)
theory ServerConns
  imports Connection PosixSocket Worker
begin

text \<open>
  The connections of a server: \<open>Server::create_connect\<close>, \<open>accept\<close>, \<open>send\<close>, \<open>read\<close> and \<open>drain\<close> of
  \<open>src/src/core/server.cc\<close> and \<open>server.h\<close>, over the workers of \<open>Worker\<close>, the event centres of \<open>EventCenter\<close> and the
  connections of \<open>Connection\<close>. A new connection has the address \<open>p\<close> and handlers at \<open>hs\<close>.
\<close>

section \<open>State\<close>

record conn_obj =
  co_conn :: connection
  co_worker :: nat
  co_read_callback :: ptr
  co_write_callback :: ptr

text \<open>\<open>conns\<close> is a hash table with the equality of the addresses, here an association list; \<open>sc_callbacks\<close> are the
  read and write callbacks for connections made and for connections accepted.\<close>

record server_conns =
  sc_refs :: "nat list"
  sc_centers :: "nat \<Rightarrow> epoll_driver center"
  sc_heap :: "ptr \<Rightarrow> conn_obj option"
  sc_conns :: "(entity_addr \<times> ptr) list"
  sc_accepting :: "ptr set"
  sc_callbacks :: "(ptr \<times> ptr) \<times> (ptr \<times> ptr)"
  sc_lock :: bool

fun conns_put :: "entity_addr \<Rightarrow> ptr \<Rightarrow> (entity_addr \<times> ptr) list \<Rightarrow> (entity_addr \<times> ptr) list" where
  "conns_put a p [] = [(a, p)]"
| "conns_put a p ((b, q) # m) = (if addr_eq b a then (b, p) # m else (b, q) # conns_put a p m)"

definition conns_get :: "entity_addr \<Rightarrow> (entity_addr \<times> ptr) list \<Rightarrow> ptr option" where
  "conns_get a m = map_option snd (find (\<lambda>e. addr_eq (fst e) a) m)"

type_synonym handlers = "ptr \<times> ptr \<times> ptr"

section \<open>Operations\<close>

text \<open>\<open>w\<close>: the result and \<open>errno\<close> of the wake-up, and whether the caller is the thread of the worker.\<close>

definition create_connect :: "ptr \<Rightarrow> handlers \<Rightarrow> entity_addr \<Rightarrow> bool \<times> int \<times> int \<Rightarrow> entity_addr \<Rightarrow> server_conns \<Rightarrow> (ptr \<times> server_conns) result" where
  "create_connect p hs blank w addr s =
     (if sc_lock s then Inl Deadlock
      else rbind (get_worker (sc_refs s)) (\<lambda>(i, refs).
        let c0 = connection_new (fst hs) (fst (snd hs)) (snd (snd hs)) blank;
            (in_thr, n, e) = w in
        rbind (connect in_thr n e addr (c0, sc_centers s i)) (\<lambda>(c, ce).
          Inr (p, s\<lparr>sc_refs := refs, sc_centers := (sc_centers s)(i := ce),
            sc_heap := (sc_heap s)(p \<mapsto> \<lparr>co_conn = c, co_worker = i,
              co_read_callback = fst (fst (sc_callbacks s)), co_write_callback = snd (fst (sc_callbacks s))\<rparr>),
            sc_conns := conns_put addr p (sc_conns s)\<rparr>))))"

definition server_accept_conn :: "ptr \<Rightarrow> handlers \<Rightarrow> entity_addr \<Rightarrow> bool \<times> int \<times> int \<Rightarrow> nat \<Rightarrow> int \<Rightarrow> entity_addr \<Rightarrow> entity_addr \<Rightarrow> server_conns \<Rightarrow> server_conns result" where
  "server_accept_conn p hs blank w i fd listen_addr peer s =
     (if sc_lock s then Inl Deadlock
      else let c0 = connection_new (fst hs) (fst (snd hs)) (snd (snd hs)) blank;
               (in_thr, n, e) = w in
        rbind (accept in_thr n e fd listen_addr peer (c0, sc_centers s i)) (\<lambda>(c, ce).
          Inr (s\<lparr>sc_centers := (sc_centers s)(i := ce),
            sc_heap := (sc_heap s)(p \<mapsto> \<lparr>co_conn = c, co_worker = i,
              co_read_callback = fst (snd (sc_callbacks s)), co_write_callback = snd (snd (sc_callbacks s))\<rparr>),
            sc_accepting := insert p (sc_accepting s)\<rparr>)))"

text \<open>\<open>send\<close>: the connection that \<open>Send\<close> is called on. \<open>conns[dst]\<close> of an unknown address is a new null entry.\<close>

definition server_send :: "entity_addr \<Rightarrow> server_conns \<Rightarrow> ptr result" where
  "server_send dst s = (case conns_get dst (sc_conns s) of None \<Rightarrow> Inl NullDeref | Some p \<Rightarrow> if p = nullptr then Inl NullDeref else Inr p)"

definition the_accepted :: "server_conns \<Rightarrow> ptr result" where
  "the_accepted s = kassert (card (sc_accepting s) = 1) (Inr (the_elem (sc_accepting s)))"

text \<open>\<open>drain\<close> and \<open>read\<close>: the connection that \<open>drain\<close> or \<open>Read\<close> is called on.\<close>

definition server_drain :: "server_conns \<Rightarrow> ptr result" where
  "server_drain s = the_accepted s"

definition server_read :: "entity_addr \<Rightarrow> server_conns \<Rightarrow> ptr result" where
  "server_read addr s =
     rbind (the_accepted s) (\<lambda>p.
       case sc_heap s p of None \<Rightarrow> Inl UseAfterFree | Some o1 \<Rightarrow> kassert (addr_eq addr (local_addr (co_conn o1))) (Inr p))"

section \<open>The table of connections\<close>

lemma memcmp_refl [simp]: "memcmp xs xs = 0"
  by (induction xs) auto

lemma addr_eq_refl [simp]: "addr_eq a a"
  by (simp add: addr_eq_def)

lemma addr_eq_iff: "addr_ok a \<Longrightarrow> addr_ok b \<Longrightarrow> addr_eq a b \<longleftrightarrow> addr_bytes a = addr_bytes b"
  by (simp add: addr_eq_def memcmp_eq_0 length_addr_bytes)

lemma conns_get_put:
  assumes "addr_ok a" "addr_ok b" "list_all (\<lambda>e. addr_ok (fst e)) m"
  shows "conns_get b (conns_put a p m) = (if addr_eq a b then Some p else conns_get b m)"
  using assms by (induction m) (auto simp: conns_get_def addr_eq_iff)

lemma conns_put_ok: "addr_ok a \<Longrightarrow> list_all (\<lambda>e. addr_ok (fst e)) m \<Longrightarrow> list_all (\<lambda>e. addr_ok (fst e)) (conns_put a p m)"
  by (induction m) auto

text \<open>What a server keeps: its centres count their events, its table has well-formed addresses, and the objects exist.\<close>

definition server_ok :: "server_conns \<Rightarrow> bool" where
  "server_ok s \<longleftrightarrow> \<not> sc_lock s \<and> (\<forall>i < length (sc_refs s). external_ok (sc_centers s i)) \<and> list_all (\<lambda>e. addr_ok (fst e)) (sc_conns s)
     \<and> snd ` set (sc_conns s) \<union> sc_accepting s \<subseteq> dom (sc_heap s)"

lemma connect_ok:
  assumes "external_ok ce" "0 \<le> n \<or> e = EAGAIN"
  shows "\<exists>ce'. connect in_thr n e addr (c, ce) = Inr (c\<lparr>peer_addr := addr, c_state := STATE_CONNECTING\<rparr>, ce') \<and> external_ok ce' \<and> last (external_events ce') = read_handler c
    \<and> external_events ce' = queued (read_handler c) (external_events ce)"
  using dispatch_ok [OF assms, of in_thr "read_handler c"] by (auto simp: connect_def queued_def)

lemma accept_ok:
  assumes "external_ok ce" "0 \<le> n \<or> e = EAGAIN" "0 \<le> fd"
  shows "\<exists>ce'. accept in_thr n e fd la pa (c, ce) = Inr (c\<lparr>cs := Some fd, local_addr := la, peer_addr := pa, c_state := STATE_ACCEPTING\<rparr>, ce') \<and> external_ok ce'
    \<and> external_events ce' = queued (read_handler c) (external_events ce)"
  using dispatch_ok [OF assms(1,2), of in_thr "read_handler c"] assms(3) by (auto simp: accept_def queued_def)

section \<open>Properties\<close>

text \<open>Connecting from a server. \<open>create_connect\<close> puts a new connection on the first worker of least load and counts the
  reference, and leaves it connecting to the address, with its handler queued last at the event centre of that
  worker; the other centres are untouched. Afterwards \<open>send\<close> to this address uses the new connection, and \<open>send\<close> to
  any other address what it used before.\<close>

theorem server_connect_tracked:
  assumes "server_ok s" "sc_refs s \<noteq> []" "Min (set (sc_refs s)) < INT_MAX" "addr_ok addr" "p \<noteq> nullptr" "0 \<le> n \<or> e = EAGAIN"
  shows "\<exists>i s' ob. create_connect p (rh, rcb, wcb) blank (in_thr, n, e) addr s = Inr (p, s') \<and> server_ok s' \<and>
    least_loaded (sc_refs s) i \<and> sc_refs s' = (sc_refs s)[i := sc_refs s ! i + 1] \<and>
    sc_heap s' = (sc_heap s)(p \<mapsto> ob) \<and> co_worker ob = i \<and> c_state (co_conn ob) = STATE_CONNECTING \<and> peer_addr (co_conn ob) = addr \<and>
    external_events (sc_centers s' i) = queued rh (external_events (sc_centers s i)) \<and> (\<forall>j. j \<noteq> i \<longrightarrow> sc_centers s' j = sc_centers s j) \<and>
    (\<forall>b. addr_ok b \<longrightarrow> server_send b s' = (if addr_eq addr b then Inr p else server_send b s))"
proof -
  from get_worker_least [OF assms(2,3)] obtain i
    where i: "get_worker (sc_refs s) = Inr (i, (sc_refs s)[i := sc_refs s ! i + 1])" "least_loaded (sc_refs s) i" by blast
  let ?c = "connection_new rh rcb wcb blank"
  have "external_ok (sc_centers s i)" using assms(1) i(2) by (auto simp: server_ok_def least_loaded_def)
  from connect_ok [OF this assms(6), of in_thr addr ?c] obtain ce
    where ce: "connect in_thr n e addr (?c, sc_centers s i) = Inr (?c\<lparr>peer_addr := addr, c_state := STATE_CONNECTING\<rparr>, ce)"
      "external_ok ce" "external_events ce = queued rh (external_events (sc_centers s i))" by (auto simp: connection_new_def)
  let ?o = "\<lparr>co_conn = ?c\<lparr>peer_addr := addr, c_state := STATE_CONNECTING\<rparr>, co_worker = i,
      co_read_callback = fst (fst (sc_callbacks s)), co_write_callback = snd (fst (sc_callbacks s))\<rparr>"
  let ?s = "s\<lparr>sc_refs := (sc_refs s)[i := sc_refs s ! i + 1], sc_centers := (sc_centers s)(i := ce), sc_heap := (sc_heap s)(p \<mapsto> ?o),
      sc_conns := conns_put addr p (sc_conns s)\<rparr>"
  have run: "create_connect p (rh, rcb, wcb) blank (in_thr, n, e) addr s = Inr (p, ?s)"
    using assms(1) i(1) ce(1) by (simp add: create_connect_def server_ok_def)
  have "snd ` set (conns_put addr p m) \<subseteq> insert p (snd ` set m)" for m by (induction m) (fastforce split: if_splits)+
  then have dom: "snd ` set (conns_put addr p (sc_conns s)) \<union> sc_accepting s \<subseteq> insert p (dom (sc_heap s))"
    using assms(1) unfolding server_ok_def by blast
  have "list_all (\<lambda>e. addr_ok (fst e)) (conns_put addr p (sc_conns s))" using assms(1,4) conns_put_ok by (simp add: server_ok_def)
  then have ok: "server_ok ?s" using assms(1) ce(2) dom by (simp add: server_ok_def)
  have "server_send b ?s = (if addr_eq addr b then Inr p else server_send b s)" if "addr_ok b" for b
    using conns_get_put [OF assms(4) that, of "sc_conns s" p] assms(1,5) by (auto simp: server_send_def server_ok_def)
  with run ok i(2) ce(3) show ?thesis
    by (intro exI [of _ i] exI [of _ ?s] exI [of _ ?o]) simp
qed

definition example_conns :: server_conns where
  "example_conns = \<lparr>sc_refs = [2, 1], sc_centers = \<lambda>_. fresh_center, sc_heap = Map.empty, sc_conns = [], sc_accepting = {},
     sc_callbacks = ((1, 2), (3, 4)), sc_lock = False\<rparr>"

theorem server_connect_tracked_witness:
  "\<exists>i s' ob. create_connect 50 (11, 12, 13) any_addr (False, 1, 0) any_addr example_conns = Inr (50, s') \<and> server_ok s' \<and>
    least_loaded (sc_refs example_conns) i \<and> sc_refs s' = (sc_refs example_conns)[i := sc_refs example_conns ! i + 1] \<and>
    sc_heap s' = (sc_heap example_conns)(50 \<mapsto> ob) \<and> co_worker ob = i \<and> c_state (co_conn ob) = STATE_CONNECTING \<and> peer_addr (co_conn ob) = any_addr \<and>
    external_events (sc_centers s' i) = queued 11 (external_events (sc_centers example_conns i)) \<and>
    (\<forall>j. j \<noteq> i \<longrightarrow> sc_centers s' j = sc_centers example_conns j) \<and>
    (\<forall>b. addr_ok b \<longrightarrow> server_send b s' = (if addr_eq any_addr b then Inr 50 else server_send b example_conns))"
  by (rule server_connect_tracked)
    (simp_all add: example_conns_def server_ok_def external_ok_def fresh_center_def center_new_def INT_MAX_def any_addr_def addr_ok_def entity_addr_new_def set_family_def)

text \<open>Accepting at a server. \<open>accept\<close> records the new connection, in the accepting state on the worker given and with its handler queued
  there, among the accepted ones. While it is the only one, \<open>drain\<close> uses it, and \<open>read\<close> at the address it was accepted
  on does; with two accepted connections both abort.\<close>

theorem server_accept_tracked:
  assumes "server_ok s" "i < length (sc_refs s)" "0 \<le> fd" "p \<notin> sc_accepting s" "finite (sc_accepting s)" "0 \<le> n \<or> e = EAGAIN"
  shows "\<exists>s' ob. server_accept_conn p (rh, rcb, wcb) blank (in_thr, n, e) i fd la pa s = Inr s' \<and> server_ok s' \<and>
    sc_heap s' = (sc_heap s)(p \<mapsto> ob) \<and> co_worker ob = i \<and> c_state (co_conn ob) = STATE_ACCEPTING \<and> cs (co_conn ob) = Some fd \<and>
    external_events (sc_centers s' i) = queued rh (external_events (sc_centers s i)) \<and> sc_accepting s' = insert p (sc_accepting s) \<and>
    (if sc_accepting s = {} then server_drain s' = Inr p \<and> server_read la s' = Inr p
     else server_drain s' = Inl KAssert \<and> server_read la s' = Inl KAssert)"
proof -
  let ?c = "connection_new rh rcb wcb blank"
  have "external_ok (sc_centers s i)" using assms(1,2) by (auto simp: server_ok_def)
  from accept_ok [OF this assms(6,3), of in_thr la pa ?c] obtain ce
    where ce: "accept in_thr n e fd la pa (?c, sc_centers s i) = Inr (?c\<lparr>cs := Some fd, local_addr := la, peer_addr := pa, c_state := STATE_ACCEPTING\<rparr>, ce)"
      "external_ok ce" "external_events ce = queued rh (external_events (sc_centers s i))" by (auto simp: connection_new_def)
  let ?o = "\<lparr>co_conn = ?c\<lparr>cs := Some fd, local_addr := la, peer_addr := pa, c_state := STATE_ACCEPTING\<rparr>, co_worker = i,
      co_read_callback = fst (snd (sc_callbacks s)), co_write_callback = snd (snd (sc_callbacks s))\<rparr>"
  let ?s = "s\<lparr>sc_centers := (sc_centers s)(i := ce), sc_heap := (sc_heap s)(p \<mapsto> ?o), sc_accepting := insert p (sc_accepting s)\<rparr>"
  have run: "server_accept_conn p (rh, rcb, wcb) blank (in_thr, n, e) i fd la pa s = Inr ?s"
    using assms(1) ce(1) by (simp add: server_accept_conn_def server_ok_def)
  have ok: "server_ok ?s" using assms(1) ce(2) by (auto simp: server_ok_def)
  have "card (insert p (sc_accepting s)) = Suc (card (sc_accepting s))" using assms(4,5) by simp
  then have "if sc_accepting s = {} then server_drain ?s = Inr p \<and> server_read la ?s = Inr p
     else server_drain ?s = Inl KAssert \<and> server_read la ?s = Inl KAssert"
    using assms(5) by (auto simp: server_drain_def server_read_def the_accepted_def kassert_def)
  with run ok ce(3) show ?thesis by (intro exI [of _ ?s] exI [of _ ?o]) simp
qed

theorem server_accept_tracked_witness:
  "\<exists>s' ob. server_accept_conn 60 (11, 12, 13) any_addr (True, 0, 0) 1 9 any_addr any_addr example_conns = Inr s' \<and> server_ok s' \<and>
    sc_heap s' = (sc_heap example_conns)(60 \<mapsto> ob) \<and> co_worker ob = 1 \<and> c_state (co_conn ob) = STATE_ACCEPTING \<and> cs (co_conn ob) = Some 9 \<and>
    external_events (sc_centers s' 1) = queued 11 (external_events (sc_centers example_conns 1)) \<and> sc_accepting s' = insert 60 (sc_accepting example_conns) \<and>
    (if sc_accepting example_conns = {} then server_drain s' = Inr 60 \<and> server_read any_addr s' = Inr 60
     else server_drain s' = Inl KAssert \<and> server_read any_addr s' = Inl KAssert)"
  by (rule server_accept_tracked)
    (simp_all add: example_conns_def server_ok_def external_ok_def fresh_center_def center_new_def)

text \<open>On the posix stack a connection that completes at once aborts the process. A non-blocking \<open>connect\<close> that has succeeded by the time
  \<open>process\<close> asks the new socket whether it is connected makes \<open>is_connected\<close> answer 1, which \<open>process\<close> asserts not to happen.\<close>

theorem posix_fast_connect_aborts:
  assumes "cs c = None" "c_state c = STATE_CONNECTING" "0 \<le> fst co \<or> snd co = EISCONN"
  shows "process True 0 fd (fst (posix_is_connected co False)) (c, ce) = Some (Inl KAssert)"
  using assms by (auto simp: process_def connecting_def posix_is_connected_def reconnect_def Let_def)

theorem posix_fast_connect_aborts_witness:
  "process True 0 6 (fst (posix_is_connected (- 1, 106) False))
    ((connection_new 11 12 13 any_addr)\<lparr>c_state := STATE_CONNECTING\<rparr>, fresh_center) = Some (Inl KAssert)"
  by (rule posix_fast_connect_aborts) (simp_all add: connection_new_def EISCONN_def)

end
