(* ===== verification/TxCopy.thy ===== *)
theory TxCopy
  imports Worker BufferList
begin

text \<open>
  Copying user memory into send chunks (\<open>RDMAConnectedSocketImpl::tx_copy_chunk\<close> in
  \<open>src/src/core/RDMAConnectedSocketImpl.cc\<close>). The chunks come from the transmit pool through the worker; the
  buffers between the two iterators are a list, and the part of it the iterator \<open>start\<close> has not passed when the function
  returns is part of the result.
\<close>

section \<open>The copy loops\<close>

text \<open>The inner loop copies one buffer: \<open>n\<close> bytes from \<open>addr\<close>, \<open>copied\<close> of them copied already, the current chunk being
  number \<open>idx\<close> of \<open>tx\<close>. The first component of the result says that the function returned from inside the loop,
  when the last chunk was full.\<close>

function copy_slice :: "nat list \<Rightarrow> ptr \<Rightarrow> u32 \<Rightarrow> nat \<Rightarrow> nat \<Rightarrow> u64 \<Rightarrow> u64 \<Rightarrow> cluster \<Rightarrow> mem \<Rightarrow>
  (bool \<times> nat \<times> u64 \<times> u64 \<times> cluster \<times> mem) result" where
  "copy_slice tx addr n copied idx write_len req cl m =
     (if unat n \<le> copied then Inr (False, idx, write_len, req, cl, m)
      else if length tx \<le> idx \<or> length (chunk_arr cl) \<le> tx ! idx then Inl OutOfBounds
      else
        let (real_len, c, m1) = chunk_write (addr + copied) (of_nat (unat n - copied)) (chunk_arr cl ! (tx ! idx)) m;
            cl1 = cl\<lparr>chunk_arr := (chunk_arr cl)[tx ! idx := c]\<rparr>;
            write_len1 = write_len + ucast real_len;
            req1 = req - ucast real_len
        in if full c then
             if Suc idx = length tx then Inr (True, Suc idx, write_len1, req1, cl1, m1)
             else copy_slice tx addr n (copied + unat real_len) (Suc idx) write_len1 req1 cl1 m1
           else copy_slice tx addr n (copied + unat real_len) idx write_len1 req1 cl1 m1)"
  by pat_completeness auto
termination
proof (relation "measures [\<lambda>(tx, addr, n, copied, idx, wl, rem, cl, m). length tx - idx, \<lambda>(tx, addr, n, copied, idx, wl, rem, cl, m). unat n - copied]", goal_cases)
  case 1
  show ?case by simp
next
  case (2 tx addr n copied idx wl rem cl m x real_len y c m1 cl1 wl1 rq1)
  from 2(2) have "idx < length tx" by simp
  then have "length tx - Suc idx < length tx - idx" by (rule diff_less_mono2 [OF lessI])
  then show ?case by simp
next
  case (3 tx addr n copied idx wl rem cl m x real_len y c m1 cl1 wl1 rq1)
  let ?k = "chunk_arr cl ! (tx ! idx)" and ?d = "of_nat (unat n - copied) :: u32"
  have d: "unat ?d = unat n - copied" using unat_less_u32 [of n] by (intro unat_of_nat_u32) simp
  have "real_len = (if bytes ?k - offset ?k \<le> ?d then bytes ?k - offset ?k else ?d)" "offset c = offset ?k + real_len" "bytes c = bytes ?k"
    using 3(3,4,5) by (auto simp: chunk_write_def Let_def)
  moreover have "offset c \<noteq> bytes c" using 3(9) by (simp add: full_def)
  ultimately have "real_len = ?d" by (auto split: if_splits)
  then have "unat real_len = unat n - copied" by (simp only: d)
  then show ?case using 3(1) by simp
qed

declare copy_slice.simps [simp del]

fun copy_bufs :: "nat list \<Rightarrow> buf list \<Rightarrow> nat \<Rightarrow> u64 \<Rightarrow> u64 \<Rightarrow> cluster \<Rightarrow> mem \<Rightarrow> (u64 \<times> buf list \<times> cluster \<times> mem) result" where
  "copy_bufs tx [] idx write_len req cl m = kassert (req = 0) (Inr (write_len, [], cl, m))"
| "copy_bufs tx (b # bs) idx write_len req cl m =
     rbind (copy_slice tx (b_cur b) (b_len b) 0 idx write_len req cl m) (\<lambda>(ret, idx1, write_len1, req1, cl1, m1).
       if ret then Inr (write_len1, b # bs, cl1, m1)
       else copy_bufs tx bs idx1 write_len1 req1 cl1 m1)"

definition tx_copy_chunk :: "bool \<Rightarrow> ptr \<Rightarrow> nat list \<Rightarrow> u64 \<Rightarrow> buf list \<Rightarrow> rdma_worker \<Rightarrow> mem \<Rightarrow>
  (u64 \<times> nat list \<times> buf list \<times> rdma_worker \<times> mem) result" where
  "tx_copy_chunk in_thr sock tx req bs w m =
     kassert (bs \<noteq> [])
       (rbind (get_reged_mem in_thr sock tx req w) (\<lambda>(r, tx1, w1).
          if r = 0 then Inr (0, tx1, bs, w1, m)
          else if length tx1 \<le> length tx then Inl OutOfBounds
          else rbind (copy_bufs tx1 bs (length tx) 0 req (tx_pool (w_disp w1)) m) (\<lambda>(n, bs1, cl, m1).
            Inr (n, tx1, bs1, w1\<lparr>w_disp := (w_disp w1)\<lparr>tx_pool := cl\<rparr>\<rparr>, m1))))"

section \<open>What the chunks hold\<close>

definition chunk_text :: "cluster \<Rightarrow> mem \<Rightarrow> nat \<Rightarrow> u8 list" where
  "chunk_text cl m i = mem_bytes m (buffer (chunk_arr cl ! i)) (unat (offset (chunk_arr cl ! i)))"

definition copied_text :: "nat list \<Rightarrow> cluster \<Rightarrow> mem \<Rightarrow> u8 list" where
  "copied_text tx cl m = concat (map (chunk_text cl m) tx)"

text \<open>The chunks tile the region of the pool.\<close>

definition tiled :: "cluster \<Rightarrow> bool" where
  "tiled cl \<longleftrightarrow> buffer_size cl \<noteq> 0 \<and>
     (\<forall>i < length (chunk_arr cl). bytes (chunk_arr cl ! i) = buffer_size cl \<and>
        buffer (chunk_arr cl ! i) = base cl + i * unat (buffer_size cl))"

definition outside :: "cluster \<Rightarrow> ptr \<Rightarrow> nat \<Rightarrow> bool" where
  "outside cl a n \<longleftrightarrow> a + n \<le> base cl \<or> base cl + length (chunk_arr cl) * unat (buffer_size cl) \<le> a"

text \<open>Writing is at chunk number \<open>idx\<close> of \<open>tx\<close>: the ones before it are full, it has room, the ones after it are empty.\<close>

definition cursor_at :: "nat list \<Rightarrow> nat \<Rightarrow> cluster \<Rightarrow> bool" where
  "cursor_at tx idx cl \<longleftrightarrow> idx < length tx \<and> distinct tx \<and> (\<forall>i \<in> set tx. i < length (chunk_arr cl)) \<and>
     (\<forall>j < idx. offset (chunk_arr cl ! (tx ! j)) = buffer_size cl) \<and>
     offset (chunk_arr cl ! (tx ! idx)) < buffer_size cl \<and>
     (\<forall>j. idx < j \<and> j < length tx \<longrightarrow> offset (chunk_arr cl ! (tx ! j)) = 0)"

text \<open>Only the cursors of the chunks of \<open>tx\<close> change.\<close>

definition same_pool :: "nat list \<Rightarrow> cluster \<Rightarrow> cluster \<Rightarrow> bool" where
  "same_pool tx cl cl' \<longleftrightarrow> (\<exists>arr. cl' = cl\<lparr>chunk_arr := arr\<rparr> \<and> length arr = length (chunk_arr cl) \<and>
     (\<forall>i < length arr. (\<exists>off. arr ! i = (chunk_arr cl ! i)\<lparr>offset := off\<rparr>) \<and> (i \<notin> set tx \<longrightarrow> arr ! i = chunk_arr cl ! i)))"

lemma same_pool_refl: "same_pool tx cl cl"
proof -
  have "\<exists>off. c = c\<lparr>offset := off\<rparr>" for c :: chunk by (rule exI [of _ "offset c"]) simp
  then show ?thesis unfolding same_pool_def by (intro exI [of _ "chunk_arr cl"]) simp
qed

lemma same_pool_trans:
  assumes "same_pool tx a b" "same_pool tx b c"
  shows "same_pool tx a c"
proof -
  from assms(1) obtain u where u: "b = a\<lparr>chunk_arr := u\<rparr>" "length u = length (chunk_arr a)"
    "\<forall>i < length u. (\<exists>off. u ! i = (chunk_arr a ! i)\<lparr>offset := off\<rparr>) \<and> (i \<notin> set tx \<longrightarrow> u ! i = chunk_arr a ! i)"
    by (auto simp: same_pool_def)
  from assms(2) obtain v where v: "c = b\<lparr>chunk_arr := v\<rparr>" "length v = length (chunk_arr b)"
    "\<forall>i < length v. (\<exists>off. v ! i = (chunk_arr b ! i)\<lparr>offset := off\<rparr>) \<and> (i \<notin> set tx \<longrightarrow> v ! i = chunk_arr b ! i)"
    by (auto simp: same_pool_def)
  have "c = a\<lparr>chunk_arr := v\<rparr>" "length v = length (chunk_arr a)" using u v by simp_all
  moreover have "(\<exists>off. v ! i = (chunk_arr a ! i)\<lparr>offset := off\<rparr>) \<and> (i \<notin> set tx \<longrightarrow> v ! i = chunk_arr a ! i)" if "i < length v" for i
  proof -
    from that u(1,2) v(2) have i: "i < length u" "chunk_arr b = u" by simp_all
    with u(3) v(3) that obtain o1 o2 where "u ! i = (chunk_arr a ! i)\<lparr>offset := o1\<rparr>" "v ! i = (u ! i)\<lparr>offset := o2\<rparr>" by metis
    then have "v ! i = (chunk_arr a ! i)\<lparr>offset := o2\<rparr>" by simp
    moreover have "i \<notin> set tx \<longrightarrow> v ! i = chunk_arr a ! i" using u(3) v(3) i that by simp
    ultimately show ?thesis by blast
  qed
  ultimately show ?thesis unfolding same_pool_def by blast
qed

lemma same_pool_simps:
  assumes "same_pool tx cl cl'"
  shows "buffer_size cl' = buffer_size cl" "base cl' = base cl" "length (chunk_arr cl') = length (chunk_arr cl)"
    "tiled cl' \<longleftrightarrow> tiled cl" "outside cl' a n \<longleftrightarrow> outside cl a n"
proof -
  from assms obtain arr where arr: "cl' = cl\<lparr>chunk_arr := arr\<rparr>" "length arr = length (chunk_arr cl)"
    "\<forall>i < length arr. \<exists>off. arr ! i = (chunk_arr cl ! i)\<lparr>offset := off\<rparr>" by (auto simp: same_pool_def)
  then have "bytes (arr ! i) = bytes (chunk_arr cl ! i)" "buffer (arr ! i) = buffer (chunk_arr cl ! i)" if "i < length arr" for i
    using that by fastforce+
  with arr show "tiled cl' \<longleftrightarrow> tiled cl" by (simp add: tiled_def)
  from arr show "buffer_size cl' = buffer_size cl" "base cl' = base cl" "length (chunk_arr cl') = length (chunk_arr cl)"
    "outside cl' a n \<longleftrightarrow> outside cl a n" by (simp_all add: outside_def)
qed

section \<open>One write\<close>

lemma copied_text_cong:
  assumes "\<And>i. i \<in> set tx \<Longrightarrow> chunk_text cl m i = chunk_text cl' m' i"
  shows "copied_text tx cl m = copied_text tx cl' m'"
  using assms by (auto simp: copied_text_def intro!: arg_cong [where f = concat] map_cong)

lemma copied_text_split:
  assumes "idx < length tx"
  shows "copied_text tx cl m = copied_text (take idx tx) cl m @ chunk_text cl m (tx ! idx) @ copied_text (drop (Suc idx) tx) cl m"
  using id_take_nth_drop [OF assms] by (metis (no_types, lifting) concat.simps(2) concat_append copied_text_def list.map(2) map_append)

lemma copied_text_empty:
  assumes "\<And>i. i \<in> set tx \<Longrightarrow> offset (chunk_arr cl ! i) = 0"
  shows "copied_text tx cl m = []"
  using assms by (simp add: copied_text_def chunk_text_def mem_bytes_def)

text \<open>Two chunks of a tiled pool do not overlap.\<close>

lemma tiles_apart:
  assumes "tiled cl" "i < length (chunk_arr cl)" "j < length (chunk_arr cl)" "i \<noteq> j"
  shows "buffer (chunk_arr cl ! i) + unat (buffer_size cl) \<le> buffer (chunk_arr cl ! j) \<or>
    buffer (chunk_arr cl ! j) + unat (buffer_size cl) \<le> buffer (chunk_arr cl ! i)"
proof -
  have *: "a * k + k \<le> b * k" if "a < b" for a b k :: nat
    using that mult_le_mono1 [of "Suc a" b k] by simp
  from assms(4) consider "i < j" | "j < i" by linarith
  then show ?thesis using assms(1-3) * [of i j "unat (buffer_size cl)"] * [of j i "unat (buffer_size cl)"]
    by cases (simp_all add: tiled_def)
qed

lemma write_step:
  assumes t: "tiled cl" and cur: "cursor_at tx idx cl" and out: "outside cl src (unat len)" and len: "len \<noteq> 0"
    and w: "chunk_write src len (chunk_arr cl ! (tx ! idx)) m = (r, c, m1)"
    and cl1: "cl1 = cl\<lparr>chunk_arr := (chunk_arr cl)[tx ! idx := c]\<rparr>"
  shows "unat r = min (unat (buffer_size cl) - unat (offset (chunk_arr cl ! (tx ! idx)))) (unat len)"
    and "same_pool tx cl cl1"
    and "\<forall>a. outside cl a 1 \<longrightarrow> m1 a = m a"
    and "copied_text tx cl1 m1 = copied_text tx cl m @ mem_bytes m src (unat r)"
    and "\<not> full c \<Longrightarrow> cursor_at tx idx cl1"
    and "full c \<Longrightarrow> Suc idx < length tx \<Longrightarrow> cursor_at tx (Suc idx) cl1"
    and "full c \<longleftrightarrow> unat (offset (chunk_arr cl ! (tx ! idx))) + unat r = unat (buffer_size cl)"
proof -
  let ?i = "tx ! idx" let ?k = "chunk_arr cl ! ?i" let ?b = "unat (buffer_size cl)" let ?o = "unat (offset ?k)"
  have idx: "idx < length tx" and d: "distinct tx" and i: "?i < length (chunk_arr cl)" and ok: "offset ?k < buffer_size cl"
    using cur by (auto simp: cursor_at_def)
  have kb: "bytes ?k = buffer_size cl" "buffer ?k = base cl + ?i * ?b" using t i by (simp_all add: tiled_def)
  have c: "r = min (buffer_size cl - offset ?k) len" "c = ?k\<lparr>offset := offset ?k + r\<rparr>" "m1 = memcpy (buffer ?k + ?o) src (unat r) m"
    using w by (auto simp: chunk_write_def Let_def kb min_def)
  have le: "offset ?k \<le> buffer_size cl" using ok by simp
  show r: "unat r = min (?b - ?o) (unat len)" using c(1) le by (simp add: unat_min_u32 unat_sub_le)
  have ob: "?o < ?b" using ok by (simp add: word_less_nat_alt)
  have oc: "unat (offset c) = ?o + unat r" using cursor_advance(2) [OF le, of len] c r by simp
  show full: "full c \<longleftrightarrow> ?o + unat r = ?b" using oc kb c(2) by (simp add: full_def word_unat_eq_iff)
  show same: "same_pool tx cl cl1"
    unfolding same_pool_def
  proof (intro exI [of _ "(chunk_arr cl)[?i := c]"] conjI allI impI)
    show "cl1 = cl\<lparr>chunk_arr := (chunk_arr cl)[?i := c]\<rparr>" by (rule cl1)
    show "length ((chunk_arr cl)[?i := c]) = length (chunk_arr cl)" by simp
    show "\<exists>off. (chunk_arr cl)[?i := c] ! j = (chunk_arr cl ! j)\<lparr>offset := off\<rparr>" if "j < length ((chunk_arr cl)[?i := c])" for j
    proof (cases "j = ?i")
      case True
      with i c(2) show ?thesis by auto
    next
      case False
      then have "(chunk_arr cl)[?i := c] ! j = (chunk_arr cl ! j)\<lparr>offset := offset (chunk_arr cl ! j)\<rparr>" by simp
      then show ?thesis by blast
    qed
    show "(chunk_arr cl)[?i := c] ! j = chunk_arr cl ! j" if "j \<notin> set tx" for j
      using that idx by (metis nth_list_update_neq nth_mem)
  qed
  have arr: "chunk_arr cl1 ! ?i = c" "\<And>j. j \<noteq> ?i \<Longrightarrow> chunk_arr cl1 ! j = chunk_arr cl ! j" using cl1 i by simp_all
  have inside: "base cl \<le> buffer ?k + ?o" "buffer ?k + ?o + unat r \<le> buffer ?k + ?b"
    "buffer ?k + ?b \<le> base cl + length (chunk_arr cl) * ?b"
    using kb r ob mult_le_mono1 [of "Suc ?i" "length (chunk_arr cl)" ?b] i by simp_all
  show "\<forall>a. outside cl a 1 \<longrightarrow> m1 a = m a"
    using inside c(3) by (auto simp: outside_def memcpy_def)
  have src: "src + unat r \<le> buffer ?k + ?o \<or> buffer ?k + ?o + unat r \<le> src"
    using out inside r by (auto simp: outside_def)
  have this_one: "chunk_text cl1 m1 ?i = chunk_text cl m ?i @ mem_bytes m src (unat r)"
  proof -
    have "mem_bytes m1 (buffer ?k) ?o = mem_bytes m (buffer ?k) ?o" unfolding c(3) by (rule mem_bytes_memcpy_disjoint) simp
    moreover have "mem_bytes m1 (buffer ?k + ?o) (unat r) = mem_bytes m src (unat r)" unfolding c(3) by (rule mem_bytes_memcpy)
    ultimately show ?thesis using oc c(2) by (simp add: chunk_text_def arr(1) mem_bytes_append)
  qed
  have others: "chunk_text cl1 m1 j = chunk_text cl m j" if "j \<in> set tx" "j \<noteq> ?i" "unat (offset (chunk_arr cl ! j)) \<le> ?b" for j
  proof -
    have j: "j < length (chunk_arr cl)" using cur that(1) by (auto simp: cursor_at_def)
    from tiles_apart [OF t j i that(2)] inside(2) that(3)
    have "buffer (chunk_arr cl ! j) + unat (offset (chunk_arr cl ! j)) \<le> buffer ?k + ?o \<or> buffer ?k + ?o + unat r \<le> buffer (chunk_arr cl ! j)"
      by linarith
    then show ?thesis unfolding chunk_text_def arr(2) [OF that(2)] c(3) by (rule mem_bytes_memcpy_disjoint)
  qed
  have before: "j \<noteq> ?i \<and> unat (offset (chunk_arr cl ! j)) \<le> ?b" if "j \<in> set (take idx tx)" for j
    using that cur idx by (fastforce simp: cursor_at_def in_set_conv_nth nth_eq_iff_index_eq)
  have after: "j \<noteq> ?i \<and> offset (chunk_arr cl ! j) = 0" if "j \<in> set (drop (Suc idx) tx)" for j
  proof -
    from that obtain l where "l < length tx - Suc idx" "j = tx ! (Suc idx + l)" by (auto simp: in_set_conv_nth)
    then show ?thesis using cur idx d by (auto simp: cursor_at_def nth_eq_iff_index_eq)
  qed
  have "copied_text (take idx tx) cl1 m1 = copied_text (take idx tx) cl m"
    using before others by (intro copied_text_cong) (auto dest: in_set_takeD)
  moreover have "copied_text (drop (Suc idx) tx) cl1 m1 = []" "copied_text (drop (Suc idx) tx) cl m = []"
    using after arr(2) by (auto intro!: copied_text_empty)
  ultimately show "copied_text tx cl1 m1 = copied_text tx cl m @ mem_bytes m src (unat r)"
    unfolding copied_text_split [OF idx] this_one by simp
  have offs: "offset (chunk_arr cl1 ! (tx ! j)) = (if j = idx then offset c else offset (chunk_arr cl ! (tx ! j)))" if "j < length tx" for j
    using arr d idx that by (simp add: nth_eq_iff_index_eq)
  have bs: "buffer_size cl1 = buffer_size cl" "length (chunk_arr cl1) = length (chunk_arr cl)" using same_pool_simps [OF same] by simp_all
  show "cursor_at tx idx cl1" if "\<not> full c"
  proof -
    have "?o + unat r \<le> ?b" using r ob by simp
    then have "offset c < buffer_size cl" using that full oc by (simp add: word_less_nat_alt)
    with cur offs bs show ?thesis by (simp add: cursor_at_def)
  qed
  show "cursor_at tx (Suc idx) cl1" if "full c" "Suc idx < length tx"
  proof -
    have "offset c = buffer_size cl" using that(1) kb c(2) by (simp add: full_def)
    with cur offs bs that(2) t show ?thesis by (auto simp: cursor_at_def tiled_def less_Suc_eq word_less_nat_alt unat_gt_0)
  qed
qed

lemma length_copied_text:
  assumes "cursor_at tx idx cl"
  shows "length (copied_text tx cl m) = idx * unat (buffer_size cl) + unat (offset (chunk_arr cl ! (tx ! idx)))"
    and "length (copied_text tx cl m) < length tx * unat (buffer_size cl)"
proof -
  let ?b = "unat (buffer_size cl)" and ?o = "unat (offset (chunk_arr cl ! (tx ! idx)))"
  have idx: "idx < length tx" using assms by (simp add: cursor_at_def)
  have "length (copied_text (take k tx) cl m) = k * ?b" if "k \<le> idx" for k
    using that
  proof (induction k)
    case (Suc k)
    then have "take (Suc k) tx = take k tx @ [tx ! k]" "offset (chunk_arr cl ! (tx ! k)) = buffer_size cl"
      using assms idx by (simp_all add: take_Suc_conv_app_nth cursor_at_def)
    with Suc show ?case by (simp add: copied_text_def chunk_text_def)
  qed (simp add: copied_text_def)
  moreover have "copied_text (drop (Suc idx) tx) cl m = []"
    using assms by (intro copied_text_empty) (auto simp: cursor_at_def in_set_conv_nth)
  ultimately show l: "length (copied_text tx cl m) = idx * ?b + ?o"
    unfolding copied_text_split [OF idx] by (simp add: chunk_text_def)
  have "?o < ?b" using assms by (simp add: cursor_at_def word_less_nat_alt)
  with l mult_le_mono1 [of "Suc idx" "length tx" ?b] idx show "length (copied_text tx cl m) < length tx * ?b" by simp
qed

section \<open>The loops copy\<close>

text \<open>The bytes still free in the chunks.\<close>

definition room :: "nat list \<Rightarrow> cluster \<Rightarrow> mem \<Rightarrow> nat" where
  "room tx cl m = length tx * unat (buffer_size cl) - length (copied_text tx cl m)"

lemma mem_bytes_outside:
  assumes "\<forall>a. outside cl a 1 \<longrightarrow> m1 a = m a" "outside cl a n"
  shows "mem_bytes m1 a n = mem_bytes m a n"
  using assms by (intro nth_equalityI) (auto simp: outside_def)

lemma copy_slice_ok:
  assumes "tiled cl" "cursor_at tx idx cl" "outside cl addr (unat n)" "copied \<le> unat n"
  shows "\<exists>ret idx' cl' m'. let k = min (unat n - copied) (room tx cl m) in
      copy_slice tx addr n copied idx wl rem cl m = Inr (ret, idx', wl + of_nat k, rem - of_nat k, cl', m') \<and>
      copied_text tx cl' m' = copied_text tx cl m @ mem_bytes m (addr + copied) k \<and> same_pool tx cl cl' \<and>
      (\<forall>a. outside cl a 1 \<longrightarrow> m' a = m a) \<and> (if ret then copied < unat n \<and> room tx cl' m' = 0 else cursor_at tx idx' cl')"
  using assms
proof (induction tx addr n copied idx wl rem cl m rule: copy_slice.induct)
  case (1 tx addr n copied idx wl rem cl m)
  show ?case
  proof (cases "unat n \<le> copied")
    case True
    with 1(6) 1(4) show ?thesis
      by (subst copy_slice.simps) (auto simp: Let_def same_pool_refl mem_bytes_def)
  next
    case False
    let ?i = "tx ! idx" let ?k = "chunk_arr cl ! ?i" let ?b = "unat (buffer_size cl)" let ?o = "unat (offset ?k)"
    let ?d = "of_nat (unat n - copied) :: u32"
    have d: "unat ?d = unat n - copied" using unat_less_u32 [of n] by (intro unat_of_nat_u32) simp
    with False have d0: "?d \<noteq> 0" by (metis diff_is_0_eq unat_0)
    have out: "outside cl (addr + copied) (unat ?d)" using 1(5,6) unfolding d by (auto simp: outside_def)
    have ok: "\<not> (length tx \<le> idx \<or> length (chunk_arr cl) \<le> ?i)" using 1(4) by (auto simp: cursor_at_def not_le)
    obtain r c m1 where w: "chunk_write (addr + copied) ?d ?k m = (r, c, m1)" by (cases "chunk_write (addr + copied) ?d ?k m") auto
    define cl1 where "cl1 = cl\<lparr>chunk_arr := (chunk_arr cl)[?i := c]\<rparr>"
    note step = write_step [OF 1(3,4) out d0 w cl1_def]
    note sp = same_pool_simps [OF step(2)]
    have r: "unat r = min (?b - ?o) (unat n - copied)" using step(1) d by simp
    have ur: "(ucast r :: u64) = of_nat (unat r)" by (metis of_nat_unat unat_ucast_u32_u64)
    have len1: "length (copied_text tx cl1 m1) = length (copied_text tx cl m) + unat r" using step(4) by simp
    note len = length_copied_text [OF 1(4), of m]
    have room1: "room tx cl1 m1 = room tx cl m - unat r" using len1 sp(1) by (simp add: room_def)
    have room_ge: "?b - ?o \<le> room tx cl m"
      using len(1) mult_le_mono1 [of "Suc idx" "length tx" ?b] ok by (simp add: room_def)
    have tiled1: "tiled cl1" "outside cl1 addr (unat n)" "copied + unat r \<le> unat n" using 1(3,5) sp r False by auto
    have combine: "\<exists>ret idx' cl' m'. let k = min (unat n - copied) (room tx cl m) in
        copy_slice tx addr n copied idx wl rem cl m = Inr (ret, idx', wl + of_nat k, rem - of_nat k, cl', m') \<and>
        copied_text tx cl' m' = copied_text tx cl m @ mem_bytes m (addr + copied) k \<and> same_pool tx cl cl' \<and>
        (\<forall>a. outside cl a 1 \<longrightarrow> m' a = m a) \<and> (if ret then copied < unat n \<and> room tx cl' m' = 0 else cursor_at tx idx' cl')"
      if rest: "copy_slice tx addr n copied idx wl rem cl m = copy_slice tx addr n (copied + unat r) j (wl + ucast r) (rem - ucast r) cl1 m1"
        and ih: "\<exists>ret idx' cl' m'. let k = min (unat n - (copied + unat r)) (room tx cl1 m1) in
          copy_slice tx addr n (copied + unat r) j (wl + ucast r) (rem - ucast r) cl1 m1 =
            Inr (ret, idx', wl + ucast r + of_nat k, rem - ucast r - of_nat k, cl', m') \<and>
          copied_text tx cl' m' = copied_text tx cl1 m1 @ mem_bytes m1 (addr + (copied + unat r)) k \<and> same_pool tx cl1 cl' \<and>
          (\<forall>a. outside cl1 a 1 \<longrightarrow> m' a = m1 a) \<and>
          (if ret then copied + unat r < unat n \<and> room tx cl' m' = 0 else cursor_at tx idx' cl')" for j
    proof -
      let ?k1 = "min (unat n - (copied + unat r)) (room tx cl1 m1)" and ?kk = "min (unat n - copied) (room tx cl m)"
      have "unat r \<le> unat n - copied" "unat r \<le> room tx cl m" using r room_ge by simp_all
      then have k: "?kk = unat r + ?k1" unfolding room1 by arith
      have "outside cl (addr + (copied + unat r)) ?k1" using 1(5) tiled1(3) by (auto simp: outside_def)
      from mem_bytes_outside [OF step(3) this]
      have "mem_bytes m1 (addr + (copied + unat r)) ?k1 = mem_bytes m (addr + copied + unat r) ?k1" by (simp add: add.assoc)
      then have joined: "copied_text tx cl1 m1 @ mem_bytes m1 (addr + (copied + unat r)) ?k1 = copied_text tx cl m @ mem_bytes m (addr + copied) ?kk"
        unfolding k mem_bytes_append step(4) by simp
      have of_k: "(of_nat ?kk :: u64) = ucast r + of_nat ?k1" unfolding k ur by simp
      from ih obtain ret idx' cl' m' where ih': "copy_slice tx addr n (copied + unat r) j (wl + ucast r) (rem - ucast r) cl1 m1 =
            Inr (ret, idx', wl + ucast r + of_nat ?k1, rem - ucast r - of_nat ?k1, cl', m')"
          "copied_text tx cl' m' = copied_text tx cl1 m1 @ mem_bytes m1 (addr + (copied + unat r)) ?k1" "same_pool tx cl1 cl'"
          "\<forall>a. outside cl1 a 1 \<longrightarrow> m' a = m1 a"
          "if ret then copied + unat r < unat n \<and> room tx cl' m' = 0 else cursor_at tx idx' cl'"
        unfolding Let_def by blast
      have "same_pool tx cl cl'" by (rule same_pool_trans [OF step(2) ih'(3)])
      moreover have "\<forall>a. outside cl a 1 \<longrightarrow> m' a = m a" using ih'(4) step(3) sp(5) by simp
      ultimately show ?thesis using ih'(1,2,5) unfolding rest Let_def joined of_k
        by (intro exI [of _ ret] exI [of _ idx'] exI [of _ cl'] exI [of _ m']) (auto simp: add.assoc diff_diff_eq split: if_splits)
    qed
    have unfold: "copy_slice tx addr n copied idx wl rem cl m =
      (if full c then if Suc idx = length tx then Inr (True, Suc idx, wl + ucast r, rem - ucast r, cl1, m1)
         else copy_slice tx addr n (copied + unat r) (Suc idx) (wl + ucast r) (rem - ucast r) cl1 m1
       else copy_slice tx addr n (copied + unat r) idx (wl + ucast r) (rem - ucast r) cl1 m1)"
      using False ok w by (subst copy_slice.simps) (simp add: cl1_def Let_def)
    show ?thesis
    proof (cases "full c")
      case f: True
      show ?thesis
      proof (cases "Suc idx = length tx")
        case True
        have "room tx cl m = ?b - ?o" using len(1) True [symmetric] by (simp add: room_def)
        then have "unat r = min (unat n - copied) (room tx cl m)" "room tx cl1 m1 = 0" using r room1 step(7) f by auto
        with f True step(2,3,4) False show ?thesis unfolding unfold Let_def ur
          by (intro exI [of _ True] exI [of _ "Suc idx"] exI [of _ cl1] exI [of _ m1]) simp
      next
        case no: False
        then have cur1: "cursor_at tx (Suc idx) cl1" using step(6) f ok by simp
        show ?thesis
          by (rule combine [of "Suc idx"]) (use unfold f no in simp, rule 1(1) [OF False ok w [symmetric] refl refl cl1_def refl refl f no tiled1(1) cur1 tiled1(2,3)])
      qed
    next
      case f: False
      show ?thesis
        by (rule combine [of idx]) (use unfold f in simp, rule 1(2) [OF False ok w [symmetric] refl refl cl1_def refl refl f tiled1(1) step(5) [OF f] tiled1(2,3)])
    qed
  qed
qed

text \<open>The bytes of the buffers.\<close>

definition bufs_text :: "mem \<Rightarrow> buf list \<Rightarrow> u8 list" where
  "bufs_text m bs = concat (map (\<lambda>b. mem_bytes m (b_cur b) (unat (b_len b))) bs)"

lemma copy_bufs_ok:
  assumes "tiled cl" "cursor_at tx idx cl" "\<forall>b \<in> set bs. outside cl (b_cur b) (unat (b_len b))"
    and "length (bufs_text m bs) \<le> room tx cl m" "rem = of_nat (length (bufs_text m bs))"
  shows "\<exists>bs' cl' m'. copy_bufs tx bs idx wl rem cl m = Inr (wl + of_nat (length (bufs_text m bs)), bs', cl', m') \<and>
      copied_text tx cl' m' = copied_text tx cl m @ bufs_text m bs \<and> same_pool tx cl cl' \<and>
      (\<forall>a. outside cl a 1 \<longrightarrow> m' a = m a) \<and> (bs' = [] \<longleftrightarrow> length (bufs_text m bs) < room tx cl m)"
  using assms
proof (induction bs arbitrary: idx wl rem cl m)
  case Nil
  have "0 < room tx cl m" using length_copied_text(2) [OF Nil(2), of m] by (simp add: room_def)
  with Nil show ?case by (simp add: bufs_text_def same_pool_refl)
next
  case (Cons b bs)
  let ?n = "unat (b_len b)"
  have out: "outside cl (b_cur b) ?n" using Cons(4) by simp
  have split: "bufs_text m (b # bs) = mem_bytes m (b_cur b) ?n @ bufs_text m bs" by (simp add: bufs_text_def)
  have k: "min ?n (room tx cl m) = ?n" using Cons(5) split by simp
  from copy_slice_ok [OF Cons(2,3) out, of 0 m wl rem] k obtain ret idx' cl' m' where
    s: "copy_slice tx (b_cur b) (b_len b) 0 idx wl rem cl m = Inr (ret, idx', wl + of_nat ?n, rem - of_nat ?n, cl', m')"
      "copied_text tx cl' m' = copied_text tx cl m @ mem_bytes m (b_cur b) ?n" "same_pool tx cl cl'"
      "\<forall>a. outside cl a 1 \<longrightarrow> m' a = m a" "if ret then 0 < ?n \<and> room tx cl' m' = 0 else cursor_at tx idx' cl'"
    by (auto simp: Let_def)
  note sp = same_pool_simps [OF s(3)]
  have room': "room tx cl' m' = room tx cl m - ?n" using s(2) sp(1) by (simp add: room_def)
  have rest: "bufs_text m' bs = bufs_text m bs"
    using mem_bytes_outside [OF s(4)] Cons(4) by (auto simp: bufs_text_def intro!: arg_cong [where f = concat])
  have rem': "rem - of_nat ?n = of_nat (length (bufs_text m' bs))" using Cons(6) split rest by simp
  show ?case
  proof (cases ret)
    case True
    then have "room tx cl m \<le> ?n" using s(5) room' by simp
    moreover have "length (bufs_text m (b # bs)) = ?n + length (bufs_text m bs)" using split by simp
    ultimately have "length (bufs_text m bs) = 0" "\<not> length (bufs_text m (b # bs)) < room tx cl m" using Cons(5) by linarith+
    then have none: "bufs_text m bs = []" "\<not> length (bufs_text m (b # bs)) < room tx cl m" by simp_all
    have "copy_bufs tx (b # bs) idx wl rem cl m = Inr (wl + of_nat (length (bufs_text m (b # bs))), b # bs, cl', m')"
      using s(1) True none(1) split by simp
    with none s(2,3,4) split show ?thesis by auto
  next
    case False
    with s(5) have cur: "cursor_at tx idx' cl'" by simp
    have "tiled cl'" "\<forall>b \<in> set bs. outside cl' (b_cur b) (unat (b_len b))" "length (bufs_text m' bs) \<le> room tx cl' m'"
      using Cons(2,4,5) sp(4,5) rest room' split by simp_all
    from Cons.IH [OF this(1) cur this(2,3) rem', of "wl + of_nat ?n"] obtain bs' cl'' m'' where
      r: "copy_bufs tx bs idx' (wl + of_nat ?n) (rem - of_nat ?n) cl' m' = Inr (wl + of_nat ?n + of_nat (length (bufs_text m bs)), bs', cl'', m'')"
        "copied_text tx cl'' m'' = copied_text tx cl' m' @ bufs_text m bs" "same_pool tx cl' cl''"
        "\<forall>a. outside cl' a 1 \<longrightarrow> m'' a = m' a" "bs' = [] \<longleftrightarrow> length (bufs_text m bs) < room tx cl' m'"
      unfolding rest by blast
    have "copy_bufs tx (b # bs) idx wl rem cl m = Inr (wl + of_nat (length (bufs_text m (b # bs))), bs', cl'', m'')"
      using s(1) r(1) False split by (simp add: add.assoc)
    moreover have "same_pool tx cl cl''" by (rule same_pool_trans [OF s(3) r(3)])
    moreover have "\<forall>a. outside cl a 1 \<longrightarrow> m'' a = m a" using r(4) s(4) sp(5) by simp
    moreover have "bs' = [] \<longleftrightarrow> length (bufs_text m (b # bs)) < room tx cl m" using r(5) room' split by auto
    ultimately show ?thesis using r(2) s(2) split by (intro exI [of _ bs'] exI [of _ cl''] exI [of _ m'']) simp
  qed
qed

section \<open>Properties\<close>

lemma cluster_inv_same_pool:
  assumes "cluster_inv cl" "same_pool tx cl cl'" "set tx \<inter> set (free_chunks cl) = {}"
  shows "cluster_inv cl'"
proof -
  from assms(2) obtain arr where arr: "cl' = cl\<lparr>chunk_arr := arr\<rparr>" "length arr = length (chunk_arr cl)"
    "\<forall>i < length arr. (\<exists>off. arr ! i = (chunk_arr cl ! i)\<lparr>offset := off\<rparr>) \<and> (i \<notin> set tx \<longrightarrow> arr ! i = chunk_arr cl ! i)"
    by (auto simp: same_pool_def)
  have "bytes (arr ! i) = bytes (chunk_arr cl ! i) \<and> buffer (arr ! i) = buffer (chunk_arr cl ! i)" if "i < length arr" for i
    using arr(3) that by fastforce
  moreover have "arr ! i = chunk_arr cl ! i" if "i \<in> set (free_chunks cl)" "i < length arr" for i using arr(3) assms(3) that by blast
  ultimately show ?thesis using assms(1) arr(1,2) by (auto simp: cluster_inv_def)
qed

text \<open>C26: Copying into send chunks is exact. When the pool has enough free chunks, \<open>tx_copy_chunk\<close> on buffers outside the pool, less than 2 GiB
  in all and with \<open>req_copy_len\<close> their total, returns that total: the chunks it took, in the order of the vector, hold the bytes of the
  buffers in order, the chunks it took are the least number that can hold them, no other memory and no other chunk changes, and the pool
  keeps its invariant. The iterator reaches the end exactly when the last chunk has room left: when the bytes fill the
  chunks to the last byte, the function returns from inside the loop and leaves the iterator at the last buffer.\<close>

theorem tx_copy_exact:
  assumes "cluster_inv (tx_pool (w_disp w))" "buffer_size (tx_pool (w_disp w)) \<noteq> 0" "bs \<noteq> []"
    and "\<forall>b \<in> set bs. outside (tx_pool (w_disp w)) (b_cur b) (unat (b_len b))"
    and "0 < length (bufs_text m bs)" "length (bufs_text m bs) + unat (buffer_size (tx_pool (w_disp w))) < 2 ^ 31"
    and "length (bufs_text m bs) \<le> length (free_chunks (tx_pool (w_disp w))) * unat (buffer_size (tx_pool (w_disp w)))"
  shows "\<exists>tx bs' w' m' k. tx_copy_chunk True sock [] (of_nat (length (bufs_text m bs))) bs w m = Inr (of_nat (length (bufs_text m bs)), tx, bs', w', m') \<and>
    copied_text tx (tx_pool (w_disp w')) m' = bufs_text m bs \<and> length tx = k \<and> distinct tx \<and> set tx \<subseteq> set (free_chunks (tx_pool (w_disp w))) \<and>
    length (bufs_text m bs) \<le> k * unat (buffer_size (tx_pool (w_disp w))) \<and>
    k * unat (buffer_size (tx_pool (w_disp w))) < length (bufs_text m bs) + unat (buffer_size (tx_pool (w_disp w))) \<and>
    cluster_inv (tx_pool (w_disp w')) \<and> (\<forall>a. outside (tx_pool (w_disp w)) a 1 \<longrightarrow> m' a = m a) \<and>
    (bs' = [] \<longleftrightarrow> length (bufs_text m bs) < k * unat (buffer_size (tx_pool (w_disp w))))"
proof -
  let ?p = "tx_pool (w_disp w)" let ?b = "unat (buffer_size ?p)" let ?n = "length (bufs_text m bs)" let ?k = "(?n + ?b - 1) div ?b"
  have un: "unat (of_nat ?n :: u64) = ?n" using assms(6) by (simp add: unat_of_nat take_bit_nat_eq_self)
  have b0: "0 < ?b" using assms(2) by (simp add: unat_gt_0)
  from get_buffers_ok [OF assms(1,2), of "of_nat ?n" "[]"] assms(6) un
  have cover: "?n \<le> ?k * ?b" "?k * ?b < ?n + ?b" by (simp_all add: Let_def)
  have free: "?k \<le> length (free_chunks ?p)"
  proof (rule ccontr)
    assume "\<not> ?thesis"
    then have "Suc (length (free_chunks ?p)) * ?b \<le> ?k * ?b" by (intro mult_le_mono1) simp
    with cover(2) assms(7) show False by simp
  qed
  have k0: "0 < ?k" using cover(1) assms(5) by (metis gr0I mult_is_0 not_le)
  from get_reged_mem_ok [OF assms(1,2), of "of_nat ?n" sock "[]"] assms(6) un free
  obtain tx w1 where g: "get_reged_mem True sock [] (of_nat ?n) w = Inr (int ?k, tx, w1)" "(tx, tx_pool (w_disp w1)) = take_chunks ?k [] ?p"
    by (auto simp: Let_def)
  let ?q = "tx_pool (w_disp w1)"
  have tk: "tx = fst (take_chunks ?k [] ?p)" "?q = snd (take_chunks ?k [] ?p)" using g(2) by (metis fst_conv snd_conv)+
  note fr = take_chunks_frame [OF free, of "[]", folded tk(2)] and tf = take_chunks_free [OF free, of "[]", folded tk]
  have inv: "cluster_inv ?q" unfolding tk(2) by (rule cluster_inv_take_chunks [OF assms(1) free])
  have tx: "length tx = ?k" "distinct tx" "set tx \<subseteq> set (free_chunks ?p)" "set tx \<inter> set (free_chunks ?q) = {}"
    using tf free assms(1) set_take_disj_set_drop_if_distinct [of "free_chunks ?p" "length (free_chunks ?p) - ?k" "length (free_chunks ?p) - ?k"]
    by (auto simp: cluster_inv_def dest: in_set_dropD)
  have tiled: "tiled ?q" using inv fr assms(2) by (simp add: tiled_def cluster_inv_def)
  have out: "outside ?q a l \<longleftrightarrow> outside ?p a l" for a l using fr by (simp add: outside_def)
  have zero: "offset (chunk_arr ?q ! i) = 0" if "i \<in> set tx" for i using fr tx(3) assms(1) that by (auto simp: cluster_inv_def)
  have valid: "\<forall>i \<in> set tx. i < length (chunk_arr ?q)" using tx(3) assms(1) fr by (auto simp: cluster_inv_def)
  have cur: "cursor_at tx 0 ?q"
    using tx(1,2) k0 zero valid assms(2) fr by (auto simp: cursor_at_def word_less_nat_alt unat_gt_0)
  have empty: "copied_text tx ?q m = []" by (rule copied_text_empty) (rule zero)
  then have room: "room tx ?q m = ?k * ?b" using tx(1) fr by (simp add: room_def)
  from copy_bufs_ok [OF tiled cur _ _ refl, of bs m 0] assms(4) out cover(1) room obtain bs' cl' m' where
    c: "copy_bufs tx bs 0 0 (of_nat ?n) ?q m = Inr (of_nat ?n, bs', cl', m')" "copied_text tx cl' m' = bufs_text m bs"
      "same_pool tx ?q cl'" "\<forall>a. outside ?q a 1 \<longrightarrow> m' a = m a" "bs' = [] \<longleftrightarrow> ?n < ?k * ?b"
    using empty by auto
  have "tx \<noteq> []" using tx(1) k0 by (metis length_greater_0_conv)
  let ?w = "w1\<lparr>w_disp := (w_disp w1)\<lparr>tx_pool := cl'\<rparr>\<rparr>"
  have "tx_copy_chunk True sock [] (of_nat ?n) bs w m = Inr (of_nat ?n, tx, bs', ?w, m')"
    using assms(3) g(1) k0 \<open>tx \<noteq> []\<close> c(1) by (simp add: tx_copy_chunk_def)
  moreover have "cluster_inv (tx_pool (w_disp ?w))" using cluster_inv_same_pool [OF inv c(3) tx(4)] by simp
  ultimately show ?thesis using c(2,4,5) cover tx(1-3) out
    by (intro exI [of _ tx] exI [of _ bs'] exI [of _ ?w] exI [of _ m'] exI [of _ ?k]) simp
qed

definition two_slices :: "buf list" where
  "two_slices = [buf_of 10 5, buf_of 20 3]"

theorem tx_copy_exact_witness:
  "\<exists>w tx bs' w' m'. tx_copy_chunk True 5 [] 8 two_slices w (\<lambda>a. of_nat a) = Inr (8, tx, bs', w', m') \<and>
    copied_text tx (tx_pool (w_disp w')) m' = bufs_text (\<lambda>a. of_nat a) two_slices \<and> length tx = 2"
proof -
  obtain cl where cl: "fill 4 4096 1 7 (cluster_new 4 0) = Some (Inr cl)" "cluster_inv cl"
    "free_chunks cl = [0 ..< 4]" and bs: "buffer_size cl = 4" and b: "base cl = 4096"
    using fill_ok [of "cluster_new 4 0" 4096 1 4 7] by (auto simp: cluster_new_def)
  define w where "w = \<lparr>w_self = 9, pending_sent_conns = [], is_pending = \<lambda>s. False, w_submitted = [], w_faulted = [], w_disp = disp_new cl\<rparr>"
  have p: "tx_pool (w_disp w) = cl" by (simp add: w_def disp_new_def)
  have n: "length (bufs_text (\<lambda>a. of_nat a) two_slices) = 8" by (simp add: bufs_text_def two_slices_def buf_of_def)
  have "two_slices \<noteq> []" "\<forall>b \<in> set two_slices. outside (tx_pool (w_disp w)) (b_cur b) (unat (b_len b))"
    by (simp_all add: two_slices_def buf_of_def outside_def p b)
  from tx_copy_exact [of w two_slices "\<lambda>a. of_nat a" 5, unfolded n p bs, OF cl(2) _ this(1) this(2) [unfolded p]]
  obtain tx bs' w' m' k where t: "tx_copy_chunk True 5 [] (of_nat 8) two_slices w (\<lambda>a. of_nat a) = Inr (of_nat 8, tx, bs', w', m')"
    "copied_text tx (tx_pool (w_disp w')) m' = bufs_text (\<lambda>a. of_nat a) two_slices" "length tx = k" "8 \<le> k * 4" "k * 4 < 8 + 4"
    using cl(3) by auto
  then have "k = 2" by arith
  with t show ?thesis by (intro exI [of _ w] exI [of _ tx] exI [of _ bs'] exI [of _ w'] exI [of _ m']) simp
qed

end
