(* ===== verification/SpinLock.thy ===== *)
theory SpinLock
  imports Worker
begin

text \<open>
  The spin lock (\<open>common::spinlock\<close> in \<open>src/src/common/common.h\<close>) and its two users in
  \<open>src/src/network/Stack.cc\<close>: \<open>NetworkStack::get_worker\<close>, called by any thread, and \<open>NetworkStack::stop\<close>, which joins the worker
  threads while it holds the lock. The threads are a step relation with one step per atomic access; the workers' own loops appear
  as far as they matter here: a worker thread may call \<open>get_worker\<close> (as \<open>Processor::accept\<close> does) and ends when it is told to.
\<close>

section \<open>The lock\<close>

text \<open>\<open>std::atomic_flag::test_and_set\<close> returns the old value; \<open>spin_lock\<close> repeats it until it returns false.\<close>

definition test_and_set :: "bool \<Rightarrow> bool \<times> bool" where
  "test_and_set af = (af, True)"

definition spin_unlock :: "bool \<Rightarrow> bool" where
  "spin_unlock af = False"

text \<open>\<open>spin_lock\<close> when the flag has the value \<open>seen n\<close> at its attempt number \<open>n\<close>: the number of the attempt that succeeds.\<close>

partial_function (option) spin_lock :: "(nat \<Rightarrow> bool) \<Rightarrow> nat \<Rightarrow> nat option" where
  "spin_lock seen n = (if fst (test_and_set (seen n)) then spin_lock seen (Suc n) else Some n)"

section \<open>Threads\<close>

datatype caller_pc =
    Loop | Spin | Scan nat nat "nat option" | Picked "nat option" | Aborted | Ended

datatype stop_pc = Before | StopSpin | Tell nat | Join nat | Stopped

record spin_state =
  sp_flag :: bool
  sp_loads :: "nat list"
  sp_told :: "nat set"
  sp_main :: stop_pc
  sp_thr :: "nat \<Rightarrow> caller_pc"
  sp_log :: "nat list"

definition set_thr :: "nat \<Rightarrow> caller_pc \<Rightarrow> spin_state \<Rightarrow> spin_state" where
  "set_thr j pc s = s\<lparr>sp_thr := (sp_thr s)(j := pc)\<rparr>"

text \<open>One step of \<open>get_worker\<close> on thread \<open>j\<close>: the loop reads the references of one worker at a time, and the reference is counted
  after the lock is released. \<open>sp_log\<close> records the workers chosen.\<close>

inductive caller_step :: "nat \<Rightarrow> spin_state \<Rightarrow> spin_state \<Rightarrow> bool" where
  call: "sp_thr s j = Loop \<Longrightarrow> caller_step j s (set_thr j Spin s)"
| attempt: "sp_thr s j = Spin \<Longrightarrow> test_and_set (sp_flag s) = (old, af) \<Longrightarrow>
    caller_step j s (set_thr j (if old then Spin else Scan 0 INT_MAX None) (s\<lparr>sp_flag := af\<rparr>))"
| look: "sp_thr s j = Scan i min_load best \<Longrightarrow> i < length (sp_loads s) \<Longrightarrow>
    caller_step j s (set_thr j (if sp_loads s ! i < min_load then Scan (Suc i) (sp_loads s ! i) (Some i) else Scan (Suc i) min_load best) s)"
| unlock: "sp_thr s j = Scan i min_load best \<Longrightarrow> length (sp_loads s) \<le> i \<Longrightarrow>
    caller_step j s (set_thr j (Picked best) (s\<lparr>sp_flag := spin_unlock (sp_flag s)\<rparr>))"
| count: "sp_thr s j = Picked (Some w) \<Longrightarrow>
    caller_step j s (set_thr j Loop (s\<lparr>sp_loads := (sp_loads s)[w := sp_loads s ! w + 1], sp_log := sp_log s @ [w]\<rparr>))"
| assertion: "sp_thr s j = Picked None \<Longrightarrow> caller_step j s (set_thr j Aborted s)"
| leave: "sp_thr s j = Loop \<Longrightarrow> j \<in> sp_told s \<Longrightarrow> caller_step j s (set_thr j Ended s)"

inductive_cases caller_stepE: "caller_step j s t"

text \<open>One step of \<open>stop\<close> for the \<open>n\<close> workers: the lock is held by a guard until it returns; joining thread \<open>i\<close> waits until it has ended.\<close>

inductive stop_step :: "nat \<Rightarrow> spin_state \<Rightarrow> spin_state \<Rightarrow> bool" for n where
  stop: "sp_main s = Before \<Longrightarrow> stop_step n s (s\<lparr>sp_main := StopSpin\<rparr>)"
| stop_attempt: "sp_main s = StopSpin \<Longrightarrow> test_and_set (sp_flag s) = (old, af) \<Longrightarrow>
    stop_step n s (s\<lparr>sp_flag := af, sp_main := (if old then StopSpin else Tell 0)\<rparr>)"
| tell: "sp_main s = Tell i \<Longrightarrow> i < n \<Longrightarrow> stop_step n s (s\<lparr>sp_told := insert i (sp_told s), sp_main := Join i\<rparr>)"
| join: "sp_main s = Join i \<Longrightarrow> sp_thr s i = Ended \<Longrightarrow> stop_step n s (s\<lparr>sp_main := Tell (Suc i)\<rparr>)"
| release: "sp_main s = Tell i \<Longrightarrow> n \<le> i \<Longrightarrow> stop_step n s (s\<lparr>sp_flag := spin_unlock (sp_flag s), sp_main := Stopped\<rparr>)"

inductive_cases stop_stepE: "stop_step n s t"

definition spin_start :: "nat list \<Rightarrow> spin_state" where
  "spin_start loads = \<lparr>sp_flag = False, sp_loads = loads, sp_told = {}, sp_main = Before, sp_thr = \<lambda>_. Loop, sp_log = []\<rparr>"

inductive spin_reachable :: "nat list \<Rightarrow> spin_state \<Rightarrow> bool" for loads where
  start: "spin_reachable loads (spin_start loads)"
| caller: "spin_reachable loads s \<Longrightarrow> caller_step j s t \<Longrightarrow> spin_reachable loads t"
| stopper: "spin_reachable loads s \<Longrightarrow> stop_step (length loads) s t \<Longrightarrow> spin_reachable loads t"

section \<open>Mutual exclusion\<close>

text \<open>Who holds the lock: a thread inside the loop of \<open>get_worker\<close>, or \<open>stop\<close>.\<close>

datatype holder = Caller nat | Stopper

definition holders :: "spin_state \<Rightarrow> holder set" where
  "holders s = {Caller j | j. \<exists>i m b. sp_thr s j = Scan i m b} \<union> (if \<exists>i. sp_main s = Tell i \<or> sp_main s = Join i then {Stopper} else {})"

definition lock_ok :: "spin_state \<Rightarrow> bool" where
  "lock_ok s \<longleftrightarrow> (if sp_flag s then \<exists>h. holders s = {h} else holders s = {})"

lemma holders_set_thr:
  "holders (set_thr j pc s) = (holders s - {Caller j}) \<union> (if \<exists>i m b. pc = Scan i m b then {Caller j} else {})"
  by (auto simp: holders_def set_thr_def split: if_splits)

lemma holders_update [simp]:
  "holders (s\<lparr>sp_flag := f\<rparr>) = holders s" "holders (s\<lparr>sp_loads := l, sp_log := g\<rparr>) = holders s" "holders (s\<lparr>sp_told := d\<rparr>) = holders s"
  by (simp_all add: holders_def)

lemma set_thr_simps [simp]:
  "sp_flag (set_thr j pc s) = sp_flag s" "sp_loads (set_thr j pc s) = sp_loads s" "sp_log (set_thr j pc s) = sp_log s"
  "sp_main (set_thr j pc s) = sp_main s" "sp_told (set_thr j pc s) = sp_told s" "sp_thr (set_thr j pc s) = (sp_thr s)(j := pc)"
  by (simp_all add: set_thr_def)

lemma caller_holds: "Caller j \<in> holders s \<longleftrightarrow> (\<exists>i m b. sp_thr s j = Scan i m b)"
  by (auto simp: holders_def split: if_splits)

lemma stopper_holds: "Stopper \<in> holders s \<longleftrightarrow> (\<exists>i. sp_main s = Tell i \<or> sp_main s = Join i)"
  by (auto simp: holders_def split: if_splits)

lemma lock_ok_caller:
  assumes "lock_ok s" "caller_step j s t"
  shows "lock_ok t"
  using assms(2)
proof cases
  case call
  then have "Caller j \<notin> holders s" by (simp add: caller_holds)
  with call assms(1) show ?thesis by (simp add: lock_ok_def holders_set_thr)
next
  case (attempt old af)
  then have "Caller j \<notin> holders s" by (simp add: caller_holds)
  with attempt assms(1) show ?thesis by (auto simp: lock_ok_def holders_set_thr test_and_set_def split: if_splits)
next
  case (look i min_load best)
  then have "Caller j \<in> holders s" by (simp add: caller_holds)
  with look assms(1) show ?thesis by (auto simp: lock_ok_def holders_set_thr split: if_splits)
next
  case (unlock i min_load best)
  then have "Caller j \<in> holders s" by (simp add: caller_holds)
  with unlock assms(1) show ?thesis by (auto simp: lock_ok_def holders_set_thr spin_unlock_def split: if_splits)
next
  case (count w)
  then have "Caller j \<notin> holders s" by (simp add: caller_holds)
  with count assms(1) show ?thesis by (simp add: lock_ok_def holders_set_thr)
next
  case assertion
  then have "Caller j \<notin> holders s" by (simp add: caller_holds)
  with assertion assms(1) show ?thesis by (simp add: lock_ok_def holders_set_thr)
next
  case leave
  then have "Caller j \<notin> holders s" by (simp add: caller_holds)
  with leave assms(1) show ?thesis by (simp add: lock_ok_def holders_set_thr)
qed

lemma lock_ok_stop:
  assumes "lock_ok s" "stop_step n s t"
  shows "lock_ok t"
  using assms(2)
proof cases
  case (release i)
  then have "Stopper \<in> holders s" by (auto simp: stopper_holds)
  with assms(1) have "holders s = {Stopper}" by (auto simp: lock_ok_def split: if_splits)
  then have "sp_thr s j \<noteq> Scan k m b" for j k m b using caller_holds [of j s] by auto
  with release show ?thesis by (auto simp: lock_ok_def holders_def spin_unlock_def)
qed (use assms(1) in \<open>auto simp: lock_ok_def holders_def test_and_set_def split: if_splits\<close>)

lemma spin_reachable_lock: "spin_reachable loads s \<Longrightarrow> lock_ok s"
proof (induction rule: spin_reachable.induct)
  case start
  show ?case by (auto simp: lock_ok_def holders_def spin_start_def)
qed (blast intro: lock_ok_caller lock_ok_stop)+

section \<open>References\<close>

text \<open>Every completed call counted one reference of the worker it chose.\<close>

definition refs_ok :: "nat list \<Rightarrow> spin_state \<Rightarrow> bool" where
  "refs_ok loads s \<longleftrightarrow> length (sp_loads s) = length loads \<and>
     (\<forall>w < length loads. sp_loads s ! w = loads ! w + count_list (sp_log s) w) \<and> set (sp_log s) \<subseteq> {..< length loads} \<and>
     (\<forall>j w. (\<exists>i m. sp_thr s j = Scan i m (Some w)) \<or> sp_thr s j = Picked (Some w) \<longrightarrow> w < length loads)"

lemma refs_ok_caller:
  assumes "refs_ok loads s" "caller_step j s t"
  shows "refs_ok loads t"
  using assms(2)
proof cases
  case (count w)
  with assms(1) have "w < length loads" "length (sp_loads s) = length loads" by (auto simp: refs_ok_def)
  with count assms(1) show ?thesis by (auto simp: refs_ok_def nth_list_update)
next
  case (look i m b)
  with assms(1) have "w < length loads" if "b = Some w" for w using that unfolding refs_ok_def by blast
  with look assms(1) show ?thesis by (auto simp: refs_ok_def split: if_splits)
next
  case (unlock i m b)
  with assms(1) have "w < length loads" if "b = Some w" for w using that unfolding refs_ok_def by blast
  with unlock assms(1) show ?thesis by (auto simp: refs_ok_def)
qed (use assms(1) in \<open>auto simp: refs_ok_def split: if_splits\<close>)

lemma refs_ok_stop: "refs_ok loads s \<Longrightarrow> stop_step n s t \<Longrightarrow> refs_ok loads t"
  by (erule stop_stepE) (auto simp: refs_ok_def)

lemma spin_reachable_refs: "spin_reachable loads s \<Longrightarrow> refs_ok loads s"
proof (induction rule: spin_reachable.induct)
  case start
  show ?case by (auto simp: refs_ok_def spin_start_def)
qed (blast intro: refs_ok_caller refs_ok_stop)+

text \<open>The spin lock excludes: in every reachable state of any number of callers of \<open>get_worker\<close> and a caller of \<open>stop\<close> the flag is
  set exactly when someone holds the lock, and then exactly one does. No reference is lost: the references of a worker are those
  it began with and one for every call that chose it, and every call chose an existing worker.\<close>

theorem spin_lock_excludes:
  assumes "spin_reachable loads s"
  shows "(sp_flag s \<longleftrightarrow> holders s \<noteq> {}) \<and> card (holders s) \<le> 1 \<and> length (sp_loads s) = length loads \<and>
    (\<forall>w < length loads. sp_loads s ! w = loads ! w + count_list (sp_log s) w) \<and> set (sp_log s) \<subseteq> {..< length loads}"
  using spin_reachable_lock [OF assms] spin_reachable_refs [OF assms] by (auto simp: lock_ok_def refs_ok_def split: if_splits)

section \<open>A call that is not disturbed\<close>

lemma scan_alone:
  assumes "sp_thr s j = Scan i m b" "i \<le> length (sp_loads s)"
  shows "(caller_step j)\<^sup>*\<^sup>* s (set_thr j (Picked (best_worker (drop i (sp_loads s)) i m b)) (s\<lparr>sp_flag := False\<rparr>))"
  using assms
proof (induction "length (sp_loads s) - i" arbitrary: s i m b)
  case 0
  then have i: "i = length (sp_loads s)" by simp
  have "caller_step j s (set_thr j (Picked b) (s\<lparr>sp_flag := spin_unlock (sp_flag s)\<rparr>))" by (rule caller_step.unlock [OF 0(2)]) (simp add: i)
  then show ?case using i by (auto simp: spin_unlock_def)
next
  case (Suc d)
  then have i: "i < length (sp_loads s)" by simp
  let ?l = "sp_loads s ! i"
  define pc where "pc = (if ?l < m then Scan (Suc i) ?l (Some i) else Scan (Suc i) m b)"
  let ?s = "set_thr j pc s"
  have step: "caller_step j s ?s" unfolding pc_def using Suc.prems(1) i by (rule caller_step.look)
  have drop: "drop i (sp_loads s) = ?l # drop (Suc i) (sp_loads s)" using i by (simp add: Cons_nth_drop_Suc)
  obtain m' b' where pc: "pc = Scan (Suc i) m' b'" "best_worker (drop i (sp_loads s)) i m b = best_worker (drop (Suc i) (sp_loads s)) (Suc i) m' b'"
    unfolding drop by (cases "?l < m") (auto simp: pc_def)
  have "(caller_step j)\<^sup>*\<^sup>* ?s (set_thr j (Picked (best_worker (drop (Suc i) (sp_loads ?s)) (Suc i) m' b')) (?s\<lparr>sp_flag := False\<rparr>))"
    using Suc.hyps(2) i pc(1) by (intro Suc.hyps(1)) simp_all
  moreover have "set_thr j p (?s\<lparr>sp_flag := False\<rparr>) = set_thr j p (s\<lparr>sp_flag := False\<rparr>)" for p by (simp add: set_thr_def)
  ultimately show ?case using step pc(2) by (simp add: converse_rtranclp_into_rtranclp)
qed

text \<open>A call of \<open>get_worker\<close> that finds the lock free and runs without interference does what the sequential definition says: it chooses the
  same worker, counts the same reference, and leaves the lock free.\<close>

theorem get_worker_alone:
  assumes "sp_thr s j = Spin" "\<not> sp_flag s" "get_worker (sp_loads s) = Inr (w, loads')"
  shows "\<exists>t. (caller_step j)\<^sup>*\<^sup>* s t \<and> sp_thr t j = Loop \<and> \<not> sp_flag t \<and> sp_loads t = loads' \<and> sp_log t = sp_log s @ [w]"
proof -
  from assms(3) have w: "best_worker (sp_loads s) 0 INT_MAX None = Some w" "loads' = (sp_loads s)[w := sp_loads s ! w + 1]"
    by (auto simp: get_worker_def split: option.splits)
  let ?s1 = "set_thr j (Scan 0 INT_MAX None) (s\<lparr>sp_flag := True\<rparr>)"
  have a: "caller_step j s ?s1" using caller_step.attempt [OF assms(1), of False True] assms(2) by (simp add: test_and_set_def)
  let ?s2 = "set_thr j (Picked (Some w)) (?s1\<lparr>sp_flag := False\<rparr>)"
  have b: "(caller_step j)\<^sup>*\<^sup>* ?s1 ?s2" using scan_alone [of ?s1 j 0 INT_MAX None] w(1) by simp
  let ?t = "set_thr j Loop (?s2\<lparr>sp_loads := (sp_loads ?s2)[w := sp_loads ?s2 ! w + 1], sp_log := sp_log ?s2 @ [w]\<rparr>)"
  have c: "caller_step j ?s2 ?t" by (rule caller_step.count) simp
  from a b have "(caller_step j)\<^sup>*\<^sup>* s ?s2" by (rule converse_rtranclp_into_rtranclp)
  with c have "(caller_step j)\<^sup>*\<^sup>* s ?t" by (meson rtranclp.rtrancl_into_rtrancl)
  with w(2) show ?thesis by (intro exI [of _ ?t]) simp
qed

lemma spin_reachable_run:
  assumes "(caller_step j)\<^sup>*\<^sup>* s t" "spin_reachable loads s"
  shows "spin_reachable loads t"
  using assms by (induction rule: rtranclp.induct) (auto intro: spin_reachable.caller)

definition picked :: "nat \<Rightarrow> nat \<Rightarrow> spin_state \<Rightarrow> spin_state" where
  "picked j w s = set_thr j (Picked (Some w)) (s\<lparr>sp_flag := False\<rparr>)"

lemma pick_alone:
  assumes "sp_thr s j = Loop" "\<not> sp_flag s" "get_worker (sp_loads s) = Inr (w, loads')"
  shows "(caller_step j)\<^sup>*\<^sup>* s (picked j w s)"
proof -
  from assms(3) have w: "best_worker (sp_loads s) 0 INT_MAX None = Some w" by (auto simp: get_worker_def split: option.splits)
  let ?s0 = "set_thr j Spin s" let ?s1 = "set_thr j (Scan 0 INT_MAX None) (?s0\<lparr>sp_flag := True\<rparr>)"
  have "caller_step j s ?s0" by (rule caller_step.call [OF assms(1)])
  moreover have "caller_step j ?s0 ?s1" using caller_step.attempt [of ?s0 j False True] assms(2) by (simp add: test_and_set_def)
  moreover have "(caller_step j)\<^sup>*\<^sup>* ?s1 (set_thr j (Picked (Some w)) (?s1\<lparr>sp_flag := False\<rparr>))"
    using scan_alone [of ?s1 j 0 INT_MAX None] w by simp
  moreover have "set_thr j (Picked (Some w)) (?s1\<lparr>sp_flag := False\<rparr>) = picked j w s" by (simp add: set_thr_def picked_def)
  ultimately show ?thesis by (metis converse_rtranclp_into_rtranclp)
qed

theorem spin_lock_excludes_witness:
  "\<exists>s. spin_reachable [3, 1] s \<and> sp_log s = [1] \<and> sp_loads s ! 1 = [3, 1] ! 1 + count_list (sp_log s) 1 \<and> card (holders s) \<le> 1"
proof -
  let ?s = "spin_start [3, 1]"
  have "(caller_step 0)\<^sup>*\<^sup>* ?s (picked 0 1 ?s)" by (rule pick_alone) (simp_all add: spin_start_def get_worker_def INT_MAX_def)
  then have "spin_reachable [3, 1] (picked 0 1 ?s)" by (rule spin_reachable_run) (rule spin_reachable.start)
  then have "spin_reachable [3, 1] (set_thr 0 Loop ((picked 0 1 ?s)\<lparr>sp_loads := [3, 2], sp_log := [1]\<rparr>))" (is "spin_reachable _ ?t")
    by (rule spin_reachable.caller [where j = 0])
      (use caller_step.count [of "picked 0 1 ?s" 0 1] in \<open>simp add: picked_def spin_start_def numeral_2_eq_2\<close>)
  with spin_lock_excludes [OF this] show ?thesis by (intro exI [of _ ?t]) simp
qed

theorem get_worker_alone_witness:
  "\<exists>t. (caller_step 0)\<^sup>*\<^sup>* (set_thr 0 Spin (spin_start [3, 1])) t \<and> sp_thr t 0 = Loop \<and> \<not> sp_flag t \<and> sp_loads t = [3, 2] \<and> sp_log t = [1]"
  using get_worker_alone [of "set_thr 0 Spin (spin_start [3, 1])" 0 1 "[3, 2]"] by (simp add: spin_start_def get_worker_def INT_MAX_def)

section \<open>What goes wrong\<close>

text \<open>The choice of a worker is not atomic: the reference is counted after the lock is released, so a second caller can look at the loads in
  between, and both take the worker that was least loaded before either of them.\<close>

theorem get_worker_race:
  assumes "get_worker loads = Inr (w, loads')"
  shows "\<exists>s. spin_reachable loads s \<and> sp_log s = [w, w] \<and> sp_loads s ! w = loads ! w + 2 \<and> \<not> sp_flag s"
proof -
  let ?s = "spin_start loads"
  have run1: "(caller_step 0)\<^sup>*\<^sup>* ?s (picked 0 w ?s)" using assms by (intro pick_alone) (simp_all add: spin_start_def)
  let ?a = "picked 0 w ?s"
  have run2: "(caller_step 1)\<^sup>*\<^sup>* ?a (picked 1 w ?a)" using assms by (intro pick_alone) (simp_all add: picked_def spin_start_def)
  let ?b = "picked 1 w ?a"
  let ?c = "set_thr 0 Loop (?b\<lparr>sp_loads := (sp_loads ?b)[w := sp_loads ?b ! w + 1], sp_log := sp_log ?b @ [w]\<rparr>)"
  let ?d = "set_thr 1 Loop (?c\<lparr>sp_loads := (sp_loads ?c)[w := sp_loads ?c ! w + 1], sp_log := sp_log ?c @ [w]\<rparr>)"
  have "spin_reachable loads ?b" using run1 run2 by (blast intro: spin_reachable_run spin_reachable.start)
  moreover have "caller_step 0 ?b ?c" by (rule caller_step.count) (simp add: picked_def)
  moreover have "caller_step 1 ?c ?d" by (rule caller_step.count) (simp add: picked_def)
  ultimately have d: "spin_reachable loads ?d" by (blast intro: spin_reachable.caller)
  have "set (sp_log ?d) \<subseteq> {..< length loads}" using spin_reachable_refs [OF d] by (simp add: refs_ok_def)
  then have "w < length loads" by (simp add: picked_def spin_start_def)
  with d show ?thesis by (intro exI [of _ ?d]) (simp add: picked_def spin_start_def)
qed

theorem get_worker_race_witness:
  "\<exists>s. spin_reachable [0, 0] s \<and> sp_log s = [0, 0] \<and> sp_loads s ! 0 = [0, 0] ! 0 + 2 \<and> \<not> sp_flag s"
  by (rule get_worker_race [of "[0, 0]" 0 "[1, 0]"]) (simp add: get_worker_def INT_MAX_def)

definition spin_step :: "nat \<Rightarrow> spin_state \<Rightarrow> spin_state \<Rightarrow> bool" where
  "spin_step n s t \<longleftrightarrow> (\<exists>j. caller_step j s t) \<or> stop_step n s t"

definition stuck :: "spin_state \<Rightarrow> bool" where
  "stuck s \<longleftrightarrow> sp_main s = Join 0 \<and> sp_thr s 0 = Spin \<and> sp_flag s \<and> holders s = {Stopper}"

lemma stuck_caller:
  assumes "stuck s" "caller_step j s t"
  shows "stuck t"
  using assms(2)
proof cases
  case (attempt old af)
  with assms(1) show ?thesis by (auto simp: stuck_def test_and_set_def holders_set_thr)
next
  case (look i m b)
  then have "Caller j \<in> holders s" by (simp add: caller_holds)
  with assms(1) show ?thesis by (simp add: stuck_def)
next
  case (unlock i m b)
  then have "Caller j \<in> holders s" by (simp add: caller_holds)
  with assms(1) show ?thesis by (simp add: stuck_def)
next
  case call
  with assms(1) show ?thesis by (cases "j = 0") (simp_all add: stuck_def holders_set_thr)
next
  case (count w)
  with assms(1) show ?thesis by (cases "j = 0") (simp_all add: stuck_def holders_set_thr)
next
  case assertion
  with assms(1) show ?thesis by (cases "j = 0") (simp_all add: stuck_def holders_set_thr)
next
  case leave
  with assms(1) show ?thesis by (cases "j = 0") (simp_all add: stuck_def holders_set_thr)
qed

lemma stuck_forever:
  assumes "(spin_step n)\<^sup>*\<^sup>* s t" "stuck s"
  shows "stuck t"
  using assms
proof (induction rule: rtranclp.induct)
  case (rtrancl_into_rtrancl s t u)
  then have t: "stuck t" by simp
  have "stuck u" if "stop_step n t u" using that by cases (use t in \<open>simp_all add: stuck_def\<close>)
  with rtrancl_into_rtrancl(2) t show ?case by (auto simp: spin_step_def intro: stuck_caller)
qed simp

text \<open>C37: \<open>stop\<close> can deadlock: it joins the worker threads while it holds the spin lock that \<open>get_worker\<close> takes. When the first worker
  calls \<open>get_worker\<close> (its acceptor does, for every connection) after \<open>stop\<close> has taken the lock, the worker spins for ever and
  \<open>stop\<close> waits for it for ever, whatever happens afterwards.\<close>

theorem stop_deadlocks:
  assumes "loads \<noteq> []"
  shows "\<exists>s. spin_reachable loads s \<and> (\<forall>t. (spin_step (length loads))\<^sup>*\<^sup>* s t \<longrightarrow> sp_main t = Join 0 \<and> sp_thr t 0 = Spin \<and> sp_flag t)"
proof -
  let ?s = "spin_start loads" let ?a = "?s\<lparr>sp_main := StopSpin\<rparr>" let ?b = "?a\<lparr>sp_flag := True, sp_main := Tell 0\<rparr>"
  let ?c = "?b\<lparr>sp_told := insert 0 (sp_told ?b), sp_main := Join 0\<rparr>" let ?d = "set_thr 0 Spin ?c"
  have "stop_step (length loads) ?s ?a" by (rule stop_step.stop) (simp add: spin_start_def)
  moreover have "stop_step (length loads) ?a ?b"
    using stop_step.stop_attempt [of ?a False True "length loads"] by (simp add: spin_start_def test_and_set_def)
  moreover have "stop_step (length loads) ?b ?c" by (rule stop_step.tell) (use assms in simp_all)
  moreover have "caller_step 0 ?c ?d" by (rule caller_step.call) (simp add: spin_start_def)
  ultimately have "spin_reachable loads ?d" by (meson spin_reachable.intros)
  moreover have "stuck ?d" by (auto simp: stuck_def holders_def spin_start_def)
  then have "stuck t" if "(spin_step (length loads))\<^sup>*\<^sup>* ?d t" for t using stuck_forever that by blast
  ultimately show ?thesis by (auto simp: stuck_def)
qed

theorem stop_deadlocks_witness:
  "\<exists>s. spin_reachable [0] s \<and> (\<forall>t. (spin_step (length [0 :: nat]))\<^sup>*\<^sup>* s t \<longrightarrow> sp_main t = Join 0 \<and> sp_thr t 0 = Spin \<and> sp_flag t)"
  by (rule stop_deadlocks) simp

section \<open>When \<open>stop\<close> can return\<close>

text \<open>A thread that cannot end while \<open>stop\<close> holds the lock: it spins in \<open>get_worker\<close>, or found no worker and fails the assertion.\<close>

definition blocked :: "spin_state \<Rightarrow> nat \<Rightarrow> bool" where
  "blocked s j \<longleftrightarrow> sp_thr s j = Spin \<or> sp_thr s j = Picked None \<or> sp_thr s j = Aborted"

text \<open>\<open>stop\<close> has still to join \<open>j\<close>, which is blocked.\<close>

definition pinned :: "nat \<Rightarrow> spin_state \<Rightarrow> bool" where
  "pinned j s \<longleftrightarrow> lock_ok s \<and> (\<exists>i \<le> j. sp_main s = Tell i \<or> sp_main s = Join i) \<and> blocked s j"

lemma stopper_alone:
  assumes "lock_ok s" "sp_main s = Tell i \<or> sp_main s = Join i"
  shows "sp_flag s" "sp_thr s j \<noteq> Scan k m b"
proof -
  have "Stopper \<in> holders s" using assms(2) by (auto simp: stopper_holds)
  then have h: "sp_flag s" "holders s = {Stopper}" using assms(1) by (auto simp: lock_ok_def split: if_splits)
  show "sp_flag s" by (rule h(1))
  show "sp_thr s j \<noteq> Scan k m b" using caller_holds [of j s] h(2) by auto
qed

lemma pinned_step:
  assumes "pinned j s" "j < n" "spin_step n s t"
  shows "pinned j t"
proof -
  obtain i where i: "i \<le> j" "sp_main s = Tell i \<or> sp_main s = Join i" and ok: "lock_ok s" and b: "blocked s j"
    using assms(1) by (auto simp: pinned_def)
  note alone = stopper_alone [OF ok i(2)]
  consider k where "caller_step k s t" | "stop_step n s t" using assms(3) by (auto simp: spin_step_def)
  then show ?thesis
  proof cases
    case 1
    have "sp_main t = sp_main s \<and> blocked t j"
      using 1 by cases (use alone b in \<open>auto simp: blocked_def test_and_set_def split: if_splits\<close>)
    then show ?thesis using i lock_ok_caller [OF ok 1] by (auto simp: pinned_def)
  next
    case 2
    have "(\<exists>i \<le> j. sp_main t = Tell i \<or> sp_main t = Join i) \<and> sp_thr t j = sp_thr s j"
      using 2
    proof cases
      case (join k)
      then have "k \<noteq> j" using b by (auto simp: blocked_def)
      then show ?thesis using join i by auto
    qed (use i assms(2) in auto)
    then show ?thesis using b lock_ok_stop [OF ok 2] by (auto simp: pinned_def blocked_def)
  qed
qed

lemma pinned_forever:
  assumes "(spin_step n)\<^sup>*\<^sup>* s t" "pinned j s" "j < n"
  shows "sp_main t \<noteq> Stopped"
proof -
  have "pinned j t" using assms by induction (auto intro: pinned_step)
  then show ?thesis by (auto simp: pinned_def)
qed

lemma told_joined: "spin_reachable loads s \<Longrightarrow> sp_main s = Join i \<Longrightarrow> i \<in> sp_told s"
proof (induction arbitrary: i rule: spin_reachable.induct)
  case start
  then show ?case by (simp add: spin_start_def)
next
  case (caller s j t)
  then show ?case by (auto elim!: caller_stepE)
next
  case (stopper s t)
  then show ?case by (auto elim!: stop_stepE split: if_splits)
qed

lemma join_in_range: "spin_reachable loads s \<Longrightarrow> sp_main s = Join i \<Longrightarrow> i < length loads"
proof (induction arbitrary: i rule: spin_reachable.induct)
  case start
  then show ?case by (simp add: spin_start_def)
next
  case (caller s j t)
  then show ?case by (auto elim!: caller_stepE)
next
  case (stopper s t)
  then show ?case by (auto elim!: stop_stepE split: if_splits)
qed

lemma thread_ends:
  assumes "j \<in> sp_told s" "\<not> blocked s j" "\<forall>k m b. sp_thr s j \<noteq> Scan k m b"
  shows "\<exists>t. (spin_step n)\<^sup>*\<^sup>* s t \<and> sp_thr t = (sp_thr s)(j := Ended) \<and> sp_main t = sp_main s"
proof -
  have leave: "spin_step n u (set_thr j Ended u)" if "sp_thr u j = Loop" "j \<in> sp_told u" for u
    using caller_step.leave [OF that] by (auto simp: spin_step_def)
  consider "sp_thr s j = Ended" | "sp_thr s j = Loop" | w where "sp_thr s j = Picked (Some w)"
    using assms(2,3) by (cases "sp_thr s j") (auto simp: blocked_def)
  then show ?thesis
  proof cases
    case 1
    then show ?thesis by (intro exI [of _ s]) (auto simp: fun_upd_idem)
  next
    case 2
    then show ?thesis using leave [OF 2 assms(1)] by (intro exI [of _ "set_thr j Ended s"]) auto
  next
    case 3
    let ?u = "set_thr j Loop (s\<lparr>sp_loads := (sp_loads s)[w := sp_loads s ! w + 1], sp_log := sp_log s @ [w]\<rparr>)"
    have "spin_step n s ?u" using caller_step.count [OF 3] by (auto simp: spin_step_def)
    moreover have "spin_step n ?u (set_thr j Ended ?u)" by (rule leave) (use assms(1) in simp_all)
    ultimately have "(spin_step n)\<^sup>*\<^sup>* s (set_thr j Ended ?u)" by (rule converse_rtranclp_into_rtranclp [OF _ r_into_rtranclp])
    then show ?thesis by (intro exI [of _ "set_thr j Ended ?u"]) simp
  qed
qed

lemma stop_finishes:
  assumes "sp_main s = Tell i" "\<forall>j. i \<le> j \<and> j < n \<longrightarrow> \<not> blocked s j \<and> (\<forall>k m b. sp_thr s j \<noteq> Scan k m b)"
  shows "\<exists>t. (spin_step n)\<^sup>*\<^sup>* s t \<and> sp_main t = Stopped"
  using assms
proof (induction "n - i" arbitrary: i s)
  case 0
  then show ?case using stop_step.release [OF 0(2), of n] by (auto simp: spin_step_def intro!: r_into_rtranclp)
next
  case (Suc d)
  then have i: "i < n" "d = n - Suc i" by simp_all
  let ?u = "s\<lparr>sp_told := insert i (sp_told s), sp_main := Join i\<rparr>"
  have u: "spin_step n s ?u" using stop_step.tell [OF Suc.prems(1) i(1)] by (simp add: spin_step_def)
  obtain v where v: "(spin_step n)\<^sup>*\<^sup>* ?u v" "sp_thr v = (sp_thr ?u)(i := Ended)" "sp_main v = Join i"
    using thread_ends [of i ?u n] Suc.prems(2) i(1) by (auto simp: blocked_def)
  let ?w = "v\<lparr>sp_main := Tell (Suc i)\<rparr>"
  have w: "spin_step n v ?w" using stop_step.join [OF v(3), of n] v(2) by (simp add: spin_step_def)
  obtain t where "(spin_step n)\<^sup>*\<^sup>* ?w t" "sp_main t = Stopped"
    using Suc.hyps(1) [of "Suc i" ?w] Suc.hyps(2) Suc.prems(2) v(2) i by (auto simp: blocked_def)
  then show ?case using u v(1) w by (meson converse_rtranclp_into_rtranclp rtranclp_trans)
qed

text \<open>C14: While \<open>stop\<close> holds the spin lock, telling and joining the workers from number \<open>i\<close> on, it can still return if and only if none of the
  workers it has yet to join is blocked in \<open>get_worker\<close>, spinning for that lock or failing its assertion: then there is a run of the
  threads that lets it return, and otherwise there is none.\<close>

theorem stop_returns_iff:
  assumes "spin_reachable loads s" "sp_main s = Tell i \<or> sp_main s = Join i"
  shows "(\<exists>t. (spin_step (length loads))\<^sup>*\<^sup>* s t \<and> sp_main t = Stopped) \<longleftrightarrow>
    (\<forall>j. i \<le> j \<and> j < length loads \<longrightarrow> sp_thr s j \<notin> {Spin, Picked None, Aborted})" (is "?can \<longleftrightarrow> ?free")
proof
  note ok = spin_reachable_lock [OF assms(1)]
  show ?free if ?can
    using that pinned_forever [of "length loads" s] ok assms(2) by (auto simp: pinned_def blocked_def)
  assume free: ?free
  let ?n = "length loads"
  have all: "\<forall>j. i \<le> j \<and> j < ?n \<longrightarrow> \<not> blocked s j \<and> (\<forall>k m b. sp_thr s j \<noteq> Scan k m b)"
    using free stopper_alone(2) [OF ok assms(2)] by (auto simp: blocked_def)
  show ?can
  proof (cases "sp_main s = Tell i")
    case True
    then show ?thesis by (rule stop_finishes [OF _ all])
  next
    case False
    then have m: "sp_main s = Join i" using assms(2) by simp
    show ?thesis
    proof (cases "i < ?n")
      case True
      obtain v where v: "(spin_step ?n)\<^sup>*\<^sup>* s v" "sp_thr v = (sp_thr s)(i := Ended)" "sp_main v = Join i"
        using thread_ends [OF told_joined [OF assms(1) m], of ?n] all True m by auto
      let ?w = "v\<lparr>sp_main := Tell (Suc i)\<rparr>"
      have w: "spin_step ?n v ?w" using stop_step.join [OF v(3), of ?n] v(2) by (simp add: spin_step_def)
      obtain t where "(spin_step ?n)\<^sup>*\<^sup>* ?w t" "sp_main t = Stopped"
        using stop_finishes [of ?w "Suc i" ?n] all v(2) by (auto simp: blocked_def)
      then show ?thesis using v(1) w by (meson converse_rtranclp_into_rtranclp rtranclp_trans)
    next
      case False
      then show ?thesis using join_in_range [OF assms(1) m] by simp
    qed
  qed
qed

theorem stop_returns_iff_witness:
  "(\<exists>t. (spin_step (length [0, 0 :: nat]))\<^sup>*\<^sup>* ((spin_start [0, 0])\<lparr>sp_flag := True, sp_main := Tell 0\<rparr>) t \<and> sp_main t = Stopped) \<and>
   \<not> (\<exists>t. (spin_step (length [0, 0 :: nat]))\<^sup>*\<^sup>* (set_thr 1 Spin ((spin_start [0, 0])\<lparr>sp_flag := True, sp_main := Tell 0\<rparr>)) t \<and> sp_main t = Stopped)"
proof -
  let ?s = "spin_start [0, 0]" let ?a = "?s\<lparr>sp_main := StopSpin\<rparr>" let ?b = "?s\<lparr>sp_flag := True, sp_main := Tell 0\<rparr>"
  have "stop_step (length [0, 0 :: nat]) ?s ?a" by (rule stop_step.stop) (simp add: spin_start_def)
  moreover have "stop_step (length [0, 0 :: nat]) ?a ?b"
    using stop_step.stop_attempt [of ?a False True "length [0, 0 :: nat]"] by (simp add: spin_start_def test_and_set_def)
  ultimately have b: "spin_reachable [0, 0] ?b" by (meson spin_reachable.intros)
  have "caller_step 1 ?b (set_thr 1 Spin ?b)" by (rule caller_step.call) (simp add: spin_start_def)
  with b have c: "spin_reachable [0, 0] (set_thr 1 Spin ?b)" by (rule spin_reachable.caller)
  have "sp_thr (set_thr 1 Spin ?b) 1 = Spin" by simp
  then show ?thesis using stop_returns_iff [OF b, of 0] stop_returns_iff [OF c, of 0] by (auto simp: spin_start_def)
qed

text \<open>\<open>spin_lock\<close> returns exactly when the flag is clear at some attempt, and then at the first such attempt.\<close>

theorem spin_lock_first:
  "spin_lock seen n = (if \<exists>k \<ge> n. \<not> seen k then Some (LEAST k. n \<le> k \<and> \<not> seen k) else None)"
proof (cases "\<exists>k \<ge> n. \<not> seen k")
  case True
  then obtain k where k: "n \<le> k" "\<not> seen k" by blast
  define m where "m = (LEAST k. n \<le> k \<and> \<not> seen k)"
  have m: "n \<le> m" "\<not> seen m" unfolding m_def using LeastI [of "\<lambda>k. n \<le> k \<and> \<not> seen k" k] k by blast+
  have before: "seen l" if "n \<le> l" "l < m" for l using not_less_Least [of l "\<lambda>k. n \<le> k \<and> \<not> seen k"] that m_def by blast
  have "spin_lock seen i = Some m" if "n \<le> i" "i \<le> m" for i
    using that
  proof (induction "m - i" arbitrary: i)
    case 0
    then have "i = m" by simp
    with m(2) show ?case by (subst spin_lock.simps) (simp add: test_and_set_def)
  next
    case (Suc d)
    then have "spin_lock seen (Suc i) = Some m" "seen i" using before by simp_all
    then show ?case by (subst spin_lock.simps) (simp add: test_and_set_def)
  qed
  with m(1) True m_def show ?thesis by simp
next
  case False
  have "\<not> seen r \<and> i \<le> r" if "spin_lock seen i = Some r" for i r
  proof (rule spin_lock.raw_induct [of "\<lambda>f i r. \<not> f r \<and> i \<le> r", OF _ that])
    fix sl f k y
    assume ih: "\<And>f k y. sl f k = Some y \<Longrightarrow> \<not> f y \<and> k \<le> y" and e: "(if fst (test_and_set (f k)) then sl f (Suc k) else Some k) = Some y"
    show "\<not> f y \<and> k \<le> y" using ih [of f "Suc k" y] e by (cases "f k") (simp_all add: test_and_set_def)
  qed
  with False show ?thesis by (cases "spin_lock seen n") auto
qed

end
