(* ===== verification/EventSubmit.thy ===== *)
theory EventSubmit
  imports EventCenter NetworkStack
begin

text \<open>
  Running a function on another event centre (\<open>EventCenter::submit_to\<close> and \<open>C_submit_event\<close> in \<open>src/src/network/Event.h\<close>). The
  caller queues an event at the target centre and, unless it asked for an asynchronous call, waits on a condition variable until
  the centre's thread has run it; the event then lives on the caller's stack and dies when the caller returns. The two threads are a
  step relation with one step per access to the event, and an access after the event died is recorded as a fault.
\<close>

section \<open>The call\<close>

datatype submit_way = Direct | Async | Wait

text \<open>\<open>centers\<close> is the array of centres, \<open>None\<close> when the pointer to it is null; the parameter \<open>i\<close> is an \<open>int\<close>.\<close>

definition submit_to :: "ptr list option \<Rightarrow> int \<Rightarrow> (ptr \<Rightarrow> bool) \<Rightarrow> bool \<Rightarrow> (ptr \<times> submit_way) result" where
  "submit_to centers i in_thr always_async =
     kassert (i < int MAX_EVENTCENTER \<and> centers \<noteq> None)
       (if i < 0 \<or> length (the centers) \<le> nat i then Inl OutOfBounds
        else let c = the centers ! nat i in
          kassert (c \<noteq> nullptr) (Inr (c, if always_async then Async else if in_thr c then Direct else Wait)))"

section \<open>The two threads\<close>

datatype caller = CDispatch | CLock | CCheck | CUnlock | CReturn | CSleep | CDone

datatype runner = RQueue | RRun | RLock | RNotify | RSetDone | RReadDel | RUnlock bool | RDelete bool | REnd

datatype lock_owner = ByCaller | ByRunner

record submit_state =
  ev_alive :: bool
  ev_lock :: "lock_owner option"
  ev_done :: bool
  nonwait :: bool
  in_queue :: bool
  notified :: bool
  f_runs :: nat
  deletes :: nat
  bad_access :: bool
  call_pc :: caller
  run_pc :: runner

text \<open>An access to the event.\<close>

definition touch :: "submit_state \<Rightarrow> submit_state \<Rightarrow> submit_state" where
  "touch s t = t\<lparr>bad_access := bad_access t \<or> \<not> ev_alive s\<rparr>"

text \<open>The caller: \<open>dispatch_event_external\<close>, then \<open>wait\<close> (unless the call is asynchronous) and, at the end of the block, the destructor of
  the event. \<open>notified\<close> says that a \<open>notify_all\<close> has reached the sleeping caller; a wake-up without one is the step \<open>spurious\<close>.\<close>

inductive call_step :: "submit_state \<Rightarrow> submit_state \<Rightarrow> bool" where
  dispatch: "call_pc s = CDispatch \<Longrightarrow>
    call_step s (s\<lparr>in_queue := True, call_pc := if nonwait s then CDone else CLock\<rparr>)"
| wait_lock: "call_pc s = CLock \<Longrightarrow> ev_lock s = None \<Longrightarrow> call_step s (touch s (s\<lparr>ev_lock := Some ByCaller, call_pc := CCheck\<rparr>))"
| wait_done: "call_pc s = CCheck \<Longrightarrow> ev_done s \<Longrightarrow> call_step s (touch s (s\<lparr>call_pc := CUnlock\<rparr>))"
| wait_sleep: "call_pc s = CCheck \<Longrightarrow> \<not> ev_done s \<Longrightarrow>
    call_step s (touch s (s\<lparr>ev_lock := None, notified := False, call_pc := CSleep\<rparr>))"
| wake: "call_pc s = CSleep \<Longrightarrow> notified s \<Longrightarrow> call_step s (touch s (s\<lparr>call_pc := CLock\<rparr>))"
| wait_unlock: "call_pc s = CUnlock \<Longrightarrow> call_step s (touch s (s\<lparr>ev_lock := None, call_pc := CReturn\<rparr>))"
| return: "call_pc s = CReturn \<Longrightarrow> call_step s (touch s (s\<lparr>ev_alive := False, deletes := deletes s + 1, call_pc := CDone\<rparr>))"

text \<open>The thread of the centre: \<open>process_events\<close> takes the event from the queue and calls \<open>do_request\<close>.\<close>

inductive run_step :: "submit_state \<Rightarrow> submit_state \<Rightarrow> bool" where
  take: "run_pc s = RQueue \<Longrightarrow> in_queue s \<Longrightarrow> run_step s (s\<lparr>in_queue := False, run_pc := RRun\<rparr>)"
| run: "run_pc s = RRun \<Longrightarrow> run_step s (touch s (s\<lparr>f_runs := f_runs s + 1, run_pc := RLock\<rparr>))"
| lock: "run_pc s = RLock \<Longrightarrow> ev_lock s = None \<Longrightarrow> run_step s (touch s (s\<lparr>ev_lock := Some ByRunner, run_pc := RNotify\<rparr>))"
| notify_all: "run_pc s = RNotify \<Longrightarrow> run_step s (touch s (s\<lparr>notified := notified s \<or> call_pc s = CSleep, run_pc := RSetDone\<rparr>))"
| set_done: "run_pc s = RSetDone \<Longrightarrow> run_step s (touch s (s\<lparr>ev_done := True, run_pc := RReadDel\<rparr>))"
| read_del: "run_pc s = RReadDel \<Longrightarrow> run_step s (touch s (s\<lparr>run_pc := RUnlock (nonwait s)\<rparr>))"
| unlock: "run_pc s = RUnlock del \<Longrightarrow> run_step s (touch s (s\<lparr>ev_lock := None, run_pc := RDelete del\<rparr>))"
| delete_this: "run_pc s = RDelete True \<Longrightarrow> run_step s (touch s (s\<lparr>ev_alive := False, deletes := deletes s + 1, run_pc := REnd\<rparr>))"
| keep_this: "run_pc s = RDelete False \<Longrightarrow> run_step s (s\<lparr>run_pc := REnd\<rparr>)"

inductive spurious :: "submit_state \<Rightarrow> submit_state \<Rightarrow> bool" where
  "call_pc s = CSleep \<Longrightarrow> spurious s (touch s (s\<lparr>call_pc := CLock\<rparr>))"

inductive_cases call_stepE: "call_step s t"
inductive_cases run_stepE: "run_step s t"
inductive_cases spuriousE: "spurious s t"

definition submit_start :: "bool \<Rightarrow> submit_state" where
  "submit_start nw = \<lparr>ev_alive = True, ev_lock = None, ev_done = False, nonwait = nw, in_queue = False, notified = False,
     f_runs = 0, deletes = 0, bad_access = False, call_pc = CDispatch, run_pc = RQueue\<rparr>"

inductive submit_reachable :: "bool \<Rightarrow> submit_state \<Rightarrow> bool" for nw where
  start: "submit_reachable nw (submit_start nw)"
| call: "submit_reachable nw s \<Longrightarrow> call_step s t \<Longrightarrow> submit_reachable nw t"
| run: "submit_reachable nw s \<Longrightarrow> run_step s t \<Longrightarrow> submit_reachable nw t"
| spur: "submit_reachable nw s \<Longrightarrow> spurious s t \<Longrightarrow> submit_reachable nw t"

section \<open>Invariant\<close>

text \<open>Where the lock, the flag and the event are, by the positions of the two threads.\<close>

definition holds_call :: "submit_state \<Rightarrow> bool" where
  "holds_call s \<longleftrightarrow> call_pc s \<in> {CCheck, CUnlock}"

definition holds_run :: "submit_state \<Rightarrow> bool" where
  "holds_run s \<longleftrightarrow> run_pc s \<in> {RNotify, RSetDone, RReadDel} \<or> (\<exists>d. run_pc s = RUnlock d)"

definition after_done :: "submit_state \<Rightarrow> bool" where
  "after_done s \<longleftrightarrow> run_pc s \<in> {RReadDel, REnd} \<or> (\<exists>d. run_pc s = RUnlock d \<or> run_pc s = RDelete d)"

definition after_run :: "submit_state \<Rightarrow> bool" where
  "after_run s \<longleftrightarrow> run_pc s \<notin> {RQueue, RRun}"

definition before_notify :: "submit_state \<Rightarrow> bool" where
  "before_notify s \<longleftrightarrow> run_pc s \<in> {RQueue, RRun, RLock, RNotify}"

definition submit_inv :: "bool \<Rightarrow> submit_state \<Rightarrow> bool" where
  "submit_inv nw s \<longleftrightarrow> nonwait s = nw \<and> \<not> bad_access s \<and>
     (ev_lock s = Some ByCaller \<longleftrightarrow> holds_call s) \<and> (ev_lock s = Some ByRunner \<longleftrightarrow> holds_run s) \<and>
     (ev_done s \<longleftrightarrow> after_done s) \<and> f_runs s = (if after_run s then 1 else 0) \<and>
     (in_queue s \<longleftrightarrow> call_pc s \<noteq> CDispatch \<and> run_pc s = RQueue) \<and> (call_pc s = CDispatch \<longrightarrow> run_pc s = RQueue) \<and>
     (\<forall>d. run_pc s = RUnlock d \<or> run_pc s = RDelete d \<longrightarrow> d = nw) \<and>
     deletes s = (if ev_alive s then 0 else 1) \<and>
     (if nw then call_pc s \<in> {CDispatch, CDone} \<and> (ev_alive s \<longleftrightarrow> run_pc s \<noteq> REnd)
      else (ev_alive s \<longleftrightarrow> call_pc s \<noteq> CDone) \<and> (call_pc s \<in> {CUnlock, CReturn, CDone} \<longrightarrow> ev_done s) \<and>
        (call_pc s \<in> {CReturn, CDone} \<longrightarrow> run_pc s \<in> {RDelete False, REnd})) \<and>
     (call_pc s = CSleep \<and> \<not> before_notify s \<longrightarrow> notified s) \<and> (before_notify s \<longrightarrow> \<not> notified s)"

lemmas submit_inv_defs = submit_inv_def holds_call_def holds_run_def after_done_def after_run_def before_notify_def

lemma submit_inv_start: "submit_inv nw (submit_start nw)"
  by (simp add: submit_inv_defs submit_start_def)

lemma submit_inv_call:
  assumes "submit_inv nw s" "call_step s t"
  shows "submit_inv nw t"
  using assms(2)
proof cases
  case dispatch
  with assms(1) show ?thesis by (auto simp: submit_inv_defs)
next
  case wait_lock
  with assms(1) show ?thesis by (cases nw; cases "run_pc s"; auto simp: submit_inv_defs touch_def)
next
  case wait_done
  with assms(1) show ?thesis by (cases nw; cases "run_pc s"; auto simp: submit_inv_defs touch_def)
next
  case wait_sleep
  with assms(1) show ?thesis by (cases nw; cases "run_pc s"; auto simp: submit_inv_defs touch_def)
next
  case wake
  with assms(1) show ?thesis by (cases nw; cases "run_pc s"; auto simp: submit_inv_defs touch_def)
next
  case wait_unlock
  with assms(1) show ?thesis by (cases nw; cases "run_pc s"; auto simp: submit_inv_defs touch_def)
next
  case return
  with assms(1) show ?thesis by (cases nw; cases "run_pc s"; auto simp: submit_inv_defs touch_def)
qed

lemma submit_inv_spurious:
  assumes "submit_inv nw s" "spurious s t"
  shows "submit_inv nw t"
  using assms(2) by cases (use assms(1) in \<open>cases nw; cases "run_pc s"; auto simp: submit_inv_defs touch_def\<close>)

lemma submit_inv_run:
  assumes "submit_inv nw s" "run_step s t"
  shows "submit_inv nw t"
  using assms(2)
proof cases
  case take
  with assms(1) show ?thesis by (auto simp: submit_inv_defs)
next
  case run
  with assms(1) show ?thesis by (cases nw; cases "run_pc s"; auto simp: submit_inv_defs touch_def)
next
  case lock
  with assms(1) show ?thesis by (cases nw; cases "run_pc s"; auto simp: submit_inv_defs touch_def)
next
  case notify_all
  with assms(1) show ?thesis by (cases nw; cases "run_pc s"; auto simp: submit_inv_defs touch_def)
next
  case set_done
  with assms(1) show ?thesis by (cases nw; cases "run_pc s"; auto simp: submit_inv_defs touch_def)
next
  case read_del
  with assms(1) show ?thesis by (cases nw; cases "run_pc s"; auto simp: submit_inv_defs touch_def)
next
  case (unlock del)
  with assms(1) show ?thesis by (cases nw; cases "run_pc s"; auto simp: submit_inv_defs touch_def)
next
  case delete_this
  with assms(1) show ?thesis by (cases nw; cases "run_pc s"; auto simp: submit_inv_defs touch_def)
next
  case keep_this
  with assms(1) show ?thesis by (cases nw; cases "run_pc s"; auto simp: submit_inv_defs touch_def)
qed

lemma submit_reachable_inv: "submit_reachable nw s \<Longrightarrow> submit_inv nw s"
  by (induction rule: submit_reachable.induct) (auto intro: submit_inv_start submit_inv_call submit_inv_run submit_inv_spurious)

section \<open>Properties\<close>

text \<open>\<open>submit_to\<close> is safe in every interleaving of the caller with the thread of the target centre, spurious wake-ups included: the event is
  never used after it died and is destroyed at most once, the function runs at most once, and when a waiting call returns, the function
  has run.\<close>

theorem submit_to_safe:
  assumes "submit_reachable nw s"
  shows "\<not> bad_access s \<and> f_runs s \<le> 1 \<and> deletes s \<le> 1 \<and> (ev_alive s \<longleftrightarrow> deletes s = 0) \<and>
    (\<not> nw \<and> call_pc s = CDone \<longrightarrow> f_runs s = 1 \<and> ev_done s)"
proof -
  note inv = submit_reachable_inv [OF assms]
  have "f_runs s = 1 \<and> ev_done s" if "\<not> nw" "call_pc s = CDone" using inv that by (cases "run_pc s"; simp add: submit_inv_defs)
  moreover have "\<not> bad_access s \<and> f_runs s \<le> 1 \<and> deletes s \<le> 1 \<and> (ev_alive s \<longleftrightarrow> deletes s = 0)"
    using inv by (simp add: submit_inv_def)
  ultimately show ?thesis by blast
qed

text \<open>The steps the two threads have left.\<close>

definition submit_rank :: "submit_state \<Rightarrow> nat" where
  "submit_rank s =
     (case call_pc s of CDispatch \<Rightarrow> 10 | CLock \<Rightarrow> if before_notify s then 9 else 5 | CCheck \<Rightarrow> if ev_done s then 4 else 8
      | CSleep \<Rightarrow> if before_notify s then 7 else 6 | CUnlock \<Rightarrow> 3 | CReturn \<Rightarrow> 2 | CDone \<Rightarrow> 0) +
     (case run_pc s of RQueue \<Rightarrow> 9 | RRun \<Rightarrow> 8 | RLock \<Rightarrow> 7 | RNotify \<Rightarrow> 6 | RSetDone \<Rightarrow> 5 | RReadDel \<Rightarrow> 4 | RUnlock d \<Rightarrow> 3
      | RDelete d \<Rightarrow> 2 | REnd \<Rightarrow> 0)"

lemma submit_rank_call:
  assumes "submit_inv nw s" "call_step s t"
  shows "submit_rank t < submit_rank s"
  using assms(2)
proof cases
  case dispatch
  with assms(1) show ?thesis by (auto simp: submit_inv_defs submit_rank_def)
next
  case wake
  with assms(1) show ?thesis by (auto simp: submit_inv_defs submit_rank_def touch_def)
next
  case wait_lock
  with assms(1) show ?thesis by (cases "run_pc s") (auto simp: submit_inv_defs submit_rank_def touch_def)
next
  case wait_sleep
  with assms(1) show ?thesis by (cases "run_pc s") (auto simp: submit_inv_defs submit_rank_def touch_def)
qed (auto simp: submit_rank_def touch_def before_notify_def)

lemma submit_rank_run:
  assumes "submit_inv nw s" "run_step s t"
  shows "submit_rank t < submit_rank s"
proof -
  have lock: "call_pc s \<noteq> CCheck" if "run_pc s = RSetDone" using assms(1) that by (auto simp: submit_inv_defs)
  from assms(2) show ?thesis
  proof cases
    case set_done
    with lock show ?thesis by (simp add: submit_rank_def touch_def before_notify_def split: caller.splits)
  qed (simp_all add: submit_rank_def touch_def before_notify_def split: caller.splits)
qed

lemma submit_enabled:
  assumes "submit_inv nw s" "call_pc s \<noteq> CDone \<or> run_pc s \<noteq> REnd"
  shows "\<exists>t. call_step s t \<or> run_step s t"
proof (cases "call_pc s \<in> {CDispatch, CCheck, CUnlock, CReturn}")
  case True
  then show ?thesis by (cases "ev_done s") (auto intro: call_step.intros)
next
  case other: False
  show ?thesis
  proof (cases "run_pc s")
    case RQueue
    with assms(1) other have "in_queue s" by (auto simp: submit_inv_defs)
    with RQueue show ?thesis by (auto intro: run_step.intros)
  next
    case RLock
    with assms(1) other have "ev_lock s = None" by (cases "ev_lock s"; cases "the (ev_lock s)") (auto simp: submit_inv_defs)
    with RLock show ?thesis by (auto intro: run_step.intros)
  next
    case (RDelete d)
    then show ?thesis by (cases d) (auto intro: run_step.intros)
  next
    case REnd
    with assms have "call_pc s \<noteq> CDone" by simp
    with other consider "call_pc s = CLock" | "call_pc s = CSleep" by (cases "call_pc s") auto
    then show ?thesis
    proof cases
      case 1
      with REnd assms(1) have "ev_lock s = None" by (cases "ev_lock s"; cases "the (ev_lock s)") (auto simp: submit_inv_defs)
      with 1 show ?thesis by (auto intro: call_step.intros)
    next
      case 2
      with REnd assms(1) have "notified s" by (auto simp: submit_inv_defs)
      with 2 show ?thesis by (auto intro: call_step.intros)
    qed
  qed (auto intro: run_step.intros)
qed

text \<open>C38: A submitted call comes to its end. From every reachable state each step of either thread lowers the number of steps left, which is at
  most 19, some thread can make a step as long as one of them is not finished (no wake-up is lost), and when both are finished
  the function has run exactly once and the event was destroyed exactly once. Only spurious wake-ups can prolong a call.\<close>

theorem submit_to_returns:
  assumes "submit_reachable nw s"
  shows "submit_rank s \<le> 19 \<and> (\<forall>t. call_step s t \<or> run_step s t \<longrightarrow> submit_rank t < submit_rank s) \<and>
    (if call_pc s = CDone \<and> run_pc s = REnd then f_runs s = 1 \<and> deletes s = 1 else \<exists>t. call_step s t \<or> run_step s t)"
proof -
  note inv = submit_reachable_inv [OF assms]
  have "submit_rank s \<le> 19" by (auto simp: submit_rank_def split: caller.splits runner.splits)
  moreover have "f_runs s = 1 \<and> deletes s = 1" if "call_pc s = CDone" "run_pc s = REnd" using inv that by (cases nw) (auto simp: submit_inv_defs)
  ultimately show ?thesis using submit_rank_call [OF inv] submit_rank_run [OF inv] submit_enabled [OF inv] by auto
qed

text \<open>One complete run: the caller sleeps before the function runs, and wakes up afterwards.\<close>

definition finished_call :: submit_state where
  "finished_call = \<lparr>ev_alive = False, ev_lock = None, ev_done = True, nonwait = True, in_queue = False, notified = False,
     f_runs = 1, deletes = 1, bad_access = False, call_pc = CDone, run_pc = REnd\<rparr>"

lemma finished_call_reachable: "submit_reachable True finished_call"
proof -
  let ?s = "\<lambda>al lk dn q fr dl c r. \<lparr>ev_alive = al, ev_lock = lk, ev_done = dn, nonwait = True, in_queue = q, notified = False,
     f_runs = fr, deletes = dl, bad_access = False, call_pc = c, run_pc = r\<rparr>"
  note go = submit_reachable.run
  have "submit_reachable True (?s True None False False 0 0 CDispatch RQueue)" using submit_reachable.start [of True] by (simp add: submit_start_def)
  then have "submit_reachable True (?s True None False True 0 0 CDone RQueue)"
    by (rule submit_reachable.call) (use call_step.dispatch [of "?s True None False False 0 0 CDispatch RQueue"] in simp)
  then have "submit_reachable True (?s True None False False 0 0 CDone RRun)"
    by (rule go) (use run_step.take [of "?s True None False True 0 0 CDone RQueue"] in simp)
  then have "submit_reachable True (?s True None False False 1 0 CDone RLock)"
    by (rule go) (use run_step.run [of "?s True None False False 0 0 CDone RRun"] in \<open>simp add: touch_def\<close>)
  then have "submit_reachable True (?s True (Some ByRunner) False False 1 0 CDone RNotify)"
    by (rule go) (use run_step.lock [of "?s True None False False 1 0 CDone RLock"] in \<open>simp add: touch_def\<close>)
  then have "submit_reachable True (?s True (Some ByRunner) False False 1 0 CDone RSetDone)"
    by (rule go) (use run_step.notify_all [of "?s True (Some ByRunner) False False 1 0 CDone RNotify"] in \<open>simp add: touch_def\<close>)
  then have "submit_reachable True (?s True (Some ByRunner) True False 1 0 CDone RReadDel)"
    by (rule go) (use run_step.set_done [of "?s True (Some ByRunner) False False 1 0 CDone RSetDone"] in \<open>simp add: touch_def\<close>)
  then have "submit_reachable True (?s True (Some ByRunner) True False 1 0 CDone (RUnlock True))"
    by (rule go) (use run_step.read_del [of "?s True (Some ByRunner) True False 1 0 CDone RReadDel"] in \<open>simp add: touch_def\<close>)
  then have "submit_reachable True (?s True None True False 1 0 CDone (RDelete True))"
    by (rule go) (use run_step.unlock [of "?s True (Some ByRunner) True False 1 0 CDone (RUnlock True)" True] in \<open>simp add: touch_def\<close>)
  then show ?thesis unfolding finished_call_def
    by (rule go) (use run_step.delete_this [of "?s True None True False 1 0 CDone (RDelete True)"] in \<open>simp add: touch_def\<close>)
qed

theorem submit_to_safe_witness: "\<not> bad_access finished_call \<and> f_runs finished_call \<le> 1 \<and> deletes finished_call \<le> 1 \<and> \<not> ev_alive finished_call"
  using submit_to_safe [OF finished_call_reachable] by (simp add: finished_call_def)

theorem submit_to_returns_witness:
  "f_runs finished_call = 1 \<and> deletes finished_call = 1 \<and> (\<exists>t. call_step (submit_start False) t \<or> run_step (submit_start False) t)"
  using submit_to_returns [OF finished_call_reachable] submit_to_returns [OF submit_reachable.start, of False]
  by (simp add: finished_call_def submit_start_def)

text \<open>Which way a function is submitted: for a centre that exists, directly when the caller is its thread, by a waiting event otherwise,
  and by a deleting event when asked to be asynchronous; a number beyond the array or a missing centre aborts, and a negative number reads
  before the array.\<close>

theorem submit_to_ways:
  assumes "length cs = MAX_EVENTCENTER"
  shows "submit_to (Some cs) i in_thr async =
    (if i < 0 then Inl OutOfBounds else if 96 \<le> i \<or> cs ! nat i = nullptr then Inl KAssert
     else Inr (cs ! nat i, if async then Async else if in_thr (cs ! nat i) then Direct else Wait))"
  using assms by (auto simp: submit_to_def MAX_EVENTCENTER_def kassert_def Let_def)

theorem submit_to_ways_witness: "submit_to (Some (replicate 96 7)) 5 (\<lambda>c. c = 7) False = Inr (7, Direct)"
  using submit_to_ways [of "replicate 96 7" 5 "\<lambda>c. c = 7" False] by (simp add: MAX_EVENTCENTER_def)

end
