(* ===== verification/PoolContext.thy ===== *)
theory PoolContext
  imports RxPool
begin

text \<open>
  The context of the receive allocator (\<open>PoolAllocator::with_context\<close>, \<open>mem_pool::malloc\<close> and \<open>slow_malloc\<close> in
  \<open>src/src/core/Infiniband.h\<close> and \<open>Infiniband.cc\<close>). \<open>boost::pool\<close> calls the static \<open>PoolAllocator::malloc\<close>, which finds its pool
  through the static pointer \<open>g_ctx\<close>; \<open>with_context\<close> sets it under a static lock and a scope guard clears it again, whether the
  call returns or throws. Any number of threads allocate for any number of pools, and others return blocks: a step relation with one
  step per access. Thread \<open>j\<close> allocates for the pool with context \<open>ctx j\<close>.
\<close>

section \<open>Threads\<close>

datatype alloc_pc = AOut | ALocked | ASet | ARan | AReset | AFree ptr

record ctx_state =
  g_ctx :: ptr
  al_lock :: "nat option"
  al_pc :: "nat \<Rightarrow> alloc_pc"
  al_pools :: "ptr \<Rightarrow> rx_pool"
  al_home :: "ptr \<rightharpoonup> ptr"
  al_calls :: "(nat \<times> ptr) list"
  al_faults :: "fault list"

definition set_pc :: "nat \<Rightarrow> alloc_pc \<Rightarrow> ctx_state \<Rightarrow> ctx_state" where
  "set_pc j pc s = s\<lparr>al_pc := (al_pc s)(j := pc)\<rparr>"

text \<open>\<open>al_home\<close> is the field \<open>ctx\<close> of the header of a block; \<open>al_calls\<close> records which thread called the allocator with which context in
  \<open>g_ctx\<close>. \<open>std::malloc\<close> returns memory that is not in use by any pool.\<close>

inductive with_context :: "(nat \<Rightarrow> ptr) \<Rightarrow> u32 \<Rightarrow> u32 \<Rightarrow> ctx_state \<Rightarrow> ctx_state \<Rightarrow> bool" for ctx limit bsize where
  guard: "al_pc s j = AOut \<Longrightarrow> al_lock s = None \<Longrightarrow> with_context ctx limit bsize s (set_pc j ALocked (s\<lparr>al_lock := Some j\<rparr>))"
| set_ctx: "al_pc s j = ALocked \<Longrightarrow> with_context ctx limit bsize s (set_pc j ASet (s\<lparr>g_ctx := ctx j\<rparr>))"
| allocate: "al_pc s j = ASet \<Longrightarrow> \<forall>c. blocks (al_pools s c) (a + sizeof_mem_info) = None \<Longrightarrow> al_home s (a + sizeof_mem_info) = None \<Longrightarrow>
    pool_malloc (g_ctx s \<noteq> nullptr) limit bsize n a m lk (al_pools s (g_ctx s)) = Inr (b, p) \<Longrightarrow>
    with_context ctx limit bsize s (set_pc j ARan (s\<lparr>al_pools := (al_pools s)(g_ctx s := p),
      al_home := (if b = nullptr then al_home s else (al_home s)(b \<mapsto> g_ctx s)), al_calls := al_calls s @ [(j, g_ctx s)]\<rparr>))"
| abort: "al_pc s j = ASet \<Longrightarrow> pool_malloc (g_ctx s \<noteq> nullptr) limit bsize n a m lk (al_pools s (g_ctx s)) = Inl e \<Longrightarrow>
    with_context ctx limit bsize s (set_pc j ARan (s\<lparr>al_faults := al_faults s @ [e]\<rparr>))"
| reset: "al_pc s j = ASet \<or> al_pc s j = ARan \<Longrightarrow> with_context ctx limit bsize s (set_pc j AReset (s\<lparr>g_ctx := nullptr\<rparr>))"
| unguard: "al_pc s j = AReset \<Longrightarrow> with_context ctx limit bsize s (set_pc j AOut (s\<lparr>al_lock := None\<rparr>))"

text \<open>\<open>PoolAllocator::free\<close> for a block of some pool.\<close>

inductive free_block :: "ctx_state \<Rightarrow> ctx_state \<Rightarrow> bool" where
  guard: "al_pc s j = AOut \<Longrightarrow> al_lock s = None \<Longrightarrow> al_home s b \<noteq> None \<Longrightarrow> free_block s (set_pc j (AFree b) (s\<lparr>al_lock := Some j\<rparr>))"
| release: "al_pc s j = AFree b \<Longrightarrow> al_home s b = Some c \<Longrightarrow> pool_release b (al_pools s c) = Inr p \<Longrightarrow>
    free_block s (set_pc j AReset (s\<lparr>al_pools := (al_pools s)(c := p), al_home := (al_home s)(b := None)\<rparr>))"
| bad: "al_pc s j = AFree b \<Longrightarrow> al_home s b = None \<or> pool_release b (al_pools s (the (al_home s b))) = Inl e \<Longrightarrow>
    free_block s (set_pc j AReset (s\<lparr>al_faults := al_faults s @ [e]\<rparr>))"

definition ctx_start :: ctx_state where
  "ctx_start = \<lparr>g_ctx = nullptr, al_lock = None, al_pc = \<lambda>_. AOut, al_pools = \<lambda>_. \<lparr>pool_ctx_of = pool_ctx_new, blocks = Map.empty\<rparr>,
     al_home = Map.empty, al_calls = [], al_faults = []\<rparr>"

inductive ctx_reachable :: "(nat \<Rightarrow> ptr) \<Rightarrow> u32 \<Rightarrow> u32 \<Rightarrow> ctx_state \<Rightarrow> bool" for ctx limit bsize where
  start: "ctx_reachable ctx limit bsize ctx_start"
| alloc: "ctx_reachable ctx limit bsize s \<Longrightarrow> with_context ctx limit bsize s t \<Longrightarrow> ctx_reachable ctx limit bsize t"
| dealloc: "ctx_reachable ctx limit bsize s \<Longrightarrow> free_block s t \<Longrightarrow> ctx_reachable ctx limit bsize t"

section \<open>Invariant\<close>

definition ctx_lock_ok :: "(nat \<Rightarrow> ptr) \<Rightarrow> ctx_state \<Rightarrow> bool" where
  "ctx_lock_ok ctx s \<longleftrightarrow> (\<forall>j. al_lock s = Some j \<longleftrightarrow> al_pc s j \<noteq> AOut) \<and>
     g_ctx s = (case al_lock s of Some j \<Rightarrow> if al_pc s j \<in> {ASet, ARan} then ctx j else nullptr | None \<Rightarrow> nullptr)"

definition pools_ok :: "(nat \<Rightarrow> ptr) \<Rightarrow> ctx_state \<Rightarrow> bool" where
  "pools_ok ctx s \<longleftrightarrow> (\<forall>c. rx_pool_inv (al_pools s c)) \<and> (\<forall>b c. al_home s b = Some c \<longleftrightarrow> b \<in> dom (blocks (al_pools s c))) \<and>
     (\<forall>(j, c) \<in> set (al_calls s). c = ctx j) \<and> al_faults s = [] \<and> (\<forall>j b. al_pc s j = AFree b \<longrightarrow> al_home s b \<noteq> None)"

lemma set_pc_simps [simp]:
  "g_ctx (set_pc j pc s) = g_ctx s" "al_lock (set_pc j pc s) = al_lock s" "al_pc (set_pc j pc s) = (al_pc s)(j := pc)"
  "al_pools (set_pc j pc s) = al_pools s" "al_home (set_pc j pc s) = al_home s" "al_calls (set_pc j pc s) = al_calls s"
  "al_faults (set_pc j pc s) = al_faults s"
  by (simp_all add: set_pc_def)

lemma ctx_lock_owner:
  assumes "ctx_lock_ok ctx s" "al_pc s j \<noteq> AOut"
  shows "al_lock s = Some j" "g_ctx s = (if al_pc s j \<in> {ASet, ARan} then ctx j else nullptr)" "i \<noteq> j \<Longrightarrow> al_pc s i = AOut"
proof -
  show l: "al_lock s = Some j" using assms by (simp add: ctx_lock_ok_def)
  with assms(1) show "g_ctx s = (if al_pc s j \<in> {ASet, ARan} then ctx j else nullptr)" by (simp add: ctx_lock_ok_def)
  show "al_pc s i = AOut" if "i \<noteq> j" using assms(1) l that unfolding ctx_lock_ok_def by (metis option.inject)
qed

lemma ctx_lock_free_state: "ctx_lock_ok ctx s \<Longrightarrow> al_lock s = None \<Longrightarrow> al_pc s i = AOut \<and> g_ctx s = nullptr"
  by (simp add: ctx_lock_ok_def)

lemma ctx_lockI:
  assumes "al_lock t = Some j" "al_pc t j \<noteq> AOut" "\<And>i. i \<noteq> j \<Longrightarrow> al_pc t i = AOut"
    and "g_ctx t = (if al_pc t j \<in> {ASet, ARan} then ctx j else nullptr)"
  shows "ctx_lock_ok ctx t"
proof -
  have "al_lock t = Some k \<longleftrightarrow> al_pc t k \<noteq> AOut" for k using assms(1-3) by (cases "k = j") simp_all
  then show ?thesis unfolding ctx_lock_ok_def using assms(1,4) by (intro conjI allI) (simp_all only: option.case)
qed

lemma ctx_lock_with:
  assumes "ctx_lock_ok ctx s" "with_context ctx limit bsize s t"
  shows "ctx_lock_ok ctx t"
  using assms(2)
proof cases
  case (guard j)
  with ctx_lock_free_state [OF assms(1)] show ?thesis by (intro ctx_lockI [of _ j]) simp_all
next
  case (set_ctx j)
  with ctx_lock_owner [OF assms(1), of j] show ?thesis by (intro ctx_lockI [of _ j]) simp_all
next
  case (allocate j a n m lk b p)
  with ctx_lock_owner [OF assms(1), of j] show ?thesis by (intro ctx_lockI [of _ j]) simp_all
next
  case (abort j n a m lk e)
  with ctx_lock_owner [OF assms(1), of j] show ?thesis by (intro ctx_lockI [of _ j]) simp_all
next
  case (reset j)
  then have "al_pc s j \<noteq> AOut" by auto
  with reset ctx_lock_owner [OF assms(1), of j] show ?thesis by (intro ctx_lockI [of _ j]) simp_all
next
  case (unguard j)
  with ctx_lock_owner [OF assms(1), of j] show ?thesis by (simp add: ctx_lock_ok_def)
qed

lemma ctx_lock_free:
  assumes "ctx_lock_ok ctx s" "free_block s t"
  shows "ctx_lock_ok ctx t"
  using assms(2)
proof cases
  case (guard j b)
  with ctx_lock_free_state [OF assms(1)] show ?thesis by (intro ctx_lockI [of _ j]) simp_all
next
  case (release j b c p)
  with ctx_lock_owner [OF assms(1), of j] show ?thesis by (intro ctx_lockI [of _ j]) simp_all
next
  case (bad j b e)
  with ctx_lock_owner [OF assms(1), of j] show ?thesis by (intro ctx_lockI [of _ j]) simp_all
qed

lemma pools_okD:
  assumes "pools_ok ctx s"
  shows "rx_pool_inv (al_pools s c)" "al_home s b = Some c \<longleftrightarrow> b \<in> dom (blocks (al_pools s c))" "\<forall>(j, c) \<in> set (al_calls s). c = ctx j"
    "al_faults s = []" "al_pc s j = AFree b \<Longrightarrow> al_home s b \<noteq> None"
  using assms unfolding pools_ok_def by blast+

lemma pools_okI:
  assumes "\<And>c. rx_pool_inv (al_pools t c)" "\<And>b c. al_home t b = Some c \<longleftrightarrow> b \<in> dom (blocks (al_pools t c))"
    and "\<forall>(j, c) \<in> set (al_calls t). c = ctx j" "al_faults t = []" "\<And>j b. al_pc t j = AFree b \<Longrightarrow> al_home t b \<noteq> None"
  shows "pools_ok ctx t"
  using assms unfolding pools_ok_def by blast

lemma pools_ok_move:
  assumes "pools_ok ctx s" "al_pools t = al_pools s" "al_home t = al_home s" "al_calls t = al_calls s" "al_faults t = al_faults s"
    and "al_pc t = (al_pc s)(j := pc)" "\<forall>b. pc = AFree b \<longrightarrow> al_home s b \<noteq> None"
  shows "pools_ok ctx t"
proof (rule pools_okI)
  note ok = pools_okD [OF assms(1)]
  show "rx_pool_inv (al_pools t c)" "al_home t b = Some c \<longleftrightarrow> b \<in> dom (blocks (al_pools t c))" for b c
    using ok(1) [of c] ok(2) [of b c] assms(2,3) by simp_all
  show "\<forall>(j, c) \<in> set (al_calls t). c = ctx j" "al_faults t = []" using ok(3,4) assms(4,5) by simp_all
  show "al_home t b \<noteq> None" if "al_pc t i = AFree b" for i b
    using ok(5) [of i b] assms(3,6,7) that by (cases "i = j") simp_all
qed

text \<open>What the two calls do to the pools, given the lock.\<close>

lemma pools_with:
  assumes "ctx_lock_ok ctx s" "pools_ok ctx s" "\<forall>j. ctx j \<noteq> nullptr" "with_context ctx limit bsize s t"
  shows "pools_ok ctx t"
  using assms(4)
proof cases
  case (allocate j a n m lk b p)
  note ok = pools_okD [OF assms(2)]
  have g: "g_ctx s = ctx j" using ctx_lock_owner(2) [OF assms(1), of j] allocate(2) by simp
  let ?q = "al_pools s (g_ctx s)"
  have inv: "rx_pool_inv p" using pool_malloc_inv [OF ok(1) allocate(3) [THEN spec] allocate(5)] .
  have dom: "dom (blocks p) = (if b = nullptr then dom (blocks ?q) else insert b (dom (blocks ?q)))" "b \<noteq> nullptr \<longrightarrow> b = a + sizeof_mem_info"
    using pool_malloc_cases [OF allocate(5)] by (elim disjE exE conjE; simp add: sizeof_mem_info_def)+
  have other: "al_pc s i \<noteq> AFree x" for i x using ctx_lock_owner(3) [OF assms(1), of j i] allocate(2) by (cases "i = j") simp_all
  have fresh: "al_home s b = None" "\<And>c. b \<notin> dom (blocks (al_pools s c))" if "b \<noteq> nullptr" using allocate(3,4) dom(2) that by auto
  have home: "(if b = nullptr then al_home s else (al_home s)(b \<mapsto> g_ctx s)) x = Some c \<longleftrightarrow> x \<in> dom (blocks (((al_pools s)(g_ctx s := p)) c))" for x c
  proof (cases "b = nullptr")
    case True
    then show ?thesis using ok(2) [of x c] dom(1) by (cases "c = g_ctx s") simp_all
  next
    case False
    then show ?thesis using ok(2) [of x c] dom(1) fresh [OF False] by (cases "x = b"; cases "c = g_ctx s") simp_all
  qed
  show ?thesis
  proof (rule pools_okI)
    show "rx_pool_inv (al_pools t c)" for c using allocate(1) inv ok(1) [of c] by simp
    show "al_home t x = Some c \<longleftrightarrow> x \<in> dom (blocks (al_pools t c))" for x c using allocate(1) home [of x c] by simp
    show "\<forall>(i, c) \<in> set (al_calls t). c = ctx i" "al_faults t = []" using allocate(1) g ok(3,4) by simp_all
    show "al_home t x \<noteq> None" if "al_pc t i = AFree x" for i x using allocate(1) other [of i x] that by (cases "i = j") simp_all
  qed
next
  case (abort j n a m lk e)
  have "g_ctx s = ctx j" using ctx_lock_owner(2) [OF assms(1), of j] abort(2) by simp
  with assms(3) have "g_ctx s \<noteq> nullptr" by simp
  with abort(3) have False by (simp add: pool_malloc_def Let_def split: if_splits)
  then show ?thesis ..
next
  case (guard j)
  then show ?thesis by (intro pools_ok_move [OF assms(2), of _ j ALocked]) simp_all
next
  case (set_ctx j)
  then show ?thesis by (intro pools_ok_move [OF assms(2), of _ j ASet]) simp_all
next
  case (reset j)
  then show ?thesis by (intro pools_ok_move [OF assms(2), of _ j AReset]) simp_all
next
  case (unguard j)
  then show ?thesis by (intro pools_ok_move [OF assms(2), of _ j AOut]) simp_all
qed

lemma pools_free:
  assumes "ctx_lock_ok ctx s" "pools_ok ctx s" "free_block s t"
  shows "pools_ok ctx t"
  using assms(3)
proof cases
  case (guard j b)
  then show ?thesis by (intro pools_ok_move [OF assms(2), of _ j "AFree b"]) simp_all
next
  case (release j b c p)
  note ok = pools_okD [OF assms(2)]
  let ?q = "al_pools s c"
  have inv: "rx_pool_inv p" using pool_release_inv [OF ok(1) release(4)] .
  have "blocks p = (blocks ?q)(b := None)" using release(4) by (cases "blocks ?q b") (auto simp: pool_release_def)
  then have dom: "dom (blocks p) = dom (blocks ?q) - {b}" by simp
  have other: "al_pc s i \<noteq> AFree x" if "i \<noteq> j" for i x using ctx_lock_owner(3) [OF assms(1), of j i] release(2) that by simp
  have only: "b \<notin> dom (blocks (al_pools s d))" if "d \<noteq> c" for d using ok(2) [of b d] release(3) that by simp
  show ?thesis
  proof (rule pools_okI)
    show "rx_pool_inv (al_pools t d)" for d using release(1) inv ok(1) [of d] by simp
    show "al_home t x = Some d \<longleftrightarrow> x \<in> dom (blocks (al_pools t d))" for x d
      using release(1) ok(2) [of x d] dom only by (cases "x = b"; cases "d = c") simp_all
    show "\<forall>(i, c) \<in> set (al_calls t). c = ctx i" "al_faults t = []" using release(1) ok(3,4) by simp_all
    show "al_home t x \<noteq> None" if "al_pc t i = AFree x" for i x using release(1) other [of i x] that by (cases "i = j") simp_all
  qed
next
  case (bad j b e)
  note ok = pools_okD [OF assms(2)]
  from ok(5) [OF bad(2)] obtain c where c: "al_home s b = Some c" by blast
  then have "b \<in> dom (blocks (al_pools s c))" using ok(2) by blast
  with bad(3) c have False by (auto simp: pool_release_def)
  then show ?thesis ..
qed

lemma ctx_reachable_inv:
  assumes "ctx_reachable ctx limit bsize s" "\<forall>j. ctx j \<noteq> nullptr"
  shows "ctx_lock_ok ctx s \<and> pools_ok ctx s"
  using assms
proof (induction rule: ctx_reachable.induct)
  case start
  show ?case by (simp add: ctx_lock_ok_def pools_ok_def ctx_start_def rx_pool_inv_def live_bufs_def pool_ctx_new_def)
qed (blast intro: ctx_lock_with ctx_lock_free pools_with pools_free)+

section \<open>Properties\<close>

text \<open>The allocator always works for the pool it was called for. In every interleaving of threads that allocate for different pools and
  threads that return blocks, the allocator is called with the context of the calling thread's pool, its assertion on the context
  never fails, a block is accounted to the pool that holds it, the counter of every pool is the number of the buffers in its
  blocks, and the context is null whenever nobody holds the lock.\<close>

theorem pool_context_right:
  assumes "ctx_reachable ctx limit bsize s" "\<forall>j. ctx j \<noteq> nullptr"
  shows "al_faults s = [] \<and> (\<forall>(j, c) \<in> set (al_calls s). c = ctx j) \<and>
    (\<forall>b c. al_home s b = Some c \<longleftrightarrow> b \<in> dom (blocks (al_pools s c))) \<and>
    (\<forall>c. n_bufs_allocated (pool_ctx_of (al_pools s c)) = of_nat (live_bufs (al_pools s c))) \<and> (al_lock s = None \<longrightarrow> g_ctx s = nullptr)"
  using ctx_reachable_inv [OF assms] by (auto simp: pools_ok_def ctx_lock_ok_def rx_pool_inv_def)

theorem pool_context_right_witness:
  "\<exists>s. ctx_reachable (\<lambda>j. 7 + j) 100 8 s \<and> al_calls s = [(2, 9)] \<and> al_faults s = [] \<and>
    n_bufs_allocated (pool_ctx_of (al_pools s 9)) = of_nat (live_bufs (al_pools s 9))"
proof -
  let ?w = "with_context (\<lambda>j. 7 + j) 100 8"
  let ?a = "set_pc 2 ALocked (ctx_start\<lparr>al_lock := Some 2\<rparr>)" let ?b = "set_pc 2 ASet (?a\<lparr>g_ctx := 9\<rparr>)"
  have "?w ctx_start ?a" by (rule with_context.guard) (simp_all add: ctx_start_def)
  moreover have "?w ?a ?b" using with_context.set_ctx [of ?a 2 "\<lambda>j. 7 + j" 100 8] by simp
  moreover obtain p where p: "pool_malloc True 100 8 640 1000 1 7 (al_pools ?b 9) = Inr (1024, p)"
    by (simp add: ctx_start_def pool_malloc_def can_alloc_def pool_ctx_new_def Let_def sizeof_Chunk_def sizeof_mem_info_def)
  let ?c = "set_pc 2 ARan (?b\<lparr>al_pools := (al_pools ?b)(9 := p), al_home := [1024 \<mapsto> 9], al_calls := [(2, 9)]\<rparr>)"
  have "?w ?b ?c"
    using with_context.allocate [of ?b 2 1000 100 8 640 1 7 1024 p "\<lambda>j. 7 + j"] p by (simp add: ctx_start_def sizeof_mem_info_def)
  ultimately have r: "ctx_reachable (\<lambda>j. 7 + j) 100 8 ?c" by (meson ctx_reachable.intros)
  have "n_bufs_allocated (pool_ctx_of (al_pools ?c 9)) = of_nat (live_bufs (al_pools ?c 9))" "al_faults ?c = []"
    using pool_context_right [OF r] by (simp_all del: set_pc_simps fun_upd_apply)
  with r show ?thesis by (intro exI [of _ ?c]) simp
qed

end
