(* ===== verification/PollingThread.thy ===== *)
theory PollingThread
  imports Dispatcher IbDevice RxPool
begin

text \<open>
  The life of the polling thread of the dispatcher (\<open>RDMADispatcher::polling_start\<close>, \<open>polling\<close>, \<open>polling_stop\<close> and the destructor in
  \<open>src/src/core/RDMAStack.cc\<close>): who creates and destroys the completion channels and queues, and when the thread ends. The rounds
  of the loop are those of the theory Dispatcher, here as whole turns; the finer steps of a turn, between which other threads run, are in
  \<open>poll_step\<close> there. The body of \<open>polling_start\<close> runs under the lock of the dispatcher and is one step;
  \<open>polling_stop\<close> is a step for the flag, one for the join with what follows it, and one for the assertions of the destructor.
\<close>

section \<open>State\<close>

text \<open>A member that holds a pointer: null, to an object, or to an object that was deleted.\<close>

datatype 'a member = Null | Live 'a | Freed

datatype thread_state = NoThread | Polling | Finished

text \<open>\<open>Broken\<close>: an assertion of the destructors failed.\<close>

datatype life_phase = Alive | Stopping | Joined | Gone | Broken fault

record poller =
  po_disp :: disp
  po_thread :: thread_state
  po_ctx :: pool_ctx
  po_tx_cc :: "comp_channel member"
  po_rx_cc :: "comp_channel member"
  po_tx_cq :: "ptr option member"
  po_rx_cq :: "ptr option member"
  po_phase :: life_phase
  po_made :: nat
  po_freed :: nat

definition dispatcher_new :: "cluster \<Rightarrow> pool_ctx \<Rightarrow> poller" where
  "dispatcher_new pool ctx = \<lparr>po_disp = disp_new pool, po_thread = NoThread, po_ctx = ctx, po_tx_cc = Null, po_rx_cc = Null,
     po_tx_cq = Null, po_rx_cq = Null, po_phase = Alive, po_made = 0, po_freed = 0\<rparr>"

section \<open>Starting\<close>

definition assert_some :: "'a option \<Rightarrow> 'a result" where
  "assert_some x = (case x of None \<Rightarrow> Inl KAssert | Some y \<Rightarrow> Inr y)"

text \<open>The answers for the two channels and the two queues: the new handle, the result of \<open>set_nonblock\<close> or \<open>ibv_req_notify_cq\<close>, and
  the result of destroying what could not be initialised. \<open>po_made\<close> counts the objects created.\<close>

type_synonym create_env = "ptr option \<times> int \<times> int"

definition polling_start :: "create_env \<Rightarrow> create_env \<Rightarrow> create_env \<Rightarrow> create_env \<Rightarrow> poller \<Rightarrow> poller result" where
  "polling_start tc rc tq rqe s =
     (if po_thread s \<noteq> NoThread then Inr s
      else let s0 = s\<lparr>po_ctx := set_stat_logger True (po_ctx s)\<rparr> in
        rbind (rbind (create_comp_channel (fst tc) (fst (snd tc)) (snd (snd tc))) assert_some) (\<lambda>txc.
        rbind (rbind (create_comp_channel (fst rc) (fst (snd rc)) (snd (snd rc))) assert_some) (\<lambda>rxc.
        rbind (rbind (create_comp_queue (fst tq) (fst (snd tq)) (snd (snd tq)) txc) assert_some) (\<lambda>(txq, txc').
        rbind (rbind (create_comp_queue (fst rqe) (fst (snd rqe)) (snd (snd rqe)) rxc) assert_some) (\<lambda>(rxq, rxc').
          Inr (s0\<lparr>po_tx_cc := Live txc', po_rx_cc := Live rxc', po_tx_cq := Live txq, po_rx_cq := Live rxq,
            po_made := po_made s0 + 4, po_thread := Polling\<rparr>))))))"

section \<open>Polling\<close>

text \<open>One turn of the loop; \<open>None\<close> is a poll that returned \<open>-1\<close>. The Boolean says that the loop ends.\<close>

definition poll_turn :: "wc list option \<Rightarrow> (ptr \<times> int \<times> wc) list option \<Rightarrow> (ptr \<Rightarrow> int) \<Rightarrow> disp \<Rightarrow> (bool \<times> disp) result" where
  "poll_turn tx rx ret d =
     rbind (case tx of Some (c # cs) \<Rightarrow> handle_tx_event (c # cs) d | _ \<Rightarrow> Inr d) (\<lambda>d1.
     rbind (case rx of Some (c # cs) \<Rightarrow> handle_rx_event (c # cs) d1 | _ \<Rightarrow> Inr d1) (\<lambda>d2.
       if tx = Some [] \<and> rx = Some [] then
         rbind (if dead_queue_pairs d2 \<noteq> []
                then delete_all ret (dead_queue_pairs d2) (d2\<lparr>dead_queue_pairs := []\<rparr>) else Inr d2) (\<lambda>d3.
           Inr (num_qp_conn d3 = 0 \<and> done_flag d3 \<and> dead_queue_pairs d3 = [], d3))
       else Inr (False, d2)))"

text \<open>The loop, given what each turn polls: whether it has ended, and the state.\<close>

fun polling :: "(wc list option \<times> (ptr \<times> int \<times> wc) list option \<times> (ptr \<Rightarrow> int)) list \<Rightarrow> disp \<Rightarrow> (bool \<times> disp) result" where
  "polling [] d = Inr (False, d)"
| "polling ((tx, rx, ret) # ts) d = rbind (poll_turn tx rx ret d) (\<lambda>(b, d'). if b then Inr (True, d') else polling ts d')"

section \<open>Stopping\<close>

text \<open>What \<open>ibv_destroy_cq\<close> answers while the queue pairs of the dispatcher are as given, and \<open>ibv_destroy_comp_channel\<close> while a
  completion queue of the channel is live or not.\<close>

record teardown_env =
  destroy_cq_ret :: "disp \<Rightarrow> int"
  destroy_cc_ret :: "bool \<Rightarrow> int"

definition is_live :: "'a member \<Rightarrow> bool" where
  "is_live m = (case m of Live _ \<Rightarrow> True | _ \<Rightarrow> False)"

definition with_member :: "'a member \<Rightarrow> ('a \<Rightarrow> 'b result) \<Rightarrow> 'b result" where
  "with_member m f = (case m of Null \<Rightarrow> Inl NullDeref | Live x \<Rightarrow> f x | Freed \<Rightarrow> Inl UseAfterFree)"

definition delete_cq :: "teardown_env \<Rightarrow> disp \<Rightarrow> ptr option member \<Rightarrow> unit result" where
  "delete_cq v d m = (case m of Null \<Rightarrow> Inr () | Live q \<Rightarrow> cq_destroy q (destroy_cq_ret v d) | Freed \<Rightarrow> Inl UseAfterFree)"

definition delete_cc :: "teardown_env \<Rightarrow> bool \<Rightarrow> comp_channel member \<Rightarrow> unit result" where
  "delete_cc v in_use m = (case m of Null \<Rightarrow> Inr () | Live c \<Rightarrow> channel_destroy (destroy_cc_ret v in_use) c | Freed \<Rightarrow> Inl UseAfterFree)"

text \<open>The end of \<open>polling_stop\<close>, after the join. The members keep their values when the objects are deleted.\<close>

definition polling_release :: "teardown_env \<Rightarrow> poller \<Rightarrow> poller result" where
  "polling_release v s =
     rbind (with_member (po_tx_cc s) (\<lambda>c. Inr (s\<lparr>po_tx_cc := Live (ack_events c)\<rparr>))) (\<lambda>s1.
     rbind (with_member (po_rx_cc s1) (\<lambda>c. Inr (s1\<lparr>po_rx_cc := Live (ack_events c)\<rparr>))) (\<lambda>s2.
     rbind (delete_cq v (po_disp s2) (po_tx_cq s2)) (\<lambda>_. let s3 = s2\<lparr>po_tx_cq := Freed, po_freed := po_freed s2 + 1\<rparr> in
     rbind (delete_cq v (po_disp s3) (po_rx_cq s3)) (\<lambda>_. let s4 = s3\<lparr>po_rx_cq := Freed, po_freed := po_freed s3 + 1\<rparr> in
     rbind (delete_cc v (is_live (po_tx_cq s4)) (po_tx_cc s4)) (\<lambda>_. let s5 = s4\<lparr>po_tx_cc := Freed, po_freed := po_freed s4 + 1\<rparr> in
     rbind (delete_cc v (is_live (po_rx_cq s5)) (po_rx_cc s5)) (\<lambda>_.
       Inr (s5\<lparr>po_rx_cc := Freed, po_freed := po_freed s5 + 1, po_thread := NoThread\<rparr>)))))))"

section \<open>The threads\<close>

text \<open>Sockets are made by \<open>RDMAWorker::connect\<close> and by \<open>accept\<close> on a socket of \<open>RDMAWorker::listen\<close>, both of which call \<open>polling_start\<close> first:
  the other steps of the dispatcher are taken while the thread is there. The destructor runs when nobody else refers to
  the dispatcher: from then on only the polling thread takes steps.\<close>

inductive life_step :: "teardown_env \<Rightarrow> poller \<Rightarrow> poller \<Rightarrow> bool" for v where
  start: "po_phase s = Alive \<Longrightarrow> polling_start tc rc tq rqe s = Inr t \<Longrightarrow> life_step v s t"
| work: "po_phase s = Alive \<Longrightarrow> po_thread s \<noteq> NoThread \<Longrightarrow> disp_step (po_disp s) d \<Longrightarrow> \<not> done_flag d \<Longrightarrow> life_step v s (s\<lparr>po_disp := d\<rparr>)"
| turn: "po_thread s = Polling \<Longrightarrow> poll_turn tx rx ret (po_disp s) = Inr (b, d) \<Longrightarrow>
    life_step v s (s\<lparr>po_disp := d, po_thread := (if b then Finished else Polling)\<rparr>)"
| stop: "po_phase s = Alive \<Longrightarrow> life_step v s (s\<lparr>po_disp := polling_stop (po_disp s), po_phase := Stopping\<rparr>)"
| not_joinable: "po_phase s = Stopping \<Longrightarrow> po_thread s = NoThread \<Longrightarrow> life_step v s (s\<lparr>po_phase := Joined\<rparr>)"
| join: "po_phase s = Stopping \<Longrightarrow> po_thread s = Finished \<Longrightarrow> polling_release v s = Inr t \<Longrightarrow> life_step v s (t\<lparr>po_phase := Joined\<rparr>)"
| join_fails: "po_phase s = Stopping \<Longrightarrow> po_thread s = Finished \<Longrightarrow> polling_release v s = Inl e \<Longrightarrow> life_step v s (s\<lparr>po_phase := Broken e\<rparr>)"
| destroy: "po_phase s = Joined \<Longrightarrow> dispatcher_destroy (po_disp s) = Inr () \<Longrightarrow> life_step v s (s\<lparr>po_phase := Gone\<rparr>)"
| destroy_fails: "po_phase s = Joined \<Longrightarrow> dispatcher_destroy (po_disp s) = Inl e \<Longrightarrow> life_step v s (s\<lparr>po_phase := Broken e\<rparr>)"

inductive life_reachable :: "teardown_env \<Rightarrow> cluster \<Rightarrow> pool_ctx \<Rightarrow> poller \<Rightarrow> bool" for v pool ctx where
  new: "life_reachable v pool ctx (dispatcher_new pool ctx)"
| step: "life_reachable v pool ctx s \<Longrightarrow> life_step v s t \<Longrightarrow> life_reachable v pool ctx t"

section \<open>Every live queue pair is in the table or in the dead list\<close>

definition accounted :: "disp \<Rightarrow> bool" where
  "accounted d \<longleftrightarrow> (\<forall>p. qp_sig d p \<noteq> None \<longrightarrow> p \<in> set (dead_queue_pairs d) \<or> (\<exists>n c. qp_conns d n = Some (p, c)))"

lemma accountedI: "(\<And>p x. qp_sig d p = Some x \<Longrightarrow> p \<in> set (dead_queue_pairs d) \<or> (\<exists>n c. qp_conns d n = Some (p, c))) \<Longrightarrow> accounted d"
  by (auto simp: accounted_def)

lemma accountedD: "accounted d \<Longrightarrow> qp_sig d p = Some x \<Longrightarrow> p \<in> set (dead_queue_pairs d) \<or> (\<exists>n c. qp_conns d n = Some (p, c))"
  by (auto simp: accounted_def)

lemma accounted_same: "same_table d d' \<Longrightarrow> accounted d \<Longrightarrow> accounted d'"
  by (simp add: same_table_def accounted_def)

lemma accounted_enqueue:
  assumes "accounted d"
  shows "accounted (enqueue_dead_qp qpn d)"
proof (cases "qp_conns d qpn")
  case (Some x)
  obtain p c where x: "x = (p, c)" by (cases x)
  show ?thesis
  proof (rule accountedI)
    fix r y assume "qp_sig (enqueue_dead_qp qpn d) r = Some y"
    then have "qp_sig d r = Some y" using Some x by (simp add: enqueue_dead_qp_def qp_sig_def)
    then consider "r \<in> set (dead_queue_pairs d)" | n c' where "qp_conns d n = Some (r, c')" using accountedD [OF assms] by blast
    then show "r \<in> set (dead_queue_pairs (enqueue_dead_qp qpn d)) \<or> (\<exists>n c. qp_conns (enqueue_dead_qp qpn d) n = Some (r, c))"
    proof cases
      case 1
      then show ?thesis using Some x by (simp add: enqueue_dead_qp_def)
    next
      case (2 n c')
      then show ?thesis using Some x by (cases "n = qpn") (auto simp: enqueue_dead_qp_def)
    qed
  qed
qed (simp add: enqueue_dead_qp_def assms)

lemma accounted_register:
  assumes "accounted d" "qps d p = None" "register_qp p c (d\<lparr>qps := (qps d)(p \<mapsto> q), conn_qp := cq\<rparr>) = Inr d'"
  shows "accounted d'"
proof -
  let ?n = "get_local_qp_number q"
  have d': "d' = d\<lparr>qps := (qps d)(p \<mapsto> q), conn_qp := cq, qp_conns := (qp_conns d)(?n \<mapsto> (p, c)), num_qp_conn := num_qp_conn d + 1\<rparr>"
    and free: "qp_conns d ?n = None" using assms(3) by (auto simp: register_qp_def split: option.splits if_splits)
  show ?thesis
  proof (rule accountedI)
    fix r x assume r: "qp_sig d' r = Some x"
    show "r \<in> set (dead_queue_pairs d') \<or> (\<exists>n c. qp_conns d' n = Some (r, c))"
    proof (cases "r = p")
      case False
      then have "qp_sig d r = Some x" using r by (simp add: d' qp_sig_def)
      then consider "r \<in> set (dead_queue_pairs d)" | m b where "qp_conns d m = Some (r, b)" using accountedD [OF assms(1)] by blast
      then show ?thesis
      proof cases
        case (2 m b)
        then have "m \<noteq> ?n" using free by auto
        with 2 show ?thesis unfolding d' by (intro disjI2 exI [of _ m] exI [of _ b]) simp
      qed (simp add: d')
    qed (auto simp: d')
  qed
qed

lemma accounted_schedule:
  assumes "accounted d" "disp_inv d" "schedule_qp_destroy rm rp e qpn d = Inr d'"
  shows "accounted d'"
proof (cases "qp_conns d qpn")
  case (Some x)
  obtain p c where x: "x = (p, c)" by (cases x)
  have "qp_sig d p = Some qpn" using assms(2) Some x by (simp add: disp_inv_def)
  then obtain q where q: "qps d p = Some q" by (auto simp: qps_live)
  let ?d1 = "d\<lparr>qps := (qps d)(p \<mapsto> snd (to_dead rm rp e q))\<rparr>"
  have st: "same_table d ?d1" using q by (auto simp: same_table_def qp_sig_def fun_eq_iff)
  have acc1: "accounted ?d1" by (rule accounted_same [OF st assms(1)])
  show ?thesis
  proof (cases "fst (to_dead rm rp e q) = 0")
    case True
    have d': "d' = ?d1\<lparr>qp_conns := (qp_conns d)(qpn \<mapsto> (p, nullptr))\<rparr>"
      using assms(3) Some x q True by (simp add: schedule_qp_destroy_def Let_def case_prod_beta)
    have sig: "qp_sig d' = qp_sig d" using st by (simp add: d' same_table_def qp_sig_def fun_eq_iff)
    show ?thesis
    proof (rule accountedI)
      fix r y assume "qp_sig d' r = Some y"
      then consider "r \<in> set (dead_queue_pairs d)" | n b where "qp_conns d n = Some (r, b)"
        using accountedD [OF assms(1), of r y] sig by auto
      then show "r \<in> set (dead_queue_pairs d') \<or> (\<exists>n c. qp_conns d' n = Some (r, c))"
      proof cases
        case (2 n b)
        then show ?thesis using Some x unfolding d' by (cases "n = qpn") (auto intro: exI [of _ n])
      qed (simp add: d')
    qed
  next
    case False
    then have "d' = enqueue_dead_qp qpn ?d1"
      using assms(3) Some x q by (simp add: schedule_qp_destroy_def Let_def case_prod_beta enqueue_dead_qp_def)
    then show ?thesis using accounted_enqueue [OF acc1] by simp
  qed
qed (use assms in \<open>simp add: schedule_qp_destroy_def\<close>)

lemma accounted_tx: "accounted d \<Longrightarrow> handle_tx_event cqe d = Inr d' \<Longrightarrow> accounted d'"
proof -
  have one: "accounted d \<Longrightarrow> tx_one r cs d = Inr (cs', d') \<Longrightarrow> accounted d'" for r cs d cs' d'
    by (auto simp: tx_one_def Let_def rbind_eq_Inr accounted_enqueue intro: accounted_same [OF same_table_upd(1)]
      split: if_splits option.splits)
  have loop: "accounted d \<Longrightarrow> tx_loop rs cs d = Inr (cs', d') \<Longrightarrow> accounted d'" for rs cs d cs' d'
    by (induction rs cs d rule: tx_loop.induct) (auto simp: rbind_eq_Inr dest: one)
  show "accounted d \<Longrightarrow> handle_tx_event cqe d = Inr d' \<Longrightarrow> accounted d'"
    by (auto simp: handle_tx_event_def rbind_eq_Inr intro: accounted_same [OF post_tx_buffer_table] dest: loop)
qed

lemma accounted_idle:
  assumes "accounted d" "delete_all ret (dead_queue_pairs d) (d\<lparr>dead_queue_pairs := []\<rparr>) = Inr d'"
  shows "accounted d'"
proof -
  have "qp_sig (d\<lparr>dead_queue_pairs := []\<rparr>) = qp_sig d" by (simp add: qp_sig_def fun_eq_iff)
  then show ?thesis using assms(1) delete_all_frame [OF assms(2)] by (auto simp: accounted_def)
qed

lemma accounted_async: "accounted d \<Longrightarrow> handle_async_event cfg evs d = Inr d' \<Longrightarrow> accounted d'"
proof (induction cfg evs d rule: handle_async_event.induct)
  case (2 cfg ev evs d)
  obtain d1 where d1: "async_one cfg ev d = Inr d1" "handle_async_event cfg evs d1 = Inr d'"
    using "2.prems"(2) by (auto simp: rbind_eq_Inr)
  have "accounted (d\<lparr>faulted := f\<rparr>)" for f using "2.prems"(1) by (rule accounted_same [OF same_table_upd(4)])
  then have "accounted d1"
    using d1(1) "2.prems"(1)
    by (auto simp: async_one_def rbind_eq_Inr Let_def accounted_enqueue split: async_event.splits if_splits)
  then show ?case using "2.IH" d1 by blast
qed simp

section \<open>The rounds keep the flag\<close>

text \<open>Nothing that the polling thread does changes \<open>done\<close>.\<close>

lemma put_rq_done [simp]: "done_flag (put_rq p st d) = done_flag d"
  by (simp add: put_rq_def)

lemma enqueue_done [simp]: "done_flag (enqueue_dead_qp n d) = done_flag d"
  by (simp add: enqueue_dead_qp_def split: option.splits prod.splits)

lemma disp_recall_done: "disp_recall c d = Inr d' \<Longrightarrow> done_flag d' = done_flag d"
  by (auto simp: disp_recall_def Let_def rbind_eq_Inr split: if_splits)

lemma conn_post_done: "conn_post_chunks bufs ret bad num c d = Inr d' \<Longrightarrow> done_flag d' = done_flag d"
  by (auto simp: conn_post_chunks_def disp_post_chunks_def rbind_eq_Inr split: option.splits)

lemma rx_done: "handle_rx_event cqe d = Inr d' \<Longrightarrow> done_flag d' = done_flag d"
proof -
  have one: "rx_one b ret r polled d = Inr (polled', d') \<Longrightarrow> done_flag d' = done_flag d" for b ret r polled d polled' d'
    by (auto simp: rx_one_def rbind_eq_Inr Let_def split: if_splits dest: disp_recall_done conn_post_done)
  have loop: "rx_loop cqe polled d = Inr (polled', d') \<Longrightarrow> done_flag d' = done_flag d" for cqe polled d polled' d'
    by (induction cqe polled d rule: rx_loop.induct) (auto simp: rbind_eq_Inr dest!: one)
  have "done_flag (foldl (\<lambda>d c. pass_wc c (f c) d) d cs) = done_flag d" for f cs d
    by (induction cs arbitrary: d) (simp_all add: pass_wc_def)
  then show "handle_rx_event cqe d = Inr d' \<Longrightarrow> done_flag d' = done_flag d"
    by (auto simp: handle_rx_event_def rbind_eq_Inr pass_polled_def dest: loop)
qed

lemma tx_done: "handle_tx_event cqe d = Inr d' \<Longrightarrow> done_flag d' = done_flag d"
proof -
  have one: "tx_one r cs d = Inr (cs', d') \<Longrightarrow> done_flag d' = done_flag d" for r cs d cs' d'
    by (auto simp: tx_one_def Let_def rbind_eq_Inr split: if_splits option.splits)
  have loop: "tx_loop rs cs d = Inr (cs', d') \<Longrightarrow> done_flag d' = done_flag d" for rs cs d cs' d'
    by (induction rs cs d rule: tx_loop.induct) (auto simp: rbind_eq_Inr dest!: one)
  show "handle_tx_event cqe d = Inr d' \<Longrightarrow> done_flag d' = done_flag d"
    by (auto simp: handle_tx_event_def rbind_eq_Inr post_tx_buffer_def dest!: loop split: if_splits)
qed

section \<open>One turn\<close>

lemma poll_turn_cases:
  assumes "poll_turn tx rx ret d = Inr (b, d')"
  obtains d1 d2 where "d1 = d \<or> (\<exists>cs. handle_tx_event cs d = Inr d1)" "d2 = d1 \<or> (\<exists>cs. handle_rx_event cs d1 = Inr d2)"
    "(\<not> b \<and> d' = d2) \<or> (b = (num_qp_conn d' = 0 \<and> done_flag d' \<and> dead_queue_pairs d' = []) \<and> tx = Some [] \<and> rx = Some [] \<and>
      (d' = d2 \<or> delete_all ret (dead_queue_pairs d2) (d2\<lparr>dead_queue_pairs := []\<rparr>) = Inr d'))"
  using assms unfolding poll_turn_def rbind_eq_Inr
  by (auto simp: rbind_eq_Inr split: if_splits option.splits list.splits)

lemma poll_turn_keeps:
  assumes "disp_inv d" "accounted d" "poll_turn tx rx ret d = Inr (b, d')"
  shows "disp_inv d'" "accounted d'" "done_flag d' = done_flag d"
    "b \<Longrightarrow> tx = Some [] \<and> rx = Some [] \<and> num_qp_conn d' = 0 \<and> done_flag d' \<and> dead_queue_pairs d' = []"
proof -
  obtain d1 d2 where d1: "d1 = d \<or> (\<exists>cs. handle_tx_event cs d = Inr d1)" and d2: "d2 = d1 \<or> (\<exists>cs. handle_rx_event cs d1 = Inr d2)"
    and rest: "(\<not> b \<and> d' = d2) \<or> (b = (num_qp_conn d' = 0 \<and> done_flag d' \<and> dead_queue_pairs d' = []) \<and> tx = Some [] \<and> rx = Some [] \<and>
      (d' = d2 \<or> delete_all ret (dead_queue_pairs d2) (d2\<lparr>dead_queue_pairs := []\<rparr>) = Inr d'))"
    using poll_turn_cases [OF assms(3)] .
  have 1: "disp_inv d1 \<and> accounted d1 \<and> done_flag d1 = done_flag d"
    using d1 assms(1,2) handle_tx_event_inv accounted_tx tx_done by blast
  have 2: "disp_inv d2 \<and> accounted d2 \<and> done_flag d2 = done_flag d"
    using d2 1 same_table_inv accounted_same handle_rx_event_table rx_done by metis
  have 3: "disp_inv x \<and> accounted x \<and> done_flag x = done_flag d"
    if "delete_all ret (dead_queue_pairs d2) (d2\<lparr>dead_queue_pairs := []\<rparr>) = Inr x" for x
    using that 2 idle_inv [OF _ that] accounted_idle [OF _ that] delete_all_frame [OF that] by simp
  show "disp_inv d'" "accounted d'" "done_flag d' = done_flag d"
    "b \<Longrightarrow> tx = Some [] \<and> rx = Some [] \<and> num_qp_conn d' = 0 \<and> done_flag d' \<and> dead_queue_pairs d' = []"
    using rest 2 3 by blast+
qed

lemma table_empty:
  assumes "disp_inv d" "num_qp_conn d = 0"
  shows "qp_conns d = Map.empty"
proof -
  have "card (dom (qp_conns d)) = 0" using assms by (simp add: disp_inv_def)
  then have "dom (qp_conns d) = {}" by simp
  then show ?thesis by simp
qed

lemma nothing_live:
  assumes "accounted d" "qp_conns d = Map.empty" "dead_queue_pairs d = []"
  shows "qps d = Map.empty"
proof
  fix p show "qps d p = None" using assms by (auto simp: accounted_def simp flip: sig_none)
qed

section \<open>Invariant of the life cycle\<close>

definition all_live :: "poller \<Rightarrow> bool" where
  "all_live s \<longleftrightarrow> is_live (po_tx_cc s) \<and> is_live (po_rx_cc s) \<and> is_live (po_tx_cq s) \<and> is_live (po_rx_cq s)"

definition clean :: "disp \<Rightarrow> bool" where
  "clean d \<longleftrightarrow> num_qp_conn d = 0 \<and> dead_queue_pairs d = []"

definition life_inv :: "poller \<Rightarrow> bool" where
  "life_inv s \<longleftrightarrow> disp_inv (po_disp s) \<and> accounted (po_disp s) \<and> po_made s \<in> {0, 4} \<and>
     (case po_phase s of
        Alive \<Rightarrow> \<not> done_flag (po_disp s) \<and> po_thread s \<noteq> Finished \<and> po_freed s = 0
      | Stopping \<Rightarrow> po_freed s = 0
      | Broken e \<Rightarrow> False
      | _ \<Rightarrow> po_thread s = NoThread \<and> clean (po_disp s) \<and> po_freed s = po_made s) \<and>
     (case po_thread s of
        NoThread \<Rightarrow> clean (po_disp s) \<and> (po_freed s = 0 \<longrightarrow> po_made s = 0)
      | Polling \<Rightarrow> all_live s \<and> po_made s = 4
      | Finished \<Rightarrow> all_live s \<and> po_made s = 4 \<and> clean (po_disp s))"

definition teardown_ok :: "teardown_env \<Rightarrow> bool" where
  "teardown_ok v \<longleftrightarrow> (\<forall>d. qps d = Map.empty \<longrightarrow> destroy_cq_ret v d = 0) \<and> destroy_cc_ret v False = 0"

lemma clean_facts:
  assumes "disp_inv d" "accounted d" "clean d"
  shows "qp_conns d = Map.empty" "qps d = Map.empty" "dispatcher_destroy d = Inr ()"
proof -
  show conns: "qp_conns d = Map.empty" using table_empty assms(1,3) by (simp add: clean_def)
  then show "qps d = Map.empty" using nothing_live assms(2,3) by (simp add: clean_def)
  show "dispatcher_destroy d = Inr ()" using conns assms(3) by (simp add: dispatcher_destroy_def clean_def)
qed

lemma polling_start_result:
  assumes "polling_start tc rc tq rqe s = Inr t"
  shows "(po_thread s \<noteq> NoThread \<and> t = s) \<or>
    (po_thread s = NoThread \<and> po_thread t = Polling \<and> po_disp t = po_disp s \<and> po_phase t = po_phase s \<and> po_made t = po_made s + 4 \<and>
     po_freed t = po_freed s \<and> all_live t)"
  using assms
  by (auto simp: polling_start_def Let_def rbind_eq_Inr all_live_def is_live_def split: if_splits prod.splits)

lemma polling_release_ok:
  assumes "all_live s" "teardown_ok v" "qps (po_disp s) = Map.empty"
  obtains t where "polling_release v s = Inr t" "po_disp t = po_disp s" "po_thread t = NoThread" "po_made t = po_made s" "po_freed t = po_freed s + 4"
    "po_tx_cc t = Freed" "po_rx_cc t = Freed" "po_tx_cq t = Freed" "po_rx_cq t = Freed"
proof -
  obtain a b c e where live: "po_tx_cc s = Live a" "po_rx_cc s = Live b" "po_tx_cq s = Live c" "po_rx_cq s = Live e"
    using assms(1) by (auto simp: all_live_def is_live_def split: member.splits)
  have "cq_destroy q 0 = Inr ()" "channel_destroy 0 ch = Inr ()" for q ch by (simp_all add: cq_destroy_def channel_destroy_def)
  then show ?thesis
    using that live assms(2,3)
    by (simp add: polling_release_def with_member_def delete_cq_def delete_cc_def Let_def is_live_def teardown_ok_def)
qed

lemma disp_step_accounted:
  assumes "disp_inv d" "accounted d" "disp_step d d'"
  shows "accounted d'"
  using assms(3)
proof cases
  case (st_connect p c q)
  then show ?thesis using accounted_register [OF assms(2) st_connect(1)] by blast
next
  case (st_destroy rm rp e qpn)
  then show ?thesis using accounted_schedule [OF assms(2,1)] by blast
next
  case (st_recall c)
  then show ?thesis using accounted_same [OF disp_recall_table assms(2)] by blast
next
  case (st_post bufs ret bad num c)
  then show ?thesis using accounted_same [OF conn_post_chunks_table assms(2)] by blast
next
  case (st_async cfg ev)
  then have "handle_async_event cfg [ev] d = Inr d'" by simp
  then show ?thesis by (rule accounted_async [OF assms(2)])
next
  case (st_wait w)
  then show ?thesis using assms(2) by (simp add: make_pending_worker_def accounted_def qp_sig_def)
next
  case st_notify
  then show ?thesis using assms(2) by (simp add: notify_pending_workers_def accounted_def qp_sig_def split: list.splits)
next
  case st_stop
  then show ?thesis using assms(2) by (simp add: polling_stop_def accounted_def qp_sig_def)
qed

lemma life_step_inv:
  assumes "teardown_ok v" "life_inv s" "life_step v s t"
  shows "life_inv t"
  using assms(3)
proof cases
  case (start tc rc tq rqe)
  then show ?thesis using assms(2) polling_start_result [OF start(2)] by (auto simp: life_inv_def)
next
  case (work d)
  have "disp_inv d" "accounted d" using assms(2) work(4) disp_step_inv disp_step_accounted by (auto simp: life_inv_def)
  then show ?thesis using assms(2) work by (auto simp: life_inv_def all_live_def split: thread_state.splits)
next
  case (turn tx rx ret b d)
  have inv: "disp_inv (po_disp s)" "accounted (po_disp s)" using assms(2) by (simp_all add: life_inv_def)
  note k = poll_turn_keeps [OF inv turn(3)]
  show ?thesis
  proof (cases b)
    case True
    then show ?thesis using assms(2) turn(1,2) k by (auto simp: life_inv_def all_live_def clean_def split: life_phase.splits)
  next
    case False
    then show ?thesis using assms(2) turn(1,2) k(1-3) by (auto simp: life_inv_def all_live_def split: life_phase.splits)
  qed
next
  case stop
  have "disp_inv (polling_stop (po_disp s))" "accounted (polling_stop (po_disp s))" "clean (polling_stop d) = clean d" for d
    using assms(2) disp_step_inv [OF st_stop] disp_step_accounted [OF _ _ st_stop]
    by (auto simp: life_inv_def polling_stop_def clean_def)
  then show ?thesis using assms(2) stop by (auto simp: life_inv_def all_live_def split: thread_state.splits)
next
  case not_joinable
  then show ?thesis using assms(2) by (simp add: life_inv_def)
next
  case (join u)
  have c: "disp_inv (po_disp s)" "accounted (po_disp s)" "clean (po_disp s)" "all_live s" using assms(2) join by (simp_all add: life_inv_def)
  obtain w where "polling_release v s = Inr w" "po_disp w = po_disp s" "po_thread w = NoThread" "po_made w = po_made s" "po_freed w = po_freed s + 4"
    using polling_release_ok [OF c(4) assms(1) clean_facts(2) [OF c(1-3)]] by blast
  then show ?thesis using assms(2) join c by (simp add: life_inv_def)
next
  case (join_fails e)
  have c: "disp_inv (po_disp s)" "accounted (po_disp s)" "clean (po_disp s)" "all_live s" using assms(2) join_fails by (simp_all add: life_inv_def)
  then show ?thesis using polling_release_ok [OF c(4) assms(1) clean_facts(2) [OF c(1-3)]] join_fails(4) by (metis sum.distinct(1))
next
  case destroy
  then show ?thesis using assms(2) by (simp add: life_inv_def)
next
  case (destroy_fails e)
  have c: "disp_inv (po_disp s)" "accounted (po_disp s)" "clean (po_disp s)" using assms(2) destroy_fails by (simp_all add: life_inv_def)
  then show ?thesis using clean_facts(3) [OF c] destroy_fails(3) by simp
qed

lemma life_reachable_inv: "life_reachable v pool ctx s \<Longrightarrow> teardown_ok v \<Longrightarrow> life_inv s"
proof (induction rule: life_reachable.induct)
  case new
  show ?case using disp_new_inv [of pool]
    by (simp add: life_inv_def dispatcher_new_def clean_def accounted_def) (simp add: disp_new_def qp_sig_def)
qed (blast intro: life_step_inv)

section \<open>The loop ends\<close>

lemma tx_loop_dom:
  "tx_loop rs cs d = Inr (cs', d') \<Longrightarrow> dom (qp_conns d') \<subseteq> dom (qp_conns d) \<and>
    (\<forall>r \<in> set rs. wc_wr_id r = unat BEACON_WRID \<longrightarrow> wc_qp_num r \<notin> dom (qp_conns d'))"
proof (induction rs cs d rule: tx_loop.induct)
  case (2 r rs cs d)
  obtain cs1 d1 where one: "tx_one r cs d = Inr (cs1, d1)" and rest: "tx_loop rs cs1 d1 = Inr (cs', d')"
    using "2.prems" by (auto simp: rbind_eq_Inr)
  have "dom (qp_conns d1) \<subseteq> dom (qp_conns d) \<and> (wc_wr_id r = unat BEACON_WRID \<longrightarrow> wc_qp_num r \<notin> dom (qp_conns d1))"
    using one by (auto simp: tx_one_def enqueue_dead_qp_def rbind_eq_Inr Let_def split: if_splits option.splits)
  then show ?case using "2.IH" [OF rest] by (simp only: list.set ball_simps) blast
qed simp

lemma poll_turn_dom:
  assumes "poll_turn tx rx ret d = Inr (b, d')"
  shows "dom (qp_conns d') \<subseteq> dom (qp_conns d) \<and>
    (\<forall>cs r. tx = Some cs \<longrightarrow> r \<in> set cs \<longrightarrow> wc_wr_id r = unat BEACON_WRID \<longrightarrow> wc_qp_num r \<notin> dom (qp_conns d'))"
proof -
  obtain d1 d2 where d1: "(case tx of Some (c # cs) \<Rightarrow> handle_tx_event (c # cs) d | _ \<Rightarrow> Inr d) = Inr d1"
    and d2: "(case rx of Some (c # cs) \<Rightarrow> handle_rx_event (c # cs) d1 | _ \<Rightarrow> Inr d1) = Inr d2"
    and rest: "d' = d2 \<or> delete_all ret (dead_queue_pairs d2) (d2\<lparr>dead_queue_pairs := []\<rparr>) = Inr d'"
    using assms unfolding poll_turn_def rbind_eq_Inr by (auto simp: rbind_eq_Inr split: if_splits)
  have post: "qp_conns (post_tx_buffer cs e) = qp_conns e" for cs e by (simp add: post_tx_buffer_def)
  have tx: "handle_tx_event cs d = Inr e \<Longrightarrow> dom (qp_conns e) \<subseteq> dom (qp_conns d) \<and>
    (\<forall>r \<in> set cs. wc_wr_id r = unat BEACON_WRID \<longrightarrow> wc_qp_num r \<notin> dom (qp_conns e))" for cs e
  proof -
    assume "handle_tx_event cs d = Inr e"
    then obtain a x where "tx_loop cs [] d = Inr (a, x)" "e = post_tx_buffer a x" by (auto simp: handle_tx_event_def rbind_eq_Inr)
    then show ?thesis using tx_loop_dom [of cs "[]" d a x] by (simp add: post)
  qed
  have "qp_conns d2 = qp_conns d1" using d2 handle_rx_event_table by (auto simp: same_table_def split: option.splits list.splits)
  moreover have "qp_conns d' = qp_conns d2" using rest delete_all_frame by fastforce
  ultimately show ?thesis using d1 tx by (auto split: option.splits list.splits)
qed

lemma polling_keeps_empty:
  assumes "polling ts d = Inr (ended, d')"
  shows "dom (qp_conns d') \<subseteq> dom (qp_conns d)"
  using assms
proof (induction ts d rule: polling.induct)
  case (2 tx rx ret ts d)
  then obtain b x where x: "poll_turn tx rx ret d = Inr (b, x)" "if b then d' = x else polling ts x = Inr (ended, d')"
    by (auto simp: rbind_eq_Inr split: if_splits)
  then have "dom (qp_conns d') \<subseteq> dom (qp_conns x)" using "2.IH" [of b x] by (cases b) simp_all
  then show ?case using poll_turn_dom [OF x(1)] by blast
qed simp

definition beacon_polled :: "u32 \<Rightarrow> wc list option \<Rightarrow> bool" where
  "beacon_polled n tx \<longleftrightarrow> (case tx of None \<Rightarrow> False | Some cs \<Rightarrow> \<exists>r \<in> set cs. wc_wr_id r = unat BEACON_WRID \<and> wc_qp_num r = n)"

lemma polling_beacons:
  assumes "polling ts d = Inr (False, d')" "t \<in> set ts" "beacon_polled n (fst t)"
  shows "n \<notin> dom (qp_conns d')"
  using assms
proof (induction ts d rule: polling.induct)
  case (2 tx rx ret ts d)
  then obtain x where x: "poll_turn tx rx ret d = Inr (False, x)" "polling ts x = Inr (False, d')"
    by (auto simp: rbind_eq_Inr split: if_splits)
  show ?case
  proof (cases "t \<in> set ts")
    case True
    then show ?thesis using "2.IH" [of False x] x "2.prems"(3) by simp
  next
    case False
    then have "n \<notin> dom (qp_conns x)" using "2.prems" poll_turn_dom [OF x(1)] by (auto simp: beacon_polled_def split: option.splits)
    then show ?thesis using polling_keeps_empty [OF x(2)] by blast
  qed
qed simp

lemma polling_inv:
  assumes "polling ts d = Inr (ended, d')" "disp_inv d" "accounted d"
  shows "disp_inv d' \<and> accounted d' \<and> done_flag d' = done_flag d"
  using assms
proof (induction ts d rule: polling.induct)
  case (2 tx rx ret ts d)
  then obtain b x where x: "poll_turn tx rx ret d = Inr (b, x)" "if b then d' = x else polling ts x = Inr (ended, d')"
    by (auto simp: rbind_eq_Inr split: if_splits)
  note k = poll_turn_keeps [OF "2.prems"(2,3) x(1)]
  show ?case using "2.IH" [of b x] k(1-3) x by (cases b) auto
qed simp

lemma polling_append:
  "polling (ts @ us) d = rbind (polling ts d) (\<lambda>(b, d'). if b then Inr (True, d') else polling us d')"
proof (induction ts d rule: polling.induct)
  case (2 tx rx ret ts d)
  then show ?case by (cases "poll_turn tx rx ret d") (auto split: prod.splits)
qed simp

lemma polling_ended:
  assumes "polling ts d = Inr (True, d')" "disp_inv d" "accounted d"
  shows "clean d'"
  using assms
proof (induction ts d rule: polling.induct)
  case (2 tx rx ret ts d)
  then obtain b x where x: "poll_turn tx rx ret d = Inr (b, x)" "if b then d' = x else polling ts x = Inr (True, d')"
    by (auto simp: rbind_eq_Inr split: if_splits)
  note k = poll_turn_keeps [OF "2.prems"(2,3) x(1)]
  show ?case using "2.IH" [of b x] k x by (cases b) (auto simp: clean_def)
qed simp

lemma idle_turn_ends:
  assumes "poll_turn (Some []) (Some []) ret d = Inr (b, d')" "num_qp_conn d = 0" "done_flag d"
  shows "b \<and> clean d'"
proof (cases "dead_queue_pairs d = []")
  case False
  then have del: "delete_all ret (dead_queue_pairs d) (d\<lparr>dead_queue_pairs := []\<rparr>) = Inr d'"
    and b: "b = (num_qp_conn d' = 0 \<and> done_flag d' \<and> dead_queue_pairs d' = [])"
    using assms(1) by (auto simp: poll_turn_def rbind_eq_Inr)
  show ?thesis using delete_all_frame [OF del] b assms(2,3) by (simp add: clean_def)
qed (use assms in \<open>auto simp: poll_turn_def clean_def\<close>)

lemma polling_single: "polling [(tx, rx, ret)] d = poll_turn tx rx ret d"
  by (cases "poll_turn tx rx ret d") auto

section \<open>Properties\<close>


text \<open>C28: The polling thread ends. Once the destructor has set the flag, the loop of \<open>polling\<close> leaves as soon as the beacon of every
  queue pair that is still registered was polled and then both queues were found empty, whatever else was polled in
  between; and it never leaves while one of the queues keeps answering with an error.\<close>

theorem polling_ends:
  assumes "disp_inv d" "accounted d" "done_flag d"
    and "polling (ts @ [(Some [], Some [], ret)]) d = Inr (ended, d')"
    and "\<forall>n \<in> dom (qp_conns d). \<exists>t \<in> set ts. beacon_polled n (fst t)"
  shows "ended \<and> qp_conns d' = Map.empty \<and> dead_queue_pairs d' = [] \<and> qps d' = Map.empty"
proof -
  obtain e d1 where d1: "polling ts d = Inr (e, d1)"
    and rest: "(if e then Inr (True, d1) else polling [(Some [], Some [], ret)] d1) = Inr (ended, d')"
    using assms(4) by (auto simp: polling_append rbind_eq_Inr)
  have inv1: "disp_inv d1" "accounted d1" "done_flag d1" using polling_inv [OF d1 assms(1,2)] assms(3) by simp_all
  have "ended \<and> clean d' \<and> disp_inv d' \<and> accounted d'"
  proof (cases e)
    case True
    then show ?thesis using rest polling_ended [of ts d d1] d1 assms(1,2) inv1 by simp
  next
    case False
    have "polling ts d = Inr (False, d1)" using d1 False by simp
    then have "n \<notin> dom (qp_conns d1)" if "n \<in> dom (qp_conns d)" for n using polling_beacons assms(5) that by blast
    then have "dom (qp_conns d1) = {}" using polling_keeps_empty [OF d1] by blast
    then have "unat (num_qp_conn d1) = 0" using inv1(1) unfolding disp_inv_def by simp
    then have zero: "num_qp_conn d1 = 0" by (simp add: unat_eq_0)
    have turn: "poll_turn (Some []) (Some []) ret d1 = Inr (ended, d')" using rest False by (simp add: polling_single del: polling.simps)
    show ?thesis using idle_turn_ends [OF turn zero inv1(3)] poll_turn_keeps(1,2) [OF inv1(1,2) turn] by simp
  qed
  then show ?thesis using clean_facts(1,2) [of d'] by (simp add: clean_def)
qed

text \<open>While one of the two queues keeps answering with an error, the polling thread does not end, and with it neither does the
  destructor: a turn whose poll failed is never an idle turn.\<close>

theorem poll_error_spins:
  assumes "\<forall>t \<in> set ts. fst t = None \<or> fst (snd t) = None" "polling ts d = Inr (ended, d')"
  shows "\<not> ended"
  using assms
proof (induction ts d rule: polling.induct)
  case (2 tx rx ret ts d)
  then obtain b x where x: "poll_turn tx rx ret d = Inr (b, x)" "if b then ended \<and> d' = x else polling ts x = Inr (ended, d')"
    by (auto simp: rbind_eq_Inr split: if_splits)
  have "\<not> b" using x(1) "2.prems"(1) by (auto simp: poll_turn_def rbind_eq_Inr split: if_splits)
  then show ?case using "2.IH" [of False x] x "2.prems"(1) by simp
qed simp

text \<open>C29: Closing a connection aborts the process. \<open>schedule_qp_destroy\<close> puts the queue pair in the error state, in which the device
  completes every posted receive with \<open>IBV_WC_WR_FLUSH_ERR\<close>; the completion of a receive buffer that the queue pair still has posted
  is recognised, its buffer goes back to the pool, and then \<open>handle_rx_event\<close> calls \<open>abort\<close>.\<close>

theorem closing_aborts:
  assumes "disp_inv d" "qp_conns d n = Some (p, c)" "qps d p = Some q" "\<not> srq q" "w \<in> set (recv_queue (rq q))" "rx_chunk_qp d w = Some p"
    and "wc_wr_id r = w" "wc_qp_num r = n" "wc_status r = IBV_WC_WR_FLUSH_ERR"
  shows "\<exists>d1. schedule_qp_destroy 0 0 e n d = Inr d1 \<and> handle_rx_event [(b, ret, r)] d1 = Inl AbortCall"
proof -
  let ?q = "snd (to_dead 0 0 e q)"
  have q: "fst (to_dead 0 0 e q) = 0" "srq ?q = srq q" "rq ?q = rq q" "dead ?q"
    by (simp_all add: to_dead_def modify_qp_to_error_def log_verb_def Let_def)
  let ?d1 = "d\<lparr>qps := (qps d)(p \<mapsto> ?q), qp_conns := (qp_conns d)(n \<mapsto> (p, nullptr))\<rparr>"
  have s: "schedule_qp_destroy 0 0 e n d = Inr ?d1"
    using assms(2,3) q(1) by (simp add: schedule_qp_destroy_def Let_def case_prod_beta)
  obtain d2 where "disp_recall w ?d1 = Inr d2"
    using assms(4-6) q by (simp add: disp_recall_def Let_def qp_srq_def recall_chunk_to_pool_def get_rq_def remove_rq_wr_def)
  then have "rx_one b ret r [] ?d1 = Inl AbortCall"
    using assms(7-9) q(4) by (simp add: rx_one_def get_conn_lockless_def get_qp_lockless_def IBV_WC_WR_FLUSH_ERR_def IBV_WC_SUCCESS_def)
  then show ?thesis using s by (simp add: handle_rx_event_def)
qed

section \<open>Witnesses\<close>

definition quiet :: teardown_env where
  "quiet = \<lparr>destroy_cq_ret = \<lambda>d. if qps d = Map.empty then 0 else 16, destroy_cc_ret = \<lambda>b. if b then 16 else 0\<rparr>"

definition the_beacon :: wc where
  "the_beacon = \<lparr>wc_wr_id = unat BEACON_WRID, wc_qp_num = 17, wc_status = 0, wc_byte_len = 0, wc_recv = False\<rparr>"

definition example_closing :: disp where
  "example_closing = polling_stop (projr (schedule_qp_destroy 0 0 0 17 example_disp))"

theorem closing_aborts_witness:
  "\<exists>d1. schedule_qp_destroy 0 0 0 17 (example_disp\<lparr>rx_chunk_qp := [100 \<mapsto> 5]\<rparr>) = Inr d1 \<and>
    handle_rx_event [(0, 0, \<lparr>wc_wr_id = 100, wc_qp_num = 17, wc_status = IBV_WC_WR_FLUSH_ERR, wc_byte_len = 0, wc_recv = True\<rparr>)] d1 = Inl AbortCall"
proof -
  have inv: "disp_inv (example_disp\<lparr>rx_chunk_qp := [100 \<mapsto> 5]\<rparr>)"
    using example_disp_inv by (simp add: disp_inv_def qp_sig_def)
  show ?thesis by (rule closing_aborts [OF inv, of 17 5 9 example_qp_init 100])
    (simp_all add: example_disp_def example_qp_facts)
qed

lemma example_closing_inv: "disp_inv example_closing" "accounted example_closing" "done_flag example_closing"
  "dom (qp_conns example_closing) = {17}"
proof -
  obtain d1 where d1: "schedule_qp_destroy 0 0 0 17 example_disp = Inr d1" "qp_conns d1 = [17 \<mapsto> (5, nullptr)]"
    by (simp add: schedule_qp_destroy_def example_disp_def to_dead_def modify_qp_to_error_def example_qp_facts Let_def)
  have e: "example_closing = polling_stop d1" using d1(1) by (simp add: example_closing_def)
  have "accounted example_disp" by (auto simp: accounted_def example_disp_def disp_new_def qp_sig_def)
  then have a: "accounted d1" "disp_inv d1" using accounted_schedule schedule_inv example_disp_inv d1(1) by blast+
  show "disp_inv example_closing" "accounted example_closing"
    unfolding e using disp_step_inv [OF st_stop a(2)] disp_step_accounted [OF a(2,1) st_stop] by simp_all
  show "done_flag example_closing" "dom (qp_conns example_closing) = {17}" using d1(2) by (simp_all add: e polling_stop_def)
qed

lemma example_polling: "\<exists>d'. polling ([(Some [the_beacon], Some [], \<lambda>_. 0)] @ [(Some [], Some [], \<lambda>_. 0)]) example_closing = Inr (True, d')"
  by (simp add: poll_turn_def handle_tx_event_def tx_one_def the_beacon_def post_tx_buffer_def enqueue_dead_qp_def example_closing_def polling_stop_def
    schedule_qp_destroy_def example_disp_def to_dead_def modify_qp_to_error_def example_qp_facts Let_def disp_new_def delete_qp_def qp_destroy_def
    put_rq_def log_verb_def)

theorem polling_ends_witness:
  "\<exists>d'. polling ([(Some [the_beacon], Some [], \<lambda>_. 0)] @ [(Some [], Some [], \<lambda>_. 0)]) example_closing = Inr (True, d') \<and> qps d' = Map.empty"
proof -
  obtain d' where d': "polling ([(Some [the_beacon], Some [], \<lambda>_. 0)] @ [(Some [], Some [], \<lambda>_. 0)]) example_closing = Inr (True, d')"
    using example_polling by blast
  have "\<forall>n \<in> dom (qp_conns example_closing). \<exists>t \<in> set [(Some [the_beacon], Some ([] :: (ptr \<times> int \<times> wc) list), \<lambda>_ :: ptr. 0 :: int)]. beacon_polled n (fst t)"
    by (simp add: example_closing_inv(4) beacon_polled_def the_beacon_def)
  from polling_ends [OF example_closing_inv(1-3) d' this] d' show ?thesis by blast
qed

theorem poll_error_spins_witness:
  "\<exists>ended d'. polling [(None, Some [], \<lambda>_. 0), (Some [], None, \<lambda>_. 0)] example_closing = Inr (ended, d') \<and> \<not> ended"
proof -
  have run: "polling [(None, Some [], \<lambda>_. 0), (Some [], None, \<lambda>_. 0)] example_closing = Inr (False, example_closing)"
    by (simp add: poll_turn_def)
  show ?thesis using poll_error_spins [OF _ run] run by auto
qed


end
