(* ===== verification/RdmaConnect.thy ===== *)
theory RdmaConnect
  imports PollingThread ConnSocket Acceptor
begin

text \<open>
  \<open>RDMAWorker::initialize\<close>, \<open>listen\<close> and \<open>connect\<close> (\<open>src/src/core/RDMAStack.cc\<close>): the calls that bring the whole RDMA side up. Each
  initialises the device on first use (theory IbDevice), starts the polling thread (PollingThread), makes a socket with a queue pair that is
  registered with the dispatcher (QueuePair, ConnSocket, Dispatcher) and connects or listens; when that fails, the socket is
  deleted again. The objects live in the heap of the dispatcher's state: the queue pair at \<open>p\<close>, the socket at \<open>c\<close>.
\<close>

section \<open>State and answers\<close>

record rdma_side =
  rs_ib :: infiniband
  rs_po :: poller

text \<open>What the verbs answer when a queue pair is made, and the event descriptor.\<close>

record qp_env =
  qe_handle :: "ptr option"
  qe_modify :: int
  qe_num :: u32
  qe_lid :: u16
  qe_gid :: "u8 list"
  qe_bufs :: "nat \<Rightarrow> ptr"
  qe_post :: int
  qe_bad :: nat
  qe_destroy :: int
  qe_eventfd :: int

text \<open>What the device answers to \<open>Infiniband::init\<close> (see IbDevice).\<close>

record init_env =
  ie_devs :: "device list result"
  ie_ports :: "u8 \<Rightarrow> port result"
  ie_pd :: "ptr option"
  ie_nonblock :: int
  ie_chunk_base :: ptr
  ie_base :: ptr
  ie_lkey :: u32
  ie_log_id :: u64
  ie_bufs :: "nat \<Rightarrow> ptr"
  ie_ret :: int
  ie_bad :: nat
  ie_pool :: rq_state

definition run_init :: "config \<Rightarrow> init_env \<Rightarrow> infiniband \<Rightarrow> infiniband result option" where
  "run_init cfg e ib = infiniband_init cfg (ie_devs e) (ie_ports e) (ie_pd e) (ie_nonblock e) (ie_chunk_base e) (ie_base e) (ie_lkey e)
     (ie_log_id e) (ie_bufs e) (ie_ret e) (ie_bad e) (ie_pool e) ib"

definition tx_of :: "infiniband \<Rightarrow> cluster" where
  "tx_of ib = (case send_buffers ib of Some cl \<Rightarrow> cl | None \<Rightarrow> cluster_new 0 0)"

section \<open>Making and deleting a socket\<close>

text \<open>The constructor of \<open>RDMAConnectedSocketImpl\<close> without the connection manager. When \<open>create_queue_pair\<close> returns null the constructor
  returns at once; the socket has no queue pair then.\<close>

definition socket_without_qp :: "cluster \<Rightarrow> (ptr \<Rightarrow> chunk) \<Rightarrow> queue_pair \<Rightarrow> csock" where
  "socket_without_qp tx heap q = (csock_new q nullptr (- 1) tx heap)\<lparr>s_local_qpn := 0\<rparr>"

definition adopt_qp :: "qp_env \<Rightarrow> (ptr \<Rightarrow> chunk) \<Rightarrow> queue_pair \<Rightarrow> ptr \<Rightarrow> ptr \<Rightarrow> queue_pair + rq_state \<Rightarrow> rdma_side \<Rightarrow> (csock \<times> rdma_side) result" where
  "adopt_qp e heap none p c r s =
     (let d = po_disp (rs_po s); tx = tx_of (rs_ib s) in
      case r of
        Inr st \<Rightarrow> Inr (socket_without_qp tx heap none, s\<lparr>rs_po := (rs_po s)\<lparr>po_disp := d\<lparr>rx_chunk_qp := chunk_qp st, rx_returned := pool_returned st\<rparr>\<rparr>\<rparr>)
      | Inl q \<Rightarrow>
          rbind (register_qp p c (d\<lparr>qps := (qps d)(p \<mapsto> q), conn_qp := (conn_qp d)(c := p), rx_chunk_qp := chunk_qp (rq q), rx_returned := pool_returned (rq q)\<rparr>))
            (\<lambda>d'. Inr (csock_new q p (qe_eventfd e) tx heap, s\<lparr>rs_po := (rs_po s)\<lparr>po_disp := d'\<rparr>\<rparr>)))"

definition make_socket :: "config \<Rightarrow> qp_env \<Rightarrow> (ptr \<Rightarrow> chunk) \<Rightarrow> queue_pair \<Rightarrow> ptr \<Rightarrow> ptr \<Rightarrow> rdma_side \<Rightarrow> (csock \<times> rdma_side) result" where
  "make_socket cfg e heap none p c s =
     (let d = po_disp (rs_po s); ib = rs_ib s in
      rbind (create_queue_pair cfg IBV_QPT_RC (uint (ib_port ib)) (support_srq ib) (tx_queue_len ib) (rx_queue_len ib) (qe_handle e) True 0
          (qe_modify e) (qe_num e) (qe_lid e) (qe_gid e) p (qe_bufs e) (qe_post e) (qe_bad e) (qe_destroy e)
          \<lparr>recv_queue = [], chunk_qp = rx_chunk_qp d, pool_returned = rx_returned d\<rparr>) (\<lambda>r. adopt_qp e heap none p c r s))"

text \<open>The destructor: \<open>in_thread\<close> is the assertion of \<open>remove_pending_conn\<close>, \<open>rm\<close>, \<open>rp\<close> and \<open>e\<close> are the answers of the verbs in \<open>to_dead\<close>.\<close>

definition delete_socket :: "bool \<Rightarrow> int \<Rightarrow> int \<Rightarrow> int \<Rightarrow> csock \<Rightarrow> rdma_side \<Rightarrow> (csock \<times> rdma_side) result" where
  "delete_socket in_thread rm rp e k s =
     kassert in_thread (rbind (schedule_qp_destroy rm rp e (s_local_qpn k) (po_disp (rs_po s))) (\<lambda>d.
       Inr (csock_destroy k, s\<lparr>rs_po := (rs_po s)\<lparr>po_disp := d\<rparr>\<rparr>)))"

section \<open>The calls of the worker\<close>

definition worker_initialize :: "ptr \<Rightarrow> unit result" where
  "worker_initialize dispatcher = kassert (dispatcher \<noteq> nullptr) (Inr ())"

text \<open>\<open>try_connect\<close> on a socket that may have no queue pair; without one, the blocking branch uses it all the same.\<close>

definition sock_try_connect :: "config \<Rightarrow> net_env \<Rightarrow> bool \<Rightarrow> int \<Rightarrow> int \<Rightarrow> int \<Rightarrow> int \<Rightarrow> csock \<Rightarrow> (int \<times> csock) result" where
  "sock_try_connect cfg ne nonblock fd e1 r2 e2 k =
     (if s_qp_ptr k = nullptr \<and> 0 \<le> fd \<and> 0 \<le> r2 \<and> \<not> nonblock then Inl NullDeref
      else rbind (try_connect cfg ne nonblock fd e1 r2 e2 k) (\<lambda>(r, _, k'). Inr (r, k')))"

text \<open>\<open>connect\<close>: \<open>tc\<close>, \<open>rc\<close>, \<open>tq\<close>, \<open>rqe\<close> are the answers to \<open>polling_start\<close>. The result is the return value, the socket the caller gets,
  if any, the descriptors closed, and the state.\<close>

definition worker_connect ::
  "config \<Rightarrow> init_env \<Rightarrow> create_env \<times> create_env \<times> create_env \<times> create_env \<Rightarrow> qp_env \<Rightarrow> (ptr \<Rightarrow> chunk) \<Rightarrow> queue_pair \<Rightarrow> ptr \<Rightarrow> ptr \<Rightarrow>
   net_env \<Rightarrow> bool \<Rightarrow> sysres \<Rightarrow> sysres \<Rightarrow> int \<times> int \<times> int \<Rightarrow> rdma_side \<Rightarrow> (int \<times> csock option \<times> int list \<times> rdma_side) result option" where
  "worker_connect cfg ie se qe heap none p c ne nonblock co op td s =
     obind (run_init cfg ie (rs_ib s)) (\<lambda>ib. Some (
     rbind (case se of (tc, rc, tq, rqe) \<Rightarrow> polling_start tc rc tq rqe (rs_po s)) (\<lambda>po.
     rbind (make_socket cfg qe heap none p c \<lparr>rs_ib = ib, rs_po = po\<rparr>) (\<lambda>(k, s1).
     rbind (sock_try_connect cfg ne nonblock (fst co) (snd co) (fst op) (snd op) k) (\<lambda>(r, k1).
       if r < 0 then rbind (delete_socket True (fst td) (fst (snd td)) (snd (snd td)) k1 s1) (\<lambda>(k2, s2). Inr (r, None, closed_fds k2, s2))
       else Inr (0, Some k1, closed_fds k1, s1))))))"

text \<open>\<open>listen\<close>: the result and the descriptor of the listening socket. The destructor of a server socket closes nothing.\<close>

definition worker_listen ::
  "config \<Rightarrow> init_env \<Rightarrow> create_env \<times> create_env \<times> create_env \<times> create_env \<Rightarrow> sysres \<Rightarrow> sysres \<Rightarrow> sysres \<Rightarrow> bool \<Rightarrow> int \<Rightarrow> sysres \<Rightarrow> sysres \<Rightarrow> sysres \<Rightarrow> sysres \<Rightarrow>
   rdma_side \<Rightarrow> (int \<times> int option \<times> int list \<times> rdma_side) result option" where
  "worker_listen cfg ie se so g st nodelay rcv nd rb bi li s =
     obind (run_init cfg ie (rs_ib s)) (\<lambda>ib. Some (
     rbind (case se of (tc, rc, tq, rqe) \<Rightarrow> polling_start tc rc tq rqe (rs_po s)) (\<lambda>po.
       let (r, fd, cl) = server_listen so g st nodelay rcv nd rb bi li in
       if r < 0 then Inr (r, None, cl, \<lparr>rs_ib = ib, rs_po = po\<rparr>) else Inr (0, Some fd, cl, \<lparr>rs_ib = ib, rs_po = po\<rparr>))))"

section \<open>What the parts do\<close>

lemma make_socket_result:
  assumes "make_socket cfg e heap none p c s = Inr (k, s1)"
  shows "closed_fds k = []" "tcp_fd k = - 1" "s_wc k = []" "s_buffers k = []" "rs_ib s1 = rs_ib s" "dead_queue_pairs (po_disp (rs_po s1)) = dead_queue_pairs (po_disp (rs_po s))"
    "(s_qp_ptr k = p \<and> notify_fd k = qe_eventfd e \<and> qp_conns (po_disp (rs_po s)) (s_local_qpn k) = None \<and>
      qp_conns (po_disp (rs_po s1)) = (qp_conns (po_disp (rs_po s)))(s_local_qpn k \<mapsto> (p, c)) \<and> qps (po_disp (rs_po s1)) p = Some (s_qp k)) \<or>
     (s_qp_ptr k = nullptr \<and> notify_fd k = - 1 \<and> s_local_qpn k = 0 \<and> qp_conns (po_disp (rs_po s1)) = qp_conns (po_disp (rs_po s)) \<and>
      qps (po_disp (rs_po s1)) = qps (po_disp (rs_po s)))"
proof -
  obtain r where r: "adopt_qp e heap none p c r s = Inr (k, s1)" using assms by (auto simp: make_socket_def Let_def rbind_eq_Inr)
  have "closed_fds k = [] \<and> tcp_fd k = - 1 \<and> s_wc k = [] \<and> s_buffers k = [] \<and> rs_ib s1 = rs_ib s \<and> dead_queue_pairs (po_disp (rs_po s1)) = dead_queue_pairs (po_disp (rs_po s)) \<and>
    ((s_qp_ptr k = p \<and> notify_fd k = qe_eventfd e \<and> qp_conns (po_disp (rs_po s)) (s_local_qpn k) = None \<and>
      qp_conns (po_disp (rs_po s1)) = (qp_conns (po_disp (rs_po s)))(s_local_qpn k \<mapsto> (p, c)) \<and> qps (po_disp (rs_po s1)) p = Some (s_qp k)) \<or>
     (s_qp_ptr k = nullptr \<and> notify_fd k = - 1 \<and> s_local_qpn k = 0 \<and> qp_conns (po_disp (rs_po s1)) = qp_conns (po_disp (rs_po s)) \<and>
      qps (po_disp (rs_po s1)) = qps (po_disp (rs_po s))))"
  proof (cases r)
    case (Inl q)
    then show ?thesis using r by (auto simp: adopt_qp_def Let_def rbind_eq_Inr register_qp_def csock_new_def)
  next
    case (Inr st)
    then show ?thesis using r by (auto simp: adopt_qp_def Let_def socket_without_qp_def csock_new_def)
  qed
  then show "closed_fds k = []" "tcp_fd k = - 1" "s_wc k = []" "s_buffers k = []" "rs_ib s1 = rs_ib s" "dead_queue_pairs (po_disp (rs_po s1)) = dead_queue_pairs (po_disp (rs_po s))"
    "(s_qp_ptr k = p \<and> notify_fd k = qe_eventfd e \<and> qp_conns (po_disp (rs_po s)) (s_local_qpn k) = None \<and>
      qp_conns (po_disp (rs_po s1)) = (qp_conns (po_disp (rs_po s)))(s_local_qpn k \<mapsto> (p, c)) \<and> qps (po_disp (rs_po s1)) p = Some (s_qp k)) \<or>
     (s_qp_ptr k = nullptr \<and> notify_fd k = - 1 \<and> s_local_qpn k = 0 \<and> qp_conns (po_disp (rs_po s1)) = qp_conns (po_disp (rs_po s)) \<and>
      qps (po_disp (rs_po s1)) = qps (po_disp (rs_po s)))"
    by simp_all
qed

lemma try_connect_result:
  assumes "sock_try_connect cfg ne nonblock fd e1 r2 e2 k = Inr (r, k1)" "closed_fds k = []" "0 < e1" "0 < e2"
  shows "notify_fd k1 = notify_fd k" "s_local_qpn k1 = s_local_qpn k" "s_qp_ptr k1 = s_qp_ptr k" "s_wc k1 = s_wc k" "s_buffers k1 = s_buffers k"
    "(if 0 \<le> fd \<and> r2 < 0 then closed_fds k1 = [fd] \<and> tcp_fd k1 = - 1 else closed_fds k1 = [] \<and> tcp_fd k1 = fd)"
    "0 \<le> r \<longrightarrow> 0 \<le> fd \<and> 0 \<le> r2" "0 \<le> r \<and> s_qp_ptr k = nullptr \<longrightarrow> nonblock"
  using assms
  by (auto simp: sock_try_connect_def try_connect_def handle_connection_established_def Let_def rbind_eq_Inr split: if_splits)

lemma csock_destroy_fds:
  assumes "s_wc k = []" "s_buffers k = []"
  shows "closed_fds (csock_destroy k) = closed_fds k @ filter (\<lambda>fd. 0 \<le> fd) [notify_fd k, tcp_fd k]"
  using assms by (simp add: csock_destroy_def cleanup_def Let_def)

text \<open>What \<open>schedule_qp_destroy\<close> leaves of a queue pair: a dead one that stays in the table without its socket until its beacon is polled, or
  one that waits for its deletion.\<close>

lemma schedule_result:
  assumes "schedule_qp_destroy rm rp e n d = Inr d'" "qp_conns d n = Some (p, c)" "qps d p = Some q" "0 < e"
  shows "qp_conns d' = (qp_conns d)(n \<mapsto> (p, nullptr)) \<and> dead_queue_pairs d' = dead_queue_pairs d \<and> (\<exists>q'. qps d' p = Some q' \<and> dead q')
    \<or> qp_conns d' = (qp_conns d)(n := None) \<and> dead_queue_pairs d' = dead_queue_pairs d @ [p]"
proof -
  obtain r q' where t: "to_dead rm rp e q = (r, q')" by fastforce
  have "dead q'" if "r = 0" using t that assms(4) by (auto simp: to_dead_def Let_def split: if_splits prod.splits)
  then show ?thesis using assms(1-3) t by (auto simp: schedule_qp_destroy_def Let_def split: if_splits)
qed

section \<open>Properties\<close>

text \<open>The socket at \<open>c\<close> is registered with the queue pair at \<open>p\<close> under a number that was free, and nothing else changed in the table.\<close>

definition entry_added :: "ptr \<Rightarrow> ptr \<Rightarrow> u32 \<Rightarrow> disp \<Rightarrow> disp \<Rightarrow> bool" where
  "entry_added p c n d d' \<longleftrightarrow> qp_conns d n = None \<and> qp_conns d' = (qp_conns d)(n \<mapsto> (p, c))"

text \<open>The queue pair at \<open>p\<close> was made and given up again: it is dead, and stays in the table without a socket until the polling thread sees its
  beacon, or it is in the list of those to delete and not in the table.\<close>

definition given_up :: "ptr \<Rightarrow> disp \<Rightarrow> disp \<Rightarrow> bool" where
  "given_up p d d' \<longleftrightarrow>
     (\<exists>n q. entry_added p nullptr n d d' \<and> dead_queue_pairs d' = dead_queue_pairs d \<and> qps d' p = Some q \<and> dead q) \<or>
     qp_conns d' = qp_conns d \<and> dead_queue_pairs d' = dead_queue_pairs d @ [p]"

text \<open>C30: \<open>RDMAWorker::connect\<close> gives a socket or nothing. When it returns a negative value the caller gets no socket, every
  descriptor that was opened for it, the TCP connection and the event descriptor, is closed exactly once, and the dispatcher knows the deleted
  socket no more: its table is as before when no queue pair could be made; otherwise the queue pair is dead and stays in the table
  without a socket until its beacon is polled, or waits in the list of queue pairs to delete. Otherwise it returns 0 and a socket
  on the open TCP connection, nothing was closed, and the table has one entry more, the socket with its queue pair; or no queue pair could be made, the table is
  as before, and the call was a non-blocking one, which does not look at the queue pair. The number 0 is not that of a queue pair, and \<open>p\<close> and \<open>c\<close> are the
  addresses of the new objects.\<close>

theorem worker_connect_all_or_nothing:
  assumes "worker_connect cfg ie se qe heap none p c ne nonblock co op td s = Some (Inr (r, out, cl, s'))"
    and "0 < snd co" "0 < snd op" "0 < snd (snd td)" "0 \<le> qe_eventfd qe" "p \<noteq> nullptr" "qp_conns (po_disp (rs_po s)) 0 = None"
  shows "if r < 0 then out = None \<and>
      (mset cl = mset (filter (\<lambda>fd. 0 \<le> fd) [qe_eventfd qe, fst co]) \<and> given_up p (po_disp (rs_po s)) (po_disp (rs_po s')) \<or>
       mset cl = mset (filter (\<lambda>fd. 0 \<le> fd) [fst co]) \<and> qp_conns (po_disp (rs_po s')) = qp_conns (po_disp (rs_po s)) \<and>
         dead_queue_pairs (po_disp (rs_po s')) = dead_queue_pairs (po_disp (rs_po s)))
    else r = 0 \<and> cl = [] \<and> (\<exists>k. out = Some k \<and> tcp_fd k = fst co \<and> 0 \<le> fst co \<and>
      (if s_qp_ptr k = nullptr then nonblock \<and> qp_conns (po_disp (rs_po s')) = qp_conns (po_disp (rs_po s))
       else s_qp_ptr k = p \<and> entry_added p c (s_local_qpn k) (po_disp (rs_po s)) (po_disp (rs_po s'))))"
proof -
  obtain ib where ib: "run_init cfg ie (rs_ib s) = Some (Inr ib)"
    using assms(1) by (auto simp: worker_connect_def obind_def split: option.splits sum.splits bind_splits)
  obtain po k s1 r1 k1 where po: "(case se of (tc, rc, tq, rqe) \<Rightarrow> polling_start tc rc tq rqe (rs_po s)) = Inr po"
    and k: "make_socket cfg qe heap none p c \<lparr>rs_ib = ib, rs_po = po\<rparr> = Inr (k, s1)"
    and t: "sock_try_connect cfg ne nonblock (fst co) (snd co) (fst op) (snd op) k = Inr (r1, k1)"
    and e: "(if r1 < 0 then rbind (delete_socket True (fst td) (fst (snd td)) (snd (snd td)) k1 s1) (\<lambda>(k2, s2). Inr (r1, None, closed_fds k2, s2))
       else Inr (0, Some k1, closed_fds k1, s1)) = Inr (r, out, cl, s')"
    using assms(1) unfolding worker_connect_def ib by (auto simp: rbind_eq_Inr)
  obtain tc rc tq rqe where se: "se = (tc, rc, tq, rqe)" by (cases se) auto
  let ?d = "po_disp (rs_po s)"
  have same: "po_disp po = ?d" using po polling_start_result [of tc rc tq rqe "rs_po s" po] by (auto simp: se)
  note m = make_socket_result [OF k, simplified, unfolded same] note f = try_connect_result [OF t m(1) assms(2,3)]
  show ?thesis
  proof (cases "r1 < 0")
    case True
    then obtain d where d: "schedule_qp_destroy (fst td) (fst (snd td)) (snd (snd td)) (s_local_qpn k) (po_disp (rs_po s1)) = Inr d"
      and res: "r = r1" "out = None" "cl = closed_fds (csock_destroy k1)" "po_disp (rs_po s') = d"
      using e f(2) by (auto simp: delete_socket_def rbind_eq_Inr)
    have "cl = closed_fds k1 @ filter (\<lambda>fd. 0 \<le> fd) [notify_fd k1, tcp_fd k1]" using csock_destroy_fds res(3) f(4,5) m(3,4) by simp
    then have fds: "mset cl = mset (filter (\<lambda>fd. 0 \<le> fd) [notify_fd k, fst co])" using f(1,6) by (auto split: if_splits)
    have "notify_fd k = qe_eventfd qe \<and> given_up p ?d d \<or> notify_fd k = - 1 \<and> qp_conns d = qp_conns ?d \<and> dead_queue_pairs d = dead_queue_pairs ?d"
      using m(7)
    proof (elim disjE)
      assume a: "s_qp_ptr k = p \<and> notify_fd k = qe_eventfd qe \<and> qp_conns ?d (s_local_qpn k) = None \<and>
        qp_conns (po_disp (rs_po s1)) = (qp_conns ?d)(s_local_qpn k \<mapsto> (p, c)) \<and> qps (po_disp (rs_po s1)) p = Some (s_qp k)"
      then have "(qp_conns ?d)(s_local_qpn k := None) = qp_conns ?d" by auto
      then show ?thesis using schedule_result [OF d _ _ assms(4)] a m(6) by (auto simp: given_up_def entry_added_def)
    next
      assume "s_qp_ptr k = nullptr \<and> notify_fd k = - 1 \<and> s_local_qpn k = 0 \<and> qp_conns (po_disp (rs_po s1)) = qp_conns ?d \<and> qps (po_disp (rs_po s1)) = qps ?d"
      then show ?thesis using d assms(7) m(6) by (auto simp: schedule_qp_destroy_def)
    qed
    then show ?thesis using fds True res by auto
  next
    case False
    then have "r = 0" "out = Some k1" "cl = closed_fds k1" "s' = s1" using e by simp_all
    then show ?thesis using f m(7) False assms(6) by (auto simp: entry_added_def split: if_splits)
  qed
qed

text \<open>A socket without a queue pair reaches the caller of a non-blocking \<open>connect\<close>, and closing it or shutting it down is a fault: \<open>fin\<close> reads the
  queue pair without a test.\<close>

lemma new_socket_error:
  assumes "make_socket cfg e heap none p c s = Inr (k, s1)"
  shows "s_error k = 0"
proof -
  obtain r where "adopt_qp e heap none p c r s = Inr (k, s1)" using assms by (auto simp: make_socket_def Let_def rbind_eq_Inr)
  then show ?thesis by (cases r) (auto simp: adopt_qp_def Let_def rbind_eq_Inr socket_without_qp_def csock_new_def)
qed

theorem socket_without_qp_faults:
  assumes "worker_connect cfg ie se qe heap none p c ne True co op td s = Some (Inr (r, Some k, cl, s'))" "s_qp_ptr k = nullptr"
  shows "r = 0 \<and> ConnSocket.close rc k = Inl NullDeref \<and> shutdown rc k = Inl NullDeref"
proof -
  obtain ib po k0 s1 r1 where m: "make_socket cfg qe heap none p c \<lparr>rs_ib = ib, rs_po = po\<rparr> = Inr (k0, s1)"
    and t: "sock_try_connect cfg ne True (fst co) (snd co) (fst op) (snd op) k0 = Inr (r1, k)" and r: "\<not> r1 < 0" "r = 0"
    using assms(1) by (auto simp: worker_connect_def obind_def rbind_eq_Inr split: option.splits sum.splits bind_splits if_splits)
  have "s_error k = s_error k0" using t by (auto simp: sock_try_connect_def try_connect_def Let_def rbind_eq_Inr split: if_splits)
  then show ?thesis using r new_socket_error [OF m] assms(2) by (simp add: ConnSocket.close_def shutdown_def fin_def)
qed

section \<open>Witness\<close>

text \<open>A worker of a running stack, and a server that refuses the connection.\<close>

definition running_side :: rdma_side where
  "running_side = \<lparr>rs_ib = infiniband_new\<lparr>initialized := True, rx_queue_len := 1, tx_queue_len := 1, send_buffers := Some (cluster_new 4096 0)\<rparr>,
     rs_po = (dispatcher_new (cluster_new 4096 0) pool_ctx_new)\<lparr>po_thread := Polling\<rparr>\<rparr>"

definition some_qp_env :: qp_env where
  "some_qp_env = \<lparr>qe_handle = Some 5, qe_modify = 0, qe_num = 17, qe_lid = 1, qe_gid = replicate 16 7, qe_bufs = \<lambda>_. 100, qe_post = 0, qe_bad = 0,
     qe_destroy = 0, qe_eventfd = 77\<rparr>"

definition some_init_env :: init_env where
  "some_init_env = \<lparr>ie_devs = Inl AbortCall, ie_ports = \<lambda>_. Inl AbortCall, ie_pd = None, ie_nonblock = 0, ie_chunk_base = 0, ie_base = 0, ie_lkey = 0,
     ie_log_id = 0, ie_bufs = \<lambda>_. 0, ie_ret = 0, ie_bad = 0, ie_pool = example_pool\<rparr>"

abbreviation no_answers :: "create_env \<times> create_env \<times> create_env \<times> create_env" where
  "no_answers \<equiv> ((None, 0, 0), (None, 0, 0), (None, 0, 0), (None, 0, 0))"

lemma refused:
  "\<exists>s'. worker_connect example_config some_init_env no_answers some_qp_env heap example_qp 6 9 example_env False
    (- 1, 111) (0, 1) (0, 0, 1) running_side = Some (Inr (- 111, None, [77], s'))"
proof -
  have init: "run_init example_config some_init_env (rs_ib running_side) = Some (Inr (rs_ib running_side))"
    by (simp add: run_init_def infiniband_init_def running_side_def)
  have start: "polling_start (None, 0, 0) (None, 0, 0) (None, 0, 0) (None, 0, 0) (rs_po running_side) = Inr (rs_po running_side)"
    by (simp add: polling_start_def running_side_def)
  obtain q where q: "create_queue_pair example_config IBV_QPT_RC 0 False 1 1 (Some 5) True 0 0 17 1 (replicate 16 7) 6 (\<lambda>_. 100) 0 0 0
      \<lparr>recv_queue = [], chunk_qp = \<lambda>_. None, pool_returned = []\<rparr> = Inr (Inl q)" "get_local_qp_number q = 17" "\<not> dead q"
    using example_no_cm
    by (simp add: create_queue_pair_def queue_pair_new_def qp_init_def modify_qp_to_init_def init_mask_def Let_def log_verb_def init_finish_def
      post_chunks_to_rq_def add_rq_wr_def chunk_set_qp_def get_local_qp_number_def)
  obtain k s1 where k: "make_socket example_config some_qp_env heap example_qp 6 9 \<lparr>rs_ib = rs_ib running_side, rs_po = rs_po running_side\<rparr> = Inr (k, s1)"
    and kf: "notify_fd k = 77" "s_qp_ptr k = 6" "s_local_qpn k = 17"
    and s1: "qp_conns (po_disp (rs_po s1)) 17 = Some (6, 9)" "qps (po_disp (rs_po s1)) 6 = Some q"
    using q by (simp add: make_socket_def adopt_qp_def Let_def running_side_def some_qp_env_def infiniband_new_def dispatcher_new_def disp_new_def register_qp_def csock_new_def)
  note m = make_socket_result [OF k]
  have t: "sock_try_connect example_config example_env False (- 1) 111 0 1 k = Inr (- 111, k\<lparr>tcp_fd := - 1\<rparr>)"
    by (simp add: sock_try_connect_def try_connect_def)
  have "fst (to_dead 0 0 1 q) = 0" by (simp add: to_dead_def modify_qp_to_error_def Let_def)
  then obtain d where d: "schedule_qp_destroy 0 0 1 17 (po_disp (rs_po s1)) = Inr d"
    using s1 by (simp add: schedule_qp_destroy_def Let_def case_prod_beta)
  have "closed_fds (csock_destroy (k\<lparr>tcp_fd := - 1\<rparr>)) = [77]" using csock_destroy_fds [of "k\<lparr>tcp_fd := - 1\<rparr>"] m(1,3,4) kf(1) by simp
  then show ?thesis using init start k t d kf(3) by (simp add: worker_connect_def delete_socket_def)
qed

text \<open>The pool has no receive buffer, so that no queue pair is made, and a non-blocking connection is opened.\<close>

theorem socket_without_qp_faults_witness:
  "\<exists>k s'. worker_connect example_config some_init_env no_answers (some_qp_env\<lparr>qe_bufs := \<lambda>_. nullptr\<rparr>) (\<lambda>_. zero_chunk) example_qp 6 9 example_env True
      (40, 111) (0, 1) (0, 0, 1) running_side = Some (Inr (0, Some k, [], s')) \<and> ConnSocket.close 0 k = Inl NullDeref"
proof -
  have init: "run_init example_config some_init_env (rs_ib running_side) = Some (Inr (rs_ib running_side))"
    by (simp add: run_init_def infiniband_init_def running_side_def)
  have start: "polling_start (None, 0, 0) (None, 0, 0) (None, 0, 0) (None, 0, 0) (rs_po running_side) = Inr (rs_po running_side)"
    by (simp add: polling_start_def running_side_def)
  obtain st where st: "create_queue_pair example_config IBV_QPT_RC 0 False 1 1 (Some 5) True 0 0 17 1 (replicate 16 7) 6 (\<lambda>_. nullptr) 0 0 0
      \<lparr>recv_queue = [], chunk_qp = \<lambda>_. None, pool_returned = []\<rparr> = Inr (Inr st)"
    using example_no_cm
    by (simp add: create_queue_pair_def queue_pair_new_def qp_init_def modify_qp_to_init_def init_mask_def Let_def log_verb_def init_finish_def
      post_chunks_to_rq_def queue_pair_delete_def qp_destroy_def)
  obtain k s1 where k: "make_socket example_config (some_qp_env\<lparr>qe_bufs := \<lambda>_. nullptr\<rparr>) (\<lambda>_. zero_chunk) example_qp 6 9 running_side = Inr (k, s1)"
    "s_qp_ptr k = nullptr" "closed_fds k = []"
    using st by (simp add: make_socket_def adopt_qp_def Let_def running_side_def some_qp_env_def infiniband_new_def dispatcher_new_def disp_new_def
      socket_without_qp_def csock_new_def)
  let ?k = "k\<lparr>tcp_fd := 40, s_events := s_events k @ [CreateEvent 40 True True]\<rparr>"
  have same: "\<lparr>rs_ib = rs_ib running_side, rs_po = rs_po running_side\<rparr> = running_side" by simp
  have w: "worker_connect example_config some_init_env no_answers (some_qp_env\<lparr>qe_bufs := \<lambda>_. nullptr\<rparr>) (\<lambda>_. zero_chunk) example_qp 6 9 example_env True
      (40, 111) (0, 1) (0, 0, 1) running_side = Some (Inr (0, Some ?k, [], s1))"
    unfolding worker_connect_def using init start k by (simp add: same sock_try_connect_def try_connect_def)
  have "s_qp_ptr ?k = nullptr" using k(2) by simp
  from socket_without_qp_faults [OF w this, of 0] w show ?thesis by blast
qed

theorem worker_connect_all_or_nothing_witness:
  "\<exists>s'. worker_connect example_config some_init_env no_answers some_qp_env (\<lambda>_. zero_chunk) example_qp 6 9 example_env False
      (- 1, 111) (0, 1) (0, 0, 1) running_side = Some (Inr (- 111, None, [77], s')) \<and> given_up 6 (po_disp (rs_po running_side)) (po_disp (rs_po s'))"
proof -
  obtain s' where r: "worker_connect example_config some_init_env no_answers some_qp_env (\<lambda>_. zero_chunk) example_qp 6 9 example_env False
      (- 1, 111) (0, 1) (0, 0, 1) running_side = Some (Inr (- 111, None, [77], s'))" using refused by blast
  have "qp_conns (po_disp (rs_po running_side)) 0 = None" by (simp add: running_side_def dispatcher_new_def disp_new_def)
  then show ?thesis using worker_connect_all_or_nothing [OF r] r by (simp add: some_qp_env_def)
qed

end
