(* ===== verification/MemoryManager.thy ===== *)
theory MemoryManager
  imports IbDevice RxPool
begin

text \<open>
  What \<open>Infiniband\<close> holds and how it is released (\<open>src/src/core/Infiniband.cc\<close> and \<open>Infiniband.h\<close>): \<open>MemoryManager::malloc\<close> and \<open>free\<close>, the memory
  behind \<open>Cluster::fill\<close> and behind the blocks of the receive pool, and the destructors \<open>~Cluster\<close>, \<open>~MemoryManager\<close>, \<open>~ProtectionDomain\<close>,
  \<open>~Device\<close>, \<open>~DeviceList\<close> and \<open>~Infiniband\<close>. The state is what the process has obtained from the C library, the kernel and the
  device and not returned yet; returning something that is not held is a fault. The send pool is filled by \<open>fill\<close> of the theory of
  the cluster, so that the size of its memory is the 32-bit product of the code and the region is where the code puts it, in the
  chunks.
\<close>

section \<open>Resources of the process\<close>

text \<open>Blocks of \<open>std::malloc\<close>, mappings with their length, the size kept in the first page of a huge-page block, memory regions with
  the block they cover, protection domains, shared receive queues, queue pairs and device contexts.\<close>

record resources =
  heap_blocks :: "ptr set"
  maps :: "ptr \<rightharpoonup> u64"
  hdrs :: "ptr \<rightharpoonup> u64"
  mrs :: "ptr \<rightharpoonup> ptr"
  pds :: "ptr set"
  srqs :: "ptr set"
  qps :: "ptr set"
  devs :: "ptr set"

definition no_resources :: resources where
  "no_resources = \<lparr>heap_blocks = {}, maps = Map.empty, hdrs = Map.empty, mrs = Map.empty, pds = {}, srqs = {}, qps = {}, devs = {}\<rparr>"

definition std_free :: "ptr \<Rightarrow> resources \<Rightarrow> resources result" where
  "std_free p s =
     (if p = nullptr then Inr s
      else if p \<in> heap_blocks s then Inr (s\<lparr>heap_blocks := heap_blocks s - {p}\<rparr>) else Inl UseAfterFree)"

definition sys_munmap :: "ptr \<Rightarrow> u64 \<Rightarrow> resources \<Rightarrow> resources result" where
  "sys_munmap p n s = (if maps s p = Some n then Inr (s\<lparr>maps := (maps s)(p := None)\<rparr>) else Inl UseAfterFree)"

text \<open>\<open>ibv_dereg_mr\<close> reads through its argument; the destructor of the cluster asserts its result, \<open>PoolAllocator::free\<close> ignores
  it. \<open>ibv_destroy_srq\<close> fails while queue pairs are attached, and \<open>ibv_dealloc_pd\<close> while anything is associated with the domain;
  both results are ignored. All queue pairs are in the one domain, and attached to the shared receive queue when there is one.\<close>

definition dereg_mr :: "ptr \<Rightarrow> resources \<Rightarrow> resources result" where
  "dereg_mr m s =
     (if m = nullptr then Inl NullDeref
      else if mrs s m = None then Inl UseAfterFree else Inr (s\<lparr>mrs := (mrs s)(m := None)\<rparr>))"

definition destroy_srq :: "ptr \<Rightarrow> resources \<Rightarrow> resources result" where
  "destroy_srq q s =
     (if q = nullptr then Inl NullDeref
      else if q \<notin> srqs s then Inl UseAfterFree
      else Inr (if qps s = {} then s\<lparr>srqs := srqs s - {q}\<rparr> else s))"

definition dealloc_pd :: "ptr \<Rightarrow> resources \<Rightarrow> resources" where
  "dealloc_pd p s = (if mrs s = Map.empty \<and> srqs s = {} \<and> qps s = {} then s\<lparr>pds := pds s - {p}\<rparr> else s)"

section \<open>Allocation\<close>

text \<open>\<open>MemoryManager::malloc\<close> and \<open>free\<close>; \<open>mm\<close> and \<open>sm\<close> are the results of \<open>mmap\<close> and \<open>std::malloc\<close>.\<close>

definition mm_malloc :: "bool \<Rightarrow> u64 \<Rightarrow> ptr option \<Rightarrow> ptr \<Rightarrow> resources \<Rightarrow> ptr \<times> resources" where
  "mm_malloc hugepage sz mm sm s =
     (let s' = (case if hugepage then mm else None of
                  Some q \<Rightarrow> s\<lparr>maps := (maps s)(q \<mapsto> ALIGN_TO_PAGE_2MB sz + HUGE_PAGE_SIZE_2MB)\<rparr>
                | None \<Rightarrow> if sm = nullptr then s else s\<lparr>heap_blocks := insert sm (heap_blocks s)\<rparr>)
      in if hugepage then (case huge_pages_malloc sz mm sm (hdrs s') of (p, h) \<Rightarrow> (p, s'\<lparr>hdrs := h\<rparr>)) else (sm, s'))"

definition mm_free :: "bool \<Rightarrow> ptr \<Rightarrow> resources \<Rightarrow> resources result" where
  "mm_free hugepage p s =
     (if hugepage then rbind (huge_pages_free p (hdrs s)) (\<lambda>c. case c of NoRelease \<Rightarrow> Inr s | Munmap q n \<Rightarrow> sys_munmap q n s | StdFree q \<Rightarrow> std_free q s)
      else std_free p s)"

text \<open>What \<open>Infiniband\<close> owns: the send pool with the array of its chunks, the blocks of the receive pool with their regions and
  numbers of buffers, the statistics of that pool, the protection domain, the shared receive queue where it is supported, and the devices
  with the flag that a port was bound.\<close>

record ib_objects =
  io_hugepage :: bool
  io_tx :: "(ptr \<times> cluster) option"
  io_rx :: "(ptr \<times> ptr \<times> u32) list"
  io_ctx :: pool_ctx
  io_pd :: ptr
  io_srq :: "ptr option"
  io_devices :: "(ptr \<times> bool) list"

text \<open>\<open>create_tx_pool\<close> with \<open>Cluster::fill\<close>: the memory has the 32-bit product of the buffer size and the number of buffers as its
  size; \<open>cb\<close> is the result of the \<open>malloc\<close> of the chunk array, which is cleared without a check, \<open>m\<close> that of \<open>ibv_reg_mr\<close>.\<close>

definition tx_create :: "u32 \<Rightarrow> u32 \<Rightarrow> ptr option \<Rightarrow> ptr \<Rightarrow> ptr \<Rightarrow> ptr \<Rightarrow> u32 \<Rightarrow> u64 \<Rightarrow> ib_objects \<Rightarrow> resources \<Rightarrow> (ib_objects \<times> resources) result option" where
  "tx_create sz num mm sm cb m lk lid0 ob s =
     (let (b, s1) = mm_malloc (io_hugepage ob) (ucast (sz * num)) mm sm s in
      if b \<noteq> nullptr \<and> cb = nullptr then Some (Inl NullDeref)
      else map_option (\<lambda>r. rbind r (\<lambda>cl. Inr (ob\<lparr>io_tx := Some (cb, cl)\<rparr>, s1\<lparr>heap_blocks := insert cb (heap_blocks s1), mrs := (mrs s1)(m \<mapsto> b)\<rparr>)))
             (create_tx_pool True True sz num b m lk lid0))"

text \<open>\<open>PoolAllocator::malloc\<close> for a block of \<open>n\<close> bytes, and \<open>PoolAllocator::free\<close>; the chunks in the block are in the theory of the
  receive pool.\<close>

definition rx_expand :: "u32 \<Rightarrow> u32 \<Rightarrow> u64 \<Rightarrow> ptr option \<Rightarrow> ptr \<Rightarrow> ptr \<Rightarrow> ib_objects \<Rightarrow> resources \<Rightarrow> (ib_objects \<times> resources) result" where
  "rx_expand limit bsize n mm sm m ob s =
     (let nbufs = ucast (n div of_nat (sizeof_Chunk + unat bsize)) :: u32 in
      if \<not> can_alloc limit nbufs (io_ctx ob) then Inr (ob, s)
      else let (b, s1) = mm_malloc (io_hugepage ob) (n + of_nat sizeof_mem_info) mm sm s in
        if b = nullptr then Inr (ob, s1)
        else if m = nullptr then rbind (mm_free (io_hugepage ob) b s1) (\<lambda>s2. Inr (ob, s2))
        else Inr (ob\<lparr>io_rx := io_rx ob @ [(b, m, nbufs)], io_ctx := update_stats (sint nbufs) (io_ctx ob)\<rparr>, s1\<lparr>mrs := (mrs s1)(m \<mapsto> b)\<rparr>))"

definition rx_block_free :: "bool \<Rightarrow> ptr \<times> ptr \<times> u32 \<Rightarrow> resources \<Rightarrow> resources result" where
  "rx_block_free hugepage bm s = rbind (dereg_mr (fst (snd bm)) s) (mm_free hugepage (fst bm))"

definition rx_release :: "bool \<Rightarrow> ptr \<times> ptr \<times> u32 \<Rightarrow> pool_ctx \<times> resources \<Rightarrow> (pool_ctx \<times> resources) result" where
  "rx_release hugepage bm cs =
     (let ctx = update_stats (sint (- snd (snd bm))) (fst cs)
      in rbind (rx_block_free hugepage bm (snd cs)) (\<lambda>s. Inr (ctx, s)))"

section \<open>Destruction\<close>

text \<open>The pool of receive buffers is a member of the memory manager: it is purged after the body of \<open>~MemoryManager\<close>.\<close>

fun rx_purge :: "bool \<Rightarrow> (ptr \<times> ptr \<times> u32) list \<Rightarrow> pool_ctx \<times> resources \<Rightarrow> (pool_ctx \<times> resources) result" where
  "rx_purge hugepage [] cs = Inr cs"
| "rx_purge hugepage (bm # bms) cs = rbind (rx_release hugepage bm cs) (rx_purge hugepage bms)"

text \<open>The region is read from the first chunk: without chunks that is behind the array, and a chunk that \<open>fill\<close> did not build has a
  null pointer there.\<close>

definition cluster_delete :: "bool \<Rightarrow> ptr \<times> cluster \<Rightarrow> resources \<Rightarrow> resources result" where
  "cluster_delete hugepage t s =
     (case chunk_arr (snd t) of
        [] \<Rightarrow> Inl OutOfBounds
      | ck # _ \<Rightarrow> rbind (dereg_mr (mr ck) s) (\<lambda>s1. rbind (std_free (fst t) s1) (mm_free hugepage (base (snd t)))))"

definition manager_delete :: "ib_objects \<Rightarrow> resources \<Rightarrow> (pool_ctx \<times> resources) result" where
  "manager_delete ob s =
     rbind (case io_tx ob of Some t \<Rightarrow> cluster_delete (io_hugepage ob) t s | None \<Rightarrow> Inr s) (\<lambda>s1. rx_purge (io_hugepage ob) (io_rx ob) (io_ctx ob, s1))"

text \<open>\<open>~Device\<close>; \<open>close_ok d\<close> is that \<open>ibv_close_device\<close> answers 0, which is asserted.\<close>

definition device_delete :: "(ptr \<Rightarrow> bool) \<Rightarrow> ptr \<times> bool \<Rightarrow> resources \<Rightarrow> resources result" where
  "device_delete close_ok dv s =
     (if snd dv then
        if fst dv \<in> devs s then kassert (close_ok (fst dv)) (Inr (s\<lparr>devs := devs s - {fst dv}\<rparr>)) else Inl UseAfterFree
      else Inr s)"

fun devices_delete :: "(ptr \<Rightarrow> bool) \<Rightarrow> (ptr \<times> bool) list \<Rightarrow> resources \<Rightarrow> resources result" where
  "devices_delete close_ok [] s = Inr s"
| "devices_delete close_ok (dv # dvs) s = rbind (device_delete close_ok dv s) (devices_delete close_ok dvs)"

definition infiniband_delete :: "(ptr \<Rightarrow> bool) \<Rightarrow> bool \<Rightarrow> ib_objects \<Rightarrow> resources \<Rightarrow> (pool_ctx \<times> resources) result" where
  "infiniband_delete close_ok inited ob s =
     (if \<not> inited then Inr (io_ctx ob, s)
      else rbind (case io_srq ob of Some q \<Rightarrow> destroy_srq q s | None \<Rightarrow> Inr s) (\<lambda>s1.
        rbind (manager_delete ob s1) (\<lambda>(ctx, s2).
          rbind (devices_delete close_ok (io_devices ob) (dealloc_pd (io_pd ob) s2)) (\<lambda>s3. Inr (ctx, s3)))))"

section \<open>Runs\<close>

text \<open>The C library, the kernel and the device return addresses of their own, different from those in use.\<close>

definition fresh :: "ptr \<Rightarrow> resources \<Rightarrow> bool" where
  "fresh p s \<longleftrightarrow> p \<notin> heap_blocks s \<and> maps s p = None"

definition answers_fresh :: "bool \<Rightarrow> ptr option \<Rightarrow> ptr \<Rightarrow> resources \<Rightarrow> bool" where
  "answers_fresh hugepage mm sm s \<longleftrightarrow> (case if hugepage then mm else None of Some q \<Rightarrow> q \<noteq> nullptr \<and> fresh q s | None \<Rightarrow> sm = nullptr \<or> fresh sm s)"

text \<open>Taking and returning chunks leaves the memory of the send pool and the regions of its chunks as they are.\<close>

definition same_pool :: "cluster \<Rightarrow> cluster \<Rightarrow> bool" where
  "same_pool cl cl' \<longleftrightarrow> base cl' = base cl \<and> buffer_size cl' = buffer_size cl \<and> num_chunk cl' = num_chunk cl \<and> map mr (chunk_arr cl') = map mr (chunk_arr cl)"

text \<open>The send pool and the shared receive queue are created once; the receive pool grows and shrinks, and queue pairs come and go.\<close>

inductive ib_run :: "ib_objects \<Rightarrow> resources \<Rightarrow> bool" where
  init: "distinct (map fst dvs) \<Longrightarrow>
    ib_run \<lparr>io_hugepage = h, io_tx = None, io_rx = [], io_ctx = pool_ctx_new, io_pd = p, io_srq = None, io_devices = dvs\<rparr>
      (no_resources\<lparr>pds := {p}, devs := fst ` set dvs\<rparr>)"
| tx: "ib_run ob s \<Longrightarrow> io_tx ob = None \<Longrightarrow> answers_fresh (io_hugepage ob) mm sm s \<Longrightarrow>
    fresh cb (snd (mm_malloc (io_hugepage ob) (ucast (sz * num)) mm sm s)) \<Longrightarrow> mrs s m = None \<Longrightarrow>
    tx_create sz num mm sm cb m lk lid0 ob s = Some (Inr (ob', s')) \<Longrightarrow> ib_run ob' s'"
| tx_use: "ib_run ob s \<Longrightarrow> io_tx ob = Some (cb, cl) \<Longrightarrow> same_pool cl cl' \<Longrightarrow> ib_run (ob\<lparr>io_tx := Some (cb, cl')\<rparr>) s"
| rx: "ib_run ob s \<Longrightarrow> answers_fresh (io_hugepage ob) mm sm s \<Longrightarrow> unat n + sizeof_mem_info + 2 * unat HUGE_PAGE_SIZE_2MB < 2 ^ 64 \<Longrightarrow> mrs s m = None \<Longrightarrow>
    rx_expand limit bsize n mm sm m ob s = Inr (ob', s') \<Longrightarrow> ib_run ob' s'"
| rx_free: "ib_run ob s \<Longrightarrow> io_rx ob = bms @ bm # bms' \<Longrightarrow> rx_release (io_hugepage ob) bm (io_ctx ob, s) = Inr (ctx, s') \<Longrightarrow>
    ib_run (ob\<lparr>io_rx := bms @ bms', io_ctx := ctx\<rparr>) s'"
| stat: "ib_run ob s \<Longrightarrow> ib_run (ob\<lparr>io_ctx := set_stat_logger l (io_ctx ob)\<rparr>) s"
| srq: "ib_run ob s \<Longrightarrow> io_srq ob = None \<Longrightarrow> q \<noteq> nullptr \<Longrightarrow> ib_run (ob\<lparr>io_srq := Some q\<rparr>) (s\<lparr>srqs := insert q (srqs s)\<rparr>)"
| qp_new: "ib_run ob s \<Longrightarrow> ib_run ob (s\<lparr>qps := insert q (qps s)\<rparr>)"
| qp_del: "ib_run ob s \<Longrightarrow> ib_run ob (s\<lparr>qps := qps s - {q}\<rparr>)"

section \<open>Blocks that are held\<close>

text \<open>A block of the manager or, with \<open>False\<close>, one of \<open>malloc\<close>: where it begins, and that it can be given back.\<close>

definition real :: "bool \<times> ptr \<Rightarrow> ptr" where
  "real x = (if fst x then snd x - unat HUGE_PAGE_SIZE_2MB else snd x)"

definition whole_pages :: "u64 \<Rightarrow> bool" where
  "whole_pages n \<longleftrightarrow> n mod HUGE_PAGE_SIZE_2MB = 0"

definition holds :: "bool \<times> ptr \<Rightarrow> resources \<Rightarrow> bool" where
  "holds x s \<longleftrightarrow> snd x \<noteq> nullptr \<and> real x \<noteq> nullptr \<and>
     (if fst x then (\<exists>n. hdrs s (real x) = Some n \<and> whole_pages n \<and> (if n \<noteq> 0 then maps s (real x) = Some n else real x \<in> heap_blocks s))
      else real x \<in> heap_blocks s)"

definition used :: "resources \<Rightarrow> ptr set" where
  "used s = heap_blocks s \<union> dom (maps s)"

definition apart :: "resources \<Rightarrow> bool" where
  "apart s \<longleftrightarrow> heap_blocks s \<inter> dom (maps s) = {}"

definition same_handles :: "resources \<Rightarrow> resources \<Rightarrow> bool" where
  "same_handles s t \<longleftrightarrow> pds t = pds s \<and> devs t = devs s \<and> srqs t = srqs s \<and> qps t = qps s"

definition same_device :: "resources \<Rightarrow> resources \<Rightarrow> bool" where
  "same_device s t \<longleftrightarrow> mrs t = mrs s \<and> same_handles s t"

lemma holds_used: "holds x s \<Longrightarrow> real x \<in> used s"
  by (auto simp: holds_def used_def split: if_splits option.splits)

lemma holds_mono:
  assumes "holds x s" "hdrs t (real x) = hdrs s (real x)" "maps t (real x) = maps s (real x)" "real x \<in> heap_blocks s \<Longrightarrow> real x \<in> heap_blocks t"
  shows "holds x t"
  using assms unfolding holds_def by (cases "fst x") (auto split: if_splits)

lemma std_free_holds:
  assumes "p \<noteq> nullptr" "p \<in> heap_blocks s" "apart s"
  shows "\<exists>t. std_free p s = Inr t \<and> used t = used s - {p} \<and> apart t \<and> same_device s t \<and> (\<forall>x. holds x s \<and> real x \<noteq> p \<longrightarrow> holds x t)"
  using assms by (auto simp: std_free_def used_def apart_def same_device_def same_handles_def holds_def split: option.splits)

lemma munmap_holds:
  assumes "maps s p = Some n" "apart s"
  shows "\<exists>t. sys_munmap p n s = Inr t \<and> used t = used s - {p} \<and> apart t \<and> same_device s t \<and> (\<forall>x. holds x s \<and> real x \<noteq> p \<longrightarrow> holds x t)"
proof -
  have "p \<notin> heap_blocks s" using assms by (auto simp: apart_def)
  then show ?thesis using assms by (auto simp: sys_munmap_def used_def apart_def same_device_def same_handles_def holds_def split: option.splits)
qed

lemma mm_free_holds:
  assumes "holds (h, p) s" "apart s"
  shows "\<exists>t. mm_free h p s = Inr t \<and> used t = used s - {real (h, p)} \<and> apart t \<and> same_device s t \<and>
    (\<forall>x. holds x s \<and> real x \<noteq> real (h, p) \<longrightarrow> holds x t)"
proof (cases h)
  case True
  let ?q = "p - unat HUGE_PAGE_SIZE_2MB"
  obtain n where n: "hdrs s ?q = Some n" "whole_pages n" "if n \<noteq> 0 then maps s ?q = Some n else ?q \<in> heap_blocks s" "p \<noteq> nullptr" "?q \<noteq> nullptr"
    using assms(1) True by (auto simp: holds_def real_def [of "(True, p)"] split: option.splits if_splits)
  have "mm_free h p s = (if n \<noteq> 0 then sys_munmap ?q n s else std_free ?q s)"
    using True n unfolding whole_pages_def by (simp add: mm_free_def huge_pages_free_def Let_def)
  then show ?thesis using True n munmap_holds [of s ?q n] std_free_holds [of ?q s] assms(2) by (auto simp: real_def)
next
  case False
  then show ?thesis using assms std_free_holds [of p s] by (simp add: mm_free_def holds_def real_def)
qed

lemma mm_malloc_holds:
  assumes "mm_malloc h sz mm sm s = (p, t)" "p \<noteq> nullptr" "answers_fresh h mm sm s" "unat sz + 2 * unat HUGE_PAGE_SIZE_2MB < 2 ^ 64" "apart s"
  shows "holds (h, p) t \<and> real (h, p) \<notin> used s \<and> used t = insert (real (h, p)) (used s) \<and> apart t \<and> same_device s t \<and> (\<forall>x. holds x s \<longrightarrow> holds x t)"
proof (cases "h \<and> mm \<noteq> None")
  case True
  then obtain q where h: "h" and mm: "mm = Some q" by auto
  let ?n = "ALIGN_TO_PAGE_2MB sz + HUGE_PAGE_SIZE_2MB"
  have p: "p = q + unat HUGE_PAGE_SIZE_2MB" and t: "t = s\<lparr>maps := (maps s)(q \<mapsto> ?n), hdrs := (hdrs s)(q \<mapsto> ?n)\<rparr>"
    using assms(1) h mm by (auto simp: mm_malloc_def huge_pages_malloc_def Let_def)
  have "huge_pages_free p ((hdrs s)(q \<mapsto> ?n)) = Inr (Munmap q ?n)"
    using huge_pages_roundtrip [OF assms(4) _ assms(2), of mm sm "hdrs s"] mm p by (simp add: huge_pages_malloc_def Let_def)
  then have n: "whole_pages ?n" "?n \<noteq> 0" using p assms(2) by (auto simp: whole_pages_def huge_pages_free_def kassert_def Let_def split: if_splits)
  have q: "q \<noteq> nullptr" "fresh q s" "real (h, p) = q" using assms(3) h mm p by (simp_all add: answers_fresh_def real_def)
  have "holds x t" if "holds x s" for x
  proof -
    have "real x \<noteq> q" using holds_used [OF that] q(2) by (auto simp: used_def fresh_def)
    then show ?thesis by (intro holds_mono [OF that]) (simp_all add: t)
  qed
  moreover have "holds (h, p) t" using q(1,3) n h assms(2) unfolding holds_def q(3) by (simp add: t)
  ultimately show ?thesis using q assms(5) by (auto simp: used_def apart_def same_device_def same_handles_def fresh_def t)
next
  case False
  have sm: "sm \<noteq> nullptr" "real (h, p) = sm" and t: "t = s\<lparr>heap_blocks := insert sm (heap_blocks s), hdrs := (if h then (hdrs s)(sm \<mapsto> 0) else hdrs s)\<rparr>"
    using assms(1,2) False by (auto simp: mm_malloc_def huge_pages_malloc_def Let_def real_def split: if_splits)
  have fr: "fresh sm s" using assms(3) False sm(1) by (auto simp: answers_fresh_def split: if_splits)
  have "holds x t" if "holds x s" for x
  proof -
    have "real x \<noteq> sm" using holds_used [OF that] fr by (auto simp: used_def fresh_def)
    then show ?thesis by (intro holds_mono [OF that]) (simp_all add: t)
  qed
  moreover have "holds (h, p) t" using sm assms(2) unfolding holds_def sm(2) by (simp add: t whole_pages_def)
  ultimately show ?thesis using sm fr assms(5) by (auto simp: used_def apart_def same_device_def same_handles_def fresh_def t)
qed

lemma mm_malloc_null: "mm_malloc h sz mm sm s = (nullptr, t) \<Longrightarrow> answers_fresh h mm sm s \<Longrightarrow> t = s"
  by (auto simp: mm_malloc_def huge_pages_malloc_def answers_fresh_def HUGE_PAGE_SIZE_2MB_def Let_def split: if_splits option.splits)

section \<open>Invariant\<close>

text \<open>The region that the destructor of the cluster reads.\<close>

definition first_mr :: "cluster \<Rightarrow> ptr" where
  "first_mr cl = (case chunk_arr cl of [] \<Rightarrow> nullptr | ck # _ \<Rightarrow> mr ck)"

text \<open>The size of the send pool does not wrap around to 0, so that \<open>fill\<close> builds at least one chunk.\<close>

definition pool_built :: "ib_objects \<Rightarrow> bool" where
  "pool_built ob = (case io_tx ob of Some t \<Rightarrow> buffer_size (snd t) * num_chunk (snd t) \<noteq> 0 | None \<Rightarrow> True)"

definition owned :: "ib_objects \<Rightarrow> (bool \<times> ptr) list" where
  "owned ob = (case io_tx ob of Some t \<Rightarrow> [(io_hugepage ob, base (snd t)), (False, fst t)] | None \<Rightarrow> []) @ map (\<lambda>bm. (io_hugepage ob, fst bm)) (io_rx ob)"

definition regions :: "ib_objects \<Rightarrow> ptr list" where
  "regions ob = (case io_tx ob of Some t \<Rightarrow> [first_mr (snd t)] | None \<Rightarrow> []) @ map (\<lambda>bm. fst (snd bm)) (io_rx ob)"

definition ib_ok :: "ib_objects \<Rightarrow> resources \<Rightarrow> bool" where
  "ib_ok ob s \<longleftrightarrow> distinct (map real (owned ob)) \<and> (\<forall>x \<in> set (owned ob). holds x s) \<and> used s = real ` set (owned ob) \<and> apart s \<and>
     distinct (regions ob) \<and> dom (mrs s) = set (regions ob) \<and> nullptr \<notin> set (regions ob) \<and> pds s = {io_pd ob} \<and> devs s = fst ` set (io_devices ob) \<and>
     distinct (map fst (io_devices ob))"

text \<open>The number of buffers of the receive pool.\<close>

definition rx_bufs :: "(ptr \<times> ptr \<times> u32) list \<Rightarrow> u32" where
  "rx_bufs bms = sum_list (map (\<lambda>bm. snd (snd bm)) bms)"

lemma dereg_holds:
  assumes "mrs s m \<noteq> None" "m \<noteq> nullptr"
  shows "\<exists>t. dereg_mr m s = Inr t \<and> mrs t = (mrs s)(m := None) \<and> used t = used s \<and> apart t = apart s \<and> same_handles s t \<and>
    (\<forall>x. holds x s = holds x t)"
  using assms by (simp add: dereg_mr_def used_def apart_def holds_def same_handles_def)

lemma rx_block_free_holds:
  assumes "holds (h, fst bm) s" "apart s" "mrs s (fst (snd bm)) \<noteq> None" "fst (snd bm) \<noteq> nullptr"
  shows "\<exists>t. rx_block_free h bm s = Inr t \<and> mrs t = (mrs s)(fst (snd bm) := None) \<and> used t = used s - {real (h, fst bm)} \<and> apart t \<and>
    same_handles s t \<and> (\<forall>x. holds x s \<and> real x \<noteq> real (h, fst bm) \<longrightarrow> holds x t)"
proof -
  obtain u where u: "dereg_mr (fst (snd bm)) s = Inr u" "mrs u = (mrs s)(fst (snd bm) := None)" "used u = used s" "apart u" "same_handles s u"
    "\<forall>x. holds x s = holds x u" using dereg_holds [OF assms(3,4)] assms(2) by auto
  obtain t where "mm_free h (fst bm) u = Inr t" "used t = used u - {real (h, fst bm)}" "apart t" "same_device u t"
    "\<forall>x. holds x u \<and> real x \<noteq> real (h, fst bm) \<longrightarrow> holds x t" using mm_free_holds [of h "fst bm" u] assms(1) u(4,6) by blast
  then show ?thesis using u by (auto simp: rx_block_free_def same_device_def same_handles_def)
qed

lemma rx_release_parts:
  "rx_release h bm (ctx, s) = Inr (ctx', t) \<longleftrightarrow> ctx' = update_stats (sint (- snd (snd bm))) ctx \<and> rx_block_free h bm s = Inr t"
  by (auto simp: rx_release_def rbind_eq_Inr)

lemma ib_ok_rx_free:
  assumes "ib_ok ob s" "io_rx ob = bms @ bm # bms'" "rx_block_free (io_hugepage ob) bm s = Inr t"
  shows "ib_ok (ob\<lparr>io_rx := bms @ bms', io_ctx := ctx\<rparr>) t"
proof -
  let ?x = "(io_hugepage ob, fst bm)" and ?ob = "ob\<lparr>io_rx := bms @ bms', io_ctx := ctx\<rparr>"
  let ?T = "case io_tx ob of Some t \<Rightarrow> [(io_hugepage ob, base (snd t)), (False, fst t)] | None \<Rightarrow> []" and ?f = "\<lambda>bm. (io_hugepage ob, fst bm)" and ?g = "\<lambda>bm. fst (snd bm)"
  let ?M = "case io_tx ob of Some t \<Rightarrow> [first_mr (snd t)] | None \<Rightarrow> []"
  obtain A B where A: "owned ob = A @ ?x # B" "owned ?ob = A @ B" using that [of "?T @ map ?f bms" "map ?f bms'"] assms(2)
    by (cases "io_tx ob") (simp_all add: owned_def)
  obtain C D where C: "regions ob = C @ fst (snd bm) # D" "regions ?ob = C @ D" using that [of "?M @ map ?g bms" "map ?g bms'"] assms(2)
    by (cases "io_tx ob") (simp_all add: regions_def)
  have x: "?x \<in> set (owned ob)" "fst (snd bm) \<in> set (regions ob)" using A C by simp_all
  have parts: "set (map real (owned ob)) = insert (real ?x) (set (map real (owned ?ob)))" "set (regions ob) = insert (fst (snd bm)) (set (regions ?ob))"
    "set (owned ?ob) \<subseteq> set (owned ob)" unfolding A C by auto
  have "distinct (map real (owned ob))" "distinct (regions ob)" using assms(1) by (simp_all add: ib_ok_def)
  then have new: "real ?x \<notin> set (map real (owned ?ob))" "distinct (map real (owned ?ob))" "fst (snd bm) \<notin> set (regions ?ob)" "distinct (regions ?ob)"
    unfolding A C by auto
  have "mrs s (fst (snd bm)) \<noteq> None" "fst (snd bm) \<noteq> nullptr" using x(2) assms(1) by (auto simp: ib_ok_def)
  then obtain u where u: "rx_block_free (io_hugepage ob) bm s = Inr u" "mrs u = (mrs s)(fst (snd bm) := None)" "used u = used s - {real ?x}" "apart u" "same_handles s u"
    "\<forall>y. holds y s \<and> real y \<noteq> real ?x \<longrightarrow> holds y u"
    using rx_block_free_holds [of "io_hugepage ob" bm s] assms(1) x(1) by (auto simp: ib_ok_def)
  have tu [simp]: "t = u" using u(1) assms(3) by simp
  have "used t = real ` set (owned ?ob)" using u(3) assms(1) parts(1) new(1) by (auto simp: ib_ok_def)
  moreover have "holds y t" if y: "y \<in> set (owned ?ob)" for y
  proof -
    have "holds y s" using assms(1) parts(3) y by (auto simp: ib_ok_def)
    moreover have "real y \<noteq> real ?x" using new(1) y by (metis image_eqI list.set_map)
    ultimately show ?thesis unfolding tu using u(6) by blast
  qed
  moreover have "dom (mrs t) = set (regions ?ob)" using u(2) assms(1) parts(2) new(3) by (auto simp: ib_ok_def)
  moreover have "nullptr \<notin> set (regions ?ob)" using assms(1) parts(2) by (simp add: ib_ok_def)
  ultimately show ?thesis using assms(1) new u by (simp add: ib_ok_def same_handles_def)
qed

lemma ib_ok_rx:
  assumes "ib_ok ob s" "answers_fresh (io_hugepage ob) mm sm s" "unat n + sizeof_mem_info + 2 * unat HUGE_PAGE_SIZE_2MB < 2 ^ 64" "mrs s m = None"
    and "rx_expand limit bsize n mm sm m ob s = Inr (ob', s')"
  shows "ib_ok ob' s'"
proof (cases "can_alloc limit (ucast (n div of_nat (sizeof_Chunk + unat bsize)) :: u32) (io_ctx ob)")
  case ca: True
  let ?nb = "ucast (n div of_nat (sizeof_Chunk + unat bsize)) :: u32"
  have sz: "unat (n + of_nat sizeof_mem_info) + 2 * unat HUGE_PAGE_SIZE_2MB < 2 ^ 64"
    using assms(3) unat_plus_if_size [of n "of_nat sizeof_mem_info"] by (auto simp: sizeof_mem_info_def)
  obtain b t where bt: "mm_malloc (io_hugepage ob) (n + of_nat sizeof_mem_info) mm sm s = (b, t)" by fastforce
  have ex: "rx_expand limit bsize n mm sm m ob s =
      (if b = nullptr then Inr (ob, t)
       else if m = nullptr then rbind (mm_free (io_hugepage ob) b t) (\<lambda>s2. Inr (ob, s2))
       else Inr (ob\<lparr>io_rx := io_rx ob @ [(b, m, ?nb)], io_ctx := update_stats (sint ?nb) (io_ctx ob)\<rparr>, t\<lparr>mrs := (mrs t)(m \<mapsto> b)\<rparr>))"
    using ca bt unfolding rx_expand_def Let_def by simp
  show ?thesis
  proof (cases "b = nullptr")
    case True
    then have "t = s" using mm_malloc_null bt assms(2) by blast
    then show ?thesis using assms(1,5) True by (simp add: ex)
  next
    case False
    let ?x = "(io_hugepage ob, b)"
    have ap: "apart s" and us: "used s = real ` set (owned ob)" using assms(1) by (simp_all add: ib_ok_def)
    note m = mm_malloc_holds [OF bt False assms(2) sz ap]
    have other: "real y \<noteq> real ?x" if "y \<in> set (owned ob)" for y
    proof -
      have "real y \<in> used s" using us that by simp
      then show ?thesis using m by metis
    qed
    have held: "holds y t" if "y \<in> set (owned ob)" for y
    proof -
      have "holds y s" using assms(1) that by (simp add: ib_ok_def)
      then show ?thesis using m by blast
    qed
    show ?thesis
    proof (cases "m = nullptr")
      case True
      obtain u where u: "mm_free (io_hugepage ob) b t = Inr u" "used u = used t - {real ?x}" "apart u" "same_device t u"
        "\<forall>y. holds y t \<and> real y \<noteq> real ?x \<longrightarrow> holds y u" using mm_free_holds [of "io_hugepage ob" b t] m by blast
      have "ob' = ob" "s' = u" using assms(5) [unfolded ex] False True u(1) by simp_all
      moreover have "used u = used s" using u(2) m by auto
      moreover have "holds y u" if "y \<in> set (owned ob)" for y using u(5) held [OF that] other [OF that] by blast
      ultimately show ?thesis using assms(1) u(3,4) m by (simp add: ib_ok_def same_device_def same_handles_def)
    next
      case mr: False
      let ?ob = "ob\<lparr>io_rx := io_rx ob @ [(b, m, ?nb)], io_ctx := update_stats (sint ?nb) (io_ctx ob)\<rparr>" and ?t = "t\<lparr>mrs := (mrs t)(m \<mapsto> b)\<rparr>"
      have o: "owned ?ob = owned ob @ [?x]" "regions ?ob = regions ob @ [m]" by (cases "io_tx ob"; simp add: owned_def regions_def)+
      have res: "ob' = ?ob" "s' = ?t" using assms(5) False mr by (simp_all add: ex)
      have same: "used ?t = used t" "apart ?t = apart t" "holds y ?t = holds y t" for y by (simp_all add: used_def apart_def holds_def)
      have nm: "m \<notin> set (regions ob)" using assms(1,4) by (auto simp: ib_ok_def)
      show ?thesis unfolding res ib_ok_def o same
        using assms(1) m held other nm mr by (auto simp: ib_ok_def same_device_def same_handles_def image_iff)
    qed
  qed
next
  case False
  then show ?thesis using assms(1,5) by (simp add: rx_expand_def)
qed

text \<open>\<open>fill\<close> returns for every size: the offset of the chunk behind the last one is the size of the memory, wrapped around like it.\<close>

lemma fill_loop_returns:
  assumes "length (chunk_arr cl) = n" "i \<le> n"
  shows "\<exists>cl'. fill_loop (buffer_size cl * of_nat n) m lk i (buffer_size cl * of_nat i) cl = Some (Inr cl') \<and> length (chunk_arr cl') = n \<and>
    base cl' = base cl \<and> buffer_size cl' = buffer_size cl \<and> num_chunk cl' = num_chunk cl \<and> (\<forall>j < i. chunk_arr cl' ! j = chunk_arr cl ! j)"
  using assms
proof (induction "n - i" arbitrary: i cl)
  case 0
  then show ?case by (subst fill_loop.simps) auto
next
  case (Suc k)
  let ?bs = "buffer_size cl"
  let ?cl = "cl\<lparr>chunk_arr := (chunk_arr cl)[i := chunk_new m ?bs (base cl + unat (?bs * of_nat i)) 0 ?bs lk None 0 0], free_chunks := free_chunks cl @ [i]\<rparr>"
  have i: "i < n" "k = n - Suc i" using Suc.hyps(2) by simp_all
  have off: "?bs * of_nat i + ?bs = ?bs * of_nat (Suc i)" by (simp add: algebra_simps)
  show ?case
  proof (cases "?bs * of_nat i < ?bs * of_nat n")
    case True
    then have "fill_loop (?bs * of_nat n) m lk i (?bs * of_nat i) cl = fill_loop (?bs * of_nat n) m lk (Suc i) (?bs * of_nat (Suc i)) ?cl"
      using i Suc.prems(1) by (subst fill_loop.simps) (simp only: off if_True)
    moreover have "\<exists>cl'. fill_loop (?bs * of_nat n) m lk (Suc i) (?bs * of_nat (Suc i)) ?cl = Some (Inr cl') \<and> length (chunk_arr cl') = n \<and>
        base cl' = base cl \<and> buffer_size cl' = ?bs \<and> num_chunk cl' = num_chunk cl \<and> (\<forall>j < Suc i. chunk_arr cl' ! j = chunk_arr ?cl ! j)"
      using Suc.hyps(1) [of "Suc i" ?cl] i Suc.prems(1) by simp
    ultimately show ?thesis by fastforce
  next
    case False
    then show ?thesis using Suc.prems(1) by (subst fill_loop.simps) simp
  qed
qed

lemma fill_first_mr:
  assumes "fill num a m lk (cluster_new sz lid0) = r"
  shows "if a = nullptr \<or> m = nullptr then r = Some (Inl KAssert)
    else \<exists>cl. r = Some (Inr cl) \<and> base cl = a \<and> buffer_size cl = sz \<and> num_chunk cl = num \<and> first_mr cl = (if sz * num = 0 then nullptr else m)"
proof (cases "a = nullptr \<or> m = nullptr")
  case True
  then show ?thesis using assms by (auto simp: fill_def cluster_new_def Let_def)
next
  case False
  let ?cl = "(cluster_new sz lid0)\<lparr>num_chunk := num, base := a, cl_end := a + unat (sz * num), chunk_arr := replicate (unat num) zero_chunk\<rparr>"
  have r: "r = fill_loop (sz * num) m lk 0 0 ?cl" using assms False by (auto simp: fill_def cluster_new_def Let_def)
  show ?thesis
  proof (cases "sz * num = 0")
    case True
    then have "r = Some (Inr ?cl)" unfolding r by (subst fill_loop.simps) simp
    then show ?thesis using False True by (cases "unat num") (simp_all add: cluster_new_def first_mr_def zero_chunk_def chunk_new_def)
  next
    case nz: False
    then have n: "0 < unat num" by (metis mult_zero_right unat_eq_0 gr0I)
    let ?cl1 = "?cl\<lparr>chunk_arr := (chunk_arr ?cl)[0 := chunk_new m sz (base ?cl + unat (0 :: u32)) 0 sz lk None 0 0], free_chunks := free_chunks ?cl @ [0]\<rparr>"
    have bs: "buffer_size ?cl = sz" "buffer_size ?cl1 = sz" by (simp_all add: cluster_new_def)
    have "0 < sz * num" using nz by (simp add: word_gt_0)
    then have "r = fill_loop (sz * num) m lk (Suc 0) (0 + buffer_size ?cl) ?cl1"
      unfolding r using n by (subst fill_loop.simps) (simp only: bs if_True, simp)
    then have r1: "r = fill_loop (buffer_size ?cl1 * of_nat (unat num)) m lk 1 (buffer_size ?cl1 * of_nat 1) ?cl1" unfolding bs by simp
    obtain cl where "r = Some (Inr cl)" "length (chunk_arr cl) = unat num" "base cl = a" "buffer_size cl = sz" "num_chunk cl = num"
      "chunk_arr cl ! 0 = chunk_arr ?cl1 ! 0"
      unfolding r1 using fill_loop_returns [of ?cl1 "unat num" 1 m lk] n bs by (auto simp: cluster_new_def)
    then show ?thesis using False nz n by (cases "chunk_arr cl") (auto simp: first_mr_def chunk_new_def)
  qed
qed

lemma tx_create_parts:
  assumes "tx_create sz num mm sm cb m lk lid0 ob s = Some (Inr (ob', s'))"
  shows "\<exists>b t cl. mm_malloc (io_hugepage ob) (ucast (sz * num)) mm sm s = (b, t) \<and> b \<noteq> nullptr \<and> cb \<noteq> nullptr \<and> m \<noteq> nullptr \<and>
    ob' = ob\<lparr>io_tx := Some (cb, cl)\<rparr> \<and> s' = t\<lparr>heap_blocks := insert cb (heap_blocks t), mrs := (mrs t)(m \<mapsto> b)\<rparr> \<and>
    base cl = b \<and> buffer_size cl = sz \<and> num_chunk cl = num \<and> first_mr cl = (if sz * num = 0 then nullptr else m)"
proof -
  obtain b t where bt: "mm_malloc (io_hugepage ob) (ucast (sz * num)) mm sm s = (b, t)" by fastforce
  obtain cl where cl: "fill num b m lk (cluster_new sz lid0) = Some (Inr cl)" "ob' = ob\<lparr>io_tx := Some (cb, cl)\<rparr>"
    "s' = t\<lparr>heap_blocks := insert cb (heap_blocks t), mrs := (mrs t)(m \<mapsto> b)\<rparr>" "\<not> (b \<noteq> nullptr \<and> cb = nullptr)"
    using assms bt by (auto simp: tx_create_def create_tx_pool_def rbind_eq_Inr split: if_splits)
  show ?thesis using fill_first_mr [OF cl(1)] bt cl by (auto split: if_splits)
qed

lemma ib_ok_tx:
  assumes "ib_ok ob s" "io_tx ob = None" "answers_fresh (io_hugepage ob) mm sm s"
    and "fresh cb (snd (mm_malloc (io_hugepage ob) (ucast (sz * num)) mm sm s))" "mrs s m = None"
    and "tx_create sz num mm sm cb m lk lid0 ob s = Some (Inr (ob', s'))" "pool_built ob'"
  shows "ib_ok ob' s'"
proof -
  obtain b t cl where bt: "mm_malloc (io_hugepage ob) (ucast (sz * num)) mm sm s = (b, t)" and b: "b \<noteq> nullptr" "cb \<noteq> nullptr" "m \<noteq> nullptr"
    and res: "ob' = ob\<lparr>io_tx := Some (cb, cl)\<rparr>" "s' = t\<lparr>heap_blocks := insert cb (heap_blocks t), mrs := (mrs t)(m \<mapsto> b)\<rparr>"
    and cl: "base cl = b" "buffer_size cl = sz" "num_chunk cl = num" "first_mr cl = (if sz * num = 0 then nullptr else m)"
    using tx_create_parts [OF assms(6)] by blast
  have fm: "first_mr cl = m" using cl assms(7) res(1) by (simp add: pool_built_def)
  let ?x = "(io_hugepage ob, b)"
  have sz: "unat (ucast (sz * num) :: u64) + 2 * unat HUGE_PAGE_SIZE_2MB < 2 ^ 64"
    using unat_bound [of "sz * num"] by (simp add: HUGE_PAGE_SIZE_2MB_def)
  have ap: "apart s" and us: "used s = real ` set (owned ob)" using assms(1) by (simp_all add: ib_ok_def)
  note k = mm_malloc_holds [OF bt b(1) assms(3) sz ap]
  have cb: "cb \<notin> used t" using assms(4) bt by (auto simp: fresh_def used_def)
  have o: "owned ob' = ?x # (False, cb) # owned ob" "regions ob' = m # regions ob" using assms(2) res(1) cl(1) fm by (simp_all add: owned_def regions_def)
  have rc: "real (False, cb) = cb" by (simp add: real_def)
  have held: "holds y s'" if "y \<in> insert ?x (set (owned ob))" for y
  proof -
    have "holds y s \<or> y = ?x" using assms(1) that by (auto simp: ib_ok_def)
    then have "holds y t" using k by blast
    then show ?thesis by (rule holds_mono) (simp_all add: res(2))
  qed
  have hc: "holds (False, cb) s'" using b(2) by (simp add: holds_def real_def res(2))
  have us': "used s' = insert cb (insert (real ?x) (used s))" using k by (auto simp: used_def res(2))
  have ap': "apart s'" using k cb by (auto simp: apart_def used_def res(2))
  have nm: "m \<notin> set (regions ob)" using assms(1,5) by (auto simp: ib_ok_def)
  have d: "distinct (map real (owned ob'))"
    unfolding o list.map distinct.simps rc using assms(1) k cb us by (auto simp: ib_ok_def)
  show ?thesis
    using d held hc us' ap' nm assms(1) k us rc b(3) unfolding ib_ok_def o by (auto simp: same_device_def same_handles_def res)
qed

lemma objects_frame:
  "owned (ob\<lparr>io_ctx := c\<rparr>) = owned ob" "owned (ob\<lparr>io_srq := q\<rparr>) = owned ob" "regions (ob\<lparr>io_ctx := c\<rparr>) = regions ob" "regions (ob\<lparr>io_srq := q\<rparr>) = regions ob"
  by (cases "io_tx ob"; simp add: owned_def regions_def)+

lemma resources_frame:
  "used (s\<lparr>qps := Q\<rparr>) = used s" "used (s\<lparr>srqs := Q\<rparr>) = used s" "apart (s\<lparr>qps := Q\<rparr>) = apart s" "apart (s\<lparr>srqs := Q\<rparr>) = apart s"
  "holds x (s\<lparr>qps := Q\<rparr>) = holds x s" "holds x (s\<lparr>srqs := Q\<rparr>) = holds x s"
  by (simp_all add: used_def apart_def holds_def)

lemma ib_ok_frame:
  "ib_ok ob (s\<lparr>qps := Q\<rparr>) = ib_ok ob s" "ib_ok ob (s\<lparr>srqs := Q\<rparr>) = ib_ok ob s" "ib_ok (ob\<lparr>io_ctx := c\<rparr>) s = ib_ok ob s" "ib_ok (ob\<lparr>io_srq := q\<rparr>) s = ib_ok ob s"
  by (simp_all add: ib_ok_def objects_frame resources_frame)

lemma same_pool_first: "same_pool cl cl' \<Longrightarrow> first_mr cl' = first_mr cl"
  by (cases "chunk_arr cl"; cases "chunk_arr cl'") (auto simp: same_pool_def first_mr_def)

lemma ib_ok_tx_use:
  assumes "ib_ok ob s" "io_tx ob = Some (cb, cl)" "same_pool cl cl'"
  shows "ib_ok (ob\<lparr>io_tx := Some (cb, cl')\<rparr>) s"
proof -
  have "owned (ob\<lparr>io_tx := Some (cb, cl')\<rparr>) = owned ob" "regions (ob\<lparr>io_tx := Some (cb, cl')\<rparr>) = regions ob"
    using assms(2,3) same_pool_first [OF assms(3)] by (simp_all add: owned_def regions_def same_pool_def)
  then show ?thesis using assms(1) by (simp add: ib_ok_def)
qed

lemma rx_expand_tx: "rx_expand limit bsize n mm sm m ob s = Inr (ob', s') \<Longrightarrow> io_tx ob' = io_tx ob \<and> io_srq ob' = io_srq ob"
  by (auto simp: rx_expand_def rbind_eq_Inr Let_def split: if_splits prod.splits)

lemma ib_run_ok: "ib_run ob s \<Longrightarrow> pool_built ob \<Longrightarrow> ib_ok ob s"
proof (induction rule: ib_run.induct)
  case (init dvs h p)
  then show ?case by (simp add: ib_ok_def owned_def regions_def used_def apart_def no_resources_def)
next
  case (tx ob s mm sm cb sz num m lk lid0 ob' s')
  have "pool_built ob" using tx.hyps(2) by (simp add: pool_built_def)
  then show ?case using ib_ok_tx tx by blast
next
  case (tx_use ob s cb cl cl')
  have "pool_built ob" using tx_use.hyps(2,3) tx_use.prems by (simp add: pool_built_def same_pool_def)
  then show ?case using ib_ok_tx_use tx_use by blast
next
  case (rx ob s mm sm n m limit bsize ob' s')
  have "pool_built ob" using rx_expand_tx [OF rx.hyps(5)] rx.prems by (simp add: pool_built_def)
  then show ?case using ib_ok_rx rx by blast
next
  case (rx_free ob s bms bm bms' ctx s')
  have "pool_built ob" using rx_free.prems by (simp add: pool_built_def)
  then show ?case using ib_ok_rx_free rx_free by (simp add: rx_release_parts)
qed (simp_all add: ib_ok_frame pool_built_def)

text \<open>The shared receive queue is there as long as \<open>Infiniband\<close> has it; the statistics count the buffers of the receive pool.\<close>

lemma mm_malloc_handles: "mm_malloc h sz mm sm s = (b, t) \<Longrightarrow> same_device s t"
  by (auto simp: mm_malloc_def huge_pages_malloc_def same_device_def same_handles_def Let_def split: if_splits option.splits)

lemma release_handles:
  "std_free p s = Inr t \<Longrightarrow> same_device s t" "sys_munmap p n s = Inr t \<Longrightarrow> same_device s t"
  by (auto simp: std_free_def sys_munmap_def same_device_def same_handles_def split: if_splits)

lemma mm_free_handles:
  assumes "mm_free h p s = Inr t"
  shows "same_device s t"
proof (cases h)
  case True
  then obtain c where "(case c of NoRelease \<Rightarrow> Inr s | Munmap q n \<Rightarrow> sys_munmap q n s | StdFree q \<Rightarrow> std_free q s) = Inr t"
    using assms by (auto simp: mm_free_def rbind_eq_Inr)
  then show ?thesis using release_handles by (cases c) (auto simp: same_device_def same_handles_def)
next
  case False
  then show ?thesis using assms release_handles(1) by (simp add: mm_free_def)
qed

lemma rx_block_free_handles: "rx_block_free h bm s = Inr t \<Longrightarrow> same_handles s t"
  by (auto simp: rx_block_free_def dereg_mr_def same_device_def same_handles_def rbind_eq_Inr split: if_splits dest!: mm_free_handles)

lemma rx_expand_handles:
  assumes "rx_expand limit bsize n mm sm m ob s = Inr (ob', s')"
  shows "same_handles s s' \<and> n_bufs_allocated (io_ctx ob') - rx_bufs (io_rx ob') = n_bufs_allocated (io_ctx ob) - rx_bufs (io_rx ob)"
proof -
  let ?nb = "ucast (n div of_nat (sizeof_Chunk + unat bsize)) :: u32"
  obtain b t where bt: "mm_malloc (io_hugepage ob) (n + of_nat sizeof_mem_info) mm sm s = (b, t)" by fastforce
  have t: "same_handles s t" using mm_malloc_handles [OF bt] by (simp add: same_device_def)
  have "ob' = ob \<and> (s' = s \<or> s' = t \<or> mm_free (io_hugepage ob) b t = Inr s')
      \<or> ob' = ob\<lparr>io_rx := io_rx ob @ [(b, m, ?nb)], io_ctx := update_stats (sint ?nb) (io_ctx ob)\<rparr> \<and> s' = t\<lparr>mrs := (mrs t)(m \<mapsto> b)\<rparr>"
    using assms bt unfolding rx_expand_def Let_def by (simp add: rbind_eq_Inr split: if_splits) blast
  then show ?thesis using t mm_free_handles [of "io_hugepage ob" b t s']
    by (auto simp: same_device_def same_handles_def rx_bufs_def)
qed

lemma ib_run_srqs: "ib_run ob s \<Longrightarrow> srqs s = set_option (io_srq ob) \<and> nullptr \<notin> srqs s"
proof (induction rule: ib_run.induct)
  case (tx ob s mm sm cb sz num m lk lid0 ob' s')
  obtain b t cl where "mm_malloc (io_hugepage ob) (ucast (sz * num)) mm sm s = (b, t)" "ob' = ob\<lparr>io_tx := Some (cb, cl)\<rparr>"
    "s' = t\<lparr>heap_blocks := insert cb (heap_blocks t), mrs := (mrs t)(m \<mapsto> b)\<rparr>" using tx_create_parts [OF tx.hyps(6)] by blast
  then show ?case using tx.IH mm_malloc_handles by (auto simp: same_device_def same_handles_def)
next
  case (rx ob s mm sm n m limit bsize ob' s')
  then show ?case using rx_expand_handles [OF rx.hyps(5)] rx_expand_tx [OF rx.hyps(5)] by (auto simp: same_handles_def)
next
  case (rx_free ob s bms bm bms' ctx s')
  then show ?case using rx_block_free_handles [of "io_hugepage ob" bm s s'] by (auto simp: rx_release_parts same_handles_def)
qed (auto simp: no_resources_def)

lemma ib_run_bufs: "ib_run ob s \<Longrightarrow> n_bufs_allocated (io_ctx ob) = rx_bufs (io_rx ob)"
proof (induction rule: ib_run.induct)
  case (tx ob s mm sm cb sz num m lk lid0 ob' s')
  then show ?case using tx_create_parts [OF tx.hyps(6)] by auto
next
  case (rx ob s mm sm n m limit bsize ob' s')
  then show ?case using rx_expand_handles [OF rx.hyps(5)] by simp
next
  case (rx_free ob s bms bm bms' ctx s')
  then show ?case by (simp add: rx_release_parts rx_bufs_def)
qed (simp_all add: rx_bufs_def pool_ctx_new_def set_stat_logger_def)

lemma rx_purge_ok:
  assumes "ib_ok ob s" "io_tx ob = None"
  shows "\<exists>ctx t. rx_purge (io_hugepage ob) (io_rx ob) (io_ctx ob, s) = Inr (ctx, t) \<and> ib_ok (ob\<lparr>io_rx := []\<rparr>) t \<and> same_handles s t \<and>
    n_bufs_allocated ctx = n_bufs_allocated (io_ctx ob) - rx_bufs (io_rx ob)"
  using assms
proof (induction "io_rx ob" arbitrary: ob s)
  case Nil
  then have "ob\<lparr>io_rx := []\<rparr> = ob" by (cases ob) simp
  then have "ib_ok (ob\<lparr>io_rx := []\<rparr>) s" using Nil.prems(1) by (simp only:)
  then show ?case using Nil.hyps [symmetric] by (simp add: rx_bufs_def same_handles_def)
next
  case (Cons bm bms)
  let ?c = "update_stats (sint (- snd (snd bm))) (io_ctx ob)"
  let ?ob = "ob\<lparr>io_rx := bms, io_ctx := ?c\<rparr>"
  have in_ob: "(io_hugepage ob, fst bm) \<in> set (owned ob)" "fst (snd bm) \<in> set (regions ob)" using Cons.hyps(2) [symmetric] by (simp_all add: owned_def regions_def)
  have "holds (io_hugepage ob, fst bm) s" "apart s" "mrs s (fst (snd bm)) \<noteq> None" "fst (snd bm) \<noteq> nullptr" using Cons.prems(1) in_ob by (auto simp: ib_ok_def)
  then obtain u where u: "rx_block_free (io_hugepage ob) bm s = Inr u" "same_handles s u" using rx_block_free_holds [of "io_hugepage ob" bm s] by blast
  have rel: "rx_release (io_hugepage ob) bm (io_ctx ob, s) = Inr (?c, u)" using u(1) by (simp add: rx_release_parts)
  have "ib_ok ?ob u" using ib_ok_rx_free [OF Cons.prems(1), of "[]" bm bms u ?c] Cons.hyps(2) u by simp
  then obtain ctx t where t: "rx_purge (io_hugepage ob) bms (?c, u) = Inr (ctx, t)" "ib_ok (?ob\<lparr>io_rx := []\<rparr>) t" "same_handles u t"
    "n_bufs_allocated ctx = n_bufs_allocated ?c - rx_bufs bms"
    using Cons.hyps(1) [of ?ob u] Cons.prems(2) by auto
  have "?ob\<lparr>io_rx := []\<rparr> = ob\<lparr>io_rx := []\<rparr>\<lparr>io_ctx := ?c\<rparr>" by simp
  then have "ib_ok (ob\<lparr>io_rx := []\<rparr>) t" using t(2) ib_ok_frame(3) by metis
  moreover have "rx_purge (io_hugepage ob) (io_rx ob) (io_ctx ob, s) = Inr (ctx, t)" using t(1) rel by (simp flip: Cons.hyps(2))
  moreover have "n_bufs_allocated ctx = n_bufs_allocated (io_ctx ob) - rx_bufs (io_rx ob)"
    using t(4) by (simp flip: Cons.hyps(2) add: rx_bufs_def)
  ultimately show ?case using t(3) u(2) by (auto simp: same_handles_def)
qed

lemma cluster_delete_ok:
  assumes "ib_ok ob s" "io_tx ob = Some t"
  shows "\<exists>u. cluster_delete (io_hugepage ob) t s = Inr u \<and> ib_ok (ob\<lparr>io_tx := None\<rparr>) u \<and> same_handles s u"
proof -
  let ?m = "first_mr (snd t)"
  let ?x = "(io_hugepage ob, base (snd t))" and ?c = "(False, fst t)" and ?ob = "ob\<lparr>io_tx := None\<rparr>"
  have o: "owned ob = ?x # ?c # owned ?ob" "regions ob = ?m # regions ?ob" using assms(2) by (simp_all add: owned_def regions_def)
  have hx: "holds ?x s" "holds ?c s" "apart s" "?m \<noteq> nullptr" "mrs s ?m \<noteq> None" using assms o by (auto simp: ib_ok_def)
  have rc: "real ?c = fst t" by (simp add: real_def)
  have dist: "real ?x \<noteq> fst t" "real ?x \<notin> real ` set (owned ?ob)" "fst t \<notin> real ` set (owned ?ob)" "?m \<notin> set (regions ?ob)"
    using assms(1) unfolding ib_ok_def o by (auto simp: rc)
  obtain a where a: "dereg_mr ?m s = Inr a" "mrs a = (mrs s)(?m := None)" "used a = used s" "apart a" "same_handles s a"
    "\<forall>y. holds y s = holds y a" using dereg_holds [OF hx(5,4)] hx(3) by auto
  have "holds ?c a" using hx(2) a(6) by blast
  then have ca: "fst t \<noteq> nullptr" "fst t \<in> heap_blocks a" by (simp_all add: holds_def rc)
  obtain b where b: "std_free (fst t) a = Inr b" "used b = used a - {fst t}" "apart b" "same_device a b"
    "\<forall>y. holds y a \<and> real y \<noteq> fst t \<longrightarrow> holds y b" using std_free_holds [OF ca a(4)] by blast
  have "holds ?x b" using hx(1) a(6) b(5) dist(1) by blast
  then obtain u where u: "mm_free (io_hugepage ob) (base (snd t)) b = Inr u" "used u = used b - {real ?x}" "apart u" "same_device b u"
    "\<forall>y. holds y b \<and> real y \<noteq> real ?x \<longrightarrow> holds y u" using mm_free_holds b(3) by blast
  have keep: "holds y u" if "y \<in> set (owned ?ob)" for y
  proof -
    have "holds y s" using assms(1) o(1) that by (simp add: ib_ok_def)
    moreover have "real y \<in> real ` set (owned ?ob)" using that by simp
    then have "real y \<noteq> fst t" "real y \<noteq> real ?x" using dist(2,3) by metis+
    ultimately show ?thesis using a(6) b(5) u(5) by blast
  qed
  have "used s = insert (real ?x) (insert (fst t) (real ` set (owned ?ob)))" using assms(1) unfolding ib_ok_def o by (simp add: rc)
  then have "used u = insert (real ?x) (insert (fst t) (real ` set (owned ?ob))) - {fst t} - {real ?x}" using u(2) b(2) a(3) by simp
  moreover have "insert a (insert c R) - {c} - {a} = R" if "a \<notin> R" "c \<notin> R" for a c :: ptr and R using that by blast
  ultimately have "used u = real ` set (owned ?ob)" using dist(2,3) by simp
  moreover have "dom (mrs s) = insert ?m (set (regions ?ob))" "mrs u = (mrs s)(?m := None)"
    using a(2) b(4) u(4) assms(1) o(2) by (simp_all add: same_device_def ib_ok_def)
  then have "dom (mrs u) = set (regions ?ob)" using dist(4) by simp
  moreover have same: "same_handles s u" using a(5) b(4) u(4) by (simp add: same_device_def same_handles_def)
  ultimately have "ib_ok ?ob u" using assms(1) keep u(3) o unfolding ib_ok_def by (simp add: same_handles_def)
  moreover have "cluster_delete (io_hugepage ob) t s = Inr u"
    using a(1) b(1) u(1) hx(4) by (cases "chunk_arr (snd t)") (simp_all add: cluster_delete_def first_mr_def)
  ultimately show ?thesis using same by blast
qed

lemma devices_delete_ok:
  assumes "distinct (map fst dvs)" "fst ` set dvs \<subseteq> devs s" "\<And>d. (d, True) \<in> set dvs \<Longrightarrow> close_ok d"
  shows "devices_delete close_ok dvs s = Inr (s\<lparr>devs := devs s - {d. (d, True) \<in> set dvs}\<rparr>)"
  using assms
proof (induction dvs arbitrary: s)
  case (Cons dv dvs)
  obtain d b where dv: "dv = (d, b)" by (cases dv)
  have "d \<notin> fst ` set dvs" using Cons.prems(1) dv by simp
  then have *: "fst ` set dvs \<subseteq> devs s - {d}" "fst ` set dvs \<subseteq> devs s" "devs s - {d} - {e. (e, True) \<in> set dvs} = devs s - {e. e = d \<or> (e, True) \<in> set dvs}"
    using Cons.prems(2) by auto
  show ?case
  proof (cases b)
    case True
    then show ?thesis using Cons.IH [of "s\<lparr>devs := devs s - {d}\<rparr>"] Cons.prems dv * by (simp add: device_delete_def)
  next
    case False
    then show ?thesis using Cons.IH [of s] Cons.prems dv * by (simp add: device_delete_def)
  qed
qed simp

lemma destroy_srq_ok:
  assumes "ib_run ob s"
  shows "(case io_srq ob of Some q \<Rightarrow> destroy_srq q s | None \<Rightarrow> Inr s) = Inr (s\<lparr>srqs := (if qps s = {} then {} else srqs s)\<rparr>)"
proof (cases "io_srq ob")
  case None
  then have e: "srqs s = {}" using ib_run_srqs [OF assms] by simp
  have "s\<lparr>srqs := {}\<rparr> = s" unfolding e [symmetric] by simp
  then show ?thesis unfolding None e by simp
next
  case (Some p)
  have "srqs s = set_option (io_srq ob)" "nullptr \<notin> srqs s" using ib_run_srqs [OF assms] by blast+
  then have q: "srqs s = {p}" "nullptr \<notin> {p}" unfolding Some by simp_all
  have e: "p \<in> srqs s" "p \<noteq> nullptr" "srqs s - {p} = {}" unfolding q(1) using q(2) by auto
  show ?thesis
  proof (cases "qps s = {}")
    case True
    then show ?thesis using e by (simp add: Some destroy_srq_def)
  next
    case False
    then show ?thesis using e(1,2) by (simp add: Some destroy_srq_def)
  qed
qed

lemma bound_devices:
  assumes "distinct (map fst dvs)"
  shows "fst ` set dvs - {d. (d, True) \<in> set dvs} = {d. (d, False) \<in> set dvs}" (is "?L = ?R")
proof (intro equalityI subsetI)
  fix d assume "d \<in> ?L"
  then obtain b where "(d, b) \<in> set dvs" "(d, True) \<notin> set dvs" by auto
  then show "d \<in> ?R" by (cases b) simp_all
next
  fix d assume d: "d \<in> ?R"
  then have "(d, True) \<notin> set dvs" using assms eq_key_imp_eq_value by fastforce
  then show "d \<in> ?L" using d by (auto intro: image_eqI [of _ _ "(d, False)"])
qed

lemma unbuilt_first_mr: "ib_run ob s \<Longrightarrow> \<not> pool_built ob \<Longrightarrow> io_tx ob = Some t \<Longrightarrow> first_mr (snd t) = nullptr"
proof (induction arbitrary: t rule: ib_run.induct)
  case (tx ob s mm sm cb sz num m lk lid0 ob' s')
  then show ?case using tx_create_parts [OF tx.hyps(6)] by (auto simp: pool_built_def)
next
  case (tx_use ob s cb cl cl')
  have "\<not> pool_built ob" using tx_use.prems(1) tx_use.hyps(2,3) by (simp add: pool_built_def same_pool_def)
  then have "first_mr cl = nullptr" using tx_use.IH tx_use.hyps(2) by fastforce
  then show ?case using tx_use.prems(2) same_pool_first [OF tx_use.hyps(3)] by auto
next
  case (rx ob s mm sm n m limit bsize ob' s')
  then show ?case using rx_expand_tx [OF rx.hyps(5)] by (auto simp: pool_built_def)
qed (auto simp: pool_built_def)

section \<open>Properties\<close>

text \<open>C31: \<open>~Infiniband\<close> gives everything back exactly once, except device contexts, when the size of the send pool does not wrap around to
  0 in 32 bits. However the pools were built and the receive pool grew and shrank, with or without huge pages and with
  failing allocations on the way, the destructors run without a fault, provided the devices can be closed: every block goes back to the
  allocator it came from, every memory region is deregistered before its block is freed, and the statistics end at 0 buffers. The
  shared receive queue and the protection domain are released exactly when no queue pair is left; otherwise the device refuses, and the
  destructor does not look at its answer. The contexts of the devices on which no port was bound stay open: \<open>DeviceList\<close> opens all devices,
  \<open>~Device\<close> closes those with an active port.\<close>

theorem infiniband_releases_all:
  assumes "ib_run ob s" and "pool_built ob" and "\<forall>d. (d, True) \<in> set (io_devices ob) \<longrightarrow> close_ok d"
  shows "\<exists>ctx t. infiniband_delete close_ok True ob s = Inr (ctx, t) \<and> heap_blocks t = {} \<and> maps t = Map.empty \<and> mrs t = Map.empty \<and>
    n_bufs_allocated ctx = 0 \<and> qps t = qps s \<and> srqs t = (if qps s = {} then {} else set_option (io_srq ob)) \<and>
    pds t = (if qps s = {} then {} else {io_pd ob}) \<and> devs t = {d. (d, False) \<in> set (io_devices ob)}"
proof -
  let ?s = "s\<lparr>srqs := (if qps s = {} then {} else srqs s)\<rparr>"
  have sq: "(case io_srq ob of Some q \<Rightarrow> destroy_srq q s | None \<Rightarrow> Inr s) = Inr ?s" by (rule destroy_srq_ok [OF assms(1)])
  have ok: "ib_ok ob ?s" using ib_run_ok [OF assms(1,2)] by (simp only: ib_ok_frame)
  obtain u where u: "(case io_tx ob of Some t \<Rightarrow> cluster_delete (io_hugepage ob) t ?s | None \<Rightarrow> Inr ?s) = Inr u" "ib_ok (ob\<lparr>io_tx := None\<rparr>) u" "same_handles ?s u"
  proof (cases "io_tx ob")
    case None
    then have e: "ob\<lparr>io_tx := None\<rparr> = ob" by (cases ob) simp
    have "ib_ok (ob\<lparr>io_tx := None\<rparr>) ?s" using ok by (simp only: e)
    then show ?thesis using that [of ?s] None by (simp add: same_handles_def)
  next
    case (Some t)
    then show ?thesis using that cluster_delete_ok [OF ok Some] by auto
  qed
  obtain ctx v where v: "rx_purge (io_hugepage ob) (io_rx ob) (io_ctx ob, u) = Inr (ctx, v)" "ib_ok (ob\<lparr>io_tx := None, io_rx := []\<rparr>) v" "same_handles u v"
    "n_bufs_allocated ctx = 0"
    using rx_purge_ok [OF u(2)] ib_run_bufs [OF assms(1)] by auto
  have e: "heap_blocks v = {}" "maps v = Map.empty" "mrs v = Map.empty" "pds v = {io_pd ob}" "devs v = fst ` set (io_devices ob)" "distinct (map fst (io_devices ob))"
    using v(2) by (auto simp: ib_ok_def owned_def regions_def used_def)
  have q: "qps v = qps s" "srqs v = (if qps s = {} then {} else set_option (io_srq ob))"
    using v(3) u(3) ib_run_srqs [OF assms(1)] by (auto simp: same_handles_def)
  let ?w = "dealloc_pd (io_pd ob) v"
  have w: "heap_blocks ?w = {}" "maps ?w = Map.empty" "mrs ?w = Map.empty" "pds ?w = (if qps s = {} then {} else {io_pd ob})" "devs ?w = fst ` set (io_devices ob)"
    "qps ?w = qps s" "srqs ?w = (if qps s = {} then {} else set_option (io_srq ob))"
    using e q by (auto simp: dealloc_pd_def)
  have "devices_delete close_ok (io_devices ob) ?w = Inr (?w\<lparr>devs := devs ?w - {d. (d, True) \<in> set (io_devices ob)}\<rparr>)"
    by (rule devices_delete_ok [OF e(6)]) (use assms(3) w(5) in auto)
  then have "infiniband_delete close_ok True ob s = Inr (ctx, ?w\<lparr>devs := {d. (d, False) \<in> set (io_devices ob)}\<rparr>)"
    using sq u(1) v(1) w(5) bound_devices [OF e(6)] by (simp add: infiniband_delete_def manager_delete_def)
  then show ?thesis using w v(4) by simp
qed

text \<open>When the size of the send pool wraps around to 0, as for 32768 buffers of 128 KiB, \<open>fill\<close> registers a region of no bytes and builds no
  chunk; the array of the chunks is cleared memory. The destructor of the cluster then hands the null pointer of the first chunk to
  \<open>ibv_dereg_mr\<close>, or reads behind an array of no chunks.\<close>

theorem wrapped_pool_faults:
  assumes "ib_run ob s" and "\<not> pool_built ob"
  shows "infiniband_delete close_ok True ob s = Inl NullDeref \<or> infiniband_delete close_ok True ob s = Inl OutOfBounds"
proof -
  obtain t where t: "io_tx ob = Some t" using assms(2) by (auto simp: pool_built_def split: option.splits)
  have "first_mr (snd t) = nullptr" using unbuilt_first_mr [OF assms t] .
  then have cd: "cluster_delete h t u = Inl NullDeref \<or> cluster_delete h t u = Inl OutOfBounds" for h u
    by (cases "chunk_arr (snd t)") (simp_all add: cluster_delete_def first_mr_def dereg_mr_def)
  note u = destroy_srq_ok [OF assms(1)]
  show ?thesis using cd [of "io_hugepage ob" "s\<lparr>srqs := (if qps s = {} then {} else srqs s)\<rparr>"] by (rule disjE) (simp_all add: infiniband_delete_def manager_delete_def u t)
qed

text \<open>The size check of \<open>init\<close> does not cover the pool that \<open>init\<close> registers: it compares the memory of \<open>tx_queue_len\<close> buffers with the largest
  region of the device, and then registers eight times as many buffers as one region. A device accepts the
  configuration although the region is too large for it.\<close>

theorem mr_check_misses_pool:
  "\<exists>cfg a rx tx. queue_lens cfg a = Inr (rx, tx) \<and> uint (max_mr_size a) < uint (m_rdma_buffer_size_bytes cfg) * uint (8 * tx :: u32)"
proof -
  let ?a = "(dev_attr example_device)\<lparr>max_mr_size := ucast (m_rdma_buffer_size_bytes example_config) * 128\<rparr>"
  have "queue_lens example_config ?a = Inr (256, 128)"
    by (simp add: queue_lens_def example_config_def config_defaults_def example_device_def Let_def)
  moreover have "uint (max_mr_size ?a) < uint (m_rdma_buffer_size_bytes example_config) * uint (8 * 128 :: u32)"
    by (simp add: example_config_def config_defaults_def)
  ultimately show ?thesis by blast
qed

section \<open>Witnesses\<close>

text \<open>Two devices, the send pool in huge pages, a shared receive queue, and a block of receive buffers for which no huge pages were left.\<close>

definition two_devices :: ib_objects where
  "two_devices = \<lparr>io_hugepage = True, io_tx = None, io_rx = [], io_ctx = pool_ctx_new, io_pd = 3, io_srq = None, io_devices = [(1, True), (2, False)]\<rparr>"

definition two_devices_open :: resources where
  "two_devices_open = no_resources\<lparr>pds := {3}, devs := {1, 2}\<rparr>"

lemma two_devices_run: "ib_run two_devices two_devices_open"
  using ib_run.init [of "[(1, True), (2, False)]" True 3] by (simp add: two_devices_def two_devices_open_def insert_commute)

lemma two_devices_tx:
  assumes "tx_create sz num (Some 100) 0 200 7 9 0 two_devices two_devices_open = Some (Inr (ob', s'))"
  shows "ib_run ob' s'"
  by (rule ib_run.tx [OF two_devices_run _ _ _ _ assms])
    (simp_all add: two_devices_def two_devices_open_def answers_fresh_def fresh_def no_resources_def mm_malloc_def huge_pages_malloc_def Let_def)

lemma two_devices_pool:
  obtains ob s where "tx_create 4096 4 (Some 100) 0 200 7 9 0 two_devices two_devices_open = Some (Inr (ob, s))"
    "pool_built ob" "io_hugepage ob" "io_tx ob \<noteq> None" "io_rx ob = []" "io_ctx ob = pool_ctx_new" "io_srq ob = None"
    "io_devices ob = [(1, True), (2, False)]" "fresh 300 s" "mrs s 8 = None" "qps s = {}"
proof -
  let ?b = "100 + unat HUGE_PAGE_SIZE_2MB"
  obtain cl where cl: "fill 4 ?b 7 9 (cluster_new 4096 0) = Some (Inr cl)" "buffer_size cl = 4096" "num_chunk cl = 4"
    using fill_first_mr [of 4 ?b 7 9 4096 0, OF refl] by auto
  obtain s where m: "mm_malloc True (ucast (4096 * 4 :: u32)) (Some 100) 0 two_devices_open = (?b, s)" "fresh 300 (s\<lparr>heap_blocks := insert 200 (heap_blocks s)\<rparr>)"
    "mrs s 8 = None" "qps s = {}"
    by (simp add: mm_malloc_def huge_pages_malloc_def two_devices_open_def no_resources_def fresh_def Let_def)
  show ?thesis
    by (rule that [of "two_devices\<lparr>io_tx := Some (200, cl)\<rparr>" "s\<lparr>heap_blocks := insert 200 (heap_blocks s), mrs := (mrs s)(7 \<mapsto> ?b)\<rparr>"])
      (use cl m in \<open>simp_all add: tx_create_def create_tx_pool_def two_devices_def pool_built_def fresh_def\<close>)
qed

theorem infiniband_releases_all_witness:
  "\<exists>ob s ctx t. ib_run ob s \<and> io_tx ob \<noteq> None \<and> n_bufs_allocated (io_ctx ob) = 2 \<and> io_srq ob = Some 11 \<and>
     infiniband_delete (\<lambda>d. d = 1) True ob s = Inr (ctx, t) \<and> maps t = Map.empty \<and> n_bufs_allocated ctx = 0 \<and> srqs t = {} \<and> pds t = {} \<and> devs t = {2}"
proof -
  obtain ob1 s1 where c1: "tx_create 4096 4 (Some 100) 0 200 7 9 0 two_devices two_devices_open = Some (Inr (ob1, s1))"
    and t1: "pool_built ob1" "io_hugepage ob1" "io_tx ob1 \<noteq> None" "io_rx ob1 = []" "io_ctx ob1 = pool_ctx_new" "io_srq ob1 = None"
      "io_devices ob1 = [(1, True), (2, False)]" "fresh 300 s1" "mrs s1 8 = None" "qps s1 = {}"
    by (rule two_devices_pool)
  have r1: "ib_run ob1 s1" by (rule two_devices_tx [OF c1])
  obtain ob2 s2 where c2: "rx_expand 0 4040 8192 None 300 8 ob1 s1 = Inr (ob2, s2)"
    and t2: "io_tx ob2 = io_tx ob1" "n_bufs_allocated (io_ctx ob2) = 2" "io_devices ob2 = io_devices ob1" "io_srq ob2 = None" "qps s2 = {}"
    using t1 by (simp add: rx_expand_def can_alloc_def mm_malloc_def huge_pages_malloc_def sizeof_Chunk_def sizeof_mem_info_def pool_ctx_new_def update_stats_def Let_def)
  have r2: "ib_run ob2 s2" by (rule ib_run.rx [OF r1 _ _ t1(9) c2]) (use t1 in \<open>simp_all add: answers_fresh_def HUGE_PAGE_SIZE_2MB_def sizeof_mem_info_def\<close>)
  let ?ob = "ob2\<lparr>io_srq := Some 11\<rparr>" and ?s = "s2\<lparr>srqs := insert 11 (srqs s2)\<rparr>"
  have r3: "ib_run ?ob ?s" by (rule ib_run.srq [OF r2 t2(4)]) simp
  have "\<exists>ctx t. infiniband_delete (\<lambda>d. d = 1) True ?ob ?s = Inr (ctx, t) \<and> heap_blocks t = {} \<and> maps t = Map.empty \<and> mrs t = Map.empty \<and>
      n_bufs_allocated ctx = 0 \<and> qps t = qps ?s \<and> srqs t = (if qps ?s = {} then {} else set_option (io_srq ?ob)) \<and>
      pds t = (if qps ?s = {} then {} else {io_pd ?ob}) \<and> devs t = {d. (d, False) \<in> set (io_devices ?ob)}"
    by (rule infiniband_releases_all [OF r3]) (use t1 t2 in \<open>auto simp: pool_built_def\<close>)
  moreover have "{d. (d, False) \<in> set (io_devices ?ob)} = {2}" using t1(7) t2(3) by auto
  ultimately obtain ctx t where "infiniband_delete (\<lambda>d. d = 1) True ?ob ?s = Inr (ctx, t)" "maps t = Map.empty" "n_bufs_allocated ctx = 0" "srqs t = {}"
    "pds t = {}" "devs t = {2}" using t2(5) by auto
  then show ?thesis using r3 t1(3) t2(1,2) by (intro exI [of _ ?ob] exI [of _ ?s] exI [of _ ctx] exI [of _ t]) simp
qed

theorem wrapped_pool_faults_witness:
  "\<exists>ob s. ib_run ob s \<and> (131072 :: u32) * 32768 = 0 \<and> io_tx ob \<noteq> None \<and>
     (infiniband_delete (\<lambda>d. d = 1) True ob s = Inl NullDeref \<or> infiniband_delete (\<lambda>d. d = 1) True ob s = Inl OutOfBounds)"
proof -
  have "fst (mm_malloc True 0 (Some 100) 0 two_devices_open) = 100 + unat HUGE_PAGE_SIZE_2MB"
    by (simp add: mm_malloc_def huge_pages_malloc_def Let_def)
  then obtain ob s where c: "tx_create 131072 32768 (Some 100) 0 200 7 9 0 two_devices two_devices_open = Some (Inr (ob, s))"
    using fill_first_mr [of 32768 "100 + unat HUGE_PAGE_SIZE_2MB" 7 9 131072 0, OF refl]
    by (cases "mm_malloc True 0 (Some 100) 0 two_devices_open") (auto simp: tx_create_def create_tx_pool_def two_devices_def)
  have r: "ib_run ob s" by (rule two_devices_tx [OF c])
  obtain cl where "ob = two_devices\<lparr>io_tx := Some (200, cl)\<rparr>" "buffer_size cl = 131072" "num_chunk cl = 32768"
    using tx_create_parts [OF c] by blast
  then have "\<not> pool_built ob" "io_tx ob \<noteq> None" by (simp_all add: pool_built_def)
  then show ?thesis using r wrapped_pool_faults [OF r, of "\<lambda>d. d = 1"] by (intro exI [of _ ob] exI [of _ s]) simp
qed

end
