(* ===== verification/Double.thy ===== *)
theory Double
  imports Prelude Complex_Main "HOL-Library.Log_Nat"
begin

text \<open>
  The arithmetic of C++ \<open>double\<close> that the timing code uses. A finite double is a rational number; an operation is the exact one
  followed by rounding to the nearest number with 53 significant bits, ties to even (IEEE 754 binary64 in the range without
  overflow and without subnormal numbers, which the values here never leave). The locale \<open>rounded\<close> states what the clients rely
  on; it is interpreted on the rounding function.
\<close>

section \<open>Rounding\<close>

definition rne :: "rat \<Rightarrow> int" where
  "rne x = (let f = \<lfloor>x\<rfloor>; r = x - of_int f in if r < 1 / 2 then f else if r > 1 / 2 then f + 1 else if even f then f else f + 1)"

text \<open>The exponent of the leading digit of a positive number in base \<open>b\<close>, and that of the last of its 53 bits.\<close>

definition ilog :: "nat \<Rightarrow> rat \<Rightarrow> int" where
  "ilog b x = (let (n, d) = quotient_of x; k = int (floorlog b (nat n)) - int (floorlog b (nat d)) in if of_nat b powi k \<le> x then k else k - 1)"

definition last_bit :: "rat \<Rightarrow> int" where
  "last_bit x = ilog 2 x - 52"

definition rnd :: "rat \<Rightarrow> rat" where
  "rnd x = (if x = 0 then 0
            else let y = \<bar>x\<bar>; u = 2 powi last_bit y in sgn x * (of_int (rne (y / u)) * u))"

lemma rne_bounds: "of_int (rne x) \<le> x + 1 / 2" "x - 1 / 2 \<le> of_int (rne x)"
proof -
  have "of_int \<lfloor>x\<rfloor> \<le> x" "x < of_int \<lfloor>x\<rfloor> + 1" by (rule of_int_floor_le) linarith
  then show "of_int (rne x) \<le> x + 1 / 2" "x - 1 / 2 \<le> of_int (rne x)" unfolding rne_def Let_def by (simp_all; linarith)+
qed

lemma rne_int [simp]: "rne (of_int n) = n"
  by (simp add: rne_def Let_def)

lemma rne_lower: "of_int n \<le> x \<Longrightarrow> n \<le> rne x"
proof -
  assume "of_int n \<le> x"
  then have "n \<le> \<lfloor>x\<rfloor>" by (simp add: le_floor_iff)
  then show ?thesis by (auto simp: rne_def Let_def)
qed

lemma rne_upper: "x \<le> of_int n \<Longrightarrow> rne x \<le> n"
proof -
  assume le: "x \<le> of_int n"
  show ?thesis
  proof (cases "x = of_int n")
    case False
    with le have "x < of_int n" by simp
    then have "\<lfloor>x\<rfloor> < n" by (simp add: floor_less_iff)
    then show ?thesis by (auto simp: rne_def Let_def)
  qed simp
qed

lemma floorlog_powi:
  assumes "0 < a" "1 < b"
  shows "of_nat b powi (int (floorlog b a) - 1) \<le> (of_nat a :: rat)" "(of_nat a :: rat) < of_nat b powi int (floorlog b a)"
proof -
  have "a \<noteq> 0" using assms by simp
  then have f: "b ^ (floorlog b a - 1) \<le> a" "a < b ^ floorlog b a" using floorlog_bounds [of a b] assms(2) by auto
  have "1 \<le> floorlog b a" using assms by (simp add: floorlog_def)
  then have "int (floorlog b a) - 1 = int (floorlog b a - 1)" by simp
  then show "of_nat b powi (int (floorlog b a) - 1) \<le> (of_nat a :: rat)"
    using f(1) by (simp only: power_int_of_nat) (metis of_nat_le_iff of_nat_power)
  show "(of_nat a :: rat) < of_nat b powi int (floorlog b a)"
    using f(2) by (simp only: power_int_of_nat) (metis of_nat_less_iff of_nat_power)
qed

lemma ilog_bounds:
  assumes "0 < x" "1 < b"
  shows "of_nat b powi ilog b x \<le> x" "x < of_nat b powi (ilog b x + 1)"
proof -
  obtain n d where q: "quotient_of x = (n, d)" by fastforce
  have d: "0 < d" using quotient_of_denom_pos [OF q] .
  have x: "x = of_int n / of_int d" using quotient_of_div [OF q] .
  have n: "0 < n" using assms(1) d x by (simp add: zero_less_divide_iff)
  let ?N = "of_nat (nat n) :: rat" and ?D = "of_nat (nat d) :: rat" and ?b = "of_nat b :: rat"
  have b0: "?b \<noteq> 0" "0 \<le> ?b" using assms(2) by simp_all
  note pow = power_int_add [OF disjI1 [OF b0(1)], symmetric]
  have xa: "x = ?N / ?D" using n d x by simp
  define ln ld where "ln = int (floorlog b (nat n))" and "ld = int (floorlog b (nat d))"
  have N: "?b powi (ln - 1) \<le> ?N" "?N < ?b powi ln" and D: "?b powi (ld - 1) \<le> ?D" "?D < ?b powi ld"
    unfolding ln_def ld_def using floorlog_powi [of "nat n" b] floorlog_powi [of "nat d" b] n d assms(2) by simp_all
  have pD: "0 < ?D" using d by simp
  have up: "x < ?b powi (ln - ld + 1)"
  proof -
    have "?N < ?b powi (ln - ld + 1) * ?b powi (ld - 1)" using N(2) by (simp add: pow)
    also have "\<dots> \<le> ?b powi (ln - ld + 1) * ?D" using D(1) b0 by (intro mult_left_mono) simp_all
    finally show ?thesis using pD by (simp add: xa divide_less_eq)
  qed
  have lo: "?b powi (ln - ld - 1) \<le> x"
  proof -
    have "?b powi (ln - ld - 1) * ?D \<le> ?b powi (ln - ld - 1) * ?b powi ld" using D(2) b0 by (intro mult_left_mono) simp_all
    also have "\<dots> = ?b powi (ln - 1)" by (simp add: pow)
    also have "\<dots> \<le> ?N" by (rule N(1))
    finally show ?thesis using pD by (simp add: xa le_divide_eq)
  qed
  have "ilog b x = (if ?b powi (ln - ld) \<le> x then ln - ld else ln - ld - 1)"
    by (simp add: ilog_def q Let_def ln_def ld_def)
  then show "?b powi ilog b x \<le> x" "x < ?b powi (ilog b x + 1)"
    using up lo by (auto simp: not_le)
qed

lemma ilog_unique:
  assumes "0 < x" "1 < b" "of_nat b powi k \<le> x" "x < of_nat b powi (k + 1)"
  shows "ilog b x = k"
proof -
  have b: "(1 :: rat) < of_nat b" using assms(2) by simp
  have "of_nat b powi k < (of_nat b powi (ilog b x + 1) :: rat)" "of_nat b powi ilog b x < (of_nat b powi (k + 1) :: rat)"
    using ilog_bounds [OF assms(1,2)] assms(3,4) by linarith+
  then have "k < ilog b x + 1" "ilog b x < k + 1" using b by (meson not_le power_int_increasing less_imp_le)+
  then show ?thesis by simp
qed

lemma last_bit_bounds:
  assumes "0 < x"
  shows "2 powi (last_bit x + 52) \<le> x" "x < 2 powi (last_bit x + 53)"
  using ilog_bounds [OF assms, of 2] by (simp_all add: last_bit_def add.commute)

section \<open>What rounding guarantees\<close>

text \<open>Integers of up to 53 bits are represented exactly, rounding does not cross them, and the relative error is at most \<open>2 powi -53\<close>.\<close>

locale rounded =
  fixes r :: "rat \<Rightarrow> rat"
  assumes exact: "\<bar>n\<bar> \<le> 2 ^ 53 \<Longrightarrow> r (of_int n) = of_int n"
    and lower: "\<bar>n\<bar> \<le> 2 ^ 53 \<Longrightarrow> of_int n \<le> x \<Longrightarrow> of_int n \<le> r x"
    and upper: "\<bar>n\<bar> \<le> 2 ^ 53 \<Longrightarrow> x \<le> of_int n \<Longrightarrow> r x \<le> of_int n"
    and error: "\<bar>r x - x\<bar> \<le> \<bar>x\<bar> / 2 ^ 53"
begin

lemma exact_nat: "n \<le> 2 ^ 53 \<Longrightarrow> r (of_nat n) = of_nat n"
  using exact [of "int n"] by simp

lemma zero [simp]: "r 0 = 0"
  using exact [of 0] by simp

lemma nonneg: "0 \<le> x \<Longrightarrow> 0 \<le> r x"
  using lower [of 0 x] by simp

text \<open>Truncation after rounding is off by at most one.\<close>

lemma floor_rounded:
  assumes "0 \<le> x" "x \<le> 2 ^ 52"
  shows "\<lfloor>r x\<rfloor> = \<lfloor>x\<rfloor> \<or> \<lfloor>r x\<rfloor> = \<lfloor>x\<rfloor> + 1"
proof -
  have f: "0 \<le> \<lfloor>x\<rfloor>" "\<lfloor>x\<rfloor> \<le> 2 ^ 52" using assms by (simp_all add: floor_le_iff)
  have "of_int \<lfloor>x\<rfloor> \<le> r x" using f by (intro lower) simp_all
  moreover have "x \<le> of_int (\<lfloor>x\<rfloor> + 1)" by linarith
  then have "r x \<le> of_int (\<lfloor>x\<rfloor> + 1)" using f by (intro upper) simp_all
  ultimately show ?thesis by linarith
qed

end

section \<open>Accumulated errors\<close>

text \<open>\<open>x\<close> differs from the exact value \<open>y\<close> by at most \<open>k\<close> units of the relative error of one rounding.\<close>

definition near :: "rat \<Rightarrow> rat \<Rightarrow> rat \<Rightarrow> bool" where
  "near k x y \<longleftrightarrow> \<bar>x - y\<bar> \<le> k * y / 2 ^ 53"

lemma near_refl [simp]: "near 0 x x"
  by (simp add: near_def)

lemma near_scale:
  assumes "near k x y" "0 \<le> z"
  shows "near k (z * x) (z * y)"
proof -
  have "z * \<bar>x - y\<bar> \<le> z * (k * y / 2 ^ 53)" using assms by (intro mult_left_mono) (simp_all add: near_def)
  moreover have "\<bar>z * x - z * y\<bar> = z * \<bar>x - y\<bar>" using assms(2) by (simp add: abs_mult flip: right_diff_distrib)
  ultimately show ?thesis unfolding near_def by (simp only: mult.left_commute times_divide_eq_right)
qed

lemma near_divide: "near k x y \<Longrightarrow> 0 < z \<Longrightarrow> near k (x / z) (y / z)"
  using near_scale [of k x y "1 / z"] by simp

context rounded
begin

lemma near_round:
  assumes "near k x y" "0 \<le> y" "0 \<le> k" "k \<le> 2 ^ 53"
  shows "near (k + 2) (r x) y"
proof -
  have "\<bar>x\<bar> \<le> y + k * y / 2 ^ 53" using assms(1,2) unfolding near_def by linarith
  also have "\<dots> \<le> y + y" using assms(2,4) mult_right_mono [OF assms(4,2)] by simp
  finally have "\<bar>x\<bar> / 2 ^ 53 \<le> 2 * y / 2 ^ 53" by simp
  then have "\<bar>r x - x\<bar> \<le> 2 * y / 2 ^ 53" using error [of x] by linarith
  then have "\<bar>r x - y\<bar> \<le> k * y / 2 ^ 53 + 2 * y / 2 ^ 53" using assms(1) unfolding near_def by linarith
  then show ?thesis by (simp add: near_def distrib_right add_divide_distrib)
qed

end

section \<open>The rounding function\<close>

lemma rnd_pos: "0 < x \<Longrightarrow> rnd x = of_int (rne (x / 2 powi last_bit x)) * 2 powi last_bit x"
  by (simp add: rnd_def Let_def)

lemma rnd_minus: "rnd (- x) = - rnd x"
  by (simp add: rnd_def Let_def sgn_if)

lemma scaled_bounds:
  assumes "0 < x"
  shows "2 ^ 52 \<le> x / 2 powi last_bit x" "x / 2 powi last_bit x < 2 ^ 53"
proof -
  have p: "0 < (2 powi last_bit x :: rat)" by simp
  show "2 ^ 52 \<le> x / 2 powi last_bit x" using last_bit_bounds(1) [OF assms] p by (simp add: le_divide_eq power_int_add mult.commute)
  show "x / 2 powi last_bit x < 2 ^ 53" using last_bit_bounds(2) [OF assms] p by (simp add: divide_less_eq power_int_add mult.commute)
qed

lemma scaled_int:
  assumes "last_bit x \<le> 0"
  shows "of_int n / (2 powi last_bit x :: rat) = of_int (n * 2 ^ nat (- last_bit x))"
proof -
  have "(2 powi last_bit x :: rat) = 1 / 2 ^ nat (- last_bit x)" using assms by (auto simp: power_int_def divide_simps)
  then show ?thesis by simp
qed

lemma rnd_exact_pos:
  assumes "0 < n" "n \<le> 2 ^ 53"
  shows "rnd (of_int n) = of_int n"
proof -
  let ?x = "of_int n :: rat"
  have x: "0 < ?x" using assms(1) by simp
  show ?thesis
  proof (cases "last_bit ?x \<le> 0")
    case True
    have "rnd ?x = of_int (n * 2 ^ nat (- last_bit ?x)) * 2 powi last_bit ?x" unfolding rnd_pos [OF x] scaled_int [OF True] rne_int ..
    also have "\<dots> = ?x" unfolding scaled_int [OF True, symmetric] by simp
    finally show ?thesis .
  next
    case False
    then have "(2 :: rat) powi 53 \<le> 2 powi (last_bit ?x + 52)" by (intro power_int_increasing) simp_all
    also have "\<dots> \<le> ?x" by (rule last_bit_bounds(1) [OF x])
    also have "?x \<le> 2 ^ 53" using assms(2) by (metis of_int_le_iff of_int_numeral of_int_power)
    finally have e: "?x = 2 ^ 53" using \<open>?x \<le> 2 ^ 53\<close> \<open>2 powi (last_bit ?x + 52) \<le> ?x\<close> \<open>2 powi 53 \<le> 2 powi (last_bit ?x + 52)\<close> by simp
    have "\<not> 2 \<le> last_bit ?x"
    proof
      assume "2 \<le> last_bit ?x"
      then have "(2 :: rat) powi 54 \<le> 2 powi (last_bit ?x + 52)" by (intro power_int_increasing) simp_all
      then show False using last_bit_bounds(1) [OF x] unfolding e by simp
    qed
    then have lb: "last_bit ?x = 1" using False by simp
    have "?x / 2 powi 1 = of_int (2 ^ 52)" unfolding e by simp
    then have "rnd ?x = of_int (2 ^ 52) * 2 powi 1" unfolding rnd_pos [OF x] lb by (simp only: rne_int)
    then show ?thesis unfolding e by simp
  qed
qed

lemma rnd_lower_pos:
  assumes "0 < x" "n \<le> 2 ^ 53" "of_int n \<le> x"
  shows "of_int n \<le> rnd x"
proof (cases "last_bit x \<le> 0")
  case True
  let ?u = "2 powi last_bit x :: rat"
  have u: "0 < ?u" by simp
  have "of_int n / ?u \<le> x / ?u" using assms(3) u by (simp add: divide_right_mono)
  then have "n * 2 ^ nat (- last_bit x) \<le> rne (x / ?u)" unfolding scaled_int [OF True] by (rule rne_lower)
  then have "(of_int (n * 2 ^ nat (- last_bit x)) :: rat) \<le> of_int (rne (x / ?u))" by (simp only: of_int_le_iff)
  then have "of_int n / ?u * ?u \<le> of_int (rne (x / ?u)) * ?u" unfolding scaled_int [OF True, symmetric] using u by (intro mult_right_mono) simp_all
  then show ?thesis unfolding rnd_pos [OF assms(1)] by simp
next
  case False
  let ?u = "2 powi last_bit x :: rat"
  have "(2 :: rat) powi 1 \<le> ?u" using False by (intro power_int_increasing) simp_all
  moreover have "2 ^ 52 \<le> rne (x / ?u)" using scaled_bounds(1) [OF assms(1)] by (intro rne_lower) simp
  then have "(of_int (2 ^ 52) :: rat) \<le> of_int (rne (x / ?u))" by (simp only: of_int_le_iff)
  ultimately have "(2 ^ 52 * 2 :: rat) \<le> of_int (rne (x / ?u)) * ?u" by (intro mult_mono) simp_all
  moreover have "(of_int n :: rat) \<le> 2 ^ 53" using assms(2) by (metis of_int_le_iff of_int_numeral of_int_power)
  ultimately show ?thesis unfolding rnd_pos [OF assms(1)] by simp
qed

lemma rnd_upper_pos:
  assumes "0 < x" "n \<le> 2 ^ 53" "x \<le> of_int n"
  shows "rnd x \<le> of_int n"
proof (cases "last_bit x \<le> 0")
  case True
  let ?u = "2 powi last_bit x :: rat"
  have u: "0 < ?u" by simp
  have "x / ?u \<le> of_int n / ?u" using assms(3) u by (simp add: divide_right_mono)
  then have "rne (x / ?u) \<le> n * 2 ^ nat (- last_bit x)" unfolding scaled_int [OF True] by (rule rne_upper)
  then have "(of_int (rne (x / ?u)) :: rat) \<le> of_int (n * 2 ^ nat (- last_bit x))" by (simp only: of_int_le_iff)
  then have "of_int (rne (x / ?u)) * ?u \<le> of_int n / ?u * ?u" unfolding scaled_int [OF True, symmetric] using u by (intro mult_right_mono) simp_all
  then show ?thesis unfolding rnd_pos [OF assms(1)] by simp
next
  case False
  then have "(2 :: rat) powi 53 \<le> 2 powi (last_bit x + 52)" by (intro power_int_increasing) simp_all
  then have "2 ^ 53 \<le> x" using last_bit_bounds(1) [OF assms(1)] by simp
  moreover have "(of_int n :: rat) \<le> 2 ^ 53" using assms(2) by (metis of_int_le_iff of_int_numeral of_int_power)
  ultimately have x: "x = of_int n" using assms(3) by simp
  then have "0 < n" using assms(1) by simp
  then show ?thesis using rnd_exact_pos assms(2) x by simp
qed

lemma rnd_error_pos:
  assumes "0 < x"
  shows "\<bar>rnd x - x\<bar> \<le> x / 2 ^ 53"
proof -
  let ?u = "2 powi last_bit x :: rat"
  have u: "0 < ?u" by simp
  have "\<bar>of_int (rne (x / ?u)) - x / ?u\<bar> \<le> 1 / 2" using rne_bounds [of "x / ?u"] by linarith
  then have "\<bar>of_int (rne (x / ?u)) - x / ?u\<bar> * ?u \<le> 1 / 2 * ?u" using u by (intro mult_right_mono) simp_all
  moreover have "\<bar>of_int (rne (x / ?u)) - x / ?u\<bar> * ?u = \<bar>rnd x - x\<bar>"
    unfolding rnd_pos [OF assms] using u by (simp add: abs_mult_pos left_diff_distrib)
  moreover have "2 ^ 52 * ?u \<le> x" using last_bit_bounds(1) [OF assms] by (simp add: power_int_add mult.commute)
  ultimately show ?thesis by simp
qed

interpretation ieee: rounded rnd
proof
  show "rnd (of_int n) = of_int n" if "\<bar>n\<bar> \<le> 2 ^ 53" for n
  proof (cases n "0 :: int" rule: linorder_cases)
    case less
    then have "rnd (- of_int n) = - of_int n" using rnd_exact_pos [of "- n"] that by simp
    then show ?thesis by (simp add: rnd_minus)
  qed (use that rnd_exact_pos in \<open>auto simp: rnd_def\<close>)
  show "of_int n \<le> rnd x" if "\<bar>n\<bar> \<le> 2 ^ 53" "of_int n \<le> x" for n x
  proof (cases x "0 :: rat" rule: linorder_cases)
    case less
    then have "rnd (- x) \<le> of_int (- n)" using rnd_upper_pos [of "- x" "- n"] that by simp
    then show ?thesis by (simp add: rnd_minus)
  qed (use that rnd_lower_pos in \<open>auto simp: rnd_def\<close>)
  show "rnd x \<le> of_int n" if "\<bar>n\<bar> \<le> 2 ^ 53" "x \<le> of_int n" for n x
  proof (cases x "0 :: rat" rule: linorder_cases)
    case less
    then have "of_int (- n) \<le> rnd (- x)" using rnd_lower_pos [of "- x" "- n"] that by simp
    then show ?thesis by (simp add: rnd_minus)
  qed (use that rnd_upper_pos in \<open>auto simp: rnd_def\<close>)
  show "\<bar>rnd x - x\<bar> \<le> \<bar>x\<bar> / 2 ^ 53" for x
  proof (cases x "0 :: rat" rule: linorder_cases)
    case less
    then have "\<bar>rnd (- x) - - x\<bar> \<le> - x / 2 ^ 53" using rnd_error_pos [of "- x"] by simp
    then show ?thesis using less by (simp add: rnd_minus)
  qed (use rnd_error_pos in \<open>auto simp: rnd_def\<close>)
qed

section \<open>Operations\<close>

definition dadd :: "rat \<Rightarrow> rat \<Rightarrow> rat" where "dadd x y = rnd (x + y)"
definition dsub :: "rat \<Rightarrow> rat \<Rightarrow> rat" where "dsub x y = rnd (x - y)"
definition dmul :: "rat \<Rightarrow> rat \<Rightarrow> rat" where "dmul x y = rnd (x * y)"

text \<open>A division by zero gives an infinity or a NaN; both are faults here.\<close>

definition ddiv :: "rat \<Rightarrow> rat \<Rightarrow> rat result" where
  "ddiv x y = (if y = 0 then Inl DivByZero else Inr (rnd (x / y)))"

definition of_u64 :: "u64 \<Rightarrow> rat" where
  "of_u64 w = rnd (of_nat (unat w))"

text \<open>The conversion to \<open>uint64_t\<close> truncates; out of range it is undefined.\<close>

definition to_u64 :: "rat \<Rightarrow> u64 result" where
  "to_u64 x = (if - 1 < x \<and> x < 2 ^ 64 then Inr (of_int (if x < 0 then 0 else \<lfloor>x\<rfloor>)) else Inl SignedOverflow)"

lemma unat_of_floor:
  assumes "0 \<le> x" "x < 2 ^ 64"
  shows "\<exists>w. to_u64 x = Inr w \<and> int (unat w) = \<lfloor>x\<rfloor>"
proof -
  have f: "0 \<le> \<lfloor>x\<rfloor>" "\<lfloor>x\<rfloor> < 2 ^ 64" using assms by (simp_all add: floor_less_iff)
  have "uint (of_int \<lfloor>x\<rfloor> :: u64) = \<lfloor>x\<rfloor>" using f by (simp add: uint_word_of_int)
  then have "int (unat (of_int \<lfloor>x\<rfloor> :: u64)) = \<lfloor>x\<rfloor>" by simp
  then show ?thesis using assms by (simp add: to_u64_def)
qed

lemma to_u64_int: "0 \<le> n \<Longrightarrow> n < 2 ^ 64 \<Longrightarrow> \<exists>w. to_u64 (of_int n) = Inr w \<and> uint w = n"
  using unat_of_floor [of "of_int n"] by simp

end
