(* ===== verification/CycleClock.thy ===== *)
theory CycleClock
  imports Double UTime
begin

text \<open>
  \<open>Cycles\<close> (\<open>src/src/common/common_time.h\<close>): measuring the rate of the time stamp counter, converting between cycles and time, busy
  waiting, and the time stamps in microseconds; and \<open>TimeAverageLoggerTerm\<close> (\<open>statistic.h\<close>), which prints a rate with them. The readings
  of the clock and of the counter are arguments: a list of what successive calls return. A loop that has used up the list is
  still running (\<open>None\<close>).
\<close>

section \<open>Time stamps\<close>

text \<open>\<open>1e6\<close> is a \<open>double\<close>: the products and sums are floating-point operations.\<close>

definition get_soft_timestamp_us :: "timeval \<Rightarrow> u64 result" where
  "get_soft_timestamp_us tv = to_u64 (dadd (dmul (rnd (of_int (tv_sec tv))) 1000000) (rnd (of_int (tv_usec tv))))"

definition get_soft_timestamp_ns :: "timespec \<Rightarrow> u64 result" where
  "get_soft_timestamp_ns ts =
     rbind (ddiv (rnd (of_int (ts_nsec ts))) 1000) (\<lambda>x. to_u64 (dadd (dmul (rnd (of_int (ts_sec ts))) 1000000) x))"

section \<open>The rate of the counter\<close>

text \<open>\<open>micros\<close> is unsigned: a clock that was set back gives a huge value.\<close>

definition micros_between :: "timeval \<Rightarrow> timeval \<Rightarrow> u64" where
  "micros_between start stop = of_int ((tv_usec stop - tv_usec start) + (tv_sec stop - tv_sec start) * 1000000)"

text \<open>The inner loop: readings of \<open>gettimeofday\<close>, \<open>None\<close> when it failed, and of the counter.\<close>

fun measure_rate :: "timeval \<Rightarrow> u64 \<Rightarrow> (timeval option \<times> u64) list \<Rightarrow> rat result option" where
  "measure_rate start sc [] = None"
| "measure_rate start sc ((None, c) # rs) = Some (Inl AbortCall)"
| "measure_rate start sc ((Some stop, c) # rs) =
     (let micros = micros_between start stop in
      if micros > 10000 then Some (ddiv (dmul 1000000 (of_u64 (c - sc))) (of_u64 micros))
      else measure_rate start sc rs)"

text \<open>The outer loop, until two measurements agree within a thousandth.\<close>

fun init_loop :: "rat \<Rightarrow> (timeval option \<times> u64 \<times> (timeval option \<times> u64) list) list \<Rightarrow> rat result option" where
  "init_loop old [] = None"
| "init_loop old ((None, sc, rd) # rs) = Some (Inl AbortCall)"
| "init_loop old ((Some start, sc, rd) # rs) =
     obind (measure_rate start sc rd) (\<lambda>cps.
     obind (Some (ddiv cps 1000)) (\<lambda>delta.
       if old > dsub cps delta \<and> old < dadd cps delta then Some (Inr cps) else init_loop cps rs))"

definition cycles_init :: "rat \<Rightarrow> u64 \<Rightarrow> (timeval option \<times> u64 \<times> (timeval option \<times> u64) list) list \<Rightarrow> rat result option" where
  "cycles_init cps tsc rs = (if cps \<noteq> 0 then Some (Inr cps) else if tsc = 0 then Some (Inr cps) else init_loop 0 rs)"

section \<open>Conversions\<close>

text \<open>\<open>g\<close> is the measured rate; \<open>p\<close> the argument, 0 for the measured one.\<close>

definition cycle_rate :: "rat \<Rightarrow> rat \<Rightarrow> rat" where
  "cycle_rate g p = (if p = 0 then g else p)"

definition cycles_to_seconds :: "rat \<Rightarrow> u64 \<Rightarrow> rat \<Rightarrow> rat result" where
  "cycles_to_seconds g c p = ddiv (of_u64 c) (cycle_rate g p)"

definition cycles_from_seconds :: "rat \<Rightarrow> rat \<Rightarrow> rat \<Rightarrow> u64 result" where
  "cycles_from_seconds g s p = to_u64 (dadd (dmul s (cycle_rate g p)) (1 / 2))"

definition to_nanoseconds :: "rat \<Rightarrow> u64 \<Rightarrow> rat \<Rightarrow> u64 result" where
  "to_nanoseconds g c p = rbind (ddiv (dmul 1000000000 (of_u64 c)) (cycle_rate g p)) (\<lambda>x. to_u64 (dadd x (1 / 2)))"

definition to_microseconds :: "rat \<Rightarrow> u64 \<Rightarrow> rat \<Rightarrow> u64 result" where
  "to_microseconds g c p = rbind (to_nanoseconds g c p) (\<lambda>n. Inr (n div 1000))"

definition from_nanoseconds :: "rat \<Rightarrow> u64 \<Rightarrow> rat \<Rightarrow> u64 result" where
  "from_nanoseconds g ns p = rbind (ddiv (dmul (of_u64 ns) (cycle_rate g p)) 1000000000) (\<lambda>x. to_u64 (dadd x (1 / 2)))"

text \<open>\<open>sleep\<close>: the reading with which the loop ends.\<close>

fun spin_until :: "u64 \<Rightarrow> u64 list \<Rightarrow> u64 option" where
  "spin_until stop [] = None"
| "spin_until stop (c # cs) = (if c < stop then spin_until stop cs else Some c)"

definition cycles_sleep :: "rat \<Rightarrow> u64 \<Rightarrow> u64 \<Rightarrow> u64 list \<Rightarrow> u64 result option" where
  "cycles_sleep g us tsc cs =
     obind (Some (from_nanoseconds g (1000 * us) 0)) (\<lambda>n. map_option Inr (spin_until (tsc + n) cs))"

section \<open>The rate logger\<close>

record rate_term =
  rt_duration :: u64
  rt_sum :: u64
  rt_last_cycle :: u64
  rt_output :: "rat result list"

text \<open>\<open>last_cycle\<close> has no initial value: \<open>junk\<close> is what the memory holds.\<close>

definition rate_term_new :: "u64 \<Rightarrow> u64 \<Rightarrow> rate_term" where
  "rate_term_new duration junk = \<lparr>rt_duration = duration, rt_sum = 0, rt_last_cycle = junk, rt_output = []\<rparr>"

definition rate_add :: "u64 \<Rightarrow> rate_term \<Rightarrow> rate_term" where
  "rate_add v t = t\<lparr>rt_sum := rt_sum t + v\<rparr>"

definition set_logger_interval :: "u64 \<Rightarrow> rate_term \<Rightarrow> rate_term" where
  "set_logger_interval v t = t\<lparr>rt_duration := v\<rparr>"

text \<open>One turn of \<open>DoOutput\<close> up to the sleep; what is printed is kept, \<open>Inl\<close> standing for an infinity or a NaN (no microsecond has
  passed).\<close>

definition rate_value :: "u64 \<Rightarrow> u64 \<Rightarrow> rat result" where
  "rate_value amount us = rbind (ddiv (dmul (of_u64 amount) 8) (of_u64 us)) (\<lambda>a. ddiv a 1000)"

definition do_output :: "rat \<Rightarrow> u64 \<Rightarrow> rate_term \<Rightarrow> rate_term result" where
  "do_output g now t =
     rbind (to_microseconds g (now - rt_last_cycle t) 0) (\<lambda>us.
       Inr (t\<lparr>rt_output := rt_output t @ [rate_value (rt_sum t) us], rt_sum := 0, rt_last_cycle := now\<rparr>))"

section \<open>Time stamps are exact\<close>

lemma rnd_nat: "n \<le> 2 ^ 53 \<Longrightarrow> rnd (of_nat n) = of_nat n"
  by (rule ieee.exact_nat)

text \<open>\<open>get_soft_timestamp_us\<close> is exact until the year 2255: although it computes with doubles, the result is the number of microseconds.\<close>

theorem timestamp_us_exact:
  assumes "0 \<le> tv_sec tv" "tv_sec tv < 9007199254" "0 \<le> tv_usec tv" "tv_usec tv < 1000000"
  shows "\<exists>w. get_soft_timestamp_us tv = Inr w \<and> uint w = tv_sec tv * 1000000 + tv_usec tv"
proof -
  let ?n = "tv_sec tv * 1000000 + tv_usec tv"
  have e: "rnd (of_int (tv_sec tv)) = of_int (tv_sec tv)" "rnd (of_int (tv_usec tv)) = of_int (tv_usec tv)"
    "rnd (of_int (tv_sec tv * 1000000)) = of_int (tv_sec tv * 1000000)" "rnd (of_int ?n) = of_int ?n"
    using assms by (intro ieee.exact; simp)+
  have "dadd (dmul (rnd (of_int (tv_sec tv))) 1000000) (rnd (of_int (tv_usec tv))) = of_int ?n"
    using e by (simp add: dadd_def dmul_def)
  moreover have "0 \<le> ?n" "?n < 2 ^ 64" using assms by simp_all
  ultimately show ?thesis using to_u64_int [of ?n] by (simp add: get_soft_timestamp_us_def)
qed

text \<open>\<open>get_soft_timestamp_ns\<close> does not return nanoseconds: the result is the number of microseconds, cut off or one more.\<close>

theorem timestamp_ns_is_us:
  assumes "0 \<le> ts_sec ts" "ts_sec ts < 4000000000" "0 \<le> ts_nsec ts" "ts_nsec ts < 1000000000"
  shows "\<exists>w. get_soft_timestamp_ns ts = Inr w \<and>
    (uint w = ts_sec ts * 1000000 + ts_nsec ts div 1000 \<or> uint w = ts_sec ts * 1000000 + ts_nsec ts div 1000 + 1)"
proof -
  let ?q = "ts_nsec ts div 1000" and ?s = "ts_sec ts * 1000000"
  let ?x = "rnd (of_int (ts_nsec ts) / 1000)" let ?y = "rnd (of_int ?s + ?x)"
  have e: "rnd (of_int (ts_sec ts)) = of_int (ts_sec ts)" "rnd (of_int (ts_nsec ts)) = of_int (ts_nsec ts)" "rnd (of_int ?s) = of_int ?s"
    using assms by (intro ieee.exact; simp)+
  have q: "of_int ?q \<le> (of_int (ts_nsec ts) / 1000 :: rat)" "(of_int (ts_nsec ts) / 1000 :: rat) \<le> of_int (?q + 1)"
    using floor_divide_of_int_eq [of "ts_nsec ts" 1000, where 'a = rat] by linarith+
  have qb: "0 \<le> ?q" "?q < 1000000" using assms by simp_all
  have x: "of_int ?q \<le> ?x" "?x \<le> of_int (?q + 1)" using q qb by (intro ieee.lower ieee.upper; simp)+
  have y: "of_int (?s + ?q) \<le> ?y" "?y \<le> of_int (?s + (?q + 1))" using x qb assms by (intro ieee.lower ieee.upper; simp)+
  have "(of_int (?s + (?q + 1)) :: rat) < of_int (2 ^ 64)" using assms qb by (subst of_int_less_iff) simp
  moreover have "(0 :: rat) \<le> of_int (?s + ?q)" using assms qb by simp
  ultimately have "0 \<le> ?y" "?y < 2 ^ 64" using y by simp_all
  then obtain w where w: "to_u64 ?y = Inr w" "int (unat w) = \<lfloor>?y\<rfloor>" using unat_of_floor by blast
  have "get_soft_timestamp_ns ts = to_u64 ?y" using e by (simp add: get_soft_timestamp_ns_def ddiv_def dadd_def dmul_def)
  moreover have "\<lfloor>?y\<rfloor> = ?s + ?q \<or> \<lfloor>?y\<rfloor> = ?s + ?q + 1" using y by linarith
  ultimately show ?thesis using w by auto
qed

section \<open>A steady counter is measured exactly\<close>

text \<open>The readings of a counter that runs at \<open>f\<close> cycles per microsecond, up to the one that ends the loop.\<close>

fun steady :: "nat \<Rightarrow> timeval \<Rightarrow> u64 \<Rightarrow> (timeval option \<times> u64) list \<Rightarrow> bool" where
  "steady f start sc [] = False"
| "steady f start sc ((None, c) # rs) = False"
| "steady f start sc ((Some stop, c) # rs) =
     (let m = micros_between start stop in
      if m > 10000 then unat (c - sc) = f * unat m \<and> 1000000 * (f * unat m) \<le> 2 ^ 53 else steady f start sc rs)"

lemma measure_steady:
  assumes "steady f start sc rs" "0 < f"
  shows "measure_rate start sc rs = Some (Inr (of_nat (1000000 * f)))"
  using assms
proof (induction start sc rs rule: measure_rate.induct)
  case (3 start sc stop c rs)
  let ?m = "micros_between start stop"
  show ?case
  proof (cases "?m > 10000")
    case True
    then have c: "unat (c - sc) = f * unat ?m" "1000000 * (f * unat ?m) \<le> 2 ^ 53" using "3.prems" by (simp_all add: Let_def)
    have m: "10000 < unat ?m" using True by (simp add: word_less_nat_alt)
    have le: "unat ?m \<le> f * unat ?m" "f \<le> f * unat ?m" using assms(2) m by simp_all
    have e: "of_u64 ?m = of_nat (unat ?m)" "of_u64 (c - sc) = of_nat (f * unat ?m)" "rnd (of_nat (1000000 * (f * unat ?m))) = of_nat (1000000 * (f * unat ?m))"
      "rnd (of_nat (1000000 * f)) = of_nat (1000000 * f)"
      unfolding of_u64_def c(1) using c(2) le by (intro rnd_nat; linarith)+
    have "dmul 1000000 (of_u64 (c - sc)) = rnd (of_nat (1000000 * (f * unat ?m)))" unfolding dmul_def e(2) by simp
    then have d: "dmul 1000000 (of_u64 (c - sc)) = of_nat (1000000 * (f * unat ?m))" by (simp only: e(3))
    have "(of_nat (1000000 * (f * k)) / of_nat k :: rat) = of_nat (1000000 * f)" if "0 < k" for k :: nat using that by simp
    from this [of "unat ?m"] m have "(of_nat (1000000 * (f * unat ?m)) / of_nat (unat ?m) :: rat) = of_nat (1000000 * f)" by linarith
    then have "ddiv (dmul 1000000 (of_u64 (c - sc))) (of_u64 ?m) = Inr (of_nat (1000000 * f))"
      unfolding ddiv_def d e(1) using m e(4) by (simp only: of_nat_eq_0_iff) simp
    then show ?thesis using True by (simp add: Let_def)
  next
    case False
    then show ?thesis using 3 assms(2) by (simp add: Let_def)
  qed
qed simp_all

text \<open>\<open>Cycles::init\<close> measures a steady counter exactly and returns after two measurements: when the counter runs at \<open>f\<close> cycles per microsecond
  in both, the rate is \<open>f\<close> million cycles per second, without a rounding error.\<close>

theorem cycles_init_exact:
  assumes "0 < f" "tsc \<noteq> 0" "steady f st1 sc1 rd1" "steady f st2 sc2 rd2"
  shows "cycles_init 0 tsc ((Some st1, sc1, rd1) # (Some st2, sc2, rd2) # rs) = Some (Inr (of_nat (1000000 * f)))"
proof -
  have "\<exists>m. 10000 < unat (m :: u64) \<and> 1000000 * (f * unat m) \<le> 2 ^ 53"
    using assms(3) by (induction f st1 sc1 rd1 rule: steady.induct) (auto simp: Let_def word_less_nat_alt split: if_splits)
  then obtain m :: u64 where m: "10000 < unat m" "1000000 * (f * unat m) \<le> 2 ^ 53" by blast
  have "1000000 * (f * 10000) \<le> 1000000 * (f * unat m)" using m(1) by (intro mult_left_mono) simp_all
  then have f: "1000000 * (f * 10000) \<le> 2 ^ 53" using m(2) by (rule order_trans)
  let ?c = "of_nat (1000000 * f) :: rat"
  have e: "rnd (of_nat (1000 * f)) = of_nat (1000 * f)" "rnd (of_nat (999000 * f)) = of_nat (999000 * f)" "rnd (of_nat (1001000 * f)) = of_nat (1001000 * f)"
    using f by (intro rnd_nat; simp)+
  have "?c / 1000 = of_nat (1000 * f)" by simp
  then have delta: "ddiv ?c 1000 = Inr (of_nat (1000 * f))" using e(1) by (simp only: ddiv_def) simp
  have "?c - of_nat (1000 * f) = of_nat (999000 * f)" "?c + of_nat (1000 * f) = of_nat (1001000 * f)" by simp_all
  then have lim: "dsub ?c (of_nat (1000 * f)) = of_nat (999000 * f)" "dadd ?c (of_nat (1000 * f)) = of_nat (1001000 * f)"
    unfolding dsub_def dadd_def using e(2,3) by (simp_all only:)
  have "init_loop 0 ((Some st1, sc1, rd1) # (Some st2, sc2, rd2) # rs) = Some (Inr ?c)"
    using assms(1) by (simp add: measure_steady [OF assms(3,1)] measure_steady [OF assms(4,1)] delta lim del: of_nat_mult)
  then show ?thesis using assms(2) by (simp add: cycles_init_def)
qed

section \<open>Conversions are accurate\<close>

lemma scaled_near:
  assumes "0 \<le> z" "0 < v"
  shows "near 6 (rnd (rnd (z * rnd (of_nat n)) / v)) (z * of_nat n / v)"
proof -
  have "near 2 (rnd (of_nat n)) (of_nat n)" using ieee.near_round [of 0 "of_nat n" "of_nat n"] by simp
  then have "near 2 (z * rnd (of_nat n)) (z * of_nat n)" using assms(1) by (rule near_scale)
  then have "near (2 + 2) (rnd (z * rnd (of_nat n))) (z * of_nat n)" by (rule ieee.near_round) (use assms(1) in simp_all)
  then have "near (2 + 2) (rnd (z * rnd (of_nat n)) / v) (z * of_nat n / v)" using assms(2) by (rule near_divide)
  then have "near (2 + 2 + 2) (rnd (rnd (z * rnd (of_nat n)) / v)) (z * of_nat n / v)" by (rule ieee.near_round) (use assms in simp_all)
  then show ?thesis by simp
qed

lemma scaled_accurate:
  assumes "0 \<le> z" "0 < v" "z * of_nat k / v \<le> 2 ^ 48"
  shows "\<exists>n. to_u64 (dadd (rnd (rnd (z * rnd (of_nat k)) / v)) (1 / 2)) = Inr n \<and> \<bar>of_nat (unat n) - z * of_nat k / v\<bar> < 1"
proof -
  let ?x = "z * of_nat k / v" let ?q = "rnd (rnd (z * rnd (of_nat k)) / v)" let ?s = "rnd (?q + 1 / 2)"
  have x: "0 \<le> ?x" using assms by simp
  have q: "\<bar>?q - ?x\<bar> \<le> 6 * ?x / 2 ^ 53" using scaled_near [OF assms(1,2), of k] unfolding near_def .
  have small: "6 * y / 2 ^ 53 \<le> 1 / 4" if "y \<le> 2 ^ 48" for y :: rat using that by simp
  have tiny: "y / 2 ^ 53 \<le> 1 / 8" if "y \<le> 2 ^ 48 + 1" for y :: rat using that by simp
  have q': "\<bar>?q - ?x\<bar> \<le> 1 / 4" using q small [OF assms(3)] by linarith
  then have "\<bar>?q + 1 / 2\<bar> \<le> 2 ^ 48 + 1" using x assms(3) by linarith
  then have "\<bar>?q + 1 / 2\<bar> / 2 ^ 53 \<le> 1 / 8" by (rule tiny)
  then have s: "\<bar>?s - (?q + 1 / 2)\<bar> \<le> 1 / 8" using ieee.error [of "?q + 1 / 2"] by linarith
  have "0 \<le> ?s" "?s \<le> 2 ^ 48 + 1" using s q' x assms(3) by linarith+
  then have "0 \<le> ?s" "?s < 2 ^ 64" by simp_all
  then obtain n where n: "to_u64 ?s = Inr n" "int (unat n) = \<lfloor>?s\<rfloor>" using unat_of_floor by blast
  have "(of_nat (unat n) :: rat) = of_int \<lfloor>?s\<rfloor>" using n(2) by (metis of_int_of_nat_eq)
  moreover have "of_int \<lfloor>?s\<rfloor> \<le> ?s" "?s < of_int \<lfloor>?s\<rfloor> + 1" by (rule of_int_floor_le) linarith
  ultimately have "\<bar>of_nat (unat n) - ?x\<bar> < 1" using s q' by linarith
  then show ?thesis using n(1) unfolding dadd_def by blast
qed

lemma to_nanoseconds_close:
  assumes "0 < cycle_rate g p" "10 ^ 9 * of_nat (unat c) / cycle_rate g p \<le> 2 ^ 48"
  shows "\<exists>n. to_nanoseconds g c p = Inr n \<and> \<bar>of_nat (unat n) - 10 ^ 9 * of_nat (unat c) / cycle_rate g p\<bar> < 1"
proof -
  have "to_nanoseconds g c p = to_u64 (dadd (rnd (rnd (10 ^ 9 * rnd (of_nat (unat c))) / cycle_rate g p)) (1 / 2))"
    using assms(1) by (simp add: to_nanoseconds_def ddiv_def dmul_def of_u64_def)
  then show ?thesis using scaled_accurate [of "10 ^ 9" "cycle_rate g p" "unat c"] assms by (simp only:) simp
qed

text \<open>C32: \<open>to_nanoseconds\<close> is accurate to less than a nanosecond, for results up to \<open>2 ^ 48\<close> (78 hours), whatever the rate.\<close>

theorem to_nanoseconds_accurate:
  assumes "0 < cycle_rate g p" "10 ^ 9 * of_nat (unat c) / cycle_rate g p \<le> 2 ^ 48"
  shows "\<exists>n. to_nanoseconds g c p = Inr n \<and> \<bar>of_nat (unat n) - 10 ^ 9 * of_nat (unat c) / cycle_rate g p\<bar> < 1"
  using assms by (rule to_nanoseconds_close)

text \<open>\<open>to_microseconds\<close> does not round, as its comment says: 1999 cycles at a gigahertz are one microsecond.\<close>

theorem to_microseconds_truncates: "to_microseconds 1000000000 1999 0 = Inr 1"
proof -
  obtain n where n: "to_nanoseconds 1000000000 1999 0 = Inr n" "\<bar>of_nat (unat n) - (1999 :: rat)\<bar> < 1"
    using to_nanoseconds_close [of 1000000000 0 1999] by (auto simp: cycle_rate_def)
  have "unat n = 1999" using n(2) by linarith
  then have "n = 1999" by (intro unsigned_word_eqI) simp
  then show ?thesis using n(1) by (simp add: to_microseconds_def)
qed

lemma from_nanoseconds_accurate:
  assumes "0 < cycle_rate g p" "cycle_rate g p * of_nat (unat ns) / 10 ^ 9 \<le> 2 ^ 48"
  shows "\<exists>n. from_nanoseconds g ns p = Inr n \<and> \<bar>of_nat (unat n) - cycle_rate g p * of_nat (unat ns) / 10 ^ 9\<bar> < 1"
proof -
  have "from_nanoseconds g ns p = to_u64 (dadd (rnd (rnd (cycle_rate g p * rnd (of_nat (unat ns))) / 10 ^ 9)) (1 / 2))"
    by (simp add: from_nanoseconds_def ddiv_def dmul_def of_u64_def mult.commute [of "cycle_rate g p"])
  then show ?thesis using scaled_accurate [of "cycle_rate g p" "10 ^ 9" "unat ns"] assms by (simp only:) simp
qed

section \<open>Busy waiting\<close>

lemma spin_until_first:
  assumes "c \<in> set cs" "stop \<le> c"
  shows "\<exists>xs d ys. cs = xs @ d # ys \<and> spin_until stop cs = Some d \<and> stop \<le> d \<and> (\<forall>x\<in>set xs. x < stop)"
  using assms
proof (induction stop cs rule: spin_until.induct)
  case (2 stop c' cs)
  show ?case
  proof (cases "c' < stop")
    case True
    then have "c \<in> set cs" using 2 by auto
    then obtain xs d ys where "cs = xs @ d # ys \<and> spin_until stop cs = Some d \<and> stop \<le> d \<and> (\<forall>x\<in>set xs. x < stop)"
      using "2.IH" [OF True] "2.prems" by blast
    then have "c' # cs = (c' # xs) @ d # ys \<and> spin_until stop (c' # cs) = Some d \<and> stop \<le> d \<and> (\<forall>x\<in>set (c' # xs). x < stop)"
      using True by (metis append_Cons set_ConsD spin_until.simps(2))
    then show ?thesis by blast
  next
    case False
    then have "c' # cs = [] @ c' # cs \<and> spin_until stop (c' # cs) = Some c' \<and> stop \<le> c' \<and> (\<forall>x\<in>set []. x < stop)" by simp
    then show ?thesis by blast
  qed
qed simp

text \<open>\<open>Cycles::sleep\<close> returns once the counter has passed the end of the interval, and not earlier: with \<open>g\<close> cycles per second, at least
  \<open>g * us / 10 ^ 6 - 1\<close> cycles have gone by, and every earlier reading was less than \<open>g * us / 10 ^ 6 + 1\<close> cycles after the start.\<close>

theorem cycles_sleep_waits:
  assumes "0 < g" "1000 * unat us < 2 ^ 64" "g * of_nat (unat us) / 10 ^ 6 \<le> 2 ^ 48" "unat tsc + 2 ^ 49 < 2 ^ 64"
    and "c \<in> set cs" "of_nat (unat tsc) + g * of_nat (unat us) / 10 ^ 6 + 1 \<le> of_nat (unat c)"
  shows "\<exists>xs d ys. cs = xs @ d # ys \<and> cycles_sleep g us tsc cs = Some (Inr d)
    \<and> of_nat (unat tsc) + g * of_nat (unat us) / 10 ^ 6 - 1 < of_nat (unat d)
    \<and> (\<forall>x\<in>set xs. of_nat (unat x) < of_nat (unat tsc) + g * of_nat (unat us) / 10 ^ 6 + 1)"
proof -
  let ?e = "g * of_nat (unat us) / 10 ^ 6"
  have "unat (1000 * us) = 1000 * unat us" using assms(2) by (simp add: unat_word_ariths)
  then have e: "cycle_rate g 0 * of_nat (unat (1000 * us)) / 10 ^ 9 = ?e" by (simp only: cycle_rate_def) simp
  have "0 < cycle_rate g 0" "cycle_rate g 0 * of_nat (unat (1000 * us)) / 10 ^ 9 \<le> 2 ^ 48" unfolding e using assms(1,3) by (simp_all add: cycle_rate_def)
  then obtain n where n: "from_nanoseconds g (1000 * us) 0 = Inr n" "\<bar>of_nat (unat n) - ?e\<bar> < 1"
    using from_nanoseconds_accurate [of g 0 "1000 * us"] unfolding e by blast
  have "(of_nat (unat n) :: rat) < of_nat (2 ^ 48 + 1)" using n(2) assms(3) by simp
  then have "unat n < 2 ^ 48 + 1" by (simp only: of_nat_less_iff)
  then have stop: "unat (tsc + n) = unat tsc + unat n" using assms(4) by (simp add: unat_word_ariths)
  have rel: "of_nat (unat (tsc + n)) = (of_nat (unat tsc) + of_nat (unat n) :: rat)" unfolding stop by (rule of_nat_add)
  have "(of_nat (unat (tsc + n)) :: rat) < of_nat (unat c)" unfolding rel using n(2) assms(6) by linarith
  then have "tsc + n \<le> c" unfolding word_le_nat_alt by (simp only: of_nat_less_iff)
  from spin_until_first [OF assms(5) this] obtain xs d ys where
    d: "cs = xs @ d # ys" "spin_until (tsc + n) cs = Some d" "tsc + n \<le> d" "\<forall>x\<in>set xs. x < tsc + n" by blast
  have "(of_nat (unat (tsc + n)) :: rat) \<le> of_nat (unat d)" using d(3) unfolding word_le_nat_alt by (simp only: of_nat_le_iff)
  then have "of_nat (unat tsc) + ?e - 1 < of_nat (unat d)" unfolding rel using n(2) by linarith
  moreover have "of_nat (unat x) < of_nat (unat tsc) + ?e + 1" if "x \<in> set xs" for x
  proof -
    have "unat x < unat (tsc + n)" using d(4) that word_less_nat_alt by blast
    then have "(of_nat (unat x) :: rat) < of_nat (unat (tsc + n))" by (simp only: of_nat_less_iff)
    then show ?thesis unfolding rel using n(2) by linarith
  qed
  moreover have "cycles_sleep g us tsc cs = Some (Inr d)" using n(1) d(2) by (simp add: cycles_sleep_def)
  ultimately show ?thesis using d(1) by blast
qed

section \<open>The printed rate\<close>

text \<open>A turn of the rate logger prints the sum of eightfold bytes per microsecond, divided by thousand, with a relative error of at most
  eight rounding units, and starts a new window.\<close>

theorem do_output_accurate:
  assumes "to_microseconds g (now - rt_last_cycle t) 0 = Inr us" "0 < unat us" "unat us \<le> 2 ^ 53"
  shows "\<exists>v. do_output g now t = Inr (t\<lparr>rt_output := rt_output t @ [Inr v], rt_sum := 0, rt_last_cycle := now\<rparr>)
    \<and> near 8 v (8 * of_nat (unat (rt_sum t)) / of_nat (unat us) / 1000)"
proof -
  let ?n = "unat (rt_sum t)" let ?e = "8 * of_nat ?n / of_nat (unat us) :: rat"
  let ?q = "rnd (rnd (8 * rnd (of_nat ?n)) / of_nat (unat us))"
  have us: "of_u64 us = of_nat (unat us)" unfolding of_u64_def by (rule rnd_nat [OF assms(3)])
  have pos: "0 < (of_nat (unat us) :: rat)" using assms(2) by (simp only: of_nat_0_less_iff)
  have "dmul (of_u64 (rt_sum t)) 8 = rnd (8 * rnd (of_nat ?n))" by (simp only: dmul_def of_u64_def mult.commute)
  then have a: "ddiv (dmul (of_u64 (rt_sum t)) 8) (of_u64 us) = Inr ?q" unfolding ddiv_def us using pos by (simp only: if_False less_irrefl) auto
  have "near 6 ?q ?e" using pos by (intro scaled_near) simp_all
  then have "near 6 (?q / 1000) (?e / 1000)" by (rule near_divide) simp
  moreover have "0 \<le> 8 * of_nat n / of_nat m / (1000 :: rat)" for n m by simp
  ultimately have "near (6 + 2) (rnd (?q / 1000)) (?e / 1000)" by (rule ieee.near_round) simp_all
  moreover have "rate_value (rt_sum t) us = Inr (rnd (?q / 1000))" unfolding rate_value_def a by (simp add: ddiv_def)
  ultimately show ?thesis using assms(1) by (auto simp: do_output_def)
qed

section \<open>Witnesses\<close>

theorem timestamp_us_exact_witness:
  "\<exists>w. get_soft_timestamp_us \<lparr>tv_sec = 1700000000, tv_usec = 999999\<rparr> = Inr w \<and> uint w = 1700000000999999"
  using timestamp_us_exact [of "\<lparr>tv_sec = 1700000000, tv_usec = 999999\<rparr>"] by simp

theorem timestamp_ns_is_us_witness:
  "\<exists>w. get_soft_timestamp_ns \<lparr>ts_sec = 1700000000, ts_nsec = 999999999\<rparr> = Inr w \<and> (uint w = 1700000000999999 \<or> uint w = 1700000001000000)"
  using timestamp_ns_is_us [of "\<lparr>ts_sec = 1700000000, ts_nsec = 999999999\<rparr>"] by simp

theorem cycles_init_exact_witness:
  "cycles_init 0 5 [(Some \<lparr>tv_sec = 1, tv_usec = 0\<rparr>, 1000, [(Some \<lparr>tv_sec = 1, tv_usec = 500\<rparr>, 1501000), (Some \<lparr>tv_sec = 1, tv_usec = 20000\<rparr>, 60001000)]),
     (Some \<lparr>tv_sec = 1, tv_usec = 20000\<rparr>, 60001000, [(Some \<lparr>tv_sec = 1, tv_usec = 40000\<rparr>, 120001000)])] = Some (Inr 3000000000)"
  using cycles_init_exact [of 3000 5 "\<lparr>tv_sec = 1, tv_usec = 0\<rparr>" 1000 "[(Some \<lparr>tv_sec = 1, tv_usec = 500\<rparr>, 1501000), (Some \<lparr>tv_sec = 1, tv_usec = 20000\<rparr>, 60001000)]"
      "\<lparr>tv_sec = 1, tv_usec = 20000\<rparr>" 60001000 "[(Some \<lparr>tv_sec = 1, tv_usec = 40000\<rparr>, 120001000)]" "[]"]
  by (simp add: micros_between_def Let_def)

theorem to_nanoseconds_accurate_witness:
  "\<exists>n. to_nanoseconds 3000000000 1000000 0 = Inr n \<and> \<bar>of_nat (unat n) - (10 ^ 9 * 1000000 / 3000000000 :: rat)\<bar> < 1"
  using to_nanoseconds_accurate [of 3000000000 0 1000000] by (simp add: cycle_rate_def)

theorem cycles_sleep_waits_witness:
  "\<exists>xs d ys. [1000, 2500, 4001, 4002] = xs @ d # ys \<and> cycles_sleep 3000000 1000 1000 [1000, 2500, 4001, 4002] = Some (Inr d)
    \<and> (3999 :: rat) < of_nat (unat d) \<and> \<not> (\<exists>x\<in>set xs. (4001 :: rat) \<le> of_nat (unat x))"
  using cycles_sleep_waits [of 3000000 1000 1000 4001 "[1000, 2500, 4001, 4002]"] by (simp add: not_le [symmetric])

theorem do_output_accurate_witness:
  "\<exists>v t. do_output 3000000000 3000000 \<lparr>rt_duration = 1000, rt_sum = 125000, rt_last_cycle = 0, rt_output = []\<rparr> = Inr t
    \<and> rt_output t = [Inr v] \<and> near 8 v 1"
proof -
  let ?t = "\<lparr>rt_duration = 1000, rt_sum = 125000, rt_last_cycle = 0, rt_output = []\<rparr>"
  obtain n where n: "to_nanoseconds 3000000000 3000000 0 = Inr n" "\<bar>of_nat (unat n) - (1000000 :: rat)\<bar> < 1"
    using to_nanoseconds_close [of 3000000000 0 3000000] by (auto simp: cycle_rate_def)
  have "unat n = 1000000" using n(2) by linarith
  then have "n = 1000000" by (intro unsigned_word_eqI) simp
  then have "to_microseconds 3000000000 (3000000 - rt_last_cycle ?t) 0 = Inr 1000" using n(1) by (simp add: to_microseconds_def)
  then obtain v where v: "do_output 3000000000 3000000 ?t = Inr (?t\<lparr>rt_output := rt_output ?t @ [Inr v], rt_sum := 0, rt_last_cycle := 3000000\<rparr>)"
    "near 8 v (8 * of_nat (unat (rt_sum ?t)) / of_nat (unat (1000 :: u64)) / 1000)"
    using do_output_accurate [of 3000000000 3000000 ?t 1000] by (simp only: unat_numeral) force
  have "(8 * of_nat (unat (rt_sum ?t)) / of_nat (unat (1000 :: u64)) / 1000 :: rat) = 1" by simp
  then have "near 8 v 1" using v(2) by (simp only:)
  moreover have "rt_output (?t\<lparr>rt_output := rt_output ?t @ [Inr v], rt_sum := 0, rt_last_cycle := 3000000\<rparr>) = [Inr v]" by simp
  ultimately show ?thesis using v(1) by blast
qed

end
