(* ===== verification/TimeDouble.thy ===== *)
theory TimeDouble
  imports Double UTime
begin

text \<open>
  The part of \<open>utime_t\<close> (\<open>src/src/common/common_time.h\<close>) that goes through \<open>double\<close> or through the calendar: \<open>operator double\<close>,
  \<open>set_from_double\<close>, \<open>+=\<close> and \<open>-=\<close> with a number of seconds, and the rounding to a minute, an hour and a day. The arithmetic is that
  of the theory Double; \<open>localtime_r\<close> and \<open>mktime\<close> are arguments.
\<close>

section \<open>Definitions\<close>

definition dtrunc :: "rat \<Rightarrow> int" where
  "dtrunc d = (if d < 0 then \<lceil>d\<rceil> else \<lfloor>d\<rfloor>)"

text \<open>The casts to \<open>uint32_t\<close> and to \<open>long\<close>; out of range they are undefined.\<close>

definition to_u32 :: "rat \<Rightarrow> u32 result" where
  "to_u32 x = (if - 1 < x \<and> x < 2 ^ 32 then Inr (of_int (dtrunc x)) else Inl SignedOverflow)"

definition to_long :: "rat \<Rightarrow> int result" where
  "to_long x = (if - (2 ^ 63) - 1 < x \<and> x < 2 ^ 63 then Inr (dtrunc x) else Inl SignedOverflow)"

text \<open>\<open>1000000000.0f\<close> is exact as a \<open>float\<close>.\<close>

definition utime_to_double :: "utime \<Rightarrow> rat" where
  "utime_to_double t = dadd (rnd (of_nat (unat (u_sec t)))) (rnd (rnd (of_int (nsec t)) / 10 ^ 9))"

definition set_from_double :: "rat \<Rightarrow> utime result" where
  "set_from_double d =
     rbind (to_u32 (of_int (dtrunc d))) (\<lambda>s.
     rbind (to_u32 (dmul (dsub d (rnd (of_nat (unat s)))) (10 ^ 9))) (\<lambda>n. Inr \<lparr>u_sec = s, u_nsec = n\<rparr>))"

definition utime_add_double :: "utime \<Rightarrow> rat \<Rightarrow> utime result" where
  "utime_add_double l f =
     (let fs = of_int (dtrunc f); ns = dmul (dsub f fs) (10 ^ 9) in
      rbind (to_u64 fs) (\<lambda>s.
      rbind (to_long ns) (\<lambda>n.
        Inr (normalize \<lparr>u_sec = cap_to_u32_max (ucast (u_sec l) + s), u_nsec = u_nsec l + of_int n\<rparr>))))"

definition utime_sub_double :: "utime \<Rightarrow> rat \<Rightarrow> utime result" where
  "utime_sub_double l f =
     (let fs = of_int (dtrunc f); ns = dmul (dsub f fs) (10 ^ 9) in
      rbind (to_long fs) (\<lambda>s.
      rbind (to_long ns) (\<lambda>n.
        let l1 = l\<lparr>u_sec := u_sec l - of_int s\<rparr>;
            l2 = (if n \<noteq> 0 then l1\<lparr>u_sec := u_sec l1 - 1, u_nsec := of_int (1000000000 + uint (u_nsec l1) - n)\<rparr> else l1)
        in Inr (normalize l2))))"

definition round_to_minute :: "(int \<Rightarrow> tm) \<Rightarrow> (tm \<Rightarrow> int) \<Rightarrow> utime \<Rightarrow> utime" where
  "round_to_minute localtime mktime t = utime_new (mktime ((localtime (uint (u_sec t)))\<lparr>tm_sec := 0\<rparr>)) 0"

definition round_to_hour :: "(int \<Rightarrow> tm) \<Rightarrow> (tm \<Rightarrow> int) \<Rightarrow> utime \<Rightarrow> utime" where
  "round_to_hour localtime mktime t = utime_new (mktime ((localtime (uint (u_sec t)))\<lparr>tm_sec := 0, tm_min := 0\<rparr>)) 0"

definition round_to_day :: "(int \<Rightarrow> tm) \<Rightarrow> (tm \<Rightarrow> int) \<Rightarrow> utime \<Rightarrow> utime" where
  "round_to_day localtime mktime t = utime_new (mktime ((localtime (uint (u_sec t)))\<lparr>tm_sec := 0, tm_min := 0, tm_hour := 0\<rparr>)) 0"

section \<open>Fractions of a second\<close>

lemma fraction_nanos:
  assumes "0 \<le> x" "x < 1"
  shows "0 \<le> rnd (rnd x * 10 ^ 9)" "rnd (rnd x * 10 ^ 9) \<le> 10 ^ 9" "\<bar>rnd (rnd x * 10 ^ 9) - x * 10 ^ 9\<bar> \<le> 1 / 10 ^ 6"
proof -
  let ?z = "rnd x * 10 ^ 9"
  have x: "0 \<le> rnd x" "rnd x \<le> 1" using ieee.lower [of 0 x] ieee.upper [of 1 x] assms by simp_all
  then have z: "0 \<le> ?z" "?z \<le> 10 ^ 9" by simp_all
  show "0 \<le> rnd ?z" using z(1) by (rule ieee.nonneg)
  show "rnd ?z \<le> 10 ^ 9" using ieee.upper [of "10 ^ 9" ?z] z(2) by simp
  have "\<bar>rnd ?z - ?z\<bar> \<le> ?z / 2 ^ 53" using ieee.error [of ?z] z(1) by simp
  also have "\<dots> \<le> 10 ^ 9 / 2 ^ 53" using z(2) by (rule divide_right_mono) simp
  finally have a: "\<bar>rnd ?z - ?z\<bar> \<le> 1 / 10 ^ 7 * 2" by simp
  have "\<bar>rnd x - x\<bar> \<le> x / 2 ^ 53" using ieee.error [of x] assms(1) by simp
  also have "\<dots> \<le> 1 / 2 ^ 53" using assms(2) by (intro divide_right_mono) simp_all
  finally have "\<bar>rnd x - x\<bar> * 10 ^ 9 \<le> 1 / 2 ^ 53 * 10 ^ 9" by (rule mult_right_mono) simp
  moreover have "\<bar>?z - x * 10 ^ 9\<bar> = \<bar>rnd x - x\<bar> * 10 ^ 9" unfolding left_diff_distrib [symmetric] abs_mult by simp
  moreover have "1 / 2 ^ 53 * 10 ^ 9 \<le> (1 / 10 ^ 7 * 2 :: rat)" "1 / 10 ^ 7 * 2 + 1 / 10 ^ 7 * 2 \<le> (1 / 10 ^ 6 :: rat)" by simp_all
  ultimately show "\<bar>rnd ?z - x * 10 ^ 9\<bar> \<le> 1 / 10 ^ 6" using a by linarith
qed

lemma dtrunc_nonneg: "0 \<le> x \<Longrightarrow> dtrunc x = \<lfloor>x\<rfloor>"
  by (simp add: dtrunc_def)

lemma dtrunc_int [simp]: "dtrunc (of_int n) = n"
  by (simp add: dtrunc_def)

lemma to_u32_floor:
  assumes "0 \<le> x" "x < 2 ^ 32"
  shows "\<exists>w. to_u32 x = Inr w \<and> int (unat w) = \<lfloor>x\<rfloor>"
proof -
  have f: "0 \<le> \<lfloor>x\<rfloor>" "\<lfloor>x\<rfloor> < 2 ^ 32" using assms by (simp_all add: floor_less_iff)
  have "uint (of_int \<lfloor>x\<rfloor> :: u32) = \<lfloor>x\<rfloor>" using f by (simp add: uint_word_of_int)
  then have "int (unat (of_int \<lfloor>x\<rfloor> :: u32)) = \<lfloor>x\<rfloor>" by simp
  then show ?thesis using assms by (simp add: to_u32_def dtrunc_nonneg)
qed

text \<open>What the code computes from a non-negative number of seconds: the whole seconds, and the nanoseconds.\<close>

lemma split_seconds:
  assumes "0 \<le> f"
  obtains n where "0 \<le> n" "n \<le> 10 ^ 9" "to_long (dmul (dsub f (of_int \<lfloor>f\<rfloor>)) (10 ^ 9)) = Inr n"
    "to_u32 (dmul (dsub f (of_int \<lfloor>f\<rfloor>)) (10 ^ 9)) = Inr (of_int n)" "\<bar>of_int (\<lfloor>f\<rfloor> * 10 ^ 9 + n) - f * 10 ^ 9\<bar> < 1 + 1 / 10 ^ 6"
proof -
  let ?x = "f - of_int \<lfloor>f\<rfloor>" let ?y = "rnd (rnd ?x * 10 ^ 9)"
  have x: "0 \<le> ?x" "?x < 1" by linarith+
  note y = fraction_nanos [OF x]
  have fl: "0 \<le> \<lfloor>?y\<rfloor>" "\<lfloor>?y\<rfloor> \<le> 10 ^ 9" using y(1,2) by (simp_all add: floor_le_iff)
  have "of_int \<lfloor>?y\<rfloor> \<le> ?y" "?y < of_int \<lfloor>?y\<rfloor> + 1" by (rule of_int_floor_le) linarith
  then have "\<bar>of_int \<lfloor>?y\<rfloor> - ?x * 10 ^ 9\<bar> < 1 + 1 / 10 ^ 6" using y(3) by linarith
  moreover have "of_int (\<lfloor>f\<rfloor> * 10 ^ 9 + \<lfloor>?y\<rfloor>) - f * 10 ^ 9 = of_int \<lfloor>?y\<rfloor> - ?x * 10 ^ 9" by (simp add: left_diff_distrib)
  ultimately have "\<bar>of_int (\<lfloor>f\<rfloor> * 10 ^ 9 + \<lfloor>?y\<rfloor>) - f * 10 ^ 9\<bar> < 1 + 1 / 10 ^ 6" by (simp only:)
  moreover have "to_long (dmul (dsub f (of_int \<lfloor>f\<rfloor>)) (10 ^ 9)) = Inr \<lfloor>?y\<rfloor>" "to_u32 (dmul (dsub f (of_int \<lfloor>f\<rfloor>)) (10 ^ 9)) = Inr (of_int \<lfloor>?y\<rfloor>)"
    using y(1,2) by (simp_all add: to_long_def to_u32_def dmul_def dsub_def dtrunc_nonneg)
  ultimately show ?thesis using that fl by blast
qed

section \<open>Conversions\<close>

lemma p32: "(2 ^ 32 :: int) = 4294967296"
  by simp

lemma unat_of_int_u32: "0 \<le> n \<Longrightarrow> n < 2 ^ 32 \<Longrightarrow> int (unat (of_int n :: u32)) = n"
  by (simp add: uint_word_of_int)

lemma unat_of_int_nat:
  assumes "0 \<le> n" "n \<le> 2000000000"
  shows "unat (of_int n :: u32) = nat n"
proof -
  have "n < 2 ^ 32" using assms(2) p32 by linarith
  then show ?thesis using unat_of_int_u32 [OF assms(1)] by linarith
qed

lemma to_u32_int:
  assumes "0 \<le> n" "n < 2 ^ 32"
  shows "to_u32 (of_int n) = Inr (of_int n)"
proof -
  have "(of_int n :: rat) < of_int (2 ^ 32)" "(of_int (- 1) :: rat) < of_int n" using assms by (simp_all only: of_int_less_iff)
  then show ?thesis by (simp add: to_u32_def)
qed

lemma to_long_int:
  assumes "0 \<le> n" "n < 2 ^ 32"
  shows "to_long (of_int n) = Inr n"
proof -
  have "(of_int n :: rat) < of_int (2 ^ 63)" "(of_int (- (2 ^ 63) - 1) :: rat) < of_int n" unfolding of_int_less_iff using assms by simp_all
  then show ?thesis by (simp add: to_long_def)
qed

lemma set_from_double_close:
  assumes "0 \<le> d" "d < 2 ^ 32"
  shows "\<exists>t. set_from_double d = Inr t \<and> int (unat (u_sec t)) = \<lfloor>d\<rfloor> \<and> unat (u_nsec t) \<le> 10 ^ 9 \<and> \<bar>of_nat (nanos t) - d * 10 ^ 9\<bar> < 1 + 1 / 10 ^ 6"
proof -
  have f: "0 \<le> \<lfloor>d\<rfloor>" "\<lfloor>d\<rfloor> < 2 ^ 32" using assms by (simp_all add: floor_less_iff)
  let ?s = "of_int \<lfloor>d\<rfloor> :: u32"
  have s: "int (unat ?s) = \<lfloor>d\<rfloor>" using f by (rule unat_of_int_u32)
  have cast: "to_u32 (of_int (dtrunc d)) = Inr ?s" using to_u32_int [OF f] assms(1) by (simp add: dtrunc_nonneg)
  have "(of_nat (unat ?s) :: rat) = of_int \<lfloor>d\<rfloor>" using s by (metis of_int_of_nat_eq)
  moreover have "rnd (of_int \<lfloor>d\<rfloor>) = of_int \<lfloor>d\<rfloor>" using f by (intro ieee.exact) simp
  ultimately have same: "rnd (of_nat (unat ?s)) = of_int \<lfloor>d\<rfloor>" by (simp only:)
  obtain n where n: "0 \<le> n" "n \<le> 10 ^ 9" "to_u32 (dmul (dsub d (of_int \<lfloor>d\<rfloor>)) (10 ^ 9)) = Inr (of_int n)"
    "\<bar>of_int (\<lfloor>d\<rfloor> * 10 ^ 9 + n) - d * 10 ^ 9\<bar> < 1 + 1 / 10 ^ 6" using split_seconds [OF assms(1)] by metis
  let ?t = "\<lparr>u_sec = ?s, u_nsec = of_int n\<rparr>"
  have nn: "int (unat (of_int n :: u32)) = n" using n(1,2) by (intro unat_of_int_u32) simp_all
  have "int (nanos ?t) = \<lfloor>d\<rfloor> * 10 ^ 9 + n" using s nn by (simp add: nanos_def)
  then have "(of_nat (nanos ?t) :: rat) = of_int (\<lfloor>d\<rfloor> * 10 ^ 9 + n)" by (metis of_int_of_nat_eq)
  then have "\<bar>of_nat (nanos ?t) - d * 10 ^ 9\<bar> < 1 + 1 / 10 ^ 6" using n(4) by (simp only:)
  moreover have "set_from_double d = Inr ?t" unfolding set_from_double_def cast using same n(3) by simp
  moreover have "unat (u_nsec ?t) \<le> 10 ^ 9" using n(1,2) by (simp add: unat_of_int_nat)
  ultimately show ?thesis using s by (intro exI [of _ ?t]) simp
qed

lemma to_double_close:
  assumes "utime_ok t"
  shows "\<bar>utime_to_double t * 10 ^ 9 - of_nat (nanos t)\<bar> < 478" "0 \<le> utime_to_double t" "utime_to_double t \<le> of_nat (unat (u_sec t) + 1)"
proof -
  define s n where "s = unat (u_sec t)" and "n = unat (u_nsec t)"
  have s: "s < 2 ^ 32" unfolding s_def using unat_less_u32 [of "u_sec t"] by simp
  have n: "n < 10 ^ 9" using assms by (simp add: utime_ok_def n_def)
  let ?q = "of_nat n / 10 ^ 9 :: rat" let ?d = "rnd (of_nat s + rnd ?q)"
  have ns: "nsec t = int n" using nsec_ok [OF assms] by (simp add: n_def)
  have e: "rnd (of_nat s) = of_nat s" "rnd (of_nat n) = of_nat n" using s n by (intro ieee.exact_nat; simp)+
  have d: "utime_to_double t = ?d" unfolding utime_to_double_def ns s_def [symmetric] dadd_def using e by simp
  have "(of_nat n :: rat) < of_nat (10 ^ 9)" using n by (simp only: of_nat_less_iff)
  then have q: "0 \<le> ?q" "?q \<le> 1" by simp_all
  have rq: "0 \<le> rnd ?q" "rnd ?q \<le> 1" using ieee.lower [of 0 ?q] ieee.upper [of 1 ?q] q by simp_all
  have sr: "(of_nat s :: rat) \<le> of_nat (2 ^ 32 - 1)" using s by (subst of_nat_le_iff) simp
  show "0 \<le> utime_to_double t" unfolding d using rq(1) by (intro ieee.nonneg) simp
  have "?d \<le> of_int (int s + 1)" using s rq(2) by (intro ieee.upper) simp_all
  then show "utime_to_double t \<le> of_nat (unat (u_sec t) + 1)" unfolding d s_def by simp
  have "\<bar>?d - (of_nat s + rnd ?q)\<bar> \<le> (of_nat s + rnd ?q) / 2 ^ 53" using ieee.error [of "of_nat s + rnd ?q"] rq(1) by simp
  also have "\<dots> \<le> 2 ^ 32 / 2 ^ 53" using sr rq(2) by (intro divide_right_mono) simp_all
  finally have a: "\<bar>?d - (of_nat s + rnd ?q)\<bar> \<le> 2 ^ 32 / 2 ^ 53" .
  have "\<bar>rnd ?q - ?q\<bar> \<le> ?q / 2 ^ 53" using ieee.error [of ?q] q(1) by simp
  also have "\<dots> \<le> 1 / 2 ^ 53" using q(2) by (intro divide_right_mono) simp_all
  finally have "\<bar>?d - (of_nat s + ?q)\<bar> \<le> 2 ^ 32 / 2 ^ 53 + 1 / 2 ^ 53" using a by linarith
  then have "\<bar>?d - (of_nat s + ?q)\<bar> * 10 ^ 9 \<le> (2 ^ 32 / 2 ^ 53 + 1 / 2 ^ 53) * 10 ^ 9" by (rule mult_right_mono) simp
  moreover have "(2 ^ 32 / 2 ^ 53 + 1 / 2 ^ 53) * 10 ^ 9 < (478 :: rat)" by simp
  moreover have "(of_nat (nanos t) :: rat) = (of_nat s + ?q) * 10 ^ 9" by (simp add: nanos_def s_def n_def distrib_right)
  then have "\<bar>?d * 10 ^ 9 - of_nat (nanos t)\<bar> = \<bar>?d - (of_nat s + ?q)\<bar> * 10 ^ 9"
    by (simp only: left_diff_distrib [symmetric] abs_mult) simp
  ultimately show "\<bar>utime_to_double t * 10 ^ 9 - of_nat (nanos t)\<bar> < 478" unfolding d by linarith
qed

text \<open>A time that is converted to \<open>double\<close> and back is off by less than half a microsecond: the double has too few bits for the nanoseconds of a
  present-day time stamp, and no more than that is lost.\<close>

theorem utime_double_roundtrip:
  assumes "utime_ok t" "unat (u_sec t) + 1 < 2 ^ 32"
  shows "\<exists>t'. set_from_double (utime_to_double t) = Inr t' \<and> \<bar>int (nanos t') - int (nanos t)\<bar> < 480"
proof -
  note c = to_double_close [OF assms(1)]
  have "(of_nat (unat (u_sec t) + 1) :: rat) < of_nat (2 ^ 32)" using assms(2) by (simp only: of_nat_less_iff)
  then have "utime_to_double t < 2 ^ 32" using c(3) by simp
  then obtain t' where t: "set_from_double (utime_to_double t) = Inr t'" "\<bar>of_nat (nanos t') - utime_to_double t * 10 ^ 9\<bar> < 1 + 1 / 10 ^ 6"
    using set_from_double_close [OF c(2)] by blast
  have half: "1 + 1 / 10 ^ 6 < (2 :: rat)" by simp
  have "\<bar>of_nat (nanos t') - (of_nat (nanos t) :: rat)\<bar> < 480" using t(2) c(1) half by linarith
  then have "(of_int \<bar>int (nanos t') - int (nanos t)\<bar> :: rat) < of_int 480" by simp
  then show ?thesis using t(1) by (simp only: of_int_less_iff) blast
qed

theorem utime_double_roundtrip_witness:
  "\<exists>t'. set_from_double (utime_to_double \<lparr>u_sec = 1700000000, u_nsec = 999999999\<rparr>) = Inr t' \<and> \<bar>int (nanos t') - 1700000000999999999\<bar> < 480"
  using utime_double_roundtrip [of "\<lparr>u_sec = 1700000000, u_nsec = 999999999\<rparr>"] by (simp add: utime_ok_def nanos_def)

section \<open>Adding and subtracting seconds\<close>

text \<open>The two operators on the whole seconds \<open>\<lfloor>f\<rfloor>\<close> and the nanoseconds \<open>n\<close> of the number.\<close>

lemma add_double_nanos:
  assumes "utime_ok l" "0 \<le> f" "int (unat (u_sec l)) + \<lfloor>f\<rfloor> + 1 < 2 ^ 32"
    and n: "0 \<le> n" "n \<le> 10 ^ 9" "to_long (dmul (dsub f (of_int \<lfloor>f\<rfloor>)) (10 ^ 9)) = Inr n"
  shows "\<exists>t. utime_add_double l f = Inr t \<and> int (nanos t) = int (nanos l) + (\<lfloor>f\<rfloor> * 10 ^ 9 + n)"
proof -
  have f: "0 \<le> \<lfloor>f\<rfloor>" "\<lfloor>f\<rfloor> < 2 ^ 32" using assms(2,3) by (simp, linarith)
  obtain w where w: "to_u64 (of_int \<lfloor>f\<rfloor>) = Inr w" "uint w = \<lfloor>f\<rfloor>" using to_u64_int [of "\<lfloor>f\<rfloor>"] f by auto
  let ?t = "\<lparr>u_sec = cap_to_u32_max (ucast (u_sec l) + w), u_nsec = u_nsec l + of_int n\<rparr>"
  have uw: "int (unat w) = \<lfloor>f\<rfloor>" using w(2) by simp
  have sum: "unat (ucast (u_sec l) + w :: u64) = unat (u_sec l) + unat w"
  proof -
    have "int (unat (u_sec l)) + int (unat w) < 18446744073709551616" using uw assms(3) p32 by linarith
    then have "unat (u_sec l) + unat w < 18446744073709551616" by linarith
    then show ?thesis by (subst unat_add_no_overflow) simp_all
  qed
  have top: "unat (u_sec l) + unat w < 4294967295" using uw assms(3) p32 by linarith
  then have sec: "unat (u_sec ?t) = unat (u_sec l) + unat w" using sum by (simp add: unat_cap)
  have nn: "unat (of_int n :: u32) = nat n" using n(1,2) by (simp add: unat_of_int_nat)
  have "unat (u_nsec l) + nat n < 4294967296" using assms(1) n(1,2) by (simp add: utime_ok_def nat_less_iff)
  then have ns: "unat (u_nsec ?t) = unat (u_nsec l) + nat n" by (simp add: nn unat_add_no_overflow)
  have "unat (u_nsec ?t) < 2 * 10 ^ 9" using ns n(2) assms(1) by (simp add: utime_ok_def)
  moreover have "unat (u_sec ?t) + 1 < 2 ^ 32" using sec top by simp
  ultimately have "nanos (normalize ?t) = nanos ?t" by (rule normalize_nanos(1))
  also have "int \<dots> = int (nanos l) + (\<lfloor>f\<rfloor> * 10 ^ 9 + n)" using sec ns uw n(1) by (simp add: nanos_def algebra_simps)
  finally have "int (nanos (normalize ?t)) = int (nanos l) + (\<lfloor>f\<rfloor> * 10 ^ 9 + n)" by simp
  moreover have "utime_add_double l f = Inr (normalize ?t)" using w(1) n(3) assms(2) by (simp add: utime_add_double_def dtrunc_nonneg Let_def)
  ultimately show ?thesis by blast
qed

lemma int_nanos: "int (nanos t) = int (unat (u_sec t)) * 1000000000 + int (unat (u_nsec t))"
  by (simp add: nanos_def)

lemma sub_double_nanos:
  assumes "utime_ok l" "0 \<le> f" "\<lfloor>f\<rfloor> + 1 \<le> int (unat (u_sec l))"
    and n: "0 \<le> n" "n \<le> 10 ^ 9" "to_long (dmul (dsub f (of_int \<lfloor>f\<rfloor>)) (10 ^ 9)) = Inr n"
  shows "\<exists>t. utime_sub_double l f = Inr t \<and> int (nanos t) = int (nanos l) - (\<lfloor>f\<rfloor> * 10 ^ 9 + n)"
proof -
  have small: "int (unat (u_sec l)) < 2 ^ 32" using unat_less_u32 [of "u_sec l"] p32 by linarith
  have f: "0 \<le> \<lfloor>f\<rfloor>" "\<lfloor>f\<rfloor> < 2 ^ 32" using assms(2,3) small by (simp, linarith)
  note tl = to_long_int [OF f]
  let ?w = "of_int \<lfloor>f\<rfloor> :: u32"
  have uw: "int (unat ?w) = \<lfloor>f\<rfloor>" using f by (rule unat_of_int_u32)
  have "unat ?w < unat (u_sec l)" using uw assms(3) by linarith
  then have le: "?w \<le> u_sec l" by (simp add: word_le_nat_alt)
  have s1: "unat (u_sec l - ?w) = unat (u_sec l) - unat ?w" using le by (rule unat_sub)
  have pos: "1 \<le> unat (u_sec l - ?w)" using s1 uw assms(3) by linarith
  have s2: "unat (u_sec l - ?w - 1) = unat (u_sec l) - unat ?w - 1" using pos s1 by (subst unat_sub) (simp_all add: word_le_nat_alt)
  let ?m = "1000000000 + uint (u_nsec l) - n"
  have "unat (u_nsec l) < 1000000000" using assms(1) by (simp add: utime_ok_def)
  then have "int (unat (u_nsec l)) < 1000000000" by linarith
  then have ok: "0 \<le> uint (u_nsec l)" "uint (u_nsec l) < 1000000000" by simp_all
  have n9: "n \<le> 1000000000" using n(2) by simp
  have "0 \<le> ?m" "?m < 2 ^ 32" using n(1) n9 ok p32 by linarith+
  then have m: "int (unat (of_int ?m :: u32)) = ?m" by (rule unat_of_int_u32)
  define t where "t = (if n \<noteq> 0 then \<lparr>u_sec = u_sec l - ?w - 1, u_nsec = of_int ?m\<rparr> else \<lparr>u_sec = u_sec l - ?w, u_nsec = u_nsec l\<rparr>)"
  have z: "int (unat (u_sec l - ?w)) = int (unat (u_sec l)) - \<lfloor>f\<rfloor>" "int (unat (u_sec l - ?w - 1)) = int (unat (u_sec l)) - \<lfloor>f\<rfloor> - 1"
    using s1 s2 uw assms(3) by linarith+
  have "int (nanos t) = int (nanos l) - (\<lfloor>f\<rfloor> * 1000000000 + n)"
  proof (cases "n = 0")
    case True
    then have "u_sec t = u_sec l - ?w" "u_nsec t = u_nsec l" by (simp_all add: t_def)
    then show ?thesis unfolding int_nanos using z(1) True by (simp only:) simp
  next
    case False
    then have "u_sec t = u_sec l - ?w - 1" "u_nsec t = of_int ?m" by (simp_all add: t_def)
    then show ?thesis unfolding int_nanos using z(2) m by (simp only:) simp
  qed
  moreover have "nanos (normalize t) = nanos t"
  proof (cases "n = 0")
    case True
    then have "utime_ok t" using assms(1) by (simp add: t_def utime_ok_def)
    then show ?thesis by simp
  next
    case False
    have "unat (of_int ?m :: u32) < 2 * 1000000000" using m n(1) ok False by linarith
    then have "unat (u_nsec t) < 2 * 10 ^ 9" using False by (simp add: t_def)
    moreover have "unat (u_sec t) + 1 < 2 ^ 32" using False s2 pos s1 unat_less_u32 [of "u_sec l"] by (simp add: t_def)
    ultimately show ?thesis by (rule normalize_nanos(1))
  qed
  moreover have "utime_sub_double l f = Inr (normalize t)" using tl n(3) assms(2) by (cases l) (simp add: utime_sub_double_def dtrunc_nonneg Let_def t_def)
  ultimately show ?thesis by (intro exI [of _ "normalize t"]) simp
qed

text \<open>\<open>+=\<close> and \<open>-=\<close> with a non-negative number of seconds are exact to little more than a nanosecond, as long as the result is in the range
  of \<open>utime_t\<close>, and \<open>-=\<close> takes back exactly what \<open>+=\<close> added.\<close>

theorem utime_double_arithmetic:
  assumes "utime_ok l" "0 \<le> f" "int (unat (u_sec l)) + \<lfloor>f\<rfloor> + 1 < 2 ^ 32" "\<lfloor>f\<rfloor> + 1 \<le> int (unat (u_sec l))"
  shows "\<exists>a b. utime_add_double l f = Inr a \<and> utime_sub_double l f = Inr b
    \<and> \<bar>of_nat (nanos a) - (of_nat (nanos l) + f * 10 ^ 9)\<bar> < 1 + 1 / 10 ^ 6
    \<and> \<bar>of_nat (nanos b) - (of_nat (nanos l) - f * 10 ^ 9)\<bar> < 1 + 1 / 10 ^ 6 \<and> nanos a + nanos b = 2 * nanos l"
proof -
  obtain n where n: "0 \<le> n" "n \<le> 10 ^ 9" "to_long (dmul (dsub f (of_int \<lfloor>f\<rfloor>)) (10 ^ 9)) = Inr n"
    and close: "\<bar>of_int (\<lfloor>f\<rfloor> * 10 ^ 9 + n) - f * 10 ^ 9\<bar> < 1 + 1 / 10 ^ 6" using split_seconds [OF assms(2)] by metis
  obtain a where a: "utime_add_double l f = Inr a" "int (nanos a) = int (nanos l) + (\<lfloor>f\<rfloor> * 10 ^ 9 + n)"
    using add_double_nanos [OF assms(1-3) n] by blast
  obtain b where b: "utime_sub_double l f = Inr b" "int (nanos b) = int (nanos l) - (\<lfloor>f\<rfloor> * 10 ^ 9 + n)"
    using sub_double_nanos [OF assms(1,2,4) n] by blast
  let ?k = "\<lfloor>f\<rfloor> * 10 ^ 9 + n"
  have "(of_nat (nanos a) :: rat) = of_nat (nanos l) + of_int ?k" using a(2) by (metis of_int_add of_int_of_nat_eq)
  then have "\<bar>of_nat (nanos a) - (of_nat (nanos l) + f * 10 ^ 9)\<bar> < 1 + 1 / 10 ^ 6" using close by linarith
  moreover have "(of_nat (nanos b) :: rat) = of_nat (nanos l) - of_int ?k" using b(2) by (metis of_int_diff of_int_of_nat_eq)
  then have "\<bar>of_nat (nanos b) - (of_nat (nanos l) - f * 10 ^ 9)\<bar> < 1 + 1 / 10 ^ 6" using close by linarith
  moreover have "nanos a + nanos b = 2 * nanos l" using a(2) b(2) by linarith
  ultimately show ?thesis using a(1) b(1) by blast
qed

theorem utime_double_arithmetic_witness:
  "\<exists>a b. utime_add_double \<lparr>u_sec = 100, u_nsec = 999999999\<rparr> (5 / 2) = Inr a \<and> utime_sub_double \<lparr>u_sec = 100, u_nsec = 999999999\<rparr> (5 / 2) = Inr b
    \<and> nanos a + nanos b = 201999999998"
  using utime_double_arithmetic [of "\<lparr>u_sec = 100, u_nsec = 999999999\<rparr>" "5 / 2"] by (auto simp: utime_ok_def nanos_def)

section \<open>Rounding to the calendar\<close>

text \<open>What is used of the calendar: \<open>mktime\<close> inverts \<open>localtime_r\<close>, and it counts seconds, minutes and hours of one day evenly (no change
  of the clock between midnight and the time in question).\<close>

definition even_day :: "(int \<Rightarrow> tm) \<Rightarrow> (tm \<Rightarrow> int) \<Rightarrow> int \<Rightarrow> bool" where
  "even_day localtime mktime x \<longleftrightarrow> (let b = localtime x in
     0 \<le> tm_sec b \<and> tm_sec b < 60 \<and> 0 \<le> tm_min b \<and> tm_min b < 60 \<and> 0 \<le> tm_hour b \<and> tm_hour b < 24 \<and>
     mktime (b\<lparr>tm_sec := 0\<rparr>) = x - tm_sec b \<and> mktime (b\<lparr>tm_sec := 0, tm_min := 0\<rparr>) = x - tm_sec b - 60 * tm_min b \<and>
     mktime (b\<lparr>tm_sec := 0, tm_min := 0, tm_hour := 0\<rparr>) = x - tm_sec b - 60 * tm_min b - 3600 * tm_hour b)"

text \<open>Rounding to a minute, an hour or a day goes back to its beginning: the results are not later than the time, in this order, by less than a
  minute, an hour and a day, and without nanoseconds.\<close>

theorem rounding_goes_back:
  assumes "even_day localtime mktime (uint (u_sec t))" "86400 \<le> uint (u_sec t)"
  shows "\<exists>m h d. round_to_minute localtime mktime t = \<lparr>u_sec = m, u_nsec = 0\<rparr> \<and> round_to_hour localtime mktime t = \<lparr>u_sec = h, u_nsec = 0\<rparr>
    \<and> round_to_day localtime mktime t = \<lparr>u_sec = d, u_nsec = 0\<rparr> \<and> uint d \<le> uint h \<and> uint h \<le> uint m \<and> uint m \<le> uint (u_sec t)
    \<and> uint (u_sec t) < uint m + 60 \<and> uint (u_sec t) < uint h + 3600 \<and> uint (u_sec t) < uint d + 86400"
proof -
  define x where "x = uint (u_sec t)"
  have x: "86400 \<le> x" "x < 4294967296" using assms(2) uint_bounded [of "u_sec t"] by (simp_all add: x_def)
  have u: "uint (of_int k :: u32) = k" if "0 \<le> k" "k \<le> x" for k using that x by (simp add: uint_word_of_int)
  let ?b = "localtime x" let ?m = "x - tm_sec ?b" let ?h = "?m - 60 * tm_min ?b" let ?d = "?h - 3600 * tm_hour ?b"
  have e: "0 \<le> tm_sec ?b" "tm_sec ?b < 60" "0 \<le> tm_min ?b" "tm_min ?b < 60" "0 \<le> tm_hour ?b" "tm_hour ?b < 24"
    "mktime (?b\<lparr>tm_sec := 0\<rparr>) = ?m" "mktime (?b\<lparr>tm_sec := 0, tm_min := 0\<rparr>) = ?h" "mktime (?b\<lparr>tm_sec := 0, tm_min := 0, tm_hour := 0\<rparr>) = ?d"
    using assms(1) unfolding x_def [symmetric] even_day_def Let_def by simp_all
  have n: "utime_new k 0 = \<lparr>u_sec = of_int k, u_nsec = 0\<rparr>" for k by (simp add: utime_new_def normalize_def)
  have "uint (of_int ?m :: u32) = ?m" "uint (of_int ?h :: u32) = ?h" "uint (of_int ?d :: u32) = ?d"
    using e(1-6) x by (intro u; linarith)+
  moreover have "round_to_minute localtime mktime t = \<lparr>u_sec = of_int ?m, u_nsec = 0\<rparr>" "round_to_hour localtime mktime t = \<lparr>u_sec = of_int ?h, u_nsec = 0\<rparr>"
    "round_to_day localtime mktime t = \<lparr>u_sec = of_int ?d, u_nsec = 0\<rparr>"
    unfolding round_to_minute_def round_to_hour_def round_to_day_def x_def [symmetric] e(7-9) n by (rule refl)+
  moreover have "?d \<le> ?h" "?h \<le> ?m" "?m \<le> x" "x < ?m + 60" "x < ?h + 3600" "x < ?d + 86400" using e(1-6) by linarith+
  ultimately show ?thesis unfolding x_def [symmetric] by metis
qed

definition utc_tm :: "int \<Rightarrow> tm" where
  "utc_tm x = \<lparr>tm_sec = x mod 60, tm_min = x div 60 mod 60, tm_hour = x div 3600 mod 24, tm_mday = x div 86400, tm_mon = 0, tm_year = 70\<rparr>"

definition utc_mk :: "tm \<Rightarrow> int" where
  "utc_mk b = tm_mday b * 86400 + tm_hour b * 3600 + tm_min b * 60 + tm_sec b"

theorem rounding_goes_back_witness:
  "\<exists>m h d. round_to_minute utc_tm utc_mk \<lparr>u_sec = 1700000000, u_nsec = 5\<rparr> = \<lparr>u_sec = m, u_nsec = 0\<rparr>
    \<and> round_to_hour utc_tm utc_mk \<lparr>u_sec = 1700000000, u_nsec = 5\<rparr> = \<lparr>u_sec = h, u_nsec = 0\<rparr>
    \<and> round_to_day utc_tm utc_mk \<lparr>u_sec = 1700000000, u_nsec = 5\<rparr> = \<lparr>u_sec = d, u_nsec = 0\<rparr>
    \<and> uint d \<le> uint h \<and> uint h \<le> uint m \<and> uint m \<le> 1700000000 \<and> 1700000000 < uint d + 86400"
  using rounding_goes_back [of utc_tm utc_mk "\<lparr>u_sec = 1700000000, u_nsec = 5\<rparr>"] by (auto simp: even_day_def utc_tm_def utc_mk_def Let_def)

end
