(* ===== verification/Clocks.thy ===== *)
theory Clocks
  imports TimeDouble
begin

text \<open>
  The clocks of \<open>src/src/common/common_time.h\<close>: \<open>real_clock\<close>, \<open>coarse_real_clock\<close>, \<open>mono_clock\<close> and \<open>coarse_mono_clock\<close>. A reading of the machine's
  clock (\<open>clock_gettime\<close>) is an argument. The locale \<open>clock\<close> states what a clock promises; it is interpreted on all four. The conversions
  between the clocks, to and from \<open>double\<close>, and \<open>to_timeval\<close> are here too.
\<close>

section \<open>Readings\<close>

definition real_now :: "timespec \<Rightarrow> timespan result" where
  "real_now ts = clock_from_timespec ts"

definition coarse_real_from_timespec :: "timespec \<Rightarrow> timespan result" where
  "coarse_real_from_timespec ts =
     rbind (i64 (ts_sec ts * 10 ^ 9)) (\<lambda>s. rbind (i64 (s + ts_nsec ts)) (\<lambda>n. Inr (of_int n)))"

definition coarse_real_now :: "timespec \<Rightarrow> timespan result" where
  "coarse_real_now ts = coarse_real_from_timespec ts"

definition mono_now :: "timespec \<Rightarrow> timespan result" where
  "mono_now ts = rbind (i64 (ts_sec ts * 10 ^ 9)) (\<lambda>s. rbind (i64 (s + ts_nsec ts)) (\<lambda>n. Inr (of_int n)))"

definition coarse_mono_now :: "timespec \<Rightarrow> timespan result" where
  "coarse_mono_now ts = rbind (i64 (ts_sec ts * 10 ^ 9)) (\<lambda>s. rbind (i64 (s + ts_nsec ts)) (\<lambda>n. Inr (of_int n)))"

section \<open>The coarse real-time clock\<close>

definition coarse_zero :: timespan where
  "coarse_zero = 0"

definition coarse_is_zero :: "timespan \<Rightarrow> bool" where
  "coarse_is_zero t \<longleftrightarrow> t = coarse_zero"

definition coarse_to_time_t :: "timespan \<Rightarrow> int" where
  "coarse_to_time_t t = int (unat t div 10 ^ 9)"

definition coarse_from_time_t :: "int \<Rightarrow> timespan result" where
  "coarse_from_time_t t = rbind (i64 (t * 10 ^ 9)) (\<lambda>n. Inr (of_int n))"

definition coarse_to_timespec :: "timespan \<Rightarrow> timespec" where
  "coarse_to_timespec t = \<lparr>ts_sec = coarse_to_time_t t, ts_nsec = int (unat t mod 10 ^ 9)\<rparr>"

definition coarse_to_timeval :: "timespan \<Rightarrow> timeval" where
  "coarse_to_timeval t = \<lparr>tv_sec = coarse_to_time_t t, tv_usec = int (unat t mod 10 ^ 9 div 10 ^ 3)\<rparr>"

definition coarse_from_timeval :: "timeval \<Rightarrow> timespan result" where
  "coarse_from_timeval tv =
     rbind (i64 (tv_sec tv * 10 ^ 6)) (\<lambda>s. rbind (i64 (s + tv_usec tv)) (\<lambda>us. Inr (of_int us * 1000)))"

section \<open>Between clocks\<close>

text \<open>\<open>to_system_time_point\<close> from another clock: the sum has the unsigned type of the nanoseconds.\<close>

definition from_other_clock :: "(timespan \<Rightarrow> int) \<Rightarrow> timespan \<Rightarrow> timespan" where
  "from_other_clock other_to_time_t t = of_int (other_to_time_t t) * 10 ^ 9 + of_nat (unat t mod 10 ^ 9)"

definition to_other_clock :: "(int \<Rightarrow> timespan result) \<Rightarrow> timespan \<Rightarrow> timespan result" where
  "to_other_clock other_from_time_t t =
     rbind (other_from_time_t (clock_to_time_t t)) (\<lambda>s. Inr (s + of_nat (unat t mod 10 ^ 9)))"

text \<open>\<open>to_timeval\<close> of a duration.\<close>

definition span_to_timeval :: "timespan \<Rightarrow> timeval" where
  "span_to_timeval d =
     (let sec = int (unat d div 10 ^ 9) in \<lparr>tv_sec = sec, tv_usec = int (unat (d - of_int sec * 10 ^ 9) div 10 ^ 3)\<rparr>)"

text \<open>Subtraction of time points, and rounding.\<close>

definition clock_minus :: "timespan \<Rightarrow> timespan \<Rightarrow> int result" where
  "clock_minus minuend subtrahend = time_difference minuend subtrahend"

definition tp_floor :: "timespan \<Rightarrow> timespan \<Rightarrow> timespan result" where
  "tp_floor t p = span_floor t p"

definition tp_ceil :: "timespan \<Rightarrow> timespan \<Rightarrow> timespan result" where
  "tp_ceil t p = span_ceil t p"

section \<open>Doubles\<close>

definition clock_to_double :: "timespan \<Rightarrow> rat" where
  "clock_to_double t = rnd (of_u64 t / 10 ^ 9)"

definition clock_from_double :: "rat \<Rightarrow> timespan result" where
  "clock_from_double d = to_u64 (dmul d (10 ^ 9))"

definition coarse_to_double :: "timespan \<Rightarrow> rat" where
  "coarse_to_double t = rnd (of_u64 t / 10 ^ 9)"

definition coarse_from_double :: "rat \<Rightarrow> timespan result" where
  "coarse_from_double d = to_u64 (dmul d (10 ^ 9))"

definition make_timespan :: "rat \<Rightarrow> timespan result" where
  "make_timespan d = to_u64 (dmul d (10 ^ 9))"

definition maybe_timespan :: "rat \<Rightarrow> timespan option result" where
  "maybe_timespan d = (if d \<noteq> 0 then rbind (make_timespan d) (\<lambda>t. Inr (Some t)) else Inr None)"

section \<open>What a clock promises\<close>

text \<open>A reading of the machine's clock: the nanoseconds are below a second and the time is below \<open>2 ^ 63\<close> nanoseconds.\<close>

definition ts_nanos :: "timespec \<Rightarrow> int" where
  "ts_nanos ts = ts_sec ts * 10 ^ 9 + ts_nsec ts"

definition reading_ok :: "timespec \<Rightarrow> bool" where
  "reading_ok ts \<longleftrightarrow> 0 \<le> ts_sec ts \<and> 0 \<le> ts_nsec ts \<and> ts_nsec ts < 10 ^ 9 \<and> ts_nanos ts < 2 ^ 63"

locale clock =
  fixes now :: "timespec \<Rightarrow> timespan result"
  assumes now_exact: "reading_ok ts \<Longrightarrow> \<exists>t. now ts = Inr t \<and> uint t = ts_nanos ts"
begin

text \<open>Time that passed between two readings, in either order.\<close>

lemma elapsed_exact:
  assumes "reading_ok a" "reading_ok b" "now a = Inr s" "now b = Inr t"
  shows "clock_minus t s = Inr (ts_nanos b - ts_nanos a)"
proof -
  have st: "uint s = ts_nanos a" "uint t = ts_nanos b" using now_exact [OF assms(1)] now_exact [OF assms(2)] assms(3,4) by auto
  have bounds: "0 \<le> ts_nanos a" "ts_nanos a < 2 ^ 63" "0 \<le> ts_nanos b" "ts_nanos b < 2 ^ 63"
    using assms(1,2) by (simp_all add: reading_ok_def ts_nanos_def)
  have "sint s = ts_nanos a" "sint t = ts_nanos b" using bounds by (simp_all add: sint_uint st signed_take_bit_int_eq_self)
  then show ?thesis using bounds by (simp add: clock_minus_def time_difference_def i64_def)
qed

end

lemma reading_sum:
  assumes "reading_ok ts"
  shows "\<exists>t. rbind (i64 (ts_sec ts * 10 ^ 9)) (\<lambda>s. rbind (i64 (s + ts_nsec ts)) (\<lambda>n. Inr (of_int n :: u64))) = Inr t \<and> uint t = ts_nanos ts"
proof -
  have b: "0 \<le> ts_sec ts * 10 ^ 9" "ts_sec ts * 10 ^ 9 \<le> ts_nanos ts" "0 \<le> ts_nanos ts" "ts_nanos ts < 2 ^ 63"
    using assms by (simp_all add: reading_ok_def ts_nanos_def)
  then have "i64 (ts_sec ts * 10 ^ 9) = Inr (ts_sec ts * 10 ^ 9)" "i64 (ts_nanos ts) = Inr (ts_nanos ts)" by (simp_all add: i64_def)
  moreover have "uint (of_int (ts_nanos ts) :: u64) = ts_nanos ts" using b by (simp add: uint_word_of_int)
  ultimately show ?thesis by (simp add: ts_nanos_def)
qed

interpretation real_clock: clock real_now
  by unfold_locales (simp only: real_now_def clock_from_timespec_def reading_sum)

interpretation coarse_real_clock: clock coarse_real_now
  by unfold_locales (simp only: coarse_real_now_def coarse_real_from_timespec_def reading_sum)

interpretation mono_clock: clock mono_now
  by unfold_locales (simp only: mono_now_def reading_sum)

interpretation coarse_mono_clock: clock coarse_mono_now
  by unfold_locales (simp only: coarse_mono_now_def reading_sum)

section \<open>Properties\<close>

text \<open>The difference of two readings of the same clock is the time between them to the nanosecond, negative when the clock was set back, for each
  of the four clocks.\<close>

theorem clock_differences_exact:
  assumes "now \<in> {real_now, coarse_real_now, mono_now, coarse_mono_now}" "reading_ok a" "reading_ok b"
  shows "\<exists>s t. now a = Inr s \<and> now b = Inr t \<and> clock_minus t s = Inr (ts_nanos b - ts_nanos a)"
proof -
  have "clock now" using assms(1) real_clock.clock_axioms coarse_real_clock.clock_axioms mono_clock.clock_axioms coarse_mono_clock.clock_axioms by auto
  from clock.now_exact [OF this assms(2)] clock.now_exact [OF this assms(3)] clock.elapsed_exact [OF this assms(2,3)] show ?thesis by blast
qed

theorem clock_differences_exact_witness:
  "\<exists>s t. mono_now \<lparr>ts_sec = 5, ts_nsec = 900000000\<rparr> = Inr s \<and> mono_now \<lparr>ts_sec = 7, ts_nsec = 100000000\<rparr> = Inr t
    \<and> clock_minus t s = Inr (ts_nanos \<lparr>ts_sec = 7, ts_nsec = 100000000\<rparr> - ts_nanos \<lparr>ts_sec = 5, ts_nsec = 900000000\<rparr>)"
  by (rule clock_differences_exact) (simp_all add: reading_ok_def ts_nanos_def)

text \<open>A time point of the coarse clock taken over by \<open>real_clock\<close> is the same time; the way back gives the same time below \<open>2 ^ 63\<close> nanoseconds; and
  \<open>to_timeval\<close> of a duration agrees with the one of the clock.\<close>

theorem clocks_convert:
  assumes "unat t < 2 ^ 63"
  shows "from_other_clock coarse_to_time_t t = t \<and> to_other_clock coarse_from_time_t t = Inr t
    \<and> span_to_timeval t = clock_to_timeval t \<and> coarse_real_from_timespec (coarse_to_timespec t) = Inr t"
proof -
  let ?s = "unat t div 10 ^ 9" and ?r = "unat t mod 10 ^ 9"
  have split: "?s * 10 ^ 9 + ?r = unat t" by simp
  have "(of_nat (?s * 10 ^ 9 + ?r) :: u64) = t" unfolding split by simp
  then have t: "(of_nat ?s * 10 ^ 9 + of_nat ?r :: u64) = t" by (simp only: of_nat_add of_nat_mult of_nat_power of_nat_numeral)
  have le: "?s * 10 ^ 9 < 2 ^ 63" using assms by (rule le_less_trans [rotated]) simp
  have i: "i64 (int ?s * 10 ^ 9) = Inr (int ?s * 10 ^ 9)" using i64_int [OF le] by simp
  show ?thesis
  proof (intro conjI)
    show "from_other_clock coarse_to_time_t t = t" using t by (simp add: from_other_clock_def coarse_to_time_t_def)
    show "to_other_clock coarse_from_time_t t = Inr t"
      unfolding to_other_clock_def coarse_from_time_t_def clock_to_time_t_def i using t by simp
    have "t - of_nat ?s * 10 ^ 9 = of_nat ?r" using t by (metis add_diff_cancel_left')
    moreover have "unat (of_nat ?r :: u64) = ?r" 
    proof -
      have "?r < 10 ^ 9" by simp
      then show ?thesis by (simp add: unsigned_of_nat take_bit_nat_eq_self_iff)
    qed
    ultimately show "span_to_timeval t = clock_to_timeval t" by (simp add: span_to_timeval_def clock_to_timeval_def clock_to_time_t_def Let_def)
    have "i64 (int (unat t)) = Inr (int (unat t))" using assms by (rule i64_int)
    moreover have "int ?s * 10 ^ 9 + int ?r = int (unat t)" using split by (metis of_nat_add of_nat_mult of_nat_numeral of_nat_power)
    ultimately show "coarse_real_from_timespec (coarse_to_timespec t) = Inr t"
      by (simp only: coarse_real_from_timespec_def coarse_to_timespec_def coarse_to_time_t_def timespec.simps i rbind_simps) simp
  qed
qed

theorem clocks_convert_witness:
  "from_other_clock coarse_to_time_t 1234567890123 = 1234567890123 \<and> to_other_clock coarse_from_time_t 1234567890123 = Inr 1234567890123
    \<and> span_to_timeval 1234567890123 = clock_to_timeval 1234567890123
    \<and> coarse_real_from_timespec (coarse_to_timespec 1234567890123) = Inr 1234567890123"
  by (rule clocks_convert) simp

lemma near_floor:
  assumes "near k x y" "0 \<le> x"
  shows "\<bar>of_int \<lfloor>x\<rfloor> - y\<bar> \<le> 1 + k * y / 2 ^ 53"
proof -
  have "of_int \<lfloor>x\<rfloor> \<le> x" "x < of_int \<lfloor>x\<rfloor> + 1" by (rule of_int_floor_le) linarith
  then show ?thesis using assms(1) unfolding near_def by linarith
qed

text \<open>A time that goes through a \<open>double\<close> number of seconds comes back with an error of at most one nanosecond and six units of the relative precision of
  doubles: about one nanosecond for durations of days, and less than two microseconds for the wall-clock times of this century. A span of zero
  seconds is no span for \<open>maybe_timespan\<close>.\<close>

theorem clock_double_roundtrip:
  assumes "unat t < 2 ^ 63"
  shows "\<exists>u. clock_from_double (clock_to_double t) = Inr u \<and> coarse_from_double (coarse_to_double t) = Inr u \<and> make_timespan (clock_to_double t) = Inr u
    \<and> \<bar>of_nat (unat u) - (of_nat (unat t) :: rat)\<bar> \<le> 1 + 6 * of_nat (unat t) / 2 ^ 53 \<and> maybe_timespan 0 = Inr None"
proof -
  define y :: rat where "y = of_nat (unat t)"
  have y: "0 \<le> y" "y < 2 ^ 63"
  proof -
    have "(of_nat (unat t) :: rat) < of_nat (2 ^ 63)" using assms by (simp only: of_nat_less_iff)
    then show "y < 2 ^ 63" by (simp add: y_def)
    show "0 \<le> y" unfolding y_def by (rule of_nat_0_le_iff)
  qed
  have a: "near 2 (rnd y) y" using ieee.near_round [OF near_refl y(1)] by simp
  have b: "near 4 (rnd (rnd y / 10 ^ 9)) (y / 10 ^ 9)" using ieee.near_round [OF near_divide [OF a]] y(1) by simp
  have "near 4 (10 ^ 9 * rnd (rnd y / 10 ^ 9)) (10 ^ 9 * (y / 10 ^ 9))" using near_scale [OF b, of "10 ^ 9"] by simp
  then have c: "near 6 (rnd (rnd (rnd y / 10 ^ 9) * 10 ^ 9)) y" using ieee.near_round [of 4 "10 ^ 9 * rnd (rnd y / 10 ^ 9)" y] y(1) by (simp add: mult.commute)
  let ?x = "rnd (rnd (rnd y / 10 ^ 9) * 10 ^ 9)"
  have x0: "0 \<le> ?x" using ieee.nonneg y(1) by simp
  have "\<bar>?x - y\<bar> \<le> 6 * y / 2 ^ 53" using c by (simp add: near_def)
  also have "\<dots> \<le> y" using y(1) by simp
  finally have "?x < 2 ^ 64" using y by simp
  from unat_of_floor [OF x0 this] obtain u where u: "to_u64 ?x = Inr u" "int (unat u) = \<lfloor>?x\<rfloor>" by blast
  have "(of_nat (unat u) :: rat) = of_int \<lfloor>?x\<rfloor>" by (simp only: u(2) [symmetric] of_int_of_nat_eq)
  then have e: "\<bar>of_nat (unat u) - y\<bar> \<le> 1 + 6 * y / 2 ^ 53" using near_floor [OF c x0] by (simp only:)
  have d: "clock_to_double t = rnd (rnd y / 10 ^ 9)" "coarse_to_double t = rnd (rnd y / 10 ^ 9)"
    by (simp_all add: clock_to_double_def coarse_to_double_def of_u64_def y_def)
  from u(1) e show ?thesis
    unfolding d clock_from_double_def coarse_from_double_def make_timespan_def dmul_def maybe_timespan_def y_def by simp
qed

theorem clock_double_roundtrip_witness:
  "\<exists>u. clock_from_double (clock_to_double 1500000000) = Inr u \<and> coarse_from_double (coarse_to_double 1500000000) = Inr u
    \<and> make_timespan (clock_to_double 1500000000) = Inr u
    \<and> \<bar>of_nat (unat u) - (of_nat (unat (1500000000 :: timespan)) :: rat)\<bar> \<le> 1 + 6 * of_nat (unat (1500000000 :: timespan)) / 2 ^ 53 \<and> maybe_timespan 0 = Inr None"
  by (rule clock_double_roundtrip) simp

end
