(* ===== verification/SocketHandle.thy ===== *)
theory SocketHandle
  imports ConnSocket PosixSocket
begin

text \<open>
  \<open>ConnectedSocket\<close> and \<open>ServerSocket\<close> (\<open>src/src/network/Stack.h\<close>): handles that own a socket of one of the stacks through a \<open>unique_ptr\<close>. Both
  classes have the same form: construction, move, a call that closes the socket and drops it (\<open>close\<close>, \<open>abort_accept\<close>), the
  calls that are passed on, and a destructor that closes first. The operations are defined for any implementation; the locale
  \<open>socket_impl\<close> says what the handles rely on, and is interpreted on the four implementations of the program.
\<close>

section \<open>Handles\<close>

text \<open>An object of the implementation: not made, alive, or deleted (the state when it was last alive, and what the destructor left).\<close>

datatype 'i obj = NotMade | Alive 'i | Deleted 'i 'i

text \<open>The objects, and the handle variables in scope with their pointers.\<close>

record 'i handles =
  objs :: "ptr \<Rightarrow> 'i obj"
  vars :: "nat \<rightharpoonup> ptr"

definition handles_new :: "'i handles" where
  "handles_new = \<lparr>objs = \<lambda>_. NotMade, vars = Map.empty\<rparr>"

definition the_var :: "nat \<Rightarrow> 'i handles \<Rightarrow> ptr" where
  "the_var x s = (case vars s x of Some p \<Rightarrow> p | None \<Rightarrow> nullptr)"

text \<open>\<open>operator bool\<close>.\<close>

definition handle_set :: "nat \<Rightarrow> 'i handles \<Rightarrow> bool" where
  "handle_set x s \<longleftrightarrow> the_var x s \<noteq> nullptr"

text \<open>The deletion of the object a \<open>unique_ptr\<close> holds, with \<open>cl\<close>, which may fault, run before it; nothing happens for a null pointer.\<close>

definition drop_obj :: "('i \<Rightarrow> 'i result) \<Rightarrow> ('i \<Rightarrow> 'i) \<Rightarrow> ptr \<Rightarrow> 'i handles \<Rightarrow> 'i handles result" where
  "drop_obj cl del p s =
     (if p = nullptr then Inr s
      else case objs s p of Alive i \<Rightarrow> rbind (cl i) (\<lambda>j. Inr (s\<lparr>objs := (objs s)(p := Deleted i (del j))\<rparr>))
         | NotMade \<Rightarrow> Inl UseAfterFree | Deleted _ _ \<Rightarrow> Inl UseAfterFree)"

definition handle_empty :: "nat \<Rightarrow> 'i handles \<Rightarrow> 'i handles" where
  "handle_empty x s = s\<lparr>vars := (vars s)(x \<mapsto> nullptr)\<rparr>"

text \<open>The constructor from a \<open>unique_ptr\<close> to a new object at \<open>p\<close>.\<close>

definition handle_adopt :: "nat \<Rightarrow> ptr \<Rightarrow> 'i \<Rightarrow> 'i handles \<Rightarrow> 'i handles" where
  "handle_adopt x p i s = s\<lparr>objs := (objs s)(p := Alive i), vars := (vars s)(x \<mapsto> p)\<rparr>"

definition handle_move :: "nat \<Rightarrow> nat \<Rightarrow> 'i handles \<Rightarrow> 'i handles" where
  "handle_move x y s = s\<lparr>vars := (vars s)(x \<mapsto> the_var y s, y \<mapsto> nullptr)\<rparr>"

text \<open>The move assignment: the old object is deleted, without being closed.\<close>

definition handle_assign :: "('i \<Rightarrow> 'i) \<Rightarrow> nat \<Rightarrow> nat \<Rightarrow> 'i handles \<Rightarrow> 'i handles result" where
  "handle_assign del x y s =
     (let p = the_var y s; s1 = s\<lparr>vars := (vars s)(y \<mapsto> nullptr)\<rparr>; old = the_var x s1 in
      drop_obj Inr del old (s1\<lparr>vars := (vars s1)(x \<mapsto> p)\<rparr>))"

definition handle_close :: "('i \<Rightarrow> 'i result) \<Rightarrow> ('i \<Rightarrow> 'i) \<Rightarrow> nat \<Rightarrow> 'i handles \<Rightarrow> 'i handles result" where
  "handle_close cl del x s =
     (if the_var x s = nullptr then Inl NullDeref
      else rbind (drop_obj cl del (the_var x s) s) (\<lambda>s1. Inr (s1\<lparr>vars := (vars s1)(x \<mapsto> nullptr)\<rparr>)))"

definition handle_destroy :: "('i \<Rightarrow> 'i result) \<Rightarrow> ('i \<Rightarrow> 'i) \<Rightarrow> nat \<Rightarrow> 'i handles \<Rightarrow> 'i handles result" where
  "handle_destroy cl del x s =
     rbind (drop_obj cl del (the_var x s) s) (\<lambda>s1. Inr (s1\<lparr>vars := (vars s1)(x := None)\<rparr>))"

text \<open>The calls that are passed on to the implementation.\<close>

definition handle_call :: "('i \<Rightarrow> 'i) \<Rightarrow> nat \<Rightarrow> 'i handles \<Rightarrow> 'i handles result" where
  "handle_call f x s =
     (let p = the_var x s in
      if p = nullptr then Inl NullDeref
      else case objs s p of Alive i \<Rightarrow> Inr (s\<lparr>objs := (objs s)(p := Alive (f i))\<rparr>)
         | NotMade \<Rightarrow> Inl UseAfterFree | Deleted _ _ \<Rightarrow> Inl UseAfterFree)"

text \<open>\<open>ServerSocket\<close>: \<open>ac\<close> is the \<open>abort_accept\<close> of the implementation.\<close>

definition ss_abort_accept :: "('i \<Rightarrow> 'i result) \<Rightarrow> ('i \<Rightarrow> 'i) \<Rightarrow> nat \<Rightarrow> 'i handles \<Rightarrow> 'i handles result" where
  "ss_abort_accept ac del x s =
     (if the_var x s = nullptr then Inl NullDeref
      else rbind (drop_obj ac del (the_var x s) s) (\<lambda>s1. Inr (s1\<lparr>vars := (vars s1)(x \<mapsto> nullptr)\<rparr>)))"

definition ss_destroy :: "('i \<Rightarrow> 'i result) \<Rightarrow> ('i \<Rightarrow> 'i) \<Rightarrow> nat \<Rightarrow> 'i handles \<Rightarrow> 'i handles result" where
  "ss_destroy ac del x s =
     rbind (drop_obj ac del (the_var x s) s) (\<lambda>s1. Inr (s1\<lparr>vars := (vars s1)(x := None)\<rparr>))"

section \<open>Programs that use handles\<close>

text \<open>The steps of a program; \<open>ow\<close> says whether it assigns to handles that are set.\<close>

inductive handle_step :: "bool \<Rightarrow> ('i \<Rightarrow> 'i result) \<Rightarrow> ('i \<Rightarrow> 'i) \<Rightarrow> 'i handles \<Rightarrow> 'i handles \<Rightarrow> bool" for ow cl del where
  empty: "vars s x = None \<Longrightarrow> handle_step ow cl del s (handle_empty x s)"
| adopt: "vars s x = None \<Longrightarrow> p \<noteq> nullptr \<Longrightarrow> objs s p = NotMade \<Longrightarrow> handle_step ow cl del s (handle_adopt x p i s)"
| move: "vars s x = None \<Longrightarrow> vars s y \<noteq> None \<Longrightarrow> handle_step ow cl del s (handle_move x y s)"
| assign: "vars s x \<noteq> None \<Longrightarrow> vars s y \<noteq> None \<Longrightarrow> ow \<or> x = y \<or> \<not> handle_set x s \<Longrightarrow> handle_assign del x y s = Inr t \<Longrightarrow> handle_step ow cl del s t"
| close: "vars s x \<noteq> None \<Longrightarrow> handle_close cl del x s = Inr t \<Longrightarrow> handle_step ow cl del s t"
| call: "vars s x \<noteq> None \<Longrightarrow> handle_call f x s = Inr t \<Longrightarrow> handle_step ow cl del s t"
| destroy: "vars s x \<noteq> None \<Longrightarrow> handle_destroy cl del x s = Inr t \<Longrightarrow> handle_step ow cl del s t"

inductive handle_run :: "bool \<Rightarrow> ('i \<Rightarrow> 'i result) \<Rightarrow> ('i \<Rightarrow> 'i) \<Rightarrow> 'i handles \<Rightarrow> bool" for ow cl del where
  new: "handle_run ow cl del handles_new"
| step: "handle_run ow cl del s \<Longrightarrow> handle_step ow cl del s t \<Longrightarrow> handle_run ow cl del t"

text \<open>The objects that are alive are exactly those a handle points to, and no two handles point to the same.\<close>

definition owned_once :: "'i handles \<Rightarrow> bool" where
  "owned_once s \<longleftrightarrow>
     (\<forall>x p. vars s x = Some p \<longrightarrow> p \<noteq> nullptr \<longrightarrow> (\<exists>i. objs s p = Alive i)) \<and>
     (\<forall>x y p. vars s x = Some p \<longrightarrow> vars s y = Some p \<longrightarrow> p \<noteq> nullptr \<longrightarrow> x = y) \<and>
     (\<forall>p i. objs s p = Alive i \<longrightarrow> p \<noteq> nullptr \<and> (\<exists>x. vars s x = Some p))"

lemma the_var_simps [simp]: "vars s x = Some p \<Longrightarrow> the_var x s = p" "vars s x = None \<Longrightarrow> the_var x s = nullptr"
  by (simp_all add: the_var_def)

lemma drop_obj_Inr:
  "drop_obj cl del p s = Inr t \<longleftrightarrow>
     (p = nullptr \<and> t = s) \<or> (p \<noteq> nullptr \<and> (\<exists>i j. objs s p = Alive i \<and> cl i = Inr j \<and> t = s\<lparr>objs := (objs s)(p := Deleted i (del j))\<rparr>))"
  by (auto simp: drop_obj_def rbind_eq_Inr split: obj.splits)

lemma owned_alive: "owned_once s \<Longrightarrow> vars s x = Some p \<Longrightarrow> p \<noteq> nullptr \<Longrightarrow> \<exists>i. objs s p = Alive i"
  unfolding owned_once_def by blast

text \<open>No handle operation can use a deleted object: the only faults are a call through an empty handle, and those of \<open>cl\<close> itself on the object
  of the handle.\<close>

definition cl_fails :: "('i \<Rightarrow> 'i result) \<Rightarrow> nat \<Rightarrow> 'i handles \<Rightarrow> fault \<Rightarrow> bool" where
  "cl_fails cl x s e \<longleftrightarrow> (case objs s (the_var x s) of Alive i \<Rightarrow> cl i = Inl e | _ \<Rightarrow> False)"

lemma drop_obj_cases: "objs s p = Alive i \<Longrightarrow> p \<noteq> nullptr \<Longrightarrow> (\<exists>t. drop_obj cl del p s = Inr t) \<or> (\<exists>e. cl i = Inl e \<and> drop_obj cl del p s = Inl e)"
  by (cases "cl i") (simp_all add: drop_obj_def)

lemma handle_safe:
  assumes "owned_once s" "vars s x \<noteq> None" "vars s y \<noteq> None"
  shows "\<exists>t. handle_assign del x y s = Inr t" "(\<exists>t. handle_destroy cl del x s = Inr t) \<or> (\<exists>e. cl_fails cl x s e \<and> handle_destroy cl del x s = Inl e)"
    "handle_set x s \<Longrightarrow> (\<exists>t. handle_close cl del x s = Inr t) \<or> (\<exists>e. cl_fails cl x s e \<and> handle_close cl del x s = Inl e)"
    "handle_set x s \<Longrightarrow> \<exists>t. handle_call f x s = Inr t"
proof -
  obtain p q where p: "vars s x = Some p" and q: "vars s y = Some q" using assms(2,3) by blast
  have al: "p = nullptr \<or> (\<exists>i. objs s p = Alive i)" using owned_alive [OF assms(1) p] by blast
  have dr: "p = nullptr \<or> (\<exists>t. drop_obj cl del p s = Inr t) \<or> (\<exists>e. cl_fails cl x s e \<and> drop_obj cl del p s = Inl e)"
    using al drop_obj_cases [of s p _ cl del] p by (auto simp: cl_fails_def)
  show "\<exists>t. handle_assign del x y s = Inr t" using al p q by (auto simp: handle_assign_def Let_def drop_obj_def the_var_def)
  show "(\<exists>t. handle_destroy cl del x s = Inr t) \<or> (\<exists>e. cl_fails cl x s e \<and> handle_destroy cl del x s = Inl e)"
    using dr p by (auto simp: handle_destroy_def) (simp add: drop_obj_def)
  show "(\<exists>t. handle_close cl del x s = Inr t) \<or> (\<exists>e. cl_fails cl x s e \<and> handle_close cl del x s = Inl e)" if "handle_set x s"
    using dr p that by (auto simp: handle_close_def handle_set_def)
  show "\<exists>t. handle_call f x s = Inr t" if "handle_set x s" using al p that by (auto simp: handle_call_def Let_def handle_set_def)
qed

lemma owned_onceD:
  assumes "owned_once s"
  shows "vars s x = Some p \<Longrightarrow> p \<noteq> nullptr \<Longrightarrow> \<exists>i. objs s p = Alive i"
    "vars s x = Some p \<Longrightarrow> vars s y = Some p \<Longrightarrow> p \<noteq> nullptr \<Longrightarrow> x = y"
    "objs s p = Alive i \<Longrightarrow> p \<noteq> nullptr" "objs s p = Alive i \<Longrightarrow> \<exists>x. vars s x = Some p"
  using assms unfolding owned_once_def by blast+

lemma owned_onceI:
  assumes "\<And>x p. vars s x = Some p \<Longrightarrow> p \<noteq> nullptr \<Longrightarrow> \<exists>i. objs s p = Alive i"
    "\<And>x y p. vars s x = Some p \<Longrightarrow> vars s y = Some p \<Longrightarrow> p \<noteq> nullptr \<Longrightarrow> x = y"
    "\<And>p i. objs s p = Alive i \<Longrightarrow> p \<noteq> nullptr \<and> (\<exists>x. vars s x = Some p)"
  shows "owned_once s"
  using assms unfolding owned_once_def by blast

text \<open>Deleting the object of a variable that is emptied or goes out of scope, and moving a pointer between variables.\<close>

lemma owned_once_drop:
  assumes "owned_once s" "vars s x = Some p" "drop_obj cl del p s = Inr s1" "v = None \<or> v = Some nullptr"
  shows "owned_once (s1\<lparr>vars := (vars s1)(x := v)\<rparr>)"
proof -
  note o = owned_onceD [OF assms(1)]
  have vs: "vars s1 = vars s" and same: "objs s1 q = objs s q" if "q \<noteq> p" for q using assms(3) that by (auto simp: drop_obj_Inr)
  have vs: "vars s1 = vars s" using assms(3) by (auto simp: drop_obj_Inr)
  have gone: "objs s1 p \<noteq> Alive i" for i using assms(3) o(3) by (auto simp: drop_obj_Inr)
  let ?t = "s1\<lparr>vars := (vars s1)(x := v)\<rparr>"
  have other: "z \<noteq> x \<and> vars s z = Some q \<and> q \<noteq> p" if "vars ?t z = Some q" "q \<noteq> nullptr" for z q
  proof -
    have z: "z \<noteq> x" using that assms(4) by auto
    then have "vars s z = Some q" using that(1) vs by simp
    then show ?thesis using z o(2) assms(2) that(2) by blast
  qed
  show ?thesis
  proof (rule owned_onceI)
    show "\<exists>i. objs ?t q = Alive i" if "vars ?t z = Some q" "q \<noteq> nullptr" for z q
    proof -
      have "objs ?t q = objs s q" using other [OF that] same by simp
      then show ?thesis using other [OF that] o(1) that(2) by metis
    qed
    show "z = y" if "vars ?t z = Some q" "vars ?t y = Some q" "q \<noteq> nullptr" for z y q
      using other [OF that(1,3)] other [OF that(2,3)] o(2) that(3) by blast
    show "q \<noteq> nullptr \<and> (\<exists>z. vars ?t z = Some q)" if "objs ?t q = Alive i" for q i
    proof -
      have "q \<noteq> p" using that gone by auto
      then have "objs s q = Alive i" using that same by simp
      then obtain z where "q \<noteq> nullptr" "vars s z = Some q" using o(3,4) by blast
      moreover have "z \<noteq> x" using calculation assms(2) \<open>q \<noteq> p\<close> by auto
      ultimately show ?thesis using vs by (intro conjI exI [of _ z]) simp_all
    qed
  qed
qed

lemma owned_once_moved:
  assumes "owned_once s" "vars s y = Some p" "the_var x s = nullptr"
  shows "owned_once (s\<lparr>vars := (vars s)(y \<mapsto> nullptr, x \<mapsto> p)\<rparr>)"
proof -
  note o = owned_onceD [OF assms(1)]
  let ?t = "s\<lparr>vars := (vars s)(y \<mapsto> nullptr, x \<mapsto> p)\<rparr>"
  have x: "vars s x \<noteq> Some q" if "q \<noteq> nullptr" for q using assms(3) that by (auto simp: the_var_def)
  define f where "f z = (if z = x then y else z)" for z
  have from_old: "vars s (f z) = Some q \<and> (z \<noteq> x \<longrightarrow> z \<noteq> y)" if "vars ?t z = Some q" "q \<noteq> nullptr" for z q
    using that assms(2) by (auto simp: f_def split: if_splits)
  show ?thesis
  proof (rule owned_onceI)
    show "\<exists>i. objs ?t q = Alive i" if "vars ?t z = Some q" "q \<noteq> nullptr" for z q
    proof -
      have "\<exists>i. objs s q = Alive i" using from_old [OF that] o(1) that(2) by blast
      then show ?thesis by simp
    qed
    show "z = w" if "vars ?t z = Some q" "vars ?t w = Some q" "q \<noteq> nullptr" for z w q
    proof -
      have "f z = f w" using from_old [OF that(1,3)] from_old [OF that(2,3)] o(2) that(3) by blast
      then show ?thesis using from_old [OF that(1,3)] from_old [OF that(2,3)] by (auto simp: f_def split: if_splits)
    qed
    show "q \<noteq> nullptr \<and> (\<exists>z. vars ?t z = Some q)" if "objs ?t q = Alive i" for q i
    proof -
      have "objs s q = Alive i" using that by simp
      then obtain z where z: "q \<noteq> nullptr" "vars s z = Some q" using o(3,4) by blast
      then have "z \<noteq> x" using x by blast
      then have "vars ?t (if z = y then x else z) = Some q" using z assms(2) by auto
      then show ?thesis using z(1) by blast
    qed
  qed
qed

lemma owned_once_step:
  assumes "handle_step ow cl del s t" "owned_once s"
  shows "owned_once t"
  using assms(1)
proof cases
  case (empty x)
  then show ?thesis using assms(2) unfolding owned_once_def handle_empty_def by (simp (no_asm_simp)) (metis option.distinct(1) option.sel)
next
  case (adopt x p i)
  have "vars s y \<noteq> Some p" for y using owned_onceD(1) [OF assms(2)] adopt by fastforce
  then have "owned_once (handle_adopt x p i s)"
    using owned_onceD [OF assms(2)] adopt(2-4)
    by (intro owned_onceI) (simp_all add: handle_adopt_def split: if_splits, (metis option.distinct(1))+)
  then show ?thesis using adopt by simp
next
  case (move x y)
  then obtain p where p: "vars s y = Some p" by blast
  have "x \<noteq> y" using move p by auto
  then have "handle_move x y s = s\<lparr>vars := (vars s)(y \<mapsto> nullptr, x \<mapsto> p)\<rparr>" using p by (simp add: handle_move_def fun_upd_twist)
  then show ?thesis using owned_once_moved [OF assms(2) p] move by simp
next
  case (assign x y)
  then obtain p q where p: "vars s y = Some p" and q: "vars s x = Some q" by blast
  show ?thesis
  proof (cases "x = y")
    case True
    then have "t = s\<lparr>vars := (vars s)(y \<mapsto> nullptr, x \<mapsto> p)\<rparr>" using assign p by (simp add: handle_assign_def Let_def the_var_def drop_obj_Inr)
    then have "t = s" using True p by (simp add: fun_upd_idem)
    then show ?thesis using assms(2) by simp
  next
    case False
    then obtain s1 where s1: "drop_obj Inr del q s = Inr s1" "t = s1\<lparr>vars := (vars s)(y \<mapsto> nullptr, x \<mapsto> p)\<rparr>"
      using assign p q by (auto simp: handle_assign_def Let_def the_var_def drop_obj_Inr)
    let ?u = "s1\<lparr>vars := (vars s1)(x \<mapsto> nullptr)\<rparr>"
    have "owned_once ?u" using owned_once_drop [OF assms(2) q s1(1)] by blast
    moreover have v: "vars s1 = vars s" using s1(1) by (auto simp: drop_obj_Inr)
    ultimately have "owned_once (?u\<lparr>vars := (vars ?u)(y \<mapsto> nullptr, x \<mapsto> p)\<rparr>)" using p False by (intro owned_once_moved) (simp_all add: the_var_def)
    then show ?thesis using v s1(2) False by (simp add: fun_upd_twist)
  qed
next
  case (close x)
  then obtain p where p: "vars s x = Some p" by blast
  then show ?thesis using owned_once_drop [OF assms(2) p] close by (auto simp: handle_close_def rbind_eq_Inr split: if_splits)
next
  case (call x f)
  then obtain p where p: "vars s x = Some p" by blast
  then obtain i where i: "p \<noteq> nullptr" "objs s p = Alive i" "t = s\<lparr>objs := (objs s)(p := Alive (f i))\<rparr>"
    using call by (auto simp: handle_call_def Let_def split: if_splits obj.splits)
  have "(\<exists>j. objs t q = Alive j) = (\<exists>j. objs s q = Alive j)" for q using i by simp
  moreover have "vars t = vars s" using i by simp
  ultimately show ?thesis using owned_onceD [OF assms(2)] by (intro owned_onceI) metis+
next
  case (destroy x)
  then obtain p where p: "vars s x = Some p" by blast
  then show ?thesis using owned_once_drop [OF assms(2) p] destroy by (auto simp: handle_destroy_def rbind_eq_Inr)
qed

lemma owned_once_run: "handle_run ow cl del s \<Longrightarrow> owned_once s"
proof (induction rule: handle_run.induct)
  case new
  then show ?case by (simp add: owned_once_def handles_new_def)
qed (rule owned_once_step)

text \<open>How an object came to be deleted.\<close>

definition right_end :: "bool \<Rightarrow> ('i \<Rightarrow> 'i result) \<Rightarrow> ('i \<Rightarrow> 'i) \<Rightarrow> 'i obj \<Rightarrow> bool" where
  "right_end ow cl del o' \<longleftrightarrow> (case o' of Deleted i j \<Rightarrow> (\<exists>k. cl i = Inr k \<and> j = del k) \<or> ow \<and> j = del i | _ \<Rightarrow> True)"

definition dropped_right :: "bool \<Rightarrow> ('i \<Rightarrow> 'i result) \<Rightarrow> ('i \<Rightarrow> 'i) \<Rightarrow> 'i handles \<Rightarrow> bool" where
  "dropped_right ow cl del s \<longleftrightarrow> (\<forall>p. right_end ow cl del (objs s p))"

lemma right_end_simps [simp]:
  "right_end ow cl del NotMade" "right_end ow cl del (Alive i)" "right_end ow cl del (Deleted i j) = ((\<exists>k. cl i = Inr k \<and> j = del k) \<or> ow \<and> j = del i)"
  by (simp_all add: right_end_def)

lemma dropped_right_drop:
  "dropped_right ow cl del s \<Longrightarrow> drop_obj c del p s = Inr t \<Longrightarrow> c = cl \<or> ow \<and> c = Inr \<or> p = nullptr \<Longrightarrow> dropped_right ow cl del (t\<lparr>vars := v\<rparr>)"
  by (auto simp: dropped_right_def drop_obj_Inr split: if_splits)

lemma dropped_right_step:
  assumes "handle_step ow cl del s t" "dropped_right ow cl del s"
  shows "dropped_right ow cl del t"
  using assms(1)
proof cases
  case (assign x y)
  let ?s = "s\<lparr>vars := (vars s)(y \<mapsto> nullptr)\<rparr>"
  let ?u = "?s\<lparr>vars := (vars ?s)(x \<mapsto> the_var y s)\<rparr>"
  have "dropped_right ow cl del ?u" using assms(2) by (simp add: dropped_right_def)
  moreover have "drop_obj Inr del (the_var x ?s) ?u = Inr t" using assign by (simp add: handle_assign_def Let_def)
  moreover have "ow \<or> the_var x ?s = nullptr" using assign by (auto simp: handle_set_def the_var_def)
  ultimately have "dropped_right ow cl del (t\<lparr>vars := vars t\<rparr>)" by (intro dropped_right_drop) auto
  then show ?thesis by simp
next
  case (close x)
  then show ?thesis using assms(2) by (auto simp: handle_close_def rbind_eq_Inr intro: dropped_right_drop split: if_splits)
next
  case (destroy x)
  then show ?thesis using assms(2) by (auto simp: handle_destroy_def rbind_eq_Inr intro: dropped_right_drop)
next
  case (call x f)
  then show ?thesis using assms(2) by (auto simp: handle_call_def Let_def dropped_right_def split: if_splits obj.splits)
qed (use assms(2) in \<open>auto simp: dropped_right_def handle_empty_def handle_adopt_def handle_move_def split: if_splits\<close>)

lemma dropped_right_run: "handle_run ow cl del s \<Longrightarrow> dropped_right ow cl del s"
proof (induction rule: handle_run.induct)
  case new
  then show ?case by (simp add: dropped_right_def handles_new_def)
qed (rule dropped_right_step)

lemma dropped_rightD: "dropped_right ow cl del s \<Longrightarrow> objs s p = Deleted i j \<Longrightarrow> (\<exists>k. cl i = Inr k \<and> j = del k) \<or> ow \<and> j = del i"
  unfolding dropped_right_def by (metis right_end_simps(3))

lemma all_gone: "owned_once s \<Longrightarrow> vars s = Map.empty \<Longrightarrow> objs s p \<noteq> Alive i"
  using owned_onceD(4) [of s p i] by auto

section \<open>What the handles rely on\<close>

text \<open>\<open>held\<close>: the descriptors an implementation holds; \<open>closed\<close>: those it has closed. Closing and deleting it closes what it holds, once.\<close>

locale socket_impl =
  fixes cl :: "'i \<Rightarrow> 'i result" and del :: "'i \<Rightarrow> 'i" and held closed :: "'i \<Rightarrow> int list"
  assumes closes: "cl i = Inr k \<Longrightarrow> closed (del k) = closed i @ held i"
begin

lemma no_descriptor_lost:
  assumes "handle_run False cl del s"
  shows "owned_once s \<and> (vars s = Map.empty \<longrightarrow> (\<forall>p i. objs s p \<noteq> Alive i)) \<and> (\<forall>p i j. objs s p = Deleted i j \<longrightarrow> closed j = closed i @ held i)"
proof -
  have o: "owned_once s" using owned_once_run [OF assms] .
  moreover have "dropped_right False cl del s" using dropped_right_run [OF assms] .
  ultimately show ?thesis using closes all_gone dropped_rightD by metis
qed

end

text \<open>An implementation whose destructor closes everything may also be overwritten by an assignment.\<close>

locale self_closing = socket_impl +
  assumes closes_itself: "closed (del i) = closed i @ held i"
begin

lemma no_descriptor_lost_overwritten:
  assumes "handle_run True cl del s"
  shows "owned_once s \<and> (vars s = Map.empty \<longrightarrow> (\<forall>p i. objs s p \<noteq> Alive i)) \<and> (\<forall>p i j. objs s p = Deleted i j \<longrightarrow> closed j = closed i @ held i)"
proof -
  have o: "owned_once s" using owned_once_run [OF assms] .
  moreover have "dropped_right True cl del s" using dropped_right_run [OF assms] .
  ultimately show ?thesis using closes closes_itself all_gone dropped_rightD by metis
qed

end

section \<open>The implementations\<close>

text \<open>\<open>PosixConnectedSocketImpl\<close>: \<open>close\<close> closes the descriptor, the destructor does nothing.\<close>

record posix_conn =
  pc_fd :: int
  pc_closed :: "int list"

definition posix_close :: "posix_conn \<Rightarrow> posix_conn" where
  "posix_close c = c\<lparr>pc_closed := pc_closed c @ [pc_fd c]\<rparr>"

interpretation posix_socket: socket_impl "\<lambda>c. Inr (posix_close c)" id "\<lambda>c. [pc_fd c]" pc_closed
  by unfold_locales (auto simp: posix_close_def)

text \<open>\<open>RDMAConnectedSocketImpl\<close>: \<open>close\<close> posts the last message, the destructor closes the descriptors; \<open>r\<close> is what the verbs answer.\<close>

definition rdma_held :: "csock \<Rightarrow> int list" where
  "rdma_held s = filter (\<lambda>fd. 0 \<le> fd) [notify_fd s, tcp_fd s]"

interpretation rdma_socket: self_closing "ConnSocket.close r" csock_destroy rdma_held closed_fds for r
  using csock_destroy_returns_chunks by unfold_locales (auto simp: ConnSocket.close_def fin_def rdma_held_def rbind_eq_Inr split: if_splits)

text \<open>The listening sockets.\<close>

record listener =
  ls_fd :: int
  ls_closed :: "int list"

definition posix_listener_abort :: "listener \<Rightarrow> listener" where
  "posix_listener_abort l = (let (fd, c) = posix_abort_accept (ls_fd l) in \<lparr>ls_fd = fd, ls_closed = ls_closed l @ c\<rparr>)"

definition rdma_listener_abort :: "listener \<Rightarrow> listener" where
  "rdma_listener_abort l = l\<lparr>ls_closed := ls_closed l @ abort_accept (ls_fd l)\<rparr>"

interpretation posix_server: socket_impl "\<lambda>l. Inr (posix_listener_abort l)" id "\<lambda>l. [ls_fd l]" ls_closed
  by unfold_locales (auto simp: posix_listener_abort_def posix_abort_accept_def)

interpretation rdma_server: socket_impl "\<lambda>l. Inr (rdma_listener_abort l)" id "\<lambda>l. filter (\<lambda>fd. 0 \<le> fd) [ls_fd l]" ls_closed
  by unfold_locales (auto simp: rdma_listener_abort_def abort_accept_def)

section \<open>Properties\<close>

text \<open>Handles never dangle. Whatever a program does with its handles, no two of them own the same socket, an assignment or a destruction never
  touches a deleted socket, and a call or \<open>close\<close> fails only on an empty handle, or because closing the socket itself faults.\<close>

theorem handles_never_dangle:
  assumes "handle_run ow cl del s" "vars s x \<noteq> None" "vars s y \<noteq> None"
  shows "(\<exists>t. handle_assign del x y s = Inr t)
    \<and> ((\<exists>t. handle_destroy cl del x s = Inr t) \<or> (\<exists>e. cl_fails cl x s e \<and> handle_destroy cl del x s = Inl e))
    \<and> (if handle_set x s then ((\<exists>t. handle_close cl del x s = Inr t) \<or> (\<exists>e. cl_fails cl x s e \<and> handle_close cl del x s = Inl e)) \<and> (\<exists>t. handle_call f x s = Inr t)
       else handle_close cl del x s = Inl NullDeref \<and> handle_call f x s = Inl NullDeref)"
  using handle_safe [OF owned_once_run [OF assms(1)] assms(2,3)] by (simp add: handle_set_def) (simp add: handle_close_def handle_call_def)

text \<open>C33: the handles of RDMA sockets close every descriptor once: in every state of a program, a deleted socket has closed the descriptors it held when
  it was last alive, each once, and when no handle is left no socket is. Overwriting a handle by an assignment loses nothing.\<close>

theorem rdma_handles_release:
  assumes "handle_run True (ConnSocket.close r) csock_destroy s"
  shows "owned_once s \<and> (vars s = Map.empty \<longrightarrow> (\<forall>p i. objs s p \<noteq> Alive i))
    \<and> (\<forall>p i j. objs s p = Deleted i j \<longrightarrow> closed_fds j = closed_fds i @ filter (\<lambda>fd. 0 \<le> fd) [notify_fd i, tcp_fd i])"
  using rdma_socket.no_descriptor_lost_overwritten [OF assms] by (simp add: rdma_held_def)

text \<open>The handles of TCP sockets close every descriptor once, in a program that does not assign to a handle that is set.\<close>

theorem posix_handles_release:
  assumes "handle_run False (\<lambda>c. Inr (posix_close c)) id s"
  shows "owned_once s \<and> (vars s = Map.empty \<longrightarrow> (\<forall>p i. objs s p \<noteq> Alive i)) \<and> (\<forall>p i j. objs s p = Deleted i j \<longrightarrow> pc_closed j = pc_closed i @ [pc_fd i])"
  using assms by (rule posix_socket.no_descriptor_lost)

text \<open>With an assignment to a set handle the descriptor of a TCP socket stays open: the destructor of the implementation does not close it.\<close>

theorem posix_overwrite_leaks:
  assumes "handle_run ow (\<lambda>c. Inr (posix_close c)) id s" "vars s x = Some p" "p \<noteq> nullptr" "vars s y \<noteq> None" "x \<noteq> y"
  shows "\<exists>t c. handle_assign id x y s = Inr t \<and> objs s p = Alive c \<and> objs t p = Deleted c c"
proof -
  obtain c where "objs s p = Alive c" using owned_alive [OF owned_once_run [OF assms(1)] assms(2,3)] by blast
  then show ?thesis using assms(2-5) by (auto simp: handle_assign_def Let_def the_var_def drop_obj_def)
qed

text \<open>Listening sockets are closed once, by \<open>abort_accept\<close> or by the destructor of the handle, on both stacks.\<close>

theorem server_handles_release:
  assumes "handle_run False (\<lambda>l. Inr (posix_listener_abort l)) id s" "handle_run False (\<lambda>l. Inr (rdma_listener_abort l)) id t"
  shows "(\<forall>p i j. objs s p = Deleted i j \<longrightarrow> ls_closed j = ls_closed i @ [ls_fd i]) \<and>
    (\<forall>p i j. objs t p = Deleted i j \<longrightarrow> ls_closed j = ls_closed i @ filter (\<lambda>fd. 0 \<le> fd) [ls_fd i]) \<and>
    ss_abort_accept (\<lambda>l. Inr (posix_listener_abort l)) id x s = handle_close (\<lambda>l. Inr (posix_listener_abort l)) id x s \<and>
    ss_destroy (\<lambda>l. Inr (rdma_listener_abort l)) id x t = handle_destroy (\<lambda>l. Inr (rdma_listener_abort l)) id x t"
  using posix_server.no_descriptor_lost [OF assms(1)] rdma_server.no_descriptor_lost [OF assms(2)]
  by (simp add: ss_abort_accept_def handle_close_def ss_destroy_def handle_destroy_def)

section \<open>Witnesses\<close>

lemma run_adopt: "handle_run ow cl del (handle_adopt x 5 i handles_new)"
  by (rule handle_run.step [OF handle_run.new handle_step.adopt]) (simp_all add: handles_new_def)

lemma run_adopt_empty: "x \<noteq> y \<Longrightarrow> handle_run ow cl del (handle_empty y (handle_adopt x 5 i handles_new))"
  by (rule handle_run.step [OF run_adopt handle_step.empty]) (simp add: handles_new_def handle_adopt_def)

lemma run_adopt_closed:
  assumes "cl i = Inr k"
  shows "handle_run ow cl del \<lparr>objs = (\<lambda>_. NotMade)(5 := Deleted i (del k)), vars = [0 \<mapsto> nullptr]\<rparr>"
  by (rule handle_run.step [OF run_adopt [of _ _ _ 0 i] handle_step.close [of _ 0]])
    (simp_all add: handles_new_def handle_adopt_def handle_close_def the_var_def drop_obj_def assms)

theorem handles_never_dangle_witness:
  "\<exists>t. handle_destroy (\<lambda>c. Inr (posix_close c)) id 0 (handle_empty 1 (handle_adopt 0 5 \<lparr>pc_fd = 9, pc_closed = []\<rparr> handles_new)) = Inr t"
  using handles_never_dangle [OF run_adopt_empty [of 0 1 False "\<lambda>c. Inr (posix_close c)" id "\<lparr>pc_fd = 9, pc_closed = []\<rparr>"], of 0 1]
  by (auto simp: handle_empty_def handle_adopt_def cl_fails_def split: obj.splits)

theorem rdma_handles_release_witness:
  "\<exists>k. ConnSocket.close 0 example_client = Inr k \<and>
    closed_fds (csock_destroy k) = closed_fds example_client @ filter (\<lambda>fd. 0 \<le> fd) [notify_fd example_client, tcp_fd example_client]"
proof -
  obtain k where k: "ConnSocket.close 0 example_client = Inr k" by (simp add: ConnSocket.close_def fin_def example_client_def csock_new_def)
  let ?s = "\<lparr>objs = (\<lambda>_. NotMade)(5 := Deleted example_client (csock_destroy k)), vars = [0 \<mapsto> nullptr]\<rparr>"
  have "\<forall>p i j. objs ?s p = Deleted i j \<longrightarrow> closed_fds j = closed_fds i @ filter (\<lambda>fd. 0 \<le> fd) [notify_fd i, tcp_fd i]"
    using rdma_handles_release [OF run_adopt_closed [where cl = "ConnSocket.close 0" and ow = True and del = csock_destroy, OF k]] by blast
  then have "closed_fds (csock_destroy k) = closed_fds example_client @ filter (\<lambda>fd. 0 \<le> fd) [notify_fd example_client, tcp_fd example_client]"
    by (rule allE [of _ 5]) simp
  then show ?thesis using k by blast
qed

theorem posix_handles_release_witness: "pc_closed (posix_close \<lparr>pc_fd = 9, pc_closed = []\<rparr>) = [9]"
proof -
  let ?c = "\<lparr>pc_fd = 9, pc_closed = []\<rparr>"
  have "\<forall>p i j. objs \<lparr>objs = (\<lambda>_. NotMade)(5 := Deleted ?c (id (posix_close ?c))), vars = [0 \<mapsto> nullptr]\<rparr> p = Deleted i j \<longrightarrow> pc_closed j = pc_closed i @ [pc_fd i]"
    using posix_handles_release [OF run_adopt_closed [of "\<lambda>c. Inr (posix_close c)" ?c, OF refl, of False id]] by blast
  then show ?thesis by (rule allE [of _ 5]) simp
qed

theorem posix_overwrite_leaks_witness:
  "\<exists>t c. handle_assign id 0 1 (handle_empty 1 (handle_adopt 0 5 \<lparr>pc_fd = 9, pc_closed = []\<rparr> handles_new)) = Inr t \<and> objs t 5 = Deleted c c \<and> pc_closed c = []"
  using posix_overwrite_leaks [OF run_adopt_empty [of 0 1 False "\<lambda>c. Inr (posix_close c)" id "\<lparr>pc_fd = 9, pc_closed = []\<rparr>"], of 0 5 1]
  by (auto simp: handle_empty_def handle_adopt_def)

theorem server_handles_release_witness:
  "ls_closed (posix_listener_abort \<lparr>ls_fd = 4, ls_closed = []\<rparr>) = [4] \<and> ls_closed (rdma_listener_abort \<lparr>ls_fd = 4, ls_closed = []\<rparr>) = [4]"
proof -
  let ?l = "\<lparr>ls_fd = 4, ls_closed = []\<rparr>"
  let ?s = "\<lparr>objs = (\<lambda>_. NotMade)(5 := Deleted ?l (id (posix_listener_abort ?l))), vars = [0 \<mapsto> nullptr]\<rparr>"
  let ?t = "\<lparr>objs = (\<lambda>_. NotMade)(5 := Deleted ?l (id (rdma_listener_abort ?l))), vars = [0 \<mapsto> nullptr]\<rparr>"
  note w = server_handles_release [OF run_adopt_closed [of "\<lambda>l. Inr (posix_listener_abort l)" ?l, OF refl, of False id] run_adopt_closed [of "\<lambda>l. Inr (rdma_listener_abort l)" ?l, OF refl, of False id], of 0]
  have "\<forall>p i j. objs ?s p = Deleted i j \<longrightarrow> ls_closed j = ls_closed i @ [ls_fd i]" using w by (elim conjE)
  then have "ls_closed (posix_listener_abort ?l) = [4]" by (rule allE [of _ 5]) simp
  moreover have "\<forall>p i j. objs ?t p = Deleted i j \<longrightarrow> ls_closed j = ls_closed i @ filter (\<lambda>fd. 0 \<le> fd) [ls_fd i]" using w by (elim conjE)
  then have "ls_closed (rdma_listener_abort ?l) = [4]" by (rule allE [of _ 5]) simp
  ultimately show ?thesis ..
qed

end
