(* ===== verification/CounterLife.thy ===== *)
theory CounterLife
  imports NetworkStack
begin

text \<open>
  What happens to performance counters after their creation: the destructors of the workers and of the stack (\<open>Stack.h\<close>,
  \<open>RDMAStack.cc\<close>), \<open>PerfCountersCollection\<close> with its lock and \<open>PerfCountersDeleter\<close> (\<open>perf_counters_collection.cc\<close>), and the helpers that
  use counters: \<open>PerfGuard\<close>, \<open>avg_tracker\<close> and the copy of a counter (\<open>perf_counters.h\<close>).
\<close>

section \<open>The destructors\<close>

text \<open>\<open>delete\<close> of an object of counters.\<close>

definition free_counters :: "ptr \<Rightarrow> collection \<Rightarrow> collection" where
  "free_counters p c = c\<lparr>c_heap := (c_heap c)(p := None)\<rparr>"

text \<open>\<open>Worker::~Worker\<close>. The destructor of \<open>RDMAWorker\<close>, which runs before it, leaves the counters of the derived class alone.\<close>

definition worker_delete :: "ptr \<Rightarrow> collection \<Rightarrow> collection result" where
  "worker_delete p c = (if p \<noteq> nullptr then rbind (coll_remove c p) (\<lambda>c1. Inr (free_counters p c1)) else Inr c)"

text \<open>The counters of the base class of worker \<open>i\<close>.\<close>

definition base_logger :: "bool \<Rightarrow> (nat \<Rightarrow> ptr) \<Rightarrow> nat \<Rightarrow> ptr" where
  "base_logger rdma alloc i = (if rdma then alloc (2 * i + 1) else alloc i)"

fun stack_delete :: "bool \<Rightarrow> (nat \<Rightarrow> ptr) \<Rightarrow> nat list \<Rightarrow> collection \<Rightarrow> collection result" where
  "stack_delete rdma alloc [] c = Inr c"
| "stack_delete rdma alloc (i # ws) c = rbind (worker_delete (base_logger rdma alloc i) c) (stack_delete rdma alloc ws)"

section \<open>The locked collection\<close>

text \<open>The mutex is not recursive: a call from inside \<open>with_counters\<close> waits for itself.\<close>

record locked_coll =
  lc_impl :: collection
  lc_lock :: bool

definition under_lock :: "(collection \<Rightarrow> ('a \<times> collection) result) \<Rightarrow> locked_coll \<Rightarrow> ('a \<times> locked_coll) result" where
  "under_lock f s = (if lc_lock s then Inl Deadlock else rbind (f (lc_impl s)) (\<lambda>(a, c). Inr (a, \<lparr>lc_impl = c, lc_lock = False\<rparr>)))"

definition locked_remove :: "ptr \<Rightarrow> locked_coll \<Rightarrow> (unit \<times> locked_coll) result" where
  "locked_remove p = under_lock (\<lambda>c. rbind (coll_remove c p) (\<lambda>c1. Inr ((), c1)))"

definition locked_clear :: "locked_coll \<Rightarrow> (unit \<times> locked_coll) result" where
  "locked_clear = under_lock (\<lambda>c. Inr ((), coll_clear c))"

definition locked_reset :: "string \<Rightarrow> locked_coll \<Rightarrow> (bool \<times> locked_coll) result" where
  "locked_reset n = under_lock (\<lambda>c. rbind (coll_reset c n) (\<lambda>(c1, b). Inr (b, c1)))"

text \<open>\<open>add\<close>; \<open>None\<close> when the loop of \<open>PerfCountersCollectionImpl::add\<close> does not end.\<close>

definition locked_coll_add :: "ptr \<Rightarrow> locked_coll \<Rightarrow> locked_coll result option" where
  "locked_coll_add p s =
     (if lc_lock s then Some (Inl Deadlock)
      else map_option (\<lambda>r. rbind r (\<lambda>c. Inr \<lparr>lc_impl = c, lc_lock = False\<rparr>)) (coll_add (lc_impl s) p))"

text \<open>\<open>with_counters (fn)\<close>: the function runs under the lock, on the index; it may call the collection.\<close>

definition with_counters :: "((string \<Rightarrow> (ptr \<times> nat) option) \<Rightarrow> locked_coll \<Rightarrow> locked_coll result) \<Rightarrow> locked_coll \<Rightarrow> locked_coll result" where
  "with_counters fn s =
     (if lc_lock s then Inl Deadlock
      else rbind (fn (c_by_path (lc_impl s)) (s\<lparr>lc_lock := True\<rparr>)) (\<lambda>s1. Inr (s1\<lparr>lc_lock := False\<rparr>)))"

text \<open>\<open>PerfCountersDeleter::operator()\<close>, with a context or without.\<close>

definition counters_deleter :: "bool \<Rightarrow> ptr \<Rightarrow> locked_coll \<Rightarrow> locked_coll result" where
  "counters_deleter has_context p s =
     rbind (if has_context then rbind (locked_remove p s) (\<lambda>(_, s1). Inr s1) else Inr s)
       (\<lambda>s1. Inr (s1\<lparr>lc_impl := free_counters p (lc_impl s1)\<rparr>))"

section \<open>Users of counters\<close>

text \<open>\<open>PerfGuard\<close>: the constructor keeps the time, the destructor adds the difference. The signed difference is converted to
  the unsigned \<open>timespan\<close>.\<close>

record perf_guard =
  pg_start :: timespan
  pg_event :: int

definition guard_new :: "timespan \<Rightarrow> int \<Rightarrow> perf_guard" where
  "guard_new now event = \<lparr>pg_start = now, pg_event = event\<rparr>"

definition guard_delete :: "timespan \<Rightarrow> perf_guard \<Rightarrow> perf_counters \<Rightarrow> perf_counters result" where
  "guard_delete now g pc = rbind (time_difference now (pg_start g)) (\<lambda>d. pc_tinc pc (pg_event g) (of_int d))"

text \<open>\<open>avg_tracker\<close>: pairs of a count and a sum.\<close>

record avg_tracker =
  at_last :: "u64 \<times> u64"
  at_cur :: "u64 \<times> u64"

definition tracker_new :: avg_tracker where
  "tracker_new = \<lparr>at_last = (0, 0), at_cur = (0, 0)\<rparr>"

definition current_avg :: "avg_tracker \<Rightarrow> u64" where
  "current_avg t = (if fst (at_cur t) = fst (at_last t) then 0 else (snd (at_cur t) - snd (at_last t)) div (fst (at_cur t) - fst (at_last t)))"

definition consume_next :: "u64 \<times> u64 \<Rightarrow> avg_tracker \<Rightarrow> avg_tracker" where
  "consume_next nxt t = t\<lparr>at_last := at_cur t, at_cur := nxt\<rparr>"

text \<open>The copy constructor of a counter. It reads the average with the retry of \<open>read_avg\<close>; \<open>None\<close> when the two counts differ, and
  the priority keeps its initial value.\<close>

definition data_copy :: "perf_data \<Rightarrow> perf_data option" where
  "data_copy d = map_option (\<lambda>(v, n). perf_data_new\<lparr>d_name := d_name d, d_description := d_description d, d_nick := d_nick d, d_type := d_type d,
     d_unit := d_unit d, d_u64 := v, d_avgcount := n, d_avgcount2 := n, d_histogram := d_histogram d\<rparr>) (read_avg d)"

section \<open>Removing counters\<close>

lemma coll_inv_free:
  assumes "coll_inv c" "p \<notin> set (c_loggers c)"
  shows "coll_inv (free_counters p c)"
proof -
  let ?c = "free_counters p c"
  have eq: "get_name ?c l = get_name c l" "logger_data ?c l = logger_data c l" "path_of ?c l = path_of c l" "logger_ok ?c l = logger_ok c l"
    if "l \<in> set (c_loggers c)" for l
    using that assms(2) by (auto simp: free_counters_def get_name_def logger_data_def path_of_def logger_ok_def fun_eq_iff)
  have "c_loggers ?c = c_loggers c" "c_by_path ?c = c_by_path c" by (simp_all add: free_counters_def)
  with assms(1) show ?thesis unfolding coll_inv_def inj_on_def using eq by auto
qed

text \<open>Removing and deleting one registered object.\<close>

lemma remove_free:
  assumes "coll_inv c" "p \<in> set (c_loggers c)"
  shows "\<exists>c1. coll_remove c p = Inr c1 \<and> coll_inv (free_counters p c1) \<and> c_loggers (free_counters p c1) = remove1 p (c_loggers c)
    \<and> c_heap (free_counters p c1) = (c_heap c)(p := None)"
proof -
  obtain m where m: "coll_remove c p = Inr (c\<lparr>c_loggers := remove1 p (c_loggers c), c_by_path := m\<rparr>)"
    "coll_inv (c\<lparr>c_loggers := remove1 p (c_loggers c), c_by_path := m\<rparr>)" using coll_remove_inv [OF assms] by blast
  have "distinct (c_loggers c)" using assms(1) by (simp add: coll_inv_def)
  then have "p \<notin> set (c_loggers (c\<lparr>c_loggers := remove1 p (c_loggers c), c_by_path := m\<rparr>))" by simp
  from coll_inv_free [OF m(2) this] m(1) show ?thesis by (simp add: free_counters_def)
qed

lemma stack_delete_result:
  assumes "coll_inv c" "distinct (map (base_logger rdma alloc) ws)" "\<forall>i \<in> set ws. base_logger rdma alloc i \<in> set (c_loggers c) \<and> base_logger rdma alloc i \<noteq> nullptr"
  shows "\<exists>c'. stack_delete rdma alloc ws c = Inr c' \<and> coll_inv c' \<and> c_loggers c' = filter (\<lambda>p. p \<notin> base_logger rdma alloc ` set ws) (c_loggers c)
    \<and> (\<forall>p. c_heap c' p = (if p \<in> base_logger rdma alloc ` set ws then None else c_heap c p))"
  using assms
proof (induction ws arbitrary: c)
  case (Cons i ws)
  let ?p = "base_logger rdma alloc i"
  have p: "?p \<in> set (c_loggers c)" "?p \<noteq> nullptr" using Cons.prems(3) by simp_all
  obtain c1 where c1: "coll_remove c ?p = Inr c1" "coll_inv (free_counters ?p c1)" "c_loggers (free_counters ?p c1) = remove1 ?p (c_loggers c)"
    "c_heap (free_counters ?p c1) = (c_heap c)(?p := None)" using remove_free [OF Cons.prems(1) p(1)] by blast
  have d: "distinct (c_loggers c)" using Cons.prems(1) by (simp add: coll_inv_def)
  have "\<forall>j \<in> set ws. base_logger rdma alloc j \<in> set (c_loggers (free_counters ?p c1)) \<and> base_logger rdma alloc j \<noteq> nullptr"
    using Cons.prems(2,3) d by (simp add: c1(3)) (metis imageI)
  then obtain c' where c': "stack_delete rdma alloc ws (free_counters ?p c1) = Inr c'" "coll_inv c'"
    "c_loggers c' = filter (\<lambda>p. p \<notin> base_logger rdma alloc ` set ws) (remove1 ?p (c_loggers c))"
    "\<forall>p. c_heap c' p = (if p \<in> base_logger rdma alloc ` set ws then None else ((c_heap c)(?p := None)) p)"
    using Cons.IH [OF c1(2)] Cons.prems(2) unfolding c1(3,4) by auto
  have "c_loggers c' = filter (\<lambda>p. p \<notin> base_logger rdma alloc ` set (i # ws)) (c_loggers c)"
    unfolding c'(3) by (simp add: distinct_remove1_removeAll [OF d] removeAll_filter_not_eq) (rule filter_cong, auto)
  moreover have "stack_delete rdma alloc (i # ws) c = Inr c'" using c1(1) c'(1) p(2) by (simp add: worker_delete_def)
  ultimately show ?case using c'(2,4) by auto
qed simp

text \<open>The pointers that stay: the dispatcher and the derived parts of the workers.\<close>

definition left_over :: "bool \<Rightarrow> (nat \<Rightarrow> ptr) \<Rightarrow> nat \<Rightarrow> ptr list" where
  "left_over rdma alloc n = (if rdma then alloc 0 # map (\<lambda>i. alloc (2 * i + 2)) [0 ..< n] else [])"

lemma stack_entries_left:
  assumes "inj alloc"
  shows "filter (\<lambda>p. p \<notin> base_logger rdma alloc ` {0 ..< n}) (map fst (stack_entries rdma alloc n)) = left_over rdma alloc n"
proof -
  have "filter (\<lambda>p. p \<notin> base_logger rdma alloc ` {0 ..< n}) (concat (map (map fst \<circ> worker_entries rdma alloc) [0 ..< k])) =
      (if rdma then map (\<lambda>i. alloc (2 * i + 2)) [0 ..< k] else [])" if "k \<le> n" for k
    using that by (induction k) (use assms in \<open>auto simp: worker_entries_def base_logger_def inj_eq image_iff, presburger+\<close>)
  from this [of n] show ?thesis using assms
    by (auto simp: stack_entries_def left_over_def map_concat base_logger_def inj_eq image_iff comp_def)
qed

lemma base_entry:
  assumes "i < n"
  shows "base_logger rdma alloc i \<in> set (map fst (stack_entries rdma alloc n))"
proof -
  have "base_logger rdma alloc i \<in> fst ` set (worker_entries rdma alloc i)" by (simp add: worker_entries_def base_logger_def)
  moreover have "set (worker_entries rdma alloc i) \<subseteq> set (stack_entries rdma alloc n)" using assms by (auto simp: stack_entries_def)
  ultimately show ?thesis by auto
qed

lemma registered_deleted:
  assumes "inj alloc" "\<forall>k. alloc k \<noteq> nullptr" "registered c1 (stack_entries rdma alloc n)"
  shows "\<exists>c2. stack_delete rdma alloc [0 ..< n] c1 = Inr c2 \<and> coll_inv c2 \<and> c_loggers c2 = left_over rdma alloc n
    \<and> (\<forall>i < n. c_heap c2 (base_logger rdma alloc i) = None) \<and> (\<forall>p \<in> set (left_over rdma alloc n). c_heap c2 p \<noteq> None)"
proof -
  have inv: "coll_inv c1" "c_loggers c1 = map fst (stack_entries rdma alloc n)" using assms(3) by (simp_all add: registered_def)
  have "inj (base_logger rdma alloc)" using injD [OF assms(1)] by (intro injI) (fastforce simp: base_logger_def split: if_splits)
  then have "distinct (map (base_logger rdma alloc) [0 ..< n])" by (simp add: distinct_map inj_on_def)
  moreover have "\<forall>i \<in> set [0 ..< n]. base_logger rdma alloc i \<in> set (c_loggers c1) \<and> base_logger rdma alloc i \<noteq> nullptr"
    using assms(2) base_entry by (auto simp: inv(2) base_logger_def)
  ultimately obtain c2 where c2: "stack_delete rdma alloc [0 ..< n] c1 = Inr c2" "coll_inv c2"
    "c_loggers c2 = filter (\<lambda>p. p \<notin> base_logger rdma alloc ` {0 ..< n}) (c_loggers c1)"
    "\<forall>p. c_heap c2 p = (if p \<in> base_logger rdma alloc ` {0 ..< n} then None else c_heap c1 p)"
    using stack_delete_result [OF inv(1)] by (metis set_upt)
  have left: "c_loggers c2 = left_over rdma alloc n" unfolding c2(3) inv(2) by (rule stack_entries_left [OF assms(1)])
  then have "\<forall>p \<in> set (left_over rdma alloc n). c_heap c2 p \<noteq> None" using c2(2) by (simp add: coll_inv_def logger_ok_def)
  with c2 left show ?thesis by simp
qed

text \<open>Deleting a stack removes the counters of its workers from the collection and frees them. Of a posix stack nothing is left. The counters
  of the dispatcher and of the derived class \<open>RDMAWorker\<close> are not removed by any destructor: they stay registered.\<close>

theorem stack_counters_left:
  assumes "t = ''posix'' \<or> t = ''rdma''" "op_threads_num \<noteq> 0" "inj alloc" "\<forall>k. alloc k \<noteq> nullptr" "\<forall>j < 96. init j = 0"
    and "c_loggers c = []" "c_by_path c = Map.empty"
  shows "\<exists>ws c1 c2. stack_create t op_threads_num alloc init c = Some (Inr (ws, c1)) \<and> stack_delete (t = ''rdma'') alloc ws c1 = Inr c2
    \<and> coll_inv c2 \<and> c_loggers c2 = left_over (t = ''rdma'') alloc (length ws)
    \<and> (\<forall>i < length ws. c_heap c2 (base_logger (t = ''rdma'') alloc i) = None) \<and> (\<forall>p \<in> set (left_over (t = ''rdma'') alloc (length ws)). c_heap c2 p \<noteq> None)"
proof -
  let ?n = "min (unat op_threads_num) 96"
  obtain c1 where c1: "stack_create t op_threads_num alloc init c = Some (Inr ([0 ..< ?n], c1))" "registered c1 (stack_entries (t = ''rdma'') alloc ?n)"
    using stack_create_registers [OF assms(1-3,5-7)] by blast
  from registered_deleted [OF assms(3,4) c1(2)] c1(1) show ?thesis by (metis length_upt minus_nat.diff_0)
qed

theorem stack_counters_left_witness:
  "\<exists>ws c1 c2. stack_create ''rdma'' 2 Suc (\<lambda>_. 0) (collection_new Map.empty) = Some (Inr (ws, c1)) \<and> stack_delete (''rdma'' = ''rdma'') Suc ws c1 = Inr c2
    \<and> c_loggers c2 = left_over (''rdma'' = ''rdma'') Suc (length ws)"
  using stack_counters_left [of "''rdma''" 2 Suc "\<lambda>_. 0" "collection_new Map.empty"] by (auto simp: collection_new_def)

section \<open>The lock of the collection\<close>

text \<open>\<open>PerfCountersDeleter\<close> with a context takes the object out of the collection before it deletes it; without a context, or called for an
  object another thread is looking at through \<open>with_counters\<close>, it does not: the pointer stays in the collection, or the call waits
  for ever.\<close>

theorem deleter_unregisters:
  assumes "coll_inv (lc_impl s)" "\<not> lc_lock s" "p \<in> set (c_loggers (lc_impl s))"
  shows "(\<exists>s'. counters_deleter True p s = Inr s' \<and> coll_inv (lc_impl s') \<and> p \<notin> set (c_loggers (lc_impl s')) \<and> c_heap (lc_impl s') p = None \<and> \<not> lc_lock s')
    \<and> (\<exists>s'. counters_deleter False p s = Inr s' \<and> p \<in> set (c_loggers (lc_impl s')) \<and> c_heap (lc_impl s') p = None)
    \<and> with_counters (\<lambda>_. counters_deleter True p) s = Inl Deadlock"
proof -
  obtain c1 where c1: "coll_remove (lc_impl s) p = Inr c1" "coll_inv (free_counters p c1)" "c_loggers (free_counters p c1) = remove1 p (c_loggers (lc_impl s))"
    "c_heap (free_counters p c1) = (c_heap (lc_impl s))(p := None)" using remove_free [OF assms(1,3)] by blast
  have d: "distinct (c_loggers (lc_impl s))" using assms(1) by (simp add: coll_inv_def)
  have "counters_deleter True p s = Inr \<lparr>lc_impl = free_counters p c1, lc_lock = False\<rparr>"
    using c1(1) assms(2) by (simp add: counters_deleter_def locked_remove_def under_lock_def)
  then have a: "\<exists>s'. counters_deleter True p s = Inr s' \<and> coll_inv (lc_impl s') \<and> p \<notin> set (c_loggers (lc_impl s')) \<and> c_heap (lc_impl s') p = None \<and> \<not> lc_lock s'"
    using c1 d by simp
  have b: "\<exists>s'. counters_deleter False p s = Inr s' \<and> p \<in> set (c_loggers (lc_impl s')) \<and> c_heap (lc_impl s') p = None"
    using assms(3) by (simp add: counters_deleter_def free_counters_def)
  have "with_counters (\<lambda>_. counters_deleter True p) s = Inl Deadlock"
    using assms(2) by (simp add: with_counters_def counters_deleter_def locked_remove_def under_lock_def)
  with a b show ?thesis by blast
qed

lemma one_registered:
  "\<exists>c'. coll_add (collection_new [7 \<mapsto> named_counters]) 7 = Some (Inr c') \<and> coll_inv c' \<and> c_loggers c' = [7]"
proof -
  let ?c = "collection_new [7 \<mapsto> named_counters]"
  have "coll_inv ?c" "7 \<notin> set (c_loggers ?c)" "logger_ok ?c 7" "get_name ?c 7 \<notin> get_name ?c ` set (c_loggers ?c)"
    by (simp_all add: coll_inv_def collection_new_def logger_ok_def logger_data_def named_counters_def get_name_def example_counters_def)
  from coll_add_inv [OF this] show ?thesis by (auto simp: collection_new_def)
qed

theorem deleter_unregisters_witness:
  "\<exists>c s'. coll_add (collection_new [7 \<mapsto> named_counters]) 7 = Some (Inr c) \<and> counters_deleter True 7 \<lparr>lc_impl = c, lc_lock = False\<rparr> = Inr s'
    \<and> 7 \<notin> set (c_loggers (lc_impl s'))"
proof -
  obtain c where c: "coll_add (collection_new [7 \<mapsto> named_counters]) 7 = Some (Inr c)" "coll_inv c" "c_loggers c = [7]" using one_registered by blast
  then show ?thesis using deleter_unregisters [of "\<lparr>lc_impl = c, lc_lock = False\<rparr>" 7] by auto
qed

section \<open>Guards and averages\<close>

text \<open>A \<open>PerfGuard\<close> adds the time between its construction and its destruction to its counter, once. When the clock was set back in between, it
  adds \<open>2 ^ 64\<close> minus the step instead.\<close>

theorem guard_adds_elapsed:
  assumes "at_idx pc e (\<lambda>i d. Inr (i, d)) = Inr (i, d)" "has d PERFCOUNTER_TIME" "i64 (sint now - sint start) = Inr k"
  shows "guard_delete now (guard_new start e) pc = Inr (put_data pc i (if has d PERFCOUNTER_LONGRUNAVG
      then d\<lparr>d_avgcount := d_avgcount d + 1, d_u64 := d_u64 d + (now - start), d_avgcount2 := d_avgcount2 d + 1\<rparr> else d\<lparr>d_u64 := d_u64 d + (now - start)\<rparr>))
    \<and> (now < start \<longrightarrow> unat (now - start) = 2 ^ 64 - unat (start - now))"
proof -
  have "k = sint now - sint start" using assms(3) by (simp add: i64_def split: if_splits)
  then have k: "(of_int k :: u64) = now - start" by simp
  have at: "at_idx pc e f = f i d" for f :: "nat \<Rightarrow> perf_data \<Rightarrow> perf_counters result"
    using assms(1) by (auto simp: at_idx_def kassert_def Let_def split: if_splits)
  have "guard_delete now (guard_new start e) pc = pc_tinc pc e (now - start)"
    using assms(3) k by (simp add: guard_delete_def guard_new_def time_difference_def)
  moreover have "unat (now - start) = 2 ^ 64 - unat (start - now)" if "now < start"
    using that unat_less_u64 [of start] by (simp add: unat_sub_if' word_less_nat_alt)
  ultimately show ?thesis using assms(2) by (simp add: pc_tinc_def at)
qed

text \<open>\<open>avg_tracker\<close> gives the average over the last window: when the count grew by \<open>n\<close> and the sum by \<open>v\<close> between two snapshots, it is \<open>v\<close> divided by \<open>n\<close>,
  and 0 when nothing was counted. Counters that wrap around do not disturb it.\<close>

theorem tracker_last_window:
  "current_avg (consume_next (c + n, s + v) (consume_next (c, s) t)) = (if n = 0 then 0 else v div n)
    \<and> current_avg (consume_next (n, v) tracker_new) = (if n = 0 then 0 else v div n) \<and> current_avg tracker_new = 0"
  by (simp add: current_avg_def consume_next_def tracker_new_def)

text \<open>A copy of a counter is a consistent snapshot with the same values, made when no update is under way; the priority is lost.\<close>

theorem data_copy_snapshot:
  "data_copy d = (if d_avgcount d = d_avgcount2 d then Some (d\<lparr>d_prio := 0\<rparr>) else None)"
  by (cases d) (simp add: data_copy_def read_avg_def perf_data_new_def)

theorem guard_adds_elapsed_witness:
  "\<exists>pc'. guard_delete 500 (guard_new 200 1) \<lparr>pc_lower_bound = 0, pc_upper_bound = 2, pc_name = ''x'', pc_prio_adjust = 0,
      pc_data = [perf_data_new\<lparr>d_type := PERFCOUNTER_TIME\<rparr>]\<rparr> = Inr pc' \<and> map d_u64 (pc_data pc') = [300]"
  using guard_adds_elapsed [of "\<lparr>pc_lower_bound = 0, pc_upper_bound = 2, pc_name = ''x'', pc_prio_adjust = 0, pc_data = [perf_data_new\<lparr>d_type := PERFCOUNTER_TIME\<rparr>]\<rparr>"
      1 0 "perf_data_new\<lparr>d_type := PERFCOUNTER_TIME\<rparr>" 500 200 300]
  by (simp add: at_idx_def kassert_def has_def PERFCOUNTER_TIME_def PERFCOUNTER_LONGRUNAVG_def i64_def put_data_def perf_data_new_def)

end
