(* ===== verification/ServerLife.thy ===== *)
theory ServerLife
  imports CounterLife Acceptor Config
begin

text \<open>
  The life of a \<open>Server\<close> (\<open>src/src/core/server.cc\<close>): the constructor creates a network stack (theory NetworkStack) and one \<open>Processor\<close> for each
  of its workers (theory Acceptor), \<open>start\<close> spawns the threads of the workers and declares the stack ready, \<open>stop\<close> does nothing, and the
  destructor drops the stack. How \<open>NetworkStack::start\<close> interleaves with the threads is the subject of StackThreads; here it is one
  step. A thread object that is destroyed while it can still be joined ends the process.
\<close>

record server_life =
  sl_config :: config
  sl_server :: server
  sl_workers :: "nat list"
  sl_proc_worker :: "nat list"
  sl_threads :: "bool list"
  sl_started :: bool
  sl_ready :: bool
  sl_coll :: collection

definition transport :: "config \<Rightarrow> string" where
  "transport cfg = (if m_use_rdma cfg then ''rdma'' else ''posix'')"

definition new_processor :: processor where
  "new_processor = \<lparr>has_listener = False, is_started = False, p_watched = False\<rparr>"

text \<open>\<open>conn_count\<close> has no initial value: \<open>junk\<close> is what the memory holds. A posix stack is always ready.\<close>

definition server_new :: "config \<Rightarrow> (nat \<Rightarrow> ptr) \<Rightarrow> (nat \<Rightarrow> int) \<Rightarrow> 32 word \<Rightarrow> collection \<Rightarrow> server_life result option" where
  "server_new cfg alloc init junk c =
     obind (stack_create (transport cfg) (m_op_threads_num cfg) alloc init c) (\<lambda>(ws, c1).
       Some (Inr \<lparr>sl_config = cfg, sl_server = \<lparr>sv_processors = map (\<lambda>_. new_processor) ws, conn_count = junk, lock_held = False\<rparr>,
         sl_workers = ws, sl_proc_worker = map (\<lambda>i. ws ! i) [0 ..< length ws], sl_threads = [], sl_started = False,
         sl_ready = (\<not> m_use_rdma cfg), sl_coll = c1\<rparr>))"

text \<open>\<open>NetworkStack::start\<close> spawns a thread per worker unless it was started, then \<open>ready\<close>.\<close>

definition server_start :: "server_life \<Rightarrow> server_life" where
  "server_start s =
     (let s1 = (if sl_started s then s else s\<lparr>sl_threads := sl_threads s @ map (\<lambda>_. True) (sl_workers s), sl_started := True\<rparr>)
      in s1\<lparr>sl_ready := True\<rparr>)"

definition server_stop :: "server_life \<Rightarrow> server_life" where
  "server_stop s = s"

definition life_bind :: "int \<Rightarrow> entity_addr \<Rightarrow> (nat \<Rightarrow> int) \<Rightarrow> nat \<Rightarrow> server_life \<Rightarrow> (int \<times> server_life) result" where
  "life_bind dp a res n s = rbind (server_bind (sl_ready s) dp a res n (sl_server s)) (\<lambda>(r, sv). Inr (r, s\<lparr>sl_server := sv\<rparr>))"

text \<open>The destructor of the stack: first its thread objects, then the workers of the base class.\<close>

definition server_delete :: "(nat \<Rightarrow> ptr) \<Rightarrow> server_life \<Rightarrow> collection result" where
  "server_delete alloc s =
     (if True \<in> set (sl_threads s) then Inl AbortCall else stack_delete (m_use_rdma (sl_config s)) alloc (sl_workers s) (sl_coll s))"

section \<open>Properties\<close>

lemma transport_cases: "transport cfg = ''posix'' \<or> transport cfg = ''rdma''" "(transport cfg = ''rdma'') = m_use_rdma cfg"
  by (simp_all add: transport_def)

lemma server_new_result:
  assumes "m_op_threads_num cfg \<noteq> 0" "inj alloc" "\<forall>j < 96. init j = 0" "c_loggers c = []" "c_by_path c = Map.empty"
  shows "\<exists>c1. stack_create (transport cfg) (m_op_threads_num cfg) alloc init c = Some (Inr ([0 ..< min (unat (m_op_threads_num cfg)) 96], c1))"
  using stack_create_registers [OF transport_cases(1) assms] by blast

text \<open>C34: a new server has one processor for every worker, processor \<open>i\<close> on worker \<open>i\<close>, at least one and at most 96, none of them running. Deleting it
  before it is started gives the counters of the workers back; \<open>left_over\<close> names those that stay registered: none on TCP, and on RDMA those of the dispatcher and of
  every \<open>RDMAWorker\<close>, which their destructors do not remove. Deleting it after \<open>start\<close>, with \<open>stop\<close> or without, ends the process, because \<open>stop\<close> does not
  join the threads.\<close>

theorem server_life_cycle:
  assumes "m_op_threads_num cfg \<noteq> 0" "inj alloc" "\<forall>k. alloc k \<noteq> nullptr" "\<forall>j < 96. init j = 0" "c_loggers c = []" "c_by_path c = Map.empty"
  shows "\<exists>s c2. server_new cfg alloc init junk c = Some (Inr s) \<and> 0 < length (sl_workers s) \<and> length (sl_workers s) \<le> 96
    \<and> sl_proc_worker s = sl_workers s \<and> sv_processors (sl_server s) = replicate (length (sl_workers s)) new_processor
    \<and> server_delete alloc s = Inr c2 \<and> c_loggers c2 = left_over (m_use_rdma cfg) alloc (length (sl_workers s))
    \<and> server_delete alloc (server_stop (server_start s)) = Inl AbortCall"
proof -
  let ?n = "min (unat (m_op_threads_num cfg)) 96"
  obtain c1 where c1: "stack_create (transport cfg) (m_op_threads_num cfg) alloc init c = Some (Inr ([0 ..< ?n], c1))"
    "registered c1 (stack_entries (m_use_rdma cfg) alloc ?n)"
    using stack_create_registers [OF transport_cases(1) assms(1,2,4-6)] unfolding transport_cases(2) by blast
  let ?s = "\<lparr>sl_config = cfg, sl_server = \<lparr>sv_processors = map (\<lambda>_. new_processor) [0 ..< ?n], conn_count = junk, lock_held = False\<rparr>,
     sl_workers = [0 ..< ?n], sl_proc_worker = map (\<lambda>i. [0 ..< ?n] ! i) [0 ..< ?n], sl_threads = [], sl_started = False,
     sl_ready = (\<not> m_use_rdma cfg), sl_coll = c1\<rparr>"
  have new: "server_new cfg alloc init junk c = Some (Inr ?s)" using c1(1) by (simp add: server_new_def)
  have pos: "0 < ?n" using assms(1) by (simp add: unat_gt_0)
  obtain c2 where c2: "stack_delete (m_use_rdma cfg) alloc [0 ..< ?n] c1 = Inr c2" "c_loggers c2 = left_over (m_use_rdma cfg) alloc ?n"
    using registered_deleted [OF assms(2,3) c1(2)] by blast
  have "sl_proc_worker ?s = sl_workers ?s" by (simp add: map_nth [of "[0 ..< ?n]", simplified])
  moreover have "sv_processors (sl_server ?s) = replicate (length (sl_workers ?s)) new_processor" by (simp add: map_replicate_const)
  moreover have "server_delete alloc ?s = Inr c2" using c2(1) by (simp add: server_delete_def)
  moreover have "server_delete alloc (server_stop (server_start ?s)) = Inl AbortCall" using pos by (force simp: server_delete_def server_stop_def server_start_def)
  ultimately show ?thesis using new pos c2(2) by (intro exI [of _ ?s] exI [of _ c2]) simp
qed

text \<open>A server on RDMA that binds before it is started is lost: the call returns 0 without binding and keeps the lock, and after \<open>start\<close> every
  further \<open>bind\<close> waits for ever. After \<open>start\<close> the first \<open>bind\<close> reaches a processor.\<close>

theorem bind_needs_start:
  assumes "server_new cfg alloc init junk c = Some (Inr s)" "m_use_rdma cfg"
  shows "\<exists>s'. life_bind dp a res n s = Inr (0, s') \<and> sl_server s' = (sl_server s)\<lparr>lock_held := True\<rparr>
    \<and> life_bind dp' a' res' n' (server_start s') = Inl Deadlock \<and> sl_ready (server_start s)"
proof -
  have "\<not> sl_ready s" "\<not> lock_held (sl_server s)" using assms by (auto simp: server_new_def obind_def split: sum.splits option.splits bind_splits)
  then show ?thesis by (simp add: life_bind_def server_bind_def server_start_def)
qed

section \<open>Witnesses\<close>

lemma example_threads: "m_op_threads_num example_config = 1" "m_use_rdma example_config"
  by (simp_all add: example_config_def config_defaults_def)

theorem server_life_cycle_witness:
  "\<exists>s c2. server_new example_config Suc (\<lambda>_. 0) 7 (collection_new Map.empty) = Some (Inr s) \<and> server_delete Suc s = Inr c2
    \<and> server_delete Suc (server_stop (server_start s)) = Inl AbortCall"
  using server_life_cycle [of example_config Suc "\<lambda>_. 0" "collection_new Map.empty" 7] by (auto simp: collection_new_def example_threads)

lemma example_server_new: "\<exists>s. server_new example_config Suc (\<lambda>_. 0) 7 (collection_new Map.empty) = Some (Inr s)"
  using server_new_result [of example_config Suc "\<lambda>_. 0" "collection_new Map.empty"] by (auto simp: server_new_def collection_new_def example_threads)

theorem bind_needs_start_witness:
  "\<exists>s s'. server_new example_config Suc (\<lambda>_. 0) 7 (collection_new Map.empty) = Some (Inr s) \<and> life_bind 30000 any_addr (\<lambda>_. 0) 3 s = Inr (0, s')
    \<and> life_bind 30000 any_addr (\<lambda>_. 0) 3 (server_start s') = Inl Deadlock"
proof -
  obtain s where s: "server_new example_config Suc (\<lambda>_. 0) 7 (collection_new Map.empty) = Some (Inr s)" using example_server_new by blast
  from bind_needs_start [OF s, of 30000 any_addr "\<lambda>_. 0" 3 30000 any_addr "\<lambda>_. 0" 3] s show ?thesis using example_threads(2) by blast
qed

end
