(* ===== verification/FloatText.thy ===== *)
theory FloatText
  imports Double TableFormatter
begin

text \<open>
  \<open>dump_float\<close> of the three formatters of \<open>src/src/common/formatter.cc\<close>, and the text \<open>std::ostream\<close> writes for a \<open>double\<close>:
  the decimal with \<open>precision\<close> significant digits that is nearest to the number, in the shorter of the fixed and the
  scientific notation, without trailing zeros. Finite doubles are the rational numbers of theory Double; the other values of
  the type are constructors of their own. \<open>text_value\<close> is the number a decimal text denotes.
\<close>

section \<open>The text of a number\<close>

datatype double_val = Fin rat | NegZero | Inf bool | NaN bool

text \<open>The \<open>p\<close> significant digits of a positive number as an integer, and its decimal exponent.\<close>

definition sig_digits :: "nat \<Rightarrow> rat \<Rightarrow> nat \<times> int" where
  "sig_digits p x =
     (let e = ilog 10 x; m = nat (rne (x / 10 powi (e - int p + 1)))
      in if m = 10 ^ p then (10 ^ (p - 1), e + 1) else (m, e))"

definition strip_zeros :: "string \<Rightarrow> string" where
  "strip_zeros s = rev (dropWhile (\<lambda>c. c = CHR ''0'') (rev s))"

definition fraction_text :: "string \<Rightarrow> string" where
  "fraction_text s = (if strip_zeros s = [] then [] else ''.'' @ strip_zeros s)"

definition g_text :: "nat \<Rightarrow> nat \<Rightarrow> int \<Rightarrow> string" where
  "g_text p m e =
     (let ds = dec m in
      if e < - 4 \<or> int p \<le> e then
        take 1 ds @ fraction_text (drop 1 ds) @ ''e'' @ (if e < 0 then ''-'' else ''+'') @ dec_pad 2 (nat \<bar>e\<bar>)
      else if e < 0 then ''0'' @ fraction_text (replicate (nat (- e) - 1) (CHR ''0'') @ ds)
      else take (nat e + 1) ds @ fraction_text (drop (nat e + 1) ds))"

definition fin_text :: "nat \<Rightarrow> rat \<Rightarrow> string" where
  "fin_text p x =
     (if x = 0 then ''0''
      else (if x < 0 then ''-'' else []) @ (let (m, e) = sig_digits p \<bar>x\<bar> in g_text p m e))"

fun double_text :: "nat \<Rightarrow> double_val \<Rightarrow> string" where
  "double_text p (Fin x) = fin_text p x"
| "double_text p NegZero = ''-0''"
| "double_text p (Inf neg) = (if neg then ''-'' else []) @ ''inf''"
| "double_text p (NaN neg) = (if neg then ''-'' else []) @ ''nan''"

text \<open>\<open>numeric_limits<double>::max_digits10\<close>.\<close>

definition max_digits10 :: nat where
  "max_digits10 = 17"

section \<open>The formatters\<close>

definition json_dump_float :: "json_formatter \<Rightarrow> string \<Rightarrow> double_val \<Rightarrow> json_formatter" where
  "json_dump_float f name d = add_value f name (os_data (put_str ostream_new (double_text max_digits10 d))) False"

definition xml_dump_float :: "xml_formatter \<Rightarrow> string \<Rightarrow> double_val \<Rightarrow> xml_formatter" where
  "xml_dump_float f name d = xml_add_value f name (\<lambda>os. put_str os (double_text max_digits10 d))"

definition table_dump_float :: "table_formatter \<Rightarrow> string \<Rightarrow> double_val \<Rightarrow> table_formatter" where
  "table_dump_float f name d =
     table_put_value (table_finish_pending_string f) name (\<lambda>os. put_str os (double_text max_digits10 d))"

section \<open>The number a text denotes\<close>

text \<open>An optional sign, digits with an optional point, and an optional exponent.\<close>

definition mantissa_value :: "string \<Rightarrow> rat" where
  "mantissa_value s =
     (let ip = takeWhile (\<lambda>c. c \<noteq> CHR ''.'') s; fp = tl (dropWhile (\<lambda>c. c \<noteq> CHR ''.'') s)
      in of_nat (dec_val (ip @ fp)) / 10 ^ length fp)"

fun exponent_value :: "string \<Rightarrow> int" where
  "exponent_value [] = 0"
| "exponent_value (c # s) = (if c = CHR ''-'' then - int (dec_val s) else int (dec_val s))"

definition unsigned_value :: "string \<Rightarrow> rat" where
  "unsigned_value s =
     mantissa_value (takeWhile (\<lambda>c. c \<noteq> CHR ''e'') s) * 10 powi exponent_value (tl (dropWhile (\<lambda>c. c \<noteq> CHR ''e'') s))"

definition text_value :: "string \<Rightarrow> rat" where
  "text_value s = (if take 1 s = ''-'' then - unsigned_value (tl s) else unsigned_value s)"

section \<open>Digits\<close>

lemma dec_val_append: "dec_val (s @ t) = dec_val s * 10 ^ length t + dec_val t"
proof (induction t rule: rev_induct)
  case Nil
  then show ?case by (simp add: dec_val_def)
next
  case (snoc c t)
  have "dec_val (s @ t @ [c]) = 10 * dec_val (s @ t) + (of_char c - 48)" using dec_val_snoc [of "s @ t" c] by simp
  then show ?case by (simp add: snoc dec_val_snoc algebra_simps)
qed

lemma dec_val_trailing: "dec_val (s @ replicate k (CHR ''0'')) = dec_val s * 10 ^ k"
proof -
  have "dec_val (replicate k (CHR ''0'')) = 0" using dec_val_zeros [of k "[]"] by (simp add: dec_val_def)
  then show ?thesis by (simp add: dec_val_append)
qed

lemma strip_zeros_split: "\<exists>k. s = strip_zeros s @ replicate k (CHR ''0'')"
proof -
  have "rev s = takeWhile (\<lambda>c. c = CHR ''0'') (rev s) @ dropWhile (\<lambda>c. c = CHR ''0'') (rev s)" by simp
  moreover have "takeWhile (\<lambda>c. c = CHR ''0'') (rev s) = replicate (length (takeWhile (\<lambda>c. c = CHR ''0'') (rev s))) (CHR ''0'')"
    by (intro replicate_eqI) (auto dest: set_takeWhileD)
  ultimately have "rev s = replicate (length (takeWhile (\<lambda>c. c = CHR ''0'') (rev s))) (CHR ''0'') @ dropWhile (\<lambda>c. c = CHR ''0'') (rev s)" by metis
  then have "s = rev (dropWhile (\<lambda>c. c = CHR ''0'') (rev s)) @ replicate (length (takeWhile (\<lambda>c. c = CHR ''0'') (rev s))) (CHR ''0'')"
    by (metis rev_append rev_replicate rev_rev_ident)
  then show ?thesis unfolding strip_zeros_def by blast
qed

lemma strip_zeros_set: "set (strip_zeros s) \<subseteq> set s"
  by (auto simp: strip_zeros_def dest: set_dropWhileD)

definition digits :: "string \<Rightarrow> bool" where
  "digits s \<longleftrightarrow> list_all isdigit s"

lemma digits_simps [simp]:
  "digits []" "digits (c # s) \<longleftrightarrow> isdigit c \<and> digits s" "digits (s @ t) \<longleftrightarrow> digits s \<and> digits t"
  by (auto simp: digits_def)

lemma digits_dec [simp]: "digits (dec n)" "digits (replicate k (CHR ''0''))" "digits (dec_pad w n)"
proof -
  show "digits (dec n)" using dec_isdigit [of n] by (simp add: digits_def list_all_iff)
  show z: "digits (replicate k (CHR ''0''))" for k by (induction k) (simp_all add: isdigit_def)
  show "digits (dec_pad w n)" using z \<open>digits (dec n)\<close> by (simp add: dec_pad_def)
qed

lemma digits_subset: "digits s \<Longrightarrow> set t \<subseteq> set s \<Longrightarrow> digits t"
  by (auto simp: digits_def list_all_iff)

lemma digits_parts [simp]: "digits s \<Longrightarrow> digits (take k s)" "digits s \<Longrightarrow> digits (drop k s)" "digits s \<Longrightarrow> digits (strip_zeros s)"
  by (rule digits_subset, assumption, simp add: set_take_subset set_drop_subset strip_zeros_set)+

lemma digits_noneof: "digits s \<Longrightarrow> c \<in> set s \<Longrightarrow> c \<noteq> CHR ''.'' \<and> c \<noteq> CHR ''e'' \<and> c \<noteq> CHR ''-''"
  by (auto simp: digits_def list_all_iff isdigit_def)

lemma digits_span:
  assumes "digits s"
  shows "takeWhile (\<lambda>c. c \<noteq> CHR ''.'') (s @ t) = s @ takeWhile (\<lambda>c. c \<noteq> CHR ''.'') t"
    "dropWhile (\<lambda>c. c \<noteq> CHR ''.'') (s @ t) = dropWhile (\<lambda>c. c \<noteq> CHR ''.'') t"
    "takeWhile (\<lambda>c. c \<noteq> CHR ''e'') (s @ t) = s @ takeWhile (\<lambda>c. c \<noteq> CHR ''e'') t"
    "dropWhile (\<lambda>c. c \<noteq> CHR ''e'') (s @ t) = dropWhile (\<lambda>c. c \<noteq> CHR ''e'') t"
  using digits_noneof [OF assms] by (auto simp: takeWhile_append2 dropWhile_append2)

lemma mantissa_fraction:
  assumes "digits s" "digits t"
  shows "mantissa_value (s @ fraction_text t) = of_nat (dec_val (s @ t)) / 10 ^ length t"
proof -
  obtain k where k: "t = strip_zeros t @ replicate k (CHR ''0'')" using strip_zeros_split by blast
  have st: "digits (strip_zeros t)" using assms(2) by simp
  have "mantissa_value (s @ fraction_text t) = of_nat (dec_val (s @ strip_zeros t)) / 10 ^ length (strip_zeros t)"
    using digits_span(1,2) [OF assms(1)] digits_span(1,2) [OF assms(1), of "[]"] digits_span(1) [OF st, of "[]"]
    by (auto simp: mantissa_value_def fraction_text_def)
  also have "\<dots> = of_nat (dec_val ((s @ strip_zeros t) @ replicate k (CHR ''0''))) / 10 ^ (length (strip_zeros t) + k)"
    unfolding dec_val_trailing by (simp add: power_add)
  also have "(s @ strip_zeros t) @ replicate k (CHR ''0'') = s @ t" using k by (metis append.assoc)
  also have "length (strip_zeros t) + k = length t" using k by (metis length_append length_replicate)
  finally show ?thesis .
qed

lemma unsigned_plain:
  assumes "digits s" "digits t"
  shows "unsigned_value (s @ fraction_text t) = of_nat (dec_val (s @ t)) / 10 ^ length t"
proof -
  have st: "digits (strip_zeros t)" using assms(2) by simp
  have "takeWhile (\<lambda>c. c \<noteq> CHR ''e'') (s @ fraction_text t) = s @ fraction_text t"
    "dropWhile (\<lambda>c. c \<noteq> CHR ''e'') (s @ fraction_text t) = []"
    using digits_span(3,4) [OF assms(1)] digits_span(3,4) [OF st, of "[]"] by (simp_all add: fraction_text_def)
  then show ?thesis using mantissa_fraction [OF assms] unfolding unsigned_value_def by (simp only: list.sel exponent_value.simps) simp
qed

lemma unsigned_scientific:
  assumes "digits s" "digits t" "c \<noteq> CHR ''e''"
  shows "unsigned_value (s @ fraction_text t @ ''e'' @ c # d) = of_nat (dec_val (s @ t)) / 10 ^ length t * 10 powi exponent_value (c # d)"
proof -
  have st: "digits (strip_zeros t)" using assms(2) by simp
  have "takeWhile (\<lambda>c. c \<noteq> CHR ''e'') (s @ fraction_text t @ ''e'' @ c # d) = s @ fraction_text t"
    "dropWhile (\<lambda>c. c \<noteq> CHR ''e'') (s @ fraction_text t @ ''e'' @ c # d) = ''e'' @ c # d"
    using digits_span(3,4) [OF assms(1)] digits_span(3,4) [OF st] by (simp_all add: fraction_text_def)
  then show ?thesis using mantissa_fraction [OF assms(1,2)] by (simp add: unsigned_value_def)
qed

lemma dec_val_less: "digits s \<Longrightarrow> dec_val s < 10 ^ length s"
proof (induction s rule: rev_induct)
  case (snoc c s)
  then have "of_char c - (48 :: nat) < 10" by (auto simp: isdigit_def Let_def)
  with snoc show ?case by (simp add: dec_val_snoc)
qed (simp add: dec_val_def)

lemma length_dec_eq:
  assumes "0 < p" "10 ^ (p - 1) \<le> m" "m < 10 ^ p"
  shows "length (dec m) = p"
proof -
  have "m < 10 ^ length (dec m)" using dec_val_less [of "dec m"] by simp
  with assms(2) have "(10 :: nat) ^ (p - 1) < 10 ^ length (dec m)" by (rule order_le_less_trans)
  then have "p - 1 < length (dec m)" by simp
  then show ?thesis using length_dec [OF assms(1,3)] by simp
qed

lemma divide_pow10: "x / 10 ^ k = x * (10 powi (- int k) :: rat)"
  by (simp add: power_int_minus divide_inverse)

text \<open>The text denotes the number it was made from, in all three notations.\<close>

lemma g_text_value:
  assumes "0 < p" "length (dec m) = p"
  shows "unsigned_value (g_text p m e) = of_nat m * 10 powi (e - int p + 1)"
proof -
  consider "e < - 4 \<or> int p \<le> e" | "- 4 \<le> e" "e < 0" | "0 \<le> e" "e < int p" by linarith
  then show ?thesis
  proof cases
    case 1
    let ?c = "if e < 0 then CHR ''-'' else CHR ''+''"
    have c: "?c \<noteq> CHR ''e''" by simp
    have "g_text p m e = take 1 (dec m) @ fraction_text (drop 1 (dec m)) @ ''e'' @ ?c # dec_pad 2 (nat \<bar>e\<bar>)"
      using 1 by (simp add: g_text_def Let_def)
    then have "unsigned_value (g_text p m e) =
        of_nat (dec_val (take 1 (dec m) @ drop 1 (dec m))) / 10 ^ length (drop 1 (dec m)) * 10 powi exponent_value (?c # dec_pad 2 (nat \<bar>e\<bar>))"
      by (simp only: unsigned_scientific [OF digits_parts(1) [OF digits_dec(1)] digits_parts(2) [OF digits_dec(1)] c])
    also have "\<dots> = of_nat m * (10 powi (- int (p - 1)) * 10 powi e)"
      unfolding divide_pow10 using assms(2) by simp
    also have "\<dots> = of_nat m * 10 powi (e - int p + 1)" using assms(1) by (simp add: of_nat_diff algebra_simps flip: power_int_add)
    finally show ?thesis .
  next
    case 2
    let ?z = "replicate (nat (- e) - 1) (CHR ''0'')"
    have z: "digits ''0''" "digits (?z @ dec m)" by (simp_all add: isdigit_def)
    have "g_text p m e = ''0'' @ fraction_text (?z @ dec m)" using 2 by (simp add: g_text_def Let_def)
    then have "unsigned_value (g_text p m e) = of_nat (dec_val (''0'' @ ?z @ dec m)) / 10 ^ length (?z @ dec m)"
      by (simp only: unsigned_plain [OF z(1,2)])
    also have "dec_val (''0'' @ ?z @ dec m) = m" using dec_val_zeros [of "Suc (nat (- e) - 1)" "dec m"] by simp
    also have "of_nat m / 10 ^ length (?z @ dec m) = (of_nat m * 10 powi (e - int p + 1) :: rat)"
      unfolding divide_pow10 using assms 2 by (simp add: algebra_simps)
    finally show ?thesis .
  next
    case 3
    have "g_text p m e = take (nat e + 1) (dec m) @ fraction_text (drop (nat e + 1) (dec m))" using 3 by (simp add: g_text_def Let_def)
    then have "unsigned_value (g_text p m e) =
        of_nat (dec_val (take (nat e + 1) (dec m) @ drop (nat e + 1) (dec m))) / 10 ^ length (drop (nat e + 1) (dec m))"
      by (simp only: unsigned_plain digits_parts digits_dec)
    also have "\<dots> = of_nat m * 10 powi (- int (p - (nat e + 1)))" unfolding divide_pow10 append_take_drop_id using assms by simp
    also have "- int (p - (nat e + 1)) = e - int p + 1" using 3 by simp
    finally show ?thesis .
  qed
qed

section \<open>Decimal rounding\<close>

lemma sig_digits_bounds:
  assumes "0 < x" "0 < p" "sig_digits p x = (m, e)"
  shows "10 ^ (p - 1) \<le> m" "m < 10 ^ p" "\<bar>of_nat m * 10 powi (e - int p + 1) - x\<bar> \<le> 10 powi (ilog 10 x - int p + 1) / 2"
proof -
  define k where "k = ilog 10 x"
  define u :: rat where "u = 10 powi (k - int p + 1)"
  define r where "r = rne (x / u)"
  have u: "0 < u" by (simp add: u_def)
  have b: "10 powi k \<le> x" "x < 10 powi (k + 1)" using ilog_bounds [OF assms(1), of 10] by (simp_all add: k_def)
  have p1: "10 ^ (p - 1) * u = 10 powi k" and p2: "10 ^ p * u = 10 powi (k + 1)"
    using assms(2) by (simp_all add: u_def of_nat_diff flip: power_int_of_nat power_int_add)
  have "of_int (10 ^ (p - 1)) \<le> x / u" using b(1) p1 u by (simp add: le_divide_eq)
  then have lo: "10 ^ (p - 1) \<le> r" unfolding r_def by (rule rne_lower)
  have "x / u \<le> of_int (10 ^ p)" using b(2) p2 u by (simp add: divide_le_eq)
  then have hi: "r \<le> 10 ^ p" unfolding r_def by (rule rne_upper)
  have r0: "0 \<le> r" using lo by (meson order_trans zero_le_numeral zero_le_power)
  have "\<bar>of_int r - x / u\<bar> \<le> 1 / 2" using rne_bounds [of "x / u"] unfolding r_def by linarith
  then have "\<bar>of_int r - x / u\<bar> * u \<le> 1 / 2 * u" using u by (intro mult_right_mono) simp_all
  then have err: "\<bar>of_int r * u - x\<bar> \<le> u / 2" using u by (simp add: abs_mult_pos left_diff_distrib)
  have sd: "(m, e) = (if nat r = 10 ^ p then (10 ^ (p - 1), k + 1) else (nat r, k))"
    using assms(3) unfolding sig_digits_def Let_def k_def [symmetric] u_def [symmetric] r_def [symmetric] by (rule sym)
  have "10 ^ (p - 1) \<le> m \<and> m < 10 ^ p \<and> of_nat m * 10 powi (e - int p + 1) = of_int r * u"
  proof (cases "nat r = 10 ^ p")
    case True
    then have me: "m = 10 ^ (p - 1)" "e = k + 1" using sd by simp_all
    have "e - int p + 1 = 1 + (k - int p + 1)" using me by simp
    then have "(10 :: rat) powi (e - int p + 1) = 10 powi 1 * u" 
      using power_int_add [of "10 :: rat" 1 "k - int p + 1"] unfolding u_def by simp
    then have "of_nat m * 10 powi (e - int p + 1) = (10 ^ (p - 1) * 10 powi 1) * u" by (simp add: me mult.assoc)
    also have "\<dots> = 10 ^ p * u" using assms(2) by (cases p) simp_all
    also have "(10 ^ p :: rat) = of_nat (nat r)" unfolding True by simp
    finally have "of_nat m * 10 powi (e - int p + 1) = of_int r * u" using r0 by simp
    moreover have "(10 :: nat) ^ (p - 1) < 10 ^ p" using assms(2) by (cases p) simp_all
    ultimately show ?thesis using me by simp
  next
    case False
    then have me: "m = nat r" "e = k" using sd by simp_all
    have "nat r \<le> 10 ^ p" using hi by (simp add: nat_le_iff)
    then show ?thesis using False me lo r0 by (simp add: u_def le_nat_iff)
  qed
  then show "10 ^ (p - 1) \<le> m" "m < 10 ^ p" "\<bar>of_nat m * 10 powi (e - int p + 1) - x\<bar> \<le> 10 powi (ilog 10 x - int p + 1) / 2"
    using err by (simp_all add: u_def k_def)
qed

lemma g_text_unsigned: "0 < p \<Longrightarrow> length (dec m) = p \<Longrightarrow> take 1 (g_text p m e) \<noteq> ''-''"
  using digits_noneof [OF digits_dec(1) [of m]]
  by (cases "dec m") (auto simp: g_text_def Let_def)

lemma fin_text_minus: "fin_text p (- x) = (if x = 0 then ''0'' else (if x > 0 then ''-'' else []) @ fin_text p \<bar>x\<bar>)"
  by (auto simp: fin_text_def)

text \<open>The text of a number with \<open>p\<close> digits denotes a number that differs from it by at most half a unit of its last digit.\<close>

lemma fin_text_pos:
  assumes "0 < x" "0 < p"
  shows "\<bar>text_value (fin_text p x) - x\<bar> \<le> 10 powi (ilog 10 x - int p + 1) / 2" "take 1 (fin_text p x) \<noteq> ''-''"
    "text_value (fin_text p x) = unsigned_value (fin_text p x)"
proof -
  obtain m e where s: "sig_digits p x = (m, e)" by fastforce
  note b = sig_digits_bounds [OF assms s]
  have len: "length (dec m) = p" using length_dec_eq [OF assms(2) b(1,2)] .
  have t: "fin_text p x = g_text p m e" using assms(1) s by (simp add: fin_text_def)
  show minus: "take 1 (fin_text p x) \<noteq> ''-''" unfolding t by (rule g_text_unsigned [OF assms(2) len])
  then show v: "text_value (fin_text p x) = unsigned_value (fin_text p x)" by (simp add: text_value_def)
  show "\<bar>text_value (fin_text p x) - x\<bar> \<le> 10 powi (ilog 10 x - int p + 1) / 2"
    unfolding v unfolding t g_text_value [OF assms(2) len] by (rule b(3))
qed

section \<open>Seventeen digits are enough\<close>

lemma rne_close: "\<bar>w - of_int n\<bar> < 1 / 2 \<Longrightarrow> rne w = n"
proof -
  assume c: "\<bar>w - of_int n\<bar> < 1 / 2"
  have "of_int (rne w) \<le> w + 1 / 2" "w - 1 / 2 \<le> of_int (rne w)" by (rule rne_bounds)+
  with c have "(of_int (rne w) :: rat) < of_int n + 1" "(of_int n :: rat) < of_int (rne w) + 1" by (simp_all add: abs_if split: if_splits)
  then have "rne w < n + 1" "n < rne w + 1" by linarith+
  then show ?thesis by simp
qed

lemma last_bit_unique:
  assumes "0 < y" "2 ^ 52 * 2 powi k \<le> y" "y < 2 ^ 53 * 2 powi k"
  shows "last_bit y = k"
proof -
  have "(2 :: rat) powi (k + 52) = 2 ^ 52 * 2 powi k" "(2 :: rat) powi (k + 52 + 1) = 2 ^ 53 * 2 powi k"
    by (simp_all add: power_int_add)
  then have "ilog 2 y = k + 52" using assms by (intro ilog_unique) simp_all
  then show ?thesis by (simp add: last_bit_def)
qed

text \<open>What rounds to the number \<open>n * 2 powi k\<close> of 53 bits.\<close>

lemma rnd_to:
  assumes "2 ^ 52 \<le> n" "n < 2 ^ 53" "\<bar>w - of_int n\<bar> \<le> of_int n / (2 * 10 ^ 16)"
  shows "rnd (w * 2 powi k) = of_int n * 2 powi k"
proof -
  have n: "(2 :: rat) ^ 52 \<le> of_int n" "(of_int n :: rat) \<le> 2 ^ 53 - 1"
  proof -
    have "(of_int (2 ^ 52) :: rat) \<le> of_int n" using assms(1) by (simp only: of_int_le_iff)
    then show "(2 :: rat) ^ 52 \<le> of_int n" by simp
    have "n \<le> 2 ^ 53 - 1" using assms(2) by simp
    then have "(of_int n :: rat) \<le> of_int (2 ^ 53 - 1)" by (simp only: of_int_le_iff)
    then show "(of_int n :: rat) \<le> 2 ^ 53 - 1" by simp
  qed
  have w: "0 < w" "w < 2 ^ 53" "\<bar>w - of_int n\<bar> < 1 / 2" using assms(3) n by (simp_all add: abs_if split: if_splits)
  let ?y = "w * 2 powi k"
  have y: "0 < ?y" using w by simp
  show ?thesis
  proof (cases "2 ^ 52 \<le> w")
    case True
    then have "last_bit ?y = k" using y w by (intro last_bit_unique) simp_all
    then show ?thesis using rne_close [OF w(3)] by (simp add: rnd_pos [OF y])
  next
    case False
    then have "(of_int n :: rat) < 2 ^ 52 + 1" using w(3) by (simp add: abs_if split: if_splits)
    then have n52: "n = 2 ^ 52" using assms(1) by (simp flip: of_int_less_iff)
    have p: "(2 :: rat) powi k = 2 * 2 powi (k - 1)" using power_int_add [of "2 :: rat" 1 "k - 1"] by simp
    have "\<bar>w - 2 ^ 52\<bar> < 1 / 4" using assms(3) n52 by (simp add: abs_if split: if_splits)
    then have c: "\<bar>2 * w - of_int (2 ^ 53)\<bar> < 1 / 2" by (simp add: abs_if split: if_splits)
    then have "last_bit ?y = k - 1" using y False unfolding p by (intro last_bit_unique) (simp_all add: abs_if split: if_splits)
    moreover have "?y / 2 powi (k - 1) = 2 * w" unfolding p by simp
    ultimately have "rnd ?y = of_int (2 ^ 53) * 2 powi (k - 1)" using rne_close [OF c] by (simp add: rnd_pos [OF y])
    then show ?thesis unfolding p n52 by simp
  qed
qed

text \<open>Every rounded number is zero or has such a form, and rounding it again changes nothing.\<close>

lemma rnd_form:
  assumes "0 < x"
  shows "\<exists>n k. 2 ^ 52 \<le> n \<and> n < 2 ^ 53 \<and> rnd x = of_int n * 2 powi k"
proof -
  let ?k = "last_bit x" and ?n = "rne (x / 2 powi last_bit x)"
  have x: "rnd x = of_int ?n * 2 powi ?k" by (rule rnd_pos [OF assms])
  have lo: "2 ^ 52 \<le> ?n" using scaled_bounds(1) [OF assms] by (intro rne_lower) simp
  have hi: "?n \<le> 2 ^ 53" using scaled_bounds(2) [OF assms] by (intro rne_upper) simp
  show ?thesis
  proof (cases "?n = 2 ^ 53")
    case True
    have "(2 :: rat) powi (?k + 1) = 2 * 2 powi ?k" by (simp add: power_int_add)
    then have "rnd x = of_int (2 ^ 52) * 2 powi (?k + 1)" unfolding x True by simp
    moreover have "(2 :: int) ^ 52 < 2 ^ 53" by simp
    ultimately show ?thesis by blast
  qed (use x lo hi in \<open>metis order_le_less\<close>)
qed

lemma rnd_idem [simp]: "rnd (rnd x) = rnd x"
proof -
  have pos: "0 < y \<Longrightarrow> rnd (rnd y) = rnd y" for y
  proof -
    assume y: "0 < y"
    obtain n k where n: "2 ^ 52 \<le> n" "n < 2 ^ 53" "rnd y = of_int n * 2 powi k" using rnd_form [OF y] by blast
    have "(0 :: rat) \<le> of_int n" using n(1) by simp
    then have "rnd (of_int n * 2 powi k) = of_int n * 2 powi k" by (intro rnd_to [OF n(1,2)]) simp
    then show ?thesis unfolding n(3) .
  qed
  show ?thesis
  proof (cases x "0 :: rat" rule: linorder_cases)
    case less
    then have "rnd (rnd (- x)) = rnd (- x)" by (intro pos) simp
    then show ?thesis by (simp add: rnd_minus)
  qed (use pos in \<open>simp_all add: rnd_def\<close>)
qed

lemma text_17_pos:
  assumes "0 < x" "rnd x = x"
  shows "rnd (text_value (fin_text 17 x)) = x"
proof -
  obtain n k where n: "2 ^ 52 \<le> n" "n < 2 ^ 53" and x: "x = of_int n * 2 powi k" using rnd_form [OF assms(1)] assms(2) by metis
  define y where "y = text_value (fin_text 17 x)"
  have u: "0 < (2 powi k :: rat)" by simp
  have "(10 :: rat) powi ilog 10 x \<le> x" using ilog_bounds(1) [OF assms(1), of 10] by simp
  moreover have "(10 :: rat) powi (ilog 10 x - int 17 + 1) = 10 powi ilog 10 x / 10 ^ 16"
    using power_int_diff [of "10 :: rat" "ilog 10 x" 16] by simp
  ultimately have "\<bar>y - x\<bar> \<le> x / (2 * 10 ^ 16)" using fin_text_pos(1) [OF assms(1), of 17] unfolding y_def by simp
  then have "\<bar>y - x\<bar> / 2 powi k \<le> x / (2 * 10 ^ 16) / 2 powi k" using u by (intro divide_right_mono) simp_all
  moreover have "\<bar>y - x\<bar> / 2 powi k = \<bar>y / 2 powi k - of_int n\<bar>" using u unfolding x by (simp add: abs_div_pos diff_divide_distrib)
  moreover have "x / (2 * 10 ^ 16) / 2 powi k = of_int n / (2 * 10 ^ 16)" unfolding x by simp
  ultimately have "rnd (y / 2 powi k * 2 powi k) = of_int n * 2 powi k" by (intro rnd_to [OF n]) simp
  then show ?thesis unfolding y_def x by simp
qed

lemma text_value_minus: "0 < x \<Longrightarrow> 0 < p \<Longrightarrow> text_value (fin_text p (- x)) = - text_value (fin_text p x)"
  using fin_text_pos(3) [of x p] by (simp add: fin_text_def text_value_def)

lemma text_17: "rnd x = x \<Longrightarrow> rnd (text_value (fin_text 17 x)) = x"
proof (cases x "0 :: rat" rule: linorder_cases)
  case less
  assume "rnd x = x"
  then have "rnd (- x) = - x" by (simp add: rnd_minus)
  then have "rnd (text_value (fin_text 17 (- x))) = - x" using less by (intro text_17_pos) simp_all
  moreover have "text_value (fin_text 17 (- (- x))) = - text_value (fin_text 17 (- x))" using less by (intro text_value_minus) simp_all
  ultimately show ?thesis by (simp add: rnd_minus)
next
  case equal
  have "text_value ''0'' = 0" by (simp add: text_value_def unsigned_value_def mantissa_value_def dec_val_def)
  then show ?thesis using equal by (simp add: fin_text_def rnd_def)
qed (rule text_17_pos)

section \<open>Properties\<close>

lemma json_float_view:
  assumes "fmt_ready f" "view f = (t, st, p, l)"
  shows "view (json_dump_float f name d) = (t @ lead_of p st name @ double_text max_digits10 d, bump st, p, l)"
  using add_value_view(2) [OF assms, of name _ False]
  by (simp add: json_dump_float_def value_text_def put_str_plain ostream_new_def)

lemma xml_float_line:
  assumes "xready f"
  shows "xml_dump_float f name d = put_line f (element (elem_name f name) (double_text max_digits10 d))"
  unfolding xml_dump_float_def by (rule add_value_line [OF assms]) (simp add: put_str_plain plain_width)

lemma table_float_first:
  assumes "no_section f" "t_vec f = []"
  shows "t_vec (table_dump_float f k d) = [[(k, double_text max_digits10 d)]]"
  using assms
  by (simp add: table_dump_float_def table_put_value_def table_finish_pending_string_def no_section_def
      m_vec_index_def push_pair_def get_section_name_def put_str_plain set_str_def Let_def)

text \<open>C35: A finite double that is dumped by any of the three formatters loses nothing: the text that is written for it, at the
  place where the formatter writes a value, denotes a decimal number whose nearest double is the one that was dumped. The
  17 digits of \<open>max_digits10\<close> are enough for every double, in fixed and in scientific notation.\<close>

theorem float_dump_roundtrip:
  assumes "rnd d = d" and "fmt_ready f" "view f = (t, st, p, l)" and "xready x" "xview x = (tx, sx, px, tr)"
    and "no_section b" "t_vec b = []"
  shows "\<exists>w. rnd (text_value w) = d
    \<and> view (json_dump_float f name (Fin d)) = (t @ lead_of p st name @ w, bump st, p, l)
    \<and> xview (xml_dump_float x name (Fin d)) = (tx @ line px (length sx) (element (map tr name) w), sx, px, tr)
    \<and> t_vec (table_dump_float b name (Fin d)) = [[(name, w)]]"
proof (intro exI conjI)
  show "rnd (text_value (double_text max_digits10 (Fin d))) = d" using text_17 [OF assms(1)] by (simp add: max_digits10_def)
  show "view (json_dump_float f name (Fin d)) = (t @ lead_of p st name @ double_text max_digits10 (Fin d), bump st, p, l)"
    by (rule json_float_view [OF assms(2,3)])
  show "xview (xml_dump_float x name (Fin d)) =
      (tx @ line px (length sx) (element (map tr name) (double_text max_digits10 (Fin d))), sx, px, tr)"
    unfolding xml_float_line [OF assms(4)] elem_name_tr [OF assms(5)] by (rule put_line_view(2) [OF assms(4,5)])
  show "t_vec (table_dump_float b name (Fin d)) = [[(name, double_text max_digits10 (Fin d))]]"
    by (rule table_float_first [OF assms(6,7)])
qed

theorem float_dump_roundtrip_witness:
  "\<exists>w. rnd (text_value w) = 3
    \<and> view (json_dump_float (json_formatter_new False) ''v'' (Fin 3)) = ([] @ lead_of False [] ''v'' @ w, bump [], False, False)
    \<and> xview (xml_dump_float (xml_formatter_new False False True) ''v'' (Fin 3)) =
        (fst (xview (xml_formatter_new False False True)) @ line False (length ([] :: string list)) (element (map (snd (snd (snd (xview (xml_formatter_new False False True))))) ''v'') w),
          [], False, snd (snd (snd (xview (xml_formatter_new False False True)))))
    \<and> t_vec (table_dump_float (table_formatter_new True) ''v'' (Fin 3)) = [[(''v'', w)]]"
proof (rule float_dump_roundtrip)
  show "rnd 3 = (3 :: rat)" using ieee.exact [of 3] by simp
  show "fmt_ready (json_formatter_new False)" "view (json_formatter_new False) = ([], [], False, False)" by (rule new_ready)+
  show "xready (xml_formatter_new False False True)" by (rule xnew_ready)
  show "xview (xml_formatter_new False False True) = (fst (xview (xml_formatter_new False False True)), [], False, snd (snd (snd (xview (xml_formatter_new False False True)))))"
    by (simp add: xview_def xml_formatter_new_def xml_reset_def)
  show "no_section (table_formatter_new True)" "t_vec (table_formatter_new True) = []"
    by (simp_all add: table_formatter_new_def table_reset_def no_section_def set_str_def ostream_new_def)
qed

section \<open>JSON numbers\<close>

text \<open>The grammar of a number in JSON: no leading zeros, digits after the point and in the exponent.\<close>

definition json_int :: "string \<Rightarrow> bool" where
  "json_int s \<longleftrightarrow> s \<noteq> [] \<and> digits s \<and> (hd s = CHR ''0'' \<longrightarrow> length s = 1)"

definition json_exp :: "string \<Rightarrow> bool" where
  "json_exp s \<longleftrightarrow> (case s of [] \<Rightarrow> True
     | c # r \<Rightarrow> (c = CHR ''e'' \<or> c = CHR ''E'') \<and> (let d = (if take 1 r = ''+'' \<or> take 1 r = ''-'' then tl r else r) in d \<noteq> [] \<and> digits d))"

definition json_frac :: "string \<Rightarrow> bool" where
  "json_frac s \<longleftrightarrow> (if take 1 s = ''.'' then takeWhile isdigit (tl s) \<noteq> [] \<and> json_exp (dropWhile isdigit (tl s)) else json_exp s)"

definition json_number :: "string \<Rightarrow> bool" where
  "json_number s \<longleftrightarrow> (let u = (if take 1 s = ''-'' then tl s else s) in json_int (takeWhile isdigit u) \<and> json_frac (dropWhile isdigit u))"

lemma digits_while:
  assumes "digits s" "\<not> isdigit c"
  shows "takeWhile isdigit (s @ c # t) = s" "dropWhile isdigit (s @ c # t) = c # t"
  using assms by (auto simp: digits_def list_all_iff takeWhile_append2 dropWhile_append2)

lemma digits_whole [simp]: "digits s \<Longrightarrow> takeWhile isdigit s = s" "digits s \<Longrightarrow> dropWhile isdigit s = []"
  by (simp_all add: digits_def list_all_iff takeWhile_eq_all_conv)

lemma nondigits: "\<not> isdigit (CHR ''.'')" "\<not> isdigit (CHR ''e'')" "\<not> isdigit (CHR ''i'')" "\<not> isdigit (CHR ''n'')"
  by (simp_all add: isdigit_def)

lemma json_frac_text:
  assumes "digits t" "json_exp r" "r = [] \<or> hd r = CHR ''e''"
  shows "json_frac (fraction_text t @ r)"
proof -
  have st: "digits (strip_zeros t)" using assms(1) by simp
  show ?thesis
  proof (cases r)
    case Nil
    then show ?thesis using st by (simp add: json_frac_def fraction_text_def json_exp_def)
  next
    case (Cons c q)
    with assms(3) have "c = CHR ''e''" by simp
    then show ?thesis using digits_while(1,2) [OF st nondigits(2), of q] assms(2) Cons by (auto simp: json_frac_def fraction_text_def)
  qed
qed

lemma fraction_head: "fraction_text t @ r = [] \<or> hd (fraction_text t @ r) = CHR ''.'' \<or> fraction_text t @ r = r"
  by (simp add: fraction_text_def)

lemma json_number_text:
  assumes "json_int s" "digits t" "json_exp r" "r = [] \<or> hd r = CHR ''e''"
  shows "json_int (takeWhile isdigit (s @ fraction_text t @ r)) \<and> json_frac (dropWhile isdigit (s @ fraction_text t @ r))"
proof (cases "fraction_text t @ r")
  case Nil
  have "digits s" using assms(1) by (simp add: json_int_def)
  then show ?thesis using assms(1) json_frac_text [OF assms(2-4)] Nil by simp
next
  case (Cons c q)
  have "digits s" using assms(1) by (simp add: json_int_def)
  moreover have "\<not> isdigit c" using fraction_head [of t r] assms(4) Cons nondigits by auto
  ultimately show ?thesis using assms(1) json_frac_text [OF assms(2-4)] digits_while(1,2) [of s c q] Cons by simp
qed

lemma dec_head: "0 < m \<Longrightarrow> hd (dec m) \<noteq> CHR ''0''"
proof (induction m rule: dec.induct)
  case (1 m)
  show ?case
  proof (cases "m < 10")
    case True
    then have "dec m = [dec_digit m]" by (subst dec.simps) simp
    moreover have "of_char (dec_digit m) \<noteq> (of_char (CHR ''0'') :: nat)" using True 1(2) by simp
    ultimately show ?thesis by auto
  next
    case False
    then have "dec m = dec (m div 10) @ [dec_digit (m mod 10)]" by (subst dec.simps) simp
    with 1(1) [OF False] False show ?thesis by (simp add: hd_append)
  qed
qed

lemma json_int_dec: "0 < m \<Longrightarrow> 0 < k \<Longrightarrow> json_int (take k (dec m))"
  using dec_head [of m] digits_parts(1) [OF digits_dec(1), of k m] by (cases "dec m"; cases k) (auto simp: json_int_def)

lemma g_text_json:
  assumes "0 < m"
  shows "json_int (takeWhile isdigit (g_text p m e)) \<and> json_frac (dropWhile isdigit (g_text p m e))"
proof -
  have dp: "dec_pad 2 n \<noteq> []" for n by (simp add: dec_pad_def)
  consider "e < - 4 \<or> int p \<le> e" | "- 4 \<le> e" "e < 0" "e < int p" | "0 \<le> e" "e < int p" by linarith
  then show ?thesis
  proof cases
    case 1
    have ex: "json_exp (''e'' @ (if e < 0 then ''-'' else ''+'') @ dec_pad 2 (nat \<bar>e\<bar>))" using dp by (simp add: json_exp_def)
    have "g_text p m e = take 1 (dec m) @ fraction_text (drop 1 (dec m)) @ ''e'' @ (if e < 0 then ''-'' else ''+'') @ dec_pad 2 (nat \<bar>e\<bar>)"
      using 1 by (simp add: g_text_def Let_def)
    then show ?thesis using json_number_text [OF json_int_dec [OF assms, of 1] _ ex, of "drop 1 (dec m)"] by (simp only: digits_parts digits_dec) simp
  next
    case 2
    have z: "json_int ''0''" by (simp add: json_int_def isdigit_def)
    have "g_text p m e = ''0'' @ fraction_text (replicate (nat (- e) - 1) (CHR ''0'') @ dec m) @ []" using 2 by (simp add: g_text_def Let_def)
    then show ?thesis using json_number_text [OF z, of "replicate (nat (- e) - 1) (CHR ''0'') @ dec m" "[]"] by (simp only: digits_simps digits_dec) (simp add: json_exp_def)
  next
    case 3
    have "g_text p m e = take (nat e + 1) (dec m) @ fraction_text (drop (nat e + 1) (dec m)) @ []" using 3 by (simp add: g_text_def Let_def)
    then show ?thesis using json_number_text [OF json_int_dec [OF assms, of "nat e + 1"], of "drop (nat e + 1) (dec m)" "[]"]
      by (simp only: digits_parts digits_dec) (simp add: json_exp_def)
  qed
qed

lemma fin_text_json:
  assumes "0 < p"
  shows "json_number (fin_text p x)"
proof (cases "x = 0")
  case True
  have "json_number ''0''" by (simp add: json_number_def json_int_def json_frac_def json_exp_def isdigit_def)
  then show ?thesis using True by (simp add: fin_text_def)
next
  case False
  obtain m e where s: "sig_digits p \<bar>x\<bar> = (m, e)" by fastforce
  have b: "10 ^ (p - 1) \<le> m" "m < 10 ^ p" using sig_digits_bounds [OF _ assms s] False by simp_all
  have "0 < m" using b(1) by (meson less_le_trans zero_less_numeral zero_less_power)
  moreover have "take 1 (g_text p m e) \<noteq> ''-''" using g_text_unsigned [OF assms length_dec_eq [OF assms b]] .
  ultimately show ?thesis using g_text_json [of m p e] False s by (simp add: fin_text_def json_number_def)
qed

text \<open>What \<open>dump_float\<close> writes into a JSON document is a number of the JSON grammar exactly when the double is finite; infinities
  and NaN are written as \<open>inf\<close> and \<open>nan\<close>, and the document is then not JSON.\<close>

theorem json_float_grammar:
  assumes "fmt_ready f" "view f = (t, st, p, l)"
  shows "\<exists>w. view (json_dump_float f name d) = (t @ lead_of p st name @ w, bump st, p, l)
    \<and> (json_number w \<longleftrightarrow> (case d of Inf _ \<Rightarrow> False | NaN _ \<Rightarrow> False | _ \<Rightarrow> True))"
proof (intro exI conjI)
  show "view (json_dump_float f name d) = (t @ lead_of p st name @ double_text max_digits10 d, bump st, p, l)"
    by (rule json_float_view [OF assms])
  show "json_number (double_text max_digits10 d) \<longleftrightarrow> (case d of Inf _ \<Rightarrow> False | NaN _ \<Rightarrow> False | _ \<Rightarrow> True)"
  proof (cases d)
    case (Fin x)
    then show ?thesis by (simp add: fin_text_json max_digits10_def)
  qed (auto simp: json_number_def json_int_def json_frac_def json_exp_def isdigit_def)
qed

theorem json_float_grammar_witness:
  "\<exists>w. view (json_dump_float (json_formatter_new False) ''v'' (NaN False)) = ([] @ lead_of False [] ''v'' @ w, bump [], False, False)
    \<and> (json_number w \<longleftrightarrow> (case NaN False of Inf _ \<Rightarrow> False | NaN _ \<Rightarrow> False | _ \<Rightarrow> True))"
  by (rule json_float_grammar [OF new_ready])

end
