(* ===== verification/FormatterApi.thy ===== *)
theory FormatterApi
  imports FloatText
begin

text \<open>
  The interface class \<open>Formatter\<close> of \<open>src/src/common/formatter.h\<close>: its virtual functions dispatched over the three formatters, the
  default implementations of the base class, and the guards \<open>ObjectSection\<close> and \<open>ArraySection\<close> that open a section when they are
  created and close it at the end of their scope. The locale \<open>sections\<close> states what a formatter promises about its
  sections; it is interpreted on each of the formatters and on the dispatched operations, and scopes are proved to balance in it.
\<close>

section \<open>Virtual functions\<close>

fun fmt_open_object :: "formatter \<Rightarrow> string \<Rightarrow> formatter" where
  "fmt_open_object (FJson f) name = FJson (json_open_object_section f name)"
| "fmt_open_object (FXml f) name = FXml (xml_open_section f name)"
| "fmt_open_object (FTable f) name = FTable (table_open_section f name)"

fun fmt_open_array :: "formatter \<Rightarrow> string \<Rightarrow> formatter" where
  "fmt_open_array (FJson f) name = FJson (json_open_array_section f name)"
| "fmt_open_array (FXml f) name = FXml (xml_open_section f name)"
| "fmt_open_array (FTable f) name = FTable (table_open_section f name)"

fun fmt_open_object_in_ns :: "formatter \<Rightarrow> string \<Rightarrow> string \<Rightarrow> formatter" where
  "fmt_open_object_in_ns (FJson f) name ns = FJson (json_open_object_section_in_ns f name ns)"
| "fmt_open_object_in_ns (FXml f) name ns = FXml (xml_open_section_in_ns f name (Some ns) None)"
| "fmt_open_object_in_ns (FTable f) name ns = FTable (table_open_section f name)"

fun fmt_open_array_in_ns :: "formatter \<Rightarrow> string \<Rightarrow> string \<Rightarrow> formatter" where
  "fmt_open_array_in_ns (FJson f) name ns = FJson (json_open_array_section_in_ns f name ns)"
| "fmt_open_array_in_ns (FXml f) name ns = FXml (xml_open_section_in_ns f name (Some ns) None)"
| "fmt_open_array_in_ns (FTable f) name ns = FTable (table_open_section f name)"

text \<open>The JSON formatter inherits the versions with attributes, which ignore them.\<close>

fun fmt_open_object_with_attrs :: "formatter \<Rightarrow> string \<Rightarrow> (string \<times> string) list \<Rightarrow> formatter" where
  "fmt_open_object_with_attrs (FJson f) name attrs = fmt_open_object (FJson f) name"
| "fmt_open_object_with_attrs (FXml f) name attrs = FXml (xml_open_section_with_attrs f name attrs)"
| "fmt_open_object_with_attrs (FTable f) name attrs = FTable (table_open_section f name)"

fun fmt_open_array_with_attrs :: "formatter \<Rightarrow> string \<Rightarrow> (string \<times> string) list \<Rightarrow> formatter" where
  "fmt_open_array_with_attrs (FJson f) name attrs = fmt_open_array (FJson f) name"
| "fmt_open_array_with_attrs (FXml f) name attrs = FXml (xml_open_section_with_attrs f name attrs)"
| "fmt_open_array_with_attrs (FTable f) name attrs = FTable (table_open_section f name)"

fun fmt_close :: "formatter \<Rightarrow> formatter result" where
  "fmt_close (FJson f) = rbind (json_close_section f) (\<lambda>g. Inr (FJson g))"
| "fmt_close (FXml f) = rbind (xml_close_section f) (\<lambda>g. Inr (FXml g))"
| "fmt_close (FTable f) = Inr (FTable (table_close_section f))"

fun fmt_dump_unsigned :: "formatter \<Rightarrow> string \<Rightarrow> u64 \<Rightarrow> formatter" where
  "fmt_dump_unsigned (FJson f) name u = FJson (json_dump_unsigned f name u)"
| "fmt_dump_unsigned (FXml f) name u = FXml (xml_dump_unsigned f name u)"
| "fmt_dump_unsigned (FTable f) name u = FTable (table_dump_unsigned f name u)"

fun fmt_dump_int :: "formatter \<Rightarrow> string \<Rightarrow> 64 word \<Rightarrow> formatter" where
  "fmt_dump_int (FJson f) name s = FJson (json_dump_int f name s)"
| "fmt_dump_int (FXml f) name s = FXml (xml_dump_int f name s)"
| "fmt_dump_int (FTable f) name s = FTable (table_dump_int f name s)"

fun fmt_dump_float :: "formatter \<Rightarrow> string \<Rightarrow> double_val \<Rightarrow> formatter" where
  "fmt_dump_float (FJson f) name d = FJson (json_dump_float f name d)"
| "fmt_dump_float (FXml f) name d = FXml (xml_dump_float f name d)"
| "fmt_dump_float (FTable f) name d = FTable (table_dump_float f name d)"

fun fmt_dump_string :: "formatter \<Rightarrow> string \<Rightarrow> string \<Rightarrow> formatter" where
  "fmt_dump_string (FJson f) name s = FJson (json_dump_string f name s)"
| "fmt_dump_string (FXml f) name s = FXml (xml_dump_string f name s)"
| "fmt_dump_string (FTable f) name s = FTable (table_dump_string f name s)"

fun fmt_dump_string_with_attrs :: "formatter \<Rightarrow> string \<Rightarrow> string \<Rightarrow> (string \<times> string) list \<Rightarrow> formatter" where
  "fmt_dump_string_with_attrs (FJson f) name s attrs = fmt_dump_string (FJson f) name s"
| "fmt_dump_string_with_attrs (FXml f) name s attrs = FXml (xml_dump_string_with_attrs f name s attrs)"
| "fmt_dump_string_with_attrs (FTable f) name s attrs = FTable (table_dump_string_with_attrs f name s attrs)"

fun fmt_dump_format_va :: "formatter \<Rightarrow> string \<Rightarrow> string option \<Rightarrow> bool \<Rightarrow> string \<Rightarrow> formatter result" where
  "fmt_dump_format_va (FJson f) name ns quoted txt = Inr (FJson (json_dump_format_va f name ns quoted txt))"
| "fmt_dump_format_va (FXml f) name ns quoted txt = rbind (xml_dump_format_va f name ns quoted txt) (\<lambda>g. Inr (FXml g))"
| "fmt_dump_format_va (FTable f) name ns quoted txt = Inr (FTable (table_dump_format_va f name ns quoted txt))"

fun fmt_get_len :: "formatter \<Rightarrow> nat" where
  "fmt_get_len (FJson f) = json_get_len f"
| "fmt_get_len (FXml f) = xml_get_len f"
| "fmt_get_len (FTable f) = 0"

fun fmt_write_raw_data :: "formatter \<Rightarrow> string \<Rightarrow> formatter" where
  "fmt_write_raw_data (FJson f) s = FJson (json_write_raw_data f s)"
| "fmt_write_raw_data (FXml f) s = FXml (xml_write_raw_data f s)"
| "fmt_write_raw_data (FTable f) s = FTable f"

fun fmt_write_bin_data :: "formatter \<Rightarrow> string \<Rightarrow> nat \<Rightarrow> formatter" where
  "fmt_write_bin_data (FJson f) buff len = FJson f"
| "fmt_write_bin_data (FXml f) buff len = FXml (xml_write_bin_data f buff len)"
| "fmt_write_bin_data (FTable f) buff len = FTable f"

section \<open>Functions of the base class\<close>

definition dump_format :: "formatter \<Rightarrow> string \<Rightarrow> string \<Rightarrow> formatter result" where
  "dump_format f name txt = fmt_dump_format_va f name None True txt"

definition dump_format_ns :: "formatter \<Rightarrow> string \<Rightarrow> string \<Rightarrow> string \<Rightarrow> formatter result" where
  "dump_format_ns f name ns txt = fmt_dump_format_va f name (Some ns) True txt"

definition dump_format_unquoted :: "formatter \<Rightarrow> string \<Rightarrow> string \<Rightarrow> formatter result" where
  "dump_format_unquoted f name txt = fmt_dump_format_va f name None False txt"

definition dump_bool :: "formatter \<Rightarrow> string \<Rightarrow> bool \<Rightarrow> formatter result" where
  "dump_bool f name b = dump_format_unquoted f name (if b then ''true'' else ''false'')"

text \<open>\<open>dump_object\<close>: \<open>foo.dump (this)\<close> is the argument \<open>dump\<close>.\<close>

definition dump_object :: "formatter \<Rightarrow> string \<Rightarrow> (formatter \<Rightarrow> formatter result) \<Rightarrow> formatter result" where
  "dump_object f name dump = rbind (dump (fmt_open_object f name)) fmt_close"

text \<open>The guards: constructor, the rest of the scope, destructor.\<close>

definition object_section :: "formatter \<Rightarrow> string \<Rightarrow> string option \<Rightarrow> (formatter \<Rightarrow> formatter result) \<Rightarrow> formatter result" where
  "object_section f name ns body =
     rbind (body (case ns of None \<Rightarrow> fmt_open_object f name | Some n \<Rightarrow> fmt_open_object_in_ns f name n)) fmt_close"

definition array_section :: "formatter \<Rightarrow> string \<Rightarrow> string option \<Rightarrow> (formatter \<Rightarrow> formatter result) \<Rightarrow> formatter result" where
  "array_section f name ns body =
     rbind (body (case ns of None \<Rightarrow> fmt_open_array f name | Some n \<Rightarrow> fmt_open_array_in_ns f name n)) fmt_close"

section \<open>The interface\<close>

text \<open>Opening enters one more section, closing leaves the innermost one and succeeds inside a section, and a value stays in the section.\<close>

locale sections =
  fixes opens :: "('f \<Rightarrow> 'f) \<Rightarrow> bool" and puts :: "('f \<Rightarrow> 'f result) \<Rightarrow> bool"
    and close_sec :: "'f \<Rightarrow> 'f result" and ok :: "'f \<Rightarrow> bool" and depth :: "'f \<Rightarrow> nat"
  assumes open_enters: "opens op \<Longrightarrow> ok f \<Longrightarrow> ok (op f) \<and> depth (op f) = Suc (depth f)"
    and close_leaves: "ok f \<Longrightarrow> depth f = Suc n \<Longrightarrow> \<exists>g. close_sec f = Inr g \<and> ok g \<and> depth g = n"
    and put_stays: "puts put \<Longrightarrow> ok f \<Longrightarrow> \<exists>g. put f = Inr g \<and> ok g \<and> depth g = depth f"
begin

text \<open>A computation that keeps the sections as they are.\<close>

definition balanced :: "('f \<Rightarrow> 'f result) \<Rightarrow> bool" where
  "balanced c \<longleftrightarrow> (\<forall>f. ok f \<longrightarrow> (\<exists>g. c f = Inr g \<and> ok g \<and> depth g = depth f))"

lemma balancedD: "balanced c \<Longrightarrow> ok f \<Longrightarrow> \<exists>g. c f = Inr g \<and> ok g \<and> depth g = depth f"
  by (simp add: balanced_def)

lemma balanced_skip: "balanced Inr"
  by (simp add: balanced_def)

lemma balanced_put: "puts put \<Longrightarrow> balanced put"
  by (simp add: balanced_def put_stays)

lemma balanced_seq: "balanced c \<Longrightarrow> balanced d \<Longrightarrow> balanced (\<lambda>f. rbind (c f) d)"
  by (fastforce simp: balanced_def)

text \<open>A scope: what is opened at its start is closed at its end.\<close>

lemma balanced_scope:
  assumes "opens op" "balanced body"
  shows "balanced (\<lambda>f. rbind (body (op f)) close_sec)"
  unfolding balanced_def
proof (intro allI impI)
  fix f
  assume "ok f"
  with assms(1) open_enters have o1: "ok (op f)" "depth (op f) = Suc (depth f)" by blast+
  from balancedD [OF assms(2) o1(1)] obtain g where g: "body (op f) = Inr g" "ok g" "depth g = Suc (depth f)" using o1(2) by auto
  with close_leaves [OF g(2,3)] show "\<exists>g. rbind (body (op f)) close_sec = Inr g \<and> ok g \<and> depth g = depth f" by simp
qed

end

section \<open>The three formatters\<close>

text \<open>JSON.\<close>

definition json_opens :: "(json_formatter \<Rightarrow> json_formatter) \<Rightarrow> bool" where
  "json_opens op \<longleftrightarrow> (\<exists>name ns a. op = (\<lambda>f. json_open_section f name ns a))"

definition json_puts :: "(json_formatter \<Rightarrow> json_formatter result) \<Rightarrow> bool" where
  "json_puts put \<longleftrightarrow> (\<exists>name v q. put = (\<lambda>f. Inr (add_value f name v q)))"

definition json_depth :: "json_formatter \<Rightarrow> nat" where
  "json_depth f = length (m_stack f)"

lemma json_depth_view: "fmt_ready f \<Longrightarrow> json_depth f = length (fst (snd (view f)))"
  by (simp add: json_depth_def view_def)

lemma json_open_ns: "json_open_section f name (Some n) a = json_open_section f (takeWhile (\<lambda>c. c \<noteq> CHR 0x00) (name @ '' '' @ n)) None a"
  by (simp add: json_open_section_def)

interpretation json_sec: sections json_opens json_puts json_close_section fmt_ready json_depth
proof
  fix op f
  assume "json_opens op" and f: "fmt_ready f"
  then obtain name a where op: "op f = json_open_section f name None a"
    unfolding json_opens_def using json_open_ns by (metis option.exhaust)
  obtain t st p l where v: "view f = (t, st, p, l)" using prod_cases4 by blast
  note o = open_section_view [OF f v, of name a]
  show "fmt_ready (op f) \<and> json_depth (op f) = Suc (json_depth f)"
    using o by (simp add: op json_depth_view f v)
next
  fix f n
  assume f: "fmt_ready f" and d: "json_depth f = Suc n"
  obtain t st p l where v: "view f = (t, st, p, l)" using prod_cases4 by blast
  have len: "length st = Suc n" using d by (simp add: json_depth_view f v)
  then obtain st' e where st: "st = st' @ [e]" by (metis length_Suc_conv_rev)
  from close_section_view [OF f v [unfolded st]] len st
  show "\<exists>g. json_close_section f = Inr g \<and> fmt_ready g \<and> json_depth g = n" by (auto simp: json_depth_view)
next
  fix put f
  assume "json_puts put" and f: "fmt_ready f"
  then obtain name v q where put: "put f = Inr (add_value f name v q)" by (auto simp: json_puts_def)
  obtain t st p l where w: "view f = (t, st, p, l)" using prod_cases4 by blast
  from add_value_view [OF f w, of name v q] show "\<exists>g. put f = Inr g \<and> fmt_ready g \<and> json_depth g = json_depth f"
    by (simp add: put json_depth_view f w)
qed

text \<open>XML.\<close>

definition xml_opens :: "(xml_formatter \<Rightarrow> xml_formatter) \<Rightarrow> bool" where
  "xml_opens op \<longleftrightarrow> (\<exists>name ns attrs. op = (\<lambda>f. xml_open_section_in_ns f name ns attrs))"

definition xml_puts :: "(xml_formatter \<Rightarrow> xml_formatter result) \<Rightarrow> bool" where
  "xml_puts put \<longleftrightarrow> (\<forall>f. xready f \<longrightarrow> (\<exists>line. put f = Inr (put_line f line)))"

definition xml_depth :: "xml_formatter \<Rightarrow> nat" where
  "xml_depth f = length (x_sections f)"

lemma xml_open_line:
  assumes "xready f"
  shows "\<exists>line. xml_open_section_in_ns f name ns attrs = (put_line f line)\<lparr>x_sections := x_sections f @ [name]\<rparr>"
proof -
  define tag where "tag = ''<'' @ elem_name f name @ (case attrs of Some a \<Rightarrow> get_attrs_str a | None \<Rightarrow> [])"
  have "xml_open_section_in_ns f name ns attrs =
      (put_line f (tag @ (case ns of Some n \<Rightarrow> '' xmlns='' @ [CHR 0x22] @ n @ [CHR 0x22, CHR ''>''] | None \<Rightarrow> ''>'')))\<lparr>x_sections := x_sections f @ [name]\<rparr>"
    using assms by (cases ns) (simp_all add: tag_def xml_open_section_in_ns_def x_ops put_line_def Let_def)
  then show ?thesis by blast
qed

interpretation xml_sec: sections xml_opens xml_puts xml_close_section xready xml_depth
proof
  fix op f
  assume "xml_opens op" and f: "xready f"
  then obtain name line where op: "op f = (put_line f line)\<lparr>x_sections := x_sections f @ [name]\<rparr>"
    unfolding xml_opens_def using xml_open_line by blast
  obtain t st p tr where v: "xview f = (t, st, p, tr)" using prod_cases4 by blast
  from put_line_view(1) [OF f v, of line] show "xready (op f) \<and> xml_depth (op f) = Suc (xml_depth f)"
    by (simp add: op xready_def xml_depth_def)
next
  fix f n
  assume f: "xready f" and d: "xml_depth f = Suc n"
  then obtain st name where st: "x_sections f = st @ [name]" unfolding xml_depth_def by (metis length_Suc_conv_rev)
  then obtain t p tr where "xview f = (t, st @ [name], p, tr)" by (simp add: xview_def)
  from xclose_view [OF f this] st d show "\<exists>g. xml_close_section f = Inr g \<and> xready g \<and> xml_depth g = n"
    by (auto simp: xml_depth_def xview_def)
next
  fix put f
  assume "xml_puts put" and f: "xready f"
  then obtain line where put: "put f = Inr (put_line f line)" by (auto simp: xml_puts_def)
  obtain t st p tr where v: "xview f = (t, st, p, tr)" using prod_cases4 by blast
  from put_line_view(1,2) [OF f v, of line] v show "\<exists>g. put f = Inr g \<and> xready g \<and> xml_depth g = xml_depth f"
    by (simp add: put xml_depth_def xview_def)
qed

text \<open>Tables: the counter of open sections is the number of their names.\<close>

definition table_ok :: "table_formatter \<Rightarrow> bool" where
  "table_ok f \<longleftrightarrow> t_section_open f = int (length (t_section f))"

definition table_opens :: "(table_formatter \<Rightarrow> table_formatter) \<Rightarrow> bool" where
  "table_opens op \<longleftrightarrow> (\<exists>name. op = (\<lambda>f. table_open_section f name))"

definition table_puts :: "(table_formatter \<Rightarrow> table_formatter result) \<Rightarrow> bool" where
  "table_puts put \<longleftrightarrow> (\<exists>name p. put = (\<lambda>f. Inr (table_put_value (table_finish_pending_string f) name p)))"

definition table_depth :: "table_formatter \<Rightarrow> nat" where
  "table_depth f = length (t_section f)"

lemma put_value_sections [simp]:
  "t_section (table_put_value f name p) = t_section f" "t_section_open (table_put_value f name p) = t_section_open f"
  by (simp_all add: table_put_value_def m_vec_index_def push_pair_def get_section_name_def Let_def split: prod.split)

lemma table_finish_sections [simp]:
  "t_section (table_finish_pending_string f) = t_section f" "t_section_open (table_finish_pending_string f) = t_section_open f"
  by (simp_all add: table_finish_pending_string_def Let_def)

interpretation table_sec: sections table_opens table_puts "\<lambda>f. Inr (table_close_section f)" table_ok table_depth
  by unfold_locales
    (auto simp: table_opens_def table_puts_def table_ok_def table_depth_def table_open_section_def table_close_section_def Let_def)

section \<open>Dispatch\<close>

fun fmt_ok :: "formatter \<Rightarrow> bool" where
  "fmt_ok (FJson f) = fmt_ready f"
| "fmt_ok (FXml f) = xready f"
| "fmt_ok (FTable f) = table_ok f"

fun fmt_depth :: "formatter \<Rightarrow> nat" where
  "fmt_depth (FJson f) = json_depth f"
| "fmt_depth (FXml f) = xml_depth f"
| "fmt_depth (FTable f) = table_depth f"

definition fmt_opens :: "(formatter \<Rightarrow> formatter) \<Rightarrow> bool" where
  "fmt_opens op \<longleftrightarrow> (\<exists>j x t. json_opens j \<and> xml_opens x \<and> table_opens t
     \<and> (\<forall>f. op (FJson f) = FJson (j f)) \<and> (\<forall>f. op (FXml f) = FXml (x f)) \<and> (\<forall>f. op (FTable f) = FTable (t f)))"

definition fmt_puts :: "(formatter \<Rightarrow> formatter result) \<Rightarrow> bool" where
  "fmt_puts put \<longleftrightarrow> (\<exists>j x t. json_puts j \<and> xml_puts x \<and> table_puts t
     \<and> (\<forall>f. put (FJson f) = rbind (j f) (\<lambda>g. Inr (FJson g))) \<and> (\<forall>f. put (FXml f) = rbind (x f) (\<lambda>g. Inr (FXml g)))
     \<and> (\<forall>f. put (FTable f) = rbind (t f) (\<lambda>g. Inr (FTable g))))"

interpretation fmt_sec: sections fmt_opens fmt_puts fmt_close fmt_ok fmt_depth
proof
  fix op f
  assume "fmt_opens op" "fmt_ok f"
  then show "fmt_ok (op f) \<and> fmt_depth (op f) = Suc (fmt_depth f)"
    using json_sec.open_enters xml_sec.open_enters table_sec.open_enters by (cases f) (auto simp: fmt_opens_def)
next
  fix f n
  assume f: "fmt_ok f" "fmt_depth f = Suc n"
  show "\<exists>g. fmt_close f = Inr g \<and> fmt_ok g \<and> fmt_depth g = n"
  proof (cases f)
    case (FJson g)
    with f json_sec.close_leaves [of g n] show ?thesis by auto
  next
    case (FXml g)
    with f xml_sec.close_leaves [of g n] show ?thesis by auto
  next
    case (FTable g)
    with f table_sec.close_leaves [of g n] show ?thesis by auto
  qed
next
  fix put f
  assume "fmt_puts put" and f: "fmt_ok f"
  then obtain j x t where p: "json_puts j" "xml_puts x" "table_puts t"
    "\<And>f. put (FJson f) = rbind (j f) (\<lambda>g. Inr (FJson g))" "\<And>f. put (FXml f) = rbind (x f) (\<lambda>g. Inr (FXml g))"
    "\<And>f. put (FTable f) = rbind (t f) (\<lambda>g. Inr (FTable g))" by (auto simp: fmt_puts_def)
  show "\<exists>g. put f = Inr g \<and> fmt_ok g \<and> fmt_depth g = fmt_depth f"
  proof (cases f)
    case (FJson g)
    with f json_sec.put_stays [OF p(1), of g] show ?thesis by (auto simp: p)
  next
    case (FXml g)
    with f xml_sec.put_stays [OF p(2), of g] show ?thesis by (auto simp: p)
  next
    case (FTable g)
    with f table_sec.put_stays [OF p(3), of g] show ?thesis by (auto simp: p)
  qed
qed

lemma fmt_opensI:
  "(\<And>f. op (FJson f) = FJson (json_open_section f n1 s1 a)) \<Longrightarrow> (\<And>f. op (FXml f) = FXml (xml_open_section_in_ns f n2 s2 attrs)) \<Longrightarrow>
    (\<And>f. op (FTable f) = FTable (table_open_section f n3)) \<Longrightarrow> fmt_opens op"
  unfolding fmt_opens_def json_opens_def xml_opens_def table_opens_def by blast

lemma fmt_opens_object: "fmt_opens (\<lambda>f. case ns of None \<Rightarrow> fmt_open_object f name | Some n \<Rightarrow> fmt_open_object_in_ns f name n)"
  by (rule fmt_opensI [where a = False and ?n1.0 = name and ?s1.0 = ns and ?n2.0 = name and ?s2.0 = ns and attrs = None and ?n3.0 = name])
    (cases ns; simp add: json_open_object_section_def json_open_object_section_in_ns_def xml_open_section_def)+

lemma fmt_opens_array: "fmt_opens (\<lambda>f. case ns of None \<Rightarrow> fmt_open_array f name | Some n \<Rightarrow> fmt_open_array_in_ns f name n)"
  by (rule fmt_opensI [where a = True and ?n1.0 = name and ?s1.0 = ns and ?n2.0 = name and ?s2.0 = ns and attrs = None and ?n3.0 = name])
    (cases ns; simp add: json_open_array_section_def json_open_array_section_in_ns_def xml_open_section_def)+

lemma fmt_putsI:
  assumes "\<And>f. put (FJson f) = Inr (FJson (add_value f n1 v q))" "\<And>f. put (FXml f) = rbind (x f) (\<lambda>g. Inr (FXml g))" "xml_puts x"
    "\<And>f. put (FTable f) = Inr (FTable (table_put_value (table_finish_pending_string f) n2 w))"
  shows "fmt_puts put"
proof -
  have "json_puts (\<lambda>f. Inr (add_value f n1 v q))" "table_puts (\<lambda>f. Inr (table_put_value (table_finish_pending_string f) n2 w))"
    unfolding json_puts_def table_puts_def by blast+
  with assms(3) show ?thesis unfolding fmt_puts_def using assms(1,2,4) by fastforce
qed

section \<open>Scopes\<close>

text \<open>A call that writes one value, and the guards with what their scopes do.\<close>

datatype dump_call =
    DUnsigned string u64
  | DInt string "64 word"
  | DFloat string double_val
  | DString string string
  | DStringAttrs string string "(string \<times> string) list"
  | DFormat string "string option" bool string

fun dump_call_run :: "dump_call \<Rightarrow> formatter \<Rightarrow> formatter result" where
  "dump_call_run (DUnsigned name u) f = Inr (fmt_dump_unsigned f name u)"
| "dump_call_run (DInt name i) f = Inr (fmt_dump_int f name i)"
| "dump_call_run (DFloat name d) f = Inr (fmt_dump_float f name d)"
| "dump_call_run (DString name s) f = Inr (fmt_dump_string f name s)"
| "dump_call_run (DStringAttrs name s attrs) f = Inr (fmt_dump_string_with_attrs f name s attrs)"
| "dump_call_run (DFormat name ns quoted txt) f = fmt_dump_format_va f name ns quoted txt"

datatype scope = Dump dump_call | Object string "string option" "scope list" | Array string "string option" "scope list"

fun run_scope :: "scope \<Rightarrow> formatter \<Rightarrow> formatter result"
  and run_scopes :: "scope list \<Rightarrow> formatter \<Rightarrow> formatter result" where
  "run_scope (Dump c) f = dump_call_run c f"
| "run_scope (Object name ns body) f = object_section f name ns (run_scopes body)"
| "run_scope (Array name ns body) f = array_section f name ns (run_scopes body)"
| "run_scopes [] f = Inr f"
| "run_scopes (s # ss) f = rbind (run_scope s f) (run_scopes ss)"

text \<open>A formatted text has to fit the buffer of the XML formatter.\<close>

fun call_ok :: "dump_call \<Rightarrow> bool" where
  "call_ok (DFormat name ns quoted txt) \<longleftrightarrow> length txt \<le> 1024"
| "call_ok c \<longleftrightarrow> True"

fun scope_ok :: "scope \<Rightarrow> bool" where
  "scope_ok (Dump c) \<longleftrightarrow> call_ok c"
| "scope_ok (Object name ns body) \<longleftrightarrow> list_all scope_ok body"
| "scope_ok (Array name ns body) \<longleftrightarrow> list_all scope_ok body"

lemma xml_attrs_line:
  "xready f \<Longrightarrow> xml_dump_string_with_attrs f name s attrs =
    put_line f (''<'' @ elem_name f name @ get_attrs_str attrs @ ''>'' @ xml.esc_all s @ ''</'' @ elem_name f name @ ''>'')"
  by (simp add: xml_dump_string_with_attrs_def x_ops put_line_def Let_def)

lemma xml_format_line:
  assumes "xready f" "length txt \<le> 1024"
  shows "xml_dump_format_va f name ns quoted txt =
    Inr (put_line f (''<'' @ elem_name f name @ (case ns of Some n \<Rightarrow> '' xmlns='' @ [CHR 0x22] @ n @ [CHR 0x22] | None \<Rightarrow> []) @ ''>''
      @ xml.esc_all (take (length txt) (take 1023 txt @ [CHR 0x00])) @ ''</'' @ elem_name f name @ ''>''))"
  using assms by (cases ns) (simp_all add: xml_dump_format_va_def x_ops put_line_def Let_def)

lemma xml_puts_lines:
  "xml_puts (\<lambda>f. Inr (xml_dump_unsigned f name u))" "xml_puts (\<lambda>f. Inr (xml_dump_int f name i))" "xml_puts (\<lambda>f. Inr (xml_dump_float f name d))"
  "xml_puts (\<lambda>f. Inr (xml_dump_string f name s))" "xml_puts (\<lambda>f. Inr (xml_dump_string_with_attrs f name s attrs))"
  "length txt \<le> 1024 \<Longrightarrow> xml_puts (\<lambda>f. xml_dump_format_va f name ns quoted txt)"
  by (auto simp: xml_puts_def dump_lines xml_float_line xml_attrs_line xml_format_line)

lemmas json_dump_defs = json_dump_unsigned_def json_dump_int_def json_dump_float_def json_dump_string_def json_dump_format_va_def

lemmas table_dump_defs = table_dump_unsigned_def table_dump_int_def table_dump_float_def table_dump_string_def
  table_dump_string_with_attrs_def table_dump_format_va_def

lemma fmt_puts_call:
  assumes "call_ok c"
  shows "fmt_puts (dump_call_run c)"
proof (cases c)
  case (DUnsigned name u)
  show ?thesis unfolding DUnsigned by (rule fmt_putsI [OF _ _ xml_puts_lines(1) [of name u]]) (simp_all add: json_dump_defs table_dump_defs)
next
  case (DInt name i)
  show ?thesis unfolding DInt by (rule fmt_putsI [OF _ _ xml_puts_lines(2) [of name i]]) (simp_all add: json_dump_defs table_dump_defs)
next
  case (DFloat name d)
  show ?thesis unfolding DFloat by (rule fmt_putsI [OF _ _ xml_puts_lines(3) [of name d]]) (simp_all add: json_dump_defs table_dump_defs)
next
  case (DString name v)
  show ?thesis unfolding DString by (rule fmt_putsI [OF _ _ xml_puts_lines(4) [of name v]]) (simp_all add: json_dump_defs table_dump_defs)
next
  case (DStringAttrs name v attrs)
  show ?thesis unfolding DStringAttrs by (rule fmt_putsI [OF _ _ xml_puts_lines(5) [of name v attrs]]) (simp_all add: json_dump_defs table_dump_defs)
next
  case (DFormat name ns quoted t)
  then have "length t \<le> 1024" using assms by simp
  note fits = xml_puts_lines(6) [OF this, of name ns quoted]
  show ?thesis unfolding DFormat by (rule fmt_putsI [OF _ _ fits]) (simp_all add: json_dump_defs table_dump_defs Let_def)
qed

lemma sequence_balanced: "\<forall>s \<in> set ss. fmt_sec.balanced (run_scope s) \<Longrightarrow> fmt_sec.balanced (run_scopes ss)"
proof (induction ss)
  case Nil
  then show ?case by (simp add: fmt_sec.balanced_def)
next
  case (Cons s ss)
  then have "fmt_sec.balanced (\<lambda>f. rbind (run_scope s f) (run_scopes ss))" by (intro fmt_sec.balanced_seq) simp_all
  then show ?case by (simp add: fmt_sec.balanced_def)
qed

lemma scope_balanced: "scope_ok s \<Longrightarrow> fmt_sec.balanced (run_scope s)"
proof (induction s)
  case (Dump c)
  then have "fmt_sec.balanced (dump_call_run c)" by (intro fmt_sec.balanced_put fmt_puts_call) simp
  then show ?case by (simp add: fmt_sec.balanced_def)
next
  case (Object name ns body)
  then have "fmt_sec.balanced (run_scopes body)" by (intro sequence_balanced) (simp add: list_all_iff)
  from fmt_sec.balanced_scope [OF fmt_opens_object [of name ns] this] show ?case by (simp add: object_section_def fmt_sec.balanced_def)
next
  case (Array name ns body)
  then have "fmt_sec.balanced (run_scopes body)" by (intro sequence_balanced) (simp add: list_all_iff)
  from fmt_sec.balanced_scope [OF fmt_opens_array [of name ns] this] show ?case by (simp add: array_section_def fmt_sec.balanced_def)
qed

lemma scopes_balanced: "list_all scope_ok ss \<Longrightarrow> fmt_sec.balanced (run_scopes ss)"
  by (intro sequence_balanced) (simp add: list_all_iff scope_balanced)

lemma created_ready: "formatter_create typ dflt fallback = Some f \<Longrightarrow> fmt_ok f \<and> fmt_depth f = 0"
proof -
  have t: "table_ok (table_formatter_new k)" "table_depth (table_formatter_new k) = 0" for k
    by (simp_all add: table_ok_def table_depth_def table_formatter_new_def table_reset_def)
  have x: "xml_depth (xml_formatter_new p lo un) = 0" for p lo un by (simp add: xml_depth_def xml_formatter_new_def xml_reset_def)
  have j: "json_depth (json_formatter_new p) = 0" for p using new_ready(2) [of p] by (simp add: json_depth_view new_ready(1))
  have "formatter_of ty = Some f \<Longrightarrow> fmt_ok f \<and> fmt_depth f = 0" for ty
    by (auto simp: formatter_of_def t x j new_ready(1) xnew_ready(1) split: if_splits)
  then show "formatter_create typ dflt fallback = Some f \<Longrightarrow> fmt_ok f \<and> fmt_depth f = 0"
    by (auto simp: formatter_create_def split: option.splits if_splits)
qed

text \<open>C39: The guards keep every document well nested. Whatever formatter \<open>Formatter::create\<close> returns, any program of nested
  \<open>ObjectSection\<close> and \<open>ArraySection\<close> scopes with values dumped inside them runs to its end without an assertion failing, and
  closes every section that it opened, as long as no text it formats with \<open>dump_format\<close> is longer than 1024 bytes; the XML formatter
  would read past its buffer for a longer one.\<close>

theorem scopes_close_all:
  assumes "formatter_create typ dflt fallback = Some f" "list_all scope_ok ss"
  shows "\<exists>g. run_scopes ss f = Inr g \<and> fmt_ok g \<and> fmt_depth g = 0"
  using fmt_sec.balancedD [OF scopes_balanced [OF assms(2)], of f] created_ready [OF assms(1)] by simp

theorem scopes_close_all_witness:
  "\<exists>g. run_scopes [Object ''a'' None [Dump (DUnsigned ''n'' 1), Array ''b'' (Some ''x'') [Dump (DFloat ''d'' (Fin 3))]]]
      (FXml (xml_formatter_new False False True)) = Inr g \<and> fmt_ok g \<and> fmt_depth g = 0"
  by (rule scopes_close_all [of "''xml''" "[]" "[]"]) (simp_all add: formatter_create_def formatter_of_def)

text \<open>\<open>dump_object\<close> on such a formatter, with a dump function that is a program of scopes, gives a document with no open section;
  a section that is closed without being open is an assertion failure in the JSON and XML formatters, and goes unnoticed in the
  table formatter, whose counter of open sections becomes negative.\<close>

theorem dump_object_and_stray_close:
  assumes "formatter_create typ dflt fallback = Some f" "list_all scope_ok ss"
  shows "(\<exists>g. dump_object f name (run_scopes ss) = Inr g \<and> fmt_ok g \<and> fmt_depth g = 0)
    \<and> fmt_close (FJson (json_formatter_new p)) = Inl KAssert \<and> fmt_close (FXml (xml_formatter_new p lo un)) = Inl KAssert
    \<and> (\<exists>g. fmt_close (FTable (table_formatter_new p)) = Inr (FTable g) \<and> t_section_open g = -1)"
proof (intro conjI)
  have "dump_object f name (run_scopes ss) = run_scope (Object name None ss) f"
    by (simp add: dump_object_def object_section_def)
  moreover have "scope_ok (Object name None ss)" using assms(2) by simp
  ultimately show "\<exists>g. dump_object f name (run_scopes ss) = Inr g \<and> fmt_ok g \<and> fmt_depth g = 0"
    using fmt_sec.balancedD [OF scope_balanced, of "Object name None ss" f] created_ready [OF assms(1)] by simp
  show "fmt_close (FJson (json_formatter_new p)) = Inl KAssert"
    by (simp add: json_close_section_def json_formatter_new_def json_reset_def kassert_def)
  show "fmt_close (FXml (xml_formatter_new p lo un)) = Inl KAssert"
    by (simp add: xml_close_section_def xml_formatter_new_def xml_reset_def kassert_def)
  show "\<exists>g. fmt_close (FTable (table_formatter_new p)) = Inr (FTable g) \<and> t_section_open g = -1"
    by (simp add: table_close_section_def table_formatter_new_def table_reset_def)
qed

theorem dump_object_and_stray_close_witness:
  "(\<exists>g. dump_object (FXml (xml_formatter_new False False True)) ''o'' (run_scopes [Dump (DInt ''i'' 4)]) = Inr g \<and> fmt_ok g \<and> fmt_depth g = 0)
    \<and> fmt_close (FJson (json_formatter_new True)) = Inl KAssert \<and> fmt_close (FXml (xml_formatter_new True True True)) = Inl KAssert
    \<and> (\<exists>g. fmt_close (FTable (table_formatter_new True)) = Inr (FTable g) \<and> t_section_open g = -1)"
  by (rule dump_object_and_stray_close [of "''xml''" "[]" "[]"]) (simp_all add: formatter_create_def formatter_of_def)

end
