(* ===== verification/ContainerLog.thy ===== *)
theory ContainerLog
  imports Statistic
begin

text \<open>
  The container terms of \<open>src/src/common/statistic.h\<close>: \<open>ContainerLoggerTerm\<close> and \<open>OriginalLoggerTerm\<close>, plain and locked. They are
  templates over the container \<open>T_SUM\<close>, so the operations of the container are an argument here; the locale \<open>container\<close> states what
  they promise, and is interpreted on \<open>TimeRecords\<close> and on \<open>std::vector\<close>. Theory Statistic has the instance at \<open>TimeRecords\<close> written out;
  it is proved to be the same.
\<close>

section \<open>Containers\<close>

text \<open>\<open>push_back\<close> (\<open>emplace_back\<close> is the same), \<open>size\<close>, \<open>clear\<close>, \<open>resize\<close>, \<open>operator<<\<close> and the printed elements from \<open>begin ()\<close> to \<open>end ()\<close>.\<close>

record ('c, 't) container_ops =
  c_push :: "'t \<Rightarrow> 'c \<Rightarrow> 'c result"
  c_size :: "'c \<Rightarrow> nat"
  c_clear :: "'c \<Rightarrow> 'c"
  c_resize :: "nat \<Rightarrow> 'c \<Rightarrow> 'c"
  c_text :: "'c \<Rightarrow> string result"
  c_elems :: "'c \<Rightarrow> string list"

record 'c container_term =
  ct_name :: string
  ct_sum :: 'c
  ct_flushtime :: u32

section \<open>ContainerLoggerTerm\<close>

definition container_should_flush :: "'c container_term \<Rightarrow> bool" where
  "container_should_flush t \<longleftrightarrow> False"

text \<open>One line per element, and an empty line; the container keeps its elements.\<close>

definition container_flush :: "('c, 't) container_ops \<Rightarrow> 'c container_term \<times> logger \<Rightarrow> ('c container_term \<times> logger) result" where
  "container_flush ops s =
     Inr (fst s, put_log [NL] (foldl (\<lambda>lg e. put_log (ct_name (fst s) @ [TAB] @ e @ [NL]) lg) (snd s) (c_elems ops (ct_sum (fst s)))))"

text \<open>\<open>Add\<close>, with the virtual functions it calls.\<close>

definition container_add ::
  "('c, 't) container_ops \<Rightarrow> ('c container_term \<Rightarrow> bool) \<Rightarrow> ('c container_term \<times> logger \<Rightarrow> ('c container_term \<times> logger) result) \<Rightarrow>
    't \<Rightarrow> 'c container_term \<times> logger \<Rightarrow> ('c container_term \<times> logger) result" where
  "container_add ops flushes flush v s =
     rbind (c_push ops v (ct_sum (fst s))) (\<lambda>c.
       let s1 = ((fst s)\<lparr>ct_sum := c\<rparr>, snd s) in if flushes (fst s1) then flush s1 else Inr s1)"

definition locked_container_add ::
  "('c, 't) container_ops \<Rightarrow> ('c container_term \<Rightarrow> bool) \<Rightarrow> ('c container_term \<times> logger \<Rightarrow> ('c container_term \<times> logger) result) \<Rightarrow>
    't \<Rightarrow> bool \<Rightarrow> 'c container_term \<times> logger \<Rightarrow> (('c container_term \<times> logger) \<times> bool) result" where
  "locked_container_add ops flushes flush v lock s = with_lock lock (\<lambda>_. container_add ops flushes flush v s)"

section \<open>OriginalLoggerTerm\<close>

definition original_new :: "('c, 't) container_ops \<Rightarrow> 'c \<Rightarrow> string \<Rightarrow> u64 \<Rightarrow> 'c container_term" where
  "original_new ops c0 name max_size =
     \<lparr>ct_name = name, ct_sum = c_resize ops (unat max_size) c0, ct_flushtime = ucast (max_size div 2)\<rparr>"

definition original_set_flush_time :: "u32 \<Rightarrow> 'c container_term \<Rightarrow> 'c container_term" where
  "original_set_flush_time n t = t\<lparr>ct_flushtime := n\<rparr>"

definition original_should_flush :: "('c, 't) container_ops \<Rightarrow> 'c container_term \<Rightarrow> bool" where
  "original_should_flush ops t \<longleftrightarrow> unat (ct_flushtime t) = c_size ops (ct_sum t)"

definition original_flush :: "('c, 't) container_ops \<Rightarrow> 'c container_term \<times> logger \<Rightarrow> ('c container_term \<times> logger) result" where
  "original_flush ops s =
     rbind (c_text ops (ct_sum (fst s))) (\<lambda>txt.
       Inr ((fst s)\<lparr>ct_sum := c_clear ops (ct_sum (fst s))\<rparr>, put_log (txt @ [NL]) (snd s)))"

definition original_add :: "('c, 't) container_ops \<Rightarrow> 't \<Rightarrow> 'c container_term \<times> logger \<Rightarrow> ('c container_term \<times> logger) result" where
  "original_add ops = container_add ops (original_should_flush ops) (original_flush ops)"

fun run_adds :: "('t \<Rightarrow> 's \<Rightarrow> 's result) \<Rightarrow> 't list \<Rightarrow> 's \<Rightarrow> 's result" where
  "run_adds add [] s = Inr s"
| "run_adds add (v # vs) s = rbind (add v s) (run_adds add vs)"

lemma base_add: "c_push ops v (ct_sum t) = Inr c \<Longrightarrow> container_add ops container_should_flush fl v (t, lg) = Inr (t\<lparr>ct_sum := c\<rparr>, lg)"
  by (simp add: container_add_def container_should_flush_def)

lemma original_add_quiet:
  "c_push ops v (ct_sum t) = Inr c \<Longrightarrow> unat (ct_flushtime t) \<noteq> c_size ops c \<Longrightarrow> original_add ops v (t, lg) = Inr (t\<lparr>ct_sum := c\<rparr>, lg)"
  by (simp add: original_add_def container_add_def original_should_flush_def)

section \<open>The two containers\<close>

text \<open>\<open>TimeRecords\<close>: \<open>resize\<close> does nothing.\<close>

definition time_records_ops :: "(nat \<Rightarrow> nat \<Rightarrow> string) \<Rightarrow> (time_records \<Rightarrow> u64 list) \<Rightarrow> (time_records, time_record_term) container_ops" where
  "time_records_ops show_quot iter =
     \<lparr>c_push = push_back, c_size = records_size, c_clear = records_clear, c_resize = (\<lambda>n r. r), c_text = records_text show_quot iter,
      c_elems = (\<lambda>r. map (\<lambda>i. put_record i (the (r i))) (iter r))\<rparr>"

text \<open>\<open>std::vector\<close> of 64-bit numbers, with a printing function for the vector.\<close>

definition vector_resize :: "nat \<Rightarrow> u64 list \<Rightarrow> u64 list" where
  "vector_resize n xs = take n xs @ replicate (n - length xs) 0"

definition vector_ops :: "(u64 list \<Rightarrow> string) \<Rightarrow> (u64 list, u64) container_ops" where
  "vector_ops show_vec =
     \<lparr>c_push = (\<lambda>x xs. Inr (xs @ [x])), c_size = length, c_clear = (\<lambda>_. []), c_resize = vector_resize, c_text = (\<lambda>xs. Inr (show_vec xs)),
      c_elems = map (\<lambda>x. dec (unat x))\<rparr>"

section \<open>The interface\<close>

text \<open>Elements that a container accepts (\<open>fits\<close>) are added without a fault, and the size never shrinks by that.\<close>

locale container =
  fixes ops :: "('c, 't) container_ops" and fits :: "'t \<Rightarrow> bool" and ok :: "'c \<Rightarrow> bool"
  assumes push_ok: "fits v \<Longrightarrow> ok c \<Longrightarrow> \<exists>c'. c_push ops v c = Inr c' \<and> ok c' \<and> c_size ops c \<le> c_size ops c' \<and> c_size ops c' \<le> Suc (c_size ops c)"
    and clear_ok: "ok c \<Longrightarrow> ok (c_clear ops c) \<and> c_size ops (c_clear ops c) = 0"
begin

text \<open>The base class writes nothing, whatever is added.\<close>

lemma base_silent:
  assumes "list_all fits vs" "ok (ct_sum t)"
  shows "\<exists>c. run_adds (container_add ops container_should_flush fl) vs (t, lg) = Inr (t\<lparr>ct_sum := c\<rparr>, lg)
    \<and> ok c \<and> c_size ops (ct_sum t) \<le> c_size ops c"
  using assms
proof (induction vs arbitrary: t)
  case Nil
  then show ?case by (auto intro: exI [of _ "ct_sum t"])
next
  case (Cons v vs)
  then obtain c where c: "c_push ops v (ct_sum t) = Inr c" "ok c" "c_size ops (ct_sum t) \<le> c_size ops c" using push_ok by fastforce
  from Cons.IH [of "t\<lparr>ct_sum := c\<rparr>"] Cons.prems c(2) obtain d where
    "run_adds (container_add ops container_should_flush fl) vs (t\<lparr>ct_sum := c\<rparr>, lg) = Inr (t\<lparr>ct_sum := d\<rparr>, lg)" "ok d" "c_size ops c \<le> c_size ops d"
    by auto
  with c base_add [OF c(1), of fl lg] show ?case by (auto intro!: exI [of _ d])
qed

text \<open>A term that holds more than its flush size writes nothing either, and goes on growing.\<close>

lemma original_silent:
  assumes "list_all fits vs" "ok (ct_sum t)" "unat (ct_flushtime t) < c_size ops (ct_sum t)"
  shows "\<exists>c. run_adds (original_add ops) vs (t, lg) = Inr (t\<lparr>ct_sum := c\<rparr>, lg)
    \<and> ok c \<and> c_size ops (ct_sum t) \<le> c_size ops c"
  using assms
proof (induction vs arbitrary: t)
  case Nil
  then show ?case by (auto intro: exI [of _ "ct_sum t"])
next
  case (Cons v vs)
  then obtain c where c: "c_push ops v (ct_sum t) = Inr c" "ok c" "c_size ops (ct_sum t) \<le> c_size ops c" using push_ok by fastforce
  from Cons.IH [of "t\<lparr>ct_sum := c\<rparr>"] Cons.prems c(2,3) obtain d where
    "run_adds (original_add ops) vs (t\<lparr>ct_sum := c\<rparr>, lg) = Inr (t\<lparr>ct_sum := d\<rparr>, lg)" "ok d" "c_size ops c \<le> c_size ops d"
    by auto
  with c Cons.prems(3) original_add_quiet [OF c(1), of lg] show ?case by (auto intro!: exI [of _ d])
qed

text \<open>A term that holds less never reaches its flush size between two calls.\<close>

lemma original_bounded:
  assumes "list_all fits vs" "ok (ct_sum t)" "c_size ops (ct_sum t) < unat (ct_flushtime t)"
    and "\<And>c. ok c \<Longrightarrow> \<exists>s. c_text ops c = Inr s"
  shows "\<exists>c lg'. run_adds (original_add ops) vs (t, lg) = Inr (t\<lparr>ct_sum := c\<rparr>, lg') \<and> ok c \<and> c_size ops c < unat (ct_flushtime t)"
  using assms(1-3)
proof (induction vs arbitrary: t lg)
  case Nil
  then show ?case by (auto intro!: exI [of _ "ct_sum t"])
next
  case (Cons v vs)
  then obtain c where c: "c_push ops v (ct_sum t) = Inr c" "ok c" "c_size ops c \<le> Suc (c_size ops (ct_sum t))" using push_ok by fastforce
  obtain w where t: "c_text ops c = Inr w" using assms(4) [OF c(2)] by blast
  show ?case
  proof (cases "unat (ct_flushtime t) = c_size ops c")
    case True
    with c t have "original_add ops v (t, lg) = Inr (t\<lparr>ct_sum := c_clear ops c\<rparr>, put_log (w @ [NL]) lg)"
      by (simp add: original_add_def container_add_def original_should_flush_def original_flush_def)
    with Cons.IH [of "t\<lparr>ct_sum := c_clear ops c\<rparr>" "put_log (w @ [NL]) lg"] Cons.prems clear_ok [OF c(2)] show ?thesis by simp
  next
    case False
    then have "original_add ops v (t, lg) = Inr (t\<lparr>ct_sum := c\<rparr>, lg)" by (rule original_add_quiet [OF c(1)])
    with Cons.IH [of "t\<lparr>ct_sum := c\<rparr>" lg] Cons.prems c False show ?thesis by simp
  qed
qed

end

text \<open>A container whose \<open>resize\<close> changes its size, like those of the standard library.\<close>

locale resizing_container = container +
  fixes c0
  assumes resize_ok: "ok (c_resize ops n c0) \<and> c_size ops (c_resize ops n c0) = n"
begin

lemma original_new_silent:
  assumes "list_all fits vs" "0 < max_size"
  shows "\<exists>c. run_adds (original_add ops) vs (original_new ops c0 name max_size, lg) = Inr ((original_new ops c0 name max_size)\<lparr>ct_sum := c\<rparr>, lg)
    \<and> ok c \<and> unat max_size \<le> c_size ops c"
proof -
  have "unat (ucast (max_size div 2) :: u32) \<le> unat (max_size div 2)" by (simp add: unsigned_ucast_eq)
  also have "\<dots> < unat max_size" using assms(2) by (simp add: unat_div word_less_nat_alt)
  finally show ?thesis
    using original_silent [OF assms(1), of "original_new ops c0 name max_size" lg] resize_ok [of "unat max_size"] by (simp add: original_new_def)
qed

end

definition records_ok :: "time_records \<Rightarrow> bool" where
  "records_ok r \<longleftrightarrow> finite (dom r) \<and> (\<forall>v \<in> ran r. length v = 5)"

interpretation records_container: container "time_records_ops show_quot iter" "\<lambda>t. unat (tr_index t) < 5" records_ok for show_quot iter
proof
  fix v :: time_record_term and c
  assume v: "unat (tr_index v) < 5" and c: "records_ok c"
  let ?old = "case c (tr_id v) of Some w \<Rightarrow> w | None \<Rightarrow> replicate 5 0"
  have len: "length ?old = 5" using c by (auto simp: records_ok_def ran_def split: option.split)
  have p: "push_back v c = Inr (c(tr_id v \<mapsto> ?old[unat (tr_index v) := tr_timestamp v]))"
    using v len by (auto simp: push_back_def Let_def split: option.splits)
  moreover have "records_ok (c(tr_id v \<mapsto> ?old[unat (tr_index v) := tr_timestamp v]))"
    using c len by (auto simp: records_ok_def ran_def)
  moreover have "card (dom c) \<le> card (insert (tr_id v) (dom c))" "card (insert (tr_id v) (dom c)) \<le> Suc (card (dom c))"
    using c by (simp_all add: records_ok_def card_insert_if)
  ultimately show "\<exists>c'. c_push (time_records_ops show_quot iter) v c = Inr c' \<and> records_ok c' \<and>
      c_size (time_records_ops show_quot iter) c \<le> c_size (time_records_ops show_quot iter) c' \<and>
      c_size (time_records_ops show_quot iter) c' \<le> Suc (c_size (time_records_ops show_quot iter) c)"
    by (simp add: time_records_ops_def records_size_def)
qed (simp add: time_records_ops_def records_clear_def records_ok_def records_size_def)

interpretation vector_container: resizing_container "vector_ops show_vec" "\<lambda>_. True" "\<lambda>_. True" "[]" for show_vec
  by unfold_locales (simp_all add: vector_ops_def vector_resize_def)

section \<open>Properties\<close>

definition as_container :: "string \<Rightarrow> records_term \<Rightarrow> time_records container_term" where
  "as_container name t = \<lparr>ct_name = name, ct_sum = rt_records t, ct_flushtime = max_flushtime t\<rparr>"

lemma records_add_generic:
  "original_add (time_records_ops show_quot iter) v (as_container name t, lg) =
    rbind (records_add show_quot iter v (t, lg)) (\<lambda>(t', lg'). Inr (as_container name t', lg'))"
  by (cases "push_back v (rt_records t)"; cases "records_text show_quot iter (projr (push_back v (rt_records t)))")
    (simp_all add: original_add_def container_add_def original_should_flush_def original_flush_def records_add_def records_flush_def
      should_flush_def as_container_def time_records_ops_def Let_def)

text \<open>The term of the time records is the template at \<open>TimeRecords\<close>: on every sequence of additions both do the same, faults included.\<close>

theorem records_term_is_instance:
  "run_adds (original_add (time_records_ops show_quot iter)) vs (original_new (time_records_ops show_quot iter) Map.empty name n, lg) =
    rbind (run_adds (records_add show_quot iter) vs (records_term_new n, lg)) (\<lambda>(t, lg'). Inr (as_container name t, lg'))"
proof -
  have gen: "run_adds (original_add (time_records_ops show_quot iter)) vs (as_container name t, lg) =
      rbind (run_adds (records_add show_quot iter) vs (t, lg)) (\<lambda>(t, lg'). Inr (as_container name t, lg'))" for t lg
  proof (induction vs arbitrary: t lg)
    case (Cons v vs)
    then show ?case by (cases "records_add show_quot iter v (t, lg)") (auto simp: records_add_generic)
  qed simp
  moreover have "original_new (time_records_ops show_quot iter) Map.empty name n = as_container name (records_term_new n)"
    by (simp add: original_new_def as_container_def records_term_new_def time_records_ops_def)
  ultimately show ?thesis by simp
qed

text \<open>Over \<open>TimeRecords\<close> the template works in batches: the records never reach the flush size between two calls, so that the memory
  is bounded, and no addition fails. Over a \<open>std::vector\<close> it never writes: the constructor resizes the vector to the maximal size, twice the
  flush size that the size is compared with, and every addition makes it larger.\<close>

theorem original_term_batches_or_grows:
  assumes "iter_ok iter" "\<forall>t \<in> set ts. unat (tr_index t) < 5" "(ucast (n div 2) :: u32) \<noteq> 0"
  shows "(\<exists>c lg'. run_adds (original_add (time_records_ops show_quot iter)) ts (original_new (time_records_ops show_quot iter) Map.empty name n, lg)
        = Inr ((original_new (time_records_ops show_quot iter) Map.empty name n)\<lparr>ct_sum := c\<rparr>, lg') \<and> records_size c < unat (ucast (n div 2) :: u32))
    \<and> (\<exists>xs. run_adds (original_add (vector_ops show_vec)) vs (original_new (vector_ops show_vec) [] name n, lg)
        = Inr ((original_new (vector_ops show_vec) [] name n)\<lparr>ct_sum := xs\<rparr>, lg) \<and> unat n \<le> length xs)"
proof
  let ?ops = "time_records_ops show_quot iter"
  have texts: "\<exists>s. c_text ?ops c = Inr s" if "records_ok c" for c
  proof -
    have "\<forall>i \<in> set (iter c). 3 < length (the (c i))"
    proof
      fix i
      assume "i \<in> set (iter c)"
      then have "i \<in> dom c" using assms(1) that by (auto simp: iter_ok_def records_ok_def)
      then show "3 < length (the (c i))" using that by (fastforce simp: records_ok_def ran_def)
    qed
    from put_records_eq [OF this, of 0 0 "[]"] show ?thesis by (simp add: time_records_ops_def records_text_def)
  qed
  have pos: "0 < unat (ucast (n div 2) :: u32)" using assms(3) by (simp add: unat_gt_0)
  have "list_all (\<lambda>t. unat (tr_index t) < 5) ts" using assms(2) by (simp add: list_all_iff)
  from records_container.original_bounded [OF this, of "original_new ?ops Map.empty name n" show_quot iter lg] texts pos
  show "\<exists>c lg'. run_adds (original_add ?ops) ts (original_new ?ops Map.empty name n, lg)
        = Inr ((original_new ?ops Map.empty name n)\<lparr>ct_sum := c\<rparr>, lg') \<and> records_size c < unat (ucast (n div 2) :: u32)"
    by (auto simp: original_new_def time_records_ops_def records_ok_def records_size_def)
  have "0 < n" using assms(3) by (metis div_0 unsigned_0 word_gt_0)
  from vector_container.original_new_silent [OF _ this, of vs show_vec name lg]
  show "\<exists>xs. run_adds (original_add (vector_ops show_vec)) vs (original_new (vector_ops show_vec) [] name n, lg)
        = Inr ((original_new (vector_ops show_vec) [] name n)\<lparr>ct_sum := xs\<rparr>, lg) \<and> unat n \<le> length xs"
    by (auto simp: list_all_iff vector_ops_def)
qed

theorem original_term_batches_or_grows_witness:
  "(\<exists>c lg'. run_adds (original_add (time_records_ops (\<lambda>a b. []) by_id)) [\<lparr>tr_id = 7, tr_index = 1, tr_timestamp = 100\<rparr>]
        (original_new (time_records_ops (\<lambda>a b. []) by_id) Map.empty ''r'' 4, logger_new (\<lambda>_. []))
        = Inr ((original_new (time_records_ops (\<lambda>a b. []) by_id) Map.empty ''r'' 4)\<lparr>ct_sum := c\<rparr>, lg') \<and> records_size c < unat (ucast ((4 :: u64) div 2) :: u32))
    \<and> (\<exists>xs. run_adds (original_add (vector_ops (\<lambda>_. ''v''))) [1, 2, 3] (original_new (vector_ops (\<lambda>_. ''v'')) [] ''r'' 4, logger_new (\<lambda>_. []))
        = Inr ((original_new (vector_ops (\<lambda>_. ''v'')) [] ''r'' 4)\<lparr>ct_sum := xs\<rparr>, logger_new (\<lambda>_. [])) \<and> unat (4 :: u64) \<le> length xs)"
  by (rule original_term_batches_or_grows) (simp_all add: iter_ok_def by_id_def)

text \<open>The base class never writes what it is given: over a vector it keeps every value, in order, and the log is untouched.\<close>

theorem container_term_silent:
  "run_adds (container_add (vector_ops show_vec) container_should_flush (container_flush (vector_ops show_vec))) vs (t, lg) =
    Inr (t\<lparr>ct_sum := ct_sum t @ vs\<rparr>, lg)"
proof (induction vs arbitrary: t)
  case (Cons v vs)
  have "c_push (vector_ops show_vec) v (ct_sum t) = Inr (ct_sum t @ [v])" by (simp add: vector_ops_def)
  from base_add [OF this] Cons show ?case by simp
qed simp

end
