(* ===== verification/WorkerInit.thy ===== *)
theory WorkerInit
  imports Worker
begin

text \<open>
  The initialisation flag of \<open>Worker\<close> in \<open>src/src/network/Stack.h\<close> at the level of its mutex and condition variable: \<open>init_done\<close>,
  \<open>is_init\<close>, \<open>wait_for_init\<close> and \<open>reset\<close>, called by any number of threads, with a step for every access. Theory StackThreads takes a wait
  for the flag as one step; here the waits are shown to end. \<open>release_worker\<close> is here too.
\<close>

section \<open>State\<close>

text \<open>Where a thread is in its call.\<close>

datatype ipc = WaitLock | WaitTest | Asleep
  | InitLock | InitSet | InitNotify | InitUnlock
  | ResetLock | ResetSet | ResetNotify | ResetUnlock | ResetDone
  | IsLock | IsRead | Returned bool

record init_state =
  in_init :: bool
  in_done :: bool
  in_owner :: "nat option"
  in_pc :: "nat \<Rightarrow> ipc"

definition goto :: "nat \<Rightarrow> ipc \<Rightarrow> init_state \<Rightarrow> init_state" where
  "goto i p s = s\<lparr>in_pc := (in_pc s)(i := p)\<rparr>"

definition acquire :: "nat \<Rightarrow> ipc \<Rightarrow> init_state \<Rightarrow> init_state option" where
  "acquire i p s = (if in_owner s = None then Some (goto i p (s\<lparr>in_owner := Some i\<rparr>)) else None)"

definition release :: "init_state \<Rightarrow> init_state" where
  "release s = s\<lparr>in_owner := None\<rparr>"

text \<open>\<open>notify_all\<close>: every sleeper goes on to take the lock again.\<close>

definition wake_all :: "init_state \<Rightarrow> init_state" where
  "wake_all s = s\<lparr>in_pc := \<lambda>j. if in_pc s j = Asleep then WaitLock else in_pc s j\<rparr>"

section \<open>Steps\<close>

text \<open>The next step of thread \<open>i\<close>, if it can make one. \<open>init_cond.wait\<close> releases the lock and sleeps at once.\<close>

definition init_step :: "nat \<Rightarrow> init_state \<Rightarrow> init_state option" where
  "init_step i s =
     (case in_pc s i of
        WaitLock \<Rightarrow> acquire i WaitTest s
      | WaitTest \<Rightarrow> Some (release (goto i (if in_init s then Returned True else Asleep) s))
      | Asleep \<Rightarrow> None
      | InitLock \<Rightarrow> acquire i InitSet s
      | InitSet \<Rightarrow> Some (goto i InitNotify (s\<lparr>in_init := True\<rparr>))
      | InitNotify \<Rightarrow> Some (goto i InitUnlock (wake_all s))
      | InitUnlock \<Rightarrow> Some (release (goto i (Returned True) s))
      | ResetLock \<Rightarrow> acquire i ResetSet s
      | ResetSet \<Rightarrow> Some (goto i ResetNotify (s\<lparr>in_init := False\<rparr>))
      | ResetNotify \<Rightarrow> Some (goto i ResetUnlock (wake_all s))
      | ResetUnlock \<Rightarrow> Some (release (goto i ResetDone s))
      | ResetDone \<Rightarrow> Some (goto i (Returned True) (s\<lparr>in_done := False\<rparr>))
      | IsLock \<Rightarrow> acquire i IsRead s
      | IsRead \<Rightarrow> Some (release (goto i (Returned (in_init s)) s))
      | Returned b \<Rightarrow> None)"

text \<open>The threads interleave; a sleeper may also wake up for no reason.\<close>

inductive init_run :: "nat \<Rightarrow> init_state \<Rightarrow> init_state \<Rightarrow> bool" for n where
  start: "init_run n s s"
| thread: "init_run n s t \<Longrightarrow> i < n \<Longrightarrow> init_step i t = Some u \<Longrightarrow> init_run n s u"
| spurious: "init_run n s t \<Longrightarrow> i < n \<Longrightarrow> in_pc t i = Asleep \<Longrightarrow> init_run n s (goto i WaitLock t)"

text \<open>The threads have just made their calls and nobody holds the lock.\<close>

definition calls_made :: "init_state \<Rightarrow> bool" where
  "calls_made s \<longleftrightarrow> in_owner s = None \<and> (\<forall>i. in_pc s i \<in> {WaitLock, InitLock, ResetLock, IsLock, Returned True, Returned False})"

section \<open>Invariant\<close>

fun holds :: "ipc \<Rightarrow> bool" where
  "holds WaitTest = True"
| "holds InitSet = True"
| "holds InitNotify = True"
| "holds InitUnlock = True"
| "holds ResetSet = True"
| "holds ResetNotify = True"
| "holds ResetUnlock = True"
| "holds IsRead = True"
| "holds _ = False"

text \<open>The owner of the lock has set the flag and is about to notify.\<close>

definition notifying :: "init_state \<Rightarrow> bool" where
  "notifying s \<longleftrightarrow> (case in_owner s of Some j \<Rightarrow> in_pc s j = InitNotify | None \<Rightarrow> False)"

definition init_inv :: "init_state \<Rightarrow> bool" where
  "init_inv s \<longleftrightarrow> (\<forall>i. holds (in_pc s i) \<longleftrightarrow> in_owner s = Some i) \<and> (\<forall>i. in_pc s i = Asleep \<longrightarrow> in_init s \<longrightarrow> notifying s)"

lemma init_invD:
  "init_inv s \<Longrightarrow> holds (in_pc s i) \<longleftrightarrow> in_owner s = Some i"
  "init_inv s \<Longrightarrow> in_pc s i = Asleep \<Longrightarrow> in_init s \<Longrightarrow> notifying s"
  by (auto simp: init_inv_def)

lemmas step_simps = goto_def acquire_def release_def wake_all_def notifying_def

lemma init_step_inv:
  assumes "init_inv s" "init_step i s = Some t"
  shows "init_inv t"
  using assms(2) init_invD(1) [OF assms(1), of i] init_invD(1) [OF assms(1)] init_invD(2) [OF assms(1)]
  by (cases "in_pc s i") (auto simp: init_step_def init_inv_def step_simps split: if_splits option.splits)

lemma calls_made_inv:
  assumes "calls_made s"
  shows "init_inv s"
proof -
  have "\<not> holds (in_pc s i)" "in_pc s i \<noteq> Asleep" for i using assms unfolding calls_made_def by (metis holds.simps insertE empty_iff ipc.distinct)+
  then show ?thesis using assms by (simp add: init_inv_def calls_made_def)
qed

lemma init_run_inv:
  assumes "init_run n s t" "calls_made s"
  shows "init_inv t"
  using assms
proof (induction rule: init_run.induct)
  case (spurious s t i)
  then have t: "init_inv t" "in_pc t i = Asleep" by simp_all
  then have "in_owner t \<noteq> Some i" using init_invD(1) [OF t(1), of i] by simp
  with t show ?case by (auto simp: init_inv_def step_simps split: option.splits)
qed (auto intro: calls_made_inv init_step_inv)

section \<open>Every call ends\<close>

text \<open>How far a thread is from its return, given the number of threads that a notification may wake.\<close>

fun weight :: "nat \<Rightarrow> ipc \<Rightarrow> nat" where
  "weight n WaitLock = 3"
| "weight n WaitTest = 2"
| "weight n Asleep = 1"
| "weight n InitLock = 2 * n + 4"
| "weight n InitSet = 2 * n + 3"
| "weight n InitNotify = 2 * n + 2"
| "weight n InitUnlock = 1"
| "weight n ResetLock = 2 * n + 5"
| "weight n ResetSet = 2 * n + 4"
| "weight n ResetNotify = 2 * n + 3"
| "weight n ResetUnlock = 2"
| "weight n ResetDone = 1"
| "weight n IsLock = 2"
| "weight n IsRead = 1"
| "weight n (Returned b) = 0"

definition work :: "nat \<Rightarrow> init_state \<Rightarrow> nat" where
  "work n s = (\<Sum>i<n. weight n (in_pc s i))"

lemma work_goto:
  assumes "i < n" "weight n p < weight n (pc i)"
  shows "(\<Sum>j<n. weight n ((pc(i := p)) j)) < (\<Sum>j<n. weight n (pc j))"
  by (rule sum_strict_mono_ex1) (use assms in auto)

lemma work_wake:
  assumes "i < n" "pc i \<noteq> Asleep" "weight n p + 2 * n < weight n (pc i)"
  shows "(\<Sum>j<n. weight n (((\<lambda>j. if pc j = Asleep then WaitLock else pc j)(i := p)) j)) < (\<Sum>j<n. weight n (pc j))"
proof -
  let ?new = "(\<lambda>j. if pc j = Asleep then WaitLock else pc j)(i := p)"
  have split: "(\<Sum>j<n. f j) = f i + (\<Sum>j \<in> {..<n} - {i}. f j)" for f :: "nat \<Rightarrow> nat" using assms(1) by (simp add: sum.remove)
  have "(\<Sum>j \<in> {..<n} - {i}. weight n (?new j)) \<le> (\<Sum>j \<in> {..<n} - {i}. weight n (pc j) + 2)" by (rule sum_mono) auto
  also have "\<dots> = (\<Sum>j \<in> {..<n} - {i}. weight n (pc j)) + 2 * (n - 1)" unfolding sum.distrib using assms(1) by simp
  finally show ?thesis unfolding split [of "\<lambda>j. weight n (?new j)"] split [of "\<lambda>j. weight n (pc j)"] using assms by simp
qed

lemma init_step_work:
  assumes "i < n" "init_step i s = Some t"
  shows "work n t < work n s"
  using assms(2) work_goto [OF assms(1), of _ "in_pc s"] work_wake [OF assms(1), of "in_pc s"]
  by (cases "in_pc s i") (auto simp: init_step_def work_def step_simps split: if_splits)

lemma stuck_returned:
  assumes "init_inv s" "\<forall>i<n. init_step i s = None" "\<forall>i\<ge>n. \<exists>b. in_pc s i = Returned b" "i < n"
  shows "(\<exists>b. in_pc s i = Returned b) \<or> in_pc s i = Asleep \<and> \<not> in_init s"
proof -
  have moves: "holds (in_pc s j) \<Longrightarrow> init_step j s \<noteq> None" for j by (cases "in_pc s j") (simp_all add: init_step_def)
  have free: "in_owner s = None"
  proof (rule ccontr)
    assume "in_owner s \<noteq> None"
    then obtain j where "in_owner s = Some j" by blast
    then have h: "holds (in_pc s j)" using init_invD(1) [OF assms(1)] by blast
    have "j < n"
    proof (rule ccontr)
      assume "\<not> j < n"
      then obtain b where "in_pc s j = Returned b" using assms(3) by (metis not_less)
      with h show False by simp
    qed
    then have "init_step j s = None" using assms(2) by simp
    with moves [OF h] show False by simp
  qed
  then have "in_pc s i = Asleep \<Longrightarrow> \<not> in_init s" using init_invD(2) [OF assms(1), of i] by (auto simp: notifying_def)
  moreover have "init_step i s = None" using assms(2,4) by blast
  ultimately show ?thesis using free by (cases "in_pc s i") (auto simp: init_step_def acquire_def)
qed

lemma step_keeps_returned:
  "init_step i s = Some t \<Longrightarrow> in_pc s j = Returned b \<Longrightarrow> in_pc t j = Returned b"
  by (cases "in_pc s i"; cases "i = j") (auto simp: init_step_def step_simps split: if_splits)

lemma run_keeps_returned: "init_run n s t \<Longrightarrow> in_pc s j = Returned b \<Longrightarrow> in_pc t j = Returned b"
proof (induction rule: init_run.induct)
  case (spurious s t i)
  then show ?case by (auto simp: goto_def)
qed (auto dest: step_keeps_returned)

text \<open>C36: The protocol of the initialisation flag is sound for any number of threads in \<open>wait_for_init\<close>, \<open>is_init\<close>, \<open>init_done\<close> and \<open>reset\<close>. In every
  reachable state at most one thread is between \<open>lock\<close> and \<open>unlock\<close>; no wake-up is lost: while the flag is set a thread sleeps only until
  the owner of the lock notifies it; no run without spurious wake-ups goes on for ever; and when no thread can move any more, each call
  has returned, except for waits that sleep because the flag is false.\<close>

theorem init_protocol:
  assumes "calls_made s" "\<forall>i\<ge>n. \<exists>b. in_pc s i = Returned b" "init_run n s t"
  shows "(\<forall>i j. holds (in_pc t i) \<longrightarrow> holds (in_pc t j) \<longrightarrow> i = j)
    \<and> (\<forall>i. in_pc t i = Asleep \<longrightarrow> in_init t \<longrightarrow> notifying t)
    \<and> \<not> (\<exists>\<sigma>. \<sigma> 0 = t \<and> (\<forall>k. \<exists>i<n. init_step i (\<sigma> k) = Some (\<sigma> (Suc k))))
    \<and> ((\<forall>i<n. init_step i t = None) \<longrightarrow> (\<forall>i<n. (\<exists>b. in_pc t i = Returned b) \<or> in_pc t i = Asleep \<and> \<not> in_init t))"
proof (intro conjI)
  have inv: "init_inv t" by (rule init_run_inv [OF assms(3,1)])
  show "\<forall>i j. holds (in_pc t i) \<longrightarrow> holds (in_pc t j) \<longrightarrow> i = j" using init_invD(1) [OF inv] by simp
  show "\<forall>i. in_pc t i = Asleep \<longrightarrow> in_init t \<longrightarrow> notifying t" using init_invD(2) [OF inv] by blast
  show "\<not> (\<exists>\<sigma>. \<sigma> 0 = t \<and> (\<forall>k. \<exists>i<n. init_step i (\<sigma> k) = Some (\<sigma> (Suc k))))"
  proof
    assume "\<exists>\<sigma>. \<sigma> 0 = t \<and> (\<forall>k. \<exists>i<n. init_step i (\<sigma> k) = Some (\<sigma> (Suc k)))"
    then obtain \<sigma> where "\<forall>k. \<exists>i<n. init_step i (\<sigma> k) = Some (\<sigma> (Suc k))" by blast
    then have "\<forall>k. work n (\<sigma> (Suc k)) < work n (\<sigma> k)" using init_step_work by blast
    then show False using wf_no_infinite_down_chainE [OF wf_measure [of "work n"], of \<sigma>] by (auto simp: measure_def inv_image_def)
  qed
  have "\<forall>i\<ge>n. \<exists>b. in_pc t i = Returned b" using assms(2) run_keeps_returned [OF assms(3)] by blast
  then show "(\<forall>i<n. init_step i t = None) \<longrightarrow> (\<forall>i<n. (\<exists>b. in_pc t i = Returned b) \<or> in_pc t i = Asleep \<and> \<not> in_init t)"
    using stuck_returned [OF inv] by blast
qed

text \<open>Two threads: the worker's \<open>init_done\<close> and the starter's \<open>wait_for_init\<close>, which has gone to sleep.\<close>

definition two_calls :: init_state where
  "two_calls = \<lparr>in_init = False, in_done = False, in_owner = None, in_pc = (\<lambda>_. Returned True)(0 := WaitLock, 1 := InitLock)\<rparr>"

definition one_sleeps :: init_state where
  "one_sleeps = \<lparr>in_init = False, in_done = False, in_owner = None, in_pc = (\<lambda>_. Returned True)(0 := Asleep, 1 := InitLock)\<rparr>"

lemma two_calls_sleep: "init_run 2 two_calls one_sleeps"
proof -
  have a: "init_step 0 two_calls = Some (two_calls\<lparr>in_owner := Some 0, in_pc := (in_pc two_calls)(0 := WaitTest)\<rparr>)"
    by (simp add: init_step_def two_calls_def step_simps)
  have b: "init_step 0 (two_calls\<lparr>in_owner := Some 0, in_pc := (in_pc two_calls)(0 := WaitTest)\<rparr>) = Some one_sleeps"
    by (simp add: init_step_def two_calls_def one_sleeps_def step_simps fun_eq_iff)
  show ?thesis by (rule init_run.thread [OF init_run.thread [OF init_run.start _ a] _ b]) simp_all
qed

theorem init_protocol_witness:
  "in_pc one_sleeps 0 = Asleep \<and> \<not> in_init one_sleeps \<and> \<not> (\<exists>\<sigma>. \<sigma> 0 = one_sleeps \<and> (\<forall>k. \<exists>i<2. init_step i (\<sigma> k) = Some (\<sigma> (Suc k))))"
proof -
  have "calls_made two_calls" "\<forall>i\<ge>2. \<exists>b. in_pc two_calls i = Returned b" by (auto simp: calls_made_def two_calls_def)
  from init_protocol [OF this two_calls_sleep] show ?thesis by (simp add: one_sleeps_def)
qed

text \<open>Where the flag is set at the end, nobody is left behind: in a reachable state where no thread can move and the flag is set, every
  \<open>wait_for_init\<close> has returned, and so have all other calls.\<close>

theorem init_done_releases_waiters:
  assumes "calls_made s" "\<forall>i\<ge>n. \<exists>b. in_pc s i = Returned b" "init_run n s t" "in_init t" "\<forall>i<n. init_step i t = None" "i < n"
  shows "\<exists>b. in_pc t i = Returned b"
proof -
  have "\<forall>i\<ge>n. \<exists>b. in_pc t i = Returned b" using assms(2) run_keeps_returned [OF assms(3)] by blast
  from stuck_returned [OF init_run_inv [OF assms(3,1)] assms(5) this assms(6)] assms(4) show ?thesis by simp
qed

definition both_returned :: init_state where
  "both_returned = \<lparr>in_init = True, in_done = False, in_owner = None, in_pc = \<lambda>_. Returned True\<rparr>"

theorem init_done_releases_waiters_witness: "\<exists>b. in_pc both_returned 0 = Returned b"
  by (rule init_done_releases_waiters [of both_returned 2 both_returned])
    (auto simp: calls_made_def both_returned_def init_step_def init_run.start)

section \<open>References\<close>

text \<open>\<open>release_worker\<close>: the old value of the unsigned counter is converted to \<open>int\<close> and has to be positive.\<close>

definition release_worker :: "u32 \<Rightarrow> u32 result" where
  "release_worker refs = kassert (0 < sint refs) (Inr (refs - 1))"

lemma sint_small: "m < 2147483648 \<Longrightarrow> sint (of_nat m :: u32) = int m"
  by (simp add: signed_of_nat signed_take_bit_int_eq_self)

text \<open>\<open>release_worker\<close> undoes \<open>get_worker\<close>: the worker that was chosen has again as many references as before. On a worker without
  references it is an assertion failure.\<close>

theorem release_undoes_get:
  assumes "get_worker loads = Inr (i, loads')"
  shows "release_worker (of_nat (loads' ! i)) = Inr (of_nat (loads ! i)) \<and> release_worker 0 = Inl KAssert"
proof
  obtain j where b: "best_worker loads 0 INT_MAX None = Some j" and ij: "i = j" "loads' = loads[i := loads ! i + 1]"
    using assms by (auto simp: get_worker_def split: option.splits)
  have gen: "best_worker ls k m b = Some j \<Longrightarrow> b = Some j \<or> k \<le> j \<and> j < k + length ls \<and> ls ! (j - k) < m" for ls k m b
  proof (induction ls arbitrary: k m b)
    case (Cons l ls)
    from Cons.prems Cons.IH [of "k + 1" l "Some k"] Cons.IH [of "k + 1" m b] show ?case
      by (auto simp: nth_Cons' split: if_splits)
  qed simp
  from gen [OF b] have less: "i < length loads" "loads ! i < 2147483647" by (auto simp: ij(1) INT_MAX_def)
  then have l': "loads' ! i = loads ! i + 1" using ij by simp
  have "sint (of_nat (loads ! i + 1) :: u32) = int (loads ! i + 1)"
    using less by (intro sint_small) simp
  then show "release_worker (of_nat (loads' ! i)) = Inr (of_nat (loads ! i))" unfolding l' by (simp add: release_worker_def)
  show "release_worker 0 = Inl KAssert" by (simp add: release_worker_def)
qed

theorem release_undoes_get_witness:
  "release_worker (of_nat ([2, 2 :: nat] ! 1)) = Inr (of_nat ([2, 1 :: nat] ! 1)) \<and> release_worker 0 = Inl KAssert"
  by (rule release_undoes_get) (simp add: get_worker_def INT_MAX_def)

end
