(* ===== verification/AppContext.thy ===== *)
theory AppContext
  imports CounterLife Config RxPool IbDevice
begin

text \<open>
  \<open>Context\<close> of \<open>src/src/common/context.h\<close>: the configuration it owns, the collection of counters and the table of event centers
  (\<open>AssociatedCenters\<close> in \<open>src/src/network/Event.h\<close>). Configurations live in a heap. The receive pool that the constructor of \<open>MemoryManager\<close>
  (\<open>src/src/core/Infiniband.cc\<close>) sets up from the configuration is here too.
\<close>

section \<open>Contexts\<close>

record app_context =
  cx_config :: ptr
  cx_coll :: locked_coll
  cx_centers :: "ptr list"

type_synonym config_heap = "ptr \<Rightarrow> config option"

definition centers_new :: "ptr list" where
  "centers_new = replicate MAX_EVENTCENTER nullptr"

text \<open>The constructor with a configuration object.\<close>

definition context_new :: "ptr \<Rightarrow> (ptr \<Rightarrow> perf_counters option) \<Rightarrow> app_context" where
  "context_new cfg counters = \<lparr>cx_config = cfg, cx_coll = \<lparr>lc_impl = collection_new counters, lc_lock = False\<rparr>, cx_centers = centers_new\<rparr>"

text \<open>The constructor with a file name: a new configuration is made at \<open>p\<close> and read from the file.\<close>

definition context_from_file ::
  "(string \<Rightarrow> u8 list option) \<Rightarrow> u8 list \<Rightarrow> (string list \<times> bool) option \<Rightarrow> config \<Rightarrow> ptr \<Rightarrow> (ptr \<Rightarrow> perf_counters option) \<Rightarrow>
    config_heap \<Rightarrow> (app_context \<times> config_heap) result" where
  "context_from_file inet_pton junk file u p counters h =
     rbind (config_load inet_pton junk file u) (\<lambda>c. Inr (context_new p counters, h(p \<mapsto> c)))"

text \<open>The destructor deletes the configuration; deleting one that was deleted before is a fault.\<close>

definition context_delete :: "app_context \<Rightarrow> config_heap \<Rightarrow> config_heap result" where
  "context_delete cx h =
     (if cx_config cx = nullptr then Inr h
      else if h (cx_config cx) = None then Inl UseAfterFree
      else Inr (h(cx_config cx := None)))"

fun delete_contexts :: "app_context list \<Rightarrow> config_heap \<Rightarrow> config_heap result" where
  "delete_contexts [] h = Inr h"
| "delete_contexts (cx # cxs) h = rbind (context_delete cx h) (delete_contexts cxs)"

section \<open>The receive pool\<close>

text \<open>What is passed to \<open>boost::pool\<close>: the size of a block, the number of blocks of the first allocation, and the largest number per
  allocation. The sum with \<open>sizeof (Chunk)\<close> is 64 bits wide, the doubled queue length 32 bits.\<close>

definition pool_requested_size :: "config \<Rightarrow> u64" where
  "pool_requested_size cfg = of_nat sizeof_Chunk + ucast (m_rdma_buffer_size_bytes cfg)"

definition pool_next_size :: "config \<Rightarrow> u32" where
  "pool_next_size cfg =
     (if m_rdma_receive_buffers_bytes cfg > 0 then
        (if m_rdma_receive_buffers_bytes cfg < 2 * m_rdma_receive_queue_len cfg then m_rdma_receive_buffers_bytes cfg
         else 2 * m_rdma_receive_queue_len cfg)
      else 2 * m_rdma_receive_queue_len cfg)"

definition pool_max_size :: "config \<Rightarrow> device_attr \<Rightarrow> u64" where
  "pool_max_size cfg attr = max_mr_size attr div pool_requested_size cfg"

section \<open>Properties\<close>

lemma delete_once:
  assumes "distinct (map cx_config cxs)" "\<forall>cx \<in> set cxs. cx_config cx \<noteq> nullptr \<and> h (cx_config cx) \<noteq> None"
  shows "\<exists>h'. delete_contexts cxs h = Inr h' \<and> (\<forall>p. h' p = (if p \<in> cx_config ` set cxs then None else h p))"
  using assms
proof (induction cxs arbitrary: h)
  case (Cons cx cxs)
  let ?h = "h(cx_config cx := None)"
  have d: "context_delete cx h = Inr ?h" using Cons.prems by (auto simp: context_delete_def)
  have "\<forall>cy \<in> set cxs. cx_config cy \<noteq> nullptr \<and> ?h (cx_config cy) \<noteq> None" using Cons.prems by (auto simp: rev_image_eqI)
  then obtain h' where "delete_contexts cxs ?h = Inr h'" "\<forall>p. h' p = (if p \<in> cx_config ` set cxs then None else ?h p)"
    using Cons.IH [of ?h] Cons.prems(1) unfolding list.map distinct.simps by blast
  then show ?case using d by simp
qed simp

text \<open>A context owns its configuration. Contexts with configurations of their own can be deleted in any order, and then exactly their configurations are
  gone; of two contexts that were made from the same configuration object, the second one to be deleted deletes it again. A new context has no
  counters, no lock held and no event center.\<close>

theorem context_owns_config:
  assumes "distinct (map cx_config cxs)" "\<forall>cx \<in> set cxs. cx_config cx \<noteq> nullptr \<and> h (cx_config cx) \<noteq> None"
    and "cfg \<noteq> nullptr" "h cfg \<noteq> None"
  shows "(\<exists>h'. delete_contexts cxs h = Inr h' \<and> (\<forall>p. h' p = (if p \<in> cx_config ` set cxs then None else h p)))
    \<and> delete_contexts [context_new cfg c1, context_new cfg c2] h = Inl UseAfterFree
    \<and> c_loggers (lc_impl (cx_coll (context_new cfg c1))) = [] \<and> \<not> lc_lock (cx_coll (context_new cfg c1)) \<and> set (cx_centers (context_new cfg c1)) = {nullptr}"
  using delete_once [OF assms(1,2)] assms(3,4)
  by (auto simp: context_delete_def context_new_def collection_new_def centers_new_def MAX_EVENTCENTER_def)

theorem context_owns_config_witness:
  "(\<exists>h'. delete_contexts [context_new 8 Map.empty] [8 \<mapsto> example_config] = Inr h'
      \<and> (\<forall>p. h' p = (if p \<in> cx_config ` set [context_new 8 Map.empty] then None else [8 \<mapsto> example_config] p)))
    \<and> delete_contexts [context_new 8 Map.empty, context_new 8 Map.empty] [8 \<mapsto> example_config] = Inl UseAfterFree
    \<and> c_loggers (lc_impl (cx_coll (context_new 8 Map.empty))) = [] \<and> \<not> lc_lock (cx_coll (context_new 8 Map.empty))
    \<and> set (cx_centers (context_new 8 Map.empty)) = {nullptr}"
  by (rule context_owns_config) (simp_all add: context_new_def)

text \<open>The receive pool of a configuration whose queue length is below \<open>2 ^ 31\<close>: a block holds a chunk and its buffer; the first allocation has
  room for two receive queues, or for all buffers that the limit admits when that is less; and an allocation of the largest number of blocks stays
  within the largest memory region of the device.\<close>

theorem rx_pool_sizes:
  assumes "unat (m_rdma_receive_queue_len cfg) < 2 ^ 31"
  shows "unat (pool_requested_size cfg) = sizeof_Chunk + unat (m_rdma_buffer_size_bytes cfg)
    \<and> unat (pool_next_size cfg) =
        (if m_rdma_receive_buffers_bytes cfg = 0 then 2 * unat (m_rdma_receive_queue_len cfg)
         else min (unat (m_rdma_receive_buffers_bytes cfg)) (2 * unat (m_rdma_receive_queue_len cfg)))
    \<and> unat (pool_max_size cfg attr) * unat (pool_requested_size cfg) \<le> unat (max_mr_size attr)"
proof (intro conjI)
  show r: "unat (pool_requested_size cfg) = sizeof_Chunk + unat (m_rdma_buffer_size_bytes cfg)"
    using unat_less_u32 [of "m_rdma_buffer_size_bytes cfg"] unfolding pool_requested_size_def sizeof_Chunk_def
    by (subst unat_add_no_overflow) simp_all
  have two: "unat (2 * m_rdma_receive_queue_len cfg) = 2 * unat (m_rdma_receive_queue_len cfg)"
    using assms by (subst unat_mult_no_overflow) simp_all
  show "unat (pool_next_size cfg) =
      (if m_rdma_receive_buffers_bytes cfg = 0 then 2 * unat (m_rdma_receive_queue_len cfg)
       else min (unat (m_rdma_receive_buffers_bytes cfg)) (2 * unat (m_rdma_receive_queue_len cfg)))"
    using two by (simp add: pool_next_size_def word_less_nat_alt min_def unat_gt_0 not_less)
  show "unat (pool_max_size cfg attr) * unat (pool_requested_size cfg) \<le> unat (max_mr_size attr)"
    unfolding pool_max_size_def unat_div_distrib by (rule div_times_less_eq_dividend)
qed

theorem rx_pool_sizes_witness:
  "unat (pool_requested_size example_config) = sizeof_Chunk + unat (m_rdma_buffer_size_bytes example_config)
    \<and> unat (pool_next_size example_config) =
        (if m_rdma_receive_buffers_bytes example_config = 0 then 2 * unat (m_rdma_receive_queue_len example_config)
         else min (unat (m_rdma_receive_buffers_bytes example_config)) (2 * unat (m_rdma_receive_queue_len example_config)))
    \<and> unat (pool_max_size example_config \<lparr>phys_port_cnt = 1, max_qp_wr = 1, max_srq = 1, max_srq_wr = 1, max_mr_size = 1000000\<rparr>)
        * unat (pool_requested_size example_config) \<le> unat (max_mr_size \<lparr>phys_port_cnt = 1, max_qp_wr = 1, max_srq = 1, max_srq_wr = 1, max_mr_size = 1000000\<rparr>)"
  by (rule rx_pool_sizes) (simp add: example_config_def config_defaults_def)

end
