(* ===== verification/Spec2Isabelle.thy ===== *)
theory Spec2Isabelle
  imports RxPool ConnSocket EventCenter Connection Multicast Worker Acceptor TableFormatter PerfCollection PosixSocket StackThreads NetworkStack Statistic ServerConns TxCopy SpinLock EventSubmit PoolContext RdmaConnect MemoryManager CycleClock Clocks SocketHandle ServerLife FormatterApi ContainerLog WorkerInit AppContext
begin

text \<open>
  RDMACapsule: an RDMA message transport with multicast groups set up in a programmable switch.

  \<^bold>\<open>The program.\<close> A \<open>Server\<close> (src/src/core/server.cc) owns a \<open>NetworkStack\<close> of workers, each a thread with an \<open>EventCenter\<close>
  (src/src/network). A \<open>Connection\<close> (src/src/core/connection.cc) lives on one worker and drives a connected socket: the
  RDMA socket (src/src/core/RDMAConnectedSocketImpl.cc) or the TCP one (src/src/network/PosixStack.cc). An RDMA socket exchanges a
  handshake message over TCP, brings its queue pair up, and then sends from a pool of registered chunks and receives into chunks
  of a second pool; a dispatcher thread (src/src/core/RDMAStack.cc) polls the completion queues and hands completions to
  the sockets. The multicast daemon (src/src/multicast) stands between a client and the members of a group: it relays the
  handshakes, writes the group into the switch (src/src/controller) and then answers the client. The rest is support: configuration,
  addresses, buffers, times, performance counters and their histograms, formatters, statistics (src/src/common).

  \<^bold>\<open>Conventions.\<close> Fallible code returns \<open>fault + 'a\<close>: the faults of Prelude are the failed assertions, the calls of \<open>abort\<close>, and
  the undefined behaviours the model keeps track of (null and dangling pointers, indexes out of bounds, signed overflow, division
  by zero). Pointers are natural numbers with \<open>nullptr = 0\<close>; fixed-width unsigned integers are words; \<open>int\<close> and \<open>int64_t\<close> are
  integers, with \<open>i64\<close> where an overflow is possible. Answers of the kernel, of the verbs library, of the Python interpreter and
  of the C library where it depends on the machine are arguments of the definitions; what a theorem needs of them is among its
  hypotheses, and its witness gives a concrete answer. Log output is left out. Loops are structural recursion, \<open>function\<close> with a
  measure, or \<open>partial_function (option)\<close>, whose value \<open>None\<close> means that the loop does not end; no fuel is used. Threads are
  inductive step relations over all interleavings of their steps; a step is an access to shared memory, or what a thread does while it holds a
  lock that everybody else takes too. Where a relation allows more than the code, its theory says so.

  \<^bold>\<open>Memory and verbs.\<close>
  \<^item> Chunk: \<open>Infiniband::MemoryManager::Chunk\<close>, the cursors of a registered buffer. Writing stays in the buffer and reading gives
    back what was written.
  \<^item> TxCluster: \<open>Cluster\<close>, the pool of send chunks; interface locale \<open>buffer_pool\<close>. Chunks are lent once, \<open>fill\<close> tiles the region.
  \<^item> RxPool: \<open>MemPoolContext\<close>, \<open>PoolAllocator\<close>, huge pages. The counter is exact, the limit is kept. PoolContext: the static context of the allocator under its
    lock, in every interleaving of allocating and freeing threads.
  \<^item> RecvQueue: \<open>post_chunks_to_rq\<close> and the queue of receive requests of a queue pair, on every branch.
  \<^item> QueuePair: \<open>QueuePair\<close>; its transitions refine the state machine of a reliable connection.
  \<^item> IbDevice: \<open>Port\<close>, \<open>Device\<close>, \<open>CompletionChannel\<close>, \<open>CompletionQueue\<close>, \<open>Infiniband::init\<close>.
  \<^item> Dispatcher: \<open>RDMADispatcher\<close>; the table of queue pairs in every reachable state, with the polling thread split into its locked and unlocked steps; delivery of completions, death of queue pairs; the
    callback that can meet a deleted socket.
    PollingThread: the life of its thread and of the completion queues and channels, up to the destructor.
  \<^item> MemoryManager: what \<open>MemoryManager\<close>, \<open>Cluster\<close>, the devices and \<open>Infiniband\<close> allocate and what their destructors give back, and the size of the
    send pool for which they fault.

  \<^bold>\<open>Sockets and handshake.\<close>
  \<^item> HexFormat and CmMeta: \<open>sprintf\<close> and \<open>sscanf\<close> of the handshake fields, \<open>send_cm_meta\<close>, \<open>recv_cm_meta\<close>: round trip, and the overflow.
  \<^item> ConnSocket: \<open>RDMAConnectedSocketImpl\<close>: the handshake connects both sides, reading and submitting. TxCopy: the copy of slices into send
    chunks.
  \<^item> BufferList: \<open>Buffer\<close> and \<open>BufferList\<close>. PosixSocket: the TCP socket, its server socket and worker.
  \<^item> Worker: choice of a worker, registered memory and pending connections of \<open>RDMAWorker\<close>. RdmaConnect: its \<open>connect\<close> and \<open>listen\<close>, from the
    initialisation of the device to the registered socket, and back when the connection fails.
  \<^item> SocketHandle: \<open>ConnectedSocket\<close> and \<open>ServerSocket\<close>, the owning handles; locale \<open>socket_impl\<close> with the four implementations as
    instances.

  \<^bold>\<open>Events and threads.\<close>
  \<^item> EventDriver: \<open>EpollDriver\<close> and \<open>SelectDriver\<close>, instances of one driver interface. The kernel's answers to \<open>epoll_ctl\<close> are an argument; it may refuse any call.
  \<^item> EventCenter: file, time and external events, pollers, \<open>process_events\<close>; the table and the driver agree, or the kernel refused and the process aborts. EventSubmit: \<open>submit_to\<close> with its condition variable.
  \<^item> StackThreads: \<open>NetworkStack::start\<close> and \<open>stop\<close> against the worker threads, without the spin lock. NetworkStack: \<open>create\<close> with the counters, \<open>drain\<close>.
    SpinLock: the spin lock under \<open>get_worker\<close> and \<open>stop\<close>, with the deadlock and when \<open>stop\<close> returns. WorkerInit: the initialisation flag of a worker with its mutex and condition variable.

  \<^bold>\<open>Connections and multicast.\<close>
  \<^item> Connection: the state machine of a connection. Acceptor: \<open>NetHandler\<close>, \<open>Processor\<close>, \<open>Server::bind\<close>, \<open>RDMAServerSocketImpl\<close>.
    ServerConns: the connections a \<open>Server\<close> keeps. ServerLife: its constructor, \<open>start\<close>, \<open>stop\<close> and destructor.
  \<^item> SwitchTable: \<open>SwitchTableWritter\<close>. Multicast: \<open>MulticastDaemon\<close>: a group is set up in every interleaving, and a client is answered
    only after its group is in the switch.

  \<^bold>\<open>Support.\<close>
  \<^item> EntityAddr: \<open>entity_addr_t\<close>. Config: \<open>Config\<close>. AppContext: \<open>Context\<close>, and the sizes of the receive pool. UTime: \<open>common_time.h\<close> and \<open>common_time.cc\<close>. Double: rounding and the
    arithmetic of \<open>double\<close>, with the locale \<open>rounded\<close> of its laws. CycleClock: \<open>Cycles\<close> and the rate logger, exact or with error bounds.
    TimeDouble: \<open>utime_t\<close> and \<open>double\<close>, rounding to the calendar. Clocks: the four clocks, interpreted in the locale \<open>clock\<close>: differences
    are exact, and the way through a \<open>double\<close> has a bounded error.
  \<^item> OStream: the part of \<open>std::ostream\<close> the formatters use. Escape: the escapers. JsonFormatter, XmlFormatter, TableFormatter: the
    formatters; a tree dumped through the first two prints the text of the tree, for JSON when the names of the members need no escape. FloatText: the text of a \<open>double\<close> and \<open>dump_float\<close>; the number
    can be read back exactly. FormatterApi: the interface \<open>Formatter\<close> and its section guards, in the locale \<open>sections\<close>: scopes balance.
  \<^item> PerfHistogram, PerfCounters, PerfCollection: the counters, their types, the lock-free average, the index by path. CounterLife: their
    destructors, the locked collection, \<open>PerfGuard\<close> and \<open>avg_tracker\<close>.
  \<^item> Statistic: the logger terms of \<open>statistic.h\<close>. ContainerLog: the terms that are templates over a container, with the locale \<open>container\<close>.

  This theory adds what spans components: the messages the multicast daemon writes are what the sockets read.

  \<^bold>\<open>Not modelled.\<close> Reading the machine's clocks (a reading is an argument); the GID scan under HAVE_IBV_EXP, which cannot be compiled; log output; the test and benchmark programs; the Python script behind the switch table.\<close>

section \<open>The daemon and the sockets\<close>

lemma scan_mc_msg:
  assumes "length gd = 16"
  shows "scan_fields 8 (mc_msg a b c d e f g h (gid_to_wire_gid gd)) =
    ([ucast a, ucast b, ucast c, ucast d, ucast e, ucast f, ucast g, ucast h], Some (gid_to_wire_gid gd))"
proof -
  let ?ps = "[(4, unat a), (8, unat b), (8, unat c), (8, unat d), (8, unat e), (4, unat f), (8, unat g), (4, unat h)] :: (nat \<times> nat) list"
  have small: "unat (x :: u32) < 18446744073709551616" "unat (y :: u16) < 18446744073709551616" for x y
    using unat_less_u32 [of x] unat_less_u16 [of y] by simp_all
  have ps: "\<forall>p \<in> set ?ps. snd p < 2 ^ 64" using small by simp
  have nonempty: "gid_to_wire_gid gd \<noteq> []" using length_gid_to_wire_gid [of gd] by fastforce
  have chars: "\<forall>c \<in> set (gid_to_wire_gid gd). \<not> isspace c" using gid_to_wire_gid_xdigits xdigit_not_special(1) by blast
  have eight: "length ?ps = 8" by simp
  show ?thesis using scan_fields_print [OF ps nonempty chars, unfolded eight] by (simp add: mc_msg_def)
qed

lemma mc_msg_no_NUL: "NUL \<notin> set (mc_msg a b c d e f g h (gid_to_wire_gid gd))"
proof -
  have "NUL \<notin> set (hex_pad w n)" for w n using hex_pad_xdigits [of w n] xdigit_not_NUL by blast
  moreover have "NUL \<notin> set (gid_to_wire_gid gd)" using gid_to_wire_gid_xdigits [of NUL gd] xdigit_not_NUL [of NUL] by blast
  ultimately show ?thesis by (simp add: mc_msg_def print_fields_def)
qed

lemma recv_mc_msg:
  assumes "length gd = 16"
  shows "recv_cm_meta (int TCP_MSG_LEN) err (mc_msg a b c d e f g h (gid_to_wire_gid gd) @ NUL # rest) junk v m0 =
    Inr (int TCP_MSG_LEN, \<lparr>cm_lid = a, cm_local_qpn = b, cm_psn = c, cm_peer_qpn = d, cm_gid = gd\<rparr>)"
proof -
  have pos: "\<not> int TCP_MSG_LEN < 0" "int TCP_MSG_LEN \<noteq> 0" by (simp_all add: TCP_MSG_LEN_def)
  have "assign_fields [ucast a, ucast b, ucast c, ucast d, ucast e, ucast f, ucast g, ucast h] m0 =
      \<lparr>cm_lid = a, cm_local_qpn = b, cm_psn = c, cm_peer_qpn = d, cm_gid = cm_gid m0\<rparr>"
    by (cases m0) (simp add: assign_fields_def)
  then show ?thesis
    unfolding recv_cm_meta_def c_string_append_NUL [OF mc_msg_no_NUL] scan_mc_msg [OF assms]
    using pos wire_gid_roundtrip [OF assms] by simp
qed

text \<open>C21: The daemon speaks the language of the sockets. The message with which it answers the client is a complete handshake
  message for the client's \<open>recv_cm_meta\<close>: the client's queue pair gets the group number as the peer's queue pair, its own number as
  the one the peer knows, its own PSN, and the LID of the first and the GID of the second member. The messages to
  the members are complete too, and present the client itself: its LID, queue pair number, PSN and GID, and the member's own number as
  the one the peer knows. A complete message is one for which \<open>recv_cm_meta\<close> returns the number of bytes read, \<open>TCP_MSG_LEN\<close>, and not the 0 of its comment.\<close>

theorem daemon_messages_understood:
  assumes "length (receiver_gid m ! 1) = 16" "length (sender_gid m) = 16"
  shows "length (client_msg i m) + 1 = TCP_MSG_LEN \<and> length (server_msg k m) + 1 = TCP_MSG_LEN \<and>
    recv_cm_meta (int TCP_MSG_LEN) err (client_msg i m @ [NUL]) junk v m0 =
      Inr (int TCP_MSG_LEN, \<lparr>cm_lid = receiver_lid m ! 0, cm_local_qpn = i, cm_psn = sender_psn m, cm_peer_qpn = sender_local_qpn m,
        cm_gid = receiver_gid m ! 1\<rparr>) \<and>
    recv_cm_meta (int TCP_MSG_LEN) err (server_msg k m @ [NUL]) junk v m0 =
      Inr (int TCP_MSG_LEN, \<lparr>cm_lid = sender_lid m, cm_local_qpn = sender_local_qpn m, cm_psn = sender_psn m,
        cm_peer_qpn = receiver_local_qpn m ! k, cm_gid = sender_gid m\<rparr>)"
  using assms by (simp add: client_msg_def server_msg_def length_mc_msg recv_mc_msg)

definition example_meta :: mc_meta where
  "example_meta = \<lparr>sender_lid = 1, sender_local_qpn = 260, sender_psn = 520, sender_peer_qpn = 0,
     receiver_lid = [2, 3], receiver_local_qpn = [300, 301], receiver_psn = [520, 520], receiver_peer_qpn = [0, 0],
     sender_gid = replicate 16 7, receiver_gid = [replicate 16 8, replicate 16 9]\<rparr>"

theorem daemon_messages_understood_witness:
  "recv_cm_meta (int TCP_MSG_LEN) 0 (client_msg 3 example_meta @ [NUL]) [] 0 \<lparr>cm_lid = 0, cm_local_qpn = 0, cm_psn = 0, cm_peer_qpn = 0, cm_gid = []\<rparr> =
    Inr (int TCP_MSG_LEN, \<lparr>cm_lid = 2, cm_local_qpn = 3, cm_psn = 520, cm_peer_qpn = 260, cm_gid = replicate 16 9\<rparr>)"
  using daemon_messages_understood [of example_meta 3 0 0 "[]" 0 "\<lparr>cm_lid = 0, cm_local_qpn = 0, cm_psn = 0, cm_peer_qpn = 0, cm_gid = []\<rparr>"]
  by (simp add: example_meta_def)

end
